(* ===== verification/Prelude.thy ===== *)
theory Prelude
  imports Main "HOL-Library.Word"
begin

text \<open>
  Shared vocabulary of the development: the C types, the loop combinators the models are
  written with, and the generic lemmas on words and lists that the component theories use.
  A C loop \<open>for (i = a; i < b; i++) s = f(i, s)\<close> is \<open>fold f [a..<b] s\<close>; an array is a list
  whose elements are updated by index.
\<close>

unbundle bit_operations_syntax

type_synonym gf64_t = "64 word"
type_synonym uint32_t = "32 word"

named_theorems gf64_to_gf
  \<comment> \<open>equations that carry a machine-level operation to the abstract field\<close>

section \<open>Counting loops\<close>

text \<open>The invariant rule of a counting loop.\<close>

lemma fold_upt_invariant:
  assumes "P a s" and "a \<le> b"
    and step: "\<And>i s. a \<le> i \<Longrightarrow> i < b \<Longrightarrow> P i s \<Longrightarrow> P (Suc i) (f i s)"
  shows "P b (fold f [a..<b] s)"
  using assms(2,1) step
proof (induction "b - a" arbitrary: a s)
  case 0
  then show ?case by simp
next
  case (Suc n)
  then have "a < b" by simp
  then have "[a..<b] = a # [Suc a..<b]" by (simp add: upt_conv_Cons)
  moreover have "P b (fold f [Suc a..<b] (f a s))"
    using Suc \<open>a < b\<close> by (intro Suc(1)) auto
  ultimately show ?case by simp
qed

lemma fold_upt_Suc: "a \<le> b \<Longrightarrow> fold f [a..<Suc b] s = f b (fold f [a..<b] s)"
  by simp

lemma length_fold_update [simp]:
  "length (fold (\<lambda>i ys. ys[p i := g i ys]) is ys) = length ys"
  by (induction "is" arbitrary: ys) auto

text \<open>
  A loop that writes slot \<open>i\<close> in iteration \<open>i\<close> from the slot's old value: what every slot
  holds afterwards.
\<close>

lemma fold_update_pointwise:
  assumes "b \<le> length ys" and "k < length ys"
  shows "fold (\<lambda>i ys. ys[i := g i (ys ! i)]) [a..<b] ys ! k =
    (if a \<le> k \<and> k < b then g k (ys ! k) else ys ! k)"
  using assms by (induction b) (auto simp: nth_list_update less_Suc_eq)

lemma fold_update_map:
  assumes "n \<le> length ys"
  shows "fold (\<lambda>i ys. ys[i := g i (ys ! i)]) [0..<n] ys =
    map (\<lambda>i. g i (ys ! i)) [0..<n] @ drop n ys"
  by (rule nth_equalityI) (use assms in \<open>auto simp: fold_update_pointwise nth_append\<close>)

lemma fold_const_update_map:
  assumes "n \<le> length ys"
  shows "fold (\<lambda>i ys. ys[i := g i]) [0..<n] ys = map g [0..<n] @ drop n ys"
  using fold_update_map [OF assms, of "\<lambda>i _. g i"] by simp

lemma Suc_numeral_shift:
  "i + 3 = Suc (Suc (Suc i))" "i + 4 = Suc (Suc (Suc (Suc i)))"
  "i + 5 = Suc (Suc (Suc (Suc (Suc i))))" "i + 6 = Suc (Suc (Suc (Suc (Suc (Suc i)))))"
  "i + 7 = Suc (Suc (Suc (Suc (Suc (Suc (Suc i))))))" for i :: nat
  by simp_all

text \<open>
  Unrolled loops: a loop over blocks of \<open>w\<close> elements whose body does \<open>w\<close> iterations at once,
  followed by a tail loop, is the plain loop.
\<close>

lemma fold_upt_append:
  "a \<le> b \<Longrightarrow> b \<le> c \<Longrightarrow> fold f [b..<c] (fold f [a..<b] s) = fold f [a..<c] s"
  using upt_add_eq_append [of a b "c - b"] by simp

lemma fold_upt_shift: "fold (\<lambda>k. f (i + k)) [0..<w] s = fold f [i..<i + w] s"
proof -
  have "[i..<i + w] = map ((+) i) [0..<w]" by (rule nth_equalityI) auto
  then show ?thesis by (simp add: fold_map comp_def)
qed

lemma fold_blocks:
  assumes "\<And>bl s. bl < n \<Longrightarrow> F bl s = fold f [w * bl..<w * bl + w] s"
  shows "fold F [0..<n] s = fold f [0..<w * n] s"
  using assms
proof (induction n)
  case (Suc n)
  then have "fold F [0..<Suc n] s = fold f [w * n..<w * n + w] (fold f [0..<w * n] s)"
    by simp
  also have "\<dots> = fold f [0..<w * Suc n] s"
    by (subst fold_upt_append) (simp_all add: add.commute)
  finally show ?case .
qed simp

lemma fold_blocks_tail:
  assumes "\<And>bl s. bl < N div w \<Longrightarrow> F bl s = fold f [w * bl..<w * bl + w] s"
  shows "fold f [w * (N div w)..<N] (fold F [0..<N div w] s) = fold f [0..<N] s"
  using fold_blocks [OF assms] by (simp add: fold_upt_append)

lemma fold_cong_upt:
  "(\<And>i s. a \<le> i \<Longrightarrow> i < b \<Longrightarrow> f i s = g i s) \<Longrightarrow> fold f [a..<b] s = fold g [a..<b] s"
  by (rule fold_cong) auto

text \<open>
  The shape of the vector batches: blocks of \<open>w\<close> elements, then the scalar routine \<open>T\<close> on the
  pointers advanced to the first element left, if any is left.
\<close>

lemma batch_with_tail:
  assumes block: "\<And>b s. F b s = fold (\<lambda>i out. out[i := g (inp ! i)]) [w * b..<w * b + w] s"
    and tail: "\<And>out inp N. N \<le> length out \<Longrightarrow>
      T out inp N = map (\<lambda>i. g (inp ! i)) [0..<N] @ drop N out"
    and N: "N \<le> length out" "N \<le> length inp"
  shows "(let blocks = N div w; out = fold F [0..<blocks] out; i = w * blocks
      in if i < N then take i out @ T (drop i out) (drop i inp) (N - i) else out) =
    map (\<lambda>i. g (inp ! i)) [0..<N] @ drop N out"
proof -
  let ?n = "w * (N div w)"
  have n: "?n \<le> N" by simp
  have blocks: "fold F [0..<N div w] out = map (\<lambda>i. g (inp ! i)) [0..<?n] @ drop ?n out"
    by (subst fold_blocks [OF block])
      (rule fold_const_update_map [OF order.trans [OF n N(1)]])
  have tail_map: "map (\<lambda>i. g (inp ! (?n + i))) [0..<N - ?n] = map (\<lambda>i. g (inp ! i)) [?n..<N]"
    using n N by (intro nth_equalityI) auto
  have "[0..<N] = [0..<?n] @ [?n..<N]"
    using n by (metis le0 le_add_diff_inverse upt_add_eq_append)
  with n N show ?thesis
    using le_antisym [of ?n N]
    by (cases "?n < N") (simp_all add: Let_def blocks tail tail_map)
qed

section \<open>Words\<close>

declare push_bit_Suc [simp del] drop_bit_Suc [simp del] take_bit_Suc [simp del]

lemma xor_self_left [simp]: "(a::'a::len word) XOR (a XOR b) = b"
  by (simp flip: xor.assoc)

lemma word_split_at:
  "a = push_bit n (drop_bit n a) XOR take_bit n a" for a :: "'a::len word"
  by (rule bit_word_eqI) (auto simp: bit_simps)

lemma not_bit_if_drop_bit_0: "drop_bit k a = 0 \<Longrightarrow> n \<ge> k \<Longrightarrow> \<not> bit a n" for a :: "'a::len word"
  using bit_drop_bit_eq [of k a] by (auto simp: fun_eq_iff dest: spec [of _ "n - k"])

end
