(* ===== verification/GF64_Ring.thy ===== *)
theory GF64_Ring
  imports Prelude
begin

text \<open>
  The abstract field that every component is verified against: \<open>gf\<close> is the type of the
  64-bit words, addition is XOR, and multiplication is the product of binary polynomials
  modulo \<open>x^64 + x^4 + x^3 + x + 1\<close>. This theory makes it a commutative ring (commutativity and
  associativity come from the algebra of the operator "multiply by x") and proves the shift
  identity that the code's reductions rest on. That it is a field is shown in GF64_Field. No
  definition here is translated from the code; the next theories show that the code's
  routines compute these operations.
\<close>

datatype gf = Gf (gf_rep: gf64_t)

lemma gf_eq_iff: "a = b \<longleftrightarrow> gf_rep a = gf_rep b"
  by (cases a; cases b) simp

instantiation gf :: ab_group_add
begin

definition zero_gf :: gf where "zero_gf = Gf 0"
definition plus_gf :: "gf \<Rightarrow> gf \<Rightarrow> gf" where "plus_gf a b = Gf (gf_rep a XOR gf_rep b)"
definition uminus_gf :: "gf \<Rightarrow> gf" where "uminus_gf a = a"
definition minus_gf :: "gf \<Rightarrow> gf \<Rightarrow> gf" where "minus_gf a b = Gf (gf_rep a XOR gf_rep b)"

instance
  by standard
    (auto simp: gf_eq_iff zero_gf_def plus_gf_def uminus_gf_def minus_gf_def
      xor.assoc intro: xor.commute)

end

lemma gf_rep_zero [simp]: "gf_rep 0 = 0" by (simp add: zero_gf_def)
lemma gf_rep_plus [simp]: "gf_rep (a + b) = gf_rep a XOR gf_rep b" by (simp add: plus_gf_def)
lemma Gf_zero [simp]: "Gf 0 = 0" by (simp add: zero_gf_def)
lemma Gf_eq_0_iff [simp]: "Gf a = 0 \<longleftrightarrow> a = 0" by (simp add: gf_eq_iff)
lemma Gf_xor [gf64_to_gf]: "Gf (a XOR b) = Gf a + Gf b" by (simp add: plus_gf_def)
lemma gf_add_self [simp]: "(a::gf) + a = 0" by (simp add: gf_eq_iff)
lemma gf_uminus [simp]: "- (a::gf) = a" by (simp add: uminus_gf_def)
lemma gf_minus [simp]: "(a::gf) - b = a + b" by (simp add: minus_gf_def plus_gf_def)
lemma gf_add_self_left [simp]: "(a::gf) + (a + b) = b" by (simp flip: add.assoc)
lemma gf_add_eq_0_iff: "(a::gf) + b = 0 \<longleftrightarrow> a = b"
  by (metis gf_add_self gf_add_self_left add.right_neutral)

section \<open>Multiplication by x, and the product\<close>

definition xtime :: "gf64_t \<Rightarrow> gf64_t" where
  "xtime a = (if bit a 63 then push_bit 1 a XOR 0x1B else push_bit 1 a)"

definition gfX :: "gf \<Rightarrow> gf" where "gfX a = Gf (xtime (gf_rep a))"

definition gmul :: "gf64_t \<Rightarrow> gf \<Rightarrow> gf" where
  "gmul a y = (\<Sum>i<64::nat. if bit a i then (gfX ^^ i) y else 0)"

lemma gfX_0 [simp]: "gfX 0 = 0" by (simp add: gfX_def xtime_def)

lemma gfX_add: "gfX (a + b) = gfX a + gfX b"
  by (simp add: gfX_def plus_gf_def xtime_def bit_xor_iff push_bit_xor ac_simps)

lemma gfXn_0 [simp]: "(gfX ^^ n) 0 = 0" by (induction n) auto

lemma gfXn_add: "(gfX ^^ n) (a + b) = (gfX ^^ n) a + (gfX ^^ n) b"
  by (induction n) (auto simp: gfX_add)

lemma additive_sum:
  assumes "\<And>a b. T (a + b) = T a + T b" and "T 0 = (0::gf)"
  shows "T (sum f A) = (\<Sum>i\<in>A. T (f i :: gf))"
  using assms by (induction A rule: infinite_finite_induct) auto

lemma gmul_0_right [simp]: "gmul a 0 = 0" by (simp add: gmul_def cong: if_cong)

lemma gmul_add_right: "gmul a (x + y) = gmul a x + gmul a y"
  unfolding gmul_def sum.distrib [symmetric]
  by (rule sum.cong) (auto simp: gfXn_add)

lemma gmul_xor_left: "gmul (a XOR b) y = gmul a y + gmul b y"
  unfolding gmul_def sum.distrib [symmetric]
  by (rule sum.cong) (auto simp: bit_xor_iff)

text \<open>An additive map that commutes with multiplication by x commutes with every product.\<close>

lemma gmul_commute_map:
  assumes add: "\<And>a b. T (a + b) = T a + T b" and zero: "T 0 = 0"
    and X: "\<And>a. T (gfX a) = gfX (T a)"
  shows "T (gmul a y) = gmul a (T y)"
proof -
  have "T ((gfX ^^ n) z) = (gfX ^^ n) (T z)" for n z
    by (induction n) (auto simp: X)
  then show ?thesis
    unfolding gmul_def additive_sum [of T, OF add zero]
    by (intro sum.cong) (auto simp: zero)
qed

lemma gfX_gmul: "gmul a (gfX y) = gfX (gmul a y)"
  by (rule gmul_commute_map [symmetric]) (auto simp: gfX_add)

lemma gmul_gmul_commute: "gmul a (gmul b y) = gmul b (gmul a y)"
  by (rule gmul_commute_map) (auto simp: gmul_add_right gfX_gmul)

lemma gfXn_Gf_1: "n < 64 \<Longrightarrow> (gfX ^^ n) (Gf 1) = Gf (push_bit n 1)"
proof (induction n)
  case (Suc n)
  then have "\<not> bit (push_bit n 1 :: gf64_t) 63"
    by (auto simp: bit_simps)
  with Suc show ?case
    by (simp add: gfX_def xtime_def push_bit_Suc)
qed simp

lemma take_bit_Suc_xor: "n < LENGTH('a) \<Longrightarrow>
    take_bit (Suc n) a = take_bit n a XOR (if bit a n then push_bit n 1 else 0)"
  for a :: "'a::len word"
  by (rule bit_word_eqI) (auto simp: bit_simps less_Suc_eq)

lemma gmul_1_right: "gmul a (Gf 1) = Gf a"
proof -
  have "(\<Sum>i<n. if bit a i then (gfX ^^ i) (Gf 1) else 0) = Gf (take_bit n a)" if "n \<le> 64" for n
    using that
    by (induction n) (auto simp: take_bit_Suc_xor gfXn_Gf_1 Gf_xor)
  from this [of 64] show ?thesis
    by (simp add: gmul_def take_bit_word_eq_self)
qed

lemma gmul_commute: "gmul (gf_rep a) b = gmul (gf_rep b) a"
  by (metis gmul_1_right gmul_gmul_commute gf.collapse)

lemma gmul_1_left: "gmul 1 y = y"
proof -
  have "gmul 1 y = (\<Sum>i<64::nat. if i = 0 then y else 0)"
    unfolding gmul_def by (rule sum.cong) (auto simp: bit_1_iff)
  then show ?thesis by simp
qed

instantiation gf :: comm_ring_1
begin

definition one_gf :: gf where "one_gf = Gf 1"
definition times_gf :: "gf \<Rightarrow> gf \<Rightarrow> gf" where "times_gf a b = gmul (gf_rep a) b"

instance
proof
  fix a b c :: gf
  show "a * b = b * a"
    by (simp add: times_gf_def gmul_commute)
  show "a * b * c = a * (b * c)"
    unfolding times_gf_def
    by (metis gmul_commute gmul_gmul_commute)
  show "(a + b) * c = a * c + b * c"
    by (simp add: times_gf_def gmul_xor_left)
  show "1 * a = a"
    by (simp add: times_gf_def one_gf_def gmul_1_left)
  show "(0::gf) \<noteq> 1"
    by (simp add: one_gf_def)
qed

end

lemma Gf_1 [simp]: "Gf 1 = 1" by (simp add: one_gf_def)
lemma gf_rep_1 [simp]: "gf_rep 1 = 1" by (simp add: one_gf_def del: Gf_1)
lemma Gf_eq_1_iff [simp]: "Gf a = 1 \<longleftrightarrow> a = 1" by (simp add: gf_eq_iff)

section \<open>The element x and shifts\<close>

definition gfx :: gf where "gfx = Gf 2"

lemma gmul_gfX_left: "gmul 2 y = gfX y"
proof -
  have "gmul 2 y = (\<Sum>i<64::nat. if i = 1 then gfX y else 0)"
    unfolding gmul_def
    by (rule sum.cong) (auto simp: bit_2_iff)
  then show ?thesis by simp
qed

lemma gfx_times: "gfx * y = gfX y"
  by (simp add: gfx_def times_gf_def gmul_gfX_left)

lemma gfx_power_times: "gfx ^ n * y = (gfX ^^ n) y"
  by (induction n arbitrary: y) (simp_all add: mult.assoc flip: gfx_times)

lemma gfx_power: "n < 64 \<Longrightarrow> gfx ^ n = Gf (push_bit n 1)"
  using gfx_power_times [of n 1] gfXn_Gf_1 [of n] by simp

lemma gf_decompose: "Gf a = (\<Sum>i<64::nat. if bit a i then gfx ^ i else 0)"
proof -
  have "Gf a = gmul a (Gf 1)" by (simp only: gmul_1_right)
  also have "\<dots> = (\<Sum>i<64::nat. if bit a i then gfx ^ i else 0)"
    unfolding gmul_def
    by (rule sum.cong) (use gfx_power_times [of _ 1] in \<open>auto\<close>)
  finally show ?thesis .
qed

lemma gfx_times_Gf:
  "gfx * Gf a = Gf (push_bit 1 a) + (if bit a 63 then Gf 0x1B else 0)"
  by (simp add: gfx_times gfX_def xtime_def Gf_xor)

lemma gfx_64: "gfx ^ 64 = Gf 0x1B"
proof -
  have "gfx ^ 64 = gfx * gfx ^ 63" by (simp flip: power_Suc)
  also have "gfx ^ 63 = Gf (push_bit 63 1)" by (rule gfx_power) simp
  also have "gfx * Gf (push_bit 63 1) = Gf 0x1B"
    by (subst gfx_times_Gf) (auto simp: bit_simps)
  finally show ?thesis .
qed

lemma Gf_27: "Gf 0x1B = gfx ^ 4 + gfx ^ 3 + gfx + 1"
proof -
  have "(0x1B::gf64_t) = 16 XOR 8 XOR 2 XOR 1" by simp
  then have "Gf 0x1B = Gf 16 + (Gf 8 + (Gf 2 + Gf 1))" by (simp only: Gf_xor)
  then show ?thesis by (simp add: gfx_power add.assoc gfx_def [symmetric])
qed

lemmas gfx_64_poly = gfx_64 [unfolded Gf_27]

text \<open>
  Multiplying by \<open>x^k\<close> is a left shift, plus the bits shifted out brought back by \<open>x^64\<close>.
  This is the identity every reduction routine of the code rests on.
\<close>

lemma gfx_power_shift:
  assumes "k \<le> 64"
  shows "gfx ^ k * Gf a = Gf (push_bit k a) + gfx ^ 64 * Gf (drop_bit (64 - k) a)"
  using assms
proof (induction k)
  case 0
  have "drop_bit 64 a = 0" by (rule bit_word_eqI) (auto simp: bit_simps)
  then show ?case by simp
next
  case (Suc k)
  let ?d = "drop_bit (64 - k) a"
  have top: "\<not> bit ?d 63"
    using Suc.prems by (auto simp: bit_simps dest: bit_imp_le_length)
  have d: "drop_bit (64 - Suc k) a =
      push_bit 1 ?d XOR (if bit (push_bit k a) 63 then 1 else 0)"
  proof (rule bit_word_eqI)
    fix n :: nat
    have *: "64 - k = Suc (63 - k)" "64 - Suc k = 63 - k" using Suc.prems by auto
    show "bit (drop_bit (64 - Suc k) a) n \<longleftrightarrow>
        bit (push_bit 1 ?d XOR (if bit (push_bit k a) 63 then 1 else 0)) n"
      using Suc.prems unfolding *
      by (cases n) (auto simp: bit_simps dest: bit_imp_le_length)
  qed
  have "gfx ^ Suc k * Gf a = gfx * Gf (push_bit k a) + gfx ^ 64 * (gfx * Gf ?d)"
    using Suc by (simp add: distrib_left mult.assoc mult.left_commute)
  also have "gfx * Gf ?d = Gf (push_bit 1 ?d)"
    using top by (simp add: gfx_times_Gf)
  also have "gfx * Gf (push_bit k a) =
      Gf (push_bit (Suc k) a) + (if bit (push_bit k a) 63 then gfx ^ 64 else 0)"
    by (simp add: gfx_times_Gf gfx_64 push_bit_push_bit)
  finally show ?case
    unfolding d by (auto simp: Gf_xor distrib_left add.assoc add.left_commute)
qed

section \<open>Squaring is additive\<close>

lemma gf_square_add: "(a + b) ^ 2 = a ^ 2 + (b::gf) ^ 2"
proof -
  have "(a + b) ^ 2 = a ^ 2 + b ^ 2 + (a * b + a * b)"
    by (simp add: power2_eq_square distrib_left distrib_right ac_simps)
  then show ?thesis by (simp only: gf_add_self add_0_right)
qed

lemma gf_frobenius_add: "(a + b) ^ (2 ^ n) = a ^ (2 ^ n) + (b::gf) ^ (2 ^ n)"
proof (induction n)
  case (Suc n)
  have p: "c ^ (2 ^ Suc n) = (c ^ (2 ^ n)) ^ 2" for c :: gf
    by (simp add: mult.commute flip: power_mult)
  show ?case unfolding p Suc by (rule gf_square_add)
qed simp

lemma gf_frobenius_sum:
  "(sum f A) ^ (2 ^ n) = (\<Sum>i\<in>A. (f i :: gf) ^ (2 ^ n))"
  by (rule additive_sum) (auto simp: gf_frobenius_add zero_power)

lemma gf_square_sum: "(sum f A) ^ 2 = (\<Sum>i\<in>A. (f i :: gf) ^ 2)"
  by (rule additive_sum) (auto simp: gf_square_add)

text \<open>An element fixed by \<open>n\<close> squarings when \<open>x\<close> is.\<close>

lemma gf_fixed_if_x_fixed:
  assumes "gfx ^ (2 ^ n) = gfx"
  shows "a ^ (2 ^ n) = (a::gf)"
proof -
  have "(gfx ^ i) ^ (2 ^ n) = gfx ^ i" for i
    by (metis assms power_mult mult.commute)
  then have "(Gf (gf_rep a)) ^ (2 ^ n) = Gf (gf_rep a)"
    unfolding gf_decompose [of "gf_rep a"] gf_frobenius_sum
    by (intro sum.cong) (auto simp: zero_power)
  then show ?thesis by simp
qed

end
