(* ===== verification/GF64_Irreducible.thy ===== *)
theory GF64_Irreducible
  imports GF64_Ring
begin

text \<open>
  Half of the proof that the ring of GF64_Ring is a field: an element equal to its own
  square is 0 or 1. The other half, \<open>x^(2^64) = x\<close>, is evaluated in GF64_Field with the code's
  own squaring routine.
\<close>


section \<open>Only 0 and 1 are fixed by squaring\<close>

text \<open>
  \<open>berlekamp_cert\<close> lists the values of a linear map \<open>T\<close> on the powers \<open>x^0 .. x^66\<close>. It is a
  left inverse of \<open>z \<mapsto> z^2 + z\<close> up to the constant term: the check below is finite, and it is
  all that irreducibility needs.
\<close>

definition berlekamp_cert :: "gf64_t list" where
  "berlekamp_cert = [
   0x19C9369F278ADC02, 0x84B2B22AB2383EE4, 0x84B2B22AB2383EE6,
   0x9D7B84B495B3E3F6, 0x84B2B22AB2383EE2, 0x37C470B49213F790,
   0x9D7B84B495B3E3FE, 0x0001000A0105137C, 0x84B2B22AB2383EF2,
   0x368E964A8EDCE1FC, 0x37C470B49213F7B0, 0x19C9368E278FDF4C,
   0x9D7B84B495B3E3BE, 0x2E4DA23CBC7D4570, 0x0001000A010513FC,
   0x84F35772BAC24232, 0x84B2B22AB2383FF2, 0x37C570BA9314E4FC,
   0x368E964A8EDCE3FC, 0xB377C390213CDB0E, 0x37C470B49213F3B0,
   0x85ED5A3AA99C24F2, 0x19C9368E278FD74C, 0xAABFF0000780000E,
   0x9D7B84B495B3F3BE, 0x84B6B3DAB03038F2, 0x2E4DA23CBC7D6570,
   0x000511EA03494FFC, 0x0001000A010553FC, 0xAE0C0220343C6C0E,
   0x84F35772BAC2C232, 0x800000008000000E, 0x84B2B22AB2393FF2,
   0xB376C29C202BC97E, 0x37C570BA9316E4FC, 0x9C3062488879E6CE,
   0x368E964A8ED8E3FC, 0x0041E42C08E47E70, 0xB377C3902134DB0E,
   0x85B9B108A60F56CE, 0x37C470B49203F3B0, 0x19DD3B6E21F3CB4C,
   0x85ED5A3AA9BC24F2, 0x198DDF682C428AC0, 0x19C9368E27CFD74C,
   0x04B7C68431CA84B0, 0xAABFF0000700000E, 0x8040655489FFEFBE,
   0x9D7B84B494B3F3BE, 0x18C1354E32BFA74C, 0x84B6B3DAB23038F2,
   0xAAF613CC0F74627E, 0x2E4DA23CB87D6570, 0x3248B3D6B3342A8C,
   0x000511EA0B494FFC, 0xB60813C00E70700E, 0x0001000A110553FC,
   0x1E0D022A05393FFC, 0xAE0C0220143C6C0E, 0x0E0C0220143C6C00,
   0x84F35772FAC2C232, 0x0000000000000000, 0x800000000000000E,
   0xC041E55948FBFDCE, 0x84B2B22BB2393FF2, 0xB376C29E202BC970,
   0xB376C29E202BC97E]"

definition berlekamp_map :: "gf \<Rightarrow> gf" where
  "berlekamp_map y = (\<Sum>i<64::nat. if bit (gf_rep y) i then Gf (berlekamp_cert ! i) else 0)"

lemma berlekamp_cert_high:
  "berlekamp_cert ! 64 = berlekamp_cert ! 4 XOR berlekamp_cert ! 3 XOR berlekamp_cert ! 1 XOR berlekamp_cert ! 0"
  "berlekamp_cert ! 65 = berlekamp_cert ! 5 XOR berlekamp_cert ! 4 XOR berlekamp_cert ! 2 XOR berlekamp_cert ! 1"
  "berlekamp_cert ! 66 = berlekamp_cert ! 6 XOR berlekamp_cert ! 5 XOR berlekamp_cert ! 3 XOR berlekamp_cert ! 2"
  by (simp_all add: berlekamp_cert_def)

lemma berlekamp_cert_low_check:
  "list_all (\<lambda>i. berlekamp_cert ! (2 * i) XOR berlekamp_cert ! i = push_bit i 1) [1..<32]"
  by code_simp

lemma berlekamp_cert_high_check:
  "list_all (\<lambda>i. berlekamp_cert ! (2 * i - 60) XOR berlekamp_cert ! (2 * i - 61) XOR
     berlekamp_cert ! (2 * i - 63) XOR berlekamp_cert ! (2 * i - 64) XOR
     berlekamp_cert ! i = push_bit i 1) [32..<64]"
  by code_simp

lemma berlekamp_map_0 [simp]: "berlekamp_map 0 = 0"
  by (simp add: berlekamp_map_def)

lemma berlekamp_map_add: "berlekamp_map (a + b) = berlekamp_map a + berlekamp_map b"
  unfolding berlekamp_map_def sum.distrib [symmetric]
  by (rule sum.cong) (auto simp: bit_xor_iff)

lemma berlekamp_map_power_low:
  assumes "k < 64"
  shows "berlekamp_map (gfx ^ k) = Gf (berlekamp_cert ! k)"
proof -
  have "berlekamp_map (gfx ^ k) = (\<Sum>i<64::nat. if i = k then Gf (berlekamp_cert ! k) else 0)"
    unfolding berlekamp_map_def gfx_power [OF assms]
    by (rule sum.cong) (auto simp: bit_simps)
  with assms show ?thesis by simp
qed

lemma gfx_power_add_64: "gfx ^ (64 + j) = gfx ^ (j + 4) + gfx ^ (j + 3) + gfx ^ (j + 1) + gfx ^ j"
  by (simp only: power_add gfx_64_poly) (simp add: distrib_left distrib_right mult.commute)

lemma berlekamp_map_power:
  assumes "k < 67"
  shows "berlekamp_map (gfx ^ k) = Gf (berlekamp_cert ! k)"
proof (cases "k < 64")
  case False
  with assms consider "k = 64 + 0" | "k = 64 + 1" | "k = 64 + 2" by linarith
  then show ?thesis
    by cases (simp_all only: gfx_power_add_64 berlekamp_map_add, simp_all add:
      berlekamp_map_power_low berlekamp_cert_high Gf_xor add.assoc
      berlekamp_map_power_low [of 2, unfolded power2_eq_square]
      berlekamp_map_power_low [of 1, simplified] berlekamp_map_power_low [of 0, simplified])
qed (rule berlekamp_map_power_low)

lemma berlekamp_map_basis:
  assumes "0 < i" and "i < 64"
  shows "berlekamp_map (gfx ^ (2 * i) + gfx ^ i) = gfx ^ i"
proof (cases "i < 32")
  case True
  with assms berlekamp_cert_low_check
  have "berlekamp_cert ! (2 * i) XOR berlekamp_cert ! i = push_bit i 1"
    unfolding list_all_iff set_upt by (metis One_nat_def Suc_leI atLeastLessThan_iff)
  moreover have "berlekamp_map (gfx ^ (2 * i) + gfx ^ i) =
      Gf (berlekamp_cert ! (2 * i) XOR berlekamp_cert ! i)"
    using True by (simp add: berlekamp_map_add berlekamp_map_power Gf_xor)
  ultimately show ?thesis using assms by (simp add: gfx_power)
next
  case False
  with assms berlekamp_cert_high_check
  have c: "berlekamp_cert ! (2 * i - 60) XOR berlekamp_cert ! (2 * i - 61) XOR
      berlekamp_cert ! (2 * i - 63) XOR berlekamp_cert ! (2 * i - 64) XOR
      berlekamp_cert ! i = push_bit i 1"
    unfolding list_all_iff set_upt by (meson atLeastLessThan_iff not_less)
  obtain j where j: "i = 32 + j" "j < 32"
    using False assms(2) by (metis add_diff_inverse_nat nat_add_left_cancel_less numeral_Bit0)
  have "gfx ^ (2 * i) = gfx ^ (64 + 2 * j)" by (simp add: j)
  then have "berlekamp_map (gfx ^ (2 * i) + gfx ^ i) =
      Gf (berlekamp_cert ! (2 * j + 4)) + Gf (berlekamp_cert ! (2 * j + 3)) +
      Gf (berlekamp_cert ! (2 * j + 1)) + Gf (berlekamp_cert ! (2 * j)) + Gf (berlekamp_cert ! i)"
    using j(2) assms(2)
    by (simp only: gfx_power_add_64 berlekamp_map_add) (simp add: berlekamp_map_power del: power_Suc)
  also have "\<dots> = Gf (push_bit i 1)"
    unfolding c [symmetric] by (simp add: j(1) Gf_xor add.assoc add.commute)
  finally show ?thesis using assms by (simp add: gfx_power)
qed

lemma berlekamp_map_inverts:
  "berlekamp_map (z ^ 2 + z) = z + (if bit (gf_rep z) 0 then 1 else 0)"
proof -
  let ?b = "\<lambda>i. if bit (gf_rep z) i then gfx ^ i else 0"
  let ?t = "\<lambda>i. if i \<noteq> 0 \<and> bit (gf_rep z) i then gfx ^ i else 0"
  have z: "z = (\<Sum>i<64::nat. ?b i)"
    using gf_decompose [of "gf_rep z"] by simp
  have "berlekamp_map (z ^ 2 + z) = (\<Sum>i<64::nat. berlekamp_map (?b i ^ 2 + ?b i))"
    by (subst (1 2) z)
       (simp only: gf_square_sum sum.distrib [symmetric]
         additive_sum [of berlekamp_map, OF berlekamp_map_add berlekamp_map_0])
  also have "\<dots> = (\<Sum>i<64::nat. ?t i)"
  proof (rule sum.cong)
    fix i :: nat assume "i \<in> {..<64}"
    then show "berlekamp_map (?b i ^ 2 + ?b i) = ?t i"
      using berlekamp_map_basis [of i]
      by (cases "i = 0") (auto simp: mult.commute simp flip: power_mult)
  qed simp
  also have "\<dots> = (\<Sum>i<64::nat. ?b i + (if i = 0 then ?b 0 else 0))"
    by (rule sum.cong) auto
  also have "\<dots> = z + ?b 0"
    by (simp add: sum.distrib flip: z)
  finally show ?thesis by simp
qed

lemma gf_idempotent:
  assumes "z ^ 2 = (z::gf)"
  shows "z = 0 \<or> z = 1"
  using berlekamp_map_inverts [of z] assms by (auto simp: gf_add_eq_0_iff split: if_splits)

end
