(* ===== verification/GF64_Simd.thy ===== *)
theory GF64_Simd
  imports GF64_Ring
begin

text \<open>
  The vector intrinsics the kernels are written with. A register is the list of its 64-bit
  lanes, lane 0 first, so a 128-, 256- and 512-bit register has 2, 4 and 8 lanes and one
  definition serves the three widths. These are the operations of the compiler's intrinsics
  header, as the language defines them; the kernels that use them are in the component theories.
\<close>

type_synonym vec = "gf64_t list"

section \<open>Carry-less multiplication\<close>

definition clmul64 :: "gf64_t \<Rightarrow> gf64_t \<Rightarrow> 128 word" where
  "clmul64 a b =
    fold (\<lambda>i acc. if bit a i then acc XOR push_bit i (ucast b) else acc) [0..<64] 0"

text \<open>
  \<open>clmulepi64 a b imm\<close>: in every 128-bit block, the carry-less product of the lane of \<open>a\<close> that
  bit 0 of \<open>imm\<close> selects and the lane of \<open>b\<close> that bit 4 selects.
\<close>

fun clmulepi64 :: "vec \<Rightarrow> vec \<Rightarrow> nat \<Rightarrow> vec" where
  "clmulepi64 (a0 # a1 # as) (b0 # b1 # bs) imm =
    (let p = clmul64 (if bit imm 0 then a1 else a0) (if bit imm 4 then b1 else b0)
     in ucast p # ucast (drop_bit 64 p) # clmulepi64 as bs imm)"
| "clmulepi64 _ _ _ = []"

section \<open>Lane-wise operations\<close>

definition vxor :: "vec \<Rightarrow> vec \<Rightarrow> vec" where "vxor a b = map2 (XOR) a b"
definition vand :: "vec \<Rightarrow> vec \<Rightarrow> vec" where "vand a b = map2 (AND) a b"
definition vor :: "vec \<Rightarrow> vec \<Rightarrow> vec" where "vor a b = map2 (OR) a b"
definition vslli :: "vec \<Rightarrow> nat \<Rightarrow> vec" where "vslli a n = map (push_bit n) a"
definition vsrli :: "vec \<Rightarrow> nat \<Rightarrow> vec" where "vsrli a n = map (drop_bit n) a"

definition mm_set_epi64x :: "gf64_t \<Rightarrow> gf64_t \<Rightarrow> vec" where
  "mm_set_epi64x e1 e0 = [e0, e1]"

definition mm_set_epi32 :: "uint32_t \<Rightarrow> uint32_t \<Rightarrow> uint32_t \<Rightarrow> uint32_t \<Rightarrow> vec" where
  "mm_set_epi32 e3 e2 e1 e0 =
    [ucast e0 OR push_bit 32 (ucast e1), ucast e2 OR push_bit 32 (ucast e3)]"

definition mm_cvtsi128_si64 :: "vec \<Rightarrow> gf64_t" where "mm_cvtsi128_si64 a = a ! 0"

definition mm_unpacklo_epi64 :: "vec \<Rightarrow> vec \<Rightarrow> vec" where "mm_unpacklo_epi64 a b = [a ! 0, b ! 0]"
definition mm_unpackhi_epi64 :: "vec \<Rightarrow> vec \<Rightarrow> vec" where "mm_unpackhi_epi64 a b = [a ! 1, b ! 1]"

definition mm_srli_si128_8 :: "vec \<Rightarrow> vec" where "mm_srli_si128_8 a = [a ! 1, 0]"

text \<open>
  256-bit forms: a cast to 256 bits leaves the upper lanes undefined, so the register is modelled
  with its two defined lanes; \<open>extracti128\<close> (and \<open>extracti32x4\<close>) takes 128-bit block \<open>k\<close>.
\<close>

definition mm256_setr_epi64x :: "gf64_t \<Rightarrow> gf64_t \<Rightarrow> gf64_t \<Rightarrow> gf64_t \<Rightarrow> vec" where
  "mm256_setr_epi64x e0 e1 e2 e3 = [e0, e1, e2, e3]"

definition mm256_castsi256_si128 :: "vec \<Rightarrow> vec" where "mm256_castsi256_si128 a = take 2 a"
definition mm256_castsi128_si256 :: "vec \<Rightarrow> vec" where "mm256_castsi128_si256 a = a"
definition extract_block :: "vec \<Rightarrow> nat \<Rightarrow> vec" where
  "extract_block a k = [a ! (2 * k), a ! (2 * k + 1)]"

text \<open>
  512-bit forms: \<open>mm512_set_epi64\<close> lists the highest lane first, \<open>mm512_permutex2var_epi64\<close>
  picks from the 16 lanes of \<open>a\<close> and \<open>b\<close>, a masked expand-load fills the lanes whose mask bit is
  set with consecutive elements, and a masked store writes only the lanes whose mask bit is set.
\<close>

definition vset1 :: "nat \<Rightarrow> gf64_t \<Rightarrow> vec" where "vset1 n c = replicate n c"

definition mm512_set_epi64 ::
  "gf64_t \<Rightarrow> gf64_t \<Rightarrow> gf64_t \<Rightarrow> gf64_t \<Rightarrow> gf64_t \<Rightarrow> gf64_t \<Rightarrow> gf64_t \<Rightarrow> gf64_t \<Rightarrow> vec" where
  "mm512_set_epi64 e7 e6 e5 e4 e3 e2 e1 e0 = [e0, e1, e2, e3, e4, e5, e6, e7]"

definition mm512_permutex2var_epi64 :: "vec \<Rightarrow> nat list \<Rightarrow> vec \<Rightarrow> vec" where
  "mm512_permutex2var_epi64 a idx b =
    map (\<lambda>k. if 8 \<le> k then b ! (k mod 8) else a ! (k mod 8)) idx"

definition vloadu :: "nat \<Rightarrow> gf64_t list \<Rightarrow> nat \<Rightarrow> vec" where
  "vloadu w mem i = map (\<lambda>k. mem ! (i + k)) [0..<w]"

definition vstoreu :: "gf64_t list \<Rightarrow> nat \<Rightarrow> vec \<Rightarrow> gf64_t list" where
  "vstoreu mem i v = fold (\<lambda>k mem. mem[i + k := v ! k]) [0..<length v] mem"

fun maskz_expandloadu :: "bool list \<Rightarrow> gf64_t list \<Rightarrow> nat \<Rightarrow> vec" where
  "maskz_expandloadu [] mem i = []"
| "maskz_expandloadu (m # ms) mem i =
    (if m then mem ! i # maskz_expandloadu ms mem (Suc i) else 0 # maskz_expandloadu ms mem i)"

definition mask_storeu :: "gf64_t list \<Rightarrow> nat \<Rightarrow> bool list \<Rightarrow> vec \<Rightarrow> gf64_t list" where
  "mask_storeu mem i ms v =
    fold (\<lambda>k mem. if ms ! k then mem[i + k := v ! k] else mem) [0..<length v] mem"

definition mask8 :: "nat \<Rightarrow> bool list" where "mask8 m = map (\<lambda>k. bit m k) [0..<8]"

definition maskz_loadu :: "bool list \<Rightarrow> gf64_t list \<Rightarrow> nat \<Rightarrow> vec" where
  "maskz_loadu ms mem i = map (\<lambda>k. if ms ! k then mem ! (i + k) else 0) [0..<length ms]"

lemmas simd_defs = vxor_def vand_def vor_def vslli_def vsrli_def mm_set_epi64x_def
  mm_unpacklo_epi64_def mm_unpackhi_epi64_def mm_set_epi32_def mm_cvtsi128_si64_def mm_srli_si128_8_def

lemma length_simd [simp]:
  "length (vxor a b) = min (length a) (length b)"
  "length (vand a b) = min (length a) (length b)"
  "length (vor a b) = min (length a) (length b)"
  "length (vslli a n) = length a"
  "length (vsrli a n) = length a"
  by (simp_all add: simd_defs)

lemma nth_simd [simp]:
  "\<lbrakk>i < length a; i < length b\<rbrakk> \<Longrightarrow> vxor a b ! i = a ! i XOR b ! i"
  "\<lbrakk>i < length a; i < length b\<rbrakk> \<Longrightarrow> vand a b ! i = a ! i AND b ! i"
  "\<lbrakk>i < length a; i < length b\<rbrakk> \<Longrightarrow> vor a b ! i = a ! i OR b ! i"
  "i < length a \<Longrightarrow> vslli a n ! i = push_bit n (a ! i)"
  "i < length a \<Longrightarrow> vsrli a n ! i = drop_bit n (a ! i)"
  by (simp_all add: simd_defs)

lemma vstoreu_map:
  "vstoreu out i (map (\<lambda>k. g (i + k)) [0..<w]) = fold (\<lambda>k out. out[k := g k]) [i..<i + w] out"
proof -
  have "vstoreu out i (map (\<lambda>k. g (i + k)) [0..<w]) =
      fold (\<lambda>k out. out[i + k := g (i + k)]) [0..<w] out"
    unfolding vstoreu_def by (rule fold_cong) auto
  also have "\<dots> = fold (\<lambda>k out. out[k := g k]) [i..<i + w] out"
    by (rule fold_upt_shift)
  finally show ?thesis .
qed

section \<open>The product as an element of the field\<close>

definition gf128 :: "128 word \<Rightarrow> gf" where
  "gf128 p = Gf (ucast p) + gfx ^ 64 * Gf (ucast (drop_bit 64 p))"

lemma gf128_0 [simp]: "gf128 0 = 0"
  by (simp add: gf128_def)

lemma ucast_xor: "ucast (p XOR q) = ucast p XOR ucast q"
  by (rule bit_word_eqI) (auto simp: bit_simps)

lemma gf128_xor: "gf128 (p XOR q) = gf128 p + gf128 q"
  unfolding gf128_def drop_bit_xor ucast_xor Gf_xor
  by (subst distrib_left) (simp only: add.assoc add.left_commute)

lemma gf128_shift:
  assumes "i < 64"
  shows "gf128 (push_bit i (ucast a)) = gfx ^ i * Gf (a :: gf64_t)"
proof -
  have lo: "ucast (push_bit i (ucast a :: 128 word)) = push_bit i a"
    by (rule bit_word_eqI) (auto simp: bit_simps)
  have hi: "ucast (drop_bit 64 (push_bit i (ucast a :: 128 word))) = drop_bit (64 - i) a"
  proof (rule bit_word_eqI)
    fix n assume "n < LENGTH(64)"
    moreover have "64 + n - i = 64 - i + n" using assms by simp
    ultimately show "bit (ucast (drop_bit 64 (push_bit i (ucast a :: 128 word))) :: gf64_t) n \<longleftrightarrow>
        bit (drop_bit (64 - i) a) n"
      using assms bit_imp_le_length [of a "64 + n - i"] by (auto simp: bit_simps)
  qed
  show ?thesis
    using assms by (simp add: gf128_def lo hi gfx_power_shift [of i])
qed

lemma gf128_clmul64 [gf64_to_gf]: "gf128 (clmul64 a b) = Gf a * Gf b"
proof -
  have "gf128 (fold (\<lambda>i acc. if bit a i then acc XOR push_bit i (ucast b) else acc) [0..<n] 0) =
      (\<Sum>i<n. if bit a i then gfx ^ i * Gf b else 0)" if "n \<le> 64" for n
    using that by (induction n) (auto simp: gf128_xor gf128_shift)
  from this [of 64] show ?thesis
    unfolding clmul64_def gf_decompose [of a] sum_distrib_right
    by (auto intro!: sum.cong)
qed

text \<open>The product of two 32-bit values fits in the low lane.\<close>

lemma clmul64_high_zero:
  assumes "\<And>n. n \<ge> 32 \<Longrightarrow> \<not> bit a n" and "\<And>n. n \<ge> 32 \<Longrightarrow> \<not> bit b n"
  shows "drop_bit 64 (clmul64 a b) = 0"
proof -
  have "\<not> bit (fold (\<lambda>i acc. if bit a i then acc XOR push_bit i (ucast b) else acc) [0..<n] 0 :: 128 word) k"
    if "k \<ge> 63" for n k
    using that
  proof (induction n)
    case (Suc n)
    have "\<not> bit b (k - n)" if "bit a n"
      using that assms(1) [of n] assms(2) [of "k - n"] \<open>k \<ge> 63\<close> by linarith
    with Suc show ?case by (auto simp: bit_simps)
  qed simp
  then show ?thesis
    by (intro bit_word_eqI) (auto simp: clmul64_def bit_simps)
qed

text \<open>The kernel form of a 64x64 product: both operands in lane 0.\<close>

lemma clmulepi64_low:
  "clmulepi64 [a, x] [b, y] 0x00 = [ucast (clmul64 a b), ucast (drop_bit 64 (clmul64 a b))]"
  by (simp add: Let_def)

end
