(* ===== verification/GF64_Mul.thy ===== *)
theory GF64_Mul
  imports GF64_Simd
begin

text \<open>
  Multiplication of two field elements: gf64/gf64_single.c (\<open>gf64_mul_reference\<close>),
  gf64/gf64_inline.h (the inline helpers), gf64/gf64_solve.c (its private \<open>gf64_mul\<close>) and
  gf64/gf64_mul_avx512.c (\<open>gf64_reduce_mul_512\<close>, \<open>gf64_mul_avx512\<close>). Every one is shown to compute
  the product of GF64_Ring.
\<close>

section \<open>The scalar routines\<close>

definition gf64_mul_reference :: "gf64_t \<Rightarrow> gf64_t \<Rightarrow> gf64_t" where
  "gf64_mul_reference a b =
    (let a_lo = ucast (a AND 0xFFFFFFFF) :: uint32_t;
         a_hi = ucast (drop_bit 32 a) :: uint32_t;
         b_lo = ucast (b AND 0xFFFFFFFF) :: uint32_t;
         b_hi = ucast (drop_bit 32 b) :: uint32_t;
         a_lo_reg = mm_set_epi32 0 0 0 a_lo;
         a_hi_reg = mm_set_epi32 0 0 0 a_hi;
         b_lo_reg = mm_set_epi32 0 0 0 b_lo;
         b_hi_reg = mm_set_epi32 0 0 0 b_hi;
         p00 = clmulepi64 a_lo_reg b_lo_reg 0x00;
         p01 = clmulepi64 a_lo_reg b_hi_reg 0x00;
         p10 = clmulepi64 a_hi_reg b_lo_reg 0x00;
         p11 = clmulepi64 a_hi_reg b_hi_reg 0x00;
         p00_val = mm_cvtsi128_si64 p00;
         p01_val = mm_cvtsi128_si64 p01;
         p10_val = mm_cvtsi128_si64 p10;
         p11_val = mm_cvtsi128_si64 p11;
         lo = p00_val XOR push_bit 32 (p01_val AND 0xFFFFFFFF) XOR
              push_bit 32 (p10_val AND 0xFFFFFFFF);
         hi = drop_bit 32 p01_val XOR drop_bit 32 p10_val XOR p11_val;
         t_lo = push_bit 4 hi XOR push_bit 3 hi XOR push_bit 1 hi XOR hi;
         R_hi = ((drop_bit 60 hi XOR drop_bit 61 hi XOR drop_bit 63 hi) AND 1) OR
                push_bit 1 ((drop_bit 61 hi XOR drop_bit 62 hi) AND 1) OR
                push_bit 2 ((drop_bit 62 hi XOR drop_bit 63 hi) AND 1) OR
                push_bit 3 (drop_bit 63 hi AND 1);
         t2 = push_bit 4 R_hi XOR push_bit 3 R_hi XOR push_bit 1 R_hi XOR R_hi
     in lo XOR t_lo XOR t2)"

definition gf64_add :: "gf64_t \<Rightarrow> gf64_t \<Rightarrow> gf64_t" where "gf64_add a b = a XOR b"
definition gf64_sub :: "gf64_t \<Rightarrow> gf64_t \<Rightarrow> gf64_t" where "gf64_sub a b = a XOR b"

definition gf64_mul_single :: "gf64_t \<Rightarrow> gf64_t \<Rightarrow> gf64_t" where
  "gf64_mul_single a b =
    (let a128 = mm_set_epi64x 0 a;
         b128 = mm_set_epi64x 0 b;
         p = clmulepi64 a128 b128 0x00;
         lo = mm_cvtsi128_si64 p;
         hi = mm_cvtsi128_si64 (mm_srli_si128_8 p);
         t_lo = push_bit 4 hi XOR push_bit 3 hi XOR push_bit 1 hi XOR hi;
         R_hi = ((drop_bit 60 hi XOR drop_bit 61 hi XOR drop_bit 63 hi) AND 1) OR
                push_bit 1 ((drop_bit 61 hi XOR drop_bit 62 hi) AND 1) OR
                push_bit 2 ((drop_bit 62 hi XOR drop_bit 63 hi) AND 1) OR
                push_bit 3 (drop_bit 63 hi AND 1);
         t2 = push_bit 4 R_hi XOR push_bit 3 R_hi XOR push_bit 1 R_hi XOR R_hi
     in lo XOR t_lo XOR t2)"

definition gf64_is_zero :: "gf64_t \<Rightarrow> bool" where "gf64_is_zero a \<longleftrightarrow> a = 0"
definition gf64_is_one :: "gf64_t \<Rightarrow> bool" where "gf64_is_one a \<longleftrightarrow> a = 1"
definition gf64_negate :: "gf64_t \<Rightarrow> gf64_t" where "gf64_negate a = a"

text \<open>The private multiplication of gf64_solve.c.\<close>

definition gf64_mul :: "gf64_t \<Rightarrow> gf64_t \<Rightarrow> gf64_t" where
  "gf64_mul a b =
    (let a128 = mm_set_epi64x 0 a;
         b128 = mm_set_epi64x 0 b;
         p = clmulepi64 a128 b128 0x00;
         lo = mm_cvtsi128_si64 p;
         hi = mm_cvtsi128_si64 (mm_srli_si128_8 p);
         t_lo = push_bit 4 hi XOR push_bit 3 hi XOR push_bit 1 hi XOR hi;
         R_hi = ((drop_bit 60 hi XOR drop_bit 61 hi XOR drop_bit 63 hi) AND 1) OR
                push_bit 1 ((drop_bit 61 hi XOR drop_bit 62 hi) AND 1) OR
                push_bit 2 ((drop_bit 62 hi XOR drop_bit 63 hi) AND 1) OR
                push_bit 3 (drop_bit 63 hi AND 1);
         t2 = push_bit 4 R_hi XOR push_bit 3 R_hi XOR push_bit 1 R_hi XOR R_hi
     in lo XOR t_lo XOR t2)"

section \<open>The reduction\<close>

text \<open>
  All the routines end in the same lines, which the compiler's version inlines by hand: the
  high half times \<open>x^4 + x^3 + x + 1\<close>, and its four overflow bits multiplied once more.
  \<open>reduce_tail\<close> names them for the proofs.
\<close>

abbreviation mul_1B :: "gf64_t \<Rightarrow> gf64_t" where
  "mul_1B h \<equiv> push_bit 4 h XOR push_bit 3 h XOR push_bit 1 h XOR h"

abbreviation overflow_1B :: "gf64_t \<Rightarrow> gf64_t" where
  "overflow_1B hi \<equiv>
    ((drop_bit 60 hi XOR drop_bit 61 hi XOR drop_bit 63 hi) AND 1) OR
    push_bit 1 ((drop_bit 61 hi XOR drop_bit 62 hi) AND 1) OR
    push_bit 2 ((drop_bit 62 hi XOR drop_bit 63 hi) AND 1) OR
    push_bit 3 (drop_bit 63 hi AND 1)"

definition reduce_tail :: "gf64_t \<Rightarrow> gf64_t \<Rightarrow> gf64_t" where
  "reduce_tail lo hi = lo XOR mul_1B hi XOR mul_1B (overflow_1B hi)"

lemma overflow_1B_eq:
  "overflow_1B hi = drop_bit 60 hi XOR drop_bit 61 hi XOR drop_bit 63 hi"
proof (rule bit_word_eqI)
  fix n assume "n < LENGTH(64)"
  consider "n = 0" | "n = 1" | "n = 2" | "n = 3" | "n \<ge> 4" by linarith
  then show "bit (overflow_1B hi) n \<longleftrightarrow>
      bit (drop_bit 60 hi XOR drop_bit 61 hi XOR drop_bit 63 hi) n"
    by cases (auto simp: bit_simps dest: bit_imp_le_length)
qed

lemma Gf_mul_1B:
  "gfx ^ 64 * Gf h = Gf (mul_1B h) +
    gfx ^ 64 * Gf (drop_bit 60 h XOR drop_bit 61 h XOR drop_bit 63 h)"
proof -
  have "gfx ^ 64 * Gf h = gfx ^ 4 * Gf h + gfx ^ 3 * Gf h + gfx ^ 1 * Gf h + Gf h"
    unfolding gfx_64_poly by (simp add: distrib_right)
  also have "\<dots> = Gf (push_bit 4 h) + Gf (push_bit 3 h) + Gf (push_bit 1 h) + Gf h +
      (gfx ^ 64 * Gf (drop_bit 60 h) + gfx ^ 64 * Gf (drop_bit 61 h) +
       gfx ^ 64 * Gf (drop_bit 63 h))"
    using gfx_power_shift [of 4 h] gfx_power_shift [of 3 h] gfx_power_shift [of 1 h]
    by (simp only:) simp
  finally show ?thesis
    by (simp only: Gf_xor distrib_left add.assoc)
qed

lemma Gf_reduce_tail: "Gf (reduce_tail lo hi) = Gf lo + gfx ^ 64 * Gf hi"
proof -
  let ?R = "drop_bit 60 hi XOR drop_bit 61 hi XOR drop_bit 63 hi"
  have "drop_bit 60 ?R XOR drop_bit 61 ?R XOR drop_bit 63 ?R = 0"
    by (rule bit_word_eqI) (auto simp: bit_simps dest: bit_imp_le_length)
  then have "gfx ^ 64 * Gf ?R = Gf (mul_1B ?R)"
    using Gf_mul_1B [of ?R] by simp
  then show ?thesis
    unfolding reduce_tail_def overflow_1B_eq Gf_mul_1B [of hi]
    by (simp add: Gf_xor ac_simps)
qed

text \<open>The two forms the routines reach the reduction in.\<close>

lemma gf64_mul_single_reduce:
  "gf64_mul_single a b =
    reduce_tail (ucast (clmul64 a b)) (ucast (drop_bit 64 (clmul64 a b)))"
  by (simp add: gf64_mul_single_def reduce_tail_def simd_defs Let_def xor.assoc)

lemma gf64_mul_eq_single: "gf64_mul = gf64_mul_single"
  by (intro ext) (simp add: gf64_mul_def gf64_mul_single_def)

lemma Gf_mul_single [gf64_to_gf]: "Gf (gf64_mul_single a b) = Gf a * Gf b"
  by (simp add: gf64_mul_single_reduce Gf_reduce_tail flip: gf128_clmul64)
    (simp add: gf128_def)

lemma Gf_mul [gf64_to_gf]: "Gf (gf64_mul a b) = Gf a * Gf b"
  by (simp add: gf64_mul_eq_single Gf_mul_single)

text \<open>The portable version multiplies the 32-bit halves and adds the partial products up.\<close>

lemma and_mask32: "a AND 0xFFFFFFFF = take_bit 32 a" for a :: gf64_t
  by (simp add: take_bit_eq_mask mask_eq_exp_minus_1)

lemma drop_bit_take_32 [simp]: "drop_bit 32 (take_bit 32 a) = 0" for a :: gf64_t
  by (rule bit_word_eqI) (auto simp: bit_simps)

lemma drop_bit_drop_32 [simp]: "drop_bit 32 (drop_bit 32 a) = 0" for a :: gf64_t
  by (rule bit_word_eqI) (auto simp: bit_simps)

lemma Gf_split32: "Gf a = Gf (take_bit 32 a) + gfx ^ 32 * Gf (drop_bit 32 a)"
proof -
  have "gfx ^ 32 * Gf (drop_bit 32 a) = Gf (push_bit 32 (drop_bit 32 a))"
    by (subst gfx_power_shift) simp_all
  then show ?thesis
    by (metis Gf_xor word_split_at add.commute)
qed

lemma mm_set_epi32_half:
  assumes "drop_bit 32 a = 0"
  shows "mm_set_epi32 0 0 0 (ucast a) = [a, 0]"
proof -
  have "ucast (ucast a :: uint32_t) = a"
    by (rule bit_word_eqI)
      (use not_bit_if_drop_bit_0 [OF assms] in \<open>auto simp: bit_simps not_le [symmetric]\<close>)
  then show ?thesis by (simp add: mm_set_epi32_def)
qed

lemma Gf_clmul_32:
  assumes "drop_bit 32 a = 0" and "drop_bit 32 b = 0"
  shows "Gf (ucast (clmul64 a b)) = Gf a * Gf b"
proof -
  have "drop_bit 64 (clmul64 a b) = 0"
    by (intro clmul64_high_zero not_bit_if_drop_bit_0 [OF assms(1)]
        not_bit_if_drop_bit_0 [OF assms(2)])
  then show ?thesis
    using gf128_clmul64 [of a b] by (simp add: gf128_def)
qed

lemma push_bit_32_and_mask: "push_bit 32 (a AND 0xFFFFFFFF) = push_bit 32 a" for a :: gf64_t
  unfolding and_mask32 by (rule bit_word_eqI) (auto simp: bit_simps)

lemma Gf_mul_reference [gf64_to_gf]: "Gf (gf64_mul_reference a b) = Gf a * Gf b"
proof -
  let ?al = "take_bit 32 a" and ?ah = "drop_bit 32 a" and ?bl = "take_bit 32 b" and ?bh = "drop_bit 32 b"
  let ?p = "\<lambda>u v. ucast (clmul64 u v) :: gf64_t"
  let ?lo = "?p ?al ?bl XOR push_bit 32 (?p ?al ?bh) XOR push_bit 32 (?p ?ah ?bl)"
  let ?hi = "drop_bit 32 (?p ?al ?bh) XOR drop_bit 32 (?p ?ah ?bl) XOR ?p ?ah ?bh"
  have ref: "gf64_mul_reference a b = reduce_tail ?lo ?hi"
    unfolding gf64_mul_reference_def Let_def push_bit_32_and_mask
    by (simp only: and_mask32 mm_set_epi32_half drop_bit_take_32 drop_bit_drop_32
        clmulepi64_low mm_cvtsi128_si64_def nth_Cons_0 reduce_tail_def xor.assoc)
  have 32: "gfx ^ 32 * Gf p = Gf (push_bit 32 p) + gfx ^ 64 * Gf (drop_bit 32 p)" for p
    using gfx_power_shift [of 32 p] by simp
  have m: "Gf ?al * Gf ?bh = Gf (?p ?al ?bh)" "Gf ?ah * Gf ?bl = Gf (?p ?ah ?bl)"
    "Gf (?p ?al ?bl) = Gf ?al * Gf ?bl" "Gf (?p ?ah ?bh) = Gf ?ah * Gf ?bh"
    by (simp_all only: Gf_clmul_32 drop_bit_take_32 drop_bit_drop_32)
  have sum: "Gf (reduce_tail ?lo ?hi) = Gf ?al * Gf ?bl + gfx ^ 32 * (Gf ?al * Gf ?bh) +
      gfx ^ 32 * (Gf ?ah * Gf ?bl) + gfx ^ 64 * (Gf ?ah * Gf ?bh)"
    by (simp only: 32 m Gf_reduce_tail Gf_xor distrib_left add.assoc add.left_commute)
  have "gfx ^ 64 = gfx ^ 32 * gfx ^ 32" by (simp flip: power_add)
  then have prod: "(Gf ?al + gfx ^ 32 * Gf ?ah) * (Gf ?bl + gfx ^ 32 * Gf ?bh) =
      Gf ?al * Gf ?bl + gfx ^ 32 * (Gf ?al * Gf ?bh) +
      gfx ^ 32 * (Gf ?ah * Gf ?bl) + gfx ^ 64 * (Gf ?ah * Gf ?bh)"
    by (simp only: distrib_left distrib_right ac_simps)
  show ?thesis
    unfolding ref sum prod [symmetric] Gf_split32 [symmetric] ..
qed

section \<open>gf64_mul_avx512.c\<close>

definition gf64_reduce_mul_512 :: "vec \<Rightarrow> vec \<Rightarrow> vec" where
  "gf64_reduce_mul_512 lo_v hi_v =
    (let one = vset1 8 1;
         t_lo = vxor (vxor (vslli hi_v 4) (vslli hi_v 3)) (vxor (vslli hi_v 1) hi_v);
         bit0 = vand (vxor (vsrli hi_v 60) (vxor (vsrli hi_v 61) (vsrli hi_v 63))) one;
         bit1 = vslli (vand (vxor (vsrli hi_v 61) (vsrli hi_v 62)) one) 1;
         bit2 = vslli (vand (vxor (vsrli hi_v 62) (vsrli hi_v 63)) one) 2;
         bit3 = vslli (vand (vsrli hi_v 63) one) 3;
         R_hi = vor (vor bit0 bit1) (vor bit2 bit3);
         t2 = vxor (vxor (vslli R_hi 4) (vslli R_hi 3)) (vxor (vslli R_hi 1) R_hi)
     in vxor (vxor lo_v t_lo) t2)"

text \<open>
  One iteration of the block loop: eight products. The arrays are \<open>out\<close>, \<open>a\<close> and \<open>b\<close>; the block
  starts at index \<open>i\<close>.
\<close>

definition gf64_mul_avx512_block ::
  "gf64_t list \<Rightarrow> gf64_t list \<Rightarrow> nat \<Rightarrow> gf64_t list \<Rightarrow> gf64_t list" where
  "gf64_mul_avx512_block a b i out =
    (let va_lo = mm512_set_epi64 0 (a ! (i + 3)) 0 (a ! (i + 2)) 0 (a ! (i + 1)) 0 (a ! (i + 0));
         vb_lo = mm512_set_epi64 0 (b ! (i + 3)) 0 (b ! (i + 2)) 0 (b ! (i + 1)) 0 (b ! (i + 0));
         va_hi = mm512_set_epi64 0 (a ! (i + 7)) 0 (a ! (i + 6)) 0 (a ! (i + 5)) 0 (a ! (i + 4));
         vb_hi = mm512_set_epi64 0 (b ! (i + 7)) 0 (b ! (i + 6)) 0 (b ! (i + 5)) 0 (b ! (i + 4));
         prod_lo = clmulepi64 va_lo vb_lo 0x00;
         prod_hi = clmulepi64 va_hi vb_hi 0x00;
         lo_v_lo = mm512_permutex2var_epi64 prod_lo [0, 2, 4, 6, 0, 0, 0, 0] (vset1 8 0);
         hi_v_lo = mm512_permutex2var_epi64 prod_lo [1, 3, 5, 7, 0, 0, 0, 0] (vset1 8 0);
         lo_v_hi = mm512_permutex2var_epi64 prod_hi [0, 2, 4, 6, 0, 0, 0, 0] (vset1 8 0);
         hi_v_hi = mm512_permutex2var_epi64 prod_hi [1, 3, 5, 7, 0, 0, 0, 0] (vset1 8 0);
         red_lo = gf64_reduce_mul_512 lo_v_lo hi_v_lo;
         red_hi = gf64_reduce_mul_512 lo_v_hi hi_v_hi;
         packed = mm512_permutex2var_epi64 red_lo [0, 1, 2, 3, 8, 9, 10, 11] red_hi
     in vstoreu out i packed)"

text \<open>
  \<open>N / 8\<close> blocks, then the last \<open>N mod 8\<close> elements one at a time.
\<close>

definition gf64_mul_avx512 ::
  "gf64_t list \<Rightarrow> gf64_t list \<Rightarrow> gf64_t list \<Rightarrow> nat \<Rightarrow> gf64_t list" where
  "gf64_mul_avx512 out a b N =
    (let blocks = N div 8;
         out = fold (\<lambda>bl. gf64_mul_avx512_block a b (8 * bl)) [0..<blocks] out
     in fold (\<lambda>i out. out[i := gf64_mul_reference (a ! i) (b ! i)]) [8 * blocks..<N] out)"

text \<open>The vector reduction is the scalar one in every lane.\<close>

lemma vreduce_lanes:
  assumes "length lo_v = 8" and "length hi_v = 8"
  shows "gf64_reduce_mul_512 lo_v hi_v = map2 reduce_tail lo_v hi_v"
  by (rule nth_equalityI)
    (use assms in \<open>auto simp: gf64_reduce_mul_512_def Let_def vset1_def reduce_tail_def
      xor.assoc or.assoc\<close>)

lemma gf64_mul_single_eq_reference: "gf64_mul_single a b = gf64_mul_reference a b"
  using Gf_mul_single [of a b] Gf_mul_reference [of a b] by (metis gf.inject)

lemma gf64_mul_avx512_block_eq:
  "gf64_mul_avx512_block a b i out =
    fold (\<lambda>i out. out[i := gf64_mul_reference (a ! i) (b ! i)]) [i..<i + 8] out"
proof -
  have u: "[0..<8::nat] = [0, 1, 2, 3, 4, 5, 6, 7]" by (simp add: upt_conv_Cons)
  show ?thesis
    unfolding fold_upt_shift [symmetric] u gf64_mul_avx512_block_def mm512_set_epi64_def
      vset1_def vstoreu_def
    by (simp add: Let_def mm512_permutex2var_epi64_def vreduce_lanes u Suc_numeral_shift
        gf64_mul_single_eq_reference [symmetric] gf64_mul_single_reduce)
qed

lemma gf64_mul_avx512_fold:
  "gf64_mul_avx512 out a b N =
    fold (\<lambda>i out. out[i := gf64_mul_reference (a ! i) (b ! i)]) [0..<N] out"
  by (simp add: gf64_mul_avx512_def Let_def fold_blocks_tail gf64_mul_avx512_block_eq)

lemma gf64_mul_avx512_eq:
  assumes "N \<le> length out"
  shows "gf64_mul_avx512 out a b N =
    map (\<lambda>i. gf64_mul_reference (a ! i) (b ! i)) [0..<N] @ drop N out"
  using assms by (simp add: gf64_mul_avx512_fold fold_const_update_map)

section \<open>The multiplier interface\<close>

text \<open>
  What the rest of the program relies on from a multiplication routine: it computes the
  product of the field. The region kernels, the inversion, the solver and the polynomial code
  each call one of the routines above and are verified against this contract alone.
\<close>

locale gf64_multiplier =
  fixes mul :: "gf64_t \<Rightarrow> gf64_t \<Rightarrow> gf64_t"
  assumes Gf_product: "Gf (mul a b) = Gf a * Gf b"
begin

lemma mul_rep: "mul a b = gf_rep (Gf a * Gf b)"
  by (simp flip: Gf_product)

lemma commutes: "mul a b = mul b a"
  by (simp add: mul_rep mult.commute)

lemma associates: "mul (mul a b) c = mul a (mul b c)"
  by (simp add: mul_rep mult.assoc)

lemma distributes: "mul a (b XOR c) = mul a b XOR mul a c"
  by (simp add: mul_rep Gf_xor distrib_left)

lemma one_left: "mul 1 a = a"
  by (simp add: mul_rep)

lemma zero_left: "mul 0 a = 0"
  by (simp add: mul_rep)

lemma unique: "mul = gf64_mul_reference"
  by (intro ext) (metis gf.inject Gf_product Gf_mul_reference)

end

interpretation reference: gf64_multiplier gf64_mul_reference
  by unfold_locales (rule Gf_mul_reference)

interpretation single: gf64_multiplier gf64_mul_single
  by unfold_locales (rule Gf_mul_single)

interpretation solver: gf64_multiplier gf64_mul
  by unfold_locales (rule Gf_mul)

end
