(* ===== verification/GF64_Square.thy ===== *)
theory GF64_Square
  imports GF64_Mul
begin

text \<open>
  Squaring: gf64/gf64_square.c (\<open>gf64_square_one\<close>, \<open>gf64_square\<close>) and gf64/gf64_square_avx512.c.
  The SWAR cascade spreads bit \<open>k\<close> of a 32-bit half to bit \<open>2 k\<close>, which is squaring because
  squaring is additive; the reduction is the one of GF64_Mul.
\<close>

definition gf64_square_one :: "gf64_t \<Rightarrow> gf64_t" where
  "gf64_square_one a =
    (let lo = a AND 0xFFFFFFFF;
         hi = drop_bit 32 a;
         lo = (lo OR push_bit 16 lo) AND 0x0000FFFF0000FFFF;
         lo = (lo OR push_bit 8 lo) AND 0x00FF00FF00FF00FF;
         lo = (lo OR push_bit 4 lo) AND 0x0F0F0F0F0F0F0F0F;
         lo = (lo OR push_bit 2 lo) AND 0x3333333333333333;
         lo = (lo OR push_bit 1 lo) AND 0x5555555555555555;
         hi = (hi OR push_bit 16 hi) AND 0x0000FFFF0000FFFF;
         hi = (hi OR push_bit 8 hi) AND 0x00FF00FF00FF00FF;
         hi = (hi OR push_bit 4 hi) AND 0x0F0F0F0F0F0F0F0F;
         hi = (hi OR push_bit 2 hi) AND 0x3333333333333333;
         hi = (hi OR push_bit 1 hi) AND 0x5555555555555555;
         t_lo = push_bit 4 hi XOR push_bit 3 hi XOR push_bit 1 hi XOR hi;
         R_hi = ((drop_bit 60 hi XOR drop_bit 61 hi XOR drop_bit 63 hi) AND 1) OR
                push_bit 1 ((drop_bit 61 hi XOR drop_bit 62 hi) AND 1) OR
                push_bit 2 ((drop_bit 62 hi XOR drop_bit 63 hi) AND 1) OR
                push_bit 3 (drop_bit 63 hi AND 1);
         t2 = push_bit 4 R_hi XOR push_bit 3 R_hi XOR push_bit 1 R_hi XOR R_hi
     in lo XOR t_lo XOR t2)"

definition gf64_square :: "gf64_t list \<Rightarrow> gf64_t list \<Rightarrow> nat \<Rightarrow> gf64_t list" where
  "gf64_square out inp N = fold (\<lambda>i out. out[i := gf64_square_one (inp ! i)]) [0..<N] out"

section \<open>The cascade\<close>

definition spread_bits :: "gf64_t \<Rightarrow> gf64_t" where
  "spread_bits x =
    (let x = (x OR push_bit 16 x) AND 0x0000FFFF0000FFFF;
         x = (x OR push_bit 8 x) AND 0x00FF00FF00FF00FF;
         x = (x OR push_bit 4 x) AND 0x0F0F0F0F0F0F0F0F;
         x = (x OR push_bit 2 x) AND 0x3333333333333333
     in (x OR push_bit 1 x) AND 0x5555555555555555)"

lemma gf64_square_one_reduce:
  "gf64_square_one a = reduce_tail (spread_bits (take_bit 32 a)) (spread_bits (drop_bit 32 a))"
  unfolding gf64_square_one_def spread_bits_def reduce_tail_def Let_def and_mask32 xor.assoc ..

text \<open>
  After the stage that shifts by \<open>h\<close>, the bits of the half sit in groups of \<open>h\<close>, one group in
  every \<open>2 h\<close> positions.
\<close>

abbreviation spaced :: "nat \<Rightarrow> gf64_t \<Rightarrow> gf64_t \<Rightarrow> bool" where
  "spaced h a x \<equiv>
    \<forall>n<64. bit x n \<longleftrightarrow> n mod (2 * h) < h \<and> bit a (n div (2 * h) * h + n mod (2 * h))"

lemma less_64_cases: "n < 64 \<Longrightarrow> n \<in> set [0..<64]" by simp

lemma bit_spread_masks:
  assumes "n < 64"
  shows "bit (0x0000FFFF0000FFFF :: gf64_t) n \<longleftrightarrow> n mod 32 < 16"
    and "bit (0x00FF00FF00FF00FF :: gf64_t) n \<longleftrightarrow> n mod 16 < 8"
    and "bit (0x0F0F0F0F0F0F0F0F :: gf64_t) n \<longleftrightarrow> n mod 8 < 4"
    and "bit (0x3333333333333333 :: gf64_t) n \<longleftrightarrow> n mod 4 < 2"
    and "bit (0x5555555555555555 :: gf64_t) n \<longleftrightarrow> n mod 2 < 1"
  using less_64_cases [OF assms]
  by (simp_all add: upt_conv_Cons del: upt_Suc) (elim disjE, simp_all)+

lemma spread_index:
  fixes n :: nat
  assumes "n < 64" and "h \<in> {16, 8, 4, 2, 1}"
  shows "n mod (2 * h) < h \<and>
      (n mod (4 * h) < 2 * h \<and> b (n div (4 * h) * (2 * h) + n mod (4 * h)) \<or>
       h \<le> n \<and> (n - h) mod (4 * h) < 2 * h \<and>
       b ((n - h) div (4 * h) * (2 * h) + (n - h) mod (4 * h))) \<longleftrightarrow>
    n mod (2 * h) < h \<and> b (n div (2 * h) * h + n mod (2 * h))"
proof -
  consider "h = 16" | "h = 8" | "h = 4" | "h = 2" | "h = 1" using assms(2) by blast
  then show ?thesis
    by (cases; insert less_64_cases [OF assms(1)];
        simp add: upt_conv_Cons del: upt_Suc; elim disjE; simp; simp add: eval_nat_numeral)
qed

lemma spaced_stage:
  assumes "spaced (2 * h) a x" and h: "h \<in> {16, 8, 4, 2, 1}"
    and M: "\<And>n. n < 64 \<Longrightarrow> bit M n \<longleftrightarrow> n mod (2 * h) < h"
  shows "spaced h a ((x OR push_bit h x) AND M)"
proof (intro allI impI)
  fix n :: nat
  assume n: "n < 64"
  have x: "bit x k \<longleftrightarrow> k mod (4 * h) < 2 * h \<and> bit a (k div (4 * h) * (2 * h) + k mod (4 * h))"
    if "k < 64" for k
    using assms(1) that by simp
  show "bit ((x OR push_bit h x) AND M) n \<longleftrightarrow>
      n mod (2 * h) < h \<and> bit a (n div (2 * h) * h + n mod (2 * h))"
    using spread_index [OF n h, of "bit a"] n x [of n] x [of "n - h"] M [of n]
    by (auto simp: bit_simps)
qed

lemma bit_spread_bits:
  assumes "\<And>n. n \<ge> 32 \<Longrightarrow> \<not> bit x n" and "n < 64"
  shows "bit (spread_bits x) n \<longleftrightarrow> even n \<and> bit x (n div 2)"
proof -
  have "spaced (2 * 16) x x"
    using assms(1) by (auto simp: not_less [symmetric])
  define y where "y = (x OR push_bit 16 x) AND 0x0000FFFF0000FFFF"
  define z where "z = (y OR push_bit 8 y) AND 0x00FF00FF00FF00FF"
  define v where "v = (z OR push_bit 4 z) AND 0x0F0F0F0F0F0F0F0F"
  define w where "w = (v OR push_bit 2 v) AND 0x3333333333333333"
  have "spaced 16 x y"
    unfolding y_def
    by (rule spaced_stage [OF \<open>spaced (2 * 16) x x\<close>])
      (simp, subst bit_spread_masks(1), simp_all)
  then have "spaced 8 x z"
    unfolding z_def by (intro spaced_stage) (simp, simp, subst bit_spread_masks(2), simp_all)
  then have "spaced 4 x v"
    unfolding v_def by (intro spaced_stage) (simp, simp, subst bit_spread_masks(3), simp_all)
  then have "spaced 2 x w"
    unfolding w_def by (intro spaced_stage) (simp, simp, subst bit_spread_masks(4), simp_all)
  then have "spaced 1 x ((w OR push_bit 1 w) AND 0x5555555555555555)"
    by (intro spaced_stage) (simp, simp, subst bit_spread_masks(5), simp_all)
  then have "spaced 1 x (spread_bits x)"
    by (simp only: spread_bits_def Let_def y_def z_def v_def w_def)
  with assms(2) show ?thesis by (auto simp: even_iff_mod_2_eq_zero)
qed

lemma Gf_spread_bits:
  assumes "\<And>n. n \<ge> 32 \<Longrightarrow> \<not> bit x n"
  shows "Gf (spread_bits x) = Gf x ^ 2"
proof -
  let ?t = "\<lambda>i. if bit x i then gfx ^ (2 * i) else 0"
  have "Gf x ^ 2 = (\<Sum>i<64::nat. ?t i)"
    unfolding gf_decompose [of x] gf_square_sum
    by (rule sum.cong) (simp_all add: mult.commute flip: power_mult)
  also have "\<dots> = (\<Sum>i<32::nat. ?t i)"
    by (rule sum.mono_neutral_right) (auto simp: assms)
  also have "\<dots> = (\<Sum>n\<in>(\<lambda>i. 2 * i) ` {..<32}. if bit x (n div 2) then gfx ^ n else 0)"
    by (subst sum.reindex) (auto simp: inj_on_def)
  also have "\<dots> = (\<Sum>n<64::nat. if bit (spread_bits x) n then gfx ^ n else 0)"
    by (rule sum.mono_neutral_cong_left) (auto simp: bit_spread_bits [OF assms] elim!: evenE)
  finally show ?thesis
    unfolding gf_decompose [of "spread_bits x"] ..
qed

lemma Gf_square_one [gf64_to_gf]: "Gf (gf64_square_one a) = Gf a ^ 2"
proof -
  have lo: "\<not> bit (take_bit 32 a) n" and hi: "\<not> bit (drop_bit 32 a) n" if "n \<ge> 32" for n
    using that not_bit_if_drop_bit_0 [OF drop_bit_take_32]
      not_bit_if_drop_bit_0 [OF drop_bit_drop_32] by blast+
  have "gfx ^ 64 = (gfx ^ 32) ^ 2" by (simp flip: power_mult)
  then have "Gf (gf64_square_one a) = Gf (take_bit 32 a) ^ 2 + (gfx ^ 32 * Gf (drop_bit 32 a)) ^ 2"
    by (simp add: gf64_square_one_reduce Gf_reduce_tail Gf_spread_bits lo hi power_mult_distrib)
  then show ?thesis
    by (simp only: gf_square_add [symmetric] Gf_split32 [symmetric])
qed

lemma gf64_square_one_eq: "gf64_square_one a = gf64_mul_reference a a"
  using Gf_square_one [of a] Gf_mul_reference [of a a] by (metis power2_eq_square gf.inject)

lemma gf64_square_eq:
  assumes "N \<le> length out"
  shows "gf64_square out inp N = map (\<lambda>i. gf64_square_one (inp ! i)) [0..<N] @ drop N out"
  using assms by (simp add: gf64_square_def fold_const_update_map)

section \<open>gf64_square_avx512.c\<close>

definition gf64_swar_spread_512 :: "vec \<Rightarrow> vec" where
  "gf64_swar_spread_512 x =
    (let m16 = vset1 8 0x0000FFFF0000FFFF;
         m8 = vset1 8 0x00FF00FF00FF00FF;
         m4 = vset1 8 0x0F0F0F0F0F0F0F0F;
         m2 = vset1 8 0x3333333333333333;
         m1 = vset1 8 0x5555555555555555;
         x = vand (vor x (vslli x 16)) m16;
         x = vand (vor x (vslli x 8)) m8;
         x = vand (vor x (vslli x 4)) m4;
         x = vand (vor x (vslli x 2)) m2;
         x = vand (vor x (vslli x 1)) m1
     in x)"

definition gf64_reduce_square_512 :: "vec \<Rightarrow> vec \<Rightarrow> vec" where
  "gf64_reduce_square_512 lo_v hi_v =
    (let one = vset1 8 1;
         t_lo = vxor (vxor (vslli hi_v 4) (vslli hi_v 3)) (vxor (vslli hi_v 1) hi_v);
         bit0 = vand (vxor (vsrli hi_v 60) (vxor (vsrli hi_v 61) (vsrli hi_v 63))) one;
         bit1 = vslli (vand (vxor (vsrli hi_v 61) (vsrli hi_v 62)) one) 1;
         bit2 = vslli (vand (vxor (vsrli hi_v 62) (vsrli hi_v 63)) one) 2;
         bit3 = vslli (vand (vsrli hi_v 63) one) 3;
         R_hi = vor (vor bit0 bit1) (vor bit2 bit3);
         t2 = vxor (vxor (vslli R_hi 4) (vslli R_hi 3)) (vxor (vslli R_hi 1) R_hi)
     in vxor (vxor lo_v t_lo) t2)"

definition gf64_square_avx512_block :: "gf64_t list \<Rightarrow> nat \<Rightarrow> gf64_t list \<Rightarrow> gf64_t list" where
  "gf64_square_avx512_block inp i out =
    (let lo32_mask = vset1 8 0xFFFFFFFF;
         v = vloadu 8 inp i;
         a_lo = vand v lo32_mask;
         a_hi = vsrli v 32;
         lo_spread = gf64_swar_spread_512 a_lo;
         hi_spread = gf64_swar_spread_512 a_hi;
         result = gf64_reduce_square_512 lo_spread hi_spread
     in vstoreu out i result)"

text \<open>The tail is a call of the scalar routine on the pointers \<open>out + i\<close> and \<open>in + i\<close>.\<close>

definition gf64_square_avx512 :: "gf64_t list \<Rightarrow> gf64_t list \<Rightarrow> nat \<Rightarrow> gf64_t list" where
  "gf64_square_avx512 out inp N =
    (let blocks = N div 8;
         out = fold (\<lambda>bl. gf64_square_avx512_block inp (8 * bl)) [0..<blocks] out;
         i = 8 * blocks
     in if i < N then take i out @ gf64_square (drop i out) (drop i inp) (N - i) else out)"

lemma swar_spread_lanes:
  "length x = 8 \<Longrightarrow> gf64_swar_spread_512 x = map spread_bits x"
  by (rule nth_equalityI)
    (auto simp: gf64_swar_spread_512_def spread_bits_def Let_def vset1_def)

lemma reduce_square_lanes:
  "gf64_reduce_square_512 = gf64_reduce_mul_512"
  by (intro ext) (simp add: gf64_reduce_square_512_def gf64_reduce_mul_512_def)

lemma gf64_square_avx512_block_eq:
  "gf64_square_avx512_block inp i out =
    fold (\<lambda>i out. out[i := gf64_square_one (inp ! i)]) [i..<i + 8] out"
proof -
  have "gf64_square_avx512_block inp i out =
      vstoreu out i (map (\<lambda>k. gf64_square_one (inp ! (i + k))) [0..<8])"
    unfolding gf64_square_avx512_block_def Let_def vloadu_def
    by (rule arg_cong [where f = "vstoreu out i"], rule nth_equalityI)
      (auto simp: swar_spread_lanes reduce_square_lanes vreduce_lanes gf64_square_one_reduce
        and_mask32 vset1_def)
  then show ?thesis
    using vstoreu_map [of out i "\<lambda>i. gf64_square_one (inp ! i)" 8] by simp
qed

lemma gf64_square_avx512_eq:
  assumes "N \<le> length out" and "N \<le> length inp"
  shows "gf64_square_avx512 out inp N = gf64_square out inp N"
  unfolding gf64_square_avx512_def
  by (subst batch_with_tail [OF gf64_square_avx512_block_eq gf64_square_eq assms])
    (simp_all add: gf64_square_eq assms)

end
