(* ===== verification/GF64_Field.thy ===== *)
theory GF64_Field
  imports GF64_Irreducible GF64_Square
begin

text \<open>
  The ring of GF64_Ring is a field. \<open>x^(2^64) = x\<close> is evaluated with the code's squaring, eight
  squarings at a time; then every element is fixed by 64 squarings, so \<open>a^(2^64 - 1)\<close> is an
  idempotent, hence 0 or 1, and \<open>a^(2^64 - 2)\<close> is the inverse of \<open>a \<noteq> 0\<close>.
\<close>

section \<open>The 64 successive squares of x\<close>

lemma square_eval: "gf64_square_one a =
    (let lo = spread_bits (take_bit 32 a); hi = spread_bits (drop_bit 32 a);
         r = drop_bit 60 hi XOR drop_bit 61 hi XOR drop_bit 63 hi
     in lo XOR mul_1B hi XOR mul_1B r)"
    "spread_bits x =
    (let x = (x OR push_bit 16 x) AND 0x0000FFFF0000FFFF;
         x = (x OR push_bit 8 x) AND 0x00FF00FF00FF00FF;
         x = (x OR push_bit 4 x) AND 0x0F0F0F0F0F0F0F0F;
         x = (x OR push_bit 2 x) AND 0x3333333333333333
     in (x OR push_bit 1 x) AND 0x5555555555555555)"
  by (simp_all only: Let_def gf64_square_one_reduce reduce_tail_def overflow_1B_eq spread_bits_def)

lemma squares_of_x_0:
  "gf64_square_one 0x2 = 0x4"
  "gf64_square_one 0x4 = 0x10"
  "gf64_square_one 0x10 = 0x100"
  "gf64_square_one 0x100 = 0x10000"
  "gf64_square_one 0x10000 = 0x100000000"
  "gf64_square_one 0x100000000 = 0x1B"
  "gf64_square_one 0x1B = 0x145"
  "gf64_square_one 0x145 = 0x11011"
  by (simp_all add: square_eval cong: let_weak_cong)

lemma squares_of_x_1:
  "gf64_square_one 0x11011 = 0x101000101"
  "gf64_square_one 0x101000101 = 0x100000001001A"
  "gf64_square_one 0x100000001001A = 0x1A00000144"
  "gf64_square_one 0x1A00000144 = 0x10DBC"
  "gf64_square_one 0x10DBC = 0x100514550"
  "gf64_square_one 0x100514550 = 0x11011011111B"
  "gf64_square_one 0x11011011111B = 0x10001011A1A015E"
  "gf64_square_one 0x10001011A1A015E = 0x15F0144001A114F"
  by (simp_all add: square_eval cong: let_weak_cong)

lemma squares_of_x_2:
  "gf64_square_one 0x15F0144001A114F = 0x1AAD43011BA1E5"
  "gf64_square_one 0x1AAD43011BA1E5 = 0x11CEFEF6BE466"
  "gf64_square_one 0x11CEFEF6BE466 = 0x5455145E48670F13"
  "gf64_square_one 0x5455145E48670F13 = 0xBAF1BEBE1AE4AD02"
  "gf64_square_one 0xBAF1BEBE1AE4AD02 = 0xB0EF530DF44BB042"
  "gf64_square_one 0xB0EF530DF44BB042 = 0xE2170B43EE771735"
  "gf64_square_one 0xE2170B43EE771735 = 0x48380FD207A3B527"
  "gf64_square_one 0x48380FD207A3B527 = 0xB6D535C542116F62"
  by (simp_all add: square_eval cong: let_weak_cong)

lemma squares_of_x_3:
  "gf64_square_one 0xB6D535C542116F62 = 0xA6DF6BAA62F965F5"
  "gf64_square_one 0xA6DF6BAA62F965F5 = 0xB9DF3947CEA0FFE7"
  "gf64_square_one 0xB9DF3947CEA0FFE7 = 0xE1882807248FE588"
  "gf64_square_one 0xE1882807248FE588 = 0x180D86953ED141C6"
  "gf64_square_one 0x180D86953ED141C6 = 0x1894566CD1DB8ABF"
  "gf64_square_one 0x1894566CD1DB8ABF = 0x4CC78BF4EA999E25"
  "gf64_square_one 0x4CC78BF4EA999E25 = 0xE333308087E402BA"
  "gf64_square_one 0xE333308087E402BA = 0x5C62236777028505"
  by (simp_all add: square_eval cong: let_weak_cong)

lemma squares_of_x_4:
  "gf64_square_one 0x5C62236777028505 = 0xB964DC682C67DDCD"
  "gf64_square_one 0xB964DC682C67DDCD = 0xB58AC9A23D208ACB"
  "gf64_square_one 0xB58AC9A23D208ACB = 0xB3FCC2AB3699FC73"
  "gf64_square_one 0xB3FCC2AB3699FC73 = 0xB2644136253ABFE8"
  "gf64_square_one 0xB2644136253ABFE8 = 0xB37CD8F5F54E22C6"
  "gf64_square_one 0xB37CD8F5F54E22C6 = 0xE267D02369C356E5"
  "gf64_square_one 0xE267D02369C356E5 = 0x82C8DC57A143827"
  "gf64_square_one 0x82C8DC57A143827 = 0x13846A66C22C75BE"
  by (simp_all add: square_eval cong: let_weak_cong)

lemma squares_of_x_5:
  "gf64_square_one 0x13846A66C22C75BE = 0x4B75C5E1CFBC9888"
  "gf64_square_one 0x4B75C5E1CFBC9888 = 0xE6E383FC30EC5C40"
  "gf64_square_one 0xE6E383FC30EC5C40 = 0x18DB4821D1201031"
  "gf64_square_one 0x18DB4821D1201031 = 0x4CC669B6B7C0691A"
  "gf64_square_one 0x4CC669B6B7C0691A = 0xF26221DDCE9CB783"
  "gf64_square_one 0xF26221DDCE9CB783 = 0x57399D3C29092C2F"
  "gf64_square_one 0x57399D3C29092C2F = 0xAE86719CD83B743E"
  "gf64_square_one 0xAE86719CD83B743E = 0xFA5AC498D20DD97E"
  by (simp_all add: square_eval cong: let_weak_cong)

lemma squares_of_x_6:
  "gf64_square_one 0xFA5AC498D20DD97E = 0x50A9ADFA20F7C8D5"
  "gf64_square_one 0x50A9ADFA20F7C8D5 = 0xAF06FFC8FB2C50A6"
  "gf64_square_one 0xAF06FFC8FB2C50A6 = 0xFE42058B1100328E"
  "gf64_square_one 0xFE42058B1100328E = 0x11CB06C04A986A2"
  "gf64_square_one 0x11CB06C04A986A2 = 0xB5837F7159F74"
  "gf64_square_one 0xB5837F7159F74 = 0x551507A7EC9563D7"
  "gf64_square_one 0x551507A7EC9563D7 = 0xFEFB5BBA15C4FCC9"
  "gf64_square_one 0xFEFB5BBA15C4FCC9 = 0x10A51A6F8E1E1AC"
  by (simp_all add: square_eval cong: let_weak_cong)

lemma squares_of_x_7:
  "gf64_square_one 0x10A51A6F8E1E1AC = 0x555B52ACFF1CE98C"
  "gf64_square_one 0x555B52ACFF1CE98C = 0xFFFFACE6FF2BEB3B"
  "gf64_square_one 0xFFFFACE6FF2BEB3B = 0x55550444FF3218D8"
  "gf64_square_one 0x55550444FF3218D8 = 0xFFFFAFAF00F1E0EB"
  "gf64_square_one 0xFFFFAFAF00F1E0EB = 0x5500FF01FF03"
  "gf64_square_one 0x5500FF01FF03 = 0x55550000FFFE0005"
  "gf64_square_one 0x55550000FFFE0005 = 0xFFFFFFFF0000000A"
  "gf64_square_one 0xFFFFFFFF0000000A = 0x2"
  by (simp_all add: square_eval cong: let_weak_cong)

lemma Gf_square_funpow: "Gf ((gf64_square_one ^^ n) a) = Gf a ^ (2 ^ n)"
  by (induction n) (simp_all add: Gf_square_one mult.commute flip: power_mult)

lemma numeral_8_eq_Suc: "(8::nat) = Suc (Suc (Suc (Suc (Suc (Suc (Suc (Suc 0)))))))"
  by simp

lemma gfx_fixed: "gfx ^ (2 ^ 64) = gfx"
proof -
  have 8: "(gf64_square_one ^^ 8) a =
      gf64_square_one (gf64_square_one (gf64_square_one (gf64_square_one
        (gf64_square_one (gf64_square_one (gf64_square_one (gf64_square_one a)))))))" for a
    by (simp add: eval_nat_numeral)
  have "(gf64_square_one ^^ 64) 2 = ((gf64_square_one ^^ 8) ^^ 8) 2"
    by (simp add: funpow_mult)
  also have "((gf64_square_one ^^ 8) ^^ 8) 2 = 2"
    by (simp only: 8 squares_of_x_0 squares_of_x_1 squares_of_x_2 squares_of_x_3 squares_of_x_4
        squares_of_x_5 squares_of_x_6 squares_of_x_7
        funpow.simps numeral_8_eq_Suc comp_apply id_apply)
  finally have "(gf64_square_one ^^ 64) 2 = 2" .
  then show ?thesis
    using Gf_square_funpow [of 64 2] by (simp add: gfx_def)
qed

section \<open>The inverse\<close>

lemma gf_power_order: "(a::gf) ^ (2 ^ 64) = a"
  by (rule gf_fixed_if_x_fixed) (rule gfx_fixed)

lemma gf_power_unit:
  assumes "(a::gf) \<noteq> 0"
  shows "a ^ (2 ^ 64 - 1) = 1"
proof -
  let ?z = "a ^ (2 ^ 64 - 1)"
  have az: "a * ?z = a"
    using gf_power_order [of a] by (simp flip: power_Suc)
  have "?z * ?z = ?z"
  proof -
    have "?z * ?z = a ^ (2 ^ 64 - 2) * (a * ?z)"
      by (simp flip: power_add power_Suc)
    also have "\<dots> = ?z" unfolding az by (simp flip: power_Suc2)
    finally show ?thesis .
  qed
  then have "?z = 0 \<or> ?z = 1"
    by (intro gf_idempotent) (simp add: power2_eq_square)
  with az assms show ?thesis by auto
qed

instantiation gf :: field
begin

definition inverse_gf :: "gf \<Rightarrow> gf" where "inverse_gf a = a ^ (2 ^ 64 - 2)"
definition divide_gf :: "gf \<Rightarrow> gf \<Rightarrow> gf" where "divide_gf a b = a * inverse b"

instance
proof
  fix a b :: gf
  show "a \<noteq> 0 \<Longrightarrow> inverse a * a = 1"
    using gf_power_unit [of a] by (simp add: inverse_gf_def flip: power_Suc2)
  show "a div b = a * inverse b"
    by (simp add: divide_gf_def)
  show "inverse (0::gf) = 0"
    by (simp add: inverse_gf_def zero_power)
qed

end

lemma gf_inverse_unique: "(a::gf) * b = 1 \<Longrightarrow> inverse a = b"
  by (rule inverse_unique)

end
