(* ===== verification/GF64_Invert.thy ===== *)
theory GF64_Invert
  imports GF64_Field "HOL-Library.While_Combinator"
begin

text \<open>
  Inversion: the extended Euclidean loop of gf64/gf64_invert.c, the lock-step batches of
  gf64_invert_{ssse3,avx2,avx512}.c, and the Itoh-Tsujii chains of gf64_invert_ita.c and
  gf64_invert_ita_avx512.c. All are shown to compute the inverse of the field, with 0 mapped
  to 0; the Euclidean loop is shown to terminate and to need fewer than 128 iterations, which is
  the bound the batches use.
\<close>

section \<open>The Euclidean step\<close>

text \<open>\<open>__builtin_clzll\<close>, and the degree the code computes with it (\<open>-1\<close> for 0).\<close>

definition clzll :: "gf64_t \<Rightarrow> nat" where
  "clzll a = length (takeWhile (\<lambda>i. \<not> bit a i) (rev [0..<64]))"

definition degree64 :: "gf64_t \<Rightarrow> int" where
  "degree64 a = (if a = 0 then -1 else 63 - int (clzll a))"

record eea =
  r0 :: gf64_t
  r1 :: gf64_t
  s0 :: gf64_t
  s1 :: gf64_t
  deg_r0 :: int
  deg_r1 :: int

definition eea_init :: "gf64_t \<Rightarrow> eea" where
  "eea_init a = \<lparr>r0 = 0x1B, r1 = a, s0 = 0, s1 = 1, deg_r0 = 64, deg_r1 = degree64 a\<rparr>"

definition eea_swap :: "eea \<Rightarrow> eea" where
  "eea_swap e = (if deg_r0 e < deg_r1 e
     then \<lparr>r0 = r1 e, r1 = r0 e, s0 = s1 e, s1 = s0 e, deg_r0 = deg_r1 e, deg_r1 = deg_r0 e\<rparr>
     else e)"

definition eea_reduce :: "eea \<Rightarrow> eea" where
  "eea_reduce e =
    (let shift = nat (deg_r0 e - deg_r1 e);
         e = e\<lparr>r0 := r0 e XOR push_bit shift (r1 e)\<rparr>;
         e = e\<lparr>s0 := s0 e XOR push_bit shift (s1 e)\<rparr>
     in e\<lparr>deg_r0 := degree64 (r0 e)\<rparr>)"

text \<open>The body and the condition of the loop of \<open>gf64_inverse\<close>.\<close>

definition eea_step :: "eea \<Rightarrow> eea" where
  "eea_step e = eea_reduce (eea_swap e)"

definition eea_continue :: "eea \<Rightarrow> bool" where
  "eea_continue e \<longleftrightarrow> r1 e \<noteq> 1 \<and> r1 e \<noteq> 0"

text \<open>
  The whole function. The loop is \<open>while_option\<close>, whose value is \<open>None\<close> when it does not end;
  \<open>gf64_inverse_run_eq\<close> below shows that it always ends. \<open>gf64_inverse\<close> is the value its callers
  get.
\<close>

definition gf64_inverse_run :: "gf64_t \<Rightarrow> gf64_t option" where
  "gf64_inverse_run a =
    (if a = 0 then Some 0
     else if a = 1 then Some 1
     else case while_option eea_continue eea_step (eea_init a) of
       None \<Rightarrow> None
     | Some e \<Rightarrow> if r1 e = 0 then Some 0 else Some (s1 e))"

definition gf64_inverse :: "gf64_t \<Rightarrow> gf64_t" where
  "gf64_inverse a = the (gf64_inverse_run a)"

section \<open>Degrees\<close>

lemma degree64_nonzero:
  assumes "a \<noteq> 0"
  shows "bit a (nat (degree64 a))" and "0 \<le> degree64 a" and "degree64 a < 64"
    and "\<And>n. degree64 a < int n \<Longrightarrow> \<not> bit a n"
proof -
  let ?xs = "rev [0..<64::nat]" and ?P = "\<lambda>i. \<not> bit a i"
  have nth: "?xs ! k = 63 - k" if "k < 64" for k using that by (simp add: rev_nth)
  have "\<exists>n<64. bit a n"
    using assms bit_word_eqI [of a 0] by auto
  then have "\<exists>x\<in>set ?xs. \<not> ?P x" by auto
  then have len: "clzll a < 64"
    unfolding clzll_def
    using takeWhile_eq_all_conv [of ?P ?xs] takeWhile_eq_take [of ?P ?xs]
      length_takeWhile_le [of ?P ?xs]
    by (cases "length (takeWhile ?P ?xs) = 64") auto
  then show "0 \<le> degree64 a" and "degree64 a < 64"
    using assms by (simp_all add: degree64_def)
  have "\<not> ?P (?xs ! clzll a)"
    unfolding clzll_def by (rule nth_length_takeWhile) (use len in \<open>simp add: clzll_def\<close>)
  then show "bit a (nat (degree64 a))"
    using len assms by (simp add: nth degree64_def nat_diff_distrib')
  show "\<not> bit a n" if "degree64 a < int n" for n
  proof (cases "n < 64")
    case True
    then have "63 - n < clzll a" using that assms by (simp add: degree64_def)
    then have "takeWhile ?P ?xs ! (63 - n) = ?xs ! (63 - n)" and "?P (takeWhile ?P ?xs ! (63 - n))"
      unfolding clzll_def using set_takeWhileD [OF nth_mem [of "63 - n" "takeWhile ?P ?xs"]]
      by (auto simp: takeWhile_nth)
    then show ?thesis using True nth [of "63 - n"] by simp
  qed (auto dest: bit_imp_le_length)
qed

lemma degree64_zero [simp]: "degree64 0 = -1" by (simp add: degree64_def)

lemma degree64_ge: "-1 \<le> degree64 a" and degree64_less: "degree64 a < 64"
  using degree64_nonzero(2,3) [of a] by (cases "a = 0"; simp)+

lemma degree64_less_iff: "degree64 a < int n \<longleftrightarrow> (\<forall>k\<ge>n. \<not> bit a k)"
proof (cases "a = 0")
  case False
  from degree64_nonzero [OF this] show ?thesis
    by (metis int_eq_iff leI nat_le_iff not_le order_less_le_trans zle_int)
qed simp

lemma degree64_eqI: "bit a n \<Longrightarrow> (\<And>k. k > n \<Longrightarrow> \<not> bit a k) \<Longrightarrow> degree64 a = int n"
  using degree64_less_iff [of a n] degree64_less_iff [of a "Suc n"] by force

lemma degree64_0_iff: "degree64 a = 0 \<longleftrightarrow> a = 1"
proof
  assume "degree64 a = 0"
  then have "a \<noteq> 0" and "bit a 0" and "\<And>k. k > 0 \<Longrightarrow> \<not> bit a k"
    using degree64_nonzero [of a] by (auto simp: degree64_def split: if_splits)
  then show "a = 1" by (intro bit_word_eqI) (auto simp: bit_1_iff)
qed (auto intro: degree64_eqI [where n = 0, simplified] simp: bit_1_iff)

lemma degree64_nonneg_iff: "0 \<le> degree64 a \<longleftrightarrow> a \<noteq> 0"
  using degree64_nonzero(2) by (auto simp: degree64_def)

lemma degree64_push_bit:
  assumes "a \<noteq> 0" and "degree64 a + int n < 64"
  shows "degree64 (push_bit n a) = degree64 a + int n"
proof -
  obtain d where d: "degree64 a = int d"
    using degree64_nonzero(2) [OF assms(1)] nonneg_int_cases by blast
  have "degree64 (push_bit n a) = int (d + n)"
    using degree64_nonzero [OF assms(1)] assms(2) d
    by (intro degree64_eqI) (auto simp: bit_simps)
  with d show ?thesis by simp
qed

lemma degree64_xor_less:
  assumes "degree64 a < degree64 b"
  shows "degree64 (a XOR b) = degree64 b" and "degree64 (b XOR a) = degree64 b"
proof -
  have "b \<noteq> 0" using assms degree64_ge [of a] by auto
  then obtain d where d: "degree64 b = int d"
    using degree64_nonzero(2) nonneg_int_cases by blast
  have a: "\<not> bit a k" if "k \<ge> d" for k
    using assms that d degree64_less_iff [of a d] by auto
  have "degree64 (a XOR b) = int d"
    using degree64_nonzero [OF \<open>b \<noteq> 0\<close>] d a
    by (intro degree64_eqI) (auto simp: bit_simps)
  with d show "degree64 (a XOR b) = degree64 b" and "degree64 (b XOR a) = degree64 b"
    by (simp_all add: xor.commute)
qed

lemma degree64_xor_cancel:
  assumes "degree64 a = degree64 b" and "a \<noteq> 0"
  shows "degree64 (a XOR b) < degree64 a"
proof -
  obtain d where d: "degree64 a = int d" "degree64 b = int d"
    using degree64_nonzero(2) [OF assms(2)] nonneg_int_cases assms(1) by metis
  then have "b \<noteq> 0" by auto
  have "\<not> bit (a XOR b) k" if "k \<ge> d" for k
    using that d degree64_nonzero [OF assms(2)] degree64_nonzero [OF \<open>b \<noteq> 0\<close>]
    by (cases "k = d") (auto simp: bit_simps)
  then show ?thesis
    unfolding d(1) degree64_less_iff by blast
qed

lemma Gf_push_bit:
  assumes "degree64 a + int n < 64" and "n < 64"
  shows "Gf (push_bit n a) = gfx ^ n * Gf a"
proof -
  have "drop_bit (64 - n) a = 0"
    by (rule bit_word_eqI)
      (use assms degree64_less_iff [of a "64 - n"] in \<open>auto simp: bit_simps\<close>)
  then show ?thesis
    using assms(2) by (simp add: gfx_power_shift [of n])
qed

lemma Gf_push_bit_64:
  assumes "degree64 a + int n = 64" and "n < 64" and "a \<noteq> 0"
  shows "Gf (push_bit n a) + gfx ^ 64 = gfx ^ n * Gf a"
proof -
  have d: "degree64 a = int (64 - n)" using assms by simp
  have "bit (drop_bit (64 - n) a) k \<longleftrightarrow> k = 0" for k
    using degree64_nonzero(1,4) [OF assms(3)] d by (cases k) (auto simp: bit_simps)
  then have "drop_bit (64 - n) a = 1"
    by (intro bit_word_eqI) (auto simp: bit_1_iff)
  then show ?thesis
    using assms(2) by (simp add: gfx_power_shift [of n])
qed

section \<open>The invariant\<close>

text \<open>
  The value \<open>r0\<close> stands for, with the implicit \<open>x^64\<close> of the first iteration. Both rows satisfy
  \<open>r = s a\<close>, and the degrees of the cofactors complement those of the remainders: either the
  row \<open>0\<close> has just been swapped in (or is the initial one) and \<open>deg s1 + deg r0 = 64\<close>, or it has
  been reduced and \<open>deg s0 + deg r1 = 64\<close>. Hence no shift of a cofactor overflows, and no cofactor
  is 0.
\<close>

definition gf_r0 :: "eea \<Rightarrow> gf" where
  "gf_r0 e = Gf (r0 e) + (if deg_r0 e = 64 then gfx ^ 64 else 0)"

definition eea_rows :: "gf64_t \<Rightarrow> eea \<Rightarrow> bool" where
  "eea_rows a e \<longleftrightarrow> gf_r0 e = Gf (s0 e) * Gf a \<and> (deg_r0 e = 64 \<or> deg_r0 e = degree64 (r0 e))"

definition eea_row1 :: "gf64_t \<Rightarrow> eea \<Rightarrow> bool" where
  "eea_row1 a e \<longleftrightarrow> Gf (r1 e) = Gf (s1 e) * Gf a \<and> s1 e \<noteq> 0 \<and> deg_r1 e = degree64 (r1 e)"

definition eea_fresh :: "eea \<Rightarrow> bool" where
  "eea_fresh e \<longleftrightarrow> degree64 (s1 e) + deg_r0 e = 64 \<and> degree64 (s0 e) < degree64 (s1 e)"

definition eea_reduced :: "eea \<Rightarrow> bool" where
  "eea_reduced e \<longleftrightarrow> deg_r0 e < 64 \<and> degree64 (s0 e) + deg_r1 e = 64 \<and>
    degree64 (s1 e) + deg_r0 e < 64 \<and> degree64 (s1 e) < degree64 (s0 e)"

definition eea_inv :: "gf64_t \<Rightarrow> eea \<Rightarrow> bool" where
  "eea_inv a e \<longleftrightarrow> eea_row1 a e \<and> -1 \<le> deg_r0 e \<and> (eea_continue e \<longrightarrow> eea_rows a e \<and>
    (eea_fresh e \<and> deg_r1 e < deg_r0 e \<or> eea_reduced e))"

text \<open>What holds between the swap and the subtraction.\<close>

definition eea_mid :: "gf64_t \<Rightarrow> eea \<Rightarrow> bool" where
  "eea_mid a e \<longleftrightarrow> eea_row1 a e \<and> eea_rows a e \<and>
    (eea_fresh e \<and> deg_r1 e < deg_r0 e \<or> eea_reduced e \<and> deg_r1 e \<le> deg_r0 e) \<and>
    (deg_r0 e = 64 \<longrightarrow> eea_continue e)"

lemmas eea_defs = eea_rows_def eea_row1_def eea_fresh_def eea_reduced_def eea_continue_def

lemma eea_inv_init: "a \<noteq> 0 \<Longrightarrow> eea_inv a (eea_init a)"
  by (simp add: eea_inv_def eea_defs gf_r0_def eea_init_def gfx_64 degree64_less)
    (simp add: degree64_0_iff [THEN iffD2])

lemma row1_nonzero: "a \<noteq> 0 \<Longrightarrow> eea_row1 a e \<Longrightarrow> r1 e \<noteq> 0"
  unfolding eea_row1_def by (metis Gf_eq_0_iff mult_eq_0_iff)

lemma eea_swap_mid:
  assumes "eea_inv a e" and "eea_continue e"
  shows "eea_mid a (eea_swap e)"
proof (cases "deg_r0 e < deg_r1 e")
  case True
  with assms have *: "eea_row1 a e" "eea_rows a e" "eea_reduced e"
    by (auto simp: eea_inv_def)
  then have "s0 e \<noteq> 0"
    using degree64_ge [of "s1 e"] by (auto simp: eea_reduced_def)
  with * True show ?thesis
    using degree64_less [of "r1 e"]
    by (auto simp: eea_mid_def eea_defs gf_r0_def eea_swap_def)
next
  case False
  with assms show ?thesis
    by (auto simp: eea_mid_def eea_inv_def eea_swap_def)
qed

text \<open>The shift of the step, its effect on both columns, and the degrees after it.\<close>

lemma eea_mid_shift:
  assumes "eea_mid a e" and "a \<noteq> 0" and "eea_continue e"
  shows "Gf (push_bit (nat (deg_r0 e - deg_r1 e)) (s1 e)) =
      gfx ^ nat (deg_r0 e - deg_r1 e) * Gf (s1 e)"
    and "degree64 (push_bit (nat (deg_r0 e - deg_r1 e)) (s1 e)) =
      degree64 (s1 e) + (deg_r0 e - deg_r1 e)"
    and "nat (deg_r0 e - deg_r1 e) < 64"
proof -
  have r1: "1 \<le> deg_r1 e"
    using assms degree64_0_iff [of "r1 e"] degree64_nonzero(2) [of "r1 e"]
    by (simp add: eea_mid_def eea_row1_def eea_continue_def)
  have s1: "s1 e \<noteq> 0" using assms by (simp add: eea_mid_def eea_row1_def)
  have "degree64 (s1 e) + (deg_r0 e - deg_r1 e) < 64" and le: "deg_r1 e \<le> deg_r0 e"
    and "deg_r0 e - deg_r1 e < 64"
    using assms(1) r1 degree64_nonzero(2) [OF s1]
    by (auto simp: eea_mid_def eea_fresh_def eea_reduced_def)
  then show "Gf (push_bit (nat (deg_r0 e - deg_r1 e)) (s1 e)) =
      gfx ^ nat (deg_r0 e - deg_r1 e) * Gf (s1 e)"
    and "degree64 (push_bit (nat (deg_r0 e - deg_r1 e)) (s1 e)) =
      degree64 (s1 e) + (deg_r0 e - deg_r1 e)"
    and "nat (deg_r0 e - deg_r1 e) < 64"
    using s1 by (simp_all add: Gf_push_bit degree64_push_bit)
qed

lemma eea_reduce_degree:
  assumes "eea_mid a e" and "a \<noteq> 0"
  shows "deg_r0 (eea_reduce e) < deg_r0 e"
proof (cases "deg_r0 e = 64")
  case False
  have r1: "r1 e \<noteq> 0" "deg_r1 e = degree64 (r1 e)"
    using assms row1_nonzero by (auto simp: eea_mid_def eea_row1_def)
  have le: "deg_r1 e \<le> deg_r0 e" and r0: "deg_r0 e = degree64 (r0 e)"
    using assms(1) False by (auto simp: eea_mid_def eea_rows_def)
  then have "degree64 (push_bit (nat (deg_r0 e - deg_r1 e)) (r1 e)) = degree64 (r0 e)"
    using r1 degree64_less [of "r0 e"] by (subst degree64_push_bit) auto
  moreover have "r0 e \<noteq> 0"
    using le r0 r1 degree64_nonneg_iff by (metis order_trans)
  ultimately show ?thesis
    unfolding r0
    using degree64_xor_cancel [of "r0 e" "push_bit (nat (degree64 (r0 e) - deg_r1 e)) (r1 e)"] r0
    by (simp add: eea_reduce_def Let_def)
qed (simp add: eea_reduce_def Let_def degree64_less)

lemma eea_reduce_fields [simp]:
  "r1 (eea_reduce e) = r1 e" "s1 (eea_reduce e) = s1 e" "deg_r1 (eea_reduce e) = deg_r1 e"
  "r0 (eea_reduce e) = r0 e XOR push_bit (nat (deg_r0 e - deg_r1 e)) (r1 e)"
  "s0 (eea_reduce e) = s0 e XOR push_bit (nat (deg_r0 e - deg_r1 e)) (s1 e)"
  "deg_r0 (eea_reduce e) = degree64 (r0 (eea_reduce e))"
  by (simp_all add: eea_reduce_def Let_def)

lemma eea_reduce_rows:
  assumes mid: "eea_mid a e" and "a \<noteq> 0" and "eea_continue e"
  shows "eea_rows a (eea_reduce e)"
proof -
  let ?sh = "nat (deg_r0 e - deg_r1 e)"
  have r1: "r1 e \<noteq> 0" "deg_r1 e = degree64 (r1 e)" "Gf (r1 e) = Gf (s1 e) * Gf a"
    using assms row1_nonzero by (auto simp: eea_mid_def eea_row1_def)
  have sum: "gfx ^ ?sh * Gf (r1 e) = Gf (push_bit ?sh (r1 e)) + (if deg_r0 e = 64 then gfx ^ 64 else 0)"
  proof (cases "deg_r0 e = 64")
    case True
    then show ?thesis
      using r1 degree64_less [of "r1 e"] eea_mid_shift(3) [OF assms] by (simp add: Gf_push_bit_64)
  next
    case False
    then have "deg_r0 e < 64" and "deg_r1 e \<le> deg_r0 e"
      using mid degree64_less by (auto simp: eea_mid_def eea_rows_def)
    then show ?thesis
      using r1 False eea_mid_shift(3) [OF assms] by (simp add: Gf_push_bit)
  qed
  have "c + (p + c) = p" for c p :: gf
    by (metis gf_add_self_left add.commute)
  then have "Gf (r0 e XOR push_bit ?sh (r1 e)) = gf_r0 e + gfx ^ ?sh * Gf (r1 e)"
    by (simp only: gf_r0_def Gf_xor add.assoc sum)
  also have "\<dots> = Gf (s0 (eea_reduce e)) * Gf a"
    using mid eea_mid_shift(1) [OF assms] r1(3)
    by (simp add: eea_mid_def eea_rows_def Gf_xor distrib_right mult.assoc)
  finally show ?thesis
    by (simp add: eea_rows_def gf_r0_def degree64_less [THEN less_imp_neq])
qed

lemma eea_reduce_reduced:
  assumes mid: "eea_mid a e" and "a \<noteq> 0" and "eea_continue e"
  shows "eea_reduced (eea_reduce e)"
proof -
  have d: "deg_r0 (eea_reduce e) < deg_r0 e" and "deg_r0 (eea_reduce e) < 64"
    using eea_reduce_degree [OF assms(1,2)] by (simp_all add: degree64_less)
  let ?p = "push_bit (nat (deg_r0 e - deg_r1 e)) (s1 e)"
  have p: "degree64 ?p = degree64 (s1 e) + (deg_r0 e - deg_r1 e)"
    by (rule eea_mid_shift(2) [OF assms])
  from mid consider "eea_fresh e" "deg_r1 e < deg_r0 e" | "eea_reduced e" "deg_r1 e \<le> deg_r0 e"
    by (auto simp: eea_mid_def)
  then have "degree64 (s0 (eea_reduce e)) + deg_r1 e = 64 \<and> degree64 (s1 e) + deg_r0 (eea_reduce e) < 64 \<and>
      degree64 (s1 e) < degree64 (s0 (eea_reduce e))"
  proof cases
    case 1
    then have "degree64 (s0 e) < degree64 ?p" using p by (simp add: eea_fresh_def)
    from degree64_xor_less(1) [OF this] 1 p d show ?thesis
      by (simp add: eea_fresh_def)
  next
    case 2
    then have "degree64 ?p < degree64 (s0 e)" using p by (simp add: eea_reduced_def)
    from degree64_xor_less(2) [OF this] 2 p d show ?thesis
      by (simp add: eea_reduced_def)
  qed
  with \<open>deg_r0 (eea_reduce e) < 64\<close> show ?thesis
    unfolding eea_reduced_def by (simp del: eea_reduce_fields(4-6))
qed

lemma eea_step_inv:
  assumes "eea_inv a e" and "eea_continue e" and "a \<noteq> 0"
  shows "eea_inv a (eea_step e)"
    and "deg_r0 (eea_step e) + deg_r1 (eea_step e) < deg_r0 e + deg_r1 e"
    and "0 \<le> deg_r0 e + deg_r1 e"
proof -
  note mid = eea_swap_mid [OF assms(1,2)]
  have "eea_row1 a (eea_reduce (eea_swap e))"
    using mid by (simp add: eea_mid_def eea_row1_def)
  moreover have "eea_continue (eea_swap e)" if "eea_continue (eea_reduce (eea_swap e))"
    using that by (simp add: eea_continue_def)
  ultimately show "eea_inv a (eea_step e)"
    using eea_reduce_rows [OF mid assms(3)] eea_reduce_reduced [OF mid assms(3)]
    by (simp add: eea_inv_def eea_step_def degree64_ge)
  show "deg_r0 (eea_step e) + deg_r1 (eea_step e) < deg_r0 e + deg_r1 e"
    using eea_reduce_degree [OF mid assms(3)]
    by (simp add: eea_step_def eea_swap_def split: if_splits)
  have "1 \<le> deg_r1 e"
    using assms degree64_0_iff [of "r1 e"] degree64_nonzero(2) [of "r1 e"]
    by (simp add: eea_inv_def eea_row1_def eea_continue_def)
  then show "0 \<le> deg_r0 e + deg_r1 e"
    using assms(1) by (simp add: eea_inv_def)
qed

lemma eea_exit:
  assumes "eea_inv a e" and "\<not> eea_continue e" and "a \<noteq> 0"
  shows "r1 e = 1" and "s1 e = gf_rep (inverse (Gf a))"
proof -
  have row: "eea_row1 a e" using assms(1) by (simp add: eea_inv_def)
  with assms show "r1 e = 1"
    using row1_nonzero by (auto simp: eea_continue_def)
  with row have "Gf a * Gf (s1 e) = 1"
    by (simp add: eea_row1_def mult.commute)
  then have "inverse (Gf a) = Gf (s1 e)" by (rule gf_inverse_unique)
  then show "s1 e = gf_rep (inverse (Gf a))" by simp
qed

section \<open>The scalar routine\<close>

definition eea_measure :: "eea \<Rightarrow> nat" where
  "eea_measure e = nat (deg_r0 e + deg_r1 e + 1)"

lemma eea_step_measure:
  assumes "eea_inv a e" and "eea_continue e" and "a \<noteq> 0"
  shows "eea_measure (eea_step e) < eea_measure e"
  using eea_step_inv(2,3) [OF assms] by (simp add: eea_measure_def)

lemma gf64_inverse_run_eq: "gf64_inverse_run a = Some (gf_rep (inverse (Gf a)))"
proof (cases "a = 0 \<or> a = 1")
  case True
  then show ?thesis by (auto simp: gf64_inverse_run_def)
next
  case False
  then have a: "a \<noteq> 0" by simp
  have "\<exists>e. while_option eea_continue eea_step (eea_init a) = Some e"
    by (rule measure_while_option_Some [where P = "eea_inv a" and f = eea_measure])
      (use a eea_inv_init eea_step_inv(1) eea_step_measure in auto)
  then obtain e where e: "while_option eea_continue eea_step (eea_init a) = Some e" by blast
  then have "\<not> eea_continue e" by (rule while_option_stop)
  moreover from e have "eea_inv a e"
    by (rule while_option_rule [where P = "eea_inv a", rotated 1])
      (use a eea_inv_init eea_step_inv(1) in auto)
  ultimately show ?thesis
    using a False eea_exit [of a e] by (simp add: gf64_inverse_run_def e)
qed

lemma gf64_inverse_eq: "gf64_inverse a = gf_rep (inverse (Gf a))"
  by (simp add: gf64_inverse_def gf64_inverse_run_eq)

lemma Gf_inverse [gf64_to_gf]: "Gf (gf64_inverse a) = inverse (Gf a)"
  by (simp add: gf64_inverse_eq)

definition gf64_inverse_batch_scalar :: "gf64_t list \<Rightarrow> gf64_t list \<Rightarrow> nat \<Rightarrow> gf64_t list" where
  "gf64_inverse_batch_scalar out inp N = fold (\<lambda>i out. out[i := gf64_inverse (inp ! i)]) [0..<N] out"

lemma gf64_inverse_batch_scalar_eq:
  assumes "N \<le> length out"
  shows "gf64_inverse_batch_scalar out inp N =
    map (\<lambda>i. gf64_inverse (inp ! i)) [0..<N] @ drop N out"
  using assms by (simp add: gf64_inverse_batch_scalar_def fold_const_update_map)

section \<open>The lock-step batches\<close>

text \<open>
  A lane is the Euclidean state with its \<open>done\<close> flag. One pass of the iteration loop steps every
  lane that is not done; the loop breaks when it found all of them done, and runs
  \<open>GF64_INV_MAX_ITER\<close> times at most.
\<close>

definition GF64_INV_MAX_ITER :: nat where "GF64_INV_MAX_ITER = 128"

definition lane_init :: "gf64_t \<Rightarrow> eea \<times> bool" where
  "lane_init av = (eea_init av, av = 0 \<or> av = 1)"

definition lane_step :: "eea \<times> bool \<Rightarrow> eea \<times> bool" where
  "lane_step l = (case l of (e, done) \<Rightarrow>
    if done then (e, done)
    else let e = eea_reduce (eea_swap e) in (e, r1 e = 0 \<or> r1 e = 1))"

fun lanes_loop :: "nat \<Rightarrow> (eea \<times> bool) list \<Rightarrow> (eea \<times> bool) list" where
  "lanes_loop 0 ls = ls"
| "lanes_loop (Suc iters) ls =
    (let all_done = list_all snd ls;
         ls = map lane_step ls
     in if all_done then ls else lanes_loop iters ls)"

definition lane_result :: "eea \<times> bool \<Rightarrow> gf64_t" where
  "lane_result l = (if r1 (fst l) = 0 then 0 else s1 (fst l))"

definition inverse_block :: "nat \<Rightarrow> gf64_t list \<Rightarrow> nat \<Rightarrow> gf64_t list \<Rightarrow> gf64_t list" where
  "inverse_block lanes inp i out =
    (let ls = map (\<lambda>lane. lane_init (inp ! (i + lane))) [0..<lanes];
         ls = lanes_loop GF64_INV_MAX_ITER ls
     in fold (\<lambda>lane out. out[i + lane := lane_result (ls ! lane)]) [0..<lanes] out)"

definition gf64_inverse_batch_ssse3 :: "gf64_t list \<Rightarrow> gf64_t list \<Rightarrow> nat \<Rightarrow> gf64_t list" where
  "gf64_inverse_batch_ssse3 out inp N =
    (let blocks = N div 2;
         out = fold (\<lambda>b. inverse_block 2 inp (2 * b)) [0..<blocks] out;
         i = 2 * blocks
     in if i < N then take i out @ gf64_inverse_batch_scalar (drop i out) (drop i inp) (N - i)
        else out)"

definition gf64_inverse_batch_avx2 :: "gf64_t list \<Rightarrow> gf64_t list \<Rightarrow> nat \<Rightarrow> gf64_t list" where
  "gf64_inverse_batch_avx2 out inp N =
    (let blocks = N div 4;
         out = fold (\<lambda>b. inverse_block 4 inp (4 * b)) [0..<blocks] out;
         i = 4 * blocks
     in if i < N then take i out @ gf64_inverse_batch_scalar (drop i out) (drop i inp) (N - i)
        else out)"

definition gf64_inverse_batch_avx512 :: "gf64_t list \<Rightarrow> gf64_t list \<Rightarrow> nat \<Rightarrow> gf64_t list" where
  "gf64_inverse_batch_avx512 out inp N =
    (let blocks = N div 8;
         out = fold (\<lambda>b. inverse_block 8 inp (8 * b)) [0..<blocks] out;
         i = 8 * blocks
     in if i < N then take i out @ gf64_inverse_batch_scalar (drop i out) (drop i inp) (N - i)
        else out)"

lemma lanes_loop_eq: "lanes_loop n ls = map (lane_step ^^ n) ls"
proof (induction n arbitrary: ls)
  case (Suc n)
  have idle: "(lane_step ^^ k) l = l" if "snd l" for k l
    using that by (induction k) (auto simp: lane_step_def split: prod.splits)
  show ?case
  proof (cases "list_all snd ls")
    case True
    have "map lane_step ls = map id ls"
      by (rule map_cong) (use True idle [of _ 1] in \<open>auto simp: list_all_iff\<close>)
    moreover have "map (lane_step ^^ Suc n) ls = map id ls"
      by (rule map_cong) (use True idle [of _ "Suc n"] in \<open>auto simp: list_all_iff simp del: funpow.simps\<close>)
    ultimately show ?thesis using True by (simp add: comp_def)
  next
    case False
    then show ?thesis by (simp add: Suc funpow_Suc_right del: funpow.simps)
  qed
qed simp

lemma lane_step_cases:
  "lane_step (e, True) = (e, True)"
  "lane_step (e, False) = (eea_step e, \<not> eea_continue (eea_step e))"
  by (auto simp: lane_step_def Let_def eea_step_def eea_continue_def)

lemma lane_iterations:
  assumes "a \<noteq> 0"
  shows "let l = (lane_step ^^ n) (lane_init a) in eea_inv a (fst l) \<and>
    (snd l \<longleftrightarrow> \<not> eea_continue (fst l)) \<and> (snd l \<or> eea_measure (fst l) + n \<le> 128)"
proof (induction n)
  case 0
  have "eea_measure (eea_init a) \<le> 128"
    using degree64_less [of a] by (simp add: eea_measure_def eea_init_def)
  moreover have "r1 (eea_init a) = a" by (simp add: eea_init_def)
  ultimately show ?case
    using eea_inv_init [OF assms] by (auto simp: lane_init_def eea_continue_def)
next
  case (Suc n)
  obtain e d where l: "(lane_step ^^ n) (lane_init a) = (e, d)" by fastforce
  show ?case
  proof (cases d)
    case True
    then show ?thesis using Suc by (simp add: l lane_step_cases)
  next
    case False
    then have "eea_inv a e" and "eea_continue e" and m: "eea_measure e + n \<le> 128"
      using Suc by (auto simp: l)
    then have "eea_inv a (eea_step e)" and "eea_measure (eea_step e) < eea_measure e"
      using assms by (simp_all add: eea_step_inv(1) eea_step_measure)
    with m False show ?thesis
      by (simp add: l lane_step_cases)
  qed
qed

text \<open>128 iterations are enough for every input.\<close>

lemma lane_result_eq:
  "lane_result ((lane_step ^^ GF64_INV_MAX_ITER) (lane_init a)) = gf64_inverse a"
proof (cases "a = 0")
  case True
  have "(lane_step ^^ n) (lane_init 0) = lane_init 0" for n
    by (induction n) (auto simp: lane_step_def lane_init_def)
  with True show ?thesis
    by (simp add: lane_result_def lane_init_def eea_init_def gf64_inverse_eq)
next
  case False
  let ?l = "(lane_step ^^ 128) (lane_init a)"
  from lane_iterations [OF False, of 128]
  have inv: "eea_inv a (fst ?l)" and "snd ?l \<longleftrightarrow> \<not> eea_continue (fst ?l)"
    and "snd ?l \<or> eea_measure (fst ?l) = 0"
    by (auto simp: Let_def)
  moreover have "eea_measure (fst ?l) \<noteq> 0" if "eea_continue (fst ?l)"
    using eea_step_measure [OF inv that False] by simp
  ultimately have "\<not> eea_continue (fst ?l)" by auto
  from eea_exit [OF inv this False] show ?thesis
    by (simp add: lane_result_def GF64_INV_MAX_ITER_def gf64_inverse_eq)
qed

lemma inverse_block_eq:
  "inverse_block lanes inp i out =
    fold (\<lambda>i out. out[i := gf64_inverse (inp ! i)]) [i..<i + lanes] out"
proof -
  have "inverse_block lanes inp i out =
      fold (\<lambda>lane out. out[i + lane := gf64_inverse (inp ! (i + lane))]) [0..<lanes] out"
    unfolding inverse_block_def Let_def lanes_loop_eq
    by (rule fold_cong) (auto simp: lane_result_eq)
  also have "\<dots> = fold (\<lambda>i out. out[i := gf64_inverse (inp ! i)]) [i..<i + lanes] out"
    by (rule fold_upt_shift)
  finally show ?thesis .
qed

lemma inverse_batch_eq:
  assumes "N \<le> length out" and "N \<le> length inp"
  shows "gf64_inverse_batch_ssse3 out inp N = gf64_inverse_batch_scalar out inp N"
    and "gf64_inverse_batch_avx2 out inp N = gf64_inverse_batch_scalar out inp N"
    and "gf64_inverse_batch_avx512 out inp N = gf64_inverse_batch_scalar out inp N"
  unfolding gf64_inverse_batch_ssse3_def gf64_inverse_batch_avx2_def gf64_inverse_batch_avx512_def
  by (subst batch_with_tail [OF inverse_block_eq gf64_inverse_batch_scalar_eq assms],
      simp_all add: gf64_inverse_batch_scalar_eq assms)+

section \<open>Itoh-Tsujii\<close>

definition gf64_invert_ita_one :: "gf64_t \<Rightarrow> gf64_t" where
  "gf64_invert_ita_one a =
    (if a = 0 then 0
     else let t = fold (\<lambda>k t. let t = gf64_square [0] [t] 1 ! 0 in gf64_mul_reference t a) [2..<64] a
          in gf64_square [0] [t] 1 ! 0)"

text \<open>The buffers \<open>a_in_buf\<close> and \<open>t_buf\<close>; the vector routines work in place on \<open>t_buf\<close>.\<close>

definition ita_block :: "gf64_t list \<Rightarrow> nat \<Rightarrow> gf64_t list \<Rightarrow> gf64_t list" where
  "ita_block inp i out =
    (let a_in_buf = vloadu 8 inp i;
         t_buf = fold (\<lambda>k t_buf.
             let t_buf = gf64_square_avx512 t_buf t_buf 8
             in gf64_mul_avx512 t_buf t_buf a_in_buf 8) [2..<64] a_in_buf;
         t_buf = gf64_square_avx512 t_buf t_buf 8
     in vstoreu out i t_buf)"

definition gf64_invert_ita_batch :: "gf64_t list \<Rightarrow> gf64_t list \<Rightarrow> nat \<Rightarrow> gf64_t list" where
  "gf64_invert_ita_batch out inp N =
    (if N = 0 then out
     else let out = fold (\<lambda>b. ita_block inp (8 * b)) [0..<N div 8] out
          in fold (\<lambda>i out. out[i := gf64_invert_ita_one (inp ! i)]) [8 * (N div 8)..<N] out)"

lemma ita_chain:
  "2 \<le> n \<Longrightarrow> Gf (fold (\<lambda>k t. gf64_mul_reference (gf64_square_one t) a) [2..<n] a) =
    Gf a ^ (2 ^ (n - 1) - 1)"
proof (induction n rule: dec_induct)
  case (step n)
  have "Gf a ^ (2 ^ n - 1) = (Gf a ^ (2 ^ (n - 1) - 1)) ^ 2 * Gf a"
  proof -
    have "(2::nat) ^ n - 1 = 2 * (2 ^ (n - 1) - 1) + 1"
    proof -
      have "(2::nat) ^ n = 2 * 2 ^ (n - 1)" and "(1::nat) \<le> 2 ^ (n - 1)"
        using step(1) by (simp_all flip: power_Suc)
      then show ?thesis by linarith
    qed
    moreover have "Gf a ^ (2 * m + 1) = (Gf a ^ m) ^ 2 * Gf a" for m
      by (simp add: mult.commute flip: power_mult)
    ultimately show ?thesis by (simp only:)
  qed
  with step show ?case by (simp add: Gf_mul_reference Gf_square_one)
qed simp

lemma ita_one_chain: "a \<noteq> 0 \<Longrightarrow> gf64_invert_ita_one a =
    gf64_square_one (fold (\<lambda>k t. gf64_mul_reference (gf64_square_one t) a) [2..<64] a)"
  by (simp add: gf64_invert_ita_one_def gf64_square_def)

lemma gf64_invert_ita_one_eq: "gf64_invert_ita_one a = gf64_inverse a"
proof (cases "a = 0")
  case False
  have "Gf (gf64_invert_ita_one a) = Gf a ^ (2 * (2 ^ 63 - 1))"
    unfolding ita_one_chain [OF False] Gf_square_one ita_chain [OF order.refl [of "2::nat"]]
    using ita_chain [of 64 a] by (simp add: mult.commute flip: power_mult)
  from arg_cong [OF this, of gf_rep] show ?thesis
    by (simp add: gf64_inverse_eq inverse_gf_def)
qed (simp add: gf64_invert_ita_one_def gf64_inverse_eq)

lemma ita_block_eq:
  "ita_block inp i out = fold (\<lambda>i out. out[i := gf64_invert_ita_one (inp ! i)]) [i..<i + 8] out"
proof -
  let ?a = "vloadu 8 inp i"
  let ?one = "\<lambda>n a. fold (\<lambda>k t. gf64_mul_reference (gf64_square_one t) a) [2..<n] a"
  have len: "length ?a = 8" by (simp add: vloadu_def)
  have sq: "gf64_square_avx512 t t 8 = map gf64_square_one t" if "length t = 8" for t
    using that by (intro nth_equalityI) (simp_all add: gf64_square_avx512_eq gf64_square_eq)
  have mul: "gf64_mul_avx512 t t b 8 = map2 gf64_mul_reference t b"
    if "length t = 8" "length b = 8" for t b
    using that by (intro nth_equalityI) (simp_all add: gf64_mul_avx512_eq)
  have chain: "fold (\<lambda>k t_buf. let t_buf = gf64_square_avx512 t_buf t_buf 8
        in gf64_mul_avx512 t_buf t_buf ?a 8) [2..<n] ?a = map (?one n) ?a" if "2 \<le> n" for n
    using that
  proof (induction n rule: dec_induct)
    case (step n)
    then show ?case
      by (intro nth_equalityI) (simp_all add: Let_def sq mul len)
  qed simp
  have one: "gf64_square_one (?one 64 a) = gf64_invert_ita_one a" for a
  proof (cases "a = 0")
    case True
    have "Gf (?one 64 a) = 0" using ita_chain [of 64 a] True by (simp add: zero_power)
    then have "Gf (gf64_square_one (?one 64 a)) = 0" by (simp only: Gf_square_one) simp
    with True show ?thesis by (simp add: gf64_invert_ita_one_def)
  qed (simp add: ita_one_chain)
  have "gf64_square_avx512 (map (?one 64) ?a) (map (?one 64) ?a) 8 =
      map (\<lambda>k. gf64_invert_ita_one (inp ! (i + k))) [0..<8]"
    unfolding sq [OF trans [OF length_map len]] map_map comp_def one by (simp add: vloadu_def)
  then have "ita_block inp i out = vstoreu out i (map (\<lambda>k. gf64_invert_ita_one (inp ! (i + k))) [0..<8])"
    by (simp only: ita_block_def Let_def chain [unfolded Let_def] order.refl)
  then show ?thesis
    using vstoreu_map [of out i "\<lambda>i. gf64_invert_ita_one (inp ! i)" 8] by simp
qed

lemma gf64_invert_ita_batch_eq:
  assumes "N \<le> length out"
  shows "gf64_invert_ita_batch out inp N = gf64_inverse_batch_scalar out inp N"
  using assms
  by (simp add: gf64_invert_ita_batch_def fold_blocks_tail ita_block_eq gf64_invert_ita_one_eq
      gf64_inverse_batch_scalar_def)

section \<open>The inversion interface\<close>

text \<open>
  What the solver, the interpolation and the polynomial code rely on from an inversion routine.
\<close>

locale gf64_inverter =
  fixes invert :: "gf64_t \<Rightarrow> gf64_t"
  assumes Gf_invert: "Gf (invert a) = inverse (Gf a)"
begin

lemma invert_zero: "invert 0 = 0"
  using Gf_invert [of 0] by simp

lemma invert_invert: "invert (invert a) = a"
proof -
  have "Gf (invert (invert a)) = Gf a" by (simp only: Gf_invert inverse_inverse_eq)
  then show ?thesis by simp
qed

lemma mul_invert: "a \<noteq> 0 \<Longrightarrow> gf64_mul_reference a (invert a) = 1"
proof -
  assume "a \<noteq> 0"
  then have "Gf (gf64_mul_reference a (invert a)) = 1"
    by (simp add: Gf_mul_reference Gf_invert)
  then show ?thesis by simp
qed

lemma unique: "invert = gf64_inverse"
  by (intro ext) (metis Gf_inverse Gf_invert gf.inject)

end

interpretation euclid: gf64_inverter gf64_inverse
  by unfold_locales (rule Gf_inverse)

interpretation itoh_tsujii: gf64_inverter gf64_invert_ita_one
  by unfold_locales (simp add: gf64_invert_ita_one_eq Gf_inverse)

end
