(* ===== verification/Arithmetic_Correctness.thy ===== *)
theory Arithmetic_Correctness
  imports GF64_Invert
begin

text \<open>The properties of the arithmetic of the field: multiplication, squaring and inversion.\<close>

text \<open>
  C3. The three scalar multiplications of the code (the SSE2 reference built from four 32-bit
  carry-less products, the inline helper and the solver's private routine) return the product of
  the field GF(2)[x] / (x^64 + x^4 + x^3 + x + 1), for all operands.
\<close>

theorem scalar_multiplications_correct:
  "Gf (gf64_mul_reference a b) = Gf a * Gf b \<and> Gf (gf64_mul_single a b) = Gf a * Gf b \<and>
    Gf (gf64_mul a b) = Gf a * Gf b"
  by (simp add: Gf_mul_reference Gf_mul_single Gf_mul)

text \<open>
  C4. The extended Euclidean loop of \<open>gf64_inverse\<close> terminates on every word and returns the
  field inverse: 0 for 0, and for any other word the element whose product with it is 1.
\<close>

theorem inverse_terminates_and_inverts:
  "\<exists>r. gf64_inverse_run a = Some r \<and> gf64_inverse a = r \<and>
    (if a = 0 then r = 0 else gf64_mul_reference a r = 1)"
proof -
  have "gf64_inverse 0 = 0" by (rule euclid.invert_zero)
  then show ?thesis
    using euclid.mul_invert [of a] by (auto simp: gf64_inverse_run_eq gf64_inverse_eq)
qed

text \<open>
  C27. The lane-parallel batch inversions for SSSE3, AVX2 and AVX-512, which cut the Euclidean loop
  at 128 iterations and finish lanes independently, return what the scalar inversion returns for
  every element: the iteration bound is never hit before the lane is done.
\<close>

theorem batch_inversions_agree:
  assumes "N \<le> length out" and "N \<le> length inp"
  shows "gf64_inverse_batch_ssse3 out inp N = map (\<lambda>i. gf64_inverse (inp ! i)) [0..<N] @ drop N out \<and>
    gf64_inverse_batch_avx2 out inp N = map (\<lambda>i. gf64_inverse (inp ! i)) [0..<N] @ drop N out \<and>
    gf64_inverse_batch_avx512 out inp N = map (\<lambda>i. gf64_inverse (inp ! i)) [0..<N] @ drop N out"
  by (simp add: inverse_batch_eq [OF assms] gf64_inverse_batch_scalar_eq assms)

theorem batch_inversions_agree_witness:
  "gf64_inverse_batch_avx2 [7, 7, 7] [1, 0, 1] 2 = [gf64_inverse 1, gf64_inverse 0, 7]"
  using batch_inversions_agree [of 2 "[7, 7, 7]" "[1, 0, 1]"] by (simp add: upt_conv_Cons)

text \<open>
  C36. The Itoh-Tsujii inversion (a chain of 62 squarings and multiplications and a last squaring)
  equals the Euclidean one on every word, and its AVX-512 batch with the scalar tail equals it on
  every element.
\<close>

theorem itoh_tsujii_agrees:
  "gf64_invert_ita_one a = gf64_inverse a \<and>
    (N \<le> length out \<longrightarrow> gf64_invert_ita_batch out inp N =
      map (\<lambda>i. gf64_inverse (inp ! i)) [0..<N] @ drop N out)"
  by (simp add: gf64_invert_ita_one_eq gf64_invert_ita_batch_eq gf64_inverse_batch_scalar_eq)

theorem itoh_tsujii_agrees_witness:
  "gf64_invert_ita_batch [5, 6] [0, 1] 1 = [gf64_inverse 0, 6]"
  using itoh_tsujii_agrees [of 0 1 "[5, 6]" "[0, 1]"] by simp

text \<open>
  The AVX-512 element-wise product (eight lanes split, reduced and merged, with a scalar tail)
  equals the scalar reference on every element and leaves the rest of the output alone.
\<close>

theorem mul_avx512_agrees:
  assumes "N \<le> length out"
  shows "gf64_mul_avx512 out a b N = map (\<lambda>i. gf64_mul_reference (a ! i) (b ! i)) [0..<N] @ drop N out"
  by (rule gf64_mul_avx512_eq [OF assms])

theorem mul_avx512_agrees_witness:
  "gf64_mul_avx512 [1, 2] [3, 4] [5, 6] 1 = [gf64_mul_reference 3 5, 2]"
  using mul_avx512_agrees [of 1 "[1, 2]" "[3, 4]" "[5, 6]"] by simp

text \<open>
  Squaring by bit spreading equals multiplication of the word by itself, and the AVX-512
  squaring (SWAR spread of both halves and one reduction) equals the scalar one on every element.
\<close>

theorem squarings_agree:
  "gf64_square_one a = gf64_mul_reference a a \<and>
    (N \<le> length out \<longrightarrow> N \<le> length inp \<longrightarrow> gf64_square_avx512 out inp N =
      map (\<lambda>i. gf64_mul_reference (inp ! i) (inp ! i)) [0..<N] @ drop N out)"
  by (simp add: gf64_square_one_eq gf64_square_eq gf64_square_avx512_eq)

theorem squarings_agree_witness:
  "gf64_square_avx512 [9, 9] [3, 4] 1 = [gf64_mul_reference 3 3, 9]"
  using squarings_agree [of 0 1 "[9, 9]" "[3, 4]"] by simp

end
