(* ===== verification/GF64_Accumulate.thy ===== *)
theory GF64_Accumulate
  imports GF64_Mul
begin

text \<open>
  How the region kernels are verified. A kernel XORs products into an array or into several
  arrays, in an order of its own: element by element, in blocks of a register, stream by stream.
  \<open>acc_row out F\<close> is \<open>out\<close> with the field element \<open>F i\<close> added to slot \<open>i\<close>; every loop of a kernel
  is an \<open>acc_row\<close>, and two kernels agree when their added amounts agree as sums in the field.
\<close>

section \<open>One array\<close>

definition acc_row :: "gf64_t list \<Rightarrow> (nat \<Rightarrow> gf) \<Rightarrow> gf64_t list" where
  "acc_row xs F = map (\<lambda>i. gf_rep (Gf (xs ! i) + F i)) [0..<length xs]"

lemma length_acc_row [simp]: "length (acc_row xs F) = length xs"
  by (simp add: acc_row_def)

lemma nth_acc_row [simp]: "i < length xs \<Longrightarrow> acc_row xs F ! i = gf_rep (Gf (xs ! i) + F i)"
  by (simp add: acc_row_def)

lemma acc_row_cong: "(\<And>i. i < length xs \<Longrightarrow> F i = G i) \<Longrightarrow> acc_row xs F = acc_row xs G"
  by (simp add: acc_row_def)

lemma acc_row_0 [simp]: "acc_row xs (\<lambda>_. 0) = xs"
  by (rule nth_equalityI) auto

lemma acc_row_acc_row [simp]: "acc_row (acc_row xs F) G = acc_row xs (\<lambda>i. F i + G i)"
  by (rule nth_equalityI) (auto simp: xor.assoc)

lemma update_acc_row: "xs[i := xs ! i XOR v] = acc_row xs (\<lambda>j. if j = i then Gf v else 0)"
  by (rule nth_equalityI) (auto simp: nth_list_update)

lemma fold_acc_row:
  assumes "\<And>x s. x \<in> set ps \<Longrightarrow> f x s = acc_row s (F x)"
  shows "fold f ps s = acc_row s (\<lambda>i. \<Sum>x\<leftarrow>ps. F x i)"
  using assms by (induction ps arbitrary: s) auto

lemma fold_upt_acc_row:
  assumes "\<And>x s. a \<le> x \<Longrightarrow> x < b \<Longrightarrow> f x s = acc_row s (F x)"
  shows "fold f [a..<b] s = acc_row s (\<lambda>i. \<Sum>x=a..<b. F x i)"
  using fold_acc_row [of "[a..<b]" f F s] assms
  by (simp add: interv_sum_list_conv_sum_set_nat)

text \<open>The plain loop, and a loop over blocks.\<close>

lemma fold_update_acc_row:
  "fold (\<lambda>i xs. xs[i := xs ! i XOR g i]) [a..<b] xs =
    acc_row xs (\<lambda>j. if a \<le> j \<and> j < b then Gf (g j) else 0)"
  by (subst fold_upt_acc_row [OF update_acc_row]) (rule acc_row_cong, auto)

lemma sum_blocks:
  fixes x :: "'a::comm_monoid_add" and n :: nat
  shows "(\<Sum>b=0..<n. if a + w * b \<le> j \<and> j < a + w * b + w then x else 0) =
    (if a \<le> j \<and> j < a + w * n then x else 0)"
  by (induction n) auto

lemma fold_blocks_acc_row:
  assumes "\<And>b s. b < n \<Longrightarrow>
    f b s = acc_row s (\<lambda>j. if a + w * b \<le> j \<and> j < a + w * b + w then F j else 0)"
  shows "fold f [0..<n] s = acc_row s (\<lambda>j. if a \<le> j \<and> j < a + w * n then F j else 0)"
  by (subst fold_upt_acc_row [OF assms]) (auto simp: sum_blocks)

lemma less_blocks: "i < w * (N div w) \<Longrightarrow> i < N" for i :: nat
  using times_div_less_eq_dividend [of w N] by linarith

lemma acc_blocks_tail:
  assumes "\<And>b s. f b s = acc_row s (\<lambda>j. if w * b \<le> j \<and> j < w * b + w then F j else 0)"
    and "\<And>j. Gf (g j) = F j"
  shows "fold (\<lambda>i xs. xs[i := xs ! i XOR g i]) [w * (N div w)..<N] (fold f [0..<N div w] xs) =
    acc_row xs (\<lambda>j. if j < N then F j else 0)"
  unfolding fold_update_acc_row assms(2)
  by (subst fold_blocks_acc_row [where a = 0, simplified, OF assms(1)])
    (simp, rule acc_row_cong, auto dest: less_blocks)

section \<open>Vector stores\<close>

lemma nth_vstoreu:
  assumes "j < length out"
  shows "vstoreu out i v ! j = (if i \<le> j \<and> j < i + length v then v ! (j - i) else out ! j)"
proof -
  have "fold (\<lambda>k mem. mem[i + k := v ! k]) [0..<n] out ! j =
      (if i \<le> j \<and> j < i + n then v ! (j - i) else out ! j)" for n
    using assms by (induction n) (auto simp: nth_list_update less_Suc_eq)
  then show ?thesis by (simp add: vstoreu_def)
qed

lemma length_vstoreu [simp]: "length (vstoreu out i v) = length out"
  by (simp add: vstoreu_def)

lemma length_vloadu [simp]: "length (vloadu w mem i) = w"
  by (simp add: vloadu_def)

lemma nth_vloadu [simp]: "k < w \<Longrightarrow> vloadu w mem i ! k = mem ! (i + k)"
  by (simp add: vloadu_def)

lemma vstoreu_acc_row:
  assumes "length v = w"
  shows "vstoreu out i (vxor (vloadu w out i) v) =
    acc_row out (\<lambda>j. if i \<le> j \<and> j < i + w then Gf (v ! (j - i)) else 0)"
  by (rule nth_equalityI) (use assms in \<open>auto simp: nth_vstoreu\<close>)

text \<open>
  Several streams: all the old values are loaded before the first store. The ranges are
  disjoint, so this is the same as loading each before its store.
\<close>

lemma stores_acc_row:
  assumes "\<And>s. s < n \<Longrightarrow> length (v s) = w"
  shows "fold (\<lambda>s mem. vstoreu mem (i + w * s) (vxor (vloadu w out (i + w * s)) (v s))) [0..<n] out =
    acc_row out (\<lambda>j. \<Sum>s=0..<n. if i + w * s \<le> j \<and> j < i + w * s + w
      then Gf (v s ! (j - (i + w * s))) else 0)"
  using assms
proof (induction n)
  case (Suc n)
  let ?F = "\<lambda>n j. \<Sum>s=0..<n. if i + w * s \<le> j \<and> j < i + w * s + w
    then Gf (v s ! (j - (i + w * s))) else 0"
  have zero: "?F n j = 0" if "i + w * n \<le> j" for j
  proof (rule sum.neutral, intro ballI)
    fix s assume "s \<in> {0..<n}"
    then have "w * Suc s \<le> w * n" by (intro mult_le_mono) auto
    with that show "(if i + w * s \<le> j \<and> j < i + w * s + w
        then Gf (v s ! (j - (i + w * s))) else 0) = 0" by auto
  qed
  have "vstoreu (acc_row out (?F n)) (i + w * n) (vxor (vloadu w out (i + w * n)) (v n)) =
      acc_row out (?F (Suc n))"
    by (rule nth_equalityI) (use Suc.prems zero in \<open>auto simp: nth_vstoreu\<close>)
  with Suc show ?case by simp
qed simp

lemma streams_acc_row:
  assumes v: "\<And>s. s < n \<Longrightarrow> v s = map (\<lambda>k. g (i + w * s + k)) [0..<w]"
  shows "fold (\<lambda>s mem. vstoreu mem (i + w * s) (vxor (vloadu w out (i + w * s)) (v s))) [0..<n] out =
    acc_row out (\<lambda>j. if i \<le> j \<and> j < i + w * n then Gf (g j) else 0)"
proof -
  have "(\<Sum>s=0..<n. if i + w * s \<le> j \<and> j < i + w * s + w
      then Gf (v s ! (j - (i + w * s))) else 0) =
    (\<Sum>s=0..<n. if i + w * s \<le> j \<and> j < i + w * s + w then Gf (g j) else 0)" for j
    by (rule sum.cong) (auto simp: v)
  then show ?thesis
    by (subst stores_acc_row) (simp_all add: v sum_blocks)
qed

section \<open>Several arrays\<close>

definition acc_rows :: "gf64_t list list \<Rightarrow> (nat \<Rightarrow> nat \<Rightarrow> gf) \<Rightarrow> gf64_t list list" where
  "acc_rows xss F = map (\<lambda>k. acc_row (xss ! k) (F k)) [0..<length xss]"

lemma length_acc_rows [simp]: "length (acc_rows xss F) = length xss"
  by (simp add: acc_rows_def)

lemma nth_acc_rows [simp]: "k < length xss \<Longrightarrow> acc_rows xss F ! k = acc_row (xss ! k) (F k)"
  by (simp add: acc_rows_def)

lemma acc_rows_cong:
  "(\<And>k i. k < length xss \<Longrightarrow> i < length (xss ! k) \<Longrightarrow> F k i = G k i) \<Longrightarrow>
    acc_rows xss F = acc_rows xss G"
  by (rule nth_equalityI) (auto intro: acc_row_cong)

lemma acc_rows_0 [simp]: "acc_rows xss (\<lambda>_ _. 0) = xss"
  by (rule nth_equalityI) auto

lemma acc_rows_acc_rows [simp]:
  "acc_rows (acc_rows xss F) G = acc_rows xss (\<lambda>k i. F k i + G k i)"
  by (rule nth_equalityI) auto

text \<open>An operation on row \<open>k\<close> that is an \<open>acc_row\<close>.\<close>

lemma update_acc_rows:
  assumes "\<And>xs. f xs = acc_row xs F"
  shows "xss[k := f (xss ! k)] = acc_rows xss (\<lambda>k' i. if k' = k then F i else 0)"
proof (rule nth_equalityI)
  fix i assume "i < length (xss[k := f (xss ! k)])"
  then show "xss[k := f (xss ! k)] ! i = acc_rows xss (\<lambda>k' i. if k' = k then F i else 0) ! i"
    by (cases "i = k") (simp_all add: assms)
qed simp

lemma fold_acc_rows:
  assumes "\<And>x s. x \<in> set ps \<Longrightarrow> f x s = acc_rows s (F x)"
  shows "fold f ps s = acc_rows s (\<lambda>k i. \<Sum>x\<leftarrow>ps. F x k i)"
  using assms by (induction ps arbitrary: s) auto

lemma fold_upt_acc_rows:
  assumes "\<And>x s. a \<le> x \<Longrightarrow> x < b \<Longrightarrow> f x s = acc_rows s (F x)"
  shows "fold f [a..<b] s = acc_rows s (\<lambda>k i. \<Sum>x=a..<b. F x k i)"
  using fold_acc_rows [of "[a..<b]" f F s] assms
  by (simp add: interv_sum_list_conv_sum_set_nat)

text \<open>Blocks of columns, then single columns.\<close>

lemma acc_rows_blocks_tail:
  assumes "\<And>b s. f b s = acc_rows s (\<lambda>k j. if w * b \<le> j \<and> j < w * b + w then F k j else 0)"
    and "\<And>i s. g i s = acc_rows s (\<lambda>k j. if j = i then F k j else 0)"
  shows "fold g [w * (N div w)..<N] (fold f [0..<N div w] xss) =
    acc_rows xss (\<lambda>k j. if j < N then F k j else 0)"
proof -
  let ?n = "w * (N div w)"
  have blocks: "fold f [0..<N div w] xss =
      acc_rows xss (\<lambda>k j. if j < ?n then F k j else 0)"
    by (subst fold_upt_acc_rows [OF assms(1)])
      (intro acc_rows_cong, simp add: sum_blocks [where a = 0, simplified])
  have "fold g [?n..<N] s = acc_rows s (\<lambda>k j. if ?n \<le> j \<and> j < N then F k j else 0)" for s
    by (subst fold_upt_acc_rows [OF assms(2)]) (intro acc_rows_cong, auto)
  then show ?thesis
    unfolding blocks by simp (rule acc_rows_cong, auto dest: less_blocks)
qed

end
