(* ===== verification/Region_Scalar.thy ===== *)
theory Region_Scalar
  imports GF64_Accumulate
begin

text \<open>
  The scalar region kernels of gf64/gf64_region_scalar.c, which are the reference the vector
  kernels are compared with, and what each of them computes. An array of pointers to arrays is
  a list of lists.
\<close>

definition gf64_region_mul_scalar ::
  "gf64_t list \<Rightarrow> gf64_t list \<Rightarrow> nat \<Rightarrow> gf64_t \<Rightarrow> gf64_t list" where
  "gf64_region_mul_scalar out inp len constant =
    fold (\<lambda>i out. out[i := gf64_mul_reference (inp ! i) constant]) [0..<len] out"

definition gf64_region_mul_scalar_arr ::
  "gf64_t list \<Rightarrow> gf64_t list \<Rightarrow> gf64_t list \<Rightarrow> nat \<Rightarrow> nat \<Rightarrow> gf64_t list" where
  "gf64_region_mul_scalar_arr out inp coeff len n_coeff =
    fold (\<lambda>i out. out[i := gf64_mul_reference (inp ! i) (coeff ! (i mod n_coeff))]) [0..<len] out"

definition gf64_region_muladd_scalar_arr ::
  "gf64_t list \<Rightarrow> gf64_t list \<Rightarrow> gf64_t list \<Rightarrow> nat \<Rightarrow> nat \<Rightarrow> gf64_t list" where
  "gf64_region_muladd_scalar_arr out inp coeff len n_coeff =
    fold (\<lambda>i out.
        let sum = fold (\<lambda>c sum. sum XOR gf64_mul_reference (inp ! i) (coeff ! c)) [0..<n_coeff] 0
        in out[i := out ! i XOR sum])
      [0..<len] out"

text \<open>\<open>&coeff_blocks[g]\<close> is the array from its element \<open>g\<close> on.\<close>

definition gf64_region_coupled_muladd_scalar_arr ::
  "gf64_t list \<Rightarrow> gf64_t list list \<Rightarrow> gf64_t list \<Rightarrow> nat \<Rightarrow> nat \<Rightarrow> gf64_t list" where
  "gf64_region_coupled_muladd_scalar_arr out in_blocks coeff_blocks len G =
    fold (\<lambda>g out. gf64_region_muladd_scalar_arr out (in_blocks ! g) (drop g coeff_blocks) len 1)
      [0..<G] out"

definition gf64_region_fused_output_muladd_scalar_arr ::
  "gf64_t list list \<Rightarrow> gf64_t list \<Rightarrow> gf64_t list list \<Rightarrow> nat \<Rightarrow> nat \<Rightarrow> gf64_t list list" where
  "gf64_region_fused_output_muladd_scalar_arr outs inp coeff_block_starts len K =
    fold (\<lambda>i outs.
        let in_w = inp ! i
        in fold (\<lambda>k outs. outs[k := (outs ! k)[i := outs ! k ! i XOR
               gf64_mul_reference in_w (coeff_block_starts ! k ! 0)]]) [0..<K] outs)
      [0..<len] outs"

definition gf64_region_2d_muladd_scalar_arr ::
  "gf64_t list list \<Rightarrow> nat \<Rightarrow> gf64_t list list \<Rightarrow> nat \<Rightarrow> gf64_t list \<Rightarrow> nat \<Rightarrow> nat \<Rightarrow>
    gf64_t list list" where
  "gf64_region_2d_muladd_scalar_arr outs K in_blocks G coeff_block_2d K_stride len =
    fold (\<lambda>g outs.
        fold (\<lambda>i outs.
            let in_w = in_blocks ! g ! i
            in fold (\<lambda>k outs. outs[k := (outs ! k)[i := outs ! k ! i XOR
                   gf64_mul_reference in_w (coeff_block_2d ! (k * K_stride + g))]]) [0..<K] outs)
          [0..<len] outs)
      [0..<G] outs"

section \<open>What they compute\<close>

lemma gf64_region_mul_scalar_eq:
  assumes "len \<le> length out"
  shows "gf64_region_mul_scalar out inp len constant =
    map (\<lambda>i. gf64_mul_reference (inp ! i) constant) [0..<len] @ drop len out"
  using assms by (simp add: gf64_region_mul_scalar_def fold_const_update_map)

lemma gf64_region_mul_scalar_arr_eq:
  assumes "len \<le> length out"
  shows "gf64_region_mul_scalar_arr out inp coeff len n_coeff =
    map (\<lambda>i. gf64_mul_reference (inp ! i) (coeff ! (i mod n_coeff))) [0..<len] @ drop len out"
  using assms by (simp add: gf64_region_mul_scalar_arr_def fold_const_update_map)

lemma Gf_xor_sum:
  "Gf (fold (\<lambda>c sum. sum XOR f c) [0..<n] a) = Gf a + (\<Sum>c=0..<n. Gf (f c))"
  by (induction n) (simp_all add: Gf_xor add.assoc)

text \<open>Slot \<open>i\<close> gains the sum over the coefficients of \<open>in[i] coeff[c]\<close>.\<close>

lemma muladd_scalar_acc:
  "gf64_region_muladd_scalar_arr out inp coeff len n_coeff =
    acc_row out (\<lambda>i. if i < len then \<Sum>c=0..<n_coeff. Gf (inp ! i) * Gf (coeff ! c) else 0)"
  unfolding gf64_region_muladd_scalar_arr_def Let_def
  by (simp add: fold_update_acc_row Gf_xor_sum Gf_mul_reference cong: if_cong)

lemma coupled_muladd_acc:
  assumes "\<And>out inp coeff. muladd out inp coeff len 1 =
    acc_row out (\<lambda>i. if i < len then \<Sum>c=0..<1. Gf (inp ! i) * Gf (coeff ! c) else 0)"
  and "G \<le> length coeff_blocks"
  shows "fold (\<lambda>g out. muladd out (in_blocks ! g) (drop g coeff_blocks) len 1) [0..<G] out =
    acc_row out (\<lambda>i. if i < len then \<Sum>g=0..<G. Gf (in_blocks ! g ! i) * Gf (coeff_blocks ! g) else 0)"
  unfolding assms(1) using assms(2)
  by (subst fold_upt_acc_row [OF refl]) (auto intro!: acc_row_cong sum.cong)

lemma update_acc_rows_at:
  "xss[k := (xss ! k)[i := xss ! k ! i XOR v]] =
    acc_rows xss (\<lambda>k' j. if j = i \<and> k' = k then Gf v else 0)"
  by (subst update_acc_rows [OF update_acc_row]) (intro acc_rows_cong, auto)

lemma fold_rows_at:
  "fold (\<lambda>k outs. outs[k := (outs ! k)[i := outs ! k ! i XOR g k]]) [0..<K] outs =
    acc_rows outs (\<lambda>k j. if j = i then if k < K then Gf (g k) else 0 else 0)"
  by (subst fold_upt_acc_rows [OF update_acc_rows_at]) (intro acc_rows_cong, auto)

lemma fold_columns:
  "fold (\<lambda>i outs. fold (\<lambda>k outs. outs[k := (outs ! k)[i := outs ! k ! i XOR g i k]]) [0..<K] outs)
      [a..<b] outs =
    acc_rows outs (\<lambda>k j. if a \<le> j \<and> j < b then if k < K then Gf (g j k) else 0 else 0)"
  by (subst fold_upt_acc_rows [OF fold_rows_at]) (intro acc_rows_cong, auto)

lemma fused_scalar_acc:
  "gf64_region_fused_output_muladd_scalar_arr outs inp coeff_block_starts len K =
    acc_rows outs (\<lambda>k i. if i < len \<and> k < K then Gf (inp ! i) * Gf (coeff_block_starts ! k ! 0) else 0)"
  unfolding gf64_region_fused_output_muladd_scalar_arr_def Let_def fold_columns
  by (intro acc_rows_cong) (simp add: Gf_mul_reference)

lemma two_d_scalar_acc:
  "gf64_region_2d_muladd_scalar_arr outs K in_blocks G coeff_block_2d K_stride len =
    acc_rows outs (\<lambda>k i. if i < len \<and> k < K
      then \<Sum>g=0..<G. Gf (in_blocks ! g ! i) * Gf (coeff_block_2d ! (k * K_stride + g)) else 0)"
  unfolding gf64_region_2d_muladd_scalar_arr_def Let_def fold_columns
  by (subst fold_upt_acc_rows [OF refl]) (intro acc_rows_cong, simp add: Gf_mul_reference cong: if_cong)

lemma coupled_scalar_acc:
  assumes "G \<le> length coeff_blocks"
  shows "gf64_region_coupled_muladd_scalar_arr out in_blocks coeff_blocks len G =
    acc_row out (\<lambda>i. if i < len then \<Sum>g=0..<G. Gf (in_blocks ! g ! i) * Gf (coeff_blocks ! g) else 0)"
  unfolding gf64_region_coupled_muladd_scalar_arr_def
  by (rule coupled_muladd_acc [where muladd = gf64_region_muladd_scalar_arr,
        OF muladd_scalar_acc assms])

text \<open>
  The shape of the vector kernels with several outputs: blocks of \<open>w\<close> columns, whatever they do
  inside, then the scalar loop on the columns left.
\<close>

abbreviation add_products :: "nat \<Rightarrow> (nat \<Rightarrow> gf64_t) \<Rightarrow> (nat \<Rightarrow> gf64_t) \<Rightarrow> nat \<Rightarrow> nat \<Rightarrow> gf" where
  "add_products K x c k j \<equiv> if k < K then Gf (x j) * Gf (c k) else 0"

lemma column_rows:
  "fold (\<lambda>k outs. outs[k := (outs ! k)[i := outs ! k ! i XOR gf64_mul_reference (x i) (c k)]])
      [0..<K] outs =
    acc_rows outs (\<lambda>k j. if j = i then add_products K x c k j else 0)"
  unfolding fold_rows_at by (rule acc_rows_cong) (simp add: Gf_mul_reference)

lemma block_rows_tail:
  assumes "\<And>b s. f b s = acc_rows s
    (\<lambda>k j. if w * b \<le> j \<and> j < w * b + w then add_products K x c k j else 0)"
  shows "fold (\<lambda>i outs. fold (\<lambda>k outs. outs[k := (outs ! k)[i := outs ! k ! i XOR
        gf64_mul_reference (x i) (c k)]]) [0..<K] outs) [w * (len div w)..<len]
      (fold f [0..<len div w] outs) =
    acc_rows outs (\<lambda>k j. if j < len then add_products K x c k j else 0)"
  by (rule acc_rows_blocks_tail [OF assms column_rows])

lemma two_d_rows:
  "fold (\<lambda>g outs. acc_rows outs (\<lambda>k j. if j < len then add_products K (\<lambda>i. in_blocks ! g ! i)
      (\<lambda>k. coeff_block_2d ! (k * K_stride + g)) k j else 0)) [0..<G] outs =
    gf64_region_2d_muladd_scalar_arr outs K in_blocks G coeff_block_2d K_stride len"
  unfolding two_d_scalar_acc
  by (subst fold_upt_acc_rows [OF refl]) (rule acc_rows_cong, simp cong: if_cong)

section \<open>Chunks of outputs\<close>

text \<open>
  The wide kernels take the outputs in chunks of 256 and visit only those whose coefficient is
  not zero. \<open>active_indices\<close> is the list they collect for chunk \<open>kb\<close>; a skipped coefficient would
  have added nothing.
\<close>

abbreviation list_products :: "nat list \<Rightarrow> (nat \<Rightarrow> gf64_t) \<Rightarrow> (nat \<Rightarrow> gf64_t) \<Rightarrow> nat \<Rightarrow> nat \<Rightarrow> gf" where
  "list_products ks x c k j \<equiv> if k \<in> set ks then Gf (x j) * Gf (c k) else 0"

lemma list_products_upt: "list_products [0..<K] x c k j = add_products K x c k j"
  by simp

lemma sum_list_indicator:
  "distinct ks \<Longrightarrow> (\<Sum>k'\<leftarrow>ks. if k = k' then F k' else 0) =
    (if k \<in> set ks then F k else (0::'a::comm_monoid_add))"
  by (induction ks) auto

lemma fold_column_list:
  assumes "distinct ks"
  shows "fold (\<lambda>k outs. outs[k := (outs ! k)[i := outs ! k ! i XOR gf64_mul_reference (x i) (c k)]])
      ks outs =
    acc_rows outs (\<lambda>k j. if j = i then list_products ks x c k j else 0)"
  by (subst fold_acc_rows [OF update_acc_rows_at])
    (rule acc_rows_cong, simp add: sum_list_indicator [OF assms] Gf_mul_reference)

definition active_indices :: "gf64_t list list \<Rightarrow> nat \<Rightarrow> nat \<Rightarrow> nat list" where
  "active_indices coeff_block_starts K kb =
    filter (\<lambda>k. coeff_block_starts ! k ! 0 \<noteq> 0)
      [256 * kb..<256 * kb + (if K - 256 * kb > 256 then 256 else K - 256 * kb)]"

lemma distinct_active: "distinct (active_indices cs K kb)"
  by (simp add: active_indices_def)

lemma active_list:
  "fold (\<lambda>k active. let c = g (k_base + k) in if c \<noteq> 0 then active @ [(vset1 w c, k_base + k)] else active)
      [0..<n] [] =
    map (\<lambda>k. (vset1 w (g k), k)) (filter (\<lambda>k. g k \<noteq> 0) [k_base..<k_base + n])"
  by (induction n) (auto simp: Let_def)

lemma sum_chunks:
  fixes v :: "'a::comm_monoid_add" and k K :: nat
  shows "(\<Sum>kb=0..<(K + 255) div 256.
      if 256 * kb \<le> k \<and> k < 256 * kb + (if K - 256 * kb > 256 then 256 else K - 256 * kb) then v else 0) =
    (if k < K then v else 0)"
proof -
  have "256 * kb \<le> k \<and> k < 256 * kb + (if K - 256 * kb > 256 then 256 else K - 256 * kb) \<longleftrightarrow>
      kb = k div 256 \<and> k < K" for kb
    by auto
  moreover have "k div 256 < (K + 255) div 256" if "k < K" using that by auto
  ultimately show ?thesis by (simp add: sum.delta' cong: if_cong)
qed

lemma fused_chunks_scalar:
  assumes "\<And>kb outs. chunk kb outs = acc_rows outs (\<lambda>k j. if j < len
      then list_products (active_indices coeff_block_starts K kb) (\<lambda>i. inp ! i)
        (\<lambda>k. coeff_block_starts ! k ! 0) k j else 0)"
  shows "fold chunk [0..<(K + 255) div 256] outs =
    gf64_region_fused_output_muladd_scalar_arr outs inp coeff_block_starts len K"
proof -
  have products: "list_products (active_indices coeff_block_starts K kb) x (\<lambda>k. coeff_block_starts ! k ! 0) k j =
    (if 256 * kb \<le> k \<and> k < 256 * kb + (if K - 256 * kb > 256 then 256 else K - 256 * kb)
     then Gf (x j) * Gf (coeff_block_starts ! k ! 0) else 0)" for x kb k j
    by (auto simp: active_indices_def)
  show ?thesis
    unfolding fused_scalar_acc fold_upt_acc_rows [OF assms]
  proof (rule acc_rows_cong)
    fix k i
    show "(\<Sum>kb=0..<(K + 255) div 256. if i < len
        then list_products (active_indices coeff_block_starts K kb) (\<lambda>i. inp ! i)
          (\<lambda>k. coeff_block_starts ! k ! 0) k i else 0) =
      (if i < len \<and> k < K then Gf (inp ! i) * Gf (coeff_block_starts ! k ! 0) else 0)"
      unfolding products
      by (cases "i < len") (simp_all only: if_True if_False sum_chunks sum.neutral_const simp_thms)
  qed
qed

end
