(* ===== verification/Region_SSSE3.thy ===== *)
theory Region_SSSE3
  imports Region_Scalar
begin

text \<open>
  The SSSE3 kernels of gf64/gf64_region_ssse3.c and gf64/gf64_region_ssse3_arr.c: two elements at
  a time, each 64-bit product built from four 32-bit carry-less products. The helpers
  \<open>gf64_clmul_64x64\<close> and \<open>gf64_reduce_128\<close>, which the region files repeat, are defined here.
\<close>

definition gf64_clmul_64x64 :: "gf64_t \<Rightarrow> gf64_t \<Rightarrow> gf64_t \<times> gf64_t" where
  "gf64_clmul_64x64 a b =
    (let a_lo = ucast (a AND 0xFFFFFFFF) :: uint32_t;
         a_hi = ucast (drop_bit 32 a) :: uint32_t;
         b_lo = ucast (b AND 0xFFFFFFFF) :: uint32_t;
         b_hi = ucast (drop_bit 32 b) :: uint32_t;
         a_lo_reg = mm_set_epi32 0 0 0 a_lo;
         a_hi_reg = mm_set_epi32 0 0 0 a_hi;
         b_lo_reg = mm_set_epi32 0 0 0 b_lo;
         b_hi_reg = mm_set_epi32 0 0 0 b_hi;
         p00 = clmulepi64 a_lo_reg b_lo_reg 0x00;
         p01 = clmulepi64 a_lo_reg b_hi_reg 0x00;
         p10 = clmulepi64 a_hi_reg b_lo_reg 0x00;
         p11 = clmulepi64 a_hi_reg b_hi_reg 0x00;
         p00_val = mm_cvtsi128_si64 p00;
         p01_val = mm_cvtsi128_si64 p01;
         p10_val = mm_cvtsi128_si64 p10;
         p11_val = mm_cvtsi128_si64 p11
     in (p00_val XOR push_bit 32 (p01_val AND 0xFFFFFFFF) XOR
           push_bit 32 (p10_val AND 0xFFFFFFFF),
         drop_bit 32 p01_val XOR drop_bit 32 p10_val XOR p11_val))"

definition gf64_reduce_128 :: "gf64_t \<Rightarrow> gf64_t \<Rightarrow> gf64_t" where
  "gf64_reduce_128 lo hi =
    (let t_lo = push_bit 4 hi XOR push_bit 3 hi XOR push_bit 1 hi XOR hi;
         R_hi = ((drop_bit 60 hi XOR drop_bit 61 hi XOR drop_bit 63 hi) AND 1) OR
                push_bit 1 ((drop_bit 61 hi XOR drop_bit 62 hi) AND 1) OR
                push_bit 2 ((drop_bit 62 hi XOR drop_bit 63 hi) AND 1) OR
                push_bit 3 (drop_bit 63 hi AND 1);
         t2 = push_bit 4 R_hi XOR push_bit 3 R_hi XOR push_bit 1 R_hi XOR R_hi
     in lo XOR t_lo XOR t2)"

definition gf64_region_mul_ssse3 ::
  "gf64_t list \<Rightarrow> gf64_t list \<Rightarrow> nat \<Rightarrow> gf64_t \<Rightarrow> gf64_t list" where
  "gf64_region_mul_ssse3 out inp len constant =
    (let blocks = len div 2;
         out = fold (\<lambda>b out.
             let i = 2 * b;
                 (lo0, hi0) = gf64_clmul_64x64 (inp ! (i + 0)) constant;
                 (lo1, hi1) = gf64_clmul_64x64 (inp ! (i + 1)) constant;
                 out = out[i + 0 := gf64_reduce_128 lo0 hi0]
             in out[i + 1 := gf64_reduce_128 lo1 hi1]) [0..<blocks] out
     in fold (\<lambda>i out. out[i := gf64_mul_reference (inp ! i) constant]) [2 * blocks..<len] out)"

text \<open>Both elements of a pair in one register: lane 0 is element 0.\<close>

definition gf64_clmul_reduce_64x64_packed ::
  "gf64_t \<Rightarrow> gf64_t \<Rightarrow> gf64_t \<Rightarrow> gf64_t \<times> gf64_t" where
  "gf64_clmul_reduce_64x64_packed a0 a1 b =
    (let a0_lo = mm_set_epi32 0 0 0 (ucast (a0 AND 0xFFFFFFFF));
         a0_hi = mm_set_epi32 0 0 0 (ucast (drop_bit 32 a0));
         a1_lo = mm_set_epi32 0 0 0 (ucast (a1 AND 0xFFFFFFFF));
         a1_hi = mm_set_epi32 0 0 0 (ucast (drop_bit 32 a1));
         b_lo = mm_set_epi32 0 0 0 (ucast (b AND 0xFFFFFFFF));
         b_hi = mm_set_epi32 0 0 0 (ucast (drop_bit 32 b));
         p00_a0 = clmulepi64 a0_lo b_lo 0x00;
         p00_a1 = clmulepi64 a1_lo b_lo 0x00;
         p01_a0 = clmulepi64 a0_lo b_hi 0x00;
         p01_a1 = clmulepi64 a1_lo b_hi 0x00;
         p10_a0 = clmulepi64 a0_hi b_lo 0x00;
         p10_a1 = clmulepi64 a1_hi b_lo 0x00;
         p11_a0 = clmulepi64 a0_hi b_hi 0x00;
         p11_a1 = clmulepi64 a1_hi b_hi 0x00;
         p00 = mm_unpacklo_epi64 p00_a0 p00_a1;
         p01 = mm_unpacklo_epi64 p01_a0 p01_a1;
         p10 = mm_unpacklo_epi64 p10_a0 p10_a1;
         p11 = mm_unpacklo_epi64 p11_a0 p11_a1;
         p01_shift = vslli p01 32;
         p10_shift = vslli p10 32;
         lo = vxor p00 (vxor p01_shift p10_shift);
         p01_hi = vsrli p01 32;
         p10_hi = vsrli p10 32;
         hi = vxor p01_hi (vxor p10_hi p11);
         t_lo = vxor (vxor (vslli hi 4) (vslli hi 3)) (vxor (vslli hi 1) hi);
         hi_60 = vsrli hi 60;
         hi_61 = vsrli hi 61;
         hi_62 = vsrli hi 62;
         hi_63 = vsrli hi 63;
         bit0 = vand (vxor (vxor hi_60 hi_61) hi_63) (vset1 2 1);
         bit1 = vslli (vand (vxor hi_61 hi_62) (vset1 2 1)) 1;
         bit2 = vslli (vand (vxor hi_62 hi_63) (vset1 2 1)) 2;
         bit3 = vslli (vand hi_63 (vset1 2 1)) 3;
         R_hi = vor (vor bit0 bit1) (vor bit2 bit3);
         t2 = vxor (vxor (vslli R_hi 4) (vslli R_hi 3)) (vxor (vslli R_hi 1) R_hi);
         result = vxor lo (vxor t_lo t2)
     in (mm_cvtsi128_si64 result, mm_cvtsi128_si64 (mm_srli_si128_8 result)))"

definition gf64_region_mul_ssse3_arr ::
  "gf64_t list \<Rightarrow> gf64_t list \<Rightarrow> gf64_t list \<Rightarrow> nat \<Rightarrow> nat \<Rightarrow> gf64_t list" where
  "gf64_region_mul_ssse3_arr out inp coeff len n_coeff =
    (let blocks = len div 2
     in if n_coeff = 1
        then let c0 = coeff ! 0;
                 out = fold (\<lambda>b out.
                     let i = 2 * b;
                         (r0, r1) = gf64_clmul_reduce_64x64_packed (inp ! (i + 0)) (inp ! (i + 1)) c0
                     in out[i + 0 := r0, i + 1 := r1]) [0..<blocks] out
             in fold (\<lambda>i out. out[i := gf64_mul_reference (inp ! i) c0]) [2 * blocks..<len] out
        else let out = fold (\<lambda>b out.
                     let i = 2 * b;
                         (r0, r1) = gf64_clmul_reduce_64x64_packed (inp ! (i + 0)) (inp ! (i + 1))
                             (coeff ! ((i + 0) mod n_coeff));
                         out = out[i + 0 := r0]
                     in out[i + 1 := gf64_mul_reference (inp ! (i + 1))
                            (coeff ! ((i + 1) mod n_coeff))]) [0..<blocks] out
             in fold (\<lambda>i out. out[i := gf64_mul_reference (inp ! i) (coeff ! (i mod n_coeff))])
                  [2 * blocks..<len] out)"

definition gf64_region_muladd_ssse3_arr ::
  "gf64_t list \<Rightarrow> gf64_t list \<Rightarrow> gf64_t list \<Rightarrow> nat \<Rightarrow> nat \<Rightarrow> gf64_t list" where
  "gf64_region_muladd_ssse3_arr out inp coeff len n_coeff =
    (let blocks = len div 2
     in if n_coeff = 1
        then let c0 = coeff ! 0;
                 out = fold (\<lambda>b out.
                     let i = 2 * b;
                         (r0, r1) = gf64_clmul_reduce_64x64_packed (inp ! (i + 0)) (inp ! (i + 1)) c0;
                         out = out[i + 0 := out ! (i + 0) XOR r0]
                     in out[i + 1 := out ! (i + 1) XOR r1]) [0..<blocks] out
             in fold (\<lambda>i out. out[i := out ! i XOR gf64_mul_reference (inp ! i) c0])
                  [2 * blocks..<len] out
        else let out = fold (\<lambda>b out.
                     let i = 2 * b;
                         (acc0, acc1) = fold (\<lambda>c (acc0, acc1).
                             let (r0, r1) = gf64_clmul_reduce_64x64_packed
                                   (inp ! (i + 0)) (inp ! (i + 1)) (coeff ! c)
                             in (acc0 XOR r0, acc1 XOR r1)) [0..<n_coeff] (0, 0);
                         out = out[i + 0 := out ! (i + 0) XOR acc0]
                     in out[i + 1 := out ! (i + 1) XOR acc1]) [0..<blocks] out
             in fold (\<lambda>i out.
                    let sum = fold (\<lambda>c sum. sum XOR gf64_mul_reference (inp ! i) (coeff ! c))
                          [0..<n_coeff] 0
                    in out[i := out ! i XOR sum]) [2 * blocks..<len] out)"

definition gf64_region_coupled_muladd_ssse3_arr ::
  "gf64_t list \<Rightarrow> gf64_t list list \<Rightarrow> gf64_t list \<Rightarrow> nat \<Rightarrow> nat \<Rightarrow> gf64_t list" where
  "gf64_region_coupled_muladd_ssse3_arr out in_blocks coeff_blocks len G =
    fold (\<lambda>g out. gf64_region_muladd_ssse3_arr out (in_blocks ! g) (drop g coeff_blocks) len 1)
      [0..<G] out"

definition gf64_region_fused_output_muladd_ssse3_arr ::
  "gf64_t list list \<Rightarrow> gf64_t list \<Rightarrow> gf64_t list list \<Rightarrow> nat \<Rightarrow> nat \<Rightarrow> gf64_t list list" where
  "gf64_region_fused_output_muladd_ssse3_arr outs inp coeff_block_starts len K =
    (let blocks = len div 2;
         outs = fold (\<lambda>b outs.
             let i = 2 * b;
                 in0 = inp ! (i + 0);
                 in1 = inp ! (i + 1)
             in fold (\<lambda>k outs.
                    let (r0, r1) = gf64_clmul_reduce_64x64_packed in0 in1 (coeff_block_starts ! k ! 0);
                        outs = outs[k := (outs ! k)[i + 0 := outs ! k ! (i + 0) XOR r0]]
                    in outs[k := (outs ! k)[i + 1 := outs ! k ! (i + 1) XOR r1]]) [0..<K] outs)
           [0..<blocks] outs
     in fold (\<lambda>i outs.
            let in_w = inp ! i
            in fold (\<lambda>k outs. outs[k := (outs ! k)[i := outs ! k ! i XOR
                   gf64_mul_reference in_w (coeff_block_starts ! k ! 0)]]) [0..<K] outs)
          [2 * blocks..<len] outs)"

definition gf64_region_2d_muladd_ssse3_arr ::
  "gf64_t list list \<Rightarrow> nat \<Rightarrow> gf64_t list list \<Rightarrow> nat \<Rightarrow> gf64_t list \<Rightarrow> nat \<Rightarrow> nat \<Rightarrow>
    gf64_t list list" where
  "gf64_region_2d_muladd_ssse3_arr outs K in_blocks G coeff_block_2d K_stride len =
    fold (\<lambda>g outs.
        let blocks = len div 2;
            outs = fold (\<lambda>b outs.
                let i = 2 * b;
                    in0 = in_blocks ! g ! (i + 0);
                    in1 = in_blocks ! g ! (i + 1)
                in fold (\<lambda>k outs.
                       let (r0, r1) = gf64_clmul_reduce_64x64_packed in0 in1
                             (coeff_block_2d ! (k * K_stride + g));
                           outs = outs[k := (outs ! k)[i + 0 := outs ! k ! (i + 0) XOR r0]]
                       in outs[k := (outs ! k)[i + 1 := outs ! k ! (i + 1) XOR r1]]) [0..<K] outs)
              [0..<blocks] outs
        in fold (\<lambda>i outs.
               let in_w = in_blocks ! g ! i
               in fold (\<lambda>k outs. outs[k := (outs ! k)[i := outs ! k ! i XOR
                      gf64_mul_reference in_w (coeff_block_2d ! (k * K_stride + g))]]) [0..<K] outs)
             [2 * blocks..<len] outs)
      [0..<G] outs"

section \<open>The two-lane product\<close>

lemma gf64_reduce_128_eq: "gf64_reduce_128 lo hi = reduce_tail lo hi"
  by (simp add: gf64_reduce_128_def reduce_tail_def Let_def xor.assoc)

lemma clmul_64x64_product:
  "(case gf64_clmul_64x64 a b of (lo, hi) \<Rightarrow> gf64_reduce_128 lo hi) = gf64_mul_reference a b"
  by (simp only: gf64_clmul_64x64_def gf64_mul_reference_def gf64_reduce_128_def Let_def prod.case)

lemma packed_product:
  "gf64_clmul_reduce_64x64_packed a0 a1 b = (gf64_mul_reference a0 b, gf64_mul_reference a1 b)"
proof -
  have vset: "vset1 2 1 = [1, 1]" by (simp add: vset1_def numeral_2_eq_2)
  show ?thesis
    unfolding gf64_clmul_reduce_64x64_packed_def gf64_mul_reference_def Let_def
    by (simp only: vset push_bit_32_and_mask [unfolded and_mask32] and_mask32 mm_set_epi32_half drop_bit_take_32
        drop_bit_drop_32 clmulepi64_low)
      (simp only: simd_defs zip_Cons_Cons zip_Nil list.map prod.case nth_Cons_0
        nth_Cons_Suc One_nat_def xor.assoc or.assoc)
qed

section \<open>Agreement with the scalar kernels\<close>

lemma fold_pair_stores:
  "fold (\<lambda>b out. out[2 * b := g (2 * b), 2 * b + 1 := g (2 * b + 1)]) [0..<n] out =
    fold (\<lambda>i out. out[i := g i]) [0..<2 * n] out"
  by (rule fold_blocks) (simp add: upt_conv_Cons)

lemma region_mul_ssse3_eq: "gf64_region_mul_ssse3 out inp len constant =
    gf64_region_mul_scalar out inp len constant"
proof -
  have "gf64_region_mul_ssse3 out inp len constant =
    fold (\<lambda>i out. out[i := gf64_mul_reference (inp ! i) constant]) [2 * (len div 2)..<len]
      (fold (\<lambda>b out. out[2 * b := gf64_mul_reference (inp ! (2 * b)) constant,
         2 * b + 1 := gf64_mul_reference (inp ! (2 * b + 1)) constant]) [0..<len div 2] out)"
    by (simp add: gf64_region_mul_ssse3_def Let_def split_def
        flip: clmul_64x64_product)
  then show ?thesis
    by (simp only: fold_pair_stores [of "\<lambda>i. gf64_mul_reference (inp ! i) constant"]
        gf64_region_mul_scalar_def fold_upt_append zero_le times_div_less_eq_dividend)
qed

lemma region_mul_ssse3_arr_eq: "gf64_region_mul_ssse3_arr out inp coeff len n_coeff =
    gf64_region_mul_scalar_arr out inp coeff len n_coeff"
proof -
  let ?g = "\<lambda>i. gf64_mul_reference (inp ! i) (coeff ! (i mod n_coeff))"
  have "gf64_region_mul_ssse3_arr out inp coeff len n_coeff =
    fold (\<lambda>i out. out[i := ?g i]) [2 * (len div 2)..<len]
      (fold (\<lambda>b out. out[2 * b := ?g (2 * b), 2 * b + 1 := ?g (2 * b + 1)]) [0..<len div 2] out)"
    by (simp add: gf64_region_mul_ssse3_arr_def Let_def packed_product)
  then show ?thesis
    by (simp only: fold_pair_stores [of ?g]
        gf64_region_mul_scalar_arr_def fold_upt_append zero_le times_div_less_eq_dividend)
qed

lemma pair_acc_row:
  assumes "Gf r0 = F i" and "Gf r1 = F (i + 1)"
  shows "(let out = out[i + 0 := out ! (i + 0) XOR r0] in out[i + 1 := out ! (i + 1) XOR r1]) =
    acc_row out (\<lambda>j. if i \<le> j \<and> j < i + 2 then F j else 0)"
  unfolding Let_def update_acc_row acc_row_acc_row
  by (rule acc_row_cong) (use assms in \<open>auto simp: less_Suc_eq\<close>)

lemma pair_acc_rows:
  assumes "Gf r0 = F i" and "Gf r1 = F (i + 1)"
  shows "(let outs = outs[k := (outs ! k)[i + 0 := outs ! k ! (i + 0) XOR r0]]
      in outs[k := (outs ! k)[i + 1 := outs ! k ! (i + 1) XOR r1]]) =
    acc_rows outs (\<lambda>k' j. if k' = k then if i \<le> j \<and> j < i + 2 then F j else 0 else 0)"
  unfolding Let_def update_acc_rows_at acc_rows_acc_rows
  by (rule acc_rows_cong) (use assms in \<open>auto simp: less_Suc_eq\<close>)

lemma region_muladd_ssse3_arr_eq: "gf64_region_muladd_ssse3_arr out inp coeff len n_coeff =
    gf64_region_muladd_scalar_arr out inp coeff len n_coeff"
proof -
  let ?F = "\<lambda>i. \<Sum>c=0..<n_coeff. Gf (inp ! i) * Gf (coeff ! c)"
  let ?g = "\<lambda>i. fold (\<lambda>c sum. sum XOR gf64_mul_reference (inp ! i) (coeff ! c)) [0..<n_coeff] 0"
  have g: "Gf (?g i) = ?F i" for i
    by (simp add: Gf_xor_sum Gf_mul_reference)
  have accs: "fold (\<lambda>c (acc0, acc1). (acc0 XOR f c, acc1 XOR h c)) cs (a, b) =
      (fold (\<lambda>c sum. sum XOR f c) cs a, fold (\<lambda>c sum. sum XOR h c) cs b)" for f h cs a and b :: gf64_t
    by (induction cs arbitrary: a b) auto
  have "gf64_region_muladd_ssse3_arr out inp coeff len n_coeff =
    fold (\<lambda>i out. out[i := out ! i XOR ?g i]) [2 * (len div 2)..<len]
      (fold (\<lambda>b out. let out = out[2 * b + 0 := out ! (2 * b + 0) XOR ?g (2 * b)]
         in out[2 * b + 1 := out ! (2 * b + 1) XOR ?g (2 * b + 1)]) [0..<len div 2] out)"
    by (simp add: gf64_region_muladd_ssse3_arr_def Let_def packed_product accs)
  also have "\<dots> = acc_row out (\<lambda>j. if j < len then ?F j else 0)"
    by (rule acc_blocks_tail [OF pair_acc_row g]) (rule g)+
  finally show ?thesis by (simp only: muladd_scalar_acc)
qed

lemma region_coupled_muladd_ssse3_arr_eq:
  "gf64_region_coupled_muladd_ssse3_arr out in_blocks coeff_blocks len G =
    gf64_region_coupled_muladd_scalar_arr out in_blocks coeff_blocks len G"
  by (simp add: gf64_region_coupled_muladd_ssse3_arr_def gf64_region_coupled_muladd_scalar_arr_def
      region_muladd_ssse3_arr_eq)

text \<open>A pair of columns of all the outputs.\<close>

lemma fold_pair_rows:
  "fold (\<lambda>k outs. let (r0, r1) = gf64_clmul_reduce_64x64_packed (x (i + 0)) (x (i + 1)) (c k);
          outs = outs[k := (outs ! k)[i + 0 := outs ! k ! (i + 0) XOR r0]]
      in outs[k := (outs ! k)[i + 1 := outs ! k ! (i + 1) XOR r1]]) [0..<K] outs =
    acc_rows outs (\<lambda>k j. if i \<le> j \<and> j < i + 2 then if k < K then Gf (x j) * Gf (c k) else 0 else 0)"
  unfolding packed_product prod.case Let_def [of "(_, _)"]
  by (subst fold_upt_acc_rows [OF pair_acc_rows [where F = "\<lambda>j. Gf (x j) * Gf (c k)" for k]])
    (auto simp: Gf_mul_reference intro!: acc_rows_cong)

lemma region_fused_ssse3_arr_eq:
  "gf64_region_fused_output_muladd_ssse3_arr outs inp coeff_block_starts len K =
    gf64_region_fused_output_muladd_scalar_arr outs inp coeff_block_starts len K"
  unfolding gf64_region_fused_output_muladd_ssse3_arr_def Let_def fused_scalar_acc
  by (subst block_rows_tail [where x = "\<lambda>i. inp ! i", OF fold_pair_rows [unfolded Let_def]])
    (rule acc_rows_cong, simp)

lemma region_2d_ssse3_arr_eq:
  "gf64_region_2d_muladd_ssse3_arr outs K in_blocks G coeff_block_2d K_stride len =
    gf64_region_2d_muladd_scalar_arr outs K in_blocks G coeff_block_2d K_stride len"
  unfolding gf64_region_2d_muladd_ssse3_arr_def Let_def two_d_rows [symmetric]
  by (subst block_rows_tail [where x = "\<lambda>i. in_blocks ! g ! i" for g,
        OF fold_pair_rows [unfolded Let_def]]) (rule refl)

end
