(* ===== verification/Region_AVX2.thy ===== *)
theory Region_AVX2
  imports Region_SSSE3
begin

text \<open>
  The AVX2 kernels of gf64/gf64_region_avx2.c and gf64/gf64_region_avx2_arr.c: two products per
  VPCLMULQDQ, reduced in vector form. The unrolled loop of the single-coefficient \<open>muladd\<close> works on
  eight streams of two elements; the streams are numbered here, stream \<open>s\<close> being elements
  \<open>2 s\<close> and \<open>2 s + 1\<close> of the block. Prefetches have no effect on the result and are left out.
\<close>

definition gf64_region_mul_avx2 ::
  "gf64_t list \<Rightarrow> gf64_t list \<Rightarrow> nat \<Rightarrow> gf64_t \<Rightarrow> gf64_t list" where
  "gf64_region_mul_avx2 out inp len constant =
    (let coeff_broadcast = vset1 4 constant;
         blocks = len div 4;
         out = fold (\<lambda>b out.
             let i = 4 * b;
                 in01 = mm256_setr_epi64x (inp ! (i + 0)) 0 (inp ! (i + 1)) 0;
                 prod01 = clmulepi64 in01 coeff_broadcast 0x00;
                 p01_lo = extract_block prod01 0;
                 p01_hi = extract_block prod01 1;
                 p00_lo = mm_cvtsi128_si64 p01_lo;
                 p00_hi = mm_cvtsi128_si64 (mm_srli_si128_8 p01_lo);
                 p01_lo_v = mm_cvtsi128_si64 p01_hi;
                 p01_hi_v = mm_cvtsi128_si64 (mm_srli_si128_8 p01_hi);
                 out = out[i + 0 := gf64_reduce_128 p00_lo p00_hi];
                 out = out[i + 1 := gf64_reduce_128 p01_lo_v p01_hi_v];
                 in23 = mm256_setr_epi64x (inp ! (i + 2)) 0 (inp ! (i + 3)) 0;
                 prod23 = clmulepi64 in23 coeff_broadcast 0x00;
                 p23_lo = extract_block prod23 0;
                 p23_hi = extract_block prod23 1;
                 p02_lo = mm_cvtsi128_si64 p23_lo;
                 p02_hi = mm_cvtsi128_si64 (mm_srli_si128_8 p23_lo);
                 p03_lo = mm_cvtsi128_si64 p23_hi;
                 p03_hi = mm_cvtsi128_si64 (mm_srli_si128_8 p23_hi);
                 out = out[i + 2 := gf64_reduce_128 p02_lo p02_hi]
             in out[i + 3 := gf64_reduce_128 p03_lo p03_hi]) [0..<blocks] out
     in fold (\<lambda>i out. out[i := gf64_mul_reference (inp ! i) constant]) [4 * blocks..<len] out)"

definition gf64_reduce_ymm :: "vec \<Rightarrow> vec \<Rightarrow> vec" where
  "gf64_reduce_ymm lo_vec hi_vec =
    (let t_lo = vxor (vxor (vslli hi_vec 4) (vslli hi_vec 3)) (vxor (vslli hi_vec 1) hi_vec);
         bit0 = vand (vxor (vsrli hi_vec 60) (vxor (vsrli hi_vec 61) (vsrli hi_vec 63))) (vset1 4 1);
         bit1 = vslli (vand (vxor (vsrli hi_vec 61) (vsrli hi_vec 62)) (vset1 4 1)) 1;
         bit2 = vslli (vand (vxor (vsrli hi_vec 62) (vsrli hi_vec 63)) (vset1 4 1)) 2;
         bit3 = vslli (vand (vsrli hi_vec 63) (vset1 4 1)) 3;
         R_hi = vor (vor bit0 bit1) (vor bit2 bit3);
         t2 = vxor (vxor (vslli R_hi 4) (vslli R_hi 3)) (vxor (vslli R_hi 1) R_hi)
     in vxor (vxor lo_vec t_lo) t2)"

definition gf64_split_prod_ymm :: "vec \<Rightarrow> vec \<times> vec" where
  "gf64_split_prod_ymm p =
    (let prod_lo128 = mm256_castsi256_si128 p;
         prod_hi128 = extract_block p 1;
         lo_pair = mm_unpacklo_epi64 prod_lo128 prod_hi128;
         hi_pair = mm_unpackhi_epi64 prod_lo128 prod_hi128
     in (mm256_castsi128_si256 lo_pair, mm256_castsi128_si256 hi_pair))"

definition gf64_region_mul_avx2_arr ::
  "gf64_t list \<Rightarrow> gf64_t list \<Rightarrow> gf64_t list \<Rightarrow> nat \<Rightarrow> nat \<Rightarrow> gf64_t list" where
  "gf64_region_mul_avx2_arr out inp coeff len n_coeff =
    (if n_coeff = 1
     then let c0 = coeff ! 0;
              coeff_broadcast = vset1 4 c0;
              blocks = len div 4;
              out = fold (\<lambda>b out.
                  let i = 4 * b;
                      in01 = mm256_setr_epi64x (inp ! (i + 0)) 0 (inp ! (i + 1)) 0;
                      prod01 = clmulepi64 in01 coeff_broadcast 0x00;
                      (lo_vec, hi_vec) = gf64_split_prod_ymm prod01;
                      result01 = gf64_reduce_ymm lo_vec hi_vec;
                      out = vstoreu out (i + 0) (mm256_castsi256_si128 result01);
                      in23 = mm256_setr_epi64x (inp ! (i + 2)) 0 (inp ! (i + 3)) 0;
                      prod23 = clmulepi64 in23 coeff_broadcast 0x00;
                      (lo_vec, hi_vec) = gf64_split_prod_ymm prod23;
                      result23 = gf64_reduce_ymm lo_vec hi_vec
                  in vstoreu out (i + 2) (mm256_castsi256_si128 result23)) [0..<blocks] out
          in fold (\<lambda>i out. out[i := gf64_mul_reference (inp ! i) c0]) [4 * blocks..<len] out
     else let blocks = len div 4;
              out = fold (\<lambda>b out.
                  let i = 4 * b;
                      in01 = mm256_setr_epi64x (inp ! (i + 0)) 0 (inp ! (i + 1)) 0;
                      coeff01 = mm256_setr_epi64x (coeff ! ((i + 0) mod n_coeff)) 0
                          (coeff ! ((i + 1) mod n_coeff)) 0;
                      prod01 = clmulepi64 in01 coeff01 0x00;
                      (lo01, hi01) = gf64_split_prod_ymm prod01;
                      result01 = gf64_reduce_ymm lo01 hi01;
                      out = vstoreu out (i + 0) (mm256_castsi256_si128 result01);
                      in23 = mm256_setr_epi64x (inp ! (i + 2)) 0 (inp ! (i + 3)) 0;
                      coeff23 = mm256_setr_epi64x (coeff ! ((i + 2) mod n_coeff)) 0
                          (coeff ! ((i + 3) mod n_coeff)) 0;
                      prod23 = clmulepi64 in23 coeff23 0x00;
                      (lo23, hi23) = gf64_split_prod_ymm prod23;
                      result23 = gf64_reduce_ymm lo23 hi23
                  in vstoreu out (i + 2) (mm256_castsi256_si128 result23)) [0..<blocks] out
          in fold (\<lambda>i out. out[i := gf64_mul_reference (inp ! i) (coeff ! (i mod n_coeff))])
               [4 * blocks..<len] out)"

text \<open>
  The accumulation of the general case: the unreduced products of a pair with all the
  coefficients are XORed, and reduced once.
\<close>

definition muladd_pair_avx2 ::
  "gf64_t list \<Rightarrow> gf64_t list \<Rightarrow> nat \<Rightarrow> nat \<Rightarrow> gf64_t list \<Rightarrow> gf64_t list" where
  "muladd_pair_avx2 inp coeff n_coeff i out =
    (let in01 = mm256_setr_epi64x (inp ! (i + 0)) 0 (inp ! (i + 1)) 0;
         (acc_lo_01, acc_hi_01) = fold (\<lambda>c (acc_lo, acc_hi).
             let coeff_bc = vset1 4 (coeff ! c);
                 prod = clmulepi64 in01 coeff_bc 0x00;
                 (lo_vec, hi_vec) = gf64_split_prod_ymm prod
             in (vxor acc_lo lo_vec, vxor acc_hi hi_vec)) [0..<n_coeff] (vset1 4 0, vset1 4 0);
         result01 = gf64_reduce_ymm acc_lo_01 acc_hi_01;
         prev01 = vloadu 2 out i
     in vstoreu out i (vxor prev01 (mm256_castsi256_si128 result01)))"

definition gf64_region_muladd_avx2_arr ::
  "gf64_t list \<Rightarrow> gf64_t list \<Rightarrow> gf64_t list \<Rightarrow> nat \<Rightarrow> nat \<Rightarrow> gf64_t list" where
  "gf64_region_muladd_avx2_arr out inp coeff len n_coeff =
    (if n_coeff = 1
     then let c0 = coeff ! 0;
              coeff_broadcast = vset1 4 c0;
              blocks = len div 16;
              out = fold (\<lambda>b out.
                  let i = 16 * b;
                      prod = map (\<lambda>s. clmulepi64
                          (mm256_setr_epi64x (inp ! (i + 2 * s)) 0 (inp ! (i + 2 * s + 1)) 0)
                          coeff_broadcast 0x00) [0..<8];
                      prev = map (\<lambda>s. vloadu 2 out (i + 2 * s)) [0..<8];
                      red = map (\<lambda>s. case gf64_split_prod_ymm (prod ! s) of
                          (lo_vec, hi_vec) \<Rightarrow> gf64_reduce_ymm lo_vec hi_vec) [0..<8]
                  in fold (\<lambda>s out. vstoreu out (i + 2 * s)
                         (vxor (prev ! s) (mm256_castsi256_si128 (red ! s)))) [0..<8] out)
                [0..<blocks] out
          in fold (\<lambda>i out. out[i := out ! i XOR gf64_mul_reference (inp ! i) c0])
               [16 * blocks..<len] out
     else let blocks = len div 4;
              out = fold (\<lambda>b out.
                  let i = 4 * b;
                      out = muladd_pair_avx2 inp coeff n_coeff (i + 0) out
                  in muladd_pair_avx2 inp coeff n_coeff (i + 2) out) [0..<blocks] out
          in fold (\<lambda>i out.
                 let sum = fold (\<lambda>c sum. sum XOR gf64_mul_reference (inp ! i) (coeff ! c))
                       [0..<n_coeff] 0
                 in out[i := out ! i XOR sum]) [4 * blocks..<len] out)"

definition gf64_region_coupled_muladd_avx2_arr ::
  "gf64_t list \<Rightarrow> gf64_t list list \<Rightarrow> gf64_t list \<Rightarrow> nat \<Rightarrow> nat \<Rightarrow> gf64_t list" where
  "gf64_region_coupled_muladd_avx2_arr out in_blocks coeff_blocks len G =
    fold (\<lambda>g out. gf64_region_muladd_avx2_arr out (in_blocks ! g) (drop g coeff_blocks) len 1)
      [0..<G] out"

text \<open>Four columns of output \<open>k\<close>: the body of the innermost loop of the next two kernels.\<close>

definition muladd_quad_avx2 ::
  "vec \<Rightarrow> vec \<Rightarrow> vec \<Rightarrow> nat \<Rightarrow> nat \<Rightarrow> gf64_t list list \<Rightarrow> gf64_t list list" where
  "muladd_quad_avx2 in01 in23 coeff_bc k i outs =
    (let prod01 = clmulepi64 in01 coeff_bc 0x00;
         (lo_vec, hi_vec) = gf64_split_prod_ymm prod01;
         red01 = gf64_reduce_ymm lo_vec hi_vec;
         prev01 = vloadu 2 (outs ! k) (i + 0);
         outs = outs[k := vstoreu (outs ! k) (i + 0) (vxor prev01 (mm256_castsi256_si128 red01))];
         prod23 = clmulepi64 in23 coeff_bc 0x00;
         (lo_vec, hi_vec) = gf64_split_prod_ymm prod23;
         red23 = gf64_reduce_ymm lo_vec hi_vec;
         prev23 = vloadu 2 (outs ! k) (i + 2)
     in outs[k := vstoreu (outs ! k) (i + 2) (vxor prev23 (mm256_castsi256_si128 red23))])"

text \<open>
  The outputs are taken in chunks of 256; \<open>active\<close> pairs the broadcast coefficient with the output
  index for the non-zero coefficients of the chunk.
\<close>

definition fused_chunk_avx2 ::
  "gf64_t list \<Rightarrow> gf64_t list list \<Rightarrow> nat \<Rightarrow> nat \<Rightarrow> nat \<Rightarrow> gf64_t list list \<Rightarrow> gf64_t list list" where
  "fused_chunk_avx2 inp coeff_block_starts len K kb outs =
    (let k_base = 256 * kb;
         chunk_K = K - k_base;
         chunk_K = if chunk_K > 256 then 256 else chunk_K;
         active = fold (\<lambda>k active.
             let c = coeff_block_starts ! (k_base + k) ! 0
             in if c \<noteq> 0 then active @ [(vset1 4 c, k_base + k)] else active) [0..<chunk_K] []
     in if active = [] then outs
        else let blocks = len div 4;
                 outs = fold (\<lambda>b outs.
                     let i = 4 * b;
                         in01 = mm256_setr_epi64x (inp ! (i + 0)) 0 (inp ! (i + 1)) 0;
                         in23 = mm256_setr_epi64x (inp ! (i + 2)) 0 (inp ! (i + 3)) 0
                     in fold (\<lambda>(coeff_bc, k) outs. muladd_quad_avx2 in01 in23 coeff_bc k i outs)
                          active outs) [0..<blocks] outs
             in fold (\<lambda>i outs.
                    let in_w = inp ! i
                    in fold (\<lambda>(coeff_bc, k) outs. outs[k := (outs ! k)[i := outs ! k ! i XOR
                           gf64_mul_reference in_w (coeff_block_starts ! k ! 0)]]) active outs)
                  [4 * blocks..<len] outs)"

definition gf64_region_fused_output_muladd_avx2_arr ::
  "gf64_t list list \<Rightarrow> gf64_t list \<Rightarrow> gf64_t list list \<Rightarrow> nat \<Rightarrow> nat \<Rightarrow> gf64_t list list" where
  "gf64_region_fused_output_muladd_avx2_arr outs inp coeff_block_starts len K =
    (if K = 0 \<or> len = 0 then outs
     else fold (fused_chunk_avx2 inp coeff_block_starts len K) [0..<(K + 255) div 256] outs)"

definition gf64_region_2d_muladd_avx2_arr ::
  "gf64_t list list \<Rightarrow> nat \<Rightarrow> gf64_t list list \<Rightarrow> nat \<Rightarrow> gf64_t list \<Rightarrow> nat \<Rightarrow> nat \<Rightarrow>
    gf64_t list list" where
  "gf64_region_2d_muladd_avx2_arr outs K in_blocks G coeff_block_2d K_stride len =
    fold (\<lambda>g outs.
        let blocks = len div 4;
            outs = fold (\<lambda>b outs.
                let i = 4 * b;
                    in01 = mm256_setr_epi64x (in_blocks ! g ! (i + 0)) 0 (in_blocks ! g ! (i + 1)) 0;
                    in23 = mm256_setr_epi64x (in_blocks ! g ! (i + 2)) 0 (in_blocks ! g ! (i + 3)) 0
                in fold (\<lambda>k outs.
                       let coeff_bc = vset1 4 (coeff_block_2d ! (k * K_stride + g))
                       in muladd_quad_avx2 in01 in23 coeff_bc k i outs) [0..<K] outs) [0..<blocks] outs
        in fold (\<lambda>i outs.
               let in_w = in_blocks ! g ! i
               in fold (\<lambda>k outs. outs[k := (outs ! k)[i := outs ! k ! i XOR
                      gf64_mul_reference in_w (coeff_block_2d ! (k * K_stride + g))]]) [0..<K] outs)
             [4 * blocks..<len] outs)
      [0..<G] outs"

section \<open>A pair of products\<close>

lemma vset1_4: "vset1 4 c = [c, c, c, c]"
  by (simp add: vset1_def numeral_eq_Suc)

lemma reduce_ymm_pair:
  "gf64_reduce_ymm [l0, l1] [h0, h1] = [reduce_tail l0 h0, reduce_tail l1 h1]"
  unfolding gf64_reduce_ymm_def Let_def vset1_4 reduce_tail_def
  by (simp only: simd_defs zip_Cons_Cons zip_Nil list.map prod.case xor.assoc or.assoc)

lemma split_pair:
  "gf64_split_prod_ymm (clmulepi64 [x, 0, y, 0] [c, cx, d, dx] 0x00) =
    ([ucast (clmul64 x c), ucast (clmul64 y d)],
     [ucast (drop_bit 64 (clmul64 x c)), ucast (drop_bit 64 (clmul64 y d))])"
  by (simp add: gf64_split_prod_ymm_def Let_def mm256_castsi256_si128_def mm256_castsi128_si256_def
      extract_block_def simd_defs numeral_eq_Suc)

declare clmulepi64.simps [simp del]

lemma pair_product:
  "(case gf64_split_prod_ymm (clmulepi64 [x, 0, y, 0] [c, cx, d, dx] 0x00) of
     (lo_vec, hi_vec) \<Rightarrow> gf64_reduce_ymm lo_vec hi_vec) =
    [gf64_mul_reference x c, gf64_mul_reference y d]"
  by (simp add: split_pair reduce_ymm_pair flip: gf64_mul_single_eq_reference gf64_mul_single_reduce)

lemma cast_pair [simp]: "mm256_castsi256_si128 [a, b] = [a, b]"
  by (simp add: mm256_castsi256_si128_def)

lemma setr_pair: "mm256_setr_epi64x a b c d = [a, b, c, d]"
  by (simp add: mm256_setr_epi64x_def)

lemmas avx2_pair = setr_pair vset1_4 pair_product

section \<open>Agreement with the scalar kernels\<close>

lemma fold_quad_stores:
  "fold (\<lambda>b out. let out = out[4 * b + 0 := g (4 * b + 0)]; out = out[4 * b + 1 := g (4 * b + 1)];
        out = out[4 * b + 2 := g (4 * b + 2)] in out[4 * b + 3 := g (4 * b + 3)]) [0..<n] out =
    fold (\<lambda>i out. out[i := g i]) [0..<4 * n] out"
  by (rule fold_blocks) (simp add: upt_conv_Cons Let_def numeral_eq_Suc)

lemma vstoreu_pair: "vstoreu out i [a, b] = out[i := a, i + 1 := b]"
  by (simp add: vstoreu_def upt_conv_Cons numeral_eq_Suc)

lemma quad_tail:
  "fold (\<lambda>i out. out[i := g i]) [4 * (len div 4)..<len]
    (fold (\<lambda>b out. let out = out[4 * b + 0 := g (4 * b + 0)]; out = out[4 * b + 1 := g (4 * b + 1)];
        out = out[4 * b + 2 := g (4 * b + 2)] in out[4 * b + 3 := g (4 * b + 3)]) [0..<len div 4] out) =
    fold (\<lambda>i out. out[i := g i]) [0..<len] out"
  unfolding fold_quad_stores by (rule fold_upt_append) auto

lemma extract_product:
  "gf64_reduce_128 (mm_cvtsi128_si64 (extract_block (clmulepi64 [x, 0, y, 0] [c, cx, d, dx] 0x00) 0))
     (mm_cvtsi128_si64 (mm_srli_si128_8 (extract_block (clmulepi64 [x, 0, y, 0] [c, cx, d, dx] 0x00) 0))) =
   gf64_mul_reference x c"
  "gf64_reduce_128 (mm_cvtsi128_si64 (extract_block (clmulepi64 [x, 0, y, 0] [c, cx, d, dx] 0x00) 1))
     (mm_cvtsi128_si64 (mm_srli_si128_8 (extract_block (clmulepi64 [x, 0, y, 0] [c, cx, d, dx] 0x00) 1))) =
   gf64_mul_reference y d"
  by (simp_all add: extract_block_def simd_defs gf64_reduce_128_eq clmulepi64.simps Let_def
        numeral_2_eq_2 numeral_3_eq_3
      flip: gf64_mul_single_eq_reference gf64_mul_single_reduce)

lemma region_mul_avx2_eq:
  "gf64_region_mul_avx2 out inp len constant = gf64_region_mul_scalar out inp len constant"
  unfolding gf64_region_mul_avx2_def gf64_region_mul_scalar_def
    quad_tail [of "\<lambda>i. gf64_mul_reference (inp ! i) constant", symmetric]
  by (simp only: Let_def setr_pair vset1_4 extract_product)

lemma region_mul_avx2_arr_eq:
  "gf64_region_mul_avx2_arr out inp coeff len n_coeff =
    gf64_region_mul_scalar_arr out inp coeff len n_coeff"
proof (cases "n_coeff = 1")
  case True
  have "gf64_region_mul_scalar_arr out inp coeff len n_coeff =
      fold (\<lambda>i out. out[i := gf64_mul_reference (inp ! i) (coeff ! 0)]) [0..<len] out"
    by (simp add: gf64_region_mul_scalar_arr_def True)
  then show ?thesis
    unfolding gf64_region_mul_avx2_arr_def
      quad_tail [of "\<lambda>i. gf64_mul_reference (inp ! i) (coeff ! 0)", symmetric]
    by (simp add: True Let_def avx2_pair vstoreu_pair split_pair reduce_ymm_pair
        Suc_numeral_shift flip: gf64_mul_single_eq_reference gf64_mul_single_reduce)
next
  case False
  then show ?thesis
    unfolding gf64_region_mul_avx2_arr_def gf64_region_mul_scalar_arr_def
      quad_tail [of "\<lambda>i. gf64_mul_reference (inp ! i) (coeff ! (i mod n_coeff))", symmetric]
    by (simp add: Let_def avx2_pair vstoreu_pair split_pair reduce_ymm_pair
        Suc_numeral_shift flip: gf64_mul_single_eq_reference gf64_mul_single_reduce)
qed

text \<open>The accumulated pair.\<close>

lemma reduce_ymm_lanes:
  "length lo_vec \<le> 4 \<Longrightarrow> length hi_vec = length lo_vec \<Longrightarrow>
    gf64_reduce_ymm lo_vec hi_vec = map2 reduce_tail lo_vec hi_vec"
  by (rule nth_equalityI)
    (auto simp: gf64_reduce_ymm_def Let_def vset1_def reduce_tail_def xor.assoc or.assoc)

lemma muladd_pair_avx2_acc:
  "muladd_pair_avx2 inp coeff n_coeff i out = acc_row out
    (\<lambda>j. if i \<le> j \<and> j < i + 2 then \<Sum>c=0..<n_coeff. Gf (inp ! j) * Gf (coeff ! c) else 0)"
proof -
  let ?f = "\<lambda>c (acc_lo, acc_hi). let coeff_bc = vset1 4 (coeff ! c);
      prod = clmulepi64 (mm256_setr_epi64x (inp ! (i + 0)) 0 (inp ! (i + 1)) 0) coeff_bc 0x00;
      (lo_vec, hi_vec) = gf64_split_prod_ymm prod
    in (vxor acc_lo lo_vec, vxor acc_hi hi_vec)"
  have inv: "\<exists>lo hi. fold ?f [0..<n] (vset1 4 0, vset1 4 0) = (lo, hi) \<and> length lo \<le> 4 \<and>
      2 \<le> length lo \<and> length hi = length lo \<and> (\<forall>k<2. Gf (lo ! k) + gfx ^ 64 * Gf (hi ! k) =
        (\<Sum>c=0..<n. Gf (inp ! (i + k)) * Gf (coeff ! c)))" for n
  proof (induction n)
    case 0
    show ?case by (auto simp: vset1_4 less_2_cases_iff)
  next
    case (Suc n)
    then obtain lo hi where *: "fold ?f [0..<n] (vset1 4 0, vset1 4 0) = (lo, hi)"
      "2 \<le> length lo" "length hi = length lo"
      "\<And>k. k < 2 \<Longrightarrow> Gf (lo ! k) + gfx ^ 64 * Gf (hi ! k) =
        (\<Sum>c=0..<n. Gf (inp ! (i + k)) * Gf (coeff ! c))" by blast
    let ?p = "\<lambda>k. clmul64 (inp ! (i + k)) (coeff ! n)"
    let ?lo = "vxor lo [ucast (?p 0), ucast (?p 1)]"
    let ?hi = "vxor hi [ucast (drop_bit 64 (?p 0)), ucast (drop_bit 64 (?p 1))]"
    have step: "fold ?f [0..<Suc n] (vset1 4 0, vset1 4 0) = (?lo, ?hi)"
      by (simp only: fold_upt_Suc zero_le *(1)) (simp add: setr_pair vset1_4 split_pair Let_def)
    have "Gf (?lo ! k) + gfx ^ 64 * Gf (?hi ! k) =
        (\<Sum>c=0..<Suc n. Gf (inp ! (i + k)) * Gf (coeff ! c))" if "k < 2" for k
    proof -
      have "lo \<noteq> []" "hi \<noteq> []" using *(2,3) by auto
      then have "?lo ! k = lo ! k XOR ucast (?p k)" "?hi ! k = hi ! k XOR ucast (drop_bit 64 (?p k))"
        using that *(2,3) by (auto simp: less_2_cases_iff)
      moreover have e: "Gf (inp ! (i + k)) * Gf (coeff ! n) =
          Gf (ucast (?p k)) + gfx ^ 64 * Gf (ucast (drop_bit 64 (?p k)))"
        unfolding gf128_clmul64 [symmetric] gf128_def ..
      ultimately show ?thesis
        unfolding sum.atLeast0_lessThan_Suc *(4) [OF that, symmetric] e
        by (simp add: Gf_xor distrib_left add.assoc add.left_commute)
    qed
    then show ?case using * by (intro exI [of _ ?lo] exI [of _ ?hi] conjI allI impI step) auto
  qed
  from inv [of n_coeff] obtain lo hi where
    *: "fold ?f [0..<n_coeff] (vset1 4 0, vset1 4 0) = (lo, hi)" "length lo \<le> 4"
      "2 \<le> length lo" "length hi = length lo"
      "\<And>k. k < 2 \<Longrightarrow> Gf (lo ! k) + gfx ^ 64 * Gf (hi ! k) =
        (\<Sum>c=0..<n_coeff. Gf (inp ! (i + k)) * Gf (coeff ! c))" by blast
  let ?v = "mm256_castsi256_si128 (gf64_reduce_ymm lo hi)"
  have v: "length ?v = 2" "\<And>k. k < 2 \<Longrightarrow> Gf (?v ! k) =
      (\<Sum>c=0..<n_coeff. Gf (inp ! (i + k)) * Gf (coeff ! c))"
    using * by (auto simp: mm256_castsi256_si128_def reduce_ymm_lanes Gf_reduce_tail)
  have "muladd_pair_avx2 inp coeff n_coeff i out = vstoreu out i (vxor (vloadu 2 out i) ?v)"
    unfolding muladd_pair_avx2_def Let_def * [unfolded Let_def] prod.case ..
  also have "\<dots> = acc_row out (\<lambda>j. if i \<le> j \<and> j < i + 2 then Gf (?v ! (j - i)) else 0)"
    by (rule vstoreu_acc_row) (rule v)
  also have "\<dots> = acc_row out
    (\<lambda>j. if i \<le> j \<and> j < i + 2 then \<Sum>c=0..<n_coeff. Gf (inp ! j) * Gf (coeff ! c) else 0)"
    by (rule acc_row_cong) (use v(2) in auto)
  finally show ?thesis .
qed

lemma map_upt_2: "map f [0..<2] = [f 0, f 1]"
  by (simp add: upt_conv_Cons numeral_2_eq_2)

lemma region_muladd_avx2_arr_eq: "gf64_region_muladd_avx2_arr out inp coeff len n_coeff =
    gf64_region_muladd_scalar_arr out inp coeff len n_coeff"
proof (cases "n_coeff = 1")
  case True
  let ?g = "\<lambda>i. gf64_mul_reference (inp ! i) (coeff ! 0)"
  let ?block = "\<lambda>b out. let i = 16 * b;
          prod = map (\<lambda>s. clmulepi64 (mm256_setr_epi64x (inp ! (i + 2 * s)) 0 (inp ! (i + 2 * s + 1)) 0)
              (vset1 4 (coeff ! 0)) 0x00) [0..<8];
          prev = map (\<lambda>s. vloadu 2 out (i + 2 * s)) [0..<8];
          red = map (\<lambda>s. case gf64_split_prod_ymm (prod ! s) of
              (lo_vec, hi_vec) \<Rightarrow> gf64_reduce_ymm lo_vec hi_vec) [0..<8]
        in fold (\<lambda>s out. vstoreu out (i + 2 * s)
             (vxor (prev ! s) (mm256_castsi256_si128 (red ! s)))) [0..<8] out"
  have block: "?block b out = acc_row out (\<lambda>j. if 16 * b \<le> j \<and> j < 16 * b + 16 then Gf (?g j) else 0)" for b out
  proof -
    have "?block b out = fold (\<lambda>s mem. vstoreu mem (16 * b + 2 * s)
        (vxor (vloadu 2 out (16 * b + 2 * s))
          [?g (16 * b + 2 * s), ?g (16 * b + 2 * s + 1)])) [0..<8] out"
      unfolding Let_def
      by (rule fold_cong_upt) (simp only: nth_map_upt add_0 less_nat_zero_code diff_zero
          setr_pair vset1_4 pair_product cast_pair length_upt nth_upt)
    also have "\<dots> = acc_row out (\<lambda>j. if 16 * b \<le> j \<and> j < 16 * b + 2 * 8 then Gf (?g j) else 0)"
      by (rule streams_acc_row [where g = ?g]) (simp add: map_upt_2)
    finally show ?thesis by simp
  qed
  have "gf64_region_muladd_avx2_arr out inp coeff len n_coeff =
      acc_row out (\<lambda>j. if j < len then Gf (?g j) else 0)"
    unfolding gf64_region_muladd_avx2_arr_def if_P [OF True] Let_def [of "coeff ! 0"]
      Let_def [of "vset1 4 _"] Let_def [of "_ div _"] Let_def [of "fold _ _ _"]
    by (rule acc_blocks_tail [OF block]) (rule refl)
  then show ?thesis
    by (simp add: muladd_scalar_acc True Gf_mul_reference cong: if_cong)
next
  case False
  let ?F = "\<lambda>j. \<Sum>c=0..<n_coeff. Gf (inp ! j) * Gf (coeff ! c)"
  have block: "(let i = 4 * b; out = muladd_pair_avx2 inp coeff n_coeff (i + 0) out
        in muladd_pair_avx2 inp coeff n_coeff (i + 2) out) =
      acc_row out (\<lambda>j. if 4 * b \<le> j \<and> j < 4 * b + 4 then ?F j else 0)" for b out
    unfolding Let_def muladd_pair_avx2_acc acc_row_acc_row by (rule acc_row_cong) auto
  have "gf64_region_muladd_avx2_arr out inp coeff len n_coeff =
      acc_row out (\<lambda>j. if j < len then ?F j else 0)"
    unfolding gf64_region_muladd_avx2_arr_def if_not_P [OF False]
      Let_def [of "_ div _"] Let_def [of "fold _ _ _"]
    by (rule acc_blocks_tail [OF block]) (simp add: Gf_xor_sum Gf_mul_reference)
  then show ?thesis
    by (simp only: muladd_scalar_acc)
qed

lemma region_coupled_muladd_avx2_arr_eq:
  "gf64_region_coupled_muladd_avx2_arr out in_blocks coeff_blocks len G =
    gf64_region_coupled_muladd_scalar_arr out in_blocks coeff_blocks len G"
  by (simp add: gf64_region_coupled_muladd_avx2_arr_def gf64_region_coupled_muladd_scalar_arr_def
      region_muladd_avx2_arr_eq)

text \<open>Four columns of one output, and of all the outputs of a list.\<close>

lemma vstoreu_row:
  "outs[k := vstoreu (outs ! k) i (vxor (vloadu 2 (outs ! k) i) [a, b])] =
    acc_rows outs (\<lambda>k' j. if k' = k then if i \<le> j \<and> j < i + 2 then Gf ([a, b] ! (j - i)) else 0 else 0)"
  by (rule update_acc_rows [where f = "\<lambda>row. vstoreu row i (vxor (vloadu 2 row i) [a, b])"])
    (rule vstoreu_acc_row, simp)

lemma muladd_quad_rows:
  "muladd_quad_avx2 (mm256_setr_epi64x (x (i + 0)) 0 (x (i + 1)) 0)
      (mm256_setr_epi64x (x (i + 2)) 0 (x (i + 3)) 0) (vset1 4 c) k i outs =
    acc_rows outs (\<lambda>k' j. if k' = k then if i \<le> j \<and> j < i + 4 then Gf (x j) * Gf c else 0 else 0)"
proof -
  have "muladd_quad_avx2 (mm256_setr_epi64x (x (i + 0)) 0 (x (i + 1)) 0)
      (mm256_setr_epi64x (x (i + 2)) 0 (x (i + 3)) 0) (vset1 4 c) k i outs =
    (let outs = outs[k := vstoreu (outs ! k) (i + 0) (vxor (vloadu 2 (outs ! k) (i + 0))
           [gf64_mul_reference (x (i + 0)) c, gf64_mul_reference (x (i + 1)) c])]
     in outs[k := vstoreu (outs ! k) (i + 2) (vxor (vloadu 2 (outs ! k) (i + 2))
           [gf64_mul_reference (x (i + 2)) c, gf64_mul_reference (x (i + 3)) c])])"
    unfolding muladd_quad_avx2_def
    by (simp add: Let_def split_pair reduce_ymm_pair setr_pair vset1_4
        flip: gf64_mul_single_eq_reference gf64_mul_single_reduce)
  also have "\<dots> = acc_rows outs (\<lambda>k' j. if k' = k then
      if i \<le> j \<and> j < i + 4 then Gf (x j) * Gf c else 0 else 0)"
    unfolding Let_def vstoreu_row acc_rows_acc_rows
    by (rule acc_rows_cong) (auto simp: Gf_mul_reference less_Suc_eq numeral_eq_Suc le_Suc_eq)
  finally show ?thesis .
qed

text \<open>The same for the outputs of a list of distinct indices.\<close>

lemma fold_quad_rows:
  assumes "distinct ks"
  shows "fold (\<lambda>k outs. muladd_quad_avx2 (mm256_setr_epi64x (x (i + 0)) 0 (x (i + 1)) 0)
      (mm256_setr_epi64x (x (i + 2)) 0 (x (i + 3)) 0) (vset1 4 (c k)) k i outs) ks outs =
    acc_rows outs (\<lambda>k j. if i \<le> j \<and> j < i + 4 then list_products ks x c k j else 0)"
  by (subst fold_acc_rows [OF muladd_quad_rows])
    (rule acc_rows_cong, simp add: sum_list_indicator [OF assms])

lemma fold_quad_rows_upt:
  "fold (\<lambda>k outs. muladd_quad_avx2 (mm256_setr_epi64x (x (i + 0)) 0 (x (i + 1)) 0)
      (mm256_setr_epi64x (x (i + 2)) 0 (x (i + 3)) 0) (vset1 4 (c k)) k i outs) [0..<K] outs =
    acc_rows outs (\<lambda>k j. if i \<le> j \<and> j < i + 4 then add_products K x c k j else 0)"
  unfolding fold_quad_rows [OF distinct_upt] by (rule acc_rows_cong) simp

lemma region_fused_avx2_arr_eq:
  "gf64_region_fused_output_muladd_avx2_arr outs inp coeff_block_starts len K =
    gf64_region_fused_output_muladd_scalar_arr outs inp coeff_block_starts len K"
proof (cases "K = 0 \<or> len = 0")
  case True
  then show ?thesis
    unfolding gf64_region_fused_output_muladd_avx2_arr_def if_P [OF True] fused_scalar_acc
    by - (rule trans [OF acc_rows_0 [symmetric]], rule acc_rows_cong, auto)
next
  case False
  have chunk: "fused_chunk_avx2 inp coeff_block_starts len K kb outs = acc_rows outs (\<lambda>k j. if j < len
      then list_products (active_indices coeff_block_starts K kb) (\<lambda>i. inp ! i)
        (\<lambda>k. coeff_block_starts ! k ! 0) k j else 0)" for kb outs
    unfolding fused_chunk_avx2_def Let_def active_list [of "\<lambda>k. coeff_block_starts ! k ! 0", unfolded Let_def] map_is_Nil_conv
      active_indices_def [symmetric] fold_map comp_def prod.case
    by (subst acc_rows_blocks_tail [OF fold_quad_rows [OF distinct_active, of "\<lambda>i. inp ! i"]
            fold_column_list [OF distinct_active]])
      (simp, intro impI, rule trans [OF acc_rows_0 [symmetric]], rule acc_rows_cong, simp)
  show ?thesis
    unfolding gf64_region_fused_output_muladd_avx2_arr_def if_not_P [OF False]
    by (rule fused_chunks_scalar) (rule chunk)
qed

lemma region_2d_avx2_arr_eq:
  "gf64_region_2d_muladd_avx2_arr outs K in_blocks G coeff_block_2d K_stride len =
    gf64_region_2d_muladd_scalar_arr outs K in_blocks G coeff_block_2d K_stride len"
  unfolding gf64_region_2d_muladd_avx2_arr_def Let_def two_d_rows [symmetric]
  by (subst block_rows_tail [where x = "\<lambda>i. in_blocks ! g ! i" for g,
        OF fold_quad_rows_upt]) (rule refl)

end
