(* ===== verification/Region_AVX512.thy ===== *)
theory Region_AVX512
  imports Region_AVX2
begin

text \<open>
  The AVX-512 kernels of gf64/gf64_region_avx512.c and gf64/gf64_region_avx512_arr.c: four
  products per VPCLMULQDQ. The expand-load with mask 0x55 puts four elements into the even lanes,
  and the masked store with 0x0F writes the four reduced products. The unrolled loop of the
  single-coefficient \<open>muladd\<close> works on eight registers; register \<open>s\<close> holds elements \<open>4 s .. 4 s + 3\<close>
  of the block (the code's streams 0a, 1a, 2a, 3a, 0b, 1b, 2b, 3b).
\<close>

definition gf64_region_mul_avx512 ::
  "gf64_t list \<Rightarrow> gf64_t list \<Rightarrow> nat \<Rightarrow> gf64_t \<Rightarrow> gf64_t list" where
  "gf64_region_mul_avx512 out inp len constant =
    (let constant_broadcast = vset1 8 constant;
         reduce_block = (\<lambda>r. gf64_reduce_128 (mm_cvtsi128_si64 r) (mm_cvtsi128_si64 (mm_srli_si128_8 r)));
         blocks = len div 8;
         out = fold (\<lambda>b out.
             let i = 8 * b;
                 in_lo = mm512_set_epi64 0 (inp ! (i + 3)) 0 (inp ! (i + 2))
                     0 (inp ! (i + 1)) 0 (inp ! (i + 0));
                 prod_lo = clmulepi64 in_lo constant_broadcast 0x00;
                 r0 = extract_block prod_lo 0;
                 r1 = extract_block prod_lo 1;
                 r2 = extract_block prod_lo 2;
                 r3 = extract_block prod_lo 3;
                 out = out[i + 0 := reduce_block r0];
                 out = out[i + 1 := reduce_block r1];
                 out = out[i + 2 := reduce_block r2];
                 out = out[i + 3 := reduce_block r3];
                 in_hi = mm512_set_epi64 0 (inp ! (i + 7)) 0 (inp ! (i + 6))
                     0 (inp ! (i + 5)) 0 (inp ! (i + 4));
                 prod_hi = clmulepi64 in_hi constant_broadcast 0x00;
                 r4 = extract_block prod_hi 0;
                 r5 = extract_block prod_hi 1;
                 r6 = extract_block prod_hi 2;
                 r7 = extract_block prod_hi 3;
                 out = out[i + 4 := reduce_block r4];
                 out = out[i + 5 := reduce_block r5];
                 out = out[i + 6 := reduce_block r6]
             in out[i + 7 := reduce_block r7]) [0..<blocks] out
     in fold (\<lambda>i out. out[i := gf64_mul_reference (inp ! i) constant]) [8 * blocks..<len] out)"

text \<open>A debugging aid of the code: a value XORed into every reduction, which nothing sets.\<close>

definition gf64_reduce_canary :: gf64_t where "gf64_reduce_canary = 0"

definition gf64_split_prod_512 :: "vec \<Rightarrow> vec \<times> vec" where
  "gf64_split_prod_512 p =
    (let zero = vset1 8 0
     in (mm512_permutex2var_epi64 p [0, 2, 4, 6, 0, 0, 0, 0] zero,
         mm512_permutex2var_epi64 p [1, 3, 5, 7, 0, 0, 0, 0] zero))"

definition gf64_reduce_512 :: "vec \<Rightarrow> vec \<Rightarrow> vec" where
  "gf64_reduce_512 lo_vec hi_vec =
    (let one = vset1 8 1;
         t_lo = vxor (vxor (vslli hi_vec 4) (vslli hi_vec 3)) (vxor (vslli hi_vec 1) hi_vec);
         bit0 = vand (vxor (vsrli hi_vec 60) (vxor (vsrli hi_vec 61) (vsrli hi_vec 63))) one;
         bit1 = vslli (vand (vxor (vsrli hi_vec 61) (vsrli hi_vec 62)) one) 1;
         bit2 = vslli (vand (vxor (vsrli hi_vec 62) (vsrli hi_vec 63)) one) 2;
         bit3 = vslli (vand (vsrli hi_vec 63) one) 3;
         R_hi = vor (vor bit0 bit1) (vor bit2 bit3);
         t2 = vxor (vxor (vslli R_hi 4) (vslli R_hi 3)) (vxor (vslli R_hi 1) R_hi);
         result = vxor (vxor lo_vec t_lo) t2
     in if gf64_reduce_canary \<noteq> 0 then vxor result (vset1 8 gf64_reduce_canary) else result)"

definition gf64_region_mul_avx512_arr ::
  "gf64_t list \<Rightarrow> gf64_t list \<Rightarrow> gf64_t list \<Rightarrow> nat \<Rightarrow> nat \<Rightarrow> gf64_t list" where
  "gf64_region_mul_avx512_arr out inp coeff len n_coeff =
    (if n_coeff = 1
     then let c0 = coeff ! 0;
              coeff_broadcast = vset1 8 c0;
              blocks = len div 8;
              out = fold (\<lambda>b out.
                  let i = 8 * b;
                      in_lo = maskz_expandloadu (mask8 0x55) inp i;
                      prod_lo = clmulepi64 in_lo coeff_broadcast 0x00;
                      (lo_v, hi_v) = gf64_split_prod_512 prod_lo;
                      out = mask_storeu out i (mask8 0x0F) (gf64_reduce_512 lo_v hi_v);
                      in_hi = maskz_expandloadu (mask8 0x55) inp (i + 4);
                      prod_hi = clmulepi64 in_hi coeff_broadcast 0x00;
                      (lo_v, hi_v) = gf64_split_prod_512 prod_hi
                  in mask_storeu out (i + 4) (mask8 0x0F) (gf64_reduce_512 lo_v hi_v)) [0..<blocks] out
          in fold (\<lambda>i out. out[i := gf64_mul_reference (inp ! i) c0]) [8 * blocks..<len] out
     else let blocks = len div 4;
              out = fold (\<lambda>b out.
                  let i = 4 * b;
                      in_vec = mm512_set_epi64 0 (inp ! (i + 3)) 0 (inp ! (i + 2))
                          0 (inp ! (i + 1)) 0 (inp ! (i + 0));
                      coeff_vec = mm512_set_epi64 0 (coeff ! ((i + 3) mod n_coeff))
                          0 (coeff ! ((i + 2) mod n_coeff)) 0 (coeff ! ((i + 1) mod n_coeff))
                          0 (coeff ! ((i + 0) mod n_coeff));
                      prod = clmulepi64 in_vec coeff_vec 0x00;
                      (lo_v, hi_v) = gf64_split_prod_512 prod;
                      result = gf64_reduce_512 lo_v hi_v
                  in mask_storeu out i (mask8 0x0F) result) [0..<blocks] out
          in fold (\<lambda>i out. out[i := gf64_mul_reference (inp ! i) (coeff ! (i mod n_coeff))])
               [4 * blocks..<len] out)"

text \<open>
  The accumulation of the general case: the unreduced products of four elements with all the
  coefficients are XORed, and reduced once.
\<close>

definition muladd_quad_acc_avx512 ::
  "gf64_t list \<Rightarrow> gf64_t list \<Rightarrow> nat \<Rightarrow> nat \<Rightarrow> gf64_t list \<Rightarrow> gf64_t list" where
  "muladd_quad_acc_avx512 inp coeff n_coeff i out =
    (let in_vec = maskz_expandloadu (mask8 0x55) inp i;
         zero = vset1 8 0;
         (acc_lo, acc_hi) = fold (\<lambda>c (acc_lo, acc_hi).
             let coeff_bc = vset1 8 (coeff ! c);
                 prod = clmulepi64 in_vec coeff_bc 0x00;
                 lo_v = mm512_permutex2var_epi64 prod [0, 2, 4, 6, 0, 0, 0, 0] zero;
                 hi_v = mm512_permutex2var_epi64 prod [1, 3, 5, 7, 0, 0, 0, 0] zero
             in (vxor acc_lo lo_v, vxor acc_hi hi_v)) [0..<n_coeff] (vset1 8 0, vset1 8 0);
         result = gf64_reduce_512 acc_lo acc_hi;
         prev = maskz_loadu (mask8 0x0F) out i
     in mask_storeu out i (mask8 0x0F) (vxor prev result))"

definition gf64_region_muladd_avx512_arr ::
  "gf64_t list \<Rightarrow> gf64_t list \<Rightarrow> gf64_t list \<Rightarrow> nat \<Rightarrow> nat \<Rightarrow> gf64_t list" where
  "gf64_region_muladd_avx512_arr out inp coeff len n_coeff =
    (if n_coeff = 1
     then let c0 = coeff ! 0;
              coeff_broadcast = vset1 8 c0;
              blocks = len div 32;
              out = fold (\<lambda>b out.
                  let i = 32 * b;
                      prod = map (\<lambda>s. clmulepi64 (maskz_expandloadu (mask8 0x55) inp (i + 4 * s))
                          coeff_broadcast 0x00) [0..<8];
                      prev = map (\<lambda>s. maskz_loadu (mask8 0x0F) out (i + 4 * s)) [0..<8];
                      red = map (\<lambda>s. case gf64_split_prod_512 (prod ! s) of
                          (lo_v, hi_v) \<Rightarrow> gf64_reduce_512 lo_v hi_v) [0..<8]
                  in fold (\<lambda>s out. mask_storeu out (i + 4 * s) (mask8 0x0F)
                         (vxor (prev ! s) (red ! s))) [0..<8] out) [0..<blocks] out
          in fold (\<lambda>i out. out[i := out ! i XOR gf64_mul_reference (inp ! i) c0])
               [32 * blocks..<len] out
     else let blocks = len div 4;
              out = fold (\<lambda>b out. muladd_quad_acc_avx512 inp coeff n_coeff (4 * b) out) [0..<blocks] out
          in fold (\<lambda>i out.
                 let sum = fold (\<lambda>c sum. sum XOR gf64_mul_reference (inp ! i) (coeff ! c))
                       [0..<n_coeff] 0
                 in out[i := out ! i XOR sum]) [4 * blocks..<len] out)"

definition gf64_region_coupled_muladd_avx512_arr ::
  "gf64_t list \<Rightarrow> gf64_t list list \<Rightarrow> gf64_t list \<Rightarrow> nat \<Rightarrow> nat \<Rightarrow> gf64_t list" where
  "gf64_region_coupled_muladd_avx512_arr out in_blocks coeff_blocks len G =
    fold (\<lambda>g out. gf64_region_muladd_avx512_arr out (in_blocks ! g) (drop g coeff_blocks) len 1)
      [0..<G] out"

text \<open>Four columns of output \<open>k\<close>: the body of the innermost loop of the next two kernels.\<close>

definition muladd_quad_avx512 ::
  "vec \<Rightarrow> vec \<Rightarrow> nat \<Rightarrow> nat \<Rightarrow> gf64_t list list \<Rightarrow> gf64_t list list" where
  "muladd_quad_avx512 in_vec coeff_bc k i outs =
    (let prod = clmulepi64 in_vec coeff_bc 0x00;
         (lo_v, hi_v) = gf64_split_prod_512 prod;
         red = gf64_reduce_512 lo_v hi_v;
         prev = maskz_loadu (mask8 0x0F) (outs ! k) i
     in outs[k := mask_storeu (outs ! k) i (mask8 0x0F) (vxor prev red)])"

definition fused_chunk_avx512 ::
  "gf64_t list \<Rightarrow> gf64_t list list \<Rightarrow> nat \<Rightarrow> nat \<Rightarrow> nat \<Rightarrow> gf64_t list list \<Rightarrow> gf64_t list list" where
  "fused_chunk_avx512 inp coeff_block_starts len K kb outs =
    (let k_base = 256 * kb;
         chunk_K = K - k_base;
         chunk_K = if chunk_K > 256 then 256 else chunk_K;
         active = fold (\<lambda>k active.
             let c = coeff_block_starts ! (k_base + k) ! 0
             in if c \<noteq> 0 then active @ [(vset1 8 c, k_base + k)] else active) [0..<chunk_K] []
     in if active = [] then outs
        else let blocks = len div 4;
                 outs = fold (\<lambda>b outs.
                     let i = 4 * b;
                         in_vec = maskz_expandloadu (mask8 0x55) inp i
                     in fold (\<lambda>(coeff_bc, k) outs. muladd_quad_avx512 in_vec coeff_bc k i outs)
                          active outs) [0..<blocks] outs
             in fold (\<lambda>i outs.
                    let in_w = inp ! i
                    in fold (\<lambda>(coeff_bc, k) outs. outs[k := (outs ! k)[i := outs ! k ! i XOR
                           gf64_mul_reference in_w (coeff_block_starts ! k ! 0)]]) active outs)
                  [4 * blocks..<len] outs)"

definition gf64_region_fused_output_muladd_avx512_arr ::
  "gf64_t list list \<Rightarrow> gf64_t list \<Rightarrow> gf64_t list list \<Rightarrow> nat \<Rightarrow> nat \<Rightarrow> gf64_t list list" where
  "gf64_region_fused_output_muladd_avx512_arr outs inp coeff_block_starts len K =
    (if K = 0 \<or> len = 0 then outs
     else fold (fused_chunk_avx512 inp coeff_block_starts len K) [0..<(K + 255) div 256] outs)"

definition gf64_region_2d_muladd_avx512_arr ::
  "gf64_t list list \<Rightarrow> nat \<Rightarrow> gf64_t list list \<Rightarrow> nat \<Rightarrow> gf64_t list \<Rightarrow> nat \<Rightarrow> nat \<Rightarrow>
    gf64_t list list" where
  "gf64_region_2d_muladd_avx512_arr outs K in_blocks G coeff_block_2d K_stride len =
    fold (\<lambda>g outs.
        let blocks = len div 4;
            outs = fold (\<lambda>b outs.
                let i = 4 * b;
                    in_vec = maskz_expandloadu (mask8 0x55) (in_blocks ! g) i
                in fold (\<lambda>k outs.
                       let coeff_bc = vset1 8 (coeff_block_2d ! (k * K_stride + g))
                       in muladd_quad_avx512 in_vec coeff_bc k i outs) [0..<K] outs) [0..<blocks] outs
        in fold (\<lambda>i outs.
               let in_w = in_blocks ! g ! i
               in fold (\<lambda>k outs. outs[k := (outs ! k)[i := outs ! k ! i XOR
                      gf64_mul_reference in_w (coeff_block_2d ! (k * K_stride + g))]]) [0..<K] outs)
             [4 * blocks..<len] outs)
      [0..<G] outs"

section \<open>Four products\<close>

lemma vset1_8: "vset1 8 c = [c, c, c, c, c, c, c, c]"
  by (simp add: vset1_def numeral_eq_Suc)

lemma masks:
  "mask8 0x55 = [True, False, True, False, True, False, True, False]"
  "mask8 0x0F = [True, True, True, True, False, False, False, False]"
  by (simp_all add: mask8_def upt_conv_Cons bit_0)

lemma expand_load:
  "maskz_expandloadu (mask8 0x55) inp i =
    [inp ! i, 0, inp ! (i + 1), 0, inp ! (i + 2), 0, inp ! (i + 3), 0]"
  by (simp add: masks Suc_numeral_shift)

lemma reduce_512_eq: "gf64_reduce_512 = gf64_reduce_mul_512"
  by (intro ext) (simp add: gf64_reduce_512_def gf64_reduce_mul_512_def gf64_reduce_canary_def Let_def)

text \<open>Lanes 4 to 7 of a split repeat lane 0 of the product; nothing reads them.\<close>

lemma split_quad:
  "gf64_split_prod_512 (clmulepi64 [x0, 0, x1, 0, x2, 0, x3, 0] [c0, d0, c1, d1, c2, d2, c3, d3] 0x00) =
    ([ucast (clmul64 x0 c0), ucast (clmul64 x1 c1), ucast (clmul64 x2 c2), ucast (clmul64 x3 c3),
      ucast (clmul64 x0 c0), ucast (clmul64 x0 c0), ucast (clmul64 x0 c0), ucast (clmul64 x0 c0)],
     [ucast (drop_bit 64 (clmul64 x0 c0)), ucast (drop_bit 64 (clmul64 x1 c1)),
      ucast (drop_bit 64 (clmul64 x2 c2)), ucast (drop_bit 64 (clmul64 x3 c3)),
      ucast (clmul64 x0 c0), ucast (clmul64 x0 c0), ucast (clmul64 x0 c0), ucast (clmul64 x0 c0)])"
  by (simp add: gf64_split_prod_512_def Let_def mm512_permutex2var_epi64_def clmulepi64.simps)

lemma quad_product:
  "take 4 (case gf64_split_prod_512 (clmulepi64 [x0, 0, x1, 0, x2, 0, x3, 0] [c0, d0, c1, d1, c2, d2, c3, d3] 0x00) of
     (lo_v, hi_v) \<Rightarrow> gf64_reduce_512 lo_v hi_v) =
    [gf64_mul_reference x0 c0, gf64_mul_reference x1 c1, gf64_mul_reference x2 c2,
     gf64_mul_reference x3 c3]"
  "length (case gf64_split_prod_512 (clmulepi64 [x0, 0, x1, 0, x2, 0, x3, 0] [c0, d0, c1, d1, c2, d2, c3, d3] 0x00) of
     (lo_v, hi_v) \<Rightarrow> gf64_reduce_512 lo_v hi_v) = 8"
  by (simp_all add: split_quad reduce_512_eq vreduce_lanes
      flip: gf64_mul_single_eq_reference gf64_mul_single_reduce)

text \<open>The masked store writes four lanes, and the masked load reads four.\<close>

lemma mask_storeu_0F:
  assumes "length v = 8"
  shows "mask_storeu out i (mask8 0x0F) v = vstoreu out i (take 4 v)"
proof -
  have u: "[0..<8::nat] = [0, 1, 2, 3, 4, 5, 6, 7]" "[0..<4::nat] = [0, 1, 2, 3]"
    by (simp_all add: upt_conv_Cons)
  show ?thesis
    using assms by (simp add: mask_storeu_def vstoreu_def masks u)
qed

lemma upt_8: "[0..<8::nat] = [0, 1, 2, 3, 4, 5, 6, 7]" "[0..<4::nat] = [0, 1, 2, 3]"
  by (simp_all add: upt_conv_Cons)

lemma masked_update:
  assumes "length v = 8"
  shows "mask_storeu out i (mask8 0x0F) (vxor (maskz_loadu (mask8 0x0F) mem i) v) =
    vstoreu out i (vxor (vloadu 4 mem i) (take 4 v))"
proof -
  from assms obtain a b c d e f g h where v: "v = [a, b, c, d, e, f, g, h]"
    by (auto simp: length_Suc_conv numeral_eq_Suc)
  have l: "maskz_loadu (mask8 0x0F) mem i = [mem ! i, mem ! (i + 1), mem ! (i + 2), mem ! (i + 3), 0, 0, 0, 0]"
    by (simp add: maskz_loadu_def masks upt_8 numeral_2_eq_2 numeral_3_eq_3)
  show ?thesis
    by (subst mask_storeu_0F) (simp_all add: l v vxor_def vloadu_def upt_8 numeral_2_eq_2 numeral_3_eq_3)
qed

section \<open>Agreement with the scalar kernels\<close>

lemma setepi64: "mm512_set_epi64 0 x3 0 x2 0 x1 0 x0 = [x0, 0, x1, 0, x2, 0, x3, 0]"
  "mm512_set_epi64 d3 c3 d2 c2 d1 c1 d0 c0 = [c0, d0, c1, d1, c2, d2, c3, d3]"
  by (simp_all add: mm512_set_epi64_def)

lemma vstoreu_quad:
  "vstoreu out i [g i, g (i + 1), g (i + 2), g (i + 3)] = fold (\<lambda>i out. out[i := g i]) [i..<i + 4] out"
proof -
  have "map (\<lambda>k. g (i + k)) [0..<4] = [g i, g (i + 1), g (i + 2), g (i + 3)]"
    by (simp add: upt_conv_Cons Suc_numeral_shift)
  then show ?thesis using vstoreu_map [of out i g 4] by simp
qed

lemma store_products:
  "(case gf64_split_prod_512 (clmulepi64 [x0, 0, x1, 0, x2, 0, x3, 0] [c0, d0, c1, d1, c2, d2, c3, d3] 0x00) of
     (lo_v, hi_v) \<Rightarrow> mask_storeu out i (mask8 0x0F) (gf64_reduce_512 lo_v hi_v)) =
    vstoreu out i [gf64_mul_reference x0 c0, gf64_mul_reference x1 c1, gf64_mul_reference x2 c2,
     gf64_mul_reference x3 c3]"
  using quad_product [of x0 x1 x2 x3 c0 d0 c1 d1 c2 d2 c3 d3]
  by (simp add: mask_storeu_0F split: prod.splits)

lemmas store_split = store_products [unfolded split_quad prod.case]

lemma region_mul_avx512_arr_eq:
  "gf64_region_mul_avx512_arr out inp coeff len n_coeff =
    gf64_region_mul_scalar_arr out inp coeff len n_coeff"
proof (cases "n_coeff = 1")
  case True
  let ?g = "\<lambda>i. gf64_mul_reference (inp ! i) (coeff ! 0)"
  have two: "vstoreu (vstoreu out i [?g i, ?g (i + 1), ?g (i + 2), ?g (i + 3)])
      (i + 4) [?g (i + 4), ?g (i + 4 + 1), ?g (i + 4 + 2), ?g (i + 4 + 3)] =
      fold (\<lambda>i out. out[i := ?g i]) [i..<i + 8] out" for i out
    unfolding vstoreu_quad [of _ _ ?g] by (subst fold_upt_append) (simp_all add: add.assoc)
  show ?thesis
    unfolding gf64_region_mul_avx512_arr_def if_P [OF True] Let_def expand_load vset1_8
      split_quad prod.case store_split two
    by (subst fold_blocks_tail [OF refl]) (simp add: gf64_region_mul_scalar_arr_def True)
next
  case False
  let ?g = "\<lambda>i. gf64_mul_reference (inp ! i) (coeff ! (i mod n_coeff))"
  show ?thesis
    unfolding gf64_region_mul_avx512_arr_def if_not_P [OF False] Let_def setepi64(2) add_0_right
      store_products vstoreu_quad [of _ _ ?g]
    by (subst fold_blocks_tail [OF refl]) (simp add: gf64_region_mul_scalar_arr_def)
qed

lemma extract_quad:
  fixes x0 x1 x2 x3 c :: gf64_t
  defines "p \<equiv> clmulepi64 [x0, 0, x1, 0, x2, 0, x3, 0] [c, c, c, c, c, c, c, c] 0x00"
  shows "gf64_reduce_128 (mm_cvtsi128_si64 (extract_block p 0)) (mm_cvtsi128_si64 (mm_srli_si128_8 (extract_block p 0))) = gf64_mul_reference x0 c"
    "gf64_reduce_128 (mm_cvtsi128_si64 (extract_block p 1)) (mm_cvtsi128_si64 (mm_srli_si128_8 (extract_block p 1))) = gf64_mul_reference x1 c"
    "gf64_reduce_128 (mm_cvtsi128_si64 (extract_block p 2)) (mm_cvtsi128_si64 (mm_srli_si128_8 (extract_block p 2))) = gf64_mul_reference x2 c"
    "gf64_reduce_128 (mm_cvtsi128_si64 (extract_block p 3)) (mm_cvtsi128_si64 (mm_srli_si128_8 (extract_block p 3))) = gf64_mul_reference x3 c"
  by (simp_all add: p_def extract_block_def simd_defs gf64_reduce_128_eq clmulepi64.simps Let_def
      flip: gf64_mul_single_eq_reference gf64_mul_single_reduce)

lemma region_mul_avx512_eq:
  "gf64_region_mul_avx512 out inp len constant = gf64_region_mul_scalar out inp len constant"
proof -
  let ?g = "\<lambda>i. gf64_mul_reference (inp ! i) constant"
  have eight: "out[i + 0 := ?g (i + 0), i + 1 := ?g (i + 1), i + 2 := ?g (i + 2), i + 3 := ?g (i + 3),
      i + 4 := ?g (i + 4), i + 5 := ?g (i + 5), i + 6 := ?g (i + 6), i + 7 := ?g (i + 7)] =
      fold (\<lambda>i out. out[i := ?g i]) [i..<i + 8] out" for i out
    using fold_upt_shift [of "\<lambda>i out. out[i := ?g i]" i 8 out] by (simp add: upt_conv_Cons Suc_numeral_shift)
  show ?thesis
    unfolding gf64_region_mul_avx512_def Let_def setepi64 vset1_8 extract_quad eight
    by (subst fold_blocks_tail [OF refl]) (simp add: gf64_region_mul_scalar_def)
qed

text \<open>The accumulated quad: lanes 0 to 3 carry the sums, the others are never stored.\<close>

lemma reduce_512_lanes:
  "length lo_vec = 8 \<Longrightarrow> length hi_vec = 8 \<Longrightarrow> gf64_reduce_512 lo_vec hi_vec = map2 reduce_tail lo_vec hi_vec"
  unfolding reduce_512_eq by (rule vreduce_lanes) auto

text \<open>The invariant of the accumulation: lane \<open>k\<close> holds the unreduced sum of element \<open>k\<close>.\<close>

definition quad_sums :: "gf64_t list \<Rightarrow> gf64_t list \<Rightarrow> nat \<Rightarrow> nat \<Rightarrow> vec \<times> vec \<Rightarrow> bool" where
  "quad_sums inp coeff i n acc \<longleftrightarrow> length (fst acc) = 8 \<and> length (snd acc) = 8 \<and>
    (\<forall>k<4. Gf (fst acc ! k) + gfx ^ 64 * Gf (snd acc ! k) =
      (\<Sum>c=0..<n. Gf (inp ! (i + k)) * Gf (coeff ! c)))"

lemma quad_sums_0: "quad_sums inp coeff i 0 (vset1 8 0, vset1 8 0)"
  by (simp add: quad_sums_def vset1_def)

lemma less_4_cases: "k < 4 \<Longrightarrow> k = 0 \<or> k = 1 \<or> k = 2 \<or> k = (3::nat)"
  by auto

lemma quad_sums_Suc:
  assumes "quad_sums inp coeff i n (lo, hi)"
    and "gf64_split_prod_512 (clmulepi64 [inp ! i, 0, inp ! (i + 1), 0, inp ! (i + 2), 0, inp ! (i + 3), 0]
      (vset1 8 (coeff ! n)) 0x00) = (lo_v, hi_v)"
  shows "quad_sums inp coeff i (Suc n) (vxor lo lo_v, vxor hi hi_v)"
proof -
  let ?p = "\<lambda>k. clmul64 (inp ! (i + k)) (coeff ! n)"
  have v: "length lo_v = 8" "length hi_v = 8"
    "\<And>k. k < 4 \<Longrightarrow> lo_v ! k = ucast (?p k) \<and> hi_v ! k = ucast (drop_bit 64 (?p k))"
    using assms(2) unfolding vset1_8 split_quad by (auto dest!: less_4_cases)
  have "Gf (vxor lo lo_v ! k) + gfx ^ 64 * Gf (vxor hi hi_v ! k) =
      (\<Sum>c=0..<Suc n. Gf (inp ! (i + k)) * Gf (coeff ! c))" if "k < 4" for k
  proof -
    have "Gf (lo ! k) + gfx ^ 64 * Gf (hi ! k) = (\<Sum>c=0..<n. Gf (inp ! (i + k)) * Gf (coeff ! c))"
      using assms(1) that by (simp add: quad_sums_def)
    moreover have e: "Gf (inp ! (i + k)) * Gf (coeff ! n) =
        Gf (ucast (?p k)) + gfx ^ 64 * Gf (ucast (drop_bit 64 (?p k)))"
      unfolding gf128_clmul64 [symmetric] gf128_def ..
    moreover have "vxor lo lo_v ! k = lo ! k XOR ucast (?p k)"
      "vxor hi hi_v ! k = hi ! k XOR ucast (drop_bit 64 (?p k))"
      using assms(1) v that by (auto simp: quad_sums_def)
    ultimately show ?thesis
      unfolding sum.atLeast0_lessThan_Suc e
      by (simp add: Gf_xor distrib_left add.assoc add.left_commute)
  qed
  then show ?thesis
    using assms(1) v by (simp add: quad_sums_def)
qed

lemma muladd_quad_acc_eq:
  "muladd_quad_acc_avx512 inp coeff n_coeff i out = acc_row out
    (\<lambda>j. if i \<le> j \<and> j < i + 4 then \<Sum>c=0..<n_coeff. Gf (inp ! j) * Gf (coeff ! c) else 0)"
proof -
  let ?in = "[inp ! i, 0, inp ! (i + 1), 0, inp ! (i + 2), 0, inp ! (i + 3), 0]"
  let ?f = "\<lambda>c (acc_lo, acc_hi). let coeff_bc = vset1 8 (coeff ! c);
      prod = clmulepi64 ?in coeff_bc 0x00;
      lo_v = mm512_permutex2var_epi64 prod [0, 2, 4, 6, 0, 0, 0, 0] (vset1 8 0);
      hi_v = mm512_permutex2var_epi64 prod [1, 3, 5, 7, 0, 0, 0, 0] (vset1 8 0)
    in (vxor acc_lo lo_v, vxor acc_hi hi_v)"
  have inv: "quad_sums inp coeff i n (fold ?f [0..<n] (vset1 8 0, vset1 8 0))" for n
  proof (induction n)
    case (Suc n)
    obtain lo hi where *: "fold ?f [0..<n] (vset1 8 0, vset1 8 0) = (lo, hi)"
      by (rule prod.exhaust)
    show ?case
      unfolding fold_upt_Suc [OF zero_le] * [unfolded Let_def] prod.case Let_def
      by (rule quad_sums_Suc [OF Suc.IH [unfolded *]]) (simp only: gf64_split_prod_512_def Let_def)
  qed (simp add: quad_sums_0)
  obtain lo hi where *: "fold ?f [0..<n_coeff] (vset1 8 0, vset1 8 0) = (lo, hi)"
    by (rule prod.exhaust)
  have q: "quad_sums inp coeff i n_coeff (lo, hi)" using inv [of n_coeff] * by simp
  let ?v = "gf64_reduce_512 lo hi"
  have v: "length ?v = 8" "\<And>k. k < 4 \<Longrightarrow> Gf (?v ! k) =
      (\<Sum>c=0..<n_coeff. Gf (inp ! (i + k)) * Gf (coeff ! c))"
    using q by (auto simp: quad_sums_def reduce_512_lanes Gf_reduce_tail)
  have "muladd_quad_acc_avx512 inp coeff n_coeff i out = vstoreu out i (vxor (vloadu 4 out i) (take 4 ?v))"
    unfolding muladd_quad_acc_avx512_def Let_def expand_load * [unfolded Let_def] prod.case
    by (rule masked_update [OF v(1)])
  also have "\<dots> = acc_row out (\<lambda>j. if i \<le> j \<and> j < i + 4 then Gf (take 4 ?v ! (j - i)) else 0)"
    by (rule vstoreu_acc_row) (simp add: v)
  also have "\<dots> = acc_row out
    (\<lambda>j. if i \<le> j \<and> j < i + 4 then \<Sum>c=0..<n_coeff. Gf (inp ! j) * Gf (coeff ! c) else 0)"
    by (rule acc_row_cong) (use v(2) in auto)
  finally show ?thesis .
qed

lemma masked_product:
  "mask_storeu out i (mask8 0x0F) (vxor (maskz_loadu (mask8 0x0F) mem i)
     (case gf64_split_prod_512 (clmulepi64 [x0, 0, x1, 0, x2, 0, x3, 0] [c, c, c, c, c, c, c, c] 0x00) of
       (lo_v, hi_v) \<Rightarrow> gf64_reduce_512 lo_v hi_v)) =
    vstoreu out i (vxor (vloadu 4 mem i) [gf64_mul_reference x0 c, gf64_mul_reference x1 c,
      gf64_mul_reference x2 c, gf64_mul_reference x3 c])"
  by (subst masked_update) (simp_all only: quad_product)

lemma map_upt_4: "map f [0..<4] = [f 0, f 1, f 2, f (3::nat)]"
  by (simp add: upt_8)

lemma region_muladd_avx512_arr_eq: "gf64_region_muladd_avx512_arr out inp coeff len n_coeff =
    gf64_region_muladd_scalar_arr out inp coeff len n_coeff"
proof (cases "n_coeff = 1")
  case True
  let ?g = "\<lambda>i. gf64_mul_reference (inp ! i) (coeff ! 0)"
  let ?block = "\<lambda>b out. let i = 32 * b;
          prod = map (\<lambda>s. clmulepi64 (maskz_expandloadu (mask8 0x55) inp (i + 4 * s))
              (vset1 8 (coeff ! 0)) 0x00) [0..<8];
          prev = map (\<lambda>s. maskz_loadu (mask8 0x0F) out (i + 4 * s)) [0..<8];
          red = map (\<lambda>s. case gf64_split_prod_512 (prod ! s) of
              (lo_v, hi_v) \<Rightarrow> gf64_reduce_512 lo_v hi_v) [0..<8]
        in fold (\<lambda>s out. mask_storeu out (i + 4 * s) (mask8 0x0F)
             (vxor (prev ! s) (red ! s))) [0..<8] out"
  have block: "?block b out = acc_row out (\<lambda>j. if 32 * b \<le> j \<and> j < 32 * b + 32 then Gf (?g j) else 0)" for b out
  proof -
    have "?block b out = fold (\<lambda>s mem. vstoreu mem (32 * b + 4 * s)
        (vxor (vloadu 4 out (32 * b + 4 * s))
          [?g (32 * b + 4 * s), ?g (32 * b + 4 * s + 1), ?g (32 * b + 4 * s + 2),
           ?g (32 * b + 4 * s + 3)])) [0..<8] out"
      unfolding Let_def
      by (rule fold_cong_upt) (simp only: nth_map_upt add_0 less_nat_zero_code diff_zero
          expand_load vset1_8 masked_product length_upt nth_upt)
    also have "\<dots> = acc_row out (\<lambda>j. if 32 * b \<le> j \<and> j < 32 * b + 4 * 8 then Gf (?g j) else 0)"
      by (rule streams_acc_row [where g = ?g]) (simp add: map_upt_4)
    finally show ?thesis by simp
  qed
  have "gf64_region_muladd_avx512_arr out inp coeff len n_coeff =
      acc_row out (\<lambda>j. if j < len then Gf (?g j) else 0)"
    unfolding gf64_region_muladd_avx512_arr_def if_P [OF True] Let_def [of "coeff ! 0"]
      Let_def [of "vset1 8 _"] Let_def [of "_ div _"] Let_def [of "fold _ _ _"]
    by (rule acc_blocks_tail [OF block]) (rule refl)
  then show ?thesis
    by (simp add: muladd_scalar_acc True Gf_mul_reference cong: if_cong)
next
  case False
  let ?F = "\<lambda>j. \<Sum>c=0..<n_coeff. Gf (inp ! j) * Gf (coeff ! c)"
  have "gf64_region_muladd_avx512_arr out inp coeff len n_coeff =
      acc_row out (\<lambda>j. if j < len then ?F j else 0)"
    unfolding gf64_region_muladd_avx512_arr_def if_not_P [OF False]
      Let_def [of "_ div _"] Let_def [of "fold _ _ _"]
    by (rule acc_blocks_tail [OF muladd_quad_acc_eq]) (simp add: Gf_xor_sum Gf_mul_reference)
  then show ?thesis
    by (simp only: muladd_scalar_acc)
qed

lemma region_coupled_muladd_avx512_arr_eq:
  "gf64_region_coupled_muladd_avx512_arr out in_blocks coeff_blocks len G =
    gf64_region_coupled_muladd_scalar_arr out in_blocks coeff_blocks len G"
  by (simp add: gf64_region_coupled_muladd_avx512_arr_def gf64_region_coupled_muladd_scalar_arr_def
      region_muladd_avx512_arr_eq)

text \<open>Four columns of one output, and of all the outputs of a list.\<close>

lemma quad_rows_512:
  "muladd_quad_avx512 (maskz_expandloadu (mask8 0x55) inp i) (vset1 8 c) k i outs =
    acc_rows outs (\<lambda>k' j. if k' = k then if i \<le> j \<and> j < i + 4 then Gf (inp ! j) * Gf c else 0 else 0)"
proof -
  let ?v = "[gf64_mul_reference (inp ! i) c, gf64_mul_reference (inp ! (i + 1)) c,
    gf64_mul_reference (inp ! (i + 2)) c, gf64_mul_reference (inp ! (i + 3)) c]"
  have "muladd_quad_avx512 (maskz_expandloadu (mask8 0x55) inp i) (vset1 8 c) k i outs =
      outs[k := vstoreu (outs ! k) i (vxor (vloadu 4 (outs ! k) i) ?v)]"
    unfolding muladd_quad_avx512_def Let_def expand_load vset1_8
    using masked_product [of "outs ! k" i "outs ! k"] by (simp only: split_quad prod.case)
  also have "\<dots> = acc_rows outs
      (\<lambda>k' j. if k' = k then if i \<le> j \<and> j < i + 4 then Gf (?v ! (j - i)) else 0 else 0)"
    by (rule update_acc_rows [where f = "\<lambda>row. vstoreu row i (vxor (vloadu 4 row i) ?v)"])
      (rule vstoreu_acc_row, simp)
  also have "\<dots> = acc_rows outs
      (\<lambda>k' j. if k' = k then if i \<le> j \<and> j < i + 4 then Gf (inp ! j) * Gf c else 0 else 0)"
  proof (rule acc_rows_cong)
    fix k' j
    have "Gf (?v ! (j - i)) = Gf (inp ! j) * Gf c" if "i \<le> j" "j < i + 4"
    proof -
      from that obtain d where "j = i + d" "d < 4" by (metis add_less_cancel_left le_iff_add)
      then show ?thesis using less_4_cases [of d] by (auto simp: Gf_mul_reference)
    qed
    then show "(if k' = k then if i \<le> j \<and> j < i + 4 then Gf (?v ! (j - i)) else 0 else 0) =
        (if k' = k then if i \<le> j \<and> j < i + 4 then Gf (inp ! j) * Gf c else 0 else 0)" by simp
  qed
  finally show ?thesis .
qed

lemma fold_quad_rows_512:
  assumes "distinct ks"
  shows "fold (\<lambda>k outs. muladd_quad_avx512 (maskz_expandloadu (mask8 0x55) inp i) (vset1 8 (c k)) k i outs) ks outs =
    acc_rows outs (\<lambda>k j. if i \<le> j \<and> j < i + 4 then list_products ks (\<lambda>i. inp ! i) c k j else 0)"
  by (subst fold_acc_rows [OF quad_rows_512])
    (rule acc_rows_cong, simp add: sum_list_indicator [OF assms])

lemma fold_quad_rows_512_upt:
  "fold (\<lambda>k outs. muladd_quad_avx512 (maskz_expandloadu (mask8 0x55) inp i) (vset1 8 (c k)) k i outs) [0..<K] outs =
    acc_rows outs (\<lambda>k j. if i \<le> j \<and> j < i + 4 then add_products K (\<lambda>i. inp ! i) c k j else 0)"
  unfolding fold_quad_rows_512 [OF distinct_upt] by (rule acc_rows_cong) simp

lemma region_fused_avx512_arr_eq:
  "gf64_region_fused_output_muladd_avx512_arr outs inp coeff_block_starts len K =
    gf64_region_fused_output_muladd_scalar_arr outs inp coeff_block_starts len K"
proof (cases "K = 0 \<or> len = 0")
  case True
  then show ?thesis
    unfolding gf64_region_fused_output_muladd_avx512_arr_def if_P [OF True] fused_scalar_acc
    by - (rule trans [OF acc_rows_0 [symmetric]], rule acc_rows_cong, auto)
next
  case False
  have chunk: "fused_chunk_avx512 inp coeff_block_starts len K kb outs = acc_rows outs (\<lambda>k j. if j < len
      then list_products (active_indices coeff_block_starts K kb) (\<lambda>i. inp ! i)
        (\<lambda>k. coeff_block_starts ! k ! 0) k j else 0)" for kb outs
    unfolding fused_chunk_avx512_def Let_def active_list [of "\<lambda>k. coeff_block_starts ! k ! 0", unfolded Let_def] map_is_Nil_conv
      active_indices_def [symmetric] fold_map comp_def prod.case
    by (subst acc_rows_blocks_tail [OF fold_quad_rows_512 [OF distinct_active]
            fold_column_list [OF distinct_active]])
      (simp, intro impI, rule trans [OF acc_rows_0 [symmetric]], rule acc_rows_cong, simp)
  show ?thesis
    unfolding gf64_region_fused_output_muladd_avx512_arr_def if_not_P [OF False]
    by (rule fused_chunks_scalar) (rule chunk)
qed

lemma region_2d_avx512_arr_eq:
  "gf64_region_2d_muladd_avx512_arr outs K in_blocks G coeff_block_2d K_stride len =
    gf64_region_2d_muladd_scalar_arr outs K in_blocks G coeff_block_2d K_stride len"
  unfolding gf64_region_2d_muladd_avx512_arr_def Let_def two_d_rows [symmetric]
  by (subst block_rows_tail [where x = "\<lambda>i. in_blocks ! g ! i" for g,
        OF fold_quad_rows_512_upt]) (rule refl)

end
