(* ===== verification/Region_Kernels.thy ===== *)
theory Region_Kernels
  imports Region_AVX512
begin

text \<open>
  The contract of the six region kernels behind the function pointers of gf64/gf64_dispatch.c, as
  a locale: what a client of the pointers (the encoder, the solver, the repair path) may rely on,
  whatever instruction set is bound. Its laws are stated in the field, so the client's lemmas
  (a second pass undoes the first, contributions commute, one pass over two inputs is two passes)
  are proved once. The interpretations discharge the laws for the four implementations.
\<close>

locale region_kernels =
  fixes mul :: "gf64_t list \<Rightarrow> gf64_t list \<Rightarrow> nat \<Rightarrow> gf64_t \<Rightarrow> gf64_t list"
    and mul_arr :: "gf64_t list \<Rightarrow> gf64_t list \<Rightarrow> gf64_t list \<Rightarrow> nat \<Rightarrow> nat \<Rightarrow> gf64_t list"
    and muladd_arr :: "gf64_t list \<Rightarrow> gf64_t list \<Rightarrow> gf64_t list \<Rightarrow> nat \<Rightarrow> nat \<Rightarrow> gf64_t list"
    and coupled_arr :: "gf64_t list \<Rightarrow> gf64_t list list \<Rightarrow> gf64_t list \<Rightarrow> nat \<Rightarrow> nat \<Rightarrow> gf64_t list"
    and fused_arr :: "gf64_t list list \<Rightarrow> gf64_t list \<Rightarrow> gf64_t list list \<Rightarrow> nat \<Rightarrow> nat \<Rightarrow> gf64_t list list"
    and two_d_arr :: "gf64_t list list \<Rightarrow> nat \<Rightarrow> gf64_t list list \<Rightarrow> nat \<Rightarrow> gf64_t list \<Rightarrow> nat \<Rightarrow> nat \<Rightarrow> gf64_t list list"
  assumes mul: "len \<le> length out \<Longrightarrow> mul out inp len c =
      map (\<lambda>i. gf_rep (Gf (inp ! i) * Gf c)) [0..<len] @ drop len out"
    and mul_arr: "len \<le> length out \<Longrightarrow> mul_arr out inp coeff len n =
      map (\<lambda>i. gf_rep (Gf (inp ! i) * Gf (coeff ! (i mod n)))) [0..<len] @ drop len out"
    and muladd: "muladd_arr out inp coeff len n =
      acc_row out (\<lambda>i. if i < len then \<Sum>c=0..<n. Gf (inp ! i) * Gf (coeff ! c) else 0)"
    and coupled: "G \<le> length cs \<Longrightarrow> coupled_arr out ins cs len G =
      acc_row out (\<lambda>i. if i < len then \<Sum>g=0..<G. Gf (ins ! g ! i) * Gf (cs ! g) else 0)"
    and fused: "fused_arr outs inp starts len K =
      acc_rows outs (\<lambda>k i. if i < len \<and> k < K then Gf (inp ! i) * Gf (starts ! k ! 0) else 0)"
    and two_d: "two_d_arr outs K ins G c2d stride len =
      acc_rows outs (\<lambda>k i. if i < len \<and> k < K
        then \<Sum>g=0..<G. Gf (ins ! g ! i) * Gf (c2d ! (k * stride + g)) else 0)"
begin

lemma length_mul: "len \<le> length out \<Longrightarrow> length (mul out inp len c) = length out"
  by (simp add: mul)

lemma length_muladd: "length (muladd_arr out inp coeff len n) = length out"
  by (simp add: muladd)

text \<open>Adding the same contribution twice removes it: repair undoes encoding.\<close>

lemma muladd_twice: "muladd_arr (muladd_arr out inp coeff len n) inp coeff len n = out"
  by (rule nth_equalityI) (simp_all add: muladd)

lemma muladd_commute:
  "muladd_arr (muladd_arr out inp coeff len n) inp' coeff' len' n' =
    muladd_arr (muladd_arr out inp' coeff' len' n') inp coeff len n"
  unfolding muladd acc_row_acc_row by (rule acc_row_cong) (rule add.commute)

text \<open>A multiplication is a \<open>muladd\<close> into zeros.\<close>

lemma mul_is_muladd:
  assumes "len = length out"
  shows "mul out inp len c = muladd_arr (replicate len 0) inp [c] len 1"
  by (rule nth_equalityI) (simp_all add: mul muladd assms)

text \<open>The coupled kernel is the single one repeated, and its inputs may come in any order.\<close>

lemma coupled_Suc:
  assumes "G < length cs"
  shows "coupled_arr out ins cs len (Suc G) =
    muladd_arr (coupled_arr out ins cs len G) (ins ! G) [cs ! G] len 1"
  using assms by (auto simp: coupled muladd intro!: acc_row_cong)

lemma coupled_append:
  assumes "length ins = length cs" and "length ins' = length cs'"
  shows "coupled_arr (coupled_arr out ins cs len (length cs)) ins' cs' len (length cs') =
    coupled_arr out (ins @ ins') (cs @ cs') len (length cs + length cs')"
proof -
  have split: "{0..<a + b} = {0..<a} \<union> {a..<a + b}" for a b :: nat by auto
  have "(\<Sum>g=0..<length cs + length cs'. Gf ((ins @ ins') ! g ! i) * Gf ((cs @ cs') ! g)) =
      (\<Sum>g=0..<length cs. Gf (ins ! g ! i) * Gf (cs ! g)) +
      (\<Sum>g=0..<length cs'. Gf (ins' ! g ! i) * Gf (cs' ! g))" for i
  proof -
    have "(\<Sum>g=length cs..<length cs + length cs'. Gf ((ins @ ins') ! g ! i) * Gf ((cs @ cs') ! g)) =
        (\<Sum>g=0..<length cs'. Gf (ins' ! g ! i) * Gf (cs' ! g))"
      using sum.shift_bounds_nat_ivl [of "\<lambda>g. Gf ((ins @ ins') ! g ! i) * Gf ((cs @ cs') ! g)"
          0 "length cs" "length cs'"] assms by (simp add: nth_append add.commute)
    moreover have "(\<Sum>g=0..<length cs. Gf ((ins @ ins') ! g ! i) * Gf ((cs @ cs') ! g)) =
        (\<Sum>g=0..<length cs. Gf (ins ! g ! i) * Gf (cs ! g))"
      using assms by (intro sum.cong) (simp_all add: nth_append)
    ultimately show ?thesis by (simp add: split sum.union_disjoint)
  qed
  then show ?thesis
    unfolding coupled [OF order.refl] by (subst coupled) (auto intro!: acc_row_cong)
qed

text \<open>Each output of the two-dimensional kernel is a coupled kernel on its row of coefficients.\<close>

lemma two_d_row:
  assumes "k < K" "k < length outs" "k * stride + G \<le> length c2d"
  shows "two_d_arr outs K ins G c2d stride len ! k =
    coupled_arr (outs ! k) ins (drop (k * stride) c2d) len G"
proof -
  have "G \<le> length (drop (k * stride) c2d)" using assms by simp
  then show ?thesis
    using assms by (auto simp: two_d coupled intro!: acc_row_cong sum.cong)
qed

lemma fused_row:
  assumes "k < K" "k < length outs"
  shows "fused_arr outs inp starts len K ! k = muladd_arr (outs ! k) inp (starts ! k) len 1"
  using assms by (auto simp: fused muladd intro!: acc_row_cong)

lemma fused_twice: "fused_arr (fused_arr outs inp starts len K) inp starts len K = outs"
  by (rule nth_equalityI) (auto simp: fused intro!: nth_equalityI)

end

interpretation scalar: region_kernels gf64_region_mul_scalar gf64_region_mul_scalar_arr
  gf64_region_muladd_scalar_arr gf64_region_coupled_muladd_scalar_arr
  gf64_region_fused_output_muladd_scalar_arr gf64_region_2d_muladd_scalar_arr
  by unfold_locales (simp_all only: gf64_region_mul_scalar_eq gf64_region_mul_scalar_arr_eq
      muladd_scalar_acc coupled_scalar_acc fused_scalar_acc two_d_scalar_acc
      Gf_mul_reference [symmetric] gf.sel)

interpretation ssse3: region_kernels gf64_region_mul_ssse3 gf64_region_mul_ssse3_arr
  gf64_region_muladd_ssse3_arr gf64_region_coupled_muladd_ssse3_arr
  gf64_region_fused_output_muladd_ssse3_arr gf64_region_2d_muladd_ssse3_arr
  by unfold_locales (simp_all only: region_mul_ssse3_eq region_mul_ssse3_arr_eq
      region_muladd_ssse3_arr_eq region_coupled_muladd_ssse3_arr_eq region_fused_ssse3_arr_eq
      region_2d_ssse3_arr_eq scalar.mul scalar.mul_arr scalar.muladd scalar.coupled
      scalar.fused scalar.two_d)

interpretation avx2: region_kernels gf64_region_mul_avx2 gf64_region_mul_avx2_arr
  gf64_region_muladd_avx2_arr gf64_region_coupled_muladd_avx2_arr
  gf64_region_fused_output_muladd_avx2_arr gf64_region_2d_muladd_avx2_arr
  by unfold_locales (simp_all only: region_mul_avx2_eq region_mul_avx2_arr_eq
      region_muladd_avx2_arr_eq region_coupled_muladd_avx2_arr_eq region_fused_avx2_arr_eq
      region_2d_avx2_arr_eq scalar.mul scalar.mul_arr scalar.muladd scalar.coupled
      scalar.fused scalar.two_d)

interpretation avx512: region_kernels gf64_region_mul_avx512 gf64_region_mul_avx512_arr
  gf64_region_muladd_avx512_arr gf64_region_coupled_muladd_avx512_arr
  gf64_region_fused_output_muladd_avx512_arr gf64_region_2d_muladd_avx512_arr
  by unfold_locales (simp_all only: region_mul_avx512_eq region_mul_avx512_arr_eq
      region_muladd_avx512_arr_eq region_coupled_muladd_avx512_arr_eq region_fused_avx512_arr_eq
      region_2d_avx512_arr_eq scalar.mul scalar.mul_arr scalar.muladd scalar.coupled
      scalar.fused scalar.two_d)

end
