(* ===== verification/CPU_Detect.thy ===== *)
theory CPU_Detect
  imports Prelude "HOL-Library.Monad_Syntax"
begin

text \<open>
  The instruction-set detection of gf64/cpu_detect.c. CPUID, XGETBV and the execution of one ZMM
  instruction are the machine's: a \<open>host\<close> records what they answer at one moment (a hypervisor may
  mask the bits of one poll and not of the next). \<open>probe\<close> is the static state of the file: the
  cached result of the SIGILL probe, its one-shot flag, and the exported \<open>gf64_zmm_works\<close>.
  The operations are in the option monad: None is the spin of \<open>gf64_zmm_probe\<close> on a flag that
  another thread has taken, which no sequential run reaches. The second half models the threads
  that race for the probe as a step relation over sequentially consistent memory (the source's
  release store and acquire load are what makes that adequate for these variables).
\<close>

datatype GF64Method = GF64_AVX512 | GF64_AVX2 | GF64_SSSE3 | GF64_SCALAR

text \<open>The values of the C enumeration: a smaller value is a faster instruction set.\<close>

primrec method_value :: "GF64Method \<Rightarrow> nat" where
  "method_value GF64_AVX512 = 0"
| "method_value GF64_AVX2 = 1"
| "method_value GF64_SSSE3 = 2"
| "method_value GF64_SCALAR = 3"

instantiation GF64Method :: linorder
begin
definition "m \<le> m' \<longleftrightarrow> method_value m \<le> method_value m'"
definition "m < m' \<longleftrightarrow> method_value m < method_value m'"
instance
proof
  fix m m' :: GF64Method
  show "m \<le> m' \<Longrightarrow> m' \<le> m \<Longrightarrow> m = m'"
    by (cases m; cases m') (simp_all add: less_eq_GF64Method_def)
qed (auto simp: less_eq_GF64Method_def less_GF64Method_def)
end

record regs =
  eax :: "32 word"
  ebx :: "32 word"
  ecx :: "32 word"
  edx :: "32 word"

record host =
  gf64_cpuid :: "nat \<Rightarrow> nat \<Rightarrow> regs"
  gf64_xgetbv :: "nat \<Rightarrow> 64 word"
  zmm_executes :: bool

record probe =
  zmm_probe_cached :: int
  zmm_probe_once :: int
  gf64_zmm_works :: int

definition try_zmm_insn :: "host \<Rightarrow> int" where
  "try_zmm_insn h = (if zmm_executes h then 1 else 0)"

definition gf64_zmm_probe :: "host \<Rightarrow> 'a probe_scheme \<Rightarrow> (int \<times> 'a probe_scheme) option" where
  "gf64_zmm_probe h s =
    (if zmm_probe_cached s \<noteq> -1 then Some (zmm_probe_cached s, s)
     else if zmm_probe_once s = 0
     then let s = s\<lparr>zmm_probe_once := 1\<rparr>;
              r = try_zmm_insn h;
              s = s\<lparr>gf64_zmm_works := r\<rparr>;
              s = s\<lparr>zmm_probe_cached := r\<rparr>
          in Some (r, s)
     else None)"

definition gf64_has_vpclmulqdq_probe :: "host \<Rightarrow> int" where
  "gf64_has_vpclmulqdq_probe h =
    (if \<not> bit (ecx (gf64_cpuid h 7 0)) 10 then 0
     else if \<not> bit (ecx (gf64_cpuid h 1 0)) 27 then 0
     else let xcr0 = gf64_xgetbv h 0
          in if xcr0 AND 0xE6 \<noteq> 0xE6 then 0 else 1)"

text \<open>The part of the detection after the AVX-512 tests.\<close>

definition detect_fallback :: "host \<Rightarrow> GF64Method" where
  "detect_fallback h =
    (let c = ecx (gf64_cpuid h 1 0)
     in if bit c 28 \<and> bit c 12 \<and> bit c 27 then GF64_AVX2
        else if bit c 0 \<and> bit c 1 then GF64_SSSE3
        else GF64_SCALAR)"

definition gf64_detect_method_internal ::
  "host \<Rightarrow> 'a probe_scheme \<Rightarrow> (GF64Method \<times> 'a probe_scheme) option" where
  "gf64_detect_method_internal h s =
    (let r7 = gf64_cpuid h 7 0; r1 = gf64_cpuid h 1 0
     in if bit (ebx r7) 16 \<and> bit (ecx r7) 14 \<and> bit (ecx r1) 27 \<and>
           gf64_xgetbv h 0 AND 0x27 = 0x27
        then do {
          (works, s) \<leftarrow> gf64_zmm_probe h s;
          if works \<noteq> 0 \<and> gf64_has_vpclmulqdq_probe h \<noteq> 0 then Some (GF64_AVX512, s)
          else Some (detect_fallback h, s)
        }
        else Some (detect_fallback h, s))"

section \<open>The aggregate of five polls\<close>

abbreviation GF64_POLL_COUNT :: nat where "GF64_POLL_COUNT \<equiv> 5"
abbreviation GF64_POLL_THRESHOLD :: nat where "GF64_POLL_THRESHOLD \<equiv> 1"

primrec poll_methods ::
  "(nat \<Rightarrow> host) \<Rightarrow> nat \<Rightarrow> 'a probe_scheme \<Rightarrow> (GF64Method list \<times> 'a probe_scheme) option" where
  "poll_methods hosts 0 s = Some ([], s)"
| "poll_methods hosts (Suc i) s = do {
     (results, s) \<leftarrow> poll_methods hosts i s;
     (m, s) \<leftarrow> gf64_detect_method_internal (hosts i) s;
     Some (results @ [m], s)
   }"

definition gf64_detect_method ::
  "(nat \<Rightarrow> host) \<Rightarrow> 'a probe_scheme \<Rightarrow> (GF64Method \<times> 'a probe_scheme) option" where
  "gf64_detect_method hosts s = do {
     (results, s) \<leftarrow> poll_methods hosts GF64_POLL_COUNT s;
     let avx512_count = length (filter (\<lambda>m. m = GF64_AVX512) results);
     let best = fold (\<lambda>i best. if results ! i \<noteq> GF64_AVX512 \<and> results ! i < best
         then results ! i else best) [0..<GF64_POLL_COUNT] GF64_SCALAR;
     Some (if avx512_count \<ge> GF64_POLL_THRESHOLD then GF64_AVX512 else best, s)
   }"

text \<open>The probe's state between calls: untouched, or run to its end.\<close>

definition probe_ok :: "'a probe_scheme \<Rightarrow> bool" where
  "probe_ok s \<longleftrightarrow>
    (zmm_probe_cached s = -1 \<and> zmm_probe_once s = 0 \<or>
     zmm_probe_cached s \<in> {0, 1} \<and> zmm_probe_once s = 1 \<and> gf64_zmm_works s = zmm_probe_cached s)"

definition probe_init :: probe where
  "probe_init = \<lparr>zmm_probe_cached = -1, zmm_probe_once = 0, gf64_zmm_works = 0\<rparr>"

lemma probe_ok_init: "probe_ok probe_init"
  by (simp add: probe_ok_def probe_init_def)

lemma zmm_probe_cases:
  assumes "probe_ok s"
  obtains (cached) "zmm_probe_cached s \<noteq> -1" "gf64_zmm_probe h s = Some (gf64_zmm_works s, s)"
  | (fresh) "zmm_probe_cached s = -1" "gf64_zmm_probe h s =
      Some (try_zmm_insn h, s\<lparr>zmm_probe_once := 1, gf64_zmm_works := try_zmm_insn h,
        zmm_probe_cached := try_zmm_insn h\<rparr>)"
  using assms by (auto simp: probe_ok_def gf64_zmm_probe_def Let_def)

lemma zmm_probe_total:
  assumes "probe_ok s"
  shows "\<exists>r s'. gf64_zmm_probe h s = Some (r, s') \<and> probe_ok s' \<and> r = gf64_zmm_works s' \<and>
    r \<in> {0, 1} \<and> zmm_probe_cached s' = r"
  using assms by (auto simp: probe_ok_def gf64_zmm_probe_def Let_def try_zmm_insn_def)

text \<open>What one detection returns, and that it keeps the probe's state.\<close>

definition advertises_avx512 :: "host \<Rightarrow> bool" where
  "advertises_avx512 h \<longleftrightarrow> bit (ebx (gf64_cpuid h 7 0)) 16 \<and> bit (ecx (gf64_cpuid h 7 0)) 14 \<and>
    bit (ecx (gf64_cpuid h 1 0)) 27 \<and> gf64_xgetbv h 0 AND 0x27 = 0x27"

lemma detect_internal_total:
  assumes "probe_ok s"
  shows "\<exists>m s'. gf64_detect_method_internal h s = Some (m, s') \<and> probe_ok s' \<and>
    (m = GF64_AVX512 \<longleftrightarrow> advertises_avx512 h \<and> gf64_has_vpclmulqdq_probe h = 1 \<and> gf64_zmm_works s' = 1) \<and>
    (m \<noteq> GF64_AVX512 \<longrightarrow> m = detect_fallback h) \<and>
    (zmm_probe_cached s \<noteq> -1 \<longrightarrow> s' = s)"
proof (cases "advertises_avx512 h")
  case True
  obtain r s' where p: "gf64_zmm_probe h s = Some (r, s')" "probe_ok s'" "r = gf64_zmm_works s'"
    "r \<in> {0, 1}" using zmm_probe_total [OF assms] by blast
  moreover have "gf64_has_vpclmulqdq_probe h \<in> {0, 1}"
    by (simp add: gf64_has_vpclmulqdq_probe_def Let_def)
  moreover have "zmm_probe_cached s \<noteq> -1 \<longrightarrow> s' = s"
    using p(1) by (auto simp: gf64_zmm_probe_def)
  moreover have "detect_fallback h \<noteq> GF64_AVX512"
    by (simp add: detect_fallback_def Let_def)
  ultimately show ?thesis
    using True by (auto simp: gf64_detect_method_internal_def Let_def advertises_avx512_def)
next
  case False
  then have "gf64_detect_method_internal h s = Some (detect_fallback h, s)"
    by (auto simp: gf64_detect_method_internal_def Let_def advertises_avx512_def)
  then show ?thesis
    using False assms by (simp add: detect_fallback_def Let_def)
qed

lemma poll_methods_total:
  assumes "probe_ok s"
  shows "\<exists>results s'. poll_methods hosts n s = Some (results, s') \<and> probe_ok s' \<and>
    length results = n \<and>
    (\<forall>i<n. results ! i = GF64_AVX512 \<longrightarrow>
      gf64_zmm_works s' = 1 \<and> zmm_probe_cached s' = 1 \<and> gf64_has_vpclmulqdq_probe (hosts i) = 1) \<and>
    (\<forall>i<n. results ! i \<noteq> GF64_AVX512 \<longrightarrow> results ! i = detect_fallback (hosts i))"
proof (induction n)
  case (Suc n)
  then obtain rs s1 where *: "poll_methods hosts n s = Some (rs, s1)" "probe_ok s1" "length rs = n"
    "\<forall>i<n. rs ! i = GF64_AVX512 \<longrightarrow>
      gf64_zmm_works s1 = 1 \<and> zmm_probe_cached s1 = 1 \<and> gf64_has_vpclmulqdq_probe (hosts i) = 1"
    "\<forall>i<n. rs ! i \<noteq> GF64_AVX512 \<longrightarrow> rs ! i = detect_fallback (hosts i)" by blast
  obtain m s' where d: "gf64_detect_method_internal (hosts n) s1 = Some (m, s')" "probe_ok s'"
    "m = GF64_AVX512 \<longleftrightarrow> advertises_avx512 (hosts n) \<and> gf64_has_vpclmulqdq_probe (hosts n) = 1 \<and>
      gf64_zmm_works s' = 1"
    "m \<noteq> GF64_AVX512 \<longrightarrow> m = detect_fallback (hosts n)" "zmm_probe_cached s1 \<noteq> -1 \<longrightarrow> s' = s1"
    using detect_internal_total [OF *(2)] by blast
  have cached: "m = GF64_AVX512 \<longrightarrow> zmm_probe_cached s' = 1"
    using d(1,2,3) *(2) by (auto simp: gf64_detect_method_internal_def Let_def advertises_avx512_def
        gf64_zmm_probe_def probe_ok_def try_zmm_insn_def split: if_splits)
  have keep: "zmm_probe_cached s1 = 1 \<longrightarrow> s' = s1" using d(5) by simp
  show ?case
    using * d cached keep by (auto simp: nth_append less_Suc_eq)
qed (simp add: assms)

text \<open>The aggregate is the best of the polls: the least value of the enumeration.\<close>

lemma fold_best:
  "fold (\<lambda>i best. if xs ! i \<noteq> GF64_AVX512 \<and> xs ! i < best then xs ! i else best) [0..<n] GF64_SCALAR =
    Min (insert GF64_SCALAR {xs ! i |i. i < n \<and> xs ! i \<noteq> GF64_AVX512})"
proof (induction n)
  case (Suc n)
  let ?S = "\<lambda>n. insert GF64_SCALAR {xs ! i |i. i < n \<and> xs ! i \<noteq> GF64_AVX512}"
  have f: "finite (?S n)" by simp
  show ?case
  proof (cases "xs ! n = GF64_AVX512")
    case True
    then have "?S (Suc n) = ?S n" by (auto simp: less_Suc_eq)
    then show ?thesis using True by (simp add: Suc.IH)
  next
    case False
    then have "?S (Suc n) = insert (xs ! n) (?S n)" by (auto simp: less_Suc_eq)
    then have "Min (?S (Suc n)) = min (xs ! n) (Min (?S n))" by (simp only: Min_insert [OF f] insert_not_empty not_False_eq_True)
    moreover have "(if xs ! n \<noteq> GF64_AVX512 \<and> xs ! n < M then xs ! n else M) = min (xs ! n) M" for M
      using False by (auto simp: min_def)
    ultimately show ?thesis by (simp only: fold_upt_Suc [OF zero_le] Suc.IH)
  qed
qed simp

lemma method_least: "GF64_AVX512 \<le> m" "m \<le> GF64_SCALAR"
  by (cases m; simp add: less_eq_GF64Method_def)+

lemma detect_aggregate:
  fixes xs :: "GF64Method list"
  assumes "length xs = n" "n > 0"
  shows "(if length (filter (\<lambda>m. m = GF64_AVX512) xs) \<ge> 1 then GF64_AVX512
      else Min (insert GF64_SCALAR {xs ! i |i. i < n \<and> xs ! i \<noteq> GF64_AVX512})) = Min (set xs)"
proof (cases "GF64_AVX512 \<in> set xs")
  case True
  then have "Min (set xs) = GF64_AVX512"
    by (intro antisym method_least) simp
  moreover have "filter (\<lambda>m. m = GF64_AVX512) xs \<noteq> []" using True by (simp add: filter_empty_conv)
  ultimately show ?thesis by (simp add: Suc_le_eq)
next
  case False
  then have "\<forall>i<n. xs ! i \<noteq> GF64_AVX512" using assms(1) nth_mem by metis
  then have "{xs ! i |i. i < n \<and> xs ! i \<noteq> GF64_AVX512} = {xs ! i |i. i < n}" by blast
  then have "{xs ! i |i. i < n \<and> xs ! i \<noteq> GF64_AVX512} = set xs"
    by (simp add: set_conv_nth assms(1))
  moreover have "Min (insert GF64_SCALAR (set xs)) = Min (set xs)"
    using assms by (subst Min_insert) (auto simp: min_absorb2 method_least)
  moreover have "filter (\<lambda>m. m = GF64_AVX512) xs = []" using False by (auto simp: filter_empty_conv)
  ultimately show ?thesis by simp
qed

lemma detect_method_total:
  assumes "probe_ok s"
  shows "\<exists>results s'. poll_methods hosts GF64_POLL_COUNT s = Some (results, s') \<and>
    length results = GF64_POLL_COUNT \<and>
    gf64_detect_method hosts s = Some (Min (set results), s') \<and> probe_ok s' \<and>
    (Min (set results) = GF64_AVX512 \<longrightarrow> gf64_zmm_works s' = 1 \<and> zmm_probe_cached s' = 1 \<and>
      (\<exists>i<GF64_POLL_COUNT. gf64_has_vpclmulqdq_probe (hosts i) = 1))"
proof -
  obtain rs s' where *: "poll_methods hosts 5 s = Some (rs, s')" "probe_ok s'" "length rs = 5"
    "\<forall>i<5. rs ! i = GF64_AVX512 \<longrightarrow>
      gf64_zmm_works s' = 1 \<and> zmm_probe_cached s' = 1 \<and> gf64_has_vpclmulqdq_probe (hosts i) = 1"
    using poll_methods_total [OF assms] by blast
  have "gf64_detect_method hosts s = Some (Min (set rs), s')"
    using detect_aggregate [OF *(3)] * unfolding gf64_detect_method_def Let_def fold_best
    by (simp del: One_nat_def)
  moreover have "\<exists>i<5. rs ! i = GF64_AVX512" if "Min (set rs) = GF64_AVX512"
  proof -
    have "rs \<noteq> []" using *(3) by auto
    then have "Min (set rs) \<in> set rs" by simp
    then show ?thesis using that *(3) by (auto simp: in_set_conv_nth)
  qed
  ultimately show ?thesis using * by blast
qed

end
