(* ===== verification/Dispatch.thy ===== *)
theory Dispatch
  imports Region_Kernels GF64_Invert CPU_Detect
begin

text \<open>
  The dispatch layer of gf64/gf64_dispatch.c and its client gf64/gf64_elem_mul.c. The record holds
  the globals of the program: the function pointers, the bound method, the capability flag, the
  probe's state (by extension of \<open>probe\<close>) and the two memoised environment values. \<open>getenv\<close> is a
  parameter, the environment of the process. The calls that look at CPUID take the \<open>host\<close> they see.
\<close>

record gf64_globals = probe +
  gf64_region_mul :: "gf64_t list \<Rightarrow> gf64_t list \<Rightarrow> nat \<Rightarrow> gf64_t \<Rightarrow> gf64_t list"
  gf64_region_mul_arr :: "gf64_t list \<Rightarrow> gf64_t list \<Rightarrow> gf64_t list \<Rightarrow> nat \<Rightarrow> nat \<Rightarrow> gf64_t list"
  gf64_region_muladd_arr :: "gf64_t list \<Rightarrow> gf64_t list \<Rightarrow> gf64_t list \<Rightarrow> nat \<Rightarrow> nat \<Rightarrow> gf64_t list"
  gf64_region_coupled_muladd_arr ::
    "gf64_t list \<Rightarrow> gf64_t list list \<Rightarrow> gf64_t list \<Rightarrow> nat \<Rightarrow> nat \<Rightarrow> gf64_t list"
  gf64_region_fused_output_muladd_arr ::
    "gf64_t list list \<Rightarrow> gf64_t list \<Rightarrow> gf64_t list list \<Rightarrow> nat \<Rightarrow> nat \<Rightarrow> gf64_t list list"
  gf64_region_2d_muladd_arr ::
    "gf64_t list list \<Rightarrow> nat \<Rightarrow> gf64_t list list \<Rightarrow> nat \<Rightarrow> gf64_t list \<Rightarrow> nat \<Rightarrow> nat \<Rightarrow> gf64_t list list"
  gf64_inverse_batch :: "gf64_t list \<Rightarrow> gf64_t list \<Rightarrow> nat \<Rightarrow> gf64_t list"
  gf64_current_method :: GF64Method
  gf64_has_vpclmulqdq :: int
  workload_cached :: int
  avx512_force_cached :: int

type_synonym environment = "string \<Rightarrow> string option"

section \<open>Binding the pointers\<close>

text \<open>The switch of \<open>gf64_apply_method\<close>, and the function with its capability refresh.\<close>

primrec bind_kernels :: "GF64Method \<Rightarrow> 'a gf64_globals_scheme \<Rightarrow> 'a gf64_globals_scheme" where
  "bind_kernels GF64_AVX512 g = g
    \<lparr>gf64_region_mul := gf64_region_mul_avx512,
     gf64_region_mul_arr := gf64_region_mul_avx512_arr,
     gf64_region_muladd_arr := gf64_region_muladd_avx512_arr,
     gf64_region_coupled_muladd_arr := gf64_region_coupled_muladd_avx512_arr,
     gf64_region_fused_output_muladd_arr := gf64_region_fused_output_muladd_avx512_arr,
     gf64_region_2d_muladd_arr := gf64_region_2d_muladd_avx512_arr,
     gf64_inverse_batch := gf64_inverse_batch_avx512\<rparr>"
| "bind_kernels GF64_AVX2 g = g
    \<lparr>gf64_region_mul := gf64_region_mul_avx2,
     gf64_region_mul_arr := gf64_region_mul_avx2_arr,
     gf64_region_muladd_arr := gf64_region_muladd_avx2_arr,
     gf64_region_coupled_muladd_arr := gf64_region_coupled_muladd_avx2_arr,
     gf64_region_fused_output_muladd_arr := gf64_region_fused_output_muladd_avx2_arr,
     gf64_region_2d_muladd_arr := gf64_region_2d_muladd_avx2_arr,
     gf64_inverse_batch := gf64_inverse_batch_avx2\<rparr>"
| "bind_kernels GF64_SSSE3 g = g
    \<lparr>gf64_region_mul := gf64_region_mul_ssse3,
     gf64_region_mul_arr := gf64_region_mul_ssse3_arr,
     gf64_region_muladd_arr := gf64_region_muladd_ssse3_arr,
     gf64_region_coupled_muladd_arr := gf64_region_coupled_muladd_ssse3_arr,
     gf64_region_fused_output_muladd_arr := gf64_region_fused_output_muladd_ssse3_arr,
     gf64_region_2d_muladd_arr := gf64_region_2d_muladd_ssse3_arr,
     gf64_inverse_batch := gf64_inverse_batch_ssse3\<rparr>"
| "bind_kernels GF64_SCALAR g = g
    \<lparr>gf64_region_mul := gf64_region_mul_scalar,
     gf64_region_mul_arr := gf64_region_mul_scalar_arr,
     gf64_region_muladd_arr := gf64_region_muladd_scalar_arr,
     gf64_region_coupled_muladd_arr := gf64_region_coupled_muladd_scalar_arr,
     gf64_region_fused_output_muladd_arr := gf64_region_fused_output_muladd_scalar_arr,
     gf64_region_2d_muladd_arr := gf64_region_2d_muladd_scalar_arr,
     gf64_inverse_batch := gf64_inverse_batch_scalar\<rparr>"

definition gf64_apply_method ::
  "host \<Rightarrow> GF64Method \<Rightarrow> 'a gf64_globals_scheme \<Rightarrow> 'a gf64_globals_scheme option" where
  "gf64_apply_method h method g = do {
     g \<leftarrow> (if method = GF64_AVX512 then do {
         (_, g) \<leftarrow> gf64_zmm_probe h g;
         Some (g\<lparr>gf64_has_vpclmulqdq := and (gf64_has_vpclmulqdq_probe h) (gf64_zmm_works g)\<rparr>)
       } else Some g);
     let g = bind_kernels method g;
     Some (g\<lparr>gf64_current_method := method\<rparr>)
   }"

section \<open>The environment variables\<close>

text \<open>\<open>tolower\<close>, \<open>strcasecmp\<close>, \<open>isspace\<close> and \<open>strtoll\<close> (base 10) of the C library, in the C locale.\<close>

definition tolower :: "char \<Rightarrow> char" where
  "tolower c = (let n = of_char c :: nat in if 65 \<le> n \<and> n \<le> 90 then char_of (n + 32) else c)"

definition strcaseeq :: "string \<Rightarrow> string \<Rightarrow> bool" where
  "strcaseeq s t \<longleftrightarrow> map tolower s = map tolower t"

definition isspace :: "char \<Rightarrow> bool" where
  "isspace c \<longleftrightarrow> (let n = of_char c :: nat in n = 32 \<or> 9 \<le> n \<and> n \<le> 13)"

definition isdigit :: "char \<Rightarrow> bool" where
  "isdigit c \<longleftrightarrow> (let n = of_char c :: nat in 48 \<le> n \<and> n \<le> 57)"

definition digits_value :: "string \<Rightarrow> int" where
  "digits_value ds = foldl (\<lambda>v c. 10 * v + (of_char c - 48)) 0 ds"

definition strtoll :: "string \<Rightarrow> int \<times> string" where
  "strtoll s =
    (let t = dropWhile isspace s;
         (neg, t) = (case t of c # cs \<Rightarrow> if c = CHR ''-'' then (True, cs)
             else if c = CHR ''+'' then (False, cs) else (False, t) | [] \<Rightarrow> (False, t));
         ds = takeWhile isdigit t
     in if ds = [] then (0, s)
        else (max (- (2 ^ 63)) (min (2 ^ 63 - 1) (if neg then - digits_value ds else digits_value ds)),
              dropWhile isdigit t))"

definition parse_workload_size_env ::
  "environment \<Rightarrow> 'a gf64_globals_scheme \<Rightarrow> 64 word \<times> 'a gf64_globals_scheme" where
  "parse_workload_size_env getenv g =
    (if workload_cached g \<ge> 0 then (word_of_int (workload_cached g), g)
     else case getenv ''PAR3_GF64_WORKLOAD_SIZE'' of
         None \<Rightarrow> (0, g\<lparr>workload_cached := 0\<rparr>)
       | Some env \<Rightarrow>
           if env = [] then (0, g\<lparr>workload_cached := 0\<rparr>)
           else let (val, rest) = strtoll env
                in if rest = env \<or> rest \<noteq> [] \<or> val < 0 then (0, g\<lparr>workload_cached := 0\<rparr>)
                   else (word_of_int val, g\<lparr>workload_cached := val\<rparr>))"

text \<open>The three-valued answer is (return value, \<open>*forced\<close>).\<close>

definition parse_avx512_force_env ::
  "environment \<Rightarrow> GF64Method \<Rightarrow> 'a gf64_globals_scheme \<Rightarrow> (int \<times> int) \<times> 'a gf64_globals_scheme" where
  "parse_avx512_force_env getenv detected g =
    (if avx512_force_cached g \<ge> 0
     then (if avx512_force_cached g = 0 then ((0, -1), g)
           else ((1, if avx512_force_cached g = 1 then 1 else 0), g))
     else case getenv ''PAR3_GF64_USE_AVX512'' of
         None \<Rightarrow> ((0, -1), g\<lparr>avx512_force_cached := 0\<rparr>)
       | Some env \<Rightarrow>
           if env = [] then ((0, -1), g\<lparr>avx512_force_cached := 0\<rparr>)
           else if env = ''1'' \<or> strcaseeq env ''true'' \<or> strcaseeq env ''yes'' \<or> strcaseeq env ''on''
           then ((1, 1), g\<lparr>avx512_force_cached := 1\<rparr>)
           else if env = ''0'' \<or> strcaseeq env ''false'' \<or> strcaseeq env ''no'' \<or> strcaseeq env ''off''
           then ((1, 0), g\<lparr>avx512_force_cached := 2\<rparr>)
           else if strcaseeq env ''auto'' \<or> strcaseeq env ''a''
           then ((0, -1), g\<lparr>avx512_force_cached := 0\<rparr>)
           else ((0, -1), g\<lparr>avx512_force_cached := 0\<rparr>))"

definition gf64_parse_force_env :: "environment \<Rightarrow> GF64Method \<Rightarrow> GF64Method option" where
  "gf64_parse_force_env getenv detected =
    (case getenv ''PAR3_AVX512_FORCE'' of
       None \<Rightarrow> None
     | Some env \<Rightarrow>
         if env = [] then None
         else if env = ''1'' \<or> strcaseeq env ''true'' \<or> strcaseeq env ''yes'' \<or> strcaseeq env ''on''
         then Some detected
         else if env = ''0'' \<or> strcaseeq env ''false'' \<or> strcaseeq env ''no'' \<or> strcaseeq env ''off''
         then Some (if detected = GF64_AVX512 then GF64_AVX2 else detected)
         else if env = ''2'' then Some GF64_AVX512
         else None)"

section \<open>Initialisation and the choice for a workload\<close>

text \<open>Polls 0 to 4 see \<open>hosts 0\<close> to \<open>hosts 4\<close>; the capability probe \<open>hosts 5\<close>; the binding \<open>hosts 6\<close>.\<close>

definition gf64_init_dispatch ::
  "environment \<Rightarrow> (nat \<Rightarrow> host) \<Rightarrow> 'a gf64_globals_scheme \<Rightarrow> 'a gf64_globals_scheme option" where
  "gf64_init_dispatch getenv hosts g = do {
     (detected, g) \<leftarrow> gf64_detect_method hosts g;
     (_, g) \<leftarrow> gf64_zmm_probe (hosts 5) g;
     let g = g\<lparr>gf64_has_vpclmulqdq := and (gf64_has_vpclmulqdq_probe (hosts 5)) (gf64_zmm_works g)\<rparr>;
     let ((recognised, forced), g) = parse_avx512_force_env getenv detected g;
     if recognised \<noteq> 0
     then if forced = 1 then gf64_apply_method (hosts 6) GF64_AVX512 g
          else gf64_apply_method (hosts 6) (if detected = GF64_AVX512 then GF64_AVX2 else detected) g
     else gf64_apply_method (hosts 6) detected g
   }"

abbreviation HEURISTIC_BYPASS_BYTES :: "64 word" where
  "HEURISTIC_BYPASS_BYTES \<equiv> 100 * 1024 * 1024"
abbreviation DOWNCLOCK_BYTES :: "64 word" where
  "DOWNCLOCK_BYTES \<equiv> 256 * 1024 * 1024"

text \<open>The working set in bytes, None where the guard sees that it would overflow.\<close>

definition working_set_bytes :: "64 word \<Rightarrow> 64 word \<Rightarrow> 64 word \<Rightarrow> 64 word option" where
  "working_set_bytes num_in num_out block_size =
    (if block_size > 0 \<and> num_in + num_out > 0 \<and> num_in + num_out > (-1) div block_size div 8
     then None
     else Some (block_size * 8 * (num_in + num_out)))"

definition gf64_method_for_workload ::
  "environment \<Rightarrow> (nat \<Rightarrow> host) \<Rightarrow> 64 word \<Rightarrow> 64 word \<Rightarrow> 64 word \<Rightarrow> 'a gf64_globals_scheme \<Rightarrow>
    (GF64Method \<times> 'a gf64_globals_scheme) option" where
  "gf64_method_for_workload getenv hosts num_in num_out block_size g = do {
     (detected, g) \<leftarrow> gf64_detect_method hosts g;
     case gf64_parse_force_env getenv detected of
       Some forced \<Rightarrow> Some (forced, g)
     | None \<Rightarrow>
         let (env_wb, g) = parse_workload_size_env getenv g
         in case (if env_wb > 0 then Some env_wb else working_set_bytes num_in num_out block_size) of
              None \<Rightarrow> Some (detected, g)
            | Some ws \<Rightarrow>
                if ws > HEURISTIC_BYPASS_BYTES then Some (detected, g)
                else let ((recognised, forced), g) = parse_avx512_force_env getenv detected g
                     in if recognised \<noteq> 0
                        then Some (if forced = 1 then GF64_AVX512
                                   else if detected = GF64_AVX512 then GF64_AVX2 else detected, g)
                        else if ws > DOWNCLOCK_BYTES
                        then Some (if detected = GF64_AVX512 then GF64_AVX2 else detected, g)
                        else Some (detected, g)
   }"

section \<open>Element-wise multiplication\<close>

definition gf64_elem_mul ::
  "'a gf64_globals_scheme \<Rightarrow> gf64_t list \<Rightarrow> gf64_t list \<Rightarrow> gf64_t list \<Rightarrow> nat \<Rightarrow> gf64_t list" where
  "gf64_elem_mul g out a b N =
    (if gf64_current_method g = GF64_AVX512 \<and> gf64_has_vpclmulqdq g \<noteq> 0
     then gf64_mul_avx512 out a b N
     else fold (\<lambda>i out. out[i := gf64_mul_reference (a ! i) (b ! i)]) [0..<N] out)"

section \<open>The bound pointers satisfy the kernel contract\<close>

interpretation bound: region_kernels
  "gf64_region_mul (bind_kernels m g)" "gf64_region_mul_arr (bind_kernels m g)"
  "gf64_region_muladd_arr (bind_kernels m g)" "gf64_region_coupled_muladd_arr (bind_kernels m g)"
  "gf64_region_fused_output_muladd_arr (bind_kernels m g)"
  "gf64_region_2d_muladd_arr (bind_kernels m g)" for m g
  by (cases m; simp; unfold_locales)

lemma bound_inverse_batch:
  assumes "N \<le> length out" and "N \<le> length inp"
  shows "gf64_inverse_batch (bind_kernels m g) out inp N = gf64_inverse_batch_scalar out inp N"
  by (cases m) (simp_all add: inverse_batch_eq [OF assms])

lemma bind_kernels_frame [simp]:
  "zmm_probe_cached (bind_kernels m g) = zmm_probe_cached g"
  "zmm_probe_once (bind_kernels m g) = zmm_probe_once g"
  "gf64_zmm_works (bind_kernels m g) = gf64_zmm_works g"
  "gf64_has_vpclmulqdq (bind_kernels m g) = gf64_has_vpclmulqdq g"
  "gf64_current_method (bind_kernels m g) = gf64_current_method g"
  "workload_cached (bind_kernels m g) = workload_cached g"
  "avx512_force_cached (bind_kernels m g) = avx512_force_cached g"
  by (cases m; simp)+

section \<open>The invariant of the globals\<close>

text \<open>
  The probe is untouched or complete, the capability flag is only up when a ZMM instruction has
  executed, and the seven pointers are those of the bound method.
\<close>

definition capability_ok :: "'a gf64_globals_scheme \<Rightarrow> bool" where
  "capability_ok g \<longleftrightarrow> probe_ok g \<and>
    (gf64_has_vpclmulqdq g \<noteq> 0 \<longrightarrow> zmm_probe_cached g = 1 \<and> gf64_zmm_works g = 1)"

definition dispatch_ok :: "'a gf64_globals_scheme \<Rightarrow> bool" where
  "dispatch_ok g \<longleftrightarrow> capability_ok g \<and> bind_kernels (gf64_current_method g) g = g"

lemma probe_ok_more:
  "probe_ok (g\<lparr>gf64_has_vpclmulqdq := v\<rparr>) = probe_ok g"
  "probe_ok (g\<lparr>gf64_current_method := m\<rparr>) = probe_ok g"
  "probe_ok (g\<lparr>workload_cached := w\<rparr>) = probe_ok g"
  "probe_ok (g\<lparr>avx512_force_cached := w\<rparr>) = probe_ok g"
  "probe_ok (bind_kernels m g) = probe_ok g"
  by (simp_all add: probe_ok_def)

lemma bind_kernels_idem: "bind_kernels m (bind_kernels m' g) = bind_kernels m g"
  by (cases m; cases m'; simp)

lemma bind_kernels_update:
  "bind_kernels m (g\<lparr>gf64_current_method := k\<rparr>) = (bind_kernels m g)\<lparr>gf64_current_method := k\<rparr>"
  "bind_kernels m (g\<lparr>gf64_has_vpclmulqdq := v\<rparr>) = (bind_kernels m g)\<lparr>gf64_has_vpclmulqdq := v\<rparr>"
  "bind_kernels m (g\<lparr>workload_cached := w\<rparr>) = (bind_kernels m g)\<lparr>workload_cached := w\<rparr>"
  "bind_kernels m (g\<lparr>avx512_force_cached := w\<rparr>) = (bind_kernels m g)\<lparr>avx512_force_cached := w\<rparr>"
  by (cases m; simp)+

lemma has_probe_01: "gf64_has_vpclmulqdq_probe h \<in> {0, 1}"
  by (simp add: gf64_has_vpclmulqdq_probe_def Let_def)

text \<open>The capability flag as the code computes it.\<close>

lemma capability_and:
  assumes "works \<in> {0, 1}"
  shows "(and (gf64_has_vpclmulqdq_probe h) works \<noteq> 0) \<longleftrightarrow>
    gf64_has_vpclmulqdq_probe h = 1 \<and> works = (1 :: int)"
  using assms has_probe_01 [of h] by auto

lemma apply_total:
  assumes "capability_ok g"
  shows "\<exists>g'. gf64_apply_method h m g = Some g' \<and> dispatch_ok g' \<and> gf64_current_method g' = m \<and>
    workload_cached g' = workload_cached g \<and> avx512_force_cached g' = avx512_force_cached g \<and>
    (m \<noteq> GF64_AVX512 \<longrightarrow> gf64_has_vpclmulqdq g' = gf64_has_vpclmulqdq g)"
proof (cases "m = GF64_AVX512")
  case True
  obtain r g1 where p: "gf64_zmm_probe h g = Some (r, g1)" "probe_ok g1" "r = gf64_zmm_works g1"
    "r \<in> {0, 1}" "zmm_probe_cached g1 = r"
    using zmm_probe_total [of g h] assms by (auto simp: capability_ok_def)
  have frame: "workload_cached g1 = workload_cached g" "avx512_force_cached g1 = avx512_force_cached g"
    using p(1) by (auto simp: gf64_zmm_probe_def Let_def split: if_splits)
  let ?g = "(bind_kernels m (g1\<lparr>gf64_has_vpclmulqdq :=
    and (gf64_has_vpclmulqdq_probe h) (gf64_zmm_works g1)\<rparr>))\<lparr>gf64_current_method := m\<rparr>"
  have "gf64_apply_method h m g = Some ?g"
    using True p(1) by (simp add: gf64_apply_method_def Let_def)
  moreover have "dispatch_ok ?g"
    using p capability_and [of "gf64_zmm_works g1" h] unfolding dispatch_ok_def capability_ok_def
    by (simp only: probe_ok_more bind_kernels_update bind_kernels_idem bind_kernels_frame) simp
  ultimately show ?thesis using True frame by simp
next
  case False
  have "gf64_apply_method h m g = Some ((bind_kernels m g)\<lparr>gf64_current_method := m\<rparr>)"
    using False by (simp add: gf64_apply_method_def Let_def)
  then show ?thesis
    using assms by (simp add: dispatch_ok_def capability_ok_def probe_ok_more bind_kernels_update
        bind_kernels_idem)
qed

lemma poll_methods_frame:
  assumes "poll_methods hosts n g = Some (rs, g')"
  shows "\<exists>o' w' c'. g' = g\<lparr>zmm_probe_once := o', gf64_zmm_works := w', zmm_probe_cached := c'\<rparr>"
  using assms
proof (induction n arbitrary: rs g')
  case 0
  then show ?case
    by (intro exI [of _ "zmm_probe_once g"] exI [of _ "gf64_zmm_works g"]
        exI [of _ "zmm_probe_cached g"]) simp
next
  case (Suc n)
  then obtain rs1 g1 m where 1: "poll_methods hosts n g = Some (rs1, g1)"
    and d: "gf64_detect_method_internal (hosts n) g1 = Some (m, g')"
    by (auto simp: bind_eq_Some_conv)
  from Suc.IH [OF 1] obtain o1 w1 c1 where
    g1: "g1 = g\<lparr>zmm_probe_once := o1, gf64_zmm_works := w1, zmm_probe_cached := c1\<rparr>" by blast
  have "g' = g1 \<or> (\<exists>o' w' c'. g' = g1\<lparr>zmm_probe_once := o', gf64_zmm_works := w', zmm_probe_cached := c'\<rparr>)"
    using d by (auto simp: gf64_detect_method_internal_def gf64_zmm_probe_def Let_def
        bind_eq_Some_conv split: if_splits)
  then show ?case unfolding g1 by (elim disjE exE) (auto intro!: exI)
qed

lemma detect_method_ok:
  assumes "capability_ok g"
  shows "\<exists>results g'. poll_methods hosts 5 g = Some (results, g') \<and> length results = 5 \<and>
    gf64_detect_method hosts g = Some (Min (set results), g') \<and> capability_ok g' \<and>
    (\<forall>m. bind_kernels m g = g \<longrightarrow> bind_kernels m g' = g') \<and>
    (Min (set results) = GF64_AVX512 \<longrightarrow> gf64_zmm_works g' = 1 \<and> zmm_probe_cached g' = 1)  \<and>
    workload_cached g' = workload_cached g \<and> avx512_force_cached g' = avx512_force_cached g \<and>
    gf64_current_method g' = gf64_current_method g"
proof -
  obtain rs g' where *: "poll_methods hosts 5 g = Some (rs, g')" "length rs = 5"
    "gf64_detect_method hosts g = Some (Min (set rs), g')" "probe_ok g'"
    "Min (set rs) = GF64_AVX512 \<longrightarrow> gf64_zmm_works g' = 1 \<and> zmm_probe_cached g' = 1"
    using detect_method_total [of g hosts] assms unfolding capability_ok_def by blast
  obtain o' w' c' where g': "g' = g\<lparr>zmm_probe_once := o', gf64_zmm_works := w', zmm_probe_cached := c'\<rparr>"
    using poll_methods_frame [OF *(1)] by blast
  have cached: "g' = g" if "zmm_probe_cached g \<noteq> -1"
  proof -
    have "poll_methods hosts n g = Some (rs, g'') \<Longrightarrow> g'' = g" for n rs g''
    proof (induction n arbitrary: rs g'')
      case (Suc n)
      then show ?case
        using detect_internal_total [of g "hosts n"] assms that
        unfolding capability_ok_def by (fastforce simp: bind_eq_Some_conv)
    qed simp
    then show ?thesis using *(1) by blast
  qed
  have "\<forall>m. bind_kernels m g = g \<longrightarrow> bind_kernels m g' = g'"
  proof -
    have "bind_kernels m (g\<lparr>zmm_probe_once := o', gf64_zmm_works := w', zmm_probe_cached := c'\<rparr>) =
        (bind_kernels m g)\<lparr>zmm_probe_once := o', gf64_zmm_works := w', zmm_probe_cached := c'\<rparr>" for m
      by (cases m) simp_all
    then show ?thesis by (simp add: g')
  qed
  moreover have "gf64_has_vpclmulqdq g' \<noteq> 0 \<longrightarrow> zmm_probe_cached g' = 1 \<and> gf64_zmm_works g' = 1"
  proof
    assume "gf64_has_vpclmulqdq g' \<noteq> 0"
    then have "zmm_probe_cached g = 1" "gf64_zmm_works g = 1"
      using assms g' by (simp_all add: capability_ok_def)
    then show "zmm_probe_cached g' = 1 \<and> gf64_zmm_works g' = 1" using cached by simp
  qed
  moreover have "gf64_current_method g' = gf64_current_method g" "workload_cached g' = workload_cached g"
    "avx512_force_cached g' = avx512_force_cached g" using g' by simp_all
  ultimately show ?thesis using * unfolding capability_ok_def by blast
qed

text \<open>Initialisation: it always completes, and the method bound is the detected one or the forced one.\<close>

definition requested_method :: "int \<times> int \<Rightarrow> GF64Method \<Rightarrow> GF64Method" where
  "requested_method answer detected =
    (if fst answer \<noteq> 0
     then if snd answer = 1 then GF64_AVX512
          else if detected = GF64_AVX512 then GF64_AVX2 else detected
     else detected)"

lemma parse_force_frame:
  "snd (parse_avx512_force_env getenv m g) =
    g\<lparr>avx512_force_cached := avx512_force_cached (snd (parse_avx512_force_env getenv m g))\<rparr>"
  by (auto simp: parse_avx512_force_env_def split: option.splits)

lemma dispatch_ok_caches:
  assumes "dispatch_ok g"
  shows "dispatch_ok (g\<lparr>avx512_force_cached := w\<rparr>)" "dispatch_ok (g\<lparr>workload_cached := w\<rparr>)"
  using assms by (simp_all add: dispatch_ok_def capability_ok_def probe_ok_more bind_kernels_update)

lemma dispatch_ok_parse:
  assumes "dispatch_ok g"
  shows "dispatch_ok (snd (parse_avx512_force_env getenv m g))"
    "dispatch_ok (snd (parse_workload_size_env getenv g))"
  using assms by (auto simp: parse_avx512_force_env_def parse_workload_size_env_def Let_def
      dispatch_ok_caches split: option.splits prod.splits)

lemma init_dispatch_ok:
  assumes "capability_ok g"
  shows "\<exists>results g1 g'. poll_methods hosts 5 g = Some (results, g1) \<and> length results = 5 \<and>
    gf64_init_dispatch getenv hosts g = Some g' \<and> dispatch_ok g' \<and>
    gf64_current_method g' =
      requested_method (fst (parse_avx512_force_env getenv (Min (set results)) g)) (Min (set results))"
proof -
  obtain rs g1 where d: "poll_methods hosts 5 g = Some (rs, g1)" "length rs = 5"
    "gf64_detect_method hosts g = Some (Min (set rs), g1)" "capability_ok g1"
    "avx512_force_cached g1 = avx512_force_cached g"
    using detect_method_ok [OF assms, of hosts] by blast
  obtain r g2 where p: "gf64_zmm_probe (hosts 5) g1 = Some (r, g2)" "probe_ok g2"
    "r = gf64_zmm_works g2" "r \<in> {0, 1}" "zmm_probe_cached g2 = r"
    using zmm_probe_total [of g1 "hosts 5"] d(4) unfolding capability_ok_def by blast
  have frame: "avx512_force_cached g2 = avx512_force_cached g"
    using p(1) d(5) by (auto simp: gf64_zmm_probe_def Let_def split: if_splits)
  let ?g3 = "g2\<lparr>gf64_has_vpclmulqdq := and (gf64_has_vpclmulqdq_probe (hosts 5)) (gf64_zmm_works g2)\<rparr>"
  let ?d = "Min (set rs)"
  let ?a = "parse_avx512_force_env getenv ?d ?g3"
  let ?m = "requested_method (fst ?a) ?d"
  have a: "fst ?a = fst (parse_avx512_force_env getenv ?d g)"
    by (simp add: parse_avx512_force_env_def frame split: option.split)
  have ok: "capability_ok (snd ?a)"
    using p capability_and [of "gf64_zmm_works g2" "hosts 5"] unfolding capability_ok_def
    by (subst parse_force_frame, simp add: probe_ok_more)+
  obtain g' where g': "gf64_apply_method (hosts 6) ?m (snd ?a) = Some g'" "dispatch_ok g'"
    "gf64_current_method g' = ?m" using apply_total [OF ok, of "hosts 6" ?m] by blast
  have "gf64_init_dispatch getenv hosts g = gf64_apply_method (hosts 6) ?m (snd ?a)"
    unfolding gf64_init_dispatch_def d(3) p(1) Let_def
    by (cases ?a) (auto simp: requested_method_def p(1))
  then show ?thesis using d g' a by auto
qed

text \<open>
  The choice for a workload. Without an override the answer is the detected method, whatever the
  size: the branch that would downgrade needs a working set above 256 MiB that is not above 100 MiB.
\<close>

lemma downclock_unreachable: "\<not> ws > HEURISTIC_BYPASS_BYTES \<Longrightarrow> \<not> ws > DOWNCLOCK_BYTES"
  by (simp add: word_less_nat_alt)

lemma workload_default:
  assumes "gf64_detect_method hosts g = Some (detected, g1)"
    and "gf64_parse_force_env getenv detected = None"
    and "fst (fst (parse_avx512_force_env getenv detected (snd (parse_workload_size_env getenv g1)))) = 0"
  shows "\<exists>g'. gf64_method_for_workload getenv hosts num_in num_out block_size g = Some (detected, g')"
  using assms
  using downclock_unreachable
  by (auto simp: gf64_method_for_workload_def Let_def split: prod.splits option.splits)

lemma workload_total:
  assumes "dispatch_ok g"
  shows "\<exists>m g'. gf64_method_for_workload getenv hosts num_in num_out block_size g = Some (m, g') \<and>
    dispatch_ok g'"
proof -
  obtain d g1 where d: "gf64_detect_method hosts g = Some (d, g1)" "dispatch_ok g1"
    using detect_method_ok [of g hosts] assms unfolding dispatch_ok_def by metis
  let ?g2 = "snd (parse_workload_size_env getenv g1)"
  have "dispatch_ok ?g2" "dispatch_ok (snd (parse_avx512_force_env getenv d ?g2))"
    using d dispatch_ok_parse by blast+
  then show ?thesis
    using d by (auto simp: gf64_method_for_workload_def Let_def split: prod.splits option.splits)
qed

text \<open>The overflow guard: when it lets a size through, the product does not wrap.\<close>

lemma unat_max_64: "unat (-1 :: 64 word) = 2 ^ 64 - 1"
  by (simp add: unat_eq_nat_uint uint_word_ariths)

lemma working_set_exact:
  assumes "working_set_bytes num_in num_out block_size = Some ws"
  shows "unat ws = unat block_size * 8 * unat (num_in + num_out)"
proof (cases "block_size = 0 \<or> num_in + num_out = 0")
  case True
  then show ?thesis using assms by (auto simp: working_set_bytes_def split: if_splits)
next
  case False
  let ?n = "num_in + num_out"
  have pos: "block_size > 0" "?n > 0" using False by (auto simp: word_gt_0)
  then have le: "?n \<le> (-1) div block_size div 8" and ws: "ws = block_size * 8 * ?n"
    using assms by (auto simp: working_set_bytes_def split: if_splits)
  have "unat ?n \<le> (2 ^ 64 - 1) div unat block_size div 8"
    using le by (simp add: word_le_nat_alt unat_div_distrib unat_max_64)
  then have "unat ?n * (unat block_size * 8) \<le> 2 ^ 64 - 1"
    by (metis div_mult2_eq div_times_less_eq_dividend le_trans mult_le_mono1)
  then have "unat ?n * (unat block_size * 8) < 2 ^ 64" by (rule le_less_trans) simp
  then have small: "unat block_size * 8 * unat ?n < 2 ^ 64" by (subst mult.commute)
  have "unat block_size * 8 < 2 ^ 64"
  proof -
    have "unat ?n \<ge> 1" using pos(2) by (simp add: word_less_nat_alt)
    then have "unat block_size * 8 * 1 \<le> unat block_size * 8 * unat ?n" by (intro mult_le_mono) auto
    then show ?thesis using small by linarith
  qed
  then have "unat (block_size * 8) = unat block_size * 8"
    by (simp add: unat_word_ariths)
  then show ?thesis
    unfolding ws unat_word_ariths(2) [of "block_size * 8"] using small by simp
qed

lemma elem_mul_eq:
  assumes "N \<le> length out"
  shows "gf64_elem_mul g out a b N =
    map (\<lambda>i. gf64_mul_reference (a ! i) (b ! i)) [0..<N] @ drop N out"
  using assms by (simp add: gf64_elem_mul_def gf64_mul_avx512_eq fold_const_update_map)

section \<open>The life of the globals\<close>

text \<open>
  The globals at program start: the probe has not run and the environment is unread. The pointers
  are null, so nothing is said of them before the first \<open>gf64_init_dispatch\<close>. Afterwards the program
  re-initialises, rebinds and asks for the method of a workload, in any order, on hosts whose CPUID
  may answer differently each time.
\<close>

definition startup :: "'a gf64_globals_scheme \<Rightarrow> bool" where
  "startup g \<longleftrightarrow> zmm_probe_cached g = -1 \<and> zmm_probe_once g = 0 \<and> gf64_zmm_works g = 0 \<and>
    gf64_has_vpclmulqdq g = 0 \<and> gf64_current_method g = GF64_SCALAR \<and>
    workload_cached g = -1 \<and> avx512_force_cached g = -1"

text \<open>One such start state, with pointers that stand for the null ones.\<close>

definition start_globals :: gf64_globals where
  "start_globals =
    \<lparr>zmm_probe_cached = -1, zmm_probe_once = 0, gf64_zmm_works = 0,
     gf64_region_mul = (\<lambda>_ _ _ _. []), gf64_region_mul_arr = (\<lambda>_ _ _ _ _. []),
     gf64_region_muladd_arr = (\<lambda>_ _ _ _ _. []), gf64_region_coupled_muladd_arr = (\<lambda>_ _ _ _ _. []),
     gf64_region_fused_output_muladd_arr = (\<lambda>_ _ _ _ _. []),
     gf64_region_2d_muladd_arr = (\<lambda>_ _ _ _ _ _ _. []), gf64_inverse_batch = (\<lambda>_ _ _. []),
     gf64_current_method = GF64_SCALAR, gf64_has_vpclmulqdq = 0,
     workload_cached = -1, avx512_force_cached = -1\<rparr>"

lemma startup_start_globals: "startup start_globals"
  by (simp add: startup_def start_globals_def)

inductive dispatch_reachable :: "environment \<Rightarrow> gf64_globals \<Rightarrow> bool" for getenv where
  start: "startup g \<Longrightarrow> gf64_init_dispatch getenv hosts g = Some g' \<Longrightarrow> dispatch_reachable getenv g'"
| reinit: "dispatch_reachable getenv g \<Longrightarrow> gf64_init_dispatch getenv hosts g = Some g' \<Longrightarrow>
    dispatch_reachable getenv g'"
| rebind: "dispatch_reachable getenv g \<Longrightarrow> gf64_apply_method h m g = Some g' \<Longrightarrow>
    dispatch_reachable getenv g'"
| workload: "dispatch_reachable getenv g \<Longrightarrow>
    gf64_method_for_workload getenv hosts num_in num_out block_size g = Some (m, g') \<Longrightarrow>
    dispatch_reachable getenv g'"

lemma startup_ok: "startup g \<Longrightarrow> capability_ok g"
  by (simp add: startup_def capability_ok_def probe_ok_def)

lemma dispatch_reachable_ok:
  assumes "dispatch_reachable getenv g"
  shows "dispatch_ok g"
  using assms
proof (induction rule: dispatch_reachable.induct)
  case (start g hosts g')
  then show ?case using init_dispatch_ok [OF startup_ok, where getenv = getenv and hosts = hosts] by fastforce
next
  case (reinit g hosts g')
  then show ?case using init_dispatch_ok [of g hosts getenv] by (auto simp: dispatch_ok_def)
next
  case (rebind g h m g')
  then show ?case using apply_total [of g h m] by (auto simp: dispatch_ok_def)
next
  case (workload g hosts num_in num_out block_size m g')
  then show ?case using workload_total [of g getenv hosts num_in num_out block_size] by auto
qed

end
