(* ===== verification/Region_Correctness.thy ===== *)
theory Region_Correctness
  imports Dispatch
begin

text \<open>The properties of the region kernels and of the pointers the dispatcher binds to them.\<close>

text \<open>
  C30. The SSSE3 kernels (single products reduced in scalar or packed form) compute what the scalar
  kernels compute, for all lengths, offsets, coefficients and outputs.
\<close>

theorem ssse3_kernels_agree:
  "gf64_region_mul_ssse3 out inp len c = gf64_region_mul_scalar out inp len c \<and>
    gf64_region_mul_ssse3_arr out inp cs len n = gf64_region_mul_scalar_arr out inp cs len n \<and>
    gf64_region_muladd_ssse3_arr out inp cs len n = gf64_region_muladd_scalar_arr out inp cs len n \<and>
    gf64_region_coupled_muladd_ssse3_arr out ins cs len G =
      gf64_region_coupled_muladd_scalar_arr out ins cs len G \<and>
    gf64_region_fused_output_muladd_ssse3_arr outs inp css len K =
      gf64_region_fused_output_muladd_scalar_arr outs inp css len K \<and>
    gf64_region_2d_muladd_ssse3_arr outs K ins G c2d K_stride len =
      gf64_region_2d_muladd_scalar_arr outs K ins G c2d K_stride len"
  by (simp add: region_mul_ssse3_eq region_mul_ssse3_arr_eq region_muladd_ssse3_arr_eq
      region_coupled_muladd_ssse3_arr_eq region_fused_ssse3_arr_eq region_2d_ssse3_arr_eq)

text \<open>
  C29. The AVX2 kernels (two products per instruction, eight unrolled streams, lazily reduced
  accumulation, chunks of 256 outputs with the zero coefficients skipped, scalar tails) compute
  what the scalar kernels compute.
\<close>

theorem avx2_kernels_agree:
  "gf64_region_mul_avx2 out inp len c = gf64_region_mul_scalar out inp len c \<and>
    gf64_region_mul_avx2_arr out inp cs len n = gf64_region_mul_scalar_arr out inp cs len n \<and>
    gf64_region_muladd_avx2_arr out inp cs len n = gf64_region_muladd_scalar_arr out inp cs len n \<and>
    gf64_region_coupled_muladd_avx2_arr out ins cs len G =
      gf64_region_coupled_muladd_scalar_arr out ins cs len G \<and>
    gf64_region_fused_output_muladd_avx2_arr outs inp css len K =
      gf64_region_fused_output_muladd_scalar_arr outs inp css len K \<and>
    gf64_region_2d_muladd_avx2_arr outs K ins G c2d K_stride len =
      gf64_region_2d_muladd_scalar_arr outs K ins G c2d K_stride len"
  by (simp add: region_mul_avx2_eq region_mul_avx2_arr_eq region_muladd_avx2_arr_eq
      region_coupled_muladd_avx2_arr_eq region_fused_avx2_arr_eq region_2d_avx2_arr_eq)

text \<open>
  C28. The AVX-512 kernels (expand-loads, four products per instruction, eight unrolled streams,
  masked stores, lazily reduced accumulation, scalar tails) compute what the scalar kernels compute.
\<close>

theorem avx512_kernels_agree:
  "gf64_region_mul_avx512 out inp len c = gf64_region_mul_scalar out inp len c \<and>
    gf64_region_mul_avx512_arr out inp cs len n = gf64_region_mul_scalar_arr out inp cs len n \<and>
    gf64_region_muladd_avx512_arr out inp cs len n = gf64_region_muladd_scalar_arr out inp cs len n \<and>
    gf64_region_coupled_muladd_avx512_arr out ins cs len G =
      gf64_region_coupled_muladd_scalar_arr out ins cs len G \<and>
    gf64_region_fused_output_muladd_avx512_arr outs inp css len K =
      gf64_region_fused_output_muladd_scalar_arr outs inp css len K \<and>
    gf64_region_2d_muladd_avx512_arr outs K ins G c2d K_stride len =
      gf64_region_2d_muladd_scalar_arr outs K ins G c2d K_stride len"
  by (simp add: region_mul_avx512_eq region_mul_avx512_arr_eq region_muladd_avx512_arr_eq
      region_coupled_muladd_avx512_arr_eq region_fused_avx512_arr_eq region_2d_avx512_arr_eq)

text \<open>
  C31. Whatever method is bound, the multi-output kernel adds to word i of output k exactly the sum
  of in[g][i] * coeff[k * K_stride + g] over the inputs g, for the first len words of the first K
  outputs, and changes nothing else.
\<close>

theorem bound_2d_adds_the_matrix_product:
  assumes "k < length outs" and "i < length (outs ! k)"
  shows "Gf (gf64_region_2d_muladd_arr (bind_kernels m g) outs K ins G c2d K_stride len ! k ! i) =
    Gf (outs ! k ! i) + (if i < len \<and> k < K
      then \<Sum>j=0..<G. Gf (ins ! j ! i) * Gf (c2d ! (k * K_stride + j)) else 0)"
  using assms by (simp only: bound.two_d nth_acc_rows nth_acc_row gf.collapse)

theorem bound_2d_adds_the_matrix_product_witness:
  "\<forall>g :: gf64_globals.
    Gf (gf64_region_2d_muladd_arr (bind_kernels GF64_AVX512 g) [[1, 2]] 1 [[3, 4]] 1 [5] 1 2 ! 0 ! 1) =
    Gf 2 + Gf 4 * Gf 5"
proof
  fix g :: gf64_globals
  show "Gf (gf64_region_2d_muladd_arr (bind_kernels GF64_AVX512 g) [[1, 2]] 1 [[3, 4]] 1 [5] 1 2 ! 0 ! 1) =
    Gf 2 + Gf 4 * Gf 5"
    using bound_2d_adds_the_matrix_product [of 0 "[[1, 2]]" 1 GF64_AVX512 g 1 "[[3, 4]]" 1 "[5]" 1 2]
    by simp
qed

text \<open>
  Repair undoes encoding: with any bound methods, even different ones, adding the contribution
  of an input to an output a second time restores the output, and the contributions of two inputs
  may be added in either order.
\<close>

theorem contributions_cancel_and_commute:
  "gf64_region_muladd_arr (bind_kernels m g)
      (gf64_region_muladd_arr (bind_kernels m' g') out inp cs len n) inp cs len n = out \<and>
    gf64_region_muladd_arr (bind_kernels m g)
      (gf64_region_muladd_arr (bind_kernels m' g') out inp cs len n) inp' cs' len' n' =
    gf64_region_muladd_arr (bind_kernels m' g')
      (gf64_region_muladd_arr (bind_kernels m g) out inp' cs' len' n') inp cs len n"
proof -
  have "gf64_region_muladd_arr (bind_kernels m' g') = gf64_region_muladd_arr (bind_kernels m g)"
    by (intro ext) (simp only: bound.muladd)
  then show ?thesis using bound.muladd_twice bound.muladd_commute by metis
qed

text \<open>
  A pass of the coupled kernel over one list of inputs followed by a pass over a second list is
  one pass over both: the encoder may split its inputs into batches of any size.
\<close>

theorem coupled_batches_split:
  assumes "length ins = length cs" and "length ins' = length cs'"
  shows "gf64_region_coupled_muladd_arr (bind_kernels m g)
      (gf64_region_coupled_muladd_arr (bind_kernels m g) out ins cs len (length cs)) ins' cs' len (length cs') =
    gf64_region_coupled_muladd_arr (bind_kernels m g) out (ins @ ins') (cs @ cs') len (length cs + length cs')"
  by (rule bound.coupled_append [OF assms])

theorem coupled_batches_split_witness:
  "\<forall>g :: gf64_globals. gf64_region_coupled_muladd_arr (bind_kernels GF64_AVX2 g)
      (gf64_region_coupled_muladd_arr (bind_kernels GF64_AVX2 g) [1] [[2]] [3] 1 1) [[4], [5]] [6, 7] 1 2 =
    gf64_region_coupled_muladd_arr (bind_kernels GF64_AVX2 g) [1] [[2], [4], [5]] [3, 6, 7] 1 3"
proof
  fix g :: gf64_globals
  show "gf64_region_coupled_muladd_arr (bind_kernels GF64_AVX2 g)
      (gf64_region_coupled_muladd_arr (bind_kernels GF64_AVX2 g) [1] [[2]] [3] 1 1) [[4], [5]] [6, 7] 1 2 =
    gf64_region_coupled_muladd_arr (bind_kernels GF64_AVX2 g) [1] [[2], [4], [5]] [3, 6, 7] 1 3"
    using coupled_batches_split [of "[[2]]" "[3]" "[[4], [5]]" "[6, 7]" GF64_AVX2 g "[1]" 1]
    by (simp add: numeral_2_eq_2 numeral_3_eq_3)
qed

text \<open>
  The element-wise product writes the field product in every slot below N and nothing else,
  whatever the bound method and the capability flag are, so the two paths are interchangeable.
\<close>

theorem elem_mul_independent_of_dispatch:
  assumes "N \<le> length out"
  shows "gf64_elem_mul g out a b N = map (\<lambda>i. gf_rep (Gf (a ! i) * Gf (b ! i))) [0..<N] @ drop N out"
  by (simp add: elem_mul_eq [OF assms] Gf_mul_reference [symmetric] del: Gf_mul_reference)

theorem elem_mul_independent_of_dispatch_witness:
  "\<forall>g :: gf64_globals. gf64_elem_mul g [1, 2] [3, 4] [5, 6] 1 = [gf_rep (Gf 3 * Gf 5), 2]"
proof
  fix g :: gf64_globals
  show "gf64_elem_mul g [1, 2] [3, 4] [5, 6] 1 = [gf_rep (Gf 3 * Gf 5), 2]"
    using elem_mul_independent_of_dispatch [of 1 "[1, 2]" g "[3, 4]" "[5, 6]"] by simp
qed

end
