(* ===== verification/Probe_Threads.thy ===== *)
theory Probe_Threads
  imports CPU_Detect
begin

text \<open>
  The threads that race in \<open>gf64_zmm_probe\<close> of gf64/cpu_detect.c, as a step relation: one step is
  one access to the shared variables. The states of a thread are the points of the function between
  two accesses. \<open>runs\<close> counts the executions of the probe body, the SIGILL handler being a
  resource of the process that only one thread may install; it is a ghost.
\<close>

datatype probe_pc =
    Fast_load           \<comment> \<open>about to load \<open>zmm_probe_cached\<close>\<close>
  | Try_cas             \<comment> \<open>cache miss, about to compare-and-swap \<open>zmm_probe_once\<close>\<close>
  | Run_probe           \<comment> \<open>won, about to run \<open>try_zmm_insn\<close>\<close>
  | Publish_works int   \<comment> \<open>about to write \<open>gf64_zmm_works\<close>\<close>
  | Publish_cache int   \<comment> \<open>about to store-release \<open>zmm_probe_cached\<close>\<close>
  | Spin                \<comment> \<open>lost, waiting for the cache\<close>
  | Read_cache          \<comment> \<open>the final plain read\<close>
  | Returned int

record threads = probe +
  pc :: "nat \<Rightarrow> probe_pc"
  runs :: nat

definition goto :: "nat \<Rightarrow> probe_pc \<Rightarrow> threads \<Rightarrow> threads" where
  "goto t p c = c\<lparr>pc := (pc c)(t := p)\<rparr>"

inductive probe_step :: "(nat \<Rightarrow> host) \<Rightarrow> threads \<Rightarrow> threads \<Rightarrow> bool" for h where
  hit: "pc c t = Fast_load \<Longrightarrow> zmm_probe_cached c \<noteq> -1 \<Longrightarrow>
    probe_step h c (goto t (Returned (zmm_probe_cached c)) c)"
| miss: "pc c t = Fast_load \<Longrightarrow> zmm_probe_cached c = -1 \<Longrightarrow> probe_step h c (goto t Try_cas c)"
| win: "pc c t = Try_cas \<Longrightarrow> zmm_probe_once c = 0 \<Longrightarrow>
    probe_step h c (goto t Run_probe (c\<lparr>zmm_probe_once := 1\<rparr>))"
| lose: "pc c t = Try_cas \<Longrightarrow> zmm_probe_once c \<noteq> 0 \<Longrightarrow> probe_step h c (goto t Spin c)"
| run: "pc c t = Run_probe \<Longrightarrow>
    probe_step h c (goto t (Publish_works (try_zmm_insn (h t))) (c\<lparr>runs := runs c + 1\<rparr>))"
| works: "pc c t = Publish_works r \<Longrightarrow>
    probe_step h c (goto t (Publish_cache r) (c\<lparr>gf64_zmm_works := r\<rparr>))"
| cache: "pc c t = Publish_cache r \<Longrightarrow>
    probe_step h c (goto t (Returned r) (c\<lparr>zmm_probe_cached := r\<rparr>))"
| wait_over: "pc c t = Spin \<Longrightarrow> zmm_probe_cached c \<noteq> -1 \<Longrightarrow> probe_step h c (goto t Read_cache c)"
| read: "pc c t = Read_cache \<Longrightarrow> probe_step h c (goto t (Returned (zmm_probe_cached c)) c)"

inductive_cases probe_stepE: "probe_step h c c'"

definition threads_init :: threads where
  "threads_init = \<lparr>zmm_probe_cached = -1, zmm_probe_once = 0, gf64_zmm_works = 0,
    pc = (\<lambda>_. Fast_load), runs = 0\<rparr>"

inductive reachable :: "(nat \<Rightarrow> host) \<Rightarrow> threads \<Rightarrow> bool" for h where
  init: "reachable h threads_init"
| step: "reachable h c \<Longrightarrow> probe_step h c c' \<Longrightarrow> reachable h c'"

text \<open>The three phases of the probe: nobody has won, thread \<open>w\<close> is running it, it is published.\<close>

fun probing :: "probe_pc \<Rightarrow> bool" where
  "probing Run_probe = True"
| "probing (Publish_works r) = True"
| "probing (Publish_cache r) = True"
| "probing _ = False"

fun waiting :: "probe_pc \<Rightarrow> bool" where
  "waiting Fast_load = True"
| "waiting Try_cas = True"
| "waiting Spin = True"
| "waiting _ = False"

definition untouched :: "threads \<Rightarrow> bool" where
  "untouched c \<longleftrightarrow> zmm_probe_once c = 0 \<and> zmm_probe_cached c = -1 \<and> runs c = 0 \<and>
    (\<forall>t. pc c t \<in> {Fast_load, Try_cas})"

definition running :: "nat \<Rightarrow> threads \<Rightarrow> bool" where
  "running w c \<longleftrightarrow> zmm_probe_once c = 1 \<and> zmm_probe_cached c = -1 \<and>
    (\<forall>t. t \<noteq> w \<longrightarrow> waiting (pc c t)) \<and>
    (pc c w = Run_probe \<and> runs c = 0 \<or>
     (\<exists>r\<in>{0, 1}. pc c w = Publish_works r \<and> runs c = 1) \<or>
     (\<exists>r\<in>{0, 1}. pc c w = Publish_cache r \<and> runs c = 1 \<and> gf64_zmm_works c = r))"

definition published :: "threads \<Rightarrow> bool" where
  "published c \<longleftrightarrow> zmm_probe_once c = 1 \<and> zmm_probe_cached c \<in> {0, 1} \<and> runs c = 1 \<and>
    gf64_zmm_works c = zmm_probe_cached c \<and>
    (\<forall>t. waiting (pc c t) \<or> pc c t = Read_cache \<or> pc c t = Returned (zmm_probe_cached c))"

lemma untouched_init: "untouched threads_init"
  by (simp add: untouched_def threads_init_def)

lemma try_zmm_01: "try_zmm_insn h \<in> {0, 1}"
  by (simp add: try_zmm_insn_def)

lemma untouched_step:
  assumes "untouched c" "probe_step h c c'"
  shows "untouched c' \<or> (\<exists>w. running w c')"
  using assms(2)
proof (cases rule: probe_step.cases)
  case (win t)
  have "waiting (pc c t')" for t'
    using assms(1) by (auto simp: untouched_def dest!: spec [of _ t'])
  then have "running t c'"
    using win assms(1) by (auto simp: running_def untouched_def goto_def)
  then show ?thesis by blast
next
  case (run t)
  then show ?thesis using assms(1) by (auto simp: untouched_def dest: spec [of _ t])
next
  case (works t r)
  then show ?thesis using assms(1) by (auto simp: untouched_def dest: spec [of _ t])
next
  case (cache t r)
  then show ?thesis using assms(1) by (auto simp: untouched_def dest: spec [of _ t])
next
  case (read t)
  then show ?thesis using assms(1) by (auto simp: untouched_def dest: spec [of _ t])
next
  case (wait_over t)
  then show ?thesis using assms(1) by (auto simp: untouched_def)
qed (use assms(1) in \<open>auto simp: untouched_def goto_def\<close>)

lemma running_step:
  assumes "running w c" "probe_step h c c'"
  shows "running w c' \<or> published c'"
proof -
  have other: "waiting (pc c t)" if "t \<noteq> w" for t using assms(1) that by (simp add: running_def)
  have notw: "\<not> waiting (pc c w)" using assms(1) by (auto simp: running_def)
  have "pc c w \<noteq> Read_cache" using assms(1) by (auto simp: running_def)
  then have no_read: "pc c t \<noteq> Read_cache" for t using other [of t] by (cases "t = w") auto
  show ?thesis
    using assms(2)
  proof (cases rule: probe_step.cases)
    case (run t)
    then have "t = w" using other [of t] by (cases "t = w") auto
    then show ?thesis
      using run assms(1) try_zmm_01 [of "h t"] by (auto simp: running_def goto_def)
  next
    case (works t r)
    then have "t = w" using other [of t] by (cases "t = w") auto
    then show ?thesis
      using works assms(1) by (auto simp: running_def goto_def)
  next
    case (cache t r)
    then have "t = w" using other [of t] by (cases "t = w") auto
    then show ?thesis
      using cache assms(1) by (auto simp: running_def published_def goto_def)
  next
    case (miss t)
    then have "t \<noteq> w" using notw by auto
    then show ?thesis using miss assms(1) by (auto simp: running_def goto_def)
  next
    case (lose t)
    then have "t \<noteq> w" using notw by auto
    then show ?thesis using lose assms(1) by (auto simp: running_def goto_def)
  qed (use assms(1) no_read in \<open>auto simp: running_def\<close>)
qed

lemma published_step:
  assumes "published c" "probe_step h c c'"
  shows "published c'"
proof -
  have t: "waiting (pc c t) \<or> pc c t = Read_cache \<or> pc c t = Returned (zmm_probe_cached c)" for t
    using assms(1) by (simp add: published_def)
  show ?thesis
    using assms(2)
  proof (cases rule: probe_step.cases)
    case (run u) then show ?thesis using t [of u] by simp
  next
    case (works u r) then show ?thesis using t [of u] by simp
  next
    case (cache u r) then show ?thesis using t [of u] by simp
  qed (use assms(1) in \<open>auto simp: published_def goto_def\<close>)
qed

lemma reachable_phases:
  assumes "reachable h c"
  shows "untouched c \<or> (\<exists>w. running w c) \<or> published c"
  using assms
proof (induction rule: reachable.induct)
  case (step c c')
  then show ?case
    using untouched_step running_step published_step by blast
qed (simp add: untouched_init)

text \<open>Some thread can move as long as one has not returned: the waiters are not stuck.\<close>

lemma phase_enabled:
  assumes "untouched c \<or> (\<exists>w. running w c) \<or> published c" "\<forall>r. pc c t \<noteq> Returned r"
  shows "\<exists>c'. probe_step h c c'"
  using assms(1)
proof (elim disjE exE)
  assume u: "untouched c"
  then have "pc c t \<in> {Fast_load, Try_cas}" by (simp add: untouched_def)
  with u show ?thesis
    by (auto simp: untouched_def intro: probe_step.miss probe_step.win)
next
  fix w assume "running w c"
  then show ?thesis
    unfolding running_def by (auto intro: probe_step.run probe_step.works probe_step.cache)
next
  assume p: "published c"
  then have "waiting (pc c t) \<or> pc c t = Read_cache" using assms(2) by (auto simp: published_def)
  then consider "pc c t = Fast_load" | "pc c t = Try_cas" | "pc c t = Spin" | "pc c t = Read_cache"
    by (cases "pc c t") auto
  moreover have "zmm_probe_cached c \<noteq> -1" "zmm_probe_once c \<noteq> 0" using p by (auto simp: published_def)
  ultimately show ?thesis
    by (metis probe_step.hit probe_step.lose probe_step.wait_over probe_step.read)
qed

text \<open>
  A contended run: threads 0 and 1 both miss the cache, thread 0 wins the flag and publishes, thread 1
  spins meanwhile and returns the published answer.
\<close>

lemma contended_run:
  obtains c where "reachable h c" "pc c 0 = Returned (try_zmm_insn (h 0))" "pc c 1 = Returned (try_zmm_insn (h 0))"
proof -
  define r where "r = try_zmm_insn (h 0)"
  define c1 where "c1 = goto 0 Try_cas threads_init"
  define c2 where "c2 = goto 1 Try_cas c1"
  define c3 where "c3 = goto 0 Run_probe (c2\<lparr>zmm_probe_once := 1\<rparr>)"
  define c4 where "c4 = goto 1 Spin c3"
  define c5 where "c5 = goto 0 (Publish_works r) (c4\<lparr>runs := runs c4 + 1\<rparr>)"
  define c6 where "c6 = goto 0 (Publish_cache r) (c5\<lparr>gf64_zmm_works := r\<rparr>)"
  define c7 where "c7 = goto 0 (Returned r) (c6\<lparr>zmm_probe_cached := r\<rparr>)"
  define c8 where "c8 = goto 1 Read_cache c7"
  define c9 where "c9 = goto 1 (Returned (zmm_probe_cached c8)) c8"
  note defs = c9_def c8_def c7_def c6_def c5_def c4_def c3_def c2_def c1_def goto_def threads_init_def
  have "reachable h c1" unfolding c1_def
    by (rule reachable.step [OF reachable.init probe_step.miss]) (simp_all add: threads_init_def)
  then have "reachable h c2" unfolding c2_def
    by (rule reachable.step [OF _ probe_step.miss]) (simp_all add: defs)
  then have "reachable h c3" unfolding c3_def
    by (rule reachable.step [OF _ probe_step.win]) (simp_all add: defs)
  then have "reachable h c4" unfolding c4_def
    by (rule reachable.step [OF _ probe_step.lose]) (simp_all add: defs)
  then have "reachable h c5" unfolding c5_def r_def
    by (rule reachable.step [OF _ probe_step.run]) (simp add: defs)
  then have "reachable h c6" unfolding c6_def
    by (rule reachable.step [OF _ probe_step.works]) (simp add: defs)
  then have "reachable h c7" unfolding c7_def
    by (rule reachable.step [OF _ probe_step.cache]) (simp add: defs)
  then have "reachable h c8" unfolding c8_def
    by (rule reachable.step [OF _ probe_step.wait_over]) (simp_all add: defs r_def try_zmm_insn_def)
  then have "reachable h c9" unfolding c9_def
    by (rule reachable.step [OF _ probe_step.read]) (simp add: defs)
  then show ?thesis by (rule that) (simp_all add: defs r_def)
qed

end
