(* ===== verification/Dispatch_Correctness.thy ===== *)
theory Dispatch_Correctness
  imports Dispatch Probe_Threads
begin

text \<open>
  The properties of instruction-set detection, of the dispatcher's state and of the threads that
  race for the SIGILL probe.
\<close>

text \<open>
  C32. However many threads race into \<open>gf64_zmm_probe\<close>, and however their steps interleave, the probe
  body runs at most once, and every thread that has returned got the same answer, which is the
  published one and the value of \<open>gf64_zmm_works\<close>.
\<close>

theorem probe_runs_once_and_agrees:
  assumes "reachable h c"
  shows "runs c \<le> 1 \<and> (pc c t = Returned r \<longrightarrow>
    runs c = 1 \<and> r \<in> {0, 1} \<and> zmm_probe_cached c = r \<and> gf64_zmm_works c = r)"
  using reachable_phases [OF assms]
proof (elim disjE exE)
  assume "untouched c"
  then have "pc c t \<in> {Fast_load, Try_cas}" "runs c = 0" by (simp_all add: untouched_def)
  then show ?thesis by auto
next
  fix w assume r: "running w c"
  then have "\<not> (\<exists>r. pc c t = Returned r)"
    by (cases "t = w") (auto simp: running_def dest!: spec [of _ t])
  then show ?thesis using r by (auto simp: running_def)
next
  assume p: "published c"
  then have "waiting (pc c t) \<or> pc c t = Read_cache \<or> pc c t = Returned (zmm_probe_cached c)"
    by (simp add: published_def)
  then have "pc c t = Returned r \<longrightarrow> zmm_probe_cached c = r" by auto
  then show ?thesis using p by (auto simp: published_def)
qed

text \<open>Two threads that contend for the probe and have both returned.\<close>

theorem probe_runs_once_and_agrees_witness:
  "\<forall>h. \<exists>c. reachable h c \<and> pc c 0 = Returned (try_zmm_insn (h 0)) \<and> pc c 1 = Returned (try_zmm_insn (h 0)) \<and>
    runs c = 1 \<and> zmm_probe_cached c = try_zmm_insn (h 0) \<and> gf64_zmm_works c = try_zmm_insn (h 0)"
proof
  fix h
  obtain c where c: "reachable h c" "pc c 0 = Returned (try_zmm_insn (h 0))" "pc c 1 = Returned (try_zmm_insn (h 0))"
    by (rule contended_run)
  show "\<exists>c. reachable h c \<and> pc c 0 = Returned (try_zmm_insn (h 0)) \<and> pc c 1 = Returned (try_zmm_insn (h 0)) \<and>
    runs c = 1 \<and> zmm_probe_cached c = try_zmm_insn (h 0) \<and> gf64_zmm_works c = try_zmm_insn (h 0)"
    using c probe_runs_once_and_agrees [OF c(1), of 1] by blast
qed



text \<open>
  C34. Detection always answers (it never spins on the one-shot flag), and the answer is the best
  of its five polls; when the answer is AVX-512, a ZMM instruction has executed and some poll saw
  VPCLMULQDQ enabled.
\<close>

theorem detection_is_best_poll:
  assumes "probe_ok s"
  shows "\<exists>results s'. poll_methods hosts GF64_POLL_COUNT s = Some (results, s') \<and>
    gf64_detect_method hosts s = Some (Min (set results), s') \<and> probe_ok s' \<and>
    (Min (set results) = GF64_AVX512 \<longrightarrow> gf64_zmm_works s' = 1 \<and>
      (\<exists>i<GF64_POLL_COUNT. gf64_has_vpclmulqdq_probe (hosts i) = 1))"
  using detect_method_total [OF assms] by blast

theorem detection_is_best_poll_witness:
  "\<forall>hosts. \<exists>m s'. gf64_detect_method hosts probe_init = Some (m, s')"
  using detection_is_best_poll [OF probe_ok_init] by blast

text \<open>
  Initialisation from the program's start state always completes, whatever the environment and
  the hosts are; it binds the method that the override asks for or else the detected one.
\<close>

theorem init_binds_requested_method:
  assumes "startup g"
  shows "\<exists>results g1 g'. poll_methods hosts GF64_POLL_COUNT g = Some (results, g1) \<and>
    gf64_init_dispatch getenv hosts g = Some g' \<and>
    gf64_current_method g' =
      requested_method (fst (parse_avx512_force_env getenv (Min (set results)) g)) (Min (set results))"
  using init_dispatch_ok [OF startup_ok [OF assms]] by blast

theorem init_binds_requested_method_witness:
  "\<forall>hosts. \<exists>g'. gf64_init_dispatch (\<lambda>v. if v = ''PAR3_GF64_USE_AVX512'' then Some ''On'' else None)
    hosts start_globals = Some g' \<and> gf64_current_method g' = GF64_AVX512"
proof
  fix hosts :: "nat \<Rightarrow> host"
  let ?env = "\<lambda>v. if v = ''PAR3_GF64_USE_AVX512'' then Some ''On'' else None"
  have "strcaseeq ''On'' ''on''" by code_simp
  then have "requested_method (fst (parse_avx512_force_env ?env d start_globals)) d = GF64_AVX512" for d
    by (simp add: parse_avx512_force_env_def start_globals_def requested_method_def)
  then show "\<exists>g'. gf64_init_dispatch ?env hosts start_globals = Some g' \<and> gf64_current_method g' = GF64_AVX512"
    using init_binds_requested_method [OF startup_start_globals, of hosts ?env] by auto
qed





text \<open>
  With neither override set, the method chosen for a workload is the detected one for every
  number of inputs and outputs and every block size: the downgrade to AVX2 never happens.
\<close>

theorem workload_never_downgrades:
  assumes "gf64_detect_method hosts g = Some (detected, g1)"
    and "getenv ''PAR3_AVX512_FORCE'' = None" and "getenv ''PAR3_GF64_USE_AVX512'' = None"
    and "avx512_force_cached g1 = -1"
  shows "\<exists>g'. gf64_method_for_workload getenv hosts num_in num_out block_size g = Some (detected, g')"
proof -
  have "avx512_force_cached (snd (parse_workload_size_env getenv g1)) = -1"
    using assms(4) by (auto simp: parse_workload_size_env_def Let_def split: option.split prod.split)
  then show ?thesis
    using assms by (intro workload_default) (auto simp: gf64_parse_force_env_def parse_avx512_force_env_def)
qed

theorem workload_never_downgrades_witness:
  "\<forall>h. \<exists>d g'. gf64_method_for_workload (\<lambda>_. None) h 1000 1000 4096 start_globals = Some (d, g')"
proof
  fix h
  obtain d g1 where d: "gf64_detect_method h start_globals = Some (d, g1)" "avx512_force_cached g1 = -1"
    using detect_method_ok [OF startup_ok [OF startup_start_globals], of h]
    by (auto simp: start_globals_def)
  show "\<exists>d g'. gf64_method_for_workload (\<lambda>_. None) h 1000 1000 4096 start_globals = Some (d, g')"
    using workload_never_downgrades [OF d(1) _ _ d(2), of "\<lambda>_. None" 1000 1000 4096] by auto
qed

text \<open>
  The overflow guard of the working-set estimate is exact: when it lets a workload through, the
  64-bit product is the product of the numbers.
\<close>

theorem working_set_does_not_wrap:
  assumes "working_set_bytes num_in num_out block_size = Some ws"
  shows "unat ws = unat block_size * 8 * unat (num_in + num_out)"
  by (rule working_set_exact [OF assms])

theorem working_set_does_not_wrap_witness:
  "unat (240 :: 64 word) = unat (10 :: 64 word) * 8 * unat (1 + 2 :: 64 word)"
proof (rule working_set_does_not_wrap)
  show "working_set_bytes 1 2 10 = Some 240"
    by (simp add: working_set_bytes_def word_less_nat_alt unat_div_distrib)
qed

text \<open>
  The AVX2 answer of the detection rests on three bits of CPUID leaf 1 only (AVX, FMA and
  OSXSAVE). There are processors with neither AVX2 (leaf 7 EBX bit 5) nor VPCLMULQDQ (leaf 7 ECX
  bit 10), which the AVX2 kernels are compiled for, on which it answers AVX2.
\<close>

lemma avx2_detected_without_vpclmulqdq:
  "\<exists>h. \<not> bit (ebx (gf64_cpuid h 7 0)) 5 \<and> \<not> bit (ecx (gf64_cpuid h 7 0)) 10 \<and>
    gf64_detect_method_internal h probe_init = Some (GF64_AVX2, probe_init)"
proof -
  let ?h = "\<lparr>gf64_cpuid = \<lambda>leaf _. \<lparr>eax = 0, ebx = 0, ecx = if leaf = 1 then 0x18001000 else 0, edx = 0\<rparr>,
    gf64_xgetbv = \<lambda>_. 7, zmm_executes = False\<rparr>"
  have "gf64_detect_method_internal ?h probe_init = Some (GF64_AVX2, probe_init)"
    by (simp add: gf64_detect_method_internal_def detect_fallback_def bit_numeral_rec)
  then show ?thesis by (intro exI [of _ ?h]) simp
qed

end
