(* ===== verification/Solve.thy ===== *)
theory Solve
  imports GF64_Invert
begin

text \<open>
  The linear solver of gf64/gf64_solve.c: Gauss-Jordan elimination with a partial pivot search on
  the augmented matrix, a flat array of \<open>n\<close> rows of \<open>n + 1\<close> entries. The loops are the code's; the
  early return of -1 on a column without pivot is the None of the column loop. \<open>malloc_ok\<close> says
  whether the allocation of the work array succeeds.
\<close>

definition idx :: "nat \<Rightarrow> nat \<Rightarrow> nat \<Rightarrow> nat" where
  "idx n i j = i * (n + 1) + j"

definition augment :: "gf64_t list \<Rightarrow> gf64_t list \<Rightarrow> nat \<Rightarrow> gf64_t list \<Rightarrow> gf64_t list" where
  "augment A b n aug =
    fold (\<lambda>i aug.
        let aug = fold (\<lambda>j aug. aug[idx n i j := A ! (i * n + j)]) [0..<n] aug
        in aug[idx n i n := b ! i])
      [0..<n] aug"

function find_pivot :: "gf64_t list \<Rightarrow> nat \<Rightarrow> nat \<Rightarrow> nat \<Rightarrow> nat" where
  "find_pivot aug n col pivot =
    (if pivot < n \<and> aug ! idx n pivot col = 0 then find_pivot aug n col (pivot + 1) else pivot)"
  by pat_completeness auto
termination by (relation "measure (\<lambda>(aug, n, col, pivot). n - pivot)") auto

declare find_pivot.simps [simp del]

definition swap_rows :: "nat \<Rightarrow> nat \<Rightarrow> nat \<Rightarrow> gf64_t list \<Rightarrow> gf64_t list" where
  "swap_rows n col pivot aug =
    fold (\<lambda>j aug.
        let temp = aug ! idx n col j;
            aug = aug[idx n col j := aug ! idx n pivot j]
        in aug[idx n pivot j := temp])
      [0..<n + 1] aug"

definition scale_row :: "nat \<Rightarrow> nat \<Rightarrow> gf64_t \<Rightarrow> gf64_t list \<Rightarrow> gf64_t list" where
  "scale_row n col pivot_inv aug =
    fold (\<lambda>j aug. aug[idx n col j := gf64_mul (aug ! idx n col j) pivot_inv]) [col..<n + 1] aug"

definition eliminate_row :: "nat \<Rightarrow> nat \<Rightarrow> nat \<Rightarrow> gf64_t list \<Rightarrow> gf64_t list" where
  "eliminate_row n col row aug =
    (if row \<noteq> col \<and> aug ! idx n row col \<noteq> 0
     then let factor = aug ! idx n row col
          in fold (\<lambda>j aug. aug[idx n row j :=
                 aug ! idx n row j XOR gf64_mul factor (aug ! idx n col j)]) [col..<n + 1] aug
     else aug)"

definition solve_column :: "nat \<Rightarrow> nat \<Rightarrow> gf64_t list \<Rightarrow> gf64_t list option" where
  "solve_column n col aug =
    (let pivot = find_pivot aug n col col
     in if pivot = n then None
        else let aug = (if pivot \<noteq> col then swap_rows n col pivot aug else aug);
                 pivot_val = aug ! idx n col col;
                 pivot_inv = gf64_inverse pivot_val;
                 aug = (if pivot_val \<noteq> 1 then scale_row n col pivot_inv aug else aug)
             in Some (fold (eliminate_row n col) [0..<n] aug))"

definition solve_columns :: "nat \<Rightarrow> nat \<Rightarrow> gf64_t list \<Rightarrow> gf64_t list option" where
  "solve_columns n cols aug =
    fold (\<lambda>col r. case r of None \<Rightarrow> None | Some aug \<Rightarrow> solve_column n col aug) [0..<cols] (Some aug)"

definition gf64_solve ::
  "bool \<Rightarrow> gf64_t list \<Rightarrow> gf64_t list \<Rightarrow> gf64_t list \<Rightarrow> nat \<Rightarrow> int \<times> gf64_t list" where
  "gf64_solve malloc_ok A b x n =
    (if n = 0 then (0, x)
     else if \<not> malloc_ok then (-1, x)
     else case solve_columns n n (augment A b n (replicate (n * (n + 1)) 0)) of
         None \<Rightarrow> (-1, x)
       | Some aug \<Rightarrow> (0, fold (\<lambda>i x. x[i := aug ! idx n i n]) [0..<n] x))"

section \<open>The matrix behind the array\<close>

definition entry :: "nat \<Rightarrow> gf64_t list \<Rightarrow> nat \<Rightarrow> nat \<Rightarrow> gf" where
  "entry n aug i j = Gf (aug ! idx n i j)"

lemma idx_inject [simp]:
  assumes "j \<le> n" "j' \<le> n"
  shows "idx n i j = idx n i' j' \<longleftrightarrow> i = i' \<and> j = j'"
proof
  assume "idx n i j = idx n i' j'"
  then have "idx n i j div (n + 1) = idx n i' j' div (n + 1)" "idx n i j mod (n + 1) = idx n i' j' mod (n + 1)"
    by simp_all
  moreover have "idx n i j div (n + 1) = i" "idx n i j mod (n + 1) = j" if "j \<le> n" for i j
    unfolding idx_def using that div_mult_self3 [of "n + 1" i j] mod_mult_self3 [of i "n + 1" j] by simp_all
  ultimately show "i = i' \<and> j = j'" using assms by simp
qed simp

lemma idx_less:
  assumes "i < n" "j \<le> n"
  shows "idx n i j < n * (n + 1)"
proof -
  have "idx n i j < (i + 1) * (n + 1)" using assms by (simp add: idx_def)
  also have "\<dots> \<le> n * (n + 1)" using assms by (intro mult_le_mono1) simp
  finally show ?thesis .
qed

text \<open>A loop along a row that combines it, entry by entry, with row \<open>c\<close>.\<close>

lemma fold_row:
  fixes aug :: "gf64_t list" and a c :: nat and h :: "gf64_t \<Rightarrow> gf64_t \<Rightarrow> gf64_t"
  assumes "length aug = n * (n + 1)" "r < n" "m \<le> n + 1"
  defines "f \<equiv> \<lambda>m. fold (\<lambda>j aug. aug[idx n r j := h (aug ! idx n r j) (aug ! idx n c j)]) [a..<m] aug"
  shows "length (f m) = n * (n + 1)"
    and "j \<le> n \<Longrightarrow> f m ! idx n i j =
      (if i = r \<and> a \<le> j \<and> j < m then h (aug ! idx n r j) (aug ! idx n c j) else aug ! idx n i j)"
proof -
  have *: "length (f m) = n * (n + 1) \<and> (\<forall>i j. j \<le> n \<longrightarrow> f m ! idx n i j =
      (if i = r \<and> a \<le> j \<and> j < m then h (aug ! idx n r j) (aug ! idx n c j) else aug ! idx n i j))"
    if "m \<le> n + 1" for m
    using that
  proof (induction m)
    case (Suc m)
    then have IH: "length (f m) = n * (n + 1)" "\<And>i j. j \<le> n \<Longrightarrow> f m ! idx n i j =
      (if i = r \<and> a \<le> j \<and> j < m then h (aug ! idx n r j) (aug ! idx n c j) else aug ! idx n i j)"
      and m: "m \<le> n" by auto
    show ?case
    proof (cases "a \<le> m")
      case True
      have "idx n r m < length (f m)" using IH(1) idx_less [OF assms(2) m] by simp
      moreover have "f (Suc m) = (f m)[idx n r m := h (f m ! idx n r m) (f m ! idx n c m)]"
        unfolding f_def fold_upt_Suc [OF True] ..
      ultimately show ?thesis
        using IH m True by (auto simp: nth_list_update)
    next
      case False
      then have "f (Suc m) = f m" by (simp add: f_def)
      then show ?thesis using IH False by auto
    qed
  qed (use assms in auto)
  show "length (f m) = n * (n + 1)" using * [OF assms(3)] by blast
  show "j \<le> n \<Longrightarrow> f m ! idx n i j =
      (if i = r \<and> a \<le> j \<and> j < m then h (aug ! idx n r j) (aug ! idx n c j) else aug ! idx n i j)"
    using * [OF assms(3)] by blast
qed

text \<open>The row operations as the matrix sees them.\<close>

lemma swap_rows_entry:
  assumes "length aug = n * (n + 1)" "c < n" "p < n" "c \<noteq> p"
  shows "length (swap_rows n c p aug) = n * (n + 1)"
    and "j \<le> n \<Longrightarrow> entry n (swap_rows n c p aug) i j =
      entry n aug (if i = c then p else if i = p then c else i) j"
proof -
  let ?f = "\<lambda>m. fold (\<lambda>j aug. let temp = aug ! idx n c j; aug = aug[idx n c j := aug ! idx n p j]
    in aug[idx n p j := temp]) [0..<m] aug"
  have *: "length (?f m) = n * (n + 1) \<and> (\<forall>i j. j \<le> n \<longrightarrow> ?f m ! idx n i j =
      aug ! idx n (if m \<le> j then i else if i = c then p else if i = p then c else i) j)"
    if "m \<le> n + 1" for m
    using that
  proof (induction m)
    case (Suc m)
    then have IH: "length (?f m) = n * (n + 1)" "\<And>i j. j \<le> n \<Longrightarrow> ?f m ! idx n i j =
      aug ! idx n (if m \<le> j then i else if i = c then p else if i = p then c else i) j"
      and m: "m \<le> n" by auto
    have "idx n c m < length (?f m)" "idx n p m < length (?f m)"
      using IH(1) idx_less [OF assms(2) m] idx_less [OF assms(3) m] by simp_all
    then show ?case
      using IH m assms(4) by (auto simp: Let_def nth_list_update fold_upt_Suc)
  qed (use assms in auto)
  show "length (swap_rows n c p aug) = n * (n + 1)"
    using * [of "n + 1"] by (simp add: swap_rows_def)
  show "j \<le> n \<Longrightarrow> entry n (swap_rows n c p aug) i j =
      entry n aug (if i = c then p else if i = p then c else i) j"
    using * [of "n + 1"] by (simp add: swap_rows_def entry_def)
qed

lemma scale_row_entry:
  assumes "length aug = n * (n + 1)" "c < n"
  shows "length (scale_row n c v aug) = n * (n + 1)"
    and "j \<le> n \<Longrightarrow> entry n (scale_row n c v aug) i j =
      (if i = c \<and> c \<le> j then entry n aug c j * Gf v else entry n aug i j)"
  using fold_row [OF assms order.refl, where h = "\<lambda>x y. gf64_mul x v" and a = c and c = c]
  by (simp_all add: scale_row_def entry_def Gf_mul)

lemma eliminate_row_entry:
  assumes "length aug = n * (n + 1)" "r < n"
  shows "length (eliminate_row n c r aug) = n * (n + 1)"
    and "j \<le> n \<Longrightarrow> c \<le> n \<Longrightarrow> entry n (eliminate_row n c r aug) i j =
      (if i = r \<and> r \<noteq> c \<and> c \<le> j then entry n aug r j + entry n aug r c * entry n aug c j
       else entry n aug i j)"
  using fold_row [OF assms order.refl,
      where h = "\<lambda>x y. x XOR gf64_mul (aug ! idx n r c) y" and a = c and c = c] assms(1)
  by (auto simp: eliminate_row_def entry_def Gf_mul Gf_xor Let_def)

lemma augment_entry:
  assumes "length aug = n * (n + 1)"
  shows "length (augment A b n aug) = n * (n + 1)"
    and "i < n \<Longrightarrow> j \<le> n \<Longrightarrow> entry n (augment A b n aug) i j =
      Gf (if j = n then b ! i else A ! (i * n + j))"
proof -
  let ?g = "\<lambda>i aug. let aug = fold (\<lambda>j aug. aug[idx n i j := A ! (i * n + j)]) [0..<n] aug
    in aug[idx n i n := b ! i]"
  have row: "length (?g i aug) = n * (n + 1) \<and> (\<forall>i' j. j \<le> n \<longrightarrow> ?g i aug ! idx n i' j =
      (if i' = i then if j = n then b ! i else A ! (i * n + j) else aug ! idx n i' j))"
    if "length aug = n * (n + 1)" "i < n" for i aug
  proof -
    let ?f = "\<lambda>m. fold (\<lambda>j aug. aug[idx n i j := A ! (i * n + j)]) [0..<m] aug"
    have *: "length (?f m) = n * (n + 1) \<and> (\<forall>i' j. j \<le> n \<longrightarrow> ?f m ! idx n i' j =
        (if i' = i \<and> j < m then A ! (i * n + j) else aug ! idx n i' j))" if "m \<le> n" for m
      using that
    proof (induction m)
      case (Suc m)
      then have "idx n i m < length (?f m)" using idx_less [OF \<open>i < n\<close>, of m] by simp
      then show ?case using Suc by (auto simp: nth_list_update less_Suc_eq fold_upt_Suc)
    qed (use \<open>length aug = n * (n + 1)\<close> in auto)
    have "idx n i n < length (?f n)" using * [of n] idx_less [OF \<open>i < n\<close>, of n] by simp
    then show ?thesis using * [of n] by (auto simp: Let_def nth_list_update)
  qed
  have *: "length (fold ?g [0..<m] aug) = n * (n + 1) \<and> (\<forall>i j. i < m \<longrightarrow> j \<le> n \<longrightarrow>
      fold ?g [0..<m] aug ! idx n i j = (if j = n then b ! i else A ! (i * n + j)))" if "m \<le> n" for m
    using that
  proof (induction m)
    case (Suc m)
    then show ?case using row [of "fold ?g [0..<m] aug" m] by (auto simp: less_Suc_eq fold_upt_Suc)
  qed (use assms in auto)
  show "length (augment A b n aug) = n * (n + 1)"
    using * [of n] by (simp add: augment_def)
  show "i < n \<Longrightarrow> j \<le> n \<Longrightarrow> entry n (augment A b n aug) i j =
      Gf (if j = n then b ! i else A ! (i * n + j))"
    using * [of n] by (simp add: augment_def entry_def)
qed

section \<open>Elimination keeps the solutions\<close>

text \<open>
  The kernel of an \<open>n\<close> by \<open>n + 1\<close> matrix: a vector with last entry 1 is a solution of the system, one
  with last entry 0 a solution of the homogeneous system (subtraction is addition here).
\<close>

definition row_value :: "nat \<Rightarrow> (nat \<Rightarrow> nat \<Rightarrow> gf) \<Rightarrow> (nat \<Rightarrow> gf) \<Rightarrow> nat \<Rightarrow> gf" where
  "row_value n M w i = (\<Sum>j=0..<n + 1. M i j * w j)"

definition in_kernel :: "nat \<Rightarrow> (nat \<Rightarrow> nat \<Rightarrow> gf) \<Rightarrow> (nat \<Rightarrow> gf) \<Rightarrow> bool" where
  "in_kernel n M w \<longleftrightarrow> (\<forall>i<n. row_value n M w i = 0)"

text \<open>The first \<open>col\<close> columns are unit columns.\<close>

definition reduced :: "nat \<Rightarrow> nat \<Rightarrow> (nat \<Rightarrow> nat \<Rightarrow> gf) \<Rightarrow> bool" where
  "reduced n col M \<longleftrightarrow> (\<forall>i<n. \<forall>j<col. M i j = (if i = j then 1 else 0))"

lemma kernel_cong:
  assumes "\<And>i j. i < n \<Longrightarrow> j \<le> n \<Longrightarrow> M i j = N i j"
  shows "in_kernel n M = in_kernel n N"
  using assms by (auto simp: fun_eq_iff in_kernel_def row_value_def)

lemma kernel_swap:
  assumes "c < n" "p < n"
  shows "in_kernel n (\<lambda>i. M (if i = c then p else if i = p then c else i)) = in_kernel n M"
proof (rule ext)
  fix w
  let ?s = "\<lambda>i. if i = c then p else if i = p then c else i"
  have s: "?s (?s i) = i" "i < n \<Longrightarrow> ?s i < n" for i using assms by auto
  have "row_value n (\<lambda>i. M (?s i)) w i = row_value n M w (?s i)" for i
    by (simp add: row_value_def)
  then have "in_kernel n (\<lambda>i. M (?s i)) w \<longleftrightarrow> (\<forall>i<n. row_value n M w (?s i) = 0)"
    by (simp add: in_kernel_def)
  also have "\<dots> \<longleftrightarrow> in_kernel n M w"
  proof
    assume *: "\<forall>i<n. row_value n M w (?s i) = 0"
    have "row_value n M w i = 0" if "i < n" for i
      using * [rule_format, OF s(2) [OF that]] unfolding s(1) .
    then show "in_kernel n M w" by (simp add: in_kernel_def)
  qed (use s(2) in \<open>simp add: in_kernel_def\<close>)
  finally show "in_kernel n (\<lambda>i. M (?s i)) w = in_kernel n M w" .
qed

lemma kernel_scale:
  assumes "v \<noteq> 0"
  shows "in_kernel n (\<lambda>i j. if i = c then M c j * v else M i j) = in_kernel n M"
proof (rule ext)
  fix w
  have "row_value n (\<lambda>i j. if i = c then M c j * v else M i j) w i =
      (if i = c then v * row_value n M w c else row_value n M w i)" for i
    by (simp add: row_value_def sum_distrib_left ac_simps del: sum.op_ivl_Suc)
  then show "in_kernel n (\<lambda>i j. if i = c then M c j * v else M i j) w = in_kernel n M w"
    using assms by (auto simp: in_kernel_def)
qed

lemma kernel_eliminate:
  assumes "c < n"
  shows "in_kernel n (\<lambda>i j. if i = c then M c j else M i j + f i * M c j) = in_kernel n M"
proof (rule ext)
  fix w
  have "row_value n (\<lambda>i j. if i = c then M c j else M i j + f i * M c j) w i =
      (if i = c then row_value n M w c else row_value n M w i + f i * row_value n M w c)" for i
    by (simp add: row_value_def sum_distrib_left distrib_right sum.distrib mult.assoc
        del: sum.op_ivl_Suc)
  then show "in_kernel n (\<lambda>i j. if i = c then M c j else M i j + f i * M c j) w = in_kernel n M w"
    using assms by (cases "row_value n M w c = 0") (simp_all add: in_kernel_def, metis, blast)
qed

text \<open>The elimination loop of one column.\<close>

lemma eliminate_column:
  assumes "length aug = n * (n + 1)" "c < n" "m \<le> n"
  shows "length (fold (eliminate_row n c) [0..<m] aug) = n * (n + 1) \<and>
    (\<forall>i<n. \<forall>j\<le>n. entry n (fold (eliminate_row n c) [0..<m] aug) i j =
      (if i < m \<and> i \<noteq> c \<and> c \<le> j then entry n aug i j + entry n aug i c * entry n aug c j
       else entry n aug i j))"
  using assms(3)
proof (induction m)
  case (Suc m)
  then have IH: "length (fold (eliminate_row n c) [0..<m] aug) = n * (n + 1)" by simp
  show ?case
    using Suc eliminate_row_entry [OF IH, of m] assms(2)
    by (auto simp: fold_upt_Suc less_Suc_eq)
qed (use assms in simp)

lemma find_pivot_spec:
  "pivot \<le> n \<Longrightarrow> pivot \<le> find_pivot aug n col pivot \<and> find_pivot aug n col pivot \<le> n \<and>
    (\<forall>i. pivot \<le> i \<longrightarrow> i < find_pivot aug n col pivot \<longrightarrow> aug ! idx n i col = 0) \<and>
    (find_pivot aug n col pivot < n \<longrightarrow> aug ! idx n (find_pivot aug n col pivot) col \<noteq> 0)"
proof (induction aug n col pivot rule: find_pivot.induct)
  case (1 aug n col pivot)
  show ?case
  proof (cases "pivot < n \<and> aug ! idx n pivot col = 0")
    case True
    then have "find_pivot aug n col pivot = find_pivot aug n col (pivot + 1)"
      by (subst find_pivot.simps) simp
    moreover have "i = pivot \<or> pivot + 1 \<le> i" if "pivot \<le> i" for i using that by auto
    moreover have "pivot + 1 \<le> n" using True by simp
    ultimately show ?thesis using 1(1) [OF True] True by (metis add_leD1)
  next
    case False
    then have "find_pivot aug n col pivot = pivot" by (subst find_pivot.simps) auto
    then show ?thesis using False 1 by auto
  qed
qed

section \<open>One column\<close>

lemma no_pivot_kernel:
  assumes "c < n" "reduced n c M" "\<And>i. c \<le> i \<Longrightarrow> i < n \<Longrightarrow> M i c = 0"
  shows "in_kernel n M (\<lambda>j. if j < c then M j c else if j = c then 1 else 0)"
  unfolding in_kernel_def
proof (intro allI impI)
  fix i assume i: "i < n"
  let ?w = "\<lambda>j. if j < c then M j c else if j = c then 1 else 0"
  have "row_value n M ?w i = (\<Sum>j=0..<n + 1. if j \<in> {0..<c} then (if i = j then M j c else 0) else 0) +
      (\<Sum>j=0..<n + 1. if j = c then M i c else 0)"
    unfolding row_value_def sum.distrib [symmetric]
    using assms(2) i by (intro sum.cong) (auto simp: reduced_def)
  also have "(\<Sum>j=0..<n + 1. if j \<in> {0..<c} then (if i = j then M j c else 0) else 0) =
      (\<Sum>j=0..<c. if i = j then M j c else 0)"
    using assms(1) by (subst sum.inter_restrict [symmetric]) (auto intro!: sum.cong)
  also have "\<dots> = (if i < c then M i c else 0)" by simp
  also have "(\<Sum>j=0..<n + 1. if j = c then M i c else 0) = M i c"
    using assms(1) by simp
  finally show "row_value n M ?w i = 0"
    using assms(3) [of i] i by (cases "i < c") simp_all
qed

text \<open>Swap, scale and eliminate, as functions of the matrix.\<close>

lemma pivot_step:
  fixes M :: "nat \<Rightarrow> nat \<Rightarrow> gf" and n c p :: nat
  assumes "c < n" "c \<le> p" "p < n" "reduced n c M" "M p c \<noteq> 0"
  defines "M1 \<equiv> \<lambda>i. M (if i = c then p else if i = p then c else i)"
  defines "M2 \<equiv> \<lambda>i j. if i = c \<and> c \<le> j then M1 c j * inverse (M1 c c) else M1 i j"
  defines "M3 \<equiv> \<lambda>i j. if i \<noteq> c \<and> c \<le> j then M2 i j + M2 i c * M2 c j else M2 i j"
  shows "in_kernel n M3 = in_kernel n M" and "reduced n (Suc c) M3"
proof -
  have zero: "M1 c j = 0" "M2 c j = 0" if "j < c" for j
    using that assms(1-4) by (simp_all add: M1_def M2_def reduced_def)
  have unit: "M1 c c \<noteq> 0" "M2 c c = 1" using assms(5) by (simp_all add: M1_def M2_def)
  have 2: "M2 = (\<lambda>i j. if i = c then M1 c j * inverse (M1 c c) else M1 i j)"
    using zero by (auto simp: M2_def fun_eq_iff)
  have 3: "M3 = (\<lambda>i j. if i = c then M2 c j else M2 i j + M2 i c * M2 c j)"
    using zero by (auto simp: M3_def fun_eq_iff not_le)
  have "in_kernel n M3 = in_kernel n M2"
    unfolding 3 by (rule kernel_eliminate [OF assms(1)])
  also have "\<dots> = in_kernel n M1"
    unfolding 2 by (rule kernel_scale) (use unit in simp)
  also have "\<dots> = in_kernel n M"
    unfolding M1_def by (rule kernel_swap [OF assms(1,3)])
  finally show "in_kernel n M3 = in_kernel n M" .
  show "reduced n (Suc c) M3"
    unfolding reduced_def
  proof (intro allI impI)
    fix i j assume i: "i < n" and j: "j < Suc c"
    show "M3 i j = (if i = j then 1 else 0)"
    proof (cases "j = c")
      case True
      then show ?thesis using unit by (simp add: M3_def)
    next
      case False
      then have "j < c" using j by simp
      then show ?thesis
        using assms(1-4) i by (auto simp: M3_def M2_def M1_def reduced_def)
    qed
  qed
qed

lemma solve_column_None:
  assumes "length aug = n * (n + 1)" "c < n" "reduced n c (entry n aug)" "solve_column n c aug = None"
  shows "\<exists>w. in_kernel n (entry n aug) w \<and> w n = 0 \<and> (\<exists>j<n. w j \<noteq> 0)"
proof -
  have "find_pivot aug n c c = n"
    using assms(4) by (simp add: solve_column_def Let_def split: if_splits)
  then have "entry n aug i c = 0" if "c \<le> i" "i < n" for i
    using find_pivot_spec [of c n aug c] assms(2) that by (simp add: entry_def)
  then have "in_kernel n (entry n aug) (\<lambda>j. if j < c then entry n aug j c else if j = c then 1 else 0)"
    by (intro no_pivot_kernel assms(2,3))
  then show ?thesis
    using assms(2) by (intro exI [of _ "\<lambda>j. if j < c then entry n aug j c else if j = c then 1 else 0"])
      (auto intro: exI [of _ c])
qed

lemma solve_column_Some:
  assumes "length aug = n * (n + 1)" "c < n" "reduced n c (entry n aug)" "solve_column n c aug = Some aug'"
  shows "length aug' = n * (n + 1)" "in_kernel n (entry n aug') = in_kernel n (entry n aug)"
    "reduced n (Suc c) (entry n aug')"
proof -
  obtain p where p_eq: "p = find_pivot aug n c c" by blast
  obtain aug1 where aug1: "aug1 = (if p \<noteq> c then swap_rows n c p aug else aug)" by blast
  obtain v where v_eq: "v = aug1 ! idx n c c" by blast
  obtain aug2 where aug2: "aug2 = (if v \<noteq> 1 then scale_row n c (gf64_inverse v) aug1 else aug1)" by blast
  have p: "c \<le> p" "p < n" "entry n aug p c \<noteq> 0"
    and aug': "aug' = fold (eliminate_row n c) [0..<n] aug2"
    using assms(4) find_pivot_spec [of c n aug c] assms(2)
    unfolding p_eq [symmetric] aug2 v_eq aug1 solve_column_def Let_def entry_def
    by (auto split: if_splits)
  let ?M1 = "\<lambda>i. entry n aug (if i = c then p else if i = p then c else i)"
  have l1: "length aug1 = n * (n + 1)"
    using swap_rows_entry(1) [OF assms(1,2) p(2)] assms(1) by (simp add: aug1)
  have m1: "entry n aug1 i j = ?M1 i j" if "j \<le> n" for i j
    using swap_rows_entry(2) [OF assms(1,2) p(2) _ that] by (simp add: aug1)
  let ?M2 = "\<lambda>i j. if i = c \<and> c \<le> j then ?M1 c j * inverse (?M1 c c) else ?M1 i j"
  have v: "Gf v = ?M1 c c" using m1 [of c c] assms(2) by (simp add: entry_def v_eq)
  have l2: "length aug2 = n * (n + 1)"
    using scale_row_entry(1) [OF l1 assms(2)] l1 by (simp add: aug2)
  have m2: "entry n aug2 i j = ?M2 i j" if "j \<le> n" for i j
  proof (cases "v = 1")
    case True
    then have "?M1 c c = 1" using v by simp
    then show ?thesis using True m1 [OF that] by (simp add: aug2)
  next
    case False
    then show ?thesis
      using scale_row_entry(2) [OF l1 assms(2) that] m1 [OF that] v by (simp add: aug2 Gf_inverse)
  qed
  let ?M3 = "\<lambda>i j. if i \<noteq> c \<and> c \<le> j then ?M2 i j + ?M2 i c * ?M2 c j else ?M2 i j"
  have l3: "length aug' = n * (n + 1)"
    using eliminate_column [OF l2 assms(2) order.refl] unfolding aug' by blast
  have m3: "entry n aug' i j = ?M3 i j" if "i < n" "j \<le> n" for i j
  proof -
    have "c \<le> n" using assms(2) by simp
    then show ?thesis
      using eliminate_column [OF l2 assms(2) order.refl] that unfolding aug'
      by (simp only: m2 [OF \<open>j \<le> n\<close>] m2 [OF \<open>c \<le> n\<close>]) simp
  qed
  note step = pivot_step [OF assms(2) p(1,2) assms(3) p(3)]
  show "length aug' = n * (n + 1)" by (rule l3)
  show "in_kernel n (entry n aug') = in_kernel n (entry n aug)"
    using step(1) kernel_cong [of n "entry n aug'" ?M3, OF m3] by (rule trans [rotated])
  have "reduced n (Suc c) (entry n aug') \<longleftrightarrow> reduced n (Suc c) ?M3"
    unfolding reduced_def using assms(2) by (intro all_cong) (simp only: m3 less_imp_le less_Suc_eq_le le_trans)
  then show "reduced n (Suc c) (entry n aug')" using step(2) by blast
qed

section \<open>The solver\<close>

lemma solve_columns_Suc:
  "solve_columns n (Suc c) aug =
    (case solve_columns n c aug of None \<Rightarrow> None | Some aug' \<Rightarrow> solve_column n c aug')"
  by (simp add: solve_columns_def)

lemma solve_columns_spec:
  assumes "length aug = n * (n + 1)" "c \<le> n"
  shows "case solve_columns n c aug of
      None \<Rightarrow> \<exists>w. in_kernel n (entry n aug) w \<and> w n = 0 \<and> (\<exists>j<n. w j \<noteq> 0)
    | Some aug' \<Rightarrow> length aug' = n * (n + 1) \<and> in_kernel n (entry n aug') = in_kernel n (entry n aug) \<and>
        reduced n c (entry n aug')"
  using assms(2)
proof (induction c)
  case 0
  then show ?case using assms(1) by (simp add: solve_columns_def reduced_def)
next
  case (Suc c)
  show ?case
  proof (cases "solve_columns n c aug")
    case None
    then show ?thesis using Suc by (simp add: solve_columns_Suc)
  next
    case (Some aug1)
    then have 1: "length aug1 = n * (n + 1)" "in_kernel n (entry n aug1) = in_kernel n (entry n aug)"
      "reduced n c (entry n aug1)" and c: "c < n" using Suc by simp_all
    then show ?thesis
      using solve_column_None [OF 1(1) c 1(3)] solve_column_Some [OF 1(1) c 1(3)]
      unfolding solve_columns_Suc Some by (auto split: option.split)
  qed
qed

definition solves :: "gf64_t list \<Rightarrow> gf64_t list \<Rightarrow> nat \<Rightarrow> gf64_t list \<Rightarrow> bool" where
  "solves A b n x \<longleftrightarrow> (\<forall>i<n. (\<Sum>j=0..<n. Gf (A ! (i * n + j)) * Gf (x ! j)) = Gf (b ! i))"

definition singular :: "gf64_t list \<Rightarrow> nat \<Rightarrow> bool" where
  "singular A n \<longleftrightarrow> (\<exists>w. length w = n \<and> (\<exists>j<n. w ! j \<noteq> 0) \<and> solves A (replicate n 0) n w)"

lemma kernel_augment:
  assumes "length aug = n * (n + 1)"
  shows "in_kernel n (entry n (augment A b n aug)) w \<longleftrightarrow>
    (\<forall>i<n. (\<Sum>j=0..<n. Gf (A ! (i * n + j)) * w j) = Gf (b ! i) * w n)"
proof -
  have "row_value n (entry n (augment A b n aug)) w i =
      (\<Sum>j=0..<n. Gf (A ! (i * n + j)) * w j) + Gf (b ! i) * w n" if "i < n" for i
    using augment_entry(2) [OF assms that] by (simp add: row_value_def)
  then show ?thesis by (simp add: in_kernel_def gf_add_eq_0_iff)
qed

lemma kernel_reduced:
  assumes "reduced n n M"
  shows "in_kernel n M w \<longleftrightarrow> (\<forall>i<n. w i = M i n * w n)"
proof -
  have "row_value n M w i = w i + M i n * w n" if "i < n" for i
  proof -
    have "(\<Sum>j=0..<n. M i j * w j) = (\<Sum>j=0..<n. if i = j then w j else 0)"
      using assms that by (intro sum.cong) (auto simp: reduced_def)
    then show ?thesis using that by (simp add: row_value_def)
  qed
  then show ?thesis by (simp add: in_kernel_def gf_add_eq_0_iff)
qed

text \<open>A vector of the field as an array, and back.\<close>

lemma solves_map: "solves A b n (map (\<lambda>j. gf_rep (w j)) [0..<n]) \<longleftrightarrow>
    (\<forall>i<n. (\<Sum>j=0..<n. Gf (A ! (i * n + j)) * w j) = Gf (b ! i))"
  by (simp add: solves_def)

lemma solve_result:
  assumes "gf64_solve True A b x n = (r, x')" "length x = n"
  shows "r = 0 \<and> length x' = n \<and> solves A b n x' \<and>
      (\<forall>y. length y = n \<longrightarrow> solves A b n y \<longrightarrow> y = x') \<and> \<not> singular A n \<or>
    r = -1 \<and> x' = x \<and> singular A n"
proof (cases "n = 0")
  case True
  then show ?thesis using assms by (auto simp: gf64_solve_def solves_def singular_def)
next
  case False
  let ?aug = "replicate (n * (n + 1)) 0"
  have len: "length (augment A b n ?aug) = n * (n + 1)" by (rule augment_entry) simp
  note K = kernel_augment [of ?aug n A b, OF length_replicate]
  show ?thesis
  proof (cases "solve_columns n n (augment A b n ?aug)")
    case None
    then obtain w where w: "in_kernel n (entry n (augment A b n ?aug)) w" "w n = 0" "\<exists>j<n. w j \<noteq> 0"
      using solve_columns_spec [OF len order.refl] by auto
    let ?w = "map (\<lambda>j. gf_rep (w j)) [0..<n]"
    from w(3) obtain j where j: "j < n" "w j \<noteq> 0" by blast
    then have "?w ! j \<noteq> 0" by (simp add: gf_eq_iff)
    moreover have "solves A (replicate n 0) n ?w"
      unfolding solves_map using w(1,2) K by simp
    ultimately have "singular A n"
      unfolding singular_def using j(1) by (intro exI [of _ ?w]) auto
    then show ?thesis using assms False None by (simp add: gf64_solve_def)
  next
    case (Some aug')
    then have k: "length aug' = n * (n + 1)"
      "in_kernel n (entry n aug') = in_kernel n (entry n (augment A b n ?aug))"
      "reduced n n (entry n aug')"
      using solve_columns_spec [OF len order.refl] by auto
    have x': "r = 0" "x' = map (\<lambda>i. aug' ! idx n i n) [0..<n]"
      using assms False Some by (auto simp: gf64_solve_def fold_const_update_map)
    have iff: "(\<forall>i<n. (\<Sum>j=0..<n. Gf (A ! (i * n + j)) * w j) = Gf (b ! i) * w n) \<longleftrightarrow>
        (\<forall>i<n. w i = entry n aug' i n * w n)" for w
      unfolding K [symmetric] k(2) [symmetric] kernel_reduced [OF k(3)] ..
    have sol: "solves A b n y \<longleftrightarrow> y = x'" if "length y = n" for y
    proof -
      have "(\<Sum>j=0..<n. f j * (if j < n then Gf (y ! j) else 1)) = (\<Sum>j=0..<n. f j * Gf (y ! j))" for f
        by (rule sum.cong) auto
      then have "solves A b n y \<longleftrightarrow> (\<forall>i<n. Gf (y ! i) = entry n aug' i n)"
        using iff [of "\<lambda>j. if j < n then Gf (y ! j) else 1"] by (simp add: solves_def)
      then show ?thesis using that by (auto simp: x'(2) entry_def list_eq_iff_nth_eq)
    qed
    have "\<not> singular A n"
    proof
      assume "singular A n"
      then obtain w where w: "length w = n" "\<exists>j<n. w ! j \<noteq> 0" "solves A (replicate n 0) n w"
        by (auto simp: singular_def)
      moreover have "(\<Sum>j=0..<n. f j * (if j < n then Gf (w ! j) else 0)) = (\<Sum>j=0..<n. f j * Gf (w ! j))" for f
        by (rule sum.cong) auto
      ultimately have "\<forall>i<n. Gf (w ! i) = 0"
        using iff [of "\<lambda>j. if j < n then Gf (w ! j) else 0"] by (simp add: solves_def)
      then show False using w(2) by (auto simp: gf_eq_iff)
    qed
    moreover have "length x' = n" by (simp add: x')
    ultimately show ?thesis using x'(1) sol by blast
  qed
qed

end
