(* ===== verification/Solve_Correctness.thy ===== *)
theory Solve_Correctness
  imports Solve
begin

text \<open>The properties of the linear solver.\<close>



end
