(* ===== verification/Series.thy ===== *)
theory Series
  imports GF64_Field
begin

text \<open>
  The abstract objects of the polynomial code: power series over the field, a polynomial being a
  series with finitely many coefficients. The product is the convolution. A C array of coefficients,
  constant first, is the series \<open>of_coeffs\<close> of its entries; \<open>eval\<close> is the value of the first \<open>n\<close>
  coefficients at a point.
\<close>

datatype ser = Ser (cf: "nat \<Rightarrow> gf")

lemma ser_eq_iff: "f = g \<longleftrightarrow> (\<forall>i. cf f i = cf g i)"
  by (cases f; cases g) (simp add: fun_eq_iff)

lemma ser_eqI: "(\<And>i. cf f i = cf g i) \<Longrightarrow> f = g"
  by (simp add: ser_eq_iff)

instantiation ser :: ab_group_add
begin

definition "0 = Ser (\<lambda>_. 0)"
definition "f + g = Ser (\<lambda>i. cf f i + cf g i)"
definition "- f = Ser (\<lambda>i. - cf f i)"
definition "f - g = Ser (\<lambda>i. cf f i - cf g i)"

instance
  by standard (simp_all add: ser_eq_iff zero_ser_def plus_ser_def uminus_ser_def minus_ser_def ac_simps)

end

lemma cf_ring [simp]:
  "cf 0 i = 0" "cf (f + g) i = cf f i + cf g i" "cf (- f) i = cf f i" "cf (f - g) i = cf f i + cf g i"
  by (simp_all add: zero_ser_def plus_ser_def uminus_ser_def minus_ser_def)

lemma cf_sum [simp]: "cf (sum f A) i = (\<Sum>a\<in>A. cf (f a) i)"
  by (induction A rule: infinite_finite_induct) simp_all

text \<open>A double sum over a triangle, by diagonals and by rows.\<close>

lemma sum_triangle:
  fixes g :: "nat \<Rightarrow> nat \<Rightarrow> gf"
  shows "(\<Sum>k\<le>n. \<Sum>i\<le>k. g i (k - i)) = (\<Sum>i\<le>n. \<Sum>j\<le>n - i. g i j)"
proof -
  have "{(i, j). i + j \<le> n} = (SIGMA i:{..n}. {..n - i})" by auto
  then show ?thesis
    using sum.triangle_reindex_eq [of g n] sum.Sigma [of "{..n}" "\<lambda>i. {..n - i}" g] by simp
qed

instantiation ser :: comm_ring_1
begin

definition "1 = Ser (\<lambda>i. if i = 0 then 1 else 0)"
definition "f * g = Ser (\<lambda>k. \<Sum>i\<le>k. cf f i * cf g (k - i))"

instance
proof
  fix f g h :: ser
  have comm: "f * g = g * f" for f g :: ser
  proof (rule ser_eqI)
    fix k
    have "(\<Sum>i\<le>k. cf f i * cf g (k - i)) = (\<Sum>i\<le>k. cf f (k - i) * cf g i)"
      using sum.nat_diff_reindex [of "\<lambda>i. cf f i * cf g (k - i)" "Suc k"]
      by (simp add: lessThan_Suc_atMost)
    then show "cf (f * g) k = cf (g * f) k" by (simp add: times_ser_def mult.commute)
  qed
  show "f * g = g * f" by (rule comm)
  show "f * g * h = f * (g * h)"
  proof (rule ser_eqI)
    fix k
    have "cf (f * g * h) k = (\<Sum>j\<le>k. \<Sum>i\<le>j. cf f i * cf g (j - i) * cf h (k - j))"
      by (simp add: times_ser_def sum_distrib_right)
    also have "\<dots> = (\<Sum>j\<le>k. \<Sum>i\<le>j. cf f i * cf g (j - i) * cf h (k - (i + (j - i))))"
      by simp
    also have "\<dots> = (\<Sum>i\<le>k. \<Sum>j\<le>k - i. cf f i * cf g j * cf h (k - i - j))"
      using sum_triangle [of "\<lambda>i j. cf f i * cf g j * cf h (k - (i + j))" k] by simp
    also have "\<dots> = cf (f * (g * h)) k"
      by (simp add: times_ser_def sum_distrib_left mult.assoc)
    finally show "cf (f * g * h) k = cf (f * (g * h)) k" .
  qed
  show "1 * f = f"
  proof (rule ser_eqI)
    fix k
    have "cf (1 * f) k = (\<Sum>i\<le>k. if i = 0 then cf f (k - i) else 0)"
      unfolding times_ser_def one_ser_def ser.sel by (rule sum.cong) auto
    then show "cf (1 * f) k = cf f k" by simp
  qed
  show "(f + g) * h = f * h + g * h"
    by (rule ser_eqI) (simp add: times_ser_def distrib_right sum.distrib)
  show "(0 :: ser) \<noteq> 1" by (simp add: ser_eq_iff one_ser_def zero_ser_def)
qed

end

lemma cf_one: "cf 1 i = (if i = 0 then 1 else 0)" by (simp add: one_ser_def)

lemma cf_mult: "cf (f * g) k = (\<Sum>i\<le>k. cf f i * cf g (k - i))" by (simp add: times_ser_def)

lemma ser_add_self [simp]: "(f :: ser) + f = 0"
  by (rule ser_eqI) (simp only: cf_ring gf_add_self)
lemma ser_uminus [simp]: "- (f :: ser) = f" by (rule ser_eqI) simp
lemma ser_minus [simp]: "(f :: ser) - g = f + g" by (rule ser_eqI) simp
lemma ser_add_self_left [simp]: "(f :: ser) + (f + g) = g" by (simp flip: add.assoc)
lemma ser_add_eq_0_iff: "(f :: ser) + g = 0 \<longleftrightarrow> f = g"
  by (metis ser_add_self ser_add_self_left add.right_neutral)

section \<open>Monomials, shifts and truncation\<close>

definition mono :: "gf \<Rightarrow> nat \<Rightarrow> ser" where "mono c k = Ser (\<lambda>i. if i = k then c else 0)"

abbreviation X :: "nat \<Rightarrow> ser" where "X k \<equiv> mono 1 k"

lemma cf_mono: "cf (mono c k) i = (if i = k then c else 0)" by (simp add: mono_def)

lemma mono_0 [simp]: "mono 0 k = 0" by (rule ser_eqI) (simp add: cf_mono)
lemma X_0 [simp]: "X 0 = 1" by (rule ser_eqI) (simp add: cf_mono cf_one)

lemma cf_mono_mult: "cf (mono c k * f) i = (if i < k then 0 else c * cf f (i - k))"
proof -
  have "cf (mono c k * f) i = (\<Sum>j\<le>i. if j = k then c * cf f (i - k) else 0)"
    unfolding cf_mult by (rule sum.cong) (auto simp: cf_mono)
  then show ?thesis by (auto simp: not_less)
qed

lemma mono_mult: "mono c j * mono d k = mono (c * d) (j + k)"
  by (rule ser_eqI) (auto simp: cf_mono_mult cf_mono)

lemma mono_add: "mono c k + mono d k = mono (c + d) k"
  by (rule ser_eqI) (simp add: cf_mono)

lemma X_add: "X (j + k) = X j * X k" by (simp add: mono_mult)

text \<open>\<open>below n f\<close>: no coefficient at \<open>n\<close> or above. \<open>trunc n f\<close>: the first \<open>n\<close> coefficients.\<close>

definition below :: "nat \<Rightarrow> ser \<Rightarrow> bool" where "below n f \<longleftrightarrow> (\<forall>i\<ge>n. cf f i = 0)"

definition trunc :: "nat \<Rightarrow> ser \<Rightarrow> ser" where "trunc n f = Ser (\<lambda>i. if i < n then cf f i else 0)"

lemma cf_trunc [simp]: "cf (trunc n f) i = (if i < n then cf f i else 0)" by (simp add: trunc_def)

lemma below_trunc [simp]: "below n (trunc n f)" by (simp add: below_def)

lemma trunc_below: "below n f \<Longrightarrow> trunc n f = f"
  by (rule ser_eqI) (auto simp: below_def not_less)

lemma below_mono_le: "below n f \<Longrightarrow> n \<le> m \<Longrightarrow> below m f" by (simp add: below_def)

lemma below_add [intro]: "below n f \<Longrightarrow> below n g \<Longrightarrow> below n (f + g)" by (simp add: below_def)

lemma below_0 [simp]: "below n 0" by (simp add: below_def)

lemma below_mult:
  assumes "below m f" "below n g" "m + n \<le> Suc k"
  shows "below k (f * g)"
  unfolding below_def
proof (intro allI impI)
  fix l assume l: "k \<le> l"
  show "cf (f * g) l = 0"
    unfolding cf_mult
  proof (rule sum.neutral, intro ballI)
    fix i assume "i \<in> {..l}"
    then show "cf f i * cf g (l - i) = 0"
      using assms l by (cases "m \<le> i") (auto simp: below_def)
  qed
qed

lemma trunc_add: "trunc n (f + g) = trunc n f + trunc n g"
  by (rule ser_eqI) simp

lemma trunc_trunc: "trunc m (trunc n f) = trunc (min m n) f"
  by (rule ser_eqI) simp

lemma trunc_mult: "trunc n (trunc n f * g) = trunc n (f * g)" "trunc n (f * trunc n g) = trunc n (f * g)"
  by (rule ser_eqI, auto simp: cf_mult intro!: sum.cong)+

lemma trunc_X: "trunc n (X n * f) = 0"
  by (rule ser_eqI) (simp add: cf_mono_mult)

section \<open>Arrays of coefficients\<close>

definition coef :: "gf64_t list \<Rightarrow> nat \<Rightarrow> gf" where
  "coef a i = (if i < length a then Gf (a ! i) else 0)"

definition of_coeffs :: "gf64_t list \<Rightarrow> ser" where "of_coeffs a = Ser (coef a)"

lemma cf_of_coeffs [simp]: "cf (of_coeffs a) i = coef a i" by (simp add: of_coeffs_def)

lemma coef_nth: "i < length a \<Longrightarrow> coef a i = Gf (a ! i)" by (simp add: coef_def)
lemma coef_beyond: "length a \<le> i \<Longrightarrow> coef a i = 0" by (simp add: coef_def)

lemma below_of_coeffs [simp]: "below (length a) (of_coeffs a)"
  by (simp add: below_def coef_def)

lemma of_coeffs_inject: "length a = length b \<Longrightarrow> of_coeffs a = of_coeffs b \<longleftrightarrow> a = b"
  by (auto simp: ser_eq_iff coef_def list_eq_iff_nth_eq split: if_splits)

lemma of_coeffs_take: "of_coeffs (take n a) = trunc n (of_coeffs a)"
  by (rule ser_eqI) (simp add: coef_def)

lemma of_coeffs_append: "of_coeffs (a @ b) = of_coeffs a + X (length a) * of_coeffs b"
  by (rule ser_eqI) (auto simp: coef_def nth_append cf_mono_mult)

lemma of_coeffs_replicate [simp]: "of_coeffs (replicate n 0) = 0"
  by (rule ser_eqI) (simp add: coef_def)

lemma of_coeffs_Nil [simp]: "of_coeffs [] = 0"
  by (rule ser_eqI) (simp add: coef_def)

text \<open>An array determined by a series: the way a result is written down.\<close>

definition to_coeffs :: "nat \<Rightarrow> ser \<Rightarrow> gf64_t list" where
  "to_coeffs n f = map (\<lambda>i. gf_rep (cf f i)) [0..<n]"

lemma length_to_coeffs [simp]: "length (to_coeffs n f) = n" by (simp add: to_coeffs_def)
lemma nth_to_coeffs [simp]: "i < n \<Longrightarrow> to_coeffs n f ! i = gf_rep (cf f i)" by (simp add: to_coeffs_def)

lemma of_to_coeffs [simp]: "of_coeffs (to_coeffs n f) = trunc n f"
  by (rule ser_eqI) (simp add: coef_def)

lemma to_of_coeffs [simp]: "to_coeffs (length a) (of_coeffs a) = a"
  by (rule nth_equalityI) (simp_all add: coef_def)

lemma eq_to_coeffs_iff: "length a = n \<Longrightarrow> a = to_coeffs n f \<longleftrightarrow> of_coeffs a = trunc n f"
  by (metis length_to_coeffs of_coeffs_inject of_to_coeffs)

section \<open>Evaluation\<close>

definition eval :: "nat \<Rightarrow> ser \<Rightarrow> gf \<Rightarrow> gf" where
  "eval n f x = (\<Sum>i<n. cf f i * x ^ i)"

lemma eval_extend:
  assumes "below n f" "n \<le> m"
  shows "eval m f x = eval n f x"
  unfolding eval_def using assms
  by (intro sum.mono_neutral_right) (auto simp: below_def)

lemma eval_add: "eval n (f + g) x = eval n f x + eval n g x"
  by (simp add: eval_def distrib_right sum.distrib)

lemma eval_mono: "k < n \<Longrightarrow> eval n (mono c k) x = c * x ^ k"
proof -
  assume "k < n"
  have "eval n (mono c k) x = (\<Sum>i<n. if i = k then c * x ^ k else 0)"
    unfolding eval_def by (rule sum.cong) (auto simp: cf_mono)
  then show ?thesis using \<open>k < n\<close> by simp
qed

lemma eval_mult:
  assumes f: "below m f" and g: "below n g" and k: "m + n \<le> Suc k"
  shows "eval k (f * g) x = eval m f x * eval n g x"
proof -
  have fg: "below k (f * g)" by (rule below_mult [OF f g k])
  have "eval k (f * g) x = eval (Suc (m + n + k)) (f * g) x"
    by (rule eval_extend [OF fg, symmetric]) simp
  also have "\<dots> = (\<Sum>l\<le>m + n + k. \<Sum>i\<le>l. cf f i * cf g (l - i) * x ^ (i + (l - i)))"
    by (simp add: eval_def lessThan_Suc_atMost cf_mult sum_distrib_right)
  also have "\<dots> = (\<Sum>i\<le>m + n + k. \<Sum>j\<le>m + n + k - i. cf f i * cf g j * x ^ (i + j))"
    by (rule sum_triangle)
  also have "\<dots> = (\<Sum>i<m. \<Sum>j\<le>m + n + k - i. cf f i * cf g j * x ^ (i + j))"
    by (rule sum.mono_neutral_right) (use f in \<open>auto simp: below_def not_less\<close>)
  also have "\<dots> = (\<Sum>i<m. \<Sum>j<n. cf f i * cf g j * x ^ (i + j))"
    by (intro sum.cong refl sum.mono_neutral_right) (use g in \<open>auto simp: below_def not_less\<close>)
  also have "\<dots> = eval m f x * eval n g x"
    by (simp add: eval_def sum_product power_add mult.assoc mult.left_commute)
  finally show ?thesis .
qed

end
