(* ===== verification/Poly_Mul.thy ===== *)
theory Poly_Mul
  imports Series GF64_Accumulate "HOL-Library.Monad_Syntax"
begin

text \<open>
  gf64/gf64_poly_mul_karatsuba.c: the schoolbook leaf, the balanced Karatsuba recursion and its
  entry point, and the contract \<open>poly_multiplier\<close> of every polynomial product of the program:
  \<open>out[0..out_len)\<close> becomes the low \<open>out_len\<close> coefficients of the product, padded with zeros.
  A routine that overwrites its whole output returns the words it writes. The scratch accounting
  of the recursion is in the model: a failed assertion is None.
\<close>

text \<open>The polynomial in the first \<open>n\<close> words of an array.\<close>

abbreviation poly :: "gf64_t list \<Rightarrow> nat \<Rightarrow> ser" where "poly a n \<equiv> of_coeffs (take n a)"

definition GF64_KARATSUBA_THRESHOLD :: nat where "GF64_KARATSUBA_THRESHOLD = 64"

function next_pow2_from :: "nat \<Rightarrow> nat \<Rightarrow> nat" where
  "next_pow2_from p n = (if 0 < p \<and> p < n then next_pow2_from (2 * p) n else p)"
  by pat_completeness auto
termination by (relation "measure (\<lambda>(p, n). n - p)") auto

declare next_pow2_from.simps [simp del]

text \<open>The loop of the source starts at 1, so the guard \<open>0 < p\<close> always holds.\<close>

definition next_pow2_size :: "nat \<Rightarrow> nat" where
  "next_pow2_size n = next_pow2_from 1 n"

definition kschoolbook :: "gf64_t list \<Rightarrow> nat \<Rightarrow> gf64_t list \<Rightarrow> nat \<Rightarrow> nat \<Rightarrow> gf64_t list" where
  "kschoolbook a len_a b len_b out_len =
    (let out = replicate out_len 0;
         a_cap = (if len_a < out_len then len_a else out_len);
         b_cap = (if len_b < out_len then len_b else out_len)
     in fold (\<lambda>i out.
          let ai = a ! i
          in if ai = 0 then out
             else let j_max = (if b_cap < out_len - i then b_cap else out_len - i)
               in fold (\<lambda>j out. out[i + j := out ! (i + j) XOR gf64_mul_reference ai (b ! j)])
                 [0..<j_max] out)
        [0..<a_cap] out)"

definition kbal_combine :: "gf64_t list \<Rightarrow> gf64_t list \<Rightarrow> gf64_t list \<Rightarrow> nat \<Rightarrow> nat \<Rightarrow> gf64_t list" where
  "kbal_combine z0 z1 z2 half n =
    (let len_z = 2 * half - 1;
         z1 = fold (\<lambda>i z1. z1[i := z1 ! i XOR (z0 ! i XOR z2 ! i)]) [0..<len_z] z1
     in fold (\<lambda>i out.
          let out = out[i := out ! i XOR z0 ! i];
              out = out[i + half := out ! (i + half) XOR z1 ! i]
          in out[i + n := out ! (i + n) XOR z2 ! i])
        [0..<len_z] (replicate (2 * n - 1) 0))"

lemma threshold_half: "\<lbrakk>\<not> n \<le> GF64_KARATSUBA_THRESHOLD; h = n div 2\<rbrakk> \<Longrightarrow> h < n"
  by (simp add: GF64_KARATSUBA_THRESHOLD_def)

function kbal_full :: "gf64_t list \<Rightarrow> gf64_t list \<Rightarrow> nat \<Rightarrow> nat \<Rightarrow> gf64_t list option" where
  "kbal_full a b n scratch_size =
    (if n \<le> GF64_KARATSUBA_THRESHOLD then Some (kschoolbook a n b n (2 * n - 1))
     else
       let half = n div 2; len_z = 2 * half - 1; len_sum = half; header = 3 * len_z + 2 * len_sum
       in if \<not> scratch_size > header then None
         else
           let recurse_size = scratch_size - header
           in do {
             z0 \<leftarrow> kbal_full a b half recurse_size;
             z2 \<leftarrow> kbal_full (drop half a) (drop half b) half recurse_size;
             let a_sum = map (\<lambda>i. a ! i XOR a ! (i + half)) [0..<half];
             let b_sum = map (\<lambda>i. b ! i XOR b ! (i + half)) [0..<half];
             z1 \<leftarrow> kbal_full a_sum b_sum half recurse_size;
             Some (kbal_combine z0 z1 z2 half n)
           })"
  by pat_completeness auto
termination
  by (relation "measure (\<lambda>(a, b, n, s). n)")
    (rule wf_measure, unfold in_measure split, (erule (1) threshold_half)+)

declare kbal_full.simps [simp del]

definition gf64_poly_mul_karatsuba ::
  "gf64_t list \<Rightarrow> nat \<Rightarrow> gf64_t list \<Rightarrow> nat \<Rightarrow> nat \<Rightarrow> gf64_t list option" where
  "gf64_poly_mul_karatsuba a len_a b len_b out_len =
    (if out_len = 0 then Some []
     else
       let len_a = (if len_a > out_len then out_len else len_a);
           len_b = (if len_b > out_len then out_len else len_b)
       in if len_a = 0 \<or> len_b = 0 then Some (replicate out_len 0)
         else
           let n_raw = (if len_a > len_b then len_a else len_b)
           in if n_raw \<le> GF64_KARATSUBA_THRESHOLD
             then Some (kschoolbook a len_a b len_b out_len)
             else
               let n = next_pow2_size n_raw;
                   a_pad = take len_a a @ replicate (n - len_a) 0;
                   b_pad = take len_b b @ replicate (n - len_b) 0;
                   full_len = (if out_len > 2 * n - 1 then out_len else 2 * n - 1)
               in do {
                 r \<leftarrow> kbal_full a_pad b_pad n (8 * n);
                 let full_result = r @ replicate (full_len - length r) 0;
                 Some (take out_len full_result)
               })"

section \<open>The contract of a polynomial product\<close>

definition product_words :: "gf64_t list \<Rightarrow> nat \<Rightarrow> gf64_t list \<Rightarrow> nat \<Rightarrow> nat \<Rightarrow> gf64_t list" where
  "product_words a len_a b len_b out_len = to_coeffs out_len (poly a len_a * poly b len_b)"

lemma length_product_words [simp]: "length (product_words a m b n k) = k"
  by (simp add: product_words_def)

lemma of_product_words: "of_coeffs (product_words a m b n k) = trunc k (poly a m * poly b n)"
  by (simp add: product_words_def)

lemma product_words_cap:
  "product_words a (min m k) b (min n k) k = product_words a m b n k"
proof -
  have "poly a (min m k) = trunc k (poly a m)" for a m
    by (simp add: min.commute take_take flip: of_coeffs_take)
  then have "trunc k (poly a (min m k) * poly b (min n k)) = trunc k (poly a m * poly b n)"
    by (simp add: trunc_mult)
  then show ?thesis
    by (metis eq_to_coeffs_iff length_product_words of_product_words product_words_def)
qed

lemma product_words_commute: "product_words a m b n k = product_words b n a m k"
  by (simp add: product_words_def mult.commute)

locale poly_multiplier =
  fixes pmul :: "gf64_t list \<Rightarrow> nat \<Rightarrow> gf64_t list \<Rightarrow> nat \<Rightarrow> nat \<Rightarrow> gf64_t list option"
    and fits :: "nat \<Rightarrow> nat \<Rightarrow> nat \<Rightarrow> bool"
  assumes product: "\<lbrakk>fits len_a len_b out_len; len_a \<le> length a; len_b \<le> length b\<rbrakk> \<Longrightarrow>
    pmul a len_a b len_b out_len = Some (product_words a len_a b len_b out_len)"
begin

lemma commutes:
  "\<lbrakk>fits m n k; fits n m k; m \<le> length a; n \<le> length b\<rbrakk> \<Longrightarrow> pmul a m b n k = pmul b n a m k"
  by (simp add: product product_words_commute)

lemma evaluates:
  assumes "fits m n k" "m \<le> length a" "n \<le> length b" "m + n \<le> Suc k" "pmul a m b n k = Some out"
  shows "eval k (of_coeffs out) x = eval m (poly a m) x * eval n (poly b n) x"
proof -
  have m: "below m (poly a m)" and n: "below n (poly b n)"
    using assms(2,3) below_of_coeffs [of "take m a"] below_of_coeffs [of "take n b"]
    by (simp_all add: min_absorb2)
  have "of_coeffs out = poly a m * poly b n"
    using assms by (auto simp: product of_product_words trunc_below [OF below_mult [OF m n]])
  then show ?thesis using eval_mult [OF m n assms(4)] by simp
qed

end

section \<open>The schoolbook loop\<close>

lemma sum_shifted:
  fixes g :: "nat \<Rightarrow> gf"
  shows "(\<Sum>j=0..<m. if k = i + j then g j else 0) = (if i \<le> k \<and> k < i + m then g (k - i) else 0)"
proof (cases "i \<le> k \<and> k < i + m")
  case True
  then have "(\<Sum>j=0..<m. if k = i + j then g j else 0) = (\<Sum>j=0..<m. if j = k - i then g (k - i) else 0)"
    by (intro sum.cong) auto
  with True show ?thesis by auto
qed (auto intro!: sum.neutral)

lemma fold_shifted_acc_row:
  "fold (\<lambda>j out. out[i + j := out ! (i + j) XOR g j]) [0..<m] out =
    acc_row out (\<lambda>k. if i \<le> k \<and> k < i + m then Gf (g (k - i)) else 0)"
  by (subst fold_upt_acc_row [OF update_acc_row]) (simp add: sum_shifted)

lemma acc_row_replicate_0: "acc_row (replicate n 0) F = to_coeffs n (Ser F)"
  by (rule nth_equalityI) auto

lemma kschoolbook_correct:
  assumes "len_a \<le> length a" "len_b \<le> length b"
  shows "kschoolbook a len_a b len_b out_len = product_words a len_a b len_b out_len"
proof -
  define a_cap b_cap where cap: "a_cap = min len_a out_len" "b_cap = min len_b out_len"
  define F where "F = (\<lambda>i k. if i \<le> k \<and> k < i + min b_cap (out_len - i)
    then Gf (a ! i) * Gf (b ! (k - i)) else 0)"
  have step: "(let ai = a ! i in if ai = 0 then out
      else let j_max = (if b_cap < out_len - i then b_cap else out_len - i)
        in fold (\<lambda>j out. out[i + j := out ! (i + j) XOR gf64_mul_reference ai (b ! j)]) [0..<j_max] out)
    = acc_row out (F i)" for i out
    unfolding Let_def F_def
    by (cases "a ! i = 0")
      (auto simp: fold_shifted_acc_row Gf_mul_reference min_def intro!: acc_row_cong cong: if_cong)
  have "kschoolbook a len_a b len_b out_len = to_coeffs out_len (Ser (\<lambda>k. \<Sum>i=0..<a_cap. F i k))"
    unfolding acc_row_replicate_0 [symmetric]
    by (subst fold_upt_acc_row [OF step, symmetric])
      (simp add: kschoolbook_def cap min_def Let_def cong: if_cong)
  also have "\<dots> = product_words a len_a b len_b out_len"
  proof -
    have "(\<Sum>i=0..<a_cap. F i k) = (\<Sum>i\<le>k. coef (take len_a a) i * coef (take len_b b) (k - i))"
      if "k < out_len" for k
    proof -
      have "(\<Sum>i=0..<a_cap. F i k) = (\<Sum>i\<in>{0..<a_cap} \<inter> {..k}. F i k)"
        by (rule sum.mono_neutral_right) (auto simp: F_def)
      also have "\<dots> = (\<Sum>i\<in>{0..<a_cap} \<inter> {..k}. coef (take len_a a) i * coef (take len_b b) (k - i))"
        using that assms by (intro sum.cong refl) (auto simp: F_def cap coef_def)
      also have "\<dots> = (\<Sum>i\<le>k. coef (take len_a a) i * coef (take len_b b) (k - i))"
        using that by (intro sum.mono_neutral_left) (auto simp: cap coef_def)
      finally show ?thesis .
    qed
    then show ?thesis
      by (intro nth_equalityI) (simp_all add: product_words_def cf_mult)
  qed
  finally show ?thesis .
qed

section \<open>Karatsuba\<close>

lemma of_coeffs_xor:
  assumes "length a = length b"
  shows "of_coeffs (map (\<lambda>i. a ! i XOR b ! i) [0..<length a]) = of_coeffs a + of_coeffs b"
  by (rule ser_eqI) (use assms in \<open>simp add: coef_def Gf_xor\<close>)

lemma kbal_combine_correct:
  assumes z: "length z0 = 2 * half - 1" "length z1 = 2 * half - 1" "length z2 = 2 * half - 1"
    and n: "n = 2 * half" "0 < half"
  shows "kbal_combine z0 z1 z2 half n = to_coeffs (2 * n - 1)
    (of_coeffs z0 + X half * (of_coeffs z1 + of_coeffs z0 + of_coeffs z2) + X n * of_coeffs z2)"
proof -
  define L where "L = 2 * half - 1"
  define y where "y = fold (\<lambda>i z1. z1[i := z1 ! i XOR (z0 ! i XOR z2 ! i)]) [0..<L] z1"
  have y: "of_coeffs y = of_coeffs z1 + of_coeffs z0 + of_coeffs z2" "length y = L"
    unfolding y_def by (rule ser_eqI)
      (use z in \<open>simp_all add: L_def fold_update_acc_row coef_def Gf_xor add.assoc\<close>)
  define S where "S = (\<lambda>d z k. \<Sum>i=0..<L. if k = d + i then Gf (z ! i) else 0)"
  have S: "S d z k = cf (X d * of_coeffs z) k" if "length z = L" for d z k
    unfolding S_def sum_shifted using that by (auto simp: cf_mono_mult coef_def)
  have step: "(let out = out[i := out ! i XOR z0 ! i];
        out = out[i + half := out ! (i + half) XOR y ! i]
      in out[i + n := out ! (i + n) XOR z2 ! i]) =
    acc_row out (\<lambda>k. (if k = 0 + i then Gf (z0 ! i) else 0) + (if k = half + i then Gf (y ! i) else 0)
      + (if k = n + i then Gf (z2 ! i) else 0))" for i out
    unfolding Let_def update_acc_row acc_row_acc_row by (rule acc_row_cong) (simp add: add.commute)
  have "kbal_combine z0 z1 z2 half n = acc_row (replicate (2 * n - 1) 0)
      (\<lambda>k. S 0 z0 k + S half y k + S n z2 k)"
    unfolding kbal_combine_def L_def [symmetric] y_def [symmetric] Let_def [of L] Let_def [of y]
    by (subst fold_upt_acc_row [OF step]) (simp add: S_def sum.distrib)
  also have "\<dots> = to_coeffs (2 * n - 1)
      (of_coeffs z0 + X half * of_coeffs y + X n * of_coeffs z2)"
    unfolding acc_row_replicate_0 using z y(2)
    by (intro nth_equalityI) (simp_all add: S L_def)
  finally show ?thesis unfolding y(1) .
qed

lemma karatsuba_identity:
  fixes A0 A1 B0 B1 x :: ser
  shows "(A0 + x * A1) * (B0 + x * B1) =
    A0 * B0 + x * ((A0 + A1) * (B0 + B1) + A0 * B0 + A1 * B1) + x * x * (A1 * B1)"
proof -
  have "(A0 + A1) * (B0 + B1) + A0 * B0 + A1 * B1 =
      A0 * B1 + A1 * B0 + (A0 * B0 + A0 * B0) + (A1 * B1 + A1 * B1)"
    by (simp only: distrib_left distrib_right ac_simps)
  then have "(A0 + A1) * (B0 + B1) + A0 * B0 + A1 * B1 = A0 * B1 + A1 * B0" by simp
  then show ?thesis by (simp only: distrib_left distrib_right ac_simps)
qed

lemma poly_split:
  assumes "n = 2 * half" "n \<le> length a"
  shows "poly a n = poly a half + X half * poly (drop half a) half"
    and "poly (map (\<lambda>i. a ! i XOR a ! (i + half)) [0..<half]) half = poly a half + poly (drop half a) half"
  by (rule ser_eqI, use assms in \<open>auto simp: coef_def cf_mono_mult Gf_xor add.commute\<close>)+

lemma kbal_full_correct:
  assumes "n = 2 ^ k" "n \<le> length a" "n \<le> length b" "8 * n \<le> scratch_size"
  shows "kbal_full a b n scratch_size = Some (product_words a n b n (2 * n - 1))"
  using assms
proof (induction k arbitrary: n a b scratch_size)
  case 0
  then show ?case by (simp add: kbal_full.simps GF64_KARATSUBA_THRESHOLD_def kschoolbook_correct)
next
  case (Suc k)
  show ?case
  proof (cases "n \<le> GF64_KARATSUBA_THRESHOLD")
    case True
    with Suc.prems show ?thesis by (simp add: kbal_full.simps kschoolbook_correct)
  next
    case False
    define h where "h = n div 2"
    have h: "n = 2 * h" "h = 2 ^ k" "0 < h" using Suc.prems by (auto simp: h_def)
    define r where "r = scratch_size - (3 * (2 * h - 1) + 2 * h)"
    have r: "3 * (2 * h - 1) + 2 * h < scratch_size" "8 * h \<le> r"
      using Suc.prems(4) h(1,3) unfolding r_def by linarith+
    define sum where "sum = (\<lambda>c :: gf64_t list. map (\<lambda>i. c ! i XOR c ! (i + h)) [0..<h])"
    note IH = Suc.IH [OF h(2) _ _ r(2)]
    have z: "kbal_full a b h r = Some (product_words a h b h (2 * h - 1))"
      "kbal_full (drop h a) (drop h b) h r = Some (product_words (drop h a) h (drop h b) h (2 * h - 1))"
      "kbal_full (sum a) (sum b) h r = Some (product_words (sum a) h (sum b) h (2 * h - 1))"
      by (rule IH; use Suc.prems h in \<open>simp add: sum_def\<close>)+
    have below: "below (2 * h - 1) (poly u h * poly v h)"
      if "h \<le> length u" "h \<le> length v" for u v
      using below_mult [of h "poly u h" h "poly v h" "2 * h - 1"] below_of_coeffs [of "take h u"]
        below_of_coeffs [of "take h v"] that by (simp add: min_absorb2)
    have words: "of_coeffs (product_words u h v h (2 * h - 1)) = poly u h * poly v h"
      if "h \<le> length u" "h \<le> length v" for u v
      using below [OF that] by (simp add: of_product_words trunc_below)
    have len: "h \<le> length a" "h \<le> length b" "h \<le> length (drop h a)" "h \<le> length (drop h b)"
      "h \<le> length (sum a)" "h \<le> length (sum b)"
      using Suc.prems h by (auto simp: sum_def)
    have XX: "X n = X h * X h" using h by (simp add: mult_2 X_add)
    have sum: "poly (sum a) h = poly a h + poly (drop h a) h" "poly (sum b) h = poly b h + poly (drop h b) h"
      unfolding sum_def using poly_split(2) Suc.prems h by auto
    have "kbal_full a b n scratch_size = Some (kbal_combine (product_words a h b h (2 * h - 1))
        (product_words (sum a) h (sum b) h (2 * h - 1))
        (product_words (drop h a) h (drop h b) h (2 * h - 1)) h n)"
      using False r(1) z by (subst kbal_full.simps)
        (simp add: Let_def r_def sum_def flip: h_def)
    also have "\<dots> = Some (to_coeffs (2 * n - 1) (poly a n * poly b n))"
      using Suc.prems(2,3)
      by (subst kbal_combine_correct) (simp_all only: length_product_words h(1,3) words [OF len(1,2)]
          words [OF len(3,4)] words [OF len(5,6)] sum poly_split(1) [OF refl] karatsuba_identity
          XX [unfolded h(1)] add.assoc)
    finally show ?thesis by (simp only: product_words_def)
  qed
qed

lemma next_pow2_from_power:
  assumes "p = 2 ^ j"
  shows "\<exists>k\<ge>j. next_pow2_from p n = 2 ^ k \<and> n \<le> 2 ^ k"
  using assms
proof (induction p n arbitrary: j rule: next_pow2_from.induct)
  case (1 p n)
  show ?case
  proof (cases "p < n")
    case True
    with 1(1) [of "Suc j"] 1(2) obtain k where "Suc j \<le> k" "next_pow2_from (2 * p) n = 2 ^ k" "n \<le> 2 ^ k"
      by auto
    moreover have "next_pow2_from p n = next_pow2_from (2 * p) n"
      using True 1(2) by (subst next_pow2_from.simps) simp
    ultimately show ?thesis by (metis Suc_leD)
  next
    case False
    then have "next_pow2_from p n = p" by (subst next_pow2_from.simps) simp
    with False 1(2) show ?thesis by auto
  qed
qed

lemma next_pow2_size_power: "\<exists>k. next_pow2_size n = 2 ^ k \<and> n \<le> 2 ^ k"
  using next_pow2_from_power [of 1 0 n] by (auto simp: next_pow2_size_def)

lemma gf64_poly_mul_karatsuba_correct:
  assumes "len_a \<le> length a" "len_b \<le> length b"
  shows "gf64_poly_mul_karatsuba a len_a b len_b out_len = Some (product_words a len_a b len_b out_len)"
proof -
  define m k where mk: "m = min len_a out_len" "k = min len_b out_len"
  have cap: "product_words a len_a b len_b out_len = product_words a m b k out_len"
    by (simp add: mk product_words_cap)
  have le: "m \<le> length a" "k \<le> length b" using assms by (auto simp: mk)
  have cut: "(if len > out_len then out_len else len) = min len out_len" for len by auto
  consider "out_len = 0" | "out_len > 0" "m = 0 \<or> k = 0" | "out_len > 0" "m > 0" "k > 0"
    "max m k \<le> GF64_KARATSUBA_THRESHOLD" | "out_len > 0" "m > 0" "k > 0"
    "\<not> max m k \<le> GF64_KARATSUBA_THRESHOLD" by fastforce
  then show ?thesis
  proof cases
    case 1
    then show ?thesis
      by (simp add: gf64_poly_mul_karatsuba_def product_words_def to_coeffs_def)
  next
    case 2
    have "to_coeffs out_len 0 = replicate out_len 0" by (intro nth_equalityI) simp_all
    with 2 show ?thesis unfolding cap gf64_poly_mul_karatsuba_def Let_def cut mk [symmetric]
      by (auto simp: product_words_def)
  next
    case 3
    then show ?thesis unfolding cap gf64_poly_mul_karatsuba_def Let_def cut mk [symmetric]
      using le by (auto simp: kschoolbook_correct max_def)
  next
    case 4
    define n where "n = next_pow2_size (if m > k then m else k)"
    obtain j where n: "n = 2 ^ j" "m \<le> n" "k \<le> n"
      using next_pow2_size_power [of "if m > k then m else k"] by (auto simp: n_def split: if_splits)
    define u v where uv: "u = take m a @ replicate (n - m) 0" "v = take k b @ replicate (n - k) 0"
    have len: "length u = n" "length v = n" using n le by (simp_all add: uv)
    have pad: "of_coeffs (c @ replicate l 0) = of_coeffs c" for c l
      by (simp add: of_coeffs_append)
    have poly: "poly u n = poly a m" "poly v n = poly b k"
      using len n(2,3) by (simp_all add: uv pad min_absorb2)
    have "kbal_full u v n (8 * n) = Some (product_words u n v n (2 * n - 1))"
      by (rule kbal_full_correct [OF n(1)]) (simp_all add: len)
    then have "gf64_poly_mul_karatsuba a len_a b len_b out_len =
        Some (take out_len (product_words u n v n (2 * n - 1)
          @ replicate ((if out_len > 2 * n - 1 then out_len else 2 * n - 1) - (2 * n - 1)) 0))"
      using 4 unfolding gf64_poly_mul_karatsuba_def Let_def cut mk [symmetric]
      by (cases "k < m") (simp_all add: max_def uv n_def)
    also have "take out_len (product_words u n v n (2 * n - 1)
          @ replicate ((if out_len > 2 * n - 1 then out_len else 2 * n - 1) - (2 * n - 1)) 0) =
        to_coeffs out_len (poly u n * poly v n)"
    proof -
      have "below (2 * n - 1) (poly u n * poly v n)"
        using below_mult [of n "poly u n" n "poly v n" "2 * n - 1"] len
          below_of_coeffs [of u] below_of_coeffs [of v] by simp
      then show ?thesis
        by (subst eq_to_coeffs_iff)
          (auto simp: of_coeffs_take of_coeffs_append of_product_words trunc_below)
    qed
    finally show ?thesis unfolding cap by (simp add: product_words_def poly)
  qed
qed

interpretation schoolbook: poly_multiplier "\<lambda>a m b n k. Some (kschoolbook a m b n k)" "\<lambda>_ _ _. True"
  by unfold_locales (simp add: kschoolbook_correct)

interpretation karatsuba: poly_multiplier gf64_poly_mul_karatsuba "\<lambda>_ _ _. True"
  by unfold_locales (rule gf64_poly_mul_karatsuba_correct)

end
