(* ===== verification/HQC_Cantor.thy ===== *)
theory HQC_Cantor
  imports Poly_Mul
begin

text \<open>
  The Cantor basis of gf64/gf64_cantor_basis.h and the points and subspace polynomials the additive
  FFT of gf64/gf64_additive_fft_hqc2026.c is built on: \<open>W j\<close> is the XOR of the basis vectors selected
  by the bits of \<open>j\<close>, \<open>subsp i\<close> the subspace polynomial \<open>s_i\<close>, and \<open>novel l k\<close> the product of the
  \<open>s_i\<close> selected by the low \<open>l\<close> bits of \<open>k\<close>. The central fact is \<open>s_i (W j) = W (j >> i)\<close>.
\<close>

definition GF64_CANTOR_BASIS_LEN :: nat where "GF64_CANTOR_BASIS_LEN = 20"

definition GF64_CANTOR_BASIS :: "gf64_t list" where
  "GF64_CANTOR_BASIS =
    [0x0000000000000001, 0x19c9369f278adc02, 0xa181e7d66f5ff794, 0x5db84357ce785d08,
     0xb973d466f5c9d0ca, 0x521ac889831a075e, 0x033ce8beddc8a656, 0xb5846c4e07b91010,
     0x4087b8cbb37a32ec, 0x00d0d3888c0ae17c, 0xafd5ac70237f2222, 0xe3f5af99cc3aaaf8,
     0x5a1db3b16a0b58b8, 0x09947c54fe7ee248, 0x0e8eaf0e0068f544, 0xa2a113500b4b4f5a,
     0xe96f9805d6ce0bb0, 0x53496f8b5c9edd4c, 0xad325cb6f4ac2a9e, 0x4a8dcf8bd7ede826]"

definition GF64_HQC_MAX_LM :: nat where "GF64_HQC_MAX_LM = 20"

definition compute_v_j :: "nat \<Rightarrow> gf64_t" where
  "compute_v_j j = fold (\<lambda>k v. if drop_bit k j AND 1 \<noteq> 0 then v XOR GF64_CANTOR_BASIS ! k else v)
    [0..<GF64_HQC_MAX_LM] 0"

definition W :: "nat \<Rightarrow> gf" where "W j = Gf (compute_v_j j)"

section \<open>The points\<close>

lemma length_basis [simp]: "length GF64_CANTOR_BASIS = 20"
  by (simp add: GF64_CANTOR_BASIS_def)

text \<open>The Artin-Schreier recurrence of the table, with the code's own squaring.\<close>

lemma basis_square_values:
  "gf64_square_one 0x19C9369F278ADC02 = 0x19C9369F278ADC03"
  "gf64_square_one 0xA181E7D66F5FF794 = 0xB848D14948D52B96"
  "gf64_square_one 0x5DB84357CE785D08 = 0xFC39A481A127AA9C"
  "gf64_square_one 0xB973D466F5C9D0CA = 0xE4CB97313BB18DC2"
  "gf64_square_one 0x521AC889831A075E = 0xEB691CEF76D3D794"
  "gf64_square_one 0x33CE8BEDDC8A656 = 0x512620375ED2A108"
  "gf64_square_one 0xB5846C4E07B91010 = 0xB6B884F0DA71B646"
  "gf64_square_one 0x4087B8CBB37A32EC = 0xF503D485B4C322FC"
  "gf64_square_one 0xD0D3888C0AE17C = 0x40576B433F70D390"
  "gf64_square_one 0xAFD5AC70237F2222 = 0xAF057FF8AF75C35E"
  by (simp_all add: square_eval cong: let_weak_cong)

lemma basis_square_values_2:
  "gf64_square_one 0xE3F5AF99CC3AAAF8 = 0x4C2003E9EF4588DA"
  "gf64_square_one 0x5A1DB3B16A0B58B8 = 0xB9E81C28A631F240"
  "gf64_square_one 0x9947C54FE7EE248 = 0x5389CFE59475BAF0"
  "gf64_square_one 0xE8EAF0E0068F544 = 0x71AD35AFE16170C"
  "gf64_square_one 0xA2A113500B4B4F5A = 0xAC2FBC5E0B23BA1E"
  "gf64_square_one 0xE96F9805D6CE0BB0 = 0x4BCE8B55DD8544EA"
  "gf64_square_one 0x53496F8B5C9EDD4C = 0xBA26F78E8A50D6FC"
  "gf64_square_one 0xAD325CB6F4AC2A9E = 0xFE7B333DA832F7D2"
  "gf64_square_one 0x4A8DCF8BD7EDE826 = 0xE7BF933D2341C2B8"
  by (simp_all add: square_eval cong: let_weak_cong)

lemma basis_squares:
  assumes "i < 19"
  shows "gf64_square_one (GF64_CANTOR_BASIS ! Suc i) XOR GF64_CANTOR_BASIS ! Suc i = GF64_CANTOR_BASIS ! i"
proof -
  have "map (\<lambda>v. gf64_square_one v XOR v) (tl GF64_CANTOR_BASIS) = butlast GF64_CANTOR_BASIS"
    unfolding GF64_CANTOR_BASIS_def list.sel list.map
    by (simp only: basis_square_values basis_square_values_2) simp
  from arg_cong [OF this, of "\<lambda>xs. xs ! i"] assms show ?thesis
    by (simp add: nth_tl nth_butlast)
qed

definition cantor :: "nat \<Rightarrow> gf" where "cantor k = Gf (GF64_CANTOR_BASIS ! k)"

lemma cantor_0 [simp]: "cantor 0 = 1"
  by (simp add: cantor_def GF64_CANTOR_BASIS_def)

lemma cantor_Suc: "i < 19 \<Longrightarrow> cantor (Suc i) ^ 2 + cantor (Suc i) = cantor i"
  unfolding cantor_def by (metis Gf_square_one Gf_xor basis_squares)

text \<open>Bits of indices.\<close>

lemma nat_bit_less: "bit k n \<Longrightarrow> k < 2 ^ l \<Longrightarrow> n < l" for k :: nat
proof (rule ccontr)
  assume "bit k n" "k < 2 ^ l" "\<not> n < l"
  then have "k < 2 ^ n" by (meson less_le_trans not_less one_le_numeral power_increasing)
  with \<open>bit k n\<close> show False by (simp add: bit_iff_odd)
qed

lemma exp_add_xor: "k < 2 ^ l \<Longrightarrow> k + 2 ^ l = k XOR 2 ^ l" for k :: nat
  by (intro disjunctive_add_eq_xor bit_eqI) (auto simp: bit_simps dest: nat_bit_less)

lemma bit_add_exp: "k < 2 ^ l \<Longrightarrow> bit (k + 2 ^ l) b \<longleftrightarrow> bit k b \<or> b = l" for k :: nat
  by (auto simp: exp_add_xor bit_simps dest: nat_bit_less)

lemma bit_div_exp: "bit (k div 2 ^ l) n \<longleftrightarrow> bit k (l + n)" for k :: nat
  by (simp add: bit_simps flip: drop_bit_eq_div)

lemma bit_mod_exp: "bit (k mod 2 ^ l) n \<longleftrightarrow> n < l \<and> bit k n" for k :: nat
  by (simp add: bit_simps flip: take_bit_eq_mod)

lemma xor_less_exp: "i < 2 ^ l \<Longrightarrow> j < 2 ^ l \<Longrightarrow> i XOR j < 2 ^ l" for i j :: nat
  by (metis take_bit_xor take_bit_nat_eq_self take_bit_nat_less_exp)

lemma drop_bit_and_1: "(drop_bit k j AND 1 \<noteq> 0) = bit j k" for j :: nat
  by (simp add: bit_iff_odd_drop_bit and_one_eq odd_iff_mod_2_eq_one)

lemma W_sum: "W j = (\<Sum>k<20. if bit j k then cantor k else 0)"
proof -
  have "Gf (fold (\<lambda>k v. if bit j k then v XOR GF64_CANTOR_BASIS ! k else v) [0..<n] 0) =
      (\<Sum>k<n. if bit j k then cantor k else 0)" for n
    by (induction n) (auto simp: Gf_xor cantor_def)
  then show ?thesis
    unfolding W_def compute_v_j_def GF64_HQC_MAX_LM_def drop_bit_and_1 .
qed

lemma W_0 [simp]: "W 0 = 0" by (simp add: W_sum)

lemma W_power: "k < 20 \<Longrightarrow> W (2 ^ k) = cantor k"
  by (simp add: W_sum bit_simps cong: if_cong)

lemma W_1 [simp]: "W (Suc 0) = 1" using W_power [of 0] by simp

lemma W_xor: "W (i XOR j) = W i + W j"
  unfolding W_sum sum.distrib [symmetric] by (rule sum.cong) (auto simp: bit_simps)

lemma W_add_exp: "i < 2 ^ l \<Longrightarrow> W (i + 2 ^ l) = W i + W (2 ^ l)"
  by (simp add: exp_add_xor W_xor)

section \<open>Subspace polynomials\<close>

primrec subsp :: "nat \<Rightarrow> gf \<Rightarrow> gf" where
  "subsp 0 x = x"
| "subsp (Suc i) x = subsp i x ^ 2 + subsp i x"

lemma subsp_add: "subsp i (x + y) = subsp i x + subsp i y"
  by (induction i) (simp_all add: gf_square_add ac_simps)

lemma subsp_0 [simp]: "subsp i 0 = 0" by (induction i) simp_all

lemma subsp_1: "subsp i (x ^ 2 + x) = subsp (Suc i) x"
  by (induction i) simp_all

lemma subsp_subsp: "subsp i (subsp j x) = subsp (i + j) x"
  by (induction i) simp_all

text \<open>\<open>s_(2^m) = x^(2^(2^m)) + x\<close>.\<close>

lemma subsp_power: "subsp (2 ^ m) x = x ^ 2 ^ 2 ^ m + x"
proof (induction m arbitrary: x)
  case (Suc m)
  have "subsp (2 ^ Suc m) x = subsp (2 ^ m) (subsp (2 ^ m) x)"
    by (simp add: subsp_subsp mult_2)
  also have "\<dots> = x ^ 2 ^ 2 ^ Suc m + x"
    by (simp add: Suc gf_frobenius_add mult_2 power_add add.assoc flip: power_mult)
  finally show ?case .
qed simp

lemma W_half:
  assumes "j < 2 ^ 20"
  shows "W j ^ 2 + W j = W (j div 2)"
proof -
  have bits: "\<not> bit (j div 2) 19"
    using assms nat_bit_less [of j 20 20] by (auto simp: bit_Suc [symmetric])
  have "W j ^ 2 + W j = (\<Sum>k<20. if bit j k then cantor k ^ 2 + cantor k else 0)"
    unfolding W_sum gf_square_sum sum.distrib [symmetric] by (rule sum.cong) auto
  also have "\<dots> = (\<Sum>k<19. if bit j (Suc k) then cantor (Suc k) ^ 2 + cantor (Suc k) else 0)"
    using sum.lessThan_Suc_shift [of "\<lambda>k. if bit j k then cantor k ^ 2 + cantor k else 0" 19] by simp
  also have "\<dots> = (\<Sum>k<19. if bit j (Suc k) then cantor k else 0)"
    by (rule sum.cong) (auto simp: cantor_Suc)
  also have "\<dots> = (\<Sum>k<20. if bit (j div 2) k then cantor k else 0)"
    using bits sum.lessThan_Suc [of "\<lambda>k. if bit (j div 2) k then cantor k else 0" 19]
    by (simp add: bit_Suc)
  finally show ?thesis by (simp add: W_sum)
qed

lemma subsp_W:
  assumes "j < 2 ^ 20"
  shows "subsp i (W j) = W (j div 2 ^ i)"
proof (induction i)
  case (Suc i)
  have "j div 2 ^ i < 2 ^ 20" using assms div_le_dividend le_less_trans by blast
  with Suc show ?case by (simp add: W_half div_mult2_eq [symmetric] mult.commute)
qed simp

lemma subsp_W_below: "j < 2 ^ i \<Longrightarrow> i \<le> 20 \<Longrightarrow> subsp i (W j) = 0"
  using subsp_W [of j i] less_le_trans [of j "2 ^ i" "2 ^ 20"] power_increasing [of i 20 "2::nat"] by simp

lemma W_eq_0:
  assumes "j < 2 ^ 20" "W j = 0"
  shows "j = 0"
proof (rule ccontr)
  assume "j \<noteq> 0"
  then obtain i where "2 ^ i \<le> j" "j < 2 ^ Suc i" using ex_power_ivl1 [of 2 j] by auto
  then have "j div 2 ^ i = 1" by (intro div_nat_eqI) auto
  with subsp_W [OF assms(1), of i] assms(2) show False by simp
qed

lemma W_inject:
  assumes "i < 2 ^ 20" "j < 2 ^ 20" "W i = W j"
  shows "i = j"
proof -
  have "W (i XOR j) = 0" by (simp add: W_xor assms(3))
  moreover have "i XOR j < 2 ^ 20"
    by (rule xor_less_exp [OF assms(1,2)])
  ultimately have "i XOR j = 0" using W_eq_0 by blast
  then show ?thesis by (metis xor.assoc xor.left_neutral xor.right_neutral xor_self_eq)
qed

section \<open>The novel basis\<close>

definition novel :: "nat \<Rightarrow> nat \<Rightarrow> gf \<Rightarrow> gf" where
  "novel l k x = (\<Prod>b<l. if bit k b then subsp b x else 1)"

lemma novel_0 [simp]: "novel 0 k x = 1" by (simp add: novel_def)

lemma novel_Suc: "novel (Suc l) k x = novel l k x * (if bit k l then subsp l x else 1)"
  by (simp add: novel_def)

lemma novel_low: "k < 2 ^ l \<Longrightarrow> novel (Suc l) k x = novel l k x"
  by (auto simp: novel_Suc dest: nat_bit_less)

lemma novel_high: "k < 2 ^ l \<Longrightarrow> novel (Suc l) (k + 2 ^ l) x = novel l k x * subsp l x"
  by (simp add: novel_Suc bit_add_exp) (simp add: novel_def bit_add_exp)

lemma novel_split: "novel (l + m) k x = novel l (k mod 2 ^ l) x * novel m (k div 2 ^ l) (subsp l x)"
proof (induction m)
  case 0
  show ?case by (simp add: novel_def bit_mod_exp)
next
  case (Suc m)
  then show ?case by (simp add: novel_Suc subsp_subsp bit_div_exp ac_simps)
qed

end
