(* ===== verification/HQC_Vindex.thy ===== *)
theory HQC_Vindex
  imports HQC_Cantor "HOL-Library.While_Combinator"
begin

text \<open>
  The index tables of gf64/gf64_additive_fft_hqc2026.c: the hash from a point to its index
  (\<open>hqc_vindex_build\<close>, \<open>hqc_vindex_lookup\<close>), the registry of these hashes, keyed by the address of
  the table they index, and \<open>compute_index_for\<close> and \<open>si_eval\<close>, which fall back to a linear scan when
  no hash is registered. A table is the address of its block with the words in it. A search loop
  that would not end is None.
\<close>

record vtable =
  vt_addr :: nat
  vt_words :: "gf64_t list"

record hqc_vindex_t =
  vx_table :: nat
  vx_tab :: "int list"
  vx_log2size :: nat
  vx_mask :: nat

definition vindex_hash :: "gf64_t \<Rightarrow> nat \<Rightarrow> nat" where
  "vindex_hash a log2size = unat (drop_bit (64 - log2size) (a * 0x9E3779B97F4A7C15))"

function vindex_log2size :: "nat \<Rightarrow> nat \<Rightarrow> nat" where
  "vindex_log2size log2size n =
    (if 2 ^ log2size < 2 * n then vindex_log2size (Suc log2size) n else log2size)"
  by pat_completeness auto
termination
proof (relation "measure (\<lambda>(l, n). 2 * n - l)")
  fix l n :: nat
  assume "2 ^ l < 2 * n"
  then have "l < 2 * n" using less_exp [of l] by linarith
  then show "((Suc l, n), l, n) \<in> measure (\<lambda>(l, n). 2 * n - l)" by simp
qed simp

declare vindex_log2size.simps [simp del]

definition vindex_insert :: "gf64_t list \<Rightarrow> nat \<Rightarrow> nat \<Rightarrow> int list \<Rightarrow> int list option" where
  "vindex_insert v_table log2size j tab =
    (let a = v_table ! j; size = 2 ^ log2size
     in if a = 0 then Some tab
        else do {
          h \<leftarrow> while_option (\<lambda>h. tab ! h \<noteq> -1) (\<lambda>h. (h + 1) AND (size - 1)) (vindex_hash a log2size);
          Some (tab[h := int j])
        })"

definition vindex_tab :: "gf64_t list \<Rightarrow> nat \<Rightarrow> nat \<Rightarrow> int list option" where
  "vindex_tab v_table n log2size =
    fold (\<lambda>j tab. do { tab \<leftarrow> tab; vindex_insert v_table log2size j tab })
      [1..<n] (Some (replicate (2 ^ log2size) (-1)))"

definition vindex_search :: "gf64_t list \<Rightarrow> hqc_vindex_t \<Rightarrow> gf64_t \<Rightarrow> int option" where
  "vindex_search v_table v a =
    do {
      h \<leftarrow> while_option (\<lambda>h. vx_tab v ! h \<noteq> -1 \<and> v_table ! nat (vx_tab v ! h) \<noteq> a)
        (\<lambda>h. (h + 1) AND vx_mask v) (vindex_hash a (vx_log2size v));
      Some (if vx_tab v ! h = -1 then -1 else vx_tab v ! h)
    }"

definition hqc_vindex_lookup :: "hqc_vindex_t list \<Rightarrow> vtable \<Rightarrow> gf64_t \<Rightarrow> int option" where
  "hqc_vindex_lookup reg v_table a =
    (case find (\<lambda>v. vx_table v = vt_addr v_table) reg of
       None \<Rightarrow> Some (-2)
     | Some v \<Rightarrow> if a = 0 then Some 0 else vindex_search (vt_words v_table) v a)"

definition vindex_scan :: "gf64_t list \<Rightarrow> nat \<Rightarrow> gf64_t \<Rightarrow> int" where
  "vindex_scan v_table n_table a =
    (case find (\<lambda>j. v_table ! j = a) [1..<n_table] of Some j \<Rightarrow> int j | None \<Rightarrow> -1)"

definition compute_index_for :: "hqc_vindex_t list \<Rightarrow> gf64_t \<Rightarrow> vtable \<Rightarrow> nat \<Rightarrow> int option" where
  "compute_index_for reg a v_table n_table =
    (if a = 0 then Some 0
     else do {
       fast \<leftarrow> hqc_vindex_lookup reg v_table a;
       Some (if fast \<noteq> -2 then fast else vindex_scan (vt_words v_table) n_table a)
     })"

definition si_eval :: "hqc_vindex_t list \<Rightarrow> nat \<Rightarrow> gf64_t \<Rightarrow> vtable \<Rightarrow> nat \<Rightarrow> gf64_t option" where
  "si_eval reg i a v_table n_table =
    (if a = 0 then Some 0
     else do {
       idx \<leftarrow> compute_index_for reg a v_table n_table;
       Some (if idx < 0 then 0
         else let shifted = drop_bit i idx
           in if shifted = 0 then 0 else vt_words v_table ! nat shifted)
     })"

section \<open>The registry\<close>

function vindex_drop_from :: "nat \<Rightarrow> nat \<Rightarrow> hqc_vindex_t list \<Rightarrow> hqc_vindex_t list" where
  "vindex_drop_from v_table s reg =
    (if s < length reg then
       if vx_table (reg ! s) \<noteq> v_table then vindex_drop_from v_table (Suc s) reg
       else vindex_drop_from v_table s (butlast (reg[s := reg ! (length reg - 1)]))
     else reg)"
  by pat_completeness auto
termination by (relation "measure (\<lambda>(p, s, reg). length reg - s)") auto

declare vindex_drop_from.simps [simp del]

definition hqc_vindex_drop :: "nat \<Rightarrow> hqc_vindex_t list \<Rightarrow> hqc_vindex_t list" where
  "hqc_vindex_drop v_table reg = vindex_drop_from v_table 0 reg"

definition HQC_VINDEX_INITIAL_SLOTS :: nat where "HQC_VINDEX_INITIAL_SLOTS = 16 + 16"

function grown_capacity :: "nat \<Rightarrow> nat \<Rightarrow> nat" where
  "grown_capacity new_cap needed =
    (if 0 < new_cap \<and> new_cap < needed then grown_capacity (new_cap * 2) needed else new_cap)"
  by pat_completeness auto
termination by (relation "measure (\<lambda>(c, n). n - c)") auto

declare grown_capacity.simps [simp del]

text \<open>\<open>realloc_ok\<close>: whether the allocator can grow the registry. The guard \<open>0 < new_cap\<close> always holds.\<close>

definition hqc_vindex_grow_locked :: "bool \<Rightarrow> nat \<Rightarrow> nat \<Rightarrow> nat option" where
  "hqc_vindex_grow_locked realloc_ok capacity needed =
    (let new_cap = grown_capacity (if capacity > 0 then capacity else HQC_VINDEX_INITIAL_SLOTS) needed
     in if realloc_ok then Some new_cap else None)"

text \<open>
  The new registry and capacity; the return value of the source, a slot number or -1, is not used
  by any caller. The outer None is a table construction that does not end.
\<close>

definition hqc_vindex_build ::
  "bool \<Rightarrow> bool \<Rightarrow> vtable \<Rightarrow> nat \<Rightarrow> hqc_vindex_t list \<times> nat \<Rightarrow> (hqc_vindex_t list \<times> nat) option" where
  "hqc_vindex_build realloc_ok malloc_ok v_table n = (\<lambda>(reg, capacity).
    case (if length reg \<ge> capacity then hqc_vindex_grow_locked realloc_ok capacity (length reg + 1)
          else Some capacity) of
      None \<Rightarrow> Some (reg, capacity)
    | Some capacity \<Rightarrow>
        let log2size = vindex_log2size 1 n
        in if log2size > 30 then Some (reg, capacity)
           else if \<not> malloc_ok then Some (reg, capacity)
           else do {
             tab \<leftarrow> vindex_tab (vt_words v_table) n log2size;
             Some (reg @ [\<lparr>vx_table = vt_addr v_table, vx_tab = tab,
               vx_log2size = log2size, vx_mask = 2 ^ log2size - 1\<rparr>], capacity)
           })"

section \<open>Open addressing\<close>

lemma while_option_first:
  assumes "\<not> b ((c ^^ t) s)" "\<And>u. u < t \<Longrightarrow> b ((c ^^ u) s)"
  shows "while_option b c s = Some ((c ^^ t) s)"
proof -
  have "(LEAST k. \<not> b ((c ^^ k) s)) = t"
    using assms by (intro Least_equality) (auto simp: not_less [symmetric])
  with assms(1) show ?thesis by (auto simp: while_option_def)
qed

lemma and_mask_mod: "h AND (2 ^ l - 1) = h mod 2 ^ l" for h :: nat
  by (metis mask_eq_exp_minus_1 take_bit_eq_mask take_bit_eq_mod)

lemma probe_steps:
  "h < 2 ^ l \<Longrightarrow> ((\<lambda>h. (h + 1) AND (2 ^ l - 1)) ^^ t) h = (h + t) mod (2 ^ l :: nat)"
proof (induction t)
  case (Suc t)
  then have "((\<lambda>h. (h + 1) AND (2 ^ l - 1)) ^^ Suc t) h = Suc ((h + t) mod 2 ^ l) mod (2 ^ l :: nat)"
    by (simp add: and_mask_mod [unfolded One_nat_def])
  then show ?case by (simp add: mod_Suc_eq)
qed simp

lemma probe_first:
  assumes h: "h < 2 ^ l" and stop: "\<not> b ((h + t) mod 2 ^ l)"
  obtains u where "u \<le> t" "\<not> b ((h + u) mod 2 ^ l)" "\<And>v. v < u \<Longrightarrow> b ((h + v) mod 2 ^ l)"
    "while_option b (\<lambda>h. (h + 1) AND (2 ^ l - 1)) h = Some ((h + u) mod (2 ^ l :: nat))"
proof -
  define u where "u = (LEAST u. \<not> b ((h + u) mod 2 ^ l))"
  have u: "\<not> b ((h + u) mod 2 ^ l)" "u \<le> t" "\<And>v. v < u \<Longrightarrow> b ((h + v) mod 2 ^ l)"
    unfolding u_def using LeastI [of "\<lambda>u. \<not> b ((h + u) mod 2 ^ l)" t]
      Least_le [of "\<lambda>u. \<not> b ((h + u) mod 2 ^ l)" t] stop by (auto dest: not_less_Least)
  moreover have "while_option b (\<lambda>h. (h + 1) AND (2 ^ l - 1)) h = Some ((h + u) mod 2 ^ l)"
    using while_option_first [where b = b and c = "\<lambda>h::nat. (h + 1) AND (2 ^ l - 1)" and t = u and s = h] u
    by (simp only: probe_steps [OF h]) blast
  ultimately show ?thesis using that by blast
qed

lemma vindex_hash_less:
  assumes "l \<le> 64"
  shows "vindex_hash a l < 2 ^ l"
proof -
  have "unat (a * 0x9E3779B97F4A7C15) < 2 ^ (64 - l) * 2 ^ l"
    using unsigned_less [of "a * 0x9E3779B97F4A7C15"] assms by (simp flip: power_add)
  then have "unat (a * 0x9E3779B97F4A7C15) div 2 ^ (64 - l) < 2 ^ l"
    by (intro less_mult_imp_div_less) (simp add: mult.commute)
  then show ?thesis
    by (simp only: vindex_hash_def unat_drop_bit_eq) (simp only: drop_bit_eq_div)
qed

text \<open>
  \<open>vindex_inv l w m S tab\<close>: the table holds the indices in \<open>S\<close> and nothing else, each on the
  probe path of its point with no gap before it, in at most \<open>m\<close> slots.
\<close>

definition vindex_inv :: "nat \<Rightarrow> gf64_t list \<Rightarrow> nat \<Rightarrow> nat set \<Rightarrow> int list \<Rightarrow> bool" where
  "vindex_inv l w m S tab \<longleftrightarrow>
    length tab = 2 ^ l \<and>
    (\<forall>p<2 ^ l. tab ! p \<noteq> -1 \<longrightarrow> (\<exists>j\<in>S. tab ! p = int j)) \<and>
    (\<forall>j\<in>S. \<exists>t. tab ! ((vindex_hash (w ! j) l + t) mod 2 ^ l) = int j \<and>
      (\<forall>u<t. tab ! ((vindex_hash (w ! j) l + u) mod 2 ^ l) \<noteq> -1)) \<and>
    card {p. p < 2 ^ l \<and> tab ! p \<noteq> -1} \<le> m"

lemma free_slot:
  assumes "vindex_inv l w m S tab" "m < 2 ^ l"
  shows "\<exists>t. tab ! ((h + t) mod 2 ^ l) = -1"
proof -
  have "\<exists>p<2 ^ l. tab ! p = -1"
  proof (rule ccontr)
    assume "\<not> (\<exists>p<2 ^ l. tab ! p = -1)"
    then have "{p. p < 2 ^ l \<and> tab ! p \<noteq> -1} = {..<2 ^ l}" by auto
    with assms show False by (simp add: vindex_inv_def)
  qed
  then obtain p where p: "p < 2 ^ l" "tab ! p = -1" by blast
  have "(h + (p + (2 ^ l - h mod 2 ^ l))) mod 2 ^ l = (h mod 2 ^ l + (p + (2 ^ l - h mod 2 ^ l))) mod 2 ^ l"
    by (simp add: mod_simps)
  also have "\<dots> = p"
  proof -
    have "h mod 2 ^ l + (p + (2 ^ l - h mod 2 ^ l)) = p + 2 ^ l"
    proof -
      have "h mod 2 ^ l < 2 ^ l" by simp
      then show ?thesis by linarith
    qed
    with p show ?thesis by simp
  qed
  finally show ?thesis using p by metis
qed

lemma vindex_insert_inv:
  assumes inv: "vindex_inv l w m S tab" and m: "m < 2 ^ l" and l: "l \<le> 64" and j: "w ! j \<noteq> 0"
  obtains tab' where "vindex_insert w l j tab = Some tab'" "vindex_inv l w (Suc m) (insert j S) tab'"
proof -
  define h where "h = vindex_hash (w ! j) l"
  have h: "h < 2 ^ l" by (simp add: h_def vindex_hash_less l)
  obtain t where "tab ! ((h + t) mod 2 ^ l) = -1" using free_slot [OF inv m] by blast
  then obtain u where u: "tab ! ((h + u) mod 2 ^ l) = -1" "\<And>v. v < u \<Longrightarrow> tab ! ((h + v) mod 2 ^ l) \<noteq> -1"
    "while_option (\<lambda>h. tab ! h \<noteq> -1) (\<lambda>h. (h + 1) AND (2 ^ l - 1)) h = Some ((h + u) mod 2 ^ l)"
    using probe_first [OF h, of "\<lambda>h. tab ! h \<noteq> -1" t] by (metis (no_types, lifting))
  define p where "p = (h + u) mod 2 ^ l"
  have p: "p < length tab" using inv by (simp add: p_def vindex_inv_def)
  have keep: "tab[p := int j] ! q \<noteq> -1" if "tab ! q \<noteq> -1" for q
    using that p by (cases "q = p") auto
  have "vindex_insert w l j tab = Some (tab[p := int j])"
    using u(3) j by (simp add: vindex_insert_def Let_def h_def p_def)
  moreover have "vindex_inv l w (Suc m) (insert j S) (tab[p := int j])"
    unfolding vindex_inv_def
  proof (intro conjI)
    show "length (tab[p := int j]) = 2 ^ l" using inv by (simp add: vindex_inv_def)
    show "\<forall>q<2 ^ l. tab[p := int j] ! q \<noteq> -1 \<longrightarrow> (\<exists>i\<in>insert j S. tab[p := int j] ! q = int i)"
      using inv p by (auto simp: vindex_inv_def nth_list_update)
    show "card {q. q < 2 ^ l \<and> tab[p := int j] ! q \<noteq> -1} \<le> Suc m"
    proof -
      have "{q. q < 2 ^ l \<and> tab[p := int j] ! q \<noteq> -1} \<subseteq> insert p {q. q < 2 ^ l \<and> tab ! q \<noteq> -1}"
        by (auto simp: nth_list_update)
      then have "card {q. q < 2 ^ l \<and> tab[p := int j] ! q \<noteq> -1} \<le>
          card (insert p {q. q < 2 ^ l \<and> tab ! q \<noteq> -1})"
        by (intro card_mono) auto
      also have "\<dots> \<le> Suc m"
        using inv card_insert_le_m1 [of "Suc m" "{q. q < 2 ^ l \<and> tab ! q \<noteq> -1}" p]
        by (simp add: vindex_inv_def)
      finally show ?thesis .
    qed
    show "\<forall>i\<in>insert j S. \<exists>t. tab[p := int j] ! ((vindex_hash (w ! i) l + t) mod 2 ^ l) = int i \<and>
        (\<forall>u<t. tab[p := int j] ! ((vindex_hash (w ! i) l + u) mod 2 ^ l) \<noteq> -1)"
    proof
      fix i assume i: "i \<in> insert j S"
      show "\<exists>t. tab[p := int j] ! ((vindex_hash (w ! i) l + t) mod 2 ^ l) = int i \<and>
        (\<forall>u<t. tab[p := int j] ! ((vindex_hash (w ! i) l + u) mod 2 ^ l) \<noteq> -1)"
      proof (cases "i = j")
        case True
        with p u(2) keep show ?thesis by (auto simp: h_def p_def intro!: exI [of _ u])
      next
        case False
        with i inv obtain t where t: "tab ! ((vindex_hash (w ! i) l + t) mod 2 ^ l) = int i"
          "\<forall>u<t. tab ! ((vindex_hash (w ! i) l + u) mod 2 ^ l) \<noteq> -1"
          unfolding vindex_inv_def by blast
        have "(vindex_hash (w ! i) l + t) mod 2 ^ l \<noteq> p" using t(1) u(1) by (auto simp: p_def)
        with t keep show ?thesis by (intro exI [of _ t]) auto
      qed
    qed
  qed
  ultimately show ?thesis using that by blast
qed

lemma vindex_tab_inv:
  assumes n: "2 * n \<le> 2 ^ l" and l: "l \<le> 64" and w: "\<And>j. \<lbrakk>1 \<le> j; j < n\<rbrakk> \<Longrightarrow> w ! j \<noteq> 0"
  obtains tab where "vindex_tab w n l = Some tab" "vindex_inv l w n {1..<n} tab"
proof -
  have start: "vindex_inv l w m {} (replicate (2 ^ l) (-1))" for m
    by (simp add: vindex_inv_def cong: conj_cong)
  have "\<exists>tab. fold (\<lambda>j tab. do { tab \<leftarrow> tab; vindex_insert w l j tab }) [1..<k]
      (Some (replicate (2 ^ l) (-1))) = Some tab \<and> vindex_inv l w k {1..<k} tab"
    if "k \<le> n" for k
    using that
  proof (induction k)
    case 0
    show ?case using start by simp
  next
    case (Suc k)
    show ?case
    proof (cases "k = 0")
      case True
      show ?thesis using start by (simp add: True)
    next
      case False
      with Suc obtain tab where tab: "fold (\<lambda>j tab. do { tab \<leftarrow> tab; vindex_insert w l j tab }) [1..<k]
          (Some (replicate (2 ^ l) (-1))) = Some tab" "vindex_inv l w k {1..<k} tab"
        by auto
      have "k < 2 ^ l" "w ! k \<noteq> 0" using Suc n w False by auto
      from vindex_insert_inv [OF tab(2) this(1) l this(2)] obtain tab' where
        tab': "vindex_insert w l k tab = Some tab'" "vindex_inv l w (Suc k) (insert k {1..<k}) tab'" .
      moreover have "insert k {1..<k} = {1..<Suc k}" using False by auto
      ultimately show ?thesis using tab False by auto
    qed
  qed
  then show ?thesis
    using that unfolding vindex_tab_def by blast
qed

section \<open>The lookup is the linear scan\<close>

definition points :: "nat \<Rightarrow> gf64_t list" where "points n = map compute_v_j [0..<n]"

lemma length_points [simp]: "length (points n) = n" by (simp add: points_def)
lemma nth_points [simp]: "j < n \<Longrightarrow> points n ! j = compute_v_j j" by (simp add: points_def)

lemma compute_v_j_0 [simp]: "compute_v_j 0 = 0"
  using W_0 by (simp add: W_def del: W_0)

lemma compute_v_j_inject:
  "\<lbrakk>i < 2 ^ 20; j < 2 ^ 20; compute_v_j i = compute_v_j j\<rbrakk> \<Longrightarrow> i = j"
  by (rule W_inject) (simp_all add: W_def)

lemma compute_v_j_nonzero: "\<lbrakk>0 < j; j < 2 ^ 20\<rbrakk> \<Longrightarrow> compute_v_j j \<noteq> 0"
  using compute_v_j_inject [of j 0] by auto

text \<open>A registered hash that is complete for the points of a table of size \<open>n\<close>.\<close>

definition entry_ok :: "nat \<Rightarrow> hqc_vindex_t \<Rightarrow> bool" where
  "entry_ok n v \<longleftrightarrow> vx_mask v = 2 ^ vx_log2size v - 1 \<and> vx_log2size v \<le> 30 \<and> 2 * n \<le> 2 ^ vx_log2size v \<and>
    vindex_inv (vx_log2size v) (points n) n {1..<n} (vx_tab v)"

lemma vindex_scan_point:
  assumes "1 \<le> j" "j < n" "n \<le> 2 ^ 20"
  shows "vindex_scan (points n) n (compute_v_j j) = int j"
proof -
  have "compute_v_j x \<noteq> compute_v_j j" if "x < j" for x
    using compute_v_j_inject [of x j] assms that by auto
  then have "find (\<lambda>i. points n ! i = compute_v_j j) [1..<n] = Some j"
    unfolding find_Some_iff using assms by (intro exI [of _ "j - 1"]) auto
  then show ?thesis by (simp add: vindex_scan_def)
qed

lemma vindex_scan_absent: "(\<And>j. \<lbrakk>1 \<le> j; j < n\<rbrakk> \<Longrightarrow> w ! j \<noteq> a) \<Longrightarrow> vindex_scan w n a = -1"
  unfolding vindex_scan_def by (subst find_None_iff [THEN iffD2]) auto

lemma vindex_search_scan:
  assumes v: "entry_ok n v" and n: "n \<le> 2 ^ 20"
  shows "vindex_search (points n) v a = Some (vindex_scan (points n) n a)"
proof -
  let ?l = "vx_log2size v" and ?tab = "vx_tab v"
  define h where "h = vindex_hash a ?l"
  define b where "b = (\<lambda>h. ?tab ! h \<noteq> -1 \<and> points n ! nat (?tab ! h) \<noteq> a)"
  have inv: "vindex_inv ?l (points n) n {1..<n} ?tab" and h: "h < 2 ^ ?l"
    and mask: "vx_mask v = 2 ^ ?l - 1" and size: "2 * n \<le> 2 ^ ?l"
    using v by (auto simp: entry_ok_def h_def intro: vindex_hash_less)
  have slot: "\<exists>j\<in>{1..<n}. ?tab ! ((h + u) mod 2 ^ ?l) = int j"
    if "?tab ! ((h + u) mod 2 ^ ?l) \<noteq> -1" for u
    using inv that by (simp add: vindex_inv_def)
  have search: "vindex_search (points n) v a = Some (if ?tab ! ((h + u) mod 2 ^ ?l) = -1 then -1
      else ?tab ! ((h + u) mod 2 ^ ?l))"
    if "while_option b (\<lambda>h. (h + 1) AND (2 ^ ?l - 1)) h = Some ((h + u) mod 2 ^ ?l)" for u
    using that by (simp add: vindex_search_def mask b_def h_def)
  show ?thesis
  proof (cases "\<exists>j\<in>{1..<n}. compute_v_j j = a")
    case True
    then obtain j where j: "1 \<le> j" "j < n" "compute_v_j j = a" by auto
    with inv obtain t where t: "?tab ! ((h + t) mod 2 ^ ?l) = int j"
      "\<forall>u<t. ?tab ! ((h + u) mod 2 ^ ?l) \<noteq> -1"
      unfolding vindex_inv_def h_def by (metis atLeastLessThan_iff nth_points)
    have stop: "\<not> b ((h + t) mod 2 ^ ?l)" using t(1) j by (simp add: b_def)
    from probe_first [OF h, of b t, OF stop] obtain u where u: "u \<le> t" "\<not> b ((h + u) mod 2 ^ ?l)"
      "while_option b (\<lambda>h. (h + 1) AND (2 ^ ?l - 1)) h = Some ((h + u) mod 2 ^ ?l)" by metis
    have "?tab ! ((h + u) mod 2 ^ ?l) = int j"
    proof -
      have "?tab ! ((h + u) mod 2 ^ ?l) \<noteq> -1" using t u(1) by (cases "u = t") auto
      moreover from slot [OF this] obtain i where "i \<in> {1..<n}" "?tab ! ((h + u) mod 2 ^ ?l) = int i" by blast
      ultimately show ?thesis
        using u(2) j n compute_v_j_inject [of i j] by (auto simp: b_def)
    qed
    then show ?thesis using search [OF u(3)] vindex_scan_point [of j n] j n by simp
  next
    case False
    have "n < 2 ^ ?l" using size by (cases n) auto
    then obtain t where "?tab ! ((h + t) mod 2 ^ ?l) = -1" using free_slot [OF inv] by blast
    then have "\<not> b ((h + t) mod 2 ^ ?l)" by (simp add: b_def)
    from probe_first [OF h, of b t, OF this] obtain u where u: "\<not> b ((h + u) mod 2 ^ ?l)"
      "while_option b (\<lambda>h. (h + 1) AND (2 ^ ?l - 1)) h = Some ((h + u) mod 2 ^ ?l)" by metis
    have "?tab ! ((h + u) mod 2 ^ ?l) = -1"
    proof (rule ccontr)
      assume ne: "?tab ! ((h + u) mod 2 ^ ?l) \<noteq> -1"
      from slot [OF this] obtain i where "i \<in> {1..<n}" "?tab ! ((h + u) mod 2 ^ ?l) = int i" by blast
      with u(1) False ne show False by (auto simp: b_def)
    qed
    moreover have "vindex_scan (points n) n a = -1"
      using False by (intro vindex_scan_absent) auto
    ultimately show ?thesis using search [OF u(2)] by simp
  qed
qed

text \<open>What the transforms need of the registry when they use a table of size \<open>n\<close>.\<close>

definition registry_ok :: "hqc_vindex_t list \<Rightarrow> vtable \<Rightarrow> nat \<Rightarrow> bool" where
  "registry_ok reg vt n \<longleftrightarrow> n \<le> 2 ^ 20 \<and> vt_words vt = points n \<and>
    (\<forall>v\<in>set reg. vx_table v = vt_addr vt \<longrightarrow> entry_ok n v)"

lemma registry_ok_words: "registry_ok reg vt n \<Longrightarrow> vt_words vt = points n"
  by (simp add: registry_ok_def)

lemma compute_index_for_scan:
  assumes "registry_ok reg vt n"
  shows "compute_index_for reg a vt n = Some (if a = 0 then 0 else vindex_scan (points n) n a)"
proof (cases "find (\<lambda>v. vx_table v = vt_addr vt) reg")
  case None
  with assms show ?thesis by (simp add: compute_index_for_def hqc_vindex_lookup_def registry_ok_def)
next
  case (Some v)
  then have "entry_ok n v" using assms by (auto simp: registry_ok_def find_Some_iff)
  moreover have "vindex_scan (points n) n a \<noteq> -2"
    by (auto simp: vindex_scan_def split: option.splits)
  ultimately show ?thesis
    using assms Some
    by (simp add: compute_index_for_def hqc_vindex_lookup_def vindex_search_scan registry_ok_def)
qed

lemma compute_index_for_point:
  assumes "registry_ok reg vt n" "j < n"
  shows "compute_index_for reg (compute_v_j j) vt n = Some (int j)"
proof (cases "j = 0")
  case False
  then have "compute_v_j j \<noteq> 0" using assms by (intro compute_v_j_nonzero) (auto simp: registry_ok_def)
  with False assms show ?thesis
    by (simp add: compute_index_for_scan vindex_scan_point registry_ok_def)
qed (simp add: compute_index_for_def)

lemma si_eval_point:
  assumes "registry_ok reg vt n" "j < n"
  shows "si_eval reg i (compute_v_j j) vt n = Some (compute_v_j (j div 2 ^ i))"
proof -
  have "j div 2 ^ i < n" using assms(2) div_le_dividend le_less_trans by blast
  moreover have "drop_bit i (int j) = int (j div 2 ^ i)" by (simp add: drop_bit_eq_div zdiv_int)
  moreover have "j = 0 \<or> compute_v_j j \<noteq> 0"
    using assms compute_v_j_nonzero [of j] by (auto simp: registry_ok_def)
  ultimately show ?thesis
    using assms
    by (auto simp: si_eval_def compute_index_for_point registry_ok_words Let_def)
qed

end
