(* ===== verification/HQC_Butterfly.thy ===== *)
theory HQC_Butterfly
  imports HQC_Vindex
begin

text \<open>
  The butterflies of gf64/gf64_additive_fft_hqc2026.c, scalar and AVX-512. On an array of
  \<open>2^l\<close> coefficients over the novel basis, \<open>butterfly_fwd\<close> with shift \<open>a = W j\<close> leaves the values at
  the points \<open>a + W 0, a + W 1, ...\<close>; \<open>butterfly_inv\<close> undoes it. A recursion that would not end
  (a size that is not a power of two of at least 2) is None.
\<close>

definition butterfly_fwd_layer :: "gf64_t list \<Rightarrow> nat \<Rightarrow> gf64_t \<Rightarrow> gf64_t list" where
  "butterfly_fwd_layer f half s_a =
    fold (\<lambda>j f.
        let fl = f ! j; fh = f ! (j + half)
        in f[j := fl XOR gf64_mul_reference s_a fh,
             j + half := fl XOR gf64_mul_reference (s_a XOR 1) fh])
      [0..<half] f"

function butterfly_fwd ::
  "hqc_vindex_t list \<Rightarrow> gf64_t list \<Rightarrow> nat \<Rightarrow> nat \<Rightarrow> gf64_t \<Rightarrow> vtable \<Rightarrow> nat \<Rightarrow> gf64_t list option" where
  "butterfly_fwd reg f n n_table a v_table logn =
    (if n = 2 then
       let fl = f ! 0; fh = f ! 1
       in Some (f[0 := fl XOR gf64_mul_reference a fh, 1 := fl XOR gf64_mul_reference (a XOR 1) fh])
     else if n < 2 then None
     else
       let half = n div 2
       in do {
         s_a \<leftarrow> si_eval reg (logn - 1) a v_table n_table;
         let f = butterfly_fwd_layer f half s_a;
         lo \<leftarrow> butterfly_fwd reg (take half f) half n_table a v_table (logn - 1);
         hi \<leftarrow> butterfly_fwd reg (drop half f) half n_table
           (a XOR vt_words v_table ! (2 ^ (logn - 1))) v_table (logn - 1);
         Some (lo @ hi)
       })"
  by pat_completeness auto

lemma half_less: "\<lbrakk>n \<noteq> 2; \<not> n < 2; h = n div 2\<rbrakk> \<Longrightarrow> h < (n :: nat)"
  by simp

termination butterfly_fwd
  by (relation "measure (\<lambda>(reg, f, n, n_table, a, v_table, logn). n)")
    (rule wf_measure, unfold in_measure split, (erule (2) half_less)+)

declare butterfly_fwd.simps [simp del]

definition butterfly_inv_layer :: "gf64_t list \<Rightarrow> nat \<Rightarrow> gf64_t \<Rightarrow> gf64_t list" where
  "butterfly_inv_layer f half s_a =
    fold (\<lambda>j f.
        let fl_new = f ! j; fh_new = f ! (j + half);
            fh = fl_new XOR fh_new;
            fl = fl_new XOR gf64_mul_reference s_a fh
        in f[j := fl, j + half := fh])
      [0..<half] f"

function butterfly_inv ::
  "hqc_vindex_t list \<Rightarrow> gf64_t list \<Rightarrow> nat \<Rightarrow> nat \<Rightarrow> gf64_t \<Rightarrow> vtable \<Rightarrow> nat \<Rightarrow> gf64_t list option" where
  "butterfly_inv reg f n n_table a v_table logn =
    (if n = 2 then
       let fh = f ! 0 XOR f ! 1; fl = f ! 0 XOR gf64_mul_reference a fh
       in Some (f[0 := fl, 1 := fh])
     else if n < 2 then None
     else
       let half = n div 2
       in do {
         lo \<leftarrow> butterfly_inv reg (take half f) half n_table a v_table (logn - 1);
         hi \<leftarrow> butterfly_inv reg (drop half f) half n_table
           (a XOR vt_words v_table ! (2 ^ (logn - 1))) v_table (logn - 1);
         s_a \<leftarrow> si_eval reg (logn - 1) a v_table n_table;
         Some (butterfly_inv_layer (lo @ hi) half s_a)
       })"
  by pat_completeness auto
termination butterfly_inv
  by (relation "measure (\<lambda>(reg, f, n, n_table, a, v_table, logn). n)")
    (rule wf_measure, unfold in_measure split, (erule (2) half_less)+)

declare butterfly_inv.simps [simp del]

section \<open>AVX-512\<close>

definition GF64_HQC_BUTTERFLY_AVX512_LANES :: nat where "GF64_HQC_BUTTERFLY_AVX512_LANES = 8"

text \<open>The stack buffers are filled before they are read; here they start as zeros.\<close>

definition butterfly_fwd_block_avx512 :: "nat \<Rightarrow> gf64_t \<Rightarrow> nat \<Rightarrow> gf64_t list \<Rightarrow> gf64_t list" where
  "butterfly_fwd_block_avx512 half s_a j f =
    (let sa_buf = replicate 8 s_a;
         fh_buf = map (\<lambda>k. f ! (j + k + half)) [0..<8];
         prod_buf = gf64_mul_avx512 (replicate 8 0) fh_buf sa_buf 8
     in fold (\<lambda>k f.
          let fl = f ! (j + k)
          in f[j + k := fl XOR prod_buf ! k, j + k + half := fl XOR prod_buf ! k XOR fh_buf ! k])
        [0..<8] f)"

definition butterfly_fwd_layer_avx512 :: "gf64_t list \<Rightarrow> nat \<Rightarrow> gf64_t \<Rightarrow> gf64_t list" where
  "butterfly_fwd_layer_avx512 f half s_a =
    (if half \<ge> GF64_HQC_BUTTERFLY_AVX512_LANES then
       let f = fold (\<lambda>b. butterfly_fwd_block_avx512 half s_a (8 * b)) [0..<half div 8] f
       in fold (\<lambda>j f.
            let fl = f ! j; fh = f ! (j + half)
            in f[j := fl XOR gf64_mul_reference s_a fh,
                 j + half := fl XOR gf64_mul_reference (s_a XOR 1) fh])
          [8 * (half div 8)..<half] f
     else butterfly_fwd_layer f half s_a)"

function butterfly_fwd_avx512 ::
  "hqc_vindex_t list \<Rightarrow> gf64_t list \<Rightarrow> nat \<Rightarrow> nat \<Rightarrow> gf64_t \<Rightarrow> vtable \<Rightarrow> nat \<Rightarrow> gf64_t list option" where
  "butterfly_fwd_avx512 reg f n n_table a v_table logn =
    (if n = 2 then
       let fl = f ! 0; fh = f ! 1
       in Some (f[0 := fl XOR gf64_mul_reference a fh, 1 := fl XOR gf64_mul_reference (a XOR 1) fh])
     else if n < 2 then None
     else
       let half = n div 2
       in do {
         s_a \<leftarrow> si_eval reg (logn - 1) a v_table n_table;
         let f = butterfly_fwd_layer_avx512 f half s_a;
         lo \<leftarrow> butterfly_fwd_avx512 reg (take half f) half n_table a v_table (logn - 1);
         hi \<leftarrow> butterfly_fwd_avx512 reg (drop half f) half n_table
           (a XOR vt_words v_table ! (2 ^ (logn - 1))) v_table (logn - 1);
         Some (lo @ hi)
       })"
  by pat_completeness auto
termination butterfly_fwd_avx512
  by (relation "measure (\<lambda>(reg, f, n, n_table, a, v_table, logn). n)")
    (rule wf_measure, unfold in_measure split, (erule (2) half_less)+)

declare butterfly_fwd_avx512.simps [simp del]

definition butterfly_inv_block_avx512 :: "nat \<Rightarrow> gf64_t \<Rightarrow> nat \<Rightarrow> gf64_t list \<Rightarrow> gf64_t list" where
  "butterfly_inv_block_avx512 half s_a j f =
    (let sa_buf = replicate 8 s_a;
         fh_buf = map (\<lambda>k. f ! (j + k) XOR f ! (j + k + half)) [0..<8];
         prod_buf = gf64_mul_avx512 (replicate 8 0) fh_buf sa_buf 8
     in fold (\<lambda>k f. f[j + k := f ! (j + k) XOR prod_buf ! k, j + k + half := fh_buf ! k]) [0..<8] f)"

definition butterfly_inv_layer_avx512 :: "gf64_t list \<Rightarrow> nat \<Rightarrow> gf64_t \<Rightarrow> gf64_t list" where
  "butterfly_inv_layer_avx512 f half s_a =
    (if half \<ge> GF64_HQC_BUTTERFLY_AVX512_LANES then
       let f = fold (\<lambda>b. butterfly_inv_block_avx512 half s_a (8 * b)) [0..<half div 8] f
       in fold (\<lambda>j f.
            let fl_new = f ! j; fh_new = f ! (j + half);
                fh = fl_new XOR fh_new;
                fl = fl_new XOR gf64_mul_reference s_a fh
            in f[j := fl, j + half := fh])
          [8 * (half div 8)..<half] f
     else butterfly_inv_layer f half s_a)"

function butterfly_inv_avx512 ::
  "hqc_vindex_t list \<Rightarrow> gf64_t list \<Rightarrow> nat \<Rightarrow> nat \<Rightarrow> gf64_t \<Rightarrow> vtable \<Rightarrow> nat \<Rightarrow> gf64_t list option" where
  "butterfly_inv_avx512 reg f n n_table a v_table logn =
    (if n = 2 then
       let fh = f ! 0 XOR f ! 1; fl = f ! 0 XOR gf64_mul_reference a fh
       in Some (f[0 := fl, 1 := fh])
     else if n < 2 then None
     else
       let half = n div 2
       in do {
         lo \<leftarrow> butterfly_inv_avx512 reg (take half f) half n_table a v_table (logn - 1);
         hi \<leftarrow> butterfly_inv_avx512 reg (drop half f) half n_table
           (a XOR vt_words v_table ! (2 ^ (logn - 1))) v_table (logn - 1);
         s_a \<leftarrow> si_eval reg (logn - 1) a v_table n_table;
         Some (butterfly_inv_layer_avx512 (lo @ hi) half s_a)
       })"
  by pat_completeness auto
termination butterfly_inv_avx512
  by (relation "measure (\<lambda>(reg, f, n, n_table, a, v_table, logn). n)")
    (rule wf_measure, unfold in_measure split, (erule (2) half_less)+)

declare butterfly_inv_avx512.simps [simp del]

section \<open>A layer\<close>

lemma length_fold_pair [simp]:
  "length (fold (\<lambda>j f. f[p j := P j f, q j := Q j f]) is f) = length f"
  by (induction "is" arbitrary: f) auto

lemma fold_pair_update:
  assumes "length f = 2 * half" "a \<le> b" "b \<le> half"
  shows "length (fold (\<lambda>j f. f[j := P j (f ! j) (f ! (j + half)), j + half := Q j (f ! j) (f ! (j + half))])
      [a..<b] f) = length f"
    and "k < 2 * half \<Longrightarrow>
      fold (\<lambda>j f. f[j := P j (f ! j) (f ! (j + half)), j + half := Q j (f ! j) (f ! (j + half))]) [a..<b] f ! k =
      (if a \<le> k \<and> k < b then P k (f ! k) (f ! (k + half))
       else if a + half \<le> k \<and> k < b + half then Q (k - half) (f ! (k - half)) (f ! k) else f ! k)"
proof -
  let ?g = "\<lambda>b. fold (\<lambda>j f. f[j := P j (f ! j) (f ! (j + half)), j + half := Q j (f ! j) (f ! (j + half))]) [a..<b] f"
  have *: "length (?g b) = 2 * half \<and> (\<forall>k<2 * half. ?g b ! k =
      (if a \<le> k \<and> k < b then P k (f ! k) (f ! (k + half))
       else if a + half \<le> k \<and> k < b + half then Q (k - half) (f ! (k - half)) (f ! k) else f ! k))"
    using assms(2,3)
  proof (induction b rule: dec_induct)
    case base
    then show ?case using assms(1) by auto
  next
    case (step b)
    then show ?case using assms(1) by (auto simp: nth_list_update less_Suc_eq)
  qed
  show "length (?g b) = length f" using * assms(1) by simp
  show "k < 2 * half \<Longrightarrow> ?g b ! k =
      (if a \<le> k \<and> k < b then P k (f ! k) (f ! (k + half))
       else if a + half \<le> k \<and> k < b + half then Q (k - half) (f ! (k - half)) (f ! k) else f ! k)"
    using * by blast
qed

lemmas fwd_step_pointwise = fold_pair_update [where P = "\<lambda>_ fl fh. fl XOR gf64_mul_reference s fh"
    and Q = "\<lambda>_ fl fh. fl XOR gf64_mul_reference (s XOR 1) fh"] for s

lemmas inv_step_pointwise = fold_pair_update [where P = "\<lambda>_ fl fh. fl XOR gf64_mul_reference s (fl XOR fh)"
    and Q = "\<lambda>_ fl fh. fl XOR fh"] for s

lemma butterfly_fwd_layer_eq:
  assumes "length f = 2 * half"
  shows "butterfly_fwd_layer f half s_a =
    map (\<lambda>j. f ! j XOR gf64_mul_reference s_a (f ! (j + half))) [0..<half] @
    map (\<lambda>j. f ! j XOR gf64_mul_reference (s_a XOR 1) (f ! (j + half))) [0..<half]"
  unfolding butterfly_fwd_layer_def Let_def
  by (rule nth_equalityI) (auto simp: fwd_step_pointwise [OF assms] nth_append assms)

lemma butterfly_inv_layer_eq:
  assumes "length f = 2 * half"
  shows "butterfly_inv_layer f half s_a =
    map (\<lambda>j. f ! j XOR gf64_mul_reference s_a (f ! j XOR f ! (j + half))) [0..<half] @
    map (\<lambda>j. f ! j XOR f ! (j + half)) [0..<half]"
  unfolding butterfly_inv_layer_def Let_def
  by (rule nth_equalityI) (auto simp: inv_step_pointwise [OF assms] nth_append assms)

lemma length_layers [simp]:
  "length f = 2 * half \<Longrightarrow> length (butterfly_fwd_layer f half s) = 2 * half"
  "length f = 2 * half \<Longrightarrow> length (butterfly_inv_layer f half s) = 2 * half"
  by (simp_all add: butterfly_fwd_layer_eq butterfly_inv_layer_eq)

lemma mul_xor_1: "gf64_mul_reference (s XOR 1) x = gf64_mul_reference s x XOR x"
  by (rule gf.inject [THEN iffD1]) (simp add: Gf_mul_reference Gf_xor distrib_right)

lemma layer_inv_fwd:
  assumes "length f = 2 * half"
  shows "butterfly_inv_layer (butterfly_fwd_layer f half s) half s = f"
  by (rule nth_equalityI)
    (auto simp: butterfly_fwd_layer_eq butterfly_inv_layer_eq assms nth_append mul_xor_1 xor.assoc
      xor.left_commute)

lemma layer_fwd_inv:
  assumes "length f = 2 * half"
  shows "butterfly_fwd_layer (butterfly_inv_layer f half s) half s = f"
  by (rule nth_equalityI)
    (auto simp: butterfly_fwd_layer_eq butterfly_inv_layer_eq assms nth_append mul_xor_1 xor.assoc
      add.commute)

section \<open>The transform evaluates\<close>

text \<open>The value at \<open>x\<close> of the combination of the novel basis with coefficients \<open>f\<close>.\<close>

definition novel_eval :: "nat \<Rightarrow> gf64_t list \<Rightarrow> gf \<Rightarrow> gf" where
  "novel_eval l f x = (\<Sum>k<2 ^ l. Gf (f ! k) * novel l k x)"

definition coset_values :: "nat \<Rightarrow> (gf \<Rightarrow> gf) \<Rightarrow> gf \<Rightarrow> gf64_t list" where
  "coset_values n F a = map (\<lambda>i. gf_rep (F (a + W i))) [0..<n]"

lemma length_coset_values [simp]: "length (coset_values n F a) = n" by (simp add: coset_values_def)

lemma coset_values_double:
  "coset_values (2 * 2 ^ l) F a = coset_values (2 ^ l) F a @ coset_values (2 ^ l) F (a + W (2 ^ l))"
proof (rule nth_equalityI)
  fix i assume i: "i < length (coset_values (2 * 2 ^ l) F a)"
  show "coset_values (2 * 2 ^ l) F a ! i =
      (coset_values (2 ^ l) F a @ coset_values (2 ^ l) F (a + W (2 ^ l))) ! i"
  proof (cases "i < 2 ^ l")
    case False
    then have "W i = W (2 ^ l) + W (i - 2 ^ l)"
      using i W_add_exp [of "i - 2 ^ l" l] by (simp add: add.commute)
    moreover have "i - 2 ^ l < 2 ^ l" using i by simp
    ultimately show ?thesis using False i by (simp add: coset_values_def nth_append add.assoc)
  qed (simp add: coset_values_def nth_append)
qed simp

lemma coset_values_cong: "(\<And>i. i < n \<Longrightarrow> F (a + W i) = G (a + W i)) \<Longrightarrow> coset_values n F a = coset_values n G a"
  by (simp add: coset_values_def)

lemma sum_double:
  fixes F :: "nat \<Rightarrow> gf"
  shows "(\<Sum>k<2 * n. F k) = (\<Sum>k<n. F k) + (\<Sum>k<n. F (k + n))"
  using sum.atLeastLessThan_concat [of 0 n "2 * n" F] sum.shift_bounds_nat_ivl [of F 0 n n]
  by (simp add: atLeast0LessThan mult_2)

lemma novel_eval_Suc:
  "novel_eval (Suc l) f x = (\<Sum>k<2 ^ l. (Gf (f ! k) + Gf (f ! (k + 2 ^ l)) * subsp l x) * novel l k x)"
  by (simp add: novel_eval_def sum_double novel_low novel_high distrib_right sum.distrib)
    (simp add: mult.commute mult.left_commute mult.assoc)

lemma novel_eval_layer:
  assumes "length f = 2 * 2 ^ l" "l < 20" "i < 2 ^ l" and s: "Gf s = subsp l a"
  shows "novel_eval l (take (2 ^ l) (butterfly_fwd_layer f (2 ^ l) s)) (a + W i) = novel_eval (Suc l) f (a + W i)"
    and "novel_eval l (drop (2 ^ l) (butterfly_fwd_layer f (2 ^ l) s)) (a + W (2 ^ l) + W i) =
      novel_eval (Suc l) f (a + W (2 ^ l) + W i)"
proof -
  have lo: "subsp l (a + W i) = Gf s"
    using assms(2,3) by (simp add: subsp_add subsp_W_below s)
  have "subsp l (W (2 ^ l)) = 1"
    using subsp_W [of "2 ^ l" l] power_strict_increasing [of l 20 "2::nat"] assms(2) by simp
  then have hi: "subsp l (a + W (2 ^ l) + W i) = Gf (s XOR 1)"
    using assms(2,3) by (simp add: subsp_add subsp_W_below s Gf_xor)
  show "novel_eval l (take (2 ^ l) (butterfly_fwd_layer f (2 ^ l) s)) (a + W i) = novel_eval (Suc l) f (a + W i)"
    unfolding novel_eval_Suc lo
    by (simp add: novel_eval_def butterfly_fwd_layer_eq [OF assms(1)] Gf_xor Gf_mul_reference mult.commute)
  show "novel_eval l (drop (2 ^ l) (butterfly_fwd_layer f (2 ^ l) s)) (a + W (2 ^ l) + W i) =
      novel_eval (Suc l) f (a + W (2 ^ l) + W i)"
    unfolding novel_eval_Suc hi
    by (simp add: novel_eval_def butterfly_fwd_layer_eq [OF assms(1)] Gf_xor Gf_mul_reference mult.commute)
qed

lemma compute_v_j_xor: "compute_v_j i XOR compute_v_j j = compute_v_j (i XOR j)"
  by (rule gf.inject [THEN iffD1]) (simp add: Gf_xor W_xor flip: W_def)

lemma butterfly_fwd_correct:
  assumes reg: "registry_ok reg vt (2 ^ L)" and L: "L \<le> 20"
    and "j < 2 ^ L" "0 < l" "l \<le> L" "length f = 2 ^ l"
  shows "butterfly_fwd reg f (2 ^ l) (2 ^ L) (compute_v_j j) vt l =
    Some (coset_values (2 ^ l) (novel_eval l f) (W j))"
  using assms(3-)
proof (induction l arbitrary: f j)
  case (Suc l)
  show ?case
  proof (cases "l = 0")
    case True
    with Suc.prems obtain x y where f: "f = [x, y]"
      by (auto simp: length_Suc_conv numeral_2_eq_2)
    have "novel_eval (Suc 0) f = (\<lambda>u. Gf x + u * Gf y)"
      unfolding fun_eq_iff novel_eval_Suc by (simp add: f mult.commute)
    then have "coset_values 2 (novel_eval (Suc 0) f) (W j) =
        [gf_rep (Gf x + W j * Gf y), gf_rep (Gf x + (W j + 1) * Gf y)]"
      by (simp add: coset_values_def numeral_2_eq_2 upt_conv_Cons)
    moreover have "gf_rep (Gf x + Gf u * Gf y) = x XOR gf64_mul_reference u y" for u
      by (simp flip: Gf_mul_reference)
    moreover have "W j + 1 = Gf (compute_v_j j XOR 1)" by (simp add: W_def Gf_xor)
    ultimately show ?thesis
      using W_def [of j] by (simp add: True f butterfly_fwd.simps [of _ _ 2])
  next
    case False
    define s where "s = compute_v_j (j div 2 ^ l)"
    define F where "F = butterfly_fwd_layer f (2 ^ l) s"
    have si: "si_eval reg l (compute_v_j j) vt (2 ^ L) = Some s"
      unfolding s_def by (rule si_eval_point [OF reg Suc.prems(1)])
    have s: "Gf s = subsp l (W j)"
      using less_le_trans [OF Suc.prems(1), of "2 ^ 20"] power_increasing [OF L, of "2::nat"]
      by (simp add: s_def subsp_W flip: W_def)
    have l: "l < 20" "2 ^ l < (2 ^ L :: nat)" using Suc.prems L by auto
    have len: "length f = 2 * 2 ^ l" "length F = 2 * 2 ^ l" using Suc.prems by (simp_all add: F_def)
    have shift: "compute_v_j j XOR vt_words vt ! (2 ^ l) = compute_v_j (j XOR 2 ^ l)"
      using l by (simp add: registry_ok_words [OF reg] compute_v_j_xor)
    have "butterfly_fwd reg (take (2 ^ l) F) (2 ^ l) (2 ^ L) (compute_v_j j) vt l =
        Some (coset_values (2 ^ l) (novel_eval l (take (2 ^ l) F)) (W j))"
      "butterfly_fwd reg (drop (2 ^ l) F) (2 ^ l) (2 ^ L) (compute_v_j (j XOR 2 ^ l)) vt l =
        Some (coset_values (2 ^ l) (novel_eval l (drop (2 ^ l) F)) (W (j XOR 2 ^ l)))"
      using Suc.prems False len l by (auto intro!: Suc.IH xor_less_exp)
    moreover have "coset_values (2 ^ l) (novel_eval l (take (2 ^ l) F)) (W j) =
        coset_values (2 ^ l) (novel_eval (Suc l) f) (W j)"
      "coset_values (2 ^ l) (novel_eval l (drop (2 ^ l) F)) (W (j XOR 2 ^ l)) =
        coset_values (2 ^ l) (novel_eval (Suc l) f) (W j + W (2 ^ l))"
      unfolding F_def W_xor by (rule coset_values_cong, rule novel_eval_layer [OF len(1) l(1) _ s], assumption)+
    ultimately have "butterfly_fwd reg f (2 * 2 ^ l) (2 ^ L) (compute_v_j j) vt (Suc l) =
        Some (coset_values (2 ^ l) (novel_eval (Suc l) f) (W j) @
          coset_values (2 ^ l) (novel_eval (Suc l) f) (W j + W (2 ^ l)))"
      using False by (subst butterfly_fwd.simps) (simp add: si shift Let_def flip: F_def)
    then show ?thesis by (simp add: coset_values_double)
  qed
qed simp

section \<open>The inverse\<close>

lemma butterfly_inv_fwd:
  assumes "butterfly_fwd reg f n nt a vt l = Some g" "length f = n" "n = 2 ^ k"
  shows "length g = n \<and> butterfly_inv reg g n nt a vt l = Some f"
  using assms
proof (induction k arbitrary: n f a l g)
  case 0
  then show ?case by (simp add: butterfly_fwd.simps [of _ _ "Suc 0"])
next
  case (Suc k)
  show ?case
  proof (cases "k = 0")
    case True
    with Suc.prems obtain x y where f: "f = [x, y]" and n: "n = 2"
      by (auto simp: length_Suc_conv numeral_2_eq_2)
    with Suc.prems(1) show ?thesis
      by (auto simp: butterfly_fwd.simps [of _ _ 2] butterfly_inv.simps [of _ _ 2] mul_xor_1 xor.assoc
          xor.left_commute)
  next
    case False
    define h where "h = n div 2"
    have h: "n = 2 * h" "h = 2 ^ k" "n \<noteq> 2" "\<not> n < 2" "n div 2 = h"
      using Suc.prems(3) False by (cases k; simp add: h_def)+
    from Suc.prems(1) h obtain s lo hi where
      s: "si_eval reg (l - 1) a vt nt = Some s" and
      lo: "butterfly_fwd reg (take h (butterfly_fwd_layer f h s)) h nt a vt (l - 1) = Some lo" and
      hi: "butterfly_fwd reg (drop h (butterfly_fwd_layer f h s)) h nt
        (a XOR vt_words vt ! (2 ^ (l - 1))) vt (l - 1) = Some hi" and g: "g = lo @ hi"
      by (subst (asm) butterfly_fwd.simps) (auto simp: Let_def h(5) split: bind_splits)
    have len: "length (butterfly_fwd_layer f h s) = 2 * h" using Suc.prems(2) h(1) by simp
    have "length lo = h \<and> butterfly_inv reg lo h nt a vt (l - 1) = Some (take h (butterfly_fwd_layer f h s))"
      by (rule Suc.IH [OF lo]) (simp_all add: len flip: h(2))
    moreover have "length hi = h \<and> butterfly_inv reg hi h nt (a XOR vt_words vt ! (2 ^ (l - 1))) vt (l - 1) =
        Some (drop h (butterfly_fwd_layer f h s))"
      by (rule Suc.IH [OF hi]) (simp_all add: len flip: h(2))
    ultimately show ?thesis
      using h(3,4) s Suc.prems(2) h(1) by (subst butterfly_inv.simps)
        (simp add: g Let_def h(5) layer_inv_fwd)
  qed
qed

section \<open>The vector butterflies are the scalar ones\<close>

lemma fold_blocks_tail_inv:
  assumes block: "\<And>b s. \<lbrakk>b < N div w; C s\<rbrakk> \<Longrightarrow> F b s = fold f [w * b..<w * b + w] s"
    and inv: "\<And>i s. C s \<Longrightarrow> C (f i s)" and "C s"
  shows "fold f [w * (N div w)..<N] (fold F [0..<N div w] s) = fold f [0..<N] s"
proof -
  have C: "C (fold f is s)" for "is" using assms(3) by (induction "is" arbitrary: s) (auto intro: inv)
  have "fold F [0..<n] s = fold f [0..<w * n] s" if "n \<le> N div w" for n
    using that
  proof (induction n)
    case (Suc n)
    then have "fold F [0..<Suc n] s = fold f [w * n..<w * n + w] (fold f [0..<w * n] s)"
      using block [of n, OF _ C] by simp
    also have "\<dots> = fold f [0..<w * Suc n] s"
      by (subst fold_upt_append) (simp_all add: add.commute)
    finally show ?case .
  qed simp
  then show ?thesis by (simp add: fold_upt_append)
qed

lemma avx512_products:
  assumes "k < 8" "length x = 8"
  shows "gf64_mul_avx512 (replicate 8 0) x (replicate 8 s) 8 ! k = gf64_mul_reference s (x ! k)"
proof -
  have "gf64_mul_reference u v = gf64_mul_reference v u" for u v
    by (rule gf.inject [THEN iffD1]) (simp add: Gf_mul_reference mult.commute)
  with assms show ?thesis by (simp add: gf64_mul_avx512_eq)
qed

lemma butterfly_fwd_block_avx512_eq:
  assumes "length f = 2 * half" "j + 8 \<le> half"
  shows "butterfly_fwd_block_avx512 half s j f =
    fold (\<lambda>j f. let fl = f ! j; fh = f ! (j + half)
        in f[j := fl XOR gf64_mul_reference s fh,
             j + half := fl XOR gf64_mul_reference (s XOR 1) fh]) [j..<j + 8] f"
proof -
  define x where "x = map (\<lambda>k. f ! (j + k + half)) [0..<8]"
  define y where "y = gf64_mul_avx512 (replicate 8 0) x (replicate 8 s) 8"
  have y: "y ! k = gf64_mul_reference s (f ! (j + k + half))" if "k < 8" for k
    using that by (simp add: y_def x_def avx512_products)
  have "butterfly_fwd_block_avx512 half s j f =
      fold (\<lambda>i f. f[i := f ! i XOR y ! (i - j), i + half := f ! i XOR y ! (i - j) XOR x ! (i - j)])
        [j..<j + 8] f"
    unfolding butterfly_fwd_block_avx512_def Let_def x_def [symmetric] y_def [symmetric]
    by (subst fold_upt_shift [symmetric]) simp
  also have "\<dots> = fold (\<lambda>j f. f[j := f ! j XOR gf64_mul_reference s (f ! (j + half)),
      j + half := f ! j XOR gf64_mul_reference (s XOR 1) (f ! (j + half))]) [j..<j + 8] f"
    (is "?l = ?r")
  proof (rule nth_equalityI)
    show "length ?l = length ?r" by simp
    fix k assume "k < length ?l"
    then have "k < 2 * half" using assms(1) by simp
    note pt = fold_pair_update(2) [OF assms(1) le_add1 assms(2) this]
    show "?l ! k = ?r ! k"
      unfolding pt [where P = "\<lambda>i u _. u XOR y ! (i - j)" and Q = "\<lambda>i u _. u XOR y ! (i - j) XOR x ! (i - j)"]
        fwd_step_pointwise(2) [OF assms(1) le_add1 assms(2) \<open>k < 2 * half\<close>]
      using y [of "k - j"] y [of "k - half - j"] by (auto simp: x_def mul_xor_1 xor.assoc)
  qed
  finally show ?thesis by (simp add: Let_def)
qed

lemma butterfly_inv_block_avx512_eq:
  assumes "length f = 2 * half" "j + 8 \<le> half"
  shows "butterfly_inv_block_avx512 half s j f =
    fold (\<lambda>j f. let fl_new = f ! j; fh_new = f ! (j + half);
                fh = fl_new XOR fh_new;
                fl = fl_new XOR gf64_mul_reference s fh
            in f[j := fl, j + half := fh]) [j..<j + 8] f"
proof -
  define x where "x = map (\<lambda>k. f ! (j + k) XOR f ! (j + k + half)) [0..<8]"
  define y where "y = gf64_mul_avx512 (replicate 8 0) x (replicate 8 s) 8"
  have y: "y ! k = gf64_mul_reference s (f ! (j + k) XOR f ! (j + k + half))" if "k < 8" for k
    using that by (simp add: y_def x_def avx512_products)
  have "butterfly_inv_block_avx512 half s j f =
      fold (\<lambda>i f. f[i := f ! i XOR y ! (i - j), i + half := x ! (i - j)]) [j..<j + 8] f"
    unfolding butterfly_inv_block_avx512_def Let_def x_def [symmetric] y_def [symmetric]
    by (subst fold_upt_shift [symmetric]) simp
  also have "\<dots> = fold (\<lambda>j f. f[j := f ! j XOR gf64_mul_reference s (f ! j XOR f ! (j + half)),
      j + half := f ! j XOR f ! (j + half)]) [j..<j + 8] f"
    (is "?l = ?r")
  proof (rule nth_equalityI)
    show "length ?l = length ?r" by simp
    fix k assume "k < length ?l"
    then have "k < 2 * half" using assms(1) by simp
    note pt = fold_pair_update(2) [OF assms(1) le_add1 assms(2) this]
    show "?l ! k = ?r ! k"
      unfolding pt [where P = "\<lambda>i u _. u XOR y ! (i - j)" and Q = "\<lambda>i _ _. x ! (i - j)"]
        inv_step_pointwise(2) [OF assms(1) le_add1 assms(2) \<open>k < 2 * half\<close>]
      using y [of "k - j"] by (auto simp: x_def)
  qed
  finally show ?thesis by (simp add: Let_def)
qed

lemma layers_avx512_eq:
  assumes "length f = 2 * half"
  shows "butterfly_fwd_layer_avx512 f half s = butterfly_fwd_layer f half s"
    and "butterfly_inv_layer_avx512 f half s = butterfly_inv_layer f half s"
proof -
  have "8 * b + 8 \<le> half" if "b < half div 8" for b using that by linarith
  note * = butterfly_fwd_block_avx512_eq [OF _ this] butterfly_inv_block_avx512_eq [OF _ this]
  show "butterfly_fwd_layer_avx512 f half s = butterfly_fwd_layer f half s"
    unfolding butterfly_fwd_layer_avx512_def butterfly_fwd_layer_def
    by (simp only: Let_def [of "fold _ [0..<half div 8] f"],
        subst fold_blocks_tail_inv [where C = "\<lambda>s. length s = 2 * half", OF *(1)])
      (simp_all add: Let_def assms)
  show "butterfly_inv_layer_avx512 f half s = butterfly_inv_layer f half s"
    unfolding butterfly_inv_layer_avx512_def butterfly_inv_layer_def
    by (simp only: Let_def [of "fold _ [0..<half div 8] f"],
        subst fold_blocks_tail_inv [where C = "\<lambda>s. length s = 2 * half", OF *(2)])
      (simp_all add: Let_def assms)
qed

lemma butterfly_fwd_avx512_eq:
  "length f = 2 ^ k \<Longrightarrow> butterfly_fwd_avx512 reg f (2 ^ k) nt a vt l = butterfly_fwd reg f (2 ^ k) nt a vt l"
proof (induction k arbitrary: f a l)
  case (Suc k)
  then show ?case
    by (cases "k = 0")
      (auto simp: butterfly_fwd_avx512.simps [of _ _ "2 * 2 ^ k"] butterfly_fwd.simps [of _ _ "2 * 2 ^ k"] Let_def
        butterfly_fwd_avx512.simps [of _ _ 2] butterfly_fwd.simps [of _ _ 2]
        layers_avx512_eq intro!: Option.bind_cong)
qed (simp add: butterfly_fwd_avx512.simps [of _ _ "Suc 0"] butterfly_fwd.simps [of _ _ "Suc 0"])

lemma butterfly_inv_length:
  "butterfly_inv reg f (2 ^ k) nt a vt l = Some g \<Longrightarrow> length f = 2 ^ k \<Longrightarrow> length g = 2 ^ k"
proof (induction k arbitrary: f a l g)
  case (Suc k)
  show ?case
  proof (cases "k = 0")
    case True
    with Suc.prems show ?thesis by (auto simp: butterfly_inv.simps [of _ _ 2] Let_def)
  next
    case False
    then have "2 * 2 ^ k \<noteq> (2::nat)" "\<not> 2 * 2 ^ k < (2::nat)" by (cases k; simp)+
    with Suc.prems obtain lo hi s where
      "butterfly_inv reg (take (2 ^ k) f) (2 ^ k) nt a vt (l - 1) = Some lo"
      "butterfly_inv reg (drop (2 ^ k) f) (2 ^ k) nt (a XOR vt_words vt ! (2 ^ (l - 1))) vt (l - 1) = Some hi"
      and g: "g = butterfly_inv_layer (lo @ hi) (2 ^ k) s"
      by (subst (asm) butterfly_inv.simps) (auto simp: Let_def split: bind_splits)
    from Suc.IH [OF this(1)] Suc.IH [OF this(2)] Suc.prems(2) have "length (lo @ hi) = 2 * 2 ^ k" by simp
    then show ?thesis by (simp add: g)
  qed
qed (simp add: butterfly_inv.simps [of _ _ "Suc 0"])

lemma butterfly_inv_avx512_eq:
  "length f = 2 ^ k \<Longrightarrow> butterfly_inv_avx512 reg f (2 ^ k) nt a vt l = butterfly_inv reg f (2 ^ k) nt a vt l"
proof (induction k arbitrary: f a l)
  case (Suc k)
  have layer: "butterfly_inv_layer_avx512 (lo @ hi) (2 ^ k) s = butterfly_inv_layer (lo @ hi) (2 ^ k) s"
    if "butterfly_inv reg (take (2 ^ k) f) (2 ^ k) nt a1 vt l1 = Some lo"
      "butterfly_inv reg (drop (2 ^ k) f) (2 ^ k) nt a2 vt l2 = Some hi" for a1 a2 l1 l2 lo hi s
    using butterfly_inv_length [OF that(1)] butterfly_inv_length [OF that(2)] Suc.prems
    by (intro layers_avx512_eq) simp
  show ?case
    by (cases "k = 0")
      (auto simp: butterfly_inv_avx512.simps [of _ _ "2 * 2 ^ k"] butterfly_inv.simps [of _ _ "2 * 2 ^ k"] Let_def
        butterfly_inv_avx512.simps [of _ _ 2] butterfly_inv.simps [of _ _ 2]
        Suc.IH Suc.prems layer intro!: Option.bind_cong)
qed (simp add: butterfly_inv_avx512.simps [of _ _ "Suc 0"] butterfly_inv.simps [of _ _ "Suc 0"])

end
