(* ===== verification/Additive_FFT.thy ===== *)
theory Additive_FFT
  imports HQC_Butterfly
begin

text \<open>
  The monomial-basis recursion of gf64/gf64_additive_fft.c, scalar and AVX-512: squaring, recursion
  on the even and odd halves and a butterfly with the index as multiplier. The inverse undoes the
  recursion exactly, with 63 squarings as the inverse of one; the public inverse then multiplies
  by the documented scale. A failed assertion is None; the two halves are arrays that
  a loop fills completely.
\<close>

definition gf64_is_power_of_two :: "nat \<Rightarrow> bool" where
  "gf64_is_power_of_two n \<longleftrightarrow> n \<noteq> 0 \<and> n AND (n - 1) = 0"

fun log2_size_from :: "nat \<Rightarrow> nat \<Rightarrow> nat" where
  "log2_size_from n log_n = (if n > 1 then log2_size_from (n div 2) (log_n + 1) else log_n)"

declare log2_size_from.simps [simp del]

definition gf64_log2_size :: "nat \<Rightarrow> nat" where "gf64_log2_size n = log2_size_from n 0"

definition gf64_fft_scale :: "nat \<Rightarrow> gf64_t" where
  "gf64_fft_scale n = (let log_n = gf64_log2_size n in if log_n = 0 then 1 else push_bit (log_n - 1) 1)"

definition gf64_square_vector_in_place :: "gf64_t list \<Rightarrow> nat \<Rightarrow> gf64_t list" where
  "gf64_square_vector_in_place values n =
    fold (\<lambda>i values. values[i := gf64_square [0] [values ! i] 1 ! 0]) [0..<n] values"

definition gf64_apply_inverse_frobenius :: "gf64_t list \<Rightarrow> nat \<Rightarrow> gf64_t list" where
  "gf64_apply_inverse_frobenius values n =
    fold (\<lambda>round values. gf64_square_vector_in_place values n) [0..<63] values"

definition gf64_scale_vector :: "gf64_t list \<Rightarrow> nat \<Rightarrow> gf64_t \<Rightarrow> gf64_t list" where
  "gf64_scale_vector values n scale =
    (if scale = 1 then values
     else fold (\<lambda>i values. values[i := gf64_mul_reference (values ! i) scale]) [0..<n] values)"

text \<open>\<open>alpha = (gf64_t)i\<close>\<close>

abbreviation alpha_of :: "nat \<Rightarrow> gf64_t" where "alpha_of i \<equiv> of_nat i"

definition interleave :: "gf64_t list \<Rightarrow> gf64_t list \<Rightarrow> nat \<Rightarrow> gf64_t list \<Rightarrow> gf64_t list" where
  "interleave even_half odd_half half q =
    fold (\<lambda>i q. q[2 * i := even_half ! i, 2 * i + 1 := odd_half ! i]) [0..<half] q"

function gf64_fft_inverse_unscaled :: "gf64_t list \<Rightarrow> nat \<Rightarrow> gf64_t list" where
  "gf64_fft_inverse_unscaled q n =
    (if n \<le> 1 then q
     else
       let half = n div 2;
           odd_half = map (\<lambda>i. q ! i XOR q ! (i + half)) [0..<half];
           even_half = map (\<lambda>i. q ! i XOR gf64_mul_reference (alpha_of i) (q ! i XOR q ! (i + half))) [0..<half];
           even_half = gf64_fft_inverse_unscaled even_half half;
           odd_half = gf64_fft_inverse_unscaled odd_half half;
           even_half = gf64_apply_inverse_frobenius even_half half;
           odd_half = gf64_apply_inverse_frobenius odd_half half
       in interleave even_half odd_half half q)"
  by pat_completeness auto
termination by (relation "measure (\<lambda>(q, n). n)") auto

declare gf64_fft_inverse_unscaled.simps [simp del]

function gf64_fft_forward :: "gf64_t list \<Rightarrow> nat \<Rightarrow> gf64_t list option" where
  "gf64_fft_forward q n =
    (if n \<le> 1 then Some q
     else if \<not> gf64_is_power_of_two n then None
     else
       let half = n div 2;
           even_half = map (\<lambda>i. q ! (2 * i)) [0..<half];
           odd_half = map (\<lambda>i. q ! (2 * i + 1)) [0..<half];
           even_half = gf64_square_vector_in_place even_half half;
           odd_half = gf64_square_vector_in_place odd_half half
       in do {
         even_half \<leftarrow> gf64_fft_forward even_half half;
         odd_half \<leftarrow> gf64_fft_forward odd_half half;
         Some (fold (\<lambda>i q.
             let beta = even_half ! i;
                 gamma = gf64_mul_reference (alpha_of i) (odd_half ! i);
                 q = q[i := beta XOR gamma]
             in q[i + half := q ! i XOR odd_half ! i])
           [0..<half] q)
       })"
  by pat_completeness auto
termination by (relation "measure (\<lambda>(q, n). n)") auto

declare gf64_fft_forward.simps [simp del]

definition gf64_fft_inverse :: "gf64_t list \<Rightarrow> nat \<Rightarrow> gf64_t list option" where
  "gf64_fft_inverse q n =
    (if n \<le> 1 then Some q
     else if \<not> gf64_is_power_of_two n then None
     else Some (gf64_scale_vector (gf64_fft_inverse_unscaled q n) n (gf64_fft_scale n)))"

section \<open>AVX-512\<close>

definition GF64_FFT_AVX512_MIN :: nat where "GF64_FFT_AVX512_MIN = 64"

definition gf64_apply_inverse_frobenius_avx512 :: "gf64_t list \<Rightarrow> nat \<Rightarrow> gf64_t list" where
  "gf64_apply_inverse_frobenius_avx512 values n =
    fold (\<lambda>round values. gf64_square_avx512 values values n) [0..<63] values"

text \<open>\<open>for (i = 0; i < half; i += 8)\<close>: the starts of the batches.\<close>

definition batches8 :: "nat \<Rightarrow> nat list" where "batches8 half = map ((*) 8) [0..<(half + 7) div 8]"

definition fft_forward_batch :: "gf64_t list \<Rightarrow> gf64_t list \<Rightarrow> nat \<Rightarrow> nat \<Rightarrow> gf64_t list \<Rightarrow> gf64_t list" where
  "fft_forward_batch even_half odd_half half i q =
    (let alpha_buf = map (\<lambda>k. alpha_of (i + k)) [0..<8];
         prod_buf = gf64_mul_avx512 (replicate 8 0) alpha_buf (drop i odd_half) 8
     in fold (\<lambda>k q.
          let beta = even_half ! (i + k); gamma = prod_buf ! k;
              q = q[i + k := beta XOR gamma]
          in q[i + k + half := q ! (i + k) XOR odd_half ! (i + k)])
        [0..<8] q)"

function gf64_fft_forward_avx512 :: "gf64_t list \<Rightarrow> nat \<Rightarrow> gf64_t list option" where
  "gf64_fft_forward_avx512 q n =
    (if n \<le> 1 then Some q
     else if n < GF64_FFT_AVX512_MIN then gf64_fft_forward q n
     else if \<not> gf64_is_power_of_two n then None
     else
       let half = n div 2;
           even_half = map (\<lambda>i. q ! (2 * i)) [0..<half];
           odd_half = map (\<lambda>i. q ! (2 * i + 1)) [0..<half];
           even_half = gf64_square_avx512 even_half even_half half;
           odd_half = gf64_square_avx512 odd_half odd_half half
       in do {
         even_half \<leftarrow> gf64_fft_forward_avx512 even_half half;
         odd_half \<leftarrow> gf64_fft_forward_avx512 odd_half half;
         Some (fold (fft_forward_batch even_half odd_half half) (batches8 half) q)
       })"
  by pat_completeness auto
termination by (relation "measure (\<lambda>(q, n). n)") auto

declare gf64_fft_forward_avx512.simps [simp del]

text \<open>One batch of the inverse butterfly fills eight slots of both halves.\<close>

definition fft_inverse_batch ::
  "gf64_t list \<Rightarrow> nat \<Rightarrow> nat \<Rightarrow> gf64_t list \<times> gf64_t list \<Rightarrow> gf64_t list \<times> gf64_t list" where
  "fft_inverse_batch q half i = (\<lambda>(even_half, odd_half).
    let odd_buf = map (\<lambda>k. q ! (i + k) XOR q ! (i + k + half)) [0..<8];
        odd_half = fold (\<lambda>k odd_half. odd_half[i + k := odd_buf ! k]) [0..<8] odd_half;
        alpha_buf = map (\<lambda>k. alpha_of (i + k)) [0..<8];
        prod_buf = gf64_mul_avx512 (replicate 8 0) alpha_buf odd_buf 8;
        even_half = fold (\<lambda>k even_half. even_half[i + k := q ! (i + k) XOR prod_buf ! k]) [0..<8] even_half
    in (even_half, odd_half))"

function gf64_fft_inverse_unscaled_avx512 :: "gf64_t list \<Rightarrow> nat \<Rightarrow> gf64_t list" where
  "gf64_fft_inverse_unscaled_avx512 q n =
    (if n \<le> 1 then q
     else if n < GF64_FFT_AVX512_MIN then gf64_fft_inverse_unscaled q n
     else
       let half = n div 2;
           (even_half, odd_half) = fold (fft_inverse_batch q half) (batches8 half)
             (replicate half 0, replicate half 0);
           even_half = gf64_fft_inverse_unscaled_avx512 even_half half;
           odd_half = gf64_fft_inverse_unscaled_avx512 odd_half half;
           even_half = gf64_apply_inverse_frobenius_avx512 even_half half;
           odd_half = gf64_apply_inverse_frobenius_avx512 odd_half half
       in interleave even_half odd_half half q)"
  by pat_completeness auto
termination by (relation "measure (\<lambda>(q, n). n)") auto

declare gf64_fft_inverse_unscaled_avx512.simps [simp del]

definition gf64_fft_inverse_avx512 :: "gf64_t list \<Rightarrow> nat \<Rightarrow> gf64_t list" where
  "gf64_fft_inverse_avx512 q n =
    (if n \<le> 1 then q
     else gf64_scale_vector (gf64_fft_inverse_unscaled_avx512 q n) n (gf64_fft_scale n))"

section \<open>The pieces\<close>

lemma square_vector_eq:
  "length values = n \<Longrightarrow> gf64_square_vector_in_place values n = map gf64_square_one values"
  unfolding gf64_square_vector_in_place_def
  by (simp add: gf64_square_def fold_update_map [where g = "\<lambda>_ u. gf64_square_one u"])
    (rule nth_equalityI, auto)

lemma square_avx512_eq:
  "length values = n \<Longrightarrow> gf64_square_avx512 values values n = map gf64_square_one values"
  by (simp add: gf64_square_avx512_eq gf64_square_eq) (rule nth_equalityI, auto)

lemma inverse_frobenius_eq:
  assumes "length values = n"
  shows "gf64_apply_inverse_frobenius values n = map (gf64_square_one ^^ 63) values"
    and "gf64_apply_inverse_frobenius_avx512 values n = map (gf64_square_one ^^ 63) values"
proof -
  have "fold (\<lambda>round values. gf64_square_vector_in_place values n) [0..<m] values = map (gf64_square_one ^^ m) values"
    "fold (\<lambda>round values. gf64_square_avx512 values values n) [0..<m] values = map (gf64_square_one ^^ m) values" for m
    using assms by (induction m) (simp_all add: square_vector_eq square_avx512_eq)
  then show "gf64_apply_inverse_frobenius values n = map (gf64_square_one ^^ 63) values"
    "gf64_apply_inverse_frobenius_avx512 values n = map (gf64_square_one ^^ 63) values"
    unfolding gf64_apply_inverse_frobenius_def gf64_apply_inverse_frobenius_avx512_def by blast+
qed

lemma frobenius_inverse: "(gf64_square_one ^^ 63) (gf64_square_one a) = a"
proof -
  have "(gf64_square_one ^^ 63) (gf64_square_one a) = (gf64_square_one ^^ 64) a"
    using funpow_swap1 [of gf64_square_one 63 a] funpow.simps(2) [of 63 gf64_square_one] by simp
  also have "\<dots> = a"
    by (rule gf.inject [THEN iffD1]) (simp only: Gf_square_funpow gf_power_order)
  finally show ?thesis .
qed

lemma interleave_eq:
  assumes "length q = 2 * half"
  shows "interleave e d half q = map (\<lambda>i. if even i then e ! (i div 2) else d ! (i div 2)) [0..<2 * half]"
proof -
  have "m \<le> half \<Longrightarrow> length (interleave e d m q) = 2 * half \<and>
      (\<forall>i<2 * half. interleave e d m q ! i =
        (if i < 2 * m then if even i then e ! (i div 2) else d ! (i div 2) else q ! i))" for m
  proof (induction m)
    case (Suc m)
    have step: "interleave e d (Suc m) q = (interleave e d m q)[2 * m := e ! m, 2 * m + 1 := d ! m]"
      by (simp add: interleave_def)
    show ?case
      using Suc unfolding step by (auto simp: nth_list_update less_Suc_eq elim!: evenE oddE)
  qed (simp add: interleave_def assms)
  from this [of half] show ?thesis by (auto intro!: nth_equalityI)
qed

lemma is_power_of_two_exp [simp]: "gf64_is_power_of_two (2 ^ k)"
  using and_mask_mod [of "2 ^ k" k] by (simp add: gf64_is_power_of_two_def)

section \<open>The round trip\<close>

definition fft_combine :: "gf64_t list \<Rightarrow> gf64_t list \<Rightarrow> nat \<Rightarrow> gf64_t list" where
  "fft_combine e d half =
    map (\<lambda>i. e ! i XOR gf64_mul_reference (alpha_of i) (d ! i)) [0..<half] @
    map (\<lambda>i. e ! i XOR gf64_mul_reference (alpha_of i) (d ! i) XOR d ! i) [0..<half]"

lemma length_fft_combine [simp]: "length (fft_combine e d half) = 2 * half"
  by (simp add: fft_combine_def)

lemma fft_combine_fold:
  assumes "length q = 2 * half"
  shows "fold (\<lambda>i q.
      let beta = e ! i; gamma = gf64_mul_reference (alpha_of i) (d ! i); q = q[i := beta XOR gamma]
      in q[i + half := q ! i XOR d ! i]) [0..<half] q = fft_combine e d half"
proof -
  define x where "x = (\<lambda>i. e ! i XOR gf64_mul_reference (alpha_of i) (d ! i))"
  have "m \<le> half \<Longrightarrow> fold (\<lambda>i q. let q = q[i := x i] in q[i + half := q ! i XOR d ! i]) [0..<m] q =
      fold (\<lambda>i q. q[i := x i, i + half := x i XOR d ! i]) [0..<m] q" for m
    using assms by (induction m) (simp_all add: Let_def)
  from this [of half] have "fold (\<lambda>i q.
      let beta = e ! i; gamma = gf64_mul_reference (alpha_of i) (d ! i); q = q[i := beta XOR gamma]
      in q[i + half := q ! i XOR d ! i]) [0..<half] q = fold (\<lambda>i q. q[i := x i, i + half := x i XOR d ! i]) [0..<half] q"
    by (simp add: x_def Let_def)
  also have "\<dots> = fft_combine e d half"
    using fold_pair_update [OF assms, where a = 0 and b = half and P = "\<lambda>i _ _. x i"
      and Q = "\<lambda>i _ _. x i XOR d ! i"] assms
    by (intro nth_equalityI) (auto simp: fft_combine_def x_def nth_append xor.assoc)
  finally show ?thesis .
qed

lemma exp_not_le_1: "\<not> (2::nat) ^ Suc k \<le> 1"
  by (induction k) simp_all

lemma fft_forward_step:
  assumes "length q = 2 ^ Suc k"
  shows "gf64_fft_forward q (2 ^ Suc k) = do {
      e \<leftarrow> gf64_fft_forward (map (\<lambda>i. gf64_square_one (q ! (2 * i))) [0..<2 ^ k]) (2 ^ k);
      d \<leftarrow> gf64_fft_forward (map (\<lambda>i. gf64_square_one (q ! (2 * i + 1))) [0..<2 ^ k]) (2 ^ k);
      Some (fft_combine e d (2 ^ k)) }"
proof -
  have "\<not> (2::nat) ^ Suc k \<le> 1" "(2::nat) ^ Suc k div 2 = 2 ^ k" by (rule exp_not_le_1, simp)
  then show ?thesis
    using assms
    by (subst gf64_fft_forward.simps)
      (simp only: Let_def if_False is_power_of_two_exp [of "Suc k", unfolded power_Suc] not_True_eq_False square_vector_eq length_map length_upt
        diff_zero map_map comp_def fft_combine_fold [unfolded Let_def] power_Suc)
qed

lemma length_interleave [simp]: "length (interleave e d half q) = length q"
  by (simp add: interleave_def)

lemma length_fft_inverse_unscaled [simp]: "length (gf64_fft_inverse_unscaled q n) = length q"
  by (subst gf64_fft_inverse_unscaled.simps) (simp add: Let_def)

lemma fft_inverse_step:
  assumes "length q = 2 ^ Suc k"
  shows "gf64_fft_inverse_unscaled q (2 ^ Suc k) = interleave
      (map (gf64_square_one ^^ 63) (gf64_fft_inverse_unscaled
        (map (\<lambda>i. q ! i XOR gf64_mul_reference (alpha_of i) (q ! i XOR q ! (i + 2 ^ k))) [0..<2 ^ k]) (2 ^ k)))
      (map (gf64_square_one ^^ 63) (gf64_fft_inverse_unscaled
        (map (\<lambda>i. q ! i XOR q ! (i + 2 ^ k)) [0..<2 ^ k]) (2 ^ k))) (2 ^ k) q"
proof -
  have "\<not> (2::nat) ^ Suc k \<le> 1" "(2::nat) ^ Suc k div 2 = 2 ^ k" by (rule exp_not_le_1, simp)
  then show ?thesis
    by (subst gf64_fft_inverse_unscaled.simps)
      (simp only: Let_def if_False inverse_frobenius_eq length_fft_inverse_unscaled length_map length_upt diff_zero)
qed

lemma fft_combine_undo:
  "map (\<lambda>i. fft_combine e d h ! i XOR fft_combine e d h ! (i + h)) [0..<h] = map (\<lambda>i. d ! i) [0..<h]"
  "map (\<lambda>i. fft_combine e d h ! i XOR gf64_mul_reference (alpha_of i)
      (fft_combine e d h ! i XOR fft_combine e d h ! (i + h))) [0..<h] = map (\<lambda>i. e ! i) [0..<h]"
  by (auto simp: fft_combine_def nth_append xor.assoc xor.left_commute)

lemma fft_round_trip:
  "length q = 2 ^ k \<Longrightarrow>
    \<exists>r. gf64_fft_forward q (2 ^ k) = Some r \<and> length r = 2 ^ k \<and> gf64_fft_inverse_unscaled r (2 ^ k) = q"
proof (induction k arbitrary: q)
  case 0
  then show ?case by (simp add: gf64_fft_forward.simps gf64_fft_inverse_unscaled.simps)
next
  case (Suc k)
  let ?e = "map (\<lambda>i. gf64_square_one (q ! (2 * i))) [0..<2 ^ k]"
  let ?d = "map (\<lambda>i. gf64_square_one (q ! (2 * i + 1))) [0..<2 ^ k]"
  obtain e where e: "gf64_fft_forward ?e (2 ^ k) = Some e" "length e = 2 ^ k"
    "gf64_fft_inverse_unscaled e (2 ^ k) = ?e" using Suc.IH [of ?e] by auto
  obtain d where d: "gf64_fft_forward ?d (2 ^ k) = Some d" "length d = 2 ^ k"
    "gf64_fft_inverse_unscaled d (2 ^ k) = ?d" using Suc.IH [of ?d] by auto
  have fwd: "gf64_fft_forward q (2 ^ Suc k) = Some (fft_combine e d (2 ^ k))"
    unfolding fft_forward_step [OF Suc.prems] e(1) d(1) by simp
  have len: "length (fft_combine e d (2 ^ k)) = 2 ^ Suc k" by simp
  have self: "map (\<lambda>i. e ! i) [0..<2 ^ k] = e" "map (\<lambda>i. d ! i) [0..<2 ^ k] = d"
    using e(2) d(2) map_nth [of e] map_nth [of d] by simp_all
  have "gf64_fft_inverse_unscaled (fft_combine e d (2 ^ k)) (2 ^ Suc k) =
      interleave (map (\<lambda>i. q ! (2 * i)) [0..<2 ^ k]) (map (\<lambda>i. q ! (2 * i + 1)) [0..<2 ^ k]) (2 ^ k)
        (fft_combine e d (2 ^ k))"
    unfolding fft_inverse_step [OF len] fft_combine_undo self e(3) d(3)
    by (simp add: comp_def frobenius_inverse)
  also have "\<dots> = q"
    using Suc.prems by (intro nth_equalityI) (auto simp: interleave_eq elim!: evenE oddE)
  finally show ?case using fwd len by blast
qed

lemma log2_size_from_exp: "log2_size_from (2 ^ k) l = l + k"
proof (induction k arbitrary: l)
  case 0
  show ?case by (subst log2_size_from.simps) simp
next
  case (Suc k)
  then show ?case using exp_not_le_1 [of k] by (subst log2_size_from.simps) simp
qed

lemma fft_scale_exp: "gf64_fft_scale (2 ^ k) = (if k = 0 then 1 else push_bit (k - 1) 1)"
  by (simp add: gf64_fft_scale_def gf64_log2_size_def log2_size_from_exp)

lemma scale_vector_eq:
  assumes "length values = n"
  shows "gf64_scale_vector values n c = map (\<lambda>v. gf64_mul_reference v c) values"
proof (cases "c = 1")
  case True
  have "gf64_mul_reference v 1 = v" for v by (rule gf.inject [THEN iffD1]) (simp add: Gf_mul_reference)
  then show ?thesis using True by (simp add: gf64_scale_vector_def)
next
  case False
  then show ?thesis
    using assms fold_update_map [of n "values" "\<lambda>_ u. gf64_mul_reference u c"]
    by (simp add: gf64_scale_vector_def) (rule nth_equalityI, auto)
qed

text \<open>The inverse of the transform is the documented multiple of the input.\<close>

lemma fft_scaled_round_trip:
  assumes "length q = 2 ^ k"
  shows "gf64_fft_forward q (2 ^ k) \<bind> (\<lambda>r. gf64_fft_inverse r (2 ^ k)) =
    Some (if k = 0 then q else map (\<lambda>v. gf64_mul_reference v (push_bit (k - 1) 1)) q)"
proof -
  obtain r where r: "gf64_fft_forward q (2 ^ k) = Some r" "length r = 2 ^ k" "gf64_fft_inverse_unscaled r (2 ^ k) = q"
    using fft_round_trip [OF assms] by blast
  show ?thesis
  proof (cases k)
    case 0
    with r show ?thesis by (simp add: gf64_fft_inverse_def gf64_fft_inverse_unscaled.simps)
  next
    case (Suc m)
    have "\<not> (2::nat) ^ k \<le> 1" unfolding Suc by (rule exp_not_le_1)
    then show ?thesis
      using r assms Suc by (simp add: gf64_fft_inverse_def fft_scale_exp scale_vector_eq del: power_Suc)
  qed
qed

section \<open>The AVX-512 versions\<close>

lemma batches8_fold:
  assumes "8 dvd half" "\<And>b s. F (8 * b) s = fold f [8 * b..<8 * b + 8] s"
  shows "fold F (batches8 half) s = fold f [0..<half] s"
proof -
  obtain c where c: "half = 8 * c" using assms(1) by (auto simp: dvd_def)
  then have "(half + 7) div 8 = c" by simp
  then have "fold F (batches8 half) s = fold (\<lambda>b. F (8 * b)) [0..<c] s"
    by (simp add: batches8_def fold_map comp_def)
  also have "\<dots> = fold f [0..<8 * c] s" by (rule fold_blocks) (rule assms(2))
  finally show ?thesis by (simp add: c)
qed

lemma fft_forward_batch_eq:
  "fft_forward_batch e d half i q = fold (\<lambda>i q.
      let beta = e ! i; gamma = gf64_mul_reference (alpha_of i) (d ! i); q = q[i := beta XOR gamma]
      in q[i + half := q ! i XOR d ! i]) [i..<i + 8] q"
  if "i + 8 \<le> length d"
proof -
  have prod: "gf64_mul_avx512 (replicate 8 0) (map (\<lambda>k. alpha_of (i + k)) [0..<8]) (drop i d) 8 ! k =
      gf64_mul_reference (alpha_of (i + k)) (d ! (i + k))" if "k < 8" for k
    using that \<open>i + 8 \<le> length d\<close> by (simp add: gf64_mul_avx512_eq del: of_nat_add)
  show ?thesis
    unfolding fold_upt_shift [symmetric] fft_forward_batch_def Let_def
    by (rule fold_cong) (simp_all add: prod del: of_nat_add)
qed

lemma fft_forward_batches:
  assumes "8 dvd half" "length d = half" "length q = 2 * half"
  shows "fold (fft_forward_batch e d half) (batches8 half) q = fft_combine e d half"
proof -
  let ?f = "\<lambda>i q. let beta = e ! i; gamma = gf64_mul_reference (alpha_of i) (d ! i); q = q[i := beta XOR gamma]
      in q[i + half := q ! i XOR d ! i]"
  obtain c where c: "half = 8 * c" using assms(1) by (auto simp: dvd_def)
  then have "(half + 7) div 8 = c" by simp
  then have "fold (fft_forward_batch e d half) (batches8 half) q = fold (\<lambda>b. fft_forward_batch e d half (8 * b)) [0..<c] q"
    by (simp add: batches8_def fold_map comp_def)
  also have "\<dots> = fold (\<lambda>b. fold ?f [8 * b..<8 * b + 8]) [0..<c] q"
    by (rule fold_cong) (simp_all add: fft_forward_batch_eq assms(2) c fun_eq_iff)
  also have "\<dots> = fold ?f [0..<8 * c] q" by (rule fold_blocks) simp
  finally show ?thesis unfolding c [symmetric] by (simp only: fft_combine_fold [OF assms(3)])
qed

lemma length_fft_forward: "length q = 2 ^ k \<Longrightarrow> gf64_fft_forward q (2 ^ k) = Some r \<Longrightarrow> length r = 2 ^ k"
  using fft_round_trip [of q k] by auto

lemma eight_dvd_half: "\<not> 2 ^ Suc k < GF64_FFT_AVX512_MIN \<Longrightarrow> (8::nat) dvd 2 ^ k"
proof -
  assume "\<not> 2 ^ Suc k < GF64_FFT_AVX512_MIN"
  then have "(2::nat) ^ 5 \<le> 2 ^ k" by (simp add: GF64_FFT_AVX512_MIN_def)
  then have "5 \<le> k" by (rule power_le_imp_le_exp [rotated]) simp
  then show ?thesis using le_imp_power_dvd [of 3 k "2::nat"] by simp
qed

lemma gf64_fft_forward_avx512_eq:
  "length q = 2 ^ k \<Longrightarrow> gf64_fft_forward_avx512 q (2 ^ k) = gf64_fft_forward q (2 ^ k)"
proof (induction k arbitrary: q)
  case 0
  then show ?case by (simp add: gf64_fft_forward_avx512.simps gf64_fft_forward.simps)
next
  case (Suc k)
  show ?case
  proof (cases "2 ^ Suc k < GF64_FFT_AVX512_MIN")
    case True
    then show ?thesis using exp_not_le_1 [of k] by (subst gf64_fft_forward_avx512.simps) (simp del: power_Suc)
  next
    case False
    note dvd = eight_dvd_half [OF False]
    have facts: "\<not> (2::nat) ^ Suc k \<le> 1" "(2::nat) ^ Suc k div 2 = 2 ^ k" by (rule exp_not_le_1, simp)
    let ?e = "map (\<lambda>i. gf64_square_one (q ! (2 * i))) [0..<2 ^ k]"
    let ?d = "map (\<lambda>i. gf64_square_one (q ! (2 * i + 1))) [0..<2 ^ k]"
    have "gf64_fft_forward_avx512 q (2 ^ Suc k) = do {
        e \<leftarrow> gf64_fft_forward ?e (2 ^ k); d \<leftarrow> gf64_fft_forward ?d (2 ^ k);
        Some (fold (fft_forward_batch e d (2 ^ k)) (batches8 (2 ^ k)) q) }"
      using facts False
      by (subst gf64_fft_forward_avx512.simps)
        (simp only: Let_def if_False is_power_of_two_exp [of "Suc k"] not_True_eq_False square_avx512_eq length_map
          length_upt diff_zero map_map comp_def Suc.IH)
    also have "\<dots> = gf64_fft_forward q (2 ^ Suc k)"
      unfolding fft_forward_step [OF Suc.prems]
      using Suc.prems
      by (intro Option.bind_cong refl)
        (auto simp: fft_forward_batches [OF dvd] dest: length_fft_forward [rotated])
    finally show ?thesis .
  qed
qed

lemma fft_inverse_batch_eq:
  "fft_inverse_batch q half i (e, d) =
    (fold (\<lambda>i e. e[i := q ! i XOR gf64_mul_reference (alpha_of i) (q ! i XOR q ! (i + half))]) [i..<i + 8] e,
     fold (\<lambda>i d. d[i := q ! i XOR q ! (i + half)]) [i..<i + 8] d)"
proof -
  have prod: "gf64_mul_avx512 (replicate 8 0) (map (\<lambda>k. alpha_of (i + k)) [0..<8])
      (map (\<lambda>k. q ! (i + k) XOR q ! (i + k + half)) [0..<8]) 8 ! k =
      gf64_mul_reference (alpha_of (i + k)) (q ! (i + k) XOR q ! (i + k + half))" if "k < 8" for k
    using that by (simp add: gf64_mul_avx512_eq del: of_nat_add)
  show ?thesis
    unfolding fold_upt_shift [symmetric] fft_inverse_batch_def Let_def prod.case prod.inject
    by (intro conjI; rule fold_cong) (simp_all add: prod del: of_nat_add)
qed

lemma fft_inverse_batches:
  assumes "8 dvd half"
  shows "fold (fft_inverse_batch q half) (batches8 half) (replicate half 0, replicate half 0) =
    (map (\<lambda>i. q ! i XOR gf64_mul_reference (alpha_of i) (q ! i XOR q ! (i + half))) [0..<half],
     map (\<lambda>i. q ! i XOR q ! (i + half)) [0..<half])"
proof -
  let ?x = "\<lambda>i. q ! i XOR gf64_mul_reference (alpha_of i) (q ! i XOR q ! (i + half))"
  let ?y = "\<lambda>i. q ! i XOR q ! (i + half)"
  have pair: "fold (\<lambda>i (e, d). (e[i := ?x i], d[i := ?y i])) is (e, d) =
      (fold (\<lambda>i e. e[i := ?x i]) is e, fold (\<lambda>i d. d[i := ?y i]) is d)" for "is" e d
    by (induction "is" arbitrary: e d) simp_all
  have "fft_inverse_batch q half (8 * b) s =
      fold (\<lambda>i (e, d). (e[i := ?x i], d[i := ?y i])) [8 * b..<8 * b + 8] s" for b s
    by (cases s) (simp only: fft_inverse_batch_eq pair)
  then have "fold (fft_inverse_batch q half) (batches8 half) (replicate half 0, replicate half 0) =
      fold (\<lambda>i (e, d). (e[i := ?x i], d[i := ?y i])) [0..<half] (replicate half 0, replicate half 0)"
    by (rule batches8_fold [OF assms])
  also have "\<dots> = (fold (\<lambda>i e. e[i := ?x i]) [0..<half] (replicate half 0), fold (\<lambda>i d. d[i := ?y i]) [0..<half] (replicate half 0))"
    by (rule pair)
  finally show ?thesis
    using fold_update_map [of half "replicate half 0" "\<lambda>i _. ?x i"] fold_update_map [of half "replicate half 0" "\<lambda>i _. ?y i"]
    by simp
qed

lemma gf64_fft_inverse_unscaled_avx512_eq:
  "length q = 2 ^ k \<Longrightarrow> gf64_fft_inverse_unscaled_avx512 q (2 ^ k) = gf64_fft_inverse_unscaled q (2 ^ k)"
proof (induction k arbitrary: q)
  case 0
  then show ?case by (simp add: gf64_fft_inverse_unscaled_avx512.simps gf64_fft_inverse_unscaled.simps)
next
  case (Suc k)
  show ?case
  proof (cases "2 ^ Suc k < GF64_FFT_AVX512_MIN")
    case True
    then show ?thesis using exp_not_le_1 [of k] by (subst gf64_fft_inverse_unscaled_avx512.simps) (simp del: power_Suc)
  next
    case False
    have facts: "\<not> (2::nat) ^ Suc k \<le> 1" "(2::nat) ^ Suc k div 2 = 2 ^ k" by (rule exp_not_le_1, simp)
    show ?thesis
      unfolding fft_inverse_step [OF Suc.prems]
      using facts False
      by (subst gf64_fft_inverse_unscaled_avx512.simps)
        (simp only: Let_def if_False fft_inverse_batches [OF eight_dvd_half [OF False]] prod.case inverse_frobenius_eq
          length_fft_inverse_unscaled length_map length_upt diff_zero Suc.IH)
  qed
qed

lemma gf64_fft_inverse_avx512_eq:
  assumes "length q = 2 ^ k"
  shows "gf64_fft_inverse q (2 ^ k) = Some (gf64_fft_inverse_avx512 q (2 ^ k))"
  by (simp add: gf64_fft_inverse_def gf64_fft_inverse_avx512_def gf64_fft_inverse_unscaled_avx512_eq [OF assms])

end
