(* ===== verification/HQC_Cvt.thy ===== *)
theory HQC_Cvt
  imports HQC_Butterfly
begin

text \<open>
  The change of basis of gf64/gf64_additive_fft_hqc2026.c, \<open>hqc_cvt\<close> and \<open>hqc_icvt\<close>: XOR updates
  only, in place. Level \<open>(b, p)\<close> of the recursion works on the bits \<open>b, ..., b + p - 1\<close> of the index
  and takes powers of a variable \<open>z\<close> to the novel basis in \<open>z\<close>; it is verified as an equation
  between weighted sums over the array, for every \<open>z\<close> and every weight that does not look at
  these bits. A pointer \<open>data + j\<close> passed to a routine is the routine applied at an offset.
\<close>

definition at_offset :: "nat \<Rightarrow> (gf64_t list \<Rightarrow> gf64_t list) \<Rightarrow> gf64_t list \<Rightarrow> gf64_t list" where
  "at_offset j g data = take j data @ g (drop j data)"

text \<open>\<open>for (j = 0; j < datalen; j += polylen)\<close>\<close>

definition stride :: "nat \<Rightarrow> nat \<Rightarrow> nat list" where
  "stride polylen datalen = map (\<lambda>m. m * polylen) [0..<(datalen + polylen - 1) div polylen]"

function cvt_choose_from :: "nat \<Rightarrow> nat \<Rightarrow> nat \<Rightarrow> nat" where
  "cvt_choose_from i si n = (if 2 ^ i < n then cvt_choose_from (Suc i) (2 ^ i) n else si)"
  by pat_completeness auto
termination
proof (relation "measure (\<lambda>(i, si, n). n - i)")
  fix i si n :: nat
  assume "2 ^ i < n"
  then have "i < n" using less_exp [of i] by linarith
  then show "((Suc i, 2 ^ i, n), i, si, n) \<in> measure (\<lambda>(i, si, n). n - i)" by simp
qed simp

declare cvt_choose_from.simps [simp del]

definition hqc_cvt_choose_si :: "nat \<Rightarrow> nat" where
  "hqc_cvt_choose_si n = cvt_choose_from 1 1 n"

definition hqc_cvt_div_blk :: "gf64_t list \<Rightarrow> nat \<Rightarrow> nat \<Rightarrow> nat \<Rightarrow> gf64_t list" where
  "hqc_cvt_div_blk q si_h si_l polylen =
    (let deg_diff = si_h - si_l
     in fold (\<lambda>i q. q[i - deg_diff := q ! (i - deg_diff) XOR q ! i]) (rev [si_h..<polylen]) q)"

definition hqc_cvt_idiv_blk :: "gf64_t list \<Rightarrow> nat \<Rightarrow> nat \<Rightarrow> nat \<Rightarrow> gf64_t list" where
  "hqc_cvt_idiv_blk q si_h si_l polylen =
    (let deg_diff = si_h - si_l
     in fold (\<lambda>i q. q[i - deg_diff := q ! (i - deg_diff) XOR q ! i]) [si_h..<polylen] q)"

definition hqc_cvt_rep_in_si :: "gf64_t list \<Rightarrow> nat \<Rightarrow> nat \<Rightarrow> nat \<Rightarrow> nat \<Rightarrow> gf64_t list" where
  "hqc_cvt_rep_in_si data datalen logsize_blk polyloglen_blk si =
    fold (\<lambda>i data.
        let polylen = 2 ^ (i + logsize_blk + 1); si_h = 2 ^ (i + logsize_blk);
            si_l = 2 ^ (i + logsize_blk - si)
        in fold (\<lambda>j. at_offset j (\<lambda>q. hqc_cvt_div_blk q si_h si_l polylen)) (stride polylen datalen) data)
      (rev [si..<polyloglen_blk]) data"

definition hqc_cvt_irep_in_si :: "gf64_t list \<Rightarrow> nat \<Rightarrow> nat \<Rightarrow> nat \<Rightarrow> nat \<Rightarrow> gf64_t list" where
  "hqc_cvt_irep_in_si data datalen logsize_blk polyloglen_blk si =
    fold (\<lambda>i data.
        let polylen = 2 ^ (i + logsize_blk + 1); si_h = 2 ^ (i + logsize_blk);
            si_l = 2 ^ (i + logsize_blk - si)
        in fold (\<lambda>j. at_offset j (\<lambda>q. hqc_cvt_idiv_blk q si_h si_l polylen)) (stride polylen datalen) data)
      [si..<polyloglen_blk] data"

lemma cvt_choose_from_power:
  "si = 2 ^ m \<Longrightarrow> si < n \<Longrightarrow> \<exists>m. cvt_choose_from i si n = 2 ^ m \<and> cvt_choose_from i si n < n"
  by (induction i si n arbitrary: m rule: cvt_choose_from.induct) (subst (1 2) cvt_choose_from.simps, auto)

lemma hqc_cvt_choose_si_power:
  assumes "1 < n"
  obtains m where "hqc_cvt_choose_si n = 2 ^ m" "0 < hqc_cvt_choose_si n" "hqc_cvt_choose_si n < n"
  using cvt_choose_from_power [of 1 0 n 1] assms unfolding hqc_cvt_choose_si_def by (metis one_less_numeral_iff
      power_0 zero_less_power zero_less_numeral)

lemma choose_si_less:
  "\<not> p \<le> 1 \<Longrightarrow> hqc_cvt_choose_si p < p" "\<not> p \<le> 1 \<Longrightarrow> p - hqc_cvt_choose_si p < p"
  by (metis hqc_cvt_choose_si_power not_le) (metis hqc_cvt_choose_si_power not_le diff_less less_trans)

function hqc_cvt :: "gf64_t list \<Rightarrow> nat \<Rightarrow> nat \<Rightarrow> nat \<Rightarrow> gf64_t list" where
  "hqc_cvt data datalen logsize_blk polyloglen_blk =
    (if polyloglen_blk \<le> 1 then data
     else
       let si = hqc_cvt_choose_si polyloglen_blk;
           data = hqc_cvt_rep_in_si data datalen logsize_blk polyloglen_blk si;
           data = hqc_cvt data datalen logsize_blk si
       in hqc_cvt data datalen (logsize_blk + si) (polyloglen_blk - si))"
  by pat_completeness auto
termination
  by (relation "measure (\<lambda>(data, datalen, b, p). p)") (simp_all add: choose_si_less)

declare hqc_cvt.simps [simp del]

function hqc_icvt :: "gf64_t list \<Rightarrow> nat \<Rightarrow> nat \<Rightarrow> nat \<Rightarrow> gf64_t list" where
  "hqc_icvt data datalen logsize_blk polyloglen_blk =
    (if polyloglen_blk \<le> 1 then data
     else
       let si = hqc_cvt_choose_si polyloglen_blk;
           data = hqc_icvt data datalen logsize_blk si;
           data = hqc_icvt data datalen (logsize_blk + si) (polyloglen_blk - si)
       in hqc_cvt_irep_in_si data datalen logsize_blk polyloglen_blk si)"
  by pat_completeness auto
termination
  by (relation "measure (\<lambda>(data, datalen, b, p). p)") (simp_all add: choose_si_less)

declare hqc_icvt.simps [simp del]

function ceil_log2_from :: "nat \<Rightarrow> nat \<Rightarrow> nat" where
  "ceil_log2_from log_n n = (if 2 ^ log_n < n then ceil_log2_from (Suc log_n) n else log_n)"
  by pat_completeness auto
termination
proof (relation "measure (\<lambda>(l, n). n - l)")
  fix l n :: nat
  assume "2 ^ l < n"
  then have "l < n" using less_exp [of l] by linarith
  then show "((Suc l, n), l, n) \<in> measure (\<lambda>(l, n). n - l)" by simp
qed simp

declare ceil_log2_from.simps [simp del]

text \<open>\<open>log_n = 0; while ((1 << log_n) < n) log_n++\<close>\<close>

definition ceil_log2 :: "nat \<Rightarrow> nat" where "ceil_log2 n = ceil_log2_from 0 n"

text \<open>The routine writes \<open>n\<close> words of \<open>g\<close>; the array it returns is these words.\<close>

definition basisCvt_recursive_v2 :: "gf64_t list \<Rightarrow> nat \<Rightarrow> gf64_t list" where
  "basisCvt_recursive_v2 f n =
    (if n \<le> 1 then (if n = 1 then [f ! 0] else [])
     else hqc_cvt (take n f) n 0 (ceil_log2 n))"

definition ibasisCvt_recursive_v2 :: "gf64_t list \<Rightarrow> nat \<Rightarrow> gf64_t list" where
  "ibasisCvt_recursive_v2 g n =
    (if n \<le> 1 then (if n = 1 then [g ! 0] else [])
     else hqc_icvt (take n g) n 0 (ceil_log2 n))"

section \<open>Weighted sums\<close>

definition wsum :: "gf64_t list \<Rightarrow> (nat \<Rightarrow> gf) \<Rightarrow> gf" where
  "wsum data E = (\<Sum>k<length data. Gf (data ! k) * E k)"

lemma wsum_cong: "(\<And>k. k < length data \<Longrightarrow> E k = F k) \<Longrightarrow> wsum data E = wsum data F"
  by (simp add: wsum_def)

text \<open>An XOR of slot \<open>m\<close> into another slot, undone in the weights.\<close>

lemma wsum_update:
  assumes m: "m < length data" and l: "l < length data" "l \<noteq> m"
    and E: "E m = F m + F l" "\<And>k. k < length data \<Longrightarrow> k \<noteq> m \<Longrightarrow> E k = F k"
  shows "wsum (data[l := data ! l XOR data ! m]) F = wsum data E"
proof -
  define G where "G = (\<lambda>k. if k = l then Gf (data ! m) * F l else 0)"
  have "wsum (data[l := data ! l XOR data ! m]) F = (\<Sum>k<length data. Gf (data ! k) * F k + G k)"
    unfolding wsum_def by (rule sum.cong) (auto simp: nth_list_update Gf_xor distrib_right G_def)
  also have "\<dots> = (\<Sum>k<length data. Gf (data ! k) * F k) + Gf (data ! m) * F l"
    using l by (simp add: sum.distrib G_def)
  also have "\<dots> = (\<Sum>k<length data. Gf (data ! k) * F k + (if k = m then Gf (data ! m) * F l else 0))"
    using m by (simp add: sum.distrib)
  also have "\<dots> = wsum data E"
    unfolding wsum_def using E by (intro sum.cong) (auto simp: distrib_left)
  finally show ?thesis .
qed

lemma at_offset_fold:
  assumes "j \<le> length data"
  shows "at_offset j (fold (\<lambda>i q. q[p i := q ! p i XOR q ! i]) is) data =
    fold (\<lambda>i data. data[j + p i := data ! (j + p i) XOR data ! (j + i)]) is data"
  using assms
proof (induction "is" arbitrary: data)
  case Nil
  then show ?case by (simp add: at_offset_def)
next
  case (Cons i "is")
  let ?d = "data[j + p i := data ! (j + p i) XOR data ! (j + i)]"
  have "drop j ?d = (drop j data)[p i := drop j data ! p i XOR drop j data ! i]"
    using Cons.prems by (simp add: drop_update_swap)
  moreover have "take j ?d = take j data" by simp
  ultimately show ?case using Cons.IH [of ?d] Cons.prems by (simp add: at_offset_def)
qed

text \<open>
  One block at \<open>j\<close>: the weights change from \<open>E\<close> to \<open>F\<close> on it, where \<open>E\<close> and \<open>F\<close> agree on the low
  half and \<open>E\<close> of a slot of the high half is \<open>F\<close> of the slot plus \<open>E\<close> of the slot it is added to.
\<close>

lemma div_blk_wsum:
  assumes len: "j + polylen \<le> length data" and d: "0 < d" "d \<le> h"
    and dd: "si_h = h" "h - si_l = d"
    and lo: "\<And>k. \<lbrakk>j \<le> k; k < j + h\<rbrakk> \<Longrightarrow> E k = F k"
    and hi: "\<And>k. \<lbrakk>j + h \<le> k; k < j + polylen\<rbrakk> \<Longrightarrow> E k = F k + E (k - d)"
  shows "wsum (at_offset j (\<lambda>q. hqc_cvt_div_blk q si_h si_l polylen) data)
      (\<lambda>k. if j \<le> k \<and> k < j + polylen then F k else G k) =
    wsum data (\<lambda>k. if j \<le> k \<and> k < j + polylen then E k else G k)"
    and "length (at_offset j (\<lambda>q. hqc_cvt_div_blk q si_h si_l polylen) data) = length data"
proof -
  define f where "f = (\<lambda>i data :: gf64_t list. data[j + (i - d) := data ! (j + (i - d)) XOR data ! (j + i)])"
  have f: "at_offset j (\<lambda>q. hqc_cvt_div_blk q si_h si_l polylen) data = fold f (rev [h..<polylen]) data"
    unfolding hqc_cvt_div_blk_def Let_def dd f_def by (rule at_offset_fold) (use len in simp)
  have length: "length (fold f is data) = length data" for "is"
    unfolding f_def by (rule length_fold_update)
  have step_f: "f i D = D[j + (i - d) := D ! (j + (i - d)) XOR D ! (j + i)]" for i D
    by (simp add: f_def)
  have inv: "wsum (fold f (rev [t..<polylen]) data)
      (\<lambda>k. if j + t \<le> k \<and> k < j + polylen then F k else if j \<le> k \<and> k < j + polylen then E k else G k) =
    wsum data (\<lambda>k. if j \<le> k \<and> k < j + polylen then E k else G k)" if "h \<le> t" "t \<le> polylen" for t
    using that(2,1)
  proof (induction t rule: inc_induct)
    case base
    show ?case by (auto intro: wsum_cong)
  next
    case (step t)
    have rev: "rev [t..<polylen] = rev [Suc t..<polylen] @ [t]" using step by (simp add: upt_conv_Cons)
    have "wsum (f t (fold f (rev [Suc t..<polylen]) data))
        (\<lambda>k. if j + t \<le> k \<and> k < j + polylen then F k else if j \<le> k \<and> k < j + polylen then E k else G k) =
      wsum (fold f (rev [Suc t..<polylen]) data)
        (\<lambda>k. if j + Suc t \<le> k \<and> k < j + polylen then F k else if j \<le> k \<and> k < j + polylen then E k else G k)"
      unfolding step_f
      by (rule wsum_update) (use step len d hi [of "j + t"] in \<open>auto simp: length\<close>)
    then show ?case using step by (simp add: rev)
  qed
  show "wsum (at_offset j (\<lambda>q. hqc_cvt_div_blk q si_h si_l polylen) data)
      (\<lambda>k. if j \<le> k \<and> k < j + polylen then F k else G k) =
    wsum data (\<lambda>k. if j \<le> k \<and> k < j + polylen then E k else G k)"
  proof (cases "h \<le> polylen")
    case True
    show ?thesis unfolding f inv [OF order_refl True, symmetric]
      by (rule wsum_cong) (use lo in auto)
  next
    case False
    then show ?thesis unfolding f using lo by (auto intro: wsum_cong)
  qed
  show "length (at_offset j (\<lambda>q. hqc_cvt_div_blk q si_h si_l polylen) data) = length data"
    unfolding f by (rule length)
qed

lemma idiv_blk_wsum:
  assumes len: "j + polylen \<le> length data" and d: "0 < d" "d \<le> h"
    and dd: "si_h = h" "h - si_l = d"
    and lo: "\<And>k. \<lbrakk>j \<le> k; k < j + h\<rbrakk> \<Longrightarrow> E k = F k"
    and hi: "\<And>k. \<lbrakk>j + h \<le> k; k < j + polylen\<rbrakk> \<Longrightarrow> E k = F k + E (k - d)"
  shows "wsum (at_offset j (\<lambda>q. hqc_cvt_idiv_blk q si_h si_l polylen) data)
      (\<lambda>k. if j \<le> k \<and> k < j + polylen then E k else G k) =
    wsum data (\<lambda>k. if j \<le> k \<and> k < j + polylen then F k else G k)"
    and "length (at_offset j (\<lambda>q. hqc_cvt_idiv_blk q si_h si_l polylen) data) = length data"
proof -
  define f where "f = (\<lambda>i data :: gf64_t list. data[j + (i - d) := data ! (j + (i - d)) XOR data ! (j + i)])"
  have f: "at_offset j (\<lambda>q. hqc_cvt_idiv_blk q si_h si_l polylen) data = fold f [h..<polylen] data"
    unfolding hqc_cvt_idiv_blk_def Let_def dd f_def by (rule at_offset_fold) (use len in simp)
  have length: "length (fold f is data) = length data" for "is"
    unfolding f_def by (rule length_fold_update)
  have step_f: "f i D = D[j + (i - d) := D ! (j + (i - d)) XOR D ! (j + i)]" for i D
    by (simp add: f_def)
  have inv: "wsum (fold f [h..<t] data)
      (\<lambda>k. if j \<le> k \<and> k < j + t then E k else if j \<le> k \<and> k < j + polylen then F k else G k) =
    wsum data (\<lambda>k. if j \<le> k \<and> k < j + polylen then F k else G k)" if "h \<le> t" "t \<le> polylen" for t
    using that
  proof (induction t rule: dec_induct)
    case base
    then show ?case using lo by (auto intro: wsum_cong)
  next
    case (step t)
    have "wsum (f t (fold f [h..<t] data))
        (\<lambda>k. if j \<le> k \<and> k < j + Suc t then E k else if j \<le> k \<and> k < j + polylen then F k else G k) =
      wsum (fold f [h..<t] data)
        (\<lambda>k. if j \<le> k \<and> k < j + t then E k else if j \<le> k \<and> k < j + polylen then F k else G k)"
      unfolding step_f
      by (rule wsum_update) (use step len d hi [of "j + t"] in \<open>auto simp: length add.assoc\<close>)
    then show ?case using step by simp
  qed
  show "wsum (at_offset j (\<lambda>q. hqc_cvt_idiv_blk q si_h si_l polylen) data)
      (\<lambda>k. if j \<le> k \<and> k < j + polylen then E k else G k) =
    wsum data (\<lambda>k. if j \<le> k \<and> k < j + polylen then F k else G k)"
  proof (cases "h \<le> polylen")
    case True
    show ?thesis unfolding f inv [OF True order_refl, symmetric]
      by (rule wsum_cong) auto
  next
    case False
    then show ?thesis unfolding f using lo by (auto intro: wsum_cong)
  qed
  show "length (at_offset j (\<lambda>q. hqc_cvt_idiv_blk q si_h si_l polylen) data) = length data"
    unfolding f by (rule length)
qed

section \<open>One level\<close>

text \<open>The \<open>n\<close> bits of the index \<open>k\<close> from bit \<open>b\<close> on; a weight that does not look at them.\<close>

definition fld :: "nat \<Rightarrow> nat \<Rightarrow> nat \<Rightarrow> nat" where "fld b n k = k div 2 ^ b mod 2 ^ n"

definition blind :: "nat \<Rightarrow> nat \<Rightarrow> (nat \<Rightarrow> gf) \<Rightarrow> bool" where
  "blind b p A \<longleftrightarrow> (\<forall>k l. k mod 2 ^ b = l mod 2 ^ b \<longrightarrow> k div 2 ^ (b + p) = l div 2 ^ (b + p) \<longrightarrow> A k = A l)"

lemma fld_0 [simp]: "fld b 0 k = 0" by (simp add: fld_def)
lemma fld_less [simp]: "fld b n k < 2 ^ n" by (simp add: fld_def)

lemma fld_Suc: "fld b (Suc n) k = fld b n k + 2 ^ n * (k div 2 ^ (b + n) mod 2)"
  by (simp add: fld_def power_add div_mult2_eq mod_mult2_eq mult.commute [of 2])

lemma fld_Suc_low: "fld b (Suc n) k = 2 * fld (Suc b) n k + k div 2 ^ b mod 2"
  unfolding fld_def power_Suc2 [of 2 b] div_mult2_eq power_Suc [of 2 n] mod_mult2_eq ..

lemma fld_mod: "n \<le> m \<Longrightarrow> fld b m k mod 2 ^ n = fld b n k"
  by (simp add: fld_def le_imp_power_dvd mod_mod_cancel)

lemma fld_div: "fld b (n + m) k div 2 ^ n = fld (b + n) m k"
  by (simp add: fld_def power_add div_mult2_eq mod_mult2_eq)

text \<open>
  The weights between two levels: the low \<open>i\<close> bits of the field are a power of \<open>z\<close>, the others a
  power of \<open>y = z^(2^si) + z\<close>.
\<close>

definition level :: "(nat \<Rightarrow> gf) \<Rightarrow> nat \<Rightarrow> nat \<Rightarrow> nat \<Rightarrow> gf \<Rightarrow> nat \<Rightarrow> nat \<Rightarrow> gf" where
  "level A b p si z i k = A k * z ^ fld b i k * (z ^ 2 ^ si + z) ^ (fld (b + i) (p - i) k * 2 ^ (i - si))"

lemma in_block:
  assumes "J * (2 * h) \<le> k" "k < J * (2 * h) + 2 * h"
  shows "k div h mod 2 = (if k < J * (2 * h) + h then 0 else (1::nat))"
proof -
  define r where "r = k - J * (2 * h)"
  have k: "k = r + (J * 2) * h" "r < 2 * h" using assms by (simp_all add: r_def)
  have "0 < h" using k(2) by (cases h) auto
  then have "k div h = r div h + J * 2" unfolding k(1) by simp
  moreover have "r div h = (if r < h then 0 else 1)"
    using k(2) by (auto intro!: div_nat_eqI)
  ultimately show ?thesis using k by auto
qed

lemma level_low:
  assumes "si \<le> i" "i < p" "k div 2 ^ (b + i) mod 2 = 0"
  shows "level A b p si z (Suc i) k = level A b p si z i k"
proof -
  have "p - i = Suc (p - Suc i)" "Suc i - si = Suc (i - si)" using assms by auto
  then show ?thesis
    using assms(3) fld_Suc [of b i k] fld_Suc_low [of "b + i" "p - Suc i" k]
    by (simp add: level_def ac_simps)
qed

lemma level_high:
  assumes i: "si \<le> i" "i < p" and bit: "k div 2 ^ (b + i) mod 2 = 1" and A: "blind b p A"
    and d: "d = 2 ^ (b + i) - 2 ^ (b + i - si)"
  shows "level A b p si z (Suc i) k = level A b p si z i k + level A b p si z (Suc i) (k - d)"
proof -
  define q e u w where "q = k div 2 ^ b" and "e = (2::nat) ^ (i - si)" and "u = q div 2 ^ Suc i" and "w = q mod 2 ^ i"
  define y where "y = z ^ 2 ^ si + z"
  have e: "0 < e" "e \<le> 2 ^ i" by (simp_all add: e_def)
  have q: "q = 2 ^ Suc i * u + 2 ^ i + w" "w < 2 ^ i"
  proof -
    have "q div 2 ^ i mod 2 = 1" using bit by (simp add: q_def power_add div_mult2_eq)
    then have "q div 2 ^ i = 2 * u + 1"
      unfolding u_def power_Suc2 div_mult2_eq using div_mult_mod_eq [of "q div 2 ^ i" 2] by linarith
    then show "q = 2 ^ Suc i * u + 2 ^ i + w" "w < 2 ^ i"
      using div_mult_mod_eq [of q "2 ^ i"] by (simp_all add: w_def algebra_simps)
  qed
  have dd: "d = 2 ^ b * (2 ^ i - e)"
  proof -
    have "b + i - si = b + (i - si)" using i by simp
    then show ?thesis by (simp add: d e_def power_add diff_mult_distrib2)
  qed
  have "2 ^ b * (2 ^ i - e) \<le> 2 ^ b * q" using q by (intro mult_le_mono2) linarith
  also have "\<dots> \<le> k" by (simp add: q_def)
  finally have le: "d \<le> k" unfolding dd .
  have kd: "k = (k - d) + (2 ^ i - e) * 2 ^ b" using le dd by (simp add: mult.commute)
  have q': "(k - d) div 2 ^ b = 2 ^ Suc i * u + (w + e)"
  proof -
    have "q = (k - d) div 2 ^ b + (2 ^ i - e)" unfolding q_def by (subst kd) simp
    with q e show ?thesis by linarith
  qed
  have w: "w + e < 2 ^ Suc i" using q(2) e(2) by simp
  have f1: "fld b (Suc i) k = 2 ^ i + w" "fld b i k = w" "fld b (Suc i) (k - d) = w + e"
  proof -
    have "(2 ^ Suc i * u + (2 ^ i + w)) mod 2 ^ Suc i = 2 ^ i + w"
      using q(2) by (subst mod_mult_self4) (rule mod_less, simp)
    then show "fld b (Suc i) k = 2 ^ i + w" using q(1) by (simp only: fld_def add.assoc flip: q_def)
    show "fld b i k = w" by (simp add: fld_def w_def q_def)
    show "fld b (Suc i) (k - d) = w + e" unfolding fld_def q' by (subst mod_mult_self4) (rule mod_less, rule w)
  qed
  have u': "fld (b + Suc i) m k = u mod 2 ^ m" "fld (b + Suc i) m (k - d) = u mod 2 ^ m" for m
  proof -
    have "q div 2 ^ Suc i = u" "(2 ^ Suc i * u + (w + e)) div 2 ^ Suc i = u" using w by (simp_all add: u_def)
    then show "fld (b + Suc i) m k = u mod 2 ^ m" "fld (b + Suc i) m (k - d) = u mod 2 ^ m"
      unfolding fld_def power_add [of 2 b "Suc i"] div_mult2_eq q' q_def [symmetric] by simp_all
  qed
  have f2: "fld (b + i) (p - i) k = 2 * (u mod 2 ^ (p - Suc i)) + 1"
  proof -
    have "p - i = Suc (p - Suc i)" using i by simp
    then show ?thesis using bit fld_Suc_low [of "b + i" "p - Suc i" k] u'(1) by simp
  qed
  have "A (k - d) = A k"
  proof -
    have "k mod 2 ^ b = (k - d) mod 2 ^ b" by (subst (1) kd) simp
    moreover have "k div 2 ^ (b + p) = (k - d) div 2 ^ (b + p)"
    proof -
      have "(2::nat) ^ (b + p) = 2 ^ b * (2 ^ Suc i * 2 ^ (p - Suc i))" using i by (simp flip: power_add power_Suc)
      moreover have "k div 2 ^ b div 2 ^ Suc i = (k - d) div 2 ^ b div 2 ^ Suc i"
        unfolding q' using w by (simp add: u_def q_def)
      ultimately show ?thesis by (simp only: div_mult2_eq)
    qed
    ultimately show ?thesis using A unfolding blind_def by metis
  qed
  moreover have "Suc i - si = Suc (i - si)" using i by simp
  moreover have "z ^ 2 ^ i = y ^ e + z ^ e"
  proof -
    have "y ^ e = (z ^ 2 ^ si) ^ e + z ^ e" unfolding y_def e_def by (rule gf_frobenius_add)
    moreover have "(z ^ 2 ^ si) ^ e = z ^ 2 ^ i" using i by (simp add: e_def flip: power_mult power_add)
    ultimately show ?thesis by (simp add: add.assoc)
  qed
  ultimately show ?thesis
    unfolding level_def f1 f2 u' y_def [symmetric] e_def [symmetric]
    by (simp add: power_add distrib_left distrib_right power_mult mult_2 flip: e_def)
qed

lemma stride_dvd: "polylen dvd datalen \<Longrightarrow> 0 < polylen \<Longrightarrow>
    stride polylen datalen = map (\<lambda>m. m * polylen) [0..<datalen div polylen]"
proof (unfold stride_def, rule arg_cong [where f = "map _"], rule arg_cong [where f = "upt 0"])
  assume "polylen dvd datalen" "0 < polylen"
  then obtain c where "datalen = polylen * c" by (auto simp: dvd_def)
  with \<open>0 < polylen\<close> show "(datalen + polylen - 1) div polylen = datalen div polylen"
    by (auto intro!: div_nat_eqI simp: algebra_simps)
qed

text \<open>All the blocks of a level, for the division and for the multiplication.\<close>

lemma blocks_wsum:
  assumes block: "\<And>J data G. \<lbrakk>length data = datalen; J < datalen div polylen\<rbrakk> \<Longrightarrow>
      length (f (J * polylen) data) = datalen \<and>
      wsum (f (J * polylen) data) (\<lambda>k. if J * polylen \<le> k \<and> k < J * polylen + polylen then F k else G k) =
      wsum data (\<lambda>k. if J * polylen \<le> k \<and> k < J * polylen + polylen then E k else G k)"
    and dvd: "polylen dvd datalen" "0 < polylen" and len: "length data = datalen"
  shows "length (fold f (stride polylen datalen) data) = datalen \<and>
    wsum (fold f (stride polylen datalen) data) F = wsum data E"
proof -
  have *: "length (fold f (map (\<lambda>m. m * polylen) [0..<J]) data) = datalen \<and>
      wsum (fold f (map (\<lambda>m. m * polylen) [0..<J]) data) (\<lambda>k. if k < J * polylen then F k else E k) = wsum data E"
    if "J \<le> datalen div polylen" for J
    using that
  proof (induction J)
    case 0
    then show ?case by (simp add: len)
  next
    case (Suc J)
    let ?D = "fold f (map (\<lambda>m. m * polylen) [0..<J]) data"
    let ?G = "\<lambda>k. if k < J * polylen then F k else E k"
    have D: "length ?D = datalen" "wsum ?D ?G = wsum data E" using Suc by auto
    have "wsum (f (J * polylen) ?D) (\<lambda>k. if k < Suc J * polylen then F k else E k) =
        wsum (f (J * polylen) ?D) (\<lambda>k. if J * polylen \<le> k \<and> k < J * polylen + polylen then F k else ?G k)"
      by (rule wsum_cong) auto
    also have "\<dots> = wsum ?D (\<lambda>k. if J * polylen \<le> k \<and> k < J * polylen + polylen then E k else ?G k)"
      using block [OF D(1), of J ?G] Suc.prems by simp
    also have "\<dots> = wsum ?D ?G" by (rule wsum_cong) auto
    finally show ?case using block [OF D(1), of J ?G] Suc.prems D(2) by simp
  qed
  have "wsum D (\<lambda>k. if k < datalen div polylen * polylen then F k else E k) = wsum D F"
    if "length D = datalen" for D
    using dvd that by (intro wsum_cong) auto
  with conjunct1 [OF *[OF order_refl]] conjunct2 [OF *[OF order_refl]]
  show ?thesis by (simp only: stride_dvd [OF dvd] HOL.simp_thms)
qed

lemma level_block:
  assumes A: "blind b p A" and i: "si \<le> i" "i < p" "0 < si"
    and k: "J * 2 ^ (i + b + 1) \<le> k" "k < J * 2 ^ (i + b + 1) + 2 ^ (i + b + 1)"
  shows "k < J * 2 ^ (i + b + 1) + 2 ^ (i + b) \<Longrightarrow> level A b p si z (Suc i) k = level A b p si z i k"
    and "J * 2 ^ (i + b + 1) + 2 ^ (i + b) \<le> k \<Longrightarrow> level A b p si z (Suc i) k = level A b p si z i k +
      level A b p si z (Suc i) (k - (2 ^ (i + b) - 2 ^ (i + b - si)))"
proof -
  have bit: "k div 2 ^ (b + i) mod 2 = (if k < J * 2 ^ (i + b + 1) + 2 ^ (i + b) then 0 else 1)"
    using in_block [of J "2 ^ (i + b)" k] k by (simp add: add.commute [of b] mult.left_commute)
  show "k < J * 2 ^ (i + b + 1) + 2 ^ (i + b) \<Longrightarrow> level A b p si z (Suc i) k = level A b p si z i k"
    by (rule level_low [OF i(1,2)]) (simp add: bit)
  show "J * 2 ^ (i + b + 1) + 2 ^ (i + b) \<le> k \<Longrightarrow> level A b p si z (Suc i) k = level A b p si z i k +
      level A b p si z (Suc i) (k - (2 ^ (i + b) - 2 ^ (i + b - si)))"
    by (rule level_high [OF i(1,2) _ A]) (simp_all add: bit add.commute)
qed

lemma block_inside: "J < datalen div polylen \<Longrightarrow> J * polylen + polylen \<le> (datalen :: nat)"
proof -
  assume "J < datalen div polylen"
  then have "Suc J * polylen \<le> datalen div polylen * polylen" by (intro mult_le_mono1) simp
  also have "\<dots> \<le> datalen" by simp
  finally show ?thesis by (simp add: add.commute)
qed

lemma exp_diff_less: "0 < si \<Longrightarrow> si \<le> i \<Longrightarrow> 0 < 2 ^ (i + b) - (2 :: nat) ^ (i + b - si)"
  by simp

lemma rep_level:
  assumes A: "blind b p A" and i: "si \<le> i" "i < p" "0 < si" and len: "length data = datalen" "2 ^ (b + p) dvd datalen"
  shows "length (fold (\<lambda>j. at_offset j (\<lambda>q. hqc_cvt_div_blk q (2 ^ (i + b)) (2 ^ (i + b - si)) (2 ^ (i + b + 1))))
      (stride (2 ^ (i + b + 1)) datalen) data) = datalen \<and>
    wsum (fold (\<lambda>j. at_offset j (\<lambda>q. hqc_cvt_div_blk q (2 ^ (i + b)) (2 ^ (i + b - si)) (2 ^ (i + b + 1))))
      (stride (2 ^ (i + b + 1)) datalen) data) (level A b p si z i) = wsum data (level A b p si z (Suc i))"
    (is ?div)
  and "length (fold (\<lambda>j. at_offset j (\<lambda>q. hqc_cvt_idiv_blk q (2 ^ (i + b)) (2 ^ (i + b - si)) (2 ^ (i + b + 1))))
      (stride (2 ^ (i + b + 1)) datalen) data) = datalen \<and>
    wsum (fold (\<lambda>j. at_offset j (\<lambda>q. hqc_cvt_idiv_blk q (2 ^ (i + b)) (2 ^ (i + b - si)) (2 ^ (i + b + 1))))
      (stride (2 ^ (i + b + 1)) datalen) data) (level A b p si z (Suc i)) = wsum data (level A b p si z i)"
    (is ?idiv)
proof -
  have dvd: "2 ^ (i + b + 1) dvd datalen"
    using i len(2) by (intro dvd_trans [OF le_imp_power_dvd len(2)]) simp
  note d = exp_diff_less [OF i(3,1), of b]
  have lo: "level A b p si z (Suc i) k = level A b p si z i k"
    if "J * 2 ^ (i + b + 1) \<le> k" "k < J * 2 ^ (i + b + 1) + 2 ^ (i + b)" for J k
    by (rule level_block(1) [OF A i that(1) _ that(2)]) (use that in simp)
  have hi: "level A b p si z (Suc i) k = level A b p si z i k +
      level A b p si z (Suc i) (k - (2 ^ (i + b) - 2 ^ (i + b - si)))"
    if "J * 2 ^ (i + b + 1) + 2 ^ (i + b) \<le> k" "k < J * 2 ^ (i + b + 1) + 2 ^ (i + b + 1)" for J k
    by (rule level_block(2) [OF A i _ that(2,1)]) (use that in simp)
  have inside: "J * 2 ^ (i + b + 1) + 2 ^ (i + b + 1) \<le> length D"
    if "length D = datalen" "J < datalen div 2 ^ (i + b + 1)" for J and D :: "gf64_t list"
    using block_inside [OF that(2)] that(1) by simp
  show ?div
  proof (rule blocks_wsum [OF _ dvd _ len(1)])
    fix J G and D :: "gf64_t list"
    assume D: "length D = datalen" "J < datalen div 2 ^ (i + b + 1)"
    note blk = div_blk_wsum [where E = "level A b p si z (Suc i)" and F = "level A b p si z i", OF inside [OF D] d diff_le_self refl refl lo [of J] hi [of J]]
    from blk(1) blk(2) [unfolded D(1)] show
      "length (at_offset (J * 2 ^ (i + b + 1)) (\<lambda>q. hqc_cvt_div_blk q (2 ^ (i + b)) (2 ^ (i + b - si)) (2 ^ (i + b + 1))) D) = datalen \<and>
       wsum (at_offset (J * 2 ^ (i + b + 1)) (\<lambda>q. hqc_cvt_div_blk q (2 ^ (i + b)) (2 ^ (i + b - si)) (2 ^ (i + b + 1))) D)
         (\<lambda>k. if J * 2 ^ (i + b + 1) \<le> k \<and> k < J * 2 ^ (i + b + 1) + 2 ^ (i + b + 1) then level A b p si z i k else G k) =
       wsum D (\<lambda>k. if J * 2 ^ (i + b + 1) \<le> k \<and> k < J * 2 ^ (i + b + 1) + 2 ^ (i + b + 1) then level A b p si z (Suc i) k else G k)"
      by blast
  qed simp
  show ?idiv
  proof (rule blocks_wsum [OF _ dvd _ len(1)])
    fix J G and D :: "gf64_t list"
    assume D: "length D = datalen" "J < datalen div 2 ^ (i + b + 1)"
    note blk = idiv_blk_wsum [where E = "level A b p si z (Suc i)" and F = "level A b p si z i", OF inside [OF D] d diff_le_self refl refl lo [of J] hi [of J]]
    from blk(1) blk(2) [unfolded D(1)] show
      "length (at_offset (J * 2 ^ (i + b + 1)) (\<lambda>q. hqc_cvt_idiv_blk q (2 ^ (i + b)) (2 ^ (i + b - si)) (2 ^ (i + b + 1))) D) = datalen \<and>
       wsum (at_offset (J * 2 ^ (i + b + 1)) (\<lambda>q. hqc_cvt_idiv_blk q (2 ^ (i + b)) (2 ^ (i + b - si)) (2 ^ (i + b + 1))) D)
         (\<lambda>k. if J * 2 ^ (i + b + 1) \<le> k \<and> k < J * 2 ^ (i + b + 1) + 2 ^ (i + b + 1) then level A b p si z (Suc i) k else G k) =
       wsum D (\<lambda>k. if J * 2 ^ (i + b + 1) \<le> k \<and> k < J * 2 ^ (i + b + 1) + 2 ^ (i + b + 1) then level A b p si z i k else G k)"
      by blast
  qed simp
qed

lemma rep_in_si_wsum:
  assumes A: "blind b p A" and si: "0 < si" "si \<le> p" and len: "length data = datalen" "2 ^ (b + p) dvd datalen"
  shows "length (hqc_cvt_rep_in_si data datalen b p si) = datalen \<and>
    wsum (hqc_cvt_rep_in_si data datalen b p si) (level A b p si z si) = wsum data (level A b p si z p)"
  and "length (hqc_cvt_irep_in_si data datalen b p si) = datalen \<and>
    wsum (hqc_cvt_irep_in_si data datalen b p si) (level A b p si z p) = wsum data (level A b p si z si)"
proof -
  define f where "f = (\<lambda>i data. fold (\<lambda>j. at_offset j (\<lambda>q. hqc_cvt_div_blk q (2 ^ (i + b)) (2 ^ (i + b - si))
    (2 ^ (i + b + 1)))) (stride (2 ^ (i + b + 1)) datalen) data)"
  have "length (fold f (rev [t..<p]) data) = datalen \<and>
      wsum (fold f (rev [t..<p]) data) (level A b p si z t) = wsum data (level A b p si z p)"
    if "si \<le> t" "t \<le> p" for t
    using that(2,1)
  proof (induction t rule: inc_induct)
    case (step t)
    then have "rev [t..<p] = rev [Suc t..<p] @ [t]" by (simp add: upt_conv_Cons)
    then show ?case
      using step rep_level(1) [OF A step(4,2) si(1) _ len(2), of "fold f (rev [Suc t..<p]) data" z]
      by (simp add: f_def)
  qed (simp add: len)
  from this [of si] si show "length (hqc_cvt_rep_in_si data datalen b p si) = datalen \<and>
    wsum (hqc_cvt_rep_in_si data datalen b p si) (level A b p si z si) = wsum data (level A b p si z p)"
    by (simp add: hqc_cvt_rep_in_si_def Let_def f_def)
next
  define f where "f = (\<lambda>i data. fold (\<lambda>j. at_offset j (\<lambda>q. hqc_cvt_idiv_blk q (2 ^ (i + b)) (2 ^ (i + b - si))
    (2 ^ (i + b + 1)))) (stride (2 ^ (i + b + 1)) datalen) data)"
  have "length (fold f [si..<t] data) = datalen \<and>
      wsum (fold f [si..<t] data) (level A b p si z t) = wsum data (level A b p si z si)"
    if "si \<le> t" "t \<le> p" for t
    using that
  proof (induction t rule: dec_induct)
    case (step t)
    then show ?case
      using rep_level(2) [OF A step(1) _ si(1) _ len(2), of "fold f [si..<t] data" z]
      by (simp add: f_def)
  qed (simp add: len)
  from this [of p] si show "length (hqc_cvt_irep_in_si data datalen b p si) = datalen \<and>
    wsum (hqc_cvt_irep_in_si data datalen b p si) (level A b p si z p) = wsum data (level A b p si z si)"
    by (simp add: hqc_cvt_irep_in_si_def Let_def f_def)
qed

section \<open>The change of basis\<close>

lemma exp_dvd: "k \<le> l \<Longrightarrow> 2 ^ l dvd n \<Longrightarrow> 2 ^ k dvd (n :: nat)"
  by (rule dvd_trans [OF le_imp_power_dvd])

lemma exp_gt_1: "\<not> 2 * 2 ^ n \<le> Suc 0"
  by (induction n) simp_all

lemma novel_power: "p \<le> 1 \<Longrightarrow> v < 2 ^ p \<Longrightarrow> novel p v z = z ^ v"
  by (cases p) (auto simp: novel_Suc less_2_cases_iff bit_iff_odd)

lemma blind_parts:
  assumes "blind b p A" "si \<le> p"
  shows "blind b si (\<lambda>k. A k * F (fld (b + si) (p - si) k))"
    and "blind (b + si) (p - si) (\<lambda>k. A k * F (fld b si k))"
proof -
  have "k div 2 ^ (b + p) = l div 2 ^ (b + p)" if "k div 2 ^ (b + si) = l div 2 ^ (b + si)" for k l :: nat
  proof -
    have "(2::nat) ^ (b + p) = 2 ^ (b + si) * 2 ^ (p - si)" using assms(2) by (simp flip: power_add)
    with that show ?thesis by (simp only: div_mult2_eq)
  qed
  with assms(1) show "blind b si (\<lambda>k. A k * F (fld (b + si) (p - si) k))"
    unfolding blind_def fld_def by metis
  have "k mod 2 ^ b = l mod 2 ^ b \<and> fld b si k = fld b si l" if "k mod 2 ^ (b + si) = l mod 2 ^ (b + si)" for k l
  proof -
    have "k mod 2 ^ b = k mod 2 ^ (b + si) mod 2 ^ b" "fld b si k = k mod 2 ^ (b + si) div 2 ^ b" for k :: nat
      by (simp_all add: fld_def power_add mod_mult2_eq mod_mod_cancel)
    with that show ?thesis by metis
  qed
  moreover have "b + si + (p - si) = b + p" using assms(2) by simp
  ultimately show "blind (b + si) (p - si) (\<lambda>k. A k * F (fld b si k))"
    using assms(1) unfolding blind_def by metis
qed

lemma level_start: "level A b p si z p = (\<lambda>k. A k * z ^ fld b p k)"
  by (simp add: level_def fun_eq_iff)

lemma level_end: "level A b p si z si = (\<lambda>k. A k * z ^ fld b si k * (z ^ 2 ^ si + z) ^ fld (b + si) (p - si) k)"
  by (simp add: level_def fun_eq_iff)

lemma novel_fld:
  assumes "si \<le> p" "si = 2 ^ m"
  shows "novel p (fld b p k) z = novel si (fld b si k) z * novel (p - si) (fld (b + si) (p - si) k) (z ^ 2 ^ si + z)"
  using novel_split [of si "p - si" "fld b p k" z] fld_div [of b si "p - si" k] fld_mod [of si p b k] assms
  by (simp add: subsp_power)

lemma hqc_cvt_wsum:
  assumes "blind b p A" "length data = datalen" "2 ^ (b + p) dvd datalen"
  shows "length (hqc_cvt data datalen b p) = datalen \<and>
    wsum (hqc_cvt data datalen b p) (\<lambda>k. A k * novel p (fld b p k) z) = wsum data (\<lambda>k. A k * z ^ fld b p k)"
  using assms
proof (induction data datalen b p arbitrary: A z rule: hqc_cvt.induct)
  case (1 data datalen b p)
  show ?case
  proof (cases "p \<le> 1")
    case True
    then show ?thesis using "1.prems" by (simp add: hqc_cvt.simps novel_power)
  next
    case False
    define si where "si = hqc_cvt_choose_si p"
    obtain m where si: "si = 2 ^ m" "0 < si" "si < p"
      using hqc_cvt_choose_si_power [of p] False unfolding si_def by (metis not_le)
    define y where "y = z ^ 2 ^ si + z"
    define D1 where "D1 = hqc_cvt_rep_in_si data datalen b p si"
    define D2 where "D2 = hqc_cvt D1 datalen b si"
    have dvd: "2 ^ (b + si) dvd datalen" "2 ^ (b + si + (p - si)) dvd datalen"
      using "1.prems"(3) si(3) by (auto intro: exp_dvd [of _ "b + p"])
    have D1: "length D1 = datalen"
      "wsum D1 (level A b p si z si) = wsum data (\<lambda>k. A k * z ^ fld b p k)"
      using rep_in_si_wsum(1) [OF "1.prems"(1) si(2) less_imp_le [OF si(3)] "1.prems"(2,3), of z]
      by (simp_all add: D1_def level_start)
    have D2: "length D2 = datalen"
      "wsum D2 (\<lambda>k. A k * y ^ fld (b + si) (p - si) k * novel si (fld b si k) z) =
       wsum D1 (\<lambda>k. A k * y ^ fld (b + si) (p - si) k * z ^ fld b si k)"
      using "1.IH"(1) [OF False si_def D1_def blind_parts(1) [OF "1.prems"(1)] D1(1) dvd(1), of "\<lambda>i. y ^ i" z] si
      by (simp_all add: D2_def)
    have "length (hqc_cvt D2 datalen (b + si) (p - si)) = datalen \<and>
      wsum (hqc_cvt D2 datalen (b + si) (p - si))
        (\<lambda>k. A k * novel si (fld b si k) z * novel (p - si) (fld (b + si) (p - si) k) y) =
      wsum D2 (\<lambda>k. A k * novel si (fld b si k) z * y ^ fld (b + si) (p - si) k)"
      using "1.IH"(2) [OF False si_def D1_def D2_def blind_parts(2) [OF "1.prems"(1)] D2(1) dvd(2),
        of "\<lambda>i. novel si i z" y] si by simp
    moreover have "hqc_cvt data datalen b p = hqc_cvt D2 datalen (b + si) (p - si)"
      using False by (subst hqc_cvt.simps) (simp add: Let_def D1_def D2_def si_def)
    ultimately show ?thesis
      using D1(2) D2(2) si
      by (simp add: novel_fld [OF less_imp_le si(1)] level_end y_def ac_simps)
  qed
qed

lemma hqc_icvt_wsum:
  assumes "blind b p A" "length data = datalen" "2 ^ (b + p) dvd datalen"
  shows "length (hqc_icvt data datalen b p) = datalen \<and>
    wsum (hqc_icvt data datalen b p) (\<lambda>k. A k * z ^ fld b p k) = wsum data (\<lambda>k. A k * novel p (fld b p k) z)"
  using assms
proof (induction data datalen b p arbitrary: A z rule: hqc_icvt.induct)
  case (1 data datalen b p)
  show ?case
  proof (cases "p \<le> 1")
    case True
    then show ?thesis using "1.prems" by (simp add: hqc_icvt.simps novel_power)
  next
    case False
    define si where "si = hqc_cvt_choose_si p"
    obtain m where si: "si = 2 ^ m" "0 < si" "si < p"
      using hqc_cvt_choose_si_power [of p] False unfolding si_def by (metis not_le)
    define y where "y = z ^ 2 ^ si + z"
    define D1 where "D1 = hqc_icvt data datalen b si"
    define D2 where "D2 = hqc_icvt D1 datalen (b + si) (p - si)"
    have dvd: "2 ^ (b + si) dvd datalen" "2 ^ (b + si + (p - si)) dvd datalen"
      using "1.prems"(3) si(3) by (auto intro: exp_dvd [of _ "b + p"])
    have D1: "length D1 = datalen"
      "wsum D1 (\<lambda>k. A k * novel (p - si) (fld (b + si) (p - si) k) y * z ^ fld b si k) =
       wsum data (\<lambda>k. A k * novel (p - si) (fld (b + si) (p - si) k) y * novel si (fld b si k) z)"
      using "1.IH"(1) [OF False si_def blind_parts(1) [OF "1.prems"(1)] "1.prems"(2) dvd(1),
        of "\<lambda>i. novel (p - si) i y" z] si by (simp_all add: D1_def)
    have D2: "length D2 = datalen"
      "wsum D2 (\<lambda>k. A k * z ^ fld b si k * y ^ fld (b + si) (p - si) k) =
       wsum D1 (\<lambda>k. A k * z ^ fld b si k * novel (p - si) (fld (b + si) (p - si) k) y)"
      using "1.IH"(2) [OF False si_def D1_def blind_parts(2) [OF "1.prems"(1)] D1(1) dvd(2),
        of "\<lambda>i. z ^ i" y] si by (simp_all add: D2_def)
    have "length (hqc_cvt_irep_in_si D2 datalen b p si) = datalen \<and>
      wsum (hqc_cvt_irep_in_si D2 datalen b p si) (\<lambda>k. A k * z ^ fld b p k) = wsum D2 (level A b p si z si)"
      using rep_in_si_wsum(2) [OF "1.prems"(1) si(2) less_imp_le [OF si(3)] D2(1) "1.prems"(3), of z]
      by (simp add: level_start)
    moreover have "hqc_icvt data datalen b p = hqc_cvt_irep_in_si D2 datalen b p si"
      using False by (subst hqc_icvt.simps) (simp add: Let_def D1_def D2_def si_def)
    ultimately show ?thesis
      using D1(2) D2(2) si
      by (simp add: novel_fld [OF less_imp_le si(1)] level_end y_def ac_simps)
  qed
qed

section \<open>The entry points\<close>

lemma ceil_log2_from_exp: "l \<le> L \<Longrightarrow> ceil_log2_from l (2 ^ L) = L"
proof (induction l rule: inc_induct)
  case base
  show ?case by (subst ceil_log2_from.simps) simp
next
  case (step l)
  then show ?case by (subst ceil_log2_from.simps) simp
qed

lemma ceil_log2_exp [simp]: "ceil_log2 (2 ^ L) = L"
  by (simp add: ceil_log2_def ceil_log2_from_exp)

lemma wsum_eval: "length data = n \<Longrightarrow> wsum data (\<lambda>k. z ^ k) = eval n (of_coeffs data) z"
  by (simp add: wsum_def eval_def coef_def)

lemma wsum_novel: "length data = 2 ^ L \<Longrightarrow> wsum data (\<lambda>k. novel L k z) = novel_eval L data z"
  by (simp add: wsum_def novel_eval_def)

lemma basisCvt_recursive_v2_correct:
  assumes "length f = 2 ^ L"
  shows "length (basisCvt_recursive_v2 f (2 ^ L)) = 2 ^ L"
    and "novel_eval L (basisCvt_recursive_v2 f (2 ^ L)) z = eval (2 ^ L) (of_coeffs f) z"
proof -
  have "length (hqc_cvt f (2 ^ L) 0 L) = 2 ^ L \<and>
      wsum (hqc_cvt f (2 ^ L) 0 L) (\<lambda>k. 1 * novel L (fld 0 L k) z) = wsum f (\<lambda>k. 1 * z ^ fld 0 L k)"
    by (rule hqc_cvt_wsum) (simp_all add: blind_def assms)
  moreover have "novel_eval L D z = wsum D (\<lambda>k. 1 * novel L (fld 0 L k) z)"
    "eval (2 ^ L) (of_coeffs D) z = wsum D (\<lambda>k. 1 * z ^ fld 0 L k)" if "length D = 2 ^ L" for D
    using that unfolding wsum_eval [OF that, symmetric] wsum_novel [OF that, symmetric]
    by (auto intro!: wsum_cong simp: fld_def)
  moreover have "basisCvt_recursive_v2 f (2 ^ L) = hqc_cvt f (2 ^ L) 0 L"
    using assms by (cases L)
      (auto simp: exp_gt_1 basisCvt_recursive_v2_def hqc_cvt.simps [of _ _ _ 0] length_Suc_conv ceil_log2_exp [of "Suc _", simplified])
  ultimately show "length (basisCvt_recursive_v2 f (2 ^ L)) = 2 ^ L"
    "novel_eval L (basisCvt_recursive_v2 f (2 ^ L)) z = eval (2 ^ L) (of_coeffs f) z"
    using assms by simp_all
qed

lemma ibasisCvt_recursive_v2_correct:
  assumes "length g = 2 ^ L"
  shows "length (ibasisCvt_recursive_v2 g (2 ^ L)) = 2 ^ L"
    and "eval (2 ^ L) (of_coeffs (ibasisCvt_recursive_v2 g (2 ^ L))) z = novel_eval L g z"
proof -
  have "length (hqc_icvt g (2 ^ L) 0 L) = 2 ^ L \<and>
      wsum (hqc_icvt g (2 ^ L) 0 L) (\<lambda>k. 1 * z ^ fld 0 L k) = wsum g (\<lambda>k. 1 * novel L (fld 0 L k) z)"
    by (rule hqc_icvt_wsum) (simp_all add: blind_def assms)
  moreover have "novel_eval L D z = wsum D (\<lambda>k. 1 * novel L (fld 0 L k) z)"
    "eval (2 ^ L) (of_coeffs D) z = wsum D (\<lambda>k. 1 * z ^ fld 0 L k)" if "length D = 2 ^ L" for D
    using that unfolding wsum_eval [OF that, symmetric] wsum_novel [OF that, symmetric]
    by (auto intro!: wsum_cong simp: fld_def)
  moreover have "ibasisCvt_recursive_v2 g (2 ^ L) = hqc_icvt g (2 ^ L) 0 L"
    using assms by (cases L)
      (auto simp: exp_gt_1 ibasisCvt_recursive_v2_def hqc_icvt.simps [of _ _ _ 0] length_Suc_conv ceil_log2_exp [of "Suc _", simplified])
  ultimately show "length (ibasisCvt_recursive_v2 g (2 ^ L)) = 2 ^ L"
    "eval (2 ^ L) (of_coeffs (ibasisCvt_recursive_v2 g (2 ^ L))) z = novel_eval L g z"
    using assms by simp_all
qed

end
