(* ===== verification/HQC_Tables.thy ===== *)
theory HQC_Tables
  imports HQC_Vindex "HOL-Library.AList"
begin

text \<open>
  The point tables of gf64/gf64_additive_fft_hqc2026.c as state: every thread keeps a cache of 16
  slots (\<open>get_thread_vtable_cache\<close>, \<open>get_or_build_v_table\<close>, freed when the thread exits), and all
  threads share the registry of hashes. The memory allocator is a parameter: asked in a state,
  it answers with an address and with whether the registry and the hash could be allocated. The
  invariant \<open>tables_ok\<close> says that no hash outlives its table, so that an address that the
  allocator hands out again never meets the hash of the table that was there before.
\<close>

definition HQC_VTABLE_CACHE_SLOTS :: nat where "HQC_VTABLE_CACHE_SLOTS = 16"

record hqc_vtable_cache_t =
  sl_n :: nat
  sl_v_table :: vtable
  sl_initialized :: bool

record hqc_state =
  hqc_vindex :: "hqc_vindex_t list"
  hqc_vindex_capacity :: nat
  hqc_vtable_caches :: "(nat \<times> hqc_vtable_cache_t list) list"

record allocation =
  new_addr :: nat
  realloc_ok :: bool
  malloc_ok :: bool

type_synonym allocator = "hqc_state \<Rightarrow> allocation"

text \<open>The state at program start.\<close>

definition hqc_start :: hqc_state where
  "hqc_start = \<lparr>hqc_vindex = [], hqc_vindex_capacity = 0, hqc_vtable_caches = []\<rparr>"

definition get_thread_vtable_cache :: "nat \<Rightarrow> hqc_state \<Rightarrow> hqc_vtable_cache_t list \<times> hqc_state" where
  "get_thread_vtable_cache t st =
    (case map_of (hqc_vtable_caches st) t of
       Some cache \<Rightarrow> (cache, st)
     | None \<Rightarrow>
         let cache = replicate HQC_VTABLE_CACHE_SLOTS
           \<lparr>sl_n = 0, sl_v_table = \<lparr>vt_addr = 0, vt_words = []\<rparr>, sl_initialized = False\<rparr>
         in (cache, st\<lparr>hqc_vtable_caches := AList.update t cache (hqc_vtable_caches st)\<rparr>))"

definition free_slot_index :: "hqc_vtable_cache_t list \<Rightarrow> nat" where
  "free_slot_index cache =
    (case find (\<lambda>s. \<not> sl_initialized (cache ! s)) [0..<HQC_VTABLE_CACHE_SLOTS] of Some s \<Rightarrow> s | None \<Rightarrow> 0)"

text \<open>Drop the hash of the table in the slot and free the table.\<close>

definition evict_slot :: "nat \<Rightarrow> nat \<Rightarrow> hqc_vtable_cache_t list \<Rightarrow> hqc_state \<Rightarrow> hqc_vtable_cache_t list \<times> hqc_state" where
  "evict_slot t slot cache st =
    (if sl_initialized (cache ! slot) then
       let cache' = cache[slot := (cache ! slot)\<lparr>sl_initialized := False\<rparr>]
       in (cache', st\<lparr>hqc_vindex := hqc_vindex_drop (vt_addr (sl_v_table (cache ! slot))) (hqc_vindex st),
            hqc_vtable_caches := AList.update t cache' (hqc_vtable_caches st)\<rparr>)
     else (cache, st))"

definition get_or_build_v_table :: "allocator \<Rightarrow> nat \<Rightarrow> nat \<Rightarrow> hqc_state \<Rightarrow> (vtable \<times> hqc_state) option" where
  "get_or_build_v_table alloc t n st =
    (let (cache, st) = get_thread_vtable_cache t st
     in case find (\<lambda>c. sl_initialized c \<and> sl_n c = n) cache of
          Some c \<Rightarrow> Some (sl_v_table c, st)
        | None \<Rightarrow>
            let slot = free_slot_index cache;
                (cache, st) = evict_slot t slot cache st;
                v_table = \<lparr>vt_addr = new_addr (alloc st), vt_words = map compute_v_j [0..<n]\<rparr>
            in do {
              (reg, capacity) \<leftarrow> hqc_vindex_build (realloc_ok (alloc st)) (malloc_ok (alloc st)) v_table n
                (hqc_vindex st, hqc_vindex_capacity st);
              Some (v_table, st\<lparr>hqc_vindex := reg, hqc_vindex_capacity := capacity,
                hqc_vtable_caches := AList.update t
                  (cache[slot := \<lparr>sl_n = n, sl_v_table = v_table, sl_initialized = True\<rparr>])
                  (hqc_vtable_caches st)\<rparr>)
            })"

definition hqc_vtable_cache_destroy :: "nat \<Rightarrow> hqc_state \<Rightarrow> hqc_state" where
  "hqc_vtable_cache_destroy t st =
    (case map_of (hqc_vtable_caches st) t of
       None \<Rightarrow> st
     | Some cache \<Rightarrow>
         st\<lparr>hqc_vindex := fold (\<lambda>c reg. if sl_initialized c
              then hqc_vindex_drop (vt_addr (sl_v_table c)) reg else reg) cache (hqc_vindex st),
            hqc_vtable_caches := AList.delete t (hqc_vtable_caches st)\<rparr>)"

text \<open>The blocks in use, and what an allocator guarantees.\<close>

definition live_tables :: "hqc_state \<Rightarrow> nat list" where
  "live_tables st = map (\<lambda>c. vt_addr (sl_v_table c))
    (filter sl_initialized (concat (map snd (hqc_vtable_caches st))))"

definition allocator_ok :: "allocator \<Rightarrow> bool" where
  "allocator_ok alloc \<longleftrightarrow> (\<forall>st. new_addr (alloc st) \<notin> set (live_tables st))"

section \<open>The registry operations\<close>

lemma set_vindex_drop_from:
  "(\<And>i. i < s \<Longrightarrow> i < length reg \<Longrightarrow> vx_table (reg ! i) \<noteq> p) \<Longrightarrow>
    set (vindex_drop_from p s reg) = {v \<in> set reg. vx_table v \<noteq> p}"
proof (induction p s reg rule: vindex_drop_from.induct)
  case (1 p s reg)
  show ?case
  proof (cases "s < length reg")
    case False
    have "vx_table v \<noteq> p" if v: "v \<in> set reg" for v
    proof -
      obtain i where "i < length reg" "reg ! i = v" using v by (auto simp: in_set_conv_nth)
      then show ?thesis using "1.prems" [of i] False by auto
    qed
    with False show ?thesis by (auto simp: vindex_drop_from.simps)
  next
    case True
    show ?thesis
    proof (cases "vx_table (reg ! s) = p")
      case False
      have "set (vindex_drop_from p (Suc s) reg) = {v \<in> set reg. vx_table v \<noteq> p}"
        using False "1.prems" by (intro "1.IH"(1) [OF True]) (auto simp: less_Suc_eq)
      with True False show ?thesis by (subst vindex_drop_from.simps) simp
    next
      case eq: True
      define r where "r = butlast (reg[s := reg ! (length reg - 1)])"
      have r: "length r = length reg - 1" "\<And>i. i < length r \<Longrightarrow> r ! i = (if i = s then reg ! (length reg - 1) else reg ! i)"
        using True by (simp_all add: r_def nth_butlast)
      have "set (vindex_drop_from p s r) = {v \<in> set r. vx_table v \<noteq> p}"
        unfolding r_def by (rule "1.IH"(2) [OF True]) (use eq "1.prems" True in \<open>auto simp: nth_butlast\<close>)
      also have "\<dots> = {v \<in> set reg. vx_table v \<noteq> p}"
      proof (intro set_eqI iffI; clarsimp)
        fix v assume "v \<in> set r"
        then obtain i where "i < length r" "r ! i = v" by (auto simp: in_set_conv_nth)
        with r True show "v \<in> set reg" by (auto intro: nth_mem)
      next
        fix v assume v: "v \<in> set reg" "vx_table v \<noteq> p"
        then obtain i where i: "i < length reg" "reg ! i = v" by (auto simp: in_set_conv_nth)
        with eq v have "i \<noteq> s" by auto
        show "v \<in> set r"
        proof (cases "i = length reg - 1")
          case True
          with i \<open>i \<noteq> s\<close> \<open>s < length reg\<close> have "s < length r" "r ! s = v" using r by auto
          then show ?thesis by (metis nth_mem)
        next
          case False
          with i \<open>i \<noteq> s\<close> have "i < length r" "r ! i = v" using r by auto
          then show ?thesis by (metis nth_mem)
        qed
      qed
      finally show ?thesis using True eq by (subst vindex_drop_from.simps) (simp add: r_def)
    qed
  qed
qed

lemma set_hqc_vindex_drop: "set (hqc_vindex_drop p reg) = {v \<in> set reg. vx_table v \<noteq> p}"
  by (simp add: hqc_vindex_drop_def set_vindex_drop_from)

lemma set_drop_all:
  "set (fold (\<lambda>c reg. if Q c then hqc_vindex_drop (a c) reg else reg) cs reg) =
    {v \<in> set reg. \<forall>c\<in>set cs. Q c \<longrightarrow> vx_table v \<noteq> a c}"
  by (induction cs arbitrary: reg) (auto simp: set_hqc_vindex_drop)

lemma vindex_log2size_bound: "2 * n \<le> 2 ^ vindex_log2size l n"
  by (induction l n rule: vindex_log2size.induct) (subst vindex_log2size.simps, auto)

lemma hqc_vindex_build_correct:
  assumes "n \<le> 2 ^ 20" "vt_words v_table = points n"
  obtains reg' capacity' where "hqc_vindex_build r m v_table n (reg, capacity) = Some (reg', capacity')"
    "\<And>v. v \<in> set reg' \<Longrightarrow> v \<in> set reg \<or> vx_table v = vt_addr v_table \<and> entry_ok n v"
proof -
  define l where "l = vindex_log2size (Suc 0) n"
  show ?thesis
  proof (cases "l > 30")
    case True
    then have "hqc_vindex_build r m v_table n (reg, capacity) \<in> {Some (reg, c) | c. True}"
      by (auto simp: hqc_vindex_build_def Let_def simp flip: l_def split: option.splits)
    then show ?thesis using that by auto
  next
    case False
    have "compute_v_j j \<noteq> 0" if "1 \<le> j" "j < n" for j
      using that assms(1) by (intro compute_v_j_nonzero) auto
    then obtain tab where tab: "vindex_tab (points n) n l = Some tab" "vindex_inv l (points n) n {1..<n} tab"
      using vindex_tab_inv [of n l "points n"] vindex_log2size_bound [of n "Suc 0"] False
      by (auto simp: l_def)
    define e where "e = \<lparr>vx_table = vt_addr v_table, vx_tab = tab, vx_log2size = l, vx_mask = 2 ^ l - 1\<rparr>"
    have "entry_ok n e"
      using tab(2) False vindex_log2size_bound [of n "Suc 0"] by (simp add: entry_ok_def e_def l_def)
    moreover have "vx_table e = vt_addr v_table" by (simp add: e_def)
    moreover have "\<exists>reg' c. hqc_vindex_build r m v_table n (reg, capacity) = Some (reg', c) \<and> set reg' \<subseteq> insert e (set reg)"
      using tab(1) assms(2) False
      by (auto simp: hqc_vindex_build_def Let_def e_def simp flip: l_def split: option.splits)
    then obtain reg' c where "hqc_vindex_build r m v_table n (reg, capacity) = Some (reg', c)" "set reg' \<subseteq> insert e (set reg)"
      by blast
    ultimately show ?thesis using that [of reg' c] by blast
  qed
qed

section \<open>The invariant\<close>

definition slot_at :: "hqc_state \<Rightarrow> nat \<Rightarrow> nat \<Rightarrow> hqc_vtable_cache_t \<Rightarrow> bool" where
  "slot_at st t i c \<longleftrightarrow> (\<exists>cache. map_of (hqc_vtable_caches st) t = Some cache \<and> i < length cache \<and>
    cache ! i = c \<and> sl_initialized c)"

definition tables_ok :: "hqc_state \<Rightarrow> bool" where
  "tables_ok st \<longleftrightarrow>
    (\<forall>t cache. map_of (hqc_vtable_caches st) t = Some cache \<longrightarrow> length cache = HQC_VTABLE_CACHE_SLOTS) \<and>
    (\<forall>t i c. slot_at st t i c \<longrightarrow> sl_n c \<le> 2 ^ 20 \<and> vt_words (sl_v_table c) = points (sl_n c)) \<and>
    (\<forall>t i c u j d. slot_at st t i c \<longrightarrow> slot_at st u j d \<longrightarrow>
      vt_addr (sl_v_table c) = vt_addr (sl_v_table d) \<longrightarrow> t = u \<and> i = j) \<and>
    (\<forall>v\<in>set (hqc_vindex st). \<exists>t i c. slot_at st t i c \<and> vt_addr (sl_v_table c) = vx_table v \<and> entry_ok (sl_n c) v)"

lemma tables_okI:
  assumes "\<And>t cache. map_of (hqc_vtable_caches st) t = Some cache \<Longrightarrow> length cache = HQC_VTABLE_CACHE_SLOTS"
    and "\<And>t i c. slot_at st t i c \<Longrightarrow> sl_n c \<le> 2 ^ 20 \<and> vt_words (sl_v_table c) = points (sl_n c)"
    and "\<And>t i c u j d. \<lbrakk>slot_at st t i c; slot_at st u j d;
      vt_addr (sl_v_table c) = vt_addr (sl_v_table d)\<rbrakk> \<Longrightarrow> t = u \<and> i = j"
    and "\<And>v. v \<in> set (hqc_vindex st) \<Longrightarrow>
      \<exists>t i c. slot_at st t i c \<and> vt_addr (sl_v_table c) = vx_table v \<and> entry_ok (sl_n c) v"
  shows "tables_ok st"
  using assms unfolding tables_ok_def by blast

lemma tables_okD:
  assumes "tables_ok st"
  shows "map_of (hqc_vtable_caches st) t = Some cache \<Longrightarrow> length cache = HQC_VTABLE_CACHE_SLOTS"
    and "slot_at st t i c \<Longrightarrow> sl_n c \<le> 2 ^ 20 \<and> vt_words (sl_v_table c) = points (sl_n c)"
    and "\<lbrakk>slot_at st t i c; slot_at st u j d; vt_addr (sl_v_table c) = vt_addr (sl_v_table d)\<rbrakk> \<Longrightarrow>
      t = u \<and> i = j"
    and "v \<in> set (hqc_vindex st) \<Longrightarrow>
      \<exists>t i c. slot_at st t i c \<and> vt_addr (sl_v_table c) = vx_table v \<and> entry_ok (sl_n c) v"
  using assms unfolding tables_ok_def by blast+

lemma slot_unique: "slot_at st t i c \<Longrightarrow> slot_at st t i d \<Longrightarrow> c = d"
  by (auto simp: slot_at_def)

text \<open>A table in a slot is safe to look up in.\<close>

lemma tables_ok_registry:
  assumes ok: "tables_ok st" and c: "slot_at st t i c"
  shows "registry_ok (hqc_vindex st) (sl_v_table c) (sl_n c)"
  unfolding registry_ok_def
proof (intro conjI ballI impI)
  fix v assume "v \<in> set (hqc_vindex st)" and v: "vx_table v = vt_addr (sl_v_table c)"
  then obtain u j d where d: "slot_at st u j d" "vt_addr (sl_v_table d) = vx_table v" "entry_ok (sl_n d) v"
    using tables_okD(4) [OF ok] by blast
  with v tables_okD(3) [OF ok c d(1)] have "t = u" "i = j" by auto
  with slot_unique [OF c] d show "entry_ok (sl_n c) v" by blast
qed (use tables_okD(2) [OF ok c] in auto)

lemma tables_ok_start: "tables_ok hqc_start"
  by (rule tables_okI) (auto simp: hqc_start_def slot_at_def)

lemma slot_at_live: "slot_at st t i c \<Longrightarrow> vt_addr (sl_v_table c) \<in> set (live_tables st)"
  by (force simp: slot_at_def live_tables_def dest: map_of_SomeD)

lemma get_thread_vtable_cache_ok:
  assumes ok: "tables_ok st" and get: "get_thread_vtable_cache t st = (cache, st')"
  shows "tables_ok st'" "map_of (hqc_vtable_caches st') t = Some cache" "length cache = HQC_VTABLE_CACHE_SLOTS"
proof -
  consider "map_of (hqc_vtable_caches st) t = Some cache" "st' = st" |
    "map_of (hqc_vtable_caches st) t = None" "cache = replicate HQC_VTABLE_CACHE_SLOTS
      \<lparr>sl_n = 0, sl_v_table = \<lparr>vt_addr = 0, vt_words = []\<rparr>, sl_initialized = False\<rparr>"
    "st' = st\<lparr>hqc_vtable_caches := AList.update t cache (hqc_vtable_caches st)\<rparr>"
    using get by (auto simp: get_thread_vtable_cache_def Let_def split: option.splits)
  note cases = this
  have slots: "slot_at st' u j d = slot_at st u j d" for u j d
    using cases by cases (auto simp: slot_at_def update_conv')
  from cases show "tables_ok st'"
  proof cases
    case 2
    show ?thesis
      using ok 2 unfolding tables_ok_def slots by (auto simp: update_conv')
  qed (simp add: ok)
  from cases show "map_of (hqc_vtable_caches st') t = Some cache" by cases (simp_all add: update_conv')
  from cases show "length cache = HQC_VTABLE_CACHE_SLOTS"
    using tables_okD(1) [OF ok] by cases auto
qed

text \<open>Evicting a slot keeps the invariant and leaves the slot free.\<close>

lemma evict_slot_ok:
  assumes ok: "tables_ok st" and cache: "map_of (hqc_vtable_caches st) t = Some cache" "slot < length cache"
    and evict: "evict_slot t slot cache st = (cache', st')"
  shows "tables_ok st'" "map_of (hqc_vtable_caches st') t = Some cache'" "length cache' = length cache"
    "\<not> sl_initialized (cache' ! slot)"
proof -
  show "map_of (hqc_vtable_caches st') t = Some cache'" "length cache' = length cache"
    "\<not> sl_initialized (cache' ! slot)"
    using evict cache by (auto simp: evict_slot_def Let_def update_conv' split: if_splits)
  show "tables_ok st'"
  proof (cases "sl_initialized (cache ! slot)")
    case False
    with evict ok show ?thesis by (simp add: evict_slot_def)
  next
    case True
    define c where "c = cache ! slot"
    have c: "slot_at st t slot c" using True cache by (simp add: slot_at_def c_def)
    have st': "hqc_vindex st' = hqc_vindex_drop (vt_addr (sl_v_table c)) (hqc_vindex st)"
      "map_of (hqc_vtable_caches st') = (map_of (hqc_vtable_caches st))(t \<mapsto> cache[slot := c\<lparr>sl_initialized := False\<rparr>])"
      using evict True by (auto simp: evict_slot_def Let_def update_conv' c_def)
    have slots: "slot_at st' u j d \<longleftrightarrow> slot_at st u j d \<and> (u, j) \<noteq> (t, slot)" for u j d
      using cache by (auto simp: slot_at_def st'(2) nth_list_update)
    show ?thesis
    proof (rule tables_okI)
      fix u ca assume "map_of (hqc_vtable_caches st') u = Some ca"
      then show "length ca = HQC_VTABLE_CACHE_SLOTS"
        using tables_okD(1) [OF ok] cache(1) by (auto simp: st'(2) split: if_splits)
    next
      fix v assume "v \<in> set (hqc_vindex st')"
      then have v: "v \<in> set (hqc_vindex st)" "vx_table v \<noteq> vt_addr (sl_v_table c)"
        by (auto simp: st'(1) set_hqc_vindex_drop)
      with tables_okD(4) [OF ok v(1)] obtain u j d where
        d: "slot_at st u j d" "vt_addr (sl_v_table d) = vx_table v" "entry_ok (sl_n d) v" by blast
      with v(2) slot_unique [OF c] have "(u, j) \<noteq> (t, slot)" by auto
      with d show "\<exists>u j d. slot_at st' u j d \<and> vt_addr (sl_v_table d) = vx_table v \<and> entry_ok (sl_n d) v"
        unfolding slots by blast
    qed (use tables_okD(2,3) [OF ok] in \<open>unfold slots, blast+\<close>)
  qed
qed

lemma free_slot_index_less: "free_slot_index cache < HQC_VTABLE_CACHE_SLOTS"
  by (auto simp: free_slot_index_def HQC_VTABLE_CACHE_SLOTS_def find_Some_iff split: option.splits)

lemma get_or_build_v_table_ok:
  assumes ok: "tables_ok st" and alloc: "allocator_ok alloc" and n: "n \<le> 2 ^ 20"
  obtains vt st' where "get_or_build_v_table alloc t n st = Some (vt, st')" "tables_ok st'"
    "registry_ok (hqc_vindex st') vt n"
proof -
  obtain cache st1 where get: "get_thread_vtable_cache t st = (cache, st1)" by (rule prod.exhaust)
  note st1 = get_thread_vtable_cache_ok [OF ok get]
  show ?thesis
  proof (cases "find (\<lambda>c. sl_initialized c \<and> sl_n c = n) cache")
    case (Some c)
    then obtain i where "i < length cache" "cache ! i = c" "sl_initialized c" "sl_n c = n"
      by (auto simp: find_Some_iff)
    then have "slot_at st1 t i c" using st1(2) by (simp add: slot_at_def)
    from tables_ok_registry [OF st1(1) this] show ?thesis
      using that [of "sl_v_table c" st1] st1(1) Some \<open>sl_n c = n\<close>
      by (simp add: get_or_build_v_table_def get)
  next
    case None
    define slot where "slot = free_slot_index cache"
    have slot: "slot < length cache" using free_slot_index_less st1(3) by (simp add: slot_def)
    obtain cache2 st2 where evict: "evict_slot t slot cache st1 = (cache2, st2)" by (rule prod.exhaust)
    note st2 = evict_slot_ok [OF st1(1,2) slot evict]
    define vt where "vt = \<lparr>vt_addr = new_addr (alloc st2), vt_words = points n\<rparr>"
    obtain reg cap where build: "hqc_vindex_build (realloc_ok (alloc st2)) (malloc_ok (alloc st2)) vt n
        (hqc_vindex st2, hqc_vindex_capacity st2) = Some (reg, cap)"
      and reg: "\<And>v. v \<in> set reg \<Longrightarrow> v \<in> set (hqc_vindex st2) \<or> vx_table v = vt_addr vt \<and> entry_ok n v"
      by (rule hqc_vindex_build_correct [OF n, of vt "realloc_ok (alloc st2)" "malloc_ok (alloc st2)"
        "hqc_vindex st2" "hqc_vindex_capacity st2"]) (simp add: vt_def, blast)
    define c where "c = \<lparr>sl_n = n, sl_v_table = vt, sl_initialized = True\<rparr>"
    define st3 where "st3 = st2\<lparr>hqc_vindex := reg, hqc_vindex_capacity := cap,
      hqc_vtable_caches := AList.update t (cache2[slot := c]) (hqc_vtable_caches st2)\<rparr>"
    have result: "get_or_build_v_table alloc t n st = Some (vt, st3)"
      using None build by (simp add: get_or_build_v_table_def get Let_def evict slot_def [symmetric]
          points_def [symmetric] vt_def [symmetric] c_def st3_def)
    have fresh: "vt_addr (sl_v_table d) \<noteq> vt_addr vt" if "slot_at st2 u j d" for u j d
      using alloc slot_at_live [OF that] by (auto simp: allocator_ok_def vt_def)
    have slots: "slot_at st3 u j d \<longleftrightarrow> (if (u, j) = (t, slot) then d = c else slot_at st2 u j d)" for u j d
      using slot st2(2-4) by (auto simp: slot_at_def st3_def update_conv' nth_list_update c_def)
    have "tables_ok st3"
    proof (rule tables_okI)
      fix u ca assume "map_of (hqc_vtable_caches st3) u = Some ca"
      then show "length ca = HQC_VTABLE_CACHE_SLOTS"
        using tables_okD(1) [OF st2(1)] st2(2) by (auto simp: st3_def update_conv' split: if_splits)
    next
      fix v assume "v \<in> set (hqc_vindex st3)"
      then consider "v \<in> set (hqc_vindex st2)" | "vx_table v = vt_addr vt" "entry_ok n v"
        using reg by (auto simp: st3_def)
      then show "\<exists>u j d. slot_at st3 u j d \<and> vt_addr (sl_v_table d) = vx_table v \<and> entry_ok (sl_n d) v"
      proof cases
        case 1
        then obtain u j d where d: "slot_at st2 u j d" "vt_addr (sl_v_table d) = vx_table v" "entry_ok (sl_n d) v"
          using tables_okD(4) [OF st2(1)] by blast
        then have "(u, j) \<noteq> (t, slot)" using st2(2,4) by (auto simp: slot_at_def)
        with d show ?thesis unfolding slots by auto
      next
        case 2
        then show ?thesis unfolding slots by (intro exI [of _ t] exI [of _ slot] exI [of _ c]) (simp add: c_def)
      qed
    next
      fix u j d
      assume "slot_at st3 u j d"
      then show "sl_n d \<le> 2 ^ 20 \<and> vt_words (sl_v_table d) = points (sl_n d)"
        using tables_okD(2) [OF st2(1)] n by (auto simp: slots c_def vt_def split: if_splits)
    next
      fix u j d u' j' d'
      assume "slot_at st3 u j d" "slot_at st3 u' j' d'" "vt_addr (sl_v_table d) = vt_addr (sl_v_table d')"
      then show "u = u' \<and> j = j'"
        using tables_okD(3) [OF st2(1)] fresh by (auto simp: slots c_def split: if_splits) metis+
    qed
    moreover have "registry_ok (hqc_vindex st3) vt n"
    proof -
      have "slot_at st3 t slot c" by (simp add: slots)
      from tables_ok_registry [OF \<open>tables_ok st3\<close> this] show ?thesis by (simp add: c_def)
    qed
    ultimately show ?thesis using that result by blast
  qed
qed

lemma hqc_vtable_cache_destroy_ok:
  assumes ok: "tables_ok st"
  shows "tables_ok (hqc_vtable_cache_destroy t st)"
proof (cases "map_of (hqc_vtable_caches st) t")
  case None
  with ok show ?thesis by (simp add: hqc_vtable_cache_destroy_def)
next
  case (Some cache)
  define st' where "st' = hqc_vtable_cache_destroy t st"
  have st': "set (hqc_vindex st') = {v \<in> set (hqc_vindex st). \<forall>c\<in>set cache. sl_initialized c \<longrightarrow>
      vx_table v \<noteq> vt_addr (sl_v_table c)}"
    "map_of (hqc_vtable_caches st') = (map_of (hqc_vtable_caches st))(t := None)"
    by (simp_all add: st'_def hqc_vtable_cache_destroy_def Some set_drop_all delete_conv')
  have slots: "slot_at st' u j d \<longleftrightarrow> slot_at st u j d \<and> u \<noteq> t" for u j d
    by (auto simp: slot_at_def st'(2))
  have "tables_ok st'"
  proof (rule tables_okI)
    fix u ca assume "map_of (hqc_vtable_caches st') u = Some ca"
    then show "length ca = HQC_VTABLE_CACHE_SLOTS"
      using tables_okD(1) [OF ok] by (auto simp: st'(2) split: if_splits)
  next
    fix v assume "v \<in> set (hqc_vindex st')"
    then have v: "v \<in> set (hqc_vindex st)" "\<And>c. c \<in> set cache \<Longrightarrow> sl_initialized c \<Longrightarrow> vx_table v \<noteq> vt_addr (sl_v_table c)"
      by (auto simp: st'(1))
    with tables_okD(4) [OF ok v(1)] obtain u j d where
      d: "slot_at st u j d" "vt_addr (sl_v_table d) = vx_table v" "entry_ok (sl_n d) v" by blast
    have "u \<noteq> t"
    proof
      assume "u = t"
      with d(1) Some have "d \<in> set cache" "sl_initialized d" by (auto simp: slot_at_def)
      with v(2) d(2) show False by metis
    qed
    with d show "\<exists>u j d. slot_at st' u j d \<and> vt_addr (sl_v_table d) = vx_table v \<and> entry_ok (sl_n d) v"
      unfolding slots by blast
  qed (use tables_okD(2,3) [OF ok] in \<open>unfold slots, blast+\<close>)
  then show ?thesis by (simp add: st'_def)
qed

section \<open>All interleavings\<close>

text \<open>
  What the threads do to the shared state: ask for a table, or exit. \<open>hqc_step alloc st st'\<close> is one
  such event of any thread.
\<close>

inductive hqc_step :: "allocator \<Rightarrow> hqc_state \<Rightarrow> hqc_state \<Rightarrow> bool" for alloc where
  Table: "\<lbrakk>n \<le> 2 ^ 20; get_or_build_v_table alloc t n st = Some (vt, st')\<rbrakk> \<Longrightarrow> hqc_step alloc st st'"
| Exit: "hqc_step alloc st (hqc_vtable_cache_destroy t st)"

inductive_cases hqc_stepE: "hqc_step alloc st st'"

lemma hqc_step_tables_ok:
  assumes "hqc_step alloc st st'" "tables_ok st" "allocator_ok alloc"
  shows "tables_ok st'"
proof -
  have "tables_ok st'" if "n \<le> 2 ^ 20" "get_or_build_v_table alloc t n st = Some (vt, st')" for n t vt
    using get_or_build_v_table_ok [OF assms(2,3) that(1), of t] that(2) by auto
  then show ?thesis
    using assms(1) hqc_vtable_cache_destroy_ok [OF assms(2)] by (elim hqc_stepE) auto
qed

lemma hqc_reachable_tables_ok:
  assumes "(hqc_step alloc)\<^sup>*\<^sup>* hqc_start st" "allocator_ok alloc"
  shows "tables_ok st"
  using assms(1)
proof (induction rule: rtranclp_induct)
  case base
  show ?case by (rule tables_ok_start)
next
  case (step st st')
  then show ?case using hqc_step_tables_ok assms(2) by blast
qed

end
