(* ===== verification/HQC_Transform.thy ===== *)
theory HQC_Transform
  imports HQC_Cvt HQC_Tables
begin

text \<open>
  The matrix-free transforms of gf64/gf64_additive_fft_hqc2026.c and the products built on them. The
  forward transform of an array of \<open>n = 2^L\<close> coefficients is the list of its values at the points
  \<open>v_(L-1) + W 0, v_(L-1) + W 1, ...\<close>; the inverse recovers the array; a product is a pointwise product
  of transforms. Every call asks the table cache of its thread, so the state of HQC_Tables is
  threaded through. A failed assertion is None; the scratch areas carry no result and only their
  sizes are in the model: the products copy their padded operands to the first \<open>2 n\<close> words of their
  area, and a copy past its end is None too.
\<close>

definition GF64_HQC_MAX_LM_N :: nat where "GF64_HQC_MAX_LM_N = 2 ^ 20"

definition gf64_addfft64_fwd_recursive_scratch_words :: "nat \<Rightarrow> nat" where
  "gf64_addfft64_fwd_recursive_scratch_words n = (if n \<le> 1 then 0 else 2 * n)"

definition gf64_addfft64_inv_recursive_scratch_words :: "nat \<Rightarrow> nat" where
  "gf64_addfft64_inv_recursive_scratch_words n = (if n \<le> 1 then 0 else 2 * n)"

definition gf64_addfft64_poly_mul_recursive_scratch_words :: "nat \<Rightarrow> nat" where
  "gf64_addfft64_poly_mul_recursive_scratch_words n = (if n \<le> 1 then 0 else 4 * n)"

definition gf64_hqc_supports_size :: "nat \<Rightarrow> nat" where
  "gf64_hqc_supports_size n =
    (if n < 2 then 0 else if n > GF64_HQC_MAX_LM_N then 0 else if n AND (n - 1) = 0 then 1 else 0)"

definition gf64_addfft64_fwd_recursive_scratch ::
  "allocator \<Rightarrow> nat \<Rightarrow> gf64_t list \<Rightarrow> nat \<Rightarrow> nat \<Rightarrow> hqc_state \<Rightarrow> (gf64_t list \<times> hqc_state) option" where
  "gf64_addfft64_fwd_recursive_scratch alloc t arr n scratch_words st =
    (if n \<le> 1 then Some (arr, st)
     else if \<not> (n \<le> GF64_HQC_MAX_LM_N \<and> scratch_words \<ge> gf64_addfft64_fwd_recursive_scratch_words n) then None
     else
       let logn = ceil_log2 n; arr = basisCvt_recursive_v2 arr n
       in do {
         (v_table, st) \<leftarrow> get_or_build_v_table alloc t n st;
         let a = GF64_CANTOR_BASIS ! (logn - 1);
         arr \<leftarrow> butterfly_fwd (hqc_vindex st) arr n n a v_table logn;
         Some (arr, st)
       })"

definition gf64_addfft64_inv_recursive_scratch ::
  "allocator \<Rightarrow> nat \<Rightarrow> gf64_t list \<Rightarrow> nat \<Rightarrow> nat \<Rightarrow> hqc_state \<Rightarrow> (gf64_t list \<times> hqc_state) option" where
  "gf64_addfft64_inv_recursive_scratch alloc t arr n scratch_words st =
    (if n \<le> 1 then Some (arr, st)
     else if \<not> (n \<le> GF64_HQC_MAX_LM_N \<and> scratch_words \<ge> gf64_addfft64_inv_recursive_scratch_words n) then None
     else
       let logn = ceil_log2 n
       in do {
         (v_table, st) \<leftarrow> get_or_build_v_table alloc t n st;
         let a = GF64_CANTOR_BASIS ! (logn - 1);
         arr \<leftarrow> butterfly_inv (hqc_vindex st) arr n n a v_table logn;
         Some (ibasisCvt_recursive_v2 arr n, st)
       })"

definition gf64_addfft64_fwd_recursive_scratch_avx512 ::
  "allocator \<Rightarrow> nat \<Rightarrow> gf64_t list \<Rightarrow> nat \<Rightarrow> nat \<Rightarrow> hqc_state \<Rightarrow> (gf64_t list \<times> hqc_state) option" where
  "gf64_addfft64_fwd_recursive_scratch_avx512 alloc t arr n scratch_words st =
    (if n \<le> 1 then Some (arr, st)
     else if \<not> (n \<le> GF64_HQC_MAX_LM_N \<and> scratch_words \<ge> gf64_addfft64_fwd_recursive_scratch_words n) then None
     else
       let logn = ceil_log2 n; arr = basisCvt_recursive_v2 arr n
       in do {
         (v_table, st) \<leftarrow> get_or_build_v_table alloc t n st;
         let a = GF64_CANTOR_BASIS ! (logn - 1);
         arr \<leftarrow> butterfly_fwd_avx512 (hqc_vindex st) arr n n a v_table logn;
         Some (arr, st)
       })"

definition gf64_addfft64_inv_recursive_scratch_avx512 ::
  "allocator \<Rightarrow> nat \<Rightarrow> gf64_t list \<Rightarrow> nat \<Rightarrow> nat \<Rightarrow> hqc_state \<Rightarrow> (gf64_t list \<times> hqc_state) option" where
  "gf64_addfft64_inv_recursive_scratch_avx512 alloc t arr n scratch_words st =
    (if n \<le> 1 then Some (arr, st)
     else if \<not> (n \<le> GF64_HQC_MAX_LM_N \<and> scratch_words \<ge> gf64_addfft64_inv_recursive_scratch_words n) then None
     else
       let logn = ceil_log2 n
       in do {
         (v_table, st) \<leftarrow> get_or_build_v_table alloc t n st;
         let a = GF64_CANTOR_BASIS ! (logn - 1);
         arr \<leftarrow> butterfly_inv_avx512 (hqc_vindex st) arr n n a v_table logn;
         Some (ibasisCvt_recursive_v2 arr n, st)
       })"

definition gf64_addfft64_poly_mul_recursive_scratch ::
  "allocator \<Rightarrow> nat \<Rightarrow> gf64_t list \<Rightarrow> nat \<Rightarrow> gf64_t list \<Rightarrow> nat \<Rightarrow> nat \<Rightarrow> nat \<Rightarrow> hqc_state \<Rightarrow>
    (gf64_t list \<times> hqc_state) option" where
  "gf64_addfft64_poly_mul_recursive_scratch alloc t a len_a b len_b out_len scratch_words st =
    (if len_a = 0 \<or> len_b = 0 \<or> out_len = 0 then Some (replicate out_len 0, st)
     else
       let full_len = len_a + len_b - 1;
           full_len = (if full_len < out_len then out_len else full_len);
           n = next_pow2_size full_len
       in if \<not> (n \<le> GF64_HQC_MAX_LM_N \<and> scratch_words \<ge> gf64_addfft64_poly_mul_recursive_scratch_words n)
          then None
          else if scratch_words < 2 * n then None
          else
            let pa = take len_a a @ replicate (n - len_a) 0;
                pb = take len_b b @ replicate (n - len_b) 0
            in do {
              (pa, st) \<leftarrow> gf64_addfft64_fwd_recursive_scratch alloc t pa n (2 * n) st;
              (pb, st) \<leftarrow> gf64_addfft64_fwd_recursive_scratch alloc t pb n (2 * n) st;
              let pa = fold (\<lambda>i pa. pa[i := gf64_mul_reference (pa ! i) (pb ! i)]) [0..<n] pa;
              (pa, st) \<leftarrow> gf64_addfft64_inv_recursive_scratch alloc t pa n (2 * n) st;
              let copy_n = (if full_len < out_len then full_len else out_len);
              Some (take copy_n pa @ replicate (out_len - copy_n) 0, st)
            })"

definition gf64_addfft64_poly_mul_recursive_scratch_avx512 ::
  "allocator \<Rightarrow> nat \<Rightarrow> gf64_t list \<Rightarrow> nat \<Rightarrow> gf64_t list \<Rightarrow> nat \<Rightarrow> nat \<Rightarrow> nat \<Rightarrow> hqc_state \<Rightarrow>
    (gf64_t list \<times> hqc_state) option" where
  "gf64_addfft64_poly_mul_recursive_scratch_avx512 alloc t a len_a b len_b out_len scratch_words st =
    (if len_a = 0 \<or> len_b = 0 \<or> out_len = 0 then Some (replicate out_len 0, st)
     else
       let full_len = len_a + len_b - 1;
           full_len = (if full_len < out_len then out_len else full_len);
           n = next_pow2_size full_len
       in if \<not> (n \<le> GF64_HQC_MAX_LM_N \<and> scratch_words \<ge> gf64_addfft64_poly_mul_recursive_scratch_words n)
          then None
          else if scratch_words < 2 * n then None
          else
            let pa = take len_a a @ replicate (n - len_a) 0;
                pb = take len_b b @ replicate (n - len_b) 0
            in do {
              (pa, st) \<leftarrow> gf64_addfft64_fwd_recursive_scratch_avx512 alloc t pa n (2 * n) st;
              (pb, st) \<leftarrow> gf64_addfft64_fwd_recursive_scratch_avx512 alloc t pb n (2 * n) st;
              let pa = fold (\<lambda>i pa. pa[i := gf64_mul_reference (pa ! i) (pb ! i)]) [0..<n] pa;
              (pa, st) \<leftarrow> gf64_addfft64_inv_recursive_scratch_avx512 alloc t pa n (2 * n) st;
              let copy_n = (if full_len < out_len then full_len else out_len);
              Some (take copy_n pa @ replicate (out_len - copy_n) 0, st)
            })"

definition gf64_addfft64_poly_mul_batch_shared_core ::
  "allocator \<Rightarrow> nat \<Rightarrow> gf64_t list list \<Rightarrow> nat \<Rightarrow> gf64_t list \<Rightarrow> nat \<Rightarrow> gf64_t list \<Rightarrow> nat \<Rightarrow> nat \<Rightarrow> nat \<Rightarrow>
    bool \<Rightarrow> hqc_state \<Rightarrow> (gf64_t list list \<times> hqc_state) option" where
  "gf64_addfft64_poly_mul_batch_shared_core alloc t outs K shared len_shared f len_f out_len scratch_words
      use_avx512 st =
    (if K = 0 then Some (outs, st)
     else if len_shared = 0 \<or> len_f = 0 \<or> out_len = 0
     then Some (fold (\<lambda>k outs. outs[k := replicate out_len 0]) [0..<K] outs, st)
     else
       let full_len = len_shared + len_f - 1;
           full_len = (if full_len < out_len then out_len else full_len);
           n = next_pow2_size full_len;
           fwd = (if use_avx512 then gf64_addfft64_fwd_recursive_scratch_avx512
             else gf64_addfft64_fwd_recursive_scratch);
           inv = (if use_avx512 then gf64_addfft64_inv_recursive_scratch_avx512
             else gf64_addfft64_inv_recursive_scratch)
       in if \<not> (n \<le> GF64_HQC_MAX_LM_N \<and> scratch_words \<ge> gf64_addfft64_poly_mul_recursive_scratch_words n)
          then None
          else if scratch_words < 2 * n then None
          else do {
            (pt, st) \<leftarrow> fwd alloc t (take len_shared shared @ replicate (n - len_shared) 0) n (2 * n) st;
            fold (\<lambda>k r. do {
                (outs, st) \<leftarrow> r;
                let fk = drop (k * len_f) f;
                (pf, st) \<leftarrow> fwd alloc t (take len_f fk @ replicate (n - len_f) 0) n (2 * n) st;
                let pf = fold (\<lambda>i pf. pf[i := gf64_mul_reference (pf ! i) (pt ! i)]) [0..<n] pf;
                (pf, st) \<leftarrow> inv alloc t pf n (2 * n) st;
                let copy_n = (if full_len < out_len then full_len else out_len);
                Some (outs[k := take copy_n pf @ replicate (out_len - copy_n) 0], st)
              }) [0..<K] (Some (outs, st))
          })"

definition gf64_addfft64_poly_mul_batch_shared ::
  "allocator \<Rightarrow> nat \<Rightarrow> gf64_t list list \<Rightarrow> nat \<Rightarrow> gf64_t list \<Rightarrow> nat \<Rightarrow> gf64_t list \<Rightarrow> nat \<Rightarrow> nat \<Rightarrow> nat \<Rightarrow>
    hqc_state \<Rightarrow> (gf64_t list list \<times> hqc_state) option" where
  "gf64_addfft64_poly_mul_batch_shared alloc t outs K shared len_shared f len_f out_len scratch_words st =
    gf64_addfft64_poly_mul_batch_shared_core alloc t outs K shared len_shared f len_f out_len scratch_words
      False st"

definition gf64_addfft64_poly_mul_batch_shared_avx512 ::
  "allocator \<Rightarrow> nat \<Rightarrow> gf64_t list list \<Rightarrow> nat \<Rightarrow> gf64_t list \<Rightarrow> nat \<Rightarrow> gf64_t list \<Rightarrow> nat \<Rightarrow> nat \<Rightarrow> nat \<Rightarrow>
    hqc_state \<Rightarrow> (gf64_t list list \<times> hqc_state) option" where
  "gf64_addfft64_poly_mul_batch_shared_avx512 alloc t outs K shared len_shared f len_f out_len scratch_words st =
    gf64_addfft64_poly_mul_batch_shared_core alloc t outs K shared len_shared f len_f out_len scratch_words
      True st"

section \<open>The change of basis is a bijection\<close>

lemma novel_eval_inject:
  assumes len: "length g = 2 ^ L" "length h = 2 ^ L" and L: "L \<le> 20" and eq: "novel_eval L g = novel_eval L h"
  shows "g = h"
proof (cases "L = 0")
  case True
  with len fun_cong [OF eq, of 0] show ?thesis
    by (auto simp: novel_eval_def length_Suc_conv)
next
  case False
  define vt where "vt = \<lparr>vt_addr = 0, vt_words = points (2 ^ L)\<rparr>"
  have reg: "registry_ok [] vt (2 ^ L)"
    using L power_increasing [of L 20 "2::nat"] by (simp add: registry_ok_def vt_def)
  have "butterfly_fwd [] f (2 ^ L) (2 ^ L) (compute_v_j 0) vt L = Some (coset_values (2 ^ L) (novel_eval L f) (W 0))"
    if "length f = 2 ^ L" for f
    by (rule butterfly_fwd_correct [OF reg L]) (use False that in auto)
  with len eq show ?thesis
    by (metis butterfly_inv_fwd option.inject)
qed

lemma cvt_icvt:
  assumes "length g = 2 ^ L" "L \<le> 20"
  shows "basisCvt_recursive_v2 (ibasisCvt_recursive_v2 g (2 ^ L)) (2 ^ L) = g"
proof (rule novel_eval_inject [OF _ assms])
  note i = ibasisCvt_recursive_v2_correct [OF assms(1)]
  show "length (basisCvt_recursive_v2 (ibasisCvt_recursive_v2 g (2 ^ L)) (2 ^ L)) = 2 ^ L"
    by (rule basisCvt_recursive_v2_correct(1) [OF i(1)])
  show "novel_eval L (basisCvt_recursive_v2 (ibasisCvt_recursive_v2 g (2 ^ L)) (2 ^ L)) = novel_eval L g"
    by (rule ext) (simp only: basisCvt_recursive_v2_correct(2) [OF i(1)] i(2))
qed

lemma icvt_cvt:
  assumes "length f = 2 ^ L" "L \<le> 20"
  shows "ibasisCvt_recursive_v2 (basisCvt_recursive_v2 f (2 ^ L)) (2 ^ L) = f"
proof -
  let ?S = "{xs :: gf64_t list. length xs = 2 ^ L}" and ?i = "\<lambda>g. ibasisCvt_recursive_v2 g (2 ^ L)"
  have "finite ?S" using finite_lists_length_eq [of "UNIV :: gf64_t set" "2 ^ L"] by simp
  moreover have "?i ` ?S \<subseteq> ?S"
    by (rule image_subsetI) (rule CollectI, rule ibasisCvt_recursive_v2_correct(1), erule CollectD)
  moreover have "inj_on ?i ?S"
    by (rule inj_on_inverseI) (rule cvt_icvt, erule CollectD, rule assms(2))
  ultimately have "?i ` ?S = ?S" by (rule endo_inj_surj)
  then obtain g where "length g = 2 ^ L" "f = ?i g" using assms(1) by blast
  then show ?thesis by (simp only: cvt_icvt [OF _ assms(2)])
qed

section \<open>The transforms\<close>

definition transform_values :: "nat \<Rightarrow> ser \<Rightarrow> gf64_t list" where
  "transform_values L f = coset_values (2 ^ L) (eval (2 ^ L) f) (cantor (L - 1))"

lemma length_transform_values [simp]: "length (transform_values L f) = 2 ^ L"
  by (simp add: transform_values_def)

lemma basis_point: "0 < L \<Longrightarrow> L \<le> 20 \<Longrightarrow>
    GF64_CANTOR_BASIS ! (L - 1) = compute_v_j (2 ^ (L - 1)) \<and> W (2 ^ (L - 1)) = cantor (L - 1)"
  using W_power [of "L - 1"] by (auto simp: cantor_def W_def)

text \<open>What a caller has to provide: a consistent table state and an allocator that keeps its promise.\<close>

definition hqc_ready :: "allocator \<Rightarrow> hqc_state \<Rightarrow> bool" where
  "hqc_ready alloc st \<longleftrightarrow> allocator_ok alloc \<and> tables_ok st"

lemma exp_le_20: "L \<le> 20 \<Longrightarrow> (2::nat) ^ L \<le> 2 ^ 20"
  by (rule power_increasing) simp_all

lemma two_le_exp: "0 < L \<Longrightarrow> \<not> (2::nat) ^ L \<le> 1"
  by (cases L) (simp_all add: exp_gt_1)

lemma table_for:
  assumes "hqc_ready alloc st" "L \<le> 20"
  obtains vt st' where "get_or_build_v_table alloc t (2 ^ L) st = Some (vt, st')" "hqc_ready alloc st'"
    "registry_ok (hqc_vindex st') vt (2 ^ L)"
  using get_or_build_v_table_ok [of st alloc "2 ^ L" t] assms exp_le_20 by (auto simp: hqc_ready_def)

lemma butterfly_values:
  assumes reg: "registry_ok reg vt (2 ^ L)" and L: "0 < L" "L \<le> 20" and f: "length f = 2 ^ L"
  shows "butterfly_fwd reg (basisCvt_recursive_v2 f (2 ^ L)) (2 ^ L) (2 ^ L) (GF64_CANTOR_BASIS ! (L - 1)) vt L =
      Some (transform_values L (of_coeffs f))"
    and "butterfly_inv reg (transform_values L (of_coeffs f)) (2 ^ L) (2 ^ L) (GF64_CANTOR_BASIS ! (L - 1)) vt L =
      Some (basisCvt_recursive_v2 f (2 ^ L))"
proof -
  note b = basisCvt_recursive_v2_correct(1) [OF f]
  note p = conjunct1 [OF basis_point [OF L]] conjunct2 [OF basis_point [OF L]]
  have eval: "novel_eval L (basisCvt_recursive_v2 f (2 ^ L)) = eval (2 ^ L) (of_coeffs f)"
    by (rule ext) (rule basisCvt_recursive_v2_correct(2) [OF f])
  have "butterfly_fwd reg (basisCvt_recursive_v2 f (2 ^ L)) (2 ^ L) (2 ^ L) (compute_v_j (2 ^ (L - 1))) vt L =
      Some (coset_values (2 ^ L) (novel_eval L (basisCvt_recursive_v2 f (2 ^ L))) (W (2 ^ (L - 1))))"
    using L b by (intro butterfly_fwd_correct [OF reg]) (auto intro: power_strict_increasing)
  then show fwd: "butterfly_fwd reg (basisCvt_recursive_v2 f (2 ^ L)) (2 ^ L) (2 ^ L) (GF64_CANTOR_BASIS ! (L - 1)) vt L =
      Some (transform_values L (of_coeffs f))"
    by (simp only: p transform_values_def eval)
  show "butterfly_inv reg (transform_values L (of_coeffs f)) (2 ^ L) (2 ^ L) (GF64_CANTOR_BASIS ! (L - 1)) vt L =
      Some (basisCvt_recursive_v2 f (2 ^ L))"
    using butterfly_inv_fwd [OF fwd b refl] by simp
qed

lemma fwd_recursive_correct:
  assumes "hqc_ready alloc st" "0 < L" "L \<le> 20" "length f = 2 ^ L" "2 * 2 ^ L \<le> sw"
  obtains st' where "gf64_addfft64_fwd_recursive_scratch alloc t f (2 ^ L) sw st =
      Some (transform_values L (of_coeffs f), st')" "hqc_ready alloc st'"
proof -
  obtain vt st' where st': "get_or_build_v_table alloc t (2 ^ L) st = Some (vt, st')" "hqc_ready alloc st'"
    "registry_ok (hqc_vindex st') vt (2 ^ L)" using table_for [OF assms(1,3)] .
  with assms two_le_exp exp_le_20 show ?thesis
    by (intro that [OF _ st'(2)])
      (simp add: gf64_addfft64_fwd_recursive_scratch_def gf64_addfft64_fwd_recursive_scratch_words_def
        GF64_HQC_MAX_LM_N_def Let_def butterfly_values(1) [unfolded One_nat_def])
qed

lemma inv_recursive_correct:
  assumes "hqc_ready alloc st" "0 < L" "L \<le> 20" "length f = 2 ^ L" "2 * 2 ^ L \<le> sw"
  obtains st' where "gf64_addfft64_inv_recursive_scratch alloc t (transform_values L (of_coeffs f)) (2 ^ L) sw st =
      Some (f, st')" "hqc_ready alloc st'"
proof -
  obtain vt st' where st': "get_or_build_v_table alloc t (2 ^ L) st = Some (vt, st')" "hqc_ready alloc st'"
    "registry_ok (hqc_vindex st') vt (2 ^ L)" using table_for [OF assms(1,3)] .
  with assms two_le_exp exp_le_20 show ?thesis
    by (intro that [OF _ st'(2)])
      (simp add: gf64_addfft64_inv_recursive_scratch_def gf64_addfft64_inv_recursive_scratch_words_def
        GF64_HQC_MAX_LM_N_def Let_def butterfly_values(2) [unfolded One_nat_def] icvt_cvt)
qed

lemma fwd_avx512_eq:
  assumes "length f = 2 ^ L"
  shows "gf64_addfft64_fwd_recursive_scratch_avx512 alloc t f (2 ^ L) sw st =
    gf64_addfft64_fwd_recursive_scratch alloc t f (2 ^ L) sw st"
  using basisCvt_recursive_v2_correct(1) [OF assms]
  by (simp add: gf64_addfft64_fwd_recursive_scratch_avx512_def gf64_addfft64_fwd_recursive_scratch_def
      butterfly_fwd_avx512_eq)

lemma inv_avx512_eq:
  assumes "length f = 2 ^ L"
  shows "gf64_addfft64_inv_recursive_scratch_avx512 alloc t f (2 ^ L) sw st =
    gf64_addfft64_inv_recursive_scratch alloc t f (2 ^ L) sw st"
  using assms
  by (simp add: gf64_addfft64_inv_recursive_scratch_avx512_def gf64_addfft64_inv_recursive_scratch_def
      butterfly_inv_avx512_eq)

section \<open>The products\<close>

lemma next_pow2_size_exp:
  obtains L where "next_pow2_size n = 2 ^ L" "n \<le> 2 ^ L"
  using next_pow2_size_power by blast

text \<open>Padding does not change the polynomial.\<close>

lemma padded:
  assumes "m \<le> length a" "m \<le> n"
  shows "length (take m a @ replicate (n - m) 0) = n" "of_coeffs (take m a @ replicate (n - m) 0) = poly a m"
    "below m (poly a m)"
  using assms below_of_coeffs [of "take m a"] by (simp_all add: of_coeffs_append min_absorb2)

lemma pointwise_fold:
  assumes "length x = n"
  shows "fold (\<lambda>i x. x[i := gf64_mul_reference (x ! i) (y ! i)]) [0..<n] x =
    map (\<lambda>i. gf64_mul_reference (x ! i) (y ! i)) [0..<n]"
  using fold_update_map [of n x "\<lambda>i u. gf64_mul_reference u (y ! i)"] assms by simp

lemma transform_product:
  assumes "below m f" "below k g" "m + k \<le> Suc (2 ^ L)" "m \<le> 2 ^ L" "k \<le> 2 ^ L"
  shows "map (\<lambda>i. gf64_mul_reference (transform_values L f ! i) (transform_values L g ! i)) [0..<2 ^ L] =
    transform_values L (of_coeffs (to_coeffs (2 ^ L) (f * g)))"
proof -
  have "eval (2 ^ L) (f * g) x = eval (2 ^ L) f x * eval (2 ^ L) g x" for x
    by (simp only: eval_mult [OF assms(1-3)] eval_extend [OF assms(1,4)] eval_extend [OF assms(2,5)])
  moreover have "of_coeffs (to_coeffs (2 ^ L) (f * g)) = f * g"
    by (simp add: trunc_below [OF below_mult [OF assms(1-3)]])
  moreover have "gf64_mul_reference (gf_rep u) (gf_rep v) = gf_rep (u * v)" for u v
    by (rule gf.inject [THEN iffD1]) (simp add: Gf_mul_reference)
  ultimately show ?thesis
    by (intro nth_equalityI) (simp_all add: transform_values_def coset_values_def)
qed

lemma product_transform:
  assumes ready: "hqc_ready alloc st" and L: "0 < L" "L \<le> 20" and sw: "2 * 2 ^ L \<le> sw"
    and fg: "below m f" "below k g" "m + k \<le> Suc (2 ^ L)" "m \<le> 2 ^ L" "k \<le> 2 ^ L"
  obtains st' where "gf64_addfft64_inv_recursive_scratch alloc t
      (map (\<lambda>i. gf64_mul_reference (transform_values L f ! i) (transform_values L g ! i)) [0..<2 ^ L])
      (2 ^ L) sw st = Some (to_coeffs (2 ^ L) (f * g), st')" "hqc_ready alloc st'"
  using inv_recursive_correct [OF ready L _ sw, of "to_coeffs (2 ^ L) (f * g)" t]
  unfolding transform_product [OF fg] by auto

text \<open>The same with the size-1 transform, which is the identity.\<close>

definition spectrum :: "nat \<Rightarrow> gf64_t list \<Rightarrow> gf64_t list" where
  "spectrum L f = (if L = 0 then f else transform_values L (of_coeffs f))"

lemma length_spectrum: "length f = 2 ^ L \<Longrightarrow> length (spectrum L f) = 2 ^ L"
  by (simp add: spectrum_def)

lemma fwd_spectrum:
  assumes "hqc_ready alloc st" "L \<le> 20" "length f = 2 ^ L"
  obtains st' where "gf64_addfft64_fwd_recursive_scratch alloc t f (2 ^ L) (2 * 2 ^ L) st =
      Some (spectrum L f, st')" "hqc_ready alloc st'"
proof (cases "L = 0")
  case True
  with assms that [of st] show ?thesis by (simp add: gf64_addfft64_fwd_recursive_scratch_def spectrum_def)
next
  case False
  then show ?thesis
    using fwd_recursive_correct [OF assms(1) _ assms(2,3) order_refl] that by (auto simp: spectrum_def)
qed

lemma inv_spectrum:
  assumes ready: "hqc_ready alloc st" and L: "L \<le> 20" and len: "length A = 2 ^ L" "length B = 2 ^ L"
    and AB: "below m (of_coeffs A)" "below k (of_coeffs B)" "m + k \<le> Suc (2 ^ L)" "m \<le> 2 ^ L" "k \<le> 2 ^ L"
  obtains st' where "gf64_addfft64_inv_recursive_scratch alloc t
      (map (\<lambda>i. gf64_mul_reference (spectrum L A ! i) (spectrum L B ! i)) [0..<2 ^ L]) (2 ^ L) (2 * 2 ^ L) st =
      Some (to_coeffs (2 ^ L) (of_coeffs A * of_coeffs B), st')" "hqc_ready alloc st'"
proof (cases "L = 0")
  case True
  with len obtain u v where uv: "A = [u]" "B = [v]" by (auto simp: length_Suc_conv)
  have "to_coeffs (2 ^ L) (of_coeffs A * of_coeffs B) = [gf64_mul_reference u v]"
    using True by (simp add: to_coeffs_def uv cf_mult coef_def flip: Gf_mul_reference)
  with True ready that [of st] show ?thesis
    by (simp add: gf64_addfft64_inv_recursive_scratch_def spectrum_def uv)
next
  case False
  then show ?thesis
    using product_transform [OF ready _ L order_refl AB] that by (auto simp: spectrum_def)
qed

lemma take_product:
  assumes "out_len \<le> n"
  shows "take out_len (to_coeffs n f) = to_coeffs out_len f"
  using assms by (intro nth_equalityI) simp_all

lemma product_words_0: "m = 0 \<or> k = 0 \<or> n = 0 \<Longrightarrow> product_words a m b k n = replicate n 0"
  by (intro nth_equalityI) (auto simp: product_words_def)

text \<open>The sizes of a product that the transform serves.\<close>

definition hqc_fits :: "nat \<Rightarrow> nat \<Rightarrow> nat \<Rightarrow> nat \<Rightarrow> bool" where
  "hqc_fits sw m k out_len \<longleftrightarrow> m = 0 \<or> k = 0 \<or> out_len = 0 \<or>
    max (m + k - 1) out_len \<le> 2 ^ 20 \<and> 4 * next_pow2_size (max (m + k - 1) out_len) \<le> sw"

lemma next_pow2_from_least:
  "p = 2 ^ j \<Longrightarrow> j \<le> k \<Longrightarrow> n \<le> 2 ^ k \<Longrightarrow> next_pow2_from p n \<le> 2 ^ k"
proof (induction p n arbitrary: j rule: next_pow2_from.induct)
  case (1 p n)
  show ?case
  proof (cases "p < n")
    case True
    with 1(2,4) have "(2::nat) ^ j < 2 ^ k" by linarith
    then have "j < k" by (rule power_less_imp_less_exp [rotated]) simp
    then have "Suc j \<le> k" by simp
    with 1 True have "next_pow2_from (2 * p) n \<le> 2 ^ k" by (intro "1.IH" [of "Suc j"]) auto
    moreover have "next_pow2_from p n = next_pow2_from (2 * p) n"
      using True 1(2) by (subst next_pow2_from.simps) simp
    ultimately show ?thesis by simp
  next
    case False
    then have "next_pow2_from p n = p" by (subst next_pow2_from.simps) simp
    with 1 show ?thesis by simp
  qed
qed

lemma next_pow2_size_le: "n \<le> 2 ^ k \<Longrightarrow> next_pow2_size n \<le> 2 ^ k"
  unfolding next_pow2_size_def by (rule next_pow2_from_least [of _ 0]) simp_all

lemma next_pow2_size_1 [simp]: "next_pow2_size (Suc 0) = 1"
  by (simp add: next_pow2_size_def next_pow2_from.simps)

text \<open>What a product needs to know about its padded size.\<close>

lemma hqc_fits_size:
  assumes "hqc_fits sw m k out_len" "0 < m" "0 < k" "0 < out_len"
  obtains L where "next_pow2_size (if m + k - 1 < out_len then out_len else m + k - 1) = 2 ^ L" "L \<le> 20"
    "4 * 2 ^ L \<le> sw" "m + k \<le> Suc (2 ^ L)" "out_len \<le> 2 ^ L" "m \<le> 2 ^ L" "k \<le> 2 ^ L"
    "gf64_addfft64_poly_mul_recursive_scratch_words (2 ^ L) \<le> sw" "2 ^ L \<le> GF64_HQC_MAX_LM_N" "\<not> sw < 2 * 2 ^ L"
proof -
  define full_len where "full_len = max (m + k - 1) out_len"
  have full: "(if m + k - 1 < out_len then out_len else m + k - 1) = full_len"
    by (auto simp: full_len_def)
  obtain L where n: "next_pow2_size full_len = 2 ^ L" "full_len \<le> 2 ^ L" by (rule next_pow2_size_exp)
  have "next_pow2_size full_len \<le> 2 ^ 20"
    using assms by (intro next_pow2_size_le) (auto simp: hqc_fits_def full_len_def)
  then have L: "L \<le> 20" unfolding n(1) by (rule power_le_imp_le_exp [rotated]) simp
  have sw: "4 * 2 ^ L \<le> sw" using assms n(1) by (auto simp: hqc_fits_def full_len_def)
  then have "gf64_addfft64_poly_mul_recursive_scratch_words (2 ^ L) \<le> sw" "2 ^ L \<le> GF64_HQC_MAX_LM_N" "\<not> sw < 2 * 2 ^ L"
    using exp_le_20 [OF L] by (simp_all add: gf64_addfft64_poly_mul_recursive_scratch_words_def GF64_HQC_MAX_LM_N_def)
  with that [of L] n sw L assms(2-4) show ?thesis unfolding full by (auto simp: full_len_def)
qed

lemma poly_mul_recursive_correct:
  assumes ready: "hqc_ready alloc st" and fits: "hqc_fits sw len_a len_b out_len"
    and len: "len_a \<le> length a" "len_b \<le> length b"
  obtains st' where "gf64_addfft64_poly_mul_recursive_scratch alloc t a len_a b len_b out_len sw st =
    Some (product_words a len_a b len_b out_len, st')" "hqc_ready alloc st'"
proof (cases "len_a = 0 \<or> len_b = 0 \<or> out_len = 0")
  case True
  then show ?thesis
    using that ready by (auto simp: gf64_addfft64_poly_mul_recursive_scratch_def product_words_0)
next
  case False
  then have pos: "0 < len_a" "0 < len_b" "0 < out_len" by auto
  obtain L where n: "next_pow2_size (if len_a + len_b - 1 < out_len then out_len else len_a + len_b - 1) = 2 ^ L"
    and L: "L \<le> 20" and le: "len_a + len_b \<le> Suc (2 ^ L)" "out_len \<le> 2 ^ L" "len_a \<le> 2 ^ L" "len_b \<le> 2 ^ L"
    and words: "gf64_addfft64_poly_mul_recursive_scratch_words (2 ^ L) \<le> sw" "2 ^ L \<le> GF64_HQC_MAX_LM_N" "\<not> sw < 2 * 2 ^ L"
    by (rule hqc_fits_size [OF fits pos])
  define A B where "A = take len_a a @ replicate (2 ^ L - len_a) 0" and "B = take len_b b @ replicate (2 ^ L - len_b) 0"
  note A = padded [OF len(1) le(3), folded A_def] and B = padded [OF len(2) le(4), folded B_def]
  obtain st2 where fa: "gf64_addfft64_fwd_recursive_scratch alloc t A (2 ^ L) (2 * 2 ^ L) st =
      Some (spectrum L A, st2)" "hqc_ready alloc st2"
    using fwd_spectrum [OF ready L A(1)] .
  obtain st3 where fb: "gf64_addfft64_fwd_recursive_scratch alloc t B (2 ^ L) (2 * 2 ^ L) st2 =
      Some (spectrum L B, st3)" "hqc_ready alloc st3"
    using fwd_spectrum [OF fa(2) L B(1)] .
  obtain st4 where inv: "gf64_addfft64_inv_recursive_scratch alloc t (map (\<lambda>i. gf64_mul_reference
      (spectrum L A ! i) (spectrum L B ! i)) [0..<2 ^ L]) (2 ^ L) (2 * 2 ^ L) st3 =
      Some (to_coeffs (2 ^ L) (of_coeffs A * of_coeffs B), st4)" "hqc_ready alloc st4"
    using inv_spectrum [OF fb(2) L A(1) B(1), of len_a len_b] A(2,3) B(2,3) le by auto
  have "gf64_addfft64_poly_mul_recursive_scratch alloc t a len_a b len_b out_len sw st =
      Some (take out_len (to_coeffs (2 ^ L) (of_coeffs A * of_coeffs B)), st4)"
    using False words unfolding gf64_addfft64_poly_mul_recursive_scratch_def Let_def n
    by (simp add: A_def [symmetric] B_def [symmetric] fa fb pointwise_fold [OF length_spectrum [OF A(1)]] inv)
  then show ?thesis using that inv(2) by (simp add: take_product [OF le(2)] product_words_def A(2) B(2))
qed

section \<open>The AVX-512 products and the batch\<close>

lemma poly_mul_recursive_avx512_correct:
  assumes ready: "hqc_ready alloc st" and fits: "hqc_fits sw len_a len_b out_len"
    and len: "len_a \<le> length a" "len_b \<le> length b"
  shows "gf64_addfft64_poly_mul_recursive_scratch_avx512 alloc t a len_a b len_b out_len sw st =
    gf64_addfft64_poly_mul_recursive_scratch alloc t a len_a b len_b out_len sw st"
proof (cases "len_a = 0 \<or> len_b = 0 \<or> out_len = 0")
  case True
  then show ?thesis
    by (auto simp: gf64_addfft64_poly_mul_recursive_scratch_def gf64_addfft64_poly_mul_recursive_scratch_avx512_def)
next
  case False
  then have pos: "0 < len_a" "0 < len_b" "0 < out_len" by auto
  obtain L where n: "next_pow2_size (if len_a + len_b - 1 < out_len then out_len else len_a + len_b - 1) = 2 ^ L"
    and L: "L \<le> 20" and le: "len_a \<le> 2 ^ L" "len_b \<le> 2 ^ L" and words: "\<not> sw < 2 * 2 ^ L"
    by (rule hqc_fits_size [OF fits pos])
  define A B where "A = take len_a a @ replicate (2 ^ L - len_a) 0" and "B = take len_b b @ replicate (2 ^ L - len_b) 0"
  note A = padded(1) [OF len(1) le(1), folded A_def] and B = padded(1) [OF len(2) le(2), folded B_def]
  obtain st2 where fa: "gf64_addfft64_fwd_recursive_scratch alloc t A (2 ^ L) (2 * 2 ^ L) st =
      Some (spectrum L A, st2)" "hqc_ready alloc st2"
    using fwd_spectrum [OF ready L A] .
  obtain st3 where fb: "gf64_addfft64_fwd_recursive_scratch alloc t B (2 ^ L) (2 * 2 ^ L) st2 =
      Some (spectrum L B, st3)" "hqc_ready alloc st3"
    using fwd_spectrum [OF fa(2) L B] .
  show ?thesis
    using False words unfolding gf64_addfft64_poly_mul_recursive_scratch_def
      gf64_addfft64_poly_mul_recursive_scratch_avx512_def Let_def n
    by (simp add: A_def [symmetric] B_def [symmetric] fwd_avx512_eq [OF A] fwd_avx512_eq [OF B]
        inv_avx512_eq fa fb pointwise_fold [OF length_spectrum [OF A]])
qed

text \<open>The batch: the product of every word with the shared operand.\<close>

definition batch_products ::
  "gf64_t list list \<Rightarrow> nat \<Rightarrow> gf64_t list \<Rightarrow> nat \<Rightarrow> gf64_t list \<Rightarrow> nat \<Rightarrow> nat \<Rightarrow> gf64_t list list" where
  "batch_products outs K shared len_shared f len_f out_len =
    map (\<lambda>k. product_words shared len_shared (drop (k * len_f) f) len_f out_len) [0..<K] @ drop K outs"

lemma fold_option_step:
  assumes "\<And>k s. \<lbrakk>k < K; P k s\<rbrakk> \<Longrightarrow> \<exists>s'. g k s = Some s' \<and> P (Suc k) s'" and "P 0 s"
  shows "\<exists>s'. fold (\<lambda>k r. r \<bind> g k) [0..<K] (Some s) = Some s' \<and> P K s'"
  using assms
proof (induction K)
  case (Suc K)
  from Suc.IH [OF Suc.prems(1) Suc.prems(2)] obtain s' where
    "fold (\<lambda>k r. r \<bind> g k) [0..<K] (Some s) = Some s'" "P K s'" by auto
  with Suc.prems(1) [of K s'] show ?case by auto
qed simp

lemma batch_products_Suc:
  assumes "K < length outs"
  shows "(batch_products outs K shared ls f lf n)[K := product_words shared ls (drop (K * lf) f) lf n] =
    batch_products outs (Suc K) shared ls f lf n"
  unfolding batch_products_def using assms
  by (simp add: list_update_append upd_conv_take_nth_drop drop_Suc_Cons flip: Cons_nth_drop_Suc)

lemma batch_shared_core_correct:
  assumes ready: "hqc_ready alloc st" and fits: "hqc_fits sw len_shared len_f out_len"
    and len: "len_shared \<le> length shared" "K * len_f \<le> length f" "K \<le> length outs"
  obtains st' where "gf64_addfft64_poly_mul_batch_shared_core alloc t outs K shared len_shared f len_f out_len
      sw use_avx512 st = Some (batch_products outs K shared len_shared f len_f out_len, st')" "hqc_ready alloc st'"
proof (cases "K = 0 \<or> len_shared = 0 \<or> len_f = 0 \<or> out_len = 0")
  case True
  then show ?thesis
    using len(3) by (intro that [OF _ ready])
      (auto simp: gf64_addfft64_poly_mul_batch_shared_core_def batch_products_def fold_const_update_map
        product_words_0)
next
  case False
  then have pos: "0 < len_shared" "0 < len_f" "0 < out_len" and K: "0 < K" by auto
  obtain L where n: "next_pow2_size (if len_shared + len_f - 1 < out_len then out_len else len_shared + len_f - 1) = 2 ^ L"
    and L: "L \<le> 20" and sum: "len_shared + len_f \<le> Suc (2 ^ L)" and out: "out_len \<le> 2 ^ L"
    and le: "len_shared \<le> 2 ^ L" "len_f \<le> 2 ^ L"
    and words: "gf64_addfft64_poly_mul_recursive_scratch_words (2 ^ L) \<le> sw" "2 ^ L \<le> GF64_HQC_MAX_LM_N" "\<not> sw < 2 * 2 ^ L"
    by (rule hqc_fits_size [OF fits pos])
  define A where "A = take len_shared shared @ replicate (2 ^ L - len_shared) 0"
  note A = padded [OF len(1) le(1), folded A_def]
  define fwd where "fwd = (if use_avx512 then gf64_addfft64_fwd_recursive_scratch_avx512
             else gf64_addfft64_fwd_recursive_scratch)"
  define inv where "inv = (if use_avx512 then gf64_addfft64_inv_recursive_scratch_avx512
             else gf64_addfft64_inv_recursive_scratch)"
  have scalar: "fwd alloc t g (2 ^ L) (2 * 2 ^ L) s = gf64_addfft64_fwd_recursive_scratch alloc t g (2 ^ L) (2 * 2 ^ L) s"
    "inv alloc t g (2 ^ L) (2 * 2 ^ L) s = gf64_addfft64_inv_recursive_scratch alloc t g (2 ^ L) (2 * 2 ^ L) s"
    if "length g = 2 ^ L" for g s
    using that by (simp_all add: fwd_def inv_def fwd_avx512_eq inv_avx512_eq)
  obtain st2 where fa: "fwd alloc t A (2 ^ L) (2 * 2 ^ L) st = Some (spectrum L A, st2)" "hqc_ready alloc st2"
    using fwd_spectrum [OF ready L A(1)] unfolding scalar [OF A(1)] .
  define copy_n where "copy_n = (if (if len_shared + len_f - 1 < out_len then out_len else len_shared + len_f - 1) < out_len
    then (if len_shared + len_f - 1 < out_len then out_len else len_shared + len_f - 1) else out_len)"
  have copy_n: "copy_n = out_len" by (auto simp: copy_n_def)
  define g where "g = (\<lambda>k (outs :: gf64_t list list, st). do {
      (pf, st) \<leftarrow> fwd alloc t (take len_f (drop (k * len_f) f) @ replicate (2 ^ L - len_f) 0) (2 ^ L) (2 * 2 ^ L) st;
      (pf, st) \<leftarrow> inv alloc t (fold (\<lambda>i pf. pf[i := gf64_mul_reference (pf ! i) (spectrum L A ! i)]) [0..<2 ^ L] pf)
        (2 ^ L) (2 * 2 ^ L) st;
      Some (outs[k := take copy_n pf @ replicate (out_len - copy_n) 0], st)})"
  have step: "\<exists>s'. g k s = Some s' \<and> (fst s' = batch_products outs (Suc k) shared len_shared f len_f out_len \<and> hqc_ready alloc (snd s'))"
    if k: "k < K" and s: "fst s = batch_products outs k shared len_shared f len_f out_len \<and> hqc_ready alloc (snd s)" for k s
  proof -
    obtain o1 s1 where s1: "s = (o1, s1)" by (rule prod.exhaust)
    with s have o1: "o1 = batch_products outs k shared len_shared f len_f out_len" and ready1: "hqc_ready alloc s1" by simp_all
    have "Suc k * len_f \<le> K * len_f" using k by (intro mult_le_mono1) simp
    with len(2) have "len_f \<le> length (drop (k * len_f) f)" by simp
    define B where "B = take len_f (drop (k * len_f) f) @ replicate (2 ^ L - len_f) 0"
    note B = padded [OF \<open>len_f \<le> length (drop (k * len_f) f)\<close> le(2), folded B_def]
    obtain s2 where fb: "fwd alloc t B (2 ^ L) (2 * 2 ^ L) s1 = Some (spectrum L B, s2)" "hqc_ready alloc s2"
      using fwd_spectrum [OF ready1 L B(1)] unfolding scalar [OF B(1)] .
    have "length (map (\<lambda>i. gf64_mul_reference (spectrum L B ! i) (spectrum L A ! i)) [0..<2 ^ L]) = 2 ^ L" by simp
    note scalar_inv = scalar(2) [OF this]
    obtain s3 where inv: "inv alloc t (map (\<lambda>i. gf64_mul_reference
        (spectrum L B ! i) (spectrum L A ! i)) [0..<2 ^ L]) (2 ^ L) (2 * 2 ^ L) s2 =
        Some (to_coeffs (2 ^ L) (of_coeffs B * of_coeffs A), s3)" "hqc_ready alloc s3"
      using inv_spectrum [OF fb(2) L B(1) A(1), of len_f len_shared t] A(2,3) B(2,3) le sum
      unfolding scalar_inv by (auto simp: add.commute)
    have "g k s = Some (o1[k := take out_len (to_coeffs (2 ^ L) (of_coeffs B * of_coeffs A))], s3)"
      by (simp add: g_def s1 copy_n B_def [symmetric] fb(1) pointwise_fold [OF length_spectrum [OF B(1)]] inv(1))
    moreover have "take out_len (to_coeffs (2 ^ L) (of_coeffs B * of_coeffs A)) =
        product_words shared len_shared (drop (k * len_f) f) len_f out_len"
      by (simp add: take_product [OF out] product_words_def A(2) B(2) mult.commute)
    ultimately show ?thesis using inv(2) len(3) k by (simp add: o1 batch_products_Suc)
  qed
  from fold_option_step [of K "\<lambda>k s. fst s = batch_products outs k shared len_shared f len_f out_len \<and>
      hqc_ready alloc (snd s)" g "(outs, st2)"] step fa(2)
  obtain s' where s': "fold (\<lambda>k r. r \<bind> g k) [0..<K] (Some (outs, st2)) = Some s'"
    "fst s' = batch_products outs K shared len_shared f len_f out_len" "hqc_ready alloc (snd s')"
    by (auto simp: batch_products_def)
  have "gf64_addfft64_poly_mul_batch_shared_core alloc t outs K shared len_shared f len_f out_len sw use_avx512 st =
      fold (\<lambda>k r. r \<bind> g k) [0..<K] (Some (outs, st2))"
    using pos K words
    unfolding gf64_addfft64_poly_mul_batch_shared_core_def Let_def n fwd_def [symmetric] inv_def [symmetric]
      A_def [symmetric] copy_n_def [symmetric] g_def
    by (simp add: fa(1))
  with s' that show ?thesis by (cases s') auto
qed

interpretation hqc: poly_multiplier
  "\<lambda>a m b n k. map_option fst (gf64_addfft64_poly_mul_recursive_scratch alloc t a m b n k sw st)"
  "\<lambda>m n k. hqc_ready alloc st \<and> hqc_fits sw m n k" for alloc t sw st
proof
  fix m n k and a b :: "gf64_t list"
  assume "hqc_ready alloc st \<and> hqc_fits sw m n k" "m \<le> length a" "n \<le> length b"
  then show "map_option fst (gf64_addfft64_poly_mul_recursive_scratch alloc t a m b n k sw st) =
      Some (product_words a m b n k)"
    using poly_mul_recursive_correct [of alloc st sw m n k a b t] by auto
qed

end
