(* ===== verification/Poly_Product.thy ===== *)
theory Poly_Product
  imports HQC_Transform CPU_Detect
begin

text \<open>
  The polynomial products that the rest of the program calls, \<open>gf64_poly_mul\<close> and
  \<open>gf64_poly_mul_padded\<close> of gf64/gf64_additive_fft.c: the checks of lengths and of overlapping
  memory, the three tiers of \<open>gf64_poly_mul_internal\<close> and the counters of the tiers. An abort or a
  failed assertion is None. A pointer is its address; an array is passed with its address where
  the code compares addresses.
\<close>

record gf64_dispatch_counts_t =
  schoolbook :: "64 word"
  karatsuba :: "64 word"
  toom3 :: "64 word"
  fft :: "64 word"
  hqc_fft :: "64 word"

record poly_globals =
  gf64_dispatch_counts :: gf64_dispatch_counts_t
  gf64_hqc_max_lm_n_override :: nat
  poly_method :: GF64Method
  hqc_tables :: hqc_state

definition GF64_POLY_MUL_INTERNAL_KARATSUBA_MIN :: nat where "GF64_POLY_MUL_INTERNAL_KARATSUBA_MIN = 128"

definition GF64_HQC_FFT_MIN :: nat where "GF64_HQC_FFT_MIN = 96"

definition SIZE_MAX :: nat where "SIZE_MAX = 2 ^ 64 - 1"

definition UINTPTR_MAX :: nat where "UINTPTR_MAX = 2 ^ 64 - 1"

definition gf64_dispatch_counts_reset :: "'a poly_globals_scheme \<Rightarrow> 'a poly_globals_scheme" where
  "gf64_dispatch_counts_reset g =
    g\<lparr>gf64_dispatch_counts := \<lparr>schoolbook = 0, karatsuba = 0, toom3 = 0, fft = 0, hqc_fft = 0\<rparr>\<rparr>"

text \<open>\<open>GF64_DISPATCH_COUNTER_INC\<close> on the counter of each tier\<close>

definition count_schoolbook :: "'a poly_globals_scheme \<Rightarrow> 'a poly_globals_scheme" where
  "count_schoolbook g = g\<lparr>gf64_dispatch_counts := (gf64_dispatch_counts g)
    \<lparr>schoolbook := schoolbook (gf64_dispatch_counts g) + 1\<rparr>\<rparr>"

definition count_karatsuba :: "'a poly_globals_scheme \<Rightarrow> 'a poly_globals_scheme" where
  "count_karatsuba g = g\<lparr>gf64_dispatch_counts := (gf64_dispatch_counts g)
    \<lparr>karatsuba := karatsuba (gf64_dispatch_counts g) + 1\<rparr>\<rparr>"

definition count_hqc_fft :: "'a poly_globals_scheme \<Rightarrow> 'a poly_globals_scheme" where
  "count_hqc_fft g = g\<lparr>gf64_dispatch_counts := (gf64_dispatch_counts g)
    \<lparr>hqc_fft := hqc_fft (gf64_dispatch_counts g) + 1\<rparr>\<rparr>"

section \<open>The checks\<close>

definition gf64_poly_product_len :: "nat \<Rightarrow> nat \<Rightarrow> nat option" where
  "gf64_poly_product_len len_a len_b =
    (if len_a = 0 \<or> len_b = 0 then Some 0
     else if len_a > SIZE_MAX - len_b + 1 then None
     else Some (len_a + len_b - 1))"

definition gf64_range_end :: "nat \<Rightarrow> nat \<Rightarrow> nat option" where
  "gf64_range_end ptr len =
    (if len > SIZE_MAX div 8 then None
     else let bytes = len * 8
       in if ptr > UINTPTR_MAX - bytes then None else Some (ptr + bytes))"

definition gf64_ranges_overlap :: "nat \<Rightarrow> nat \<Rightarrow> nat \<Rightarrow> nat \<Rightarrow> bool option" where
  "gf64_ranges_overlap left left_len right right_len =
    (if left_len = 0 \<or> right_len = 0 then Some False
     else do {
       left_end \<leftarrow> gf64_range_end left left_len;
       right_end \<leftarrow> gf64_range_end right right_len;
       Some (left < right_end \<and> right < left_end)
     })"

definition gf64_assert_no_output_alias :: "nat \<Rightarrow> nat \<Rightarrow> nat \<Rightarrow> nat \<Rightarrow> nat \<Rightarrow> nat \<Rightarrow> unit option" where
  "gf64_assert_no_output_alias out out_len a len_a b len_b = do {
     overlap_a \<leftarrow> gf64_ranges_overlap out out_len a len_a;
     overlap \<leftarrow> (if overlap_a then Some True else gf64_ranges_overlap out out_len b len_b);
     if overlap then None else Some ()
   }"

section \<open>The tiers\<close>

definition schoolbook_rows ::
  "gf64_t list \<Rightarrow> gf64_t list \<Rightarrow> nat \<Rightarrow> nat \<Rightarrow> nat \<Rightarrow> gf64_t list \<Rightarrow> gf64_t list" where
  "schoolbook_rows a b a_cap b_cap out_len out =
    fold (\<lambda>i out.
      let ai = a ! i
      in if ai = 0 then out
         else let j_max = (if b_cap < out_len - i then b_cap else out_len - i)
           in fold (\<lambda>j out. out[i + j := out ! (i + j) XOR gf64_mul_reference ai (b ! j)]) [0..<j_max] out)
      [0..<a_cap] out"

definition gf64_poly_mul_internal ::
  "allocator \<Rightarrow> nat \<Rightarrow> gf64_t list \<Rightarrow> nat \<Rightarrow> gf64_t list \<Rightarrow> nat \<Rightarrow> nat \<Rightarrow> 'a poly_globals_scheme \<Rightarrow>
    (gf64_t list \<times> 'a poly_globals_scheme) option" where
  "gf64_poly_mul_internal alloc t a len_a b len_b out_len g =
    (if out_len = 0 then Some ([], g)
     else
       let hqc_cap = (if gf64_hqc_max_lm_n_override g \<noteq> 0 then gf64_hqc_max_lm_n_override g else GF64_HQC_MAX_LM_N);
           max_len = (if len_a > len_b then len_a else len_b);
           full_len = 2 * max_len - 1;
           full_len = (if out_len > full_len then out_len else full_len)
       in if len_a \<ge> GF64_HQC_FFT_MIN \<and> len_b \<ge> GF64_HQC_FFT_MIN \<and> out_len \<ge> GF64_HQC_FFT_MIN \<and>
            len_a \<le> hqc_cap \<and> len_b \<le> hqc_cap \<and> full_len \<le> hqc_cap
          then
            let n_pad = next_pow2_from 1 full_len;
                sw = gf64_addfft64_poly_mul_recursive_scratch_words n_pad;
                g = count_hqc_fft g
            in do {
              (out, st) \<leftarrow>
                (if poly_method g = GF64_AVX512
                 then gf64_addfft64_poly_mul_recursive_scratch_avx512 alloc t a len_a b len_b out_len sw (hqc_tables g)
                 else gf64_addfft64_poly_mul_recursive_scratch alloc t a len_a b len_b out_len sw (hqc_tables g));
              Some (out, g\<lparr>hqc_tables := st\<rparr>)
            }
          else if len_a \<ge> GF64_POLY_MUL_INTERNAL_KARATSUBA_MIN \<and> len_b \<ge> GF64_POLY_MUL_INTERNAL_KARATSUBA_MIN \<and>
            out_len \<ge> GF64_POLY_MUL_INTERNAL_KARATSUBA_MIN
          then
            let g = count_karatsuba g
            in do { out \<leftarrow> gf64_poly_mul_karatsuba a len_a b len_b out_len; Some (out, g) }
          else
            let g = count_schoolbook g;
                out = replicate out_len 0;
                a_cap = (if len_a < out_len then len_a else out_len);
                b_cap = (if len_b < out_len then len_b else out_len)
            in Some (schoolbook_rows a b a_cap b_cap out_len out, g))"

definition gf64_poly_mul ::
  "allocator \<Rightarrow> nat \<Rightarrow> nat \<Rightarrow> nat \<times> gf64_t list \<Rightarrow> nat \<Rightarrow> nat \<times> gf64_t list \<Rightarrow> nat \<Rightarrow> 'a poly_globals_scheme \<Rightarrow>
    (gf64_t list \<times> 'a poly_globals_scheme) option" where
  "gf64_poly_mul alloc t out a deg_a b deg_b g =
    (if deg_a = SIZE_MAX \<or> deg_b = SIZE_MAX then None
     else
       let len_a = deg_a + 1; len_b = deg_b + 1
       in do {
         out_len \<leftarrow> gf64_poly_product_len len_a len_b;
         gf64_assert_no_output_alias out out_len (fst a) len_a (fst b) len_b;
         gf64_poly_mul_internal alloc t (snd a) len_a (snd b) len_b out_len g
       })"

definition gf64_poly_mul_padded ::
  "allocator \<Rightarrow> nat \<Rightarrow> nat \<Rightarrow> nat \<times> gf64_t list \<Rightarrow> nat \<Rightarrow> nat \<times> gf64_t list \<Rightarrow> nat \<Rightarrow> nat \<Rightarrow> 'a poly_globals_scheme \<Rightarrow>
    (gf64_t list \<times> 'a poly_globals_scheme) option" where
  "gf64_poly_mul_padded alloc t out a len_a b len_b out_len g = do {
     gf64_poly_product_len len_a len_b;
     gf64_assert_no_output_alias out out_len (fst a) len_a (fst b) len_b;
     gf64_poly_mul_internal alloc t (snd a) len_a (snd b) len_b out_len g
   }"

section \<open>The product does not depend on the tier\<close>

definition tier_counted :: "'a poly_globals_scheme \<Rightarrow> 'a poly_globals_scheme \<Rightarrow> bool" where
  "tier_counted g g' \<longleftrightarrow> (\<exists>h st. h \<in> {count_schoolbook g, count_karatsuba g, count_hqc_fft g} \<and> g' = h\<lparr>hqc_tables := st\<rparr>)"

definition poly_ready :: "allocator \<Rightarrow> 'a poly_globals_scheme \<Rightarrow> bool" where
  "poly_ready alloc g \<longleftrightarrow> hqc_ready alloc (hqc_tables g) \<and> gf64_hqc_max_lm_n_override g \<le> 2 ^ 20"

lemma count_simps [simp]:
  "hqc_tables (count_schoolbook g) = hqc_tables g" "hqc_tables (count_karatsuba g) = hqc_tables g"
  "hqc_tables (count_hqc_fft g) = hqc_tables g"
  "gf64_hqc_max_lm_n_override (count_schoolbook g) = gf64_hqc_max_lm_n_override g"
  "gf64_hqc_max_lm_n_override (count_karatsuba g) = gf64_hqc_max_lm_n_override g"
  "gf64_hqc_max_lm_n_override (count_hqc_fft g) = gf64_hqc_max_lm_n_override g"
  by (simp_all add: count_schoolbook_def count_karatsuba_def count_hqc_fft_def)

lemma tier_counted [simp]:
  "tier_counted g ((count_schoolbook g)\<lparr>hqc_tables := st\<rparr>)"
  "tier_counted g ((count_karatsuba g)\<lparr>hqc_tables := st\<rparr>)"
  "tier_counted g ((count_hqc_fft g)\<lparr>hqc_tables := st\<rparr>)"
  unfolding tier_counted_def by blast+

lemma schoolbook_rows_eq:
  assumes "len_a \<le> length a" "len_b \<le> length b"
  shows "schoolbook_rows a b (if len_a < n then len_a else n) (if len_b < n then len_b else n) n (replicate n 0) =
    product_words a len_a b len_b n"
  using kschoolbook_correct [OF assms, of n] by (simp add: kschoolbook_def schoolbook_rows_def Let_def)

lemma next_pow2_size_mono: "m \<le> n \<Longrightarrow> next_pow2_size m \<le> next_pow2_size n"
proof -
  assume "m \<le> n"
  obtain L where "next_pow2_size n = 2 ^ L" "n \<le> 2 ^ L" by (rule next_pow2_size_exp)
  with \<open>m \<le> n\<close> show ?thesis using next_pow2_size_le [of m L] by simp
qed

lemma hqc_tier_fits:
  assumes "96 \<le> m" "96 \<le> k" "2 * max m k - 1 \<le> cap" "n \<le> cap" "cap \<le> 2 ^ 20"
  shows "hqc_fits (gf64_addfft64_poly_mul_recursive_scratch_words
    (next_pow2_size (max n (2 * max m k - 1)))) m k n"
proof -
  define full where "full = max n (2 * max m k - 1)"
  have le: "max (m + k - 1) n \<le> full" unfolding full_def by linarith
  have "full \<le> 2 ^ 20" using assms(3-5) unfolding full_def by linarith
  with le have small: "max (m + k - 1) n \<le> 2 ^ 20" by (rule order_trans)
  obtain L where L: "next_pow2_size full = 2 ^ L" "full \<le> 2 ^ L" by (rule next_pow2_size_exp)
  have "\<not> next_pow2_size full \<le> 1" using assms(1) L unfolding full_def by linarith
  then show ?thesis
    using next_pow2_size_mono [OF le] small
    unfolding full_def [symmetric] hqc_fits_def gf64_addfft64_poly_mul_recursive_scratch_words_def
    by (simp only: if_False mult_le_mono2 simp_thms)
qed

lemma gf64_poly_mul_internal_correct:
  assumes ready: "poly_ready alloc g" and len: "len_a \<le> length a" "len_b \<le> length b" and n: "0 < out_len"
  obtains g' where "gf64_poly_mul_internal alloc t a len_a b len_b out_len g =
      Some (product_words a len_a b len_b out_len, g')" "poly_ready alloc g'" "tier_counted g g'"
proof -
  define cap where "cap = (if gf64_hqc_max_lm_n_override g \<noteq> 0 then gf64_hqc_max_lm_n_override g else GF64_HQC_MAX_LM_N)"
  define full where "full = (if out_len > 2 * (if len_a > len_b then len_a else len_b) - 1 then out_len
    else 2 * (if len_a > len_b then len_a else len_b) - 1)"
  have full: "full = max out_len (2 * max len_a len_b - 1)" by (auto simp: full_def max_def)
  have cap: "cap \<le> 2 ^ 20" using ready by (simp add: cap_def poly_ready_def GF64_HQC_MAX_LM_N_def)
  have hqc_ready: "hqc_ready alloc (hqc_tables g)" using ready by (simp add: poly_ready_def)
  define hqc_gate where "hqc_gate \<longleftrightarrow> len_a \<ge> GF64_HQC_FFT_MIN \<and> len_b \<ge> GF64_HQC_FFT_MIN \<and> out_len \<ge> GF64_HQC_FFT_MIN \<and>
    len_a \<le> cap \<and> len_b \<le> cap \<and> full \<le> cap"
  define kar_gate where "kar_gate \<longleftrightarrow> len_a \<ge> GF64_POLY_MUL_INTERNAL_KARATSUBA_MIN \<and>
    len_b \<ge> GF64_POLY_MUL_INTERNAL_KARATSUBA_MIN \<and> out_len \<ge> GF64_POLY_MUL_INTERNAL_KARATSUBA_MIN"
  note unfold = gf64_poly_mul_internal_def Let_def cap_def [symmetric] full_def [symmetric] hqc_gate_def [symmetric]
    kar_gate_def [symmetric] next_pow2_size_def [symmetric]
  consider (hqc) hqc_gate | (kar) "\<not> hqc_gate" kar_gate | (school) "\<not> hqc_gate" "\<not> kar_gate" by blast
  then show ?thesis
  proof cases
    case hqc
    let ?sw = "gf64_addfft64_poly_mul_recursive_scratch_words (next_pow2_size full)"
    have fits: "hqc_fits ?sw len_a len_b out_len"
      unfolding full using hqc cap
      by (intro hqc_tier_fits [of _ _ cap]) (simp_all add: hqc_gate_def full GF64_HQC_FFT_MIN_def)
    obtain st where st: "gf64_addfft64_poly_mul_recursive_scratch alloc t a len_a b len_b out_len ?sw (hqc_tables g) =
        Some (product_words a len_a b len_b out_len, st)" "hqc_ready alloc st"
      using poly_mul_recursive_correct [OF hqc_ready fits len] .
    have "gf64_poly_mul_internal alloc t a len_a b len_b out_len g =
        Some (product_words a len_a b len_b out_len, (count_hqc_fft g)\<lparr>hqc_tables := st\<rparr>)"
      using n hqc unfolding unfold
      by (simp add: poly_mul_recursive_avx512_correct [OF hqc_ready fits len] st(1) cong: if_cong)
    then show ?thesis using that st(2) ready by (simp add: poly_ready_def)
  next
    case kar
    have "gf64_poly_mul_internal alloc t a len_a b len_b out_len g =
        Some (product_words a len_a b len_b out_len, (count_karatsuba g)\<lparr>hqc_tables := hqc_tables g\<rparr>)"
      using n kar unfolding unfold by (simp add: gf64_poly_mul_karatsuba_correct [OF len] count_karatsuba_def)
    then show ?thesis using that ready by (simp add: poly_ready_def)
  next
    case school
    have "gf64_poly_mul_internal alloc t a len_a b len_b out_len g =
        Some (product_words a len_a b len_b out_len, (count_schoolbook g)\<lparr>hqc_tables := hqc_tables g\<rparr>)"
      using n school unfolding unfold by (simp only: schoolbook_rows_eq [OF len] if_False) (simp add: count_schoolbook_def)
    then show ?thesis using that ready by (simp add: poly_ready_def)
  qed
qed

interpretation product: poly_multiplier
  "\<lambda>a m b n k. map_option fst (gf64_poly_mul_internal alloc t a m b n k g)"
  "\<lambda>_ _ k. poly_ready alloc g" for alloc t g
proof
  fix m n k and a b :: "gf64_t list"
  assume asm: "poly_ready alloc g" "m \<le> length a" "n \<le> length b"
  show "map_option fst (gf64_poly_mul_internal alloc t a m b n k g) = Some (product_words a m b n k)"
  proof (cases "k = 0")
    case True
    then show ?thesis by (simp add: gf64_poly_mul_internal_def product_words_0)
  next
    case False
    then show ?thesis using gf64_poly_mul_internal_correct [OF asm, of k t] by auto
  qed
qed

section \<open>Memory\<close>

definition in_memory :: "nat \<Rightarrow> nat \<Rightarrow> bool" where
  "in_memory p n \<longleftrightarrow> p + 8 * n \<le> UINTPTR_MAX"

definition block_of :: "nat \<Rightarrow> nat \<Rightarrow> nat set" where "block_of p n = {p..<p + 8 * n}"

lemma block_overlap:
  "block_of p n \<inter> block_of q m \<noteq> {} \<longleftrightarrow> n \<noteq> 0 \<and> m \<noteq> 0 \<and> p < q + 8 * m \<and> q < p + 8 * n"
proof -
  have "max p q \<in> block_of p n \<inter> block_of q m" if "n \<noteq> 0" "m \<noteq> 0" "p < q + 8 * m" "q < p + 8 * n"
    using that by (auto simp: block_of_def)
  then show ?thesis by (auto simp: block_of_def)
qed

lemma ranges_overlap_exact:
  assumes "in_memory p n" "in_memory q m"
  shows "gf64_ranges_overlap p n q m = Some (block_of p n \<inter> block_of q m \<noteq> {})"
proof -
  have end_of: "gf64_range_end p n = Some (p + 8 * n)" if "in_memory p n" for p n
    using that by (simp add: gf64_range_end_def in_memory_def SIZE_MAX_def UINTPTR_MAX_def Let_def)
  show ?thesis
    unfolding block_overlap gf64_ranges_overlap_def by (auto simp: end_of assms)
qed

lemma assert_no_output_alias_exact:
  assumes "in_memory out k" "in_memory a m" "in_memory b n"
  shows "gf64_assert_no_output_alias out k a m b n =
    (if block_of out k \<inter> (block_of a m \<union> block_of b n) = {} then Some () else None)"
  by (auto simp: gf64_assert_no_output_alias_def ranges_overlap_exact assms Int_Un_distrib)

lemma product_len_exact:
  "len_b \<le> SIZE_MAX \<Longrightarrow> gf64_poly_product_len len_a len_b =
    (if len_a = 0 \<or> len_b = 0 then Some 0 else if len_a + len_b - 1 \<le> SIZE_MAX then Some (len_a + len_b - 1) else None)"
  by (auto simp: gf64_poly_product_len_def)

lemma in_memory_length: "in_memory p n \<Longrightarrow> n \<le> 2 ^ 61"
  by (simp add: in_memory_def UINTPTR_MAX_def)

end
