(* ===== verification/HQC_Batch.thy ===== *)
theory HQC_Batch
  imports HQC_Transform
begin

text \<open>
  The interleaved batch of gf64/gf64_additive_fft_hqc2026.c: eight words transformed together, slot
  \<open>8 i + k\<close> of the buffer holding coefficient \<open>i\<close> of word \<open>k\<close>. \<open>lane k\<close> reads word \<open>k\<close> out of such a
  buffer; every routine, seen through a lane, is the scalar routine of HQC_Cvt, HQC_Butterfly and
  HQC_Transform. A pointer \<open>data + j * GF64_HQC_BATCH_LANES\<close> is the routine at an offset.
\<close>

definition GF64_HQC_BATCH_LANES :: nat where "GF64_HQC_BATCH_LANES = 8"

definition hqc_cvt_div_blk_batch :: "gf64_t list \<Rightarrow> nat \<Rightarrow> nat \<Rightarrow> nat \<Rightarrow> gf64_t list" where
  "hqc_cvt_div_blk_batch q si_h si_l polylen =
    (let deg_diff = si_h - si_l
     in fold (\<lambda>i q.
          let dst = (i - deg_diff) * GF64_HQC_BATCH_LANES; src = i * GF64_HQC_BATCH_LANES
          in fold (\<lambda>k q. q[dst + k := q ! (dst + k) XOR q ! (src + k)]) [0..<GF64_HQC_BATCH_LANES] q)
        (rev [si_h..<polylen]) q)"

definition hqc_cvt_idiv_blk_batch :: "gf64_t list \<Rightarrow> nat \<Rightarrow> nat \<Rightarrow> nat \<Rightarrow> gf64_t list" where
  "hqc_cvt_idiv_blk_batch q si_h si_l polylen =
    (let deg_diff = si_h - si_l
     in fold (\<lambda>i q.
          let dst = (i - deg_diff) * GF64_HQC_BATCH_LANES; src = i * GF64_HQC_BATCH_LANES
          in fold (\<lambda>k q. q[dst + k := q ! (dst + k) XOR q ! (src + k)]) [0..<GF64_HQC_BATCH_LANES] q)
        [si_h..<polylen] q)"

definition hqc_cvt_rep_in_si_batch :: "gf64_t list \<Rightarrow> nat \<Rightarrow> nat \<Rightarrow> nat \<Rightarrow> nat \<Rightarrow> gf64_t list" where
  "hqc_cvt_rep_in_si_batch data datalen logsize_blk polyloglen_blk si =
    fold (\<lambda>i data.
        let polylen = 2 ^ (i + logsize_blk + 1); si_h = 2 ^ (i + logsize_blk);
            si_l = 2 ^ (i + logsize_blk - si)
        in fold (\<lambda>j. at_offset (j * GF64_HQC_BATCH_LANES) (\<lambda>q. hqc_cvt_div_blk_batch q si_h si_l polylen))
          (stride polylen datalen) data)
      (rev [si..<polyloglen_blk]) data"

definition hqc_cvt_irep_in_si_batch :: "gf64_t list \<Rightarrow> nat \<Rightarrow> nat \<Rightarrow> nat \<Rightarrow> nat \<Rightarrow> gf64_t list" where
  "hqc_cvt_irep_in_si_batch data datalen logsize_blk polyloglen_blk si =
    fold (\<lambda>i data.
        let polylen = 2 ^ (i + logsize_blk + 1); si_h = 2 ^ (i + logsize_blk);
            si_l = 2 ^ (i + logsize_blk - si)
        in fold (\<lambda>j. at_offset (j * GF64_HQC_BATCH_LANES) (\<lambda>q. hqc_cvt_idiv_blk_batch q si_h si_l polylen))
          (stride polylen datalen) data)
      [si..<polyloglen_blk] data"

function hqc_cvt_batch :: "gf64_t list \<Rightarrow> nat \<Rightarrow> nat \<Rightarrow> nat \<Rightarrow> gf64_t list" where
  "hqc_cvt_batch data datalen logsize_blk polyloglen_blk =
    (if polyloglen_blk \<le> 1 then data
     else
       let si = hqc_cvt_choose_si polyloglen_blk;
           data = hqc_cvt_rep_in_si_batch data datalen logsize_blk polyloglen_blk si;
           data = hqc_cvt_batch data datalen logsize_blk si
       in hqc_cvt_batch data datalen (logsize_blk + si) (polyloglen_blk - si))"
  by pat_completeness auto
termination
  by (relation "measure (\<lambda>(data, datalen, b, p). p)") (simp_all add: choose_si_less)

declare hqc_cvt_batch.simps [simp del]

function hqc_icvt_batch :: "gf64_t list \<Rightarrow> nat \<Rightarrow> nat \<Rightarrow> nat \<Rightarrow> gf64_t list" where
  "hqc_icvt_batch data datalen logsize_blk polyloglen_blk =
    (if polyloglen_blk \<le> 1 then data
     else
       let si = hqc_cvt_choose_si polyloglen_blk;
           data = hqc_icvt_batch data datalen logsize_blk si;
           data = hqc_icvt_batch data datalen (logsize_blk + si) (polyloglen_blk - si)
       in hqc_cvt_irep_in_si_batch data datalen logsize_blk polyloglen_blk si)"
  by pat_completeness auto
termination
  by (relation "measure (\<lambda>(data, datalen, b, p). p)") (simp_all add: choose_si_less)

declare hqc_icvt_batch.simps [simp del]

text \<open>The routines write \<open>8 n\<close> words of their output; the array returned is these words.\<close>

definition basisCvt_batch_avx512 :: "gf64_t list \<Rightarrow> nat \<Rightarrow> gf64_t list" where
  "basisCvt_batch_avx512 f n =
    (if n \<le> 1 then (if n = 1 then map (\<lambda>k. f ! k) [0..<GF64_HQC_BATCH_LANES] else [])
     else hqc_cvt_batch (take (n * GF64_HQC_BATCH_LANES) f) n 0 (ceil_log2 n))"

definition ibasisCvt_batch_avx512 :: "gf64_t list \<Rightarrow> nat \<Rightarrow> gf64_t list" where
  "ibasisCvt_batch_avx512 g n =
    (if n \<le> 1 then (if n = 1 then map (\<lambda>k. g ! k) [0..<GF64_HQC_BATCH_LANES] else [])
     else hqc_icvt_batch (take (n * GF64_HQC_BATCH_LANES) g) n 0 (ceil_log2 n))"

text \<open>
  The eight butterflies of the pair of groups \<open>j\<close>, \<open>j + half\<close>; a transform of size 2 is the pair
  \<open>j = 0\<close>, \<open>half = 1\<close>. The stack buffers are filled before they are read; here they start as zeros.
\<close>

definition butterfly_fwd_group_batch :: "nat \<Rightarrow> gf64_t \<Rightarrow> nat \<Rightarrow> gf64_t list \<Rightarrow> gf64_t list" where
  "butterfly_fwd_group_batch half s_a j f =
    (let fl = map (\<lambda>k. f ! (j * GF64_HQC_BATCH_LANES + k)) [0..<GF64_HQC_BATCH_LANES];
         fh = map (\<lambda>k. f ! ((j + half) * GF64_HQC_BATCH_LANES + k)) [0..<GF64_HQC_BATCH_LANES];
         sa = replicate GF64_HQC_BATCH_LANES s_a;
         prod = gf64_mul_avx512 (replicate GF64_HQC_BATCH_LANES 0) fh sa GF64_HQC_BATCH_LANES
     in fold (\<lambda>k f. f[j * GF64_HQC_BATCH_LANES + k := fl ! k XOR prod ! k,
          (j + half) * GF64_HQC_BATCH_LANES + k := fl ! k XOR prod ! k XOR fh ! k])
        [0..<GF64_HQC_BATCH_LANES] f)"

definition butterfly_inv_group_batch :: "nat \<Rightarrow> gf64_t \<Rightarrow> nat \<Rightarrow> gf64_t list \<Rightarrow> gf64_t list" where
  "butterfly_inv_group_batch half s_a j f =
    (let fl = map (\<lambda>k. f ! (j * GF64_HQC_BATCH_LANES + k)) [0..<GF64_HQC_BATCH_LANES];
         fh = map (\<lambda>k. f ! (j * GF64_HQC_BATCH_LANES + k) XOR f ! ((j + half) * GF64_HQC_BATCH_LANES + k))
           [0..<GF64_HQC_BATCH_LANES];
         sa = replicate GF64_HQC_BATCH_LANES s_a;
         prod = gf64_mul_avx512 (replicate GF64_HQC_BATCH_LANES 0) fh sa GF64_HQC_BATCH_LANES
     in fold (\<lambda>k f. f[j * GF64_HQC_BATCH_LANES + k := fl ! k XOR prod ! k,
          (j + half) * GF64_HQC_BATCH_LANES + k := fh ! k])
        [0..<GF64_HQC_BATCH_LANES] f)"

function butterfly_fwd_batch_avx512 ::
  "hqc_vindex_t list \<Rightarrow> gf64_t list \<Rightarrow> nat \<Rightarrow> nat \<Rightarrow> gf64_t \<Rightarrow> vtable \<Rightarrow> nat \<Rightarrow> gf64_t list option" where
  "butterfly_fwd_batch_avx512 reg f n n_table a v_table logn =
    (if n = 2 then Some (butterfly_fwd_group_batch 1 a 0 f)
     else if n < 2 then None
     else
       let half = n div 2
       in do {
         s_a \<leftarrow> si_eval reg (logn - 1) a v_table n_table;
         let f = fold (butterfly_fwd_group_batch half s_a) [0..<half] f;
         lo \<leftarrow> butterfly_fwd_batch_avx512 reg (take (half * GF64_HQC_BATCH_LANES) f) half n_table a v_table (logn - 1);
         hi \<leftarrow> butterfly_fwd_batch_avx512 reg (drop (half * GF64_HQC_BATCH_LANES) f) half n_table
           (a XOR vt_words v_table ! (2 ^ (logn - 1))) v_table (logn - 1);
         Some (lo @ hi)
       })"
  by pat_completeness auto
termination butterfly_fwd_batch_avx512
  by (relation "measure (\<lambda>(reg, f, n, n_table, a, v_table, logn). n)")
    (rule wf_measure, unfold in_measure split, (erule (2) half_less)+)

declare butterfly_fwd_batch_avx512.simps [simp del]

function butterfly_inv_batch_avx512 ::
  "hqc_vindex_t list \<Rightarrow> gf64_t list \<Rightarrow> nat \<Rightarrow> nat \<Rightarrow> gf64_t \<Rightarrow> vtable \<Rightarrow> nat \<Rightarrow> gf64_t list option" where
  "butterfly_inv_batch_avx512 reg f n n_table a v_table logn =
    (if n = 2 then Some (butterfly_inv_group_batch 1 a 0 f)
     else if n < 2 then None
     else
       let half = n div 2
       in do {
         lo \<leftarrow> butterfly_inv_batch_avx512 reg (take (half * GF64_HQC_BATCH_LANES) f) half n_table a v_table (logn - 1);
         hi \<leftarrow> butterfly_inv_batch_avx512 reg (drop (half * GF64_HQC_BATCH_LANES) f) half n_table
           (a XOR vt_words v_table ! (2 ^ (logn - 1))) v_table (logn - 1);
         s_a \<leftarrow> si_eval reg (logn - 1) a v_table n_table;
         Some (fold (butterfly_inv_group_batch half s_a) [0..<half] (lo @ hi))
       })"
  by pat_completeness auto
termination butterfly_inv_batch_avx512
  by (relation "measure (\<lambda>(reg, f, n, n_table, a, v_table, logn). n)")
    (rule wf_measure, unfold in_measure split, (erule (2) half_less)+)

declare butterfly_inv_batch_avx512.simps [simp del]

definition gf64_addfft64_fwd_batch_avx512 ::
  "allocator \<Rightarrow> nat \<Rightarrow> gf64_t list \<Rightarrow> nat \<Rightarrow> nat \<Rightarrow> hqc_state \<Rightarrow> (gf64_t list \<times> hqc_state) option" where
  "gf64_addfft64_fwd_batch_avx512 alloc t arr n scratch_words st =
    (if n \<le> 1 then Some (arr, st)
     else if \<not> scratch_words \<ge> 2 * GF64_HQC_BATCH_LANES * n then None
     else
       let logn = ceil_log2 n; arr = basisCvt_batch_avx512 arr n
       in do {
         (v_table, st) \<leftarrow> get_or_build_v_table alloc t n st;
         let a = GF64_CANTOR_BASIS ! (logn - 1);
         arr \<leftarrow> butterfly_fwd_batch_avx512 (hqc_vindex st) arr n n a v_table logn;
         Some (arr, st)
       })"

definition gf64_addfft64_inv_batch_avx512 ::
  "allocator \<Rightarrow> nat \<Rightarrow> gf64_t list \<Rightarrow> nat \<Rightarrow> nat \<Rightarrow> hqc_state \<Rightarrow> (gf64_t list \<times> hqc_state) option" where
  "gf64_addfft64_inv_batch_avx512 alloc t arr n scratch_words st =
    (if n \<le> 1 then Some (arr, st)
     else if \<not> scratch_words \<ge> 2 * GF64_HQC_BATCH_LANES * n then None
     else
       let logn = ceil_log2 n
       in do {
         (v_table, st) \<leftarrow> get_or_build_v_table alloc t n st;
         let a = GF64_CANTOR_BASIS ! (logn - 1);
         arr \<leftarrow> butterfly_inv_batch_avx512 (hqc_vindex st) arr n n a v_table logn;
         Some (ibasisCvt_batch_avx512 arr n, st)
       })"

text \<open>
  \<open>K \<le> 8\<close> is the caller's obligation: word \<open>k\<close> is written to slots \<open>8 i + k\<close>, so a ninth word would
  overwrite the first. The scratch area is split as the code splits it: the shared transform and
  the words, \<open>8 n\<close> each, and an inner area of \<open>16 n\<close>; only the sizes appear.
\<close>

definition gf64_addfft64_poly_mul_batch_shared_interleaved_avx512 ::
  "allocator \<Rightarrow> nat \<Rightarrow> gf64_t list list \<Rightarrow> nat \<Rightarrow> gf64_t list \<Rightarrow> nat \<Rightarrow> gf64_t list \<Rightarrow> nat \<Rightarrow> nat \<Rightarrow> nat \<Rightarrow>
    hqc_state \<Rightarrow> (gf64_t list list \<times> hqc_state) option" where
  "gf64_addfft64_poly_mul_batch_shared_interleaved_avx512 alloc t outs K shared len_shared f len_f out_len
      scratch_words st =
    (if K = 0 \<or> out_len = 0 then Some (outs, st)
     else if len_shared = 0 \<or> len_f = 0
     then Some (fold (\<lambda>k outs. outs[k := replicate out_len 0]) [0..<K] outs, st)
     else
       let full_len = len_shared + len_f - 1;
           full_len = (if full_len < out_len then out_len else full_len);
           n = next_pow2_size full_len;
           W = GF64_HQC_BATCH_LANES
       in if \<not> (n \<le> GF64_HQC_MAX_LM_N \<and> scratch_words \<ge> 4 * W * n) then None
          else do {
            (pt0, st) \<leftarrow> gf64_addfft64_fwd_recursive_scratch_avx512 alloc t
              (take len_shared shared @ replicate (n - len_shared) 0) n (2 * n) st;
            let pt = fold (\<lambda>i pt. fold (\<lambda>k pt. pt[i * W + k := pt0 ! i]) [0..<W] pt) [0..<n] (replicate (W * n) 0);
            let pf = fold (\<lambda>k pf.
                let fk = drop (k * len_f) f;
                    copy_n = (if len_f < n then len_f else n)
                in fold (\<lambda>i pf. pf[i * W + k := fk ! i]) [0..<copy_n] pf)
              [0..<K] (replicate (W * n) 0);
            (pf, st) \<leftarrow> gf64_addfft64_fwd_batch_avx512 alloc t pf n (2 * W * n) st;
            let pf = fold (\<lambda>i pf.
                let x = take W (drop (i * W) pf)
                in vstoreu pf (i * W) (gf64_mul_avx512 x x (take W (drop (i * W) pt)) W)) [0..<n] pf;
            (pf, st) \<leftarrow> gf64_addfft64_inv_batch_avx512 alloc t pf n (2 * W * n) st;
            let copy_n = (if full_len < out_len then full_len else out_len);
            Some (fold (\<lambda>k outs. outs[k := map (\<lambda>i. pf ! (i * W + k)) [0..<copy_n] @
                replicate (out_len - copy_n) 0]) [0..<K] outs, st)
          })"

section \<open>Lanes\<close>

abbreviation lanes :: nat where "lanes \<equiv> GF64_HQC_BATCH_LANES"

definition lane :: "nat \<Rightarrow> gf64_t list \<Rightarrow> gf64_t list" where
  "lane l A = map (\<lambda>i. A ! (i * lanes + l)) [0..<length A div lanes]"

text \<open>\<open>batch n A\<close>: a buffer of \<open>n\<close> groups.\<close>

definition batch :: "nat \<Rightarrow> gf64_t list \<Rightarrow> bool" where "batch n A \<longleftrightarrow> length A = n * lanes"

lemma lanes_pos [simp]: "0 < lanes" "lanes \<noteq> 0" by (simp_all add: GF64_HQC_BATCH_LANES_def)

lemma length_lane [simp]: "batch n A \<Longrightarrow> length (lane l A) = n" by (simp add: lane_def batch_def)

lemma nth_lane: "batch n A \<Longrightarrow> i < n \<Longrightarrow> lane l A ! i = A ! (i * lanes + l)" by (simp add: lane_def batch_def)

lemma slot_less: "i < n \<Longrightarrow> l < lanes \<Longrightarrow> i * lanes + l < n * lanes"
proof -
  assume "i < n" "l < lanes"
  then have "i * lanes + l < Suc i * lanes" by simp
  also have "\<dots> \<le> n * lanes" using \<open>i < n\<close> by (intro mult_le_mono1) simp
  finally show ?thesis .
qed

lemma slot_eq: "l < lanes \<Longrightarrow> k < lanes \<Longrightarrow> i * lanes + l = j * lanes + k \<longleftrightarrow> i = j \<and> l = k"
proof
  assume lk: "l < lanes" "k < lanes" and eq: "i * lanes + l = j * lanes + k"
  have "(i * lanes + l) div lanes = i" "(j * lanes + k) div lanes = j" using lk by simp_all
  with eq show "i = j \<and> l = k" by simp
qed simp

lemma slotE:
  assumes "p < n * lanes"
  obtains i l where "p = i * lanes + l" "i < n" "l < lanes"
  using assms that [of "p div lanes" "p mod lanes"] by (simp add: less_mult_imp_div_less)

lemma lane_inject:
  assumes "batch n A" "batch n B" "\<And>l. l < lanes \<Longrightarrow> lane l A = lane l B"
  shows "A = B"
proof (rule nth_equalityI)
  show "length A = length B" using assms by (simp add: batch_def)
  fix p assume "p < length A"
  then obtain i l where p: "p = i * lanes + l" "i < n" "l < lanes"
    using assms(1) by (auto simp: batch_def elim: slotE)
  with assms(3) [of l] nth_lane [OF assms(1) p(2)] nth_lane [OF assms(2) p(2)] show "A ! p = B ! p" by metis
qed

lemma batch_update [simp]: "batch n A \<Longrightarrow> batch n (A[p := v])" by (simp add: batch_def)

lemma batch_append: "batch n A \<Longrightarrow> batch m B \<Longrightarrow> batch (n + m) (A @ B)" by (simp add: batch_def add_mult_distrib)

lemma laneI:
  assumes "batch n A" "length xs = n" "\<And>i. i < n \<Longrightarrow> A ! (i * lanes + l) = xs ! i"
  shows "lane l A = xs"
  by (rule nth_equalityI) (use assms length_lane [OF assms(1)] in \<open>auto simp: nth_lane [OF assms(1)]\<close>)

lemma lane_update:
  assumes A: "batch n A" and l: "l < lanes" "k < lanes"
  shows "lane l (A[m * lanes + k := v]) = (if k = l then (lane l A)[m := v] else lane l A)"
proof (rule laneI [OF batch_update [OF A]])
  show "length (if k = l then (lane l A)[m := v] else lane l A) = n" using A by simp
  fix i assume i: "i < n"
  have "i * lanes + l < length A" using slot_less [OF i l(1)] A by (simp add: batch_def)
  then show "A[m * lanes + k := v] ! (i * lanes + l) = (if k = l then (lane l A)[m := v] else lane l A) ! i"
    using l i length_lane [OF A, of l] by (cases "i = m") (simp_all add: nth_list_update nth_lane [OF A] slot_eq)
qed

lemma lane_append:
  assumes A: "batch n A" and B: "batch m B" and l: "l < lanes"
  shows "lane l (A @ B) = lane l A @ lane l B"
proof (rule laneI [OF batch_append [OF A B]])
  show "length (lane l A @ lane l B) = n + m" using length_lane [OF A] length_lane [OF B] by simp
  fix i assume i: "i < n + m"
  show "(A @ B) ! (i * lanes + l) = (lane l A @ lane l B) ! i"
  proof (cases "i < n")
    case True
    with A slot_less [OF True l] show ?thesis
      by (simp add: nth_append nth_lane [OF A] length_lane [OF A] batch_def)
  next
    case False
    then have i': "i = n + (i - n)" "i - n < m" using i by auto
    have "i * lanes + l = length A + ((i - n) * lanes + l)"
      by (subst i'(1)) (use A in \<open>simp only: add_mult_distrib batch_def add.assoc\<close>)
    then have "(A @ B) ! (i * lanes + l) = B ! ((i - n) * lanes + l)" by (simp only: nth_append_length_plus)
    with False show ?thesis by (simp add: nth_append nth_lane [OF B i'(2)] length_lane [OF A])
  qed
qed

lemma batch_take: "batch n A \<Longrightarrow> j \<le> n \<Longrightarrow> batch j (take (j * lanes) A)" by (simp add: batch_def)
lemma batch_drop: "batch n A \<Longrightarrow> batch (n - j) (drop (j * lanes) A)" by (simp add: batch_def diff_mult_distrib)

lemma lane_take:
  assumes A: "batch n A" and "j \<le> n" "l < lanes" shows "lane l (take (j * lanes) A) = take j (lane l A)"
  by (rule laneI [OF batch_take [OF A assms(2)]])
    (use assms length_lane [OF A] slot_less in \<open>auto simp: nth_lane [OF A]\<close>)

lemma lane_drop:
  assumes A: "batch n A" and "l < lanes" shows "lane l (drop (j * lanes) A) = drop j (lane l A)"
proof (rule laneI [OF batch_drop [OF A]])
  show "length (drop j (lane l A)) = n - j" using length_lane [OF A] by simp
  fix i assume "i < n - j"
  then have "j + i < n" by simp
  moreover from this have "j * lanes \<le> n * lanes" by simp
  ultimately show "drop (j * lanes) A ! (i * lanes + l) = drop j (lane l A) ! i"
    using A by (simp add: length_lane [OF A] nth_lane [OF A] batch_def add_mult_distrib add.assoc)
qed

text \<open>A loop over the eight words of a group acts on each lane once.\<close>

lemma fold_lanes:
  assumes step: "\<And>k A. \<lbrakk>k < lanes; batch n A; \<And>l. k \<le> l \<Longrightarrow> l < lanes \<Longrightarrow> lane l A = lane l A0\<rbrakk> \<Longrightarrow>
      batch n (f k A) \<and> (\<forall>l<lanes. lane l (f k A) = (if k = l then h l else lane l A))"
    and A0: "batch n A0" and l: "l < lanes"
  shows "lane l (fold f [0..<lanes] A0) = h l" "batch n (fold f [0..<lanes] A0)"
proof -
  have *: "batch n (fold f [0..<K] A0) \<and>
      (\<forall>l<lanes. lane l (fold f [0..<K] A0) = (if l < K then h l else lane l A0))" if "K \<le> lanes" for K
    using that
  proof (induction K)
    case (Suc K)
    then show ?case using step [of K "fold f [0..<K] A0"] by (auto simp: less_Suc_eq)
  qed (simp add: A0)
  from this [of lanes] l show "lane l (fold f [0..<lanes] A0) = h l" "batch n (fold f [0..<lanes] A0)" by auto
qed

section \<open>The change of basis\<close>

text \<open>\<open>lanewise n F f\<close>: on buffers of \<open>n\<close> groups, \<open>F\<close> is \<open>f\<close> in every lane.\<close>

definition lanewise :: "nat \<Rightarrow> (gf64_t list \<Rightarrow> gf64_t list) \<Rightarrow> (gf64_t list \<Rightarrow> gf64_t list) \<Rightarrow> bool" where
  "lanewise n F f \<longleftrightarrow> (\<forall>A. batch n A \<longrightarrow> batch n (F A) \<and> (\<forall>l<lanes. lane l (F A) = f (lane l A)))"

lemma lanewiseI:
  "(\<And>A. batch n A \<Longrightarrow> batch n (F A)) \<Longrightarrow> (\<And>A l. batch n A \<Longrightarrow> l < lanes \<Longrightarrow> lane l (F A) = f (lane l A)) \<Longrightarrow>
    lanewise n F f"
  by (simp add: lanewise_def)

lemma lanewiseD:
  assumes "lanewise n F f" "batch n A"
  shows "batch n (F A)" "l < lanes \<Longrightarrow> lane l (F A) = f (lane l A)"
  using assms by (auto simp: lanewise_def)

lemma lanewise_fold: "(\<And>x. x \<in> set xs \<Longrightarrow> lanewise n (F x) (f x)) \<Longrightarrow> lanewise n (fold F xs) (fold f xs)"
  by (induction xs) (auto simp: lanewise_def)

lemma lanewise_at_offset:
  assumes "lanewise (n - j) F f" "j \<le> n"
  shows "lanewise n (at_offset (j * lanes) F) (at_offset j f)"
proof (rule lanewiseI)
  fix A assume A: "batch n A"
  note F = lanewiseD [OF assms(1) batch_drop [OF A]]
  from batch_append [OF batch_take [OF A assms(2)] F(1)] assms(2)
  show "batch n (at_offset (j * lanes) F A)" by (simp add: at_offset_def)
  fix l assume l: "l < lanes"
  show "lane l (at_offset (j * lanes) F A) = at_offset j f (lane l A)"
    unfolding at_offset_def lane_append [OF batch_take [OF A assms(2)] F(1) l] F(2) [OF l]
      lane_take [OF A assms(2) l] lane_drop [OF A l] ..
qed

lemma lanewise_add_group:
  assumes "i < n" "m < n"
  shows "lanewise n (\<lambda>q. fold (\<lambda>k q. q[m * lanes + k := q ! (m * lanes + k) XOR q ! (i * lanes + k)]) [0..<lanes] q)
    (\<lambda>q. q[m := q ! m XOR q ! i])"
proof -
  have "batch n (A[m * lanes + k := A ! (m * lanes + k) XOR A ! (i * lanes + k)]) \<and>
    (\<forall>l<lanes. lane l (A[m * lanes + k := A ! (m * lanes + k) XOR A ! (i * lanes + k)]) =
      (if k = l then (lane l A0)[m := lane l A0 ! m XOR lane l A0 ! i] else lane l A))"
    if A: "k < lanes" "batch n A" "\<And>l. k \<le> l \<Longrightarrow> l < lanes \<Longrightarrow> lane l A = lane l A0" for k A A0
    using A(1,2) A(3) [of k] assms by (auto simp: lane_update nth_lane [OF A(2), symmetric])
  from fold_lanes [OF this] lanes_pos(1) show ?thesis by (intro lanewiseI) blast+
qed

lemma lanewise_div_blk:
  assumes "polylen \<le> n"
  shows "lanewise n (\<lambda>q. hqc_cvt_div_blk_batch q si_h si_l polylen) (\<lambda>q. hqc_cvt_div_blk q si_h si_l polylen)"
    and "lanewise n (\<lambda>q. hqc_cvt_idiv_blk_batch q si_h si_l polylen) (\<lambda>q. hqc_cvt_idiv_blk q si_h si_l polylen)"
  unfolding hqc_cvt_div_blk_batch_def hqc_cvt_div_blk_def hqc_cvt_idiv_blk_batch_def hqc_cvt_idiv_blk_def Let_def
  by (rule lanewise_fold, rule lanewise_add_group, use assms in auto)+

lemma lanewise_comp: "lanewise n F f \<Longrightarrow> lanewise n G g \<Longrightarrow> lanewise n (\<lambda>A. G (F A)) (\<lambda>x. g (f x))"
  by (simp add: lanewise_def)

lemma stride_inside: "j \<in> set (stride polylen n) \<Longrightarrow> polylen dvd n \<Longrightarrow> 0 < polylen \<Longrightarrow> polylen \<le> n - j \<and> j \<le> n"
proof -
  assume "polylen dvd n" "0 < polylen" "j \<in> set (stride polylen n)"
  then obtain m where "m < n div polylen" "j = m * polylen" by (auto simp: stride_dvd)
  with block_inside [of m n polylen] show ?thesis by simp
qed

lemma lanewise_rep_in_si:
  assumes "2 ^ (b + p) dvd n"
  shows "lanewise n (\<lambda>A. hqc_cvt_rep_in_si_batch A n b p si) (\<lambda>x. hqc_cvt_rep_in_si x n b p si)"
    and "lanewise n (\<lambda>A. hqc_cvt_irep_in_si_batch A n b p si) (\<lambda>x. hqc_cvt_irep_in_si x n b p si)"
proof -
  have inside: "2 ^ (i + b + 1) \<le> n - j \<and> j \<le> n" if "i < p" "j \<in> set (stride (2 ^ (i + b + 1)) n)" for i j
    by (rule stride_inside [OF that(2) dvd_trans [OF le_imp_power_dvd assms]]) (use that(1) in auto)
  show "lanewise n (\<lambda>A. hqc_cvt_rep_in_si_batch A n b p si) (\<lambda>x. hqc_cvt_rep_in_si x n b p si)"
    unfolding hqc_cvt_rep_in_si_batch_def hqc_cvt_rep_in_si_def Let_def
    by (intro lanewise_fold lanewise_at_offset lanewise_div_blk) (use inside in auto)
  show "lanewise n (\<lambda>A. hqc_cvt_irep_in_si_batch A n b p si) (\<lambda>x. hqc_cvt_irep_in_si x n b p si)"
    unfolding hqc_cvt_irep_in_si_batch_def hqc_cvt_irep_in_si_def Let_def
    by (intro lanewise_fold lanewise_at_offset lanewise_div_blk) (use inside in auto)
qed

lemma lanewise_cvt:
  assumes "2 ^ (b + p) dvd n"
  shows "lanewise n (\<lambda>A. hqc_cvt_batch A n b p) (\<lambda>x. hqc_cvt x n b p)"
    and "lanewise n (\<lambda>A. hqc_icvt_batch A n b p) (\<lambda>x. hqc_icvt x n b p)"
proof -
  have id: "lanewise n (\<lambda>A. A) (\<lambda>x. x)" by (simp add: lanewise_def)
  have "lanewise n (\<lambda>A. hqc_cvt_batch A n b p) (\<lambda>x. hqc_cvt x n b p) \<and>
      lanewise n (\<lambda>A. hqc_icvt_batch A n b p) (\<lambda>x. hqc_icvt x n b p)"
    using assms
  proof (induction p arbitrary: b rule: less_induct)
    case (less p)
    show ?case
    proof (cases "p \<le> 1")
      case True
      then show ?thesis
        by (simp add: id hqc_cvt_batch.simps [of _ _ _ p] hqc_cvt.simps [of _ _ _ p]
            hqc_icvt_batch.simps [of _ _ _ p] hqc_icvt.simps [of _ _ _ p])
    next
      case False
      define si where "si = hqc_cvt_choose_si p"
      have si: "si < p" "p - si < p" using choose_si_less [OF False] by (simp_all add: si_def)
      have dvd: "2 ^ (b + si) dvd n" "2 ^ (b + si + (p - si)) dvd n"
        using si(1) less.prems by (auto intro: dvd_trans [OF le_imp_power_dvd less.prems])
      note lo = less.IH [OF si(1) dvd(1)] and hi = less.IH [OF si(2) dvd(2)]
        and rep = lanewise_rep_in_si [OF less.prems, of si]
      from lanewise_comp [OF lanewise_comp [OF rep(1) conjunct1 [OF lo]] conjunct1 [OF hi]]
        lanewise_comp [OF lanewise_comp [OF conjunct2 [OF lo] conjunct2 [OF hi]] rep(2)]
      show ?thesis
        unfolding hqc_cvt_batch.simps [of _ _ _ p] hqc_cvt.simps [of _ _ _ p]
          hqc_icvt_batch.simps [of _ _ _ p] hqc_icvt.simps [of _ _ _ p] si_def [symmetric] Let_def if_not_P [OF False]
        by (rule conjI)
    qed
  qed
  then show "lanewise n (\<lambda>A. hqc_cvt_batch A n b p) (\<lambda>x. hqc_cvt x n b p)"
    "lanewise n (\<lambda>A. hqc_icvt_batch A n b p) (\<lambda>x. hqc_icvt x n b p)" by blast+
qed

lemma lane_single: "batch 1 A \<Longrightarrow> l < lanes \<Longrightarrow> lane l A = [A ! l]"
  by (simp add: lane_def batch_def)

lemma lanewise_basisCvt:
  "lanewise (2 ^ L) (\<lambda>A. basisCvt_batch_avx512 A (2 ^ L)) (\<lambda>x. basisCvt_recursive_v2 x (2 ^ L))"
  "lanewise (2 ^ L) (\<lambda>A. ibasisCvt_batch_avx512 A (2 ^ L)) (\<lambda>x. ibasisCvt_recursive_v2 x (2 ^ L))"
proof -
  have take: "take (n * lanes) A = A" if "batch n A" for n and A :: "gf64_t list" using that by (simp add: batch_def)
  have first: "batch 1 (map ((!) A) [0..<lanes])" for A by (simp add: batch_def)
  note c = lanewiseD [OF lanewise_cvt(1) [of 0 L "2 ^ L"]] lanewiseD [OF lanewise_cvt(2) [of 0 L "2 ^ L"]]
  show "lanewise (2 ^ L) (\<lambda>A. basisCvt_batch_avx512 A (2 ^ L)) (\<lambda>x. basisCvt_recursive_v2 x (2 ^ L))"
  proof (cases "L = 0")
    case True
    then show ?thesis using first
      by (intro lanewiseI) (simp_all add: basisCvt_batch_avx512_def basisCvt_recursive_v2_def lane_single)
  next
    case False
    then show ?thesis using two_le_exp [of L] c
      by (intro lanewiseI)
        (simp_all add: basisCvt_batch_avx512_def basisCvt_recursive_v2_def ceil_log2_exp take)
  qed
  show "lanewise (2 ^ L) (\<lambda>A. ibasisCvt_batch_avx512 A (2 ^ L)) (\<lambda>x. ibasisCvt_recursive_v2 x (2 ^ L))"
  proof (cases "L = 0")
    case True
    then show ?thesis using first
      by (intro lanewiseI) (simp_all add: ibasisCvt_batch_avx512_def ibasisCvt_recursive_v2_def lane_single)
  next
    case False
    then show ?thesis using two_le_exp [of L] c
      by (intro lanewiseI)
        (simp_all add: ibasisCvt_batch_avx512_def ibasisCvt_recursive_v2_def ceil_log2_exp take)
  qed
qed

section \<open>The butterflies\<close>

lemma lane_products:
  assumes "k < lanes" "length x = lanes"
  shows "gf64_mul_avx512 (replicate lanes 0) x (replicate lanes s) lanes ! k = gf64_mul_reference s (x ! k)"
  using avx512_products [of k x s] assms by (simp add: GF64_HQC_BATCH_LANES_def)

lemma lanewise_fwd_group:
  assumes "j + half < n" "0 < half"
  shows "lanewise n (butterfly_fwd_group_batch half s j) (\<lambda>f. f[j := f ! j XOR gf64_mul_reference s (f ! (j + half)),
    j + half := f ! j XOR gf64_mul_reference (s XOR 1) (f ! (j + half))])"
proof -
  define fl where "fl = (\<lambda>A :: gf64_t list. map (\<lambda>k. A ! (j * lanes + k)) [0..<lanes])"
  define fh where "fh = (\<lambda>A :: gf64_t list. map (\<lambda>k. A ! ((j + half) * lanes + k)) [0..<lanes])"
  define pr where "pr = (\<lambda>A :: gf64_t list. gf64_mul_avx512 (replicate lanes 0) (fh A) (replicate lanes s) lanes)"
  have pr: "pr A ! k = gf64_mul_reference s (fh A ! k)" if "k < lanes" for A k
    unfolding pr_def by (rule lane_products [OF that]) (simp add: fh_def)
  have at: "fl A ! k = lane k A ! j" "fh A ! k = lane k A ! (j + half)" if "batch n A" "k < lanes" for A k
    using that assms by (simp_all add: fl_def fh_def nth_lane [OF that(1)])
  have step: "batch n (A[j * lanes + k := fl A0 ! k XOR pr A0 ! k,
        (j + half) * lanes + k := fl A0 ! k XOR pr A0 ! k XOR fh A0 ! k]) \<and>
    (\<forall>l<lanes. lane l (A[j * lanes + k := fl A0 ! k XOR pr A0 ! k,
        (j + half) * lanes + k := fl A0 ! k XOR pr A0 ! k XOR fh A0 ! k]) =
      (if k = l then (lane l A0)[j := lane l A0 ! j XOR gf64_mul_reference s (lane l A0 ! (j + half)),
        j + half := lane l A0 ! j XOR gf64_mul_reference (s XOR 1) (lane l A0 ! (j + half))] else lane l A))"
    if A0: "batch n A0" and A: "k < lanes" "batch n A" "\<And>l. k \<le> l \<Longrightarrow> l < lanes \<Longrightarrow> lane l A = lane l A0" for k A A0
    using A(1,2) A(3) [of k] at [OF A0 A(1)] pr [OF A(1), of A0]
    by (auto simp: lane_update [OF batch_update [OF A(2)]] lane_update [OF A(2)] mul_xor_1 xor.assoc)
  have group: "butterfly_fwd_group_batch half s j A0 = fold (\<lambda>k A. A[j * lanes + k := fl A0 ! k XOR pr A0 ! k,
      (j + half) * lanes + k := fl A0 ! k XOR pr A0 ! k XOR fh A0 ! k]) [0..<lanes] A0" for A0
    unfolding butterfly_fwd_group_batch_def Let_def fl_def fh_def pr_def ..
  show ?thesis
    unfolding group
  proof (rule lanewiseI, goal_cases)
    case (1 A)
    show ?case by (rule fold_lanes(2) [OF step [OF 1] 1 lanes_pos(1)])
  next
    case (2 A l)
    show ?case by (rule fold_lanes(1) [OF step [OF 2(1)] 2])
  qed
qed

lemma lanewise_inv_group:
  assumes "j + half < n" "0 < half"
  shows "lanewise n (butterfly_inv_group_batch half s j)
    (\<lambda>f. f[j := f ! j XOR gf64_mul_reference s (f ! j XOR f ! (j + half)), j + half := f ! j XOR f ! (j + half)])"
proof -
  define fl where "fl = (\<lambda>A :: gf64_t list. map (\<lambda>k. A ! (j * lanes + k)) [0..<lanes])"
  define fh where "fh = (\<lambda>A :: gf64_t list. map (\<lambda>k. A ! (j * lanes + k) XOR A ! ((j + half) * lanes + k)) [0..<lanes])"
  define pr where "pr = (\<lambda>A :: gf64_t list. gf64_mul_avx512 (replicate lanes 0) (fh A) (replicate lanes s) lanes)"
  have pr: "pr A ! k = gf64_mul_reference s (fh A ! k)" if "k < lanes" for A k
    unfolding pr_def by (rule lane_products [OF that]) (simp add: fh_def)
  have at: "fl A ! k = lane k A ! j" "fh A ! k = lane k A ! j XOR lane k A ! (j + half)" if "batch n A" "k < lanes" for A k
    using that assms by (simp_all add: fl_def fh_def nth_lane [OF that(1)])
  have step: "batch n (A[j * lanes + k := fl A0 ! k XOR pr A0 ! k, (j + half) * lanes + k := fh A0 ! k]) \<and>
    (\<forall>l<lanes. lane l (A[j * lanes + k := fl A0 ! k XOR pr A0 ! k, (j + half) * lanes + k := fh A0 ! k]) =
      (if k = l then (lane l A0)[j := lane l A0 ! j XOR gf64_mul_reference s (lane l A0 ! j XOR lane l A0 ! (j + half)),
        j + half := lane l A0 ! j XOR lane l A0 ! (j + half)] else lane l A))"
    if A0: "batch n A0" and A: "k < lanes" "batch n A" "\<And>l. k \<le> l \<Longrightarrow> l < lanes \<Longrightarrow> lane l A = lane l A0" for k A A0
    using A(1,2) A(3) [of k] at [OF A0 A(1)] pr [OF A(1), of A0]
    by (auto simp: lane_update [OF batch_update [OF A(2)]] lane_update [OF A(2)])
  have group: "butterfly_inv_group_batch half s j A0 = fold (\<lambda>k A. A[j * lanes + k := fl A0 ! k XOR pr A0 ! k,
      (j + half) * lanes + k := fh A0 ! k]) [0..<lanes] A0" for A0
    unfolding butterfly_inv_group_batch_def Let_def fl_def fh_def pr_def ..
  show ?thesis
    unfolding group
  proof (rule lanewiseI, goal_cases)
    case (1 A)
    show ?case by (rule fold_lanes(2) [OF step [OF 1] 1 lanes_pos(1)])
  next
    case (2 A l)
    show ?case by (rule fold_lanes(1) [OF step [OF 2(1)] 2])
  qed
qed

lemma lanewise_layers:
  assumes "n = 2 * half"
  shows "lanewise n (fold (butterfly_fwd_group_batch half s) [0..<half]) (\<lambda>f. butterfly_fwd_layer f half s)"
    and "lanewise n (fold (butterfly_inv_group_batch half s) [0..<half]) (\<lambda>f. butterfly_inv_layer f half s)"
  unfolding butterfly_fwd_layer_def butterfly_inv_layer_def Let_def
  by (rule lanewise_fold, rule lanewise_fwd_group lanewise_inv_group, use assms in auto)+

text \<open>\<open>in_lanes n r G\<close>: a buffer of \<open>n\<close> groups comes back, with \<open>G l\<close> in lane \<open>l\<close>.\<close>

definition in_lanes :: "nat \<Rightarrow> gf64_t list option \<Rightarrow> (nat \<Rightarrow> gf64_t list) \<Rightarrow> bool" where
  "in_lanes n r G \<longleftrightarrow> (\<exists>g. r = Some g \<and> batch n g \<and> (\<forall>l<lanes. lane l g = G l))"

lemma in_lanes_join:
  assumes "in_lanes h r F" "in_lanes h r' G"
  shows "in_lanes (2 * h) (r \<bind> (\<lambda>lo. r' \<bind> (\<lambda>hi. Some (lo @ hi)))) (\<lambda>l. F l @ G l)"
  using assms by (auto simp: in_lanes_def lane_append mult_2 intro: batch_append)

lemma in_lanes_cong: "in_lanes n r F \<Longrightarrow> (\<And>l. l < lanes \<Longrightarrow> F l = G l) \<Longrightarrow> in_lanes n r G"
  by (simp add: in_lanes_def)

lemma in_lanes_apply: "in_lanes n r F \<Longrightarrow> lanewise n H h \<Longrightarrow> in_lanes n (map_option H r) (\<lambda>l. h (F l))"
  by (auto simp: in_lanes_def lanewise_def)

lemma in_lanes_some: "lanewise n F f \<Longrightarrow> batch n A \<Longrightarrow> in_lanes n (Some (F A)) (\<lambda>l. f (lane l A))"
  by (simp add: in_lanes_def lanewise_def)

lemma exp_half: "k \<noteq> 0 \<Longrightarrow> (2::nat) ^ Suc k \<noteq> 2 \<and> \<not> 2 ^ Suc k < (2::nat) \<and> 2 ^ Suc k div 2 = (2::nat) ^ k"
  by (cases k) simp_all

lemma butterfly_fwd_lanes:
  assumes "batch (2 ^ k) f" "\<And>l. l < lanes \<Longrightarrow> butterfly_fwd reg (lane l f) (2 ^ k) nt a vt logn = Some (G l)"
  shows "in_lanes (2 ^ k) (butterfly_fwd_batch_avx512 reg f (2 ^ k) nt a vt logn) G"
  using assms
proof (induction k arbitrary: f a logn G)
  case 0
  from "0.prems"(2) [OF lanes_pos(1)] show ?case by (simp add: butterfly_fwd.simps [of _ _ "Suc 0"])
next
  case (Suc k)
  show ?case
  proof (cases "k = 0")
    case True
    have "in_lanes 2 (Some (butterfly_fwd_group_batch 1 a 0 f)) (\<lambda>l. (lane l f)[0 := lane l f ! 0 XOR
        gf64_mul_reference a (lane l f ! (0 + 1)), 0 + 1 := lane l f ! 0 XOR gf64_mul_reference (a XOR 1) (lane l f ! (0 + 1))])"
      by (rule in_lanes_some [OF lanewise_fwd_group]) (use Suc.prems(1) True in simp_all)
    then have "in_lanes 2 (Some (butterfly_fwd_group_batch 1 a 0 f)) G"
      by (rule in_lanes_cong)
        (use Suc.prems(2) True in \<open>simp add: butterfly_fwd.simps [of _ _ 2] Let_def\<close>)
    then show ?thesis by (simp add: True butterfly_fwd_batch_avx512.simps [of _ _ 2])
  next
    case False
    note half = exp_half [OF False]
    from Suc.prems(2) [OF lanes_pos(1)] half obtain s where s: "si_eval reg (logn - 1) a vt nt = Some s"
      by (subst (asm) butterfly_fwd.simps) (auto simp: Let_def split: bind_splits)
    define F where "F = fold (butterfly_fwd_group_batch (2 ^ k) s) [0..<2 ^ k] f"
    have F: "batch (2 * 2 ^ k) F" "lane l F = butterfly_fwd_layer (lane l f) (2 ^ k) s" if "l < lanes" for l
      using lanewiseD [OF lanewise_layers(1) [OF refl, where half = "2 ^ k" and s = s], of f] Suc.prems(1) that by (simp_all add: F_def)
    note F1 = F(1) [OF lanes_pos(1)]
    have take: "batch (2 ^ k) (take (2 ^ k * lanes) F)"
      "lane l (take (2 ^ k * lanes) F) = take (2 ^ k) (butterfly_fwd_layer (lane l f) (2 ^ k) s)"
      "batch (2 ^ k) (drop (2 ^ k * lanes) F)"
      "lane l (drop (2 ^ k * lanes) F) = drop (2 ^ k) (butterfly_fwd_layer (lane l f) (2 ^ k) s)" if "l < lanes" for l
      using batch_take [OF F1, of "2 ^ k"] lane_take [OF F1 _ that, of "2 ^ k"] batch_drop [OF F1, of "2 ^ k"]
        lane_drop [OF F1 that, of "2 ^ k"] F(2) [OF that] by simp_all
    define a' where "a' = a XOR vt_words vt ! (2 ^ (logn - 1))"
    define lo where "lo = (\<lambda>l. the (butterfly_fwd reg (lane l (take (2 ^ k * lanes) F)) (2 ^ k) nt a vt (logn - 1)))"
    define hi where "hi = (\<lambda>l. the (butterfly_fwd reg (lane l (drop (2 ^ k * lanes) F)) (2 ^ k) nt a' vt (logn - 1)))"
    have parts: "butterfly_fwd reg (lane l (take (2 ^ k * lanes) F)) (2 ^ k) nt a vt (logn - 1) = Some (lo l)"
      "butterfly_fwd reg (lane l (drop (2 ^ k * lanes) F)) (2 ^ k) nt a' vt (logn - 1) = Some (hi l)"
      "G l = lo l @ hi l" if "l < lanes" for l
      using Suc.prems(2) [OF that] half s take(2,4) [OF that]
      by (subst (asm) butterfly_fwd.simps; auto simp: lo_def hi_def a'_def Let_def split: bind_splits)+
    have "in_lanes (2 * 2 ^ k) (butterfly_fwd_batch_avx512 reg (take (2 ^ k * lanes) F) (2 ^ k) nt a vt (logn - 1) \<bind>
        (\<lambda>lo. butterfly_fwd_batch_avx512 reg (drop (2 ^ k * lanes) F) (2 ^ k) nt a' vt (logn - 1) \<bind>
          (\<lambda>hi. Some (lo @ hi)))) (\<lambda>l. lo l @ hi l)"
      by (intro in_lanes_join Suc.IH take(1,3) [OF lanes_pos(1)] parts(1,2))
    then have "in_lanes (2 ^ Suc k) (butterfly_fwd_batch_avx512 reg f (2 ^ Suc k) nt a vt logn) (\<lambda>l. lo l @ hi l)"
      by (subst butterfly_fwd_batch_avx512.simps) (use half s in \<open>simp add: Let_def F_def a'_def\<close>)
    then show ?thesis by (rule in_lanes_cong) (simp add: parts(3))
  qed
qed

lemma butterfly_inv_lanes:
  assumes "batch (2 ^ k) f" "\<And>l. l < lanes \<Longrightarrow> butterfly_inv reg (lane l f) (2 ^ k) nt a vt logn = Some (G l)"
  shows "in_lanes (2 ^ k) (butterfly_inv_batch_avx512 reg f (2 ^ k) nt a vt logn) G"
  using assms
proof (induction k arbitrary: f a logn G)
  case 0
  from "0.prems"(2) [OF lanes_pos(1)] show ?case by (simp add: butterfly_inv.simps [of _ _ "Suc 0"])
next
  case (Suc k)
  show ?case
  proof (cases "k = 0")
    case True
    have "in_lanes 2 (Some (butterfly_inv_group_batch 1 a 0 f)) (\<lambda>l. (lane l f)[0 := lane l f ! 0 XOR
        gf64_mul_reference a (lane l f ! 0 XOR lane l f ! (0 + 1)), 0 + 1 := lane l f ! 0 XOR lane l f ! (0 + 1)])"
      by (rule in_lanes_some [OF lanewise_inv_group]) (use Suc.prems(1) True in simp_all)
    then have "in_lanes 2 (Some (butterfly_inv_group_batch 1 a 0 f)) G"
      by (rule in_lanes_cong)
        (use Suc.prems(2) True in \<open>simp add: butterfly_inv.simps [of _ _ 2] Let_def\<close>)
    then show ?thesis by (simp add: True butterfly_inv_batch_avx512.simps [of _ _ 2])
  next
    case False
    note half = exp_half [OF False]
    from Suc.prems(2) [OF lanes_pos(1)] half obtain s where s: "si_eval reg (logn - 1) a vt nt = Some s"
      by (subst (asm) butterfly_inv.simps) (auto simp: Let_def split: bind_splits)
    have f: "batch (2 * 2 ^ k) f" using Suc.prems(1) by simp
    have take: "batch (2 ^ k) (take (2 ^ k * lanes) f)" "batch (2 ^ k) (drop (2 ^ k * lanes) f)"
      using batch_take [OF f, of "2 ^ k"] batch_drop [OF f, of "2 ^ k"] by simp_all
    have lanes: "lane l (take (2 ^ k * lanes) f) = take (2 ^ k) (lane l f)"
      "lane l (drop (2 ^ k * lanes) f) = drop (2 ^ k) (lane l f)" if "l < lanes" for l
      using lane_take [OF f _ that, of "2 ^ k"] lane_drop [OF f that, of "2 ^ k"] by simp_all
    define a' where "a' = a XOR vt_words vt ! (2 ^ (logn - 1))"
    define lo where "lo = (\<lambda>l. the (butterfly_inv reg (lane l (take (2 ^ k * lanes) f)) (2 ^ k) nt a vt (logn - 1)))"
    define hi where "hi = (\<lambda>l. the (butterfly_inv reg (lane l (drop (2 ^ k * lanes) f)) (2 ^ k) nt a' vt (logn - 1)))"
    have parts: "butterfly_inv reg (lane l (take (2 ^ k * lanes) f)) (2 ^ k) nt a vt (logn - 1) = Some (lo l)"
      "butterfly_inv reg (lane l (drop (2 ^ k * lanes) f)) (2 ^ k) nt a' vt (logn - 1) = Some (hi l)"
      "G l = butterfly_inv_layer (lo l @ hi l) (2 ^ k) s" if "l < lanes" for l
      using Suc.prems(2) [OF that] half s lanes [OF that]
      by (subst (asm) butterfly_inv.simps; auto simp: lo_def hi_def a'_def Let_def split: bind_splits)+
    have "in_lanes (2 * 2 ^ k) (map_option (fold (butterfly_inv_group_batch (2 ^ k) s) [0..<2 ^ k])
        (butterfly_inv_batch_avx512 reg (take (2 ^ k * lanes) f) (2 ^ k) nt a vt (logn - 1) \<bind>
        (\<lambda>lo. butterfly_inv_batch_avx512 reg (drop (2 ^ k * lanes) f) (2 ^ k) nt a' vt (logn - 1) \<bind>
          (\<lambda>hi. Some (lo @ hi))))) (\<lambda>l. butterfly_inv_layer (lo l @ hi l) (2 ^ k) s)"
      by (intro in_lanes_apply [OF _ lanewise_layers(2) [OF refl]] in_lanes_join Suc.IH take parts(1,2))
    also have "map_option (fold (butterfly_inv_group_batch (2 ^ k) s) [0..<2 ^ k])
        (butterfly_inv_batch_avx512 reg (take (2 ^ k * lanes) f) (2 ^ k) nt a vt (logn - 1) \<bind>
        (\<lambda>lo. butterfly_inv_batch_avx512 reg (drop (2 ^ k * lanes) f) (2 ^ k) nt a' vt (logn - 1) \<bind>
          (\<lambda>hi. Some (lo @ hi)))) = butterfly_inv_batch_avx512 reg f (2 ^ Suc k) nt a vt logn"
      by (subst (3) butterfly_inv_batch_avx512.simps)
        (use half s in \<open>simp add: Let_def a'_def map_option_bind o_def\<close>)
    finally show ?thesis by (simp add: in_lanes_def parts(3))
  qed
qed

section \<open>The transforms\<close>

lemma fwd_batch_spectrum:
  assumes ready: "hqc_ready alloc st" and L: "L \<le> 20" and A: "batch (2 ^ L) A"
  obtains g st' where "gf64_addfft64_fwd_batch_avx512 alloc t A (2 ^ L) (2 * lanes * 2 ^ L) st = Some (g, st')"
    "hqc_ready alloc st'" "batch (2 ^ L) g" "\<And>l. l < lanes \<Longrightarrow> lane l g = spectrum L (lane l A)"
proof (cases "L = 0")
  case True
  with A ready that [of A st] show ?thesis by (simp add: gf64_addfft64_fwd_batch_avx512_def spectrum_def)
next
  case False
  obtain vt st' where st': "get_or_build_v_table alloc t (2 ^ L) st = Some (vt, st')" "hqc_ready alloc st'"
    "registry_ok (hqc_vindex st') vt (2 ^ L)" using table_for [OF ready L] .
  note b = lanewiseD [OF lanewise_basisCvt(1) A]
  have "butterfly_fwd (hqc_vindex st') (lane l (basisCvt_batch_avx512 A (2 ^ L))) (2 ^ L) (2 ^ L)
      (GF64_CANTOR_BASIS ! (L - 1)) vt L = Some (spectrum L (lane l A))" if "l < lanes" for l
    using butterfly_values(1) [OF st'(3) _ L length_lane [OF A]] False by (simp add: b(2) [OF that] spectrum_def)
  from butterfly_fwd_lanes [OF b(1) this] obtain g where
    g: "butterfly_fwd_batch_avx512 (hqc_vindex st') (basisCvt_batch_avx512 A (2 ^ L)) (2 ^ L) (2 ^ L)
      (GF64_CANTOR_BASIS ! (L - 1)) vt L = Some g" "batch (2 ^ L) g" "\<And>l. l < lanes \<Longrightarrow> lane l g = spectrum L (lane l A)"
    by (auto simp: in_lanes_def)
  show ?thesis
    by (rule that [OF _ st'(2) g(2,3)])
      (use False two_le_exp [of L] g(1) in \<open>simp_all add: gf64_addfft64_fwd_batch_avx512_def Let_def st'(1)\<close>)
qed

lemma inv_batch_spectrum:
  assumes ready: "hqc_ready alloc st" and L: "L \<le> 20" and A: "batch (2 ^ L) A"
    and P: "\<And>l. l < lanes \<Longrightarrow> length (P l) = 2 ^ L \<and> lane l A = spectrum L (P l)"
  obtains g st' where "gf64_addfft64_inv_batch_avx512 alloc t A (2 ^ L) (2 * lanes * 2 ^ L) st = Some (g, st')"
    "hqc_ready alloc st'" "batch (2 ^ L) g" "\<And>l. l < lanes \<Longrightarrow> lane l g = P l"
proof (cases "L = 0")
  case True
  with A ready P that [of A st] show ?thesis by (simp add: gf64_addfft64_inv_batch_avx512_def spectrum_def)
next
  case False
  obtain vt st' where st': "get_or_build_v_table alloc t (2 ^ L) st = Some (vt, st')" "hqc_ready alloc st'"
    "registry_ok (hqc_vindex st') vt (2 ^ L)" using table_for [OF ready L] .
  have "butterfly_inv (hqc_vindex st') (lane l A) (2 ^ L) (2 ^ L)
      (GF64_CANTOR_BASIS ! (L - 1)) vt L = Some (basisCvt_recursive_v2 (P l) (2 ^ L))" if "l < lanes" for l
    using butterfly_values(2) [OF st'(3) _ L conjunct1 [OF P [OF that]]] False P [OF that] by (simp add: spectrum_def)
  from butterfly_inv_lanes [OF A this] obtain g where
    g: "butterfly_inv_batch_avx512 (hqc_vindex st') A (2 ^ L) (2 ^ L)
      (GF64_CANTOR_BASIS ! (L - 1)) vt L = Some g" "batch (2 ^ L) g"
      "\<And>l. l < lanes \<Longrightarrow> lane l g = basisCvt_recursive_v2 (P l) (2 ^ L)"
    by (auto simp: in_lanes_def)
  note i = lanewiseD [OF lanewise_basisCvt(2) g(2)]
  show ?thesis
    by (rule that [OF _ st'(2) i(1)])
      (use False two_le_exp [of L] g(1,3) i(2) P icvt_cvt L in
        \<open>simp_all add: gf64_addfft64_inv_batch_avx512_def Let_def st'(1)\<close>)
qed

lemma spectrum_product:
  assumes len: "length A = 2 ^ L" "length B = 2 ^ L"
    and AB: "below m (of_coeffs A)" "below k (of_coeffs B)" "m + k \<le> Suc (2 ^ L)" "m \<le> 2 ^ L" "k \<le> 2 ^ L"
  shows "map (\<lambda>i. gf64_mul_reference (spectrum L A ! i) (spectrum L B ! i)) [0..<2 ^ L] =
    spectrum L (to_coeffs (2 ^ L) (of_coeffs A * of_coeffs B))"
proof (cases "L = 0")
  case True
  with len obtain u v where uv: "A = [u]" "B = [v]" by (auto simp: length_Suc_conv)
  with True show ?thesis
    by (simp add: spectrum_def to_coeffs_def cf_mult coef_def flip: Gf_mul_reference)
qed (simp add: spectrum_def transform_product [OF AB])

section \<open>The product\<close>

text \<open>A loop over the groups that sets, in each lane, slot \<open>i\<close> to \<open>G i\<close> of what it held.\<close>

lemma lanewise_set_group:
  assumes g: "\<And>A k. \<lbrakk>batch n A; k < lanes\<rbrakk> \<Longrightarrow> g A k = G (lane k A ! i)"
  shows "lanewise n (\<lambda>A. fold (\<lambda>k q. q[i * lanes + k := g A k]) [0..<lanes] A) (\<lambda>q. q[i := G (q ! i)])"
proof (rule lanewiseI, goal_cases)
  case step: (1 A)
  have "batch n (B[i * lanes + k := g A k]) \<and> (\<forall>l<lanes. lane l (B[i * lanes + k := g A k]) =
      (if k = l then (lane l A)[i := G (lane l A ! i)] else lane l B))"
    if B: "k < lanes" "batch n B" "\<And>l. k \<le> l \<Longrightarrow> l < lanes \<Longrightarrow> lane l B = lane l A" for k B
    using B(3) [of k] B(1,2) g [OF step B(1)] by (auto simp: lane_update [OF B(2)])
  from fold_lanes(2) [OF this step lanes_pos(1)] show ?case by blast
next
  case step: (2 A l)
  have "batch n (B[i * lanes + k := g A k]) \<and> (\<forall>l<lanes. lane l (B[i * lanes + k := g A k]) =
      (if k = l then (lane l A)[i := G (lane l A ! i)] else lane l B))"
    if B: "k < lanes" "batch n B" "\<And>l. k \<le> l \<Longrightarrow> l < lanes \<Longrightarrow> lane l B = lane l A" for k B
    using B(3) [of k] B(1,2) g [OF step(1) B(1)] by (auto simp: lane_update [OF B(2)])
  from fold_lanes(1) [OF this step] show ?case by blast
qed

lemma batch_replicate: "batch n (replicate (lanes * n) v)" by (simp add: batch_def)

lemma lane_replicate: "l < lanes \<Longrightarrow> lane l (replicate (lanes * n) v) = replicate n v"
  by (rule laneI [OF batch_replicate]) (use slot_less [of _ n l] in \<open>auto simp: mult.commute\<close>)

text \<open>The shared transform, copied into every lane.\<close>

lemma replicated:
  assumes "length x = n"
  defines "R \<equiv> fold (\<lambda>i pt. fold (\<lambda>k pt. pt[i * lanes + k := x ! i]) [0..<lanes] pt) [0..<n] (replicate (lanes * n) 0)"
  shows "batch n R" "l < lanes \<Longrightarrow> lane l R = x"
proof -
  have "lanewise n (fold (\<lambda>i pt. fold (\<lambda>k pt. pt[i * lanes + k := x ! i]) [0..<lanes] pt) [0..<n])
    (fold (\<lambda>i q. q[i := x ! i]) [0..<n])"
    by (rule lanewise_fold, rule lanewise_set_group) simp
  note * = lanewiseD [OF this batch_replicate]
  show "batch n R" unfolding R_def by (rule *(1))
  show "lane l R = x" if "l < lanes"
    unfolding R_def *(2) [OF that] lane_replicate [OF that]
    by (subst fold_const_update_map) (use map_nth [of x] in \<open>simp_all add: assms(1)\<close>)
qed

text \<open>The words, each in its lane.\<close>

lemma transposed:
  fixes x :: "nat \<Rightarrow> gf64_t list"
  assumes "K \<le> lanes" "c \<le> n"
  defines "T \<equiv> \<lambda>K. fold (\<lambda>k pf. fold (\<lambda>i pf. pf[i * lanes + k := x k ! i]) [0..<c] pf) [0..<K] (replicate (lanes * n) 0)"
  shows "batch n (T K)" "l < lanes \<Longrightarrow> lane l (T K) = (if l < K then map (\<lambda>i. x l ! i) [0..<c] @ replicate (n - c) 0 else replicate n 0)"
proof -
  have one: "batch n (fold (\<lambda>i pf. pf[i * lanes + k := x k ! i]) [0..<c] A) \<and>
      (\<forall>l<lanes. lane l (fold (\<lambda>i pf. pf[i * lanes + k := x k ! i]) [0..<c] A) =
        (if k = l then fold (\<lambda>i q. q[i := x k ! i]) [0..<c] (lane l A) else lane l A))"
    if "batch n A" "k < lanes" for k c A
    using that by (induction c) (auto simp: lane_update [of n])
  have *: "batch n (T K) \<and> (\<forall>l<lanes. lane l (T K) =
      (if l < K then map (\<lambda>i. x l ! i) [0..<c] @ replicate (n - c) 0 else replicate n 0))"
    using assms(1)
  proof (induction K)
    case (Suc K)
    then show ?case
      using one [of "T K" K c] assms(2) fold_const_update_map [of c "replicate n 0" "\<lambda>i. x K ! i"]
      by (auto simp: T_def less_Suc_eq)
  qed (simp add: T_def batch_replicate lane_replicate)
  then show "batch n (T K)" "l < lanes \<Longrightarrow> lane l (T K) = (if l < K then map (\<lambda>i. x l ! i) [0..<c] @ replicate (n - c) 0 else replicate n 0)"
    by auto
qed

text \<open>The pointwise products, a group at a time.\<close>

lemma lanewise_products:
  assumes P: "batch n P" "\<And>l. l < lanes \<Longrightarrow> lane l P = y"
  shows "lanewise n (fold (\<lambda>i A. vstoreu A (i * lanes) (gf64_mul_avx512 (take lanes (drop (i * lanes) A))
      (take lanes (drop (i * lanes) A)) (take lanes (drop (i * lanes) P)) lanes)) [0..<n])
    (fold (\<lambda>i q. q[i := gf64_mul_reference (q ! i) (y ! i)]) [0..<n])"
proof (rule lanewise_fold)
  fix i assume "i \<in> set [0..<n]"
  then have i: "i < n" by simp
  have room: "i * lanes + lanes \<le> length A" if "batch n A" for A :: "gf64_t list"
    using mult_le_mono1 [of "Suc i" n lanes] i that by (simp add: batch_def)
  have len: "length (take lanes (drop (i * lanes) A)) = lanes" if "batch n A" for A :: "gf64_t list"
    using room [OF that] by simp
  have at: "take lanes (drop (i * lanes) A) ! k = lane k A ! i" if "batch n A" "k < lanes" for A :: "gf64_t list" and k
    using room [OF that(1)] that i by (simp add: nth_lane)
  have mul: "gf64_mul_avx512 (take lanes (drop (i * lanes) A)) (take lanes (drop (i * lanes) A))
      (take lanes (drop (i * lanes) P)) lanes = map (\<lambda>k. gf64_mul_reference (lane k A ! i) (y ! i)) [0..<lanes]"
    if "batch n A" for A
    using len [OF that] by (subst gf64_mul_avx512_eq)
      (auto simp: at [OF that] at [OF P(1)] P(2) simp del: nth_take nth_drop)
  have "lanewise n (\<lambda>A. fold (\<lambda>k q. q[i * lanes + k := gf64_mul_reference (lane k A ! i) (y ! i)]) [0..<lanes] A)
    (\<lambda>q. q[i := gf64_mul_reference (q ! i) (y ! i)])"
    by (rule lanewise_set_group) simp
  moreover have "fold (\<lambda>k q. q[i * lanes + k := gf64_mul_reference (lane k A ! i) (y ! i)]) [0..<lanes] A =
      vstoreu A (i * lanes) (gf64_mul_avx512 (take lanes (drop (i * lanes) A))
      (take lanes (drop (i * lanes) A)) (take lanes (drop (i * lanes) P)) lanes)" if "batch n A" for A
    unfolding mul [OF that] vstoreu_def by (rule fold_cong) simp_all
  ultimately show "lanewise n (\<lambda>A. vstoreu A (i * lanes) (gf64_mul_avx512 (take lanes (drop (i * lanes) A))
      (take lanes (drop (i * lanes) A)) (take lanes (drop (i * lanes) P)) lanes))
    (\<lambda>q. q[i := gf64_mul_reference (q ! i) (y ! i)])"
    by (simp add: lanewise_def)
qed

lemma interleaved_correct:
  assumes ready: "hqc_ready alloc st" and fits: "hqc_fits (sw div lanes) len_shared len_f out_len"
    and len: "len_shared \<le> length shared" "K * len_f \<le> length f" "K \<le> length outs" "K \<le> lanes"
    and out: "0 < out_len"
  obtains st' where "gf64_addfft64_poly_mul_batch_shared_interleaved_avx512 alloc t outs K shared len_shared f len_f
      out_len sw st = Some (batch_products outs K shared len_shared f len_f out_len, st')" "hqc_ready alloc st'"
proof (cases "K = 0 \<or> len_shared = 0 \<or> len_f = 0")
  case True
  then show ?thesis
    using len(3) out by (intro that [OF _ ready])
      (auto simp: gf64_addfft64_poly_mul_batch_shared_interleaved_avx512_def batch_products_def
        fold_const_update_map product_words_0)
next
  case False
  then have pos: "0 < len_shared" "0 < len_f" by auto
  obtain L where n: "next_pow2_size (if len_shared + len_f - 1 < out_len then out_len else len_shared + len_f - 1) = 2 ^ L"
    and L: "L \<le> 20" and sum: "len_shared + len_f \<le> Suc (2 ^ L)" and out_le: "out_len \<le> 2 ^ L"
    and le: "len_shared \<le> 2 ^ L" "len_f \<le> 2 ^ L" and sw: "4 * 2 ^ L \<le> sw div lanes" and max: "2 ^ L \<le> GF64_HQC_MAX_LM_N"
    by (rule hqc_fits_size [OF fits pos out])
  have words: "4 * lanes * 2 ^ L \<le> sw" using sw by (simp add: less_eq_div_iff_mult_less_eq ac_simps)
  define A where "A = take len_shared shared @ replicate (2 ^ L - len_shared) 0"
  note A = padded [OF len(1) le(1), folded A_def]
  define B where "B = (\<lambda>k. take len_f (drop (k * len_f) f) @ replicate (2 ^ L - len_f) 0)"
  have B: "length (B k) = 2 ^ L" "of_coeffs (B k) = poly (drop (k * len_f) f) len_f"
    "below len_f (of_coeffs (B k))" "len_f \<le> length (drop (k * len_f) f)" if "k < K" for k
  proof -
    have "Suc k * len_f \<le> K * len_f" using that by (intro mult_le_mono1) simp
    with len(2) show *: "len_f \<le> length (drop (k * len_f) f)" by simp
    from padded [OF * le(2), folded B_def] show "length (B k) = 2 ^ L"
      "of_coeffs (B k) = poly (drop (k * len_f) f) len_f" "below len_f (of_coeffs (B k))"
      by (simp_all add: B_def)
  qed
  have words_B: "map (\<lambda>i. drop (k * len_f) f ! i) [0..<len_f] @ replicate (2 ^ L - len_f) 0 = B k" if "k < K" for k
    using B(4) [OF that] by (auto simp: B_def intro!: nth_equalityI)
  define Z where "Z = (replicate (2 ^ L) 0 :: gf64_t list)"
  define in_lane where "in_lane = (\<lambda>l. if l < K then B l else Z)"
  have in_lane: "length (in_lane l) = 2 ^ L" "below len_f (of_coeffs (in_lane l))" for l
    using B(1,3) by (simp_all add: in_lane_def Z_def of_coeffs_replicate)
  obtain st2 where fa: "gf64_addfft64_fwd_recursive_scratch_avx512 alloc t A (2 ^ L) (2 * 2 ^ L) st =
      Some (spectrum L A, st2)" "hqc_ready alloc st2"
    using fwd_spectrum [OF ready L A(1)] unfolding fwd_avx512_eq [OF A(1)] .
  define PT where "PT = fold (\<lambda>i pt. fold (\<lambda>k pt. pt[i * lanes + k := spectrum L A ! i]) [0..<lanes] pt) [0..<2 ^ L]
    (replicate (lanes * 2 ^ L) 0)"
  note PT = replicated [OF length_spectrum [OF A(1)], folded PT_def]
  define PF where "PF = fold (\<lambda>k pf. fold (\<lambda>i pf. pf[i * lanes + k := drop (k * len_f) f ! i]) [0..<len_f] pf) [0..<K]
    (replicate (lanes * 2 ^ L) 0)"
  note PF = transposed [OF len(4) le(2), where x = "\<lambda>k. drop (k * len_f) f", folded PF_def]
  have PF_lane: "lane l PF = in_lane l" if "l < lanes" for l
    using PF(2) [OF that] words_B [of l] by (simp add: in_lane_def Z_def)
  obtain g st3 where fb: "gf64_addfft64_fwd_batch_avx512 alloc t PF (2 ^ L) (2 * lanes * 2 ^ L) st2 = Some (g, st3)"
    "hqc_ready alloc st3" "batch (2 ^ L) g" "\<And>l. l < lanes \<Longrightarrow> lane l g = spectrum L (in_lane l)"
    using fwd_batch_spectrum [OF fa(2) L PF(1), of t] PF_lane by metis
  define M where "M = fold (\<lambda>i A. vstoreu A (i * lanes) (gf64_mul_avx512 (take lanes (drop (i * lanes) A))
      (take lanes (drop (i * lanes) A)) (take lanes (drop (i * lanes) PT)) lanes)) [0..<2 ^ L] g"
  have "batch (2 ^ L) M \<and> (\<forall>l<lanes. lane l M =
      fold (\<lambda>i q. q[i := gf64_mul_reference (q ! i) (spectrum L A ! i)]) [0..<2 ^ L] (lane l g))"
    using lanewise_products [OF PT(1), of "spectrum L A"] PT(2) fb(3) by (simp add: lanewise_def M_def)
  then have M: "batch (2 ^ L) M" "\<And>l. l < lanes \<Longrightarrow> lane l M =
      fold (\<lambda>i q. q[i := gf64_mul_reference (q ! i) (spectrum L A ! i)]) [0..<2 ^ L] (lane l g)" by blast+
  have M_lane: "lane l M = spectrum L (to_coeffs (2 ^ L) (of_coeffs (in_lane l) * of_coeffs A))" if "l < lanes" for l
    unfolding M(2) [OF that] fb(4) [OF that] pointwise_fold [OF length_spectrum [OF in_lane(1)]]
    by (rule spectrum_product [OF in_lane(1) A(1) in_lane(2) _ _ le(2,1)])
      (use A sum in \<open>simp_all add: add.commute\<close>)
  have prod: "length (to_coeffs (2 ^ L) (of_coeffs (in_lane l) * of_coeffs A)) = 2 ^ L \<and>
      lane l M = spectrum L (to_coeffs (2 ^ L) (of_coeffs (in_lane l) * of_coeffs A))" if "l < lanes" for l
    using M_lane [OF that] by simp
  obtain h st4 where inv: "gf64_addfft64_inv_batch_avx512 alloc t M (2 ^ L) (2 * lanes * 2 ^ L) st3 = Some (h, st4)"
    "hqc_ready alloc st4" "batch (2 ^ L) h"
    "\<And>l. l < lanes \<Longrightarrow> lane l h = to_coeffs (2 ^ L) (of_coeffs (in_lane l) * of_coeffs A)"
    using inv_batch_spectrum [OF fb(2) L M(1) prod] by blast
  have word: "map (\<lambda>i. h ! (i * lanes + k)) [0..<out_len] =
      product_words shared len_shared (drop (k * len_f) f) len_f out_len" if "k < K" for k
  proof -
    have "map (\<lambda>i. h ! (i * lanes + k)) [0..<out_len] = take out_len (lane k h)"
      using out_le inv(3) by (intro nth_equalityI) (simp_all add: nth_lane length_lane [of "2 ^ L"])
    also have "\<dots> = product_words shared len_shared (drop (k * len_f) f) len_f out_len"
      using that len(4) by (simp add: inv(4) take_product [OF out_le] product_words_def in_lane_def A(2) B(2) mult.commute)
    finally show ?thesis .
  qed
  have outs: "fold (\<lambda>k outs. outs[k := map (\<lambda>i. h ! (i * lanes + k)) [0..<out_len]]) [0..<K] outs =
      batch_products outs K shared len_shared f len_f out_len"
    unfolding batch_products_def using word by (subst fold_const_update_map [OF len(3)]) simp
  have caps: "(if (if a < out_len then out_len else a) < out_len then b else out_len) = out_len" for a b :: nat by simp
  have cap_f: "(if len_f < 2 ^ L then len_f else 2 ^ L) = len_f" using le(2) by simp
  have "gf64_addfft64_poly_mul_batch_shared_interleaved_avx512 alloc t outs K shared len_shared f len_f
      out_len sw st = Some (batch_products outs K shared len_shared f len_f out_len, st4)"
    unfolding gf64_addfft64_poly_mul_batch_shared_interleaved_avx512_def Let_def n caps cap_f
    using pos out False words max
    by (simp add: A_def [symmetric] fa(1) PT_def [symmetric] PF_def [symmetric] fb(1) M_def [symmetric] inv(1) outs)
  then show ?thesis using that inv(2) by blast
qed

end
