(* ===== verification/Polynomial_Correctness.thy ===== *)
theory Polynomial_Correctness
  imports Additive_FFT Poly_Product HQC_Batch
begin

text \<open>The properties of the polynomial products and of the additive FFTs.\<close>

section \<open>Example states\<close>

text \<open>An allocator that keeps its promise, for the examples.\<close>

definition fresh_allocator :: allocator where
  "fresh_allocator st = \<lparr>new_addr = Suc (sum_list (live_tables st)), realloc_ok = True, malloc_ok = True\<rparr>"

definition example_globals :: poly_globals where
  "example_globals = \<lparr>gf64_dispatch_counts = \<lparr>schoolbook = 0, karatsuba = 0, toom3 = 0, fft = 0, hqc_fft = 0\<rparr>,
    gf64_hqc_max_lm_n_override = 0, poly_method = GF64_SCALAR, hqc_tables = hqc_start\<rparr>"

lemma fresh_allocator_ok: "allocator_ok fresh_allocator"
proof -
  have "n \<le> sum_list ns" if "n \<in> set ns" for n :: nat and ns using that by (simp add: member_le_sum_list)
  from this [of "Suc (sum_list (live_tables st))" "live_tables st" for st] show ?thesis
    unfolding allocator_ok_def fresh_allocator_def by auto
qed

lemma example_ready: "hqc_ready fresh_allocator hqc_start" "poly_ready fresh_allocator example_globals"
  by (simp_all add: hqc_ready_def fresh_allocator_ok tables_ok_start poly_ready_def example_globals_def)

section \<open>The products\<close>

text \<open>
  C13. The product that the rest of the program calls writes the low \<open>out_len\<close> coefficients of the
  product, padded with zeros, exactly when the output block meets neither input block, and aborts
  otherwise. The tier that is chosen, the current instruction set and the content of the caches do
  not matter; one counter moves by one unless nothing is written.
\<close>

theorem poly_mul_padded_correct:
  assumes "poly_ready alloc g" and "len_a \<le> length a" "len_b \<le> length b"
    and "in_memory out out_len" "in_memory pa len_a" "in_memory pb len_b"
  shows "if block_of out out_len \<inter> (block_of pa len_a \<union> block_of pb len_b) = {}
    then \<exists>g'. gf64_poly_mul_padded alloc t out (pa, a) len_a (pb, b) len_b out_len g =
        Some (product_words a len_a b len_b out_len, g') \<and> poly_ready alloc g' \<and>
        (if out_len = 0 then g' = g else tier_counted g g')
    else gf64_poly_mul_padded alloc t out (pa, a) len_a (pb, b) len_b out_len g = None"
proof -
  have "len_a \<le> 2 ^ 61" "len_b \<le> 2 ^ 61" using assms(5,6) in_memory_length by blast+
  then have "\<exists>n. gf64_poly_product_len len_a len_b = Some n" by (simp add: product_len_exact SIZE_MAX_def) linarith
  then obtain n where n: "gf64_poly_product_len len_a len_b = Some n" ..
  note run = gf64_poly_mul_padded_def n fst_conv assert_no_output_alias_exact [OF assms(4-6)]
  show ?thesis
  proof (cases "out_len = 0")
    case True
    then show ?thesis using assms(1) unfolding run
      by (auto simp: gf64_poly_mul_internal_def product_words_0)
  next
    case False
    then obtain g' where "gf64_poly_mul_internal alloc t a len_a b len_b out_len g =
        Some (product_words a len_a b len_b out_len, g')" "poly_ready alloc g'" "tier_counted g g'"
      using gf64_poly_mul_internal_correct [OF assms(1-3), of out_len t] by auto
    with False show ?thesis by (auto simp: run)
  qed
qed

theorem poly_mul_padded_correct_witness:
  "\<exists>g'. gf64_poly_mul_padded fresh_allocator 0 0 (800, [3, 1]) 2 (1600, [5]) 1 3 example_globals =
    Some (product_words [3, 1] 2 [5] 1 3, g')"
proof -
  have "block_of 0 3 \<inter> (block_of 800 2 \<union> block_of 1600 1) = {}" by (auto simp: block_of_def)
  then show ?thesis
    using poly_mul_padded_correct [OF example_ready(2), of 2 "[3, 1]" 1 "[5]" 0 3 800 1600 0]
    unfolding in_memory_def UINTPTR_MAX_def by auto
qed

text \<open>
  \<open>gf64_poly_mul\<close> never works on a wrapped length: when it returns, the degrees were below the
  largest \<open>size_t\<close>, the length of the product fits into a \<open>size_t\<close>, the result has that length and holds
  the product.
\<close>

theorem poly_mul_length_never_wraps:
  assumes "gf64_poly_mul alloc t out (pa, a) deg_a (pb, b) deg_b g = Some (r, g')"
    and "poly_ready alloc g" "deg_a \<le> SIZE_MAX" "deg_b \<le> SIZE_MAX" "deg_a < length a" "deg_b < length b"
  shows "deg_a < SIZE_MAX \<and> deg_b < SIZE_MAX \<and> deg_a + deg_b + 1 \<le> SIZE_MAX \<and>
    r = product_words a (deg_a + 1) b (deg_b + 1) (deg_a + deg_b + 1)"
proof -
  have deg: "deg_a \<noteq> SIZE_MAX" "deg_b \<noteq> SIZE_MAX" using assms(1) by (auto simp: gf64_poly_mul_def)
  then have len: "deg_b + 1 \<le> SIZE_MAX" using assms(4) by simp
  have fits: "deg_a + deg_b + 1 \<le> SIZE_MAX"
    using assms(1) deg unfolding gf64_poly_mul_def Let_def product_len_exact [OF len] by (simp split: if_splits)
  obtain h where "gf64_poly_mul_internal alloc t a (deg_a + 1) b (deg_b + 1) (deg_a + deg_b + 1) g =
      Some (product_words a (deg_a + 1) b (deg_b + 1) (deg_a + deg_b + 1), h)"
    using gf64_poly_mul_internal_correct [OF assms(2), of "deg_a + 1" a "deg_b + 1" b "deg_a + deg_b + 1" t]
      assms(5,6) by auto
  then have "r = product_words a (deg_a + 1) b (deg_b + 1) (deg_a + deg_b + 1)"
    using assms(1) deg fits unfolding gf64_poly_mul_def Let_def product_len_exact [OF len]
    by (auto simp: Option.bind_eq_Some_conv)
  with deg fits assms(3,4) show ?thesis by simp
qed

theorem poly_mul_length_never_wraps_witness:
  "\<exists>r g'. gf64_poly_mul fresh_allocator 0 0 (800, [3]) 0 (1600, [5]) 0 example_globals = Some (r, g') \<and>
    r = product_words [3] 1 [5] 1 1"
proof -
  obtain r g' where run: "gf64_poly_mul fresh_allocator 0 0 (800, [3]) 0 (1600, [5]) 0 example_globals = Some (r, g')"
    by (simp add: gf64_poly_mul_def SIZE_MAX_def gf64_poly_product_len_def gf64_assert_no_output_alias_def
        gf64_ranges_overlap_def gf64_range_end_def UINTPTR_MAX_def gf64_poly_mul_internal_def GF64_HQC_FFT_MIN_def
        GF64_POLY_MUL_INTERNAL_KARATSUBA_MIN_def Let_def)
  show ?thesis
    using poly_mul_length_never_wraps [OF run example_ready(2)] run by auto
qed

text \<open>
  C17. Karatsuba multiplication never runs out of scratch memory and returns the low \<open>out_len\<close>
  coefficients of the product, for all lengths and truncations.
\<close>

theorem karatsuba_correct:
  assumes "len_a \<le> length a" "len_b \<le> length b"
  shows "gf64_poly_mul_karatsuba a len_a b len_b out_len = Some (product_words a len_a b len_b out_len)"
  by (rule karatsuba.product) (simp_all add: assms)

theorem karatsuba_correct_witness:
  "gf64_poly_mul_karatsuba [3, 1] 2 [5] 1 2 = Some (product_words [3, 1] 2 [5] 1 2)"
  by (rule karatsuba_correct) simp_all

section \<open>The HQC transform\<close>

text \<open>
  C14. The forward transform of \<open>2^L\<close> coefficients returns the values of the polynomial at the
  \<open>2^L\<close> points of the affine line through the Cantor vector of index \<open>L - 1\<close>, whatever the caches
  hold, and the inverse transform, in any later state of the caches, returns the coefficients.
\<close>

theorem hqc_transform_evaluates:
  assumes "hqc_ready alloc st" "hqc_ready alloc st2" "0 < L" "L \<le> 20" "length f = 2 ^ L" "2 * 2 ^ L \<le> sw"
  shows "\<exists>r st'. gf64_addfft64_fwd_recursive_scratch alloc t f (2 ^ L) sw st = Some (r, st') \<and>
    hqc_ready alloc st' \<and> length r = 2 ^ L \<and>
    (\<forall>i<2 ^ L. Gf (r ! i) = eval (2 ^ L) (of_coeffs f) (Gf (GF64_CANTOR_BASIS ! (L - 1) XOR compute_v_j i))) \<and>
    (\<exists>st2'. gf64_addfft64_inv_recursive_scratch alloc u r (2 ^ L) sw st2 = Some (f, st2') \<and> hqc_ready alloc st2')"
proof -
  obtain st' where st': "gf64_addfft64_fwd_recursive_scratch alloc t f (2 ^ L) sw st =
      Some (transform_values L (of_coeffs f), st')" "hqc_ready alloc st'"
    using fwd_recursive_correct [OF assms(1,3-6)] .
  obtain st2' where st2': "gf64_addfft64_inv_recursive_scratch alloc u (transform_values L (of_coeffs f)) (2 ^ L) sw st2 =
      Some (f, st2')" "hqc_ready alloc st2'"
    using inv_recursive_correct [OF assms(2-6)] .
  have "Gf (transform_values L (of_coeffs f) ! i) =
      eval (2 ^ L) (of_coeffs f) (Gf (GF64_CANTOR_BASIS ! (L - 1) XOR compute_v_j i))" if "i < 2 ^ L" for i
    using that by (simp add: transform_values_def coset_values_def W_def cantor_def Gf_xor)
  with st' st2' length_transform_values show ?thesis
    by (intro exI [of _ "transform_values L (of_coeffs f)"]) blast
qed

theorem hqc_transform_evaluates_witness:
  "\<exists>r st'. gf64_addfft64_fwd_recursive_scratch fresh_allocator 0 [7, 9] (2 ^ 1) 4 hqc_start = Some (r, st') \<and>
    length r = 2"
  using hqc_transform_evaluates [OF example_ready(1) example_ready(1), of 1 "[7, 9]" 4 0 0] by auto

text \<open>
  The smallest product, of one word by one word, writes its two operands to the scratch area and
  nothing else; any area of two words gives the result of a larger one.
\<close>

lemma one_word_product_scratch:
  assumes "2 \<le> sw"
  shows "gf64_addfft64_poly_mul_recursive_scratch alloc t a 1 b 1 1 sw st =
      gf64_addfft64_poly_mul_recursive_scratch alloc t a 1 b 1 1 4 st"
    "gf64_addfft64_poly_mul_recursive_scratch_avx512 alloc t a 1 b 1 1 sw st =
      gf64_addfft64_poly_mul_recursive_scratch_avx512 alloc t a 1 b 1 1 4 st"
  using assms
  by (simp_all add: gf64_addfft64_poly_mul_recursive_scratch_def gf64_addfft64_poly_mul_recursive_scratch_avx512_def
      gf64_addfft64_poly_mul_recursive_scratch_words_def)

lemma one_word_product_overrun:
  assumes "sw < 2"
  shows "gf64_addfft64_poly_mul_recursive_scratch alloc t a 1 b 1 1 sw st = None"
    "gf64_addfft64_poly_mul_recursive_scratch_avx512 alloc t a 1 b 1 1 sw st = None"
  using assms
  by (simp_all add: gf64_addfft64_poly_mul_recursive_scratch_def gf64_addfft64_poly_mul_recursive_scratch_avx512_def)

text \<open>
  C15. The HQC product, scalar and AVX-512, returns the product whenever the padded size is at most
  \<open>2^20\<close> and the scratch area has the size that \<open>poly_mul_recursive_scratch_words\<close> asks for, with one
  exception: for the product of one word by one word that query answers 0, while the code copies the
  two operands to the area; given less than two words it writes past the end (None).
\<close>

theorem hqc_product_correct:
  assumes "hqc_ready alloc st" "len_a \<le> length a" "len_b \<le> length b"
    and "max (len_a + len_b - 1) out_len \<le> 2 ^ 20"
    and "gf64_addfft64_poly_mul_recursive_scratch_words
      (next_pow2_size (max (len_a + len_b - 1) out_len)) \<le> sw"
  shows "if len_a = 1 \<and> len_b = 1 \<and> out_len = 1 \<and> sw < 2
    then gf64_addfft64_poly_mul_recursive_scratch alloc t a len_a b len_b out_len sw st = None \<and>
      gf64_addfft64_poly_mul_recursive_scratch_avx512 alloc t a len_a b len_b out_len sw st = None
    else \<exists>st'. gf64_addfft64_poly_mul_recursive_scratch alloc t a len_a b len_b out_len sw st =
        Some (product_words a len_a b len_b out_len, st') \<and> hqc_ready alloc st' \<and>
      gf64_addfft64_poly_mul_recursive_scratch_avx512 alloc t a len_a b len_b out_len sw st =
        Some (product_words a len_a b len_b out_len, st')"
proof -
  have agree: "\<exists>st'. gf64_addfft64_poly_mul_recursive_scratch alloc t a len_a b len_b out_len sw st =
        Some (product_words a len_a b len_b out_len, st') \<and> hqc_ready alloc st' \<and>
      gf64_addfft64_poly_mul_recursive_scratch_avx512 alloc t a len_a b len_b out_len sw st =
        Some (product_words a len_a b len_b out_len, st')" if fits: "hqc_fits sw len_a len_b out_len" for sw
    using poly_mul_recursive_correct [OF assms(1) fits assms(2,3)]
      poly_mul_recursive_avx512_correct [OF assms(1) fits assms(2,3)] by metis
  consider (one) "len_a = 1" "len_b = 1" "out_len = 1" | (none) "len_a = 0 \<or> len_b = 0 \<or> out_len = 0"
    | (more) "1 < max (len_a + len_b - 1) out_len" by linarith
  then show ?thesis
  proof cases
    case one
    then show ?thesis
      using agree [of 4] one_word_product_overrun [of sw] one_word_product_scratch [of sw]
      by (cases "sw < 2") (simp_all add: hqc_fits_def)
  next
    case none
    then show ?thesis using agree [of sw] by (auto simp: hqc_fits_def)
  next
    case more
    obtain L where "next_pow2_size (max (len_a + len_b - 1) out_len) = 2 ^ L" "max (len_a + len_b - 1) out_len \<le> 2 ^ L"
      by (rule next_pow2_size_exp)
    then have "\<not> next_pow2_size (max (len_a + len_b - 1) out_len) \<le> 1" using more by linarith
    then have "hqc_fits sw len_a len_b out_len"
      using assms(4,5) unfolding hqc_fits_def gf64_addfft64_poly_mul_recursive_scratch_words_def by simp
    from agree [OF this] show ?thesis using more by auto
  qed
qed

theorem hqc_product_correct_witness:
  "(\<exists>st'. gf64_addfft64_poly_mul_recursive_scratch fresh_allocator 0 [3, 1] 2 [5] 1 2 8 hqc_start =
      Some (product_words [3, 1] 2 [5] 1 2, st')) \<and>
    gf64_addfft64_poly_mul_recursive_scratch fresh_allocator 0 [3] 1 [5] 1 1 0 hqc_start = None"
proof -
  have "next_pow2_size 2 = 2"
    unfolding next_pow2_size_def by (subst next_pow2_from.simps, simp, subst next_pow2_from.simps, simp)
  then show ?thesis
    using hqc_product_correct [OF example_ready(1), of 2 "[3, 1]" 1 "[5]" 2 8 0]
      hqc_product_correct [OF example_ready(1), of 1 "[3]" 1 "[5]" 1 0 0]
    by (auto simp: gf64_addfft64_poly_mul_recursive_scratch_words_def)
qed

text \<open>
  The batch with a shared operand writes, for each of its \<open>K\<close> rows, the product of the row and
  the shared operand, with either instruction set, and leaves the other rows as they are.
\<close>

theorem batch_shared_correct:
  assumes "hqc_ready alloc st" "hqc_fits sw len_shared len_f out_len"
    and "len_shared \<le> length shared" "K * len_f \<le> length f" "K \<le> length outs"
  shows "\<exists>outs' st'. gf64_addfft64_poly_mul_batch_shared_core alloc t outs K shared len_shared f len_f out_len sw
      use_avx512 st = Some (outs', st') \<and> length outs' = length outs \<and>
    (\<forall>k<length outs. outs' ! k = (if k < K
      then product_words shared len_shared (take len_f (drop (k * len_f) f)) len_f out_len else outs ! k))"
proof -
  obtain st' where "gf64_addfft64_poly_mul_batch_shared_core alloc t outs K shared len_shared f len_f out_len sw
      use_avx512 st = Some (batch_products outs K shared len_shared f len_f out_len, st')"
    using batch_shared_core_correct [OF assms] .
  then show ?thesis
    using assms(5) by (auto simp: batch_products_def nth_append product_words_def)
qed

theorem batch_shared_correct_witness:
  "\<exists>outs' st'. gf64_addfft64_poly_mul_batch_shared_core fresh_allocator 0 [[]] 1 [3] 1 [5] 1 1 4 True hqc_start =
    Some (outs', st') \<and> outs' ! 0 = product_words [3] 1 [5] 1 1"
  using batch_shared_correct [OF example_ready(1), of 4 1 1 1 "[3]" 1 "[5]" "[[]]" 0 True]
  by (auto simp: hqc_fits_def)

text \<open>
  The interleaved batch, which keeps the rows in the lanes of vectors, writes word for word what the
  row-by-row batch writes: the product of each row and the shared operand.
\<close>

theorem interleaved_batch_agrees:
  assumes "hqc_ready alloc st" "hqc_fits (sw div GF64_HQC_BATCH_LANES) len_shared len_f out_len" "0 < out_len"
    and "len_shared \<le> length shared" "K * len_f \<le> length f" "K \<le> length outs" "K \<le> GF64_HQC_BATCH_LANES"
  shows "\<exists>outs' st1 st2. gf64_addfft64_poly_mul_batch_shared_interleaved_avx512 alloc t outs K shared len_shared f len_f
      out_len sw st = Some (outs', st1) \<and> hqc_ready alloc st1 \<and>
    gf64_addfft64_poly_mul_batch_shared_avx512 alloc t outs K shared len_shared f len_f out_len sw st = Some (outs', st2) \<and>
    length outs' = length outs \<and>
    (\<forall>k<length outs. outs' ! k = (if k < K
      then product_words shared len_shared (take len_f (drop (k * len_f) f)) len_f out_len else outs ! k))"
proof -
  have sw: "hqc_fits sw len_shared len_f out_len"
    using assms(2) div_le_dividend [of sw GF64_HQC_BATCH_LANES] unfolding hqc_fits_def by linarith
  obtain st1 where 1: "gf64_addfft64_poly_mul_batch_shared_interleaved_avx512 alloc t outs K shared len_shared f len_f
      out_len sw st = Some (batch_products outs K shared len_shared f len_f out_len, st1)" "hqc_ready alloc st1"
    using interleaved_correct [OF assms(1,2,4-7,3)] .
  obtain st2 where 2: "gf64_addfft64_poly_mul_batch_shared_avx512 alloc t outs K shared len_shared f len_f out_len sw st =
      Some (batch_products outs K shared len_shared f len_f out_len, st2)"
    using batch_shared_core_correct [OF assms(1) sw assms(4-6)] unfolding gf64_addfft64_poly_mul_batch_shared_avx512_def by metis
  show ?thesis using 1 2 assms(6) by (auto simp: batch_products_def nth_append product_words_def)
qed

theorem interleaved_batch_agrees_witness:
  "\<exists>outs' st1 st2. gf64_addfft64_poly_mul_batch_shared_interleaved_avx512 fresh_allocator 0 [[], []] 2 [3] 1 [5, 6] 1 1 64 hqc_start =
      Some (outs', st1) \<and>
    gf64_addfft64_poly_mul_batch_shared_avx512 fresh_allocator 0 [[], []] 2 [3] 1 [5, 6] 1 1 64 hqc_start = Some (outs', st2) \<and>
    outs' ! 1 = product_words [3] 1 [6] 1 1"
  using interleaved_batch_agrees [OF example_ready(1), of 64 1 1 1 "[3]" 2 "[5, 6]" "[[], []]" 0]
  by (auto simp: hqc_fits_def GF64_HQC_BATCH_LANES_def)

section \<open>The tables\<close>

text \<open>
  C16. In every state that threads can reach by asking for tables and by exiting, in any order and
  with any memory allocator, a cached table of size \<open>n\<close> is the table of the Cantor points and
  \<open>si_eval\<close> on it returns \<open>W(j >> i)\<close>: no thread ever finds the hash of a table that is gone.
\<close>

theorem tables_consistent:
  assumes "(hqc_step alloc)\<^sup>*\<^sup>* hqc_start st" "allocator_ok alloc"
    and "map_of (hqc_vtable_caches st) t = Some cache" "c \<in> set cache" "sl_initialized c" "j < sl_n c"
  shows "si_eval (hqc_vindex st) i (compute_v_j j) (sl_v_table c) (sl_n c) = Some (compute_v_j (j div 2 ^ i))"
proof -
  have ok: "tables_ok st" using hqc_reachable_tables_ok [OF assms(1,2)] .
  obtain k where "k < length cache" "cache ! k = c" using assms(4) by (auto simp: in_set_conv_nth)
  with assms(3,5) have "slot_at st t k c" by (auto simp: slot_at_def)
  then show ?thesis using si_eval_point [OF tables_ok_registry [OF ok]] assms(6) by blast
qed

theorem tables_consistent_witness:
  "\<exists>vt st. get_or_build_v_table fresh_allocator 0 2 hqc_start = Some (vt, st) \<and>
    (\<exists>cache c. map_of (hqc_vtable_caches st) 0 = Some cache \<and> c \<in> set cache \<and> sl_n c = 2 \<and>
      si_eval (hqc_vindex st) 0 (compute_v_j 1) (sl_v_table c) 2 = Some (compute_v_j 1))"
proof -
  define c where "c = \<lparr>sl_n = 2, sl_v_table = \<lparr>vt_addr = 1, vt_words = map compute_v_j [0..<2]\<rparr>, sl_initialized = True\<rparr>"
  define cache where "cache = c # replicate 15 \<lparr>sl_n = 0, sl_v_table = \<lparr>vt_addr = 0, vt_words = []\<rparr>, sl_initialized = False\<rparr>"
  obtain vt st where st: "get_or_build_v_table fresh_allocator 0 2 hqc_start = Some (vt, st)"
    by (rule get_or_build_v_table_ok [OF tables_ok_start fresh_allocator_ok, of 2 0]) simp_all
  then have cache: "map_of (hqc_vtable_caches st) 0 = Some cache"
    by (auto simp: get_or_build_v_table_def get_thread_vtable_cache_def hqc_start_def evict_slot_def free_slot_index_def
        HQC_VTABLE_CACHE_SLOTS_def fresh_allocator_def live_tables_def cache_def c_def upt_conv_Cons numeral_eq_Suc
        Option.bind_eq_Some_conv Let_def)
  have "hqc_step fresh_allocator hqc_start st" using st by (intro hqc_step.Table) simp_all
  then have "(hqc_step fresh_allocator)\<^sup>*\<^sup>* hqc_start st" by blast
  then have "si_eval (hqc_vindex st) 0 (compute_v_j 1) (sl_v_table c) 2 = Some (compute_v_j 1)"
    using tables_consistent [OF _ fresh_allocator_ok cache, of c 1 0] by (simp add: cache_def c_def)
  moreover have "c \<in> set cache" "sl_n c = 2" by (simp_all add: cache_def c_def)
  ultimately show ?thesis using st cache by blast
qed

text \<open>
  On a table that a thread uses, the index search through the hash returns what the linear
  scan returns, for every word, also for one that is not in the table.
\<close>

theorem hash_lookup_is_scan:
  assumes "registry_ok reg v_table n"
  shows "compute_index_for reg a v_table n = Some (if a = 0 then 0 else vindex_scan (vt_words v_table) n a)"
  by (simp add: compute_index_for_scan [OF assms] registry_ok_words [OF assms])

theorem hash_lookup_is_scan_witness:
  "\<exists>vt st. get_or_build_v_table fresh_allocator 0 2 hqc_start = Some (vt, st) \<and>
    compute_index_for (hqc_vindex st) 1 vt 2 = Some (vindex_scan (vt_words vt) 2 1)"
proof -
  obtain vt st where st: "get_or_build_v_table fresh_allocator 0 2 hqc_start = Some (vt, st)"
    and ok: "registry_ok (hqc_vindex st) vt 2"
    by (rule get_or_build_v_table_ok [OF tables_ok_start fresh_allocator_ok, of 2 0]) simp_all
  show ?thesis using st hash_lookup_is_scan [OF ok, of 1] by simp
qed

section \<open>The change of basis\<close>

text \<open>
  C37. The XOR recursion takes the coefficients of a polynomial to its coefficients over the novel
  basis, so that both denote the same function on the field, and the inverse recursion undoes it,
  for every power of two up to \<open>2^20\<close>.
\<close>

theorem change_of_basis_correct:
  assumes "length f = 2 ^ L" "L \<le> 20"
  shows "length (basisCvt_recursive_v2 f (2 ^ L)) = 2 ^ L \<and>
    (\<forall>z. novel_eval L (basisCvt_recursive_v2 f (2 ^ L)) z = eval (2 ^ L) (of_coeffs f) z) \<and>
    ibasisCvt_recursive_v2 (basisCvt_recursive_v2 f (2 ^ L)) (2 ^ L) = f \<and>
    basisCvt_recursive_v2 (ibasisCvt_recursive_v2 f (2 ^ L)) (2 ^ L) = f"
  using basisCvt_recursive_v2_correct [OF assms(1)] icvt_cvt [OF assms] cvt_icvt [OF assms] by blast

theorem change_of_basis_correct_witness:
  "length (basisCvt_recursive_v2 [1, 2, 3, 4] (2 ^ 2)) = 2 ^ 2"
  using change_of_basis_correct [of "[1, 2, 3, 4]" 2] by simp

section \<open>The monomial-basis transform\<close>

text \<open>
  C38. The monomial-basis transform of \<open>2^k\<close> coefficients, followed by its inverse, multiplies every
  coefficient by the documented scale, the word \<open>2^(k-1)\<close> (and a single coefficient by nothing);
  the AVX-512 versions return what the scalar ones return.
\<close>

theorem fft_round_trip_scales:
  assumes "length q = 2 ^ k"
  shows "\<exists>r. gf64_fft_forward q (2 ^ k) = Some r \<and> gf64_fft_forward_avx512 q (2 ^ k) = Some r \<and>
    gf64_fft_inverse r (2 ^ k) =
      Some (if k = 0 then q else map (\<lambda>v. gf64_mul_reference v (push_bit (k - 1) 1)) q) \<and>
    gf64_fft_inverse r (2 ^ k) = Some (gf64_fft_inverse_avx512 r (2 ^ k))"
proof -
  obtain r where r: "gf64_fft_forward q (2 ^ k) = Some r" "length r = 2 ^ k"
    using fft_round_trip [OF assms] by blast
  then show ?thesis
    using fft_scaled_round_trip [OF assms]
    by (auto simp: gf64_fft_forward_avx512_eq [OF assms] gf64_fft_inverse_avx512_eq [OF r(2)])
qed

theorem fft_round_trip_scales_witness:
  "\<exists>r. gf64_fft_forward [1, 2] 2 = Some r \<and> gf64_fft_inverse r 2 = Some [1, 2]"
proof -
  have "gf64_mul_reference v 1 = v" for v by (rule gf.inject [THEN iffD1]) (simp add: Gf_mul_reference)
  then show ?thesis using fft_round_trip_scales [of "[1, 2]" 1] by auto
qed

end
