(* ===== verification/Series_Division.thy ===== *)
theory Series_Division
  imports Series
begin

text \<open>
  Division with remainder of polynomials over the field, abstractly: uniqueness, the reversal that
  turns it into an inverse of power series, and the Newton step for that inverse.
\<close>

section \<open>Degrees\<close>

lemma below_bound: "below (Suc n) f \<Longrightarrow> cf f i \<noteq> 0 \<Longrightarrow> i \<le> n"
  by (meson below_def not_less_eq_eq)

lemma cf_mult_top:
  assumes "below (Suc a) g" "below (Suc b) h"
  shows "cf (g * h) (a + b) = cf g a * cf h b"
proof -
  have "cf (g * h) (a + b) = (\<Sum>i\<in>{a}. cf g i * cf h (a + b - i))"
    unfolding cf_mult
  proof (rule sum.mono_neutral_right; (intro ballI)?)
    fix i assume "i \<in> {..a + b} - {a}"
    then consider "a < i" | "b < a + b - i" by force
    then show "cf g i * cf h (a + b - i) = 0"
      by cases (use below_bound [OF assms(1), of i] below_bound [OF assms(2), of "a + b - i"] in fastforce)+
  qed simp_all
  then show ?thesis by simp
qed

lemma top_coefficient:
  assumes "below n h" "h \<noteq> 0"
  obtains d where "d < n" "cf h d \<noteq> 0" "below (Suc d) h"
proof -
  obtain i where i: "cf h i \<noteq> 0" using assms(2) by (auto simp: ser_eq_iff)
  define d where "d = (GREATEST i. cf h i \<noteq> 0)"
  have bound: "j \<le> n" if "cf h j \<noteq> 0" for j
    using that assms(1) by (metis below_def nat_le_linear)
  have d: "cf h d \<noteq> 0" unfolding d_def using i bound by (rule GreatestI_nat)
  have "j \<le> d" if "cf h j \<noteq> 0" for j
    unfolding d_def using that bound by (rule Greatest_le_nat)
  then have "below (Suc d) h" by (force simp: below_def Suc_le_eq)
  moreover have "d < n" using d assms(1) by (metis below_def not_le)
  ultimately show ?thesis using that d by blast
qed

lemma below_cancel:
  assumes "below (Suc a) g" "cf g a \<noteq> 0" "below n h" "below a (g * h)"
  shows "h = 0"
proof (rule ccontr)
  assume "h \<noteq> 0"
  then obtain d where "cf h d \<noteq> 0" "below (Suc d) h" using top_coefficient [OF assms(3)] by blast
  with assms cf_mult_top [OF assms(1), of d h] show False by (auto simp: below_def)
qed

text \<open>\<open>f = g * q + r\<close> with a remainder of smaller degree\<close>

definition divides_with :: "ser \<Rightarrow> ser \<Rightarrow> nat \<Rightarrow> ser \<Rightarrow> ser \<Rightarrow> bool" where
  "divides_with f g d q r \<longleftrightarrow> f = g * q + r \<and> below d r"

lemma divides_with_unique:
  assumes "divides_with f g d q r" "divides_with f g d q' r'" "below (Suc d) g" "cf g d \<noteq> 0"
    and "below n q" "below n q'"
  shows "q = q' \<and> r = r'"
proof -
  have eq: "g * q + r = g * q' + r'" using assms(1,2) by (simp add: divides_with_def)
  have "g * (q + q') = (g * q + r) + g * q' + r" by (simp add: distrib_left ac_simps)
  also have "\<dots> = r + r'" unfolding eq by (simp add: ac_simps)
  finally have "below d (g * (q + q'))" using assms(1,2) by (auto simp: divides_with_def)
  then have "q + q' = 0" using below_cancel [OF assms(3,4)] assms(5,6) by blast
  then have "q = q'" by (simp add: ser_add_eq_0_iff)
  with eq show ?thesis by simp
qed

section \<open>Reversal\<close>

definition rev_ser :: "nat \<Rightarrow> ser \<Rightarrow> ser" where
  "rev_ser n f = Ser (\<lambda>i. if i < n then cf f (n - 1 - i) else 0)"

lemma cf_rev_ser: "cf (rev_ser n f) i = (if i < n then cf f (n - 1 - i) else 0)"
  by (simp add: rev_ser_def)

lemma below_rev_ser [simp]: "below n (rev_ser n f)" by (simp add: below_def cf_rev_ser)

lemma rev_rev_ser: "below n f \<Longrightarrow> rev_ser n (rev_ser n f) = f"
  by (rule ser_eqI) (auto simp: cf_rev_ser below_def)

lemma cf_mult_rev:
  assumes "below (Suc a) g" "below (Suc b) h" "p \<le> a + b"
  shows "cf (g * h) p = cf (rev_ser (Suc a) g * rev_ser (Suc b) h) (a + b - p)"
proof -
  let ?S = "{i. i \<le> p \<and> i \<le> a \<and> p - i \<le> b}"
  let ?T = "{j. j \<le> a + b - p \<and> j \<le> a \<and> a + b - p - j \<le> b}"
  have "cf (g * h) p = (\<Sum>i\<in>?S. cf g i * cf h (p - i))"
    unfolding cf_mult by (rule sum.mono_neutral_right) (use below_bound [OF assms(1)] below_bound [OF assms(2)] in auto)
  also have "\<dots> = (\<Sum>j\<in>?T. cf g (a - j) * cf h (b - (a + b - p - j)))"
    by (rule sum.reindex_bij_witness [of _ "\<lambda>j. a - j" "\<lambda>i. a - i"]) (use assms(3) in auto)
  also have "\<dots> = (\<Sum>j\<le>a + b - p. cf (rev_ser (Suc a) g) j * cf (rev_ser (Suc b) h) (a + b - p - j))"
    by (rule sum.mono_neutral_cong_left) (auto simp: cf_rev_ser)
  finally show ?thesis by (simp add: cf_mult)
qed

text \<open>The quotient is read off an inverse of the reversed divisor.\<close>

lemma division_by_reversal:
  assumes f: "below (Suc (a + k)) f" and g: "below (Suc a) g" and q: "below (Suc k) q"
    and rev: "trunc (Suc k) (rev_ser (Suc a) g * rev_ser (Suc k) q) = trunc (Suc k) (rev_ser (Suc (a + k)) f)"
  shows "divides_with f g a q (f + g * q)"
proof -
  have "below a (f + g * q)"
    unfolding below_def
  proof (intro allI impI)
    fix p assume p: "a \<le> p"
    show "cf (f + g * q) p = 0"
    proof (cases "p \<le> a + k")
      case True
      have "cf (trunc (Suc k) (rev_ser (Suc a) g * rev_ser (Suc k) q)) (a + k - p) =
          cf (trunc (Suc k) (rev_ser (Suc (a + k)) f)) (a + k - p)" by (simp only: rev)
      moreover have "a + k - p < Suc k" using p by simp
      ultimately have "cf (rev_ser (Suc a) g * rev_ser (Suc k) q) (a + k - p) = cf f p"
        using True by (simp add: cf_rev_ser)
      with cf_mult_rev [OF g q True] show ?thesis by simp
    next
      case False
      then show ?thesis
        using f below_mult [OF g q, of "Suc (a + k)"] by (auto simp: below_def Suc_le_eq)
    qed
  qed
  moreover have "f = g * q + (f + g * q)" by (metis add.commute ser_add_self_left)
  ultimately show ?thesis unfolding divides_with_def by blast
qed

section \<open>The Newton step\<close>

lemma trunc_one: "0 < m \<Longrightarrow> trunc m 1 = 1"
  by (rule ser_eqI) (simp add: cf_one)

lemma trunc_0_factor:
  assumes "trunc m h = 0"
  obtains k where "h = X m * k"
proof
  have zero: "cf h i = 0" if "i < m" for i
    using arg_cong [OF assms, of "\<lambda>f. cf f i"] that by simp
  show "h = X m * Ser (\<lambda>i. cf h (i + m))"
    by (rule ser_eqI) (simp add: cf_mono_mult zero)
qed

lemma newton_step:
  assumes "trunc m (g * r) = 1" "0 < n" "n \<le> 2 * m"
  shows "trunc n (g * (g * (r * r))) = 1"
proof -
  have "0 < m" using assms(2,3) by simp
  then have "trunc m (g * r + 1) = 0" by (simp add: trunc_add trunc_one assms(1))
  then obtain k where k: "g * r + 1 = X m * k" by (rule trunc_0_factor)
  then have gr: "g * r = X m * k + 1" by (metis add.commute ser_add_self_left)
  have "g * (g * (r * r)) = (X m * k + 1) * (X m * k + 1)" unfolding gr [symmetric] by (simp add: ac_simps)
  also have "\<dots> = X (m + m) * (k * k) + 1"
    by (simp only: X_add) (simp add: algebra_simps)
  finally have "trunc n (g * (g * (r * r))) = trunc n (trunc (2 * m) (X (2 * m) * (k * k))) + trunc n 1"
    using assms(3) by (simp add: trunc_add trunc_trunc min_absorb1 mult_2)
  also have "\<dots> = 1" using assms(2) by (simp add: trunc_X trunc_below trunc_one)
  finally show ?thesis .
qed

lemma trunc_inverse_unique:
  assumes "trunc n (g * r) = 1" "trunc n (g * s) = 1" "below n r" "below n s" "0 < n"
  shows "r = s"
proof -
  have "r = trunc n (r * trunc n (g * s))" using assms by (simp add: trunc_below)
  also have "\<dots> = trunc n (trunc n (g * r) * s)" by (simp only: trunc_mult) (simp add: ac_simps)
  also have "\<dots> = s" using assms by (simp add: trunc_below)
  finally show ?thesis .
qed

end
