(* ===== verification/Poly_Division.thy ===== *)
theory Poly_Division
  imports Series_Division Poly_Product GF64_Invert
begin

text \<open>
  The division of gf64/gf64_mpe.c: schoolbook long division, the Newton inverse of a power series
  and the division through the reversed inverse, with the bump arena that provides their working
  memory. An abort is None. The blocks that the source allocates or pushes for one call are separate
  arrays; a buffer that is written completely before it is read starts as zeros.
\<close>

record mpe_globals = poly_globals +
  gf64_mpe_heap_alloc_count :: "64 word"
  gf64_interp_env_cached :: int
  gf64_interp_probe_count :: int

record gf64_arena_t =
  ar_cap :: nat
  ar_used :: nat

text \<open>The contents of the arena are the blocks themselves; here it is the bookkeeping.\<close>

definition gf64_arena_init :: "nat \<Rightarrow> int \<times> gf64_arena_t" where
  "gf64_arena_init words =
    (if words = 0 then (1, \<lparr>ar_cap = 0, ar_used = 0\<rparr>)
     else if words > SIZE_MAX div 8 then (1, \<lparr>ar_cap = 0, ar_used = 0\<rparr>)
     else (0, \<lparr>ar_cap = words, ar_used = 0\<rparr>))"

definition gf64_arena_free :: "gf64_arena_t \<Rightarrow> gf64_arena_t" where
  "gf64_arena_free a = \<lparr>ar_cap = 0, ar_used = 0\<rparr>"

definition gf64_arena_mark :: "gf64_arena_t \<Rightarrow> nat" where "gf64_arena_mark a = ar_used a"

definition gf64_arena_release :: "gf64_arena_t \<Rightarrow> nat \<Rightarrow> gf64_arena_t" where
  "gf64_arena_release a mark = a\<lparr>ar_used := mark\<rparr>"

definition gf64_arena_push :: "gf64_arena_t \<Rightarrow> nat \<Rightarrow> gf64_arena_t option" where
  "gf64_arena_push a words =
    (if ar_used a + words > ar_cap a \<or> words > SIZE_MAX - ar_used a then None
     else Some (a\<lparr>ar_used := ar_used a + words\<rparr>))"

text \<open>One call's blocks, from the arena or from the heap.\<close>

definition take_blocks :: "nat list \<Rightarrow> gf64_arena_t option \<Rightarrow> 'a mpe_globals_scheme \<Rightarrow>
    (gf64_arena_t option \<times> 'a mpe_globals_scheme) option" where
  "take_blocks sizes arena st =
    (case arena of
       Some a \<Rightarrow> do {
         a \<leftarrow> fold (\<lambda>words a. do { a \<leftarrow> a; gf64_arena_push a words }) sizes (Some a);
         Some (Some a, st)
       }
     | None \<Rightarrow> Some (None, st\<lparr>gf64_mpe_heap_alloc_count :=
         gf64_mpe_heap_alloc_count st + of_nat (length sizes)\<rparr>))"

definition give_back :: "gf64_arena_t option \<Rightarrow> gf64_arena_t option \<Rightarrow> gf64_arena_t option" where
  "give_back before arena =
    (case (before, arena) of
       (Some b, Some a) \<Rightarrow> Some (gf64_arena_release a (gf64_arena_mark b))
     | _ \<Rightarrow> arena)"

definition copy_words :: "gf64_t list \<Rightarrow> nat \<Rightarrow> gf64_t list \<Rightarrow> gf64_t list" where
  "copy_words src n dst = fold (\<lambda>i dst. dst[i := src ! i]) [0..<n] dst"

definition zero_words :: "nat \<Rightarrow> nat \<Rightarrow> gf64_t list \<Rightarrow> gf64_t list" where
  "zero_words lo hi dst = fold (\<lambda>i dst. dst[i := 0]) [lo..<hi] dst"

text \<open>\<open>gf64_poly_mul\<close> between blocks that the caller allocated separately.\<close>

definition poly_mul_blocks ::
  "allocator \<Rightarrow> nat \<Rightarrow> gf64_t list \<Rightarrow> nat \<Rightarrow> gf64_t list \<Rightarrow> nat \<Rightarrow> 'a poly_globals_scheme \<Rightarrow>
    (gf64_t list \<times> 'a poly_globals_scheme) option" where
  "poly_mul_blocks alloc t a deg_a b deg_b st =
    gf64_poly_mul_internal alloc t a (deg_a + 1) b (deg_b + 1) (deg_a + deg_b + 1) st"

section \<open>Schoolbook division\<close>

definition short_division ::
  "gf64_t list \<Rightarrow> nat \<Rightarrow> nat \<Rightarrow> gf64_t list \<Rightarrow> gf64_t list \<Rightarrow> gf64_t list \<times> gf64_t list" where
  "short_division f deg_f deg_g q r = (q[0 := 0], zero_words (deg_f + 1) deg_g (copy_words f (deg_f + 1) r))"

definition eliminate ::
  "gf64_t list \<Rightarrow> nat \<Rightarrow> gf64_t \<Rightarrow> nat \<Rightarrow> gf64_t list \<times> gf64_t list \<Rightarrow> gf64_t list \<times> gf64_t list" where
  "eliminate g deg_g lead_inv i = (\<lambda>(q, r).
    let coeff = gf64_mul_reference (r ! i) lead_inv;
        q = q[i - deg_g := coeff]
    in (q, if coeff \<noteq> 0
        then fold (\<lambda>j r. r[i - deg_g + j := r ! (i - deg_g + j) XOR gf64_mul_reference coeff (g ! j)])
          [0..<deg_g + 1] r
        else r))"

definition gf64_poly_divmod_schoolbook ::
  "gf64_t list \<Rightarrow> nat \<Rightarrow> gf64_t list \<Rightarrow> nat \<Rightarrow> gf64_t list \<Rightarrow> gf64_t list \<Rightarrow> (gf64_t list \<times> gf64_t list) option" where
  "gf64_poly_divmod_schoolbook f deg_f g deg_g q r =
    (if deg_g = 0 \<and> g ! 0 = 0 then None
     else if deg_f < deg_g then Some (short_division f deg_f deg_g q r)
     else
       let r = copy_words f (deg_f + 1) r;
           q_size = deg_f - deg_g + 1;
           q = zero_words 0 q_size q;
           lead_inv = gf64_invert_ita_one (g ! deg_g)
       in Some (fold (eliminate g deg_g lead_inv) (rev [deg_g..<deg_f + 1]) (q, r)))"

section \<open>The Newton inverse\<close>

text \<open>The loop of the source starts at \<open>m = 1\<close>, so the guard \<open>0 < m\<close> always holds.\<close>

lemma invmod_loop_progress: "\<lbrakk>0 < m \<and> m < n; m_new = (if 2 * m < n then 2 * m else n)\<rbrakk> \<Longrightarrow> n - m_new < n - (m::nat)"
  by auto

function invmod_loop ::
  "allocator \<Rightarrow> nat \<Rightarrow> gf64_t list \<Rightarrow> nat \<Rightarrow> nat \<Rightarrow> gf64_t list \<Rightarrow> 'a poly_globals_scheme \<Rightarrow>
    (gf64_t list \<times> 'a poly_globals_scheme) option" where
  "invmod_loop alloc t g_buf n m result st =
    (if 0 < m \<and> m < n then
       let m_new = (if 2 * m < n then 2 * m else n)
       in do {
         (r_sq, st) \<leftarrow> poly_mul_blocks alloc t result (m - 1) result (m - 1) st;
         (prd, st) \<leftarrow> poly_mul_blocks alloc t g_buf (m_new - 1) r_sq (2 * m - 2) st;
         let result = zero_words m_new n (copy_words prd m_new result);
         invmod_loop alloc t g_buf n m_new result st
       }
     else Some (result, st))"
  by pat_completeness auto

termination
  by (relation "measure (\<lambda>(alloc, t, g_buf, n, m, result, st). n - m)")
    (rule wf_measure, unfold in_measure split, (erule (1) invmod_loop_progress)+)

declare invmod_loop.simps [simp del]

definition gf64_poly_invmod_scratch ::
  "allocator \<Rightarrow> nat \<Rightarrow> gf64_t list \<Rightarrow> nat \<Rightarrow> nat \<Rightarrow> gf64_t list \<Rightarrow> gf64_arena_t option \<Rightarrow>
    'a mpe_globals_scheme \<Rightarrow> ((gf64_t list \<times> gf64_arena_t option) \<times> 'a mpe_globals_scheme) option" where
  "gf64_poly_invmod_scratch alloc t g deg_g n result arena st =
    (if n = 0 then Some ((result, arena), st)
     else if n > SIZE_MAX div 3 then Some ((result, arena), st)
     else do {
       (work, st) \<leftarrow> take_blocks [n, 2 * n, 3 * n] arena st;
       let g_use = (if deg_g + 1 < n then deg_g + 1 else n);
       let g_buf = zero_words g_use n (copy_words g g_use (replicate n 0));
       let result = (zero_words 0 n result)[0 := gf64_invert_ita_one (g ! 0)];
       (result, st) \<leftarrow> invmod_loop alloc t g_buf n 1 result st;
       Some ((result, give_back arena work), st)
     })"

definition gf64_poly_invmod ::
  "allocator \<Rightarrow> nat \<Rightarrow> gf64_t list \<Rightarrow> nat \<Rightarrow> nat \<Rightarrow> gf64_t list \<Rightarrow>
    'a mpe_globals_scheme \<Rightarrow> (gf64_t list \<times> 'a mpe_globals_scheme) option" where
  "gf64_poly_invmod alloc t g deg_g n result st = do {
     ((result, _), st) \<leftarrow> gf64_poly_invmod_scratch alloc t g deg_g n result None st;
     Some (result, st)
   }"

section \<open>Division by the reversed inverse\<close>

definition GF64_DIVMOD_NEWTON_MIN :: nat where "GF64_DIVMOD_NEWTON_MIN = 96"

definition gf64_poly_divmod_scratch ::
  "allocator \<Rightarrow> nat \<Rightarrow> gf64_t list \<Rightarrow> nat \<Rightarrow> gf64_t list \<Rightarrow> nat \<Rightarrow> gf64_t list \<Rightarrow> gf64_t list \<Rightarrow>
    gf64_arena_t option \<Rightarrow> 'a mpe_globals_scheme \<Rightarrow>
    ((gf64_t list \<times> gf64_t list \<times> gf64_arena_t option) \<times> 'a mpe_globals_scheme) option" where
  "gf64_poly_divmod_scratch alloc t f deg_f g deg_g q r arena st =
    (if deg_g = 0 \<and> g ! 0 = 0 then None
     else if deg_f < deg_g then
       let (q, r) = short_division f deg_f deg_g q r in Some ((q, r, arena), st)
     else
       let k = deg_f - deg_g; m = k + 1
       in if m < GF64_DIVMOD_NEWTON_MIN then do {
            (q, r) \<leftarrow> gf64_poly_divmod_schoolbook f deg_f g deg_g q r;
            Some ((q, r, arena), st)
          }
          else do {
            (work, st) \<leftarrow> take_blocks [m, deg_g + 1, m, m, deg_f + 1] arena st;
            let rev_f = map (\<lambda>i. f ! (deg_f - i)) [0..<m];
            let rev_g = map (\<lambda>i. g ! (deg_g - i)) [0..<deg_g + 1];
            ((inv, work), st) \<leftarrow> gf64_poly_invmod_scratch alloc t rev_g deg_g m (replicate m 0) work st;
            (rev_q, st) \<leftarrow> gf64_poly_mul_internal alloc t rev_f m inv m m st;
            let q = fold (\<lambda>i q. q[i := rev_q ! (k - i)]) [0..<m] q;
            let r = copy_words f (deg_f + 1) r;
            (gq, st) \<leftarrow> poly_mul_blocks alloc t g deg_g q k st;
            let r = fold (\<lambda>i r. r[i := r ! i XOR gq ! i]) [0..<deg_g] r;
            let r = zero_words deg_g (deg_f + 1) r;
            Some ((q, r, give_back arena work), st)
          })"

definition gf64_poly_divmod ::
  "allocator \<Rightarrow> nat \<Rightarrow> gf64_t list \<Rightarrow> nat \<Rightarrow> gf64_t list \<Rightarrow> nat \<Rightarrow> gf64_t list \<Rightarrow> gf64_t list \<Rightarrow>
    'a mpe_globals_scheme \<Rightarrow> ((gf64_t list \<times> gf64_t list) \<times> 'a mpe_globals_scheme) option" where
  "gf64_poly_divmod alloc t f deg_f g deg_g q r st = do {
     ((q, r, _), st) \<leftarrow> gf64_poly_divmod_scratch alloc t f deg_f g deg_g q r None st;
     Some ((q, r), st)
   }"

section \<open>What a call yields\<close>

text \<open>In every consistent state the call returns a value with the property and leaves a consistent state.\<close>

definition returns ::
  "allocator \<Rightarrow> ('a poly_globals_scheme \<Rightarrow> ('b \<times> 'a poly_globals_scheme) option) \<Rightarrow> ('b \<Rightarrow> bool) \<Rightarrow> bool" where
  "returns alloc F P \<longleftrightarrow>
    (\<forall>st. poly_ready alloc st \<longrightarrow> (\<exists>v st'. F st = Some (v, st') \<and> P v \<and> poly_ready alloc st'))"

abbreviation yields ::
  "allocator \<Rightarrow> ('a poly_globals_scheme \<Rightarrow> ('b \<times> 'a poly_globals_scheme) option) \<Rightarrow> 'b \<Rightarrow> bool" where
  "yields alloc F v \<equiv> returns alloc F (\<lambda>x. x = v)"

lemma returnsD:
  assumes "returns alloc F P" "poly_ready alloc st"
  obtains v st' where "F st = Some (v, st')" "P v" "poly_ready alloc st'"
  using assms by (auto simp: returns_def)

lemma returns_return: "P v \<Longrightarrow> returns alloc (\<lambda>st. Some (v, st)) P"
  by (simp add: returns_def)

lemma returns_bind:
  assumes "returns alloc F P" "\<And>x. P x \<Longrightarrow> returns alloc (K x) Q"
  shows "returns alloc (\<lambda>st. F st \<bind> (\<lambda>(x, st). K x st)) Q"
  using assms by (fastforce simp: returns_def)

lemma yields_bind:
  assumes "yields alloc F u" "returns alloc (K u) Q"
  shows "returns alloc (\<lambda>st. F st \<bind> (\<lambda>(x, st). K x st)) Q"
  using assms by (fastforce simp: returns_def)

lemma returns_bind_pair:
  assumes "returns alloc F (\<lambda>(a, b). P a b)" "\<And>a b. P a b \<Longrightarrow> returns alloc (K a b) Q"
  shows "returns alloc (\<lambda>st. F st \<bind> (\<lambda>((a, b), st). K a b st)) Q"
  by (rule returns_bind [OF assms(1)]) (auto intro: assms(2))

lemma returns_bind_triple:
  assumes "returns alloc F (\<lambda>(a, b, c). P a b c)" "\<And>a b c. P a b c \<Longrightarrow> returns alloc (K a b c) Q"
  shows "returns alloc (\<lambda>st. F st \<bind> (\<lambda>((a, b, c), st). K a b c st)) Q"
  by (rule returns_bind [OF assms(1)]) (auto intro: assms(2))

lemma returns_cong: "returns alloc F P \<Longrightarrow> (\<And>st. F' st = F st) \<Longrightarrow> returns alloc F' P"
  by (simp add: returns_def)

lemma returns_weaken: "returns alloc F P \<Longrightarrow> (\<And>v. P v \<Longrightarrow> Q v) \<Longrightarrow> returns alloc F Q"
  by (fastforce simp: returns_def)

lemma yields_internal:
  assumes "len_a \<le> length a" "len_b \<le> length b"
  shows "yields alloc (gf64_poly_mul_internal alloc t a len_a b len_b out_len) (product_words a len_a b len_b out_len)"
  unfolding returns_def
proof (intro allI impI)
  fix st :: "'a poly_globals_scheme"
  assume st: "poly_ready alloc st"
  show "\<exists>v st'. gf64_poly_mul_internal alloc t a len_a b len_b out_len st = Some (v, st') \<and>
      v = product_words a len_a b len_b out_len \<and> poly_ready alloc st'"
  proof (cases "out_len = 0")
    case True
    then show ?thesis using st by (simp add: gf64_poly_mul_internal_def product_words_0)
  next
    case False
    then show ?thesis using gf64_poly_mul_internal_correct [OF st assms, of out_len t] by blast
  qed
qed

lemma yields_poly_mul_blocks:
  assumes "deg_a < length a" "deg_b < length b"
  shows "yields alloc (poly_mul_blocks alloc t a deg_a b deg_b)
    (product_words a (Suc deg_a) b (Suc deg_b) (Suc (deg_a + deg_b)))"
  unfolding poly_mul_blocks_def using yields_internal [of "Suc deg_a" a "Suc deg_b" b] assms by simp

text \<open>The arena\<close>

definition arena_room :: "nat \<Rightarrow> gf64_arena_t option \<Rightarrow> bool" where
  "arena_room words arena \<longleftrightarrow>
    (case arena of None \<Rightarrow> True | Some a \<Rightarrow> ar_used a + words \<le> ar_cap a \<and> ar_cap a \<le> SIZE_MAX)"

definition advance :: "nat \<Rightarrow> gf64_arena_t option \<Rightarrow> gf64_arena_t option" where
  "advance words arena = map_option (\<lambda>a. a\<lparr>ar_used := ar_used a + words\<rparr>) arena"

lemma fold_arena_push:
  "ar_used a + sum_list sizes \<le> ar_cap a \<Longrightarrow> ar_cap a \<le> SIZE_MAX \<Longrightarrow>
    fold (\<lambda>words a. do { a \<leftarrow> a; gf64_arena_push a words }) sizes (Some a) =
      Some (a\<lparr>ar_used := ar_used a + sum_list sizes\<rparr>)"
proof (induction sizes arbitrary: a)
  case (Cons w sizes)
  then have "gf64_arena_push a w = Some (a\<lparr>ar_used := ar_used a + w\<rparr>)"
    by (simp add: gf64_arena_push_def)
  with Cons show ?case by (simp add: add.assoc)
qed simp

lemma yields_take_blocks:
  assumes "arena_room (sum_list sizes) arena"
  shows "yields alloc (take_blocks sizes arena) (advance (sum_list sizes) arena)"
  using assms
  by (cases arena) (auto simp: returns_def take_blocks_def advance_def arena_room_def fold_arena_push poly_ready_def)

lemma give_back_advance [simp]: "give_back arena (advance words arena) = arena"
  by (cases arena) (simp_all add: give_back_def advance_def gf64_arena_release_def gf64_arena_mark_def)

lemma arena_room_advance: "arena_room (m + n) arena \<Longrightarrow> arena_room n (advance m arena)"
  by (cases arena) (simp_all add: arena_room_def advance_def)

lemma arena_room_le: "arena_room n arena \<Longrightarrow> m \<le> n \<Longrightarrow> arena_room m arena"
  by (cases arena) (simp_all add: arena_room_def)

text \<open>The word loops\<close>

lemma copy_words_eq:
  "n \<le> length src \<Longrightarrow> n \<le> length dst \<Longrightarrow> copy_words src n dst = take n src @ drop n dst"
  unfolding copy_words_def
  using fold_update_map [of n dst "\<lambda>i _. src ! i"] by (simp add: take_map map_nth flip: take_upt) (auto intro!: nth_equalityI)

lemma nth_fold_update:
  assumes "b \<le> length xs" "k < length xs"
  shows "fold (\<lambda>i xs. xs[i := v i]) [a..<b] xs ! k = (if a \<le> k \<and> k < b then v k else xs ! k)"
  using fold_update_pointwise [OF assms, of "\<lambda>i _. v i"] by simp

lemma length_copy_words [simp]: "length (copy_words src n dst) = length dst"
  by (simp add: copy_words_def)

lemma length_zero_words [simp]: "length (zero_words lo hi dst) = length dst"
  by (simp add: zero_words_def)

lemma zero_words_eq:
  "lo \<le> hi \<Longrightarrow> hi \<le> length dst \<Longrightarrow> zero_words lo hi dst = take lo dst @ replicate (hi - lo) 0 @ drop hi dst"
  by (rule nth_equalityI) (auto simp: zero_words_def nth_fold_update nth_append)

lemma of_coeffs_pad: "of_coeffs (xs @ replicate k 0) = of_coeffs xs"
  by (simp add: of_coeffs_append)

lemma poly_length: "length a \<le> n \<Longrightarrow> poly a n = of_coeffs a"
  by simp

lemma below_poly: "n \<le> m \<Longrightarrow> below m (poly a n)"
  by (rule below_mono_le [OF below_of_coeffs]) simp

lemma poly_trunc: "poly a n = trunc n (of_coeffs a)"
  by (rule of_coeffs_take)

lemma poly_product_words: "j \<le> n \<Longrightarrow> poly (product_words a m b k n) j = trunc j (poly a m * poly b k)"
  by (simp only: poly_trunc of_product_words trunc_trunc min_absorb1)

section \<open>The inverse\<close>

lemma returns_invmod_loop:
  assumes "0 < m" "m \<le> n" "length g_buf = n" "length result = n" "below m (of_coeffs result)"
    and "trunc m (of_coeffs g_buf * of_coeffs result) = 1"
  shows "returns alloc (invmod_loop alloc t g_buf n m result)
    (\<lambda>R. length R = n \<and> trunc n (of_coeffs g_buf * of_coeffs R) = 1)"
  using assms
proof (induction "n - m" arbitrary: m result rule: less_induct)
  case less
  show ?case
  proof (cases "m < n")
    case False
    with less.prems have "m = n" by simp
    moreover have "invmod_loop alloc t g_buf n m result st = Some (result, st)" for st :: "'a poly_globals_scheme"
      using False by (subst invmod_loop.simps) simp
    ultimately show ?thesis
      using less.prems by (intro returns_cong [OF returns_return]) auto
  next
    case True
    define m' where "m' = (if 2 * m < n then 2 * m else n)"
    have m': "0 < m'" "m < m'" "m' \<le> n" "m' \<le> 2 * m" "m' - 1 < n" "Suc (m' - 1) = m'"
      using True less.prems(1) by (auto simp: m'_def)
    define G R where "G = of_coeffs g_buf" and "R = of_coeffs result"
    define sq where "sq = product_words result m result m (2 * m - 1)"
    define prd where "prd = product_words g_buf m' sq (2 * m - 1) (Suc (m' - 1 + (2 * m - 2)))"
    define R' where "R' = take m' prd @ replicate (n - m') 0"
    have "Suc (m - 1) = m" "Suc (m - 1 + (m - 1)) = 2 * m - 1" "Suc (2 * m - 2) = 2 * m - 1"
      using less.prems(1) by simp_all
    note suc = this
    have sq: "yields alloc (poly_mul_blocks alloc t result (m - 1) result (m - 1)) sq"
      unfolding sq_def
      by (rule yields_poly_mul_blocks [of "m - 1" result "m - 1" result, unfolded suc])
        (use less.prems(4) True in simp_all)
    have len_sq: "length sq = 2 * m - 1" by (simp add: sq_def)
    have prd: "yields alloc (poly_mul_blocks alloc t g_buf (m' - 1) sq (2 * m - 2)) prd"
      unfolding prd_def
      by (rule yields_poly_mul_blocks [of "m' - 1" g_buf "2 * m - 2" sq, unfolded m'(6) suc])
        (use less.prems(1,3) m'(5) len_sq in simp_all)
    have len_prd: "m' \<le> length prd" using m' less.prems(1) by (simp add: prd_def)
    have R': "zero_words m' n (copy_words prd m' result) = R'"
      using less.prems(4) m' len_prd by (simp add: R'_def copy_words_eq zero_words_eq)
    have lenR': "length R' = n" using len_prd m' by (simp add: R'_def)
    have polyR: "poly result m = R" using less.prems(5) by (simp add: poly_trunc R_def trunc_below)
    have "below (2 * m - 1) (R * R)"
      using less.prems(1,5) unfolding R_def by (intro below_mult) auto
    then have "poly sq (2 * m - 1) = R * R"
      by (simp add: sq_def of_product_words polyR trunc_below)
    then have ofR': "of_coeffs R' = trunc m' (G * (R * R))"
    proof -
      have "m' \<le> Suc (m' - 1 + (2 * m - 2))" using m' by linarith
      then have "poly prd m' = trunc m' (trunc m' G * (R * R))"
        unfolding prd_def by (simp only: poly_product_words \<open>poly sq (2 * m - 1) = R * R\<close>) (simp only: poly_trunc G_def)
      then show ?thesis by (simp only: R'_def of_coeffs_pad trunc_mult)
    qed
    have "trunc m (G * R) = 1" using less.prems(6) by (simp add: G_def R_def)
    then have "trunc m' (G * of_coeffs R') = 1"
      unfolding ofR' trunc_mult by (rule newton_step [OF _ m'(1) m'(4)])
    moreover have "n - m' < n - m" using m' True by linarith
    ultimately have rec: "returns alloc (invmod_loop alloc t g_buf n m' R' :: 'a poly_globals_scheme \<Rightarrow> _)
      (\<lambda>R. length R = n \<and> trunc n (G * of_coeffs R) = 1)"
      using less.hyps [of m' R'] less.prems(3) m'(1,3) lenR' ofR' by (auto simp: G_def)
    have "invmod_loop alloc t g_buf n m result st =
        poly_mul_blocks alloc t result (m - 1) result (m - 1) st \<bind> (\<lambda>(r_sq, st).
          poly_mul_blocks alloc t g_buf (m' - 1) r_sq (2 * m - 2) st \<bind> (\<lambda>(prd, st).
            invmod_loop alloc t g_buf n m' (zero_words m' n (copy_words prd m' result)) st))"
      for st :: "'a poly_globals_scheme"
      using True less.prems(1) by (subst invmod_loop.simps) (simp add: Let_def m'_def)
    then show ?thesis
      by (rule returns_cong [rotated])
        (intro yields_bind [OF sq] yields_bind [OF prd], simp only: R' rec G_def [symmetric])
  qed
qed

lemma returns_invmod_scratch:
  assumes "0 < n" "n \<le> SIZE_MAX div 3" "deg_g < length g" "g ! 0 \<noteq> 0" "length result = n" "arena_room (6 * n) arena"
  shows "returns alloc (gf64_poly_invmod_scratch alloc t g deg_g n result arena)
    (\<lambda>(R, arena'). length R = n \<and> trunc n (poly g (Suc deg_g) * of_coeffs R) = 1 \<and> arena' = arena)"
proof -
  define g_use where "g_use = (if deg_g + 1 < n then deg_g + 1 else n)"
  define G where "G = take g_use g @ replicate (n - g_use) 0"
  define r0 where "r0 = (zero_words 0 n result)[0 := gf64_invert_ita_one (g ! 0)]"
  have use: "g_use \<le> n" "g_use \<le> length g" "g_use = min (Suc deg_g) n" using assms(3) by (auto simp: g_use_def)
  have G: "zero_words g_use n (copy_words g g_use (replicate n 0)) = G"
    using use by (simp add: G_def copy_words_eq zero_words_eq)
  have lenG: "length G = n" using use by (simp add: G_def)
  have ofG: "of_coeffs G = trunc n (poly g (Suc deg_g))"
    by (simp add: G_def of_coeffs_pad use(3) of_coeffs_take trunc_trunc min.commute)
  have r0: "r0 = gf64_inverse (g ! 0) # replicate (n - 1) 0"
    using assms(1,5) by (cases n) (simp_all add: r0_def zero_words_eq gf64_invert_ita_one_eq)
  have ofr0: "of_coeffs r0 = mono (inverse (Gf (g ! 0))) 0"
    unfolding r0 by (rule ser_eqI) (auto simp: coef_def cf_mono Gf_inverse nth_Cons')
  have "cf (of_coeffs G) 0 = Gf (g ! 0)"
    using assms(1,3) by (simp add: ofG poly_trunc coef_def del: of_coeffs_take)
  moreover have "Gf (g ! 0) \<noteq> 0" using assms(4) by (simp add: gf_eq_iff)
  ultimately have "inverse (Gf (g ! 0)) * cf (of_coeffs G) 0 = 1" by simp
  then have "trunc 1 (of_coeffs r0 * of_coeffs G) = 1"
    unfolding ofr0 by (intro ser_eqI) (simp add: cf_mono_mult cf_one del: cf_of_coeffs)
  then have inv: "trunc 1 (of_coeffs G * of_coeffs r0) = 1" by (simp only: mult.commute)
  have low: "below 1 (of_coeffs r0)" unfolding ofr0 by (simp add: below_def cf_mono)
  have loop: "returns alloc (invmod_loop alloc t G n 1 r0)
      (\<lambda>R. length R = n \<and> trunc n (of_coeffs G * of_coeffs R) = 1)"
    by (rule returns_invmod_loop) (use assms(1) lenG inv low r0 in simp_all)
  have blocks: "yields alloc (take_blocks [n, 2 * n, 3 * n] arena) (advance (6 * n) arena)"
    using yields_take_blocks [of "[n, 2 * n, 3 * n]" arena] assms(6) by simp
  have eq: "gf64_poly_invmod_scratch alloc t g deg_g n result arena st =
      take_blocks [n, 2 * n, 3 * n] arena st \<bind> (\<lambda>(work, st).
        invmod_loop alloc t G n 1 r0 st \<bind> (\<lambda>(result, st). Some ((result, give_back arena work), st)))" for st
    using assms(1,2) unfolding gf64_poly_invmod_scratch_def Let_def g_use_def [symmetric] G r0_def [symmetric]
    by simp
  show ?thesis
    by (rule returns_cong [OF _ eq], rule yields_bind [OF blocks], rule returns_bind [OF loop], rule returns_return)
      (simp add: ofG trunc_mult)
qed

section \<open>What a division returns\<close>

text \<open>
  The quotient fills its slots, the remainder the first \<open>deg_g\<close>; the remaining slots that held the
  dividend are zero; nothing else changes.
\<close>

definition division_result ::
  "gf64_t list \<Rightarrow> nat \<Rightarrow> gf64_t list \<Rightarrow> nat \<Rightarrow> gf64_t list \<Rightarrow> gf64_t list \<Rightarrow> gf64_t list \<Rightarrow> gf64_t list \<Rightarrow> bool" where
  "division_result f deg_f g deg_g q r q' r' \<longleftrightarrow>
    (\<exists>Q R. divides_with (poly f (Suc deg_f)) (poly g (Suc deg_g)) deg_g Q R \<and> below (Suc deg_f - deg_g) Q \<and>
      q' = to_coeffs (max 1 (Suc deg_f - deg_g)) Q @ drop (max 1 (Suc deg_f - deg_g)) q \<and>
      r' = to_coeffs deg_g R @ replicate (Suc deg_f - deg_g) 0 @ drop (max deg_g (Suc deg_f)) r)"

definition division_buffers ::
  "gf64_t list \<Rightarrow> nat \<Rightarrow> gf64_t list \<Rightarrow> nat \<Rightarrow> gf64_t list \<Rightarrow> gf64_t list \<Rightarrow> bool" where
  "division_buffers f deg_f g deg_g q r \<longleftrightarrow>
    deg_f < length f \<and> deg_g < length g \<and> g ! deg_g \<noteq> 0 \<and>
    max 1 (Suc deg_f - deg_g) \<le> length q \<and> max deg_g (Suc deg_f) \<le> length r"

lemma division_resultI:
  assumes "deg_g \<le> deg_f" "m = Suc deg_f - deg_g" "below m Q"
    and "divides_with (poly f (Suc deg_f)) (poly g (Suc deg_g)) deg_g Q R"
    and "q' = to_coeffs m Q @ drop m q" "r' = to_coeffs deg_g R @ replicate m 0 @ drop (Suc deg_f) r"
  shows "division_result f deg_f g deg_g q r q' r'"
proof -
  have "max 1 m = m" "max deg_g (Suc deg_f) = Suc deg_f" using assms(1,2) by simp_all
  note max = this
  show ?thesis
    unfolding division_result_def
    by (rule exI [of _ Q], rule exI [of _ R]) (use assms(3-6) in \<open>simp only: assms(2) [symmetric] max simp_thms\<close>)
qed

lemma divisor_top:
  assumes "deg_g < length g" "g ! deg_g \<noteq> 0"
  shows "below (Suc deg_g) (poly g (Suc deg_g))" "cf (poly g (Suc deg_g)) deg_g \<noteq> 0"
  using assms by (auto simp: below_poly coef_def gf_eq_iff)

lemma division_result_unique:
  assumes "division_buffers f deg_f g deg_g q r" "division_result f deg_f g deg_g q r q1 ra"
    "division_result f deg_f g deg_g q r q2 rb"
  shows "q1 = q2 \<and> ra = rb"
proof -
  note top = divisor_top [of deg_g g]
  obtain Q1 R1 where 1: "divides_with (poly f (Suc deg_f)) (poly g (Suc deg_g)) deg_g Q1 R1"
    "below (Suc deg_f - deg_g) Q1" "q1 = to_coeffs (max 1 (Suc deg_f - deg_g)) Q1 @ drop (max 1 (Suc deg_f - deg_g)) q"
    "ra = to_coeffs deg_g R1 @ replicate (Suc deg_f - deg_g) 0 @ drop (max deg_g (Suc deg_f)) r"
    using assms(2) unfolding division_result_def by blast
  obtain Q2 R2 where 2: "divides_with (poly f (Suc deg_f)) (poly g (Suc deg_g)) deg_g Q2 R2"
    "below (Suc deg_f - deg_g) Q2" "q2 = to_coeffs (max 1 (Suc deg_f - deg_g)) Q2 @ drop (max 1 (Suc deg_f - deg_g)) q"
    "rb = to_coeffs deg_g R2 @ replicate (Suc deg_f - deg_g) 0 @ drop (max deg_g (Suc deg_f)) r"
    using assms(3) unfolding division_result_def by blast
  have "Q1 = Q2 \<and> R1 = R2"
    using divides_with_unique [OF 1(1) 2(1) _ _ 1(2) 2(2)] top assms(1) by (simp add: division_buffers_def)
  then show ?thesis by (simp add: 1 2)
qed

lemma short_division_result:
  assumes "division_buffers f deg_f g deg_g q r" "deg_f < deg_g" "short_division f deg_f deg_g q r = (q', r')"
  shows "division_result f deg_f g deg_g q r q' r'"
proof -
  have len: "Suc deg_f \<le> length f" "deg_g \<le> length r" "q \<noteq> []"
    using assms(1) by (auto simp: division_buffers_def)
  have F: "below deg_g (poly f (Suc deg_f))" using assms(2) by (simp add: below_poly)
  have "r' = zero_words (Suc deg_f) deg_g (copy_words f (Suc deg_f) r)" "q' = q[0 := 0]"
    using assms(3) by (auto simp: short_division_def)
  then have res: "q' = to_coeffs 1 0 @ drop 1 q"
    "r' = to_coeffs deg_g (poly f (Suc deg_f)) @ drop deg_g r"
    using len assms(2)
    by (cases q, simp_all add: to_coeffs_def copy_words_eq zero_words_eq)
      (rule nth_equalityI, auto simp: nth_append coef_def)
  have "divides_with (poly f (Suc deg_f)) (poly g (Suc deg_g)) deg_g 0 (poly f (Suc deg_f)) \<and>
      below (Suc deg_f - deg_g) 0 \<and>
      q' = to_coeffs (max 1 (Suc deg_f - deg_g)) 0 @ drop (max 1 (Suc deg_f - deg_g)) q \<and>
      r' = to_coeffs deg_g (poly f (Suc deg_f)) @ replicate (Suc deg_f - deg_g) 0 @ drop (max deg_g (Suc deg_f)) r"
  proof -
    have "max 1 (Suc deg_f - deg_g) = 1" "max deg_g (Suc deg_f) = deg_g" using assms(2) by simp_all
    with F assms(2) res show ?thesis by (simp add: divides_with_def)
  qed
  then show ?thesis unfolding division_result_def by blast
qed

section \<open>Long division\<close>

text \<open>
  After \<open>s\<close> steps: the part of the quotient found so far, times the divisor, plus the working
  remainder is the dividend, and the working remainder has lost its \<open>s\<close> top coefficients.
\<close>

definition long_division_state ::
  "gf64_t list \<Rightarrow> nat \<Rightarrow> gf64_t list \<Rightarrow> nat \<Rightarrow> gf64_t list \<Rightarrow> gf64_t list \<Rightarrow> nat \<Rightarrow> gf64_t list \<times> gf64_t list \<Rightarrow> bool" where
  "long_division_state f deg_f g deg_g q r s = (\<lambda>(q', r').
    length q' = length q \<and> length r' = length r \<and>
    drop (Suc deg_f - deg_g) q' = drop (Suc deg_f - deg_g) q \<and> drop (Suc deg_f) r' = drop (Suc deg_f) r \<and>
    (\<forall>i<Suc deg_f - deg_g - s. q' ! i = 0) \<and> below (Suc deg_f - s) (poly r' (Suc deg_f)) \<and>
    poly f (Suc deg_f) = poly g (Suc deg_g) * poly q' (Suc deg_f - deg_g) + poly r' (Suc deg_f))"

lemma poly_update_zero:
  assumes "i < n" "i < length q" "q ! i = 0"
  shows "poly (q[i := c]) n = poly q n + mono (Gf c) i"
  by (rule ser_eqI) (use assms in \<open>auto simp: poly_trunc coef_def nth_list_update cf_mono simp del: of_coeffs_take\<close>)

lemma poly_acc_row:
  assumes "n \<le> length r"
  shows "poly (acc_row r F) n = poly r n + trunc n (Ser F)"
  by (rule ser_eqI) (use assms in \<open>auto simp: poly_trunc coef_def Gf_xor simp del: of_coeffs_take\<close>)

lemma long_division_step:
  assumes buf: "division_buffers f deg_f g deg_g q r" and le: "deg_g \<le> deg_f" and s: "s < Suc deg_f - deg_g"
    and st: "long_division_state f deg_f g deg_g q r s (q', r')"
  shows "long_division_state f deg_f g deg_g q r (Suc s)
    (eliminate g deg_g (gf64_invert_ita_one (g ! deg_g)) (deg_f - s) (q', r'))"
proof -
  define i where "i = deg_f - s"
  define c where "c = gf64_mul_reference (r' ! i) (gf64_invert_ita_one (g ! deg_g))"
  define j where "j = i - deg_g"
  have i: "i \<le> deg_f" "deg_g \<le> i" "i = j + deg_g" "j < Suc deg_f - deg_g" "Suc deg_f - s = Suc i"
    using le s by (auto simp: i_def j_def)
  have len: "length q' = length q" "length r' = length r" "Suc deg_f - deg_g \<le> length q" "Suc deg_f \<le> length r"
    "deg_g < length g" "g ! deg_g \<noteq> 0"
    using st buf by (auto simp: long_division_state_def division_buffers_def)
  define r'' where "r'' = acc_row r' (\<lambda>k. if j \<le> k \<and> k < j + Suc deg_g then Gf (gf64_mul_reference c (g ! (k - j))) else 0)"
  have step: "eliminate g deg_g (gf64_invert_ita_one (g ! deg_g)) i (q', r') = (q'[j := c], r'')"
  proof (cases "c = 0")
    case True
    then have "r'' = r'" by (simp add: r''_def Gf_mul_reference cong: if_cong)
    with True show ?thesis by (simp add: eliminate_def c_def [symmetric] j_def [symmetric])
  next
    case False
    then show ?thesis
      by (simp add: eliminate_def c_def [symmetric] j_def [symmetric] r''_def fold_shifted_acc_row del: upt_Suc)
  qed
  have zero: "q' ! j = 0" using st s le by (auto simp: long_division_state_def j_def i_def)
  have Q: "poly (q'[j := c]) (Suc deg_f - deg_g) = poly q' (Suc deg_f - deg_g) + mono (Gf c) j"
    using i len zero by (intro poly_update_zero) auto
  have "trunc (Suc deg_f) (Ser (\<lambda>k. if j \<le> k \<and> k < j + Suc deg_g then Gf (gf64_mul_reference c (g ! (k - j))) else 0))
      = mono (Gf c) j * poly g (Suc deg_g)"
    by (rule ser_eqI)
      (use i len in \<open>auto simp: cf_mono_mult poly_trunc coef_def Gf_mul_reference not_less simp del: of_coeffs_take\<close>)
  then have R: "poly r'' (Suc deg_f) = poly r' (Suc deg_f) + mono (Gf c) j * poly g (Suc deg_g)"
    using len by (simp add: r''_def poly_acc_row del: of_coeffs_take)
  have "cf (poly r'' (Suc deg_f)) k = 0" if k: "i \<le> k" for k
  proof (cases "k = i")
    case True
    have "Gf (g ! deg_g) \<noteq> 0" using len(6) by (simp add: gf_eq_iff)
    then have "Gf c * Gf (g ! deg_g) = Gf (r' ! i)"
      by (simp add: c_def Gf_mul_reference gf64_invert_ita_one_eq Gf_inverse)
    then show ?thesis
      using True i len unfolding R by (simp add: cf_mono_mult poly_trunc coef_def del: of_coeffs_take)
  next
    case False
    with k have "Suc i \<le> k" "deg_g < k - j" using i(3) by auto
    then have "cf (poly r' (Suc deg_f)) k = 0" "cf (poly g (Suc deg_g)) (k - j) = 0"
      using st i(5) below_poly [of "Suc deg_g" "Suc deg_g" g] by (auto simp: long_division_state_def below_def)
    then show ?thesis unfolding R by (simp add: cf_mono_mult del: cf_of_coeffs)
  qed
  then have "below (Suc deg_f - Suc s) (poly r'' (Suc deg_f))"
    using i_def by (simp add: below_def)
  moreover have "poly f (Suc deg_f) = poly g (Suc deg_g) * poly (q'[j := c]) (Suc deg_f - deg_g) + poly r'' (Suc deg_f)"
    using st unfolding Q R long_division_state_def by (simp add: distrib_left ac_simps)
  moreover have "drop (Suc deg_f) r'' = drop (Suc deg_f) r'"
    using i len by (intro nth_equalityI) (auto simp: r''_def)
  moreover have "length r'' = length r'" by (simp add: r''_def)
  ultimately show ?thesis
    using st i unfolding i_def [symmetric] step
    by (auto simp: long_division_state_def nth_list_update j_def i_def)
qed

lemma rev_upt_Suc: "a \<le> b \<Longrightarrow> rev [a..<Suc b] = map (\<lambda>s. b - s) [0..<Suc b - a]"
  by (rule nth_equalityI) (auto simp: rev_nth simp del: upt_Suc)

lemma fold_invariant_upt:
  "P 0 s \<Longrightarrow> (\<And>i s. i < n \<Longrightarrow> P i s \<Longrightarrow> P (Suc i) (f i s)) \<Longrightarrow> P n (fold f [0..<n] s)"
  by (induction n) auto

lemma words_of_poly: "n \<le> length a \<Longrightarrow> to_coeffs n (poly a n) = take n a"
  using to_of_coeffs [of "take n a"] by (simp add: min_absorb2)

lemma schoolbook_result:
  assumes buf: "division_buffers f deg_f g deg_g q r"
  shows "\<exists>q' r'. gf64_poly_divmod_schoolbook f deg_f g deg_g q r = Some (q', r') \<and>
    division_result f deg_f g deg_g q r q' r'"
proof (cases "deg_f < deg_g")
  case True
  obtain q' r' where "short_division f deg_f deg_g q r = (q', r')" by (rule prod.exhaust)
  then show ?thesis
    using short_division_result [OF buf True] True buf by (auto simp: gf64_poly_divmod_schoolbook_def division_buffers_def)
next
  case False
  then have le: "deg_g \<le> deg_f" by simp
  define m where "m = Suc deg_f - deg_g"
  let ?c = "gf64_invert_ita_one (g ! deg_g)"
  let ?s0 = "(zero_words 0 m q, copy_words f (Suc deg_f) r)"
  have len: "Suc deg_f \<le> length f" "m \<le> length q" "Suc deg_f \<le> length r" "0 < m"
    using buf le by (auto simp: division_buffers_def m_def)
  have "poly (zero_words 0 m q) m = 0" using len by (simp add: zero_words_eq)
  moreover have "take (Suc deg_f) (copy_words f (Suc deg_f) r) = take (Suc deg_f) f"
    using len by (simp add: copy_words_eq)
  ultimately have init: "long_division_state f deg_f g deg_g q r 0 ?s0"
    using len by (auto simp: long_division_state_def m_def [symmetric] zero_words_eq copy_words_eq below_poly nth_append
        simp del: of_coeffs_take)
  obtain q' r' where run: "fold (\<lambda>s. eliminate g deg_g ?c (deg_f - s)) [0..<m] ?s0 = (q', r')" by (rule prod.exhaust)
  have "long_division_state f deg_f g deg_g q r m (fold (\<lambda>s. eliminate g deg_g ?c (deg_f - s)) [0..<m] ?s0)"
    using init
  proof (rule fold_invariant_upt)
    fix s x assume "s < m" "long_division_state f deg_f g deg_g q r s x"
    then show "long_division_state f deg_f g deg_g q r (Suc s) (eliminate g deg_g ?c (deg_f - s) x)"
      using long_division_step [OF buf le, of s "fst x" "snd x"] by (simp add: m_def)
  qed
  then have fin: "long_division_state f deg_f g deg_g q r m (q', r')" by (simp add: run)
  have "deg_g = Suc deg_f - m" using le by (simp add: m_def)
  then have low: "below deg_g (poly r' (Suc deg_f))" and len': "length q' = length q" "length r' = length r"
    and rest: "drop m q' = drop m q" "drop (Suc deg_f) r' = drop (Suc deg_f) r"
    and eq: "poly f (Suc deg_f) = poly g (Suc deg_g) * poly q' m + poly r' (Suc deg_f)"
    using fin by (simp_all add: long_division_state_def m_def)
  have "q' = to_coeffs m (poly q' m) @ drop m q"
    using len(2) len'(1) words_of_poly [of m q'] append_take_drop_id [of m q'] rest by simp
  moreover have "take (Suc deg_f) r' = to_coeffs deg_g (poly r' (Suc deg_f)) @ replicate m 0"
  proof (rule nth_equalityI)
    fix k assume k: "k < length (take (Suc deg_f) r')"
    then have "r' ! k = gf_rep (cf (poly r' (Suc deg_f)) k)" by (simp add: poly_trunc coef_def del: of_coeffs_take)
    then show "take (Suc deg_f) r' ! k = (to_coeffs deg_g (poly r' (Suc deg_f)) @ replicate m 0) ! k"
      using k low by (auto simp: nth_append below_def m_def)
  qed (use le len len' in \<open>simp add: m_def\<close>)
  then have "r' = to_coeffs deg_g (poly r' (Suc deg_f)) @ replicate m 0 @ drop (Suc deg_f) r"
    by (metis append.assoc append_take_drop_id rest(2))
  moreover have "divides_with (poly f (Suc deg_f)) (poly g (Suc deg_g)) deg_g (poly q' m) (poly r' (Suc deg_f))"
    using eq low by (simp only: divides_with_def)
  ultimately have "division_result f deg_f g deg_g q r q' r'"
    using division_resultI [OF le m_def below_poly [OF order_refl]] by blast
  moreover have "gf64_poly_divmod_schoolbook f deg_f g deg_g q r = Some (q', r')"
  proof -
    have "deg_f - deg_g + 1 = m" "rev [deg_g..<deg_f + 1] = map (\<lambda>s. deg_f - s) [0..<m]"
      using le rev_upt_Suc [OF le] by (simp_all add: m_def)
    then show ?thesis
      using buf False run by (auto simp: gf64_poly_divmod_schoolbook_def division_buffers_def Let_def fold_map comp_def)
  qed
  ultimately show ?thesis by blast
qed

section \<open>Division through the inverse\<close>

lemma of_coeffs_map: "of_coeffs (map v [0..<n]) = Ser (\<lambda>i. if i < n then Gf (v i) else 0)"
  by (rule ser_eqI) (simp add: coef_def)

lemma of_coeffs_rev_words:
  assumes "m \<le> n" "n \<le> length f"
  shows "of_coeffs (map (\<lambda>i. f ! (n - 1 - i)) [0..<m]) = trunc m (rev_ser n (poly f n))"
  by (rule ser_eqI) (use assms in \<open>auto simp: of_coeffs_map cf_rev_ser poly_trunc coef_def simp del: of_coeffs_take\<close>)

lemma newton_quotient:
  assumes k: "deg_f = deg_g + k" and f: "Suc deg_f \<le> length f" and g: "Suc deg_g \<le> length g"
    and rev_f: "rev_f = map (\<lambda>i. f ! (deg_f - i)) [0..<Suc k]"
    and rev_g: "rev_g = map (\<lambda>i. g ! (deg_g - i)) [0..<Suc deg_g]"
    and iv: "length iv = Suc k" "trunc (Suc k) (poly rev_g (Suc deg_g) * of_coeffs iv) = 1"
    and rev_q: "rev_q = product_words rev_f (Suc k) iv (Suc k) (Suc k)"
    and Q: "Q = of_coeffs (map (\<lambda>i. rev_q ! (k - i)) [0..<Suc k])"
  shows "divides_with (poly f (Suc deg_f)) (poly g (Suc deg_g)) deg_g Q
    (poly f (Suc deg_f) + poly g (Suc deg_g) * Q)"
proof -
  define F G where "F = poly f (Suc deg_f)" and "G = poly g (Suc deg_g)"
  have FG: "below (Suc (deg_g + k)) F" "below (Suc deg_g) G" by (simp_all add: F_def G_def below_poly k)
  have len: "length rev_q = Suc k" "length rev_f = Suc k" "length rev_g = Suc deg_g"
    by (simp_all add: rev_q rev_f rev_g)
  have RF: "of_coeffs rev_f = trunc (Suc k) (rev_ser (Suc (deg_g + k)) F)"
    using of_coeffs_rev_words [of "Suc k" "Suc deg_f" f] f by (simp add: rev_f F_def k del: upt_Suc)
  have RG: "of_coeffs rev_g = rev_ser (Suc deg_g) G"
    using of_coeffs_rev_words [of "Suc deg_g" "Suc deg_g" g] g
    by (simp add: rev_g G_def trunc_below [OF below_rev_ser] del: upt_Suc)
  have Q': "Q = rev_ser (Suc k) (of_coeffs rev_q)"
    using of_coeffs_rev_words [of "Suc k" "Suc k" rev_q] len
    by (simp add: Q trunc_below [OF below_rev_ser] del: upt_Suc)
  have "rev_ser (Suc k) Q = of_coeffs rev_q"
    unfolding Q' using len(1) below_of_coeffs [of rev_q] by (intro rev_rev_ser) simp
  also have "\<dots> = trunc (Suc k) (of_coeffs rev_f * of_coeffs iv)"
    using len iv(1) by (simp add: rev_q of_product_words)
  finally have revQ: "rev_ser (Suc k) Q = trunc (Suc k) (of_coeffs rev_f * of_coeffs iv)" .
  have "trunc (Suc k) (rev_ser (Suc deg_g) G * rev_ser (Suc k) Q) =
      trunc (Suc k) (of_coeffs rev_g * (of_coeffs rev_f * of_coeffs iv))"
    unfolding revQ by (simp only: trunc_mult RG)
  also have "\<dots> = trunc (Suc k) (trunc (Suc k) (of_coeffs rev_g * of_coeffs iv) * of_coeffs rev_f)"
    by (simp only: trunc_mult) (simp add: ac_simps)
  also have "\<dots> = trunc (Suc k) (rev_ser (Suc (deg_g + k)) F)"
    using iv(2) len(3) by (simp add: RF trunc_trunc)
  finally show ?thesis
    unfolding F_def [symmetric] G_def [symmetric]
    by (intro division_by_reversal [where k = k] FG) (simp_all add: Q')
qed

lemma returns_divmod_scratch:
  assumes buf: "division_buffers f deg_f g deg_g q r" and size: "Suc deg_f \<le> SIZE_MAX div 3"
    and room: "arena_room (9 * (Suc deg_f - deg_g) + deg_g + deg_f + 2) arena"
  shows "returns alloc (gf64_poly_divmod_scratch alloc t f deg_f g deg_g q r arena)
    (\<lambda>(q', r', arena'). division_result f deg_f g deg_g q r q' r' \<and> arena' = arena)"
proof -
  have guard: "\<not> (deg_g = 0 \<and> g ! 0 = 0)" using buf by (auto simp: division_buffers_def)
  consider (short) "deg_f < deg_g" | (school) "\<not> deg_f < deg_g" "deg_f - deg_g + 1 < GF64_DIVMOD_NEWTON_MIN"
    | (newton) "\<not> deg_f < deg_g" "\<not> deg_f - deg_g + 1 < GF64_DIVMOD_NEWTON_MIN" by blast
  then show ?thesis
  proof cases
    case short
    obtain q' r' where div: "short_division f deg_f deg_g q r = (q', r')" by (rule prod.exhaust)
    show ?thesis
      unfolding gf64_poly_divmod_scratch_def
      using guard short short_division_result [OF buf short div] by (simp add: div returns_def)
  next
    case school
    obtain q' r' where "gf64_poly_divmod_schoolbook f deg_f g deg_g q r = Some (q', r')"
      "division_result f deg_f g deg_g q r q' r'" using schoolbook_result [OF buf] by blast
    then show ?thesis
      unfolding gf64_poly_divmod_scratch_def
      using guard school by (auto simp add: returns_def Let_def)
  next
    case newton
    define k where "k = deg_f - deg_g"
    define m where "m = Suc k"
    define rev_f where "rev_f = map (\<lambda>i. f ! (deg_f - i)) [0..<m]"
    define rev_g where "rev_g = map (\<lambda>i. g ! (deg_g - i)) [0..<Suc deg_g]"
    let ?sizes = "[m, Suc deg_g, m, m, Suc deg_f]"
    have le: "deg_g \<le> deg_f" "deg_f = deg_g + k" and m: "m = Suc deg_f - deg_g" "m \<le> Suc deg_f"
      using newton(1) by (auto simp: k_def m_def)
    have len: "Suc deg_f \<le> length f" "Suc deg_g \<le> length g" "m \<le> length q" "Suc deg_f \<le> length r"
      using buf le by (auto simp: division_buffers_def m)
    have "arena_room (sum_list ?sizes + 6 * m) arena"
      by (rule arena_room_le [OF room]) (simp add: m(1)[symmetric])
    note room2 = arena_room_advance [OF this] arena_room_le [OF this, of "sum_list ?sizes"]
    have blocks: "yields alloc (take_blocks ?sizes arena) (advance (sum_list ?sizes) arena)"
      using room2(2) by (intro yields_take_blocks) simp
    have inv: "returns alloc (gf64_poly_invmod_scratch alloc t rev_g deg_g m (replicate m 0) (advance (sum_list ?sizes) arena))
        (\<lambda>(R, arena'). length R = m \<and> trunc m (poly rev_g (Suc deg_g) * of_coeffs R) = 1 \<and>
          arena' = advance (sum_list ?sizes) arena)"
      using buf size m room2(1)
      by (intro returns_invmod_scratch)
        (auto simp: rev_g_def division_buffers_def m_def nth_append simp del: upt_Suc)
    have run: "gf64_poly_divmod_scratch alloc t f deg_f g deg_g q r arena st =
      take_blocks ?sizes arena st \<bind> (\<lambda>(work, st).
        gf64_poly_invmod_scratch alloc t rev_g deg_g m (replicate m 0) work st \<bind> (\<lambda>((inv, work), st).
          gf64_poly_mul_internal alloc t rev_f m inv m m st \<bind> (\<lambda>(rev_q, st).
            poly_mul_blocks alloc t g deg_g (fold (\<lambda>i q. q[i := rev_q ! (k - i)]) [0..<m] q) k st \<bind> (\<lambda>(gq, st).
              Some ((fold (\<lambda>i q. q[i := rev_q ! (k - i)]) [0..<m] q,
                zero_words deg_g (Suc deg_f) (fold (\<lambda>i r. r[i := r ! i XOR gq ! i]) [0..<deg_g] (copy_words f (Suc deg_f) r)),
                give_back arena work), st)))))" for st
      unfolding gf64_poly_divmod_scratch_def Let_def if_not_P [OF guard] if_not_P [OF newton(1)] if_not_P [OF newton(2)]
      by (simp add: k_def [symmetric] m_def [symmetric] rev_f_def rev_g_def del: upt_Suc)
    have main: "returns alloc (\<lambda>st. gf64_poly_mul_internal alloc t rev_f m iv m m st \<bind> (\<lambda>(rev_q, st).
            poly_mul_blocks alloc t g deg_g (fold (\<lambda>i q. q[i := rev_q ! (k - i)]) [0..<m] q) k st \<bind> (\<lambda>(gq, st).
              Some ((fold (\<lambda>i q. q[i := rev_q ! (k - i)]) [0..<m] q,
                zero_words deg_g (Suc deg_f) (fold (\<lambda>i r. r[i := r ! i XOR gq ! i]) [0..<deg_g] (copy_words f (Suc deg_f) r)),
                arena), st))))
          (\<lambda>(q', r', arena'). division_result f deg_f g deg_g q r q' r' \<and> arena' = arena)"
      if iv: "length iv = m" "trunc m (poly rev_g (Suc deg_g) * of_coeffs iv) = 1" for iv
    proof -
      define rev_q where "rev_q = product_words rev_f m iv m m"
      define q' where "q' = fold (\<lambda>i q. q[i := rev_q ! (k - i)]) [0..<m] q"
      define Q where "Q = of_coeffs (map (\<lambda>i. rev_q ! (k - i)) [0..<m])"
      define gq where "gq = product_words g (Suc deg_g) q' (Suc k) (Suc (deg_g + k))"
      define F G where "F = poly f (Suc deg_f)" and "G = poly g (Suc deg_g)"
      define r' where "r' = zero_words deg_g (Suc deg_f) (fold (\<lambda>i r. r[i := r ! i XOR gq ! i]) [0..<deg_g] (copy_words f (Suc deg_f) r))"
      have q': "q' = map (\<lambda>i. rev_q ! (k - i)) [0..<m] @ drop m q"
        using fold_update_map [of m q "\<lambda>i _. rev_q ! (k - i)"] len(3) by (simp add: q'_def)
      then have polyQ: "poly q' (Suc k) = Q" by (simp add: Q_def m_def del: upt_Suc)
      have div: "divides_with F G deg_g Q (F + G * Q)"
        unfolding F_def G_def
        by (rule newton_quotient [where rev_f = rev_f and rev_g = rev_g and iv = iv and rev_q = rev_q and k = k])
          (use iv le(2) len in \<open>simp_all only: rev_f_def rev_g_def rev_q_def Q_def m_def\<close>)
      have rq: "yields alloc (gf64_poly_mul_internal alloc t rev_f m iv m m) rev_q"
        unfolding rev_q_def using iv(1) by (intro yields_internal) (simp_all add: rev_f_def)
      have gq: "yields alloc (poly_mul_blocks alloc t g deg_g q' k) gq"
        unfolding gq_def using len by (intro yields_poly_mul_blocks) (simp_all add: q' m_def del: upt_Suc)
      have "gf_rep (cf (F + G * Q) i) = f ! i XOR gq ! i" if "i < deg_g" for i
        using that len le(2)
        by (simp add: gq_def product_words_def polyQ F_def G_def coef_def)
      then have R: "to_coeffs deg_g (F + G * Q) = map (\<lambda>i. f ! i XOR gq ! i) [0..<deg_g]"
        by (simp add: to_coeffs_def)
      have "fold (\<lambda>i r. r[i := r ! i XOR gq ! i]) [0..<deg_g] (copy_words f (Suc deg_f) r) =
          map (\<lambda>i. f ! i XOR gq ! i) [0..<deg_g] @ drop deg_g (take (Suc deg_f) f @ drop (Suc deg_f) r)"
        using fold_update_map [of deg_g "take (Suc deg_f) f @ drop (Suc deg_f) r" "\<lambda>i u. u XOR gq ! i"] len le(1)
        by (simp add: copy_words_eq nth_append)
      then have "r' = to_coeffs deg_g (F + G * Q) @ replicate m 0 @ drop (Suc deg_f) r"
        unfolding r'_def R using len le(1) m(1) by (simp add: zero_words_eq)
      moreover have "q' = to_coeffs m Q @ drop m q"
        unfolding q' Q_def by (simp add: to_coeffs_def coef_def)
      ultimately have "division_result f deg_f g deg_g q r q' r'"
        using div by (intro division_resultI [OF le(1) m(1)]) (auto simp: F_def G_def Q_def intro: below_mono_le [OF below_of_coeffs])
      then show ?thesis
        by (intro yields_bind [OF rq] yields_bind [OF gq [unfolded q'_def]] returns_return)
          (simp add: q'_def r'_def)
    qed
    show ?thesis
      by (rule returns_cong [OF _ run], rule yields_bind [OF blocks], rule returns_bind_pair [OF inv])
        (elim conjE, simp only: give_back_advance main)
  qed
qed

lemma returns_divmod:
  assumes "division_buffers f deg_f g deg_g q r" "Suc deg_f \<le> SIZE_MAX div 3"
  shows "returns alloc (gf64_poly_divmod alloc t f deg_f g deg_g q r)
    (\<lambda>(q', r'). division_result f deg_f g deg_g q r q' r')"
proof -
  have "returns alloc (gf64_poly_divmod_scratch alloc t f deg_f g deg_g q r None)
      (\<lambda>(q', r', arena'). division_result f deg_f g deg_g q r q' r' \<and> arena' = None)"
    by (rule returns_divmod_scratch [OF assms]) (simp add: arena_room_def)
  then show ?thesis
    unfolding gf64_poly_divmod_def by (rule returns_bind_triple) (simp add: returns_return)
qed

lemma returns_invmod:
  assumes "0 < n" "n \<le> SIZE_MAX div 3" "deg_g < length g" "g ! 0 \<noteq> 0" "length result = n"
  shows "returns alloc (gf64_poly_invmod alloc t g deg_g n result)
    (\<lambda>R. length R = n \<and> trunc n (poly g (Suc deg_g) * of_coeffs R) = 1)"
proof -
  have "returns alloc (gf64_poly_invmod_scratch alloc t g deg_g n result None)
      (\<lambda>(R, arena'). length R = n \<and> trunc n (poly g (Suc deg_g) * of_coeffs R) = 1 \<and> arena' = None)"
    by (rule returns_invmod_scratch [OF assms]) (simp add: arena_room_def)
  then show ?thesis
    unfolding gf64_poly_invmod_def by (rule returns_bind_pair) (simp add: returns_return)
qed

text \<open>What the callers read off a division.\<close>

lemma division_resultD:
  assumes "division_result f deg_f g deg_g q r q' r'" "division_buffers f deg_f g deg_g q r"
  obtains Q where "divides_with (poly f (Suc deg_f)) (poly g (Suc deg_g)) deg_g Q (poly r' deg_g)"
    "below (Suc deg_f - deg_g) Q" "poly q' (Suc deg_f - deg_g) = Q" "length q' = length q" "length r' = length r"
    "\<And>i. deg_g \<le> i \<Longrightarrow> i \<le> deg_f \<Longrightarrow> r' ! i = 0"
proof -
  obtain Q R where QR: "divides_with (poly f (Suc deg_f)) (poly g (Suc deg_g)) deg_g Q R" "below (Suc deg_f - deg_g) Q"
    "q' = to_coeffs (max 1 (Suc deg_f - deg_g)) Q @ drop (max 1 (Suc deg_f - deg_g)) q"
    "r' = to_coeffs deg_g R @ replicate (Suc deg_f - deg_g) 0 @ drop (max deg_g (Suc deg_f)) r"
    using assms(1) unfolding division_result_def by blast
  have "poly r' deg_g = R" using QR(1) by (simp add: QR(4) divides_with_def trunc_below)
  moreover have "poly q' (Suc deg_f - deg_g) = Q"
  proof -
    have "take (Suc deg_f - deg_g) q' = to_coeffs (Suc deg_f - deg_g) Q"
      unfolding QR(3) by (rule nth_equalityI) (auto simp: nth_append)
    then show ?thesis using QR(2) by (simp add: trunc_below)
  qed
  moreover have "length q' = length q" "length r' = length r"
    using assms(2) unfolding QR(3,4) division_buffers_def by auto
  moreover have "r' ! i = 0" if "deg_g \<le> i" "i \<le> deg_f" for i
    using that unfolding QR(4) by (auto simp: nth_append)
  ultimately show ?thesis using that QR(1,2) by blast
qed

end
