(* ===== verification/Series_Roots.thy ===== *)
theory Series_Roots
  imports Series_Division
begin

text \<open>
  Polynomials with given roots, their formal derivative in characteristic 2, remainders and values,
  and interpolation: what the subproduct tree and the algorithms on it compute, abstractly.
\<close>

section \<open>Products of linear factors\<close>

definition lin :: "gf64_t \<Rightarrow> ser" where "lin a = mono (Gf a) 0 + X 1"

definition vanish :: "gf64_t list \<Rightarrow> ser" where "vanish xs = prod_list (map lin xs)"

lemma vanish_simps [simp]: "vanish [] = 1" "vanish (a # xs) = lin a * vanish xs"
  "vanish (xs @ ys) = vanish xs * vanish ys"
  by (simp_all add: vanish_def)

lemma below_lin: "below 2 (lin a)" by (simp add: below_def lin_def cf_mono)

lemma below_one: "0 < n \<Longrightarrow> below n 1" by (simp add: below_def cf_one)

lemma eval_one: "0 < n \<Longrightarrow> eval n 1 x = 1"
  using eval_mono [of 0 n 1 x] by simp

lemma eval_lin: "eval 2 (lin a) x = x + Gf a"
  unfolding lin_def eval_add using eval_mono [of 0 2 "Gf a" x] eval_mono [of 1 2 1 x] by simp

lemma vanish_facts:
  "below (Suc (length xs)) (vanish xs) \<and> cf (vanish xs) (length xs) = 1 \<and>
    (\<forall>x. eval (Suc (length xs)) (vanish xs) x = (\<Prod>a\<leftarrow>xs. x + Gf a))"
proof (induction xs)
  case Nil
  then show ?case by (simp add: below_one cf_one eval_one)
next
  case (Cons a xs)
  have lin: "below (Suc 1) (lin a)" using below_lin [of a] by (simp add: numeral_2_eq_2)
  have "below (Suc (Suc (length xs))) (lin a * vanish xs)"
    by (rule below_mult [OF below_lin]) (use Cons in auto)
  moreover have "cf (lin a * vanish xs) (1 + length xs) = 1"
    using cf_mult_top [OF lin, of "length xs" "vanish xs"] Cons by (simp add: lin_def cf_mono)
  moreover have "eval (Suc (Suc (length xs))) (lin a * vanish xs) x = (\<Prod>a\<leftarrow>a # xs. x + Gf a)" for x
    using eval_mult [OF below_lin, of "Suc (length xs)" "vanish xs" "Suc (Suc (length xs))" a x] Cons
    by (simp add: eval_lin)
  ultimately show ?case by simp
qed

lemmas below_vanish = vanish_facts [THEN conjunct1]
  and vanish_top = vanish_facts [THEN conjunct2, THEN conjunct1]
  and eval_vanish = vanish_facts [THEN conjunct2, THEN conjunct2, rule_format]

lemma eval_vanish_0_iff: "eval (Suc (length xs)) (vanish xs) (Gf a) = 0 \<longleftrightarrow> a \<in> set xs"
proof -
  have "Gf a + Gf b = 0 \<longleftrightarrow> a = b" for b
    by (metis gf.inject gf_add_self add_eq_0_iff minus_unique)
  then show ?thesis by (auto simp: eval_vanish prod_list_zero_iff)
qed

section \<open>Remainders and values\<close>

lemma eval_remainder:
  assumes "divides_with f g d q r" "below (Suc d) g" "below k q" "eval (Suc d) g x = 0" "below n f"
  shows "eval n f x = eval d r x"
proof -
  let ?N = "n + Suc d + k"
  have r: "below d r" and f: "f = g * q + r" using assms(1) by (simp_all add: divides_with_def)
  have "eval n f x = eval ?N f x" by (rule eval_extend [OF assms(5), symmetric]) simp
  also have "\<dots> = eval ?N (g * q) x + eval ?N r x" by (simp add: f eval_add)
  also have "eval ?N (g * q) x = eval (Suc d) g x * eval k q x" by (rule eval_mult [OF assms(2,3)]) simp
  also have "eval ?N r x = eval d r x" by (rule eval_extend [OF r]) simp
  finally show ?thesis by (simp add: assms(4))
qed

section \<open>The formal derivative\<close>

definition deriv :: "ser \<Rightarrow> ser" where "deriv f = Ser (\<lambda>i. if even i then cf f (Suc i) else 0)"

lemma cf_deriv [simp]: "cf (deriv f) i = (if even i then cf f (Suc i) else 0)" by (simp add: deriv_def)

lemma deriv_mult: "deriv (f * g) = deriv f * g + f * deriv g"
proof (rule ser_eqI)
  fix k
  let ?a = "\<lambda>i. cf f i * cf g (Suc k - i)"
  have "cf (deriv f * g) k = (\<Sum>i\<le>k. if odd (Suc i) then ?a (Suc i) else 0)"
    unfolding cf_mult by (rule sum.cong) auto
  also have "\<dots> = (\<Sum>i\<le>Suc k. if odd i then ?a i else 0)"
    by (subst sum.atMost_Suc_shift) simp
  finally have 1: "cf (deriv f * g) k = (\<Sum>i\<le>Suc k. if odd i then ?a i else 0)" .
  have "cf (f * deriv g) k = (\<Sum>i\<le>k. if odd (Suc k - i) then ?a i else 0)"
    unfolding cf_mult by (rule sum.cong) (auto simp: Suc_diff_le)
  then have 2: "cf (f * deriv g) k = (\<Sum>i\<le>Suc k. if odd (Suc k - i) then ?a i else 0)" by simp
  have "cf (deriv f * g + f * deriv g) k =
      (\<Sum>i\<le>Suc k. (if odd i then ?a i else 0) + (if odd (Suc k - i) then ?a i else 0))"
    by (simp only: cf_ring 1 2 sum.distrib)
  also have "\<dots> = (\<Sum>i\<le>Suc k. if even k then ?a i else 0)"
    by (rule sum.cong) auto
  finally show "cf (deriv (f * g)) k = cf (deriv f * g + f * deriv g) k"
    by (simp only: cf_deriv) (simp add: cf_mult)
qed

lemma deriv_lin [simp]: "deriv (lin a) = 1"
  by (rule ser_eqI) (auto simp: lin_def cf_mono cf_one)

lemma below_deriv: "below (Suc n) f \<Longrightarrow> below n (deriv f)"
  by (simp add: below_def)

text \<open>At a root, the derivative of a product is the derivative of one factor times the other.\<close>

lemma eval_deriv_mult:
  assumes "below (Suc m) f" "below (Suc n) g" "eval (Suc m) f x = 0"
  shows "eval (m + n) (deriv (f * g)) x = eval m (deriv f) x * eval (Suc n) g x"
proof -
  have "eval (m + n) (deriv f * g) x = eval m (deriv f) x * eval (Suc n) g x"
    by (rule eval_mult [OF below_deriv [OF assms(1)] assms(2)]) simp
  moreover have "eval (m + n) (f * deriv g) x = eval (Suc m) f x * eval n (deriv g) x"
    by (rule eval_mult [OF assms(1) below_deriv [OF assms(2)]]) simp
  ultimately show ?thesis by (simp add: deriv_mult eval_add assms(3))
qed

lemma deriv_vanish_nonzero:
  assumes "distinct xs" "a \<in> set xs"
  shows "eval (length xs) (deriv (vanish xs)) (Gf a) \<noteq> 0"
  using assms
proof (induction xs)
  case (Cons b xs)
  note below = below_lin [of b] below_lin [of b, unfolded numeral_2_eq_2] below_vanish [of xs]
  have lin: "eval (Suc 1) (lin b) (Gf a) = Gf a + Gf b" using eval_lin [of b] by (simp add: numeral_2_eq_2)
  show ?case
  proof (cases "a = b")
    case True
    then have "eval (1 + length xs) (deriv (lin b * vanish xs)) (Gf a) =
        eval 1 (deriv (lin b)) (Gf a) * eval (Suc (length xs)) (vanish xs) (Gf a)"
      using lin below by (intro eval_deriv_mult) (simp_all del: One_nat_def)
    with True Cons.prems eval_vanish_0_iff [of xs a] show ?thesis by (simp add: eval_one)
  next
    case False
    with Cons.prems have a: "a \<in> set xs" "distinct xs" by auto
    then have "eval (length xs + 1) (deriv (vanish xs * lin b)) (Gf a) =
        eval (length xs) (deriv (vanish xs)) (Gf a) * eval (Suc 1) (lin b) (Gf a)"
      using below eval_vanish_0_iff [of xs a] by (intro eval_deriv_mult) simp_all
    moreover have "Gf a + Gf b \<noteq> 0" using False by (metis gf.inject gf_add_self add_right_cancel)
    ultimately show ?thesis using Cons.IH [OF a(2,1)] by (simp add: lin [simplified] mult.commute)
  qed
qed simp

text \<open>The derivative at a root is the product of the distances to the other roots.\<close>

lemma deriv_vanish_value:
  assumes "j < length xs"
  shows "eval (length xs) (deriv (vanish xs)) (Gf (xs ! j)) = (\<Prod>k \<in> {..<length xs} - {j}. Gf (xs ! j) + Gf (xs ! k))"
  using assms
proof (induction xs arbitrary: j)
  case (Cons x xs)
  let ?n = "length xs" and ?y = "Gf ((x # xs) ! j)"
  have "eval (Suc ?n) (deriv (lin x) * vanish xs) ?y = eval (Suc ?n) (vanish xs) ?y" by simp
  moreover have "eval (Suc ?n) (lin x * deriv (vanish xs)) ?y = eval 2 (lin x) ?y * eval ?n (deriv (vanish xs)) ?y"
    by (rule eval_mult [OF below_lin below_deriv [OF below_vanish]]) simp
  ultimately have R: "eval (Suc ?n) (deriv (vanish (x # xs))) ?y =
      eval (Suc ?n) (vanish xs) ?y + (?y + Gf x) * eval ?n (deriv (vanish xs)) ?y"
    by (simp add: deriv_mult eval_add eval_lin)
  show ?case
  proof (cases j)
    case 0
    have "{..<Suc ?n} - {0} = Suc ` {..<?n}" unfolding lessThan_Suc_eq_insert_0 by auto
    moreover have "eval (Suc ?n) (vanish xs) ?y = (\<Prod>k<?n. ?y + Gf (xs ! k))"
      by (simp add: eval_vanish prod.list_conv_set_nth atLeast0LessThan)
    ultimately show ?thesis using 0 R by (simp add: prod.reindex)
  next
    case (Suc i)
    then have i: "i < ?n" "?y = Gf (xs ! i)" using Cons.prems by simp_all
    have "{..<Suc ?n} - {Suc i} = insert 0 (Suc ` ({..<?n} - {i}))" unfolding lessThan_Suc_eq_insert_0 by auto
    then have "(\<Prod>k \<in> {..<Suc ?n} - {j}. ?y + Gf ((x # xs) ! k)) = (?y + Gf x) * (\<Prod>k \<in> {..<?n} - {i}. ?y + Gf (xs ! k))"
      using Suc by (simp add: prod.reindex)
    moreover have "eval (Suc ?n) (vanish xs) ?y = 0" using i eval_vanish_0_iff [of xs "xs ! i"] by simp
    ultimately show ?thesis using R Cons.IH [OF i(1)] i(2) by simp
  qed
qed simp

end
