(* ===== verification/Subproduct.thy ===== *)
theory Subproduct
  imports Poly_Division Series_Roots Additive_FFT
begin

text \<open>
  The subproduct tree of gf64/gf64_subproduct.c. A level pointer is the offset of the level in the
  backing store, whose address the allocator gives; the products read and write the store at the
  addresses of the nodes, so that the overlap check of \<open>gf64_poly_mul\<close> is part of the model. The
  levels are built one product after the other; the parallel build runs the products of one level,
  which write disjoint nodes and read the level below, in any order. The file has its own copies of
  the two helpers on powers of two, the same as those of the FFT.
\<close>

record SubproductTree =
  level_data :: "nat list"
  level_lens :: "nat list"
  level_degs :: "nat list"
  num_levels :: nat
  num_points :: nat
  storage :: "gf64_t list"

definition empty_tree :: SubproductTree where
  "empty_tree = \<lparr>level_data = [], level_lens = [], level_degs = [], num_levels = 0, num_points = 0, storage = []\<rparr>"

definition coeffs_before :: "nat list \<Rightarrow> nat list \<Rightarrow> nat \<Rightarrow> nat" where
  "coeffs_before lens degs lev = fold (\<lambda>l offset. offset + lens ! l * (degs ! l + 1)) [0..<lev] 0"

definition tree_header :: "nat \<Rightarrow> SubproductTree" where
  "tree_header N =
    (let levels = gf64_log2_size N + 1;
         lens = map (\<lambda>lev. 2 ^ lev) [0..<levels];
         degs = map (\<lambda>lev. N div 2 ^ lev) [0..<levels]
     in \<lparr>level_data = map (coeffs_before lens degs) [0..<levels], level_lens = lens, level_degs = degs,
         num_levels = levels, num_points = N, storage = replicate (coeffs_before lens degs levels) 0\<rparr>)"

definition write_leaves :: "gf64_t list \<Rightarrow> nat \<Rightarrow> nat \<Rightarrow> gf64_t list \<Rightarrow> gf64_t list" where
  "write_leaves pts N leaves mem =
    fold (\<lambda>i mem. (mem[leaves + 2 * i := pts ! i])[leaves + (2 * i + 1) := 1]) [0..<N] mem"

definition store_words :: "nat \<Rightarrow> gf64_t list \<Rightarrow> gf64_t list \<Rightarrow> gf64_t list" where
  "store_words pos ws mem = take pos mem @ ws @ drop (pos + length ws) mem"

definition build_node ::
  "allocator \<Rightarrow> nat \<Rightarrow> nat \<Rightarrow> SubproductTree \<Rightarrow> nat \<Rightarrow> nat \<Rightarrow> gf64_t list \<times> 'a poly_globals_scheme \<Rightarrow>
    (gf64_t list \<times> 'a poly_globals_scheme) option" where
  "build_node alloc t base T child_lev i = (\<lambda>(mem, st).
    let parent_lev = child_lev - 1;
        child_deg = level_degs T ! child_lev;
        parent_deg = level_degs T ! parent_lev;
        left = level_data T ! child_lev + (2 * i) * (child_deg + 1);
        right = level_data T ! child_lev + (2 * i + 1) * (child_deg + 1);
        parent = level_data T ! parent_lev + i * (parent_deg + 1)
    in do {
      (prd, st) \<leftarrow> gf64_poly_mul alloc t (base + 8 * parent) (base + 8 * left, drop left mem) child_deg
        (base + 8 * right, drop right mem) child_deg st;
      Some (store_words parent prd mem, st)
    })"

definition build_level ::
  "allocator \<Rightarrow> nat \<Rightarrow> nat \<Rightarrow> SubproductTree \<Rightarrow> nat \<Rightarrow> gf64_t list \<times> 'a poly_globals_scheme \<Rightarrow>
    (gf64_t list \<times> 'a poly_globals_scheme) option" where
  "build_level alloc t base T child_lev s =
    fold (\<lambda>i r. r \<bind> build_node alloc t base T child_lev i) [0..<level_lens T ! (child_lev - 1)] (Some s)"

text \<open>\<open>base\<close> is the address of the backing store, 0 when the allocation fails.\<close>

definition gf64_subproduct_tree_build ::
  "allocator \<Rightarrow> nat \<Rightarrow> nat \<Rightarrow> gf64_t list \<Rightarrow> nat \<Rightarrow> 'a poly_globals_scheme \<Rightarrow>
    (SubproductTree \<times> 'a poly_globals_scheme) option" where
  "gf64_subproduct_tree_build alloc t base pts N st =
    (if N = 0 then Some (empty_tree, st)
     else if N > 1 \<and> \<not> gf64_is_power_of_two N then None
     else if base = 0 then None
     else
       let T = tree_header N; last_lev = num_levels T - 1
       in if level_degs T ! last_lev \<noteq> 1 then None
          else do {
            (mem, st) \<leftarrow> fold (\<lambda>child_lev r. r \<bind> build_level alloc t base T child_lev) (rev [1..<last_lev + 1])
              (Some (write_leaves pts N (level_data T ! last_lev) (storage T), st));
            Some (T\<lparr>storage := mem\<rparr>, st)
          })"

definition gf64_subproduct_tree_free :: "SubproductTree \<Rightarrow> SubproductTree" where
  "gf64_subproduct_tree_free T = empty_tree"

section \<open>Loops of calls\<close>

lemma returns_fold_upt:
  assumes "P 0 a" "\<And>i a. i < n \<Longrightarrow> P i a \<Longrightarrow> returns alloc (\<lambda>st. F i (a, st)) (P (Suc i))"
  shows "returns alloc (\<lambda>st. fold (\<lambda>i r. r \<bind> F i) [0..<n] (Some (a, st))) (P n)"
  using assms(2)
proof (induction n)
  case 0
  show ?case using assms(1) by (simp add: returns_def)
next
  case (Suc n)
  have "returns alloc (\<lambda>st. fold (\<lambda>i r. r \<bind> F i) [0..<n] (Some (a, st)) \<bind> (\<lambda>(a, st). F n (a, st))) (P (Suc n))"
    by (rule returns_bind [where P = "P n"]) (use Suc in auto)
  then show ?case by simp
qed

section \<open>Slices of the store\<close>

abbreviation slice :: "gf64_t list \<Rightarrow> nat \<Rightarrow> nat \<Rightarrow> gf64_t list" where "slice mem pos n \<equiv> take n (drop pos mem)"

lemma length_store_words [simp]: "pos + length ws \<le> length mem \<Longrightarrow> length (store_words pos ws mem) = length mem"
  by (simp add: store_words_def)

lemma slice_store_same: "pos + length ws \<le> length mem \<Longrightarrow> slice (store_words pos ws mem) pos (length ws) = ws"
  by (simp add: store_words_def)

lemma nth_store_words:
  "pos + length ws \<le> length mem \<Longrightarrow> store_words pos ws mem ! i =
    (if pos \<le> i \<and> i < pos + length ws then ws ! (i - pos) else mem ! i)"
  by (auto simp: store_words_def nth_append)

lemma slice_store_apart:
  assumes "pos + length ws \<le> length mem" "pos + length ws \<le> a \<or> a + n \<le> pos"
  shows "slice (store_words pos ws mem) a n = slice mem a n"
  by (rule nth_equalityI) (use assms in \<open>auto simp: nth_store_words\<close>)

section \<open>The layout of the tree\<close>

text \<open>Where level \<open>lev\<close> starts, and its node \<open>i\<close>, for \<open>2 ^ L\<close> points.\<close>

definition level_at :: "nat \<Rightarrow> nat \<Rightarrow> nat" where "level_at L lev = lev * 2 ^ L + (2 ^ lev - 1)"

definition node_at :: "nat \<Rightarrow> nat \<Rightarrow> nat \<Rightarrow> nat" where "node_at L lev i = level_at L lev + i * Suc (2 ^ (L - lev))"

lemma level_at_Suc: "level_at L (Suc lev) = level_at L lev + 2 ^ L + 2 ^ lev"
proof -
  have "1 \<le> (2::nat) ^ lev" by simp
  then show ?thesis unfolding level_at_def mult_Suc power_Suc by linarith
qed

lemma level_at_mono: "l \<le> m \<Longrightarrow> level_at L l \<le> level_at L m"
  by (rule lift_Suc_mono_le [of "level_at L"]) (simp_all add: level_at_Suc)

lemma coeffs_before_levels:
  assumes "lev \<le> Suc L"
  shows "coeffs_before (map (\<lambda>lev. 2 ^ lev) [0..<Suc L]) (map (\<lambda>lev. 2 ^ L div 2 ^ lev) [0..<Suc L]) lev = level_at L lev"
proof -
  define lens degs where "lens = map (\<lambda>lev. (2::nat) ^ lev) [0..<Suc L]" and "degs = map (\<lambda>lev. (2::nat) ^ L div 2 ^ lev) [0..<Suc L]"
  have size: "lens ! lev * (degs ! lev + 1) = 2 ^ L + 2 ^ lev" if "lev \<le> L" for lev
    using that by (simp add: lens_def degs_def nth_append less_Suc_eq_le distrib_left flip: power_diff power_add del: upt_Suc)
  have "coeffs_before lens degs lev = level_at L lev"
    using assms
  proof (induction lev)
    case 0
    show ?case by (simp add: coeffs_before_def level_at_def)
  next
    case (Suc lev)
    then show ?case using size [of lev] by (simp add: coeffs_before_def level_at_Suc)
  qed
  then show ?thesis by (simp only: lens_def degs_def)
qed

lemma tree_header_fields:
  shows "num_levels (tree_header (2 ^ L)) = Suc L" "num_points (tree_header (2 ^ L)) = 2 ^ L"
    and "lev \<le> L \<Longrightarrow> level_lens (tree_header (2 ^ L)) ! lev = 2 ^ lev"
    and "lev \<le> L \<Longrightarrow> level_degs (tree_header (2 ^ L)) ! lev = 2 ^ (L - lev)"
    and "lev \<le> L \<Longrightarrow> level_data (tree_header (2 ^ L)) ! lev = level_at L lev"
    and "storage (tree_header (2 ^ L)) = replicate (level_at L (Suc L)) 0"
  by (simp_all add: tree_header_def gf64_log2_size_def log2_size_from_exp Let_def coeffs_before_levels power_diff
      del: upt_Suc)

lemma node_inside:
  assumes "lev \<le> L" "i < 2 ^ lev"
  shows "level_at L lev \<le> node_at L lev i" "node_at L lev i + Suc (2 ^ (L - lev)) \<le> level_at L (Suc lev)"
proof -
  have "Suc i * Suc (2 ^ (L - lev)) \<le> 2 ^ lev * Suc (2 ^ (L - lev))" using assms(2) by (intro mult_le_mono) simp_all
  also have "\<dots> = 2 ^ L + 2 ^ lev" using assms(1) by (simp flip: power_add)
  finally show "node_at L lev i + Suc (2 ^ (L - lev)) \<le> level_at L (Suc lev)"
    by (simp add: node_at_def level_at_Suc)
qed (simp add: node_at_def)

lemma node_in_store:
  assumes "lev \<le> L" "i < 2 ^ lev"
  shows "node_at L lev i + Suc (2 ^ (L - lev)) \<le> level_at L (Suc L)"
  using node_inside(2) [OF assms] level_at_mono [of "Suc lev" "Suc L" L] assms(1) by linarith

lemma nodes_apart:
  assumes "l \<le> L" "i < 2 ^ l" "m \<le> L" "j < 2 ^ m" "l \<noteq> m \<or> i \<noteq> j"
  shows "node_at L l i + Suc (2 ^ (L - l)) \<le> node_at L m j \<or> node_at L m j + Suc (2 ^ (L - m)) \<le> node_at L l i"
proof -
  consider "l < m" | "m < l" | "l = m" "i < j" | "l = m" "j < i" using assms(5) by linarith
  then show ?thesis
  proof cases
    case 1
    then show ?thesis
      using node_inside [OF assms(1,2)] node_inside [OF assms(3,4)] level_at_mono [of "Suc l" m L] by linarith
  next
    case 2
    then show ?thesis
      using node_inside [OF assms(1,2)] node_inside [OF assms(3,4)] level_at_mono [of "Suc m" l L] by linarith
  next
    case 3
    then have "Suc i * Suc (2 ^ (L - l)) \<le> j * Suc (2 ^ (L - l))" by (intro mult_le_mono) simp_all
    then show ?thesis using 3 by (simp add: node_at_def)
  next
    case 4
    then have "Suc j * Suc (2 ^ (L - l)) \<le> i * Suc (2 ^ (L - l))" by (intro mult_le_mono) simp_all
    then show ?thesis using 4 by (simp add: node_at_def)
  qed
qed

section \<open>The contents of the tree\<close>

definition node_points :: "gf64_t list \<Rightarrow> nat \<Rightarrow> nat \<Rightarrow> nat \<Rightarrow> gf64_t list" where
  "node_points pts L lev i = take (2 ^ (L - lev)) (drop (i * 2 ^ (L - lev)) pts)"

definition node_words :: "gf64_t list \<Rightarrow> nat \<Rightarrow> nat \<Rightarrow> nat \<Rightarrow> gf64_t list" where
  "node_words pts L lev i = to_coeffs (Suc (2 ^ (L - lev))) (vanish (node_points pts L lev i))"

lemma length_node_points:
  assumes "length pts = 2 ^ L" "lev \<le> L" "i < 2 ^ lev"
  shows "length (node_points pts L lev i) = 2 ^ (L - lev)"
proof -
  have "Suc i * 2 ^ (L - lev) \<le> 2 ^ lev * 2 ^ (L - lev)" using assms(3) by (intro mult_le_mono) simp_all
  also have "\<dots> = length pts" using assms(1,2) by (simp flip: power_add)
  finally show ?thesis by (simp add: node_points_def)
qed

lemma node_points_split:
  assumes "lev < L"
  shows "node_points pts L lev i = node_points pts L (Suc lev) (2 * i) @ node_points pts L (Suc lev) (2 * i + 1)"
proof -
  have "(2::nat) ^ (L - lev) = 2 * 2 ^ (L - Suc lev)"
    using assms by (simp flip: power_Suc add: Suc_diff_Suc)
  then show ?thesis
    by (simp add: node_points_def take_add mult.assoc mult.left_commute add.commute algebra_simps mult_2)
qed

lemma node_points_root: "length pts = 2 ^ L \<Longrightarrow> node_points pts L 0 0 = pts"
  by (simp add: node_points_def)

lemma node_points_leaf: "length pts = 2 ^ L \<Longrightarrow> i < 2 ^ L \<Longrightarrow> node_points pts L L i = [pts ! i]"
  by (simp add: node_points_def take_Suc_conv_app_nth drop_eq_Nil take_Suc hd_drop_conv_nth)

lemma poly_node_words:
  assumes "length pts = 2 ^ L" "lev \<le> L" "i < 2 ^ lev"
  shows "of_coeffs (node_words pts L lev i) = vanish (node_points pts L lev i)"
  using below_vanish [of "node_points pts L lev i"] length_node_points [OF assms]
  by (simp add: node_words_def trunc_below)

lemma node_words_product:
  assumes "length pts = 2 ^ L" "lev < L" "i < 2 ^ lev"
    and "take (Suc d) a = node_words pts L (Suc lev) (2 * i)" "take (Suc d) b = node_words pts L (Suc lev) (2 * i + 1)"
    and d: "d = 2 ^ (L - Suc lev)"
  shows "product_words a (Suc d) b (Suc d) (Suc (d + d)) = node_words pts L lev i"
proof -
  have "(2::nat) ^ (L - lev) = d + d"
    unfolding d using assms(2) by (simp flip: mult_2 power_Suc add: Suc_diff_Suc)
  moreover have "2 * i < 2 ^ Suc lev" "2 * i + 1 < 2 ^ Suc lev" using assms(3) by simp_all
  ultimately show ?thesis
    using assms(1,2)
    unfolding product_words_def assms(4,5)
    by (simp add: poly_node_words) (simp add: node_words_def node_points_split [OF assms(2)])
qed

lemma node_words_leaf:
  assumes "length pts = 2 ^ L" "i < 2 ^ L"
  shows "node_words pts L L i = [pts ! i, 1]"
proof -
  have "to_coeffs 2 (lin (pts ! i)) = [pts ! i, 1]"
    by (simp add: to_coeffs_def lin_def cf_mono numeral_2_eq_2 gf_eq_iff)
  then show ?thesis by (simp add: node_words_def node_points_leaf [OF assms] numeral_2_eq_2)
qed

section \<open>The build\<close>

lemma yields_poly_mul:
  assumes mem: "in_memory out (Suc (da + db))" "in_memory pa (Suc da)" "in_memory pb (Suc db)"
    and apart: "block_of out (Suc (da + db)) \<inter> (block_of pa (Suc da) \<union> block_of pb (Suc db)) = {}"
    and len: "da < length a" "db < length b"
  shows "yields alloc (gf64_poly_mul alloc t out (pa, a) da (pb, b) db) (product_words a (Suc da) b (Suc db) (Suc (da + db)))"
proof (rule returns_cong [OF yields_poly_mul_blocks [OF len]])
  fix st :: "'a poly_globals_scheme"
  have small: "Suc (da + db) \<le> 2 ^ 61" by (rule in_memory_length [OF mem(1)])
  then have bounds: "da \<noteq> SIZE_MAX" "db \<noteq> SIZE_MAX" "Suc db \<le> SIZE_MAX" "Suc (da + db) \<le> SIZE_MAX"
    by (simp_all add: SIZE_MAX_def)
  show "gf64_poly_mul alloc t out (pa, a) da (pb, b) db st = poly_mul_blocks alloc t a da b db st"
    using bounds assert_no_output_alias_exact [OF mem] apart
    by (simp add: gf64_poly_mul_def product_len_exact poly_mul_blocks_def)
qed

text \<open>The nodes that \<open>A\<close> names hold their products.\<close>

definition filled :: "gf64_t list \<Rightarrow> nat \<Rightarrow> (nat \<Rightarrow> nat \<Rightarrow> bool) \<Rightarrow> gf64_t list \<Rightarrow> bool" where
  "filled pts L A mem \<longleftrightarrow> length mem = level_at L (Suc L) \<and>
    (\<forall>l j. A l j \<longrightarrow> l \<le> L \<longrightarrow> j < 2 ^ l \<longrightarrow> slice mem (node_at L l j) (Suc (2 ^ (L - l))) = node_words pts L l j)"

lemma filled_node:
  "filled pts L A mem \<Longrightarrow> A l j \<Longrightarrow> l \<le> L \<Longrightarrow> j < 2 ^ l \<Longrightarrow>
    slice mem (node_at L l j) (Suc (2 ^ (L - l))) = node_words pts L l j"
  by (simp add: filled_def)

lemma filled_length: "filled pts L A mem \<Longrightarrow> length mem = level_at L (Suc L)"
  by (simp add: filled_def)

lemma filled_mono: "filled pts L A mem \<Longrightarrow> (\<And>l j. l \<le> L \<Longrightarrow> j < 2 ^ l \<Longrightarrow> B l j \<Longrightarrow> A l j) \<Longrightarrow> filled pts L B mem"
  by (simp add: filled_def)

lemma length_node_words [simp]: "length (node_words pts L l j) = Suc (2 ^ (L - l))"
  by (simp add: node_words_def)

lemma filled_store:
  assumes "filled pts L A mem" "lev \<le> L" "i < 2 ^ lev"
  shows "filled pts L (\<lambda>l j. A l j \<or> l = lev \<and> j = i) (store_words (node_at L lev i) (node_words pts L lev i) mem)"
proof -
  have room: "node_at L lev i + length (node_words pts L lev i) \<le> length mem"
    using node_in_store [OF assms(2,3)] filled_length [OF assms(1)] by simp
  show ?thesis
    unfolding filled_def
  proof (intro conjI allI impI)
    show "length (store_words (node_at L lev i) (node_words pts L lev i) mem) = level_at L (Suc L)"
      using room filled_length [OF assms(1)] by simp
  next
    fix l j assume node: "A l j \<or> l = lev \<and> j = i" "l \<le> L" "j < 2 ^ l"
    show "slice (store_words (node_at L lev i) (node_words pts L lev i) mem) (node_at L l j) (Suc (2 ^ (L - l))) =
        node_words pts L l j"
    proof (cases "l = lev \<and> j = i")
      case True
      then show ?thesis using slice_store_same [OF room] by simp
    next
      case False
      then show ?thesis
        using node nodes_apart [OF assms(2,3) node(2,3)] filled_node [OF assms(1) _ node(2,3)]
        by (subst slice_store_apart [OF room]) auto
    qed
  qed
qed

lemma node_block_apart:
  assumes "l \<le> L" "i < 2 ^ l" "m \<le> L" "j < 2 ^ m" "l \<noteq> m \<or> i \<noteq> j"
  shows "block_of (base + 8 * node_at L l i) (Suc (2 ^ (L - l))) \<inter> block_of (base + 8 * node_at L m j) (Suc (2 ^ (L - m))) = {}"
  using nodes_apart [OF assms] by (auto simp: block_of_def)

lemma returns_build_node:
  assumes len: "length pts = 2 ^ L" and lev: "Suc lev \<le> L" "i < 2 ^ lev" and filled: "filled pts L A mem"
    and A: "A (Suc lev) (2 * i)" "A (Suc lev) (2 * i + 1)" and base: "in_memory base (level_at L (Suc L))"
  shows "returns alloc (\<lambda>st. build_node alloc t base (tree_header (2 ^ L)) (Suc lev) i (mem, st))
    (filled pts L (\<lambda>l j. A l j \<or> l = lev \<and> j = i))"
proof -
  define d where "d = (2::nat) ^ (L - Suc lev)"
  define left right where "left = node_at L (Suc lev) (2 * i)" and "right = node_at L (Suc lev) (2 * i + 1)"
  have nodes: "lev \<le> L" "2 * i < 2 ^ Suc lev" "2 * i + 1 < 2 ^ Suc lev" using lev by simp_all
  have d2: "(2::nat) ^ (L - lev) = d + d"
    unfolding d_def using lev(1) by (simp flip: mult_2 power_Suc add: Suc_diff_Suc)
  have store: "node_at L lev i + Suc (d + d) \<le> length mem" "left + Suc d \<le> length mem" "right + Suc d \<le> length mem"
    using node_in_store [OF nodes(1) lev(2)] node_in_store [OF lev(1) nodes(2)] node_in_store [OF lev(1) nodes(3)]
      filled_length [OF filled]
    by (simp_all only: left_def right_def d_def d2)
  have memory: "in_memory (base + 8 * p) n" if "p + n \<le> length mem" for p n
    using that base filled_length [OF filled] by (simp add: in_memory_def)
  have apart: "block_of (base + 8 * node_at L lev i) (Suc (d + d)) \<inter>
      (block_of (base + 8 * left) (Suc d) \<union> block_of (base + 8 * right) (Suc d)) = {}"
    using node_block_apart [OF nodes(1) lev(2) lev(1) nodes(2)] node_block_apart [OF nodes(1) lev(2) lev(1) nodes(3)]
    by (simp add: left_def right_def d_def d2 Int_Un_distrib)
  have children: "slice mem left (Suc d) = node_words pts L (Suc lev) (2 * i)"
    "slice mem right (Suc d) = node_words pts L (Suc lev) (2 * i + 1)"
    using filled_node [where l = "Suc lev" and j = "2 * i", OF filled A(1) lev(1) nodes(2)]
      filled_node [where l = "Suc lev" and j = "2 * i + 1", OF filled A(2) lev(1) nodes(3)]
    by (simp_all only: left_def right_def d_def)
  have mul: "yields alloc (gf64_poly_mul alloc t (base + 8 * node_at L lev i) (base + 8 * left, drop left mem) d
      (base + 8 * right, drop right mem) d) (node_words pts L lev i)"
    unfolding node_words_product [OF len _ lev(2) children d_def, symmetric, OF lev(1) [THEN Suc_le_lessD]]
    by (rule yields_poly_mul [OF memory memory memory apart]) (use store in simp_all)
  have run: "build_node alloc t base (tree_header (2 ^ L)) (Suc lev) i (mem, st) =
      gf64_poly_mul alloc t (base + 8 * node_at L lev i) (base + 8 * left, drop left mem) d
        (base + 8 * right, drop right mem) d st \<bind> (\<lambda>(prd, st). Some (store_words (node_at L lev i) prd mem, st))"
    for st :: "'a poly_globals_scheme"
    using lev(1) by (simp add: build_node_def Let_def tree_header_fields node_at_def left_def right_def d_def)
  show ?thesis
    by (rule returns_cong [OF _ run], rule yields_bind [OF mul], rule returns_return)
      (rule filled_store [OF filled nodes(1) lev(2)])
qed

lemma returns_build_level:
  assumes len: "length pts = 2 ^ L" and lev: "Suc lev \<le> L" and filled: "filled pts L (\<lambda>l j. lev < l) mem"
    and base: "in_memory base (level_at L (Suc L))"
  shows "returns alloc (\<lambda>st. build_level alloc t base (tree_header (2 ^ L)) (Suc lev) (mem, st))
    (filled pts L (\<lambda>l j. lev \<le> l))"
proof -
  let ?P = "\<lambda>i. filled pts L (\<lambda>l j. lev < l \<or> l = lev \<and> j < i)"
  have "returns alloc (\<lambda>st. fold (\<lambda>i r. r \<bind> build_node alloc t base (tree_header (2 ^ L)) (Suc lev) i) [0..<2 ^ lev]
      (Some (mem, st))) (?P (2 ^ lev))"
  proof (rule returns_fold_upt)
    fix i mem assume i: "i < 2 ^ lev" and filled: "?P i mem"
    show "returns alloc (\<lambda>st. build_node alloc t base (tree_header (2 ^ L)) (Suc lev) i (mem, st)) (?P (Suc i))"
      by (rule returns_weaken [OF returns_build_node [OF len lev i filled _ _ base]])
        (auto elim!: filled_mono)
  qed (use filled in simp)
  then have "returns alloc (\<lambda>st. build_level alloc t base (tree_header (2 ^ L)) (Suc lev) (mem, st)) (?P (2 ^ lev))"
    by (rule returns_cong) (use lev in \<open>simp add: build_level_def tree_header_fields\<close>)
  then show ?thesis by (rule returns_weaken) (auto elim!: filled_mono)
qed

lemma filled_leaves:
  assumes len: "length pts = 2 ^ L"
  shows "filled pts L (\<lambda>l j. L \<le> l) (write_leaves pts (2 ^ L) (level_at L L) (replicate (level_at L (Suc L)) 0))"
proof -
  define P where "P i = filled pts L (\<lambda>l j. l = L \<and> j < i)" for i
  have store: "(mem[a := u])[Suc a := v] = store_words a [u, v] mem" if "a + 2 \<le> length mem" for a u v and mem :: "gf64_t list"
    by (rule nth_equalityI) (use that in \<open>auto simp: nth_store_words nth_list_update nth_Cons'\<close>)
  have "P (2 ^ L) (write_leaves pts (2 ^ L) (level_at L L) (replicate (level_at L (Suc L)) 0))"
    unfolding write_leaves_def
  proof (rule fold_upt_invariant)
    show "P 0 (replicate (level_at L (Suc L)) 0)" by (simp add: P_def filled_def)
    fix i mem assume i: "i < 2 ^ L" and P: "P i mem"
    have at: "level_at L L + 2 * i = node_at L L i" "level_at L L + (2 * i + 1) = Suc (node_at L L i)"
      by (simp_all add: node_at_def)
    have "node_at L L i + 2 \<le> length mem"
      using node_in_store [OF order_refl i] filled_length [OF P [unfolded P_def]] by simp
    then have "(mem[level_at L L + 2 * i := pts ! i])[level_at L L + (2 * i + 1) := 1] =
        store_words (node_at L L i) (node_words pts L L i) mem"
      unfolding at by (simp add: store node_words_leaf [OF len i])
    then show "P (Suc i) ((mem[level_at L L + 2 * i := pts ! i])[level_at L L + (2 * i + 1) := 1])"
      using filled_store [OF P [unfolded P_def] order_refl i] by (auto simp: P_def elim!: filled_mono)
  qed simp
  then show ?thesis by (auto simp: P_def elim!: filled_mono)
qed

text \<open>The tree of a list of points: its header and all its nodes.\<close>

definition tree_of :: "gf64_t list \<Rightarrow> nat \<Rightarrow> SubproductTree \<Rightarrow> bool" where
  "tree_of pts L T \<longleftrightarrow> length pts = 2 ^ L \<and> T = (tree_header (2 ^ L))\<lparr>storage := storage T\<rparr> \<and>
    filled pts L (\<lambda>_ _. True) (storage T)"

lemma rev_upt_levels: "rev [Suc 0..<Suc L] = map (\<lambda>k. L - k) [0..<L]"
  by (rule nth_equalityI) (auto simp: rev_nth simp del: upt_Suc)

lemma returns_tree_build:
  assumes len: "length pts = 2 ^ L" and base: "base \<noteq> 0" "in_memory base (level_at L (Suc L))"
  shows "returns alloc (gf64_subproduct_tree_build alloc t base pts (2 ^ L)) (tree_of pts L)"
proof -
  define T where "T = tree_header (2 ^ L)"
  let ?P = "\<lambda>k. filled pts L (\<lambda>l j. L - k \<le> l)"
  have loop: "returns alloc (\<lambda>st. fold (\<lambda>k r. r \<bind> build_level alloc t base T (L - k)) [0..<L]
      (Some (write_leaves pts (2 ^ L) (level_at L L) (replicate (level_at L (Suc L)) 0), st))) (?P L)"
  proof (rule returns_fold_upt [where P = ?P])
    fix k mem assume k: "k < L" and filled: "?P k mem"
    have lev: "L - k = Suc (L - Suc k)" "Suc (L - Suc k) \<le> L" using k by simp_all
    have "filled pts L (\<lambda>l j. L - Suc k < l) mem" using filled by (simp add: lev(1) Suc_le_eq)
    then show "returns alloc (\<lambda>st. build_level alloc t base T (L - k) (mem, st)) (?P (Suc k))"
      unfolding lev(1) T_def by (rule returns_build_level [OF len lev(2) _ base(2)])
  qed (use filled_leaves [OF len] in simp)
  have run: "gf64_subproduct_tree_build alloc t base pts (2 ^ L) st =
      fold (\<lambda>k r. r \<bind> build_level alloc t base T (L - k)) [0..<L]
        (Some (write_leaves pts (2 ^ L) (level_at L L) (replicate (level_at L (Suc L)) 0), st)) \<bind>
      (\<lambda>(mem, st). Some (T\<lparr>storage := mem\<rparr>, st))" for st :: "'a poly_globals_scheme"
    using base(1)
    by (simp add: gf64_subproduct_tree_build_def Let_def T_def [symmetric] rev_upt_levels fold_map comp_def
        tree_header_fields [where L = L, folded T_def] del: upt_Suc)
  show ?thesis
    by (rule returns_cong [OF _ run], rule returns_bind [OF loop], rule returns_return)
      (auto simp: tree_of_def len T_def elim!: filled_mono)
qed

end
