(* ===== verification/Multi_Point.thy ===== *)
theory Multi_Point
  imports Subproduct
begin

text \<open>
  Multi-point evaluation of gf64/gf64_mpe.c: remainders down the subproduct tree and Horner's rule
  at the leaves. The scratch area is threaded through the recursion: a frame owns four slots at its
  start, the deeper frames the rest; too short an area is None, as is a level beyond the tree. The
  callers never pass null pointers here, for which the source returns at once.
\<close>

definition horner_eval_poly :: "gf64_t list \<Rightarrow> nat \<Rightarrow> gf64_t \<Rightarrow> gf64_t" where
  "horner_eval_poly c deg r =
    (if deg = SIZE_MAX then 0
     else fold (\<lambda>i acc. gf64_mul_reference acc r XOR c ! (i - 1)) (rev [1..<deg + 1]) (c ! deg))"

definition remainder_degree :: "gf64_t list \<Rightarrow> nat \<Rightarrow> nat \<Rightarrow> nat" where
  "remainder_degree r child_deg deg_f =
    (let rem_deg = (case find (\<lambda>i. r ! (i - 1) \<noteq> 0) (rev [1..<child_deg + 1]) of None \<Rightarrow> 0 | Some i \<Rightarrow> i - 1)
     in if deg_f < child_deg \<and> rem_deg > deg_f then deg_f else rem_deg)"

function gf64_mp_eval_recurse ::
  "allocator \<Rightarrow> nat \<Rightarrow> gf64_t list \<Rightarrow> nat \<Rightarrow> SubproductTree \<Rightarrow> nat \<Rightarrow> nat \<Rightarrow> gf64_t list \<Rightarrow> gf64_t list \<Rightarrow>
    gf64_arena_t option \<Rightarrow> 'a mpe_globals_scheme \<Rightarrow>
    ((gf64_t list \<times> gf64_t list \<times> gf64_arena_t option) \<times> 'a mpe_globals_scheme) option" where
  "gf64_mp_eval_recurse alloc t f deg_f tree lev node_idx out scratch arena st =
    (if lev + 1 = num_levels tree then
       let xj = storage tree ! (level_data tree ! lev + 2 * node_idx)
       in Some ((out[node_idx := horner_eval_poly f deg_f xj], scratch, arena), st)
     else if lev + 1 < num_levels tree then
       let slot = num_points tree div 2 ^ lev;
           child_deg = level_degs tree ! (lev + 1);
           child_stride = child_deg + 1;
           children = level_data tree ! (lev + 1);
           P_L = drop (children + (2 * node_idx) * child_stride) (storage tree);
           P_R = drop (children + (2 * node_idx + 1) * child_stride) (storage tree)
       in if length scratch < 4 * slot then None
          else do {
            ((q, r_L, arena), st) \<leftarrow> gf64_poly_divmod_scratch alloc t f deg_f P_L child_deg
              (slice scratch slot slot) (take slot scratch) arena st;
            ((q2, r_R, arena), st) \<leftarrow> gf64_poly_divmod_scratch alloc t f deg_f P_R child_deg
              (slice scratch (3 * slot) slot) (slice scratch (2 * slot) slot) arena st;
            ((out, child_scratch, arena), st) \<leftarrow> gf64_mp_eval_recurse alloc t r_L (remainder_degree r_L child_deg deg_f)
              tree (lev + 1) (2 * node_idx) out (drop (4 * slot) scratch) arena st;
            ((out, child_scratch, arena), st) \<leftarrow> gf64_mp_eval_recurse alloc t r_R (remainder_degree r_R child_deg deg_f)
              tree (lev + 1) (2 * node_idx + 1) out child_scratch arena st;
            Some ((out, r_L @ q @ r_R @ q2 @ child_scratch, arena), st)
          }
     else None)"
  by pat_completeness auto
termination
  by (relation "measure (\<lambda>(alloc, t, f, deg_f, tree, lev, node_idx, out, scratch, arena, st). num_levels tree - lev)")
    (simp_all add: diff_less_mono2)

declare gf64_mp_eval_recurse.simps [simp del]

definition gf64_multi_point_eval ::
  "allocator \<Rightarrow> nat \<Rightarrow> gf64_t list \<Rightarrow> nat \<Rightarrow> SubproductTree \<Rightarrow> gf64_t list \<Rightarrow> 'a mpe_globals_scheme \<Rightarrow>
    (gf64_t list \<times> 'a mpe_globals_scheme) option" where
  "gf64_multi_point_eval alloc t f deg_f tree out st =
    (if num_points tree = 0 then Some (out, st)
     else
       let N = num_points tree
       in if N = 1 \<or> deg_f \<ge> N then
            let last_level = level_data tree ! (num_levels tree - 1)
            in Some (fold (\<lambda>j out. out[j := horner_eval_poly f deg_f (storage tree ! (last_level + 2 * j))]) [0..<N] out, st)
          else
            let (rc, arena) = gf64_arena_init (8 * N)
            in if rc \<noteq> 0 then None
               else do {
                 ((out, scratch, arena), st) \<leftarrow> gf64_mp_eval_recurse alloc t f deg_f tree 0 0 out (replicate (8 * N) 0) (Some arena) st;
                 Some (out, st)
               })"

section \<open>Horner's rule\<close>

definition point_value :: "gf64_t list \<Rightarrow> nat \<Rightarrow> gf64_t \<Rightarrow> gf64_t" where
  "point_value f deg x = gf_rep (eval (Suc deg) (poly f (Suc deg)) (Gf x))"

lemma eval_sum: "deg < length f \<Longrightarrow> eval (Suc deg) (poly f (Suc deg)) x = (\<Sum>i\<le>deg. Gf (f ! i) * x ^ i)"
  unfolding eval_def lessThan_Suc_atMost
  by (rule sum.cong) (auto simp: poly_trunc coef_def simp del: of_coeffs_take)

lemma eval_poly_cons:
  assumes "Suc deg < length f"
  shows "eval (Suc (Suc deg)) (poly f (Suc (Suc deg))) x = Gf (f ! 0) + x * eval (Suc deg) (poly (tl f) (Suc deg)) x"
proof -
  have "(\<Sum>i\<le>Suc deg. Gf (f ! i) * x ^ i) = Gf (f ! 0) + x * (\<Sum>i\<le>deg. Gf (tl f ! i) * x ^ i)"
    using assms by (subst sum.atMost_Suc_shift) (simp add: sum_distrib_left nth_tl mult.left_commute)
  then show ?thesis using assms by (simp only: eval_sum length_tl less_diff_conv)
qed

lemma horner_eval_poly_eq:
  assumes "deg < length f" "deg < SIZE_MAX"
  shows "horner_eval_poly f deg x = point_value f deg x"
  using assms
proof (induction deg arbitrary: f)
  case 0
  then show ?case by (simp add: horner_eval_poly_def point_value_def eval_sum)
next
  case (Suc deg)
  have "rev [1..<Suc deg + 1] = map Suc (rev [1..<deg + 1]) @ [1]"
    by (simp add: upt_conv_Cons map_Suc_upt del: upt_Suc flip: rev_map)
  moreover have "fold (\<lambda>i acc. gf64_mul_reference acc x XOR f ! i) (rev [1..<deg + 1]) a =
      fold (\<lambda>i acc. gf64_mul_reference acc x XOR tl f ! (i - 1)) (rev [1..<deg + 1]) a" for a
    by (rule fold_cong) (use Suc.prems(1) in \<open>auto simp: nth_tl\<close>)
  ultimately have "horner_eval_poly f (Suc deg) x = gf64_mul_reference (horner_eval_poly (tl f) deg x) x XOR f ! 0"
    using Suc.prems by (simp add: horner_eval_poly_def fold_map comp_def nth_tl del: upt_Suc)
  also have "\<dots> = gf64_mul_reference (point_value (tl f) deg x) x XOR f ! 0"
    using Suc by simp
  finally have "Gf (horner_eval_poly f (Suc deg) x) = Gf (point_value f (Suc deg) x)"
    using Suc.prems(1) by (simp add: point_value_def eval_poly_cons Gf_xor Gf_mul_reference add.commute mult.commute)
  then show ?case by simp
qed

section \<open>The degree of a remainder\<close>

lemma find_rev_upt:
  "find P (rev [1..<n + 1]) = None \<longleftrightarrow> (\<forall>i. 0 < i \<longrightarrow> i \<le> n \<longrightarrow> \<not> P i)"
  "find P (rev [1..<n + 1]) = Some k \<Longrightarrow> 0 < k \<and> k \<le> n \<and> P k \<and> (\<forall>i. k < i \<longrightarrow> i \<le> n \<longrightarrow> \<not> P i)"
proof -
  show "find P (rev [1..<n + 1]) = None \<longleftrightarrow> (\<forall>i. 0 < i \<longrightarrow> i \<le> n \<longrightarrow> \<not> P i)"
    by (auto simp: find_None_iff simp del: upt_Suc)
next
  show "find P (rev [1..<n + 1]) = Some k \<Longrightarrow> 0 < k \<and> k \<le> n \<and> P k \<and> (\<forall>i. k < i \<longrightarrow> i \<le> n \<longrightarrow> \<not> P i)"
  proof (induction n)
    case (Suc n)
    have "[1..<Suc n + 1] = [1..<n + 1] @ [Suc n]" by simp
    with Suc.prems have found: "(if P (Suc n) then Some (Suc n) else find P (rev [1..<n + 1])) = Some k"
      by (simp del: upt_Suc split: if_splits)
    show ?case
    proof (cases "P (Suc n)")
      case True
      then show ?thesis using found by auto
    next
      case False
      then show ?thesis using found Suc.IH by (metis le_Suc_eq)
    qed
  qed simp
qed

lemma remainder_degree_spec:
  assumes c: "0 < c" "c \<le> length r" and low: "below (Suc deg_f) (poly r c)"
  shows "remainder_degree r c deg_f < c" "poly r (Suc (remainder_degree r c deg_f)) = poly r c"
proof -
  define d where "d = (case find (\<lambda>i. r ! (i - 1) \<noteq> 0) (rev [1..<c + 1]) of None \<Rightarrow> 0 | Some i \<Rightarrow> i - 1)"
  have d: "d < c" "\<forall>i. d < i \<longrightarrow> i < c \<longrightarrow> r ! i = 0"
  proof -
    have "d < c \<and> (\<forall>i. d < i \<longrightarrow> i < c \<longrightarrow> r ! i = 0)"
    proof (cases "find (\<lambda>i. r ! (i - 1) \<noteq> 0) (rev [1..<c + 1])")
      case None
      then have "\<forall>i. 0 < i \<longrightarrow> i \<le> c \<longrightarrow> r ! (i - 1) = 0" by (simp only: find_rev_upt(1) not_not)
      then have "r ! i = 0" if "i < c" for i using that by (metis Suc_leI diff_Suc_1 zero_less_Suc)
      then show ?thesis using None c(1) by (simp add: d_def)
    next
      case (Some k)
      from find_rev_upt(2) [OF this] have k: "0 < k" "k \<le> c" "\<forall>i. k < i \<longrightarrow> i \<le> c \<longrightarrow> r ! (i - 1) = 0" by auto
      have "r ! i = 0" if "k - 1 < i" "i < c" for i
        using k(3) [rule_format, of "Suc i"] that k(1) by simp
      then show ?thesis using Some k(1,2) by (auto simp: d_def)
    qed
    then show "d < c" "\<forall>i. d < i \<longrightarrow> i < c \<longrightarrow> r ! i = 0" by simp_all
  qed
  have zero: "r ! i = 0" if "deg_f < i" "i < c" for i
  proof -
    have "cf (poly r c) i = 0" using low that by (simp only: below_def Suc_le_eq)
    then show ?thesis using that c(2) by (simp add: coef_def gf_eq_iff)
  qed
  have rd: "remainder_degree r c deg_f = (if deg_f < c \<and> deg_f < d then deg_f else d)"
    by (simp add: remainder_degree_def d_def Let_def)
  show "remainder_degree r c deg_f < c" using d(1) by (simp add: rd)
  have "r ! i = 0" if "remainder_degree r c deg_f < i" "i < c" for i
    using that d(2) zero by (auto simp: rd split: if_splits)
  then show "poly r (Suc (remainder_degree r c deg_f)) = poly r c"
    using \<open>remainder_degree r c deg_f < c\<close> c(2)
    by (intro ser_eqI) (auto simp: poly_trunc coef_def simp del: of_coeffs_take)
qed

section \<open>Reading the tree\<close>

lemma tree_of_fields:
  assumes "tree_of pts L T"
  shows "length pts = 2 ^ L" "num_levels T = Suc L" "num_points T = 2 ^ L"
    and "lev \<le> L \<Longrightarrow> level_degs T ! lev = 2 ^ (L - lev)" "lev \<le> L \<Longrightarrow> level_data T ! lev = level_at L lev"
    and "filled pts L (\<lambda>_ _. True) (storage T)"
proof -
  have T: "T = (tree_header (2 ^ L))\<lparr>storage := storage T\<rparr>" and other: "length pts = 2 ^ L" "filled pts L (\<lambda>_ _. True) (storage T)"
    using assms unfolding tree_of_def by blast+
  have "num_levels T = num_levels (tree_header (2 ^ L))" "num_points T = num_points (tree_header (2 ^ L))"
    "level_degs T = level_degs (tree_header (2 ^ L))" "level_data T = level_data (tree_header (2 ^ L))"
    by (subst T, simp)+
  then show "length pts = 2 ^ L" "num_levels T = Suc L" "num_points T = 2 ^ L"
    "lev \<le> L \<Longrightarrow> level_degs T ! lev = 2 ^ (L - lev)" "lev \<le> L \<Longrightarrow> level_data T ! lev = level_at L lev"
    "filled pts L (\<lambda>_ _. True) (storage T)"
    using other by (simp_all add: tree_header_fields)
qed

lemma tree_node:
  assumes T: "tree_of pts L T" and node: "lev \<le> L" "i < 2 ^ lev" and d: "d = 2 ^ (L - lev)"
    and P: "P = drop (node_at L lev i) (storage T)"
  shows "d < length P" "poly P (Suc d) = vanish (node_points pts L lev i)" "P ! d \<noteq> 0"
proof -
  note fields = tree_of_fields [OF T]
  have words: "take (Suc d) P = node_words pts L lev i"
    using filled_node [OF fields(6) _ node] by (simp add: P d)
  show len: "d < length P"
    using node_in_store [OF node] filled_length [OF fields(6)] by (simp add: P d)
  show poly: "poly P (Suc d) = vanish (node_points pts L lev i)"
    unfolding words by (rule poly_node_words [OF fields(1) node])
  have "cf (poly P (Suc d)) d = 1"
    unfolding poly using vanish_top [of "node_points pts L lev i"] length_node_points [OF fields(1) node] by (simp add: d)
  then show "P ! d \<noteq> 0" using len by (auto simp: coef_def gf_eq_iff)
qed

lemma tree_leaf:
  assumes "tree_of pts L T" "i < 2 ^ L"
  shows "storage T ! (level_at L L + 2 * i) = pts ! i"
proof -
  note fields = tree_of_fields [OF assms(1)]
  have "slice (storage T) (node_at L L i) 2 = [pts ! i, 1]"
    using filled_node [OF fields(6) _ order_refl assms(2)] node_words_leaf [OF fields(1) assms(2)] by (simp add: numeral_2_eq_2)
  moreover have "node_at L L i + 2 \<le> length (storage T)"
    using node_in_store [OF order_refl assms(2)] filled_length [OF fields(6)] by simp
  ultimately have "storage T ! node_at L L i = pts ! i"
    by (metis (no_types) nth_Cons_0 nth_take nth_drop zero_less_numeral add_0_right add_leD1 le_add2 order.trans)
  then show ?thesis by (simp add: node_at_def mult_2)
qed

section \<open>The walk down the tree\<close>

lemma store_words_append:
  "pos + length u + length v \<le> length mem \<Longrightarrow>
    store_words (pos + length u) v (store_words pos u mem) = store_words pos (u @ v) mem"
  by (rule nth_equalityI) (auto simp: nth_store_words nth_append)

lemma remainder_step:
  assumes T: "tree_of pts L T" and node: "lev \<le> L" "i < 2 ^ lev" and c: "c = 2 ^ (L - lev)"
    and P: "P = drop (node_at L lev i) (storage T)"
    and f: "deg_f < length f" "deg_f < 2 * c" and len: "length q = 2 * c" "length r = 2 * c"
    and room: "arena_room (16 * c) arena" and size: "2 * c \<le> SIZE_MAX div 3"
  shows "returns alloc (gf64_poly_divmod_scratch alloc t f deg_f P c q r arena)
    (\<lambda>(q', r', arena'). length q' = 2 * c \<and> length r' = 2 * c \<and> remainder_degree r' c deg_f < c \<and>
      (\<forall>x \<in> set (node_points pts L lev i). point_value r' (remainder_degree r' c deg_f) x = point_value f deg_f x) \<and>
      arena' = arena)"
proof -
  note P = tree_node [OF T node c P]
  have c1: "0 < c" by (simp add: c)
  have buf: "division_buffers f deg_f P c q r"
    using f len P(1,3) c1 by (auto simp: division_buffers_def)
  have "9 * (Suc deg_f - c) + c + deg_f + 2 \<le> 16 * c" using f(2) c1 by linarith
  then have room': "arena_room (9 * (Suc deg_f - c) + c + deg_f + 2) arena" by (rule arena_room_le [OF room])
  have "Suc deg_f \<le> SIZE_MAX div 3" using f(2) size by linarith
  from returns_divmod_scratch [OF buf this room', of alloc t] show ?thesis
  proof (rule returns_weaken, clarify)
    fix q' r' assume res: "division_result f deg_f P c q r q' r'"
    obtain Q where Q: "divides_with (poly f (Suc deg_f)) (poly P (Suc c)) c Q (poly r' c)"
      "below (Suc deg_f - c) Q" "length q' = length q" "length r' = length r"
      by (rule division_resultD [OF res buf]) blast
    have "below (Suc deg_f) (poly r' c)"
    proof (cases "deg_f < c")
      case True
      then have "Q = 0" using Q(2) by (simp add: below_def ser_eq_iff)
      then have "poly r' c = poly f (Suc deg_f)" using Q(1) by (simp add: divides_with_def)
      then show ?thesis by (simp only: below_poly)
    next
      case False
      then show ?thesis by (intro below_poly) simp
    qed
    from remainder_degree_spec [OF c1 _ this] len(2) Q(4)
    have deg: "remainder_degree r' c deg_f < c" "poly r' (Suc (remainder_degree r' c deg_f)) = poly r' c"
      by simp_all
    have "point_value r' (remainder_degree r' c deg_f) x = point_value f deg_f x"
      if x: "x \<in> set (node_points pts L lev i)" for x
    proof -
      have "eval (Suc c) (poly P (Suc c)) (Gf x) = 0"
        using eval_vanish_0_iff [of "node_points pts L lev i" x] x length_node_points [OF tree_of_fields(1) [OF T] node]
        unfolding P(2) by (simp add: c)
      from eval_remainder [OF Q(1) below_poly [OF order_refl] Q(2) this below_poly [OF order_refl]]
      have "eval (Suc deg_f) (poly f (Suc deg_f)) (Gf x) = eval c (poly r' c) (Gf x)" .
      also have "\<dots> = eval (Suc (remainder_degree r' c deg_f)) (poly r' c) (Gf x)"
        by (rule eval_extend) (use deg in \<open>simp_all add: deg(2) [symmetric] below_poly del: of_coeffs_take\<close>)
      finally show ?thesis by (simp add: point_value_def deg(2) del: of_coeffs_take)
    qed
    then show "length q' = 2 * c \<and> length r' = 2 * c \<and> remainder_degree r' c deg_f < c \<and>
      (\<forall>x \<in> set (node_points pts L lev i). point_value r' (remainder_degree r' c deg_f) x = point_value f deg_f x) \<and>
      arena = arena"
      using Q(3,4) len deg(1) by simp
  qed
qed

lemma returns_mp_eval_recurse:
  assumes T: "tree_of pts L T" and size: "2 ^ L \<le> SIZE_MAX div 3"
    and node: "lev \<le> L" "i < 2 ^ lev" and n: "n = 2 ^ (L - lev)" and f: "deg_f < length f" "deg_f < n"
    and len: "length out = 2 ^ L" "8 * n \<le> length scratch" and room: "arena_room (8 * n) arena"
  shows "returns alloc (gf64_mp_eval_recurse alloc t f deg_f T lev i out scratch arena :: 'a mpe_globals_scheme \<Rightarrow> _)
    (\<lambda>(out', scratch', arena'). out' = store_words (i * n) (map (point_value f deg_f) (node_points pts L lev i)) out \<and>
      length scratch' = length scratch \<and> arena' = arena)"
  using node n f len room
proof (induction "L - lev" arbitrary: lev i n f deg_f out scratch arena)
  case 0
  note fields = tree_of_fields [OF T]
  have L: "lev = L" "n = 1" "i < 2 ^ L" "deg_f = 0" using 0 by simp_all
  have "gf64_mp_eval_recurse alloc t f deg_f T lev i out scratch arena st =
      Some ((out[i := point_value f deg_f (pts ! i)], scratch, arena), st)" for st :: "'a mpe_globals_scheme"
    using L horner_eval_poly_eq [OF \<open>deg_f < length f\<close>, of "pts ! i"] tree_leaf [OF T L(3)] fields(2) fields(5) [of L]
    by (subst gf64_mp_eval_recurse.simps) (simp add: SIZE_MAX_def)
  moreover have "out[i := point_value f deg_f (pts ! i)] = store_words (i * n) (map (point_value f deg_f) (node_points pts L lev i)) out"
    using L 0 node_points_leaf [OF fields(1) L(3)]
    by (simp add: store_words_def upd_conv_take_nth_drop)
  ultimately show ?case by (simp add: returns_def)
next
  case (Suc k)
  note fields = tree_of_fields [OF T]
  define c where "c = (2::nat) ^ (L - Suc lev)"
  have lev: "Suc lev \<le> L" "lev < L" using Suc.hyps(2) by simp_all
  have n: "n = 2 * c" unfolding c_def Suc.prems(3) using lev by (simp flip: power_Suc add: Suc_diff_Suc)
  have children: "2 * i < 2 ^ Suc lev" "2 * i + 1 < 2 ^ Suc lev" using Suc.prems(2) by simp_all
  have slot: "num_points T div 2 ^ lev = n"
    using lev by (simp add: fields(3) Suc.prems(3) power_diff)
  have cL: "2 * c \<le> SIZE_MAX div 3"
  proof -
    have "(2::nat) ^ (L - lev) \<le> 2 ^ L" by (rule power_increasing) simp_all
    then show ?thesis using size n Suc.prems(3) by linarith
  qed
  have scratch: "4 * n \<le> length scratch" using Suc.prems(7) by simp
  define PL PR where "PL = drop (node_at L (Suc lev) (2 * i)) (storage T)"
    and "PR = drop (node_at L (Suc lev) (2 * i + 1)) (storage T)"
  have room: "arena_room (16 * c) arena" "arena_room (8 * c) arena"
    using Suc.prems(8) arena_room_le [OF Suc.prems(8), of "8 * c"] by (simp_all add: n)
  have div: "returns alloc (gf64_poly_divmod_scratch alloc t f deg_f P c q r arena)
    (\<lambda>(q', r', arena'). length q' = n \<and> length r' = n \<and> remainder_degree r' c deg_f < c \<and>
      (\<forall>x \<in> set (node_points pts L (Suc lev) j). point_value r' (remainder_degree r' c deg_f) x = point_value f deg_f x) \<and>
      arena' = arena)"
    if "j < 2 ^ Suc lev" "P = drop (node_at L (Suc lev) j) (storage T)" "length q = n" "length r = n" for P q r j
    unfolding n
    by (rule remainder_step [OF T lev(1) that(1) c_def that(2) Suc.prems(4) _ _ _ room(1) cL])
      (use Suc.prems(5) that(3,4) n in simp_all)
  have run: "gf64_mp_eval_recurse alloc t f deg_f T lev i out scratch arena st =
      gf64_poly_divmod_scratch alloc t f deg_f PL c (slice scratch n n) (take n scratch) arena st \<bind> (\<lambda>((q, r_L, arena), st).
      gf64_poly_divmod_scratch alloc t f deg_f PR c (slice scratch (3 * n) n) (slice scratch (2 * n) n) arena st \<bind> (\<lambda>((q2, r_R, arena), st).
      gf64_mp_eval_recurse alloc t r_L (remainder_degree r_L c deg_f) T (Suc lev) (2 * i) out (drop (4 * n) scratch) arena st \<bind>
        (\<lambda>((out, child_scratch, arena), st).
      gf64_mp_eval_recurse alloc t r_R (remainder_degree r_R c deg_f) T (Suc lev) (2 * i + 1) out child_scratch arena st \<bind>
        (\<lambda>((out, child_scratch, arena), st). Some ((out, r_L @ q @ r_R @ q2 @ child_scratch, arena), st)))))"
    for st :: "'a mpe_globals_scheme"
    using lev scratch
    by (subst gf64_mp_eval_recurse.simps)
      (simp add: Let_def slot fields(2) fields(4) [OF lev(1)] fields(5) [OF lev(1)] PL_def PR_def c_def [symmetric]
        node_at_def not_less add.left_commute)
  have IH: "returns alloc (gf64_mp_eval_recurse alloc t r (remainder_degree r c deg_f) T (Suc lev) j out' scratch' arena
      :: 'a mpe_globals_scheme \<Rightarrow> _)
    (\<lambda>(out'', scratch'', arena'). out'' = store_words (j * c) (map (point_value f deg_f) (node_points pts L (Suc lev) j)) out' \<and>
      length scratch'' = length scratch' \<and> arena' = arena)"
    if "j < 2 ^ Suc lev" "length r = n" "remainder_degree r c deg_f < c" "length out' = 2 ^ L" "8 * c \<le> length scratch'"
      "\<forall>x \<in> set (node_points pts L (Suc lev) j). point_value r (remainder_degree r c deg_f) x = point_value f deg_f x"
    for r j out' scratch'
  proof -
    have vals: "map (point_value f deg_f) (node_points pts L (Suc lev) j) =
        map (point_value r (remainder_degree r c deg_f)) (node_points pts L (Suc lev) j)"
      using that(6) by simp
    have k: "k = L - Suc lev" using Suc.hyps(2) by simp
    show ?thesis
      unfolding vals
      by (rule Suc.hyps(1) [OF k lev(1) that(1) c_def _ that(3) that(4,5) room(2)]) (use that(2,3) n in simp)
  qed
  have store: "i * n + n \<le> length out" "2 * i * c = i * n" "(2 * i + 1) * c = i * n + c"
  proof -
    have "Suc i * n \<le> 2 ^ lev * 2 ^ (L - lev)" using Suc.prems(2,3) by (intro mult_le_mono) simp_all
    also have "\<dots> = length out" using Suc.prems(1,6) by (simp flip: power_add)
    finally show "i * n + n \<le> length out" by simp
  qed (simp_all add: n)
  have split: "map (point_value f deg_f) (node_points pts L lev i) =
      map (point_value f deg_f) (node_points pts L (Suc lev) (2 * i)) @ map (point_value f deg_f) (node_points pts L (Suc lev) (2 * i + 1))"
    unfolding node_points_split [OF lev(2)] by simp
  have lens: "length (node_points pts L (Suc lev) (2 * i)) = c" "length (node_points pts L (Suc lev) (2 * i + 1)) = c"
    using length_node_points [OF fields(1) lev(1)] children by (simp_all add: c_def)
  define good where "good j r \<longleftrightarrow> length r = n \<and> remainder_degree r c deg_f < c \<and>
    (\<forall>x \<in> set (node_points pts L (Suc lev) j). point_value r (remainder_degree r c deg_f) x = point_value f deg_f x)" for j r
  let ?Post = "\<lambda>(out', scratch', arena'). out' = store_words (i * n) (map (point_value f deg_f) (node_points pts L lev i)) out \<and>
    length scratch' = length scratch \<and> arena' = arena"
  have right: "returns alloc (\<lambda>st :: 'a mpe_globals_scheme. gf64_mp_eval_recurse alloc t r_R (remainder_degree r_R c deg_f) T (Suc lev) (2 * i + 1)
      out1 scratch1 arena st \<bind> (\<lambda>((out, child_scratch, arena), st). Some ((out, r_L @ q @ r_R @ q2 @ child_scratch, arena), st))) ?Post"
    if "good (2 * i + 1) r_R" "length r_L = n" "length q = n" "length q2 = n" "length scratch1 = length scratch - 4 * n"
      "out1 = store_words (2 * i * c) (map (point_value f deg_f) (node_points pts L (Suc lev) (2 * i))) out"
    for r_R out1 scratch1 r_L q q2
  proof (rule returns_bind_triple [OF IH [OF children(2)]])
    show "length out1 = 2 ^ L"
      unfolding that(6) store(2) using store(1) lens(1) n by (subst length_store_words) (simp_all add: Suc.prems(6))
    show "8 * c \<le> length scratch1" using that(5) Suc.prems(7) n by simp
    fix out' scratch' :: "gf64_t list" and arena'
    assume *: "out' = store_words ((2 * i + 1) * c) (map (point_value f deg_f) (node_points pts L (Suc lev) (2 * i + 1))) out1 \<and>
      length scratch' = length scratch1 \<and> arena' = arena"
    have "out' = store_words (i * n) (map (point_value f deg_f) (node_points pts L lev i)) out"
      unfolding split conjunct1 [OF *] that(6) store(2,3)
      using store_words_append [of "i * n" "map (point_value f deg_f) (node_points pts L (Suc lev) (2 * i))"
          "map (point_value f deg_f) (node_points pts L (Suc lev) (2 * i + 1))" out] store(1) lens n by simp
    then show "returns alloc (\<lambda>st :: 'a mpe_globals_scheme. Some ((out', r_L @ q @ r_R @ q2 @ scratch', arena'), st)) ?Post"
      using * that scratch by (intro returns_return) (simp add: good_def)
  qed (use that(1) in \<open>simp_all add: good_def\<close>)
  have left: "returns alloc (\<lambda>st :: 'a mpe_globals_scheme. gf64_mp_eval_recurse alloc t r_L (remainder_degree r_L c deg_f) T (Suc lev) (2 * i) out
      (drop (4 * n) scratch) arena st \<bind> (\<lambda>((out, child_scratch, arena), st).
      gf64_mp_eval_recurse alloc t r_R (remainder_degree r_R c deg_f) T (Suc lev) (2 * i + 1) out child_scratch arena st \<bind>
        (\<lambda>((out, child_scratch, arena), st). Some ((out, r_L @ q @ r_R @ q2 @ child_scratch, arena), st)))) ?Post"
    if "good (2 * i) r_L" "good (2 * i + 1) r_R" "length q = n" "length q2 = n" for r_L r_R q q2
  proof (rule returns_bind_triple [OF IH [OF children(1)]])
    show "8 * c \<le> length (drop (4 * n) scratch)" using Suc.prems(7) n by simp
    fix out1 scratch1 :: "gf64_t list" and arena1
    assume "out1 = store_words (2 * i * c) (map (point_value f deg_f) (node_points pts L (Suc lev) (2 * i))) out \<and>
      length scratch1 = length (drop (4 * n) scratch) \<and> arena1 = arena"
    then show "returns alloc (\<lambda>st :: 'a mpe_globals_scheme. gf64_mp_eval_recurse alloc t r_R (remainder_degree r_R c deg_f) T
        (Suc lev) (2 * i + 1) out1 scratch1 arena1 st \<bind>
        (\<lambda>((out, child_scratch, arena), st). Some ((out, r_L @ q @ r_R @ q2 @ child_scratch, arena), st))) ?Post"
      using right [OF that(2) _ that(3,4)] that(1) by (simp add: good_def)
  qed (use that(1) Suc.prems(6) in \<open>simp_all add: good_def\<close>)
  have slots: "length (take n scratch) = n" "length (slice scratch (j * n) n) = n" if "j < 4" for j
  proof -
    have "Suc j * n \<le> 4 * n" using that by (intro mult_le_mono) simp_all
    then have "n + j * n \<le> length scratch" unfolding mult_Suc using scratch by (rule order_trans)
    then show "length (take n scratch) = n" "length (slice scratch (j * n) n) = n" by simp_all
  qed
  show ?case
  proof (rule returns_cong [OF _ run], rule returns_bind_triple [OF div [OF children(1) PL_def]])
    fix q r_L :: "gf64_t list" and arena1
    assume L: "length q = n \<and> length r_L = n \<and> remainder_degree r_L c deg_f < c \<and>
      (\<forall>x \<in> set (node_points pts L (Suc lev) (2 * i)). point_value r_L (remainder_degree r_L c deg_f) x = point_value f deg_f x) \<and>
      arena1 = arena"
    show "returns alloc (\<lambda>st :: 'a mpe_globals_scheme.
      gf64_poly_divmod_scratch alloc t f deg_f PR c (slice scratch (3 * n) n) (slice scratch (2 * n) n) arena1 st \<bind> (\<lambda>((q2, r_R, arena), st).
      gf64_mp_eval_recurse alloc t r_L (remainder_degree r_L c deg_f) T (Suc lev) (2 * i) out (drop (4 * n) scratch) arena st \<bind>
        (\<lambda>((out, child_scratch, arena), st).
      gf64_mp_eval_recurse alloc t r_R (remainder_degree r_R c deg_f) T (Suc lev) (2 * i + 1) out child_scratch arena st \<bind>
        (\<lambda>((out, child_scratch, arena), st). Some ((out, r_L @ q @ r_R @ q2 @ child_scratch, arena), st))))) ?Post"
      unfolding conjunct2 [OF conjunct2 [OF conjunct2 [OF conjunct2 [OF L]]]]
    proof (rule returns_bind_triple [OF div [OF children(2) PR_def]])
      fix q2 r_R :: "gf64_t list" and arena2
      assume R: "length q2 = n \<and> length r_R = n \<and> remainder_degree r_R c deg_f < c \<and>
        (\<forall>x \<in> set (node_points pts L (Suc lev) (2 * i + 1)). point_value r_R (remainder_degree r_R c deg_f) x = point_value f deg_f x) \<and>
        arena2 = arena"
      have "good (2 * i) r_L" "good (2 * i + 1) r_R" "length q = n" "length q2 = n" using L R by (simp_all add: good_def)
      from left [OF this] conjunct2 [OF conjunct2 [OF conjunct2 [OF conjunct2 [OF R]]]]
      show "returns alloc (\<lambda>st :: 'a mpe_globals_scheme.
        gf64_mp_eval_recurse alloc t r_L (remainder_degree r_L c deg_f) T (Suc lev) (2 * i) out (drop (4 * n) scratch) arena2 st \<bind>
          (\<lambda>((out, child_scratch, arena), st).
        gf64_mp_eval_recurse alloc t r_R (remainder_degree r_R c deg_f) T (Suc lev) (2 * i + 1) out child_scratch arena st \<bind>
          (\<lambda>((out, child_scratch, arena), st). Some ((out, r_L @ q @ r_R @ q2 @ child_scratch, arena), st)))) ?Post"
        by (simp only:)
    qed (use slots(2) [of 2] slots(2) [of 3] in simp_all)
  qed (use slots(1) [of 0] slots(2) [of 1] in simp_all)
qed

text \<open>The entry: every point gets its value, whichever of the two methods runs.\<close>

lemma returns_multi_point_eval:
  assumes T: "tree_of pts L T" and size: "64 * 2 ^ L \<le> SIZE_MAX" and f: "deg_f < length f" "deg_f < SIZE_MAX"
    and out: "length out = 2 ^ L"
  shows "yields alloc (gf64_multi_point_eval alloc t f deg_f T out :: 'a mpe_globals_scheme \<Rightarrow> _)
    (map (point_value f deg_f) pts)"
proof (cases "L = 0 \<or> 2 ^ L \<le> deg_f")
  case True
  note fields = tree_of_fields [OF T]
  have "fold (\<lambda>j out. out[j := horner_eval_poly f deg_f (storage T ! (level_at L L + 2 * j))]) [0..<2 ^ L] out =
      map (\<lambda>j. horner_eval_poly f deg_f (storage T ! (level_at L L + 2 * j))) [0..<2 ^ L]"
    using fold_const_update_map [of "2 ^ L" out] out by simp
  also have "\<dots> = map (point_value f deg_f) pts"
    by (rule nth_equalityI) (simp_all add: fields(1) tree_leaf [OF T] horner_eval_poly_eq [OF f])
  finally have "gf64_multi_point_eval alloc t f deg_f T out st = Some (map (point_value f deg_f) pts, st)"
    for st :: "'a mpe_globals_scheme"
    using True by (auto simp: gf64_multi_point_eval_def Let_def fields(2,3,5))
  then show ?thesis by (simp add: returns_def)
next
  case False
  note fields = tree_of_fields [OF T]
  define arena where "arena = \<lparr>ar_cap = 8 * 2 ^ L, ar_used = 0\<rparr>"
  have init: "gf64_arena_init (8 * 2 ^ L) = (0, arena)"
    using size by (auto simp: gf64_arena_init_def arena_def SIZE_MAX_def)
  have walk: "returns alloc (gf64_mp_eval_recurse alloc t f deg_f T 0 0 out (replicate (8 * 2 ^ L) 0) (Some arena) :: 'a mpe_globals_scheme \<Rightarrow> _)
    (\<lambda>(out', scratch', arena'). out' = store_words (0 * 2 ^ L) (map (point_value f deg_f) (node_points pts L 0 0)) out \<and>
      length scratch' = length (replicate (8 * 2 ^ L) (0 :: gf64_t)) \<and> arena' = Some arena)"
    by (rule returns_mp_eval_recurse [OF T])
      (use size f(1) out False in \<open>simp_all add: SIZE_MAX_def arena_room_def arena_def not_le\<close>)
  have run: "gf64_multi_point_eval alloc t f deg_f T out st =
      gf64_mp_eval_recurse alloc t f deg_f T 0 0 out (replicate (8 * 2 ^ L) 0) (Some arena) st \<bind>
        (\<lambda>((out, scratch, arena), st). Some (out, st))" for st :: "'a mpe_globals_scheme"
    using False by (simp add: gf64_multi_point_eval_def fields(3) init)
  show ?thesis
    by (rule returns_cong [OF _ run], rule returns_bind_triple [OF walk], rule returns_return)
      (use out in \<open>simp add: store_words_def node_points_root [OF fields(1)] fields(1)\<close>)
qed

end
