(* ===== verification/Interpolation.thy ===== *)
theory Interpolation
  imports Multi_Point Dispatch
begin

text \<open>
  Interpolation of gf64/gf64_mpe.c: the derivative of the root, its values at the points, and the
  combination up the tree, with the gate on the environment variable. The products of a frame read
  and write slots that do not overlap, so they are calls on separate arrays. The optional array of
  weights is an option; the other null pointers are not modelled.
\<close>

function gf64_mpi_recurse_deriv ::
  "allocator \<Rightarrow> nat \<Rightarrow> gf64_t list \<Rightarrow> SubproductTree \<Rightarrow> nat \<Rightarrow> nat \<Rightarrow> nat \<Rightarrow> gf64_t list \<Rightarrow> gf64_t list \<Rightarrow>
    'a poly_globals_scheme \<Rightarrow> ((gf64_t list \<times> gf64_t list) \<times> 'a poly_globals_scheme) option" where
  "gf64_mpi_recurse_deriv alloc t z tree lev node_idx out_offset out_poly scratch st =
    (let N_at_lev = num_points tree div 2 ^ lev; f_size = N_at_lev div 2
     in if lev + 1 = num_levels tree then Some ((out_poly[0 := z ! out_offset], scratch), st)
        else if lev + 1 < num_levels tree \<and> 4 * N_at_lev \<le> length scratch then do {
          ((slot0, child_scratch), st) \<leftarrow> gf64_mpi_recurse_deriv alloc t z tree (lev + 1) (2 * node_idx) out_offset
            (take N_at_lev scratch) (drop (4 * N_at_lev) scratch) st;
          ((slot1, child_scratch), st) \<leftarrow> gf64_mpi_recurse_deriv alloc t z tree (lev + 1) (2 * node_idx + 1) (out_offset + f_size)
            (slice scratch N_at_lev N_at_lev) child_scratch st;
          let P_left = drop (level_data tree ! (lev + 1) + (2 * node_idx) * (f_size + 1)) (storage tree);
          let P_right = drop (level_data tree ! (lev + 1) + (2 * node_idx + 1) * (f_size + 1)) (storage tree);
          (slot2, st) \<leftarrow> gf64_poly_mul_internal alloc t P_right (f_size + 1) slot0 f_size N_at_lev st;
          (slot3, st) \<leftarrow> gf64_poly_mul_internal alloc t P_left (f_size + 1) slot1 f_size N_at_lev st;
          let out_poly = fold (\<lambda>i out. out[i := slot2 ! i XOR slot3 ! i]) [0..<N_at_lev] out_poly;
          Some ((out_poly, slot0 @ slot1 @ slot2 @ slot3 @ child_scratch), st)
        }
        else None)"
  by pat_completeness auto
termination
  by (relation "measure (\<lambda>(alloc, t, z, tree, lev, node_idx, out_offset, out_poly, scratch, st). num_levels tree - lev)")
    (simp_all add: diff_less_mono2)

declare gf64_mpi_recurse_deriv.simps [simp del]

definition gf64_multi_point_interp_weights ::
  "allocator \<Rightarrow> nat \<Rightarrow> SubproductTree \<Rightarrow> gf64_t list \<Rightarrow> gf64_t list option \<Rightarrow> gf64_t list \<Rightarrow> 'a poly_globals_scheme \<Rightarrow>
    (gf64_t list \<times> 'a poly_globals_scheme) option" where
  "gf64_multi_point_interp_weights alloc t tree values' weights out st =
    (let N = num_points tree
     in if N = 0 then Some (out, st)
        else if N = 1 then
          Some (out[0 := (case weights of Some w \<Rightarrow> gf64_mul_reference (values' ! 0) (w ! 0) | None \<Rightarrow> values' ! 0)], st)
        else
          let z = (case weights of
                 Some w \<Rightarrow> fold (\<lambda>j z. z[j := gf64_mul_reference (values' ! j) (w ! j)]) [0..<N] (replicate N 0)
               | None \<Rightarrow> values')
          in do {
            ((out, scratch), st) \<leftarrow> gf64_mpi_recurse_deriv alloc t z tree 0 0 0 out (replicate (8 * N) 0) st;
            Some (out, st)
          })"

text \<open>The scaling loop of the internal entry: it aborts at a value 0 of the derivative.\<close>

definition scale_by_inverse :: "gf64_t list \<Rightarrow> gf64_t list \<Rightarrow> nat \<Rightarrow> gf64_t list \<Rightarrow> gf64_t list option" where
  "scale_by_inverse values' d N z =
    fold (\<lambda>j r. do { z \<leftarrow> r;
        if d ! j = 0 then None else Some (z[j := gf64_mul_reference (values' ! j) (gf64_invert_ita_one (d ! j))]) })
      [0..<N] (Some z)"

definition derivative_words :: "gf64_t list \<Rightarrow> nat \<Rightarrow> gf64_t list \<Rightarrow> gf64_t list" where
  "derivative_words P N z = fold (\<lambda>k z. z[k := (if odd (k + 1) then P ! (k + 1) else 0)]) [0..<N] z"

definition gf64_multi_point_interp_internal ::
  "allocator \<Rightarrow> nat \<Rightarrow> SubproductTree \<Rightarrow> gf64_t list \<Rightarrow> gf64_t list \<Rightarrow> 'a mpe_globals_scheme \<Rightarrow>
    (gf64_t list \<times> 'a mpe_globals_scheme) option" where
  "gf64_multi_point_interp_internal alloc t tree values' out st =
    (let N = num_points tree
     in if N = 0 then Some (out, st)
        else if N = 1 then Some (out[0 := values' ! 0], st)
        else do {
          let z = derivative_words (drop (level_data tree ! 0) (storage tree)) N (replicate N 0);
          (d, st) \<leftarrow> gf64_multi_point_eval alloc t z (N - 1) tree (replicate N 0) st;
          z \<leftarrow> scale_by_inverse values' d N z;
          gf64_multi_point_interp_weights alloc t tree z None out st
        })"

section \<open>The gate\<close>

definition gf64_interp_read_env :: "environment \<Rightarrow> int" where
  "gf64_interp_read_env getenv =
    (case getenv ''PAR3_GF64_USE_INTERP'' of
       None \<Rightarrow> 0
     | Some e \<Rightarrow>
         if e = [] then 0
         else if hd e = CHR ''1'' then 1
         else if strcaseeq e ''true'' then 1
         else if strcaseeq e ''yes'' then 1
         else if strcaseeq e ''on'' then 1
         else if hd e = CHR ''0'' then 0
         else if strcaseeq e ''false'' then 0
         else if strcaseeq e ''no'' then 0
         else if strcaseeq e ''off'' then 0
         else 0)"

definition gf64_interp_enabled :: "environment \<Rightarrow> 'a mpe_globals_scheme \<Rightarrow> int \<times> 'a mpe_globals_scheme" where
  "gf64_interp_enabled getenv st =
    (let st = (if gf64_interp_env_cached st < 0 then st\<lparr>gf64_interp_env_cached := gf64_interp_read_env getenv\<rparr> else st)
     in (gf64_interp_env_cached st, st))"

definition gf64_interp_dispatch_reset :: "'a mpe_globals_scheme \<Rightarrow> 'a mpe_globals_scheme" where
  "gf64_interp_dispatch_reset st = st\<lparr>gf64_interp_env_cached := -1\<rparr>"

definition gf64_interp_dispatch_probe_count :: "'a mpe_globals_scheme \<Rightarrow> int" where
  "gf64_interp_dispatch_probe_count st = gf64_interp_probe_count st"

definition gf64_interp_dispatch_reset_probe :: "'a mpe_globals_scheme \<Rightarrow> 'a mpe_globals_scheme" where
  "gf64_interp_dispatch_reset_probe st = st\<lparr>gf64_interp_probe_count := 0\<rparr>"

definition gf64_multi_point_interp ::
  "environment \<Rightarrow> allocator \<Rightarrow> nat \<Rightarrow> SubproductTree \<Rightarrow> gf64_t list \<Rightarrow> gf64_t list \<Rightarrow> 'a mpe_globals_scheme \<Rightarrow>
    (gf64_t list \<times> 'a mpe_globals_scheme) option" where
  "gf64_multi_point_interp getenv alloc t tree values' out st =
    (if num_points tree = 0 then Some (out, st)
     else
       let (enabled, st) = gf64_interp_enabled getenv st
       in if enabled = 0 then Some (out, st)
          else gf64_multi_point_interp_internal alloc t tree values' out
            (st\<lparr>gf64_interp_probe_count := gf64_interp_probe_count st + 1\<rparr>))"

section \<open>The combination, abstractly\<close>

fun combination :: "gf64_t list \<Rightarrow> gf64_t list \<Rightarrow> ser" where
  "combination (x # xs) (z # zs) = mono (Gf z) 0 * vanish xs + lin x * combination xs zs"
| "combination _ _ = 0"

lemma combination_append:
  "length xs = length zs \<Longrightarrow>
    combination (xs @ ys) (zs @ ws) = combination xs zs * vanish ys + vanish xs * combination ys ws"
  by (induction xs zs rule: list_induct2) (simp_all add: algebra_simps)

lemma below_combination: "length xs = length zs \<Longrightarrow> below (length xs) (combination xs zs)"
proof (induction xs zs rule: list_induct2)
  case (Cons x xs z zs)
  have "below (Suc (length xs)) (mono (Gf z) 0 * vanish xs)"
    by (rule below_mult [of 1 _ "Suc (length xs)"]) (simp_all add: below_vanish, simp add: below_def cf_mono)
  moreover have "below (Suc (length xs)) (lin x * combination xs zs)"
    by (rule below_mult [OF below_lin Cons.IH]) simp
  ultimately show ?case by (simp add: below_add)
qed simp

lemma combination_value:
  assumes "length xs = length zs" "distinct xs" "j < length xs"
  shows "eval (length xs) (combination xs zs) (Gf (xs ! j)) =
    Gf (zs ! j) * eval (length xs) (deriv (vanish xs)) (Gf (xs ! j))"
  using assms
proof (induction xs zs arbitrary: j rule: list_induct2)
  case (Cons x xs z zs)
  let ?n = "length xs" and ?x = "Gf ((x # xs) ! j)"
  have const: "below 1 (mono (Gf z) 0)" by (simp add: below_def cf_mono)
  have "eval (Suc ?n) (mono (Gf z) 0 * vanish xs) ?x = eval 1 (mono (Gf z) 0) ?x * eval (Suc ?n) (vanish xs) ?x"
    by (rule eval_mult [OF const below_vanish]) simp
  moreover have "eval (Suc ?n) (lin x * combination xs zs) ?x = eval 2 (lin x) ?x * eval ?n (combination xs zs) ?x"
    by (rule eval_mult [OF below_lin below_combination]) (use Cons.hyps in simp_all)
  ultimately have L: "eval (Suc ?n) (combination (x # xs) (z # zs)) ?x =
      Gf z * eval (Suc ?n) (vanish xs) ?x + (?x + Gf x) * eval ?n (combination xs zs) ?x"
    by (simp add: eval_add eval_lin eval_mono)
  have "eval (Suc ?n) (vanish xs) ?x = eval (Suc ?n) (deriv (lin x) * vanish xs) ?x" by simp
  moreover have "eval (Suc ?n) (lin x * deriv (vanish xs)) ?x = eval 2 (lin x) ?x * eval ?n (deriv (vanish xs)) ?x"
    by (rule eval_mult [OF below_lin below_deriv [OF below_vanish]]) simp
  ultimately have R: "eval (Suc ?n) (deriv (vanish (x # xs))) ?x =
      eval (Suc ?n) (vanish xs) ?x + (?x + Gf x) * eval ?n (deriv (vanish xs)) ?x"
    by (simp add: deriv_mult eval_add eval_lin)
  show ?case
  proof (cases j)
    case 0
    then show ?thesis using L R by simp
  next
    case (Suc i)
    then have "eval (Suc ?n) (vanish xs) ?x = 0" using Cons.prems eval_vanish_0_iff [of xs] by simp
    then show ?thesis using L R Cons.IH [of i] Cons.prems Suc by (simp add: mult.left_commute)
  qed
qed simp

section \<open>Uniqueness\<close>

lemma factor_root:
  assumes "below (Suc n) f" "eval (Suc n) f (Gf a) = 0"
  obtains g where "f = lin a * g" "below n g"
proof -
  define q r where "q = replicate (Suc n) (0 :: gf64_t)" and "r = replicate (Suc n) (0 :: gf64_t)"
  have lin: "poly [a, 1] (Suc 1) = lin a"
    by (rule ser_eqI) (auto simp: poly_trunc coef_def lin_def cf_mono nth_Cons' simp del: of_coeffs_take)
  have f: "poly (to_coeffs (Suc n) f) (Suc n) = f" using assms(1) by (simp add: trunc_below)
  have "division_buffers (to_coeffs (Suc n) f) n [a, 1] 1 q r" by (simp add: division_buffers_def q_def r_def)
  from schoolbook_result [OF this] obtain q' r' where "division_result (to_coeffs (Suc n) f) n [a, 1] 1 q r q' r'" by blast
  then obtain Q R where QR: "divides_with f (lin a) 1 Q R" "below (Suc n - 1) Q"
    unfolding division_result_def f lin by blast
  have "eval (Suc 1) (lin a) (Gf a) = 0" using eval_lin [of a "Gf a"] by (simp add: numeral_2_eq_2)
  from eval_remainder [OF QR(1) _ QR(2) this assms(1)] below_lin [of a] assms(2)
  have "eval 1 R (Gf a) = 0" by (simp add: numeral_2_eq_2)
  then have "cf R i = 0" for i
    using QR(1) by (cases i) (auto simp: eval_def divides_with_def below_def)
  then have "R = 0" by (simp add: ser_eq_iff)
  then show ?thesis using that QR by (simp add: divides_with_def)
qed

lemma zero_by_roots:
  assumes "distinct xs" "below (length xs) f" "\<And>a. a \<in> set xs \<Longrightarrow> eval (length xs) f (Gf a) = 0"
  shows "f = 0"
  using assms
proof (induction xs arbitrary: f)
  case (Cons x xs)
  obtain g where g: "f = lin x * g" "below (length xs) g"
    using factor_root [of "length xs" f x] Cons.prems(2,3) by auto
  have "eval (length xs) g (Gf a) = 0" if "a \<in> set xs" for a
  proof -
    have "eval (length (x # xs)) f (Gf a) = eval 2 (lin x) (Gf a) * eval (length xs) g (Gf a)"
      unfolding g(1) by (rule eval_mult [OF below_lin g(2)]) simp
    moreover have "Gf a + Gf x \<noteq> 0" using that Cons.prems(1) by (metis distinct.simps(2) gf.inject gf_add_eq_0_iff)
    ultimately show ?thesis using Cons.prems(3) [of a] that by (simp add: eval_lin)
  qed
  then have "g = 0" using Cons.IH [OF _ g(2)] Cons.prems(1) by simp
  then show ?case by (simp add: g(1))
qed (simp add: below_def ser_eq_iff)

lemma interpolant_unique:
  assumes "distinct xs" "below (length xs) f" "below (length xs) g"
    and "\<And>a. a \<in> set xs \<Longrightarrow> eval (length xs) f (Gf a) = eval (length xs) g (Gf a)"
  shows "f = g"
proof -
  have "f + g = 0" by (rule zero_by_roots [OF assms(1) below_add [OF assms(2,3)]]) (simp add: eval_add assms(4))
  then show ?thesis by (simp add: ser_add_eq_0_iff)
qed

section \<open>The combination, computed\<close>

lemma poly_filled_slot:
  assumes "below c F" "c \<le> length slot"
  shows "poly (to_coeffs c F @ drop c slot) c = F"
  using assms by (simp add: trunc_below)

lemma xor_words:
  assumes "n \<le> length out"
  shows "fold (\<lambda>i out. out[i := to_coeffs n F ! i XOR to_coeffs n G ! i]) [0..<n] out = to_coeffs n (F + G) @ drop n out"
  using fold_const_update_map [OF assms, of "\<lambda>i. to_coeffs n F ! i XOR to_coeffs n G ! i"]
  by (simp add: to_coeffs_def cong: map_cong)

lemma returns_mpi_recurse_deriv:
  assumes T: "tree_of pts L T" and z: "length z = 2 ^ L"
    and node: "lev \<le> L" "i < 2 ^ lev" and n: "n = 2 ^ (L - lev)" and off: "off = i * n"
    and len: "n \<le> length out" "8 * n \<le> length scratch"
  shows "returns alloc (gf64_mpi_recurse_deriv alloc t z T lev i off out scratch :: 'a poly_globals_scheme \<Rightarrow> _)
    (\<lambda>(out', scratch'). out' = to_coeffs n (combination (node_points pts L lev i) (node_points z L lev i)) @ drop n out \<and>
      length scratch' = length scratch)"
  using node n off len
proof (induction "L - lev" arbitrary: lev i n off out scratch)
  case 0
  note fields = tree_of_fields [OF T]
  have L: "lev = L" "n = 1" "i < 2 ^ L" using 0 by simp_all
  have "to_coeffs n (combination (node_points pts L lev i) (node_points z L lev i)) = [z ! i]"
    using L node_points_leaf [OF fields(1) L(3)] node_points_leaf [OF z L(3)] by (simp add: to_coeffs_def cf_mono)
  moreover have "out[0 := z ! i] = [z ! i] @ drop 1 out" using 0(6) L by (cases out) simp_all
  ultimately have "gf64_mpi_recurse_deriv alloc t z T lev i off out scratch st =
      Some ((to_coeffs n (combination (node_points pts L lev i) (node_points z L lev i)) @ drop n out, scratch), st)"
    for st :: "'a poly_globals_scheme"
    using L 0(5) fields(2) by (subst gf64_mpi_recurse_deriv.simps) (simp add: Let_def)
  then show ?case by (simp add: returns_def)
next
  case (Suc k)
  note fields = tree_of_fields [OF T]
  define c where "c = (2::nat) ^ (L - Suc lev)"
  have lev: "Suc lev \<le> L" "lev < L" "k = L - Suc lev" using Suc.hyps(2) by simp_all
  have n: "n = 2 * c" unfolding c_def Suc.prems(3) using lev by (simp flip: power_Suc add: Suc_diff_Suc)
  have children: "2 * i < 2 ^ Suc lev" "2 * i + 1 < 2 ^ Suc lev" using Suc.prems(2) by simp_all
  have size: "num_points T div 2 ^ lev = n" "n div 2 = c"
    using lev n by (simp_all add: fields(3) Suc.prems(3) power_diff)
  have off: "off = 2 * i * c" "off + c = (2 * i + 1) * c" by (simp_all add: Suc.prems(4) n)
  define PL PR where "PL = drop (node_at L (Suc lev) (2 * i)) (storage T)"
    and "PR = drop (node_at L (Suc lev) (2 * i + 1)) (storage T)"
  note PL = tree_node [OF T lev(1) children(1) c_def PL_def] and PR = tree_node [OF T lev(1) children(2) c_def PR_def]
  define F where "F j = combination (node_points pts L (Suc lev) j) (node_points z L (Suc lev) j)" for j
  have lens: "length (node_points pts L (Suc lev) j) = c" "length (node_points z L (Suc lev) j) = c" if "j < 2 ^ Suc lev" for j
    using length_node_points [OF fields(1) lev(1) that] length_node_points [OF z lev(1) that] by (simp_all add: c_def)
  have F: "below c (F j)" if "j < 2 ^ Suc lev" for j
    using below_combination [of "node_points pts L (Suc lev) j" "node_points z L (Suc lev) j"] lens [OF that] by (simp add: F_def)
  have slots: "length (take n scratch) = n" "length (slice scratch n n) = n" "length (drop (4 * n) scratch) = length scratch - 4 * n"
    using Suc.prems(6) by simp_all
  define slot0 slot1 where "slot0 = to_coeffs c (F (2 * i)) @ drop c (take n scratch)"
    and "slot1 = to_coeffs c (F (2 * i + 1)) @ drop c (slice scratch n n)"
  have len: "length slot0 = n" "length slot1 = n" using slots(1,2) n by (simp_all add: slot0_def slot1_def)
  have IH: "returns alloc (gf64_mpi_recurse_deriv alloc t z T (Suc lev) j (j * c) out' scratch' :: 'a poly_globals_scheme \<Rightarrow> _)
    (\<lambda>(out'', scratch''). out'' = to_coeffs c (F j) @ drop c out' \<and> length scratch'' = length scratch')"
    if "j < 2 ^ Suc lev" "c \<le> length out'" "8 * c \<le> length scratch'" for j out' scratch'
    unfolding F_def by (rule Suc.hyps(1) [OF lev(3) lev(1) that(1) c_def refl that(2,3)])
  define W2 W3 where "W2 = vanish (node_points pts L (Suc lev) (2 * i + 1)) * F (2 * i)"
    and "W3 = vanish (node_points pts L (Suc lev) (2 * i)) * F (2 * i + 1)"
  have p0: "poly slot0 c = F (2 * i)" and p1: "poly slot1 c = F (2 * i + 1)"
    unfolding slot0_def slot1_def
    by (rule poly_filled_slot [OF F [OF children(1)]], use slots n in simp, rule poly_filled_slot [OF F [OF children(2)]], use slots n in simp)
  have mul2: "yields alloc (gf64_poly_mul_internal alloc t PR (c + 1) slot0 c n) (to_coeffs n W2)"
    using yields_internal [of "Suc c" PR c slot0 alloc t n] PR(1) len n
    unfolding product_words_def PR(2) p0 W2_def by simp
  have mul3: "yields alloc (gf64_poly_mul_internal alloc t PL (c + 1) slot1 c n) (to_coeffs n W3)"
    using yields_internal [of "Suc c" PL c slot1 alloc t n] PL(1) len n
    unfolding product_words_def PL(2) p1 W3_def by simp
  have run: "gf64_mpi_recurse_deriv alloc t z T lev i off out scratch st =
      gf64_mpi_recurse_deriv alloc t z T (Suc lev) (2 * i) (2 * i * c) (take n scratch) (drop (4 * n) scratch) st \<bind>
        (\<lambda>((slot0, child_scratch), st).
      gf64_mpi_recurse_deriv alloc t z T (Suc lev) (2 * i + 1) ((2 * i + 1) * c) (slice scratch n n) child_scratch st \<bind>
        (\<lambda>((slot1, child_scratch), st).
      gf64_poly_mul_internal alloc t PR (c + 1) slot0 c n st \<bind> (\<lambda>(slot2, st).
      gf64_poly_mul_internal alloc t PL (c + 1) slot1 c n st \<bind> (\<lambda>(slot3, st).
        Some ((fold (\<lambda>i out. out[i := slot2 ! i XOR slot3 ! i]) [0..<n] out, slot0 @ slot1 @ slot2 @ slot3 @ child_scratch), st)))))"
    for st :: "'a poly_globals_scheme"
    unfolding off(2) [symmetric] unfolding off(1) [symmetric]
    using lev(2) Suc.prems(6)
    by (subst gf64_mpi_recurse_deriv.simps)
      (simp add: Let_def size fields(2) fields(5) [OF lev(1)] PL_def PR_def c_def [symmetric] node_at_def add.left_commute)
  let ?Post = "\<lambda>(out', scratch'). out' = to_coeffs n (combination (node_points pts L lev i) (node_points z L lev i)) @ drop n out \<and>
    length scratch' = length scratch"
  have result: "combination (node_points pts L lev i) (node_points z L lev i) = W2 + W3"
    unfolding node_points_split [OF lev(2)] using lens [OF children(1)]
    by (subst combination_append) (simp_all add: F_def W2_def W3_def mult.commute)
  have products: "returns alloc (\<lambda>st :: 'a poly_globals_scheme. gf64_poly_mul_internal alloc t PR (c + 1) slot0 c n st \<bind> (\<lambda>(slot2, st).
      gf64_poly_mul_internal alloc t PL (c + 1) slot1 c n st \<bind> (\<lambda>(slot3, st).
        Some ((fold (\<lambda>i out. out[i := slot2 ! i XOR slot3 ! i]) [0..<n] out, slot0 @ slot1 @ slot2 @ slot3 @ cs), st)))) ?Post"
    if "length cs = length scratch - 4 * n" for cs
    by (rule yields_bind [OF mul2], rule yields_bind [OF mul3], rule returns_return)
      (use that len Suc.prems(5,6) in \<open>simp add: xor_words result\<close>)
  show ?case
  proof (rule returns_cong [OF _ run], rule returns_bind_pair [OF IH [OF children(1)]])
    fix s0 cs :: "gf64_t list"
    assume "s0 = to_coeffs c (F (2 * i)) @ drop c (take n scratch) \<and> length cs = length (drop (4 * n) scratch)"
    then have s0: "s0 = slot0" and cs: "length cs = length scratch - 4 * n" by (simp_all add: slot0_def)
    show "returns alloc (\<lambda>st :: 'a poly_globals_scheme.
      gf64_mpi_recurse_deriv alloc t z T (Suc lev) (2 * i + 1) ((2 * i + 1) * c) (slice scratch n n) cs st \<bind>
        (\<lambda>((slot1, child_scratch), st).
      gf64_poly_mul_internal alloc t PR (c + 1) s0 c n st \<bind> (\<lambda>(slot2, st).
      gf64_poly_mul_internal alloc t PL (c + 1) slot1 c n st \<bind> (\<lambda>(slot3, st).
        Some ((fold (\<lambda>i out. out[i := slot2 ! i XOR slot3 ! i]) [0..<n] out, s0 @ slot1 @ slot2 @ slot3 @ child_scratch), st))))) ?Post"
      unfolding s0
    proof (rule returns_bind_pair [OF IH [OF children(2)]])
      fix s1 cs' :: "gf64_t list"
      assume "s1 = to_coeffs c (F (2 * i + 1)) @ drop c (slice scratch n n) \<and> length cs' = length cs"
      then have "s1 = slot1" "length cs' = length scratch - 4 * n" using cs by (simp_all add: slot1_def)
      then show "returns alloc (\<lambda>st :: 'a poly_globals_scheme. gf64_poly_mul_internal alloc t PR (c + 1) slot0 c n st \<bind> (\<lambda>(slot2, st).
        gf64_poly_mul_internal alloc t PL (c + 1) s1 c n st \<bind> (\<lambda>(slot3, st).
          Some ((fold (\<lambda>i out. out[i := slot2 ! i XOR slot3 ! i]) [0..<n] out, slot0 @ s1 @ slot2 @ slot3 @ cs'), st)))) ?Post"
        using products by simp
    qed (use slots(2) cs Suc.prems(6) n in simp_all)
  qed (use slots(1) Suc.prems(6) n in simp_all)
qed

section \<open>The entries\<close>

definition scaled :: "gf64_t list \<Rightarrow> gf64_t list option \<Rightarrow> gf64_t list" where
  "scaled v weights = (case weights of Some w \<Rightarrow> map2 gf64_mul_reference v w | None \<Rightarrow> v)"

lemma returns_interp_weights:
  assumes T: "tree_of pts L T" and v: "length v = 2 ^ L" "\<And>w. weights = Some w \<Longrightarrow> length w = 2 ^ L" and out: "2 ^ L \<le> length out"
  shows "yields alloc (gf64_multi_point_interp_weights alloc t T v weights out :: 'a poly_globals_scheme \<Rightarrow> _)
    (to_coeffs (2 ^ L) (combination pts (scaled v weights)) @ drop (2 ^ L) out)"
proof -
  note fields = tree_of_fields [OF T]
  have z: "length (scaled v weights) = 2 ^ L" using v by (cases weights) (simp_all add: scaled_def)
  have nth: "scaled v weights ! j = (case weights of Some w \<Rightarrow> gf64_mul_reference (v ! j) (w ! j) | None \<Rightarrow> v ! j)"
    if "j < 2 ^ L" for j
    using that v by (cases weights) (simp_all add: scaled_def)
  show ?thesis
  proof (cases "L = 0")
    case True
    obtain x y where xy: "pts = [x]" "scaled v weights = [y]"
      using fields(1) z True by (auto simp: length_Suc_conv)
    have "to_coeffs 1 (combination pts (scaled v weights)) @ drop 1 out = out[0 := y]"
      using out True unfolding xy by (cases out) (simp_all add: to_coeffs_def cf_mono)
    then show ?thesis
      using True nth [of 0] xy(2)
      by (intro returns_cong [OF returns_return]) (simp_all add: gf64_multi_point_interp_weights_def fields(3))
  next
    case False
    have walk: "returns alloc (gf64_mpi_recurse_deriv alloc t (scaled v weights) T 0 0 0 out (replicate (8 * 2 ^ L) 0) :: 'a poly_globals_scheme \<Rightarrow> _)
      (\<lambda>(out', scratch'). out' = to_coeffs (2 ^ L) (combination (node_points pts L 0 0) (node_points (scaled v weights) L 0 0)) @ drop (2 ^ L) out \<and>
        length scratch' = length (replicate (8 * 2 ^ L) (0 :: gf64_t)))"
      by (rule returns_mpi_recurse_deriv [OF T z]) (use out in simp_all)
    have "(case weights of
         Some w \<Rightarrow> fold (\<lambda>j z. z[j := gf64_mul_reference (v ! j) (w ! j)]) [0..<2 ^ L] (replicate (2 ^ L) 0)
       | None \<Rightarrow> v) = scaled v weights"
    proof (cases weights)
      case (Some w)
      then show ?thesis
        using fold_const_update_map [of "2 ^ L" "replicate (2 ^ L) 0" "\<lambda>j. gf64_mul_reference (v ! j) (w ! j)"] z nth
        by (auto intro!: nth_equalityI)
    qed (simp add: scaled_def)
    then have run: "gf64_multi_point_interp_weights alloc t T v weights out st =
        gf64_mpi_recurse_deriv alloc t (scaled v weights) T 0 0 0 out (replicate (8 * 2 ^ L) 0) st \<bind>
          (\<lambda>((out, scratch), st). Some (out, st))" for st :: "'a poly_globals_scheme"
      using False by (simp add: gf64_multi_point_interp_weights_def fields(3))
    show ?thesis
      by (rule returns_cong [OF _ run], rule returns_bind_pair [OF walk], rule returns_return)
        (simp add: node_points_root [OF fields(1)] node_points_root [OF z])
  qed
qed

text \<open>The derivative of the root.\<close>

lemma derivative_words_root:
  assumes T: "tree_of pts L T"
  shows "derivative_words (drop (level_data T ! 0) (storage T)) (2 ^ L) (replicate (2 ^ L) 0) =
    to_coeffs (2 ^ L) (deriv (vanish pts))"
proof -
  note fields = tree_of_fields [OF T]
  define P where "P = drop (node_at L 0 0) (storage T)"
  have P: "drop (level_data T ! 0) (storage T) = P" by (simp add: P_def fields(5) node_at_def)
  note node = tree_node [OF T _ _ _ P_def, of "2 ^ L", simplified]
  have "P ! Suc k = gf_rep (cf (vanish pts) (Suc k))" if "k < 2 ^ L" for k
  proof -
    have "cf (poly P (Suc (2 ^ L))) (Suc k) = Gf (P ! Suc k)" using that node(1) by (simp add: coef_def)
    then show ?thesis using node(2) by (simp add: node_points_root [OF fields(1)] del: of_coeffs_take)
  qed
  then show ?thesis
    unfolding P derivative_words_def
    using fold_const_update_map [of "2 ^ L" "replicate (2 ^ L) 0" "\<lambda>k. if odd (k + 1) then P ! (k + 1) else 0"]
    by (intro nth_equalityI) simp_all
qed

lemma derivative_values:
  assumes "length pts = Suc n"
  shows "map (point_value (to_coeffs (Suc n) (deriv (vanish pts))) n) pts =
    map (\<lambda>x. gf_rep (eval (Suc n) (deriv (vanish pts)) (Gf x))) pts"
proof -
  have "below (Suc n) (deriv (vanish pts))" using below_deriv [OF below_vanish, of pts] assms by simp
  then show ?thesis by (simp add: point_value_def trunc_below)
qed

lemma deriv_vanish_zero:
  assumes "\<not> distinct xs"
  shows "\<exists>a \<in> set xs. eval (length xs) (deriv (vanish xs)) (Gf a) = 0"
  using assms
proof (induction xs)
  case (Cons b xs)
  note below = below_lin [of b] below_lin [of b, unfolded numeral_2_eq_2] below_vanish [of xs]
  show ?case
  proof (cases "b \<in> set xs")
    case True
    have "eval (Suc 1) (lin b) (Gf b) = 0" using eval_lin [of b "Gf b"] by (simp add: numeral_2_eq_2)
    then have "eval (1 + length xs) (deriv (lin b * vanish xs)) (Gf b) =
        eval 1 (deriv (lin b)) (Gf b) * eval (Suc (length xs)) (vanish xs) (Gf b)"
      using below by (intro eval_deriv_mult) (simp_all del: One_nat_def)
    then show ?thesis using True eval_vanish_0_iff [of xs b] by auto
  next
    case False
    with Cons obtain a where a: "a \<in> set xs" "eval (length xs) (deriv (vanish xs)) (Gf a) = 0" by auto
    have "eval (length xs + 1) (deriv (vanish xs * lin b)) (Gf a) =
        eval (length xs) (deriv (vanish xs)) (Gf a) * eval (Suc 1) (lin b) (Gf a)"
      using below a(1) eval_vanish_0_iff [of xs a] by (intro eval_deriv_mult) simp_all
    then show ?thesis using a by (auto simp: mult.commute)
  qed
qed simp

lemma scale_by_inverse_eq:
  assumes "length z = N" "length d = N" "length v = N"
  shows "scale_by_inverse v d N z = (if 0 \<in> set d then None else Some (map2 (\<lambda>v d. gf64_mul_reference v (gf64_inverse d)) v d))"
proof -
  define step where "step j r = do { z \<leftarrow> r;
      if d ! j = 0 then None else Some (z[j := gf64_mul_reference (v ! j) (gf64_inverse (d ! j))]) }" for j r
  have "fold step [0..<k] (Some z) = (if \<exists>j<k. d ! j = 0 then None
      else Some (fold (\<lambda>j z. z[j := gf64_mul_reference (v ! j) (gf64_inverse (d ! j))]) [0..<k] z))" for k
    by (induction k) (auto simp: step_def less_Suc_eq)
  moreover have "scale_by_inverse v d N z = fold step [0..<N] (Some z)"
    unfolding scale_by_inverse_def gf64_invert_ita_one_eq step_def ..
  moreover have "(\<exists>j<N. d ! j = 0) \<longleftrightarrow> 0 \<in> set d" by (auto simp: in_set_conv_nth assms(2))
  moreover have "fold (\<lambda>j z. z[j := gf64_mul_reference (v ! j) (gf64_inverse (d ! j))]) [0..<N] z =
      map2 (\<lambda>v d. gf64_mul_reference v (gf64_inverse d)) v d"
    using fold_const_update_map [of N z] assms by (auto intro!: nth_equalityI)
  ultimately show ?thesis by simp
qed

text \<open>The polynomial of degree below the number of points that takes the given values there.\<close>

definition interpolates :: "gf64_t list \<Rightarrow> gf64_t list \<Rightarrow> ser \<Rightarrow> bool" where
  "interpolates pts v F \<longleftrightarrow> below (length pts) F \<and>
    (\<forall>j<length pts. eval (length pts) F (Gf (pts ! j)) = Gf (v ! j))"

lemma interpolates_unique:
  assumes "distinct pts" "interpolates pts v F" "interpolates pts v G"
  shows "F = G"
  by (rule interpolant_unique [OF assms(1)]) (use assms(2,3) in \<open>auto simp: interpolates_def in_set_conv_nth\<close>)

lemma combination_interpolates:
  assumes "distinct pts" "length v = length pts"
    and d: "\<And>x. x \<in> set pts \<Longrightarrow> Gf (d x) = eval (length pts) (deriv (vanish pts)) (Gf x)"
  shows "interpolates pts v (combination pts (map2 (\<lambda>v x. gf64_mul_reference v (gf64_inverse (d x))) v pts))"
proof -
  have "eval (length pts) (combination pts (map2 (\<lambda>v x. gf64_mul_reference v (gf64_inverse (d x))) v pts)) (Gf (pts ! j)) = Gf (v ! j)"
    if j: "j < length pts" for j
  proof -
    define E where "E = eval (length pts) (deriv (vanish pts)) (Gf (pts ! j))"
    have E: "E \<noteq> 0" "Gf (d (pts ! j)) = E"
      unfolding E_def using deriv_vanish_nonzero [OF assms(1)] d j by simp_all
    define zs where "zs = map2 (\<lambda>v x. gf64_mul_reference v (gf64_inverse (d x))) v pts"
    have "Gf (zs ! j) = Gf (v ! j) * inverse E" "length pts = length zs"
      using j assms(2) by (simp_all add: zs_def Gf_mul_reference Gf_inverse E(2))
    with combination_value [of pts zs j, OF _ assms(1) j] show ?thesis
      unfolding E_def [symmetric] zs_def [symmetric] using E(1) by simp
  qed
  then show ?thesis
    unfolding interpolates_def
    using below_combination [of pts "map2 (\<lambda>v x. gf64_mul_reference v (gf64_inverse (d x))) v pts"] assms(2) by simp
qed

lemma interp_internal_run:
  assumes T: "tree_of pts L T" and L: "L \<noteq> 0" and v: "length v = 2 ^ L"
    and size: "64 * 2 ^ L \<le> SIZE_MAX" and st: "poly_ready alloc (st :: 'a mpe_globals_scheme)"
  obtains st' where "poly_ready alloc st'"
    "gf64_multi_point_interp_internal alloc t T v out st =
      (if \<exists>x \<in> set pts. eval (2 ^ L) (deriv (vanish pts)) (Gf x) = 0 then None
       else gf64_multi_point_interp_weights alloc t T
         (map2 (\<lambda>v x. gf64_mul_reference v (gf64_inverse (gf_rep (eval (2 ^ L) (deriv (vanish pts)) (Gf x))))) v pts) None out st')"
proof -
  note fields = tree_of_fields [OF T]
  define D where "D = to_coeffs (2 ^ L) (deriv (vanish pts))"
  define d where "d = map (\<lambda>x. gf_rep (eval (2 ^ L) (deriv (vanish pts)) (Gf x))) pts"
  obtain n where n: "2 ^ L = Suc n" by (metis Suc_pred zero_less_numeral zero_less_power)
  have "n \<noteq> 0" using L n by (metis One_nat_def nat_power_eq_Suc_0_iff numeral_eq_one_iff semiring_norm(85))
  have d: "map (point_value D (2 ^ L - 1)) pts = d"
    using derivative_values [of pts n] fields(1) n by (simp add: D_def d_def)
  have "yields alloc (gf64_multi_point_eval alloc t D (2 ^ L - 1) T (replicate (2 ^ L) 0) :: 'a mpe_globals_scheme \<Rightarrow> _)
      (map (point_value D (2 ^ L - 1)) pts)"
    by (rule returns_multi_point_eval [OF T size]) (use size in \<open>simp_all add: D_def SIZE_MAX_def less_imp_diff_less\<close>)
  from returnsD [OF this st] obtain st' where st':
    "gf64_multi_point_eval alloc t D (2 ^ L - 1) T (replicate (2 ^ L) 0) st = Some (d, st')" "poly_ready alloc st'"
    unfolding d by metis
  have scale: "scale_by_inverse v d (2 ^ L) D = (if \<exists>x \<in> set pts. eval (2 ^ L) (deriv (vanish pts)) (Gf x) = 0 then None
      else Some (map2 (\<lambda>v x. gf64_mul_reference v (gf64_inverse (gf_rep (eval (2 ^ L) (deriv (vanish pts)) (Gf x))))) v pts))"
  proof -
    have "0 \<in> set d \<longleftrightarrow> (\<exists>x \<in> set pts. eval (2 ^ L) (deriv (vanish pts)) (Gf x) = 0)"
      by (auto simp: d_def gf_eq_iff image_iff)
    moreover have "map2 (\<lambda>v d. gf64_mul_reference v (gf64_inverse d)) v d =
        map2 (\<lambda>v x. gf64_mul_reference v (gf64_inverse (gf_rep (eval (2 ^ L) (deriv (vanish pts)) (Gf x))))) v pts"
      by (rule nth_equalityI) (simp_all add: d_def)
    ultimately show ?thesis using scale_by_inverse_eq [of D "2 ^ L" d v] v fields(1) by (simp add: D_def d_def)
  qed
  have "gf64_multi_point_interp_internal alloc t T v out st =
      (if \<exists>x \<in> set pts. eval (2 ^ L) (deriv (vanish pts)) (Gf x) = 0 then None
       else gf64_multi_point_interp_weights alloc t T
         (map2 (\<lambda>v x. gf64_mul_reference v (gf64_inverse (gf_rep (eval (2 ^ L) (deriv (vanish pts)) (Gf x))))) v pts) None out st')"
    using L st'(1) scale
    by (simp add: gf64_multi_point_interp_internal_def fields(3) derivative_words_root [OF T] D_def [symmetric] split del: if_split)
      simp
  then show ?thesis using that st'(2) by blast
qed

lemma returns_interp_internal:
  assumes T: "tree_of pts L T" and v: "length v = 2 ^ L" and out: "2 ^ L \<le> length out"
    and size: "64 * 2 ^ L \<le> SIZE_MAX" and distinct: "distinct pts"
  shows "returns alloc (gf64_multi_point_interp_internal alloc t T v out :: 'a mpe_globals_scheme \<Rightarrow> _)
    (\<lambda>out'. \<exists>F. interpolates pts v F \<and> out' = to_coeffs (2 ^ L) F @ drop (2 ^ L) out)"
proof (cases "L = 0")
  case True
  note fields = tree_of_fields [OF T]
  obtain x y where xy: "pts = [x]" "v = [y]" using fields(1) v True by (auto simp: length_Suc_conv)
  have "out[0 := y] = to_coeffs 1 (mono (Gf y) 0) @ drop 1 out"
    using out True by (cases out) (simp_all add: to_coeffs_def cf_mono)
  moreover have "interpolates pts v (mono (Gf y) 0)"
    using eval_mono [of 0 1 "Gf y" "Gf x"] by (simp add: interpolates_def xy below_def cf_mono)
  ultimately show ?thesis
    using True xy(2)
    by (intro returns_cong [OF returns_return]) (auto simp: gf64_multi_point_interp_internal_def fields(3))
next
  case False
  note fields = tree_of_fields [OF T]
  define z where "z = map2 (\<lambda>v x. gf64_mul_reference v (gf64_inverse (gf_rep (eval (2 ^ L) (deriv (vanish pts)) (Gf x))))) v pts"
  have F: "interpolates pts v (combination pts z)"
    unfolding z_def by (rule combination_interpolates [OF distinct]) (simp_all add: v fields(1))
  have z: "length z = 2 ^ L" using v fields(1) by (simp add: z_def)
  have nonzero: "\<not> (\<exists>x \<in> set pts. eval (2 ^ L) (deriv (vanish pts)) (Gf x) = 0)"
    using deriv_vanish_nonzero [OF distinct] fields(1) by auto
  show ?thesis
    unfolding returns_def
  proof (intro allI impI)
    fix st :: "'a mpe_globals_scheme"
    assume st: "poly_ready alloc st"
    obtain st' where st': "poly_ready alloc st'"
      "gf64_multi_point_interp_internal alloc t T v out st = gf64_multi_point_interp_weights alloc t T z None out st'"
      by (rule interp_internal_run [OF T False v size st, of t out]) (simp only: if_not_P [OF nonzero] z_def)
    obtain st'' where "gf64_multi_point_interp_weights alloc t T z None out st' =
        Some (to_coeffs (2 ^ L) (combination pts z) @ drop (2 ^ L) out, st'')" "poly_ready alloc st''"
      by (rule returnsD [OF returns_interp_weights [OF T z _ out, of None alloc t] st'(1)]) (simp_all add: scaled_def)
    with F show "\<exists>out' st'. gf64_multi_point_interp_internal alloc t T v out st = Some (out', st') \<and>
        (\<exists>F. interpolates pts v F \<and> out' = to_coeffs (2 ^ L) F @ drop (2 ^ L) out) \<and> poly_ready alloc st'"
      unfolding st'(2) by blast
  qed
qed

lemma interp_internal_duplicate:
  assumes T: "tree_of pts L T" and v: "length v = 2 ^ L"
    and size: "64 * 2 ^ L \<le> SIZE_MAX" and dup: "\<not> distinct pts" and st: "poly_ready alloc (st :: 'a mpe_globals_scheme)"
  shows "gf64_multi_point_interp_internal alloc t T v out st = None"
proof -
  note fields = tree_of_fields [OF T]
  have "L \<noteq> 0"
  proof
    assume "L = 0"
    then obtain x where "pts = [x]" using fields(1) by (auto simp: length_Suc_conv)
    then show False using dup by simp
  qed
  from interp_internal_run [OF T this v size st, of t out] deriv_vanish_zero [OF dup] show ?thesis
    unfolding fields(1) by (metis (no_types, lifting))
qed

lemma returns_interp_with_weights:
  assumes T: "tree_of pts L T" and v: "length v = 2 ^ L" "length w = 2 ^ L" and out: "2 ^ L \<le> length out" and distinct: "distinct pts"
    and w: "\<And>j. j < 2 ^ L \<Longrightarrow> Gf (w ! j) * eval (2 ^ L) (deriv (vanish pts)) (Gf (pts ! j)) = 1"
  shows "returns alloc (gf64_multi_point_interp_weights alloc t T v (Some w) out :: 'a poly_globals_scheme \<Rightarrow> _)
    (\<lambda>out'. \<exists>F. interpolates pts v F \<and> out' = to_coeffs (2 ^ L) F @ drop (2 ^ L) out)"
proof -
  note fields = tree_of_fields [OF T]
  let ?d = "\<lambda>x. gf_rep (eval (2 ^ L) (deriv (vanish pts)) (Gf x))"
  have "map2 gf64_mul_reference v w = map2 (\<lambda>v x. gf64_mul_reference v (gf64_inverse (?d x))) v pts"
  proof (rule nth_equalityI)
    fix j assume "j < length (map2 gf64_mul_reference v w)"
    then have j: "j < 2 ^ L" using v by simp
    have "Gf (w ! j) = Gf (gf64_inverse (?d (pts ! j)))"
      using w [OF j] by (simp add: Gf_inverse) (metis gf_inverse_unique mult.commute)
    then show "map2 gf64_mul_reference v w ! j = map2 (\<lambda>v x. gf64_mul_reference v (gf64_inverse (?d x))) v pts ! j"
      using j v fields(1) by simp
  qed (use v fields(1) in simp)
  then have "interpolates pts v (combination pts (scaled v (Some w)))"
    using combination_interpolates [OF distinct, of v ?d] v(1) fields(1) by (simp add: scaled_def)
  then show ?thesis
    by (intro returns_weaken [OF returns_interp_weights [OF T v(1) _ out, of "Some w" alloc t]]) (use v(2) in auto)
qed

end
