(* ===== verification/Barycentric.thy ===== *)
theory Barycentric
  imports Interpolation
begin

text \<open>
  The barycentric weights of gf64/gf64_barycentric.c: the derivative of the root of the tree at the
  points, inverted through the dispatch layer. The record extends the globals of the dispatch by the
  function's own flag and by what the code asks of a pointer, whether it is null.
\<close>

record weights_globals = gf64_globals +
  dispatch_bound :: int
  inverse_batch_null :: bool

definition bind_dispatch_once ::
  "environment \<Rightarrow> (nat \<Rightarrow> host) \<Rightarrow> 'b weights_globals_scheme \<Rightarrow> 'b weights_globals_scheme option" where
  "bind_dispatch_once getenv hosts g =
    (if dispatch_bound g = 0 then do {
       g \<leftarrow> (if inverse_batch_null g
          then do { g \<leftarrow> gf64_init_dispatch getenv hosts g; Some (g\<lparr>inverse_batch_null := False\<rparr>) }
          else Some g);
       Some (g\<lparr>dispatch_bound := 1\<rparr>)
     }
     else Some g)"

definition gf64_barycentric_weights ::
  "environment \<Rightarrow> (nat \<Rightarrow> host) \<Rightarrow> allocator \<Rightarrow> nat \<Rightarrow> SubproductTree \<Rightarrow> gf64_t list \<Rightarrow>
    'b weights_globals_scheme \<Rightarrow> 'a mpe_globals_scheme \<Rightarrow>
    ((gf64_t list \<times> 'b weights_globals_scheme) \<times> 'a mpe_globals_scheme) option" where
  "gf64_barycentric_weights getenv hosts alloc t tree weights_out g st =
    (if num_points tree = 0 then Some ((weights_out, g), st)
     else do {
       let N = num_points tree;
       g \<leftarrow> bind_dispatch_once getenv hosts g;
       let root = drop (level_data tree ! 0) (storage tree);
       let deriv = fold (\<lambda>j deriv. deriv[j := (if even j then root ! (j + 1) else 0)]) [0..<N] (replicate N 0);
       (deriv_at_points, st) \<leftarrow> gf64_multi_point_eval alloc t deriv (N - 1) tree (replicate N 0) st;
       let weights_out = (if gf64_has_vpclmulqdq g \<noteq> 0 then gf64_invert_ita_batch weights_out deriv_at_points N
         else gf64_inverse_batch g weights_out deriv_at_points N);
       Some ((weights_out, g), st)
     })"

section \<open>The dispatch state\<close>

text \<open>A pointer that is not null has been bound by an initialisation or a later rebinding.\<close>

definition weights_state_ok :: "'b weights_globals_scheme \<Rightarrow> bool" where
  "weights_state_ok g \<longleftrightarrow> capability_ok g \<and> (inverse_batch_null g \<longrightarrow> dispatch_bound g = 0) \<and>
    (\<not> inverse_batch_null g \<longrightarrow> dispatch_ok g)"

lemma capability_frame [simp]:
  "capability_ok (g\<lparr>dispatch_bound := b\<rparr>) = capability_ok g" "capability_ok (g\<lparr>inverse_batch_null := c\<rparr>) = capability_ok g"
  by (simp_all add: capability_ok_def probe_ok_def)

lemma bind_kernels_weights_frame:
  "bind_kernels m (g\<lparr>dispatch_bound := b\<rparr>) = (bind_kernels m g)\<lparr>dispatch_bound := b\<rparr>"
  "bind_kernels m (g\<lparr>inverse_batch_null := c\<rparr>) = (bind_kernels m g)\<lparr>inverse_batch_null := c\<rparr>"
  by (cases m; simp)+

lemma dispatch_ok_frame:
  "dispatch_ok g \<Longrightarrow> dispatch_ok (g\<lparr>dispatch_bound := b\<rparr>)" "dispatch_ok g \<Longrightarrow> dispatch_ok (g\<lparr>inverse_batch_null := c\<rparr>)"
  by (simp_all add: dispatch_ok_def bind_kernels_weights_frame)

lemma bind_dispatch_once_ok:
  assumes "weights_state_ok g"
  shows "\<exists>g'. bind_dispatch_once getenv hosts g = Some g' \<and> weights_state_ok g' \<and> dispatch_ok g' \<and>
    dispatch_bound g' \<noteq> 0 \<and> \<not> inverse_batch_null g' \<and>
    (\<not> inverse_batch_null g \<longrightarrow> gf64_current_method g' = gf64_current_method g)"
proof (cases "inverse_batch_null g")
  case True
  obtain g1 where "gf64_init_dispatch getenv hosts g = Some g1" "dispatch_ok g1"
    using init_dispatch_ok [where g = g and getenv = getenv and hosts = hosts] assms by (auto simp: weights_state_ok_def)
  then show ?thesis
    using True assms
    by (auto simp: bind_dispatch_once_def weights_state_ok_def dispatch_ok_frame dispatch_ok_def [THEN iffD1, THEN conjunct1])
next
  case False
  then show ?thesis
    using assms by (auto simp: bind_dispatch_once_def weights_state_ok_def dispatch_ok_frame)
qed

text \<open>The batch that the capability flag or the bound pointer selects inverts every element.\<close>

lemma inverse_batch_scalar_words:
  "N \<le> length out \<Longrightarrow> gf64_inverse_batch_scalar out inp N = map (\<lambda>i. gf64_inverse (inp ! i)) [0..<N] @ drop N out"
  by (simp add: gf64_inverse_batch_scalar_def fold_const_update_map)

lemma selected_inverse_batch:
  assumes "dispatch_ok g" "N \<le> length out" "N \<le> length inp"
  shows "(if gf64_has_vpclmulqdq g \<noteq> 0 then gf64_invert_ita_batch out inp N else gf64_inverse_batch g out inp N) =
    map (\<lambda>i. gf64_inverse (inp ! i)) [0..<N] @ drop N out"
proof -
  have "gf64_inverse_batch g out inp N = gf64_inverse_batch_scalar out inp N"
    using bound_inverse_batch [OF assms(2,3), of "gf64_current_method g" g] assms(1) by (simp add: dispatch_ok_def)
  then show ?thesis
    using assms(2) by (simp add: gf64_invert_ita_batch_eq inverse_batch_scalar_words)
qed

section \<open>The weights\<close>

lemma even_derivative: "fold (\<lambda>j z. z[j := (if even j then P ! (j + 1) else 0)]) [0..<N] z = derivative_words P N z"
  by (simp add: derivative_words_def)

definition weight_words :: "gf64_t list \<Rightarrow> gf64_t list" where
  "weight_words pts = map (\<lambda>x. gf64_inverse (gf_rep (eval (length pts) (deriv (vanish pts)) (Gf x)))) pts"

lemma barycentric_run:
  assumes T: "tree_of pts L T" and size: "64 * 2 ^ L \<le> SIZE_MAX" and out: "length out = 2 ^ L"
    and g: "weights_state_ok g" and st: "poly_ready alloc (st :: 'a mpe_globals_scheme)"
  obtains g' st' where
    "gf64_barycentric_weights getenv hosts alloc t T out g st = Some ((weight_words pts, g'), st')"
    "weights_state_ok g'" "dispatch_ok g'" "poly_ready alloc st'"
    "\<not> inverse_batch_null g \<longrightarrow> gf64_current_method g' = gf64_current_method g"
proof -
  note fields = tree_of_fields [OF T]
  define D where "D = to_coeffs (2 ^ L) (deriv (vanish pts))"
  obtain g' where g': "bind_dispatch_once getenv hosts g = Some g'" "weights_state_ok g'" "dispatch_ok g'"
    "\<not> inverse_batch_null g \<longrightarrow> gf64_current_method g' = gf64_current_method g"
    using bind_dispatch_once_ok [OF g] by blast
  obtain n where n: "2 ^ L = Suc n" by (metis Suc_pred zero_less_numeral zero_less_power)
  have values_eq: "map (point_value D (2 ^ L - 1)) pts = map (\<lambda>x. gf_rep (eval (length pts) (deriv (vanish pts)) (Gf x))) pts" (is "_ = ?d")
    using derivative_values [of pts n] fields(1) n by (simp add: D_def)
  have walk: "yields alloc (gf64_multi_point_eval alloc t D (2 ^ L - 1) T (replicate (2 ^ L) 0) :: 'a mpe_globals_scheme \<Rightarrow> _)
      (map (point_value D (2 ^ L - 1)) pts)"
    by (rule returns_multi_point_eval [OF T size]) (use size in \<open>simp_all add: D_def SIZE_MAX_def less_imp_diff_less\<close>)
  obtain st' where st':
    "gf64_multi_point_eval alloc t D (2 ^ L - 1) T (replicate (2 ^ L) 0) st = Some (?d, st')" "poly_ready alloc st'"
    by (rule returnsD [OF walk st]) (simp only: values_eq)
  have "(if gf64_has_vpclmulqdq g' \<noteq> 0 then gf64_invert_ita_batch out ?d (2 ^ L) else gf64_inverse_batch g' out ?d (2 ^ L)) =
      weight_words pts"
    using selected_inverse_batch [OF g'(3), of "2 ^ L" out ?d] out fields(1)
    by (auto simp: weight_words_def intro!: nth_equalityI)
  then have "gf64_barycentric_weights getenv hosts alloc t T out g st = Some ((weight_words pts, g'), st')"
    using st'(1) derivative_words_root [OF T]
    by (simp add: gf64_barycentric_weights_def fields(3) g'(1) even_derivative D_def Let_def)
  then show ?thesis using that g' st'(2) by blast
qed

lemma weight_words_inverse:
  assumes "length pts = 2 ^ L" "distinct pts" "j < 2 ^ L"
  shows "Gf (weight_words pts ! j) * eval (2 ^ L) (deriv (vanish pts)) (Gf (pts ! j)) = 1"
  using deriv_vanish_nonzero [OF assms(2), of "pts ! j"] assms
  by (simp add: weight_words_def Gf_inverse)

end
