(* ===== verification/Interpolation_Correctness.thy ===== *)
theory Interpolation_Correctness
  imports Barycentric Polynomial_Correctness
begin

text \<open>The properties of division, multi-point evaluation and interpolation.\<close>

section \<open>Division\<close>

definition mpe_start :: mpe_globals where
  "mpe_start = poly_globals.extend example_globals (mpe_globals.fields 0 (-1) 0)"

lemma mpe_start_ready: "poly_ready fresh_allocator mpe_start"
  using example_ready(2)
  by (simp add: poly_ready_def mpe_start_def poly_globals.extend_def mpe_globals.fields_def)

text \<open>
  C22. The division that the rest of the program calls returns, in every consistent state, the quotient
  and the remainder: the dividend is the divisor times the quotient plus a remainder of smaller
  degree, written into the buffers as the contract says. It returns word for word what the
  schoolbook division returns, whichever of the two algorithms runs.
\<close>

theorem division_correct:
  fixes st :: "'a mpe_globals_scheme"
  assumes "poly_ready alloc st" "division_buffers f deg_f g deg_g q r" "Suc deg_f \<le> SIZE_MAX div 3"
  shows "\<exists>q' r' st'. gf64_poly_divmod alloc t f deg_f g deg_g q r st = Some ((q', r'), st') \<and>
    poly_ready alloc st' \<and> division_result f deg_f g deg_g q r q' r' \<and>
    gf64_poly_divmod_schoolbook f deg_f g deg_g q r = Some (q', r')"
proof -
  obtain q' r' st' where fast: "gf64_poly_divmod alloc t f deg_f g deg_g q r st = Some ((q', r'), st')"
    "division_result f deg_f g deg_g q r q' r'" "poly_ready alloc st'"
    by (rule returnsD [OF returns_divmod [OF assms(2,3)] assms(1)]) auto
  obtain q2 r2 where slow: "gf64_poly_divmod_schoolbook f deg_f g deg_g q r = Some (q2, r2)"
    "division_result f deg_f g deg_g q r q2 r2"
    using schoolbook_result [OF assms(2)] by blast
  show ?thesis using fast slow division_result_unique [OF assms(2) fast(2) slow(2)] by auto
qed

theorem division_correct_witness:
  "\<exists>q' r' st'. gf64_poly_divmod fresh_allocator 0 [3, 5, 7] 2 [2, 1] 1 [0, 0] [0, 0, 0] mpe_start = Some ((q', r'), st') \<and>
    gf64_poly_divmod_schoolbook [3, 5, 7] 2 [2, 1] 1 [0, 0] [0, 0, 0] = Some (q', r')"
  using division_correct [OF mpe_start_ready, of "[3, 5, 7]" 2 "[2, 1]" 1 "[0, 0]" "[0, 0, 0]" 0]
  by (auto simp: division_buffers_def SIZE_MAX_def)

text \<open>
  C39. The Newton iteration returns the inverse power series of every polynomial with a constant term,
  to the requested precision, also one that is not a power of two.
\<close>

theorem newton_inverse_correct:
  fixes st :: "'a mpe_globals_scheme"
  assumes "poly_ready alloc st" "0 < n" "n \<le> SIZE_MAX div 3" "deg_g < length g" "g ! 0 \<noteq> 0" "length result = n"
  shows "\<exists>h st'. gf64_poly_invmod alloc t g deg_g n result st = Some (h, st') \<and> poly_ready alloc st' \<and>
    length h = n \<and> trunc n (poly g (Suc deg_g) * of_coeffs h) = 1"
  by (rule returnsD [OF returns_invmod [OF assms(2-6)] assms(1)]) blast

theorem newton_inverse_correct_witness:
  "\<exists>h st'. gf64_poly_invmod fresh_allocator 0 [1, 1] 1 3 [0, 0, 0] mpe_start = Some (h, st') \<and>
    trunc 3 (poly [1, 1] 2 * of_coeffs h) = 1"
proof -
  have "\<exists>h st'. gf64_poly_invmod fresh_allocator 0 [1, 1] 1 3 [0, 0, 0] mpe_start = Some (h, st') \<and>
      poly_ready fresh_allocator st' \<and> length h = 3 \<and> trunc 3 (poly [1, 1] (Suc 1) * of_coeffs h) = 1"
    by (rule newton_inverse_correct [OF mpe_start_ready]) (simp_all add: SIZE_MAX_def)
  then show ?thesis unfolding Suc_1 by blast
qed

section \<open>The subproduct tree\<close>

text \<open>
  C25. The tree of a power of two of points has at every level the products of the linear factors of
  consecutive points, and at its root the product of all of them. No product overlaps the nodes it
  is made of. The empty list gives the empty tree; any other number of points fails the assertion.
\<close>

theorem subproduct_tree_correct:
  fixes st :: "'a poly_globals_scheme"
  assumes "poly_ready alloc st" "length pts = 2 ^ L" "base \<noteq> 0" "in_memory base (level_at L (Suc L))"
  shows "\<exists>T st'. gf64_subproduct_tree_build alloc t base pts (2 ^ L) st = Some (T, st') \<and> poly_ready alloc st' \<and>
    num_points T = 2 ^ L \<and> num_levels T = Suc L \<and>
    (\<forall>lev\<le>L. \<forall>i<2 ^ lev. level_degs T ! lev = 2 ^ (L - lev) \<and>
      slice (storage T) (level_data T ! lev + i * Suc (2 ^ (L - lev))) (Suc (2 ^ (L - lev))) =
        to_coeffs (Suc (2 ^ (L - lev))) (vanish (take (2 ^ (L - lev)) (drop (i * 2 ^ (L - lev)) pts))))"
proof -
  obtain T st' where build: "gf64_subproduct_tree_build alloc t base pts (2 ^ L) st = Some (T, st')" "poly_ready alloc st'"
    and T: "tree_of pts L T"
    by (rule returnsD [OF returns_tree_build [OF assms(2-4)] assms(1)])
  note fields = tree_of_fields [OF T]
  have "slice (storage T) (level_data T ! lev + i * Suc (2 ^ (L - lev))) (Suc (2 ^ (L - lev))) =
      to_coeffs (Suc (2 ^ (L - lev))) (vanish (take (2 ^ (L - lev)) (drop (i * 2 ^ (L - lev)) pts)))"
    if "lev \<le> L" "i < 2 ^ lev" for lev i
    using filled_node [OF fields(6) _ that] by (simp only: fields(5) [OF that(1)] node_at_def node_words_def node_points_def)
  then show ?thesis using build fields by blast
qed

theorem subproduct_tree_correct_witness:
  "\<exists>T st'. gf64_subproduct_tree_build fresh_allocator 0 800 [2, 3] 2 mpe_start = Some (T, st') \<and>
    slice (storage T) (level_data T ! 0) 3 = to_coeffs 3 (lin 2 * lin 3)"
proof -
  have "in_memory 800 (level_at 1 (Suc 1))" by (simp add: in_memory_def level_at_def UINTPTR_MAX_def)
  then obtain T st' where T: "gf64_subproduct_tree_build fresh_allocator 0 800 [2, 3] (2 ^ 1) mpe_start = Some (T, st')"
    "\<forall>lev\<le>1. \<forall>i<2 ^ lev. level_degs T ! lev = 2 ^ (1 - lev) \<and>
      slice (storage T) (level_data T ! lev + i * Suc (2 ^ (1 - lev))) (Suc (2 ^ (1 - lev))) =
        to_coeffs (Suc (2 ^ (1 - lev))) (vanish (take (2 ^ (1 - lev)) (drop (i * 2 ^ (1 - lev)) [2, 3])))"
    using subproduct_tree_correct [OF mpe_start_ready, of "[2, 3]" 1 800 0] by auto
  then show ?thesis using T(2) [rule_format, of 0 0] by (simp add: numeral_3_eq_3)
qed

lemma example_tree:
  obtains T st where "gf64_subproduct_tree_build fresh_allocator 0 800 [2, 3] 2 mpe_start = Some (T, st)"
    "tree_of [2, 3] 1 T" "poly_ready fresh_allocator st"
proof -
  have "returns fresh_allocator (gf64_subproduct_tree_build fresh_allocator 0 800 [2, 3] (2 ^ 1)) (tree_of [2, 3] 1)"
    by (rule returns_tree_build) (simp_all add: in_memory_def level_at_def UINTPTR_MAX_def)
  from returnsD [OF this mpe_start_ready] show ?thesis using that by auto
qed

section \<open>Evaluation and interpolation\<close>

text \<open>
  C24. Multi-point evaluation returns at every point what Horner's rule returns there, the value of
  the polynomial, by the walk down the tree as by the fallback, for polynomials of any degree. The
  walk stays inside its scratch area and its arena.
\<close>

theorem multi_point_eval_correct:
  fixes st :: "'a mpe_globals_scheme"
  assumes "poly_ready alloc st" "tree_of pts L T" "64 * 2 ^ L \<le> SIZE_MAX" "deg_f < length f" "deg_f < SIZE_MAX"
    "length out = 2 ^ L"
  shows "\<exists>st'. gf64_multi_point_eval alloc t f deg_f T out st = Some (map (horner_eval_poly f deg_f) pts, st') \<and>
    poly_ready alloc st' \<and>
    (\<forall>x. Gf (horner_eval_poly f deg_f x) = eval (Suc deg_f) (poly f (Suc deg_f)) (Gf x))"
proof -
  have "horner_eval_poly f deg_f = point_value f deg_f"
    by (rule ext) (rule horner_eval_poly_eq [OF assms(4,5)])
  then show ?thesis
    using returnsD [OF returns_multi_point_eval [OF assms(2-6), of alloc t] assms(1)]
    by (metis (no_types) gf.collapse point_value_def)
qed

theorem multi_point_eval_correct_witness:
  "\<exists>T st st'. gf64_subproduct_tree_build fresh_allocator 0 800 [2, 3] 2 mpe_start = Some (T, st) \<and>
    gf64_multi_point_eval fresh_allocator 0 [7, 1] 1 T [0, 0] st = Some (map (horner_eval_poly [7, 1] 1) [2, 3], st')"
proof -
  obtain T st where T: "gf64_subproduct_tree_build fresh_allocator 0 800 [2, 3] 2 mpe_start = Some (T, st)"
    "tree_of [2, 3] 1 T" "poly_ready fresh_allocator st" by (rule example_tree)
  have "\<exists>st'. gf64_multi_point_eval fresh_allocator 0 [7, 1] 1 T [0, 0] st = Some (map (horner_eval_poly [7, 1] 1) [2, 3], st')"
    using multi_point_eval_correct [OF T(3,2), of 1 "[7, 1]" "[0, 0]" 0] by (auto simp: SIZE_MAX_def)
  then show ?thesis using T(1) by blast
qed

text \<open>
  C23. Interpolation at distinct points returns the coefficients of a polynomial that multi-point
  evaluation takes back to the given values, and it is the only polynomial of that size with these
  values: evaluating and interpolating are inverse to each other.
\<close>

theorem interpolation_round_trip:
  fixes st :: "'a mpe_globals_scheme"
  assumes "poly_ready alloc st" "tree_of pts L T" "distinct pts" "64 * 2 ^ L \<le> SIZE_MAX"
    "length v = 2 ^ L" "length out = 2 ^ L"
  shows "\<exists>p st1 st2. gf64_multi_point_interp_internal alloc t T v out st = Some (p, st1) \<and> length p = 2 ^ L \<and>
    gf64_multi_point_eval alloc t p (2 ^ L - 1) T out st1 = Some (v, st2) \<and> poly_ready alloc st2 \<and>
    (\<forall>q. length q = 2 ^ L \<longrightarrow> map (horner_eval_poly q (2 ^ L - 1)) pts = v \<longrightarrow> q = p)"
proof -
  note len = tree_of_fields(1) [OF assms(2)]
  have n: "Suc (2 ^ L - 1) = 2 ^ L" by simp
  obtain p st1 F where run: "gf64_multi_point_interp_internal alloc t T v out st = Some (p, st1)" "poly_ready alloc st1"
    and F: "interpolates pts v F" "p = to_coeffs (2 ^ L) F @ drop (2 ^ L) out"
    using returnsD [OF returns_interp_internal [OF assms(2,5) eq_imp_le [OF assms(6) [symmetric]] assms(4,3), of alloc t] assms(1)]
    by metis
  have p: "p = to_coeffs (2 ^ L) F" "length p = 2 ^ L" using F(2) assms(6) by simp_all
  have values_of: "map (point_value q (2 ^ L - 1)) pts = v \<longleftrightarrow> interpolates pts v (of_coeffs q)" if "length q = 2 ^ L" for q
  proof -
    have "below (2 ^ L) (of_coeffs q)" using below_of_coeffs [of q] that by simp
    moreover have "point_value q (2 ^ L - 1) x = gf_rep (eval (2 ^ L) (of_coeffs q) (Gf x))" for x
      using that by (simp only: point_value_def n) simp
    ultimately show ?thesis
      using len assms(5) by (auto simp: interpolates_def list_eq_iff_nth_eq gf_eq_iff)
  qed
  have ofp: "of_coeffs p = F" using F(1) len by (simp add: p interpolates_def trunc_below)
  have size: "2 ^ L - 1 < SIZE_MAX" using assms(4) by (simp add: SIZE_MAX_def less_imp_diff_less)
  obtain st2 where "gf64_multi_point_eval alloc t p (2 ^ L - 1) T out st1 = Some (v, st2)" "poly_ready alloc st2"
    using returnsD [OF returns_multi_point_eval [OF assms(2,4) _ size assms(6), of p alloc t] run(2)] values_of [OF p(2)] F(1) p(2)
    by (metis n lessI ofp)
  moreover have "q = p" if q: "length q = 2 ^ L" "map (horner_eval_poly q (2 ^ L - 1)) pts = v" for q
  proof -
    have "horner_eval_poly q (2 ^ L - 1) = point_value q (2 ^ L - 1)"
      by (rule ext) (rule horner_eval_poly_eq [OF _ size], use q(1) in simp)
    then have "map (point_value q (2 ^ L - 1)) pts = v" using q(2) by (simp only:)
    then have "of_coeffs q = F" using values_of [OF q(1)] interpolates_unique [OF assms(3) _ F(1)] by simp
    then show ?thesis using q(1) p(2) ofp of_coeffs_inject by metis
  qed
  ultimately show ?thesis using run(1) p(2) by blast
qed

theorem interpolation_round_trip_witness:
  "\<exists>T st p st1. gf64_subproduct_tree_build fresh_allocator 0 800 [2, 3] 2 mpe_start = Some (T, st) \<and>
    gf64_multi_point_interp_internal fresh_allocator 0 T [5, 6] [0, 0] st = Some (p, st1) \<and> length p = 2"
proof -
  obtain T st where T: "gf64_subproduct_tree_build fresh_allocator 0 800 [2, 3] 2 mpe_start = Some (T, st)"
    "tree_of [2, 3] 1 T" "poly_ready fresh_allocator st" by (rule example_tree)
  have "\<exists>p st1. gf64_multi_point_interp_internal fresh_allocator 0 T [5, 6] [0, 0] st = Some (p, st1) \<and> length p = 2"
    using interpolation_round_trip [OF T(3,2), of "[5, 6]" "[0, 0]" 0] by (auto simp: SIZE_MAX_def)
  then show ?thesis using T(1) by blast
qed

text \<open>
  C40. Interpolation aborts on a tree with a repeated point, whatever the values: the derivative of
  the root vanishes at such a point.
\<close>

theorem interpolation_rejects_duplicates:
  fixes st :: "'a mpe_globals_scheme"
  assumes "poly_ready alloc st" "tree_of pts L T" "\<not> distinct pts" "64 * 2 ^ L \<le> SIZE_MAX" "length v = 2 ^ L"
  shows "gf64_multi_point_interp_internal alloc t T v out st = None"
  using interp_internal_duplicate [OF assms(2,5,4,3,1)] .

theorem interpolation_rejects_duplicates_witness:
  "\<exists>T st. gf64_subproduct_tree_build fresh_allocator 0 800 [2, 2] 2 mpe_start = Some (T, st) \<and>
    gf64_multi_point_interp_internal fresh_allocator 0 T [5, 6] [0, 0] st = None"
proof -
  have "returns fresh_allocator (gf64_subproduct_tree_build fresh_allocator 0 800 [2, 2] (2 ^ 1)) (tree_of [2, 2] 1)"
    by (rule returns_tree_build) (simp_all add: in_memory_def level_at_def UINTPTR_MAX_def)
  from returnsD [OF this mpe_start_ready] obtain T st where
    T: "gf64_subproduct_tree_build fresh_allocator 0 800 [2, 2] (2 ^ 1) mpe_start = Some (T, st)" "tree_of [2, 2] 1 T"
    "poly_ready fresh_allocator st" by metis
  then show ?thesis
    using interpolation_rejects_duplicates [OF T(3,2), of "[5, 6]" 0 "[0, 0]"] by (auto simp: SIZE_MAX_def)
qed

definition gate_decision :: "environment \<Rightarrow> 'a mpe_globals_scheme \<Rightarrow> int" where
  "gate_decision getenv st =
    (if gf64_interp_env_cached st = -1 then gf64_interp_read_env getenv else gf64_interp_env_cached st)"

text \<open>
  The public entry enters the interpolation exactly when the environment variable asked for it
  when it was first read: a process without the variable leaves the output and the counter alone, an
  accepted value counts the call and interpolates, and later changes of the environment have no
  effect until the reset.
\<close>

theorem interpolation_gate:
  fixes st :: "'a mpe_globals_scheme"
  assumes "gf64_interp_env_cached st \<in> {-1, 0, 1}"
  shows "gf64_multi_point_interp getenv alloc t T v out st =
    (if num_points T = 0 then Some (out, st)
     else if gate_decision getenv st = 0 then Some (out, st\<lparr>gf64_interp_env_cached := 0\<rparr>)
     else gf64_multi_point_interp_internal alloc t T v out
       (st\<lparr>gf64_interp_env_cached := 1, gf64_interp_probe_count := gf64_interp_probe_count st + 1\<rparr>)) \<and>
    (getenv ''PAR3_GF64_USE_INTERP'' = None \<longrightarrow> gf64_interp_read_env getenv = 0) \<and>
    (\<forall>e. getenv ''PAR3_GF64_USE_INTERP'' = Some e \<longrightarrow>
      gf64_interp_read_env getenv = (if e \<noteq> [] \<and> (hd e = CHR ''1'' \<or> strcaseeq e ''true'' \<or> strcaseeq e ''yes'' \<or> strcaseeq e ''on'')
        then 1 else 0))"
proof -
  have "gf64_interp_read_env getenv \<in> {0, 1}" by (simp add: gf64_interp_read_env_def split: option.split)
  then have "gate_decision getenv st \<in> {0, 1}" using assms by (auto simp: gate_decision_def)
  moreover have "gf64_interp_enabled getenv st =
      (gate_decision getenv st, st\<lparr>gf64_interp_env_cached := gate_decision getenv st\<rparr>)"
    using assms by (auto simp: gf64_interp_enabled_def gate_decision_def Let_def)
  ultimately show ?thesis
    by (auto simp: gf64_multi_point_interp_def gf64_interp_read_env_def)
qed

theorem interpolation_gate_witness:
  "gf64_interp_env_cached mpe_start = -1 \<and>
    gf64_multi_point_interp (\<lambda>_. None) fresh_allocator 0 (tree_header 2) [5, 6] [0, 0] mpe_start =
      Some ([0, 0], mpe_start\<lparr>gf64_interp_env_cached := 0\<rparr>)"
proof -
  have "gf64_interp_env_cached mpe_start = -1"
    by (simp add: mpe_start_def poly_globals.extend_def mpe_globals.fields_def)
  then show ?thesis
    using interpolation_gate [of mpe_start "\<lambda>_. None" fresh_allocator 0 "tree_header 2" "[5, 6]" "[0, 0]"]
    by (simp add: tree_header_fields(2) [of 1, simplified] gate_decision_def)
qed

section \<open>The barycentric weights\<close>

definition weights_start :: weights_globals where
  "weights_start = gf64_globals.extend start_globals (weights_globals.fields 0 True)"

lemma weights_start_ok: "weights_state_ok weights_start"
  using startup_ok [OF startup_start_globals]
  by (simp add: weights_state_ok_def weights_start_def gf64_globals.extend_def weights_globals.fields_def start_globals_def
      capability_ok_def probe_ok_def)

text \<open>
  C26. The barycentric weight of a point is the inverse of the product of its distances to the other
  points, 0 for a repeated point, whether the dispatch is still unbound, bound by the caller or bound
  by the library, and whichever inversion routine it selects. A method that the caller has bound stays
  bound.
\<close>

theorem barycentric_weights_correct:
  fixes st :: "'a mpe_globals_scheme"
  assumes "poly_ready alloc st" "weights_state_ok g" "tree_of pts L T" "64 * 2 ^ L \<le> SIZE_MAX" "length out = 2 ^ L"
  shows "\<exists>w g' st'. gf64_barycentric_weights getenv hosts alloc t T out g st = Some ((w, g'), st') \<and>
    poly_ready alloc st' \<and> weights_state_ok g' \<and> length w = 2 ^ L \<and>
    (\<not> inverse_batch_null g \<longrightarrow> gf64_current_method g' = gf64_current_method g) \<and>
    (\<forall>j<2 ^ L. Gf (w ! j) = inverse (\<Prod>k \<in> {..<2 ^ L} - {j}. Gf (pts ! j) + Gf (pts ! k)))"
proof -
  note len = tree_of_fields(1) [OF assms(3)]
  obtain g' st' where "gf64_barycentric_weights getenv hosts alloc t T out g st = Some ((weight_words pts, g'), st')"
    "weights_state_ok g'" "poly_ready alloc st'" "\<not> inverse_batch_null g \<longrightarrow> gf64_current_method g' = gf64_current_method g"
    by (rule barycentric_run [OF assms(3-5,2,1)])
  moreover have "Gf (weight_words pts ! j) = inverse (\<Prod>k \<in> {..<2 ^ L} - {j}. Gf (pts ! j) + Gf (pts ! k))" if "j < 2 ^ L" for j
    using that deriv_vanish_value [of j pts] by (simp add: weight_words_def Gf_inverse len)
  ultimately show ?thesis using len by (auto simp: weight_words_def)
qed

theorem barycentric_weights_correct_witness:
  "\<forall>hosts. \<exists>T st w g' st'. gf64_subproduct_tree_build fresh_allocator 0 800 [2, 3] 2 mpe_start = Some (T, st) \<and>
    gf64_barycentric_weights (\<lambda>_. None) hosts fresh_allocator 0 T [0, 0] weights_start st = Some ((w, g'), st') \<and> length w = 2"
proof
  fix hosts
  obtain T st where T: "gf64_subproduct_tree_build fresh_allocator 0 800 [2, 3] 2 mpe_start = Some (T, st)"
    "tree_of [2, 3] 1 T" "poly_ready fresh_allocator st" by (rule example_tree)
  have "\<exists>w g' st'. gf64_barycentric_weights (\<lambda>_. None) hosts fresh_allocator 0 T [0, 0] weights_start st = Some ((w, g'), st') \<and> length w = 2"
    using barycentric_weights_correct [OF T(3) weights_start_ok T(2), of "[0, 0]" "\<lambda>_. None" hosts 0] by (auto simp: SIZE_MAX_def)
  then show "\<exists>T st w g' st'. gf64_subproduct_tree_build fresh_allocator 0 800 [2, 3] 2 mpe_start = Some (T, st) \<and>
    gf64_barycentric_weights (\<lambda>_. None) hosts fresh_allocator 0 T [0, 0] weights_start st = Some ((w, g'), st') \<and> length w = 2"
    using T(1) by blast
qed

text \<open>
  Interpolating with the precomputed barycentric weights gives word for word what the
  interpolation gives that computes them itself.
\<close>

theorem interpolation_with_weights_agrees:
  fixes st :: "'a mpe_globals_scheme"
  assumes "poly_ready alloc st" "weights_state_ok g" "tree_of pts L T" "distinct pts" "64 * 2 ^ L \<le> SIZE_MAX"
    "length v = 2 ^ L" "length out = 2 ^ L" "length w0 = 2 ^ L"
  shows "\<exists>w g' st' p st1 st2. gf64_barycentric_weights getenv hosts alloc t T w0 g st = Some ((w, g'), st') \<and>
    gf64_multi_point_interp_weights alloc t T v (Some w) out st' = Some (p, st1) \<and>
    gf64_multi_point_interp_internal alloc t T v out st = Some (p, st2)"
proof -
  note len = tree_of_fields(1) [OF assms(3)]
  have out: "2 ^ L \<le> length out" using assms(7) by simp
  obtain g' st' where w: "gf64_barycentric_weights getenv hosts alloc t T w0 g st = Some ((weight_words pts, g'), st')"
    "poly_ready alloc st'" by (rule barycentric_run [OF assms(3,5,8,2,1)])
  have "length (weight_words pts) = 2 ^ L" by (simp add: weight_words_def len)
  note interp = returns_interp_with_weights [OF assms(3,6) this out assms(4) weight_words_inverse [OF len assms(4)]]
  obtain p st1 F where 1: "gf64_multi_point_interp_weights alloc t T v (Some (weight_words pts)) out st' = Some (p, st1)"
    "interpolates pts v F" "p = to_coeffs (2 ^ L) F @ drop (2 ^ L) out"
    using returnsD [OF interp [of alloc t] w(2)] by metis
  obtain p' st2 F' where 2: "gf64_multi_point_interp_internal alloc t T v out st = Some (p', st2)"
    "interpolates pts v F'" "p' = to_coeffs (2 ^ L) F' @ drop (2 ^ L) out"
    using returnsD [OF returns_interp_internal [OF assms(3,6) out assms(5,4), of alloc t] assms(1)] by metis
  show ?thesis using w(1) 1 2 interpolates_unique [OF assms(4) 1(2) 2(2)] by blast
qed

theorem interpolation_with_weights_agrees_witness:
  "\<exists>T st p st2. gf64_subproduct_tree_build fresh_allocator 0 800 [2, 3] 2 mpe_start = Some (T, st) \<and>
    gf64_multi_point_interp_internal fresh_allocator 0 T [5, 6] [0, 0] st = Some (p, st2)"
proof -
  obtain T st where T: "gf64_subproduct_tree_build fresh_allocator 0 800 [2, 3] 2 mpe_start = Some (T, st)"
    "tree_of [2, 3] 1 T" "poly_ready fresh_allocator st" by (rule example_tree)
  have "\<exists>p st2. gf64_multi_point_interp_internal fresh_allocator 0 T [5, 6] [0, 0] st = Some (p, st2)"
    using interpolation_with_weights_agrees [OF T(3) weights_start_ok T(2), of "[5, 6]" "[0, 0]" "[0, 0]" "\<lambda>_. None" undefined 0]
    by (auto simp: SIZE_MAX_def)
  then show ?thesis using T(1) by blast
qed

end
