(* ===== verification/Fenger.thy ===== *)
theory Fenger
  imports Barycentric HQC_Batch
begin

text \<open>
  The Toeplitz pipeline of gf64/gf64_fenger.c: a context built once, then the product of the Cauchy
  matrix \<open>1 / (y_r - x_c)\<close> with a block of words, one word at a time or \<open>K\<close> words together. A buffer of
  \<open>K\<close> slabs is the list of its slabs; the scratch areas of the two batched walks are threaded through,
  a frame owning the words at the start and the deeper frames the rest. Pointers that are null, areas
  that are too short and failed allocations of an arena are None.
\<close>

definition FENGER_BATCH_K_MAX :: nat where "FENGER_BATCH_K_MAX = 32"

text \<open>\<open>recip_pool\<close> is null, here empty, for a recovery tree of one level.\<close>

record gf64_fenger_ctx =
  tree_x :: SubproductTree
  tree_y :: SubproductTree
  V_prime :: "gf64_t list"
  V_prime_inv :: "gf64_t list"
  V_at_y_inv :: "gf64_t list"
  recip_pool :: "gf64_t list"
  recip_pool_words :: nat
  ctx_N :: nat
  ctx_R :: nat
  num_inputs_real :: nat
  num_recovery_real :: nat

section \<open>Preparation\<close>

definition fenger_x_points :: "64 word \<Rightarrow> nat \<Rightarrow> nat \<Rightarrow> 64 word \<Rightarrow> gf64_t list" where
  "fenger_x_points firstInput numInputsPadded numInputsReal syntheticInputBase =
    map (\<lambda>c. if c < numInputsReal then firstInput + of_nat c
        else syntheticInputBase + of_nat (c - numInputsReal)) [0..<numInputsPadded]"

definition fenger_y_points :: "64 word \<Rightarrow> nat \<Rightarrow> gf64_t list" where
  "fenger_y_points firstRecovery numRecoveryPadded =
    map (\<lambda>r. firstRecovery + of_nat r) [0..<numRecoveryPadded]"

definition fenger_invert_all :: "'b gf64_globals_scheme \<Rightarrow> gf64_t list \<Rightarrow> gf64_t list \<Rightarrow> nat \<Rightarrow> gf64_t list" where
  "fenger_invert_all g out inp n =
    (if gf64_has_vpclmulqdq g \<noteq> 0 then gf64_invert_ita_batch out inp n
     else fold (\<lambda>c out. out[c := gf64_invert_ita_one (inp ! c)]) [0..<n] out)"

text \<open>One child of the pool; the state is the pool and the cursor.\<close>

definition fenger_recip_child ::
  "allocator \<Rightarrow> nat \<Rightarrow> gf64_t list \<Rightarrow> nat \<Rightarrow> (gf64_t list \<times> nat) \<times> 'a mpe_globals_scheme \<Rightarrow>
    ((gf64_t list \<times> nat) \<times> 'a mpe_globals_scheme) option" where
  "fenger_recip_child alloc t p child_deg = (\<lambda>((pool, cursor), st).
    let rev = map (\<lambda>k. p ! (child_deg - k)) [0..<child_deg + 1]
    in do {
      (recip, st) \<leftarrow> gf64_poly_invmod alloc t rev child_deg child_deg (take child_deg (drop cursor pool)) st;
      Some ((store_words cursor recip pool, cursor + child_deg), st)
    })"

definition fenger_recip_pool ::
  "allocator \<Rightarrow> nat \<Rightarrow> SubproductTree \<Rightarrow> nat \<Rightarrow> 'a mpe_globals_scheme \<Rightarrow>
    (gf64_t list \<times> 'a mpe_globals_scheme) option" where
  "fenger_recip_pool alloc t tree R st =
    (if num_levels tree > 1 then do {
       ((pool, cursor), st) \<leftarrow> fold (\<lambda>child_lev r. r \<bind> (\<lambda>s.
           let child_deg = R div 2 ^ child_lev;
               child_stride = child_deg + 1;
               level = drop (level_data tree ! child_lev) (storage tree)
           in fold (\<lambda>i r. r \<bind> fenger_recip_child alloc t (drop (i * child_stride) level) child_deg)
             [0..<2 ^ child_lev] (Some s)))
         [1..<num_levels tree - 1] (Some ((replicate ((num_levels tree - 1) * R) 0, 0), st));
       Some (pool, st)
     }
     else Some ([], st))"

definition gf64_fenger_prepare_core ::
  "environment \<Rightarrow> (nat \<Rightarrow> host) \<Rightarrow> allocator \<Rightarrow> nat \<Rightarrow> nat \<Rightarrow> nat \<Rightarrow> 64 word \<Rightarrow> 64 word \<Rightarrow> nat \<Rightarrow> nat \<Rightarrow> nat \<Rightarrow> nat \<Rightarrow>
    64 word \<Rightarrow> 'b weights_globals_scheme \<Rightarrow> 'a mpe_globals_scheme \<Rightarrow>
    ((gf64_fenger_ctx \<times> 'b weights_globals_scheme) \<times> 'a mpe_globals_scheme) option" where
  "gf64_fenger_prepare_core getenv hosts alloc t base_x base_y firstInput firstRecovery numInputsPadded
      numRecoveryPadded numInputsReal numRecoveryReal syntheticInputBase g st = do {
     (tree_x, st) \<leftarrow> gf64_subproduct_tree_build alloc t base_x
       (fenger_x_points firstInput numInputsPadded numInputsReal syntheticInputBase) numInputsPadded st;
     (tree_y, st) \<leftarrow> gf64_subproduct_tree_build alloc t base_y
       (fenger_y_points firstRecovery numRecoveryPadded) numRecoveryPadded st;
     ((bary, g), st) \<leftarrow> gf64_barycentric_weights getenv hosts alloc t tree_x (replicate numInputsPadded 0) g st;
     let V_prime = fenger_invert_all g (replicate numInputsPadded 0) bary numInputsPadded;
     (V_at_y, st) \<leftarrow> gf64_multi_point_eval alloc t (drop (level_data tree_x ! 0) (storage tree_x))
       (num_points tree_x) tree_y (replicate numRecoveryPadded 0) st;
     let V_at_y_inv = fenger_invert_all g (replicate numRecoveryPadded 0) V_at_y numRecoveryPadded;
     (pool, st) \<leftarrow> fenger_recip_pool alloc t tree_y numRecoveryPadded st;
     Some ((\<lparr>tree_x = tree_x, tree_y = tree_y, V_prime = V_prime, V_prime_inv = bary, V_at_y_inv = V_at_y_inv,
         recip_pool = pool, recip_pool_words = (if num_levels tree_y > 1 then (num_levels tree_y - 1) * numRecoveryPadded else 0),
         ctx_N = numInputsPadded, ctx_R = numRecoveryPadded, num_inputs_real = numInputsReal,
         num_recovery_real = numRecoveryReal\<rparr>, g), st)
   }"

text \<open>A null context is None inside the result.\<close>

definition gf64_fenger_prepare ::
  "environment \<Rightarrow> (nat \<Rightarrow> host) \<Rightarrow> allocator \<Rightarrow> nat \<Rightarrow> nat \<Rightarrow> nat \<Rightarrow> 64 word \<Rightarrow> 64 word \<Rightarrow> nat \<Rightarrow> nat \<Rightarrow>
    'b weights_globals_scheme \<Rightarrow> 'a mpe_globals_scheme \<Rightarrow>
    ((gf64_fenger_ctx option \<times> 'b weights_globals_scheme) \<times> 'a mpe_globals_scheme) option" where
  "gf64_fenger_prepare getenv hosts alloc t base_x base_y firstInput firstRecovery N R g st =
    (if N = 0 \<or> R = 0 then Some ((None, g), st)
     else do {
       ((ctx, g), st) \<leftarrow> gf64_fenger_prepare_core getenv hosts alloc t base_x base_y firstInput firstRecovery N R N R 0 g st;
       Some ((Some ctx, g), st)
     })"

definition gf64_fenger_prepare_padded ::
  "environment \<Rightarrow> (nat \<Rightarrow> host) \<Rightarrow> allocator \<Rightarrow> nat \<Rightarrow> nat \<Rightarrow> nat \<Rightarrow> 64 word \<Rightarrow> 64 word \<Rightarrow> nat \<Rightarrow> nat \<Rightarrow> nat \<Rightarrow> nat \<Rightarrow>
    64 word \<Rightarrow> 'b weights_globals_scheme \<Rightarrow> 'a mpe_globals_scheme \<Rightarrow>
    ((gf64_fenger_ctx option \<times> 'b weights_globals_scheme) \<times> 'a mpe_globals_scheme) option" where
  "gf64_fenger_prepare_padded getenv hosts alloc t base_x base_y firstInput firstRecovery numInputs numRecovery
      numInputsPadded numRecoveryPadded syntheticInputBase g st =
    (if numInputs = 0 \<or> numRecovery = 0 \<or> numInputsPadded = 0 \<or> numRecoveryPadded = 0 then Some ((None, g), st)
     else do {
       ((ctx, g), st) \<leftarrow> gf64_fenger_prepare_core getenv hosts alloc t base_x base_y firstInput firstRecovery
         numInputsPadded numRecoveryPadded numInputs numRecovery syntheticInputBase g st;
       Some ((Some ctx, g), st)
     })"

definition gf64_fenger_release :: "gf64_fenger_ctx option \<Rightarrow> gf64_fenger_ctx option" where
  "gf64_fenger_release ctx =
    map_option (\<lambda>ctx. ctx\<lparr>tree_x := gf64_subproduct_tree_free (tree_x ctx),
      tree_y := gf64_subproduct_tree_free (tree_y ctx), V_prime := [], V_prime_inv := [], V_at_y_inv := [],
      recip_pool := []\<rparr>) ctx"

section \<open>The shared products\<close>

text \<open>\<open>strtol\<close> is \<open>strtoll\<close> on the modelled platform, where \<open>long\<close> has 64 bits.\<close>

definition fenger_batch_words :: "environment \<Rightarrow> nat" where
  "fenger_batch_words getenv =
    (let v = (case getenv ''PAR3_FENGER_BATCH_WORDS'' of Some e \<Rightarrow> fst (strtoll e) | None \<Rightarrow> 4);
         v = (if v < 1 then 1 else v);
         v = (if v > int FENGER_BATCH_K_MAX then int FENGER_BATCH_K_MAX else v)
     in nat v)"

definition fenger_hqc_eligible :: "nat \<Rightarrow> nat \<Rightarrow> nat \<Rightarrow> 'a poly_globals_scheme \<Rightarrow> bool" where
  "fenger_hqc_eligible len_a len_b out_len st =
    (let cap = (if gf64_hqc_max_lm_n_override st \<noteq> 0 then gf64_hqc_max_lm_n_override st else GF64_HQC_MAX_LM_N);
         max_len = (if len_a > len_b then len_a else len_b);
         full_len = 2 * max_len - 1;
         full_len = (if out_len > full_len then out_len else full_len)
     in len_a \<ge> GF64_HQC_FFT_MIN \<and> len_b \<ge> GF64_HQC_FFT_MIN \<and> out_len \<ge> GF64_HQC_FFT_MIN \<and>
        len_a \<le> cap \<and> len_b \<le> cap \<and> full_len \<le> cap)"

definition fenger_horner :: "gf64_t list \<Rightarrow> nat \<Rightarrow> gf64_t \<Rightarrow> gf64_t" where
  "fenger_horner f deg x = fold (\<lambda>i acc. gf64_mul_reference acc x XOR f ! i) (rev [0..<deg]) (f ! deg)"

definition fenger_batch_shared_mul ::
  "allocator \<Rightarrow> nat \<Rightarrow> gf64_t list list \<Rightarrow> nat \<Rightarrow> gf64_t list \<Rightarrow> nat \<Rightarrow> gf64_t list \<Rightarrow> nat \<Rightarrow> nat \<Rightarrow> nat \<Rightarrow>
    'a poly_globals_scheme \<Rightarrow> (gf64_t list list \<times> 'a poly_globals_scheme) option" where
  "fenger_batch_shared_mul alloc t outs K shared len_shared f len_f out_len scratch_words st = do {
     (outs, h) \<leftarrow>
       (if poly_method st = GF64_AVX512 then
          let full_len = len_shared + len_f - 1;
              full_len = (if full_len < out_len then out_len else full_len);
              n = next_pow2_size full_len
          in if K \<le> 8 \<and> scratch_words \<ge> 32 * n
             then gf64_addfft64_poly_mul_batch_shared_interleaved_avx512 alloc t outs K shared len_shared f len_f
               out_len scratch_words (hqc_tables st)
             else gf64_addfft64_poly_mul_batch_shared_avx512 alloc t outs K shared len_shared f len_f out_len
               scratch_words (hqc_tables st)
        else gf64_addfft64_poly_mul_batch_shared alloc t outs K shared len_shared f len_f out_len
          scratch_words (hqc_tables st));
     Some (outs, st\<lparr>hqc_tables := h\<rparr>)
   }"

definition slabs :: "nat \<Rightarrow> nat \<Rightarrow> gf64_t list \<Rightarrow> gf64_t list list" where
  "slabs K n mem = map (\<lambda>k. take n (drop (k * n) mem)) [0..<K]"

section \<open>The batched combination\<close>

text \<open>
  The two products of a node, for all words at once or word by word; the slots of the frame do not
  overlap, so the word products are calls on separate arrays. \<open>mul_words\<close> is what the caller allocated
  for the products.
\<close>

definition fenger_combine_batch ::
  "allocator \<Rightarrow> nat \<Rightarrow> gf64_t list \<Rightarrow> gf64_t list \<Rightarrow> nat \<Rightarrow> nat \<Rightarrow> nat \<Rightarrow> nat \<Rightarrow>
    gf64_t list list \<Rightarrow> gf64_t list list \<Rightarrow> gf64_t list list \<Rightarrow> gf64_t list list \<Rightarrow>
    'a poly_globals_scheme \<Rightarrow> ((gf64_t list list \<times> gf64_t list list) \<times> 'a poly_globals_scheme) option" where
  "fenger_combine_batch alloc t P_L P_R f_size N_at_lev mul_words K slot0 slot1 slot2 slot3 st =
    (if fenger_hqc_eligible (f_size + 1) f_size N_at_lev st then
       let n = 2 * f_size; sw = 32 * n
       in if mul_words < sw then None
          else do {
            (slot2, st) \<leftarrow> fenger_batch_shared_mul alloc t slot2 K P_R (f_size + 1) (concat slot0) f_size N_at_lev sw st;
            (slot3, st) \<leftarrow> fenger_batch_shared_mul alloc t slot3 K P_L (f_size + 1) (concat slot1) f_size N_at_lev sw st;
            Some ((slot2, slot3), st)
          }
     else
       fold (\<lambda>k r. r \<bind> (\<lambda>((slot2, slot3), st). do {
           (t1, st) \<leftarrow> gf64_poly_mul_internal alloc t P_R (f_size + 1) (slot0 ! k) f_size N_at_lev st;
           (t2, st) \<leftarrow> gf64_poly_mul_internal alloc t P_L (f_size + 1) (slot1 ! k) f_size N_at_lev st;
           Some ((slot2[k := t1], slot3[k := t2]), st)
         })) [0..<K] (Some ((slot2, slot3), st)))"

function fenger_interp_recurse_batch ::
  "allocator \<Rightarrow> nat \<Rightarrow> SubproductTree \<Rightarrow> nat \<Rightarrow> nat \<Rightarrow> nat \<Rightarrow> gf64_t list list \<Rightarrow> gf64_t list list \<Rightarrow> gf64_t list \<Rightarrow>
    nat \<Rightarrow> nat \<Rightarrow> 'a poly_globals_scheme \<Rightarrow> ((gf64_t list list \<times> gf64_t list) \<times> 'a poly_globals_scheme) option" where
  "fenger_interp_recurse_batch alloc t tree lev node_idx out_offset z out scratch mul_words K st =
    (let N_at_lev = num_points tree div 2 ^ lev; f_size = N_at_lev div 2
     in if lev + 1 = num_levels tree
        then Some ((fold (\<lambda>k out. out[k := (out ! k)[0 := z ! k ! out_offset]]) [0..<K] out, scratch), st)
        else if lev + 1 < num_levels tree \<and> 3 * K * N_at_lev \<le> length scratch then do {
          let child_stride = f_size + 1;
          let P_L = drop (level_data tree ! (lev + 1) + (2 * node_idx) * child_stride) (storage tree);
          let P_R = drop (level_data tree ! (lev + 1) + (2 * node_idx + 1) * child_stride) (storage tree);
          ((slot0, child_scratch), st) \<leftarrow> fenger_interp_recurse_batch alloc t tree (lev + 1) (2 * node_idx) out_offset z
            (slabs K f_size scratch) (drop (3 * K * N_at_lev) scratch) mul_words K st;
          ((slot1, child_scratch), st) \<leftarrow> fenger_interp_recurse_batch alloc t tree (lev + 1) (2 * node_idx + 1)
            (out_offset + f_size) z (slabs K f_size (drop (K * f_size) scratch)) child_scratch mul_words K st;
          ((slot2, slot3), st) \<leftarrow> fenger_combine_batch alloc t P_L P_R f_size N_at_lev mul_words K slot0 slot1
            (slabs K N_at_lev (drop (2 * K * f_size) scratch))
            (slabs K N_at_lev (drop (2 * K * f_size + K * N_at_lev) scratch)) st;
          let out = fold (\<lambda>k out. out[k := fold (\<lambda>i o'. o'[i := slot2 ! k ! i XOR slot3 ! k ! i]) [0..<N_at_lev] (out ! k)])
            [0..<K] out;
          Some ((out, concat slot0 @ concat slot1 @ concat slot2 @ concat slot3 @ child_scratch), st)
        }
        else None)"
  by pat_completeness auto
termination
  by (relation "measure (\<lambda>(alloc, t, tree, lev, node_idx, out_offset, z, out, scratch, mul_words, K, st). num_levels tree - lev)")
    (simp_all add: diff_less_mono2)

declare fenger_interp_recurse_batch.simps [simp del]

definition fenger_interp_batch ::
  "allocator \<Rightarrow> nat \<Rightarrow> SubproductTree \<Rightarrow> gf64_t list list \<Rightarrow> nat \<Rightarrow> gf64_t list list \<Rightarrow> gf64_t list \<Rightarrow> nat \<Rightarrow>
    'a poly_globals_scheme \<Rightarrow> ((gf64_t list list \<times> gf64_t list) \<times> 'a poly_globals_scheme) option" where
  "fenger_interp_batch alloc t tree z K out scratch mul_words st =
    (if num_points tree = 1 then Some ((fold (\<lambda>k out. out[k := (out ! k)[0 := z ! k ! 0]]) [0..<K] out, scratch), st)
     else fenger_interp_recurse_batch alloc t tree 0 0 0 z out scratch mul_words K st)"

section \<open>The batched walk down the recovery tree\<close>

definition fenger_recip_at :: "gf64_fenger_ctx \<Rightarrow> nat \<Rightarrow> nat \<Rightarrow> gf64_t list" where
  "fenger_recip_at ctx child_lev child_node_idx =
    (let R = ctx_R ctx in drop ((child_lev - 1) * R + child_node_idx * (R div 2 ^ child_lev)) (recip_pool ctx))"

text \<open>
  The reversed inputs. The left child clears the slab of a word that needs no division, the right
  child finds it cleared.
\<close>

definition fenger_reverse_input :: "bool \<Rightarrow> gf64_t list \<Rightarrow> nat \<Rightarrow> nat \<Rightarrow> nat \<Rightarrow> gf64_t list \<Rightarrow> gf64_t list" where
  "fenger_reverse_input left fk deg child_deg m_max rk =
    (if deg \<ge> child_deg then fold (\<lambda>i rk. rk[i := (if i \<le> deg then fk ! (deg - i) else 0)]) [0..<m_max] rk
     else if left then zero_words 0 m_max rk else rk)"

definition fenger_unreverse :: "nat \<Rightarrow> nat \<Rightarrow> nat \<Rightarrow> gf64_t list \<Rightarrow> gf64_t list" where
  "fenger_unreverse deg child_deg m_max rk =
    (if deg < child_deg then rk
     else
       let m_true = deg - child_deg + 1;
           rk = fold (\<lambda>i rk. rk[i := rk ! (m_true - 1 - i), m_true - 1 - i := rk ! i]) [0..<m_true div 2] rk
       in if m_true < m_max then zero_words m_true m_max rk else rk)"

text \<open>
  Quotients and products of one child: reversed inputs, times the reciprocal, un-reversed, times the
  child. The product fills the low \<open>child_deg\<close> words of the slabs of \<open>r\<close>.
\<close>

definition fenger_quotients ::
  "allocator \<Rightarrow> nat \<Rightarrow> bool \<Rightarrow> gf64_t list list \<Rightarrow> nat list \<Rightarrow> nat \<Rightarrow> gf64_t list \<Rightarrow> gf64_t list \<Rightarrow> nat \<Rightarrow> nat \<Rightarrow>
    gf64_t list list \<Rightarrow> gf64_t list list \<Rightarrow> 'a poly_globals_scheme \<Rightarrow>
    ((gf64_t list list \<times> gf64_t list list) \<times> 'a poly_globals_scheme) option" where
  "fenger_quotients alloc t left f deg_fs child_deg recip P sw K revq r st =
    (let m_max = child_deg;
         revq = map (\<lambda>k. fenger_reverse_input left (f ! k) (deg_fs ! k) child_deg m_max (revq ! k)) [0..<K]
     in do {
       (revq, st) \<leftarrow> fenger_batch_shared_mul alloc t revq K recip m_max (concat revq) m_max m_max sw st;
       let revq = map (\<lambda>k. fenger_unreverse (deg_fs ! k) child_deg m_max (revq ! k)) [0..<K];
       (low, st) \<leftarrow> fenger_batch_shared_mul alloc t (map (take child_deg) r) K P (child_deg + 1) (concat revq) m_max
         child_deg sw st;
       Some ((revq, map (\<lambda>k. low ! k @ drop child_deg (r ! k)) [0..<K]), st)
     })"

definition fenger_remainder :: "gf64_t list \<Rightarrow> nat \<Rightarrow> nat \<Rightarrow> gf64_t list \<Rightarrow> gf64_t list" where
  "fenger_remainder fk deg child_deg r =
    (if deg \<ge> child_deg then fold (\<lambda>i r. r[i := fk ! i XOR r ! i]) [0..<child_deg] r
     else copy_words fk child_deg r)"

definition fenger_degree :: "gf64_t list \<Rightarrow> nat \<Rightarrow> nat \<Rightarrow> nat" where
  "fenger_degree r child_deg deg =
    (if deg < child_deg then deg
     else case find (\<lambda>i. r ! i \<noteq> 0) (rev [0..<child_deg]) of None \<Rightarrow> 0 | Some i \<Rightarrow> i)"

text \<open>The remainders of all words by both children, with the shared reciprocals or word by word.\<close>

definition fenger_divide_shared ::
  "allocator \<Rightarrow> nat \<Rightarrow> gf64_fenger_ctx \<Rightarrow> nat \<Rightarrow> nat \<Rightarrow> gf64_t list list \<Rightarrow> nat list \<Rightarrow> nat \<Rightarrow> gf64_t list \<Rightarrow> gf64_t list \<Rightarrow>
    nat \<Rightarrow> nat \<Rightarrow> gf64_t list list \<Rightarrow> gf64_t list list \<Rightarrow> gf64_t list list \<Rightarrow> 'a poly_globals_scheme \<Rightarrow>
    ((gf64_t list list \<times> gf64_t list list \<times> gf64_t list list) \<times> 'a poly_globals_scheme) option" where
  "fenger_divide_shared alloc t ctx lev node_idx f deg_fs child_deg P_L P_R mul_words K r_L r_R revq st =
    (let inv_L = fenger_recip_at ctx (lev + 1) (2 * node_idx);
         inv_R = fenger_recip_at ctx (lev + 1) (2 * node_idx + 1);
         n = 2 * child_deg;
         sw = gf64_addfft64_poly_mul_recursive_scratch_words n
     in if mul_words < sw then None
        else do {
          ((revq, r_L), st) \<leftarrow> fenger_quotients alloc t True f deg_fs child_deg inv_L P_L sw K revq r_L st;
          ((revq, r_R), st) \<leftarrow> fenger_quotients alloc t False f deg_fs child_deg inv_R P_R sw K revq r_R st;
          Some ((map (\<lambda>k. fenger_remainder (f ! k) (deg_fs ! k) child_deg (r_L ! k)) [0..<K],
            map (\<lambda>k. fenger_remainder (f ! k) (deg_fs ! k) child_deg (r_R ! k)) [0..<K], revq), st)
        })"

definition fenger_divide_words ::
  "allocator \<Rightarrow> nat \<Rightarrow> gf64_t list list \<Rightarrow> nat list \<Rightarrow> nat \<Rightarrow> gf64_t list \<Rightarrow> gf64_t list \<Rightarrow> nat \<Rightarrow>
    gf64_t list list \<Rightarrow> gf64_t list list \<Rightarrow> gf64_t list list \<Rightarrow> gf64_t list list \<Rightarrow> gf64_arena_t option \<Rightarrow>
    'a mpe_globals_scheme \<Rightarrow>
    (((gf64_t list list \<times> gf64_t list list \<times> gf64_t list list \<times> gf64_t list list) \<times> gf64_arena_t option) \<times>
      'a mpe_globals_scheme) option" where
  "fenger_divide_words alloc t f deg_fs child_deg P_L P_R K r_L r_R revq q2 arena st =
    fold (\<lambda>k r. r \<bind> (\<lambda>(((r_L, r_R, revq, q2), arena), st). do {
        ((q, rL, arena), st) \<leftarrow> gf64_poly_divmod_scratch alloc t (f ! k) (deg_fs ! k) P_L child_deg (revq ! k) (r_L ! k) arena st;
        ((qR, rR, arena), st) \<leftarrow> gf64_poly_divmod_scratch alloc t (f ! k) (deg_fs ! k) P_R child_deg
          (if K = 1 then q else q2 ! k) (r_R ! k) arena st;
        Some (((r_L[k := rL], r_R[k := rR], revq[k := (if K = 1 then qR else q)], if K = 1 then q2 else q2[k := qR]), arena), st)
      })) [0..<K] (Some (((r_L, r_R, revq, q2), arena), st))"

function fenger_eval_recurse_batch ::
  "allocator \<Rightarrow> nat \<Rightarrow> gf64_fenger_ctx \<Rightarrow> SubproductTree \<Rightarrow> nat \<Rightarrow> nat \<Rightarrow> gf64_t list list \<Rightarrow> nat list \<Rightarrow>
    gf64_t list list \<Rightarrow> gf64_t list \<Rightarrow> gf64_arena_t option \<Rightarrow> nat \<Rightarrow> nat \<Rightarrow> 'a mpe_globals_scheme \<Rightarrow>
    ((gf64_t list list \<times> gf64_t list \<times> gf64_arena_t option) \<times> 'a mpe_globals_scheme) option" where
  "fenger_eval_recurse_batch alloc t ctx tree lev node_idx f deg_fs out scratch arena mul_words K st =
    (if lev + 1 = num_levels tree then
       let xj = storage tree ! (level_data tree ! lev + 2 * node_idx)
       in Some ((fold (\<lambda>k out. out[k := (out ! k)[node_idx :=
           (if deg_fs ! k = 0 then f ! k ! 0 else fenger_horner (f ! k) (deg_fs ! k) xj)]]) [0..<K] out, scratch, arena), st)
     else if lev + 1 < num_levels tree then
       let N_at_lev = num_points tree div 2 ^ lev;
           child_deg = level_degs tree ! (lev + 1);
           child_stride = child_deg + 1;
           children = level_data tree ! (lev + 1);
           P_L = drop (children + (2 * node_idx) * child_stride) (storage tree);
           P_R = drop (children + (2 * node_idx + 1) * child_stride) (storage tree);
           r_L = slabs K N_at_lev scratch;
           r_R = slabs K N_at_lev (drop (K * N_at_lev) scratch);
           revq = slabs K child_deg (drop (2 * K * N_at_lev) scratch);
           q2 = slabs K child_deg (drop (2 * K * N_at_lev + K * child_deg) scratch);
           frame = 2 * K * N_at_lev + (2 * K + 2) * child_deg;
           invs = take (2 * child_deg) (drop (2 * K * N_at_lev + 2 * K * child_deg) scratch);
           m_max = child_deg;
           any_needs = (\<exists>k\<in>set [0..<K]. deg_fs ! k \<ge> child_deg)
       in if length scratch < frame then None
          else do {
            (((r_L, r_R, revq, q2), arena), st) \<leftarrow>
              (if any_needs \<and> fenger_hqc_eligible (child_deg + 1) m_max child_deg st
               then do {
                 ((r_L, r_R, revq), st) \<leftarrow> fenger_divide_shared alloc t ctx lev node_idx f deg_fs child_deg P_L P_R mul_words K
                   r_L r_R revq st;
                 Some (((r_L, r_R, revq, q2), arena), st)
               }
               else fenger_divide_words alloc t f deg_fs child_deg P_L P_R K r_L r_R revq q2 arena st);
            let left_degs = map (\<lambda>k. fenger_degree (r_L ! k) child_deg (deg_fs ! k)) [0..<K];
            let right_degs = map (\<lambda>k. fenger_degree (r_R ! k) child_deg (deg_fs ! k)) [0..<K];
            ((out, child_scratch, arena), st) \<leftarrow> fenger_eval_recurse_batch alloc t ctx tree (lev + 1) (2 * node_idx)
              r_L left_degs out (drop frame scratch) arena mul_words K st;
            ((out, child_scratch, arena), st) \<leftarrow> fenger_eval_recurse_batch alloc t ctx tree (lev + 1) (2 * node_idx + 1)
              r_R right_degs out child_scratch arena mul_words K st;
            Some ((out, concat r_L @ concat r_R @ concat revq @ concat q2 @ invs @ child_scratch, arena), st)
          }
     else None)"
  by pat_completeness auto
termination
  by (relation "measure (\<lambda>(alloc, t, ctx, tree, lev, node_idx, f, deg_fs, out, scratch, arena, mul_words, K, st). num_levels tree - lev)")
    (simp_all add: diff_less_mono2)

declare fenger_eval_recurse_batch.simps [simp del]

section \<open>Execution\<close>

definition fenger_gather :: "gf64_fenger_ctx \<Rightarrow> gf64_t list \<Rightarrow> nat \<Rightarrow> nat \<Rightarrow> gf64_t list \<Rightarrow> gf64_t list" where
  "fenger_gather ctx inp B w wk =
    (let wk = fold (\<lambda>c wk. wk[c := inp ! (c * B + w)]) [0..<num_inputs_real ctx] wk
     in if num_inputs_real ctx < ctx_N ctx then zero_words (num_inputs_real ctx) (ctx_N ctx) wk else wk)"

definition fenger_scatter ::
  "'b gf64_globals_scheme \<Rightarrow> gf64_fenger_ctx \<Rightarrow> nat \<Rightarrow> nat \<Rightarrow> gf64_t list \<Rightarrow> gf64_t list \<Rightarrow> gf64_t list \<times> gf64_t list" where
  "fenger_scatter g ctx B w pk out =
    (if num_recovery_real ctx > 0 then
       let pk = gf64_elem_mul g pk pk (V_at_y_inv ctx) (num_recovery_real ctx)
       in (pk, fold (\<lambda>r out. out[r * B + w := pk ! r]) [0..<num_recovery_real ctx] out)
     else (pk, out))"

record fenger_buffers =
  weighted :: "gf64_t list list"
  poly_p :: "gf64_t list list"
  p_at_y :: "gf64_t list list"
  interp_scratch :: "gf64_t list"
  eval_scratch :: "gf64_t list"
  ev_arena :: "gf64_arena_t option"

definition fenger_execute_group ::
  "allocator \<Rightarrow> nat \<Rightarrow> 'b gf64_globals_scheme \<Rightarrow> gf64_fenger_ctx \<Rightarrow> gf64_t list \<Rightarrow> nat \<Rightarrow> nat \<Rightarrow> nat \<Rightarrow> nat \<Rightarrow>
    (gf64_t list \<times> fenger_buffers) \<times> 'a mpe_globals_scheme \<Rightarrow>
    ((gf64_t list \<times> fenger_buffers) \<times> 'a mpe_globals_scheme) option" where
  "fenger_execute_group alloc t g ctx inp B w_end K w0 = (\<lambda>((out, buf), st).
    let N = ctx_N ctx; R = ctx_R ctx;
        deg_p = (if num_points (tree_x ctx) > 1 then num_points (tree_x ctx) - 1 else 0);
        K_eff = (if w_end - w0 < K then w_end - w0 else K);
        ws = fold (\<lambda>k ws. ws[k := fenger_gather ctx inp B (w0 + k) (ws ! k)]) [0..<K_eff] (weighted buf);
        ws = fold (\<lambda>k ws. ws[k := gf64_elem_mul g (ws ! k) (ws ! k) (V_prime ctx) N]) [0..<K_eff] ws;
        ws = fold (\<lambda>k ws. ws[k := gf64_elem_mul g (ws ! k) (ws ! k) (V_prime_inv ctx) N]) [0..<K_eff] ws
    in do {
      ((ps, isc), st) \<leftarrow> fenger_interp_batch alloc t (tree_x ctx) ws K_eff (poly_p buf) (interp_scratch buf) (32 * N) st;
      ((ys, esc, arena), st) \<leftarrow>
        (if R = 1 \<or> deg_p \<ge> R then
           let leaves = level_data (tree_y ctx) ! (num_levels (tree_y ctx) - 1)
           in Some ((fold (\<lambda>k ys. ys[k := fold (\<lambda>j pk. pk[j := fenger_horner (ps ! k) deg_p
               (storage (tree_y ctx) ! (leaves + 2 * j))]) [0..<R] (ys ! k)]) [0..<K_eff] (p_at_y buf),
             eval_scratch buf, ev_arena buf), st)
         else fenger_eval_recurse_batch alloc t ctx (tree_y ctx) 0 0 ps (replicate K_eff deg_p) (p_at_y buf)
           (eval_scratch buf) (ev_arena buf) (4 * R) K_eff st);
      let (ys, out) = fold (\<lambda>k (ys, out). let (pk, out) = fenger_scatter g ctx B (w0 + k) (ys ! k) out in (ys[k := pk], out))
        [0..<K_eff] (ys, out);
      Some ((out, \<lparr>weighted = ws, poly_p = ps, p_at_y = ys, interp_scratch = isc, eval_scratch = esc, ev_arena = arena\<rparr>), st)
    })"

text \<open>\<open>for (w0 = w_start; w0 < w_end; w0 += K)\<close>\<close>

definition gf64_fenger_execute_batched ::
  "allocator \<Rightarrow> nat \<Rightarrow> 'b gf64_globals_scheme \<Rightarrow> gf64_fenger_ctx \<Rightarrow> gf64_t list \<Rightarrow> nat \<Rightarrow> gf64_t list \<Rightarrow> nat \<Rightarrow> nat \<Rightarrow>
    nat \<Rightarrow> 'a mpe_globals_scheme \<Rightarrow> (gf64_t list \<times> 'a mpe_globals_scheme) option" where
  "gf64_fenger_execute_batched alloc t g ctx inp B out w_start w_end K st =
    (let N = ctx_N ctx; R = ctx_R ctx;
         arena_words = 8 * (if N > R then N else R);
         (rc, arena) = gf64_arena_init arena_words;
         buf = \<lparr>weighted = replicate K (replicate N 0), poly_p = replicate K (replicate N 0),
           p_at_y = replicate K (replicate R 0), interp_scratch = replicate (8 * K * N) 0,
           eval_scratch = replicate ((6 * K + 4) * R) 0, ev_arena = Some arena\<rparr>
     in if rc \<noteq> 0 then None
        else do {
          ((out, _), st) \<leftarrow> fold (\<lambda>m r. r \<bind> fenger_execute_group alloc t g ctx inp B w_end K (w_start + m * K))
            [0..<(w_end - w_start + K - 1) div K] (Some ((out, buf), st));
          Some (out, st)
        })"

text \<open>The per-word loop; the buffers are those of the previous word.\<close>

definition fenger_execute_word ::
  "allocator \<Rightarrow> nat \<Rightarrow> 'b gf64_globals_scheme \<Rightarrow> gf64_fenger_ctx \<Rightarrow> gf64_t list \<Rightarrow> nat \<Rightarrow> nat \<Rightarrow>
    (gf64_t list \<times> gf64_t list \<times> gf64_t list \<times> gf64_t list) \<times> 'a mpe_globals_scheme \<Rightarrow>
    ((gf64_t list \<times> gf64_t list \<times> gf64_t list \<times> gf64_t list) \<times> 'a mpe_globals_scheme) option" where
  "fenger_execute_word alloc t g ctx inp B w = (\<lambda>((out, ws, ps, ys), st).
    let N = ctx_N ctx;
        deg_p = (if num_points (tree_x ctx) > 1 then num_points (tree_x ctx) - 1 else 0);
        ws = fenger_gather ctx inp B w ws;
        ws = gf64_elem_mul g ws ws (V_prime ctx) N
    in do {
      (ps, st) \<leftarrow> gf64_multi_point_interp_weights alloc t (tree_x ctx) ws (Some (V_prime_inv ctx)) ps st;
      (ys, st) \<leftarrow> gf64_multi_point_eval alloc t ps deg_p (tree_y ctx) ys st;
      let (ys, out) = fenger_scatter g ctx B w ys out;
      Some ((out, ws, ps, ys), st)
    })"

definition gf64_fenger_execute ::
  "environment \<Rightarrow> allocator \<Rightarrow> nat \<Rightarrow> 'b gf64_globals_scheme \<Rightarrow> gf64_fenger_ctx option \<Rightarrow> gf64_t list \<Rightarrow> nat \<Rightarrow>
    gf64_t list \<Rightarrow> nat \<Rightarrow> nat \<Rightarrow> 'a mpe_globals_scheme \<Rightarrow> (gf64_t list \<times> 'a mpe_globals_scheme) option" where
  "gf64_fenger_execute getenv alloc t g ctx inp B out w_start w_end st =
    (case ctx of None \<Rightarrow> Some (out, st)
     | Some ctx \<Rightarrow>
       if B = 0 \<or> w_start \<ge> w_end then Some (out, st)
       else
         let K = fenger_batch_words getenv
         in if K \<ge> 2 then gf64_fenger_execute_batched alloc t g ctx inp B out w_start w_end K st
            else do {
              ((out, _), st) \<leftarrow> fold (\<lambda>w r. r \<bind> fenger_execute_word alloc t g ctx inp B w) [w_start..<w_end]
                (Some ((out, replicate (ctx_N ctx) 0, replicate (ctx_N ctx) 0, replicate (ctx_R ctx) 0), st));
              Some (out, st)
            })"

definition gf64_fenger_matvec ::
  "environment \<Rightarrow> (nat \<Rightarrow> host) \<Rightarrow> allocator \<Rightarrow> nat \<Rightarrow> nat \<Rightarrow> nat \<Rightarrow> gf64_t list \<Rightarrow> nat \<Rightarrow> nat \<Rightarrow> gf64_t list \<Rightarrow> nat \<Rightarrow>
    64 word \<Rightarrow> 64 word \<Rightarrow> 'b weights_globals_scheme \<Rightarrow> 'a mpe_globals_scheme \<Rightarrow>
    ((gf64_t list \<times> 'b weights_globals_scheme) \<times> 'a mpe_globals_scheme) option" where
  "gf64_fenger_matvec getenv hosts alloc t base_x base_y inp N B out R firstInput firstRecovery g st =
    (if N = 0 \<or> R = 0 \<or> B = 0 then Some ((out, g), st)
     else do {
       ((ctx, g), st) \<leftarrow> gf64_fenger_prepare getenv hosts alloc t base_x base_y firstInput firstRecovery N R g st;
       (out, st) \<leftarrow> gf64_fenger_execute getenv alloc t g ctx inp B out 0 B st;
       let ctx = gf64_fenger_release ctx;
       Some ((out, g), st)
     })"

end
