(* ===== verification/Fenger_Interp.thy ===== *)
theory Fenger_Interp
  imports Fenger
begin

text \<open>
  The batched combination of gf64/gf64_fenger.c: the products with a shared operand, and the walk up
  the tree of the inputs, which leaves in each slab the combination that the single-word walk of
  gf64/gf64_mpe.c leaves.
\<close>

section \<open>Slabs\<close>

lemma length_slabs [simp]: "length (slabs K n mem) = K" by (simp add: slabs_def)

lemma nth_slabs: "k < K \<Longrightarrow> slabs K n mem ! k = take n (drop (k * n) mem)" by (simp add: slabs_def)

lemma length_slab:
  assumes "k < K" "K * n \<le> length mem"
  shows "length (slabs K n mem ! k) = n"
proof -
  have "Suc k * n \<le> K * n" using assms(1) by (intro mult_le_mono1) simp
  then have "n + k * n \<le> length mem" using assms(2) by simp
  then show ?thesis using assms(1) by (simp add: nth_slabs)
qed

lemma length_concat_slabs: "(\<And>k. k < length xs \<Longrightarrow> length (xs ! k) = n) \<Longrightarrow> length (concat xs) = length xs * n"
proof -
  assume "\<And>k. k < length xs \<Longrightarrow> length (xs ! k) = n"
  then have "map length xs = replicate (length xs) n" by (intro nth_equalityI) simp_all
  then show ?thesis by (simp add: length_concat sum_list_replicate)
qed

lemma concat_slab:
  "(\<And>k. k < length xs \<Longrightarrow> length (xs ! k) = n) \<Longrightarrow> k < length xs \<Longrightarrow> take n (drop (k * n) (concat xs)) = xs ! k"
proof (induction xs arbitrary: k)
  case (Cons x xs)
  have x: "length x = n" using Cons.prems(1) [of 0] by simp
  show ?case
  proof (cases k)
    case (Suc j)
    have "take n (drop (j * n) (concat xs)) = xs ! j"
      by (rule Cons.IH) (use Cons.prems(1) [of "Suc _"] Cons.prems(2) Suc in auto)
    then show ?thesis using x Suc by simp
  qed (simp add: x)
qed simp

lemma each_slab:
  "K \<le> length xs \<Longrightarrow> fold (\<lambda>k xs. xs[k := h k (xs ! k)]) [0..<K] xs = map (\<lambda>k. h k (xs ! k)) [0..<K] @ drop K xs"
  by (rule fold_update_map)

section \<open>Products with a shared operand\<close>

lemma yields_batch_shared_mul:
  assumes fits: "hqc_fits sw ls lf n" "0 < n" and len: "ls \<le> length shared" "K * lf \<le> length f" "K \<le> length outs"
  shows "yields alloc (fenger_batch_shared_mul alloc t outs K shared ls f lf n sw :: 'a poly_globals_scheme \<Rightarrow> _)
    (batch_products outs K shared ls f lf n)"
  unfolding returns_def
proof (intro allI impI)
  fix st :: "'a poly_globals_scheme"
  assume st: "poly_ready alloc st"
  then have ready: "hqc_ready alloc (hqc_tables st)" by (simp add: poly_ready_def)
  define N where "N = next_pow2_size (if ls + lf - 1 < n then n else ls + lf - 1)"
  have max: "max (ls + lf - 1) n = (if ls + lf - 1 < n then n else ls + lf - 1)" by (simp add: max_def)
  have wide: "hqc_fits (sw div lanes) ls lf n" if "32 * N \<le> sw"
    using fits that unfolding hqc_fits_def max N_def [symmetric] GF64_HQC_BATCH_LANES_def
    by (auto simp: less_eq_div_iff_mult_less_eq)
  have "\<exists>h. (if poly_method st = GF64_AVX512 then
        if K \<le> 8 \<and> 32 * N \<le> sw
        then gf64_addfft64_poly_mul_batch_shared_interleaved_avx512 alloc t outs K shared ls f lf n sw (hqc_tables st)
        else gf64_addfft64_poly_mul_batch_shared_avx512 alloc t outs K shared ls f lf n sw (hqc_tables st)
      else gf64_addfft64_poly_mul_batch_shared alloc t outs K shared ls f lf n sw (hqc_tables st)) =
      Some (batch_products outs K shared ls f lf n, h) \<and> hqc_ready alloc h" (is "\<exists>h. ?mul = _ \<and> _")
  proof (cases "poly_method st = GF64_AVX512 \<and> K \<le> 8 \<and> 32 * N \<le> sw")
    case True
    then show ?thesis
      using interleaved_correct [OF ready wide len, of t] fits(2) by (auto simp: GF64_HQC_BATCH_LANES_def)
  next
    case False
    obtain h0 where h0: "gf64_addfft64_poly_mul_batch_shared_core alloc t outs K shared ls f lf n sw False (hqc_tables st) =
      Some (batch_products outs K shared ls f lf n, h0)" "hqc_ready alloc h0"
      by (rule batch_shared_core_correct [OF ready fits(1) len])
    obtain h1 where h1: "gf64_addfft64_poly_mul_batch_shared_core alloc t outs K shared ls f lf n sw True (hqc_tables st) =
      Some (batch_products outs K shared ls f lf n, h1)" "hqc_ready alloc h1"
      by (rule batch_shared_core_correct [OF ready fits(1) len])
    from False h0 h1 show ?thesis
      by (auto simp: gf64_addfft64_poly_mul_batch_shared_avx512_def gf64_addfft64_poly_mul_batch_shared_def)
  qed
  then obtain h where h: "?mul = Some (batch_products outs K shared ls f lf n, h)" "hqc_ready alloc h" by blast
  have "fenger_batch_shared_mul alloc t outs K shared ls f lf n sw st =
      ?mul \<bind> (\<lambda>(outs, h). Some (outs, st\<lparr>hqc_tables := h\<rparr>))"
    unfolding fenger_batch_shared_mul_def Let_def N_def ..
  then have "fenger_batch_shared_mul alloc t outs K shared ls f lf n sw st =
      Some (batch_products outs K shared ls f lf n, st\<lparr>hqc_tables := h\<rparr>)" by (simp only: h(1) Option.bind.simps prod.case)
  then show "\<exists>v st'. fenger_batch_shared_mul alloc t outs K shared ls f lf n sw st = Some (v, st') \<and>
      v = batch_products outs K shared ls f lf n \<and> poly_ready alloc st'"
    using st h(2) by (simp add: poly_ready_def)
qed

lemma shared_products:
  assumes "length outs = K" "length fs = K" "\<And>k. k < K \<Longrightarrow> length (fs ! k) = lf"
  shows "batch_products outs K shared ls (concat fs) lf n = map (\<lambda>k. product_words shared ls (fs ! k) lf n) [0..<K]"
proof -
  have "product_words shared ls (drop (k * lf) (concat fs)) lf n = product_words shared ls (fs ! k) lf n" if "k < K" for k
    using concat_slab [of fs lf k] assms that by (simp add: product_words_def)
  then show ?thesis using assms(1) by (simp add: batch_products_def)
qed

lemma yields_shared_slabs:
  assumes "hqc_fits sw ls lf n" "0 < n" "ls \<le> length shared" "length outs = K" "length fs = K"
    and "\<And>k. k < K \<Longrightarrow> length (fs ! k) = lf"
  shows "yields alloc (fenger_batch_shared_mul alloc t outs K shared ls (concat fs) lf n sw :: 'a poly_globals_scheme \<Rightarrow> _)
    (map (\<lambda>k. product_words shared ls (fs ! k) lf n) [0..<K])"
proof -
  have len: "length (concat fs) = K * lf" using length_concat_slabs [of fs lf] assms(5,6) by simp
  have "yields alloc (fenger_batch_shared_mul alloc t outs K shared ls (concat fs) lf n sw :: 'a poly_globals_scheme \<Rightarrow> _)
    (batch_products outs K shared ls (concat fs) lf n)"
    by (rule yields_batch_shared_mul) (use assms len in simp_all)
  then show ?thesis by (simp only: shared_products [OF assms(4-6)])
qed

text \<open>A test of the state decides between two ways to the same result.\<close>

lemma returns_if:
  assumes "\<And>st :: 'a poly_globals_scheme. poly_ready alloc st \<Longrightarrow> c st \<Longrightarrow> H" "H \<Longrightarrow> returns alloc A P" "returns alloc B P"
  shows "returns alloc (\<lambda>st :: 'a poly_globals_scheme. if c st then A st else B st) P"
  using assms by (auto simp: returns_def)

lemma eligible_bounds:
  assumes "poly_ready alloc st" "fenger_hqc_eligible m k n st"
  shows "96 \<le> m \<and> 96 \<le> k \<and> 96 \<le> n \<and> n \<le> 2 ^ 20 \<and> 2 * max m k - 1 \<le> 2 ^ 20"
  using assms
  by (auto simp: fenger_hqc_eligible_def poly_ready_def GF64_HQC_FFT_MIN_def GF64_HQC_MAX_LM_N_def Let_def
      split: if_splits)

lemma next_pow2_size_exact: "next_pow2_size (2 ^ L) = 2 ^ L"
proof -
  obtain M where "next_pow2_size (2 ^ L) = 2 ^ M" "(2::nat) ^ L \<le> 2 ^ M" by (rule next_pow2_size_exp)
  with next_pow2_size_le [of "2 ^ L" L] show ?thesis by simp
qed

section \<open>The combination of a node\<close>

lemma returns_words:
  assumes "\<And>k s. \<lbrakk>k < K; P k s\<rbrakk> \<Longrightarrow> returns alloc (\<lambda>st. F k (s, st)) (P (Suc k))" "P 0 s"
  shows "returns alloc (\<lambda>st. fold (\<lambda>k r. r \<bind> F k) [0..<K] (Some (s, st))) (P K)"
  by (rule returns_fold_upt [where P = P]) (use assms in auto)

lemma map_upt_Suc_update:
  assumes "k < K" "length xs = K"
  shows "(map h [0..<k] @ drop k xs)[k := h k] = map h [0..<Suc k] @ drop (Suc k) xs"
  using assms by (simp add: list_update_append upd_conv_take_nth_drop drop_Suc_Cons flip: Cons_nth_drop_Suc)

lemma returns_combine:
  assumes c: "c = 2 ^ j" and P: "c < length PL" "c < length PR" and mul: "64 * c \<le> mul_words"
    and slots: "length u0 = K" "length u1 = K" "length u2 = K" "length u3 = K"
    and words: "\<And>k. k < K \<Longrightarrow> length (u0 ! k) = c" "\<And>k. k < K \<Longrightarrow> length (u1 ! k) = c"
  shows "yields alloc (fenger_combine_batch alloc t PL PR c (2 * c) mul_words K u0 u1 u2 u3 :: 'a poly_globals_scheme \<Rightarrow> _)
    (map (\<lambda>k. product_words PR (Suc c) (u0 ! k) c (2 * c)) [0..<K], map (\<lambda>k. product_words PL (Suc c) (u1 ! k) c (2 * c)) [0..<K])"
    (is "yields alloc _ (?A K, ?B K)")
proof -
  have sw: "\<not> mul_words < 32 * (2 * c)" using mul by simp
  have n: "max (Suc c + c - 1) (2 * c) = 2 ^ Suc j" "next_pow2_size (2 ^ Suc j) = 2 ^ Suc j"
    using next_pow2_size_exact [of "Suc j"] by (simp_all add: c)
  have shared: "yields alloc (\<lambda>st :: 'a poly_globals_scheme. do {
        (slot2, st) \<leftarrow> fenger_batch_shared_mul alloc t u2 K PR (c + 1) (concat u0) c (2 * c) (32 * (2 * c)) st;
        (slot3, st) \<leftarrow> fenger_batch_shared_mul alloc t u3 K PL (c + 1) (concat u1) c (2 * c) (32 * (2 * c)) st;
        Some ((slot2, slot3), st) }) (?A K, ?B K)"
    if "2 * Suc c - 1 \<le> 2 ^ 20"
  proof -
    have "hqc_fits (32 * (2 * c)) (Suc c) c (2 * c)"
      unfolding hqc_fits_def n using that by (simp add: c)
    note mul = yields_shared_slabs [OF this]
    have m2: "yields alloc (fenger_batch_shared_mul alloc t u2 K PR (c + 1) (concat u0) c (2 * c) (32 * (2 * c))
        :: 'a poly_globals_scheme \<Rightarrow> _) (?A K)"
      unfolding Suc_eq_plus1 [symmetric] by (rule mul) (use c P slots words in simp_all)
    have m3: "yields alloc (fenger_batch_shared_mul alloc t u3 K PL (c + 1) (concat u1) c (2 * c) (32 * (2 * c))
        :: 'a poly_globals_scheme \<Rightarrow> _) (?B K)"
      unfolding Suc_eq_plus1 [symmetric] by (rule mul) (use c P slots words in simp_all)
    show ?thesis
      by (rule yields_bind [OF m2], rule yields_bind [OF m3], rule returns_return, rule refl)
  qed
  have per_word: "yields alloc (\<lambda>st :: 'a poly_globals_scheme. fold (\<lambda>k r. r \<bind> (\<lambda>((slot2, slot3), st). do {
           (t1, st) \<leftarrow> gf64_poly_mul_internal alloc t PR (c + 1) (u0 ! k) c (2 * c) st;
           (t2, st) \<leftarrow> gf64_poly_mul_internal alloc t PL (c + 1) (u1 ! k) c (2 * c) st;
           Some ((slot2[k := t1], slot3[k := t2]), st)
         })) [0..<K] (Some ((u2, u3), st))) (?A K, ?B K)"
  proof -
    let ?P = "\<lambda>k s. s = (?A k @ drop k u2, ?B k @ drop k u3)"
    have "returns alloc (\<lambda>st :: 'a poly_globals_scheme. fold (\<lambda>k r. r \<bind> (\<lambda>((slot2, slot3), st). do {
           (t1, st) \<leftarrow> gf64_poly_mul_internal alloc t PR (c + 1) (u0 ! k) c (2 * c) st;
           (t2, st) \<leftarrow> gf64_poly_mul_internal alloc t PL (c + 1) (u1 ! k) c (2 * c) st;
           Some ((slot2[k := t1], slot3[k := t2]), st)
         })) [0..<K] (Some ((u2, u3), st))) (?P K)"
    proof (rule returns_words [where P = ?P])
      fix k and s :: "gf64_t list list \<times> gf64_t list list"
      assume k: "k < K" and s: "s = (?A k @ drop k u2, ?B k @ drop k u3)"
      have m1: "yields alloc (gf64_poly_mul_internal alloc t PR (c + 1) (u0 ! k) c (2 * c) :: 'a poly_globals_scheme \<Rightarrow> _)
          (product_words PR (Suc c) (u0 ! k) c (2 * c))"
        using yields_internal [of "Suc c" PR c "u0 ! k" alloc t "2 * c"] P words k by simp
      have m2: "yields alloc (gf64_poly_mul_internal alloc t PL (c + 1) (u1 ! k) c (2 * c) :: 'a poly_globals_scheme \<Rightarrow> _)
          (product_words PL (Suc c) (u1 ! k) c (2 * c))"
        using yields_internal [of "Suc c" PL c "u1 ! k" alloc t "2 * c"] P words k by simp
      show "returns alloc (\<lambda>st :: 'a poly_globals_scheme. (\<lambda>((slot2, slot3), st). do {
           (t1, st) \<leftarrow> gf64_poly_mul_internal alloc t PR (c + 1) (u0 ! k) c (2 * c) st;
           (t2, st) \<leftarrow> gf64_poly_mul_internal alloc t PL (c + 1) (u1 ! k) c (2 * c) st;
           Some ((slot2[k := t1], slot3[k := t2]), st)
         }) (s, st)) (?P (Suc k))"
        unfolding s prod.case
        by (rule yields_bind [OF m1], rule yields_bind [OF m2], rule returns_return)
          (rule arg_cong2 [where f = Pair], (rule map_upt_Suc_update [OF k], rule slots)+)
    qed simp
    then show ?thesis using slots by simp
  qed
  show ?thesis
    unfolding fenger_combine_batch_def Let_def if_not_P [OF sw]
    by (rule returns_if [where H = "2 * Suc c - 1 \<le> 2 ^ 20"])
      (use eligible_bounds shared per_word in \<open>fastforce simp: max_def\<close>)+
qed

section \<open>The walk\<close>

lemma xor_slabs:
  assumes "K \<le> length out" "\<And>k. k < K \<Longrightarrow> n \<le> length (out ! k)"
  shows "fold (\<lambda>k out. out[k := fold (\<lambda>i o'. o'[i := map (\<lambda>k. to_coeffs n (F k)) [0..<K] ! k ! i XOR
        map (\<lambda>k. to_coeffs n (G k)) [0..<K] ! k ! i]) [0..<n] (out ! k)]) [0..<K] out =
    map (\<lambda>k. to_coeffs n (F k + G k) @ drop n (out ! k)) [0..<K] @ drop K out"
  using each_slab [OF assms(1), of "\<lambda>k o'. fold (\<lambda>i o'. o'[i := map (\<lambda>k. to_coeffs n (F k)) [0..<K] ! k ! i XOR
    map (\<lambda>k. to_coeffs n (G k)) [0..<K] ! k ! i]) [0..<n] o'"] xor_words [OF assms(2)]
  by (simp cong: map_cong)

lemma returns_interp_recurse_batch:
  assumes T: "tree_of pts L T" and z: "\<And>k. k < K \<Longrightarrow> length (z ! k) = 2 ^ L"
    and node: "lev \<le> L" "i < 2 ^ lev" and n: "n = 2 ^ (L - lev)" and off: "off = i * n"
    and len: "K \<le> length out" "\<And>k. k < K \<Longrightarrow> n \<le> length (out ! k)" "6 * K * n \<le> length scratch" and mul: "32 * n \<le> mul_words"
  shows "returns alloc (fenger_interp_recurse_batch alloc t T lev i off z out scratch mul_words K :: 'a poly_globals_scheme \<Rightarrow> _)
    (\<lambda>(out', scratch'). out' = map (\<lambda>k. to_coeffs n (combination (node_points pts L lev i) (node_points (z ! k) L lev i)) @
        drop n (out ! k)) [0..<K] @ drop K out \<and> length scratch' = length scratch)"
  using node n off len mul
proof (induction "L - lev" arbitrary: lev i n off out scratch)
  case 0
  note fields = tree_of_fields [OF T]
  have L: "lev = L" "n = 1" "i < 2 ^ L" using 0 by simp_all
  have "(out ! k)[0 := z ! k ! off] = to_coeffs n (combination (node_points pts L lev i) (node_points (z ! k) L lev i)) @ drop n (out ! k)"
    if "k < K" for k
  proof -
    have "to_coeffs n (combination (node_points pts L lev i) (node_points (z ! k) L lev i)) = [z ! k ! i]"
      using L node_points_leaf [OF fields(1) L(3)] node_points_leaf [OF z [OF that] L(3)] by (simp add: to_coeffs_def cf_mono)
    then show ?thesis using 0(7) [OF that] L 0(5) by (cases "out ! k") simp_all
  qed
  then have "fenger_interp_recurse_batch alloc t T lev i off z out scratch mul_words K st =
      Some ((map (\<lambda>k. to_coeffs n (combination (node_points pts L lev i) (node_points (z ! k) L lev i)) @
        drop n (out ! k)) [0..<K] @ drop K out, scratch), st)"
    for st :: "'a poly_globals_scheme"
    using L fields(2) each_slab [OF 0(6), of "\<lambda>k o'. o'[0 := z ! k ! off]"]
    by (subst fenger_interp_recurse_batch.simps) (simp add: Let_def)
  then show ?case by (simp add: returns_def)
next
  case (Suc d)
  note fields = tree_of_fields [OF T]
  define c where "c = (2::nat) ^ (L - Suc lev)"
  have lev: "Suc lev \<le> L" "lev < L" "d = L - Suc lev" using Suc.hyps(2) by simp_all
  have n: "n = 2 * c" unfolding c_def Suc.prems(3) using lev by (simp flip: power_Suc add: Suc_diff_Suc)
  have children: "2 * i < 2 ^ Suc lev" "2 * i + 1 < 2 ^ Suc lev" using Suc.prems(2) by simp_all
  have size: "num_points T div 2 ^ lev = n" "n div 2 = c"
    using lev n by (simp_all add: fields(3) Suc.prems(3) power_diff)
  have off: "off = 2 * i * c" "off + c = (2 * i + 1) * c" by (simp_all add: Suc.prems(4) n)
  have room: "6 * K * n \<le> length scratch" by (rule Suc.prems(7))
  have Kc: "K * n = 2 * (K * c)" by (simp add: n)
  define PL PR where "PL = drop (node_at L (Suc lev) (2 * i)) (storage T)"
    and "PR = drop (node_at L (Suc lev) (2 * i + 1)) (storage T)"
  note PL = tree_node [OF T lev(1) children(1) c_def PL_def] and PR = tree_node [OF T lev(1) children(2) c_def PR_def]
  define F where "F j k = combination (node_points pts L (Suc lev) j) (node_points (z ! k) L (Suc lev) j)" for j k
  have lens: "length (node_points pts L (Suc lev) j) = c" "k < K \<Longrightarrow> length (node_points (z ! k) L (Suc lev) j) = c"
    if "j < 2 ^ Suc lev" for j k
    using length_node_points [OF fields(1) lev(1) that] length_node_points [OF z lev(1) that] by (simp_all add: c_def)
  have F: "below c (F j k)" if "j < 2 ^ Suc lev" "k < K" for j k
    using below_combination [of "node_points pts L (Suc lev) j" "node_points (z ! k) L (Suc lev) j"]
      lens(1) [OF that(1)] lens(2) [OF that] by (simp add: F_def)
  define slot where "slot j = map (\<lambda>k. to_coeffs c (F j k)) [0..<K]" for j
  define slot2 slot3 where "slot2 = slabs K n (drop (2 * K * c) scratch)" and
    "slot3 = slabs K n (drop (2 * K * c + K * n) scratch)"
  have IH: "returns alloc (fenger_interp_recurse_batch alloc t T (Suc lev) j (j * c) z (slabs K c mem) scratch' mul_words K
      :: 'a poly_globals_scheme \<Rightarrow> _) (\<lambda>(out'', scratch''). out'' = slot j \<and> length scratch'' = length scratch')"
    if "j < 2 ^ Suc lev" "K * c \<le> length mem" "6 * K * c \<le> length scratch'" for j mem scratch'
  proof (rule returns_weaken [OF Suc.hyps(1) [OF lev(3) lev(1) that(1) c_def refl]])
    show "\<And>k. k < K \<Longrightarrow> c \<le> length (slabs K c mem ! k)" using length_slab [OF _ that(2)] by simp
    show "32 * c \<le> mul_words" using Suc.prems(8) n by simp
    have "to_coeffs c (F j k) @ drop c (slabs K c mem ! k) = to_coeffs c (F j k)" if "k < K" for k
      using length_slab [OF that \<open>K * c \<le> length mem\<close>] by simp
    then have "map (\<lambda>k. to_coeffs c (F j k) @ drop c (slabs K c mem ! k)) [0..<K] @ drop K (slabs K c mem) = slot j"
      by (simp add: slot_def)
    then show "(case v of (out'', scratch'') \<Rightarrow> out'' = slot j \<and> length scratch'' = length scratch')"
      if "case v of (out', scratch'') \<Rightarrow> out' = map (\<lambda>k. to_coeffs c (combination (node_points pts L (Suc lev) j)
        (node_points (z ! k) L (Suc lev) j)) @ drop c (slabs K c mem ! k)) [0..<K] @ drop K (slabs K c mem) \<and>
        length scratch'' = length scratch'" for v
      using that by (auto simp: F_def)
  qed (use that in simp_all)
  define W2 W3 where "W2 k = vanish (node_points pts L (Suc lev) (2 * i + 1)) * F (2 * i) k"
    and "W3 k = vanish (node_points pts L (Suc lev) (2 * i)) * F (2 * i + 1) k" for k
  have poly_slot: "poly (slot j ! k) c = F j k" if "j < 2 ^ Suc lev" "k < K" for j k
    using poly_filled_slot [OF F [OF that], of "[]"] poly_filled_slot [OF F [OF that], of "replicate c 0"] that(2)
    by (simp add: slot_def)
  have slot_len: "length (slot j) = K" "k < K \<Longrightarrow> length (slot j ! k) = c" for j k by (simp_all add: slot_def)
  have mul: "64 * c \<le> mul_words" using Suc.prems(8) n by simp
  have products: "yields alloc (fenger_combine_batch alloc t PL PR c n mul_words K (slot (2 * i)) (slot (2 * i + 1)) slot2 slot3
      :: 'a poly_globals_scheme \<Rightarrow> _) (map (\<lambda>k. to_coeffs n (W2 k)) [0..<K], map (\<lambda>k. to_coeffs n (W3 k)) [0..<K])"
  proof -
    have "map (\<lambda>k. product_words PR (Suc c) (slot (2 * i) ! k) c n) [0..<K] = map (\<lambda>k. to_coeffs n (W2 k)) [0..<K]"
      "map (\<lambda>k. product_words PL (Suc c) (slot (2 * i + 1) ! k) c n) [0..<K] = map (\<lambda>k. to_coeffs n (W3 k)) [0..<K]"
      using poly_slot children
      by (auto simp: product_words_def PL(2) PR(2) W2_def W3_def simp del: of_coeffs_take)
    moreover have "yields alloc (fenger_combine_batch alloc t PL PR c (2 * c) mul_words K (slot (2 * i)) (slot (2 * i + 1)) slot2 slot3
      :: 'a poly_globals_scheme \<Rightarrow> _) (map (\<lambda>k. product_words PR (Suc c) (slot (2 * i) ! k) c (2 * c)) [0..<K],
        map (\<lambda>k. product_words PL (Suc c) (slot (2 * i + 1) ! k) c (2 * c)) [0..<K])"
      by (rule returns_combine [OF c_def PL(1) PR(1) mul]) (simp_all add: slot_len slot2_def slot3_def)
    ultimately show ?thesis by (simp only: n)
  qed
  have run: "fenger_interp_recurse_batch alloc t T lev i off z out scratch mul_words K st =
      fenger_interp_recurse_batch alloc t T (Suc lev) (2 * i) (2 * i * c) z (slabs K c scratch)
        (drop (3 * K * n) scratch) mul_words K st \<bind> (\<lambda>((slot0, child_scratch), st).
      fenger_interp_recurse_batch alloc t T (Suc lev) (2 * i + 1) ((2 * i + 1) * c) z (slabs K c (drop (K * c) scratch))
        child_scratch mul_words K st \<bind> (\<lambda>((slot1, child_scratch), st).
      fenger_combine_batch alloc t PL PR c n mul_words K slot0 slot1 slot2 slot3 st \<bind> (\<lambda>((slot2, slot3), st).
        Some ((fold (\<lambda>k out. out[k := fold (\<lambda>i o'. o'[i := slot2 ! k ! i XOR slot3 ! k ! i]) [0..<n] (out ! k)]) [0..<K] out,
          concat slot0 @ concat slot1 @ concat slot2 @ concat slot3 @ child_scratch), st))))"
    for st :: "'a poly_globals_scheme"
    unfolding off(2) [symmetric] unfolding off(1) [symmetric]
    using lev(2) room
    by (subst fenger_interp_recurse_batch.simps)
      (simp add: Let_def size fields(2) fields(5) [OF lev(1)] PL_def PR_def slot2_def slot3_def c_def [symmetric]
        node_at_def add.left_commute)
  have result: "combination (node_points pts L lev i) (node_points (z ! k) L lev i) = W2 k + W3 k" if "k < K" for k
    unfolding node_points_split [OF lev(2)] using lens(1) [OF children(1)] lens(2) [OF children(1) that]
    by (subst combination_append) (simp_all add: F_def W2_def W3_def mult.commute)
  have conc: "length (concat (slot j)) = K * c" for j using length_concat_slabs [of "slot j" c] slot_len by simp
  have conc2: "length (concat (map (\<lambda>k. to_coeffs n (G k)) [0..<K])) = K * n" for G
    using length_concat_slabs [of "map (\<lambda>k. to_coeffs n (G k)) [0..<K]" n] by simp
  let ?Post = "\<lambda>(out', scratch'). out' = map (\<lambda>k. to_coeffs n (combination (node_points pts L lev i) (node_points (z ! k) L lev i)) @
        drop n (out ! k)) [0..<K] @ drop K out \<and> length scratch' = length scratch"
  have last: "returns alloc (\<lambda>st :: 'a poly_globals_scheme.
      fenger_combine_batch alloc t PL PR c n mul_words K (slot (2 * i)) (slot (2 * i + 1)) slot2 slot3 st \<bind> (\<lambda>((slot2, slot3), st).
        Some ((fold (\<lambda>k out. out[k := fold (\<lambda>i o'. o'[i := slot2 ! k ! i XOR slot3 ! k ! i]) [0..<n] (out ! k)]) [0..<K] out,
          concat (slot (2 * i)) @ concat (slot (2 * i + 1)) @ concat slot2 @ concat slot3 @ cs), st))) ?Post"
    if "length cs = length scratch - 3 * K * n" for cs
  proof (rule returns_bind_pair [OF returns_weaken [OF products]])
    fix a b
    assume ab: "a = map (\<lambda>k. to_coeffs n (W2 k)) [0..<K] \<and> b = map (\<lambda>k. to_coeffs n (W3 k)) [0..<K]"
    have "3 * K * n \<le> length scratch" using room by simp
    moreover have "length (concat (slot (2 * i)) @ concat (slot (2 * i + 1)) @ concat a @ concat b @ cs) =
        K * c + (K * c + (K * n + (K * n + length cs)))"
      unfolding conjunct1 [OF ab] conjunct2 [OF ab] length_append conc conc2 ..
    moreover have "3 * K * n = 3 * (K * n)" by simp
    ultimately have "length (concat (slot (2 * i)) @ concat (slot (2 * i + 1)) @ concat a @ concat b @ cs) = length scratch"
      using that Kc by linarith
    then show "returns alloc (\<lambda>st :: 'a poly_globals_scheme. Some ((fold (\<lambda>k out. out[k := fold (\<lambda>i o'. o'[i := a ! k ! i XOR b ! k ! i]) [0..<n] (out ! k)]) [0..<K] out,
          concat (slot (2 * i)) @ concat (slot (2 * i + 1)) @ concat a @ concat b @ cs), st)) ?Post"
      using ab xor_slabs [OF Suc.prems(5,6), of W2 W3] result by (intro returns_return) simp
  qed auto
  show ?case
  proof (rule returns_cong [OF _ run], rule returns_bind_pair [OF IH [OF children(1)]])
    show "K * c \<le> length scratch" "6 * K * c \<le> length (drop (3 * K * n) scratch)" using room by (simp_all add: n)
    fix x0 cs :: "gf64_t list list" and cs' :: "gf64_t list"
    assume *: "x0 = slot (2 * i) \<and> length cs' = length (drop (3 * K * n) scratch)"
    then have cs: "length cs' = length scratch - 3 * K * n" by simp
    show "returns alloc (\<lambda>st :: 'a poly_globals_scheme. fenger_interp_recurse_batch alloc t T (Suc lev) (2 * i + 1) ((2 * i + 1) * c) z (slabs K c (drop (K * c) scratch))
        cs' mul_words K st \<bind> (\<lambda>((slot1, child_scratch), st).
      fenger_combine_batch alloc t PL PR c n mul_words K x0 slot1 slot2 slot3 st \<bind> (\<lambda>((slot2, slot3), st).
        Some ((fold (\<lambda>k out. out[k := fold (\<lambda>i o'. o'[i := slot2 ! k ! i XOR slot3 ! k ! i]) [0..<n] (out ! k)]) [0..<K] out,
          concat x0 @ concat slot1 @ concat slot2 @ concat slot3 @ child_scratch), st)))) ?Post"
      unfolding conjunct1 [OF *]
    proof (rule returns_bind_pair [OF IH [OF children(2)]])
      show "K * c \<le> length (drop (K * c) scratch)" "6 * K * c \<le> length cs'" using room cs by (simp_all add: n)
      fix x1 :: "gf64_t list list" and cs'' :: "gf64_t list"
      assume **: "x1 = slot (2 * i + 1) \<and> length cs'' = length cs'"
      show "returns alloc (\<lambda>st :: 'a poly_globals_scheme. fenger_combine_batch alloc t PL PR c n mul_words K (slot (2 * i)) x1 slot2 slot3 st \<bind> (\<lambda>((slot2, slot3), st).
        Some ((fold (\<lambda>k out. out[k := fold (\<lambda>i o'. o'[i := slot2 ! k ! i XOR slot3 ! k ! i]) [0..<n] (out ! k)]) [0..<K] out,
          concat (slot (2 * i)) @ concat x1 @ concat slot2 @ concat slot3 @ cs''), st))) ?Post"
        unfolding conjunct1 [OF **] by (rule last) (use ** cs in simp)
    qed
  qed
qed

lemma returns_interp_batch:
  assumes T: "tree_of pts L T" and z: "\<And>k. k < K \<Longrightarrow> length (z ! k) = 2 ^ L"
    and len: "K \<le> length out" "\<And>k. k < K \<Longrightarrow> length (out ! k) = 2 ^ L" "6 * K * 2 ^ L \<le> length scratch" and mul: "32 * 2 ^ L \<le> mul_words"
  shows "returns alloc (fenger_interp_batch alloc t T z K out scratch mul_words :: 'a poly_globals_scheme \<Rightarrow> _)
    (\<lambda>(out', scratch'). out' = map (\<lambda>k. to_coeffs (2 ^ L) (combination pts (z ! k))) [0..<K] @ drop K out \<and>
      length scratch' = length scratch)"
proof -
  note fields = tree_of_fields [OF T]
  have walk: "returns alloc (fenger_interp_recurse_batch alloc t T 0 0 0 z out scratch mul_words K :: 'a poly_globals_scheme \<Rightarrow> _)
    (\<lambda>(out', scratch'). out' = map (\<lambda>k. to_coeffs (2 ^ L) (combination (node_points pts L 0 0) (node_points (z ! k) L 0 0)) @
        drop (2 ^ L) (out ! k)) [0..<K] @ drop K out \<and> length scratch' = length scratch)"
    by (rule returns_interp_recurse_batch [OF T z]) (use len mul in simp_all)
  have res: "map (\<lambda>k. to_coeffs (2 ^ L) (combination (node_points pts L 0 0) (node_points (z ! k) L 0 0)) @
        drop (2 ^ L) (out ! k)) [0..<K] = map (\<lambda>k. to_coeffs (2 ^ L) (combination pts (z ! k))) [0..<K]"
    by (rule map_cong [OF refl]) (use len(2) in \<open>simp add: node_points_root [OF fields(1)] node_points_root [OF z]\<close>)
  show ?thesis
  proof (cases "L = 0")
    case True
    obtain x where x: "pts = [x]" using fields(1) True by (auto simp: length_Suc_conv)
    have "(out ! k)[0 := z ! k ! 0] = to_coeffs (2 ^ L) (combination pts (z ! k))" if "k < K" for k
    proof -
      have "length (z ! k) = 1" "length (out ! k) = 1" using z [OF that] len(2) [OF that] True by simp_all
      then obtain y w where "z ! k = [y]" "out ! k = [w]" by (auto simp: length_Suc_conv)
      then show ?thesis using True by (simp add: x to_coeffs_def cf_mono)
    qed
    then show ?thesis
      using True each_slab [OF len(1), of "\<lambda>k o'. o'[0 := z ! k ! 0]"]
      by (intro returns_cong [OF returns_return, of _ "(map (\<lambda>k. to_coeffs (2 ^ L) (combination pts (z ! k))) [0..<K] @ drop K out, scratch)"])
        (simp_all add: fenger_interp_batch_def fields(3))
  next
    case False
    then show ?thesis
      by (intro returns_cong [OF walk [unfolded res]]) (simp add: fenger_interp_batch_def fields(3))
  qed
qed

end
