(* ===== verification/Fenger_Eval.thy ===== *)
theory Fenger_Eval
  imports Fenger_Interp
begin

text \<open>
  The batched walk down the recovery tree of gf64/gf64_fenger.c: the quotients from the reciprocals
  that the context keeps, the remainders, and the values of every word at every point of the tree.
\<close>

section \<open>Degrees and values of remainders\<close>

lemma find_rev_below:
  "find P (rev [0..<n]) = None \<longleftrightarrow> (\<forall>i<n. \<not> P i)"
  "find P (rev [0..<n]) = Some k \<Longrightarrow> k < n \<and> P k \<and> (\<forall>i. k < i \<longrightarrow> i < n \<longrightarrow> \<not> P i)"
proof -
  show "find P (rev [0..<n]) = None \<longleftrightarrow> (\<forall>i<n. \<not> P i)" by (auto simp: find_None_iff)
  show "find P (rev [0..<n]) = Some k \<Longrightarrow> k < n \<and> P k \<and> (\<forall>i. k < i \<longrightarrow> i < n \<longrightarrow> \<not> P i)"
  proof (induction n)
    case (Suc n)
    then show ?case by (cases "P n") (auto simp: less_Suc_eq)
  qed simp
qed

lemma fenger_degree_spec:
  assumes c: "0 < c" "c \<le> length r" and low: "below (Suc deg) (poly r c)"
  shows "fenger_degree r c deg < c" "poly r (Suc (fenger_degree r c deg)) = poly r c"
proof -
  have above: "poly r (Suc d) = poly r c" if "d < c" "\<And>i. d < i \<Longrightarrow> i < c \<Longrightarrow> r ! i = 0" for d
    by (rule ser_eqI) (use that c in \<open>auto simp: poly_trunc coef_def simp del: of_coeffs_take\<close>)
  have "fenger_degree r c deg < c \<and> poly r (Suc (fenger_degree r c deg)) = poly r c"
  proof (cases "deg < c")
    case True
    have "r ! i = 0" if "deg < i" "i < c" for i
    proof -
      have "cf (poly r c) i = 0" using low that by (simp add: below_def)
      then show ?thesis using that c by (simp add: poly_trunc coef_def gf_eq_iff del: of_coeffs_take)
    qed
    then show ?thesis using True above [OF True] by (simp add: fenger_degree_def)
  next
    case False
    show ?thesis
    proof (cases "find (\<lambda>i. r ! i \<noteq> 0) (rev [0..<c])")
      case None
      then have "\<forall>i<c. r ! i = 0" by (simp only: find_rev_below(1) not_not)
      then show ?thesis using False None c(1) above [of 0] by (simp add: fenger_degree_def)
    next
      case (Some k)
      from find_rev_below(2) [OF this] False Some above [of k] show ?thesis by (simp add: fenger_degree_def)
    qed
  qed
  then show "fenger_degree r c deg < c" "poly r (Suc (fenger_degree r c deg)) = poly r c" by blast+
qed

text \<open>A slab that holds the remainder of \<open>f\<close> by the polynomial of the points \<open>xs\<close>.\<close>

definition remainder_ok :: "gf64_t list \<Rightarrow> gf64_t list \<Rightarrow> nat \<Rightarrow> gf64_t list \<Rightarrow> bool" where
  "remainder_ok xs f deg r \<longleftrightarrow> length r = 2 * length xs \<and> fenger_degree r (length xs) deg < length xs \<and>
    (\<forall>x\<in>set xs. point_value r (fenger_degree r (length xs) deg) x = point_value f deg x)"

lemma remainder_okI:
  assumes div: "divides_with (poly f (Suc deg)) (vanish xs) (length xs) Q (poly r (length xs))" "below (Suc deg - length xs) Q"
    and xs: "0 < length xs" "length r = 2 * length xs"
  shows "remainder_ok xs f deg r"
proof -
  have "below (Suc deg) (poly r (length xs))"
  proof (cases "deg < length xs")
    case True
    then have "Q = 0" using div(2) by (simp add: below_def ser_eq_iff)
    then have "poly r (length xs) = poly f (Suc deg)" using div(1) by (simp add: divides_with_def)
    then show ?thesis by (simp only: below_poly)
  qed (intro below_poly, simp)
  note d = fenger_degree_spec [OF xs(1) _ this]
  have c: "length xs \<le> length r" using xs(2) by simp
  have "point_value r (fenger_degree r (length xs) deg) x = point_value f deg x" if "x \<in> set xs" for x
  proof -
    have "eval (Suc (length xs)) (vanish xs) (Gf x) = 0" using eval_vanish_0_iff that by blast
    from eval_remainder [OF div(1) below_vanish div(2) this below_poly [OF order_refl]]
    have "eval (Suc deg) (poly f (Suc deg)) (Gf x) = eval (length xs) (poly r (length xs)) (Gf x)" .
    also have "\<dots> = eval (Suc (fenger_degree r (length xs) deg)) (poly r (length xs)) (Gf x)"
      by (rule eval_extend) (use d [OF c] in \<open>simp_all add: d(2) [OF c, symmetric] below_poly del: of_coeffs_take\<close>)
    finally show ?thesis by (simp add: point_value_def d(2) [OF c] del: of_coeffs_take)
  qed
  then show ?thesis using xs(2) d(1) [OF c] by (simp add: remainder_ok_def)
qed

section \<open>Word by word\<close>

lemma returns_divide_word:
  assumes T: "tree_of pts L T" and node: "lev \<le> L" "i < 2 ^ lev" and c: "c = 2 ^ (L - lev)"
    and P: "P = drop (node_at L lev i) (storage T)"
    and f: "deg < length f" "deg < 2 * c" and len: "length q = c" "length r = 2 * c"
    and room: "arena_room (16 * c) arena" and size: "2 * c \<le> SIZE_MAX div 3"
  shows "returns alloc (gf64_poly_divmod_scratch alloc t f deg P c q r arena)
    (\<lambda>(q', r', arena'). length q' = c \<and> remainder_ok (node_points pts L lev i) f deg r' \<and> arena' = arena)"
proof -
  note P = tree_node [OF T node c P]
  have xs: "length (node_points pts L lev i) = c" using length_node_points [OF tree_of_fields(1) [OF T] node] c by simp
  have c1: "0 < c" by (simp add: c)
  have buf: "division_buffers f deg P c q r"
    using f len P(1,3) c1 by (auto simp: division_buffers_def)
  have "9 * (Suc deg - c) + c + deg + 2 \<le> 16 * c" using f(2) c1 by linarith
  then have room': "arena_room (9 * (Suc deg - c) + c + deg + 2) arena" by (rule arena_room_le [OF room])
  have "Suc deg \<le> SIZE_MAX div 3" using f(2) size by linarith
  from returns_divmod_scratch [OF buf this room', of alloc t] show ?thesis
  proof (rule returns_weaken, clarify)
    fix q' r' assume res: "division_result f deg P c q r q' r'"
    obtain Q where Q: "divides_with (poly f (Suc deg)) (poly P (Suc c)) c Q (poly r' c)"
      "below (Suc deg - c) Q" "length q' = length q" "length r' = length r"
      by (rule division_resultD [OF res buf]) blast
    then show "length q' = c \<and> remainder_ok (node_points pts L lev i) f deg r' \<and> arena = arena"
      using remainder_okI [where f = f and deg = deg and xs = "node_points pts L lev i" and Q = Q and r = r'] len c1 xs P(2) by (simp del: of_coeffs_take)
  qed
qed

text \<open>The slabs of both remainders, and room for the quotients.\<close>

definition divided ::
  "gf64_t list \<Rightarrow> gf64_t list \<Rightarrow> gf64_t list list \<Rightarrow> nat list \<Rightarrow> nat \<Rightarrow> gf64_t list list \<Rightarrow> gf64_t list list \<Rightarrow> bool" where
  "divided xl xr f deg_fs K r_L r_R \<longleftrightarrow> length r_L = K \<and> length r_R = K \<and>
    (\<forall>k<K. remainder_ok xl (f ! k) (deg_fs ! k) (r_L ! k) \<and> remainder_ok xr (f ! k) (deg_fs ! k) (r_R ! k))"

lemma returns_divide_words:
  assumes T: "tree_of pts L T" and node: "lev \<le> L" "2 * i + 1 < 2 ^ lev" and c: "c = 2 ^ (L - lev)"
    and PL: "PL = drop (node_at L lev (2 * i)) (storage T)" and PR: "PR = drop (node_at L lev (2 * i + 1)) (storage T)"
    and f: "\<And>k. k < K \<Longrightarrow> deg_fs ! k < length (f ! k)" "\<And>k. k < K \<Longrightarrow> deg_fs ! k < 2 * c"
    and len: "length r_L = K" "length r_R = K" "length revq = K" "length q2 = K"
    and words: "\<And>k. k < K \<Longrightarrow> length (r_L ! k) = 2 * c" "\<And>k. k < K \<Longrightarrow> length (r_R ! k) = 2 * c"
      "\<And>k. k < K \<Longrightarrow> length (revq ! k) = c" "\<And>k. k < K \<Longrightarrow> length (q2 ! k) = c"
    and room: "arena_room (16 * c) arena" and size: "2 * c \<le> SIZE_MAX div 3"
  shows "returns alloc (fenger_divide_words alloc t f deg_fs c PL PR K r_L r_R revq q2 arena :: 'a mpe_globals_scheme \<Rightarrow> _)
    (\<lambda>((rl, rr, rq, qq), arena'). divided (node_points pts L lev (2 * i)) (node_points pts L lev (2 * i + 1)) f deg_fs K rl rr \<and>
      length rq = K \<and> length qq = K \<and> (\<forall>k<K. length (rq ! k) = c \<and> length (qq ! k) = c) \<and> arena' = arena)"
proof -
  define ok where "ok j rl rr k = (if k < j then remainder_ok (node_points pts L lev (2 * i)) (f ! k) (deg_fs ! k) (rl ! k) \<and>
    remainder_ok (node_points pts L lev (2 * i + 1)) (f ! k) (deg_fs ! k) (rr ! k)
    else length (rl ! k) = 2 * c \<and> length (rr ! k) = 2 * c)" for j k :: nat and rl rr :: "gf64_t list list"
  let ?P = "\<lambda>j ((rl, rr, rq, qq), arena'). length rl = K \<and> length rr = K \<and> length rq = K \<and> length qq = K \<and>
    (\<forall>k<K. ok j rl rr k \<and> length (rq ! k) = c \<and> length (qq ! k) = c) \<and> arena' = arena"
  have "returns alloc (fenger_divide_words alloc t f deg_fs c PL PR K r_L r_R revq q2 arena :: 'a mpe_globals_scheme \<Rightarrow> _) (?P K)"
    unfolding fenger_divide_words_def
  proof (rule returns_words [where P = ?P])
    fix k and s :: "(gf64_t list list \<times> gf64_t list list \<times> gf64_t list list \<times> gf64_t list list) \<times> gf64_arena_t option"
    assume k: "k < K" and P: "?P k s"
    obtain rl rr rq qq where s: "s = ((rl, rr, rq, qq), arena)" using P by (cases s) auto
    have lens: "length rl = K" "length rr = K" "length rq = K" "length qq = K"
      and oks: "\<And>j. j < K \<Longrightarrow> ok k rl rr j \<and> length (rq ! j) = c \<and> length (qq ! j) = c" using P s by auto
    have here: "length (rl ! k) = 2 * c" "length (rr ! k) = 2 * c" "length (rq ! k) = c" "length (qq ! k) = c"
      using oks [OF k] by (simp_all add: ok_def)
    have L: "returns alloc (gf64_poly_divmod_scratch alloc t (f ! k) (deg_fs ! k) PL c (rq ! k) (rl ! k) arena :: 'a mpe_globals_scheme \<Rightarrow> _)
      (\<lambda>(q', r', arena'). length q' = c \<and> remainder_ok (node_points pts L lev (2 * i)) (f ! k) (deg_fs ! k) r' \<and> arena' = arena)"
      by (rule returns_divide_word [OF T node(1) _ c PL f(1) [OF k] f(2) [OF k] here(3,1) room size]) (use node(2) in simp)
    have R: "returns alloc (gf64_poly_divmod_scratch alloc t (f ! k) (deg_fs ! k) PR c q (rr ! k) arena :: 'a mpe_globals_scheme \<Rightarrow> _)
      (\<lambda>(q', r', arena'). length q' = c \<and> remainder_ok (node_points pts L lev (2 * i + 1)) (f ! k) (deg_fs ! k) r' \<and> arena' = arena)"
      if "length q = c" for q
      by (rule returns_divide_word [OF T node(1,2) c PR f(1) [OF k] f(2) [OF k] that here(2) room size])
    show "returns alloc (\<lambda>st :: 'a mpe_globals_scheme. (\<lambda>(((r_L, r_R, revq, q2), arena), st). do {
        ((q, rL, arena), st) \<leftarrow> gf64_poly_divmod_scratch alloc t (f ! k) (deg_fs ! k) PL c (revq ! k) (r_L ! k) arena st;
        ((qR, rR, arena), st) \<leftarrow> gf64_poly_divmod_scratch alloc t (f ! k) (deg_fs ! k) PR c
          (if K = 1 then q else q2 ! k) (r_R ! k) arena st;
        Some (((r_L[k := rL], r_R[k := rR], revq[k := (if K = 1 then qR else q)], if K = 1 then q2 else q2[k := qR]), arena), st)
      }) (s, st)) (?P (Suc k))"
      unfolding s prod.case
    proof (rule returns_bind_triple [OF L])
      fix q r' :: "gf64_t list" and arena' :: "gf64_arena_t option"
      assume q: "length q = c \<and> remainder_ok (node_points pts L lev (2 * i)) (f ! k) (deg_fs ! k) r' \<and> arena' = arena"
      then have "length (if K = 1 then q else qq ! k) = c" using here(4) by simp
      note R = R [OF this]
      show "returns alloc (\<lambda>st :: 'a mpe_globals_scheme. do {
        ((qR, rR, arena), st) \<leftarrow> gf64_poly_divmod_scratch alloc t (f ! k) (deg_fs ! k) PR c
          (if K = 1 then q else qq ! k) (rr ! k) arena' st;
        Some (((rl[k := r'], rr[k := rR], rq[k := (if K = 1 then qR else q)], if K = 1 then qq else qq[k := qR]), arena), st)
      }) (?P (Suc k))"
        unfolding conjunct2 [OF conjunct2 [OF q]]
      proof (rule returns_bind_triple [OF R], rule returns_return)
        fix qR rR :: "gf64_t list" and arena'' :: "gf64_arena_t option"
        assume R': "length qR = c \<and> remainder_ok (node_points pts L lev (2 * i + 1)) (f ! k) (deg_fs ! k) rR \<and> arena'' = arena"
        have "ok (Suc k) (rl[k := r']) (rr[k := rR]) j" if "j < K" for j
          using oks [OF that] q R' lens that k by (auto simp: ok_def nth_list_update less_Suc_eq)
        moreover have "length (rq[k := (if K = 1 then qR else q)] ! j) = c"
          "length ((if K = 1 then qq else qq[k := qR]) ! j) = c" if "j < K" for j
          using oks [OF that] q R' lens that k by (auto simp: nth_list_update)
        ultimately show "?P (Suc k) ((rl[k := r'], rr[k := rR], rq[k := (if K = 1 then qR else q)],
            if K = 1 then qq else qq[k := qR]), arena'')"
          using lens R' by simp
      qed
    qed
  qed (use len words in \<open>auto simp: ok_def\<close>)
  then show ?thesis by (rule returns_weaken) (auto simp: divided_def ok_def)
qed

section \<open>With the shared reciprocals\<close>

lemma reverse_input_eq:
  assumes "length rk = c" "deg < c \<Longrightarrow> left \<or> rk = replicate c 0"
  shows "fenger_reverse_input left fk deg c c rk = (if deg < c then replicate c 0 else map (\<lambda>i. fk ! (deg - i)) [0..<c])"
  using assms fold_const_update_map [of c rk "\<lambda>i. if i \<le> deg then fk ! (deg - i) else 0"] zero_words_eq [of 0 c rk]
  by (auto simp: fenger_reverse_input_def)

lemma swap_words:
  assumes "m \<le> length w" "j \<le> m div 2"
  shows "length (fold (\<lambda>i w. w[i := w ! (m - 1 - i), m - 1 - i := w ! i]) [0..<j] w) = length w \<and>
    (\<forall>i<length w. fold (\<lambda>i w. w[i := w ! (m - 1 - i), m - 1 - i := w ! i]) [0..<j] w ! i =
      (if i < j \<or> m - j \<le> i \<and> i < m then w ! (m - 1 - i) else w ! i))"
  using assms(2)
proof (induction j)
  case (Suc j)
  define v where "v = fold (\<lambda>i w. w[i := w ! (m - 1 - i), m - 1 - i := w ! i]) [0..<j] w"
  have v: "length v = length w" "\<And>i. i < length w \<Longrightarrow> v ! i = (if i < j \<or> m - j \<le> i \<and> i < m then w ! (m - 1 - i) else w ! i)"
    using Suc by (simp_all add: v_def)
  have j: "j < length w" "m - 1 - j < length w" "j < m - 1 - j \<or> j = m - 1 - j" "m - 1 - (m - 1 - j) = j" "m - 1 - j = m - Suc j"
    using Suc.prems assms(1) by auto
  have "v[j := v ! (m - 1 - j), m - 1 - j := v ! j] ! i = (if i < Suc j \<or> m - Suc j \<le> i \<and> i < m then w ! (m - 1 - i) else w ! i)"
    if i: "i < length w" for i
  proof -
    have "v ! j = w ! j" "v ! (m - 1 - j) = w ! (m - 1 - j)" using v(2) j Suc.prems by auto
    then have "v[j := v ! (m - 1 - j), m - 1 - j := v ! j] ! i = (if i = m - 1 - j then w ! j else if i = j then w ! (m - 1 - j) else v ! i)"
      using i v(1) j by (auto simp: nth_list_update)
    also have "\<dots> = (if i < Suc j \<or> m - Suc j \<le> i \<and> i < m then w ! (m - 1 - i) else w ! i)"
      using v(2) [OF i] j(3-5) Suc.prems by auto
    finally show ?thesis .
  qed
  moreover have "fold (\<lambda>i w. w[i := w ! (m - 1 - i), m - 1 - i := w ! i]) [0..<Suc j] w =
      v[j := v ! (m - 1 - j), m - 1 - j := v ! j]" by (simp add: v_def)
  ultimately show ?case using v(1) by (simp only: length_list_update simp_thms) blast
qed auto

lemma unreverse_eq:
  assumes "length w = c" "c \<le> deg" "deg < 2 * c"
  shows "fenger_unreverse deg c c w = map (\<lambda>i. w ! (deg - c - i)) [0..<Suc (deg - c)] @ replicate (2 * c - Suc deg) 0"
proof -
  define m where "m = deg - c + 1"
  define v where "v = fold (\<lambda>i w. w[i := w ! (m - 1 - i), m - 1 - i := w ! i]) [0..<m div 2] w"
  have m: "m \<le> length w" using assms by (simp add: m_def)
  have mid: "w ! (m - 1 - i) = w ! i" if "\<not> i < m div 2" "\<not> m - m div 2 \<le> i" for i
  proof -
    have "m - 1 - i = i" using that by linarith
    then show ?thesis by simp
  qed
  have v: "length v = c" "\<And>i. i < m \<Longrightarrow> v ! i = w ! (m - 1 - i)"
  proof -
    note s = swap_words [OF m order_refl, folded v_def]
    show "length v = c" using s assms(1) by simp
    show "v ! i = w ! (m - 1 - i)" if "i < m" for i
      using s m that mid [of i] by (metis less_le_trans)
  qed
  have "take m v = map (\<lambda>i. w ! (m - 1 - i)) [0..<m]"
    by (rule nth_equalityI) (use v m assms(1) in simp_all)
  moreover have "fenger_unreverse deg c c w = (if m < c then zero_words m c v else v)"
    using assms(2) unfolding fenger_unreverse_def Let_def m_def [symmetric] v_def [symmetric] by simp
  then have "fenger_unreverse deg c c w = take m v @ replicate (c - m) 0"
    using assms(1) m v(1) zero_words_eq [of m c v] by auto
  ultimately show ?thesis using assms by (simp add: m_def)
qed

text \<open>A reciprocal as the context keeps it, and the quotient it gives.\<close>

definition recip_ok :: "gf64_t list \<Rightarrow> gf64_t list \<Rightarrow> bool" where
  "recip_ok xs iv \<longleftrightarrow> length xs \<le> length iv \<and>
    trunc (length xs) (rev_ser (Suc (length xs)) (vanish xs) * of_coeffs (take (length xs) iv)) = 1"

definition reversed_words :: "gf64_t list \<Rightarrow> nat \<Rightarrow> nat \<Rightarrow> gf64_t list" where
  "reversed_words f deg c = (if deg < c then replicate c 0 else map (\<lambda>i. f ! (deg - i)) [0..<c])"

definition quotient_words :: "gf64_t list \<Rightarrow> gf64_t list \<Rightarrow> nat \<Rightarrow> nat \<Rightarrow> gf64_t list" where
  "quotient_words iv f deg c = fenger_unreverse deg c c (product_words iv c (reversed_words f deg c) c c)"

lemma length_reversed_words [simp]: "length (reversed_words f deg c) = c" by (simp add: reversed_words_def)

lemma to_coeffs_zero: "to_coeffs n 0 = replicate n 0"
  by (rule nth_equalityI) simp_all

lemma quotient_words_short: "deg < c \<Longrightarrow> quotient_words iv f deg c = replicate c 0"
  by (simp add: quotient_words_def fenger_unreverse_def reversed_words_def product_words_def to_coeffs_zero)

lemma product_words_prefix:
  assumes "m \<le> n" "i < m"
  shows "product_words a n b n n ! i = product_words (take m a) m (take m b) m m ! i"
proof -
  have "trunc m (poly a n * poly b n) = trunc m (trunc m (poly a n) * trunc m (poly b n))" by (simp only: trunc_mult)
  also have "\<dots> = trunc m (poly a m * poly b m)" using assms(1) by (simp add: poly_trunc trunc_trunc min_absorb1)
  finally have "cf (poly a n * poly b n) i = cf (poly a m * poly b m) i"
    using assms(2) by (metis cf_trunc)
  then show ?thesis using assms by (simp add: product_words_def)
qed

lemma quotient_words_divide:
  assumes P: "c < length P" "poly P (Suc c) = vanish xs" "length xs = c" and recip: "recip_ok xs iv"
    and f: "deg < length f" "c \<le> deg" "deg < 2 * c"
  shows "length (quotient_words iv f deg c) = c"
    and "divides_with (poly f (Suc deg)) (vanish xs) c (of_coeffs (quotient_words iv f deg c))
      (poly f (Suc deg) + vanish xs * of_coeffs (quotient_words iv f deg c))"
    and "below (Suc deg - c) (of_coeffs (quotient_words iv f deg c))"
proof -
  define k where "k = deg - c"
  define w where "w = product_words iv c (reversed_words f deg c) c c"
  define rev_g where "rev_g = map (\<lambda>i. P ! (c - i)) [0..<Suc c]"
  have k: "deg = c + k" "Suc k \<le> c" using f by (simp_all add: k_def)
  have q: "quotient_words iv f deg c = map (\<lambda>i. w ! (k - i)) [0..<Suc k] @ replicate (2 * c - Suc deg) 0"
    using unreverse_eq [of w c deg] f by (simp add: quotient_words_def w_def k_def del: upt_Suc)
  show "length (quotient_words iv f deg c) = c" unfolding q using k by simp
  have iv: "c \<le> length iv" using recip P(3) by (simp add: recip_ok_def)
  have rev_f: "take (Suc k) (reversed_words f deg c) = map (\<lambda>i. f ! (deg - i)) [0..<Suc k]"
    using k f(2) by (intro nth_equalityI) (simp_all add: reversed_words_def del: upt_Suc)
  have rg: "of_coeffs rev_g = rev_ser (Suc c) (vanish xs)"
    using of_coeffs_rev_words [of "Suc c" "Suc c" P] P
    by (simp add: rev_g_def trunc_below [OF below_rev_ser] del: upt_Suc of_coeffs_take)
  have "trunc (Suc k) (poly rev_g (Suc c) * of_coeffs (take (Suc k) iv)) =
      trunc (Suc k) (rev_ser (Suc c) (vanish xs) * trunc (Suc k) (of_coeffs (take c iv)))"
  proof -
    have "length rev_g = Suc c" by (simp add: rev_g_def del: upt_Suc)
    moreover have "take (Suc k) iv = take (Suc k) (take c iv)" using k(2) by (simp add: min_absorb1)
    then have "of_coeffs (take (Suc k) iv) = trunc (Suc k) (of_coeffs (take c iv))" by (simp only: poly_trunc)
    ultimately show ?thesis by (simp only: rg poly_length [of rev_g "Suc c"] order_refl)
  qed
  also have "\<dots> = trunc (Suc k) (trunc c (rev_ser (Suc c) (vanish xs) * of_coeffs (take c iv)))"
    using k(2) by (simp only: trunc_mult trunc_trunc min_absorb1)
  also have "\<dots> = 1" using recip P(3) by (simp add: recip_ok_def trunc_one)
  finally have inverse: "trunc (Suc k) (poly rev_g (Suc c) * of_coeffs (take (Suc k) iv)) = 1" .
  define rq where "rq = product_words (map (\<lambda>i. f ! (deg - i)) [0..<Suc k]) (Suc k) (take (Suc k) iv) (Suc k) (Suc k)"
  have "w ! i = rq ! i" if "i < Suc k" for i
    using product_words_prefix [OF k(2) that, of iv "reversed_words f deg c"] product_words_commute
    by (simp add: w_def rq_def rev_f del: upt_Suc)
  then have words: "map (\<lambda>i. w ! (k - i)) [0..<Suc k] = map (\<lambda>i. rq ! (k - i)) [0..<Suc k]" by simp
  have Q: "of_coeffs (quotient_words iv f deg c) = of_coeffs (map (\<lambda>i. rq ! (k - i)) [0..<Suc k])"
    unfolding q words by (rule of_coeffs_pad)
  have "length (take (Suc k) iv) = Suc k" using iv k by simp
  from newton_quotient [OF k(1) _ _ refl rev_g_def this inverse rq_def Q] f(1) P(1)
  show "divides_with (poly f (Suc deg)) (vanish xs) c (of_coeffs (quotient_words iv f deg c))
      (poly f (Suc deg) + vanish xs * of_coeffs (quotient_words iv f deg c))" unfolding P(2) by simp
  have "length (map (\<lambda>i. rq ! (k - i)) [0..<Suc k]) = Suc deg - c" by (simp add: k)
  then show "below (Suc deg - c) (of_coeffs (quotient_words iv f deg c))"
    unfolding Q by (metis below_of_coeffs)
qed

lemma remainder_words_ok:
  assumes P: "c < length P" "poly P (Suc c) = vanish xs" "length xs = c" and recip: "recip_ok xs iv" and c: "0 < c"
    and f: "deg < length f" "c \<le> length f" "deg < 2 * c" and r: "length r = 2 * c"
  shows "remainder_ok xs f deg (fenger_remainder f deg c (product_words P (Suc c) (quotient_words iv f deg c) c c @ drop c r))"
proof (cases "c \<le> deg")
  case True
  define q where "q = quotient_words iv f deg c"
  note q = quotient_words_divide [OF P recip f(1) True f(3), folded q_def]
  define r' where "r' = fenger_remainder f deg c (product_words P (Suc c) q c c @ drop c r)"
  have "r' = map (\<lambda>i. f ! i XOR product_words P (Suc c) q c c ! i) [0..<c] @ drop c r"
    using True r fold_update_map [of c "product_words P (Suc c) q c c @ drop c r" "\<lambda>i u. f ! i XOR u"]
    by (simp add: r'_def fenger_remainder_def nth_append cong: map_cong)
  then have len: "length r' = 2 * c" and low: "take c r' = map (\<lambda>i. f ! i XOR product_words P (Suc c) q c c ! i) [0..<c]"
    using r by simp_all
  have "poly r' c = trunc c (poly f (Suc deg)) + trunc c (vanish xs * of_coeffs q)"
    unfolding low
  proof (rule ser_eqI)
    fix i
    show "cf (of_coeffs (map (\<lambda>i. f ! i XOR product_words P (Suc c) q c c ! i) [0..<c])) i =
        cf (trunc c (poly f (Suc deg)) + trunc c (vanish xs * of_coeffs q)) i"
      using f(1) True q(1) by (auto simp: coef_def Gf_xor product_words_def P(2) poly_trunc simp del: of_coeffs_take)
  qed
  also have "\<dots> = poly f (Suc deg) + vanish xs * of_coeffs q"
    using q(2) by (simp add: divides_with_def trunc_below flip: trunc_add del: of_coeffs_take)
  finally have "poly r' c = poly f (Suc deg) + vanish xs * of_coeffs q" .
  then show ?thesis
    using remainder_okI [where f = f and deg = deg and xs = xs and Q = "of_coeffs q" and r = r'] q(2,3) c len P(3)
    by (simp add: r'_def q_def del: of_coeffs_take)
next
  case False
  define r' where "r' = fenger_remainder f deg c (product_words P (Suc c) (quotient_words iv f deg c) c c @ drop c r)"
  have "r' = take c f @ drop c r"
    using False f(2) r copy_words_eq [of c f "product_words P (Suc c) (quotient_words iv f deg c) c c @ drop c r"]
    by (simp add: r'_def fenger_remainder_def)
  then have "length r' = 2 * c" "poly r' (Suc deg) = poly f (Suc deg)" using False f(2) r
    by (simp_all add: min_absorb1 take_append del: of_coeffs_take)
  then show ?thesis
    using False P(3) by (simp add: remainder_ok_def fenger_degree_def point_value_def r'_def del: of_coeffs_take)
qed

lemma length_quotient_words: "deg < 2 * c \<Longrightarrow> length (quotient_words iv f deg c) = c"
  using unreverse_eq [of "product_words iv c (reversed_words f deg c) c c" c deg]
  by (cases "deg < c") (simp add: quotient_words_short, simp add: quotient_words_def del: upt_Suc)

lemma yields_quotients:
  assumes c: "0 < c" and fits: "hqc_fits sw c c c" "hqc_fits sw (Suc c) c c"
    and len: "c \<le> length iv" "c < length P" "length revq = K" "length r = K" "\<And>k. k < K \<Longrightarrow> length (revq ! k) = c"
    and deg: "\<And>k. k < K \<Longrightarrow> deg_fs ! k < 2 * c" "\<And>k. k < K \<Longrightarrow> deg_fs ! k < c \<Longrightarrow> left \<or> revq ! k = replicate c 0"
  shows "yields alloc (fenger_quotients alloc t left f deg_fs c iv P sw K revq r :: 'a poly_globals_scheme \<Rightarrow> _)
    (map (\<lambda>k. quotient_words iv (f ! k) (deg_fs ! k) c) [0..<K],
     map (\<lambda>k. product_words P (Suc c) (quotient_words iv (f ! k) (deg_fs ! k) c) c c @ drop c (r ! k)) [0..<K])"
proof -
  define rv where "rv = map (\<lambda>k. reversed_words (f ! k) (deg_fs ! k) c) [0..<K]"
  have rv: "map (\<lambda>k. fenger_reverse_input left (f ! k) (deg_fs ! k) c c (revq ! k)) [0..<K] = rv"
    using reverse_input_eq [OF len(5) deg(2)] by (simp add: rv_def reversed_words_def)
  define ws where "ws = map (\<lambda>k. product_words iv c (reversed_words (f ! k) (deg_fs ! k) c) c c) [0..<K]"
  define qs where "qs = map (\<lambda>k. quotient_words iv (f ! k) (deg_fs ! k) c) [0..<K]"
  have qs: "map (\<lambda>k. fenger_unreverse (deg_fs ! k) c c (ws ! k)) [0..<K] = qs"
    by (simp add: qs_def ws_def quotient_words_def)
  define ps where "ps = map (\<lambda>k. product_words P (Suc c) (quotient_words iv (f ! k) (deg_fs ! k) c) c c) [0..<K]"
  have m1: "yields alloc (fenger_batch_shared_mul alloc t rv K iv c (concat rv) c c sw :: 'a poly_globals_scheme \<Rightarrow> _) ws"
  proof -
    have ws: "map (\<lambda>k. product_words iv c (rv ! k) c c) [0..<K] = ws" by (simp add: rv_def ws_def)
    show ?thesis unfolding ws [symmetric] by (rule yields_shared_slabs [OF fits(1) c len(1)]) (simp_all add: rv_def)
  qed
  have m2: "yields alloc (fenger_batch_shared_mul alloc t (map (take c) r) K P (c + 1) (concat qs) c c sw
      :: 'a poly_globals_scheme \<Rightarrow> _) ps"
  proof -
    have ps: "map (\<lambda>k. product_words P (Suc c) (qs ! k) c c) [0..<K] = ps" by (simp add: qs_def ps_def)
    show ?thesis
      unfolding ps [symmetric] Suc_eq_plus1 [symmetric]
      by (rule yields_shared_slabs [OF fits(2) c]) (use len(2,4) length_quotient_words [OF deg(1)] in \<open>simp_all add: qs_def\<close>)
  qed
  show ?thesis
    unfolding fenger_quotients_def Let_def rv
    by (rule yields_bind [OF m1], unfold qs, rule yields_bind [OF m2], rule returns_return)
      (simp add: qs_def ps_def)
qed

lemma shared_fits:
  assumes "c = 2 ^ j" "96 \<le> c" "2 * Suc c - 1 \<le> 2 ^ 20"
  shows "hqc_fits (gf64_addfft64_poly_mul_recursive_scratch_words (2 * c)) c c c"
    "hqc_fits (gf64_addfft64_poly_mul_recursive_scratch_words (2 * c)) (Suc c) c c"
proof -
  have "max (c + c - 1) c \<le> 2 ^ Suc j" "max (Suc c + c - 1) c \<le> 2 ^ Suc j" using assms(1) by simp_all
  note size = next_pow2_size_le [OF this(1)] next_pow2_size_le [OF this(2)]
  have "gf64_addfft64_poly_mul_recursive_scratch_words (2 * c) = 4 * 2 ^ Suc j"
    using assms(1,2) by (simp add: gf64_addfft64_poly_mul_recursive_scratch_words_def)
  moreover have small: "max (c + c - 1) c \<le> 2 ^ 20" "max (Suc c + c - 1) c \<le> 2 ^ 20" using assms(3) by (auto simp: max_def)
  ultimately show "hqc_fits (gf64_addfft64_poly_mul_recursive_scratch_words (2 * c)) c c c"
    "hqc_fits (gf64_addfft64_poly_mul_recursive_scratch_words (2 * c)) (Suc c) c c"
    unfolding hqc_fits_def using size small by simp_all
qed

lemma yields_bind_pair:
  assumes "yields alloc F (a, b)" "returns alloc (K a b) Q"
  shows "returns alloc (\<lambda>st. F st \<bind> (\<lambda>((a, b), st). K a b st)) Q"
  by (rule returns_bind [OF assms(1)]) (auto intro: assms(2))

text \<open>The reciprocals of all internal nodes.\<close>

definition pool_ok :: "gf64_t list \<Rightarrow> nat \<Rightarrow> gf64_fenger_ctx \<Rightarrow> bool" where
  "pool_ok ys L ctx \<longleftrightarrow> (\<forall>lev i. 0 < lev \<longrightarrow> lev < L \<longrightarrow> i < 2 ^ lev \<longrightarrow>
    recip_ok (node_points ys L lev i) (fenger_recip_at ctx lev i))"

lemma returns_divide_shared:
  assumes T: "tree_of pts L T" and pool: "pool_ok pts L ctx" and node: "Suc lev \<le> L" "2 * i + 1 < 2 ^ Suc lev"
    and c: "c = 2 ^ (L - Suc lev)"
    and PL: "PL = drop (node_at L (Suc lev) (2 * i)) (storage T)" and PR: "PR = drop (node_at L (Suc lev) (2 * i + 1)) (storage T)"
    and bounds: "96 \<le> c" "2 * Suc c - 1 \<le> 2 ^ 20"
    and f: "\<And>k. k < K \<Longrightarrow> deg_fs ! k < length (f ! k)" "\<And>k. k < K \<Longrightarrow> deg_fs ! k < 2 * c" "\<And>k. k < K \<Longrightarrow> c \<le> length (f ! k)"
    and len: "length r_L = K" "length r_R = K" "length revq = K"
    and words: "\<And>k. k < K \<Longrightarrow> length (r_L ! k) = 2 * c" "\<And>k. k < K \<Longrightarrow> length (r_R ! k) = 2 * c"
      "\<And>k. k < K \<Longrightarrow> length (revq ! k) = c"
    and mul: "8 * c \<le> mul_words"
  shows "returns alloc (fenger_divide_shared alloc t ctx lev i f deg_fs c PL PR mul_words K r_L r_R revq :: 'a poly_globals_scheme \<Rightarrow> _)
    (\<lambda>(rl, rr, rq). divided (node_points pts L (Suc lev) (2 * i)) (node_points pts L (Suc lev) (2 * i + 1)) f deg_fs K rl rr \<and>
      length rq = K \<and> (\<forall>k<K. length (rq ! k) = c))"
proof -
  have c0: "0 < c" by (simp add: c)
  have lev: "Suc lev < L"
  proof (rule ccontr)
    assume "\<not> Suc lev < L"
    with node(1) have "c = 1" by (simp add: c)
    with bounds(1) show False by simp
  qed
  have node_L: "2 * i < 2 ^ Suc lev" using node(2) by simp
  note fits = shared_fits [OF c bounds]
  define sw where "sw = gf64_addfft64_poly_mul_recursive_scratch_words (2 * c)"
  have sw: "\<not> mul_words < sw" using mul c0 by (simp add: sw_def gf64_addfft64_poly_mul_recursive_scratch_words_def)
  note NL = tree_node [OF T node(1) node_L c PL] and NR = tree_node [OF T node(1,2) c PR]
  have xs: "length (node_points pts L (Suc lev) j) = c" if "j < 2 ^ Suc lev" for j
    using length_node_points [OF tree_of_fields(1) [OF T] node(1) that] c by simp
  define ivl ivr where "ivl = fenger_recip_at ctx (lev + 1) (2 * i)" and "ivr = fenger_recip_at ctx (lev + 1) (2 * i + 1)"
  have iv: "recip_ok (node_points pts L (Suc lev) (2 * i)) ivl" "recip_ok (node_points pts L (Suc lev) (2 * i + 1)) ivr"
    using pool lev node_L node(2) by (simp_all add: pool_ok_def ivl_def ivr_def)
  then have ivlen: "c \<le> length ivl" "c \<le> length ivr" using xs node_L node(2) by (simp_all add: recip_ok_def)
  have q1: "yields alloc (fenger_quotients alloc t True f deg_fs c ivl PL sw K revq r_L :: 'a poly_globals_scheme \<Rightarrow> _)
    (map (\<lambda>k. quotient_words ivl (f ! k) (deg_fs ! k) c) [0..<K],
     map (\<lambda>k. product_words PL (Suc c) (quotient_words ivl (f ! k) (deg_fs ! k) c) c c @ drop c (r_L ! k)) [0..<K])"
    unfolding sw_def by (rule yields_quotients [OF c0 fits ivlen(1) NL(1) len(3,1) words(3) f(2)]) simp_all
  have q2: "yields alloc (fenger_quotients alloc t False f deg_fs c ivr PR sw K
      (map (\<lambda>k. quotient_words ivl (f ! k) (deg_fs ! k) c) [0..<K]) r_R :: 'a poly_globals_scheme \<Rightarrow> _)
    (map (\<lambda>k. quotient_words ivr (f ! k) (deg_fs ! k) c) [0..<K],
     map (\<lambda>k. product_words PR (Suc c) (quotient_words ivr (f ! k) (deg_fs ! k) c) c c @ drop c (r_R ! k)) [0..<K])"
    unfolding sw_def by (rule yields_quotients [OF c0 fits ivlen(2) NR(1) _ len(2) _ f(2)])
      (simp_all add: length_quotient_words f(2) quotient_words_short)
  have okl: "remainder_ok (node_points pts L (Suc lev) (2 * i)) (f ! k) (deg_fs ! k) (fenger_remainder (f ! k) (deg_fs ! k) c
      (product_words PL (Suc c) (quotient_words ivl (f ! k) (deg_fs ! k) c) c c @ drop c (r_L ! k)))" if "k < K" for k
    by (rule remainder_words_ok [OF NL(1,2) xs [OF node_L] iv(1) c0 f(1) [OF that] f(3) [OF that] f(2) [OF that] words(1) [OF that]])
  have okr: "remainder_ok (node_points pts L (Suc lev) (2 * i + 1)) (f ! k) (deg_fs ! k) (fenger_remainder (f ! k) (deg_fs ! k) c
      (product_words PR (Suc c) (quotient_words ivr (f ! k) (deg_fs ! k) c) c c @ drop c (r_R ! k)))" if "k < K" for k
    by (rule remainder_words_ok [OF NR(1,2) xs [OF node(2)] iv(2) c0 f(1) [OF that] f(3) [OF that] f(2) [OF that] words(2) [OF that]])
  show ?thesis
    unfolding fenger_divide_shared_def Let_def ivl_def [symmetric] ivr_def [symmetric] sw_def [symmetric] if_not_P [OF sw]
    by (rule yields_bind_pair [OF q1], rule yields_bind_pair [OF q2], rule returns_return)
      (use okl okr f(2) in \<open>simp add: divided_def length_quotient_words\<close>)
qed

section \<open>The walk\<close>

lemma remainder_okD:
  assumes "remainder_ok xs f deg r" "length xs = c"
  shows "length r = 2 * c" "fenger_degree r c deg < c"
    "map (point_value r (fenger_degree r c deg)) xs = map (point_value f deg) xs"
  using assms by (auto simp: remainder_ok_def)

lemma returns_divide:
  assumes T: "tree_of pts L T" and pool: "pool_ok pts L ctx" and node: "Suc lev \<le> L" "2 * i + 1 < 2 ^ Suc lev"
    and c: "c = 2 ^ (L - Suc lev)"
    and PL: "PL = drop (node_at L (Suc lev) (2 * i)) (storage T)" and PR: "PR = drop (node_at L (Suc lev) (2 * i + 1)) (storage T)"
    and f: "\<And>k. k < K \<Longrightarrow> deg_fs ! k < length (f ! k)" "\<And>k. k < K \<Longrightarrow> deg_fs ! k < 2 * c"
    and stride: "(\<forall>k<K. 2 * c \<le> length (f ! k)) \<or> (\<forall>j<K. \<forall>k<K. deg_fs ! j = deg_fs ! k)"
    and len: "length r_L = K" "length r_R = K" "length revq = K" "length q2 = K"
    and words: "\<And>k. k < K \<Longrightarrow> length (r_L ! k) = 2 * c" "\<And>k. k < K \<Longrightarrow> length (r_R ! k) = 2 * c"
      "\<And>k. k < K \<Longrightarrow> length (revq ! k) = c" "\<And>k. k < K \<Longrightarrow> length (q2 ! k) = c"
    and mul: "8 * c \<le> mul_words" and room: "arena_room (16 * c) arena" and size: "2 * c \<le> SIZE_MAX div 3"
  shows "returns alloc (\<lambda>st :: 'a mpe_globals_scheme.
      if (\<exists>k\<in>set [0..<K]. deg_fs ! k \<ge> c) \<and> fenger_hqc_eligible (c + 1) c c st
      then do {
        ((r_L, r_R, revq), st) \<leftarrow> fenger_divide_shared alloc t ctx lev i f deg_fs c PL PR mul_words K r_L r_R revq st;
        Some (((r_L, r_R, revq, q2), arena), st)
      }
      else fenger_divide_words alloc t f deg_fs c PL PR K r_L r_R revq q2 arena st)
    (\<lambda>((rl, rr, rq, qq), arena'). divided (node_points pts L (Suc lev) (2 * i)) (node_points pts L (Suc lev) (2 * i + 1)) f deg_fs K rl rr \<and>
      length rq = K \<and> length qq = K \<and> (\<forall>k<K. length (rq ! k) = c \<and> length (qq ! k) = c) \<and> arena' = arena)"
    (is "returns alloc _ ?P")
proof (rule returns_if [where H = "(\<exists>k<K. deg_fs ! k \<ge> c) \<and> 96 \<le> c \<and> 2 * Suc c - 1 \<le> 2 ^ 20"])
  show "(\<exists>k<K. deg_fs ! k \<ge> c) \<and> 96 \<le> c \<and> 2 * Suc c - 1 \<le> 2 ^ 20"
    if "poly_ready alloc st" "(\<exists>k\<in>set [0..<K]. deg_fs ! k \<ge> c) \<and> fenger_hqc_eligible (c + 1) c c st"
    for st :: "'a mpe_globals_scheme"
    using eligible_bounds [OF that(1) conjunct2 [OF that(2)]] that(2) by (auto simp: max_def)
next
  assume H: "(\<exists>k<K. deg_fs ! k \<ge> c) \<and> 96 \<le> c \<and> 2 * Suc c - 1 \<le> 2 ^ 20"
  have wide: "c \<le> length (f ! k)" if k: "k < K" for k
    using stride
  proof
    assume "\<forall>j<K. \<forall>k<K. deg_fs ! j = deg_fs ! k"
    then have "c \<le> deg_fs ! k" using H k by metis
    then show ?thesis using f(1) [OF k] by simp
  qed (use k in auto)
  note shared = returns_divide_shared [OF T pool node c PL PR conjunct1 [OF conjunct2 [OF H]] conjunct2 [OF conjunct2 [OF H]]
      f wide len(1-3) words(1-3) mul]
  show "returns alloc (\<lambda>st :: 'a mpe_globals_scheme. do {
        ((r_L, r_R, revq), st) \<leftarrow> fenger_divide_shared alloc t ctx lev i f deg_fs c PL PR mul_words K r_L r_R revq st;
        Some (((r_L, r_R, revq, q2), arena), st) }) ?P"
    by (rule returns_bind_triple [OF shared], assumption+, rule returns_return) (use len(4) words(4) in auto)
next
  show "returns alloc (fenger_divide_words alloc t f deg_fs c PL PR K r_L r_R revq q2 arena :: 'a mpe_globals_scheme \<Rightarrow> _) ?P"
    by (rule returns_divide_words [OF T node c PL PR f len words room size])
qed

definition stored ::
  "nat \<Rightarrow> gf64_t list \<Rightarrow> gf64_t list list \<Rightarrow> nat list \<Rightarrow> nat \<Rightarrow> gf64_t list list \<Rightarrow> gf64_t list list" where
  "stored pos xs f deg_fs K out =
    map (\<lambda>k. store_words pos (map (point_value (f ! k) (deg_fs ! k)) xs) (out ! k)) [0..<K] @ drop K out"

lemma stored_shape:
  assumes "K \<le> length out"
  shows "length (stored pos xs f deg_fs K out) = length out"
    "k < K \<Longrightarrow> stored pos xs f deg_fs K out ! k = store_words pos (map (point_value (f ! k) (deg_fs ! k)) xs) (out ! k)"
    "drop K (stored pos xs f deg_fs K out) = drop K out"
  using assms by (simp_all add: stored_def nth_append)

lemma stored_append:
  assumes K: "K \<le> length out" and len: "\<And>k. k < K \<Longrightarrow> pos + length xs + length ys \<le> length (out ! k)"
  shows "stored (pos + length xs) ys f deg_fs K (stored pos xs f deg_fs K out) = stored pos (xs @ ys) f deg_fs K out"
proof -
  have "stored (pos + length xs) ys f deg_fs K (stored pos xs f deg_fs K out) =
      map (\<lambda>k. store_words (pos + length xs) (map (point_value (f ! k) (deg_fs ! k)) ys)
        (store_words pos (map (point_value (f ! k) (deg_fs ! k)) xs) (out ! k))) [0..<K] @ drop K out"
    unfolding stored_def [of "pos + length xs"] using stored_shape [OF K] by simp
  also have "\<dots> = stored pos (xs @ ys) f deg_fs K out"
    unfolding stored_def using store_words_append [of pos "map _ xs" "map _ ys"] len
    by (simp cong: map_cong)
  finally show ?thesis .
qed

lemma stored_cong:
  "(\<And>k. k < K \<Longrightarrow> map (point_value (f ! k) (d ! k)) xs = map (point_value (g ! k) (e ! k)) xs) \<Longrightarrow>
    stored pos xs f d K out = stored pos xs g e K out"
  unfolding stored_def
  by (intro arg_cong2 [where f = "(@)"] map_cong refl arg_cong2 [where f = "store_words pos"]) auto

lemma returns_bind_frame:
  assumes "returns alloc F (\<lambda>((a, b, c, d), e). P a b c d e)" "\<And>a b c d e. P a b c d e \<Longrightarrow> returns alloc (K a b c d e) Q"
  shows "returns alloc (\<lambda>st. F st \<bind> (\<lambda>(((a, b, c, d), e), st). K a b c d e st)) Q"
  by (rule returns_bind [OF assms(1)]) (auto intro: assms(2))

lemma returns_eval_recurse_batch:
  assumes T: "tree_of pts L T" and pool: "pool_ok pts L ctx" and size: "2 ^ L \<le> SIZE_MAX div 3"
    and node: "lev \<le> L" "i < 2 ^ lev" and n: "n = 2 ^ (L - lev)"
    and f: "\<And>k. k < K \<Longrightarrow> deg_fs ! k < length (f ! k)" "\<And>k. k < K \<Longrightarrow> deg_fs ! k < n"
    and stride: "(\<forall>k<K. n \<le> length (f ! k)) \<or> (\<forall>j<K. \<forall>k<K. deg_fs ! j = deg_fs ! k)"
    and len: "K \<le> length out" "\<And>k. k < K \<Longrightarrow> length (out ! k) = 2 ^ L" "(6 * K + 2) * n \<le> length scratch"
    and room: "arena_room (8 * n) arena" and mul: "4 * n \<le> mul_words"
  shows "returns alloc (fenger_eval_recurse_batch alloc t ctx T lev i f deg_fs out scratch arena mul_words K :: 'a mpe_globals_scheme \<Rightarrow> _)
    (\<lambda>(out', scratch', arena'). out' = stored (i * n) (node_points pts L lev i) f deg_fs K out \<and>
      length scratch' = length scratch \<and> arena' = arena)"
  using node n f stride len room mul
proof (induction "L - lev" arbitrary: lev i n f deg_fs out scratch arena)
  case 0
  note fields = tree_of_fields [OF T]
  have L: "lev = L" "n = 1" "i < 2 ^ L" using 0 by simp_all
  have deg: "deg_fs ! k = 0" "f ! k \<noteq> []" if "k < K" for k using 0(5) [OF that] 0(6) [OF that] L by auto
  have "(out ! k)[i := if deg_fs ! k = 0 then f ! k ! 0 else fenger_horner (f ! k) (deg_fs ! k) xj] =
      store_words (i * n) (map (point_value (f ! k) (deg_fs ! k)) (node_points pts L lev i)) (out ! k)" if "k < K" for k xj
  proof -
    have "point_value (f ! k) 0 (pts ! i) = f ! k ! 0"
      using deg(2) [OF that] by (simp add: point_value_def eval_sum)
    then show ?thesis
      using deg [OF that] L 0(9) [OF that] node_points_leaf [OF fields(1) L(3)]
      by (simp add: store_words_def upd_conv_take_nth_drop)
  qed
  then have words: "map (\<lambda>k. (out ! k)[i := if deg_fs ! k = 0 then f ! k ! 0 else fenger_horner (f ! k) (deg_fs ! k) xj]) [0..<K] @
      drop K out = stored (i * n) (node_points pts L lev i) f deg_fs K out" for xj
    unfolding stored_def by (intro arg_cong2 [where f = "(@)"] map_cong refl) simp
  have "fenger_eval_recurse_batch alloc t ctx T lev i f deg_fs out scratch arena mul_words K st =
      Some ((stored (i * n) (node_points pts L lev i) f deg_fs K out, scratch, arena), st)" for st :: "'a mpe_globals_scheme"
    using L fields(2) each_slab [OF 0(8), of "\<lambda>k o'. o'[i := if deg_fs ! k = 0 then f ! k ! 0 else
        fenger_horner (f ! k) (deg_fs ! k) (storage T ! (level_data T ! L + 2 * i))]"]
      words
    by (subst fenger_eval_recurse_batch.simps) (simp add: Let_def)
  then show ?case by (simp add: returns_def)
next
  case (Suc d)
  note fields = tree_of_fields [OF T]
  define c where "c = (2::nat) ^ (L - Suc lev)"
  have lev: "Suc lev \<le> L" "lev < L" "d = L - Suc lev" using Suc.hyps(2) by simp_all
  have n: "n = 2 * c" unfolding c_def Suc.prems(3) using lev by (simp flip: power_Suc add: Suc_diff_Suc)
  have children: "2 * i < 2 ^ Suc lev" "2 * i + 1 < 2 ^ Suc lev" using Suc.prems(2) by simp_all
  have slot: "num_points T div 2 ^ lev = n" using lev by (simp add: fields(3) Suc.prems(3) power_diff)
  have cL: "2 * c \<le> SIZE_MAX div 3"
  proof -
    have "(2::nat) ^ (L - lev) \<le> 2 ^ L" by (rule power_increasing) simp_all
    then show ?thesis using size n Suc.prems(3) by linarith
  qed
  define PL PR where "PL = drop (node_at L (Suc lev) (2 * i)) (storage T)"
    and "PR = drop (node_at L (Suc lev) (2 * i + 1)) (storage T)"
  define frame where "frame = 2 * K * n + (2 * K + 2) * c"
  define r_L r_R revq q2 where "r_L = slabs K n scratch" and "r_R = slabs K n (drop (K * n) scratch)"
    and "revq = slabs K c (drop (2 * K * n) scratch)" and "q2 = slabs K c (drop (2 * K * n + K * c) scratch)"
  define invs where "invs = take (2 * c) (drop (2 * K * n + 2 * K * c) scratch)"
  have area: "frame + (6 * K + 2) * c \<le> length scratch" "frame = 2 * (K * n) + 2 * (K * c) + 2 * c"
    using Suc.prems(9) by (simp_all add: frame_def n algebra_simps)
  have frame: "\<not> length scratch < frame" using area by linarith
  have slots: "length r_L = K" "length r_R = K" "length revq = K" "length q2 = K"
    "\<And>k. k < K \<Longrightarrow> length (r_L ! k) = 2 * c" "\<And>k. k < K \<Longrightarrow> length (r_R ! k) = 2 * c"
    "\<And>k. k < K \<Longrightarrow> length (revq ! k) = c" "\<And>k. k < K \<Longrightarrow> length (q2 ! k) = c" "length invs = 2 * c"
    using area length_slab by (auto simp: r_L_def r_R_def revq_def q2_def invs_def n)
  have room: "arena_room (16 * c) arena" "arena_room (8 * c) arena"
    using Suc.prems(10) arena_room_le [OF Suc.prems(10), of "8 * c"] by (simp_all add: n)
  have mul: "8 * c \<le> mul_words" "4 * c \<le> mul_words" using Suc.prems(11) by (simp_all add: n)
  define DIV where "DIV = (\<lambda>st :: 'a mpe_globals_scheme.
      if (\<exists>k\<in>set [0..<K]. deg_fs ! k \<ge> c) \<and> fenger_hqc_eligible (c + 1) c c st
      then do {
        ((r_L, r_R, revq), st) \<leftarrow> fenger_divide_shared alloc t ctx lev i f deg_fs c PL PR mul_words K r_L r_R revq st;
        Some (((r_L, r_R, revq, q2), arena), st)
      }
      else fenger_divide_words alloc t f deg_fs c PL PR K r_L r_R revq q2 arena st)"
  have div: "returns alloc DIV
    (\<lambda>((rl, rr, rq, qq), arena'). divided (node_points pts L (Suc lev) (2 * i)) (node_points pts L (Suc lev) (2 * i + 1)) f deg_fs K rl rr \<and>
      length rq = K \<and> length qq = K \<and> (\<forall>k<K. length (rq ! k) = c \<and> length (qq ! k) = c) \<and> arena' = arena)"
    unfolding DIV_def
    by (rule returns_divide [OF T pool lev(1) children(2) c_def PL_def PR_def Suc.prems(4) _ _ slots(1-8) mul(1) room(1) cL])
      (use Suc.prems(5,6) in \<open>simp_all add: n\<close>)
  define degs where "degs r = map (\<lambda>k. fenger_degree (r ! k) c (deg_fs ! k)) [0..<K]" for r
  have run: "fenger_eval_recurse_batch alloc t ctx T lev i f deg_fs out scratch arena mul_words K st =
      DIV st \<bind> (\<lambda>(((rl, rr, rq, qq), arena), st).
      fenger_eval_recurse_batch alloc t ctx T (Suc lev) (2 * i) rl (degs rl) out (drop frame scratch) arena mul_words K st \<bind>
        (\<lambda>((out, child_scratch, arena), st).
      fenger_eval_recurse_batch alloc t ctx T (Suc lev) (2 * i + 1) rr (degs rr) out child_scratch arena mul_words K st \<bind>
        (\<lambda>((out, child_scratch, arena), st).
          Some ((out, concat rl @ concat rr @ concat rq @ concat qq @ invs @ child_scratch, arena), st))))"
    for st :: "'a mpe_globals_scheme"
  proof -
    have go: "\<not> lev + 1 = num_levels T" "lev + 1 < num_levels T" using lev(2) fields(2) by simp_all
    have lv: "level_degs T ! (lev + 1) = c" "level_data T ! (lev + 1) = level_at L (Suc lev)"
      using fields(4,5) [OF lev(1)] by (simp_all add: c_def)
    have at: "PL = drop (level_at L (Suc lev) + 2 * i * (c + 1)) (storage T)"
      "PR = drop (level_at L (Suc lev) + (2 * i + 1) * (c + 1)) (storage T)"
      by (simp_all add: PL_def PR_def node_at_def c_def)
    show ?thesis
      unfolding DIV_def degs_def at r_L_def r_R_def revq_def q2_def invs_def frame_def
      by (subst fenger_eval_recurse_batch.simps)
        (simp only: go lv slot if_False if_True Let_def add.assoc Suc_eq_plus1 frame [unfolded frame_def])
  qed
  have lens: "length (node_points pts L (Suc lev) (2 * i)) = c" "length (node_points pts L (Suc lev) (2 * i + 1)) = c"
    using length_node_points [OF fields(1) lev(1)] children by (simp_all add: c_def)
  have IH: "returns alloc (fenger_eval_recurse_batch alloc t ctx T (Suc lev) j r (degs r) out' scratch' arena mul_words K
      :: 'a mpe_globals_scheme \<Rightarrow> _)
    (\<lambda>(out'', scratch'', arena'). out'' = stored (j * c) (node_points pts L (Suc lev) j) f deg_fs K out' \<and>
      length scratch'' = length scratch' \<and> arena' = arena)"
    if j: "j < 2 ^ Suc lev" and ok: "\<And>k. k < K \<Longrightarrow> remainder_ok (node_points pts L (Suc lev) j) (f ! k) (deg_fs ! k) (r ! k)"
      and out': "K \<le> length out'" "\<And>k. k < K \<Longrightarrow> length (out' ! k) = 2 ^ L" "(6 * K + 2) * c \<le> length scratch'"
    for r j out' scratch'
  proof -
    have xs: "length (node_points pts L (Suc lev) j) = c" using length_node_points [OF fields(1) lev(1) j] by (simp add: c_def)
    note D = remainder_okD [OF ok xs]
    have deg: "degs r ! k = fenger_degree (r ! k) c (deg_fs ! k)" if "k < K" for k using that by (simp add: degs_def)
    have less_two: "fenger_degree (r ! k) c (deg_fs ! k) < 2 * c" if "k < K" for k using D(2) [OF that] by simp
    have vals: "stored (j * c) (node_points pts L (Suc lev) j) f deg_fs K out' =
        stored (j * c) (node_points pts L (Suc lev) j) r (degs r) K out'"
      by (rule stored_cong) (simp only: D(3) deg)
    show ?thesis
      unfolding vals
      by (rule Suc.hyps(1) [OF lev(3) lev(1) j c_def _ _ _ out' room(2) mul(2)])
        (use D(1) D(2) deg in \<open>auto simp: less_two\<close>)
  qed
  have pos: "2 * i * c = i * n" "(2 * i + 1) * c = i * n + length (node_points pts L (Suc lev) (2 * i))"
    by (simp_all add: n lens)
  have store: "i * n + n \<le> 2 ^ L"
  proof -
    have "Suc i * n \<le> 2 ^ lev * 2 ^ (L - lev)" using Suc.prems(2,3) by (intro mult_le_mono) simp_all
    also have "\<dots> = 2 ^ L" using Suc.prems(1) by (simp flip: power_add)
    finally show ?thesis by simp
  qed
  define out1 where "out1 = stored (2 * i * c) (node_points pts L (Suc lev) (2 * i)) f deg_fs K out"
  have out1: "K \<le> length out1" "\<And>k. k < K \<Longrightarrow> length (out1 ! k) = 2 ^ L"
    using stored_shape [OF Suc.prems(7)] Suc.prems(7,8) store lens(1) n
    by (simp_all add: out1_def pos(1) length_store_words)
  have joined: "stored ((2 * i + 1) * c) (node_points pts L (Suc lev) (2 * i + 1)) f deg_fs K out1 =
      stored (i * n) (node_points pts L lev i) f deg_fs K out"
    unfolding out1_def pos node_points_split [OF lev(2)]
    by (rule stored_append [OF Suc.prems(7)]) (use Suc.prems(8) store lens n in simp)
  let ?Post = "\<lambda>(out', scratch', arena'). out' = stored (i * n) (node_points pts L lev i) f deg_fs K out \<and>
      length scratch' = length scratch \<and> arena' = arena"
  have right: "returns alloc (\<lambda>st :: 'a mpe_globals_scheme.
      fenger_eval_recurse_batch alloc t ctx T (Suc lev) (2 * i + 1) rr (degs rr) out1 cs arena mul_words K st \<bind>
        (\<lambda>((out, child_scratch, arena), st). Some ((out, pre @ child_scratch, arena), st))) ?Post"
    if ok: "\<And>k. k < K \<Longrightarrow> remainder_ok (node_points pts L (Suc lev) (2 * i + 1)) (f ! k) (deg_fs ! k) (rr ! k)"
      and cs: "length cs = length scratch - frame" and pre: "length pre = frame" for rr cs pre
  proof (rule returns_bind_triple [OF IH [OF children(2) ok out1]])
    show "(6 * K + 2) * c \<le> length cs" using area(1) cs by linarith
    fix out' :: "gf64_t list list" and cs' :: "gf64_t list" and arena' :: "gf64_arena_t option"
    assume "out' = stored ((2 * i + 1) * c) (node_points pts L (Suc lev) (2 * i + 1)) f deg_fs K out1 \<and>
      length cs' = length cs \<and> arena' = arena"
    then show "returns alloc (\<lambda>st :: 'a mpe_globals_scheme. Some ((out', pre @ cs', arena'), st)) ?Post"
      using joined cs pre frame by (intro returns_return) simp
  qed
  show ?case
  proof (rule returns_cong [OF _ run], rule returns_bind_frame [OF div])
    fix rl rr rq qq :: "gf64_t list list" and arena' :: "gf64_arena_t option"
    assume v: "divided (node_points pts L (Suc lev) (2 * i)) (node_points pts L (Suc lev) (2 * i + 1)) f deg_fs K rl rr \<and>
      length rq = K \<and> length qq = K \<and> (\<forall>k<K. length (rq ! k) = c \<and> length (qq ! k) = c) \<and> arena' = arena"
    then have v': "arena' = arena" by simp
    have D: "length rl = K" "length rr = K" "\<And>k. k < K \<Longrightarrow> remainder_ok (node_points pts L (Suc lev) (2 * i)) (f ! k) (deg_fs ! k) (rl ! k)"
      "\<And>k. k < K \<Longrightarrow> remainder_ok (node_points pts L (Suc lev) (2 * i + 1)) (f ! k) (deg_fs ! k) (rr ! k)"
      and Q: "length rq = K" "length qq = K" "\<And>k. k < K \<Longrightarrow> length (rq ! k) = c" "\<And>k. k < K \<Longrightarrow> length (qq ! k) = c"
      using v by (auto simp: divided_def)
    have cat: "length (concat rl) = K * n" "length (concat rr) = K * n" "length (concat rq) = K * c" "length (concat qq) = K * c"
      using length_concat_slabs [of rl n] length_concat_slabs [of rr n] length_concat_slabs [of rq c] length_concat_slabs [of qq c]
        remainder_okD(1) [OF D(3) lens(1)] remainder_okD(1) [OF D(4) lens(2)] D(1,2) Q by (simp_all add: n)
    define pre where "pre = concat rl @ concat rr @ concat rq @ concat qq @ invs"
    have pre: "length pre = frame" unfolding pre_def length_append cat slots(9) area(2) by simp
    have "returns alloc (\<lambda>st :: 'a mpe_globals_scheme.
      fenger_eval_recurse_batch alloc t ctx T (Suc lev) (2 * i) rl (degs rl) out (drop frame scratch) arena mul_words K st \<bind>
        (\<lambda>((out, child_scratch, arena), st).
      fenger_eval_recurse_batch alloc t ctx T (Suc lev) (2 * i + 1) rr (degs rr) out child_scratch arena mul_words K st \<bind>
        (\<lambda>((out, child_scratch, arena), st). Some ((out, pre @ child_scratch, arena), st)))) ?Post"
    proof (rule returns_bind_triple [OF IH [OF children(1) D(3) Suc.prems(7,8)]])
      show "(6 * K + 2) * c \<le> length (drop frame scratch)" using area(1) by simp
      fix out' :: "gf64_t list list" and cs' :: "gf64_t list" and arena' :: "gf64_arena_t option"
      assume *: "out' = stored (2 * i * c) (node_points pts L (Suc lev) (2 * i)) f deg_fs K out \<and>
        length cs' = length (drop frame scratch) \<and> arena' = arena"
      show "returns alloc (\<lambda>st :: 'a mpe_globals_scheme.
        fenger_eval_recurse_batch alloc t ctx T (Suc lev) (2 * i + 1) rr (degs rr) out' cs' arena' mul_words K st \<bind>
        (\<lambda>((out, child_scratch, arena), st). Some ((out, pre @ child_scratch, arena), st))) ?Post"
        unfolding conjunct1 [OF *, folded out1_def] conjunct2 [OF conjunct2 [OF *]]
        by (rule right [OF D(4) _ pre]) (use conjunct1 [OF conjunct2 [OF *]] in simp_all)
    qed
    then show "returns alloc (\<lambda>st :: 'a mpe_globals_scheme.
      fenger_eval_recurse_batch alloc t ctx T (Suc lev) (2 * i) rl (degs rl) out (drop frame scratch) arena' mul_words K st \<bind>
        (\<lambda>((out, child_scratch, arena), st).
      fenger_eval_recurse_batch alloc t ctx T (Suc lev) (2 * i + 1) rr (degs rr) out child_scratch arena mul_words K st \<bind>
        (\<lambda>((out, child_scratch, arena), st).
          Some ((out, concat rl @ concat rr @ concat rq @ concat qq @ invs @ child_scratch, arena), st)))) ?Post"
      unfolding v' pre_def by simp
  qed
qed

end
