(* ===== verification/Fenger_Run.thy ===== *)
theory Fenger_Run
  imports Fenger_Eval
begin

text \<open>
  What the preparation of gf64/gf64_fenger.c returns, and what the execution computes in a prepared
  context, for a word and for a group of words.
\<close>

section \<open>The pool of reciprocals\<close>

lemma recip_ok_slice:
  assumes "recip_ok xs iv" "length xs = c" "slice pool pos c = iv" "length iv = c"
  shows "recip_ok xs (drop pos pool)"
  using assms by (simp add: recip_ok_def) (metis length_take min.bounded_iff order_refl length_drop)

text \<open>The slot of node \<open>i\<close> of level \<open>lev\<close> in the pool.\<close>

definition slot_at :: "nat \<Rightarrow> nat \<Rightarrow> nat \<Rightarrow> nat" where
  "slot_at L lev i = (lev - 1) * 2 ^ L + i * 2 ^ (L - lev)"

definition pool_filled :: "gf64_t list \<Rightarrow> nat \<Rightarrow> (nat \<Rightarrow> nat \<Rightarrow> bool) \<Rightarrow> gf64_t list \<Rightarrow> bool" where
  "pool_filled ys L A pool \<longleftrightarrow> length pool = L * 2 ^ L \<and>
    (\<forall>l j. A l j \<longrightarrow> 0 < l \<longrightarrow> l < L \<longrightarrow> j < 2 ^ l \<longrightarrow> recip_ok (node_points ys L l j) (slice pool (slot_at L l j) (2 ^ (L - l))))"

lemma slot_inside:
  assumes "0 < lev" "lev \<le> L" "i < 2 ^ lev"
  shows "(lev - 1) * 2 ^ L \<le> slot_at L lev i" "slot_at L lev i + 2 ^ (L - lev) \<le> lev * 2 ^ L"
proof -
  have "Suc i * 2 ^ (L - lev) \<le> 2 ^ lev * 2 ^ (L - lev)" using assms(3) by (intro mult_le_mono) simp_all
  also have "\<dots> = 2 ^ L" using assms(2) by (simp flip: power_add)
  finally have "i * 2 ^ (L - lev) + 2 ^ (L - lev) \<le> 2 ^ L" by simp
  moreover have "lev * 2 ^ L = (lev - 1) * 2 ^ L + 2 ^ L" using assms(1) by (cases lev) simp_all
  ultimately show "slot_at L lev i + 2 ^ (L - lev) \<le> lev * 2 ^ L" by (simp add: slot_at_def)
  show "(lev - 1) * 2 ^ L \<le> slot_at L lev i" by (simp add: slot_at_def)
qed

lemma slot_in_pool:
  assumes "0 < lev" "lev < L" "i < 2 ^ lev"
  shows "slot_at L lev i + 2 ^ (L - lev) \<le> L * 2 ^ L"
  using slot_inside(2) [OF assms(1) less_imp_le [OF assms(2)] assms(3)] mult_le_mono1 [OF less_imp_le [OF assms(2)], of "2 ^ L"]
  by (rule order_trans)

lemma slots_apart:
  assumes "0 < l" "l \<le> L" "i < 2 ^ l" "0 < m" "m \<le> L" "j < 2 ^ m" "l \<noteq> m \<or> i \<noteq> j"
  shows "slot_at L l i + 2 ^ (L - l) \<le> slot_at L m j \<or> slot_at L m j + 2 ^ (L - m) \<le> slot_at L l i"
proof -
  consider "l < m" | "m < l" | "l = m" "i < j" | "l = m" "j < i" using assms(7) by linarith
  then show ?thesis
  proof cases
    case 1
    then have "l * 2 ^ L \<le> (m - 1) * 2 ^ L" by (intro mult_le_mono) simp_all
    then show ?thesis using slot_inside(2) [OF assms(1-3)] slot_inside(1) [OF assms(4-6)] by linarith
  next
    case 2
    then have "m * 2 ^ L \<le> (l - 1) * 2 ^ L" by (intro mult_le_mono) simp_all
    then show ?thesis using slot_inside(1) [OF assms(1-3)] slot_inside(2) [OF assms(4-6)] by linarith
  next
    case 3
    then have "Suc i * 2 ^ (L - l) \<le> j * 2 ^ (L - l)" by (intro mult_le_mono) simp_all
    then show ?thesis using 3 by (simp add: slot_at_def)
  next
    case 4
    then have "Suc j * 2 ^ (L - l) \<le> i * 2 ^ (L - l)" by (intro mult_le_mono) simp_all
    then show ?thesis using 4 by (simp add: slot_at_def)
  qed
qed

lemma pool_filled_store:
  assumes filled: "pool_filled ys L A pool" and lev: "0 < lev" "lev < L" "i < 2 ^ lev"
    and iv: "length iv = 2 ^ (L - lev)" "recip_ok (node_points ys L lev i) iv"
  shows "pool_filled ys L (\<lambda>l j. A l j \<or> l = lev \<and> j = i) (store_words (slot_at L lev i) iv pool)"
proof -
  have room: "slot_at L lev i + length iv \<le> length pool"
    using filled slot_in_pool [OF lev] iv(1) by (simp add: pool_filled_def)
  have "recip_ok (node_points ys L l j) (slice (store_words (slot_at L lev i) iv pool) (slot_at L l j) (2 ^ (L - l)))"
    if new: "A l j \<or> l = lev \<and> j = i" and l: "0 < l" "l < L" "j < 2 ^ l" for l j
  proof (cases "l = lev \<and> j = i")
    case True
    then show ?thesis using slice_store_same [OF room] iv by simp
  next
    case False
    then have "slice (store_words (slot_at L lev i) iv pool) (slot_at L l j) (2 ^ (L - l)) = slice pool (slot_at L l j) (2 ^ (L - l))"
      using slots_apart [of lev L i l j] lev l iv(1) by (intro slice_store_apart [OF room]) auto
    then show ?thesis using filled new False l by (simp add: pool_filled_def)
  qed
  then show ?thesis using filled length_store_words [OF room] by (simp add: pool_filled_def)
qed

lemma reciprocal_words:
  assumes P: "c < length P" "poly P (Suc c) = vanish xs" "length xs = c"
    and R: "length R = c" "trunc c (poly (map (\<lambda>k. P ! (c - k)) [0..<c + 1]) (Suc c) * of_coeffs R) = 1"
  shows "recip_ok xs R"
proof -
  have "of_coeffs (map (\<lambda>k. P ! (c - k)) [0..<Suc c]) = trunc (Suc c) (rev_ser (Suc c) (poly P (Suc c)))"
    using of_coeffs_rev_words [of "Suc c" "Suc c" P] P(1) by simp
  then have "poly (map (\<lambda>k. P ! (c - k)) [0..<c + 1]) (Suc c) = rev_ser (Suc c) (vanish xs)"
    using P(2) by (simp add: trunc_below del: upt_Suc of_coeffs_take)
  then show ?thesis using R P(3) by (simp add: recip_ok_def del: upt_Suc of_coeffs_take)
qed

lemma returns_recip_child:
  assumes T: "tree_of ys L T" and lev: "0 < lev" "lev < L" "i < 2 ^ lev" and size: "2 ^ L \<le> SIZE_MAX div 3"
    and filled: "pool_filled ys L A pool" and P: "P = drop (node_at L lev i) (storage T)" and cur: "cursor = slot_at L lev i"
  shows "returns alloc (\<lambda>st :: 'a mpe_globals_scheme. fenger_recip_child alloc t P (2 ^ (L - lev)) ((pool, cursor), st))
    (\<lambda>(pool', cursor'). pool_filled ys L (\<lambda>l j. A l j \<or> l = lev \<and> j = i) pool' \<and> cursor' = cursor + 2 ^ (L - lev))"
proof -
  define c where "c = (2::nat) ^ (L - lev)"
  define rev where "rev = map (\<lambda>k. P ! (c - k)) [0..<c + 1]"
  note node = tree_node [OF T less_imp_le [OF lev(2)] lev(3) c_def P]
  have xs: "length (node_points ys L lev i) = c"
    using length_node_points [OF tree_of_fields(1) [OF T] less_imp_le [OF lev(2)] lev(3)] by (simp add: c_def)
  have room: "cursor + c \<le> length pool"
    using filled slot_in_pool [OF lev] by (simp add: pool_filled_def cur c_def)
  have "(2::nat) ^ (L - lev) \<le> 2 ^ L" by (rule power_increasing) simp_all
  then have cs: "0 < c" "c \<le> SIZE_MAX div 3" using size order_trans by (simp add: c_def, unfold c_def, blast)
  have top: "rev ! 0 \<noteq> 0" using node(3) by (simp add: rev_def nth_append del: upt_Suc)
  have "returns alloc (gf64_poly_invmod alloc t rev c c (take c (drop cursor pool)) :: 'a mpe_globals_scheme \<Rightarrow> _)
      (\<lambda>R. length R = c \<and> trunc c (poly rev (Suc c) * of_coeffs R) = 1)"
    by (rule returns_invmod [OF cs _ top]) (use room in \<open>simp_all add: rev_def del: upt_Suc\<close>)
  then have "returns alloc (gf64_poly_invmod alloc t rev c c (take c (drop cursor pool)) :: 'a mpe_globals_scheme \<Rightarrow> _)
      (\<lambda>R. length R = c \<and> recip_ok (node_points ys L lev i) R)"
    by (rule returns_weaken) (auto simp: rev_def intro!: reciprocal_words [OF node(1,2) xs])
  then have "returns alloc (\<lambda>st :: 'a mpe_globals_scheme. gf64_poly_invmod alloc t rev c c (take c (drop cursor pool)) st \<bind>
      (\<lambda>(R, st). Some ((store_words cursor R pool, cursor + c), st)))
      (\<lambda>(pool', cursor'). pool_filled ys L (\<lambda>l j. A l j \<or> l = lev \<and> j = i) pool' \<and> cursor' = cursor + c)"
    by (rule returns_bind) (use pool_filled_store [OF filled lev] in \<open>simp add: returns_return cur c_def\<close>)
  then show ?thesis by (simp add: fenger_recip_child_def Let_def rev_def c_def del: upt_Suc)
qed

lemma fold_levels: "fold F [Suc 0..<Suc n] s = fold (\<lambda>i. F (Suc i)) [0..<n] s"
proof -
  have "[Suc 0..<Suc n] = map Suc [0..<n]" by (simp add: map_Suc_upt del: upt_Suc)
  then show ?thesis by (simp add: fold_map comp_def del: upt_Suc)
qed

lemma returns_recip_pool:
  assumes T: "tree_of ys L T" and size: "2 ^ L \<le> SIZE_MAX div 3"
  shows "returns alloc (fenger_recip_pool alloc t T (2 ^ L) :: 'a mpe_globals_scheme \<Rightarrow> _)
    (\<lambda>pool. length pool = L * 2 ^ L \<and> (L = 0 \<or> pool_filled ys L (\<lambda>_ _. True) pool))"
proof (cases "L = 0")
  case True
  then show ?thesis using tree_of_fields(2) [OF T]
    by (intro returns_cong [OF returns_return]) (simp_all add: fenger_recip_pool_def)
next
  case False
  note fields = tree_of_fields [OF T]
  obtain M where M: "L = Suc M" using False by (cases L) simp_all
  define Q where "Q k i = (\<lambda>(pool, cursor). pool_filled ys L (\<lambda>l j. l \<le> k \<or> l = Suc k \<and> j < i) pool \<and>
      cursor = k * 2 ^ L + i * 2 ^ (L - Suc k))" for k i
  define child :: "nat \<Rightarrow> nat \<Rightarrow> (gf64_t list \<times> nat) \<times> 'a mpe_globals_scheme \<Rightarrow> ((gf64_t list \<times> nat) \<times> 'a mpe_globals_scheme) option"
    where "child k i = fenger_recip_child alloc t (drop (i * (2 ^ L div 2 ^ Suc k + 1)) (drop (level_data T ! Suc k) (storage T)))
      (2 ^ L div 2 ^ Suc k)" for k i
  have step: "returns alloc (\<lambda>st :: 'a mpe_globals_scheme. child k i (s, st)) (Q k (Suc i))"
    if k: "k < M" and i: "i < 2 ^ Suc k" and s: "Q k i s" for k i s
  proof -
    obtain pool cursor where s': "s = (pool, cursor)" by (cases s)
    have lev: "0 < Suc k" "Suc k < L" "i < 2 ^ Suc k" using k i M by simp_all
    have d: "(2::nat) ^ L div 2 ^ Suc k = 2 ^ (L - Suc k)" using lev(2) by (simp add: power_diff del: power_Suc)
    have P: "drop (i * (2 ^ (L - Suc k) + 1)) (drop (level_data T ! Suc k) (storage T)) = drop (node_at L (Suc k) i) (storage T)"
      using fields(5) [of "Suc k"] lev(2) by (simp add: node_at_def add.commute)
    have "returns alloc (\<lambda>st :: 'a mpe_globals_scheme. fenger_recip_child alloc t (drop (node_at L (Suc k) i) (storage T)) (2 ^ (L - Suc k)) ((pool, cursor), st))
      (\<lambda>(pool', cursor'). pool_filled ys L (\<lambda>l j. (l \<le> k \<or> l = Suc k \<and> j < i) \<or> l = Suc k \<and> j = i) pool' \<and>
        cursor' = cursor + 2 ^ (L - Suc k))"
      by (rule returns_recip_child [OF T lev size]) (use s s' in \<open>simp_all add: Q_def slot_at_def\<close>)
    then show ?thesis
      unfolding s' child_def d P
      by (rule returns_weaken) (use s s' in \<open>auto simp: Q_def less_Suc_eq pool_filled_def\<close>)
  qed
  have level: "returns alloc (\<lambda>st :: 'a mpe_globals_scheme. fold (\<lambda>i r. r \<bind> child k i) [0..<2 ^ Suc k] (Some (s, st))) (Q (Suc k) 0)"
    if k: "k < M" and s: "Q k 0 s" for k s
  proof -
    have all: "2 ^ Suc k * 2 ^ (L - Suc k) = (2::nat) ^ L" using k M by (simp flip: power_add)
    have "returns alloc (\<lambda>st :: 'a mpe_globals_scheme. fold (\<lambda>i r. r \<bind> child k i) [0..<2 ^ Suc k] (Some (s, st))) (Q k (2 ^ Suc k))"
      by (rule returns_fold_upt [OF s step [OF k]])
    then show ?thesis
      by (rule returns_weaken) (auto simp: Q_def all pool_filled_def le_Suc_eq simp del: power_Suc)
  qed
  have "returns alloc (\<lambda>st :: 'a mpe_globals_scheme. fold (\<lambda>k r. r \<bind> (\<lambda>s. fold (\<lambda>i r. r \<bind> child k i) [0..<2 ^ Suc k] (Some s)))
      [0..<M] (Some ((replicate (L * 2 ^ L) 0, 0), st))) (Q M 0)"
    by (rule returns_fold_upt [where P = "\<lambda>k. Q k 0"]) (use level in \<open>simp_all add: Q_def pool_filled_def\<close>)
  then have "returns alloc (\<lambda>st :: 'a mpe_globals_scheme. fold (\<lambda>k r. r \<bind> (\<lambda>s. fold (\<lambda>i r. r \<bind> child k i) [0..<2 ^ Suc k] (Some s)))
      [0..<M] (Some ((replicate (L * 2 ^ L) 0, 0), st)) \<bind> (\<lambda>((pool, cursor), st). Some (pool, st)))
      (pool_filled ys L (\<lambda>_ _. True))"
    by (rule returns_bind_pair [where P = "\<lambda>a b. Q M 0 (a, b)", simplified])
      (auto simp: Q_def M pool_filled_def intro!: returns_return)
  moreover have "fenger_recip_pool alloc t T (2 ^ L) st =
      fold (\<lambda>k r. r \<bind> (\<lambda>s. fold (\<lambda>i r. r \<bind> child k i) [0..<2 ^ Suc k] (Some s)))
      [0..<M] (Some ((replicate (L * 2 ^ L) 0, 0), st)) \<bind> (\<lambda>((pool, cursor), st). Some (pool, st))" for st :: "'a mpe_globals_scheme"
    using fields(2) M by (simp add: fenger_recip_pool_def fold_levels child_def Let_def del: upt_Suc power_Suc)
  ultimately show ?thesis using False by (simp add: returns_def pool_filled_def)
qed

section \<open>The context\<close>

definition root_inverses :: "gf64_t list \<Rightarrow> gf64_t list \<Rightarrow> gf64_t list" where
  "root_inverses xs ys = map (\<lambda>y. gf64_inverse (gf_rep (eval (Suc (length xs)) (vanish xs) (Gf y)))) ys"

definition context_ok :: "gf64_t list \<Rightarrow> nat \<Rightarrow> gf64_t list \<Rightarrow> nat \<Rightarrow> gf64_fenger_ctx \<Rightarrow> bool" where
  "context_ok xs LX ys LY ctx \<longleftrightarrow> tree_of xs LX (tree_x ctx) \<and> tree_of ys LY (tree_y ctx) \<and>
    V_prime_inv ctx = weight_words xs \<and> V_prime ctx = map gf64_inverse (weight_words xs) \<and>
    V_at_y_inv ctx = root_inverses xs ys \<and> pool_ok ys LY ctx \<and> ctx_N ctx = 2 ^ LX \<and> ctx_R ctx = 2 ^ LY \<and>
    num_inputs_real ctx \<le> 2 ^ LX \<and> num_recovery_real ctx \<le> 2 ^ LY"

lemma invert_all_eq:
  assumes "length out = n" "length inp = n"
  shows "fenger_invert_all g out inp n = map gf64_inverse inp"
proof -
  have "fold (\<lambda>c out. out[c := gf64_invert_ita_one (inp ! c)]) [0..<n] out = map (\<lambda>c. gf64_inverse (inp ! c)) [0..<n]"
    using assms by (simp add: gf64_invert_ita_one_eq fold_const_update_map)
  moreover have "gf64_invert_ita_batch out inp n = map (\<lambda>c. gf64_inverse (inp ! c)) [0..<n]"
    using assms by (simp add: gf64_invert_ita_batch_eq inverse_batch_scalar_words)
  ultimately show ?thesis using assms by (auto simp: fenger_invert_all_def intro: nth_equalityI)
qed

lemma length_fenger_points [simp]:
  "length (fenger_x_points a n k b) = n" "length (fenger_y_points a n) = n"
  by (simp_all add: fenger_x_points_def fenger_y_points_def)

lemma pool_filled_context:
  assumes T: "length ys = 2 ^ L" and pool: "L = 0 \<or> pool_filled ys L (\<lambda>_ _. True) (recip_pool ctx)" and R: "ctx_R ctx = 2 ^ L"
  shows "pool_ok ys L ctx"
proof -
  have "recip_ok (node_points ys L lev i) (fenger_recip_at ctx lev i)" if lev: "0 < lev" "lev < L" "i < 2 ^ lev" for lev i
  proof -
    have filled: "pool_filled ys L (\<lambda>_ _. True) (recip_pool ctx)" using pool lev by auto
    have d: "(2::nat) ^ L div 2 ^ lev = 2 ^ (L - lev)" using lev(2) by (simp add: power_diff)
    have "length (node_points ys L lev i) = 2 ^ (L - lev)" by (rule length_node_points [OF T less_imp_le [OF lev(2)] lev(3)])
    moreover have "recip_ok (node_points ys L lev i) (slice (recip_pool ctx) (slot_at L lev i) (2 ^ (L - lev)))"
      using filled lev by (simp add: pool_filled_def)
    moreover have "length (slice (recip_pool ctx) (slot_at L lev i) (2 ^ (L - lev))) = 2 ^ (L - lev)"
      using filled slot_in_pool [OF lev] by (simp add: pool_filled_def)
    ultimately show ?thesis
      using recip_ok_slice by (simp add: fenger_recip_at_def R d slot_at_def Let_def)
  qed
  then show ?thesis by (simp add: pool_ok_def)
qed

lemma prepare_core_run:
  assumes N: "N = 2 ^ LX" "64 * N \<le> SIZE_MAX" and R: "R = 2 ^ LY" "64 * R \<le> SIZE_MAX"
    and base: "base_x \<noteq> 0" "in_memory base_x (level_at LX (Suc LX))" "base_y \<noteq> 0" "in_memory base_y (level_at LY (Suc LY))"
    and real: "n \<le> N" "r \<le> R" and g: "weights_state_ok g" and st: "poly_ready alloc (st :: 'a mpe_globals_scheme)"
  obtains ctx g' st' where
    "gf64_fenger_prepare_core getenv hosts alloc t base_x base_y fi fr N R n r sb g st = Some ((ctx, g'), st')"
    "context_ok (fenger_x_points fi N n sb) LX (fenger_y_points fr R) LY ctx"
    "num_inputs_real ctx = n" "num_recovery_real ctx = r" "length (recip_pool ctx) = recip_pool_words ctx"
    "weights_state_ok g'" "poly_ready alloc st'"
proof -
  define xs ys where "xs = fenger_x_points fi N n sb" and "ys = fenger_y_points fr R"
  have len: "length xs = 2 ^ LX" "length ys = 2 ^ LY" by (simp_all add: xs_def ys_def N R)
  obtain TX s1 where 1: "gf64_subproduct_tree_build alloc t base_x xs N st = Some (TX, s1)" "tree_of xs LX TX" "poly_ready alloc s1"
    using returnsD [OF returns_tree_build [OF len(1) base(1,2)] st] N(1) by metis
  obtain TY s2 where 2: "gf64_subproduct_tree_build alloc t base_y ys R s1 = Some (TY, s2)" "tree_of ys LY TY" "poly_ready alloc s2"
    using returnsD [OF returns_tree_build [OF len(2) base(3,4)] 1(3)] R(1) by metis
  note fx = tree_of_fields [OF 1(2)] and fy = tree_of_fields [OF 2(2)]
  obtain g' s3 where 3: "gf64_barycentric_weights getenv hosts alloc t TX (replicate N 0) g s2 = Some ((weight_words xs, g'), s3)"
    "weights_state_ok g'" "poly_ready alloc s3"
    by (rule barycentric_run [OF 1(2) N(2) [unfolded N(1)] _ g 2(3), where out = "replicate N 0"]) (simp_all add: N)
  define root where "root = drop (level_data TX ! 0) (storage TX)"
  have root: "root = drop (node_at LX 0 0) (storage TX)" using fx(5) [of 0] by (simp add: root_def node_at_def)
  have deg: "2 ^ LX < length root" "poly root (Suc (2 ^ LX)) = vanish xs"
    using tree_node [OF 1(2) _ _ _ root, of "2 ^ LX"] node_points_root [OF len(1)] by simp_all
  have small: "2 ^ LX < SIZE_MAX" using N by (simp add: SIZE_MAX_def)
  have at_y: "map (point_value root (2 ^ LX)) ys = map (\<lambda>y. gf_rep (eval (Suc (length xs)) (vanish xs) (Gf y))) ys"
    by (simp add: point_value_def deg(2) len(1) del: of_coeffs_take)
  obtain s4 where 4: "gf64_multi_point_eval alloc t root N TY (replicate R 0) s3 = Some (map (point_value root (2 ^ LX)) ys, s4)"
    "poly_ready alloc s4"
    using returnsD [OF returns_multi_point_eval [OF 2(2) R(2) [unfolded R(1)] deg(1) small, of "replicate R 0" alloc t] 3(3)]
    by (metis N(1) R(1) length_replicate)
  obtain pool s5 where 5: "fenger_recip_pool alloc t TY R s4 = Some (pool, s5)" "LY = 0 \<or> pool_filled ys LY (\<lambda>_ _. True) pool"
    "length pool = LY * 2 ^ LY" "poly_ready alloc s5"
    by (rule returnsD [OF returns_recip_pool [OF 2(2), of alloc t] 4(2)])
      (use R in \<open>auto simp: SIZE_MAX_def\<close>)
  define ctx where "ctx = \<lparr>tree_x = TX, tree_y = TY, V_prime = map gf64_inverse (weight_words xs), V_prime_inv = weight_words xs,
     V_at_y_inv = root_inverses xs ys, recip_pool = pool, recip_pool_words = (if num_levels TY > 1 then (num_levels TY - 1) * R else 0),
     ctx_N = N, ctx_R = R, num_inputs_real = n, num_recovery_real = r\<rparr>"
  have inv: "fenger_invert_all g' (replicate N 0) (weight_words xs) N = map gf64_inverse (weight_words xs)"
    "fenger_invert_all g' (replicate R 0) (map (point_value root (2 ^ LX)) ys) R = root_inverses xs ys"
    using invert_all_eq [of "replicate N 0" N "weight_words xs" g'] invert_all_eq [of "replicate R 0" R "map (point_value root (2 ^ LX)) ys" g']
    by (simp_all add: weight_words_def len N R at_y root_inverses_def comp_def)
  have run: "gf64_fenger_prepare_core getenv hosts alloc t base_x base_y fi fr N R n r sb g st = Some ((ctx, g'), s5)"
    unfolding gf64_fenger_prepare_core_def xs_def [symmetric] ys_def [symmetric]
    using 1(1) 2(1) 3(1) 4(1) 5(1) inv fx(3) N(1) by (simp add: ctx_def root_def)
  have "pool_ok ys LY ctx" by (rule pool_filled_context [OF len(2)]) (use 5(2) R in \<open>simp_all add: ctx_def\<close>)
  then have "context_ok xs LX ys LY ctx" using 1(2) 2(2) real N R by (simp add: context_ok_def ctx_def)
  then show ?thesis using that [OF run] 3(2) 5(3,4) fy(2) R by (simp add: ctx_def xs_def ys_def)
qed

section \<open>The value of a row\<close>

definition cauchy_word :: "gf64_t list \<Rightarrow> gf64_t list \<Rightarrow> gf64_t \<Rightarrow> gf64_t" where
  "cauchy_word xs zs y =
    (if y \<in> set xs then 0 else gf_rep (\<Sum>c<length xs. Gf (zs ! c) / (Gf y + Gf (xs ! c))))"

lemma Gf_distance: "Gf a + Gf b = 0 \<longleftrightarrow> a = b"
  by (metis gf.inject gf_add_self add_eq_0_iff minus_unique)

lemma combination_cauchy:
  assumes "length xs = length zs" "y \<notin> set xs"
  shows "eval (length xs) (combination xs zs) (Gf y) =
    eval (Suc (length xs)) (vanish xs) (Gf y) * (\<Sum>c<length xs. Gf (zs ! c) / (Gf y + Gf (xs ! c)))"
  using assms
proof (induction xs zs rule: list_induct2)
  case (Cons x xs z zs)
  let ?n = "length xs" and ?y = "Gf y" and ?S = "\<Sum>c<length xs. Gf (zs ! c) / (Gf y + Gf (xs ! c))"
  have const: "below 1 (mono (Gf z) 0)" by (simp add: below_def cf_mono)
  have "eval (Suc ?n) (mono (Gf z) 0 * vanish xs) ?y = eval 1 (mono (Gf z) 0) ?y * eval (Suc ?n) (vanish xs) ?y"
    by (rule eval_mult [OF const below_vanish]) simp
  moreover have "eval (Suc ?n) (lin x * combination xs zs) ?y = eval 2 (lin x) ?y * eval ?n (combination xs zs) ?y"
    by (rule eval_mult [OF below_lin below_combination]) (use Cons.hyps in simp_all)
  ultimately have L: "eval (Suc ?n) (combination (x # xs) (z # zs)) ?y =
      Gf z * eval (Suc ?n) (vanish xs) ?y + (?y + Gf x) * eval ?n (combination xs zs) ?y"
    by (simp add: eval_add eval_lin eval_mono)
  have V: "eval (Suc (Suc ?n)) (vanish (x # xs)) ?y = (?y + Gf x) * eval (Suc ?n) (vanish xs) ?y"
    using eval_vanish [of "x # xs"] eval_vanish [of xs] by simp
  have S: "(\<Sum>c<Suc ?n. Gf ((z # zs) ! c) / (?y + Gf ((x # xs) ! c))) = Gf z / (?y + Gf x) + ?S"
    by (subst sum.lessThan_Suc_shift) simp
  have "?y + Gf x \<noteq> 0" using Cons.prems Gf_distance [of y x] by simp
  then have "(?y + Gf x) * eval (Suc ?n) (vanish xs) ?y * (Gf z / (?y + Gf x) + ?S) =
      Gf z * eval (Suc ?n) (vanish xs) ?y + (?y + Gf x) * (eval (Suc ?n) (vanish xs) ?y * ?S)"
    by (simp add: field_simps)
  then show ?case using L V S Cons by simp
qed (simp add: eval_def)

lemma row_value:
  assumes "length xs = 2 ^ L" "length zs = 2 ^ L"
  shows "gf64_mul_reference (point_value (to_coeffs (2 ^ L) (combination xs zs)) (2 ^ L - 1) y)
    (gf64_inverse (gf_rep (eval (Suc (length xs)) (vanish xs) (Gf y)))) = cauchy_word xs zs y"
proof -
  have F: "below (2 ^ L) (combination xs zs)" using below_combination [of xs zs] assms by simp
  have "Suc (2 ^ L - 1) = (2::nat) ^ L" by simp
  then have pv: "Gf (point_value (to_coeffs (2 ^ L) (combination xs zs)) (2 ^ L - 1) y) = eval (2 ^ L) (combination xs zs) (Gf y)"
    using F by (simp add: point_value_def trunc_below)
  show ?thesis
  proof (cases "y \<in> set xs")
    case True
    then have "eval (Suc (length xs)) (vanish xs) (Gf y) = 0" using eval_vanish_0_iff by simp
    then have "Gf (gf64_mul_reference (point_value (to_coeffs (2 ^ L) (combination xs zs)) (2 ^ L - 1) y)
        (gf64_inverse (gf_rep (eval (Suc (length xs)) (vanish xs) (Gf y))))) = Gf (cauchy_word xs zs y)"
      using True by (simp add: cauchy_word_def Gf_mul_reference Gf_inverse gf_eq_iff)
    then show ?thesis by simp
  next
    case False
    then have "eval (Suc (length xs)) (vanish xs) (Gf y) \<noteq> 0" using eval_vanish_0_iff [of xs y] by simp
    then have "Gf (gf64_mul_reference (point_value (to_coeffs (2 ^ L) (combination xs zs)) (2 ^ L - 1) y)
        (gf64_inverse (gf_rep (eval (Suc (length xs)) (vanish xs) (Gf y))))) = Gf (cauchy_word xs zs y)"
      using combination_cauchy [of xs zs y] False assms
      by (simp add: cauchy_word_def Gf_mul_reference Gf_inverse pv [simplified])
    then show ?thesis by simp
  qed
qed

section \<open>Words and rows\<close>

definition input_word :: "gf64_fenger_ctx \<Rightarrow> gf64_t list \<Rightarrow> nat \<Rightarrow> nat \<Rightarrow> gf64_t list" where
  "input_word ctx inp B w = map (\<lambda>c. if c < num_inputs_real ctx then inp ! (c * B + w) else 0) [0..<ctx_N ctx]"

lemma length_input_word [simp]: "length (input_word ctx inp B w) = ctx_N ctx"
  by (simp add: input_word_def)

lemma gather_eq:
  assumes "length wk = ctx_N ctx" "num_inputs_real ctx \<le> ctx_N ctx"
  shows "fenger_gather ctx inp B w wk = input_word ctx inp B w"
proof -
  have "fold (\<lambda>c wk. wk[c := inp ! (c * B + w)]) [0..<num_inputs_real ctx] wk =
      map (\<lambda>c. inp ! (c * B + w)) [0..<num_inputs_real ctx] @ drop (num_inputs_real ctx) wk"
    using assms by (simp add: fold_const_update_map)
  then show ?thesis
    using assms by (auto simp: fenger_gather_def input_word_def zero_words_eq nth_append Let_def intro!: nth_equalityI)
qed

lemma context_weights:
  assumes ctx: "context_ok xs LX ys LY ctx" "distinct xs" and ws: "length ws = 2 ^ LX"
  shows "gf64_elem_mul g (gf64_elem_mul g ws ws (V_prime ctx) (2 ^ LX)) (gf64_elem_mul g ws ws (V_prime ctx) (2 ^ LX)) (V_prime_inv ctx) (2 ^ LX) = ws"
    "map2 gf64_mul_reference (gf64_elem_mul g ws ws (V_prime ctx) (2 ^ LX)) (V_prime_inv ctx) = ws"
    "length (gf64_elem_mul g ws ws (V_prime ctx) (2 ^ LX)) = 2 ^ LX"
proof -
  have T: "tree_of xs LX (tree_x ctx)" using ctx(1) by (simp add: context_ok_def)
  note len = tree_of_fields(1) [OF T]
  have cancel: "gf64_mul_reference (gf64_mul_reference (ws ! i) (V_prime ctx ! i)) (V_prime_inv ctx ! i) = ws ! i" if i: "i < 2 ^ LX" for i
  proof -
    have "Gf (weight_words xs ! i) * eval (2 ^ LX) (deriv (vanish xs)) (Gf (xs ! i)) = 1"
      by (rule weight_words_inverse [OF len ctx(2) i])
    then have "Gf (weight_words xs ! i) \<noteq> 0" by auto
    moreover have "length (weight_words xs) = 2 ^ LX" by (simp add: weight_words_def len)
    ultimately have "Gf (gf64_mul_reference (gf64_mul_reference (ws ! i) (V_prime ctx ! i)) (V_prime_inv ctx ! i)) = Gf (ws ! i)"
      using ctx(1) i by (simp add: context_ok_def Gf_mul_reference Gf_inverse)
    then show ?thesis by simp
  qed
  have lens: "length (V_prime_inv ctx) = 2 ^ LX" using ctx(1) len by (simp add: context_ok_def weight_words_def)
  show "gf64_elem_mul g (gf64_elem_mul g ws ws (V_prime ctx) (2 ^ LX)) (gf64_elem_mul g ws ws (V_prime ctx) (2 ^ LX)) (V_prime_inv ctx) (2 ^ LX) = ws"
    "map2 gf64_mul_reference (gf64_elem_mul g ws ws (V_prime ctx) (2 ^ LX)) (V_prime_inv ctx) = ws"
    "length (gf64_elem_mul g ws ws (V_prime ctx) (2 ^ LX)) = 2 ^ LX"
    using cancel ws lens by (auto simp: elem_mul_eq intro!: nth_equalityI)
qed

text \<open>The output after the words \<open>lo \<le> w < hi\<close> of the first \<open>n\<close> rows of \<open>B\<close> words.\<close>

definition written :: "(nat \<Rightarrow> nat \<Rightarrow> gf64_t) \<Rightarrow> nat \<Rightarrow> nat \<Rightarrow> nat \<Rightarrow> nat \<Rightarrow> gf64_t list \<Rightarrow> gf64_t list" where
  "written v B n lo hi out =
    map (\<lambda>p. if p div B < n \<and> lo \<le> p mod B \<and> p mod B < hi then v (p div B) (p mod B) else out ! p) [0..<length out]"

lemma length_written [simp]: "length (written v B n lo hi out) = length out"
  by (simp add: written_def)

lemma written_none [simp]: "written v B n lo lo out = out"
  by (rule nth_equalityI) (auto simp: written_def)

lemma nth_scatter:
  assumes "w < B" "p < length out"
  shows "fold (\<lambda>r out. out[r * B + w := u r]) [0..<n] out ! p = (if p mod B = w \<and> p div B < n then u (p div B) else out ! p)"
proof (induction n)
  case (Suc n)
  have "n * B + w = p \<longleftrightarrow> p mod B = w \<and> p div B = n"
    using assms(1) div_mult_mod_eq [of p B] by auto
  then show ?case using Suc assms(2) by (auto simp: nth_list_update less_Suc_eq)
qed simp

lemma scatter_written:
  assumes w: "w < B" "lo \<le> w" and ctx: "context_ok xs LX ys LY ctx" and pk: "length pk = 2 ^ LY"
    and v: "\<And>r. r < num_recovery_real ctx \<Longrightarrow> gf64_mul_reference (pk ! r) (V_at_y_inv ctx ! r) = v r w"
  obtains pk' where "length pk' = length pk"
    "fenger_scatter g ctx B w pk (written v B (num_recovery_real ctx) lo w out) = (pk', written v B (num_recovery_real ctx) lo (Suc w) out)"
proof (cases "num_recovery_real ctx = 0")
  case True
  then have "written v B (num_recovery_real ctx) lo w out = written v B (num_recovery_real ctx) lo (Suc w) out"
    by (simp add: written_def)
  then show ?thesis using that [of pk] True by (simp add: fenger_scatter_def)
next
  case False
  define n where "n = num_recovery_real ctx"
  define pk' where "pk' = map (\<lambda>r. gf64_mul_reference (pk ! r) (V_at_y_inv ctx ! r)) [0..<n] @ drop n pk"
  have n: "n \<le> length pk" using ctx pk by (simp add: context_ok_def n_def)
  have "fold (\<lambda>r out. out[r * B + w := pk' ! r]) [0..<n] (written v B n lo w out) =
      fold (\<lambda>r out. out[r * B + w := v r w]) [0..<n] (written v B n lo w out)"
    by (rule fold_cong) (use v in \<open>auto simp: pk'_def nth_append n_def\<close>)
  also have "\<dots> = written v B n lo (Suc w) out"
  proof (rule nth_equalityI)
    have same: "length (fold (\<lambda>r out. out[r * B + w := v r w]) ns o') = length o'" for ns and o' :: "gf64_t list"
      by (induction ns arbitrary: o') simp_all
    then show "length (fold (\<lambda>r out. out[r * B + w := v r w]) [0..<n] (written v B n lo w out)) = length (written v B n lo (Suc w) out)"
      by simp
    fix p
    assume "p < length (fold (\<lambda>r out. out[r * B + w := v r w]) [0..<n] (written v B n lo w out))"
    then have p: "p < length out" using same by simp
    show "fold (\<lambda>r out. out[r * B + w := v r w]) [0..<n] (written v B n lo w out) ! p = written v B n lo (Suc w) out ! p"
      using nth_scatter [OF w(1), of p "written v B n lo w out" "\<lambda>r. v r w" n] p w
      by (auto simp: written_def less_Suc_eq)
  qed
  finally have "fenger_scatter g ctx B w pk (written v B n lo w out) = (pk', written v B n lo (Suc w) out)"
    using False n by (simp add: fenger_scatter_def elem_mul_eq pk'_def n_def Let_def)
  moreover have "length pk' = length pk" using n by (simp add: pk'_def)
  ultimately show ?thesis using that unfolding n_def by blast
qed

text \<open>What row \<open>r\<close> of word \<open>w\<close> becomes.\<close>

definition row_word :: "gf64_t list \<Rightarrow> gf64_t list \<Rightarrow> gf64_fenger_ctx \<Rightarrow> gf64_t list \<Rightarrow> nat \<Rightarrow> nat \<Rightarrow> nat \<Rightarrow> gf64_t" where
  "row_word xs ys ctx inp B r w = cauchy_word xs (input_word ctx inp B w) (ys ! r)"

lemma row_word_eq:
  assumes ctx: "context_ok xs LX ys LY ctx" and r: "r < num_recovery_real ctx"
  shows "gf64_mul_reference (map (point_value (to_coeffs (2 ^ LX) (combination xs (input_word ctx inp B w))) (2 ^ LX - 1)) ys ! r)
    (V_at_y_inv ctx ! r) = row_word xs ys ctx inp B r w"
proof -
  have T: "length xs = 2 ^ LX" "length ys = 2 ^ LY"
    using tree_of_fields(1) ctx by (auto simp: context_ok_def)
  have "r < length ys" using ctx r T by (simp add: context_ok_def)
  moreover have "length (input_word ctx inp B w) = 2 ^ LX" using ctx by (simp add: context_ok_def)
  ultimately show ?thesis
    using row_value [OF T(1), of "input_word ctx inp B w" "ys ! r"] ctx
    by (simp add: row_word_def context_ok_def root_inverses_def)
qed

section \<open>One word\<close>

lemma returns_execute_word:
  assumes ctx: "context_ok xs LX ys LY ctx" "distinct xs" and size: "64 * 2 ^ LY \<le> SIZE_MAX" "2 ^ LX \<le> SIZE_MAX"
    and w: "w < B" "lo \<le> w" and len: "length ws = 2 ^ LX" "length ps = 2 ^ LX" "length pk = 2 ^ LY"
  shows "returns alloc (\<lambda>st :: 'a mpe_globals_scheme. fenger_execute_word alloc t g ctx inp B w
      ((written (row_word xs ys ctx inp B) B (num_recovery_real ctx) lo w out, ws, ps, pk), st))
    (\<lambda>(out', ws', ps', pk'). out' = written (row_word xs ys ctx inp B) B (num_recovery_real ctx) lo (Suc w) out \<and>
      length ws' = 2 ^ LX \<and> length ps' = 2 ^ LX \<and> length pk' = 2 ^ LY)"
proof -
  let ?v = "row_word xs ys ctx inp B" and ?n = "num_recovery_real ctx" and ?z = "input_word ctx inp B w"
  have T: "tree_of xs LX (tree_x ctx)" "tree_of ys LY (tree_y ctx)" and real: "num_inputs_real ctx \<le> ctx_N ctx" and N: "ctx_N ctx = 2 ^ LX"
    using ctx(1) by (simp_all add: context_ok_def)
  note fx = tree_of_fields [OF T(1)] and fy = tree_of_fields [OF T(2)]
  define W where "W = gf64_elem_mul g ?z ?z (V_prime ctx) (2 ^ LX)"
  have lenz: "length ?z = 2 ^ LX" by (simp add: N)
  have W: "map2 gf64_mul_reference W (V_prime_inv ctx) = ?z" "length W = 2 ^ LX"
    using context_weights(2,3) [OF ctx lenz] by (simp_all add: W_def)
  have gather: "fenger_gather ctx inp B w ws = ?z" by (rule gather_eq) (use len(1) real N in simp_all)
  define p where "p = to_coeffs (2 ^ LX) (combination xs ?z)"
  have interp: "yields alloc (gf64_multi_point_interp_weights alloc t (tree_x ctx) W (Some (V_prime_inv ctx)) ps :: 'a mpe_globals_scheme \<Rightarrow> _) p"
    using returns_interp_weights [OF T(1) W(2), of "Some (V_prime_inv ctx)" ps alloc t] ctx(1) len(2) W(1) fx(1)
    by (simp add: scaled_def p_def context_ok_def weight_words_def)
  have small: "2 ^ LX - 1 < SIZE_MAX" using size(2) by (rule less_le_trans [rotated]) simp
  have eval: "yields alloc (gf64_multi_point_eval alloc t p (2 ^ LX - 1) (tree_y ctx) pk :: 'a mpe_globals_scheme \<Rightarrow> _)
      (map (point_value p (2 ^ LX - 1)) ys)"
    by (rule returns_multi_point_eval [OF T(2) size(1) _ small]) (use len(3) in \<open>simp_all add: p_def\<close>)
  obtain pk' where pk': "length pk' = 2 ^ LY" "fenger_scatter g ctx B w (map (point_value p (2 ^ LX - 1)) ys) (written ?v B ?n lo w out) =
      (pk', written ?v B ?n lo (Suc w) out)"
    by (rule scatter_written [OF w ctx(1), of "map (point_value p (2 ^ LX - 1)) ys" ?v g out])
      (use row_word_eq [OF ctx(1)] fy(1) in \<open>simp_all add: p_def\<close>)
  have run: "fenger_execute_word alloc t g ctx inp B w ((written ?v B ?n lo w out, ws, ps, pk), st) =
      gf64_multi_point_interp_weights alloc t (tree_x ctx) W (Some (V_prime_inv ctx)) ps st \<bind> (\<lambda>(ps, st).
      gf64_multi_point_eval alloc t ps (2 ^ LX - 1) (tree_y ctx) pk st \<bind> (\<lambda>(ys, st).
        case fenger_scatter g ctx B w ys (written ?v B ?n lo w out) of (ys, out) \<Rightarrow> Some ((out, W, ps, ys), st)))"
    for st :: "'a mpe_globals_scheme"
  proof -
    have "(if num_points (tree_x ctx) > 1 then num_points (tree_x ctx) - 1 else 0) = 2 ^ LX - 1" using fx(3) by simp
    then show ?thesis unfolding fenger_execute_word_def prod.case gather N Let_def W_def by simp
  qed
  show ?thesis
    by (rule returns_cong [OF _ run], rule yields_bind [OF interp], rule yields_bind [OF eval])
      (simp only: pk'(2) prod.case, rule returns_return, simp add: W(2) pk'(1) p_def)
qed

section \<open>A group of words\<close>

lemma fenger_horner_eq:
  assumes "deg < length f"
  shows "fenger_horner f deg x = point_value f deg x"
  using assms
proof (induction deg arbitrary: f)
  case 0
  then show ?case by (simp add: fenger_horner_def point_value_def eval_sum)
next
  case (Suc deg)
  have "rev [0..<Suc deg] = map Suc (rev [0..<deg]) @ [0]"
    by (simp add: upt_conv_Cons map_Suc_upt del: upt_Suc flip: rev_map)
  moreover have "fold (\<lambda>i acc. gf64_mul_reference acc x XOR f ! Suc i) (rev [0..<deg]) a =
      fold (\<lambda>i acc. gf64_mul_reference acc x XOR tl f ! i) (rev [0..<deg]) a" for a
    by (rule fold_cong) (use Suc.prems in \<open>auto simp: nth_tl\<close>)
  ultimately have "fenger_horner f (Suc deg) x = gf64_mul_reference (fenger_horner (tl f) deg x) x XOR f ! 0"
    using Suc.prems by (simp add: fenger_horner_def fold_map comp_def nth_tl del: upt_Suc)
  also have "\<dots> = gf64_mul_reference (point_value (tl f) deg x) x XOR f ! 0"
    using Suc by simp
  finally have "Gf (fenger_horner f (Suc deg) x) = Gf (point_value f (Suc deg) x)"
    using Suc.prems by (simp add: point_value_def eval_poly_cons Gf_xor Gf_mul_reference add.commute mult.commute)
  then show ?case by simp
qed

definition buffers_ok :: "nat \<Rightarrow> nat \<Rightarrow> nat \<Rightarrow> fenger_buffers \<Rightarrow> bool" where
  "buffers_ok K N R buf \<longleftrightarrow> length (weighted buf) = K \<and> (\<forall>k<K. length (weighted buf ! k) = N) \<and>
    length (poly_p buf) = K \<and> (\<forall>k<K. length (poly_p buf ! k) = N) \<and>
    length (p_at_y buf) = K \<and> (\<forall>k<K. length (p_at_y buf ! k) = R) \<and>
    8 * K * N \<le> length (interp_scratch buf) \<and> (6 * K + 4) * R \<le> length (eval_scratch buf) \<and> arena_room (8 * R) (ev_arena buf)"

lemma scatter_words:
  assumes w: "w0 + n \<le> B" "lo \<le> w0" and ctx: "context_ok xs LX ys LY ctx"
    and ps: "n \<le> length ps" "\<And>k. k < n \<Longrightarrow> length (ps ! k) = 2 ^ LY"
    and v: "\<And>k r. k < n \<Longrightarrow> r < num_recovery_real ctx \<Longrightarrow> gf64_mul_reference (ps ! k ! r) (V_at_y_inv ctx ! r) = v r (w0 + k)"
  obtains ps' where "length ps' = length ps" "\<And>k. length (ps' ! k) = length (ps ! k)"
    "fold (\<lambda>k (ys, out). let (pk, out) = fenger_scatter g ctx B (w0 + k) (ys ! k) out in (ys[k := pk], out)) [0..<n]
      (ps, written v B (num_recovery_real ctx) lo w0 out) = (ps', written v B (num_recovery_real ctx) lo (w0 + n) out)"
proof -
  have "m \<le> n \<Longrightarrow> \<exists>ps'. length ps' = length ps \<and> (\<forall>k. length (ps' ! k) = length (ps ! k)) \<and> (\<forall>k\<ge>m. ps' ! k = ps ! k) \<and>
    fold (\<lambda>k (ys, out). let (pk, out) = fenger_scatter g ctx B (w0 + k) (ys ! k) out in (ys[k := pk], out)) [0..<m]
      (ps, written v B (num_recovery_real ctx) lo w0 out) = (ps', written v B (num_recovery_real ctx) lo (w0 + m) out)" for m
  proof (induction m)
    case (Suc m)
    then obtain ps' where IH: "length ps' = length ps" "\<forall>k. length (ps' ! k) = length (ps ! k)" "\<forall>k\<ge>m. ps' ! k = ps ! k"
      "fold (\<lambda>k (ys, out). let (pk, out) = fenger_scatter g ctx B (w0 + k) (ys ! k) out in (ys[k := pk], out)) [0..<m]
        (ps, written v B (num_recovery_real ctx) lo w0 out) = (ps', written v B (num_recovery_real ctx) lo (w0 + m) out)" by auto
    have m: "m < n" using Suc.prems by simp
    have wm: "w0 + m < B" "lo \<le> w0 + m" using m w by simp_all
    obtain pk where pk: "length pk = length (ps ! m)"
      "fenger_scatter g ctx B (w0 + m) (ps ! m) (written v B (num_recovery_real ctx) lo (w0 + m) out) =
        (pk, written v B (num_recovery_real ctx) lo (Suc (w0 + m)) out)"
      by (rule scatter_written [OF wm ctx ps(2) [OF m], where v = v and out = out and g = g]) (use v [OF m] in simp_all)
    have "length (ps'[m := pk] ! k) = length (ps ! k)" for k
      by (cases "k = m") (use IH pk m ps(1) in simp_all)
    then show ?case
      using IH pk by (intro exI [of _ "ps'[m := pk]"]) auto
  qed auto
  from this [of n] that show ?thesis by auto
qed

text \<open>The polynomials of a group and their values.\<close>

definition word_poly :: "gf64_t list \<Rightarrow> gf64_fenger_ctx \<Rightarrow> gf64_t list \<Rightarrow> nat \<Rightarrow> nat \<Rightarrow> gf64_t list" where
  "word_poly xs ctx inp B w = to_coeffs (ctx_N ctx) (combination xs (input_word ctx inp B w))"

definition group_eval ::
  "allocator \<Rightarrow> nat \<Rightarrow> gf64_fenger_ctx \<Rightarrow> gf64_t list list \<Rightarrow> nat \<Rightarrow> fenger_buffers \<Rightarrow> nat \<Rightarrow> 'a mpe_globals_scheme \<Rightarrow>
    ((gf64_t list list \<times> gf64_t list \<times> gf64_arena_t option) \<times> 'a mpe_globals_scheme) option" where
  "group_eval alloc t ctx ps deg_p buf K st =
    (if ctx_R ctx = 1 \<or> deg_p \<ge> ctx_R ctx then
       Some ((fold (\<lambda>k ys. ys[k := fold (\<lambda>j pk. pk[j := fenger_horner (ps ! k) deg_p
           (storage (tree_y ctx) ! (level_data (tree_y ctx) ! (num_levels (tree_y ctx) - 1) + 2 * j))]) [0..<ctx_R ctx] (ys ! k)])
         [0..<K] (p_at_y buf), eval_scratch buf, ev_arena buf), st)
     else fenger_eval_recurse_batch alloc t ctx (tree_y ctx) 0 0 ps (replicate K deg_p) (p_at_y buf)
       (eval_scratch buf) (ev_arena buf) (4 * ctx_R ctx) K st)"

lemma returns_group_eval:
  assumes ctx: "context_ok xs LX ys LY ctx" and size: "64 * 2 ^ LY \<le> SIZE_MAX"
    and buf: "buffers_ok K0 N (2 ^ LY) buf" and K: "K \<le> K0" and ps: "\<And>k. k < K \<Longrightarrow> deg_p < length (ps ! k)"
  shows "returns alloc (group_eval alloc t ctx ps deg_p buf K :: 'a mpe_globals_scheme \<Rightarrow> _)
    (\<lambda>(qs, scratch, arena). qs = map (\<lambda>k. map (point_value (ps ! k) deg_p) ys) [0..<K] @ drop K (p_at_y buf) \<and>
      length scratch = length (eval_scratch buf) \<and> arena = ev_arena buf)"
proof -
  have T: "tree_of ys LY (tree_y ctx)" and R: "ctx_R ctx = 2 ^ LY" and pool: "pool_ok ys LY ctx"
    using ctx by (simp_all add: context_ok_def)
  note fy = tree_of_fields [OF T]
  have lens: "K \<le> length (p_at_y buf)" "\<And>k. k < K \<Longrightarrow> length (p_at_y buf ! k) = 2 ^ LY"
    using buf K by (simp_all add: buffers_ok_def)
  show ?thesis
  proof (cases "ctx_R ctx = 1 \<or> deg_p \<ge> ctx_R ctx")
    case True
    have leaf: "storage (tree_y ctx) ! (level_data (tree_y ctx) ! (num_levels (tree_y ctx) - 1) + 2 * j) = ys ! j" if "j < 2 ^ LY" for j
      using tree_leaf [OF T that] fy(2,5) by simp
    have row: "fold (\<lambda>j pk. pk[j := fenger_horner (ps ! k) deg_p
           (storage (tree_y ctx) ! (level_data (tree_y ctx) ! (num_levels (tree_y ctx) - 1) + 2 * j))]) [0..<ctx_R ctx] (p_at_y buf ! k) =
        map (point_value (ps ! k) deg_p) ys" if k: "k < K" for k
      using lens(2) [OF k] fy(1) leaf ps [OF k]
      by (auto simp: R fold_const_update_map fenger_horner_eq intro!: nth_equalityI)
    have "fold (\<lambda>k ys. ys[k := fold (\<lambda>j pk. pk[j := fenger_horner (ps ! k) deg_p
           (storage (tree_y ctx) ! (level_data (tree_y ctx) ! (num_levels (tree_y ctx) - 1) + 2 * j))]) [0..<ctx_R ctx] (ys ! k)])
         [0..<K] (p_at_y buf) = map (\<lambda>k. map (point_value (ps ! k) deg_p) ys) [0..<K] @ drop K (p_at_y buf)"
      using each_slab [OF lens(1), of "\<lambda>k o'. fold (\<lambda>j pk. pk[j := fenger_horner (ps ! k) deg_p
           (storage (tree_y ctx) ! (level_data (tree_y ctx) ! (num_levels (tree_y ctx) - 1) + 2 * j))]) [0..<ctx_R ctx] o'"] row
      by simp
    then show ?thesis using True by (intro returns_cong [OF returns_return]) (auto simp: group_eval_def)
  next
    case False
    have third: "(2::nat) ^ LY \<le> SIZE_MAX div 3" using size by (simp add: SIZE_MAX_def)
    have scratch: "(6 * K + 2) * 2 ^ LY \<le> length (eval_scratch buf)"
    proof -
      have "(6 * K + 2) * 2 ^ LY \<le> (6 * K0 + 4) * (2::nat) ^ LY" using K by (intro mult_le_mono) simp_all
      then show ?thesis using buf by (simp add: buffers_ok_def)
    qed
    have "returns alloc (fenger_eval_recurse_batch alloc t ctx (tree_y ctx) 0 0 ps (replicate K deg_p) (p_at_y buf)
       (eval_scratch buf) (ev_arena buf) (4 * 2 ^ LY) K :: 'a mpe_globals_scheme \<Rightarrow> _)
      (\<lambda>(out', scratch', arena'). out' = stored (0 * 2 ^ LY) (node_points ys LY 0 0) ps (replicate K deg_p) K (p_at_y buf) \<and>
        length scratch' = length (eval_scratch buf) \<and> arena' = ev_arena buf)"
      by (rule returns_eval_recurse_batch [OF T pool third]) (use False R lens scratch buf ps in \<open>simp_all add: buffers_ok_def\<close>)
    moreover have "stored (0 * 2 ^ LY) (node_points ys LY 0 0) ps (replicate K deg_p) K (p_at_y buf) =
        map (\<lambda>k. map (point_value (ps ! k) deg_p) ys) [0..<K] @ drop K (p_at_y buf)"
      using lens fy(1) by (simp add: stored_def node_points_root store_words_def)
    ultimately show ?thesis
      using False R by (simp add: group_eval_def returns_def)
  qed
qed

lemma returns_execute_group:
  assumes ctx: "context_ok xs LX ys LY ctx" "distinct xs" and size: "64 * 2 ^ LY \<le> SIZE_MAX"
    and buf: "buffers_ok K (2 ^ LX) (2 ^ LY) buf" and w: "w0 < w_end" "w_end \<le> B" "lo \<le> w0"
  shows "returns alloc (\<lambda>st :: 'a mpe_globals_scheme. fenger_execute_group alloc t g ctx inp B w_end K w0
      ((written (row_word xs ys ctx inp B) B (num_recovery_real ctx) lo w0 out, buf), st))
    (\<lambda>(out', buf'). out' = written (row_word xs ys ctx inp B) B (num_recovery_real ctx) lo (min w_end (w0 + K)) out \<and>
      buffers_ok K (2 ^ LX) (2 ^ LY) buf')"
proof -
  let ?v = "row_word xs ys ctx inp B" and ?n = "num_recovery_real ctx"
  have T: "tree_of xs LX (tree_x ctx)" "tree_of ys LY (tree_y ctx)" and N: "ctx_N ctx = 2 ^ LX"
    and real: "num_inputs_real ctx \<le> ctx_N ctx" using ctx(1) by (simp_all add: context_ok_def)
  note fx = tree_of_fields [OF T(1)] and fy = tree_of_fields [OF T(2)]
  note lens = buf [unfolded buffers_ok_def]
  define K' where "K' = (if w_end - w0 < K then w_end - w0 else K)"
  have K': "K' \<le> K" "w0 + K' = min w_end (w0 + K)" "w0 + K' \<le> B" using w by (auto simp: K'_def)
  define ws where "ws = map (\<lambda>k. input_word ctx inp B (w0 + k)) [0..<K'] @ drop K' (weighted buf)"
  have wslen: "length ws = K" "\<And>k. k < K \<Longrightarrow> length (ws ! k) = 2 ^ LX" "\<And>k. k < K' \<Longrightarrow> ws ! k = input_word ctx inp B (w0 + k)"
    using lens K'(1) N by (auto simp: ws_def nth_append)
  have gathered: "fold (\<lambda>k ws. ws[k := fenger_gather ctx inp B (w0 + k) (ws ! k)]) [0..<K'] (weighted buf) = ws"
  proof -
    have "fold (\<lambda>k ws. ws[k := fenger_gather ctx inp B (w0 + k) (ws ! k)]) [0..<K'] (weighted buf) =
        map (\<lambda>k. fenger_gather ctx inp B (w0 + k) (weighted buf ! k)) [0..<K'] @ drop K' (weighted buf)"
      by (rule each_slab) (use lens K'(1) in simp)
    then show ?thesis using lens K'(1) N gather_eq [OF _ real] by (simp add: ws_def)
  qed
  define W where "W k wk = gf64_elem_mul g wk wk (V_prime ctx) (2 ^ LX)" for k :: nat and wk
  define U where "U k wk = gf64_elem_mul g wk wk (V_prime_inv ctx) (2 ^ LX)" for k :: nat and wk
  define ws1 where "ws1 = fold (\<lambda>k ws. ws[k := W k (ws ! k)]) [0..<K'] ws"
  have weighted: "fold (\<lambda>k ws. ws[k := U k (ws ! k)]) [0..<K'] ws1 = ws"
  proof -
    have 1: "ws1 = map (\<lambda>k. W k (ws ! k)) [0..<K'] @ drop K' ws"
      unfolding ws1_def by (rule each_slab) (use wslen K'(1) in simp)
    have "fold (\<lambda>k ws. ws[k := U k (ws ! k)]) [0..<K'] ws1 = map (\<lambda>k. U k (ws1 ! k)) [0..<K'] @ drop K' ws1"
      by (rule each_slab) (use wslen K'(1) in \<open>simp add: 1\<close>)
    also have "\<dots> = map (\<lambda>k. ws ! k) [0..<K'] @ drop K' ws"
      using wslen K'(1) by (simp add: 1 U_def W_def nth_append N context_weights(1) [OF ctx])
    also have "\<dots> = ws" using wslen(1) K'(1) by (auto intro!: nth_equalityI simp: nth_append)
    finally show ?thesis .
  qed
  define P where "P k = word_poly xs ctx inp B (w0 + k)" for k
  define ps where "ps = map P [0..<K'] @ drop K' (poly_p buf)"
  have P: "length (P k) = 2 ^ LX" for k by (simp add: P_def word_poly_def N)
  have pslen: "length ps = K" "\<And>k. k < K \<Longrightarrow> length (ps ! k) = 2 ^ LX" "\<And>k. k < K' \<Longrightarrow> ps ! k = P k"
    using lens K'(1) P by (auto simp: ps_def nth_append)
  have scr: "6 * K' * 2 ^ LX \<le> length (interp_scratch buf)"
  proof -
    have "6 * K' * 2 ^ LX \<le> 8 * K * (2::nat) ^ LX" using K'(1) by (intro mult_le_mono) simp_all
    also have "\<dots> \<le> length (interp_scratch buf)" using lens by simp
    finally show ?thesis .
  qed
  have wsP: "map (\<lambda>k. to_coeffs (2 ^ LX) (combination xs (ws ! k))) [0..<K'] = map P [0..<K']"
    using wslen(3) by (simp add: P_def word_poly_def N)
  have interp: "returns alloc (fenger_interp_batch alloc t (tree_x ctx) ws K' (poly_p buf) (interp_scratch buf) (32 * 2 ^ LX) :: 'a mpe_globals_scheme \<Rightarrow> _)
      (\<lambda>(ps', scratch'). ps' = ps \<and> length scratch' = length (interp_scratch buf))"
    using returns_interp_batch [OF T(1) _ _ _ scr, where z = ws and out = "poly_p buf" and mul_words = "32 * 2 ^ LX" and alloc = alloc and t = t]
      wslen(2) lens K'(1) by (simp add: wsP ps_def)
  define deg where "deg = (2::nat) ^ LX - 1"
  define qs where "qs = map (\<lambda>k. map (point_value (ps ! k) deg) ys) [0..<K'] @ drop K' (p_at_y buf)"
  have qlen: "length qs = K" "\<And>k. k < K \<Longrightarrow> length (qs ! k) = 2 ^ LY" "\<And>k. k < K' \<Longrightarrow> qs ! k = map (point_value (P k) deg) ys"
    using lens K'(1) fy(1) pslen(3) by (auto simp: qs_def nth_append)
  have eval: "returns alloc (group_eval alloc t ctx ps deg buf K' :: 'a mpe_globals_scheme \<Rightarrow> _)
      (\<lambda>(qs', scratch, arena). qs' = qs \<and> length scratch = length (eval_scratch buf) \<and> arena = ev_arena buf)"
    unfolding qs_def by (rule returns_group_eval [OF ctx(1) size buf K'(1)]) (use pslen K'(1) P in \<open>simp add: deg_def\<close>)
  obtain qs' where qs': "length qs' = length qs" "\<And>k. length (qs' ! k) = length (qs ! k)"
    "fold (\<lambda>k (ys, out). let (pk, out) = fenger_scatter g ctx B (w0 + k) (ys ! k) out in (ys[k := pk], out)) [0..<K']
      (qs, written ?v B ?n lo w0 out) = (qs', written ?v B ?n lo (w0 + K') out)"
    by (rule scatter_words [OF K'(3) w(3) ctx(1), where ps = qs and v = ?v and g = g and out = out])
      (use qlen K'(1) row_word_eq [OF ctx(1)] fy(1) in \<open>simp_all add: P_def word_poly_def N deg_def\<close>)
  have run: "fenger_execute_group alloc t g ctx inp B w_end K w0 ((written ?v B ?n lo w0 out, buf), st) =
      fenger_interp_batch alloc t (tree_x ctx) ws K' (poly_p buf) (interp_scratch buf) (32 * 2 ^ LX) st \<bind> (\<lambda>((ps, isc), st).
      group_eval alloc t ctx ps deg buf K' st \<bind> (\<lambda>((qs, esc, arena), st).
        case fold (\<lambda>k (ys, out). let (pk, out) = fenger_scatter g ctx B (w0 + k) (ys ! k) out in (ys[k := pk], out)) [0..<K']
          (qs, written ?v B ?n lo w0 out) of (ys, out) \<Rightarrow>
        Some ((out, \<lparr>weighted = ws, poly_p = ps, p_at_y = ys, interp_scratch = isc, eval_scratch = esc, ev_arena = arena\<rparr>), st)))"
    for st :: "'a mpe_globals_scheme"
  proof -
    have deg: "(if num_points (tree_x ctx) > 1 then num_points (tree_x ctx) - 1 else 0) = deg" using fx(3) by (simp add: deg_def)
    show ?thesis
      unfolding fenger_execute_group_def group_eval_def prod.case Let_def deg K'_def [symmetric] gathered N
        weighted [unfolded ws1_def W_def U_def] ..
  qed
  show ?thesis
  proof (rule returns_cong [OF _ run], rule returns_bind_pair [OF interp])
    fix ps' :: "gf64_t list list" and isc :: "gf64_t list"
    assume 1: "ps' = ps \<and> length isc = length (interp_scratch buf)"
    show "returns alloc (\<lambda>st :: 'a mpe_globals_scheme. group_eval alloc t ctx ps' deg buf K' st \<bind> (\<lambda>((qs, esc, arena), st).
        case fold (\<lambda>k (ys, out). let (pk, out) = fenger_scatter g ctx B (w0 + k) (ys ! k) out in (ys[k := pk], out)) [0..<K']
          (qs, written ?v B ?n lo w0 out) of (ys, out) \<Rightarrow>
        Some ((out, \<lparr>weighted = ws, poly_p = ps', p_at_y = ys, interp_scratch = isc, eval_scratch = esc, ev_arena = arena\<rparr>), st)))
      (\<lambda>(out', buf'). out' = written ?v B ?n lo (min w_end (w0 + K)) out \<and> buffers_ok K (2 ^ LX) (2 ^ LY) buf')"
      unfolding conjunct1 [OF 1]
    proof (rule returns_bind_triple [OF eval])
      fix q :: "gf64_t list list" and esc :: "gf64_t list" and arena :: "gf64_arena_t option"
      assume 2: "q = qs \<and> length esc = length (eval_scratch buf) \<and> arena = ev_arena buf"
      show "returns alloc (\<lambda>st :: 'a mpe_globals_scheme.
        case fold (\<lambda>k (ys, out). let (pk, out) = fenger_scatter g ctx B (w0 + k) (ys ! k) out in (ys[k := pk], out)) [0..<K']
          (q, written ?v B ?n lo w0 out) of (ys, out) \<Rightarrow>
        Some ((out, \<lparr>weighted = ws, poly_p = ps, p_at_y = ys, interp_scratch = isc, eval_scratch = esc, ev_arena = arena\<rparr>), st))
        (\<lambda>(out', buf'). out' = written ?v B ?n lo (min w_end (w0 + K)) out \<and> buffers_ok K (2 ^ LX) (2 ^ LY) buf')"
        unfolding conjunct1 [OF 2] qs'(3) prod.case
        by (rule returns_return) (use 1 2 lens wslen pslen qlen qs'(1,2) K'(2) in \<open>simp add: buffers_ok_def\<close>)
    qed
  qed
qed

section \<open>All the words\<close>

lemma returns_execute_batched:
  assumes ctx: "context_ok xs LX ys LY ctx" "distinct xs" and size: "64 * 2 ^ LY \<le> SIZE_MAX" "64 * 2 ^ LX \<le> SIZE_MAX"
    and K: "0 < K" and w: "w_start \<le> w_end" "w_end \<le> B"
  shows "yields alloc (gf64_fenger_execute_batched alloc t g ctx inp B out w_start w_end K :: 'a mpe_globals_scheme \<Rightarrow> _)
    (written (row_word xs ys ctx inp B) B (num_recovery_real ctx) w_start w_end out)"
proof -
  let ?v = "row_word xs ys ctx inp B" and ?n = "num_recovery_real ctx"
  have N: "ctx_N ctx = 2 ^ LX" "ctx_R ctx = 2 ^ LY" using ctx(1) by (simp_all add: context_ok_def)
  define words where "words = 8 * (if ctx_N ctx > ctx_R ctx then ctx_N ctx else ctx_R ctx)"
  have "8 * 2 ^ LY \<le> words" "words \<noteq> 0" "words \<le> SIZE_MAX div 8"
    using size by (simp_all add: words_def N SIZE_MAX_def)
  then obtain arena where arena: "gf64_arena_init words = (0, arena)" "arena_room (8 * 2 ^ LY) (Some arena)"
    by (auto simp: gf64_arena_init_def arena_room_def SIZE_MAX_def)
  define buf where "buf = \<lparr>weighted = replicate K (replicate (ctx_N ctx) 0), poly_p = replicate K (replicate (ctx_N ctx) 0),
     p_at_y = replicate K (replicate (ctx_R ctx) 0), interp_scratch = replicate (8 * K * ctx_N ctx) 0,
     eval_scratch = replicate ((6 * K + 4) * ctx_R ctx) 0, ev_arena = Some arena\<rparr>"
  have buf: "buffers_ok K (2 ^ LX) (2 ^ LY) buf" using arena(2) by (simp add: buffers_ok_def buf_def N)
  define M where "M = (w_end - w_start + K - 1) div K"
  define Q where "Q m = (\<lambda>(out', buf'). out' = written ?v B ?n w_start (min w_end (w_start + m * K)) out \<and>
    buffers_ok K (2 ^ LX) (2 ^ LY) buf')" for m
  have "returns alloc (\<lambda>st :: 'a mpe_globals_scheme. fold (\<lambda>m r. r \<bind> fenger_execute_group alloc t g ctx inp B w_end K (w_start + m * K))
      [0..<M] (Some ((out, buf), st))) (Q M)"
  proof (rule returns_fold_upt [where P = Q])
    show "Q 0 (out, buf)" using buf w by (simp add: Q_def)
    fix m s
    assume m: "m < M" and s: "Q m s"
    have "Suc m * K \<le> M * K" using m by (intro mult_le_mono) simp_all
    also have "\<dots> \<le> w_end - w_start + K - 1" by (simp add: M_def)
    finally have *: "w_start + m * K < w_end" using K by simp
    then have mn: "min w_end (w_start + m * K) = w_start + m * K" by simp
    obtain buf' where s': "s = (written ?v B ?n w_start (w_start + m * K) out, buf')" "buffers_ok K (2 ^ LX) (2 ^ LY) buf'"
      using s mn by (cases s) (auto simp: Q_def)
    have "w_start + m * K + K = w_start + Suc m * K" by simp
    with returns_execute_group [OF ctx size(1) s'(2) * w(2) le_add1, where alloc = alloc and t = t and g = g and inp = inp and out = out]
    show "returns alloc (\<lambda>st :: 'a mpe_globals_scheme. fenger_execute_group alloc t g ctx inp B w_end K (w_start + m * K) (s, st)) (Q (Suc m))"
      unfolding s'(1) Q_def by (simp only:)
  qed
  moreover have "min w_end (w_start + M * K) = w_end"
  proof -
    have "w_end - w_start + K - 1 < M * K + K"
      using mod_less_divisor [OF K] div_mult_mod_eq [of "w_end - w_start + K - 1" K] unfolding M_def by (metis add_less_cancel_left)
    then show ?thesis by simp
  qed
  ultimately have loop: "returns alloc (\<lambda>st :: 'a mpe_globals_scheme. fold (\<lambda>m r. r \<bind> fenger_execute_group alloc t g ctx inp B w_end K (w_start + m * K))
      [0..<M] (Some ((out, buf), st))) (\<lambda>(out', buf'). out' = written ?v B ?n w_start w_end out)"
    by (auto simp: Q_def elim!: returns_weaken)
  have run: "gf64_fenger_execute_batched alloc t g ctx inp B out w_start w_end K st =
      fold (\<lambda>m r. r \<bind> fenger_execute_group alloc t g ctx inp B w_end K (w_start + m * K)) [0..<M] (Some ((out, buf), st)) \<bind>
      (\<lambda>((out, _), st). Some (out, st))" for st :: "'a mpe_globals_scheme"
    unfolding gf64_fenger_execute_batched_def Let_def words_def [symmetric] arena(1) prod.case buf_def [symmetric] M_def by simp
  show ?thesis
    by (rule returns_cong [OF _ run], rule returns_bind_pair [OF loop]) (rule returns_return, assumption)
qed

lemma returns_execute:
  assumes ctx: "context_ok xs LX ys LY ctx" "distinct xs" and size: "64 * 2 ^ LY \<le> SIZE_MAX" "64 * 2 ^ LX \<le> SIZE_MAX" and w: "w_end \<le> B"
  shows "yields alloc (gf64_fenger_execute getenv alloc t g (Some ctx) inp B out w_start w_end :: 'a mpe_globals_scheme \<Rightarrow> _)
    (written (row_word xs ys ctx inp B) B (num_recovery_real ctx) w_start w_end out)"
proof (cases "B = 0 \<or> w_start \<ge> w_end")
  case True
  then have "written (row_word xs ys ctx inp B) B (num_recovery_real ctx) w_start w_end out = out"
    using w by (auto simp: written_def intro!: nth_equalityI)
  then show ?thesis using True by (intro returns_cong [OF returns_return]) (auto simp: gf64_fenger_execute_def)
next
  case False
  let ?v = "row_word xs ys ctx inp B" and ?n = "num_recovery_real ctx"
  have N: "ctx_N ctx = 2 ^ LX" "ctx_R ctx = 2 ^ LY" using ctx(1) by (simp_all add: context_ok_def)
  show ?thesis
  proof (cases "fenger_batch_words getenv \<ge> 2")
    case True
    have "yields alloc (gf64_fenger_execute_batched alloc t g ctx inp B out w_start w_end (fenger_batch_words getenv) :: 'a mpe_globals_scheme \<Rightarrow> _)
        (written ?v B ?n w_start w_end out)"
      by (rule returns_execute_batched [OF ctx size]) (use True False w in simp_all)
    then show ?thesis using True False by (simp add: gf64_fenger_execute_def returns_def Let_def)
  next
    case few: False
    define step :: "nat \<Rightarrow> (gf64_t list \<times> gf64_t list \<times> gf64_t list \<times> gf64_t list) \<times> 'a mpe_globals_scheme \<Rightarrow> _" where "step i = fenger_execute_word alloc t g ctx inp B (w_start + i)" for i
    define bufs where "bufs = (replicate (ctx_N ctx) (0 :: gf64_t), replicate (ctx_N ctx) (0 :: gf64_t), replicate (ctx_R ctx) (0 :: gf64_t))"
    define Q :: "nat \<Rightarrow> gf64_t list \<times> gf64_t list \<times> gf64_t list \<times> gf64_t list \<Rightarrow> bool" where "Q i = (\<lambda>(out', ws, ps, qs). out' = written ?v B ?n w_start (w_start + i) out \<and>
      length ws = 2 ^ LX \<and> length ps = 2 ^ LX \<and> length qs = 2 ^ LY)" for i
    have LX: "2 ^ LX \<le> SIZE_MAX" using size(2) by simp
    have loop: "returns alloc (\<lambda>st :: 'a mpe_globals_scheme. fold (\<lambda>i r. r \<bind> step i) [0..<w_end - w_start] (Some ((out, bufs), st)))
      (Q (w_end - w_start))"
    proof (rule returns_fold_upt [where P = Q])
      show "Q 0 (out, bufs)" by (simp add: Q_def bufs_def N)
      fix i s
      assume i: "i < w_end - w_start" and s: "Q i s"
      obtain ws ps qs where s': "s = (written ?v B ?n w_start (w_start + i) out, ws, ps, qs)" "length ws = 2 ^ LX" "length ps = 2 ^ LX"
        "length qs = 2 ^ LY" using s by (cases s) (auto simp: Q_def)
      have wi: "w_start + i < B" "w_start \<le> w_start + i" using i w by simp_all
      from returns_execute_word [OF ctx size(1) LX wi s'(2-4), where alloc = alloc and t = t and g = g and inp = inp and out = out]
      show "returns alloc (\<lambda>st :: 'a mpe_globals_scheme. step i (s, st)) (Q (Suc i))"
        unfolding s'(1) Q_def step_def by simp
    qed
    have shift: "[w_start..<w_end] = map ((+) w_start) [0..<w_end - w_start]"
      using map_add_upt [of w_start "w_end - w_start"] False by (simp add: add.commute [of _ w_start] cong: map_cong)
    have run: "gf64_fenger_execute getenv alloc t g (Some ctx) inp B out w_start w_end st =
        fold (\<lambda>i r. r \<bind> step i) [0..<w_end - w_start] (Some ((out, bufs), st)) \<bind> (\<lambda>((out, _), st). Some (out, st))"
      for st :: "'a mpe_globals_scheme"
      using few False by (simp add: gf64_fenger_execute_def shift fold_map comp_def step_def bufs_def Let_def)
    show ?thesis
    proof (rule returns_cong [OF _ run], rule returns_bind_pair)
      show "returns alloc (\<lambda>st :: 'a mpe_globals_scheme. fold (\<lambda>i r. r \<bind> step i) [0..<w_end - w_start] (Some ((out, bufs), st)))
        (\<lambda>(out', _). out' = written ?v B ?n w_start w_end out)"
        by (rule returns_weaken [OF loop]) (use False in \<open>auto simp: Q_def\<close>)
    qed (simp add: returns_return)
  qed
qed

end
