(* ===== verification/Fenger_Correctness.thy ===== *)
theory Fenger_Correctness
  imports Fenger_Run Interpolation_Correctness
begin

text \<open>The properties of the Toeplitz pipeline.\<close>

text \<open>Sizes the pipeline is built for: powers of two whose buffers have a byte size, trees in memory.\<close>

definition fenger_sizes :: "nat \<Rightarrow> nat \<Rightarrow> nat \<Rightarrow> nat \<Rightarrow> bool" where
  "fenger_sizes base n L N \<longleftrightarrow> N = 2 ^ L \<and> 64 * N \<le> SIZE_MAX \<and> base \<noteq> 0 \<and> in_memory base (level_at L (Suc L)) \<and> n \<le> N \<and> 0 < n"

lemma x_points_distinct: "fenger_sizes base n L N \<Longrightarrow> distinct (fenger_x_points fi N N sb)"
proof -
  assume "fenger_sizes base n L N"
  then have N: "N < 2 ^ 64" by (simp add: fenger_sizes_def SIZE_MAX_def)
  have "inj_on (\<lambda>c. fi + of_nat c) {0..<N}"
  proof (rule inj_onI)
    fix a b assume *: "a \<in> {0..<N}" "b \<in> {0..<N}" "fi + of_nat a = fi + (of_nat b :: 64 word)"
    have "unat (of_nat k :: 64 word) = k" if "k < N" for k using that N by (simp add: unat_of_nat)
    then show "a = b" using * by (metis add_left_cancel atLeastLessThan_iff)
  qed
  then have "distinct (map (\<lambda>c. fi + of_nat c) [0..<N])" by (simp add: distinct_map)
  moreover have "fenger_x_points fi N N sb = map (\<lambda>c. fi + of_nat c) [0..<N]" by (simp add: fenger_x_points_def)
  ultimately show ?thesis by simp
qed

text \<open>Row \<open>r\<close> of the Cauchy product of word \<open>w\<close>; a point on an input point gives 0.\<close>

definition cauchy_row :: "gf64_t list \<Rightarrow> nat \<Rightarrow> gf64_t list \<Rightarrow> nat \<Rightarrow> nat \<Rightarrow> gf64_t \<Rightarrow> gf" where
  "cauchy_row xs n inp B w y =
    (if y \<in> set xs then 0 else (\<Sum>c<n. Gf (inp ! (c * B + w)) / (Gf y + Gf (xs ! c))))"

lemma row_word_cauchy:
  assumes "num_inputs_real ctx = n" "ctx_N ctx = length xs" "n \<le> length xs"
  shows "Gf (row_word xs ys ctx inp B r w) = cauchy_row xs n inp B w (ys ! r)"
proof -
  have "(\<Sum>c<length xs. Gf (input_word ctx inp B w ! c) / (Gf (ys ! r) + Gf (xs ! c))) =
      (\<Sum>c<n. Gf (input_word ctx inp B w ! c) / (Gf (ys ! r) + Gf (xs ! c)))"
    by (rule sum.mono_neutral_right) (use assms in \<open>auto simp: input_word_def zero_gf_def [symmetric]\<close>)
  also have "\<dots> = (\<Sum>c<n. Gf (inp ! (c * B + w)) / (Gf (ys ! r) + Gf (xs ! c)))"
    using assms by (intro sum.cong) (auto simp: input_word_def)
  finally show ?thesis by (simp add: row_word_def cauchy_word_def cauchy_row_def gf_eq_iff)
qed

lemma written_rows:
  assumes "r < n" "w < B" "n * B \<le> length out" "lo \<le> w" "w < hi"
  shows "written v B n lo hi out ! (r * B + w) = v r w"
proof -
  have "Suc r * B \<le> n * B" using assms(1) by (intro mult_le_mono) simp_all
  then have "r * B + w < length out" using assms(2,3) by simp
  moreover have "(r * B + w) div B = r" "(r * B + w) mod B = w" using assms(2) by simp_all
  ultimately show ?thesis using assms by (simp add: written_def)
qed

lemma written_above: "n * B \<le> p \<Longrightarrow> p < length out \<Longrightarrow> 0 < B \<Longrightarrow> written v B n lo hi out ! p = out ! p"
  by (simp add: written_def div_less_iff_less_mult)

section \<open>Prepared contexts\<close>

lemma prepare_padded_run:
  assumes X: "fenger_sizes base_x n LX N" and Y: "fenger_sizes base_y r LY R"
    and g: "weights_state_ok g" and st: "poly_ready alloc (st :: 'a mpe_globals_scheme)"
  obtains ctx g' st' where
    "gf64_fenger_prepare_padded getenv hosts alloc t base_x base_y fi fr n r N R sb g st = Some ((Some ctx, g'), st')"
    "context_ok (fenger_x_points fi N n sb) LX (fenger_y_points fr R) LY ctx"
    "num_inputs_real ctx = n" "num_recovery_real ctx = r" "length (recip_pool ctx) = recip_pool_words ctx"
    "weights_state_ok g'" "poly_ready alloc st'"
proof -
  from X have X': "N = 2 ^ LX" "64 * N \<le> SIZE_MAX" "base_x \<noteq> 0" "in_memory base_x (level_at LX (Suc LX))" "n \<le> N" "0 < n"
    by (simp_all add: fenger_sizes_def)
  from Y have Y': "R = 2 ^ LY" "64 * R \<le> SIZE_MAX" "base_y \<noteq> 0" "in_memory base_y (level_at LY (Suc LY))" "r \<le> R" "0 < r"
    by (simp_all add: fenger_sizes_def)
  obtain ctx g' st' where core:
    "gf64_fenger_prepare_core getenv hosts alloc t base_x base_y fi fr N R n r sb g st = Some ((ctx, g'), st')"
    "context_ok (fenger_x_points fi N n sb) LX (fenger_y_points fr R) LY ctx"
    "num_inputs_real ctx = n" "num_recovery_real ctx = r" "length (recip_pool ctx) = recip_pool_words ctx"
    "weights_state_ok g'" "poly_ready alloc st'"
    by (rule prepare_core_run [OF X'(1,2) Y'(1,2) X'(3,4) Y'(3,4) X'(5) Y'(5) g st])
  have "\<not> (n = 0 \<or> r = 0 \<or> N = 0 \<or> R = 0)" using X' Y' by auto
  then have "gf64_fenger_prepare_padded getenv hosts alloc t base_x base_y fi fr n r N R sb g st = Some ((Some ctx, g'), st')"
    using core(1) by (simp add: gf64_fenger_prepare_padded_def)
  then show ?thesis using that core(2-7) by blast
qed

text \<open>The two entries agree on sizes that need no padding.\<close>

lemma x_points_unpadded: "fenger_x_points fi N N sb = fenger_x_points fi N N 0"
  by (simp add: fenger_x_points_def)

lemma prepare_unpadded:
  assumes "0 < N" "0 < R"
  shows "gf64_fenger_prepare getenv hosts alloc t base_x base_y fi fr N R g st =
    gf64_fenger_prepare_padded getenv hosts alloc t base_x base_y fi fr N R N R 0 g st"
  using assms by (simp add: gf64_fenger_prepare_def gf64_fenger_prepare_padded_def)

text \<open>
  C21. A prepared context is well formed, whatever the padding and the state of the dispatch: the trees
  are those of the input and the recovery points, the weights of distinct points and their inverses
  cancel, the row factors are the inverses of the root of the input tree at the recovery points, and
  the pool has the announced size and holds, for every inner node of the recovery tree, the truncated
  reciprocal of the reversed node.
\<close>

theorem fenger_context_well_formed:
  fixes st :: "'a mpe_globals_scheme"
  assumes "poly_ready alloc st" "weights_state_ok g" "fenger_sizes base_x n LX N" "fenger_sizes base_y r LY R"
    "xs = fenger_x_points fi N n sb" "ys = fenger_y_points fr R"
  shows "\<exists>ctx g' st'. gf64_fenger_prepare_padded getenv hosts alloc t base_x base_y fi fr n r N R sb g st = Some ((Some ctx, g'), st') \<and>
    poly_ready alloc st' \<and> weights_state_ok g' \<and>
    ctx_N ctx = N \<and> ctx_R ctx = R \<and> num_inputs_real ctx = n \<and> num_recovery_real ctx = r \<and>
    tree_of xs LX (tree_x ctx) \<and> tree_of ys LY (tree_y ctx) \<and> length (recip_pool ctx) = recip_pool_words ctx \<and>
    (distinct xs \<longrightarrow> (\<forall>c<N. Gf (V_prime ctx ! c) * Gf (V_prime_inv ctx ! c) = 1)) \<and>
    (\<forall>j<R. Gf (V_at_y_inv ctx ! j) = inverse (\<Prod>a\<leftarrow>xs. Gf (ys ! j) + Gf a)) \<and>
    (\<forall>lev i. 0 < lev \<longrightarrow> lev < LY \<longrightarrow> i < 2 ^ lev \<longrightarrow> recip_ok (node_points ys LY lev i) (fenger_recip_at ctx lev i))"
proof -
  obtain ctx g' st' where run:
    "gf64_fenger_prepare_padded getenv hosts alloc t base_x base_y fi fr n r N R sb g st = Some ((Some ctx, g'), st')"
    and ok: "context_ok xs LX ys LY ctx" and real: "num_inputs_real ctx = n" "num_recovery_real ctx = r"
      "length (recip_pool ctx) = recip_pool_words ctx" and st': "weights_state_ok g'" "poly_ready alloc st'"
    unfolding assms(5,6) by (rule prepare_padded_run [OF assms(3,4,2,1)])
  note fields = ok [unfolded context_ok_def]
  have len: "length xs = 2 ^ LX" "length ys = 2 ^ LY" using tree_of_fields(1) fields by auto
  have size: "N = 2 ^ LX" "R = 2 ^ LY" using assms(3,4) by (simp_all add: fenger_sizes_def)
  have "Gf (V_prime ctx ! c) * Gf (V_prime_inv ctx ! c) = 1" if d: "distinct xs" and c: "c < N" for c
  proof -
    have "Gf (weight_words xs ! c) \<noteq> 0" using weight_words_inverse [OF len(1) d, of c] c size by auto
    moreover have "length (weight_words xs) = N" by (simp add: weight_words_def len size)
    ultimately show ?thesis using fields c by (simp add: Gf_inverse)
  qed
  moreover have "Gf (V_at_y_inv ctx ! j) = inverse (\<Prod>a\<leftarrow>xs. Gf (ys ! j) + Gf a)" if "j < R" for j
    using that fields len size eval_vanish [of xs] by (simp add: root_inverses_def Gf_inverse)
  ultimately show ?thesis using run real st' fields size by (auto simp: pool_ok_def)
qed

lemma example_sizes: "fenger_sizes 800 2 1 2" "fenger_sizes 4000 1 0 1" "fenger_sizes 800 1 1 2"
  by (simp_all add: fenger_sizes_def SIZE_MAX_def in_memory_def level_at_def UINTPTR_MAX_def)

theorem fenger_context_well_formed_witness:
  "\<forall>hosts. \<exists>ctx g' st'. gf64_fenger_prepare_padded (\<lambda>_. None) hosts fresh_allocator 0 800 4000 2 7 1 1 2 1 9 weights_start mpe_start =
    Some ((Some ctx, g'), st') \<and> num_inputs_real ctx = 1"
proof
  fix hosts
  show "\<exists>ctx g' st'. gf64_fenger_prepare_padded (\<lambda>_. None) hosts fresh_allocator 0 800 4000 2 7 1 1 2 1 9 weights_start mpe_start =
      Some ((Some ctx, g'), st') \<and> num_inputs_real ctx = 1"
    using fenger_context_well_formed [OF mpe_start_ready weights_start_ok example_sizes(3,2) refl refl,
        where getenv = "\<lambda>_. None" and hosts = hosts and t = 0 and fi = 2 and fr = 7 and sb = 9]
    by blast
qed

section \<open>The product\<close>

text \<open>
  C19. A run of the pipeline on a context padded with synthetic inputs writes the product of the Cauchy
  matrix with the real inputs, for every word of the range and every real row: the padding contributes
  nothing. The other words of the output keep their contents. This holds for every value of the
  environment variable that sets the batch, hence for the word-by-word and the batched execution, and
  for every state of the dispatch.
\<close>

theorem fenger_execute_correct:
  fixes st :: "'a mpe_globals_scheme"
  assumes "poly_ready alloc st" "weights_state_ok g" "fenger_sizes base_x n LX N" "fenger_sizes base_y r LY R"
    "xs = fenger_x_points fi N n sb" "distinct xs" "w_end \<le> B" "n * B \<le> length inp" "r * B \<le> length out"
  shows "\<exists>ctx g' st1 out' st2.
    gf64_fenger_prepare_padded getenv hosts alloc t base_x base_y fi fr n r N R sb g st = Some ((ctx, g'), st1) \<and>
    gf64_fenger_execute getenv2 alloc t2 g2 ctx inp B out w_start w_end st1 = Some (out', st2) \<and> poly_ready alloc st2 \<and>
    length out' = length out \<and>
    (\<forall>j<r. \<forall>w. w_start \<le> w \<longrightarrow> w < w_end \<longrightarrow> Gf (out' ! (j * B + w)) = cauchy_row xs n inp B w (fr + of_nat j)) \<and>
    (\<forall>j<r. \<forall>w<B. w < w_start \<or> w_end \<le> w \<longrightarrow> out' ! (j * B + w) = out ! (j * B + w)) \<and>
    (\<forall>p<length out. r * B \<le> p \<longrightarrow> out' ! p = out ! p)"
proof -
  define ys where "ys = fenger_y_points fr R"
  obtain ctx g' st1 where run:
    "gf64_fenger_prepare_padded getenv hosts alloc t base_x base_y fi fr n r N R sb g st = Some ((Some ctx, g'), st1)"
    and ok: "context_ok xs LX ys LY ctx" and real: "num_inputs_real ctx = n" "num_recovery_real ctx = r" and st1: "poly_ready alloc st1"
    unfolding assms(5) ys_def by (rule prepare_padded_run [OF assms(3,4,2,1)])
  have size: "64 * 2 ^ LY \<le> SIZE_MAX" "64 * 2 ^ LX \<le> SIZE_MAX" "n \<le> N" "r \<le> R" "N = 2 ^ LX" using assms(3,4) by (simp_all add: fenger_sizes_def)
  define v where "v = row_word xs ys ctx inp B"
  define out' where "out' = written v B r w_start w_end out"
  obtain st2 where st2: "gf64_fenger_execute getenv2 alloc t2 g2 (Some ctx) inp B out w_start w_end st1 = Some (out', st2)" "poly_ready alloc st2"
    using returnsD [OF returns_execute [OF ok assms(6) size(1,2) assms(7), where g = g2 and inp = inp and out = out and w_start = w_start] st1]
    unfolding out'_def v_def real(2) [symmetric] by metis
  have len: "length xs = N" using assms(5) by simp
  have v: "Gf (v j w) = cauchy_row xs n inp B w (fr + of_nat j)" if "j < r" for j w
    using row_word_cauchy [of ctx n xs ys inp B j w] real ok len size that
    by (simp add: v_def context_ok_def ys_def fenger_y_points_def)
  have "Gf (out' ! (j * B + w)) = cauchy_row xs n inp B w (fr + of_nat j)" if "j < r" "w_start \<le> w" "w < w_end" for j w
    using written_rows [of j r w B out w_start w_end v] that v assms(7,9) by (simp add: out'_def)
  moreover have "out' ! (j * B + w) = out ! (j * B + w)" if "j < r" "w < B" "w < w_start \<or> w_end \<le> w" for j w
  proof -
    have "Suc j * B \<le> r * B" using that(1) by (intro mult_le_mono) simp_all
    then have "j * B + w < length out" using that(2) assms(9) by simp
    then show ?thesis using that by (auto simp: out'_def written_def)
  qed
  moreover have "out' ! p = out ! p" if "p < length out" "r * B \<le> p" for p
  proof (cases "B = 0")
    case False
    then show ?thesis using written_above [of r B p out v w_start w_end] that by (simp add: out'_def)
  qed (use assms(7) that in \<open>simp add: out'_def written_def\<close>)
  ultimately show ?thesis using run st2 by (intro exI [of _ "Some ctx"] exI [of _ g'] exI [of _ st1] exI [of _ out'] exI [of _ st2]) (simp add: out'_def)
qed

theorem fenger_execute_correct_witness:
  "\<forall>hosts. \<exists>ctx g' st1 out' st2.
    gf64_fenger_prepare_padded (\<lambda>_. None) hosts fresh_allocator 0 800 4000 2 7 1 1 2 1 9 weights_start mpe_start = Some ((ctx, g'), st1) \<and>
    gf64_fenger_execute (\<lambda>_. None) fresh_allocator 0 start_globals ctx [5] 1 [0, 3] 0 1 st1 = Some (out', st2) \<and>
    Gf (out' ! 0) = Gf 5 / (Gf 7 + Gf 2) \<and> out' ! 1 = 3"
proof
  fix hosts
  have xs: "fenger_x_points 2 2 1 9 = [2, 9]" by (simp add: fenger_x_points_def upt_rec)
  have row: "cauchy_row [2, 9] 1 [5] 1 0 7 = Gf 5 / (Gf 7 + Gf 2)" by (simp add: cauchy_row_def)
  obtain ctx g' st1 out' st2 where 1:
    "gf64_fenger_prepare_padded (\<lambda>_. None) hosts fresh_allocator 0 800 4000 2 7 1 1 2 1 9 weights_start mpe_start = Some ((ctx, g'), st1)"
    "gf64_fenger_execute (\<lambda>_. None) fresh_allocator 0 start_globals ctx [5] 1 [0, 3] 0 1 st1 = Some (out', st2)"
    "\<forall>j<1. \<forall>w. 0 \<le> w \<longrightarrow> w < 1 \<longrightarrow> Gf (out' ! (j * 1 + w)) = cauchy_row [2, 9] 1 [5] 1 w (7 + of_nat j)"
    "\<forall>p<length [0, 3 :: gf64_t]. 1 * 1 \<le> p \<longrightarrow> out' ! p = [0, 3] ! p"
    using fenger_execute_correct [OF mpe_start_ready weights_start_ok example_sizes(3,2) xs [symmetric],
        where w_end = 1 and B = 1 and inp = "[5]" and out = "[0, 3]" and getenv = "\<lambda>_. None" and hosts = hosts and t = 0 and fr = 7
          and w_start = 0 and ?getenv2.0 = "\<lambda>_. None" and ?t2.0 = 0 and ?g2.0 = start_globals]
    by auto
  have "Gf (out' ! 0) = Gf 5 / (Gf 7 + Gf 2)" "out' ! 1 = 3" using 1(3,4) row by simp_all
  then show "\<exists>ctx g' st1 out' st2.
    gf64_fenger_prepare_padded (\<lambda>_. None) hosts fresh_allocator 0 800 4000 2 7 1 1 2 1 9 weights_start mpe_start = Some ((ctx, g'), st1) \<and>
    gf64_fenger_execute (\<lambda>_. None) fresh_allocator 0 start_globals ctx [5] 1 [0, 3] 0 1 st1 = Some (out', st2) \<and>
    Gf (out' ! 0) = Gf 5 / (Gf 7 + Gf 2) \<and> out' ! 1 = 3" using 1(1,2) by blast
qed

lemma written_split:
  assumes "lo \<le> mid" "mid \<le> hi"
  shows "written v B n mid hi (written v B n lo mid out) = written v B n lo hi out"
  using assms by (auto simp: written_def intro!: nth_equalityI)

text \<open>
  C20. The result of a run does not depend on how the words are grouped: executing a range in two pieces
  gives word for word what one call gives for the whole range, and each of the three calls may use its
  own batch size, its own dispatched kernels and its own thread.
\<close>

theorem fenger_split_and_batch:
  fixes st :: "'a mpe_globals_scheme"
  assumes "poly_ready alloc st" "weights_state_ok g" "fenger_sizes base_x n LX N" "fenger_sizes base_y r LY R"
    "distinct (fenger_x_points fi N n sb)" "lo \<le> mid" "mid \<le> hi" "hi \<le> B"
  shows "\<exists>ctx g' st1 out1 out2 st2 st3 st4.
    gf64_fenger_prepare_padded getenv hosts alloc t base_x base_y fi fr n r N R sb g st = Some ((ctx, g'), st1) \<and>
    gf64_fenger_execute env1 alloc t1 g1 ctx inp B out lo mid st1 = Some (out1, st2) \<and>
    gf64_fenger_execute env2 alloc t2 g2 ctx inp B out1 mid hi st2 = Some (out2, st3) \<and>
    gf64_fenger_execute env3 alloc t3 g3 ctx inp B out lo hi st1 = Some (out2, st4)"
proof -
  define xs ys where "xs = fenger_x_points fi N n sb" and "ys = fenger_y_points fr R"
  obtain ctx g' st1 where run:
    "gf64_fenger_prepare_padded getenv hosts alloc t base_x base_y fi fr n r N R sb g st = Some ((Some ctx, g'), st1)"
    and ok: "context_ok xs LX ys LY ctx" and st1: "poly_ready alloc st1"
    unfolding xs_def ys_def by (rule prepare_padded_run [OF assms(3,4,2,1)])
  have size: "64 * 2 ^ LY \<le> SIZE_MAX" "64 * 2 ^ LX \<le> SIZE_MAX" using assms(3,4) by (simp_all add: fenger_sizes_def)
  note exec = returns_execute [OF ok assms(5) [folded xs_def] size]
  define v where "v = row_word xs ys ctx inp B"
  define out1 out2 where "out1 = written v B (num_recovery_real ctx) lo mid out" and "out2 = written v B (num_recovery_real ctx) lo hi out"
  have both: "written v B (num_recovery_real ctx) mid hi out1 = out2"
    using written_split [OF assms(6,7)] by (simp add: out1_def out2_def)
  have mid: "mid \<le> B" using assms(7,8) by simp
  obtain st2 where 2: "gf64_fenger_execute env1 alloc t1 g1 (Some ctx) inp B out lo mid st1 = Some (out1, st2)" "poly_ready alloc st2"
    using returnsD [OF exec [OF mid, where g = g1 and inp = inp and out = out and w_start = lo] st1] unfolding out1_def v_def by metis
  obtain st3 where 3: "gf64_fenger_execute env2 alloc t2 g2 (Some ctx) inp B out1 mid hi st2 = Some (out2, st3)"
    using returnsD [OF exec [OF assms(8), where g = g2 and inp = inp and out = out1 and w_start = mid] 2(2)]
    unfolding both [unfolded v_def] by metis
  obtain st4 where 4: "gf64_fenger_execute env3 alloc t3 g3 (Some ctx) inp B out lo hi st1 = Some (out2, st4)"
    using returnsD [OF exec [OF assms(8), where g = g3 and inp = inp and out = out and w_start = lo] st1] unfolding out2_def v_def by metis
  show ?thesis using run 2(1) 3 4 by blast
qed

theorem fenger_split_and_batch_witness:
  "\<forall>hosts. \<exists>ctx g' st1 out1 out2 st2 st3 st4.
    gf64_fenger_prepare_padded (\<lambda>_. None) hosts fresh_allocator 0 800 4000 2 7 1 1 2 1 9 weights_start mpe_start = Some ((ctx, g'), st1) \<and>
    gf64_fenger_execute (\<lambda>_. Some ''1'') fresh_allocator 0 start_globals ctx [5, 6] 2 [0, 0] 0 1 st1 = Some (out1, st2) \<and>
    gf64_fenger_execute (\<lambda>_. Some ''8'') fresh_allocator 1 start_globals ctx [5, 6] 2 out1 1 2 st2 = Some (out2, st3) \<and>
    gf64_fenger_execute (\<lambda>_. None) fresh_allocator 0 start_globals ctx [5, 6] 2 [0, 0] 0 2 st1 = Some (out2, st4)"
proof
  fix hosts
  have xs: "distinct (fenger_x_points 2 2 1 9)" by (simp add: fenger_x_points_def upt_rec)
  show "\<exists>ctx g' st1 out1 out2 st2 st3 st4.
    gf64_fenger_prepare_padded (\<lambda>_. None) hosts fresh_allocator 0 800 4000 2 7 1 1 2 1 9 weights_start mpe_start = Some ((ctx, g'), st1) \<and>
    gf64_fenger_execute (\<lambda>_. Some ''1'') fresh_allocator 0 start_globals ctx [5, 6] 2 [0, 0] 0 1 st1 = Some (out1, st2) \<and>
    gf64_fenger_execute (\<lambda>_. Some ''8'') fresh_allocator 1 start_globals ctx [5, 6] 2 out1 1 2 st2 = Some (out2, st3) \<and>
    gf64_fenger_execute (\<lambda>_. None) fresh_allocator 0 start_globals ctx [5, 6] 2 [0, 0] 0 2 st1 = Some (out2, st4)"
    by (rule fenger_split_and_batch [OF mpe_start_ready weights_start_ok example_sizes(3,2) xs]) simp_all
qed

text \<open>
  C18. The one-call entry multiplies by the Cauchy matrix: row \<open>j\<close> of word \<open>w\<close> is the sum over the
  inputs of the input word divided by the difference of the two points, and 0 for a recovery point
  that is an input point. The input points are consecutive and therefore distinct, so no condition on
  the points is left.
\<close>

theorem fenger_matvec_correct:
  fixes st :: "'a mpe_globals_scheme"
  assumes "poly_ready alloc st" "weights_state_ok g" "fenger_sizes base_x N LX N" "fenger_sizes base_y R LY R"
    "0 < B" "N * B \<le> length inp" "length out = R * B"
  shows "\<exists>out' g' st'. gf64_fenger_matvec getenv hosts alloc t base_x base_y inp N B out R fi fr g st = Some ((out', g'), st') \<and>
    poly_ready alloc st' \<and> length out' = R * B \<and>
    (\<forall>j<R. \<forall>w<B. Gf (out' ! (j * B + w)) =
      (if \<exists>c<N. fi + of_nat c = fr + of_nat j then 0
       else (\<Sum>c<N. Gf (inp ! (c * B + w)) / (Gf (fr + of_nat j) + Gf (fi + of_nat c)))))"
proof -
  define xs ys where "xs = fenger_x_points fi N N 0" and "ys = fenger_y_points fr R"
  have pos: "0 < N" "0 < R" using assms(3,4) by (simp_all add: fenger_sizes_def)
  have distinct: "distinct xs" unfolding xs_def by (rule x_points_distinct [OF assms(3)])
  obtain ctx g' st1 where run:
    "gf64_fenger_prepare_padded getenv hosts alloc t base_x base_y fi fr N R N R 0 g st = Some ((Some ctx, g'), st1)"
    and ok: "context_ok xs LX ys LY ctx" and real: "num_inputs_real ctx = N" "num_recovery_real ctx = R" and st1: "poly_ready alloc st1"
    unfolding xs_def ys_def by (rule prepare_padded_run [OF assms(3,4,2,1)])
  have size: "64 * 2 ^ LY \<le> SIZE_MAX" "64 * 2 ^ LX \<le> SIZE_MAX" "N = 2 ^ LX" using assms(3,4) by (simp_all add: fenger_sizes_def)
  define v where "v = row_word xs ys ctx inp B"
  define out' where "out' = written v B R 0 B out"
  obtain st2 where st2: "gf64_fenger_execute getenv alloc t g' (Some ctx) inp B out 0 B st1 = Some (out', st2)" "poly_ready alloc st2"
    using returnsD [OF returns_execute [OF ok distinct size(1,2) order_refl, where g = g' and inp = inp and out = out and w_start = 0] st1]
    unfolding out'_def v_def real(2) by metis
  have mv: "gf64_fenger_matvec getenv hosts alloc t base_x base_y inp N B out R fi fr g st = Some ((out', g'), st2)"
    using pos assms(5) run st2(1) by (simp add: gf64_fenger_matvec_def prepare_unpadded Let_def)
  have points: "xs ! c = fi + of_nat c" if "c < N" for c using that by (simp add: xs_def fenger_x_points_def)
  have member: "y \<in> set xs \<longleftrightarrow> (\<exists>c<N. fi + of_nat c = y)" for y
    by (auto simp: xs_def fenger_x_points_def image_iff)
  have "Gf (out' ! (j * B + w)) = (if \<exists>c<N. fi + of_nat c = fr + of_nat j then 0
       else (\<Sum>c<N. Gf (inp ! (c * B + w)) / (Gf (fr + of_nat j) + Gf (fi + of_nat c))))" if j: "j < R" and w: "w < B" for j w
  proof -
    have "out' ! (j * B + w) = v j w"
      using written_rows [OF j w, of out 0 B v] assms(7) w by (simp add: out'_def)
    moreover have "Gf (v j w) = cauchy_row xs N inp B w (fr + of_nat j)"
      using row_word_cauchy [of ctx N xs ys inp B j w] real ok size j by (simp add: v_def context_ok_def xs_def ys_def fenger_y_points_def)
    moreover have "(\<Sum>c<N. Gf (inp ! (c * B + w)) / (Gf (fr + of_nat j) + Gf (xs ! c))) =
        (\<Sum>c<N. Gf (inp ! (c * B + w)) / (Gf (fr + of_nat j) + Gf (fi + of_nat c)))"
      by (rule sum.cong) (simp_all add: points)
    ultimately show ?thesis by (simp only: cauchy_row_def member)
  qed
  then show ?thesis using mv st2(2) assms(7) by (auto simp: out'_def)
qed

theorem fenger_matvec_correct_witness:
  "\<forall>hosts. \<exists>out' g' st'.
    gf64_fenger_matvec (\<lambda>_. None) hosts fresh_allocator 0 800 4000 [5, 6] 2 1 [0] 1 2 7 weights_start mpe_start = Some ((out', g'), st') \<and>
    Gf (out' ! 0) = Gf 5 / (Gf 7 + Gf 2) + Gf 6 / (Gf 7 + Gf 3)"
proof
  fix hosts
  obtain out' g' st' where 1:
    "gf64_fenger_matvec (\<lambda>_. None) hosts fresh_allocator 0 800 4000 [5, 6] 2 1 [0] 1 2 7 weights_start mpe_start = Some ((out', g'), st')"
    "\<forall>j<1. \<forall>w<1. Gf (out' ! (j * 1 + w)) =
      (if \<exists>c<2. (2 :: 64 word) + of_nat c = 7 + of_nat j then 0
       else (\<Sum>c<2. Gf ([5, 6] ! (c * 1 + w)) / (Gf (7 + of_nat j) + Gf (2 + of_nat c))))"
    using fenger_matvec_correct [OF mpe_start_ready weights_start_ok example_sizes(1,2), where B = 1 and inp = "[5, 6]" and out = "[0]"
      and fi = 2 and fr = 7 and getenv = "\<lambda>_. None" and hosts = hosts and t = 0] by auto
  have "(\<Sum>c<2. Gf ([5, 6] ! c) / (Gf 7 + Gf (2 + of_nat c))) = Gf 5 / (Gf 7 + Gf 2) + Gf 6 / (Gf 7 + Gf 3)"
    by (simp add: numeral_2_eq_2)
  moreover have "\<forall>c<2. of_nat c \<noteq> (5 :: 64 word)" by (auto dest!: less_2_cases)
  then have "\<forall>c<2. (2 :: 64 word) + of_nat c \<noteq> 7 + of_nat 0" by (simp add: add.commute [of 2] flip: eq_diff_eq)
  then have "\<not> (\<exists>c<2. (2 :: 64 word) + of_nat c = 7 + of_nat 0)" by blast
  then have "Gf (out' ! (0 * 1 + 0)) = (\<Sum>c<2. Gf ([5, 6] ! (c * 1 + 0)) / (Gf (7 + of_nat 0) + Gf (2 + of_nat c)))"
    using 1(2) by (simp only: zero_less_one if_False)
  ultimately have "Gf (out' ! 0) = Gf 5 / (Gf 7 + Gf 2) + Gf 6 / (Gf 7 + Gf 3)" by simp
  then show "\<exists>out' g' st'.
    gf64_fenger_matvec (\<lambda>_. None) hosts fresh_allocator 0 800 4000 [5, 6] 2 1 [0] 1 2 7 weights_start mpe_start = Some ((out', g'), st') \<and>
    Gf (out' ! 0) = Gf 5 / (Gf 7 + Gf 2) + Gf 6 / (Gf 7 + Gf 3)" using 1(1) by blast
qed

end
