(* ===== verification/Engine_State.thy ===== *)
theory Engine_State
  imports Barycentric Solve
begin

text \<open>
  The state of the PAR3 engine, src/par3_engine.cc: the globals of the dispatch and of the weights
  (by extension of \<open>weights_globals\<close>), the engine's own flag, the cached counts, the cache of coefficient
  matrices with its list of recent use, and the memoised environment values. The operating system is
  a parameter: the environment, the CPUID answers and the \<open>platform\<close> with the affinity mask, the
  topology of the processor and the count that the C++ library reports.
\<close>

record CoeffCacheKey =
  key_numInputs :: nat
  key_numRecovery :: nat
  key_firstInput :: "64 word"
  key_firstRecovery :: "64 word"

record engine_globals = weights_globals +
  s_dispatch_initialized :: bool
  s_cauchyWorkerCount :: nat
  s_effectiveCpuCountCached :: nat
  coeff_map :: "(CoeffCacheKey \<times> gf64_t list) list"
  coeff_lru :: "CoeffCacheKey list"
  fast_create_cached :: int
  bench_native_cached :: int
  autotune_cached :: int
  s_autotune_once :: "nat option"
  s_last_decomposition_path :: int

record CpuTopology =
  physicalCores :: nat
  logicalCores :: nat
  l3PerCluster :: nat
  numClusters :: nat
  totalL3 :: nat

record platform =
  sched_affinity :: "nat option"
  hardware_concurrency :: nat
  cpu_topology :: CpuTopology

definition EnsureDispatch ::
  "environment \<Rightarrow> (nat \<Rightarrow> host) \<Rightarrow> 'a engine_globals_scheme \<Rightarrow> 'a engine_globals_scheme option" where
  "EnsureDispatch getenv hosts g =
    (if \<not> s_dispatch_initialized g then do {
       g \<leftarrow> gf64_init_dispatch getenv hosts g;
       Some (g\<lparr>inverse_batch_null := False, s_dispatch_initialized := True\<rparr>)
     }
     else Some g)"

section \<open>Counts and switches from the environment\<close>

text \<open>\<open>atoi\<close> is \<open>strtol\<close> narrowed to 32 bits.\<close>

definition atoi :: "string \<Rightarrow> int" where
  "atoi s = sint (word_of_int (fst (strtoll s)) :: 32 word)"

definition ResetEffectiveCpuCountCache :: "'a engine_globals_scheme \<Rightarrow> 'a engine_globals_scheme" where
  "ResetEffectiveCpuCountCache g = g\<lparr>s_effectiveCpuCountCached := 0\<rparr>"

definition mock_effective_cpus :: "environment \<Rightarrow> nat option" where
  "mock_effective_cpus getenv =
    (case getenv ''PAR3_MOCK_EFFECTIVE_CPUS'' of
       None \<Rightarrow> None
     | Some env \<Rightarrow>
         if env = [] then None
         else let v = atoi env
              in if v > 0 then Some (nat (if v > 128 then 128 else v)) else None)"

definition effective_cpu_limits :: "platform \<Rightarrow> nat \<Rightarrow> nat" where
  "effective_cpu_limits p count =
    (let count = (if count = 0 then logicalCores (cpu_topology p) else count);
         count = (if count = 0 then hardware_concurrency p else count);
         count = (if count > 128 then 128 else count)
     in if count = 0 then 1 else count)"

definition GetEffectiveCpuCount ::
  "environment \<Rightarrow> platform \<Rightarrow> 'a engine_globals_scheme \<Rightarrow> nat \<times> 'a engine_globals_scheme" where
  "GetEffectiveCpuCount getenv p g =
    (case mock_effective_cpus getenv of
       Some v \<Rightarrow> (v, g)
     | None \<Rightarrow>
         if s_effectiveCpuCountCached g \<noteq> 0 then (s_effectiveCpuCountCached g, g)
         else let count = (case sched_affinity p of Some n \<Rightarrow> n | None \<Rightarrow> 0);
                  count = effective_cpu_limits p count
              in (count, g\<lparr>s_effectiveCpuCountCached := count\<rparr>))"

definition GetL3CacheSize :: "platform \<Rightarrow> nat" where
  "GetL3CacheSize p = l3PerCluster (cpu_topology p)"

definition kDefaultGroupSize :: int where "kDefaultGroupSize = 12"
definition kDefaultKGroupSize :: int where "kDefaultKGroupSize = 12"

definition ParseGroupSizeEnv :: "environment \<Rightarrow> int" where
  "ParseGroupSizeEnv getenv =
    (case getenv ''PAR3_GF64_GROUP'' of
       None \<Rightarrow> 0
     | Some env \<Rightarrow> if env = [] then 0 else let v = atoi env in if v < 1 \<or> v > 256 then 0 else v)"

definition ParseKGroupSizeEnv :: "environment \<Rightarrow> int" where
  "ParseKGroupSizeEnv getenv =
    (case getenv ''PAR3_GF64_K_GROUP'' of
       None \<Rightarrow> 0
     | Some env \<Rightarrow> if env = [] then 0 else let v = atoi env in if v < 1 \<or> v > 256 then 0 else v)"

text \<open>The static of each function holds the parsed value, which the environment fixes.\<close>

definition GetGroupSize ::
  "environment \<Rightarrow> (nat \<Rightarrow> host) \<Rightarrow> 'a engine_globals_scheme \<Rightarrow> (int \<times> 'a engine_globals_scheme) option" where
  "GetGroupSize getenv hosts g =
    (let v = ParseGroupSizeEnv getenv
     in if v > 0 then Some (v, g)
        else do {
          g \<leftarrow> EnsureDispatch getenv hosts g;
          Some (if gf64_current_method g = GF64_AVX2 then 16 else kDefaultGroupSize, g)
        })"

definition GetKGroupSize ::
  "environment \<Rightarrow> (nat \<Rightarrow> host) \<Rightarrow> 'a engine_globals_scheme \<Rightarrow> (int \<times> 'a engine_globals_scheme) option" where
  "GetKGroupSize getenv hosts g =
    (let v = ParseKGroupSizeEnv getenv
     in if v > 0 then Some (v, g)
        else do {
          g \<leftarrow> EnsureDispatch getenv hosts g;
          Some (if gf64_current_method g = GF64_AVX2 then 16 else kDefaultKGroupSize, g)
        })"

definition env_is_one :: "environment \<Rightarrow> string \<Rightarrow> int" where
  "env_is_one getenv name =
    (case getenv name of Some env \<Rightarrow> if env \<noteq> [] \<and> atoi env = 1 then 1 else 0 | None \<Rightarrow> 0)"

definition ParseFastCreateEnv :: "environment \<Rightarrow> 'a engine_globals_scheme \<Rightarrow> int \<times> 'a engine_globals_scheme" where
  "ParseFastCreateEnv getenv g =
    (let g = (if fast_create_cached g < 0
        then g\<lparr>fast_create_cached := env_is_one getenv ''PAR3_GF64_FAST_CREATE''\<rparr> else g)
     in (fast_create_cached g, g))"

definition ParseBenchNativeEnv :: "environment \<Rightarrow> 'a engine_globals_scheme \<Rightarrow> int \<times> 'a engine_globals_scheme" where
  "ParseBenchNativeEnv getenv g =
    (let g = (if bench_native_cached g < 0
        then g\<lparr>bench_native_cached := env_is_one getenv ''PAR3_GF64_BENCH_NATIVE''\<rparr> else g)
     in (bench_native_cached g, g))"

definition GetFastCreate :: "environment \<Rightarrow> 'a engine_globals_scheme \<Rightarrow> int \<times> 'a engine_globals_scheme" where
  "GetFastCreate getenv g = ParseFastCreateEnv getenv g"

definition GetBenchNative :: "environment \<Rightarrow> 'a engine_globals_scheme \<Rightarrow> int \<times> 'a engine_globals_scheme" where
  "GetBenchNative getenv g = ParseBenchNativeEnv getenv g"

definition ParseAutotuneEnv :: "environment \<Rightarrow> 'a engine_globals_scheme \<Rightarrow> int \<times> 'a engine_globals_scheme" where
  "ParseAutotuneEnv getenv g =
    (let g = (if autotune_cached g < 0
        then g\<lparr>autotune_cached := env_is_one getenv ''PAR3_GF64_BLOCK_SIZE_AUTOTUNE''\<rparr> else g)
     in (autotune_cached g, g))"

definition GetLastDecompositionPath :: "'a engine_globals_scheme \<Rightarrow> int" where
  "GetLastDecompositionPath g = s_last_decomposition_path g"

definition ResetLastDecompositionPath :: "'a engine_globals_scheme \<Rightarrow> 'a engine_globals_scheme" where
  "ResetLastDecompositionPath g = g\<lparr>s_last_decomposition_path := 0\<rparr>"

section \<open>What the dispatch leaves alone\<close>

lemma zmm_probe_frame:
  "gf64_zmm_probe h g = Some (r, g') \<Longrightarrow>
    \<exists>o' w' c'. g' = g\<lparr>zmm_probe_once := o', gf64_zmm_works := w', zmm_probe_cached := c'\<rparr>"
  by (cases g) (auto simp: gf64_zmm_probe_def Let_def split: if_splits)

lemma apply_method_more:
  assumes "gf64_apply_method h m g = Some g'"
  shows "gf64_globals.more g' = gf64_globals.more g"
proof -
  have bind: "gf64_globals.more (bind_kernels m' g) = gf64_globals.more g" for m' and g :: "'a gf64_globals_scheme"
    by (cases m'; cases g) simp_all
  have upd: "gf64_globals.more (g\<lparr>gf64_current_method := m\<rparr>) = gf64_globals.more g"
    "gf64_globals.more (g\<lparr>gf64_has_vpclmulqdq := v\<rparr>) = gf64_globals.more g"
    "gf64_globals.more (g\<lparr>zmm_probe_once := o', gf64_zmm_works := w', zmm_probe_cached := c'\<rparr>) = gf64_globals.more g"
    for g :: "'a gf64_globals_scheme" and m v o' w' c' by (cases g; simp)+
  show ?thesis
  proof (cases "m = GF64_AVX512")
    case True
    then obtain r g1 where p: "gf64_zmm_probe h g = Some (r, g1)"
      and g': "g' = (bind_kernels m (g1\<lparr>gf64_has_vpclmulqdq := and (gf64_has_vpclmulqdq_probe h) (gf64_zmm_works g1)\<rparr>))
        \<lparr>gf64_current_method := m\<rparr>"
      using assms by (auto simp: gf64_apply_method_def Let_def bind_eq_Some_conv)
    have "gf64_globals.more g1 = gf64_globals.more g" using zmm_probe_frame [OF p] upd(3) by auto
    then show ?thesis unfolding g' by (simp only: upd bind)
  next
    case False
    then have g': "g' = (bind_kernels m g)\<lparr>gf64_current_method := m\<rparr>"
      using assms by (simp add: gf64_apply_method_def Let_def)
    show ?thesis unfolding g' by (simp only: upd bind)
  qed
qed

lemma detect_method_more:
  assumes "gf64_detect_method hosts g = Some (d, g')"
  shows "gf64_globals.more g' = gf64_globals.more g"
proof -
  have upd: "gf64_globals.more (g\<lparr>zmm_probe_once := o', gf64_zmm_works := w', zmm_probe_cached := c'\<rparr>) = gf64_globals.more g"
    for g :: "'a gf64_globals_scheme" and o' w' c' by (cases g; simp)
  obtain rs n where "poll_methods hosts n g = Some (rs, g')"
    using assms by (auto simp: gf64_detect_method_def Let_def bind_eq_Some_conv)
  then show ?thesis using poll_methods_frame upd by fastforce
qed

lemma parse_env_more:
  "gf64_globals.more (snd (parse_avx512_force_env getenv d g)) = gf64_globals.more g"
  "gf64_globals.more (snd (parse_workload_size_env getenv g)) = gf64_globals.more g"
  by (cases g; auto simp: parse_avx512_force_env_def parse_workload_size_env_def Let_def split: option.split prod.split)+

lemma init_dispatch_more:
  assumes "gf64_init_dispatch getenv hosts g = Some g'"
  shows "gf64_globals.more g' = gf64_globals.more g"
proof -
  have upd: "gf64_globals.more (g\<lparr>gf64_has_vpclmulqdq := v\<rparr>) = gf64_globals.more g"
    "gf64_globals.more (g\<lparr>zmm_probe_once := o', gf64_zmm_works := w', zmm_probe_cached := c'\<rparr>) = gf64_globals.more g"
    for g :: "'a gf64_globals_scheme" and v o' w' c' by (cases g; simp)+
  obtain d g1 r g2 where 1: "gf64_detect_method hosts g = Some (d, g1)" and 2: "gf64_zmm_probe (hosts 5) g1 = Some (r, g2)"
    using assms by (auto simp: gf64_init_dispatch_def bind_eq_Some_conv)
  let ?g3 = "g2\<lparr>gf64_has_vpclmulqdq := and (gf64_has_vpclmulqdq_probe (hosts 5)) (gf64_zmm_works g2)\<rparr>"
  obtain m where 3: "gf64_apply_method (hosts 6) m (snd (parse_avx512_force_env getenv d ?g3)) = Some g'"
    using assms 1 2 by (cases "parse_avx512_force_env getenv d ?g3")
      (auto simp: gf64_init_dispatch_def Let_def split: if_splits)
  have "gf64_globals.more g2 = gf64_globals.more g1" using zmm_probe_frame [OF 2] upd(2) by auto
  then show ?thesis using apply_method_more [OF 3] detect_method_more [OF 1] by (simp add: parse_env_more upd)
qed

lemma method_for_workload_more:
  assumes "gf64_method_for_workload getenv hosts a b c g = Some (m, g')"
  shows "gf64_globals.more g' = gf64_globals.more g"
proof -
  obtain d g1 where 1: "gf64_detect_method hosts g = Some (d, g1)"
    using assms by (auto simp: gf64_method_for_workload_def bind_eq_Some_conv)
  note g1 = detect_method_more [OF 1]
  have *: "g' \<in> {g1, snd (parse_workload_size_env getenv g1),
      snd (parse_avx512_force_env getenv d (snd (parse_workload_size_env getenv g1)))}"
    using assms 1 by (auto simp: gf64_method_for_workload_def Let_def split: option.splits if_splits prod.splits)
  show ?thesis using * g1 by (auto simp: parse_env_more)
qed

text \<open>The fields of the engine are in the extension that the dispatch does not touch.\<close>

lemma engine_fields_more:
  assumes "gf64_globals.more g' = gf64_globals.more (g :: 'a engine_globals_scheme)"
  shows "inverse_batch_null g' = inverse_batch_null g" "dispatch_bound g' = dispatch_bound g"
    "s_dispatch_initialized g' = s_dispatch_initialized g"
    "s_cauchyWorkerCount g' = s_cauchyWorkerCount g" "s_effectiveCpuCountCached g' = s_effectiveCpuCountCached g"
    "coeff_map g' = coeff_map g" "coeff_lru g' = coeff_lru g"
    "s_autotune_once g' = s_autotune_once g" "autotune_cached g' = autotune_cached g"
    "s_last_decomposition_path g' = s_last_decomposition_path g"
  using assms by (cases g; cases g'; simp)+

text \<open>
  The invariant of the engine: the state of the dispatch is consistent, an initialised engine has bound
  pointers, and the cached counts are in their ranges.
\<close>

definition engine_ok :: "'a engine_globals_scheme \<Rightarrow> bool" where
  "engine_ok g \<longleftrightarrow> weights_state_ok g \<and> (s_dispatch_initialized g \<longrightarrow> \<not> inverse_batch_null g) \<and>
    s_cauchyWorkerCount g \<le> 8 \<and> s_effectiveCpuCountCached g \<le> 128"

lemma capability_engine_frame [simp]:
  "capability_ok (g\<lparr>s_dispatch_initialized := b\<rparr>) = capability_ok g"
  "capability_ok (g\<lparr>s_cauchyWorkerCount := n\<rparr>) = capability_ok g"
  "capability_ok (g\<lparr>s_effectiveCpuCountCached := n\<rparr>) = capability_ok g"
  "capability_ok (g\<lparr>coeff_map := cm\<rparr>) = capability_ok g"
  "capability_ok (g\<lparr>coeff_lru := cl\<rparr>) = capability_ok g"
  "capability_ok (g\<lparr>fast_create_cached := v\<rparr>) = capability_ok g"
  "capability_ok (g\<lparr>bench_native_cached := v\<rparr>) = capability_ok g"
  "capability_ok (g\<lparr>autotune_cached := v\<rparr>) = capability_ok g"
  "capability_ok (g\<lparr>s_autotune_once := a\<rparr>) = capability_ok g"
  "capability_ok (g\<lparr>s_last_decomposition_path := v\<rparr>) = capability_ok g"
  by (simp_all add: capability_ok_def probe_ok_def)

lemma bind_kernels_engine_frame:
  "bind_kernels m (g\<lparr>s_dispatch_initialized := b\<rparr>) = (bind_kernels m g)\<lparr>s_dispatch_initialized := b\<rparr>"
  "bind_kernels m (g\<lparr>s_cauchyWorkerCount := n\<rparr>) = (bind_kernels m g)\<lparr>s_cauchyWorkerCount := n\<rparr>"
  "bind_kernels m (g\<lparr>s_effectiveCpuCountCached := n\<rparr>) = (bind_kernels m g)\<lparr>s_effectiveCpuCountCached := n\<rparr>"
  "bind_kernels m (g\<lparr>coeff_map := cm\<rparr>) = (bind_kernels m g)\<lparr>coeff_map := cm\<rparr>"
  "bind_kernels m (g\<lparr>coeff_lru := cl\<rparr>) = (bind_kernels m g)\<lparr>coeff_lru := cl\<rparr>"
  "bind_kernels m (g\<lparr>autotune_cached := v\<rparr>) = (bind_kernels m g)\<lparr>autotune_cached := v\<rparr>"
  "bind_kernels m (g\<lparr>s_autotune_once := a\<rparr>) = (bind_kernels m g)\<lparr>s_autotune_once := a\<rparr>"
  "bind_kernels m (g\<lparr>s_last_decomposition_path := v\<rparr>) = (bind_kernels m g)\<lparr>s_last_decomposition_path := v\<rparr>"
  by (cases m; simp)+

lemma dispatch_ok_engine_frame:
  "dispatch_ok g \<Longrightarrow> dispatch_ok (g\<lparr>s_dispatch_initialized := b\<rparr>)"
  "dispatch_ok g \<Longrightarrow> dispatch_ok (g\<lparr>s_cauchyWorkerCount := n\<rparr>)"
  "dispatch_ok g \<Longrightarrow> dispatch_ok (g\<lparr>s_effectiveCpuCountCached := n\<rparr>)"
  "dispatch_ok g \<Longrightarrow> dispatch_ok (g\<lparr>coeff_map := cm\<rparr>)"
  "dispatch_ok g \<Longrightarrow> dispatch_ok (g\<lparr>coeff_lru := cl\<rparr>)"
  "dispatch_ok g \<Longrightarrow> dispatch_ok (g\<lparr>autotune_cached := v\<rparr>)"
  "dispatch_ok g \<Longrightarrow> dispatch_ok (g\<lparr>s_autotune_once := a\<rparr>)"
  "dispatch_ok g \<Longrightarrow> dispatch_ok (g\<lparr>s_last_decomposition_path := v\<rparr>)"
  by (simp_all add: dispatch_ok_def bind_kernels_engine_frame)

lemma engine_ok_frame:
  "engine_ok g \<Longrightarrow> n \<le> 8 \<Longrightarrow> engine_ok (g\<lparr>s_cauchyWorkerCount := n\<rparr>)"
  "engine_ok g \<Longrightarrow> n \<le> 128 \<Longrightarrow> engine_ok (g\<lparr>s_effectiveCpuCountCached := n\<rparr>)"
  "engine_ok g \<Longrightarrow> engine_ok (g\<lparr>coeff_map := cm\<rparr>)"
  "engine_ok g \<Longrightarrow> engine_ok (g\<lparr>coeff_lru := cl\<rparr>)"
  "engine_ok g \<Longrightarrow> engine_ok (g\<lparr>autotune_cached := v\<rparr>)"
  "engine_ok g \<Longrightarrow> engine_ok (g\<lparr>s_autotune_once := a\<rparr>)"
  "engine_ok g \<Longrightarrow> engine_ok (g\<lparr>s_last_decomposition_path := v\<rparr>)"
  by (auto simp: engine_ok_def weights_state_ok_def dispatch_ok_engine_frame)

text \<open>A state that the dispatch has changed is consistent when it is bound.\<close>

lemma engine_ok_more:
  assumes "engine_ok g" "dispatch_ok g'" "gf64_globals.more g' = gf64_globals.more g"
  shows "engine_ok g'"
  using assms engine_fields_more [OF assms(3)]
  by (auto simp: engine_ok_def weights_state_ok_def dispatch_ok_def)

text \<open>Which fields the engine's own functions may change when they touch the dispatch.\<close>

definition same_engine :: "'a engine_globals_scheme \<Rightarrow> 'a engine_globals_scheme \<Rightarrow> bool" where
  "same_engine g g' \<longleftrightarrow> coeff_map g' = coeff_map g \<and> coeff_lru g' = coeff_lru g \<and>
    s_cauchyWorkerCount g' = s_cauchyWorkerCount g"

lemma same_engine_more: "gf64_globals.more g' = gf64_globals.more g \<Longrightarrow> same_engine g g'"
  unfolding same_engine_def by (intro conjI engine_fields_more)

lemma same_engine_trans: "same_engine g g' \<Longrightarrow> same_engine g' g'' \<Longrightarrow> same_engine g g''"
  by (simp add: same_engine_def)

lemma EnsureDispatch_ok:
  assumes "engine_ok g"
  shows "\<exists>g'. EnsureDispatch getenv hosts g = Some g' \<and> engine_ok g' \<and> dispatch_ok g' \<and> s_dispatch_initialized g' \<and>
    same_engine g g' \<and> s_last_decomposition_path g' = s_last_decomposition_path g \<and> \<not> inverse_batch_null g'"
proof (cases "s_dispatch_initialized g")
  case True
  then show ?thesis using assms by (auto simp: EnsureDispatch_def engine_ok_def weights_state_ok_def same_engine_def)
next
  case False
  obtain g1 where 1: "gf64_init_dispatch getenv hosts g = Some g1" "dispatch_ok g1"
    using init_dispatch_ok [where g = g and getenv = getenv and hosts = hosts] assms
    by (auto simp: engine_ok_def weights_state_ok_def)
  note more = engine_fields_more [OF init_dispatch_more [OF 1(1)]]
  let ?g = "g1\<lparr>inverse_batch_null := False, s_dispatch_initialized := True\<rparr>"
  have "dispatch_ok ?g" by (intro dispatch_ok_engine_frame dispatch_ok_frame 1(2))
  moreover have "engine_ok ?g" using assms calculation more by (auto simp: engine_ok_def weights_state_ok_def dispatch_ok_def)
  ultimately show ?thesis using False 1(1) more by (simp add: EnsureDispatch_def same_engine_def)
qed

section \<open>The ranges of the counts\<close>

lemma atoi_range: "- (2 ^ 31) \<le> atoi s" "atoi s < 2 ^ 31"
  using sint_range_size [of "word_of_int (fst (strtoll s)) :: 32 word"] by (simp_all add: atoi_def word_size)

lemma group_sizes_range:
  assumes "engine_ok g"
  shows "\<exists>v g'. GetGroupSize getenv hosts g = Some (v, g') \<and> 1 \<le> v \<and> v \<le> 256 \<and> engine_ok g' \<and> same_engine g g'"
    and "\<exists>v g'. GetKGroupSize getenv hosts g = Some (v, g') \<and> 1 \<le> v \<and> v \<le> 256 \<and> engine_ok g' \<and> same_engine g g'"
proof -
  obtain g1 where g1: "EnsureDispatch getenv hosts g = Some g1" "engine_ok g1" "same_engine g g1"
    using EnsureDispatch_ok [OF assms] by blast
  have "0 \<le> ParseGroupSizeEnv getenv" "ParseGroupSizeEnv getenv \<le> 256"
    "0 \<le> ParseKGroupSizeEnv getenv" "ParseKGroupSizeEnv getenv \<le> 256"
    by (auto simp: ParseGroupSizeEnv_def ParseKGroupSizeEnv_def Let_def split: option.split)
  then show "\<exists>v g'. GetGroupSize getenv hosts g = Some (v, g') \<and> 1 \<le> v \<and> v \<le> 256 \<and> engine_ok g' \<and> same_engine g g'"
    "\<exists>v g'. GetKGroupSize getenv hosts g = Some (v, g') \<and> 1 \<le> v \<and> v \<le> 256 \<and> engine_ok g' \<and> same_engine g g'"
    using assms g1
    by (auto simp: GetGroupSize_def GetKGroupSize_def Let_def kDefaultGroupSize_def kDefaultKGroupSize_def same_engine_def)
qed

lemma effective_cpu_count_range:
  assumes "engine_ok g" "GetEffectiveCpuCount getenv p g = (n, g')"
  shows "1 \<le> n" "n \<le> 128" "engine_ok g'" "same_engine g g'"
proof -
  have mock: "1 \<le> v \<and> v \<le> 128" if "mock_effective_cpus getenv = Some v" for v
    using that by (auto simp: mock_effective_cpus_def Let_def split: option.splits if_splits)
  have limits: "1 \<le> effective_cpu_limits p c" "effective_cpu_limits p c \<le> 128" for c
    by (simp_all add: effective_cpu_limits_def Let_def)
  show "1 \<le> n" "n \<le> 128" "engine_ok g'" "same_engine g g'"
    using assms mock limits
    by (auto simp: GetEffectiveCpuCount_def Let_def same_engine_def engine_ok_frame split: option.splits if_splits)
      (auto simp: engine_ok_def)
qed

end
