(* ===== verification/Engine_Repair.thy ===== *)
theory Engine_Repair
  imports Engine_State
begin

text \<open>
  The repair path of src/par3_engine.cc: \<open>SolveAndReconstruct\<close> eliminates the square matrix in place and
  applies the same row operations to whole blocks of words, with the dispatched region kernels. A
  block is a slice of the flat array of blocks; \<open>block\<close> reads one and \<open>put_block\<close> writes one.
  \<open>tmp_ok col\<close> says whether the temporary copy of column \<open>col\<close> is allocated. The arrays change in
  place, so the failing exits return the arrays as they are at that point.
\<close>

definition block :: "gf64_t list \<Rightarrow> nat \<Rightarrow> nat \<Rightarrow> gf64_t list" where
  "block mem off len = take len (drop off mem)"

definition put_block :: "gf64_t list \<Rightarrow> nat \<Rightarrow> gf64_t list \<Rightarrow> gf64_t list" where
  "put_block mem off xs = take off mem @ xs @ drop (off + length xs) mem"

definition gf64_mul_combi :: "gf64_t \<Rightarrow> gf64_t \<Rightarrow> gf64_t" where
  "gf64_mul_combi a b =
    (let a128 = mm_set_epi64x 0 a;
         b128 = mm_set_epi64x 0 b;
         p = clmulepi64 a128 b128 0x00;
         lo = mm_cvtsi128_si64 p;
         hi = mm_cvtsi128_si64 (mm_srli_si128_8 p);
         t_lo = push_bit 4 hi XOR push_bit 3 hi XOR push_bit 1 hi XOR hi;
         R_hi = ((drop_bit 60 hi XOR drop_bit 61 hi XOR drop_bit 63 hi) AND 1) OR
                push_bit 1 ((drop_bit 61 hi XOR drop_bit 62 hi) AND 1) OR
                push_bit 2 ((drop_bit 62 hi XOR drop_bit 63 hi) AND 1) OR
                push_bit 3 (drop_bit 63 hi AND 1);
         t2 = push_bit 4 R_hi XOR push_bit 3 R_hi XOR push_bit 1 R_hi XOR R_hi
     in lo XOR t_lo XOR t2)"

function repair_pivot :: "gf64_t list \<Rightarrow> nat \<Rightarrow> nat \<Rightarrow> nat \<Rightarrow> nat" where
  "repair_pivot A n col pivot =
    (if pivot < n \<and> A ! (pivot * n + col) = 0 then repair_pivot A n col (pivot + 1) else pivot)"
  by pat_completeness auto
termination by (relation "measure (\<lambda>(A, n, col, pivot). n - pivot)") auto

declare repair_pivot.simps [simp del]

text \<open>The swap loop, on the rows of \<open>A\<close> and on the blocks of the right-hand side.\<close>

definition swap_blocks :: "nat \<Rightarrow> nat \<Rightarrow> nat \<Rightarrow> gf64_t list \<Rightarrow> gf64_t list" where
  "swap_blocks m col pivot mem =
    fold (\<lambda>j mem.
        let tmp = mem ! (col * m + j);
            mem = mem[col * m + j := mem ! (pivot * m + j)]
        in mem[pivot * m + j := tmp])
      [0..<m] mem"

definition repair_scale_row :: "nat \<Rightarrow> nat \<Rightarrow> gf64_t \<Rightarrow> gf64_t list \<Rightarrow> gf64_t list" where
  "repair_scale_row n col pv_inv A =
    fold (\<lambda>j A. A[col * n + j := gf64_mul_combi (A ! (col * n + j)) pv_inv]) [0..<n] A"

definition repair_eliminate ::
  "'a gf64_globals_scheme \<Rightarrow> nat \<Rightarrow> nat \<Rightarrow> nat \<Rightarrow> nat \<Rightarrow> gf64_t list \<times> gf64_t list \<Rightarrow> gf64_t list \<times> gf64_t list" where
  "repair_eliminate g n B col row = (\<lambda>(A, rhs).
    if row = col then (A, rhs)
    else let factor = A ! (row * n + col)
         in if factor = 0 then (A, rhs)
            else (fold (\<lambda>j A. A[row * n + j := A ! (row * n + j) XOR gf64_mul_combi factor (A ! (col * n + j))]) [0..<n] A,
                  put_block rhs (row * B)
                    (gf64_region_muladd_arr g (block rhs (row * B) B) (block rhs (col * B) B) [factor] B 1)))"

definition repair_column ::
  "'a gf64_globals_scheme \<Rightarrow> (nat \<Rightarrow> bool) \<Rightarrow> nat \<Rightarrow> nat \<Rightarrow> nat \<Rightarrow> gf64_t list \<times> gf64_t list \<Rightarrow>
    (gf64_t list \<times> gf64_t list) + (gf64_t list \<times> gf64_t list)" where
  "repair_column g tmp_ok n B col = (\<lambda>(A, rhs).
    let pivot = repair_pivot A n col col
    in if pivot = n then Inl (A, rhs)
       else
         let A = (if pivot \<noteq> col then swap_blocks n col pivot A else A);
             rhs = (if pivot \<noteq> col then swap_blocks B col pivot rhs else rhs);
             pv = A ! (col * n + col);
             pv_inv = gf64_inverse pv;
             A = (if pv \<noteq> 1 then repair_scale_row n col pv_inv A else A)
         in if pv \<noteq> 1 \<and> \<not> tmp_ok col then Inl (A, rhs)
            else
              let rhs = (if pv \<noteq> 1
                    then put_block rhs (col * B)
                      (gf64_region_mul_arr g (block rhs (col * B) B) (block rhs (col * B) B) [pv_inv] B 1)
                    else rhs)
              in Inr (fold (repair_eliminate g n B col) [0..<n] (A, rhs)))"

definition repair_columns ::
  "'a gf64_globals_scheme \<Rightarrow> (nat \<Rightarrow> bool) \<Rightarrow> nat \<Rightarrow> nat \<Rightarrow> nat \<Rightarrow> gf64_t list \<times> gf64_t list \<Rightarrow>
    (gf64_t list \<times> gf64_t list) + (gf64_t list \<times> gf64_t list)" where
  "repair_columns g tmp_ok n B cols AR =
    fold (\<lambda>col r. case r of Inl AR \<Rightarrow> Inl AR | Inr AR \<Rightarrow> repair_column g tmp_ok n B col AR) [0..<cols] (Inr AR)"

definition SolveAndReconstruct ::
  "environment \<Rightarrow> (nat \<Rightarrow> host) \<Rightarrow> (nat \<Rightarrow> bool) \<Rightarrow> gf64_t list \<Rightarrow> gf64_t list \<Rightarrow> nat \<Rightarrow> nat \<Rightarrow>
    'a engine_globals_scheme \<Rightarrow> ((int \<times> gf64_t list \<times> gf64_t list) \<times> 'a engine_globals_scheme) option" where
  "SolveAndReconstruct getenv hosts tmp_ok A rhsBlocks n B g =
    (if n = 0 then Some ((0, A, rhsBlocks), g)
     else do {
       g \<leftarrow> EnsureDispatch getenv hosts g;
       Some (case repair_columns g tmp_ok n B n (A, rhsBlocks) of
           Inl (A, rhs) \<Rightarrow> (-1, A, rhs)
         | Inr (A, rhs) \<Rightarrow> (0, A, rhs), g)
     })"

section \<open>Flat arrays of blocks\<close>

lemma flat_inject:
  fixes i j i' j' m :: nat
  assumes "j < m" "j' < m"
  shows "i * m + j = i' * m + j' \<longleftrightarrow> i = i' \<and> j = j'"
proof
  assume *: "i * m + j = i' * m + j'"
  have "(i * m + j) div m = i" "(i' * m + j') div m = i'" using assms by simp_all
  then have "i = i'" using * by metis
  then show "i = i' \<and> j = j'" using * by simp
qed simp

lemma flat_less:
  fixes i j n m :: nat
  assumes "i < n" "j < m"
  shows "i * m + j < n * m"
proof -
  have "i * m + j < Suc i * m" using assms by simp
  also have "\<dots> \<le> n * m" using assms by (intro mult_le_mono1) simp
  finally show ?thesis .
qed

lemma block_fits:
  fixes i n m :: nat
  assumes "i < n"
  shows "i * m + m \<le> n * m"
proof -
  have "Suc i * m \<le> n * m" using assms by (intro mult_le_mono1) simp
  then show ?thesis by simp
qed

lemma length_block: "off + len \<le> length mem \<Longrightarrow> length (block mem off len) = len"
  by (simp add: block_def)

lemma nth_block: "off + len \<le> length mem \<Longrightarrow> i < len \<Longrightarrow> block mem off len ! i = mem ! (off + i)"
  by (simp add: block_def)

lemma length_put_block: "off + length xs \<le> length mem \<Longrightarrow> length (put_block mem off xs) = length mem"
  by (simp add: put_block_def)

lemma nth_put_block:
  assumes "off + length xs \<le> length mem" "p < length mem"
  shows "put_block mem off xs ! p = (if off \<le> p \<and> p < off + length xs then xs ! (p - off) else mem ! p)"
  using assms by (auto simp: put_block_def nth_append min_def)

text \<open>Writing the block of row \<open>r\<close>.\<close>

lemma put_row:
  assumes "length mem = n * m" "r < n" "length xs = m"
  shows "length (put_block mem (r * m) xs) = n * m"
    and "i < n \<Longrightarrow> j < m \<Longrightarrow> put_block mem (r * m) xs ! (i * m + j) = (if i = r then xs ! j else mem ! (i * m + j))"
proof -
  have fits: "r * m + length xs \<le> length mem" using block_fits [OF assms(2)] assms by simp
  show "length (put_block mem (r * m) xs) = n * m" using fits assms(1) by (simp add: length_put_block)
  assume i: "i < n" and j: "j < m"
  have "r * m \<le> i * m + j \<and> i * m + j < r * m + m \<longleftrightarrow> i = r"
  proof
    assume *: "r * m \<le> i * m + j \<and> i * m + j < r * m + m"
    then have "(i * m + j) div m = r" by (intro div_nat_eqI) (simp_all add: mult.commute)
    then show "i = r" using j by simp
  qed (use j in simp)
  then show "put_block mem (r * m) xs ! (i * m + j) = (if i = r then xs ! j else mem ! (i * m + j))"
    using nth_put_block [OF fits, of "i * m + j"] flat_less [OF i j] assms by simp
qed

lemma row_block:
  assumes "length mem = n * m" "r < n"
  shows "length (block mem (r * m) m) = m" "j < m \<Longrightarrow> block mem (r * m) m ! j = mem ! (r * m + j)"
  using block_fits [OF assms(2)] assms(1) by (simp_all add: length_block nth_block)

text \<open>A loop along row \<open>r\<close>.\<close>

lemma fold_flat_row:
  assumes "length A = n * m" "r < n"
  shows "length (fold (\<lambda>j A. A[r * m + j := h j (A ! (r * m + j)) (A ! (c * m + j))]) [0..<m] A) = n * m"
    and "i < n \<Longrightarrow> j < m \<Longrightarrow>
      fold (\<lambda>j A. A[r * m + j := h j (A ! (r * m + j)) (A ! (c * m + j))]) [0..<m] A ! (i * m + j) =
      (if i = r then h j (A ! (r * m + j)) (A ! (c * m + j)) else A ! (i * m + j))"
proof -
  let ?f = "\<lambda>k. fold (\<lambda>j A. A[r * m + j := h j (A ! (r * m + j)) (A ! (c * m + j))]) [0..<k] A"
  have *: "length (?f k) = n * m \<and> (\<forall>i j. j < m \<longrightarrow> ?f k ! (i * m + j) =
      (if i = r \<and> j < k then h j (A ! (r * m + j)) (A ! (c * m + j)) else A ! (i * m + j)))" if "k \<le> m" for k
    using that
  proof (induction k)
    case (Suc k)
    then have IH: "length (?f k) = n * m" "\<And>i j. j < m \<Longrightarrow> ?f k ! (i * m + j) =
      (if i = r \<and> j < k then h j (A ! (r * m + j)) (A ! (c * m + j)) else A ! (i * m + j))" and k: "k < m" by auto
    have "r * m + k < length (?f k)" using IH(1) flat_less [OF assms(2) k] by simp
    then show ?case using IH k by (auto simp: nth_list_update flat_inject fold_upt_Suc less_Suc_eq)
  qed (use assms in simp)
  show "length (?f m) = n * m" "i < n \<Longrightarrow> j < m \<Longrightarrow> ?f m ! (i * m + j) =
      (if i = r then h j (A ! (r * m + j)) (A ! (c * m + j)) else A ! (i * m + j))"
    using * [of m] by simp_all
qed

lemma swap_blocks_entry:
  assumes "length mem = n * m" "c < n" "p < n" "c \<noteq> p"
  shows "length (swap_blocks m c p mem) = n * m"
    and "j < m \<Longrightarrow> swap_blocks m c p mem ! (i * m + j) =
      mem ! ((if i = c then p else if i = p then c else i) * m + j)"
proof -
  let ?f = "\<lambda>k. fold (\<lambda>j mem. let tmp = mem ! (c * m + j); mem = mem[c * m + j := mem ! (p * m + j)]
    in mem[p * m + j := tmp]) [0..<k] mem"
  have *: "length (?f k) = n * m \<and> (\<forall>i j. j < m \<longrightarrow> ?f k ! (i * m + j) =
      mem ! ((if k \<le> j then i else if i = c then p else if i = p then c else i) * m + j))" if "k \<le> m" for k
    using that
  proof (induction k)
    case (Suc k)
    then have IH: "length (?f k) = n * m" "\<And>i j. j < m \<Longrightarrow> ?f k ! (i * m + j) =
      mem ! ((if k \<le> j then i else if i = c then p else if i = p then c else i) * m + j)" and k: "k < m" by auto
    have "c * m + k < length (?f k)" "p * m + k < length (?f k)"
      using IH(1) flat_less [OF assms(2) k] flat_less [OF assms(3) k] by simp_all
    then show ?case using IH k assms(4)
      by (auto simp: Let_def nth_list_update flat_inject fold_upt_Suc not_less_eq_eq less_Suc_eq_le)
  qed (use assms in simp)
  show "length (swap_blocks m c p mem) = n * m" using * [of m] by (simp add: swap_blocks_def)
  show "j < m \<Longrightarrow> swap_blocks m c p mem ! (i * m + j) = mem ! ((if i = c then p else if i = p then c else i) * m + j)"
    using * [of m] by (simp add: swap_blocks_def)
qed

section \<open>The row operations on the system of one word\<close>

text \<open>
  The augmented matrix of word \<open>w\<close>: the matrix, and in column \<open>n\<close> word \<open>w\<close> of every block. A word
  number outside the blocks stands for the homogeneous system.
\<close>

definition word_system :: "nat \<Rightarrow> nat \<Rightarrow> gf64_t list \<times> gf64_t list \<Rightarrow> nat \<Rightarrow> nat \<Rightarrow> nat \<Rightarrow> gf" where
  "word_system n B AR w i j =
    (if j < n then Gf (fst AR ! (i * n + j)) else if w < B then Gf (snd AR ! (i * B + w)) else 0)"

definition repair_sizes :: "nat \<Rightarrow> nat \<Rightarrow> gf64_t list \<times> gf64_t list \<Rightarrow> bool" where
  "repair_sizes n B AR \<longleftrightarrow> length (fst AR) = n * n \<and> length (snd AR) = n * B"

lemma Gf_mul_combi: "Gf (gf64_mul_combi a b) = Gf a * Gf b"
  using Gf_mul [of a b] by (simp only: gf64_mul_combi_def gf64_mul_def)

lemma dispatched_muladd:
  assumes "dispatch_ok g"
  shows "gf64_region_muladd_arr g out inp coeff len n =
    acc_row out (\<lambda>i. if i < len then \<Sum>c=0..<n. Gf (inp ! i) * Gf (coeff ! c) else 0)"
  using bound.muladd [of "gf64_current_method g" g] assms by (simp add: dispatch_ok_def)

lemma dispatched_mul:
  assumes "dispatch_ok g" "len \<le> length out"
  shows "gf64_region_mul_arr g out inp coeff len n =
    map (\<lambda>i. gf_rep (Gf (inp ! i) * Gf (coeff ! (i mod n)))) [0..<len] @ drop len out"
  using bound.mul_arr [of len out "gf64_current_method g" g] assms by (simp add: dispatch_ok_def)

lemma system_swap:
  assumes "repair_sizes n B (A, rhs)" "c < n" "p < n" "c \<noteq> p"
  shows "repair_sizes n B (swap_blocks n c p A, swap_blocks B c p rhs)"
    and "word_system n B (swap_blocks n c p A, swap_blocks B c p rhs) w i j =
      word_system n B (A, rhs) w (if i = c then p else if i = p then c else i) j"
  using swap_blocks_entry [of A n n c p] swap_blocks_entry [of rhs n B c p] assms
  by (simp_all add: repair_sizes_def word_system_def)

lemma system_scale:
  fixes v :: gf64_t
  assumes "dispatch_ok g" "repair_sizes n B (A, rhs)" "c < n"
  defines "AR' \<equiv> (repair_scale_row n c v A,
    put_block rhs (c * B) (gf64_region_mul_arr g (block rhs (c * B) B) (block rhs (c * B) B) [v] B 1))"
  shows "repair_sizes n B AR'"
    and "i < n \<Longrightarrow> j \<le> n \<Longrightarrow> word_system n B AR' w i j =
      (if i = c then word_system n B (A, rhs) w c j * Gf v else word_system n B (A, rhs) w i j)"
proof -
  have len: "length A = n * n" "length rhs = n * B" using assms(2) by (simp_all add: repair_sizes_def)
  note row = row_block [OF len(2) assms(3)]
  let ?xs = "gf64_region_mul_arr g (block rhs (c * B) B) (block rhs (c * B) B) [v] B 1"
  have xs: "?xs = map (\<lambda>j. gf_rep (Gf (rhs ! (c * B + j)) * Gf v)) [0..<B]"
    using row by (simp add: dispatched_mul [OF assms(1)])
  have lx: "length ?xs = B" unfolding xs by simp
  have xsw: "Gf (?xs ! w) = Gf (rhs ! (c * B + w)) * Gf v" if "w < B" unfolding xs using that by simp
  note put = put_row [OF len(2) assms(3) lx]
  note sc = fold_flat_row [OF len(1) assms(3), where c = c and h = "\<lambda>j x y. gf64_mul_combi x v"]
  show "repair_sizes n B AR'" using put(1) sc(1) by (simp add: AR'_def repair_sizes_def repair_scale_row_def)
  show "i < n \<Longrightarrow> j \<le> n \<Longrightarrow> word_system n B AR' w i j =
      (if i = c then word_system n B (A, rhs) w c j * Gf v else word_system n B (A, rhs) w i j)"
    using put(2) [of i w] sc(2) [of i j]
    by (auto simp: AR'_def word_system_def repair_scale_row_def Gf_mul_combi xsw [unfolded One_nat_def])
qed

lemma system_eliminate:
  assumes "dispatch_ok g" "repair_sizes n B AR" "c < n" "r < n"
  shows "repair_sizes n B (repair_eliminate g n B c r AR)"
    and "i < n \<Longrightarrow> j \<le> n \<Longrightarrow> word_system n B (repair_eliminate g n B c r AR) w i j =
      (if i = r \<and> r \<noteq> c then word_system n B AR w r j + word_system n B AR w r c * word_system n B AR w c j
       else word_system n B AR w i j)"
proof -
  obtain A rhs where AR: "AR = (A, rhs)" by (cases AR)
  have len: "length A = n * n" "length rhs = n * B" using assms(2) by (simp_all add: repair_sizes_def AR)
  let ?f = "A ! (r * n + c)"
  let ?xs = "gf64_region_muladd_arr g (block rhs (r * B) B) (block rhs (c * B) B) [?f] B 1"
  note row = row_block [OF len(2) assms(4)] row_block [OF len(2) assms(3)]
  have lx: "length ?xs = B" and xs: "w < B \<Longrightarrow> Gf (?xs ! w) = Gf (rhs ! (r * B + w)) + Gf (rhs ! (c * B + w)) * Gf ?f" for w
    using row by (simp_all add: dispatched_muladd [OF assms(1)] Gf_xor)
  note put = put_row [OF len(2) assms(4) lx]
  note el = fold_flat_row [OF len(1) assms(4), where c = c and h = "\<lambda>j x y. x XOR gf64_mul_combi ?f y"]
  show "repair_sizes n B (repair_eliminate g n B c r AR)"
    using put(1) el(1) len by (simp add: AR repair_sizes_def repair_eliminate_def Let_def)
  show "i < n \<Longrightarrow> j \<le> n \<Longrightarrow> word_system n B (repair_eliminate g n B c r AR) w i j =
      (if i = r \<and> r \<noteq> c then word_system n B AR w r j + word_system n B AR w r c * word_system n B AR w c j
       else word_system n B AR w i j)"
    using put(2) [of i w] el(2) [of i j] xs [of w] assms(3)
    by (auto simp: AR word_system_def repair_eliminate_def Let_def Gf_mul_combi Gf_xor mult.commute)
qed

lemma system_eliminate_column:
  assumes "dispatch_ok g" "repair_sizes n B AR" "c < n" "m \<le> n"
  shows "repair_sizes n B (fold (repair_eliminate g n B c) [0..<m] AR) \<and>
    (\<forall>i<n. \<forall>j\<le>n. word_system n B (fold (repair_eliminate g n B c) [0..<m] AR) w i j =
      (if i < m \<and> i \<noteq> c then word_system n B AR w i j + word_system n B AR w i c * word_system n B AR w c j
       else word_system n B AR w i j))"
  using assms(4)
proof (induction m)
  case (Suc m)
  then have IH: "repair_sizes n B (fold (repair_eliminate g n B c) [0..<m] AR)" by simp
  show ?case
    using Suc system_eliminate [OF assms(1) IH assms(3), of m] assms(3)
    by (auto simp: fold_upt_Suc less_Suc_eq)
qed (use assms in simp)

lemma repair_pivot_spec:
  "pivot \<le> n \<Longrightarrow> pivot \<le> repair_pivot A n col pivot \<and> repair_pivot A n col pivot \<le> n \<and>
    (\<forall>i. pivot \<le> i \<longrightarrow> i < repair_pivot A n col pivot \<longrightarrow> A ! (i * n + col) = 0) \<and>
    (repair_pivot A n col pivot < n \<longrightarrow> A ! (repair_pivot A n col pivot * n + col) \<noteq> 0)"
proof (induction A n col pivot rule: repair_pivot.induct)
  case (1 A n col pivot)
  show ?case
  proof (cases "pivot < n \<and> A ! (pivot * n + col) = 0")
    case True
    then have "repair_pivot A n col pivot = repair_pivot A n col (pivot + 1)"
      by (subst repair_pivot.simps) simp
    moreover have "i = pivot \<or> pivot + 1 \<le> i" if "pivot \<le> i" for i using that by auto
    moreover have "pivot + 1 \<le> n" using True by simp
    ultimately show ?thesis using 1(1) [OF True] True by (metis add_leD1)
  next
    case False
    then have "repair_pivot A n col pivot = pivot" by (subst repair_pivot.simps) auto
    then show ?thesis using False 1 by auto
  qed
qed

section \<open>One column of the repair\<close>

lemma whole_row_pivot_step:
  fixes M :: "nat \<Rightarrow> nat \<Rightarrow> gf" and n c p :: nat
  assumes "c < n" "c \<le> p" "p < n" "reduced n c M" "M p c \<noteq> 0"
  defines "M1 \<equiv> \<lambda>i. M (if i = c then p else if i = p then c else i)"
  defines "M2 \<equiv> \<lambda>i j. if i = c then M1 c j * inverse (M1 c c) else M1 i j"
  defines "M3 \<equiv> \<lambda>i j. if i \<noteq> c then M2 i j + M2 i c * M2 c j else M2 i j"
  shows "in_kernel n M3 = in_kernel n M" and "reduced n (Suc c) M3"
proof -
  have zero: "M2 c j = 0" if "j < c" for j
    using that assms(1-4) by (simp add: M1_def M2_def reduced_def)
  have unit: "M1 c c \<noteq> 0" "M2 c c = 1" using assms(5) by (simp_all add: M1_def M2_def)
  have 3: "M3 = (\<lambda>i j. if i = c then M2 c j else M2 i j + M2 i c * M2 c j)"
    by (auto simp: M3_def fun_eq_iff)
  have "in_kernel n M3 = in_kernel n M2" unfolding 3 by (rule kernel_eliminate [OF assms(1)])
  also have "\<dots> = in_kernel n M1" unfolding M2_def by (rule kernel_scale) (use unit in simp)
  also have "\<dots> = in_kernel n M" unfolding M1_def by (rule kernel_swap [OF assms(1,3)])
  finally show "in_kernel n M3 = in_kernel n M" .
  have "M3 i j = (if i = j then 1 else 0)" if "i < n" "j < c" for i j
    using that assms(1-4) zero [OF that(2)] by (auto simp: M3_def M2_def M1_def reduced_def)
  moreover have "M3 i c = (if i = c then 1 else 0)" for i using unit by (simp add: M3_def)
  ultimately show "reduced n (Suc c) M3" by (auto simp: reduced_def less_Suc_eq)
qed

lemma repair_column_Inr:
  assumes "dispatch_ok g" "repair_sizes n B AR" "c < n" "\<And>w. reduced n c (word_system n B AR w)"
    "repair_column g tmp_ok n B c AR = Inr AR'"
  shows "repair_sizes n B AR'" "in_kernel n (word_system n B AR' w) = in_kernel n (word_system n B AR w)"
    "reduced n (Suc c) (word_system n B AR' w)"
proof -
  obtain A rhs where AR: "AR = (A, rhs)" by (cases AR)
  obtain p where p_eq: "p = repair_pivot A n c c" by blast
  obtain A1 rhs1 where 1: "A1 = (if p \<noteq> c then swap_blocks n c p A else A)"
    "rhs1 = (if p \<noteq> c then swap_blocks B c p rhs else rhs)" by blast
  obtain v where v_eq: "v = A1 ! (c * n + c)" by blast
  obtain A2 rhs2 where 2: "A2 = (if v \<noteq> 1 then repair_scale_row n c (gf64_inverse v) A1 else A1)"
    "rhs2 = (if v \<noteq> 1 then put_block rhs1 (c * B) (gf64_region_mul_arr g (block rhs1 (c * B) B)
      (block rhs1 (c * B) B) [gf64_inverse v] B 1) else rhs1)" by blast
  have "repair_column g tmp_ok n B c (A, rhs) = (if p = n then Inl (A, rhs)
      else if v \<noteq> 1 \<and> \<not> tmp_ok c then Inl (A2, rhs1)
      else Inr (fold (repair_eliminate g n B c) [0..<n] (A2, rhs2)))"
    by (simp only: repair_column_def Let_def prod.case p_eq v_eq 1 2)
  then have AR': "AR' = fold (repair_eliminate g n B c) [0..<n] (A2, rhs2)" and "p \<noteq> n"
    using assms(5) by (auto simp: AR split: if_splits)
  then have p: "c \<le> p" "p < n" "word_system n B AR w p c \<noteq> 0"
    using repair_pivot_spec [of c n A c, folded p_eq] assms(3) by (auto simp: AR word_system_def)
  let ?M = "word_system n B AR w"
  let ?M1 = "\<lambda>i. ?M (if i = c then p else if i = p then c else i)"
  have s1: "repair_sizes n B (A1, rhs1)" and m1: "word_system n B (A1, rhs1) w i j = ?M1 i j" for i j
    using system_swap [OF assms(2) [unfolded AR] assms(3) p(2)] assms(2) by (auto simp: 1 AR)
  let ?M2 = "\<lambda>i j. if i = c then ?M1 c j * inverse (?M1 c c) else ?M1 i j"
  have v: "Gf v = ?M1 c c" using m1 [of c c] assms(3) by (simp add: word_system_def v_eq)
  have s2: "repair_sizes n B (A2, rhs2)" using system_scale(1) [OF assms(1) s1 assms(3)] s1 by (simp add: 2)
  have m2: "word_system n B (A2, rhs2) w i j = ?M2 i j" if "i < n" "j \<le> n" for i j
  proof (cases "v = 1")
    case True
    then have "?M1 c c = 1" using v by simp
    then show ?thesis using True m1 by (simp add: 2)
  next
    case False
    then show ?thesis
      using system_scale(2) [OF assms(1) s1 assms(3) that, of "gf64_inverse v" w] m1 v by (simp add: 2 Gf_inverse)
  qed
  let ?M3 = "\<lambda>i j. if i \<noteq> c then ?M2 i j + ?M2 i c * ?M2 c j else ?M2 i j"
  note col = system_eliminate_column [OF assms(1) s2 assms(3) order.refl, of w, folded AR']
  have m3: "word_system n B AR' w i j = ?M3 i j" if "i < n" "j \<le> n" for i j
  proof -
    have c: "c \<le> n" "c < n" using assms(3) by simp_all
    show ?thesis using col that by (simp only: m2 [OF that(1) c(1)] m2 [OF that] m2 [OF c(2) that(2)]) simp
  qed
  note step = whole_row_pivot_step [OF assms(3) p(1,2) assms(4) p(3)]
  show "repair_sizes n B AR'" using col by blast
  show "in_kernel n (word_system n B AR' w) = in_kernel n ?M"
    using step(1) kernel_cong [of n "word_system n B AR' w" ?M3, OF m3] by (rule trans [rotated])
  have "reduced n (Suc c) (word_system n B AR' w) \<longleftrightarrow> reduced n (Suc c) ?M3"
    unfolding reduced_def using assms(3) by (intro all_cong) (simp only: m3 less_imp_le less_Suc_eq_le le_trans)
  then show "reduced n (Suc c) (word_system n B AR' w)" using step(2) by blast
qed

text \<open>A column that ends the repair had no pivot, or no memory for the copy of the block.\<close>

lemma repair_column_Inl:
  assumes "c < n" "\<And>w. reduced n c (word_system n B AR w)" "repair_column g tmp_ok n B c AR = Inl AR'" "tmp_ok c"
  shows "\<exists>u. in_kernel n (word_system n B AR w) u \<and> u n = 0 \<and> (\<exists>j<n. u j \<noteq> 0)"
proof -
  obtain A rhs where AR: "AR = (A, rhs)" by (cases AR)
  let ?M = "word_system n B AR w"
  have "repair_pivot A n c c = n"
    using assms(3,4) by (auto simp: AR repair_column_def Let_def split: if_splits)
  then have "?M i c = 0" if "c \<le> i" "i < n" for i
    using repair_pivot_spec [of c n A c] assms(1) that by (simp add: word_system_def AR)
  then have "in_kernel n ?M (\<lambda>j. if j < c then ?M j c else if j = c then 1 else 0)"
    by (intro no_pivot_kernel assms(1,2))
  then show ?thesis
    using assms(1) by (intro exI [of _ "\<lambda>j. if j < c then ?M j c else if j = c then 1 else 0"])
      (auto intro: exI [of _ c])
qed

lemma repair_columns_Suc:
  "repair_columns g tmp_ok n B (Suc c) AR =
    (case repair_columns g tmp_ok n B c AR of Inl AR' \<Rightarrow> Inl AR' | Inr AR' \<Rightarrow> repair_column g tmp_ok n B c AR')"
  by (simp add: repair_columns_def)

lemma repair_columns_spec:
  assumes "dispatch_ok g" "repair_sizes n B AR" "c \<le> n"
  shows "case repair_columns g tmp_ok n B c AR of
      Inl AR' \<Rightarrow> (\<exists>col<n. \<not> tmp_ok col) \<or>
        (\<forall>w. \<exists>u. in_kernel n (word_system n B AR w) u \<and> u n = 0 \<and> (\<exists>j<n. u j \<noteq> 0))
    | Inr AR' \<Rightarrow> repair_sizes n B AR' \<and>
        (\<forall>w. in_kernel n (word_system n B AR' w) = in_kernel n (word_system n B AR w) \<and>
          reduced n c (word_system n B AR' w))"
  using assms(3)
proof (induction c)
  case 0
  then show ?case using assms(2) by (simp add: repair_columns_def reduced_def)
next
  case (Suc c)
  then have c: "c < n" by simp
  show ?case
  proof (cases "repair_columns g tmp_ok n B c AR")
    case (Inl AR1)
    then show ?thesis using Suc by (simp add: repair_columns_Suc)
  next
    case (Inr AR1)
    then have 1: "repair_sizes n B AR1" "\<And>w. in_kernel n (word_system n B AR1 w) = in_kernel n (word_system n B AR w)"
      "\<And>w. reduced n c (word_system n B AR1 w)" using Suc by simp_all
    show ?thesis
    proof (cases "repair_column g tmp_ok n B c AR1")
      case (Inl AR2)
      then show ?thesis using repair_column_Inl [OF c 1(3) Inl] Inr c 1(2) by (auto simp: repair_columns_Suc)
    next
      case (Inr AR2)
      note col = repair_column_Inr [OF assms(1) 1(1) c 1(3) Inr]
      show ?thesis using col \<open>repair_columns g tmp_ok n B c AR = Inr AR1\<close> 1(2) Inr by (simp add: repair_columns_Suc)
    qed
  qed
qed

section \<open>The reconstruction\<close>

text \<open>The blocks \<open>xs\<close> solve the system with the blocks \<open>rhs\<close> on the right.\<close>

definition solves_blocks :: "gf64_t list \<Rightarrow> gf64_t list \<Rightarrow> nat \<Rightarrow> nat \<Rightarrow> gf64_t list \<Rightarrow> bool" where
  "solves_blocks A rhs n B xs \<longleftrightarrow>
    (\<forall>i<n. \<forall>w<B. (\<Sum>j<n. Gf (A ! (i * n + j)) * Gf (xs ! (j * B + w))) = Gf (rhs ! (i * B + w)))"

lemma system_kernel:
  "in_kernel n (word_system n B (A, rhs) w) u \<longleftrightarrow>
    (\<forall>i<n. (\<Sum>j<n. Gf (A ! (i * n + j)) * u j) = (if w < B then Gf (rhs ! (i * B + w)) * u n else 0))"
proof -
  have "row_value n (word_system n B (A, rhs) w) u i =
      (\<Sum>j<n. Gf (A ! (i * n + j)) * u j) + (if w < B then Gf (rhs ! (i * B + w)) * u n else 0)" for i
    by (simp add: row_value_def word_system_def lessThan_atLeast0)
  then show ?thesis by (simp add: in_kernel_def gf_add_eq_0_iff)
qed

lemma repair_result:
  assumes "dispatch_ok g" "length A = n * n" "length rhs = n * B"
  shows "(\<exists>A' rhs'. repair_columns g tmp_ok n B n (A, rhs) = Inr (A', rhs') \<and> length rhs' = n * B \<and>
      \<not> singular A n \<and> solves_blocks A rhs n B rhs' \<and>
      (\<forall>xs. length xs = n * B \<longrightarrow> solves_blocks A rhs n B xs \<longrightarrow> xs = rhs')) \<or>
    (\<exists>AR. repair_columns g tmp_ok n B n (A, rhs) = Inl AR \<and> (singular A n \<or> (\<exists>col<n. \<not> tmp_ok col)))"
proof (cases "repair_columns g tmp_ok n B n (A, rhs)")
  case (Inl AR)
  have *: "(\<exists>col<n. \<not> tmp_ok col) \<or>
      (\<forall>w. \<exists>u. in_kernel n (word_system n B (A, rhs) w) u \<and> u n = 0 \<and> (\<exists>j<n. u j \<noteq> 0))"
    using repair_columns_spec [OF assms(1) _ order.refl, where c = n and AR = "(A, rhs)" and tmp_ok = tmp_ok and B = B] assms(2,3) Inl
    by (simp add: repair_sizes_def)
  have "singular A n" if "in_kernel n (word_system n B (A, rhs) B) u" "\<exists>j<n. u j \<noteq> 0" for u
  proof -
    let ?w = "map (\<lambda>j. gf_rep (u j)) [0..<n]"
    from that(2) obtain j where j: "j < n" "u j \<noteq> 0" by blast
    then have "?w ! j \<noteq> 0" by (simp add: gf_eq_iff)
    moreover have "solves A (replicate n 0) n ?w"
      using that(1) unfolding solves_map system_kernel by (simp add: lessThan_atLeast0)
    ultimately show ?thesis unfolding singular_def using j(1) by (intro exI [of _ ?w]) auto
  qed
  then show ?thesis using * Inl by blast
next
  case (Inr AR)
  obtain A' rhs' where AR: "AR = (A', rhs')" by (cases AR)
  have fin: "repair_sizes n B (A', rhs')"
    "in_kernel n (word_system n B (A', rhs') w) = in_kernel n (word_system n B (A, rhs) w)"
    "reduced n n (word_system n B (A', rhs') w)" for w
    using repair_columns_spec [OF assms(1) _ order.refl, where c = n and AR = "(A, rhs)" and tmp_ok = tmp_ok and B = B] assms(2,3) Inr
    by (simp_all add: repair_sizes_def AR)
  have iff: "(\<forall>i<n. (\<Sum>j<n. Gf (A ! (i * n + j)) * u j) = (if w < B then Gf (rhs ! (i * B + w)) * u n else 0)) \<longleftrightarrow>
      (\<forall>i<n. u i = (if w < B then Gf (rhs' ! (i * B + w)) * u n else 0))" for w u
    using kernel_reduced [OF fin(3), of w u] unfolding fin(2) system_kernel by (simp add: word_system_def)
  have cut: "(\<Sum>j<n. f j * (if j < n then h j else 1)) = (\<Sum>j<n. f j * h j)" for f h :: "nat \<Rightarrow> gf"
    by (rule sum.cong) auto
  have word: "(\<forall>i<n. (\<Sum>j<n. Gf (A ! (i * n + j)) * Gf (xs ! (j * B + w))) = Gf (rhs ! (i * B + w))) \<longleftrightarrow>
      (\<forall>i<n. Gf (xs ! (i * B + w)) = Gf (rhs' ! (i * B + w)))" if "w < B" for xs w
    using iff [of "\<lambda>j. if j < n then Gf (xs ! (j * B + w)) else 1" w] that by (simp add: cut)
  have sol: "solves_blocks A rhs n B xs \<longleftrightarrow> (\<forall>w<B. \<forall>i<n. Gf (xs ! (i * B + w)) = Gf (rhs' ! (i * B + w)))" for xs
    unfolding solves_blocks_def using word [of _ xs] by blast
  have len: "length rhs' = n * B" using fin(1) by (simp add: repair_sizes_def)
  have "xs = rhs'" if "length xs = n * B" "solves_blocks A rhs n B xs" for xs
  proof (rule nth_equalityI)
    fix p assume "p < length xs"
    then have p: "p < n * B" using that(1) by simp
    then have "0 < B" by (cases "B = 0") simp_all
    moreover have "p div B < n" using p by (simp add: less_mult_imp_div_less)
    ultimately show "xs ! p = rhs' ! p" using that(2) sol [of xs] by (metis div_mult_mod_eq gf.inject mod_less_divisor)
  qed (simp add: that len)
  moreover have "solves_blocks A rhs n B rhs'" by (simp add: sol)
  moreover have "\<not> singular A n"
  proof
    assume "singular A n"
    then obtain w where w: "length w = n" "\<exists>j<n. w ! j \<noteq> 0" "solves A (replicate n 0) n w"
      by (auto simp: singular_def)
    then have "\<forall>i<n. Gf (w ! i) = 0"
      using iff [of "\<lambda>j. Gf (w ! j)" B] by (simp add: solves_def lessThan_atLeast0)
    then show False using w(2) by (auto simp: gf_eq_iff)
  qed
  ultimately show ?thesis using Inr AR len by blast
qed

end
