(* ===== verification/Engine_Workers.thy ===== *)
theory Engine_Workers
  imports Engine_Repair
begin

text \<open>
  The worker threads of src/par3_engine.cc. A worker is the sequence of memory operations it issues: a
  \<open>memset\<close>, or a call of a region kernel on blocks given by their offsets. The operations act on the
  output buffers (buffer 0 is the recovery array, the others are the temporary arrays of the threads);
  inputs and coefficients are only read. A schedule is the order in which the threads act; \<open>interleave_threads\<close>
  is the sequence of operations it makes of the threads' programs, and None when a thread is not done
  at the end of the schedule (the join has not returned).
\<close>

datatype region_op =
    Clear (op_buffer: nat) nat nat
  | Muladd (op_buffer: nat) nat nat gf64_t nat
  | Fused (op_buffer: nat) "nat list" nat "nat list" nat
  | Two_d (op_buffer: nat) "nat list" "nat list" nat nat nat

definition scatter :: "nat list \<Rightarrow> gf64_t list list \<Rightarrow> gf64_t list \<Rightarrow> gf64_t list" where
  "scatter outs rows mem = fold (\<lambda>(off, row) mem. put_block mem off row) (zip outs rows) mem"

fun region_step ::
  "'a gf64_globals_scheme \<Rightarrow> gf64_t list \<Rightarrow> gf64_t list \<Rightarrow> region_op \<Rightarrow> gf64_t list list \<Rightarrow> gf64_t list list" where
  "region_step g inp coeff (Clear b off len) bufs =
    bufs[b := put_block (bufs ! b) off (replicate len 0)]"
| "region_step g inp coeff (Muladd b off ioff c len) bufs =
    bufs[b := put_block (bufs ! b) off
      (gf64_region_muladd_arr g (block (bufs ! b) off len) (block inp ioff len) [c] len 1)]"
| "region_step g inp coeff (Fused b outs ioff cs len) bufs =
    bufs[b := scatter outs
      (gf64_region_fused_output_muladd_arr g (map (\<lambda>off. block (bufs ! b) off len) outs) (block inp ioff len)
        (map (\<lambda>c. drop c coeff) cs) len (length outs)) (bufs ! b)]"
| "region_step g inp coeff (Two_d b outs ins coff cstride len) bufs =
    bufs[b := scatter outs
      (gf64_region_2d_muladd_arr g (map (\<lambda>off. block (bufs ! b) off len) outs) (length outs)
        (map (\<lambda>off. block inp off len) ins) (length ins) (drop coff coeff) cstride len) (bufs ! b)]"

fun interleave_threads :: "nat list \<Rightarrow> 'a list list \<Rightarrow> 'a list option" where
  "interleave_threads [] progs = (if \<forall>p\<in>set progs. p = [] then Some [] else None)"
| "interleave_threads (t # schedule) progs =
    (if t < length progs \<and> progs ! t \<noteq> []
     then map_option (Cons (hd (progs ! t))) (interleave_threads schedule (progs[t := tl (progs ! t)]))
     else interleave_threads schedule progs)"

section \<open>The program of a worker\<close>

record WorkerRange =
  out_buffer :: nat
  out_start :: nat
  num_out :: nat
  total_num_out :: nat
  in_start :: nat
  num_in :: nat
  coeff_row_start :: nat
  coeff_stride :: nat
  block_size64 :: nat
  block_stride64 :: nat
  tile_size :: nat
  range_accumulate :: bool

text \<open>\<open>for (j = a; j < b; j += step)\<close>\<close>

function strided :: "nat \<Rightarrow> nat \<Rightarrow> nat \<Rightarrow> nat list" where
  "strided a b step = (if a < b \<and> 0 < step then a # strided (a + step) b step else [])"
  by pat_completeness auto
termination by (relation "measure (\<lambda>(a, b, step). b - a)") auto

declare strided.simps [simp del]

definition stride_len :: "WorkerRange \<Rightarrow> nat" where
  "stride_len r = (if block_stride64 r \<noteq> 0 then block_stride64 r else block_size64 r)"

definition out_block :: "WorkerRange \<Rightarrow> nat \<Rightarrow> nat" where
  "out_block r k = out_start r + k * stride_len r"

definition in_block :: "WorkerRange \<Rightarrow> nat \<Rightarrow> nat" where
  "in_block r j = in_start r + j * stride_len r"

definition small_r_ops :: "gf64_t list \<Rightarrow> WorkerRange \<Rightarrow> region_op list" where
  "small_r_ops coeff r =
    (if \<not> range_accumulate r
     then map (\<lambda>k. Clear (out_buffer r) (out_block r k) (block_size64 r)) [0..<num_out r] else []) @
    (if num_out r = 1
     then concat (map (\<lambda>j. let c = coeff ! (coeff_row_start r + j)
            in if c \<noteq> 0 then [Muladd (out_buffer r) (out_start r) (in_block r j) c (block_size64 r)] else [])
          [0..<num_in r])
     else map (\<lambda>j. Fused (out_buffer r) (map (out_block r) [0..<num_out r]) (in_block r j)
            (map (\<lambda>k. coeff_row_start r + k * coeff_stride r + j) [0..<num_out r]) (block_size64 r))
          [0..<num_in r])"

definition tile_ops :: "WorkerRange \<Rightarrow> nat list \<Rightarrow> nat \<Rightarrow> nat \<Rightarrow> nat \<Rightarrow> nat \<Rightarrow> region_op list" where
  "tile_ops r outs coeff_base G j_start j_end =
    map (\<lambda>j. let Gk = min G (j_end - j)
        in Two_d (out_buffer r) outs (map (\<lambda>g_local. in_block r (j + g_local)) [0..<Gk])
             (coeff_base + j) (coeff_stride r) (block_size64 r))
      (strided j_start j_end G)"

definition process_out :: "nat \<Rightarrow> nat \<Rightarrow> WorkerRange \<Rightarrow> nat \<Rightarrow> region_op list" where
  "process_out K G r k_start =
    (let Kk = min K (num_out r - k_start);
         outs = map (\<lambda>k_local. out_block r (k_start + k_local)) [0..<Kk];
         clears = (if \<not> range_accumulate r
           then map (\<lambda>off. Clear (out_buffer r) off (block_size64 r)) outs else []);
         coeff_base = coeff_row_start r + k_start * coeff_stride r
     in clears @
        (if tile_size r = 0 \<or> tile_size r \<ge> num_in r then tile_ops r outs coeff_base G 0 (num_in r)
         else concat (map (\<lambda>j_tile. tile_ops r outs coeff_base G j_tile (min (j_tile + tile_size r) (num_in r)))
                (strided 0 (num_in r) (tile_size r)))))"

definition WorkerThread ::
  "environment \<Rightarrow> (nat \<Rightarrow> host) \<Rightarrow> gf64_t list \<Rightarrow> WorkerRange \<Rightarrow> 'a engine_globals_scheme \<Rightarrow>
    (region_op list \<times> 'a engine_globals_scheme) option" where
  "WorkerThread getenv hosts coeff r g = do {
     g \<leftarrow> EnsureDispatch getenv hosts g;
     if total_num_out r \<le> 32 then Some (small_r_ops coeff r, g)
     else do {
       (K, g) \<leftarrow> GetKGroupSize getenv hosts g;
       (G, g) \<leftarrow> GetGroupSize getenv hosts g;
       Some (concat (map (process_out (nat K) (nat G) r) (strided 0 (num_out r) (nat K))), g)
     }
   }"

definition xor_buffer :: "gf64_t list \<Rightarrow> gf64_t list \<Rightarrow> nat \<Rightarrow> gf64_t list" where
  "xor_buffer dst src count =
    (let blocks = count div 4;
         dst = fold (\<lambda>b dst. let i = 4 * b;
             dst = dst[i := dst ! i XOR src ! i];
             dst = dst[i + 1 := dst ! (i + 1) XOR src ! (i + 1)];
             dst = dst[i + 2 := dst ! (i + 2) XOR src ! (i + 2)]
           in dst[i + 3 := dst ! (i + 3) XOR src ! (i + 3)]) [0..<blocks] dst
     in fold (\<lambda>i dst. dst[i := dst ! i XOR src ! i]) [4 * blocks..<count] dst)"

section \<open>Operations as updates of single words\<close>

text \<open>What an operation does to word \<open>p\<close> of buffer \<open>b\<close>: it may clear it, and it adds a field element.\<close>

definition covers :: "nat \<Rightarrow> nat \<Rightarrow> nat \<Rightarrow> bool" where
  "covers off len p \<longleftrightarrow> off \<le> p \<and> p < off + len"

fun op_clears :: "region_op \<Rightarrow> nat \<Rightarrow> nat \<Rightarrow> bool" where
  "op_clears (Clear b' off len) b p \<longleftrightarrow> b = b' \<and> covers off len p"
| "op_clears _ b p \<longleftrightarrow> False"

fun op_adds :: "gf64_t list \<Rightarrow> gf64_t list \<Rightarrow> region_op \<Rightarrow> nat \<Rightarrow> nat \<Rightarrow> gf" where
  "op_adds inp coeff (Clear b' off len) b p = 0"
| "op_adds inp coeff (Muladd b' off ioff c len) b p =
    (if b = b' \<and> covers off len p then Gf (inp ! (ioff + (p - off))) * Gf c else 0)"
| "op_adds inp coeff (Fused b' outs ioff cs len) b p =
    (if b = b' then \<Sum>k<length outs. if covers (outs ! k) len p
       then Gf (inp ! (ioff + (p - outs ! k))) * Gf (coeff ! (cs ! k)) else 0 else 0)"
| "op_adds inp coeff (Two_d b' outs ins coff cstride len) b p =
    (if b = b' then \<Sum>k<length outs. if covers (outs ! k) len p
       then \<Sum>g<length ins. Gf (inp ! (ins ! g + (p - outs ! k))) * Gf (coeff ! (coff + k * cstride + g)) else 0 else 0)"

definition op_effect :: "gf64_t list \<Rightarrow> gf64_t list \<Rightarrow> nat \<Rightarrow> nat \<Rightarrow> region_op \<Rightarrow> gf \<Rightarrow> gf" where
  "op_effect inp coeff b p oper v = (if op_clears oper b p then 0 else v) + op_adds inp coeff oper b p"

text \<open>
  The operation stays in its arrays: the blocks it writes are inside the buffer and apart from each
  other, the blocks and coefficients it reads exist. \<open>sizes\<close> are the lengths of the output buffers.
\<close>

definition apart :: "nat list \<Rightarrow> nat \<Rightarrow> bool" where
  "apart outs len \<longleftrightarrow> (\<forall>i<length outs. \<forall>j<length outs. \<forall>p. covers (outs ! i) len p \<longrightarrow> covers (outs ! j) len p \<longrightarrow> i = j)"

fun op_in_bounds :: "nat list \<Rightarrow> nat \<Rightarrow> nat \<Rightarrow> region_op \<Rightarrow> bool" where
  "op_in_bounds sizes n_in n_coeff (Clear b off len) \<longleftrightarrow> b < length sizes \<and> off + len \<le> sizes ! b"
| "op_in_bounds sizes n_in n_coeff (Muladd b off ioff c len) \<longleftrightarrow>
    b < length sizes \<and> off + len \<le> sizes ! b \<and> ioff + len \<le> n_in"
| "op_in_bounds sizes n_in n_coeff (Fused b outs ioff cs len) \<longleftrightarrow>
    b < length sizes \<and> (\<forall>off\<in>set outs. off + len \<le> sizes ! b) \<and> apart outs len \<and> ioff + len \<le> n_in \<and>
    length cs = length outs \<and> (\<forall>c\<in>set cs. c < n_coeff)"
| "op_in_bounds sizes n_in n_coeff (Two_d b outs ins coff cstride len) \<longleftrightarrow>
    b < length sizes \<and> (\<forall>off\<in>set outs. off + len \<le> sizes ! b) \<and> apart outs len \<and>
    (\<forall>off\<in>set ins. off + len \<le> n_in) \<and> (\<forall>k<length outs. coff + k * cstride + length ins \<le> n_coeff)"

lemma dispatched_fused:
  assumes "dispatch_ok g"
  shows "gf64_region_fused_output_muladd_arr g outs inp starts len K =
    acc_rows outs (\<lambda>k i. if i < len \<and> k < K then Gf (inp ! i) * Gf (starts ! k ! 0) else 0)"
  using bound.fused [of "gf64_current_method g" g] assms by (simp add: dispatch_ok_def)

lemma dispatched_2d:
  assumes "dispatch_ok g"
  shows "gf64_region_2d_muladd_arr g outs K ins G c2d cstride len =
    acc_rows outs (\<lambda>k i. if i < len \<and> k < K
      then \<Sum>g=0..<G. Gf (ins ! g ! i) * Gf (c2d ! (k * cstride + g)) else 0)"
  using bound.two_d [of "gf64_current_method g" g] assms by (simp add: dispatch_ok_def)

lemma scatter_result:
  assumes "length rows = length outs" "\<forall>off\<in>set outs. off + len \<le> length mem" "\<forall>row\<in>set rows. length row = len"
    "apart outs len"
  shows "length (scatter outs rows mem) = length mem"
    and "k < length outs \<Longrightarrow> covers (outs ! k) len p \<Longrightarrow> scatter outs rows mem ! p = rows ! k ! (p - outs ! k)"
    and "p < length mem \<Longrightarrow> \<forall>k<length outs. \<not> covers (outs ! k) len p \<Longrightarrow> scatter outs rows mem ! p = mem ! p"
proof -
  let ?f = "\<lambda>n. fold (\<lambda>(off, row) mem. put_block mem off row) (zip (take n outs) (take n rows)) mem"
  have step: "?f (Suc n) = put_block (?f n) (outs ! n) (rows ! n)" if "n < length outs" for n
    using that assms(1) by (simp add: take_Suc_conv_app_nth)
  have *: "length (?f n) = length mem \<and> (\<forall>p<length mem. ?f n ! p =
      (if \<exists>k<n. covers (outs ! k) len p then rows ! (THE k. k < n \<and> covers (outs ! k) len p) !
        (p - outs ! (THE k. k < n \<and> covers (outs ! k) len p)) else mem ! p))" if "n \<le> length outs" for n
    using that
  proof (induction n)
    case (Suc n)
    then have n: "n < length outs" and IH: "length (?f n) = length mem" by auto
    have len: "length (rows ! n) = len" "outs ! n + len \<le> length mem" using assms(1-3) n by simp_all
    have "?f (Suc n) ! p = (if \<exists>k<Suc n. covers (outs ! k) len p
        then rows ! (THE k. k < Suc n \<and> covers (outs ! k) len p) ! (p - outs ! (THE k. k < Suc n \<and> covers (outs ! k) len p))
        else mem ! p)" if p: "p < length mem" for p
    proof (cases "covers (outs ! n) len p")
      case True
      then have only: "k < Suc n \<and> covers (outs ! k) len p \<longleftrightarrow> k = n" for k
        using assms(4) n by (auto simp: apart_def)
      have "?f (Suc n) ! p = rows ! n ! (p - outs ! n)"
        using True len p IH unfolding step [OF n] by (subst nth_put_block) (simp_all add: covers_def)
      then show ?thesis unfolding only using True by auto
    next
      case False
      then have "k < Suc n \<and> covers (outs ! k) len p \<longleftrightarrow> k < n \<and> covers (outs ! k) len p" for k
        by (auto simp: less_Suc_eq)
      moreover have "?f (Suc n) ! p = ?f n ! p"
        using False len p IH unfolding step [OF n] by (subst nth_put_block) (auto simp: covers_def)
      ultimately show ?thesis using Suc p by auto
    qed
    moreover have "length (?f (Suc n)) = length mem"
      unfolding step [OF n] using IH len by (simp add: length_put_block)
    ultimately show ?case by blast
  qed simp
  have all: "?f (length outs) = scatter outs rows mem" using assms(1) by (simp add: scatter_def)
  show "length (scatter outs rows mem) = length mem" using * [of "length outs"] by (simp only: all)
  show "scatter outs rows mem ! p = rows ! k ! (p - outs ! k)" if k: "k < length outs" "covers (outs ! k) len p"
  proof -
    have "outs ! k + len \<le> length mem" using assms(2) nth_mem [OF k(1)] by blast
    then have p: "p < length mem" using k(2) by (simp add: covers_def)
    have "(THE k. k < length outs \<and> covers (outs ! k) len p) = k"
      using k assms(4) by (intro the_equality) (auto simp: apart_def)
    then show ?thesis using * [of "length outs", unfolded all] p k by auto
  qed
  show "p < length mem \<Longrightarrow> \<forall>k<length outs. \<not> covers (outs ! k) len p \<Longrightarrow> scatter outs rows mem ! p = mem ! p"
    using * [of "length outs", unfolded all] by auto
qed

lemma scatter_acc:
  fixes F :: "nat \<Rightarrow> nat \<Rightarrow> gf"
  assumes "\<forall>off\<in>set outs. off + len \<le> length mem" "apart outs len"
  defines "rows \<equiv> acc_rows (map (\<lambda>off. block mem off len) outs) F"
  shows "length (scatter outs rows mem) = length mem"
    and "p < length mem \<Longrightarrow> Gf (scatter outs rows mem ! p) =
      Gf (mem ! p) + (\<Sum>k<length outs. if covers (outs ! k) len p then F k (p - outs ! k) else 0)"
proof -
  have inb: "outs ! k + len \<le> length mem" if "k < length outs" for k using assms(1) nth_mem [OF that] by blast
  have rows: "length rows = length outs" "\<forall>row\<in>set rows. length row = len"
    using inb by (auto simp: rows_def in_set_conv_nth length_block)
  note sc = scatter_result [OF rows(1) assms(1) rows(2) assms(2)]
  show "length (scatter outs rows mem) = length mem" by (rule sc(1))
  show "Gf (scatter outs rows mem ! p) =
      Gf (mem ! p) + (\<Sum>k<length outs. if covers (outs ! k) len p then F k (p - outs ! k) else 0)" if p: "p < length mem"
  proof (cases "\<exists>k<length outs. covers (outs ! k) len p")
    case True
    then obtain k where k: "k < length outs" "covers (outs ! k) len p" by blast
    have only: "covers (outs ! i) len p \<longleftrightarrow> i = k" if "i < length outs" for i
      using assms(2) that k by (auto simp: apart_def)
    have "(\<Sum>i<length outs. if covers (outs ! i) len p then F i (p - outs ! i) else 0) =
        (\<Sum>i<length outs. if i = k then F k (p - outs ! k) else 0)"
      by (rule sum.cong) (auto simp: only)
    moreover have "p - outs ! k < len" using k(2) by (auto simp: covers_def)
    then have "rows ! k ! (p - outs ! k) = gf_rep (Gf (mem ! p) + F k (p - outs ! k))"
      using k inb [OF k(1)] by (simp add: rows_def length_block nth_block covers_def)
    ultimately show ?thesis using sc(2) [OF k] k(1) by (simp add: Gf_xor)
  next
    case False
    then have "(\<Sum>k<length outs. if covers (outs ! k) len p then F k (p - outs ! k) else 0) = 0"
      by (intro sum.neutral) auto
    then show ?thesis using sc(3) [OF p] False by auto
  qed
qed

lemma region_step_effect:
  assumes "dispatch_ok g" "op_in_bounds (map length bufs) (length inp) (length coeff) oper"
  shows "map length (region_step g inp coeff oper bufs) = map length bufs \<and>
    (\<forall>b<length bufs. \<forall>p<length (bufs ! b). Gf (region_step g inp coeff oper bufs ! b ! p) =
      op_effect inp coeff b p oper (Gf (bufs ! b ! p)))"
proof (cases oper)
  case (Clear b off len)
  then have "b < length bufs" "off + len \<le> length (bufs ! b)" using assms(2) by auto
  then show ?thesis unfolding Clear
    by (auto simp: op_effect_def nth_put_block length_put_block nth_list_update covers_def map_update list_update_same_conv
        intro!: nth_equalityI)
next
  case (Muladd b off ioff c len)
  then have b: "b < length bufs" "off + len \<le> length (bufs ! b)" "ioff + len \<le> length inp" using assms(2) by auto
  let ?xs = "gf64_region_muladd_arr g (block (bufs ! b) off len) (block inp ioff len) [c] len 1"
  have xs: "?xs = acc_row (block (bufs ! b) off len) (\<lambda>i. if i < len then Gf (block inp ioff len ! i) * Gf c else 0)"
    unfolding dispatched_muladd [OF assms(1)] by (rule acc_row_cong) simp
  have len: "length ?xs = len" unfolding xs using b by (simp add: length_block)
  have val: "Gf (?xs ! i) = Gf (bufs ! b ! (off + i)) + Gf (inp ! (ioff + i)) * Gf c" if "i < len" for i
    unfolding xs using b that by (simp add: length_block nth_block Gf_xor)
  have "Gf (put_block (bufs ! b) off ?xs ! p) = op_effect inp coeff b p oper (Gf (bufs ! b ! p))" if "p < length (bufs ! b)" for p
    using nth_put_block [of off ?xs "bufs ! b" p] b that val [of "p - off"]
    unfolding Muladd len by (auto simp: op_effect_def covers_def)
  moreover have "length (put_block (bufs ! b) off ?xs) = length (bufs ! b)" using b len by (simp add: length_put_block)
  moreover have "op_effect inp coeff b' p oper v = v" if "b' \<noteq> b" for b' p v using that by (simp add: Muladd op_effect_def)
  ultimately show ?thesis unfolding Muladd using b(1)
    by (auto simp: nth_list_update map_update intro!: nth_equalityI)
next
  case (Fused b outs ioff cs len)
  then have b: "b < length bufs" "\<forall>off\<in>set outs. off + len \<le> length (bufs ! b)" "apart outs len" "ioff + len \<le> length inp"
    "length cs = length outs" "\<forall>c\<in>set cs. c < length coeff" using assms(2) by auto
  let ?F = "\<lambda>k i. if i < len \<and> k < length outs then Gf (block inp ioff len ! i) * Gf (map (\<lambda>c. drop c coeff) cs ! k ! 0) else 0"
  have head: "drop (cs ! k) coeff ! 0 = coeff ! (cs ! k)" if "k < length outs" for k
  proof -
    have "cs ! k < length coeff" using b(5,6) that nth_mem [of k cs] by simp
    then show ?thesis by simp
  qed
  have F: "(\<Sum>k<length outs. if covers (outs ! k) len p then ?F k (p - outs ! k) else 0) = op_adds inp coeff oper b p" for p
    unfolding Fused op_adds.simps using b(4,5)
    by (auto simp: covers_def nth_block less_diff_conv2 head intro!: sum.cong)
  note sc = scatter_acc [OF b(2,3), where F = ?F]
  have "op_effect inp coeff b' p oper v = v" if "b' \<noteq> b" for b' p v using that by (simp add: Fused op_effect_def)
  moreover have "op_effect inp coeff b p oper v = v + op_adds inp coeff oper b p" for p v by (simp add: Fused op_effect_def)
  ultimately show ?thesis
    using b(1) sc F unfolding Fused region_step.simps dispatched_fused [OF assms(1)]
    by (auto simp: nth_list_update map_update intro!: nth_equalityI)
next
  case (Two_d b outs ins coff cstride len)
  then have b: "b < length bufs" "\<forall>off\<in>set outs. off + len \<le> length (bufs ! b)" "apart outs len"
    "\<forall>off\<in>set ins. off + len \<le> length inp" "\<forall>k<length outs. coff + k * cstride + length ins \<le> length coeff"
    using assms(2) by auto
  let ?F = "\<lambda>k i. if i < len \<and> k < length outs then
    \<Sum>h=0..<length ins. Gf (map (\<lambda>off. block inp off len) ins ! h ! i) * Gf (drop coff coeff ! (k * cstride + h)) else 0"
  have "?F k i = (\<Sum>h<length ins. Gf (inp ! (ins ! h + i)) * Gf (coeff ! (coff + k * cstride + h)))"
    if "i < len" "k < length outs" for k i
  proof -
    have "coff \<le> length coeff" using b(5) that(2) by (meson add_leD1)
    then have "Gf (map (\<lambda>off. block inp off len) ins ! h ! i) * Gf (drop coff coeff ! (k * cstride + h)) =
        Gf (inp ! (ins ! h + i)) * Gf (coeff ! (coff + k * cstride + h))" if "h < length ins" for h
      using b(4) that \<open>i < len\<close> by (simp add: nth_block add.assoc)
    then show ?thesis using that by (simp add: lessThan_atLeast0)
  qed
  then have F: "(\<Sum>k<length outs. if covers (outs ! k) len p then ?F k (p - outs ! k) else 0) = op_adds inp coeff oper b p" for p
    unfolding Two_d op_adds.simps by (auto simp: covers_def less_diff_conv2 intro!: sum.cong)
  note sc = scatter_acc [OF b(2,3), where F = ?F]
  have "op_effect inp coeff b' p oper v = v" if "b' \<noteq> b" for b' p v using that by (simp add: Two_d op_effect_def)
  moreover have "op_effect inp coeff b p oper v = v + op_adds inp coeff oper b p" for p v by (simp add: Two_d op_effect_def)
  ultimately show ?thesis
    using b(1) sc F unfolding Two_d region_step.simps dispatched_2d [OF assms(1)]
    by (auto simp: nth_list_update map_update intro!: nth_equalityI)
qed

definition run_ops ::
  "'a gf64_globals_scheme \<Rightarrow> gf64_t list \<Rightarrow> gf64_t list \<Rightarrow> region_op list \<Rightarrow> gf64_t list list \<Rightarrow> gf64_t list list" where
  "run_ops g inp coeff opers bufs = fold (region_step g inp coeff) opers bufs"

lemma run_ops_effect:
  assumes "dispatch_ok g" "\<forall>oper\<in>set opers. op_in_bounds (map length bufs) (length inp) (length coeff) oper"
  shows "map length (run_ops g inp coeff opers bufs) = map length bufs \<and>
    (\<forall>b<length bufs. \<forall>p<length (bufs ! b). Gf (run_ops g inp coeff opers bufs ! b ! p) =
      fold (op_effect inp coeff b p) opers (Gf (bufs ! b ! p)))"
  using assms(2)
proof (induction opers arbitrary: bufs)
  case (Cons oper opers)
  let ?bufs = "region_step g inp coeff oper bufs"
  have step: "map length ?bufs = map length bufs"
    "\<forall>b<length bufs. \<forall>p<length (bufs ! b). Gf (?bufs ! b ! p) = op_effect inp coeff b p oper (Gf (bufs ! b ! p))"
    using region_step_effect [OF assms(1), of bufs inp coeff oper] Cons.prems by auto
  have "length ?bufs = length bufs" using step(1) by (metis length_map)
  moreover have "length (?bufs ! b) = length (bufs ! b)" if "b < length bufs" for b
    using step(1) that by (metis calculation nth_map)
  moreover have "\<forall>oper\<in>set opers. op_in_bounds (map length ?bufs) (length inp) (length coeff) oper"
    using Cons.prems unfolding step(1) by simp
  ultimately show ?case using Cons.IH [of ?bufs] step by (simp add: run_ops_def)
qed (simp add: run_ops_def)

section \<open>Threads\<close>

text \<open>
  A word that only one thread touches ends with the value the thread alone gives it, and a word that no
  thread touches keeps its value.
\<close>

lemma interleave_owner:
  assumes "interleave_threads schedule progs = Some seq" "t < length progs"
    "\<And>t' oper v. t' < length progs \<Longrightarrow> t' \<noteq> t \<Longrightarrow> oper \<in> set (progs ! t') \<Longrightarrow> f oper v = v"
  shows "fold f seq v = fold f (progs ! t) v"
  using assms
proof (induction schedule progs arbitrary: seq v rule: interleave_threads.induct)
  case (1 progs)
  then have "progs ! t \<in> set progs" "seq = []" "\<forall>p\<in>set progs. p = []" by (auto split: if_splits)
  then show ?case by (metis)
next
  case (2 u schedule progs)
  show ?case
  proof (cases "u < length progs \<and> progs ! u \<noteq> []")
    case True
    let ?progs = "progs[u := tl (progs ! u)]"
    obtain seq' where s: "interleave_threads schedule ?progs = Some seq'" "seq = hd (progs ! u) # seq'"
      using 2(3) True by auto
    have other: "f oper v = v" if "t' < length ?progs" "t' \<noteq> t" "oper \<in> set (?progs ! t')" for t' oper v
      using 2(5) [of t' oper v] that True list.set_sel(2) [of "progs ! u" oper]
      by (cases "t' = u") auto
    have IH: "fold f seq' w = fold f (?progs ! t) w" for w
      using 2(1) [OF True s(1)] 2(4) other by simp
    show ?thesis
    proof (cases "u = t")
      case True
      then show ?thesis using \<open>u < length progs \<and> progs ! u \<noteq> []\<close> IH s(2) by (cases "progs ! u") auto
    next
      case False
      then have "f (hd (progs ! u)) v = v" using 2(5) [of u "hd (progs ! u)" v] True by simp
      then show ?thesis using IH s(2) False by simp
    qed
  next
    case False
    then have "interleave_threads schedule progs = Some seq" using 2(3) by (auto split: if_splits)
    then show ?thesis using 2(2) [OF False] 2(4,5) by blast
  qed
qed

lemma interleave_set:
  assumes "interleave_threads schedule progs = Some seq"
  shows "set seq = (\<Union>p\<in>set progs. set p)"
  using assms
proof (induction schedule progs arbitrary: seq rule: interleave_threads.induct)
  case (1 progs)
  then show ?case by (auto split: if_splits)
next
  case (2 u schedule progs)
  show ?case
  proof (cases "u < length progs \<and> progs ! u \<noteq> []")
    case True
    then obtain seq' where s: "interleave_threads schedule (progs[u := tl (progs ! u)]) = Some seq'" "seq = hd (progs ! u) # seq'"
      using 2(3) by auto
    have split: "progs = take u progs @ progs ! u # drop (Suc u) progs" using True by (intro id_take_nth_drop) simp
    have new: "progs[u := tl (progs ! u)] = take u progs @ tl (progs ! u) # drop (Suc u) progs"
      using True by (simp add: upd_conv_take_nth_drop)
    have "(\<Union>p\<in>set progs. set p) = (\<Union>p\<in>set (take u progs). set p) \<union> set (progs ! u) \<union> (\<Union>p\<in>set (drop (Suc u) progs). set p)"
      by (subst split) auto
    moreover have "(\<Union>p\<in>set (progs[u := tl (progs ! u)]). set p) =
        (\<Union>p\<in>set (take u progs). set p) \<union> set (tl (progs ! u)) \<union> (\<Union>p\<in>set (drop (Suc u) progs). set p)"
      unfolding new by auto
    moreover have "set (progs ! u) = insert (hd (progs ! u)) (set (tl (progs ! u)))" using True by (cases "progs ! u") auto
    ultimately show ?thesis using 2(1) [OF True s(1)] s(2) by auto
  next
    case False
    then show ?thesis using 2 by auto
  qed
qed

lemma interleave_ends:
  assumes "\<And>t. t < length progs \<Longrightarrow> length (progs ! t) \<le> count_list schedule t"
  shows "\<exists>seq. interleave_threads schedule progs = Some seq"
  using assms
proof (induction schedule progs rule: interleave_threads.induct)
  case (1 progs)
  then have "p = []" if "p \<in> set progs" for p using that by (auto simp: in_set_conv_nth)
  then show ?case by auto
next
  case (2 u schedule progs)
  show ?case
  proof (cases "u < length progs \<and> progs ! u \<noteq> []")
    case True
    let ?progs = "progs[u := tl (progs ! u)]"
    have "length (?progs ! t) \<le> count_list schedule t" if "t < length ?progs" for t
      using 2(3) [of t] that True by (cases "t = u") (auto split: if_splits)
    then obtain seq where "interleave_threads schedule ?progs = Some seq" using 2(1) [OF True] by blast
    then show ?thesis using True by simp
  next
    case False
    have "length (progs ! t) \<le> count_list schedule t" if "t < length progs" for t
      using 2(3) [OF that] False that by (cases "t = u") auto
    then show ?thesis using 2(2) [OF False] False by auto
  qed
qed

section \<open>Strided loops\<close>

lemma strided_Nil: "b \<le> a \<Longrightarrow> strided a b step = []"
  by (subst strided.simps) simp

lemma strided_Cons: "a < b \<Longrightarrow> 0 < step \<Longrightarrow> strided a b step = a # strided (a + step) b step"
  by (subst strided.simps) simp

lemma strided_range: "s \<in> set (strided a b step) \<Longrightarrow> a \<le> s \<and> s < b"
proof (induction a b step rule: strided.induct)
  case (1 a b step)
  then show ?case by (subst (asm) (2) strided.simps) (auto split: if_splits dest: add_leD1)
qed

lemma sum_strided:
  fixes F :: "nat \<Rightarrow> 'c::comm_monoid_add"
  assumes "0 < step"
  shows "(\<Sum>s\<leftarrow>strided a b step. \<Sum>j=s..<min (s + step) b. F j) = (\<Sum>j=a..<b. F j)"
  using assms
proof (induction a b step rule: strided.induct)
  case (1 a b step)
  show ?case
  proof (cases "a < b \<and> 0 < step")
    case True
    then have "(\<Sum>s\<leftarrow>strided a b step. \<Sum>j=s..<min (s + step) b. F j) =
        (\<Sum>j=a..<min (a + step) b. F j) + (\<Sum>j=a + step..<b. F j)"
      using 1 by (subst strided.simps) simp
    also have "\<dots> = (\<Sum>j=a..<b. F j)"
    proof (cases "a + step \<le> b")
      case True
      then show ?thesis by (simp add: sum.atLeastLessThan_concat)
    qed simp
    finally show ?thesis .
  next
    case False
    then show ?thesis using 1(2) by (simp add: strided_Nil)
  qed
qed

lemma fold_unchanged: "(\<And>x v. x \<in> set xs \<Longrightarrow> f x v = v) \<Longrightarrow> fold f xs v = v"
  by (induction xs) simp_all

text \<open>Of a strided loop whose bodies act on a word only in their own chunk, one body acts.\<close>

lemma fold_strided_once:
  assumes "a \<le> k" "k < b" "0 < step" "\<And>s v. \<not> (s \<le> k \<and> k < s + step) \<Longrightarrow> f s v = v"
  shows "\<exists>s. a \<le> s \<and> s \<le> k \<and> k < s + step \<and> s < b \<and> fold f (strided a b step) v = f s v"
  using assms
proof (induction a b step arbitrary: v rule: strided.induct)
  case (1 a b step)
  have skip: "fold f (strided c b step) w = w" if "k < c" for c w
  proof (rule fold_unchanged)
    fix s v assume "s \<in> set (strided c b step)"
    then have "c \<le> s" by (rule strided_range [THEN conjunct1])
    then show "f s v = v" using that by (intro 1(5)) simp
  qed
  show ?case
  proof (cases "k < a + step")
    case True
    then show ?thesis using 1(2-4) skip [OF True] by (auto simp: strided_Cons intro!: exI [of _ a])
  next
    case False
    then have "f a v = v" by (intro 1(5)) simp
    moreover obtain s where "a + step \<le> s \<and> s \<le> k \<and> k < s + step \<and> s < b \<and> fold f (strided (a + step) b step) v = f s v"
      using 1(1) [of v] 1(2-5) False by fastforce
    ultimately show ?thesis using 1(2-4) by (intro exI [of _ s]) (simp add: strided_Cons [of a b step])
  qed
qed

section \<open>What a worker computes\<close>

definition worker_ops :: "nat \<Rightarrow> nat \<Rightarrow> gf64_t list \<Rightarrow> WorkerRange \<Rightarrow> region_op list" where
  "worker_ops K G coeff r =
    (if total_num_out r \<le> 32 then small_r_ops coeff r
     else concat (map (process_out K G r) (strided 0 (num_out r) K)))"

text \<open>The arrays of a range: the blocks it writes, reads and the coefficients exist; blocks do not overlap.\<close>

definition range_ok :: "nat list \<Rightarrow> nat \<Rightarrow> nat \<Rightarrow> WorkerRange \<Rightarrow> bool" where
  "range_ok sizes n_in n_coeff r \<longleftrightarrow> out_buffer r < length sizes \<and> block_size64 r \<le> stride_len r \<and>
    num_out r \<le> total_num_out r \<and>
    (\<forall>k<num_out r. out_block r k + block_size64 r \<le> sizes ! out_buffer r) \<and>
    (\<forall>j<num_in r. in_block r j + block_size64 r \<le> n_in) \<and>
    (\<forall>k<num_out r. coeff_row_start r + k * coeff_stride r + num_in r \<le> n_coeff)"

definition range_owns :: "WorkerRange \<Rightarrow> nat \<Rightarrow> nat \<Rightarrow> bool" where
  "range_owns r b p \<longleftrightarrow> b = out_buffer r \<and> (\<exists>k<num_out r. covers (out_block r k) (block_size64 r) p)"

definition range_product :: "gf64_t list \<Rightarrow> gf64_t list \<Rightarrow> WorkerRange \<Rightarrow> nat \<Rightarrow> nat \<Rightarrow> nat \<Rightarrow> gf" where
  "range_product inp coeff r k w j =
    Gf (inp ! (in_block r j + w)) * Gf (coeff ! (coeff_row_start r + k * coeff_stride r + j))"

fun op_touches :: "region_op \<Rightarrow> nat \<Rightarrow> nat \<Rightarrow> bool" where
  "op_touches (Clear b' off len) b p \<longleftrightarrow> b = b' \<and> covers off len p"
| "op_touches (Muladd b' off ioff c len) b p \<longleftrightarrow> b = b' \<and> covers off len p"
| "op_touches (Fused b' outs ioff cs len) b p \<longleftrightarrow> b = b' \<and> (\<exists>off\<in>set outs. covers off len p)"
| "op_touches (Two_d b' outs ins coff cstride len) b p \<longleftrightarrow> b = b' \<and> (\<exists>off\<in>set outs. covers off len p)"

lemma untouched: "\<not> op_touches oper b p \<Longrightarrow> op_effect inp coeff b p oper v = v"
  by (cases oper) (auto simp: op_effect_def intro!: sum.neutral)

lemma fold_untouched:
  "(\<And>oper. oper \<in> set opers \<Longrightarrow> \<not> op_touches oper b p) \<Longrightarrow> fold (op_effect inp coeff b p) opers v = v"
  by (rule fold_unchanged) (simp add: untouched)

lemma fold_adds:
  "(\<And>oper. oper \<in> set opers \<Longrightarrow> \<not> op_clears oper b p) \<Longrightarrow>
    fold (op_effect inp coeff b p) opers v = v + (\<Sum>oper\<leftarrow>opers. op_adds inp coeff oper b p)"
  by (induction opers arbitrary: v) (auto simp: op_effect_def add.assoc)

lemma fold_clears:
  "fold (op_effect inp coeff b p) (map (\<lambda>off. Clear b off len) offs) v =
    (if \<exists>off\<in>set offs. covers off len p then 0 else v)"
  by (induction offs arbitrary: v) (auto simp: op_effect_def)

lemma block_owner:
  assumes "block_size64 r \<le> stride_len r" "covers (out_block r k) (block_size64 r) p"
  shows "covers (out_block r k') (block_size64 r) p \<longleftrightarrow> k' = k"
proof
  assume k': "covers (out_block r k') (block_size64 r) p"
  have "p - out_start r < k * stride_len r + stride_len r" "k * stride_len r \<le> p - out_start r"
    "p - out_start r < k' * stride_len r + stride_len r" "k' * stride_len r \<le> p - out_start r"
    using assms k' by (auto simp: covers_def out_block_def)
  then have "(p - out_start r) div stride_len r = k" and "(p - out_start r) div stride_len r = k'"
    by (auto intro!: div_nat_eqI simp: mult.commute)
  then show "k' = k" by simp
qed (use assms in simp)

lemma sum_owner:
  fixes F :: "nat \<Rightarrow> gf"
  assumes "block_size64 r \<le> stride_len r" "covers (out_block r k) (block_size64 r) p" "a \<le> k" "k < a + n"
  shows "(\<Sum>i<n. if covers (out_block r (a + i)) (block_size64 r) p then F i else 0) = F (k - a)"
proof -
  have "(\<Sum>i<n. if covers (out_block r (a + i)) (block_size64 r) p then F i else 0) =
      (\<Sum>i<n. if i = k - a then F (k - a) else 0)"
    by (rule sum.cong) (use assms(3) in \<open>auto simp: block_owner [OF assms(1,2)]\<close>)
  moreover have "k - a < n" using assms(3,4) by linarith
  ultimately show ?thesis by simp
qed

lemma apart_blocks:
  assumes "block_size64 r \<le> stride_len r"
  shows "apart (map (\<lambda>k. out_block r (a + k)) [0..<n]) (block_size64 r)"
  using block_owner [OF assms] by (auto simp: apart_def)

lemma small_r_touches: "oper \<in> set (small_r_ops coeff r) \<Longrightarrow> op_touches oper b p \<Longrightarrow> range_owns r b p"
  by (auto simp: small_r_ops_def range_owns_def Let_def out_block_def split: if_splits) blast

lemma small_r_value:
  assumes "block_size64 r \<le> stride_len r" "k < num_out r" "covers (out_block r k) (block_size64 r) p"
  shows "fold (op_effect inp coeff (out_buffer r) p) (small_r_ops coeff r) v =
    (if range_accumulate r then v else 0) + (\<Sum>j<num_in r. range_product inp coeff r k (p - out_block r k) j)"
proof -
  let ?b = "out_buffer r" and ?len = "block_size64 r"
  let ?clears = "if \<not> range_accumulate r then map (\<lambda>k. Clear ?b (out_block r k) ?len) [0..<num_out r] else []"
  have clears: "fold (op_effect inp coeff ?b p) ?clears v = (if range_accumulate r then v else 0)"
    using fold_clears [of inp coeff ?b p ?len "map (out_block r) [0..<num_out r]" v] assms(2,3) by (auto simp: comp_def)
  show ?thesis
  proof (cases "num_out r = 1")
    case True
    let ?step = "\<lambda>j. let c = coeff ! (coeff_row_start r + j)
            in if c \<noteq> 0 then [Muladd ?b (out_start r) (in_block r j) c ?len] else []"
    let ?adds = "concat (map ?step [0..<num_in r])"
    have k: "k = 0" using True assms(2) by simp
    have "(\<Sum>oper\<leftarrow>concat (map ?step js). op_adds inp coeff oper ?b p) =
        (\<Sum>j\<leftarrow>js. range_product inp coeff r k (p - out_block r k) j)" for js
      using assms(3) unfolding k by (induction js) (auto simp: Let_def range_product_def out_block_def)
    moreover have "fold (op_effect inp coeff ?b p) ?adds w = w + (\<Sum>oper\<leftarrow>?adds. op_adds inp coeff oper ?b p)" for w
      by (rule fold_adds) (auto simp: Let_def split: if_splits)
    ultimately show ?thesis
      using True clears by (simp add: small_r_ops_def interv_sum_list_conv_sum_set_nat lessThan_atLeast0)
  next
    case False
    let ?adds = "map (\<lambda>j. Fused ?b (map (out_block r) [0..<num_out r]) (in_block r j)
            (map (\<lambda>k. coeff_row_start r + k * coeff_stride r + j) [0..<num_out r]) ?len) [0..<num_in r]"
    have "op_adds inp coeff (?adds ! j) ?b p = range_product inp coeff r k (p - out_block r k) j" if "j < num_in r" for j
    proof -
      have "op_adds inp coeff (?adds ! j) ?b p = (\<Sum>i<num_out r. if covers (out_block r (0 + i)) ?len p
          then range_product inp coeff r i (p - out_block r i) j else 0)"
        using that by (auto simp: range_product_def intro!: sum.cong)
      then show ?thesis using sum_owner [OF assms(1,3), of 0 "num_out r"] assms(2) by simp
    qed
    then have "(\<Sum>oper\<leftarrow>?adds. op_adds inp coeff oper ?b p) = (\<Sum>j<num_in r. range_product inp coeff r k (p - out_block r k) j)"
      by (simp add: sum_list_sum_nth lessThan_atLeast0)
    moreover have "fold (op_effect inp coeff ?b p) ?adds w = w + (\<Sum>oper\<leftarrow>?adds. op_adds inp coeff oper ?b p)" for w
      by (rule fold_adds) auto
    ultimately show ?thesis using False clears by (simp add: small_r_ops_def)
  qed
qed

lemma small_r_bounds:
  assumes "range_ok sizes n_in n_coeff r"
  shows "\<forall>oper\<in>set (small_r_ops coeff r). op_in_bounds sizes n_in n_coeff oper"
proof -
  note r = assms [unfolded range_ok_def]
  have "apart (map (out_block r) [0..<num_out r]) (block_size64 r)" using apart_blocks [of r 0 "num_out r"] r by simp
  moreover have "coeff_row_start r + k * coeff_stride r + j < n_coeff" if "k < num_out r" "j < num_in r" for k j
    using r that by (meson add_less_cancel_left less_le_trans)
  ultimately show ?thesis using r by (auto simp: small_r_ops_def Let_def out_block_def split: if_splits)
qed

text \<open>The tiles of a group of outputs.\<close>

lemma tile_touches:
  assumes "oper \<in> set (tile_ops r outs cb G a b)" "op_touches oper b' p"
  shows "b' = out_buffer r \<and> (\<exists>off\<in>set outs. covers off (block_size64 r) p)"
  using assms by (auto simp: tile_ops_def Let_def)

lemma tile_adds_only: "oper \<in> set (tile_ops r outs cb G a b) \<Longrightarrow> \<not> op_clears oper b' p"
  by (auto simp: tile_ops_def Let_def)

lemma tile_value:
  assumes "block_size64 r \<le> stride_len r" "covers (out_block r k) (block_size64 r) p" "s \<le> k" "k < s + n" "0 < G"
  shows "(\<Sum>oper\<leftarrow>tile_ops r (map (\<lambda>i. out_block r (s + i)) [0..<n]) (coeff_row_start r + s * coeff_stride r) G a b.
      op_adds inp coeff oper (out_buffer r) p) =
    (\<Sum>j=a..<b. range_product inp coeff r k (p - out_block r k) j)"
proof -
  let ?outs = "map (\<lambda>i. out_block r (s + i)) [0..<n]" and ?cb = "coeff_row_start r + s * coeff_stride r"
  let ?op = "\<lambda>j. let Gk = min G (b - j) in Two_d (out_buffer r) ?outs (map (\<lambda>h. in_block r (j + h)) [0..<Gk])
    (?cb + j) (coeff_stride r) (block_size64 r)"
  let ?P = "range_product inp coeff r k (p - out_block r k)"
  have step: "op_adds inp coeff (?op j) (out_buffer r) p = (\<Sum>j'=j..<min (j + G) b. ?P j')" for j
  proof -
    have "op_adds inp coeff (?op j) (out_buffer r) p = (\<Sum>i<n. if covers (out_block r (s + i)) (block_size64 r) p
        then \<Sum>h<min G (b - j). range_product inp coeff r (s + i) (p - out_block r (s + i)) (j + h) else 0)"
      by (auto simp: Let_def range_product_def algebra_simps intro!: sum.cong)
    also have "\<dots> = (\<Sum>h<min G (b - j). range_product inp coeff r (s + (k - s)) (p - out_block r (s + (k - s))) (j + h))"
      by (rule sum_owner [OF assms(1-4)])
    also have "\<dots> = (\<Sum>h=0..<min G (b - j). ?P (j + h))" using assms(3) by (simp add: lessThan_atLeast0)
    also have "\<dots> = (\<Sum>j'=0 + j..<min G (b - j) + j. ?P j')"
      using sum.shift_bounds_nat_ivl [of ?P 0 j "min G (b - j)"] by (simp add: add.commute)
    also have "\<dots> = (\<Sum>j'=j..<min (j + G) b. ?P j')"
      by (cases "j \<le> b") (auto simp: min_def add.commute)
    finally show ?thesis .
  qed
  have "(\<Sum>oper\<leftarrow>tile_ops r ?outs ?cb G a b. op_adds inp coeff oper (out_buffer r) p) =
      (\<Sum>j\<leftarrow>strided a b G. \<Sum>j'=j..<min (j + G) b. ?P j')"
    unfolding tile_ops_def map_map comp_def step ..
  then show ?thesis by (simp add: sum_strided [OF assms(5)])
qed

lemma tile_bounds:
  assumes "range_ok sizes n_in n_coeff r" "s + n \<le> num_out r" "b \<le> num_in r"
  shows "\<forall>oper\<in>set (tile_ops r (map (\<lambda>i. out_block r (s + i)) [0..<n]) (coeff_row_start r + s * coeff_stride r) G a b).
    op_in_bounds sizes n_in n_coeff oper"
proof
  fix oper assume "oper \<in> set (tile_ops r (map (\<lambda>i. out_block r (s + i)) [0..<n]) (coeff_row_start r + s * coeff_stride r) G a b)"
  then obtain j where j: "j \<in> set (strided a b G)" and oper: "oper = Two_d (out_buffer r) (map (\<lambda>i. out_block r (s + i)) [0..<n])
      (map (\<lambda>h. in_block r (j + h)) [0..<min G (b - j)]) (coeff_row_start r + s * coeff_stride r + j) (coeff_stride r) (block_size64 r)"
    by (auto simp: tile_ops_def Let_def)
  note r = assms(1) [unfolded range_ok_def]
  have "j < b" using strided_range [OF j] by simp
  have "coeff_row_start r + s * coeff_stride r + j + i * coeff_stride r + min G (b - j) \<le> n_coeff" if "i < n" for i
  proof -
    have "coeff_row_start r + (s + i) * coeff_stride r + num_in r \<le> n_coeff" using r assms(2) that by simp
    moreover have "j + min G (b - j) \<le> num_in r" using \<open>j < b\<close> assms(3) by simp
    ultimately show ?thesis by (simp add: algebra_simps)
  qed
  then show "op_in_bounds sizes n_in n_coeff oper"
    using r assms(2,3) apart_blocks [of r s n] unfolding oper by (auto simp: less_diff_conv)
qed

lemma process_out_touches:
  assumes "oper \<in> set (process_out K G r s)" "op_touches oper b p"
  shows "b = out_buffer r \<and> (\<exists>k<num_out r. s \<le> k \<and> k < s + K \<and> covers (out_block r k) (block_size64 r) p)"
proof -
  let ?outs = "map (\<lambda>k_local. out_block r (s + k_local)) [0..<min K (num_out r - s)]"
  have "b = out_buffer r \<and> (\<exists>off\<in>set ?outs. covers off (block_size64 r) p)"
    using assms tile_touches [of oper r ?outs _ G _ _ b p] by (fastforce simp: process_out_def Let_def split: if_splits)
  then obtain i where "b = out_buffer r" "i < min K (num_out r - s)" "covers (out_block r (s + i)) (block_size64 r) p" by auto
  then show ?thesis by (intro conjI exI [of _ "s + i"]) auto
qed

lemma process_out_value:
  assumes "block_size64 r \<le> stride_len r" "k < num_out r" "covers (out_block r k) (block_size64 r) p"
    "s \<le> k" "k < s + K" "0 < G"
  shows "fold (op_effect inp coeff (out_buffer r) p) (process_out K G r s) v =
    (if range_accumulate r then v else 0) + (\<Sum>j<num_in r. range_product inp coeff r k (p - out_block r k) j)"
proof -
  let ?n = "min K (num_out r - s)"
  let ?outs = "map (\<lambda>i. out_block r (s + i)) [0..<?n]" and ?cb = "coeff_row_start r + s * coeff_stride r"
  let ?P = "range_product inp coeff r k (p - out_block r k)"
  have k: "k < s + ?n" using assms(2,4,5) by simp
  then have "k - s < ?n" "s + (k - s) = k" using assms(4) by linarith+
  then have "out_block r k \<in> set ?outs" by (metis atLeastLessThan_iff image_eqI le0 list.set_map set_upt)
  then have clears: "fold (op_effect inp coeff (out_buffer r) p)
      (if \<not> range_accumulate r then map (\<lambda>off. Clear (out_buffer r) off (block_size64 r)) ?outs else []) v =
      (if range_accumulate r then v else 0)"
    using fold_clears [of inp coeff "out_buffer r" p "block_size64 r" ?outs v] assms(3) by auto
  note tile = tile_value [OF assms(1,3,4) k assms(6), where inp = inp and coeff = coeff]
  define tiles where "tiles = (if tile_size r = 0 \<or> tile_size r \<ge> num_in r then tile_ops r ?outs ?cb G 0 (num_in r)
         else concat (map (\<lambda>j_tile. tile_ops r ?outs ?cb G j_tile (min (j_tile + tile_size r) (num_in r)))
                (strided 0 (num_in r) (tile_size r))))"
  have "(\<Sum>oper\<leftarrow>tiles. op_adds inp coeff oper (out_buffer r) p) = (\<Sum>j=0..<num_in r. ?P j)"
  proof (cases "tile_size r = 0 \<or> tile_size r \<ge> num_in r")
    case True
    then show ?thesis by (simp only: tiles_def if_True tile)
  next
    case False
    have concat: "(\<Sum>x\<leftarrow>concat (map F ss). h x) = (\<Sum>s\<leftarrow>ss. \<Sum>x\<leftarrow>F s. h x)" for F :: "nat \<Rightarrow> region_op list" and h :: "region_op \<Rightarrow> gf" and ss
      by (induction ss) simp_all
    show ?thesis using False by (simp only: tiles_def if_False concat tile sum_strided not_gr_zero [symmetric]) (simp add: sum_strided)
  qed
  moreover have "fold (op_effect inp coeff (out_buffer r) p) tiles w = w + (\<Sum>oper\<leftarrow>tiles. op_adds inp coeff oper (out_buffer r) p)" for w
    by (rule fold_adds) (auto simp: tiles_def tile_adds_only split: if_splits)
  ultimately show ?thesis
    unfolding process_out_def Let_def fold_append comp_def clears tiles_def [symmetric] by (simp add: lessThan_atLeast0)
qed

lemma process_out_bounds:
  assumes "range_ok sizes n_in n_coeff r" "s < num_out r"
  shows "\<forall>oper\<in>set (process_out K G r s). op_in_bounds sizes n_in n_coeff oper"
proof -
  let ?n = "min K (num_out r - s)"
  have "s + ?n \<le> num_out r" using assms(2) by simp
  note tile = tile_bounds [OF assms(1) this]
  note r = assms(1) [unfolded range_ok_def]
  show ?thesis
    using tile [of "num_in r"] tile [of "min (j + tile_size r) (num_in r)" for j] r
    unfolding process_out_def Let_def by (auto split: if_splits)
qed

text \<open>The whole program of a worker.\<close>

theorem worker_value:
  assumes "range_ok sizes n_in n_coeff r" "0 < K" "0 < G" "k < num_out r" "covers (out_block r k) (block_size64 r) p"
  shows "fold (op_effect inp coeff (out_buffer r) p) (worker_ops K G coeff r) v =
    (if range_accumulate r then v else 0) + (\<Sum>j<num_in r. range_product inp coeff r k (p - out_block r k) j)"
proof (cases "total_num_out r \<le> 32")
  case True
  then show ?thesis using small_r_value [OF _ assms(4,5)] assms(1) by (simp add: worker_ops_def range_ok_def)
next
  case False
  have len: "block_size64 r \<le> stride_len r" using assms(1) by (simp add: range_ok_def)
  have idle: "fold (op_effect inp coeff (out_buffer r) p) (process_out K G r s) w = w" if "\<not> (s \<le> k \<and> k < s + K)" for s w
  proof (rule fold_untouched)
    fix oper assume "oper \<in> set (process_out K G r s)"
    then show "\<not> op_touches oper (out_buffer r) p"
      using process_out_touches [of oper K G r s] block_owner [OF len assms(5)] that by metis
  qed
  have concat: "fold (op_effect inp coeff (out_buffer r) p) (concat (map (process_out K G r) ss)) w =
      fold (\<lambda>s. fold (op_effect inp coeff (out_buffer r) p) (process_out K G r s)) ss w" for ss w
    by (induction ss arbitrary: w) simp_all
  obtain s where "s \<le> k" "k < s + K" and *: "fold (\<lambda>s. fold (op_effect inp coeff (out_buffer r) p) (process_out K G r s))
      (strided 0 (num_out r) K) v = fold (op_effect inp coeff (out_buffer r) p) (process_out K G r s) v"
    using fold_strided_once [of 0 k "num_out r" K "\<lambda>s. fold (op_effect inp coeff (out_buffer r) p) (process_out K G r s)" v]
      assms(2,4) idle by auto
  then show ?thesis using False process_out_value [OF len assms(4,5) _ _ assms(3)] by (simp add: worker_ops_def concat *)
qed

lemma worker_touches:
  assumes "oper \<in> set (worker_ops K G coeff r)" "op_touches oper b p"
  shows "range_owns r b p"
  using assms small_r_touches process_out_touches
  by (fastforce simp: worker_ops_def range_owns_def split: if_splits)

lemma worker_bounds:
  assumes "range_ok sizes n_in n_coeff r"
  shows "\<forall>oper\<in>set (worker_ops K G coeff r). op_in_bounds sizes n_in n_coeff oper"
  using small_r_bounds [OF assms, of coeff] process_out_bounds [OF assms, of _ K G] strided_range [of _ 0 "num_out r" K]
  by (auto simp: worker_ops_def)

text \<open>
  Threads that own different words, under any schedule: every word of a range is what the range's
  product says, every word that no range owns keeps its value, and no access leaves its array.
\<close>

lemma threads_result:
  assumes g: "dispatch_ok g" and KG: "\<And>r. r \<in> set ranges \<Longrightarrow> 0 < K r \<and> 0 < G r"
    and ok: "\<And>r. r \<in> set ranges \<Longrightarrow> range_ok (map length bufs) (length inp) (length coeff) r"
    and own: "\<And>t t' b p. t < length ranges \<Longrightarrow> t' < length ranges \<Longrightarrow> range_owns (ranges ! t) b p \<Longrightarrow>
      range_owns (ranges ! t') b p \<Longrightarrow> t = t'"
    and sched: "interleave_threads schedule (map (\<lambda>r. worker_ops (K r) (G r) coeff r) ranges) = Some seq"
  shows "map length (run_ops g inp coeff seq bufs) = map length bufs"
    and "r \<in> set ranges \<Longrightarrow> k < num_out r \<Longrightarrow> w < block_size64 r \<Longrightarrow>
      Gf (run_ops g inp coeff seq bufs ! out_buffer r ! (out_block r k + w)) =
        (if range_accumulate r then Gf (bufs ! out_buffer r ! (out_block r k + w)) else 0) +
        (\<Sum>j<num_in r. range_product inp coeff r k w j)"
    and "b < length bufs \<Longrightarrow> p < length (bufs ! b) \<Longrightarrow> \<forall>r\<in>set ranges. \<not> range_owns r b p \<Longrightarrow>
      run_ops g inp coeff seq bufs ! b ! p = bufs ! b ! p"
proof -
  have bounds: "\<forall>oper\<in>set seq. op_in_bounds (map length bufs) (length inp) (length coeff) oper"
    using interleave_set [OF sched] worker_bounds [OF ok] by auto
  note run = run_ops_effect [OF g bounds]
  show "map length (run_ops g inp coeff seq bufs) = map length bufs" using run by blast
  show "Gf (run_ops g inp coeff seq bufs ! out_buffer r ! (out_block r k + w)) =
        (if range_accumulate r then Gf (bufs ! out_buffer r ! (out_block r k + w)) else 0) +
        (\<Sum>j<num_in r. range_product inp coeff r k w j)" if r: "r \<in> set ranges" "k < num_out r" "w < block_size64 r"
  proof -
    let ?p = "out_block r k + w" and ?f = "op_effect inp coeff (out_buffer r) (out_block r k + w)"
    obtain t where t: "t < length ranges" "ranges ! t = r" using r(1) by (auto simp: in_set_conv_nth)
    have cov: "covers (out_block r k) (block_size64 r) ?p" using r(3) by (simp add: covers_def)
    have mine: "range_owns r (out_buffer r) ?p" using cov r(2) by (auto simp: range_owns_def)
    have "out_block r k + block_size64 r \<le> length (bufs ! out_buffer r)" "out_buffer r < length bufs"
      using ok [OF r(1)] r(2) by (auto simp: range_ok_def)
    then have "Gf (run_ops g inp coeff seq bufs ! out_buffer r ! ?p) = fold ?f seq (Gf (bufs ! out_buffer r ! ?p))"
      using run r(3) by simp
    also have "\<dots> = fold ?f (worker_ops (K r) (G r) coeff r) (Gf (bufs ! out_buffer r ! ?p))"
    proof -
      have "?f oper v = v" if "t' < length ranges" "t' \<noteq> t" "oper \<in> set (worker_ops (K (ranges ! t')) (G (ranges ! t')) coeff (ranges ! t'))" for t' oper v
      proof (rule untouched)
        show "\<not> op_touches oper (out_buffer r) ?p"
          using worker_touches [OF that(3)] own [OF that(1) t(1)] mine that(2) t(2) by blast
      qed
      then show ?thesis
        using interleave_owner [OF sched, of t ?f "Gf (bufs ! out_buffer r ! ?p)"] t by simp
    qed
    also have "\<dots> = (if range_accumulate r then Gf (bufs ! out_buffer r ! ?p) else 0) +
        (\<Sum>j<num_in r. range_product inp coeff r k (?p - out_block r k) j)"
      by (rule worker_value [OF ok [OF r(1)] _ _ r(2) cov]) (use KG [OF r(1)] in simp_all)
    finally show ?thesis by simp
  qed
  show "run_ops g inp coeff seq bufs ! b ! p = bufs ! b ! p"
    if p: "b < length bufs" "p < length (bufs ! b)" "\<forall>r\<in>set ranges. \<not> range_owns r b p"
  proof -
    have "fold (op_effect inp coeff b p) seq (Gf (bufs ! b ! p)) = Gf (bufs ! b ! p)"
      by (rule fold_untouched) (use interleave_set [OF sched] worker_touches p(3) in fastforce)
    then have "Gf (run_ops g inp coeff seq bufs ! b ! p) = Gf (bufs ! b ! p)" using run p by simp
    then show ?thesis by simp
  qed
qed

lemma xor_buffer_eq:
  assumes "count \<le> length dst"
  shows "xor_buffer dst src count = map (\<lambda>i. dst ! i XOR src ! i) [0..<count] @ drop count dst"
proof -
  have "xor_buffer dst src count = fold (\<lambda>i dst. dst[i := dst ! i XOR src ! i]) [0..<count] dst"
    unfolding xor_buffer_def Let_def
    by (rule fold_blocks_tail) (simp add: upt_rec [of "4 * _"] Suc_numeral_shift)
  also have "\<dots> = map (\<lambda>i. dst ! i XOR src ! i) [0..<count] @ drop count dst" by (rule fold_update_map [OF assms])
  finally show ?thesis .
qed

end
