(* ===== verification/Row_Stealing.thy ===== *)
theory Row_Stealing
  imports Prelude
begin

text \<open>
  The row-stealing loop that src/par3_engine.cc and src/par3_engine_barycentric.cc run on their asynchronous
  workers: every worker draws the next row from a shared atomic counter, processes it with a private
  buffer, and stops at the first row beyond the last. A schedule is the sequence of worker numbers in
  the order in which the workers act; one action is a \<open>fetch_add\<close> or the processing of a drawn row. The
  client describes what it means that a set of rows is done; the interface \<open>row_stealing\<close> says that
  processing one more row extends the set, and gives back that every schedule that lets the workers end
  has processed every row, once.
\<close>

datatype phase = Fetching | Row_taken nat | Finished

record ('b, 'm) stealing =
  nextRow :: nat
  stealers :: "(phase \<times> 'b) list"
  shared :: 'm

definition steal_step ::
  "nat \<Rightarrow> (nat \<Rightarrow> 'b \<times> 'm \<Rightarrow> 'b \<times> 'm) \<Rightarrow> nat \<Rightarrow> ('b, 'm) stealing \<Rightarrow> ('b, 'm) stealing" where
  "steal_step n process t s =
    (if t < length (stealers s)
     then case stealers s ! t of
         (Fetching, b) \<Rightarrow>
           let r = nextRow s
           in s\<lparr>nextRow := r + 1, stealers := (stealers s)[t := (if r < n then Row_taken r else Finished, b)]\<rparr>
       | (Row_taken r, b) \<Rightarrow>
           let (b, m) = process r (b, shared s)
           in s\<lparr>stealers := (stealers s)[t := (Fetching, b)], shared := m\<rparr>
       | (Finished, b) \<Rightarrow> s
     else s)"

text \<open>The join: the result is there when every worker has finished.\<close>

definition steal_rows ::
  "nat \<Rightarrow> (nat \<Rightarrow> 'b \<times> 'm \<Rightarrow> 'b \<times> 'm) \<Rightarrow> nat \<Rightarrow> 'b \<Rightarrow> nat list \<Rightarrow> 'm \<Rightarrow> 'm option" where
  "steal_rows n process n_workers b schedule m =
    (let s = fold (steal_step n process) schedule
         \<lparr>nextRow = 0, stealers = replicate n_workers (Fetching, b), shared = m\<rparr>
     in if \<forall>w\<in>set (stealers s). fst w = Finished then Some (shared s) else None)"

text \<open>A schedule that lets every worker act often enough.\<close>

definition fair_schedule :: "nat \<Rightarrow> nat \<Rightarrow> nat list \<Rightarrow> bool" where
  "fair_schedule n n_workers schedule \<longleftrightarrow> (\<forall>t<n_workers. 2 * n + 1 \<le> count_list schedule t)"

section \<open>Every fair schedule ends\<close>

definition left_to_do :: "nat \<Rightarrow> nat \<Rightarrow> ('b, 'm) stealing \<Rightarrow> nat" where
  "left_to_do n t s = (case fst (stealers s ! t) of
     Fetching \<Rightarrow> 2 * (n - nextRow s) + 1 | Row_taken r \<Rightarrow> 2 * (n - nextRow s) + 2 | Finished \<Rightarrow> 0)"

lemma length_steal_step [simp]: "length (stealers (steal_step n process t s)) = length (stealers s)"
  by (simp add: steal_step_def Let_def split: prod.split phase.split)

lemma left_to_do_step:
  assumes "t' < length (stealers s)"
  shows "left_to_do n t' (steal_step n process t s) \<le> left_to_do n t' s - (if t = t' then 1 else 0)"
proof (cases "t < length (stealers s)")
  case True
  obtain ph b where w: "stealers s ! t = (ph, b)" by fastforce
  have "nextRow s < n \<Longrightarrow> Suc (Suc (2 * (n - Suc (nextRow s)))) \<le> 2 * (n - nextRow s)" by linarith
  then show ?thesis
    using True assms w
    by (cases "t = t'"; cases ph; cases "fst (stealers s ! t')")
      (simp_all add: steal_step_def left_to_do_def Let_def split: prod.split)
qed (use assms in \<open>auto simp: steal_step_def\<close>)

lemma left_to_do_fold:
  assumes "t' < length (stealers s)"
  shows "left_to_do n t' (fold (steal_step n process) schedule s) \<le> left_to_do n t' s - count_list schedule t'"
  using assms
proof (induction schedule arbitrary: s)
  case (Cons t schedule)
  have "left_to_do n t' (fold (steal_step n process) (t # schedule) s) \<le>
      left_to_do n t' (steal_step n process t s) - count_list schedule t'"
    using Cons by simp
  also have "\<dots> \<le> left_to_do n t' s - count_list (t # schedule) t'"
    using left_to_do_step [OF Cons.prems, of n process t] by (auto split: if_splits)
  finally show ?case .
qed simp

lemma length_steal_fold [simp]: "length (stealers (fold (steal_step n process) schedule s)) = length (stealers s)"
  by (induction schedule arbitrary: s) simp_all

lemma fair_schedule_ends:
  assumes "fair_schedule n n_workers schedule"
  shows "\<exists>m'. steal_rows n process n_workers b schedule m = Some m'"
proof -
  let ?s = "\<lparr>nextRow = 0, stealers = replicate n_workers (Fetching, b), shared = m\<rparr>"
  have "fst (stealers (fold (steal_step n process) schedule ?s) ! t) = Finished" if "t < n_workers" for t
  proof -
    have "left_to_do n t (fold (steal_step n process) schedule ?s) \<le> left_to_do n t ?s - count_list schedule t"
      by (rule left_to_do_fold) (use that in simp)
    also have "\<dots> = 0" using assms that by (simp add: left_to_do_def fair_schedule_def)
    finally show ?thesis by (auto simp: left_to_do_def split: phase.splits)
  qed
  then have "\<forall>w\<in>set (stealers (fold (steal_step n process) schedule ?s)). fst w = Finished"
    by (simp add: all_set_conv_all_nth)
  then show ?thesis by (simp add: steal_rows_def Let_def)
qed

section \<open>The interface\<close>

locale row_stealing =
  fixes n :: nat and process :: "nat \<Rightarrow> 'b \<times> 'm \<Rightarrow> 'b \<times> 'm"
    and rows_done :: "nat set \<Rightarrow> 'm \<Rightarrow> bool" and buffer_ok :: "'b \<Rightarrow> bool"
  assumes process: "rows_done D m \<Longrightarrow> r < n \<Longrightarrow> r \<notin> D \<Longrightarrow> buffer_ok b \<Longrightarrow>
      rows_done (insert r D) (snd (process r (b, m))) \<and> buffer_ok (fst (process r (b, m)))"
begin

text \<open>
  Between two actions: the rows drawn and not yet processed are distinct and not done; together with
  the rows done they are the rows below the counter.
\<close>

definition taken :: "('b, 'm) stealing \<Rightarrow> nat set" where
  "taken s = {r. \<exists>t<length (stealers s). fst (stealers s ! t) = Row_taken r}"

definition steal_inv :: "('b, 'm) stealing \<Rightarrow> bool" where
  "steal_inv s \<longleftrightarrow> (\<exists>D. rows_done D (shared s) \<and> D \<inter> taken s = {} \<and> D \<union> taken s = {0..<min (nextRow s) n}) \<and>
    (\<forall>t<length (stealers s). \<forall>t'<length (stealers s). \<forall>r.
      fst (stealers s ! t) = Row_taken r \<longrightarrow> fst (stealers s ! t') = Row_taken r \<longrightarrow> t = t') \<and>
    (\<forall>t<length (stealers s). buffer_ok (snd (stealers s ! t))) \<and>
    (\<forall>t<length (stealers s). fst (stealers s ! t) = Finished \<longrightarrow> n \<le> nextRow s)"

lemma steal_inv_step:
  assumes "steal_inv s"
  shows "steal_inv (steal_step n process t s)"
proof (cases "t < length (stealers s)")
  case False
  then show ?thesis using assms by (simp add: steal_step_def)
next
  case t: True
  obtain D where D: "rows_done D (shared s)" "D \<inter> taken s = {}" "D \<union> taken s = {0..<min (nextRow s) n}"
    using assms by (auto simp: steal_inv_def)
  have uniq: "\<forall>t<length (stealers s). \<forall>t'<length (stealers s). \<forall>r.
      fst (stealers s ! t) = Row_taken r \<longrightarrow> fst (stealers s ! t') = Row_taken r \<longrightarrow> t = t'"
    and buf: "\<forall>t<length (stealers s). buffer_ok (snd (stealers s ! t))"
    and fin: "\<forall>t<length (stealers s). fst (stealers s ! t) = Finished \<longrightarrow> n \<le> nextRow s"
    using assms by (auto simp: steal_inv_def)
  obtain ph b where w: "stealers s ! t = (ph, b)" by fastforce
  show ?thesis
  proof (cases ph)
    case Finished
    then show ?thesis using assms t w by (simp add: steal_step_def)
  next
    case Fetching
    let ?r = "nextRow s"
    let ?s = "s\<lparr>nextRow := ?r + 1, stealers := (stealers s)[t := (if ?r < n then Row_taken ?r else Finished, b)]\<rparr>"
    have step: "steal_step n process t s = ?s" using t w Fetching by (simp add: steal_step_def Let_def)
    have below: "r < ?r" if "r \<in> taken s" for r using D(3) that by auto
    have idle: "u \<noteq> t" if "fst (stealers s ! u) = Row_taken r" for u r using that w Fetching by auto
    have tk: "taken ?s = (if ?r < n then insert ?r (taken s) else taken s)"
      unfolding taken_def using t by (auto simp: nth_list_update dest: idle split: if_splits)
    have "rows_done D (shared ?s) \<and> D \<inter> taken ?s = {} \<and> D \<union> taken ?s = {0..<min (nextRow ?s) n}"
      unfolding tk using D by (auto simp: min_def less_Suc_eq split: if_splits)
    moreover have "t1 = t2" if "t1 < length (stealers s)" "t2 < length (stealers s)" "fst (stealers ?s ! t1) = Row_taken r"
        "fst (stealers ?s ! t2) = Row_taken r" for t1 t2 r
    proof -
      have old: "fst (stealers s ! u) \<noteq> Row_taken ?r" if "u < length (stealers s)" for u
        using below [of ?r] that by (auto simp: taken_def)
      have cases: "u = t \<and> r = ?r \<or> u \<noteq> t \<and> fst (stealers s ! u) = Row_taken r"
        if "fst (stealers ?s ! u) = Row_taken r" for u
        using that t by (cases "u = t") (simp_all split: if_splits)
      show ?thesis using cases [OF that(3)] cases [OF that(4)] old that(1,2) uniq by blast
    qed
    moreover have "\<forall>u<length (stealers s). buffer_ok (snd (stealers ?s ! u))"
      using buf t w by (auto simp: nth_list_update)
    moreover have "\<forall>u<length (stealers s). fst (stealers ?s ! u) = Finished \<longrightarrow> n \<le> nextRow ?s"
      using fin t by (auto simp: nth_list_update)
    moreover have "length (stealers ?s) = length (stealers s)" by simp
    ultimately show ?thesis unfolding step steal_inv_def by metis
  next
    case (Row_taken r)
    let ?bm = "process r (b, shared s)"
    let ?s = "s\<lparr>stealers := (stealers s)[t := (Fetching, fst ?bm)], shared := snd ?bm\<rparr>"
    have step: "steal_step n process t s = ?s"
      using t w Row_taken by (simp add: steal_step_def Let_def split: prod.split)
    have r: "r \<in> taken s" using t w Row_taken by (auto simp: taken_def)
    then have "r < n" "r \<notin> D" using D by auto
    moreover have "buffer_ok b" using buf t w by force
    ultimately have p: "rows_done (insert r D) (snd ?bm)" "buffer_ok (fst ?bm)" using process [OF D(1)] by blast+
    have tk: "taken ?s = taken s - {r}"
    proof -
      have "fst (stealers ?s ! u) = Row_taken r' \<longleftrightarrow> u \<noteq> t \<and> fst (stealers s ! u) = Row_taken r'" for u r'
        using t by (cases "u = t") simp_all
      moreover have "u = t \<longleftrightarrow> r' = r" if "u < length (stealers s)" "fst (stealers s ! u) = Row_taken r'" for u r'
      proof
        show "u = t \<Longrightarrow> r' = r" using that w Row_taken by simp
        show "r' = r \<Longrightarrow> u = t" using that t w Row_taken uniq by (metis fst_conv)
      qed
      ultimately show ?thesis unfolding taken_def by (simp, blast)
    qed
    have "rows_done (insert r D) (shared ?s) \<and> insert r D \<inter> taken ?s = {} \<and>
        insert r D \<union> taken ?s = {0..<min (nextRow ?s) n}"
      unfolding tk using D(2,3) r p(1) by auto
    moreover have "t1 = t2" if "t1 < length (stealers s)" "t2 < length (stealers s)" "fst (stealers ?s ! t1) = Row_taken r'"
        "fst (stealers ?s ! t2) = Row_taken r'" for t1 t2 r'
    proof -
      have cases: "u \<noteq> t \<and> fst (stealers s ! u) = Row_taken r'" if "fst (stealers ?s ! u) = Row_taken r'" for u
        using that t by (cases "u = t") simp_all
      show ?thesis using cases [OF that(3)] cases [OF that(4)] that(1,2) uniq by blast
    qed
    moreover have "\<forall>u<length (stealers s). buffer_ok (snd (stealers ?s ! u))"
      using buf t p(2) by (auto simp: nth_list_update)
    moreover have "\<forall>u<length (stealers s). fst (stealers ?s ! u) = Finished \<longrightarrow> n \<le> nextRow ?s"
      using fin t by (auto simp: nth_list_update)
    moreover have "length (stealers ?s) = length (stealers s)" by simp
    ultimately show ?thesis unfolding step steal_inv_def by metis
  qed
qed

lemma steal_inv_fold: "steal_inv s \<Longrightarrow> steal_inv (fold (steal_step n process) schedule s)"
  by (induction schedule arbitrary: s) (simp_all add: steal_inv_step)

theorem all_rows_done:
  assumes "rows_done {} m" "buffer_ok b" "0 < n_workers" "steal_rows n process n_workers b schedule m = Some m'"
  shows "rows_done {0..<n} m'"
proof -
  let ?s = "\<lparr>nextRow = 0, stealers = replicate n_workers (Fetching, b), shared = m\<rparr>"
  let ?e = "fold (steal_step n process) schedule ?s"
  have "steal_inv ?s" using assms(1,2) by (auto simp: steal_inv_def taken_def intro!: exI [of _ "{}"])
  then have i: "steal_inv ?e" by (rule steal_inv_fold)
  have e: "\<forall>w\<in>set (stealers ?e). fst w = Finished" "m' = shared ?e"
    using assms(4) by (auto simp: steal_rows_def Let_def split: if_splits)
  have "stealers ?e ! 0 \<in> set (stealers ?e)" by (rule nth_mem) (use assms(3) in simp)
  then have "n \<le> nextRow ?e" using i e(1) assms(3) by (auto simp: steal_inv_def)
  moreover have "taken ?e = {}" using e(1) nth_mem by (fastforce simp: taken_def)
  moreover have "min (nextRow ?e) n = n" using calculation(1) by simp
  ultimately show ?thesis using i unfolding steal_inv_def e(2) by auto
qed

text \<open>The serial loop processes the same rows.\<close>

lemma serial_rows_done:
  assumes "rows_done {} m" "buffer_ok b"
  shows "rows_done {0..<n} (snd (fold process [0..<n] (b, m)))"
proof -
  have "case fold process [0..<n] (b, m) of (b', m') \<Rightarrow> buffer_ok b' \<and> rows_done {0..<n} m'"
  proof (rule fold_upt_invariant)
    fix i s assume "i < n" and s: "case s of (b', m') \<Rightarrow> buffer_ok b' \<and> rows_done {0..<i} m'"
    then show "case process i s of (b', m') \<Rightarrow> buffer_ok b' \<and> rows_done {0..<Suc i} m'"
      using process [of "{0..<i}" "snd s" i "fst s"] by (auto simp: atLeast0_lessThan_Suc)
  qed (use assms in simp_all)
  then show ?thesis by (simp add: case_prod_unfold)
qed

end

end
