(* ===== verification/Engine_Cauchy.thy ===== *)
theory Engine_Cauchy
  imports Engine_Repair Row_Stealing Fenger_Run "HOL-Library.AList"
begin

text \<open>
  The coefficient matrices of src/par3_engine.cc: \<open>BuildCauchyMatrix\<close>, serial or with row-stealing workers,
  and the cache of the last eight matrices. \<open>tls\<close> is the calling thread's buffer of denominators as
  earlier calls left it, \<open>schedule\<close> the order in which the workers act (None when it leaves a worker
  unfinished), and \<open>malloc\<close> the allocator: a block of the asked size, with any contents, or none.
\<close>

definition kCauchyMaxWorkers :: nat where "kCauchyMaxWorkers = 8"
definition COEFF_CACHE_MAX :: nat where "COEFF_CACHE_MAX = 8"

definition cauchy_denoms :: "nat \<Rightarrow> 64 word \<Rightarrow> 64 word \<Rightarrow> gf64_t list \<Rightarrow> gf64_t list" where
  "cauchy_denoms numInputs firstInput y denoms =
    fold (\<lambda>c denoms.
        let x = firstInput + of_nat c;
            denom = x XOR y
        in denoms[c := (if denom = 0 then 1 else denom)])
      [0..<numInputs] denoms"

definition cauchy_fill ::
  "'a gf64_globals_scheme \<Rightarrow> nat \<Rightarrow> 64 word \<Rightarrow> 64 word \<Rightarrow> nat \<Rightarrow> gf64_t list \<times> gf64_t list \<Rightarrow> gf64_t list \<times> gf64_t list" where
  "cauchy_fill g numInputs firstInput firstRecovery r = (\<lambda>(denoms, coeffMatrix).
    let y = firstRecovery + of_nat r;
        denoms = cauchy_denoms numInputs firstInput y denoms
    in (denoms, put_block coeffMatrix (r * numInputs)
          (gf64_inverse_batch g (block coeffMatrix (r * numInputs) numInputs) denoms numInputs)))"

definition cauchy_worker_count ::
  "environment \<Rightarrow> platform \<Rightarrow> 'a engine_globals_scheme \<Rightarrow> 'a engine_globals_scheme" where
  "cauchy_worker_count getenv p g =
    (if s_cauchyWorkerCount g = 0
     then let (cpus, g) = GetEffectiveCpuCount getenv p g;
              n = min cpus kCauchyMaxWorkers
          in g\<lparr>s_cauchyWorkerCount := (if n = 0 then 1 else n)\<rparr>
     else g)"

definition BuildCauchyMatrix ::
  "environment \<Rightarrow> platform \<Rightarrow> gf64_t list \<Rightarrow> nat list \<Rightarrow> gf64_t list \<Rightarrow> nat \<Rightarrow> nat \<Rightarrow> 64 word \<Rightarrow> 64 word \<Rightarrow>
    'a engine_globals_scheme \<Rightarrow> (gf64_t list \<times> 'a engine_globals_scheme) option" where
  "BuildCauchyMatrix getenv p tls schedule coeffMatrix numInputs numRecovery firstInput firstRecovery g =
    (let g = cauchy_worker_count getenv p g
     in if numRecovery \<le> 1 \<or> s_cauchyWorkerCount g \<le> 1 \<or> numRecovery * numInputs \<le> 32768
        then let denoms = (if length tls < numInputs then tls @ replicate (numInputs - length tls) 0 else tls)
             in Some (snd (fold (cauchy_fill g numInputs firstInput firstRecovery) [0..<numRecovery]
                  (denoms, coeffMatrix)), g)
        else do {
          coeffMatrix \<leftarrow> steal_rows numRecovery (cauchy_fill g numInputs firstInput firstRecovery)
            (s_cauchyWorkerCount g) (replicate numInputs 0) schedule coeffMatrix;
          Some (coeffMatrix, g)
        })"

definition BuildCauchyMatrixAlloc ::
  "environment \<Rightarrow> platform \<Rightarrow> (nat \<Rightarrow> gf64_t list option) \<Rightarrow> gf64_t list \<Rightarrow> nat list \<Rightarrow> nat \<Rightarrow> nat \<Rightarrow> 64 word \<Rightarrow> 64 word \<Rightarrow>
    'a engine_globals_scheme \<Rightarrow> (gf64_t list option \<times> 'a engine_globals_scheme) option" where
  "BuildCauchyMatrixAlloc getenv p malloc tls schedule numInputs numRecovery firstInput firstRecovery g =
    (if numInputs = 0 \<or> numRecovery = 0 then Some (None, g)
     else case malloc (numRecovery * numInputs) of
         None \<Rightarrow> Some (None, g)
       | Some matrix \<Rightarrow> do {
           (matrix, g) \<leftarrow> BuildCauchyMatrix getenv p tls schedule matrix numInputs numRecovery firstInput firstRecovery g;
           Some (Some matrix, g)
         })"

text \<open>The eviction of the cache, and the lookup with the build on a miss.\<close>

definition evict_oldest :: "'a engine_globals_scheme \<Rightarrow> 'a engine_globals_scheme" where
  "evict_oldest g =
    (if length (coeff_map g) \<ge> COEFF_CACHE_MAX
     then let evictKey = last (coeff_lru g);
              g = g\<lparr>coeff_lru := butlast (coeff_lru g)\<rparr>
          in case map_of (coeff_map g) evictKey of
               Some _ \<Rightarrow> g\<lparr>coeff_map := AList.delete evictKey (coeff_map g)\<rparr>
             | None \<Rightarrow> g
     else g)"

definition GetOrBuildCoeffMatrix ::
  "environment \<Rightarrow> platform \<Rightarrow> (nat \<Rightarrow> gf64_t list option) \<Rightarrow> gf64_t list \<Rightarrow> nat list \<Rightarrow> nat \<Rightarrow> nat \<Rightarrow> 64 word \<Rightarrow> 64 word \<Rightarrow>
    'a engine_globals_scheme \<Rightarrow> (gf64_t list option \<times> 'a engine_globals_scheme) option" where
  "GetOrBuildCoeffMatrix getenv p malloc tls schedule numInputs numRecovery firstInput firstRecovery g =
    (let key = \<lparr>key_numInputs = numInputs, key_numRecovery = numRecovery,
                key_firstInput = firstInput, key_firstRecovery = firstRecovery\<rparr>
     in case map_of (coeff_map g) key of
          Some matrix \<Rightarrow> Some (Some matrix, g\<lparr>coeff_lru := key # removeAll key (coeff_lru g)\<rparr>)
        | None \<Rightarrow>
            (case malloc (numRecovery * numInputs) of
               None \<Rightarrow> Some (None, g)
             | Some matrix \<Rightarrow> do {
                 (matrix, g) \<leftarrow> BuildCauchyMatrix getenv p tls schedule matrix numInputs numRecovery firstInput firstRecovery g;
                 let g = evict_oldest g;
                 Some (Some matrix, g\<lparr>coeff_map := AList.update key matrix (coeff_map g), coeff_lru := key # coeff_lru g\<rparr>)
               }))"

section \<open>The matrix\<close>

text \<open>The entry for recovery row \<open>r\<close> and input \<open>c\<close>: the inverse of the difference of the points, 1 where they collide.\<close>

definition cauchy_coeff :: "64 word \<Rightarrow> 64 word \<Rightarrow> nat \<Rightarrow> nat \<Rightarrow> gf64_t" where
  "cauchy_coeff firstInput firstRecovery r c =
    (let d = (firstInput + of_nat c) XOR (firstRecovery + of_nat r) in gf64_inverse (if d = 0 then 1 else d))"

definition cauchy_matrix :: "nat \<Rightarrow> nat \<Rightarrow> 64 word \<Rightarrow> 64 word \<Rightarrow> gf64_t list" where
  "cauchy_matrix numInputs numRecovery firstInput firstRecovery =
    map (\<lambda>p. cauchy_coeff firstInput firstRecovery (p div numInputs) (p mod numInputs)) [0..<numRecovery * numInputs]"

lemma length_cauchy_matrix [simp]: "length (cauchy_matrix ni nr fi fr) = nr * ni"
  by (simp add: cauchy_matrix_def)

lemma nth_cauchy_matrix: "r < nr \<Longrightarrow> c < ni \<Longrightarrow> cauchy_matrix ni nr fi fr ! (r * ni + c) = cauchy_coeff fi fr r c"
  using flat_less [of r nr c ni] by (simp add: cauchy_matrix_def)

lemma eq_cauchy_matrix:
  assumes "length M = nr * ni" "\<And>r c. r < nr \<Longrightarrow> c < ni \<Longrightarrow> M ! (r * ni + c) = cauchy_coeff fi fr r c"
  shows "M = cauchy_matrix ni nr fi fr"
proof (rule nth_equalityI)
  fix p assume "p < length M"
  then have p: "p < nr * ni" using assms(1) by simp
  then have "0 < ni" "p div ni < nr" by (auto simp: less_mult_imp_div_less intro: gr0I)
  then show "M ! p = cauchy_matrix ni nr fi fr ! p"
    using assms(2) [of "p div ni" "p mod ni"] p by (simp add: cauchy_matrix_def)
qed (simp add: assms(1))

text \<open>In the field, an entry whose points differ is the inverse of their sum.\<close>

lemma Gf_cauchy_coeff:
  "Gf (cauchy_coeff fi fr r c) = (if fi + of_nat c = fr + of_nat r then 1 else inverse (Gf (fr + of_nat r) + Gf (fi + of_nat c)))"
proof -
  have "a XOR b = 0 \<longleftrightarrow> a = b" for a b :: gf64_t by (metis xor_self_left xor.right_neutral xor_self_eq)
  then show ?thesis by (simp add: cauchy_coeff_def Let_def Gf_inverse Gf_xor add.commute)
qed

lemma cauchy_denoms_eq:
  assumes "ni \<le> length denoms"
  shows "cauchy_denoms ni fi y denoms =
    map (\<lambda>c. if (fi + of_nat c) XOR y = 0 then 1 else (fi + of_nat c) XOR y) [0..<ni] @ drop ni denoms"
  unfolding cauchy_denoms_def Let_def by (rule fold_const_update_map [OF assms])

lemma dispatched_inverse_batch:
  assumes "dispatch_ok g" "N \<le> length out" "N \<le> length inp"
  shows "gf64_inverse_batch g out inp N = map (\<lambda>i. gf64_inverse (inp ! i)) [0..<N] @ drop N out"
  using bound_inverse_batch [OF assms(2,3), of "gf64_current_method g" g] assms
  by (simp add: dispatch_ok_def inverse_batch_scalar_words)

definition cauchy_rows :: "'a gf64_globals_scheme \<Rightarrow> nat \<Rightarrow> nat \<Rightarrow> 64 word \<Rightarrow> 64 word \<Rightarrow> nat set \<Rightarrow> gf64_t list \<Rightarrow> bool" where
  "cauchy_rows g ni nr fi fr D M \<longleftrightarrow> dispatch_ok g \<and> length M = nr * ni \<and> D \<subseteq> {0..<nr} \<and>
    (\<forall>r\<in>D. \<forall>c<ni. M ! (r * ni + c) = cauchy_coeff fi fr r c)"

interpretation cauchy: row_stealing nr "cauchy_fill g ni fi fr" "cauchy_rows g ni nr fi fr" "\<lambda>b :: gf64_t list. ni \<le> length b"
  for nr g ni fi fr
proof
  fix D M r and b :: "gf64_t list"
  assume D: "cauchy_rows g ni nr fi fr D M" and r: "r < nr" "r \<notin> D" and b: "ni \<le> length b"
  let ?d = "cauchy_denoms ni fi (fr + of_nat r) b"
  let ?xs = "gf64_inverse_batch g (block M (r * ni) ni) ?d ni"
  have M: "length M = nr * ni" "dispatch_ok g" using D by (simp_all add: cauchy_rows_def)
  have d: "ni \<le> length ?d" using b by (simp add: cauchy_denoms_eq)
  have xs: "?xs = map (cauchy_coeff fi fr r) [0..<ni]"
    using row_block(1) [OF M(1) r(1)] d b
    by (simp add: dispatched_inverse_batch [OF M(2) _ d]) (simp add: cauchy_denoms_eq cauchy_coeff_def Let_def nth_append)
  have lx: "length ?xs = ni" by (simp add: xs)
  have "cauchy_rows g ni nr fi fr (insert r D) (put_block M (r * ni) ?xs)"
    using D r put_row [OF M(1) r(1) lx] by (auto simp: cauchy_rows_def xs)
  then show "cauchy_rows g ni nr fi fr (insert r D) (snd (cauchy_fill g ni fi fr r (b, M))) \<and>
      ni \<le> length (fst (cauchy_fill g ni fi fr r (b, M)))"
    using d by (simp add: cauchy_fill_def Let_def)
qed

lemma cauchy_rows_all: "cauchy_rows g ni nr fi fr {0..<nr} M \<Longrightarrow> M = cauchy_matrix ni nr fi fr"
  by (rule eq_cauchy_matrix) (simp_all add: cauchy_rows_def)

lemma cauchy_worker_count_ok:
  assumes "engine_ok g" "dispatch_ok g"
  shows "engine_ok (cauchy_worker_count getenv p g)" "dispatch_ok (cauchy_worker_count getenv p g)"
    "1 \<le> s_cauchyWorkerCount (cauchy_worker_count getenv p g)" "s_cauchyWorkerCount (cauchy_worker_count getenv p g) \<le> 8"
    "coeff_map (cauchy_worker_count getenv p g) = coeff_map g" "coeff_lru (cauchy_worker_count getenv p g) = coeff_lru g"
    "inverse_batch_null (cauchy_worker_count getenv p g) = inverse_batch_null g"
proof -
  obtain n g1 where c: "GetEffectiveCpuCount getenv p g = (n, g1)" by fastforce
  note r = effective_cpu_count_range [OF assms(1) c]
  have d: "dispatch_ok g1" "inverse_batch_null g1 = inverse_batch_null g"
    using c assms(2) by (auto simp: GetEffectiveCpuCount_def Let_def dispatch_ok_engine_frame split: option.splits if_splits)
  define m where "m = min n 8"
  have m: "1 \<le> m" "m \<le> 8" using r(1) by (simp_all add: m_def)
  have new: "cauchy_worker_count getenv p g = (if s_cauchyWorkerCount g = 0 then g1\<lparr>s_cauchyWorkerCount := m\<rparr> else g)"
    using m(1) by (simp add: cauchy_worker_count_def c kCauchyMaxWorkers_def Let_def flip: m_def)
  have "engine_ok (g1\<lparr>s_cauchyWorkerCount := m\<rparr>)" "dispatch_ok (g1\<lparr>s_cauchyWorkerCount := m\<rparr>)"
    using m r d by (simp_all add: engine_ok_frame dispatch_ok_engine_frame)
  then show "engine_ok (cauchy_worker_count getenv p g)" "dispatch_ok (cauchy_worker_count getenv p g)"
    "1 \<le> s_cauchyWorkerCount (cauchy_worker_count getenv p g)" "s_cauchyWorkerCount (cauchy_worker_count getenv p g) \<le> 8"
    "coeff_map (cauchy_worker_count getenv p g) = coeff_map g" "coeff_lru (cauchy_worker_count getenv p g) = coeff_lru g"
    "inverse_batch_null (cauchy_worker_count getenv p g) = inverse_batch_null g"
    unfolding new using assms r(4) d m by (simp_all add: same_engine_def engine_ok_def [of g])
qed

text \<open>Serial or stolen, the rows are those of the Cauchy matrix; a fair schedule lets the build end.\<close>

lemma build_cauchy_result:
  assumes "engine_ok g" "dispatch_ok g" "length M = nr * ni"
    "BuildCauchyMatrix getenv p tls schedule M ni nr fi fr g = Some (M', g')"
  shows "M' = cauchy_matrix ni nr fi fr" "g' = cauchy_worker_count getenv p g"
proof -
  let ?g = "cauchy_worker_count getenv p g"
  note g = cauchy_worker_count_ok [OF assms(1,2), of getenv p]
  have start: "cauchy_rows ?g ni nr fi fr {} M" using g(2) assms(3) by (simp add: cauchy_rows_def)
  show "g' = ?g" using assms(4) by (auto simp: BuildCauchyMatrix_def Let_def bind_eq_Some_conv split: if_splits)
  have "cauchy_rows ?g ni nr fi fr {0..<nr} M'"
  proof (cases "nr \<le> 1 \<or> s_cauchyWorkerCount ?g \<le> 1 \<or> nr * ni \<le> 32768")
    case True
    let ?tls = "if length tls < ni then tls @ replicate (ni - length tls) 0 else tls"
    have "BuildCauchyMatrix getenv p tls schedule M ni nr fi fr g =
        Some (snd (fold (cauchy_fill ?g ni fi fr) [0..<nr] (?tls, M)), ?g)"
      using True by (simp add: BuildCauchyMatrix_def Let_def)
    then have "M' = snd (fold (cauchy_fill ?g ni fi fr) [0..<nr] (?tls, M))" using assms(4) by simp
    moreover have "ni \<le> length ?tls" by simp
    ultimately show ?thesis using cauchy.serial_rows_done [OF start] by blast
  next
    case False
    then have "steal_rows nr (cauchy_fill ?g ni fi fr) (s_cauchyWorkerCount ?g) (replicate ni 0) schedule M = Some M'"
      using assms(4) by (auto simp: BuildCauchyMatrix_def Let_def bind_eq_Some_conv)
    moreover have "ni \<le> length (replicate ni (0 :: gf64_t))" by simp
    ultimately show ?thesis using cauchy.all_rows_done [OF start _ _ ] g(3) by (metis less_le_trans zero_less_one)
  qed
  then show "M' = cauchy_matrix ni nr fi fr" by (rule cauchy_rows_all)
qed

lemma build_cauchy_ends:
  assumes "fair_schedule nr 8 schedule" "engine_ok g" "dispatch_ok g"
  shows "\<exists>M' g'. BuildCauchyMatrix getenv p tls schedule M ni nr fi fr g = Some (M', g')"
proof -
  let ?g = "cauchy_worker_count getenv p g"
  have "fair_schedule nr (s_cauchyWorkerCount ?g) schedule"
    using assms(1) cauchy_worker_count_ok(4) [OF assms(2,3), of getenv p] by (simp add: fair_schedule_def)
  then show ?thesis
    using fair_schedule_ends [of nr "s_cauchyWorkerCount ?g" schedule "cauchy_fill ?g ni fi fr" "replicate ni 0" M]
    by (auto simp: BuildCauchyMatrix_def Let_def)
qed

section \<open>The cache\<close>

text \<open>
  What the cache promises: at most eight matrices, each the Cauchy matrix of its key, and a list of the
  keys in the order of their last use.
\<close>

definition matrix_of_key :: "CoeffCacheKey \<Rightarrow> gf64_t list" where
  "matrix_of_key k = cauchy_matrix (key_numInputs k) (key_numRecovery k) (key_firstInput k) (key_firstRecovery k)"

definition cache_ok :: "'a engine_globals_scheme \<Rightarrow> bool" where
  "cache_ok g \<longleftrightarrow> distinct (map fst (coeff_map g)) \<and> distinct (coeff_lru g) \<and>
    set (coeff_lru g) = fst ` set (coeff_map g) \<and> length (coeff_map g) \<le> COEFF_CACHE_MAX \<and>
    (\<forall>k m. map_of (coeff_map g) k = Some m \<longrightarrow> m = matrix_of_key k)"

text \<open>The abstract cache: the keys, the most recent first, of which eight are kept.\<close>

definition lru_touch :: "CoeffCacheKey \<Rightarrow> CoeffCacheKey list \<Rightarrow> CoeffCacheKey list" where
  "lru_touch key lru = take COEFF_CACHE_MAX (key # removeAll key lru)"

lemma cache_lengths:
  assumes "cache_ok g"
  shows "length (coeff_lru g) = length (coeff_map g)"
proof -
  have "length (coeff_lru g) = card (set (coeff_lru g))" using assms distinct_card [of "coeff_lru g"] by (simp add: cache_ok_def)
  also have "\<dots> = card (set (map fst (coeff_map g)))" using assms by (simp add: cache_ok_def)
  also have "\<dots> = length (coeff_map g)" using assms distinct_card [of "map fst (coeff_map g)"] by (simp add: cache_ok_def)
  finally show ?thesis .
qed

lemma cache_hit:
  assumes "cache_ok g" "map_of (coeff_map g) key = Some m"
  shows "m = matrix_of_key key" "cache_ok (g\<lparr>coeff_lru := key # removeAll key (coeff_lru g)\<rparr>)"
    "key # removeAll key (coeff_lru g) = lru_touch key (coeff_lru g)"
proof -
  show "m = matrix_of_key key" using assms by (simp add: cache_ok_def)
  have "key \<in> fst ` set (coeff_map g)" using assms(2) by (force dest: map_of_SomeD)
  then have key: "key \<in> set (coeff_lru g)" using assms(1) by (simp add: cache_ok_def)
  then show "cache_ok (g\<lparr>coeff_lru := key # removeAll key (coeff_lru g)\<rparr>)"
    using assms(1) by (auto simp: cache_ok_def distinct_removeAll)
  have "distinct (coeff_lru g)" using assms(1) by (simp add: cache_ok_def)
  then have "length (removeAll key (coeff_lru g)) = length (coeff_lru g) - 1"
    using key by (simp add: distinct_remove1_removeAll [symmetric] length_remove1)
  moreover have "0 < length (coeff_lru g)" using key by (rule length_pos_if_in_set)
  ultimately have "length (key # removeAll key (coeff_lru g)) \<le> COEFF_CACHE_MAX"
    using cache_lengths [OF assms(1)] assms(1) by (simp add: cache_ok_def)
  then show "key # removeAll key (coeff_lru g) = lru_touch key (coeff_lru g)"
    unfolding lru_touch_def by (simp only: take_all)
qed

lemma cache_evict:
  assumes "cache_ok g"
  shows "cache_ok (evict_oldest g)" "coeff_lru (evict_oldest g) = take (COEFF_CACHE_MAX - 1) (coeff_lru g)"
    "length (coeff_map (evict_oldest g)) < COEFF_CACHE_MAX"
    "map_of (coeff_map g) k = None \<Longrightarrow> map_of (coeff_map (evict_oldest g)) k = None"
    "gf64_globals.more (evict_oldest g) = gf64_globals.more (g\<lparr>coeff_map := coeff_map (evict_oldest g),
      coeff_lru := coeff_lru (evict_oldest g)\<rparr>)"
proof -
  note len = cache_lengths [OF assms]
  have max: "COEFF_CACHE_MAX = 8" by (simp add: COEFF_CACHE_MAX_def)
  show "gf64_globals.more (evict_oldest g) = gf64_globals.more (g\<lparr>coeff_map := coeff_map (evict_oldest g),
      coeff_lru := coeff_lru (evict_oldest g)\<rparr>)"
    by (cases g) (auto simp: evict_oldest_def Let_def split: option.split)
  have "cache_ok (evict_oldest g) \<and> coeff_lru (evict_oldest g) = take (COEFF_CACHE_MAX - 1) (coeff_lru g) \<and>
    length (coeff_map (evict_oldest g)) < COEFF_CACHE_MAX \<and>
    (map_of (coeff_map g) k = None \<longrightarrow> map_of (coeff_map (evict_oldest g)) k = None)"
  proof (cases "length (coeff_map g) \<ge> COEFF_CACHE_MAX")
    case False
    then show ?thesis using assms len by (simp add: evict_oldest_def)
  next
    case True
    then have full: "length (coeff_lru g) = 8" "length (coeff_map g) = 8" using assms len by (auto simp: cache_ok_def max)
    define e where "e = last (coeff_lru g)"
    obtain init where lru: "coeff_lru g = init @ [e]"
      using full(1) unfolding e_def by (metis append_butlast_last_id list.size(3) zero_neq_numeral)
    have "e \<in> fst ` set (coeff_map g)" using assms lru by (auto simp: cache_ok_def)
    then obtain m where m: "map_of (coeff_map g) e = Some m" by (metis domD dom_map_of_conv_image_fst)
    have ev: "evict_oldest g = g\<lparr>coeff_lru := init, coeff_map := AList.delete e (coeff_map g)\<rparr>"
      using True m lru by (simp add: evict_oldest_def Let_def flip: e_def)
    have d: "distinct (map fst (coeff_map g))" "e \<notin> set init" "distinct init" "set init \<union> {e} = fst ` set (coeff_map g)"
      using assms lru by (auto simp: cache_ok_def)
    have keys: "fst ` set (AList.delete e (coeff_map g)) = set init"
    proof -
      have "set (map fst (AList.delete e (coeff_map g))) = set (map fst (coeff_map g)) - {e}"
        by (simp only: AList.delete_keys set_removeAll)
      then show ?thesis using d(2,4) by auto
    qed
    have dist: "distinct (map fst (AList.delete e (coeff_map g)))" using d(1) by (rule AList.distinct_delete)
    have "length (AList.delete e (coeff_map g)) = card (set (map fst (AList.delete e (coeff_map g))))"
      using distinct_card [OF dist] by simp
    also have "\<dots> = length init" using keys d(3) by (simp add: distinct_card)
    finally have "length (AList.delete e (coeff_map g)) = 7" using full(1) lru by simp
    moreover have "take 7 (coeff_lru g) = init" using full(1) lru by simp
    ultimately show ?thesis
      using assms dist keys d m unfolding ev cache_ok_def max
      by (auto simp: AList.delete_conv')
  qed
  then show "cache_ok (evict_oldest g)" "coeff_lru (evict_oldest g) = take (COEFF_CACHE_MAX - 1) (coeff_lru g)"
    "length (coeff_map (evict_oldest g)) < COEFF_CACHE_MAX"
    "map_of (coeff_map g) k = None \<Longrightarrow> map_of (coeff_map (evict_oldest g)) k = None" by blast+
qed

lemma update_new: "k \<notin> fst ` set al \<Longrightarrow> AList.update k v al = al @ [(k, v)]"
  by (induction al) auto

lemma cache_insert:
  assumes "cache_ok g" "length (coeff_map g) < COEFF_CACHE_MAX" "map_of (coeff_map g) key = None" "m = matrix_of_key key"
  shows "cache_ok (g\<lparr>coeff_map := AList.update key m (coeff_map g), coeff_lru := key # coeff_lru g\<rparr>)"
proof -
  have new: "key \<notin> fst ` set (coeff_map g)" using assms(3) by (simp add: map_of_eq_None_iff)
  then have upd: "AList.update key m (coeff_map g) = coeff_map g @ [(key, m)]"
    by (rule update_new)
  show ?thesis unfolding upd using assms(1,2,4) new
    by (auto simp: cache_ok_def map_add_def split: option.splits if_splits)
qed

lemma cache_frame:
  assumes "engine_ok g" "dispatch_ok g"
  shows "engine_ok (g\<lparr>coeff_map := cm, coeff_lru := cl\<rparr>)" "dispatch_ok (g\<lparr>coeff_map := cm, coeff_lru := cl\<rparr>)"
    "engine_ok (evict_oldest g)" "dispatch_ok (evict_oldest g)" "inverse_batch_null (evict_oldest g) = inverse_batch_null g"
  using assms
  by (auto simp: evict_oldest_def Let_def engine_ok_frame dispatch_ok_engine_frame split: option.split)

text \<open>One lookup: the matrix of the key, the invariant kept, the list of keys as the abstract cache has it.\<close>

lemma get_or_build_result:
  assumes "engine_ok g" "dispatch_ok g" "cache_ok g" "\<And>n m. malloc n = Some m \<Longrightarrow> length m = n"
    "GetOrBuildCoeffMatrix getenv p malloc tls schedule ni nr fi fr g = Some (r, g')"
  defines "key \<equiv> \<lparr>key_numInputs = ni, key_numRecovery = nr, key_firstInput = fi, key_firstRecovery = fr\<rparr>"
  shows "engine_ok g' \<and> dispatch_ok g' \<and> cache_ok g' \<and> inverse_batch_null g' = inverse_batch_null g \<and>
    (case r of None \<Rightarrow> malloc (nr * ni) = None \<and> key \<notin> set (coeff_lru g) \<and> g' = g
     | Some m \<Rightarrow> m = cauchy_matrix ni nr fi fr \<and> coeff_lru g' = lru_touch key (coeff_lru g))"
proof (cases "map_of (coeff_map g) key")
  case (Some m)
  have k: "matrix_of_key key = cauchy_matrix ni nr fi fr" by (simp add: matrix_of_key_def key_def)
  have "r = Some m" "g' = g\<lparr>coeff_lru := key # removeAll key (coeff_lru g)\<rparr>"
    using assms(5) Some by (auto simp: GetOrBuildCoeffMatrix_def Let_def key_def)
  then show ?thesis
    using cache_hit [OF assms(3) Some] k assms(1,2) by (simp add: engine_ok_frame dispatch_ok_engine_frame)
next
  case None
  have fresh: "key \<notin> set (coeff_lru g)" using None assms(3) by (simp add: map_of_eq_None_iff cache_ok_def)
  show ?thesis
  proof (cases "malloc (nr * ni)")
    case no: None
    then have "r = None" "g' = g" using assms(5) None by (auto simp: GetOrBuildCoeffMatrix_def Let_def key_def)
    then show ?thesis using assms(1,2,3) no fresh by simp
  next
    case (Some M)
    obtain M' g1 where b: "BuildCauchyMatrix getenv p tls schedule M ni nr fi fr g = Some (M', g1)"
      and r: "r = Some M'" "g' = (evict_oldest g1)\<lparr>coeff_map := AList.update key M' (coeff_map (evict_oldest g1)),
        coeff_lru := key # coeff_lru (evict_oldest g1)\<rparr>"
      using assms(5) None Some by (auto simp: GetOrBuildCoeffMatrix_def Let_def key_def bind_eq_Some_conv)
    note bc = build_cauchy_result [OF assms(1,2) assms(4) [OF Some] b]
    note g1 = cauchy_worker_count_ok [OF assms(1,2), of getenv p, folded bc(2)]
    have c1: "cache_ok g1" using assms(3) g1(5,6) by (simp add: cache_ok_def)
    note ev = cache_evict [OF c1]
    have "map_of (coeff_map g1) key = None" using None g1(5) by simp
    then have new: "map_of (coeff_map (evict_oldest g1)) key = None" by (rule ev(4))
    have key: "M' = matrix_of_key key" using bc(1) by (simp add: matrix_of_key_def key_def)
    have "cache_ok g'" unfolding r(2) by (rule cache_insert [OF ev(1,3) new key])
    moreover have "coeff_lru g' = lru_touch key (coeff_lru g)"
      using fresh g1(6) by (simp add: r(2) lru_touch_def ev(2) COEFF_CACHE_MAX_def)
    moreover note fr = cache_frame [OF g1(1,2)]
    have "engine_ok g'" "dispatch_ok g'" "inverse_batch_null g' = inverse_batch_null g"
      unfolding r(2) using cache_frame [OF fr(3,4)] fr(5) g1(7) by simp_all
    ultimately show ?thesis using r(1) bc(1) by simp
  qed
qed

lemma get_or_build_ends:
  assumes "engine_ok g" "dispatch_ok g" "fair_schedule nr 8 schedule"
  shows "\<exists>r g'. GetOrBuildCoeffMatrix getenv p malloc tls schedule ni nr fi fr g = Some (r, g')"
proof (cases "malloc (nr * ni)")
  case None
  then show ?thesis by (simp add: GetOrBuildCoeffMatrix_def Let_def split: option.split)
next
  case (Some M)
  obtain M' g' where "BuildCauchyMatrix getenv p tls schedule M ni nr fi fr g = Some (M', g')"
    using build_cauchy_ends [OF assms(3,1,2)] by blast
  then show ?thesis using Some by (simp add: GetOrBuildCoeffMatrix_def Let_def split: option.split)
qed

section \<open>A square Cauchy matrix of distinct points is regular\<close>

lemma cauchy_regular:
  assumes "distinct xs" "distinct ys" "length xs = n" "length ys = n" "set xs \<inter> set ys = {}"
    and A: "\<And>i j. i < n \<Longrightarrow> j < n \<Longrightarrow> Gf (A ! (i * n + j)) = inverse (Gf (ys ! i) + Gf (xs ! j))"
  shows "\<not> singular A n"
proof
  assume "singular A n"
  then obtain w where w: "length w = n" "\<exists>j<n. w ! j \<noteq> 0" "solves A (replicate n 0) n w"
    by (auto simp: singular_def)
  have len: "length xs = length w" using assms(3) w(1) by simp
  have zero: "eval (length ys) (combination xs w) (Gf y) = 0" if "y \<in> set ys" for y
  proof -
    from that assms(4) obtain i where i: "i < n" "y = ys ! i" by (auto simp: in_set_conv_nth)
    have "y \<notin> set xs" using that assms(5) by blast
    moreover have "(\<Sum>c<length xs. Gf (w ! c) / (Gf y + Gf (xs ! c))) = 0"
    proof -
      have "(\<Sum>c<length xs. Gf (w ! c) / (Gf y + Gf (xs ! c))) = (\<Sum>j=0..<n. Gf (A ! (i * n + j)) * Gf (w ! j))"
        unfolding assms(3) lessThan_atLeast0
        by (rule sum.cong) (simp_all add: A [OF i(1)] i(2) divide_inverse mult.commute)
      also have "\<dots> = 0" using w(3) i(1) by (simp add: solves_def)
      finally show ?thesis .
    qed
    ultimately show ?thesis using combination_cauchy [OF len, of y] assms(3,4) by simp
  qed
  have "below (length ys) (combination xs w)" using below_combination [OF len] assms(3,4) by simp
  then have "combination xs w = 0" using zero_by_roots [OF assms(2)] zero by blast
  moreover obtain j where j: "j < n" "w ! j \<noteq> 0" using w(2) by blast
  ultimately have "Gf (w ! j) * eval (length xs) (deriv (vanish xs)) (Gf (xs ! j)) = 0"
    using combination_value [OF len assms(1), of j] assms(3) by (simp add: eval_def)
  then show False
    using deriv_vanish_nonzero [OF assms(1), of "xs ! j"] j assms(3) by simp
qed

end
