(* ===== verification/Engine_Recovery.thy ===== *)
theory Engine_Recovery
  imports Engine_Workers Engine_Cauchy
begin

text \<open>
  The entry points of src/par3_engine.cc that compute recovery blocks: the single-threaded kernel, the
  decomposition of the work into threads (one thread; ranges of inputs with temporary buffers that are
  added up; ranges of recovery rows and of block words) and the call that builds the matrix first.
  \<open>world\<close> collects what a call takes from outside: the environment, the CPUID answers (by number of the
  query), the platform, the allocators and the schedules of the two kinds of worker threads.
\<close>

record world =
  w_getenv :: environment
  w_hosts :: "nat \<Rightarrow> nat \<Rightarrow> host"
  w_platform :: platform
  w_malloc :: "nat \<Rightarrow> gf64_t list option"
  w_temp_ok :: "nat \<Rightarrow> bool"
  w_sample_ok :: bool
  w_speed :: "nat \<Rightarrow> nat"
  w_tls :: "gf64_t list"
  w_build_schedule :: "nat list"
  w_schedule :: "nat list"

definition muladd_single_output ::
  "'a gf64_globals_scheme \<Rightarrow> gf64_t list \<Rightarrow> gf64_t list \<Rightarrow> gf64_t list \<Rightarrow> nat \<Rightarrow> nat \<Rightarrow> gf64_t list" where
  "muladd_single_output g out inp coeffRow numIn B =
    fold (\<lambda>j out. gf64_region_muladd_arr g out (block inp (j * B) B) [coeffRow ! j] B 1) [0..<numIn] (replicate B 0)"

definition MultiplyAccumulate ::
  "environment \<Rightarrow> (nat \<Rightarrow> host) \<Rightarrow> gf64_t list \<Rightarrow> nat \<Rightarrow> gf64_t list \<Rightarrow> nat \<Rightarrow> gf64_t list \<Rightarrow> nat \<Rightarrow>
    'a engine_globals_scheme \<Rightarrow> (gf64_t list \<times> 'a engine_globals_scheme) option" where
  "MultiplyAccumulate getenv hosts out numOut inp numIn coeffMatrix B g = do {
     g \<leftarrow> EnsureDispatch getenv hosts g;
     Some (fold (\<lambda>k out. put_block out (k * B)
         (muladd_single_output g (block out (k * B) B) inp (drop (k * numIn) coeffMatrix) numIn B)) [0..<numOut] out, g)
   }"

text \<open>The measurement of block sizes, whose answer is only printed; \<open>w_speed\<close> orders the candidates.\<close>

definition autotune_candidates :: "nat list" where
  "autotune_candidates = [131072, 524288, 2097152, 8388608, 33554432]"

definition AutotuneBlockSize :: "world \<Rightarrow> 'a engine_globals_scheme \<Rightarrow> (nat \<times> 'a engine_globals_scheme) option" where
  "AutotuneBlockSize world g =
    (let (on, g) = ParseAutotuneEnv (w_getenv world) g
     in if on = 0 then Some (0, g)
        else do {
          g \<leftarrow> EnsureDispatch (w_getenv world) (w_hosts world 2) g;
          Some (if \<not> w_sample_ok world then 0
            else fst (fold (\<lambda>c (best_size, best_bpus).
                if w_speed world c > best_bpus then (autotune_candidates ! c, w_speed world c) else (best_size, best_bpus))
              [0..<5] (0, 0)), g)
        })"

definition fenger_threads_override :: "environment \<Rightarrow> int \<Rightarrow> int" where
  "fenger_threads_override getenv numThreads =
    (case getenv ''PAR3_FENGER_THREADS'' of
       Some fenger_env \<Rightarrow>
         if fenger_env \<noteq> [] then let forced = atoi fenger_env in if forced > 0 then forced else numThreads
         else numThreads
     | None \<Rightarrow> numThreads)"

definition thread_count ::
  "environment \<Rightarrow> platform \<Rightarrow> int \<Rightarrow> 'a engine_globals_scheme \<Rightarrow> int \<times> 'a engine_globals_scheme" where
  "thread_count getenv p numThreads g =
    (if numThreads \<le> 0
     then let (n, g) = GetEffectiveCpuCount getenv p g; numThreads = int n
          in (if numThreads \<le> 0 then 1 else numThreads, g)
     else (numThreads, g))"

definition blank :: "char \<Rightarrow> bool" where
  "blank c \<longleftrightarrow> of_char c = (32 :: nat) \<or> of_char c = (9 :: nat)"

definition GetInputDecompScratchCap :: "environment \<Rightarrow> nat" where
  "GetInputDecompScratchCap getenv =
    (let default_cap = 128 * 1024 * 1024
     in case getenv ''PAR3_INPUT_DECOMP_SCRATCH_BYTES'' of
          None \<Rightarrow> default_cap
        | Some env \<Rightarrow>
            if env = [] then default_cap
            else let val_str = dropWhile blank env
                 in if val_str \<noteq> [] \<and> isdigit (hd val_str)
                    then let val = digits_value (takeWhile isdigit val_str);
                             rest = dropWhile blank (dropWhile isdigit val_str)
                         in if val \<le> int SIZE_MAX \<and> rest = [] \<and> val > 0 then nat val else default_cap
                    else default_cap)"

section \<open>The decompositions\<close>

definition l3_tile_size :: "platform \<Rightarrow> nat \<Rightarrow> nat" where
  "l3_tile_size p B =
    (let l3Size = GetL3CacheSize p; bytesPerBlock = B * 8
     in if bytesPerBlock > 0 \<and> l3Size > 0
        then let tileSize = min (l3Size div bytesPerBlock) 256 in if tileSize = 0 then 1 else tileSize
        else 256)"

definition single_range :: "nat \<Rightarrow> nat \<Rightarrow> nat \<Rightarrow> nat \<Rightarrow> bool \<Rightarrow> WorkerRange" where
  "single_range numInputs numRecovery B tileSize accumulate =
    \<lparr>out_buffer = 0, out_start = 0, num_out = numRecovery, total_num_out = numRecovery, in_start = 0,
     num_in = numInputs, coeff_row_start = 0, coeff_stride = numInputs, block_size64 = B, block_stride64 = B,
     tile_size = tileSize, range_accumulate = accumulate\<rparr>"

text \<open>How many threads may take a share of the inputs: each but the first needs a buffer inside the cap.\<close>

definition out_overflow :: "nat \<Rightarrow> nat \<Rightarrow> bool" where
  "out_overflow numRecovery B \<longleftrightarrow> numRecovery > 0 \<and> B > SIZE_MAX div numRecovery \<or> numRecovery * B > SIZE_MAX div 8"

definition input_workers :: "environment \<Rightarrow> nat \<Rightarrow> nat \<Rightarrow> nat \<Rightarrow> int \<Rightarrow> nat" where
  "input_workers getenv numInputs numRecovery B numThreads =
    (let scratch_cap = GetInputDecompScratchCap getenv;
         overflow = out_overflow numRecovery B;
         total_out_bytes = (if overflow then 0 else numRecovery * B * 8);
         max_extra_workers = (if \<not> overflow \<and> total_out_bytes > 0 then scratch_cap div total_out_bytes else 0);
         n_input_workers = min (nat numThreads) (1 + max_extra_workers)
     in if n_input_workers > numInputs then numInputs else n_input_workers)"

definition share :: "nat \<Rightarrow> nat \<Rightarrow> nat \<Rightarrow> nat" where
  "share whole n t = (t * whole) div n"

definition input_range :: "nat \<Rightarrow> nat \<Rightarrow> nat \<Rightarrow> nat \<Rightarrow> bool \<Rightarrow> nat \<Rightarrow> nat \<Rightarrow> WorkerRange" where
  "input_range numInputs numRecovery B tileSize accumulate n t =
    \<lparr>out_buffer = t, out_start = 0, num_out = numRecovery, total_num_out = numRecovery,
     in_start = share numInputs n t * B, num_in = share numInputs n (t + 1) - share numInputs n t,
     coeff_row_start = share numInputs n t, coeff_stride = numInputs, block_size64 = B, block_stride64 = B,
     tile_size = tileSize, range_accumulate = (if t = 0 then accumulate else False)\<rparr>"

definition input_ranges :: "nat \<Rightarrow> nat \<Rightarrow> nat \<Rightarrow> nat \<Rightarrow> bool \<Rightarrow> nat \<Rightarrow> WorkerRange list" where
  "input_ranges numInputs numRecovery B tileSize accumulate n =
    concat (map (\<lambda>t. if share numInputs n (t + 1) - share numInputs n t = 0 then []
        else [input_range numInputs numRecovery B tileSize accumulate n t]) [0..<n])"

definition block_shares :: "nat \<Rightarrow> nat \<Rightarrow> int \<Rightarrow> nat \<times> nat" where
  "block_shares numRecovery B numThreads =
    (let SR = min (nat numThreads) numRecovery;
         SR = (if SR = 0 then 1 else SR);
         block_bytes = B * 8;
         min_slice_bytes = 64 * 1024;
         SB = (if nat numThreads > SR \<and> block_bytes \<ge> min_slice_bytes \<and> B mod 8 = 0
           then let SB = min (nat numThreads div SR) (block_bytes div min_slice_bytes) in if SB = 0 then 1 else SB
           else 1)
     in (SR, SB))"

text \<open>\<open>x & ~7ULL\<close>\<close>

definition align8 :: "nat \<Rightarrow> nat" where
  "align8 x = x - x mod 8"

definition slice_start :: "nat \<Rightarrow> nat \<Rightarrow> nat \<Rightarrow> nat" where
  "slice_start B SB wb = align8 (share B SB wb)"

definition slice_end :: "nat \<Rightarrow> nat \<Rightarrow> nat \<Rightarrow> nat" where
  "slice_end B SB wb = (if wb + 1 = SB then B else align8 (share B SB (wb + 1)))"

definition output_range :: "nat \<Rightarrow> nat \<Rightarrow> nat \<Rightarrow> nat \<Rightarrow> bool \<Rightarrow> nat \<Rightarrow> nat \<Rightarrow> nat \<Rightarrow> nat \<Rightarrow> WorkerRange" where
  "output_range numInputs numRecovery B tileSize accumulate SR SB wr wb =
    \<lparr>out_buffer = 0, out_start = share numRecovery SR wr * B + slice_start B SB wb,
     num_out = share numRecovery SR (wr + 1) - share numRecovery SR wr, total_num_out = numRecovery,
     in_start = slice_start B SB wb, num_in = numInputs,
     coeff_row_start = share numRecovery SR wr * numInputs, coeff_stride = numInputs,
     block_size64 = slice_end B SB wb - slice_start B SB wb, block_stride64 = B,
     tile_size = tileSize, range_accumulate = accumulate\<rparr>"

definition output_ranges :: "nat \<Rightarrow> nat \<Rightarrow> nat \<Rightarrow> nat \<Rightarrow> bool \<Rightarrow> nat \<Rightarrow> nat \<Rightarrow> WorkerRange list" where
  "output_ranges numInputs numRecovery B tileSize accumulate SR SB =
    concat (map (\<lambda>wr. if share numRecovery SR (wr + 1) - share numRecovery SR wr = 0 then []
        else concat (map (\<lambda>wb. if slice_end B SB wb - slice_start B SB wb = 0 then []
          else [output_range numInputs numRecovery B tileSize accumulate SR SB wr wb]) [0..<SB])) [0..<SR])"

section \<open>The entry points\<close>

text \<open>
  The threads of one call. The one-time initialisation of the dispatch happens in the first thread to
  start, before the kernels run.
\<close>

fun start_workers ::
  "environment \<Rightarrow> (nat \<Rightarrow> host) \<Rightarrow> gf64_t list \<Rightarrow> WorkerRange list \<Rightarrow> 'a engine_globals_scheme \<Rightarrow>
    (region_op list list \<times> 'a engine_globals_scheme) option" where
  "start_workers getenv hosts coeff [] g = Some ([], g)"
| "start_workers getenv hosts coeff (r # rs) g = do {
     (prog, g) \<leftarrow> WorkerThread getenv hosts coeff r g;
     (progs, g) \<leftarrow> start_workers getenv hosts coeff rs g;
     Some (prog # progs, g)
   }"

definition run_threads ::
  "world \<Rightarrow> gf64_t list \<Rightarrow> gf64_t list \<Rightarrow> WorkerRange list \<Rightarrow> gf64_t list list \<Rightarrow> 'a engine_globals_scheme \<Rightarrow>
    (gf64_t list list \<times> 'a engine_globals_scheme) option" where
  "run_threads world inputs coeff ranges bufs g = do {
     (progs, g) \<leftarrow> start_workers (w_getenv world) (w_hosts world 1) coeff ranges g;
     seq \<leftarrow> interleave_threads (w_schedule world) progs;
     Some (run_ops g inputs coeff seq bufs, g)
   }"

definition ComputeRecoveryBlocksWithCoeff ::
  "world \<Rightarrow> gf64_t list \<Rightarrow> nat \<Rightarrow> gf64_t list \<Rightarrow> nat \<Rightarrow> nat \<Rightarrow> gf64_t list option \<Rightarrow> int \<Rightarrow> bool \<Rightarrow>
    'a engine_globals_scheme \<Rightarrow> (gf64_t list \<times> 'a engine_globals_scheme) option" where
  "ComputeRecoveryBlocksWithCoeff world inputs numInputs recovery numRecovery B coeff numThreads accumulate g =
    (if numInputs = 0 \<or> numRecovery = 0 \<or> coeff = None then Some (recovery, ResetLastDecompositionPath g)
     else do {
       let coeff = the coeff;
       (chosen, g) \<leftarrow> gf64_method_for_workload (w_getenv world) (w_hosts world 0)
         (of_nat numInputs) (of_nat numRecovery) (of_nat B) g;
       g \<leftarrow> gf64_apply_method (w_hosts world 0 6) chosen g;
       let (numThreads, g) = thread_count (w_getenv world) (w_platform world) numThreads g;
       let tileSize = l3_tile_size (w_platform world) B;
       let n = input_workers (w_getenv world) numInputs numRecovery B numThreads;
       if numThreads = 1 then do {
         let g = g\<lparr>s_last_decomposition_path := 1\<rparr>;
         (opers, g) \<leftarrow> WorkerThread (w_getenv world) (w_hosts world 1) coeff
           (single_range numInputs numRecovery B tileSize accumulate) g;
         Some (run_ops g inputs coeff opers [recovery] ! 0, g)
       }
       else if \<not> accumulate \<and> \<not> out_overflow numRecovery B \<and> n > numRecovery \<and> n \<ge> 2 \<and> (\<forall>t\<in>{1..<n}. w_temp_ok world t) then do {
         let g = g\<lparr>s_last_decomposition_path := 2\<rparr>;
         (bufs, g) \<leftarrow> run_threads world inputs coeff (input_ranges numInputs numRecovery B tileSize accumulate n)
           (recovery # replicate (n - 1) (replicate (numRecovery * B) 0)) g;
         Some (fold (\<lambda>t recovery.
             if share numInputs n (t + 1) > share numInputs n t then xor_buffer recovery (bufs ! t) (numRecovery * B)
             else recovery) [1..<n] (bufs ! 0), g)
       }
       else do {
         let g = g\<lparr>s_last_decomposition_path := 3\<rparr>;
         let (SR, SB) = block_shares numRecovery B numThreads;
         (bufs, g) \<leftarrow> run_threads world inputs coeff (output_ranges numInputs numRecovery B tileSize accumulate SR SB) [recovery] g;
         Some (bufs ! 0, g)
       }
     })"

definition ComputeRecoveryBlocks ::
  "world \<Rightarrow> gf64_t list \<Rightarrow> nat \<Rightarrow> gf64_t list \<Rightarrow> nat \<Rightarrow> nat \<Rightarrow> 64 word \<Rightarrow> 64 word \<Rightarrow> int \<Rightarrow> bool \<Rightarrow>
    'a engine_globals_scheme \<Rightarrow> (gf64_t list \<times> 'a engine_globals_scheme) option" where
  "ComputeRecoveryBlocks world inputs numInputs recovery numRecovery B firstInput firstRecovery numThreads accumulate g =
    (if numInputs = 0 \<or> numRecovery = 0 then Some (recovery, g)
     else do {
       g \<leftarrow> (case s_autotune_once g of
           Some _ \<Rightarrow> Some g
         | None \<Rightarrow> do { (size, g) \<leftarrow> AutotuneBlockSize world g; Some (g\<lparr>s_autotune_once := Some size\<rparr>) });
       let numThreads = fenger_threads_override (w_getenv world) numThreads;
       let (numThreads, g) = thread_count (w_getenv world) (w_platform world) numThreads g;
       (coeff, g) \<leftarrow> GetOrBuildCoeffMatrix (w_getenv world) (w_platform world) (w_malloc world) (w_tls world)
         (w_build_schedule world) numInputs numRecovery firstInput firstRecovery g;
       case coeff of
         None \<Rightarrow> Some (recovery, g)
       | Some matrix \<Rightarrow>
           ComputeRecoveryBlocksWithCoeff world inputs numInputs recovery numRecovery B (Some matrix) numThreads accumulate g
     })"

definition ComputeRecoveryBlocksFull ::
  "world \<Rightarrow> gf64_t list \<Rightarrow> nat \<Rightarrow> gf64_t list \<Rightarrow> nat \<Rightarrow> nat \<Rightarrow> 64 word \<Rightarrow> 64 word \<Rightarrow> int \<Rightarrow> bool \<Rightarrow>
    'a engine_globals_scheme \<Rightarrow> (gf64_t list \<times> 'a engine_globals_scheme) option" where
  "ComputeRecoveryBlocksFull world inputs numInputs recovery numRecovery B firstInput firstRecovery numThreads accumulate g =
    ComputeRecoveryBlocks world inputs numInputs recovery numRecovery B firstInput firstRecovery numThreads accumulate g"

text \<open>
  The entry on a file. The operating system answers \<open>open\<close> (a descriptor, negative for a failure),
  \<open>fstat\<close> (the size in bytes) and \<open>mmap\<close> (the words of the mapping). The answer of -1 leaves the
  recovery array alone. POSIX branch, little-endian words.
\<close>

definition ComputeRecoveryBlocksFromFile ::
  "world \<Rightarrow> (string \<Rightarrow> int) \<Rightarrow> (int \<Rightarrow> nat option) \<Rightarrow> (int \<Rightarrow> nat \<Rightarrow> gf64_t list option) \<Rightarrow> string option \<Rightarrow>
    gf64_t list option \<Rightarrow> nat \<Rightarrow> nat \<Rightarrow> 64 word \<Rightarrow> 64 word \<Rightarrow> int \<Rightarrow> 'a engine_globals_scheme \<Rightarrow>
    ((int \<times> gf64_t list option) \<times> 'a engine_globals_scheme) option" where
  "ComputeRecoveryBlocksFromFile world os_open os_fstat os_mmap sourcePath recovery numRecovery B firstInput firstRecovery numThreads g =
    (if (case w_getenv world ''PAR3_GF64_USE_MMAP'' of None \<Rightarrow> True | Some env \<Rightarrow> env = [] \<or> atoi env \<noteq> 1)
     then Some ((-1, recovery), g)
     else case (sourcePath, recovery) of
       (Some path, Some rec) \<Rightarrow>
         if B = 0 then Some ((-1, recovery), g)
         else let fd = os_open path
              in if fd < 0 then Some ((-1, recovery), g)
                 else (case os_fstat fd of
                   None \<Rightarrow> Some ((-1, recovery), g)
                 | Some fileSize \<Rightarrow>
                     let blockBytes = B * 8
                     in if fileSize < blockBytes \<or> fileSize mod blockBytes \<noteq> 0 then Some ((-1, recovery), g)
                        else let numInputs = fileSize div blockBytes
                             in (case os_mmap fd fileSize of
                               None \<Rightarrow> Some ((-1, recovery), g)
                             | Some inputs \<Rightarrow> do {
                                 (rec, g) \<leftarrow> ComputeRecoveryBlocksFull world inputs numInputs rec numRecovery B
                                   firstInput firstRecovery numThreads False g;
                                 Some ((0, Some rec), g)
                               }))
     | _ \<Rightarrow> Some ((-1, recovery), g))"

section \<open>Shares\<close>

lemma share_ends: "share whole n 0 = 0" "0 < n \<Longrightarrow> share whole n n = whole"
  by (simp_all add: share_def)

lemma share_mono: "t \<le> t' \<Longrightarrow> share whole n t \<le> share whole n t'"
  by (simp add: share_def div_le_mono)

lemma share_le: "t \<le> n \<Longrightarrow> 0 < n \<Longrightarrow> share whole n t \<le> whole"
  using share_mono [of t n whole n] share_ends(2) [of n whole] by simp

lemma share_less:
  assumes "0 < n" "n \<le> whole"
  shows "share whole n t < share whole n (t + 1)"
proof -
  have "t * whole div n + 1 = (t * whole + n) div n"
    using assms(1) div_add_self2 [of n "t * whole"] by linarith
  also have "\<dots> \<le> (t + 1) * whole div n" using assms(2) by (intro div_le_mono) simp
  finally show ?thesis by (simp add: share_def)
qed

lemma interval_exists:
  fixes f :: "nat \<Rightarrow> nat"
  assumes "f 0 \<le> x" "x < f n"
  shows "\<exists>a<n. f a \<le> x \<and> x < f (a + 1)"
  using assms(2)
proof (induction n)
  case 0
  then show ?case using assms(1) by simp
next
  case (Suc n)
  show ?case
  proof (cases "x < f n")
    case True
    then show ?thesis using Suc.IH less_SucI by blast
  next
    case False
    then show ?thesis using Suc.prems by (intro exI [of _ n]) simp
  qed
qed

lemma interval_unique:
  fixes f :: "nat \<Rightarrow> nat"
  assumes mono: "\<And>a b. a \<le> b \<Longrightarrow> b \<le> n \<Longrightarrow> f a \<le> f b"
    and "f a \<le> x" "x < f (a + 1)" "f b \<le> x" "x < f (b + 1)" "a < n" "b < n"
  shows "a = b"
proof (rule ccontr)
  assume "a \<noteq> b"
  then have "a + 1 \<le> b \<or> b + 1 \<le> a" by auto
  then show False using mono [of "a + 1" b] mono [of "b + 1" a] assms(2-) by auto
qed

lemma sum_shares:
  fixes F :: "nat \<Rightarrow> gf"
  shows "(\<Sum>t<m. \<Sum>j< share whole n (t + 1) - share whole n t. F (share whole n t + j)) = (\<Sum>j< share whole n m. F j)"
proof (induction m)
  case 0
  then show ?case by (simp add: share_ends)
next
  case (Suc m)
  have le: "share whole n m \<le> share whole n (m + 1)" by (rule share_mono) simp
  have "(\<Sum>j< share whole n (m + 1) - share whole n m. F (share whole n m + j)) = (\<Sum>j=share whole n m..<share whole n (m + 1). F j)"
    using sum.shift_bounds_nat_ivl [of F 0 "share whole n m" "share whole n (m + 1) - share whole n m"] le
    by (simp add: lessThan_atLeast0 add.commute)
  then show ?case using Suc le by (simp add: lessThan_atLeast0 sum.atLeastLessThan_concat)
qed

text \<open>The slices of a block.\<close>

lemma align8_le: "align8 x \<le> x"
  by (simp add: align8_def)

lemma align8_mono: "x \<le> y \<Longrightarrow> align8 x \<le> align8 y"
proof -
  assume "x \<le> y"
  then have "8 * (x div 8) \<le> 8 * (y div 8)" by (simp add: div_le_mono)
  then show ?thesis by (simp add: align8_def minus_mod_eq_mult_div)
qed

definition slice_bound :: "nat \<Rightarrow> nat \<Rightarrow> nat \<Rightarrow> nat" where
  "slice_bound B SB wb = (if wb = SB then B else align8 (share B SB wb))"

lemma slice_bounds:
  assumes "0 < SB"
  shows "slice_bound B SB 0 = 0" "slice_bound B SB SB = B"
    "wb < SB \<Longrightarrow> slice_start B SB wb = slice_bound B SB wb" "wb < SB \<Longrightarrow> slice_end B SB wb = slice_bound B SB (wb + 1)"
    "a \<le> b \<Longrightarrow> b \<le> SB \<Longrightarrow> slice_bound B SB a \<le> slice_bound B SB b"
proof -
  show "slice_bound B SB 0 = 0" "slice_bound B SB SB = B"
    using assms by (simp_all add: slice_bound_def align8_def share_def)
  show "wb < SB \<Longrightarrow> slice_start B SB wb = slice_bound B SB wb" "wb < SB \<Longrightarrow> slice_end B SB wb = slice_bound B SB (wb + 1)"
    by (simp_all add: slice_bound_def slice_start_def slice_end_def)
  have "align8 (share B SB a) \<le> B" if "a \<le> SB" for a
    using align8_le [of "share B SB a"] share_le [OF that assms, of B] by simp
  then show "a \<le> b \<Longrightarrow> b \<le> SB \<Longrightarrow> slice_bound B SB a \<le> slice_bound B SB b"
    using align8_mono [OF share_mono [of a b B SB]] by (auto simp: slice_bound_def)
qed

section \<open>What a call computes\<close>

text \<open>Word \<open>w\<close> of recovery block \<open>k\<close> afterwards: the product with the matrix, added to the old word when accumulating.\<close>

definition recovered :: "gf64_t list \<Rightarrow> gf64_t list \<Rightarrow> nat \<Rightarrow> nat \<Rightarrow> bool \<Rightarrow> gf64_t list \<Rightarrow> nat \<Rightarrow> nat \<Rightarrow> gf" where
  "recovered inputs coeff numInputs B accumulate old k w =
    (if accumulate then Gf (old ! (k * B + w)) else 0) +
    (\<Sum>j<numInputs. Gf (inputs ! (j * B + w)) * Gf (coeff ! (k * numInputs + j)))"

definition recovers :: "gf64_t list \<Rightarrow> gf64_t list \<Rightarrow> nat \<Rightarrow> nat \<Rightarrow> nat \<Rightarrow> bool \<Rightarrow> gf64_t list \<Rightarrow> gf64_t list \<Rightarrow> bool" where
  "recovers inputs coeff numInputs numRecovery B accumulate old new \<longleftrightarrow> length new = numRecovery * B \<and>
    (\<forall>k<numRecovery. \<forall>w<B. Gf (new ! (k * B + w)) = recovered inputs coeff numInputs B accumulate old k w)"

lemma worker_threads_uniform:
  assumes "engine_ok g"
  shows "\<exists>K G g'. engine_ok g' \<and> dispatch_ok g' \<and> s_last_decomposition_path g' = s_last_decomposition_path g \<and>
    same_engine g g' \<and> 1 \<le> K \<and> K \<le> 256 \<and> 1 \<le> G \<and> G \<le> 256 \<and> \<not> inverse_batch_null g' \<and>
    (\<forall>r. WorkerThread getenv hosts coeff r g = Some (worker_ops K G coeff r, g') \<and>
      WorkerThread getenv hosts coeff r g' = Some (worker_ops K G coeff r, g'))"
proof -
  obtain g1 where 1: "EnsureDispatch getenv hosts g = Some g1" "engine_ok g1" "dispatch_ok g1" "s_dispatch_initialized g1"
    "s_last_decomposition_path g1 = s_last_decomposition_path g" "same_engine g g1" "\<not> inverse_batch_null g1"
    using EnsureDispatch_ok [OF assms] by blast
  have stable: "EnsureDispatch getenv hosts g1 = Some g1" using 1(4) by (simp add: EnsureDispatch_def)
  obtain K G where K: "GetKGroupSize getenv hosts g1 = Some (K, g1)" "1 \<le> K" "K \<le> 256"
    and G: "GetGroupSize getenv hosts g1 = Some (G, g1)" "1 \<le> G" "G \<le> 256"
  proof -
    have "snd x = g1" if "GetKGroupSize getenv hosts g1 = Some x \<or> GetGroupSize getenv hosts g1 = Some x" for x
      using that stable by (auto simp: GetKGroupSize_def GetGroupSize_def Let_def split: if_splits)
    then show ?thesis using that group_sizes_range [OF 1(2), of getenv hosts] by (metis snd_conv)
  qed
  have "WorkerThread getenv hosts coeff r g = Some (worker_ops (nat K) (nat G) coeff r, g1)"
    "WorkerThread getenv hosts coeff r g1 = Some (worker_ops (nat K) (nat G) coeff r, g1)" for r
    using 1(1) stable K(1) G(1) by (simp_all add: WorkerThread_def worker_ops_def)
  moreover have "1 \<le> nat K" "nat K \<le> 256" "1 \<le> nat G" "nat G \<le> 256" using K G by simp_all
  ultimately show ?thesis using 1 by blast
qed

lemma start_workers_ok:
  assumes "engine_ok g" "ranges \<noteq> []"
  shows "\<exists>K G g'. start_workers getenv hosts coeff ranges g = Some (map (worker_ops K G coeff) ranges, g') \<and>
    1 \<le> K \<and> K \<le> 256 \<and> 1 \<le> G \<and> G \<le> 256 \<and> engine_ok g' \<and> dispatch_ok g' \<and> same_engine g g' \<and>
    s_last_decomposition_path g' = s_last_decomposition_path g \<and> \<not> inverse_batch_null g'"
proof -
  obtain K G g' where u: "engine_ok g'" "dispatch_ok g'" "s_last_decomposition_path g' = s_last_decomposition_path g"
    "same_engine g g'" "1 \<le> K" "K \<le> 256" "1 \<le> G" "G \<le> 256" "\<not> inverse_batch_null g'"
    and w: "\<forall>r. WorkerThread getenv hosts coeff r g = Some (worker_ops K G coeff r, g') \<and>
      WorkerThread getenv hosts coeff r g' = Some (worker_ops K G coeff r, g')"
    using worker_threads_uniform [OF assms(1), of getenv hosts coeff] by blast
  have rest: "start_workers getenv hosts coeff rs g' = Some (map (worker_ops K G coeff) rs, g')" for rs
    using w by (induction rs) simp_all
  obtain r rs where "ranges = r # rs" using assms(2) by (cases ranges) auto
  then show ?thesis using u w rest by auto
qed

subsection \<open>One thread\<close>

lemma mult_index_less: "j * B + w < n * B" if "j < n" "w < B" for j w n B :: nat
  by (rule flat_less [OF that])

lemma single_range_ok:
  assumes "length inputs = ni * B" "length coeff = nr * ni"
  shows "range_ok [nr * B] (length inputs) (length coeff) (single_range ni nr B tile acc)"
  using assms block_fits [of _ nr B] block_fits [of _ ni B] block_fits [of _ nr ni]
  by (auto simp: range_ok_def single_range_def stride_len_def out_block_def in_block_def)

lemma single_product: "range_product inputs coeff (single_range ni nr B tile acc) k w j =
    Gf (inputs ! (j * B + w)) * Gf (coeff ! (k * ni + j))"
  by (simp add: range_product_def single_range_def in_block_def stride_len_def)

lemma one_thread:
  assumes "dispatch_ok g" "0 < K" "0 < G" "length inputs = ni * B" "length coeff = nr * ni" "length recovery = nr * B"
  shows "recovers inputs coeff ni nr B acc recovery
    (run_ops g inputs coeff (worker_ops K G coeff (single_range ni nr B tile acc)) [recovery] ! 0)"
proof -
  let ?r = "single_range ni nr B tile acc"
  have "interleave_threads (replicate (length p) 0) [p] = Some p" for p :: "region_op list"
    by (induction p) auto
  then have s: "interleave_threads (replicate (length (worker_ops K G coeff ?r)) 0) (map (\<lambda>r. worker_ops K G coeff r) [?r]) =
      Some (worker_ops K G coeff ?r)" by simp
  have ok: "range_ok (map length [recovery]) (length inputs) (length coeff) r" if "r \<in> set [?r]" for r
    using that single_range_ok [OF assms(4,5)] assms(6) by simp
  note th = threads_result [OF assms(1), of "[?r]" "\<lambda>_. K" "\<lambda>_. G", OF _ ok _ s]
  have flds: "num_out ?r = nr" "block_size64 ?r = B" "out_buffer ?r = 0" "num_in ?r = ni" "range_accumulate ?r = acc"
    "out_block ?r k = k * B" for k by (simp_all add: single_range_def out_block_def stride_len_def)
  have "length (run_ops g inputs coeff (worker_ops K G coeff ?r) [recovery] ! 0) = nr * B"
    using th(1) assms by auto
  moreover have "Gf (run_ops g inputs coeff (worker_ops K G coeff ?r) [recovery] ! 0 ! (k * B + w)) =
      recovered inputs coeff ni B acc recovery k w" if "k < nr" "w < B" for k w
    using th(2) [of ?r k w, unfolded flds single_product] assms(2,3) that by (simp add: recovered_def)
  ultimately show ?thesis by (simp add: recovers_def)
qed

subsection \<open>Shares of the inputs\<close>

lemma input_ranges_map:
  assumes "0 < n" "n \<le> ni"
  shows "input_ranges ni nr B tile acc n = map (input_range ni nr B tile acc n) [0..<n]"
proof -
  have "concat (map (\<lambda>t. if share ni n (t + 1) - share ni n t = 0 then [] else [input_range ni nr B tile acc n t]) ts) =
      map (input_range ni nr B tile acc n) ts" for ts
    using share_less [OF assms] by (induction ts) (auto simp: not_le)
  then show ?thesis by (simp add: input_ranges_def)
qed

lemma input_range_ok:
  assumes "length inputs = ni * B" "length coeff = nr * ni" "0 < n" "t < n"
  shows "range_ok (replicate n (nr * B)) (length inputs) (length coeff) (input_range ni nr B tile acc n t)"
proof -
  let ?a = "share ni n t" and ?b = "share ni n (t + 1)"
  have ab: "?a \<le> ?b" "?b \<le> ni" using share_mono [of t "t + 1" ni n] share_le [of "t + 1" n ni] assms(3,4) by simp_all
  have "?a * B + j * B + B \<le> ni * B" if "j < ?b - ?a" for j
  proof -
    have "?a + j < ni" using that ab by simp
    then have "(?a + j) * B + B \<le> ni * B" by (rule block_fits)
    then show ?thesis by (simp add: algebra_simps)
  qed
  moreover have "?a + k * ni + (?b - ?a) \<le> nr * ni" if "k < nr" for k
    using block_fits [OF that, of ni] ab by simp
  ultimately show ?thesis
    using assms block_fits [of _ nr B]
    by (auto simp: range_ok_def input_range_def stride_len_def out_block_def in_block_def)
qed

lemma input_threads:
  assumes g: "dispatch_ok g" and KG: "0 < K" "0 < G"
    and len: "length inputs = ni * B" "length coeff = nr * ni" "length recovery = nr * B"
    and n: "0 < n" "n \<le> ni"
    and sched: "interleave_threads schedule (map (worker_ops K G coeff) (input_ranges ni nr B tile False n)) = Some seq"
  defines "bufs \<equiv> run_ops g inputs coeff seq (recovery # replicate (n - 1) (replicate (nr * B) 0))"
  shows "recovers inputs coeff ni nr B False recovery
    (fold (\<lambda>t recovery. if share ni n (t + 1) > share ni n t then xor_buffer recovery (bufs ! t) (nr * B) else recovery)
      [1..<n] (bufs ! 0))"
proof -
  let ?rs = "input_ranges ni nr B tile False n" and ?bufs = "recovery # replicate (n - 1) (replicate (nr * B) (0 :: gf64_t))"
  let ?r = "input_range ni nr B tile False n"
  have rs: "?rs = map ?r [0..<n]" by (rule input_ranges_map [OF n])
  have lens: "map length ?bufs = replicate n (nr * B)" using len(3) n(1) by (cases n) simp_all
  have ok: "range_ok (map length ?bufs) (length inputs) (length coeff) r" if "r \<in> set ?rs" for r
    using that input_range_ok [OF len(1,2) n(1)] unfolding lens rs by auto
  have flds: "num_out (?r t) = nr" "block_size64 (?r t) = B" "out_buffer (?r t) = t" "range_accumulate (?r t) = False"
    "num_in (?r t) = share ni n (t + 1) - share ni n t" "out_block (?r t) k = k * B" for t k
    by (simp_all add: input_range_def out_block_def stride_len_def)
  have own: "t = t'" if "t < length ?rs" "t' < length ?rs" "range_owns (?rs ! t) b p" "range_owns (?rs ! t') b p" for t t' b p
    using that by (simp add: rs range_owns_def flds)
  note th = threads_result [where K = "\<lambda>_. K" and G = "\<lambda>_. G", OF g _ ok own sched, folded bufs_def]
  have lb: "map length bufs = replicate n (nr * B)" using th(1) KG lens by simp
  then have nb: "length bufs = n" by (metis length_map length_replicate)
  then have lb': "length (bufs ! t) = nr * B" if "t < n" for t using lb that by (metis nth_map nth_replicate)
  define part where "part t k w = (\<Sum>j< share ni n (t + 1) - share ni n t. Gf (inputs ! ((share ni n t + j) * B + w)) * Gf (coeff ! (k * ni + (share ni n t + j))))" for t k w
  have val: "Gf (bufs ! t ! (k * B + w)) = part t k w" if "t < n" "k < nr" "w < B" for t k w
  proof -
    have "?r t \<in> set ?rs" using that by (simp add: rs)
    then have "Gf (bufs ! t ! (k * B + w)) = (\<Sum>j<num_in (?r t). range_product inputs coeff (?r t) k w j)"
      using th(2) [where r = "?r t" and k = k and w = w] KG that by (simp add: flds)
    also have "\<dots> = part t k w" unfolding part_def flds
      by (rule sum.cong) (simp_all add: range_product_def input_range_def in_block_def stride_len_def algebra_simps)
    finally show ?thesis .
  qed
  have acc: "length (fold (\<lambda>t recovery. if share ni n (t + 1) > share ni n t then xor_buffer recovery (bufs ! t) (nr * B) else recovery)
      [1..<m] (bufs ! 0)) = nr * B \<and> (\<forall>k<nr. \<forall>w<B.
      Gf (fold (\<lambda>t recovery. if share ni n (t + 1) > share ni n t then xor_buffer recovery (bufs ! t) (nr * B) else recovery)
      [1..<m] (bufs ! 0) ! (k * B + w)) = (\<Sum>t<m. part t k w))" if "1 \<le> m" "m \<le> n" for m
    using that
  proof (induction m rule: nat_induct_at_least)
    case base
    then show ?case using lb' [of 0] n(1) val by simp
  next
    case (Suc m)
    have "share ni n m < share ni n (m + 1)" by (rule share_less [OF n])
    then show ?case
      using Suc lb' [of m] val [of m] flat_less [of _ nr _ B] by (simp add: xor_buffer_eq Gf_xor)
  qed
  have "(\<Sum>t<n. part t k w) = (\<Sum>j<ni. Gf (inputs ! (j * B + w)) * Gf (coeff ! (k * ni + j)))" for k w
    using sum_shares [where whole = ni and n = n and m = n and F = "\<lambda>j. Gf (inputs ! (j * B + w)) * Gf (coeff ! (k * ni + j))"]
    unfolding share_ends(2) [OF n(1)] part_def by simp
  then show ?thesis using acc [of n] n(1) by (simp add: recovers_def recovered_def)
qed

subsection \<open>Rows and slices\<close>

lemma output_ranges_map:
  "output_ranges ni nr B tile acc SR SB = map (\<lambda>(wr, wb). output_range ni nr B tile acc SR SB wr wb)
    (filter (\<lambda>(wr, wb). share nr SR wr < share nr SR (wr + 1) \<and> slice_start B SB wb < slice_end B SB wb)
      (List.product [0..<SR] [0..<SB]))"
proof -
  have inner: "concat (map (\<lambda>wb. if slice_end B SB wb - slice_start B SB wb = 0 then [] else [F wb]) wbs) =
      map F (filter (\<lambda>wb. slice_start B SB wb < slice_end B SB wb) wbs)" for F :: "nat \<Rightarrow> WorkerRange" and wbs
    by (induction wbs) auto
  have "concat (map (\<lambda>wr. if share nr SR (wr + 1) - share nr SR wr = 0 then []
        else map (output_range ni nr B tile acc SR SB wr) (filter (\<lambda>wb. slice_start B SB wb < slice_end B SB wb) wbs)) wrs) =
      map (\<lambda>(wr, wb). output_range ni nr B tile acc SR SB wr wb)
        (filter (\<lambda>(wr, wb). share nr SR wr < share nr SR (wr + 1) \<and> slice_start B SB wb < slice_end B SB wb) (List.product wrs wbs))" for wrs wbs
    by (induction wrs) (auto simp: filter_map comp_def filter_empty_conv)
  then show ?thesis unfolding output_ranges_def inner .
qed

lemma output_range_facts:
  "num_out (output_range ni nr B tile acc SR SB wr wb) = share nr SR (wr + 1) - share nr SR wr"
  "block_size64 (output_range ni nr B tile acc SR SB wr wb) = slice_end B SB wb - slice_start B SB wb"
  "out_buffer (output_range ni nr B tile acc SR SB wr wb) = 0" "num_in (output_range ni nr B tile acc SR SB wr wb) = ni"
  "range_accumulate (output_range ni nr B tile acc SR SB wr wb) = acc"
  "total_num_out (output_range ni nr B tile acc SR SB wr wb) = nr"
  "coeff_row_start (output_range ni nr B tile acc SR SB wr wb) = share nr SR wr * ni"
  "coeff_stride (output_range ni nr B tile acc SR SB wr wb) = ni"
  by (simp_all add: output_range_def)

lemma output_blocks:
  assumes "0 < B"
  shows "stride_len (output_range ni nr B tile acc SR SB wr wb) = B"
    "out_block (output_range ni nr B tile acc SR SB wr wb) k = (share nr SR wr + k) * B + slice_start B SB wb"
    "in_block (output_range ni nr B tile acc SR SB wr wb) j = j * B + slice_start B SB wb"
  using assms by (simp_all add: output_range_def stride_len_def out_block_def in_block_def algebra_simps)

lemma output_range_ok:
  assumes "length inputs = ni * B" "length coeff = nr * ni" "0 < B" "wr < SR" "wb < SB"
  shows "range_ok [nr * B] (length inputs) (length coeff) (output_range ni nr B tile acc SR SB wr wb)"
proof -
  let ?r = "output_range ni nr B tile acc SR SB wr wb" and ?a = "share nr SR wr" and ?s = "slice_start B SB wb" and ?e = "slice_end B SB wb"
  have row: "?a + k < nr" if "k < share nr SR (wr + 1) - ?a" for k
    using that share_le [of "wr + 1" SR nr] assms(4) by simp
  have SB: "0 < SB" using assms(5) by simp
  have e: "?e \<le> B" using slice_bounds(5) [OF SB, of "wb + 1" SB B] slice_bounds(2,4) [OF SB] assms(5) by simp
  have fits: "i * B + ?s + (?e - ?s) \<le> n * B" if "i < n" "0 < ?e - ?s" for i n
    using block_fits [OF that(1), of B] e that(2) by simp
  have fits0: "i * B + ?s + (?e - ?s) \<le> n * B" if "i < n" for i n
  proof -
    have "?s \<le> ?e" using slice_bounds(3,4,5) [OF SB] assms(5) by simp
    then show ?thesis using block_fits [OF that, of B] e by simp
  qed
  have coeff: "?a * ni + k * ni + ni \<le> nr * ni" if "k < share nr SR (wr + 1) - ?a" for k
    using block_fits [OF row [OF that], of ni] by (simp add: algebra_simps)
  have "share nr SR (wr + 1) - ?a \<le> nr" using share_le [of "wr + 1" SR nr] assms(4) by simp
  then show ?thesis
    using e fits0 row coeff assms(1,2)
    unfolding range_ok_def output_range_facts output_blocks [OF assms(3)] by simp
qed

text \<open>No two threads own the same word.\<close>

lemma output_ranges_apart:
  assumes B: "0 < B" and SB: "0 < SB"
    and t: "t < length (output_ranges ni nr B tile acc SR SB)" "t' < length (output_ranges ni nr B tile acc SR SB)"
    and o: "range_owns (output_ranges ni nr B tile acc SR SB ! t) b p" "range_owns (output_ranges ni nr B tile acc SR SB ! t') b p"
  shows "t = t'"
proof -
  let ?rs = "output_ranges ni nr B tile acc SR SB"
  let ?r = "\<lambda>(wr, wb). output_range ni nr B tile acc SR SB wr wb"
  let ?ok = "\<lambda>(wr, wb). share nr SR wr < share nr SR (wr + 1) \<and> slice_start B SB wb < slice_end B SB wb"
  define ps where "ps = filter ?ok (List.product [0..<SR] [0..<SB])"
  have rs: "?rs = map ?r ps" unfolding ps_def by (rule output_ranges_map)
  have ps: "distinct ps" "(wr, wb) \<in> set ps \<longleftrightarrow> wr < SR \<and> wb < SB \<and> ?ok (wr, wb)" for wr wb
    unfolding ps_def by (auto simp: distinct_product)
  have mono: "slice_bound B SB a \<le> slice_bound B SB b" if "a \<le> b" "b \<le> SB" for a b by (rule slice_bounds(5) [OF SB that])
  note sl = slice_bounds(3,4) [OF SB]
  have place: "share nr SR wr \<le> p div B \<and> p div B < share nr SR (wr + 1) \<and>
      slice_bound B SB wb \<le> p mod B \<and> p mod B < slice_bound B SB (wb + 1)"
    if "(wr, wb) \<in> set ps" "range_owns (output_range ni nr B tile acc SR SB wr wb) b p" for wr wb b p
  proof -
    from that(2) obtain k where k: "k < share nr SR (wr + 1) - share nr SR wr"
      "(share nr SR wr + k) * B + slice_start B SB wb \<le> p"
      "p < (share nr SR wr + k) * B + slice_start B SB wb + (slice_end B SB wb - slice_start B SB wb)"
      by (auto simp: range_owns_def covers_def output_range_facts output_blocks [OF B])
    have wb: "wb < SB" "slice_start B SB wb < slice_end B SB wb" using that(1) ps(2) by auto
    have "slice_end B SB wb \<le> B" using mono [of "wb + 1" SB] wb(1) sl(2) slice_bounds(2) [OF SB] by simp
    moreover define w where "w = p - (share nr SR wr + k) * B"
    ultimately have w: "p = (share nr SR wr + k) * B + w" "w < B" "slice_start B SB wb \<le> w" "w < slice_end B SB wb"
      using k wb(2) by (auto simp: w_def)
    then have "p div B = share nr SR wr + k" "p mod B = w" by simp_all
    then show ?thesis using k(1) w sl wb(1) by simp
  qed
  obtain wr wb where 1: "ps ! t = (wr, wb)" by fastforce
  obtain wr' wb' where 2: "ps ! t' = (wr', wb')" by fastforce
  have in_ps: "(wr, wb) \<in> set ps" "(wr', wb') \<in> set ps" using t 1 2 nth_mem by (metis length_map rs)+
  have "range_owns (output_range ni nr B tile acc SR SB wr wb) b p" "range_owns (output_range ni nr B tile acc SR SB wr' wb') b p"
    using o t 1 2 by (simp_all add: rs)
  note pl = place [OF in_ps(1) this(1)] place [OF in_ps(2) this(2)]
  have "wr = wr'" by (rule interval_unique [of SR "share nr SR" wr "p div B" wr'])
    (use pl in_ps ps(2) share_mono in auto)
  moreover have "wb = wb'" by (rule interval_unique [of SB "slice_bound B SB" wb "p mod B" wb'])
    (use pl in_ps ps(2) mono in auto)
  ultimately show ?thesis using 1 2 t nth_eq_iff_index_eq [OF ps(1), of t t'] by (simp add: rs)
qed

lemma output_threads:
  assumes g: "dispatch_ok g" and KG: "0 < K" "0 < G" and B: "0 < B" and SR: "0 < SR" and SB: "0 < SB"
    and len: "length inputs = ni * B" "length coeff = nr * ni" "length recovery = nr * B"
    and sched: "interleave_threads schedule (map (worker_ops K G coeff) (output_ranges ni nr B tile acc SR SB)) = Some seq"
  shows "recovers inputs coeff ni nr B acc recovery (run_ops g inputs coeff seq [recovery] ! 0)"
proof -
  let ?rs = "output_ranges ni nr B tile acc SR SB"
  let ?r = "\<lambda>(wr, wb). output_range ni nr B tile acc SR SB wr wb"
  let ?ok = "\<lambda>(wr, wb). share nr SR wr < share nr SR (wr + 1) \<and> slice_start B SB wb < slice_end B SB wb"
  define ps where "ps = filter ?ok (List.product [0..<SR] [0..<SB])"
  have rs: "?rs = map ?r ps" unfolding ps_def by (rule output_ranges_map)
  have ps: "distinct ps" "(wr, wb) \<in> set ps \<longleftrightarrow> wr < SR \<and> wb < SB \<and> ?ok (wr, wb)" for wr wb
    unfolding ps_def by (auto simp: distinct_product)
  have ok: "range_ok (map length [recovery]) (length inputs) (length coeff) r" if r: "r \<in> set ?rs" for r
  proof -
    obtain wr wb where "(wr, wb) \<in> set ps" "r = output_range ni nr B tile acc SR SB wr wb" using r by (auto simp: rs)
    then show ?thesis using output_range_ok [OF len(1,2) B, of wr SR wb SB] ps(2) len(3) by simp
  qed
  note own = output_ranges_apart [OF B SB]
  have mono: "slice_bound B SB a \<le> slice_bound B SB b" if "a \<le> b" "b \<le> SB" for a b by (rule slice_bounds(5) [OF SB that])
  note sl = slice_bounds(3,4) [OF SB]
  note th = threads_result [where K = "\<lambda>_. K" and G = "\<lambda>_. G", OF g _ ok own sched]
  have "Gf (run_ops g inputs coeff seq [recovery] ! 0 ! (i * B + w)) = recovered inputs coeff ni B acc recovery i w"
    if i: "i < nr" and w: "w < B" for i w
  proof -
    obtain wr where wr: "wr < SR" "share nr SR wr \<le> i" "i < share nr SR (wr + 1)"
      using interval_exists [of "share nr SR" i SR] i share_ends [where whole = nr and n = SR] SR by auto
    obtain wb where wb: "wb < SB" "slice_bound B SB wb \<le> w" "w < slice_bound B SB (wb + 1)"
      using interval_exists [of "slice_bound B SB" w SB] w slice_bounds(1,2) [OF SB] by auto
    let ?q = "output_range ni nr B tile acc SR SB wr wb"
    have "(wr, wb) \<in> set ps" using wr wb sl ps(2) by simp
    then have mem: "?q \<in> set ?rs" by (force simp: rs)
    let ?k = "i - share nr SR wr" and ?w = "w - slice_start B SB wb"
    have idx: "out_block ?q ?k + ?w = i * B + w" "share nr SR wr * ni + ?k * ni = i * ni"
      using wr wb sl by (simp_all add: output_blocks [OF B] algebra_simps flip: add_mult_distrib)
    have src: "in_block ?q j + ?w = j * B + w" for j using wb sl by (simp add: output_blocks [OF B])
    have "?k < num_out ?q" "?w < block_size64 ?q" using wr wb sl by (simp_all add: output_range_facts)
    then have "Gf (run_ops g inputs coeff seq [recovery] ! 0 ! (i * B + w)) =
        (if acc then Gf (recovery ! (i * B + w)) else 0) + (\<Sum>j<ni. range_product inputs coeff ?q ?k ?w j)"
      using th(2) [where r = ?q and k = ?k and w = ?w] mem KG unfolding idx output_range_facts by simp
    also have "\<dots> = recovered inputs coeff ni B acc recovery i w"
      by (simp add: recovered_def range_product_def src output_range_facts idx(2))
    finally show ?thesis .
  qed
  moreover have "map length (run_ops g inputs coeff seq [recovery]) = map length [recovery]"
    by (rule threads_result(1) [where K = "\<lambda>_. K" and G = "\<lambda>_. G", OF g _ ok _ sched]) (use KG own in blast)+
  then have "length (run_ops g inputs coeff seq [recovery] ! 0) = nr * B" using len(3) by auto
  ultimately show ?thesis by (simp add: recovers_def)
qed

section \<open>The programs are short enough for a fair schedule\<close>

lemma length_strided: "length (strided a b step) \<le> b - a"
proof (induction a b step rule: strided.induct)
  case (1 a b step)
  then show ?case by (subst strided.simps) auto
qed

lemma length_tile_ops: "length (tile_ops r outs cb G a b) \<le> b - a"
  using length_strided by (simp add: tile_ops_def)

lemma sum_list_strided:
  assumes "0 < step"
  shows "(\<Sum>s\<leftarrow>strided a b step. (min (s + step) b - s) * c) = (b - a) * (c :: nat)"
  using sum_strided [OF assms, where F = "\<lambda>_. c" and a = a and b = b] by simp

lemma length_process_out:
  assumes "s < num_out r" "0 < K"
  shows "length (process_out K G r s) \<le> (min (s + K) (num_out r) - s) * (1 + num_in r)"
proof -
  let ?outs = "map (\<lambda>k_local. out_block r (s + k_local)) [0..<min K (num_out r - s)]"
  let ?cb = "coeff_row_start r + s * coeff_stride r"
  have tiles: "length (concat (map (\<lambda>j. tile_ops r ?outs ?cb G j (min (j + tile_size r) (num_in r))) js)) \<le>
      (\<Sum>j\<leftarrow>js. (min (j + tile_size r) (num_in r) - j) * 1)" for js
    using length_tile_ops [of r ?outs ?cb G] by (induction js) (auto intro: add_mono)
  have "length (concat (map (\<lambda>j. tile_ops r ?outs ?cb G j (min (j + tile_size r) (num_in r)))
      (strided 0 (num_in r) (tile_size r)))) \<le> num_in r" if "tile_size r \<noteq> 0"
    using tiles [of "strided 0 (num_in r) (tile_size r)"] sum_list_strided [where step = "tile_size r" and a = 0 and b = "num_in r" and c = 1] that by simp
  moreover have "length (tile_ops r ?outs ?cb G 0 (num_in r)) \<le> num_in r" using length_tile_ops [of r ?outs ?cb G 0] by simp
  ultimately have "length (process_out K G r s) \<le> min K (num_out r - s) + num_in r" by (auto simp: process_out_def Let_def)
  moreover have "min K (num_out r - s) = min (s + K) (num_out r) - s" "1 \<le> min K (num_out r - s)" using assms by auto
  then have "min K (num_out r - s) + num_in r \<le> (min (s + K) (num_out r) - s) * (1 + num_in r)"
    by (cases "min (s + K) (num_out r) - s") simp_all
  ultimately show ?thesis by linarith
qed

lemma length_worker_ops:
  assumes "0 < K"
  shows "length (worker_ops K G coeff r) \<le> (num_out r + 1) * (num_in r + 1)"
proof (cases "total_num_out r \<le> 32")
  case True
  have "length (concat (map (\<lambda>j. let c = coeff ! (coeff_row_start r + j)
      in if c \<noteq> 0 then [Muladd (out_buffer r) (out_start r) (in_block r j) c (block_size64 r)] else []) js)) \<le> length js" for js
    by (induction js) (auto simp: Let_def)
  from this [of "[0..<num_in r]"] show ?thesis using True by (auto simp: worker_ops_def small_r_ops_def)
next
  case False
  define f where "f s = (min (s + K) (num_out r) - s) * (1 + num_in r)" for s
  have "length (concat (map (process_out K G r) ss)) \<le> (\<Sum>s\<leftarrow>ss. f s)"
    if "\<forall>s\<in>set ss. s < num_out r" for ss
    using that length_process_out [OF _ assms, of _ r G, folded f_def] by (induction ss) (auto intro!: add_mono)
  moreover have "\<forall>s\<in>set (strided 0 (num_out r) K). s < num_out r" using strided_range by blast
  moreover have "(\<Sum>s\<leftarrow>strided 0 (num_out r) K. f s) = num_out r * (1 + num_in r)"
    using sum_list_strided [OF assms, where a = 0 and b = "num_out r" and c = "1 + num_in r"] by (simp add: f_def)
  ultimately have "length (concat (map (process_out K G r) (strided 0 (num_out r) K))) \<le> num_out r * (1 + num_in r)"
    by metis
  then show ?thesis using False by (simp add: worker_ops_def)
qed

section \<open>The entry points return the product\<close>

text \<open>Every thread of the call gets enough turns: \<open>n\<close> threads, \<open>m\<close> turns each.\<close>

definition fair_threads :: "nat \<Rightarrow> nat \<Rightarrow> nat list \<Rightarrow> bool" where
  "fair_threads n m schedule \<longleftrightarrow> (\<forall>t<n. m \<le> count_list schedule t)"

lemma thread_count_ok:
  assumes "engine_ok g" "dispatch_ok g"
  shows "\<exists>n g'. thread_count getenv p numThreads g = (n, g') \<and> engine_ok g' \<and> dispatch_ok g' \<and> same_engine g g' \<and>
    inverse_batch_null g' = inverse_batch_null g \<and> 1 \<le> n \<and> n \<le> max numThreads 128 \<and> (0 < numThreads \<longrightarrow> n = numThreads)"
proof (cases "numThreads \<le> 0")
  case True
  obtain n g1 where c: "GetEffectiveCpuCount getenv p g = (n, g1)" by fastforce
  have "dispatch_ok g1" "inverse_batch_null g1 = inverse_batch_null g"
    using c assms(2) by (auto simp: GetEffectiveCpuCount_def Let_def dispatch_ok_engine_frame split: option.splits if_splits)
  then show ?thesis using effective_cpu_count_range [OF assms(1) c] True c by (auto simp: thread_count_def Let_def)
next
  case False
  then show ?thesis using assms by (auto simp: thread_count_def same_engine_def)
qed

lemma workload_setup:
  assumes "engine_ok g" "dispatch_ok g"
  shows "\<exists>chosen g1 g2. gf64_method_for_workload getenv hosts a b c g = Some (chosen, g1) \<and>
    gf64_apply_method h chosen g1 = Some g2 \<and> engine_ok g2 \<and> dispatch_ok g2 \<and> same_engine g g2 \<and>
    inverse_batch_null g2 = inverse_batch_null g"
proof -
  obtain chosen g1 where 1: "gf64_method_for_workload getenv hosts a b c g = Some (chosen, g1)" "dispatch_ok g1"
    using workload_total [OF assms(2), of getenv hosts a b c] by blast
  then obtain g2 where 2: "gf64_apply_method h chosen g1 = Some g2" "dispatch_ok g2"
    using apply_total [of g1 h chosen] by (auto simp: dispatch_ok_def)
  have more: "gf64_globals.more g2 = gf64_globals.more g"
    using method_for_workload_more [OF 1(1)] apply_method_more [OF 2(1)] by simp
  show ?thesis
    using 1 2 engine_ok_more [OF assms(1) 2(2) more] same_engine_more [OF more] engine_fields_more(1) [OF more] by blast
qed

text \<open>Running the threads of a decomposition.\<close>

lemma run_threads_result:
  assumes "engine_ok g" "dispatch_ok g" "run_threads world inputs coeff ranges bufs g = Some (bufs', g')"
  obtains K G seq where "0 < K" "0 < G" "dispatch_ok g'" "engine_ok g'" "same_engine g g'"
    "interleave_threads (w_schedule world) (map (worker_ops K G coeff) ranges) = Some seq"
    "bufs' = run_ops g' inputs coeff seq bufs"
    "s_last_decomposition_path g' = s_last_decomposition_path g"
    "ranges \<noteq> [] \<Longrightarrow> \<not> inverse_batch_null g'" "ranges = [] \<Longrightarrow> g' = g"
proof (cases "ranges = []")
  case True
  then have "interleave_threads (w_schedule world) (map (worker_ops 1 1 coeff) ranges) = Some []"
    "bufs' = run_ops g inputs coeff [] bufs" "g' = g"
  proof -
    have "interleave_threads sch ([] :: region_op list list) = Some []" for sch by (induction sch) simp_all
    then show "interleave_threads (w_schedule world) (map (worker_ops 1 1 coeff) ranges) = Some []"
      "bufs' = run_ops g inputs coeff [] bufs" "g' = g" using assms(3) True by (auto simp: run_threads_def)
  qed
  then show ?thesis using that [of 1 1 "[]"] assms(1,2) True by (simp add: same_engine_def)
next
  case False
  obtain K G g1 where w: "start_workers (w_getenv world) (w_hosts world 1) coeff ranges g = Some (map (worker_ops K G coeff) ranges, g1)"
    "1 \<le> K" "1 \<le> G" "engine_ok g1" "dispatch_ok g1" "same_engine g g1" "s_last_decomposition_path g1 = s_last_decomposition_path g"
    "\<not> inverse_batch_null g1"
    using start_workers_ok [OF assms(1) False, of "w_getenv world" "w_hosts world 1" coeff] by blast
  then obtain seq where "interleave_threads (w_schedule world) (map (worker_ops K G coeff) ranges) = Some seq"
    "bufs' = run_ops g1 inputs coeff seq bufs" "g' = g1"
    using assms(3) by (auto simp: run_threads_def bind_eq_Some_conv)
  then show ?thesis using that [of K G seq] w False by simp
qed

lemma run_threads_ends:
  assumes "engine_ok g" "dispatch_ok g" "fair_threads n ((nr + 1) * (ni + 1)) (w_schedule world)" "length ranges \<le> n"
    "\<And>r. r \<in> set ranges \<Longrightarrow> num_out r \<le> nr \<and> num_in r \<le> ni"
  shows "\<exists>bufs' g'. run_threads world inputs coeff ranges bufs g = Some (bufs', g')"
proof -
  obtain K G g1 where w: "start_workers (w_getenv world) (w_hosts world 1) coeff ranges g = Some (map (worker_ops K G coeff) ranges, g1)"
    "1 \<le> K"
  proof (cases "ranges = []")
    case True
    then show ?thesis using that [of 1 1 g] by simp
  next
    case False
    then show ?thesis using that start_workers_ok [OF assms(1) False, of "w_getenv world" "w_hosts world 1" coeff] by blast
  qed
  have "length (worker_ops K G coeff (ranges ! t)) \<le> count_list (w_schedule world) t" if "t < length ranges" for t
  proof -
    have "length (worker_ops K G coeff (ranges ! t)) \<le> (num_out (ranges ! t) + 1) * (num_in (ranges ! t) + 1)"
      by (rule length_worker_ops) (use w(2) in simp)
    also have "\<dots> \<le> (nr + 1) * (ni + 1)" using assms(5) [of "ranges ! t"] that by (intro mult_le_mono) simp_all
    also have "\<dots> \<le> count_list (w_schedule world) t" using assms(3,4) that by (simp add: fair_threads_def)
    finally show ?thesis .
  qed
  then obtain seq where "interleave_threads (w_schedule world) (map (worker_ops K G coeff) ranges) = Some seq"
    using interleave_ends [of "map (worker_ops K G coeff) ranges" "w_schedule world"] by auto
  then show ?thesis using w(1) by (simp add: run_threads_def)
qed

lemma block_shares_pos:
  assumes "block_shares nr B nt = (SR, SB)"
  shows "0 < SR" "0 < SB" "1 \<le> nt \<Longrightarrow> SR * SB \<le> nat nt" "SR \<le> max 1 nr"
proof -
  show "0 < SR" "0 < SB" using assms by (auto simp: block_shares_def Let_def split: if_splits)
  show "SR \<le> max 1 nr" using assms by (auto simp: block_shares_def Let_def split: if_splits)
  define SR0 where "SR0 = (if min (nat nt) nr = 0 then 1 else min (nat nt) nr)"
  have "SR = SR0" "SB \<le> max 1 (nat nt div SR)" using assms
    by (auto simp: block_shares_def Let_def SR0_def split: if_splits)
  moreover assume "1 \<le> nt"
  ultimately have le: "SR \<le> nat nt" "SB \<le> max 1 (nat nt div SR)" by (simp_all add: SR0_def min_def)
  have "SR * max 1 (nat nt div SR) \<le> nat nt"
  proof (cases "nat nt div SR = 0")
    case True
    then show ?thesis using le(1) by simp
  next
    case False
    then have "max 1 (nat nt div SR) = nat nt div SR" by simp
    then show ?thesis by simp
  qed
  with le(2) show "SR * SB \<le> nat nt" by (meson le_trans mult_le_mono2)
qed

lemma input_workers_le: "input_workers getenv ni nr B nt \<le> ni" "input_workers getenv ni nr B nt \<le> nat nt"
  by (auto simp: input_workers_def Let_def)

lemma no_output_ranges: "output_ranges ni nr 0 tile acc SR SB = []"
  by (simp add: output_ranges_map slice_start_def slice_end_def share_def align8_def)

lemma output_ranges_some:
  assumes "0 < B" "0 < SR" "0 < SB" "0 < nr"
  shows "output_ranges ni nr B tile acc SR SB \<noteq> []"
proof -
  obtain wr where wr: "wr < SR" "share nr SR wr \<le> 0" "0 < share nr SR (wr + 1)"
    using interval_exists [of "share nr SR" 0 SR] share_ends [where whole = nr and n = SR] assms by auto
  obtain wb where wb: "wb < SB" "slice_bound B SB wb \<le> 0" "0 < slice_bound B SB (wb + 1)"
    using interval_exists [of "slice_bound B SB" 0 SB] slice_bounds(1,2) [OF assms(3), of B] assms by auto
  have "share nr SR wr < share nr SR (wr + 1)" using wr by linarith
  moreover have "slice_start B SB wb < slice_end B SB wb"
    unfolding slice_bounds(3,4) [OF assms(3) wb(1)] using wb by linarith
  ultimately have "(wr, wb) \<in> set (filter (\<lambda>(wr, wb). share nr SR wr < share nr SR (wr + 1) \<and> slice_start B SB wb < slice_end B SB wb)
      (List.product [0..<SR] [0..<SB]))" using wr(1) wb(1) unfolding set_filter mem_Collect_eq set_product prod.case by (intro conjI SigmaI) (simp_all only: set_upt atLeastLessThan_iff le0)
  then show ?thesis unfolding output_ranges_map by (auto simp only: empty_iff list.set map_is_Nil_conv)
qed

lemma interleave_none: "interleave_threads sch ([] :: region_op list list) = Some []"
  by (induction sch) simp_all

lemma with_coeff_result:
  assumes g: "engine_ok g" "dispatch_ok g"
    and len: "length inputs = ni * B" "length coeff = nr * ni" "length recovery = nr * B"
    and run: "ComputeRecoveryBlocksWithCoeff world inputs ni recovery nr B (Some coeff) numThreads acc g = Some (recovery', g')"
    and pos: "0 < ni" "0 < nr"
  shows "recovers inputs coeff ni nr B acc recovery recovery'" "engine_ok g'" "dispatch_ok g'" "same_engine g g'"
    "inverse_batch_null g \<Longrightarrow> 0 < B \<Longrightarrow> \<not> inverse_batch_null g'" "\<not> inverse_batch_null g \<Longrightarrow> \<not> inverse_batch_null g'"
proof -
  obtain chosen g1 g2 where 1: "gf64_method_for_workload (w_getenv world) (w_hosts world 0) (of_nat ni) (of_nat nr) (of_nat B) g = Some (chosen, g1)"
    "gf64_apply_method (w_hosts world 0 6) chosen g1 = Some g2" "engine_ok g2" "dispatch_ok g2" "same_engine g g2"
    "inverse_batch_null g2 = inverse_batch_null g"
    using workload_setup [OF g] by blast
  obtain nt g3 where 3: "thread_count (w_getenv world) (w_platform world) numThreads g2 = (nt, g3)" "engine_ok g3" "dispatch_ok g3"
    "same_engine g2 g3" "inverse_batch_null g3 = inverse_batch_null g2" "1 \<le> nt"
    using thread_count_ok [OF 1(3,4)] by blast
  define n where "n = input_workers (w_getenv world) ni nr B nt"
  let ?tile = "l3_tile_size (w_platform world) B"
  have same: "same_engine g g'" if "same_engine (g3\<lparr>s_last_decomposition_path := v\<rparr>) g'" for v
    using that 1(5) 3(4) by (simp add: same_engine_def)
  have g4: "engine_ok (g3\<lparr>s_last_decomposition_path := v\<rparr>)" "dispatch_ok (g3\<lparr>s_last_decomposition_path := v\<rparr>)" for v
    using 3 by (simp_all add: engine_ok_frame dispatch_ok_engine_frame)
  have null: "inverse_batch_null (g3\<lparr>s_last_decomposition_path := v\<rparr>) = inverse_batch_null g" for v using 1(6) 3(5) by simp
  have "recovers inputs coeff ni nr B acc recovery recovery' \<and> engine_ok g' \<and> dispatch_ok g' \<and> same_engine g g' \<and>
    (inverse_batch_null g \<longrightarrow> 0 < B \<longrightarrow> \<not> inverse_batch_null g') \<and> (\<not> inverse_batch_null g \<longrightarrow> \<not> inverse_batch_null g')"
  proof (cases "nt = 1")
    case True
    let ?g = "g3\<lparr>s_last_decomposition_path := 1\<rparr>"
    obtain K G g4 where w: "engine_ok g4" "dispatch_ok g4" "same_engine ?g g4" "1 \<le> K" "1 \<le> G" "\<not> inverse_batch_null g4"
      "WorkerThread (w_getenv world) (w_hosts world 1) coeff r ?g = Some (worker_ops K G coeff r, g4)" for r
      using worker_threads_uniform [OF g4(1), where getenv = "w_getenv world" and hosts = "w_hosts world 1" and coeff = coeff] by blast
    then have "g' = g4" "recovery' = run_ops g4 inputs coeff (worker_ops K G coeff (single_range ni nr B ?tile acc)) [recovery] ! 0"
      using run True pos 1(1,2) 3(1) by (auto simp: ComputeRecoveryBlocksWithCoeff_def Let_def)
    then show ?thesis using one_thread [OF w(2) _ _ len, where K = K and G = G and tile = ?tile and acc = acc] w same by simp
  next
    case many: False
    show ?thesis
    proof (cases "\<not> acc \<and> \<not> out_overflow nr B \<and> n > nr \<and> n \<ge> 2 \<and> (\<forall>t\<in>{1..<n}. w_temp_ok world t)")
      case True
      let ?g = "g3\<lparr>s_last_decomposition_path := 2\<rparr>"
      have acc: "acc = False" using True by simp
      obtain bufs where rt: "run_threads world inputs coeff (input_ranges ni nr B ?tile False n)
          (recovery # replicate (n - 1) (replicate (nr * B) 0)) ?g = Some (bufs, g')"
        and rec: "recovery' = fold (\<lambda>t recovery.
             if share ni n (t + 1) > share ni n t then xor_buffer recovery (bufs ! t) (nr * B) else recovery) [1..<n] (bufs ! 0)"
        using run True many pos 1(1,2) 3(1)
        by (auto simp: ComputeRecoveryBlocksWithCoeff_def Let_def bind_eq_Some_conv simp flip: n_def)
      obtain K G seq where s: "0 < K" "0 < G" "dispatch_ok g'" "engine_ok g'" "same_engine ?g g'"
        "interleave_threads (w_schedule world) (map (worker_ops K G coeff) (input_ranges ni nr B ?tile False n)) = Some seq"
        "bufs = run_ops g' inputs coeff seq (recovery # replicate (n - 1) (replicate (nr * B) 0))"
        "input_ranges ni nr B ?tile False n \<noteq> [] \<Longrightarrow> \<not> inverse_batch_null g'"
        by (rule run_threads_result [OF g4 rt]) (rule that; assumption)
      have n: "0 < n" "n \<le> ni" using True input_workers_le(1) by (auto simp: n_def)
      have "input_ranges ni nr B ?tile False n \<noteq> []" using n by (simp add: input_ranges_map)
      then show ?thesis
        using input_threads [OF s(3,1,2) len n s(6)] s same unfolding acc rec s(7) by simp
    next
      case False
      let ?g = "g3\<lparr>s_last_decomposition_path := 3\<rparr>"
      obtain SR SB where sh: "block_shares nr B nt = (SR, SB)" by fastforce
      obtain bufs where rt: "run_threads world inputs coeff (output_ranges ni nr B ?tile acc SR SB) [recovery] ?g = Some (bufs, g')"
        and rec: "recovery' = bufs ! 0"
        using run False many pos 1(1,2) 3(1) sh
        by (auto simp: ComputeRecoveryBlocksWithCoeff_def Let_def bind_eq_Some_conv simp flip: n_def split: if_splits)
      obtain K G seq where s: "0 < K" "0 < G" "dispatch_ok g'" "engine_ok g'" "same_engine ?g g'"
        "interleave_threads (w_schedule world) (map (worker_ops K G coeff) (output_ranges ni nr B ?tile acc SR SB)) = Some seq"
        "bufs = run_ops g' inputs coeff seq [recovery]"
        "output_ranges ni nr B ?tile acc SR SB \<noteq> [] \<Longrightarrow> \<not> inverse_batch_null g'" "output_ranges ni nr B ?tile acc SR SB = [] \<Longrightarrow> g' = ?g"
        by (rule run_threads_result [OF g4 rt]) (rule that; assumption)
      note shp = block_shares_pos [OF sh]
      show ?thesis
      proof (cases "B = 0")
        case True
        then have none: "output_ranges ni nr B ?tile acc SR SB = []" using no_output_ranges by simp
        then have "seq = []" using s(6) interleave_none by simp
        then have "recovery' = recovery" using s(7) rec by (simp add: run_ops_def)
        then show ?thesis using s(3,4,5,9) [unfolded none] same null [of 3] True len(3) by (simp add: recovers_def)
      next
        case False
        then show ?thesis
          using output_threads [OF s(3,1,2) _ shp(1,2) len s(6)] output_ranges_some [OF _ shp(1,2) pos(2)] s(3,4,5,7,8) rec same
          by simp
      qed
    qed
  qed
  then show "recovers inputs coeff ni nr B acc recovery recovery'" "engine_ok g'" "dispatch_ok g'" "same_engine g g'"
    "inverse_batch_null g \<Longrightarrow> 0 < B \<Longrightarrow> \<not> inverse_batch_null g'" "\<not> inverse_batch_null g \<Longrightarrow> \<not> inverse_batch_null g'" by blast+
qed

text \<open>Both decompositions end when every thread gets its turns.\<close>

lemma with_coeff_ends:
  assumes g: "engine_ok g" "dispatch_ok g"
    and fair: "fair_threads (nat (max numThreads 128)) ((nr + 1) * (ni + 1)) (w_schedule world)"
  shows "\<exists>r. ComputeRecoveryBlocksWithCoeff world inputs ni recovery nr B coeff numThreads acc g = Some r"
proof (cases "ni = 0 \<or> nr = 0 \<or> coeff = None")
  case True
  then show ?thesis by (auto simp: ComputeRecoveryBlocksWithCoeff_def)
next
  case False
  then have pos: "0 < ni" "0 < nr" "\<exists>m. coeff = Some m" by auto
  obtain chosen g1 g2 where 1: "gf64_method_for_workload (w_getenv world) (w_hosts world 0) (of_nat ni) (of_nat nr) (of_nat B) g = Some (chosen, g1)"
    "gf64_apply_method (w_hosts world 0 6) chosen g1 = Some g2" "engine_ok g2" "dispatch_ok g2"
    using workload_setup [OF g] by blast
  obtain nt g3 where 3: "thread_count (w_getenv world) (w_platform world) numThreads g2 = (nt, g3)" "engine_ok g3" "dispatch_ok g3"
    "1 \<le> nt" "nt \<le> max numThreads 128"
    using thread_count_ok [OF 1(3,4)] by blast
  define n where "n = input_workers (w_getenv world) ni nr B nt"
  let ?tile = "l3_tile_size (w_platform world) B"
  let ?m = "(nr + 1) * (ni + 1)"
  have g4: "engine_ok (g3\<lparr>s_last_decomposition_path := v\<rparr>)" "dispatch_ok (g3\<lparr>s_last_decomposition_path := v\<rparr>)" for v
    using 3 by (simp_all add: engine_ok_frame dispatch_ok_engine_frame)
  have fair: "fair_threads (nat nt) ?m (w_schedule world)" using fair 3(5) by (auto simp: fair_threads_def)
  show ?thesis
  proof (cases "nt = 1")
    case True
    then show ?thesis
      using worker_threads_uniform [OF g4(1) [of 1], of "w_getenv world" "w_hosts world 1" "the coeff"] pos 1(1,2) 3(1)
      by (auto simp: ComputeRecoveryBlocksWithCoeff_def Let_def)
  next
    case many: False
    show ?thesis
    proof (cases "\<not> acc \<and> \<not> out_overflow nr B \<and> n > nr \<and> n \<ge> 2 \<and> (\<forall>t\<in>{1..<n}. w_temp_ok world t)")
      case True
      let ?rs = "input_ranges ni nr B ?tile False n"
      have n: "0 < n" "n \<le> ni" "n \<le> nat nt" using True input_workers_le by (auto simp: n_def)
      have rs: "?rs = map (input_range ni nr B ?tile False n) [0..<n]" by (rule input_ranges_map [OF n(1,2)])
      have sz: "num_out r \<le> nr \<and> num_in r \<le> ni" if r: "r \<in> set ?rs" for r
      proof -
        obtain t where "t < n" "r = input_range ni nr B ?tile False n t" using r by (auto simp: rs)
        then show ?thesis using share_le [of "t + 1" n ni] by (simp add: input_range_def)
      qed
      have len: "length ?rs \<le> nat nt" using n(3) by (simp add: rs)
      obtain bufs g' where "run_threads world inputs (the coeff) ?rs (recovery # replicate (n - 1) (replicate (nr * B) 0))
          (g3\<lparr>s_last_decomposition_path := 2\<rparr>) = Some (bufs, g')"
        using run_threads_ends [OF g4 fair len sz] by blast
      then show ?thesis using True many pos 1(1,2) 3(1)
        by (simp add: ComputeRecoveryBlocksWithCoeff_def Let_def flip: n_def)
    next
      case False
      obtain SR SB where sh: "block_shares nr B nt = (SR, SB)" by fastforce
      let ?rs = "output_ranges ni nr B ?tile acc SR SB"
      have sz: "num_out r \<le> nr \<and> num_in r \<le> ni" if r: "r \<in> set ?rs" for r
      proof -
        obtain wr wb where "wr < SR" "r = output_range ni nr B ?tile acc SR SB wr wb" using r by (auto simp: output_ranges_map)
        then show ?thesis using share_le [of "wr + 1" SR nr] by (simp add: output_range_facts)
      qed
      have "length ?rs \<le> SR * SB"
        unfolding output_ranges_map length_map by (rule order_trans [OF length_filter_le]) simp
      then have len: "length ?rs \<le> nat nt" using block_shares_pos(3) [OF sh 3(4)] by linarith
      obtain bufs g' where "run_threads world inputs (the coeff) ?rs [recovery] (g3\<lparr>s_last_decomposition_path := 3\<rparr>) = Some (bufs, g')"
        using run_threads_ends [OF g4 fair len sz] by blast
      then show ?thesis using False many pos 1(1,2) 3(1) sh
        by (auto simp: ComputeRecoveryBlocksWithCoeff_def Let_def bind_eq_Some_conv simp flip: n_def)
    qed
  qed
qed

section \<open>The whole call\<close>

lemma cache_ok_same: "same_engine g g' \<Longrightarrow> cache_ok g' = cache_ok g"
  by (simp add: cache_ok_def same_engine_def)

lemma autotune_ok:
  assumes "engine_ok g" "dispatch_ok g"
  shows "\<exists>size g'. AutotuneBlockSize world g = Some (size, g') \<and> engine_ok g' \<and> dispatch_ok g' \<and> same_engine g g' \<and>
    (\<not> inverse_batch_null g \<longrightarrow> \<not> inverse_batch_null g')"
proof -
  obtain on g1 where p: "ParseAutotuneEnv (w_getenv world) g = (on, g1)" by fastforce
  have g1: "engine_ok g1" "dispatch_ok g1" "same_engine g g1" "inverse_batch_null g1 = inverse_batch_null g"
    using assms p by (auto simp: ParseAutotuneEnv_def Let_def engine_ok_frame dispatch_ok_engine_frame same_engine_def split: if_splits)
  obtain g2 where g2: "EnsureDispatch (w_getenv world) (w_hosts world 2) g1 = Some g2" "engine_ok g2" "dispatch_ok g2"
    "same_engine g1 g2" "\<not> inverse_batch_null g2"
    using EnsureDispatch_ok [OF g1(1)] by blast
  have "same_engine g g2" using g1(3) g2(4) by (rule same_engine_trans)
  then show ?thesis using p g1 g2 by (cases "on = 0") (auto simp: AutotuneBlockSize_def Let_def)
qed

text \<open>The state in which the matrix is looked up: the block sizes have been measured once and the threads counted.\<close>

definition recover_from ::
  "world \<Rightarrow> gf64_t list \<Rightarrow> nat \<Rightarrow> gf64_t list \<Rightarrow> nat \<Rightarrow> nat \<Rightarrow> 64 word \<Rightarrow> 64 word \<Rightarrow> int \<Rightarrow> bool \<Rightarrow>
    'a engine_globals_scheme \<Rightarrow> (gf64_t list \<times> 'a engine_globals_scheme) option" where
  "recover_from world inputs ni recovery nr B fi fr nt acc g = do {
     (coeff, g) \<leftarrow> GetOrBuildCoeffMatrix (w_getenv world) (w_platform world) (w_malloc world) (w_tls world)
       (w_build_schedule world) ni nr fi fr g;
     case coeff of None \<Rightarrow> Some (recovery, g)
     | Some matrix \<Rightarrow> ComputeRecoveryBlocksWithCoeff world inputs ni recovery nr B (Some matrix) nt acc g
   }"

lemma recovery_setup:
  assumes "engine_ok g" "dispatch_ok g" "cache_ok g" "0 < ni" "0 < nr"
  shows "\<exists>nt g1. engine_ok g1 \<and> dispatch_ok g1 \<and> cache_ok g1 \<and> coeff_lru g1 = coeff_lru g \<and> 1 \<le> nt \<and>
    nt \<le> max (fenger_threads_override (w_getenv world) numThreads) 128 \<and>
    (\<not> inverse_batch_null g \<longrightarrow> \<not> inverse_batch_null g1) \<and>
    ComputeRecoveryBlocks world inputs ni recovery nr B fi fr numThreads acc g =
      recover_from world inputs ni recovery nr B fi fr nt acc g1"
proof -
  define tuned where "tuned = (case s_autotune_once g of Some _ \<Rightarrow> Some g
    | None \<Rightarrow> do { (size, g) \<leftarrow> AutotuneBlockSize world g; Some (g\<lparr>s_autotune_once := Some size\<rparr>) })"
  obtain g0 where g0: "tuned = Some g0" "engine_ok g0" "dispatch_ok g0" "same_engine g g0"
    "\<not> inverse_batch_null g \<longrightarrow> \<not> inverse_batch_null g0"
  proof (cases "s_autotune_once g")
    case None
    obtain size g' where a: "AutotuneBlockSize world g = Some (size, g')" "engine_ok g'" "dispatch_ok g'" "same_engine g g'"
      "\<not> inverse_batch_null g \<longrightarrow> \<not> inverse_batch_null g'"
      using autotune_ok [OF assms(1,2), of world] by blast
    then have "same_engine g (g'\<lparr>s_autotune_once := Some size\<rparr>)" by (simp add: same_engine_def)
    then show ?thesis using that [of "g'\<lparr>s_autotune_once := Some size\<rparr>"] a None
      by (simp add: tuned_def engine_ok_frame dispatch_ok_engine_frame)
  next
    case (Some v)
    then show ?thesis using that [of g] assms(1,2) by (simp add: tuned_def same_engine_def)
  qed
  obtain nt g1 where 1: "thread_count (w_getenv world) (w_platform world) (fenger_threads_override (w_getenv world) numThreads) g0 = (nt, g1)"
    "engine_ok g1" "dispatch_ok g1" "same_engine g0 g1" "1 \<le> nt" "nt \<le> max (fenger_threads_override (w_getenv world) numThreads) 128"
    "inverse_batch_null g1 = inverse_batch_null g0"
    using thread_count_ok [OF g0(2,3)] by blast
  have same: "same_engine g g1" using g0(4) 1(4) by (rule same_engine_trans)
  have "cache_ok g1" "coeff_lru g1 = coeff_lru g" using cache_ok_same [OF same] assms(3) same by (simp_all add: same_engine_def)
  moreover have "ComputeRecoveryBlocks world inputs ni recovery nr B fi fr numThreads acc g =
      recover_from world inputs ni recovery nr B fi fr nt acc g1"
    using assms(4,5) by (simp add: ComputeRecoveryBlocks_def recover_from_def g0(1) 1(1) flip: tuned_def)
  moreover have "\<not> inverse_batch_null g \<longrightarrow> \<not> inverse_batch_null g1" using g0(5) 1(7) by simp
  ultimately show ?thesis using 1(2,3,5,6) by blast
qed

lemma recovery_blocks_result:
  assumes g: "engine_ok g" "dispatch_ok g" "cache_ok g"
    and malloc: "\<And>n m. w_malloc world n = Some m \<Longrightarrow> length m = n"
    and len: "length inputs = ni * B" "length recovery = nr * B"
    and run: "ComputeRecoveryBlocks world inputs ni recovery nr B fi fr numThreads acc g = Some (recovery', g')"
  defines "key \<equiv> \<lparr>key_numInputs = ni, key_numRecovery = nr, key_firstInput = fi, key_firstRecovery = fr\<rparr>"
  shows "engine_ok g' \<and> dispatch_ok g' \<and> cache_ok g' \<and> (\<not> inverse_batch_null g \<longrightarrow> \<not> inverse_batch_null g') \<and>
    (if ni = 0 \<or> nr = 0 \<or> (w_malloc world (nr * ni) = None \<and> key \<notin> set (coeff_lru g)) then recovery' = recovery
     else recovers inputs (cauchy_matrix ni nr fi fr) ni nr B acc recovery recovery')"
proof (cases "ni = 0 \<or> nr = 0")
  case True
  then show ?thesis using g run by (auto simp: ComputeRecoveryBlocks_def)
next
  case False
  obtain nt g1 where s: "engine_ok g1" "dispatch_ok g1" "cache_ok g1" "coeff_lru g1 = coeff_lru g"
    "\<not> inverse_batch_null g \<longrightarrow> \<not> inverse_batch_null g1"
    and eq: "ComputeRecoveryBlocks world inputs ni recovery nr B fi fr numThreads acc g =
      recover_from world inputs ni recovery nr B fi fr nt acc g1"
    using recovery_setup [OF g _ _, of ni nr world numThreads inputs recovery B fi fr acc] False by blast
  obtain r g2 where look: "GetOrBuildCoeffMatrix (w_getenv world) (w_platform world) (w_malloc world) (w_tls world)
          (w_build_schedule world) ni nr fi fr g1 = Some (r, g2)"
    and rest: "(case r of None \<Rightarrow> Some (recovery, g2)
        | Some matrix \<Rightarrow> ComputeRecoveryBlocksWithCoeff world inputs ni recovery nr B (Some matrix) nt acc g2) = Some (recovery', g')"
    using run eq by (auto simp: recover_from_def bind_eq_Some_conv)
  note lk = get_or_build_result [OF s(1,2,3) malloc look]
  show ?thesis
  proof (cases r)
    case None
    then show ?thesis using lk rest False s by (simp add: key_def)
  next
    case (Some m)
    then have m: "m = cauchy_matrix ni nr fi fr" "engine_ok g2" "dispatch_ok g2" "cache_ok g2"
      "inverse_batch_null g2 = inverse_batch_null g1" using lk by simp_all
    have known: "\<not> (w_malloc world (nr * ni) = None \<and> key \<notin> set (coeff_lru g))"
    proof
      assume *: "w_malloc world (nr * ni) = None \<and> key \<notin> set (coeff_lru g)"
      then have "map_of (coeff_map g1) key = None" using s(3,4) by (simp add: cache_ok_def map_of_eq_None_iff)
      then show False using look Some * by (simp add: GetOrBuildCoeffMatrix_def Let_def key_def)
    qed
    have wc: "ComputeRecoveryBlocksWithCoeff world inputs ni recovery nr B (Some m) nt acc g2 = Some (recovery', g')"
      using rest Some by simp
    have lm: "length m = nr * ni" by (simp add: m(1))
    note res = with_coeff_result [OF m(2,3) len(1) lm len(2) wc]
    show ?thesis using res(1-4,6) False known cache_ok_same [of g2 g'] m(1,4,5) s(5) by auto
  qed
qed

lemma recovery_blocks_end:
  assumes g: "engine_ok g" "dispatch_ok g" "cache_ok g"
    and malloc: "\<And>n m. w_malloc world n = Some m \<Longrightarrow> length m = n"
    and fair: "fair_schedule nr 8 (w_build_schedule world)"
      "fair_threads (nat (max (fenger_threads_override (w_getenv world) numThreads) 128)) ((nr + 1) * (ni + 1)) (w_schedule world)"
  shows "\<exists>r. ComputeRecoveryBlocks world inputs ni recovery nr B fi fr numThreads acc g = Some r"
proof (cases "ni = 0 \<or> nr = 0")
  case True
  then show ?thesis by (auto simp: ComputeRecoveryBlocks_def)
next
  case False
  obtain nt g1 where s: "engine_ok g1" "dispatch_ok g1" "cache_ok g1"
    "nt \<le> max (fenger_threads_override (w_getenv world) numThreads) 128"
    and eq: "ComputeRecoveryBlocks world inputs ni recovery nr B fi fr numThreads acc g =
      recover_from world inputs ni recovery nr B fi fr nt acc g1"
    using recovery_setup [OF g _ _, of ni nr world numThreads inputs recovery B fi fr acc] False by blast
  obtain r g2 where look: "GetOrBuildCoeffMatrix (w_getenv world) (w_platform world) (w_malloc world) (w_tls world)
          (w_build_schedule world) ni nr fi fr g1 = Some (r, g2)"
    using get_or_build_ends [OF s(1,2) fair(1)] by blast
  have g2: "engine_ok g2" "dispatch_ok g2" using get_or_build_result [OF s(1,2,3) malloc look] by simp_all
  have "fair_threads (nat (max nt 128)) ((nr + 1) * (ni + 1)) (w_schedule world)"
    using fair(2) s(4) by (auto simp: fair_threads_def)
  from with_coeff_ends [OF g2 this] show ?thesis using look eq by (cases r) (simp_all add: recover_from_def)
qed

section \<open>The single-threaded reference\<close>

lemma single_output_fold:
  assumes "dispatch_ok g" "length inp = ni * B" "n \<le> ni"
  shows "length (fold (\<lambda>j out. gf64_region_muladd_arr g out (block inp (j * B) B) [row ! j] B 1) [0..<n] (replicate B 0)) = B \<and>
    (\<forall>w<B. Gf (fold (\<lambda>j out. gf64_region_muladd_arr g out (block inp (j * B) B) [row ! j] B 1) [0..<n] (replicate B 0) ! w) =
      (\<Sum>j<n. Gf (inp ! (j * B + w)) * Gf (row ! j)))"
  using assms(3)
proof (induction n)
  case (Suc n)
  then have IH: "length (fold (\<lambda>j out. gf64_region_muladd_arr g out (block inp (j * B) B) [row ! j] B 1) [0..<n] (replicate B 0)) = B"
    "\<And>w. w < B \<Longrightarrow> Gf (fold (\<lambda>j out. gf64_region_muladd_arr g out (block inp (j * B) B) [row ! j] B 1) [0..<n] (replicate B 0) ! w) =
      (\<Sum>j<n. Gf (inp ! (j * B + w)) * Gf (row ! j))" and n: "n < ni" by auto
  show ?case
    using IH row_block [OF assms(2) n] by (auto simp: dispatched_muladd [OF assms(1)] acc_row_def Gf_xor)
qed simp

lemma multiply_accumulate_result:
  assumes "engine_ok g" "length inp = ni * B" "length coeff = nr * ni" "length out = nr * B"
  shows "\<exists>out' g'. MultiplyAccumulate getenv hosts out nr inp ni coeff B g = Some (out', g') \<and>
    recovers inp coeff ni nr B False out out' \<and> engine_ok g' \<and> same_engine g g'"
proof -
  obtain g1 where g1: "EnsureDispatch getenv hosts g = Some g1" "engine_ok g1" "dispatch_ok g1" "same_engine g g1"
    using EnsureDispatch_ok [OF assms(1)] by blast
  define row where "row k = muladd_single_output g1 (block out (k * B) B) inp (drop (k * ni) coeff) ni B" for k
  define step where "step k out = put_block out (k * B) (muladd_single_output g1 (block out (k * B) B) inp (drop (k * ni) coeff) ni B)" for k out
  have vals: "length (muladd_single_output g1 o' inp (drop (k * ni) coeff) ni B) = B"
    "w < B \<Longrightarrow> Gf (muladd_single_output g1 o' inp (drop (k * ni) coeff) ni B ! w) = recovered inp coeff ni B False out k w"
    if "k < nr" for k w o'
  proof -
    have "(drop (k * ni) coeff) ! j = coeff ! (k * ni + j)" if "j < ni" for j
      using flat_less [OF \<open>k < nr\<close> that] assms(3) \<open>k < nr\<close> by (intro nth_drop) simp
    then show "length (muladd_single_output g1 o' inp (drop (k * ni) coeff) ni B) = B"
      "w < B \<Longrightarrow> Gf (muladd_single_output g1 o' inp (drop (k * ni) coeff) ni B ! w) = recovered inp coeff ni B False out k w"
      using single_output_fold [OF g1(3) assms(2) order.refl, of "drop (k * ni) coeff"]
      by (auto simp: muladd_single_output_def recovered_def intro!: sum.cong)
  qed
  have "length (fold step [0..<n] out) = nr * B \<and>
    (\<forall>k<n. \<forall>w<B. Gf (fold step [0..<n] out ! (k * B + w)) = recovered inp coeff ni B False out k w)" if "n \<le> nr" for n
    using that
  proof (induction n)
    case 0
    then show ?case using assms(4) by simp
  next
    case (Suc n)
    then have IH: "length (fold step [0..<n] out) = nr * B"
      "\<And>k w. k < n \<Longrightarrow> w < B \<Longrightarrow> Gf (fold step [0..<n] out ! (k * B + w)) = recovered inp coeff ni B False out k w"
      and n: "n < nr" by auto
    note put = put_row [OF IH(1) n vals(1) [OF n]]
    have "length (fold step [0..<Suc n] out) = nr * B" using put(1) by (simp add: step_def)
    moreover have "Gf (fold step [0..<Suc n] out ! (k * B + w)) = recovered inp coeff ni B False out k w" if "k < Suc n" "w < B" for k w
      using put(2) [of k w] IH(2) [of k w] vals(2) [OF n, of w] that n by (auto simp: step_def)
    ultimately show ?case by blast
  qed
  from this [of nr] have "recovers inp coeff ni nr B False out (fold step [0..<nr] out)" by (simp add: recovers_def)
  then show ?thesis using g1 by (auto simp: MultiplyAccumulate_def step_def [abs_def])
qed

text \<open>The words of a product are determined.\<close>

lemma recovers_unique:
  assumes "recovers inputs coeff ni nr B acc old new" "recovers inputs coeff ni nr B acc old new'"
  shows "new' = new"
proof (rule nth_equalityI)
  show "length new' = length new" using assms by (simp add: recovers_def)
  fix p assume "p < length new'"
  then have p: "p < nr * B" using assms by (simp add: recovers_def)
  then have "0 < B" "p div B < nr" by (auto simp: less_mult_imp_div_less intro: gr0I)
  then have "Gf (new' ! (p div B * B + p mod B)) = Gf (new ! (p div B * B + p mod B))"
    using assms unfolding recovers_def by (metis mod_less_divisor)
  then show "new' ! p = new ! p" by simp
qed

end
