(* ===== verification/Engine_Barycentric.thy ===== *)
theory Engine_Barycentric
  imports Engine_Recovery
begin

text \<open>
  The row-by-row kernel of src/par3_engine_barycentric.cc: the denominators of a row, their batch
  inversion, and one multiply-accumulate pass per input, serially or with row-stealing workers. The
  serial scratch is the thread-local pair \<open>denoms_tls\<close>, \<open>coeffs_tls\<close> as earlier calls left it; the order of
  the workers is \<open>w_schedule world\<close>.
\<close>

definition processRow ::
  "'a gf64_globals_scheme \<Rightarrow> gf64_t list \<Rightarrow> nat \<Rightarrow> nat \<Rightarrow> 64 word \<Rightarrow> 64 word \<Rightarrow> bool \<Rightarrow> nat \<Rightarrow>
    (gf64_t list \<times> gf64_t list) \<times> gf64_t list \<Rightarrow> (gf64_t list \<times> gf64_t list) \<times> gf64_t list" where
  "processRow g inputs numInputs B firstInput firstRecovery accumulate r = (\<lambda>((denoms, coeffs), recovery).
    let y = firstRecovery + of_nat r;
        denoms = cauchy_denoms numInputs firstInput y denoms;
        coeffs = (if gf64_has_vpclmulqdq g \<noteq> 0 then gf64_invert_ita_batch coeffs denoms numInputs
                  else gf64_inverse_batch g coeffs denoms numInputs);
        out_row = (if accumulate then block recovery (r * B) B else replicate B 0);
        out_row = fold (\<lambda>c out_row. gf64_region_muladd_arr g out_row (block inputs (c * B) B) [coeffs ! c] B 1)
          [0..<numInputs] out_row
    in ((denoms, coeffs), put_block recovery (r * B) out_row))"

definition grown :: "nat \<Rightarrow> gf64_t list \<Rightarrow> gf64_t list" where
  "grown n v = (if length v < n then v @ replicate (n - length v) 0 else v)"

definition ComputeRecoveryBlocksBarycentric ::
  "world \<Rightarrow> gf64_t list \<Rightarrow> gf64_t list \<Rightarrow> gf64_t list \<Rightarrow> nat \<Rightarrow> gf64_t list \<Rightarrow> nat \<Rightarrow> nat \<Rightarrow> 64 word \<Rightarrow> 64 word \<Rightarrow> int \<Rightarrow> bool \<Rightarrow>
    'a engine_globals_scheme \<Rightarrow> (gf64_t list \<times> 'a engine_globals_scheme) option" where
  "ComputeRecoveryBlocksBarycentric world denoms_tls coeffs_tls inputs numInputs recovery numRecovery B firstInput firstRecovery
      numThreads accumulate g =
    (let g = ResetLastDecompositionPath g
     in if numInputs = 0 \<or> numRecovery = 0 \<or> B = 0 then Some (recovery, g)
        else if numRecovery \<le> 32
        then ComputeRecoveryBlocks world inputs numInputs recovery numRecovery B firstInput firstRecovery numThreads accumulate g
        else do {
          g \<leftarrow> gf64_init_dispatch (w_getenv world) (w_hosts world 3) g;
          let g = g\<lparr>inverse_batch_null := False\<rparr>;
          let (n_workers, g) = (if numThreads \<le> 0 then GetEffectiveCpuCount (w_getenv world) (w_platform world) g
            else (nat numThreads, g));
          let n_workers = (if n_workers = 0 then 1 else n_workers);
          let n_workers = (if n_workers > numRecovery then numRecovery else n_workers);
          if n_workers \<le> 1
          then Some (snd (fold (processRow g inputs numInputs B firstInput firstRecovery accumulate) [0..<numRecovery]
            ((grown numInputs denoms_tls, grown numInputs coeffs_tls), recovery)), g)
          else do {
            recovery \<leftarrow> steal_rows numRecovery (processRow g inputs numInputs B firstInput firstRecovery accumulate)
              n_workers (replicate numInputs 0, replicate numInputs 0) (w_schedule world) recovery;
            Some (recovery, g)
          }
        })"

section \<open>A row\<close>

lemma row_fold:
  assumes "dispatch_ok g" "length inp = ni * B" "length out = B" "n \<le> ni"
  shows "length (fold (\<lambda>j out. gf64_region_muladd_arr g out (block inp (j * B) B) [row ! j] B 1) [0..<n] out) = B \<and>
    (\<forall>w<B. Gf (fold (\<lambda>j out. gf64_region_muladd_arr g out (block inp (j * B) B) [row ! j] B 1) [0..<n] out ! w) =
      Gf (out ! w) + (\<Sum>j<n. Gf (inp ! (j * B + w)) * Gf (row ! j)))"
  using assms(4)
proof (induction n)
  case (Suc n)
  then have IH: "length (fold (\<lambda>j out. gf64_region_muladd_arr g out (block inp (j * B) B) [row ! j] B 1) [0..<n] out) = B"
    "\<And>w. w < B \<Longrightarrow> Gf (fold (\<lambda>j out. gf64_region_muladd_arr g out (block inp (j * B) B) [row ! j] B 1) [0..<n] out ! w) =
      Gf (out ! w) + (\<Sum>j<n. Gf (inp ! (j * B + w)) * Gf (row ! j))" and n: "n < ni" by auto
  show ?case
    using IH row_block [OF assms(2) n] by (auto simp: dispatched_muladd [OF assms(1)] acc_row_def Gf_xor add.assoc)
qed (use assms(3) in simp)

text \<open>The rows done so far hold the product; the others are as they were.\<close>

definition recovery_rows ::
  "'a gf64_globals_scheme \<Rightarrow> gf64_t list \<Rightarrow> nat \<Rightarrow> nat \<Rightarrow> nat \<Rightarrow> 64 word \<Rightarrow> 64 word \<Rightarrow> bool \<Rightarrow> gf64_t list \<Rightarrow> nat set \<Rightarrow> gf64_t list \<Rightarrow> bool" where
  "recovery_rows g inputs ni nr B fi fr acc old D M \<longleftrightarrow> dispatch_ok g \<and> length inputs = ni * B \<and> length M = nr * B \<and> D \<subseteq> {0..<nr} \<and>
    (\<forall>r<nr. \<forall>w<B. if r \<in> D then Gf (M ! (r * B + w)) = recovered inputs (cauchy_matrix ni nr fi fr) ni B acc old r w
      else M ! (r * B + w) = old ! (r * B + w))"

interpretation bary: row_stealing nr "processRow g inputs ni B fi fr acc" "recovery_rows g inputs ni nr B fi fr acc old"
    "\<lambda>b :: gf64_t list \<times> gf64_t list. ni \<le> length (fst b) \<and> ni \<le> length (snd b)"
  for nr g inputs ni B fi fr acc old
proof
  fix D M r and b :: "gf64_t list \<times> gf64_t list"
  assume D: "recovery_rows g inputs ni nr B fi fr acc old D M" and r: "r < nr" "r \<notin> D"
    and b: "ni \<le> length (fst b) \<and> ni \<le> length (snd b)"
  obtain denoms coeffs where bd: "b = (denoms, coeffs)" by fastforce
  let ?d = "cauchy_denoms ni fi (fr + of_nat r) denoms"
  define c where "c = (if gf64_has_vpclmulqdq g \<noteq> 0 then gf64_invert_ita_batch coeffs ?d ni else gf64_inverse_batch g coeffs ?d ni)"
  define out where "out = (if acc then block M (r * B) B else replicate B 0)"
  define row where "row = fold (\<lambda>j out. gf64_region_muladd_arr g out (block inputs (j * B) B) [c ! j] B 1) [0..<ni] out"
  have M: "length M = nr * B" "dispatch_ok g" "length inputs = ni * B" using D by (simp_all add: recovery_rows_def)
  have b': "ni \<le> length denoms" "ni \<le> length coeffs" using b bd by simp_all
  have d: "ni \<le> length ?d" using b'(1) by (simp add: cauchy_denoms_eq)
  have cs: "c = map (\<lambda>i. gf64_inverse (?d ! i)) [0..<ni] @ drop ni coeffs"
    unfolding c_def by (rule selected_inverse_batch [OF M(2) b'(2) d])
  have cv: "c ! j = cauchy_matrix ni nr fi fr ! (r * ni + j)" if "j < ni" for j
    using that b' nth_cauchy_matrix [OF r(1) that, of fi fr]
    by (simp add: cs nth_append cauchy_denoms_eq cauchy_coeff_def Let_def)
  have lo: "length out = B" using row_block(1) [OF M(1) r(1)] by (simp add: out_def)
  have ow: "Gf (out ! w) = (if acc then Gf (old ! (r * B + w)) else 0)" if "w < B" for w
    using row_block(2) [OF M(1) r(1) that] D r that by (simp add: out_def recovery_rows_def zero_gf_def [symmetric])
  note rf = row_fold [OF M(2,3) lo order.refl, of c, folded row_def]
  have rw: "Gf (row ! w) = recovered inputs (cauchy_matrix ni nr fi fr) ni B acc old r w" if "w < B" for w
    using rf that ow [OF that] by (simp add: recovered_def cv)
  have step: "processRow g inputs ni B fi fr acc r (b, M) = ((?d, c), put_block M (r * B) row)"
    by (simp add: processRow_def bd c_def row_def out_def Let_def)
  have lr: "length row = B" using rf by simp
  have "recovery_rows g inputs ni nr B fi fr acc old (insert r D) (put_block M (r * B) row)"
    using D r put_row [OF M(1) r(1) lr] rw by (auto simp: recovery_rows_def)
  moreover have "ni \<le> length c" using b'(2) by (simp add: cs)
  ultimately show "recovery_rows g inputs ni nr B fi fr acc old (insert r D) (snd (processRow g inputs ni B fi fr acc r (b, M))) \<and>
      ni \<le> length (fst (fst (processRow g inputs ni B fi fr acc r (b, M)))) \<and> ni \<le> length (snd (fst (processRow g inputs ni B fi fr acc r (b, M))))"
    using d by (simp add: step)
qed

section \<open>The call\<close>

lemma init_dispatch_engine:
  assumes "engine_ok g"
  shows "\<exists>g1. gf64_init_dispatch getenv hosts g = Some g1 \<and> engine_ok (g1\<lparr>inverse_batch_null := False\<rparr>) \<and>
    dispatch_ok (g1\<lparr>inverse_batch_null := False\<rparr>) \<and> same_engine g (g1\<lparr>inverse_batch_null := False\<rparr>)"
proof -
  obtain g1 where 1: "gf64_init_dispatch getenv hosts g = Some g1" "dispatch_ok g1"
    using init_dispatch_ok [where g = g and getenv = getenv and hosts = hosts] assms
    by (auto simp: engine_ok_def weights_state_ok_def)
  note more = engine_fields_more [OF init_dispatch_more [OF 1(1)]]
  let ?g = "g1\<lparr>inverse_batch_null := False\<rparr>"
  have "dispatch_ok ?g" by (intro dispatch_ok_frame 1(2))
  moreover have "engine_ok ?g" using assms calculation more by (auto simp: engine_ok_def weights_state_ok_def dispatch_ok_def)
  moreover have "same_engine g ?g" using more by (simp add: same_engine_def)
  ultimately show ?thesis using 1(1) by blast
qed

text \<open>The state after the initialisation and the count of the workers.\<close>

definition barycentric_from ::
  "world \<Rightarrow> gf64_t list \<Rightarrow> gf64_t list \<Rightarrow> gf64_t list \<Rightarrow> nat \<Rightarrow> gf64_t list \<Rightarrow> nat \<Rightarrow> nat \<Rightarrow> 64 word \<Rightarrow> 64 word \<Rightarrow> bool \<Rightarrow> nat \<Rightarrow>
    'a engine_globals_scheme \<Rightarrow> (gf64_t list \<times> 'a engine_globals_scheme) option" where
  "barycentric_from world denoms_tls coeffs_tls inputs ni recovery nr B fi fr acc n g =
    (if n \<le> 1
     then Some (snd (fold (processRow g inputs ni B fi fr acc) [0..<nr]
       ((grown ni denoms_tls, grown ni coeffs_tls), recovery)), g)
     else do {
       recovery \<leftarrow> steal_rows nr (processRow g inputs ni B fi fr acc) n
         (replicate ni 0, replicate ni 0) (w_schedule world) recovery;
       Some (recovery, g)
     })"

lemma barycentric_setup:
  assumes "engine_ok g" "cache_ok g" "0 < ni" "32 < nr" "0 < B"
  shows "\<exists>n g1. engine_ok g1 \<and> dispatch_ok g1 \<and> cache_ok g1 \<and> \<not> inverse_batch_null g1 \<and> 1 \<le> n \<and> n \<le> nr \<and> n \<le> nat (max numThreads 128) \<and>
    ComputeRecoveryBlocksBarycentric world denoms_tls coeffs_tls inputs ni recovery nr B fi fr numThreads acc g =
      barycentric_from world denoms_tls coeffs_tls inputs ni recovery nr B fi fr acc n g1"
proof -
  let ?r = "ResetLastDecompositionPath g"
  have r: "engine_ok ?r" "same_engine g ?r" using assms(1) by (simp_all add: ResetLastDecompositionPath_def engine_ok_frame same_engine_def)
  obtain g0 where g0: "gf64_init_dispatch (w_getenv world) (w_hosts world 3) ?r = Some g0"
    "engine_ok (g0\<lparr>inverse_batch_null := False\<rparr>)" "dispatch_ok (g0\<lparr>inverse_batch_null := False\<rparr>)"
    "same_engine ?r (g0\<lparr>inverse_batch_null := False\<rparr>)"
    using init_dispatch_engine [OF r(1)] by blast
  let ?g = "g0\<lparr>inverse_batch_null := False\<rparr>"
  obtain m g1 where c: "(if numThreads \<le> 0 then GetEffectiveCpuCount (w_getenv world) (w_platform world) ?g
            else (nat numThreads, ?g)) = (m, g1)" by fastforce
  have m: "1 \<le> m \<and> m \<le> nat (max numThreads 128) \<and> engine_ok g1 \<and> dispatch_ok g1 \<and> same_engine ?g g1 \<and> \<not> inverse_batch_null g1"
  proof (cases "numThreads \<le> 0")
    case True
    then have c': "GetEffectiveCpuCount (w_getenv world) (w_platform world) ?g = (m, g1)" using c by simp
    moreover have "dispatch_ok g1" "\<not> inverse_batch_null g1"
      using c' g0(3) by (auto simp: GetEffectiveCpuCount_def Let_def dispatch_ok_engine_frame split: option.splits if_splits)
    ultimately show ?thesis using effective_cpu_count_range [OF g0(2) c'] by simp
  next
    case False
    then show ?thesis using c g0 by (auto simp: same_engine_def)
  qed
  define n where "n = (if m > nr then nr else m)"
  have "cache_ok g1" using m r(2) g0(4) assms(2) cache_ok_same same_engine_trans by blast
  moreover have "1 \<le> n" "n \<le> nr" "n \<le> nat (max numThreads 128)" using m assms(4) by (auto simp: n_def)
  moreover have "ComputeRecoveryBlocksBarycentric world denoms_tls coeffs_tls inputs ni recovery nr B fi fr numThreads acc g =
      barycentric_from world denoms_tls coeffs_tls inputs ni recovery nr B fi fr acc n g1"
    using assms(3-5) g0(1) c m by (simp add: ComputeRecoveryBlocksBarycentric_def barycentric_from_def n_def Let_def)
  ultimately show ?thesis using m by blast
qed

lemma barycentric_rows_result:
  assumes "dispatch_ok g" "length inputs = ni * B" "length recovery = nr * B" "1 \<le> n"
    "barycentric_from world denoms_tls coeffs_tls inputs ni recovery nr B fi fr acc n g = Some (recovery', g')"
  shows "recovers inputs (cauchy_matrix ni nr fi fr) ni nr B acc recovery recovery'" "g' = g"
proof -
  have start: "recovery_rows g inputs ni nr B fi fr acc recovery {} recovery" using assms by (simp add: recovery_rows_def)
  show "g' = g" using assms(5) by (auto simp: barycentric_from_def bind_eq_Some_conv split: if_splits)
  have "recovery_rows g inputs ni nr B fi fr acc recovery {0..<nr} recovery'"
  proof (cases "n \<le> 1")
    case True
    then have "recovery' = snd (fold (processRow g inputs ni B fi fr acc) [0..<nr]
       ((grown ni denoms_tls, grown ni coeffs_tls), recovery))" using assms(5) by (auto simp: barycentric_from_def)
    moreover have "ni \<le> length (fst (grown ni denoms_tls, grown ni coeffs_tls)) \<and> ni \<le> length (snd (grown ni denoms_tls, grown ni coeffs_tls))"
      by (simp add: grown_def)
    ultimately show ?thesis using bary.serial_rows_done [OF start] by metis
  next
    case False
    then have "steal_rows nr (processRow g inputs ni B fi fr acc) n (replicate ni 0, replicate ni 0) (w_schedule world) recovery = Some recovery'"
      using assms(5) by (auto simp: barycentric_from_def bind_eq_Some_conv)
    moreover have "ni \<le> length (fst (replicate ni (0 :: gf64_t), replicate ni (0 :: gf64_t))) \<and>
        ni \<le> length (snd (replicate ni (0 :: gf64_t), replicate ni (0 :: gf64_t)))" by simp
    moreover have "0 < n" using assms(4) by simp
    ultimately show ?thesis using bary.all_rows_done [OF start] by blast
  qed
  then show "recovers inputs (cauchy_matrix ni nr fi fr) ni nr B acc recovery recovery'"
    by (simp add: recovery_rows_def recovers_def)
qed

lemma barycentric_rows_end:
  assumes "fair_schedule nr n (w_schedule world)"
  shows "\<exists>r. barycentric_from world denoms_tls coeffs_tls inputs ni recovery nr B fi fr acc n g = Some r"
  using fair_schedule_ends [OF assms, of "processRow g inputs ni B fi fr acc" "(replicate ni 0, replicate ni 0)" recovery]
  by (auto simp: barycentric_from_def)

end
