(* ===== verification/Engine_Fenger.thy ===== *)
theory Engine_Fenger
  imports Engine_Recovery Fenger_Correctness
begin

text \<open>
  The engine's entry to the Fenger pipeline, src/par3_engine_fenger.cc: the counts are padded to powers of
  two with synthetic inputs above both ranges of points, colliding or overflowing ranges fall back to the
  matrix product, and the words are shared among threads. One action of \<open>w_schedule world\<close> is the run of
  one thread on its words; the threads write disjoint words and read the context. The calling thread is
  number 0, the workers are numbered from 1. \<open>base_x\<close> and \<open>base_y\<close> are the addresses of the two trees.
\<close>

definition UINT64_MAX :: nat where "UINT64_MAX = 2 ^ 64 - 1"

text \<open>The loop that doubles a count from 1; its variable is \<open>2 ^ k\<close>. None is the overflow guard.\<close>

function padded_count :: "nat \<Rightarrow> nat \<Rightarrow> nat option" where
  "padded_count n k =
    (if 2 ^ k < n then if 2 ^ k > SIZE_MAX div 2 then None else padded_count n (k + 1) else Some (2 ^ k))"
  by pat_completeness auto
termination by (relation "measure (\<lambda>(n, k). n - 2 ^ k)") (auto intro: diff_less_mono2)

declare padded_count.simps [simp del]

definition points_end :: "64 word \<Rightarrow> nat \<Rightarrow> nat" where
  "points_end first n = (if unat first > UINT64_MAX - n then UINT64_MAX else unat first + n)"

definition ranges_collide :: "64 word \<Rightarrow> nat \<Rightarrow> 64 word \<Rightarrow> nat \<Rightarrow> bool" where
  "ranges_collide firstInput numInputs firstRecovery numRecoveryPadded \<longleftrightarrow>
    (let inEnd = points_end firstInput numInputs; recEnd = points_end firstRecovery numRecoveryPadded
     in unat firstRecovery < inEnd \<and> unat firstInput < recEnd)"

definition synthetic_overflow :: "64 word \<Rightarrow> nat \<Rightarrow> nat \<Rightarrow> 64 word \<Rightarrow> nat \<Rightarrow> bool" where
  "synthetic_overflow firstInput numInputs numInputsPadded firstRecovery numRecoveryPadded \<longleftrightarrow>
    (let inEnd = points_end firstInput numInputs; recEnd = points_end firstRecovery numRecoveryPadded;
         padCount = numInputsPadded - numInputs
     in unat firstInput > UINT64_MAX - numInputs \<or> unat firstRecovery > UINT64_MAX - numRecoveryPadded \<or>
        (if inEnd > recEnd then inEnd else recEnd) > UINT64_MAX - padCount)"

definition fenger_thread_count ::
  "environment \<Rightarrow> platform \<Rightarrow> nat \<Rightarrow> int \<Rightarrow> 'a engine_globals_scheme \<Rightarrow> int \<times> 'a engine_globals_scheme" where
  "fenger_thread_count getenv p B numThreads g =
    (if numThreads \<le> 0
     then let (cpu, g) = GetEffectiveCpuCount getenv p g;
              cpu = (if cpu = 0 then 1 else cpu);
              max_useful = (if cpu > B then B else cpu)
          in (if int max_useful < 1 then 1 else int max_useful, g)
     else (numThreads, g))"

fun fenger_slices :: "nat \<Rightarrow> nat \<Rightarrow> nat \<Rightarrow> nat \<Rightarrow> (nat \<times> nat) list" where
  "fenger_slices B chunk 0 w_start = []"
| "fenger_slices B chunk (Suc t) w_start =
    (if w_start < B
     then let w_end = w_start + chunk; w_end = (if w_end > B then B else w_end)
          in (w_start, w_end) # fenger_slices B chunk t w_end
     else [])"

definition fenger_threads ::
  "world \<Rightarrow> allocator \<Rightarrow> 'b gf64_globals_scheme \<Rightarrow> gf64_fenger_ctx option \<Rightarrow> gf64_t list \<Rightarrow> nat \<Rightarrow> (nat \<times> nat) list \<Rightarrow>
    gf64_t list \<Rightarrow> 'a mpe_globals_scheme \<Rightarrow> (gf64_t list \<times> 'a mpe_globals_scheme) option" where
  "fenger_threads world alloc g ctx inputs B slices recovery st = do {
     seq \<leftarrow> interleave_threads (w_schedule world) (map (\<lambda>t. [(Suc t, slices ! t)]) [0..<length slices]);
     fold (\<lambda>(t, w_start, w_end) r. r \<bind> (\<lambda>(recovery, st).
         gf64_fenger_execute (w_getenv world) alloc t g ctx inputs B recovery w_start w_end st))
       seq (Some (recovery, st))
   }"

definition ComputeRecoveryBlocksFenger ::
  "world \<Rightarrow> allocator \<Rightarrow> nat \<Rightarrow> nat \<Rightarrow> gf64_t list \<Rightarrow> nat \<Rightarrow> gf64_t list \<Rightarrow> nat \<Rightarrow> nat \<Rightarrow> 64 word \<Rightarrow> 64 word \<Rightarrow> int \<Rightarrow>
    'b engine_globals_scheme \<Rightarrow> 'a mpe_globals_scheme \<Rightarrow>
    ((gf64_t list \<times> 'b engine_globals_scheme) \<times> 'a mpe_globals_scheme) option" where
  "ComputeRecoveryBlocksFenger world alloc base_x base_y inputs numInputs recovery numRecovery B firstInput firstRecovery
      numThreads g st =
    (let g = ResetLastDecompositionPath g
     in if numInputs = 0 \<or> numRecovery = 0 \<or> B = 0 then Some ((recovery, g), st)
        else
          let recovery = fold (\<lambda>i recovery. recovery[i := 0]) [0..<numRecovery * B] recovery;
              numThreads = fenger_threads_override (w_getenv world) numThreads;
              (numThreads, g) = fenger_thread_count (w_getenv world) (w_platform world) B numThreads g;
              legacy = map_option (\<lambda>r. (r, st)) (ComputeRecoveryBlocks world inputs numInputs recovery numRecovery B
                firstInput firstRecovery 0 False g)
          in case (padded_count numInputs 0, padded_count numRecovery 0) of
               (Some numInputsPadded, Some numRecoveryPadded) \<Rightarrow>
                 let pad = (numInputsPadded \<noteq> numInputs \<or> numRecoveryPadded \<noteq> numRecovery);
                     inEnd = points_end firstInput numInputs;
                     recEnd = points_end firstRecovery numRecoveryPadded
                 in if ranges_collide firstInput numInputs firstRecovery numRecoveryPadded then legacy
                    else if pad \<and> synthetic_overflow firstInput numInputs numInputsPadded firstRecovery numRecoveryPadded
                    then legacy
                    else do {
                      ((ctx, g), st) \<leftarrow> (if pad
                        then gf64_fenger_prepare_padded (w_getenv world) (w_hosts world 3) alloc 0 base_x base_y
                          firstInput firstRecovery numInputs numRecovery numInputsPadded numRecoveryPadded
                          (of_nat (if inEnd > recEnd then inEnd else recEnd)) g st
                        else gf64_fenger_prepare (w_getenv world) (w_hosts world 3) alloc 0 base_x base_y
                          firstInput firstRecovery numInputs numRecovery g st);
                      (recovery, st) \<leftarrow> (if numThreads = 1
                        then gf64_fenger_execute (w_getenv world) alloc 0 g ctx inputs B recovery 0 B st
                        else let chunk = (B + nat numThreads - 1) div nat numThreads
                          in fenger_threads world alloc g ctx inputs B (fenger_slices B chunk (nat numThreads) 0) recovery st);
                      let ctx = gf64_fenger_release ctx;
                      Some ((recovery, g), st)
                    }
             | _ \<Rightarrow> legacy)"

section \<open>Padding\<close>

lemma padded_count_spec: "padded_count n k = Some N \<Longrightarrow> n \<le> N \<and> (\<exists>L\<ge>k. N = 2 ^ L)"
proof (induction n k rule: padded_count.induct)
  case (1 n k)
  show ?case
  proof (cases "2 ^ k < n \<and> \<not> 2 ^ k > SIZE_MAX div 2")
    case True
    then have "padded_count n (k + 1) = Some N" using 1(2) by (simp add: padded_count.simps [of n k])
    then show ?thesis using 1(1) True by (meson Suc_leD Suc_eq_plus1 order_trans le_add1)
  next
    case False
    then show ?thesis using 1(2) by (auto simp: padded_count.simps [of n k] split: if_splits)
  qed
qed

lemma unat_add_of_nat: "unat (a :: 64 word) + n \<le> UINT64_MAX \<Longrightarrow> unat (a + of_nat n) = unat a + n"
  by (simp add: unat_word_ariths unat_of_nat UINT64_MAX_def)

lemma points_end_exact:
  "n \<le> UINT64_MAX \<Longrightarrow> \<not> unat first > UINT64_MAX - n \<Longrightarrow> points_end first n = unat first + n \<and> unat first + n \<le> UINT64_MAX"
  by (simp add: points_end_def)

text \<open>Ranges that do not wrap and do not collide have different points.\<close>

lemma apart_ranges:
  assumes "\<not> ranges_collide fi ni fr NR" "unat fi + ni \<le> UINT64_MAX" "unat fr + NR \<le> UINT64_MAX" "c < ni" "r < NR"
  shows "fi + of_nat c \<noteq> fr + of_nat r"
proof
  assume "fi + of_nat c = fr + of_nat r"
  then have "unat fi + c = unat fr + r"
    using unat_add_of_nat [of fi c] unat_add_of_nat [of fr r] assms(2-5) by simp
  moreover have "points_end fi ni = unat fi + ni" "points_end fr NR = unat fr + NR"
    using assms(2,3) by (auto simp: points_end_def)
  ultimately show False using assms(1,4,5) by (simp add: ranges_collide_def)
qed

text \<open>The padded points are distinct and the recovery points are not among them.\<close>

lemma padded_points:
  assumes no: "\<not> synthetic_overflow fi ni NI fr NR" and ni: "ni \<le> NI" and big: "NI \<le> UINT64_MAX" "NR \<le> UINT64_MAX"
    and apart: "\<And>c r. c < ni \<Longrightarrow> r < NR \<Longrightarrow> fi + of_nat c \<noteq> fr + of_nat r"
  defines "base \<equiv> (of_nat (if points_end fi ni > points_end fr NR then points_end fi ni else points_end fr NR) :: 64 word)"
  shows "distinct (fenger_x_points fi NI ni base)" "r < NR \<Longrightarrow> fr + of_nat r \<notin> set (fenger_x_points fi NI ni base)"
proof -
  define e where "e = (if points_end fi ni > points_end fr NR then points_end fi ni else points_end fr NR)"
  have no': "\<not> unat fi > UINT64_MAX - ni" "\<not> unat fr > UINT64_MAX - NR" "\<not> e > UINT64_MAX - (NI - ni)"
    using no by (simp_all add: synthetic_overflow_def Let_def e_def)
  have ends: "points_end fi ni = unat fi + ni" "points_end fr NR = unat fr + NR" "unat fi + ni \<le> UINT64_MAX" "unat fr + NR \<le> UINT64_MAX"
    using points_end_exact no' ni big by simp_all
  have e: "unat fi + ni \<le> e" "unat fr + NR \<le> e" "e \<le> UINT64_MAX" using ends by (simp_all add: e_def)
  have fits: "e + (NI - ni) \<le> UINT64_MAX" using no'(3) big by linarith
  have base: "unat base = e" using e(3) by (simp add: base_def e_def [symmetric] unat_of_nat UINT64_MAX_def)
  define x where "x c = (if c < ni then fi + of_nat c else base + of_nat (c - ni))" for c
  have pts: "fenger_x_points fi NI ni base = map x [0..<NI]" by (simp add: fenger_x_points_def x_def)
  have ux: "unat (x c) = (if c < ni then unat fi + c else e + (c - ni))" if "c < NI" for c
  proof (cases "c < ni")
    case True
    then show ?thesis using unat_add_of_nat [of fi c] ends by (simp add: x_def)
  next
    case False
    then have "unat (base + of_nat (c - ni)) = e + (c - ni)" using unat_add_of_nat [of base "c - ni"] fits that by (simp add: base)
    then show ?thesis using False by (simp only: x_def if_False)
  qed
  have "inj_on x {0..<NI}"
  proof (rule inj_onI)
    fix a b assume *: "a \<in> {0..<NI}" "b \<in> {0..<NI}" "x a = x b"
    then have "unat (x a) = unat (x b)" by simp
    then show "a = b" using *(1,2) e(1) unfolding ux [OF *(1) [unfolded atLeastLessThan_iff, THEN conjunct2]]
        ux [OF *(2) [unfolded atLeastLessThan_iff, THEN conjunct2]]
      by (cases "a < ni"; cases "b < ni") simp_all
  qed
  then show "distinct (fenger_x_points fi NI ni base)" by (simp add: pts distinct_map)
  assume r: "r < NR"
  show "fr + of_nat r \<notin> set (fenger_x_points fi NI ni base)"
  proof
    assume "fr + of_nat r \<in> set (fenger_x_points fi NI ni base)"
    then obtain c where c: "c < NI" "fr + of_nat r = x c" by (auto simp: pts)
    show False
    proof (cases "c < ni")
      case True
      then show False using apart [OF True r] c by (simp add: x_def)
    next
      case False
      then have "unat fr + r = e + (c - ni)" using ux [OF c(1)] c(2) unat_add_of_nat [of fr r] ends(4) r by simp
      then show False using e(2) r by linarith
    qed
  qed
qed

section \<open>Slices\<close>

lemma slices_inside: "(lo, hi) \<in> set (fenger_slices B chunk t w) \<Longrightarrow> hi \<le> B"
  by (induction B chunk t w rule: fenger_slices.induct) (auto simp: Let_def split: if_splits)

lemma slices_cover:
  assumes "w \<le> v" "v < B" "v < w + t * chunk"
  shows "\<exists>lo hi. (lo, hi) \<in> set (fenger_slices B chunk t w) \<and> lo \<le> v \<and> v < hi"
  using assms
proof (induction t arbitrary: w)
  case (Suc t)
  define e where "e = (if w + chunk > B then B else w + chunk)"
  have sl: "fenger_slices B chunk (Suc t) w = (w, e) # fenger_slices B chunk t e" using Suc.prems by (simp add: e_def Let_def)
  show ?case
  proof (cases "v < e")
    case True
    then show ?thesis using Suc.prems(1) unfolding sl by auto
  next
    case False
    then have "e = w + chunk" using Suc.prems(2) by (auto simp: e_def split: if_splits)
    then show ?thesis using Suc.IH [of e] False Suc.prems unfolding sl by auto
  qed
qed simp

lemma chunks_enough: "0 < n \<Longrightarrow> B \<le> n * ((B + n - 1) div n)" for n B :: nat
proof -
  assume "0 < n"
  then have "(B + n - 1) mod n < n" by simp
  moreover have "n * ((B + n - 1) div n) + (B + n - 1) mod n = B + n - 1" by simp
  ultimately show ?thesis using \<open>0 < n\<close> by linarith
qed

text \<open>Writing the slices in any order is writing all the words they cover.\<close>

lemma fold_written:
  "length (fold (\<lambda>(t, lo, hi). written v B n lo hi) sl out) = length out"
  "p < length out \<Longrightarrow> fold (\<lambda>(t, lo, hi). written v B n lo hi) sl out ! p =
    (if p div B < n \<and> (\<exists>(t, lo, hi)\<in>set sl. lo \<le> p mod B \<and> p mod B < hi) then v (p div B) (p mod B) else out ! p)"
proof (induction sl arbitrary: out)
  case (Cons s sl)
  obtain t lo hi where s: "s = (t, lo, hi)" by (cases s)
  {
    case 1
    show ?case using Cons.IH(1) by (simp add: s)
  next
    case 2
    then show ?case using Cons.IH(2) [where out = "written v B n lo hi out"] by (auto simp: s written_def)
  }
qed simp_all

text \<open>The threads of a prepared context, in any order.\<close>

lemma fenger_threads_result:
  fixes st :: "'a mpe_globals_scheme"
  assumes ctx: "context_ok xs LX ys LY ctx" "distinct xs" and size: "64 * 2 ^ LY \<le> SIZE_MAX" "64 * 2 ^ LX \<le> SIZE_MAX"
    and inside: "\<And>lo hi. (lo, hi) \<in> set slices \<Longrightarrow> hi \<le> B" and st: "poly_ready alloc st"
    and seq: "interleave_threads (w_schedule world) (map (\<lambda>t. [(Suc t, slices ! t)]) [0..<length slices]) = Some seq"
  shows "\<exists>st'. fenger_threads world alloc g (Some ctx) inp B slices out st =
    Some (fold (\<lambda>(t, lo, hi). written (row_word xs ys ctx inp B) B (num_recovery_real ctx) lo hi) seq out, st') \<and> poly_ready alloc st'"
proof -
  let ?run = "\<lambda>(t, lo, hi) r. r \<bind> (\<lambda>(recovery, st). gf64_fenger_execute (w_getenv world) alloc t g (Some ctx) inp B recovery lo hi st)"
  let ?put = "\<lambda>(t :: nat, lo, hi). written (row_word xs ys ctx inp B) B (num_recovery_real ctx) lo hi"
  have "\<exists>st'. fold ?run sl (Some (out, st)) = Some (fold ?put sl out, st') \<and> poly_ready alloc st'"
    if "\<forall>(t, lo, hi)\<in>set sl. hi \<le> B" "poly_ready alloc st" for sl out and st :: "'a mpe_globals_scheme"
    using that
  proof (induction sl arbitrary: out st)
    case (Cons s sl)
    obtain t lo hi where s: "s = (t, lo, hi)" by (cases s)
    have hi: "hi \<le> B" using Cons.prems(1) s by simp
    obtain st1 where 1: "gf64_fenger_execute (w_getenv world) alloc t g (Some ctx) inp B out lo hi st = Some (?put s out, st1)" "poly_ready alloc st1"
      using returnsD [OF returns_execute [OF ctx size hi, where inp = inp and out = out and w_start = lo] Cons.prems(2)] s
      by (metis (no_types, lifting) prod.case)
    obtain st' where "fold ?run sl (Some (?put s out, st1)) = Some (fold ?put sl (?put s out), st')" "poly_ready alloc st'"
      using Cons.IH [OF _ 1(2)] Cons.prems(1) by auto
    then show ?case using 1(1) s by auto
  qed simp
  moreover have "set seq = (\<lambda>t. (Suc t, slices ! t)) ` {0..<length slices}"
    using interleave_set [OF seq] by auto
  then have "\<forall>(t, lo, hi)\<in>set seq. hi \<le> B"
    using inside by (auto, metis nth_mem)
  ultimately show ?thesis using st seq unfolding fenger_threads_def by (auto simp del: split_paired_Ex)
qed

section \<open>The call\<close>

lemma fenger_thread_count_ok:
  assumes "engine_ok g" "dispatch_ok g"
  shows "\<exists>n g'. fenger_thread_count getenv p B numThreads g = (n, g') \<and> engine_ok g' \<and> dispatch_ok g' \<and> same_engine g g' \<and>
    1 \<le> n \<and> n \<le> max numThreads 128"
proof (cases "numThreads \<le> 0")
  case True
  obtain n g1 where c: "GetEffectiveCpuCount getenv p g = (n, g1)" by fastforce
  have "dispatch_ok g1" using c assms(2) by (auto simp: GetEffectiveCpuCount_def Let_def dispatch_ok_engine_frame split: option.splits if_splits)
  then show ?thesis using effective_cpu_count_range [OF assms(1) c] True c by (auto simp: fenger_thread_count_def Let_def)
next
  case False
  then show ?thesis using assms by (auto simp: fenger_thread_count_def same_engine_def)
qed

text \<open>A row of the pipeline is a row of the matrix product when its point is not an input point.\<close>

lemma row_word_recovered:
  assumes ctx: "context_ok (fenger_x_points fi NI ni sb) LX (fenger_y_points fr NR) LY ctx" "num_inputs_real ctx = ni" "ni \<le> NI" "nr \<le> NR" "NI = 2 ^ LX"
    and out: "fr + of_nat j \<notin> set (fenger_x_points fi NI ni sb)" and j: "j < nr"
  shows "Gf (row_word (fenger_x_points fi NI ni sb) (fenger_y_points fr NR) ctx inp B j w) =
    recovered inp (cauchy_matrix ni nr fi fr) ni B False old j w"
proof -
  let ?xs = "fenger_x_points fi NI ni sb" and ?ys = "fenger_y_points fr NR"
  have N: "ctx_N ctx = length ?xs" using ctx(1,5) by (simp add: context_ok_def)
  have ys: "?ys ! j = fr + of_nat j" using j ctx(4) by (simp add: fenger_y_points_def)
  have xs: "?xs ! c = fi + of_nat c" "fi + of_nat c \<noteq> fr + of_nat j" if "c < ni" for c
  proof -
    show x: "?xs ! c = fi + of_nat c" using that ctx(3) by (simp add: fenger_x_points_def)
    have "?xs ! c \<in> set ?xs" using that ctx(3) by (intro nth_mem) simp
    then show "fi + of_nat c \<noteq> fr + of_nat j" using out x by metis
  qed
  have "Gf (row_word ?xs ?ys ctx inp B j w) = cauchy_row ?xs ni inp B w (fr + of_nat j)"
    using row_word_cauchy [OF ctx(2) N, of ?ys inp B j w] ctx(3) by (simp add: ys)
  also have "\<dots> = (\<Sum>c<ni. Gf (inp ! (c * B + w)) / (Gf (fr + of_nat j) + Gf (fi + of_nat c)))"
    using out xs(1) by (simp add: cauchy_row_def)
  also have "\<dots> = recovered inp (cauchy_matrix ni nr fi fr) ni B False old j w"
    using xs(2) j by (auto simp: recovered_def nth_cauchy_matrix Gf_cauchy_coeff divide_inverse intro!: sum.cong)
  finally show ?thesis .
qed

text \<open>The prepared part of the call.\<close>

definition fenger_from ::
  "world \<Rightarrow> allocator \<Rightarrow> gf64_t list \<Rightarrow> nat \<Rightarrow> int \<Rightarrow> gf64_t list \<Rightarrow> 'b gf64_globals_scheme \<Rightarrow> gf64_fenger_ctx option \<Rightarrow>
    'a mpe_globals_scheme \<Rightarrow> (gf64_t list \<times> 'a mpe_globals_scheme) option" where
  "fenger_from world alloc inputs B numThreads recovery g ctx st =
    (if numThreads = 1 then gf64_fenger_execute (w_getenv world) alloc 0 g ctx inputs B recovery 0 B st
     else fenger_threads world alloc g ctx inputs B
       (fenger_slices B ((B + nat numThreads - 1) div nat numThreads) (nat numThreads) 0) recovery st)"

lemma length_slices: "length (fenger_slices B chunk t w) \<le> t"
  by (induction B chunk t w rule: fenger_slices.induct) (auto simp: Let_def)

lemma fenger_from_result:
  fixes st :: "'a mpe_globals_scheme"
  assumes ctx: "context_ok (fenger_x_points fi NI ni sb) LX (fenger_y_points fr NR) LY ctx" "distinct (fenger_x_points fi NI ni sb)"
      "num_inputs_real ctx = ni" "num_recovery_real ctx = nr" "ni \<le> NI" "nr \<le> NR" "NI = 2 ^ LX"
    and size: "64 * 2 ^ LY \<le> SIZE_MAX" "64 * 2 ^ LX \<le> SIZE_MAX"
    and out: "\<And>j. j < nr \<Longrightarrow> fr + of_nat j \<notin> set (fenger_x_points fi NI ni sb)"
    and st: "poly_ready alloc st" and len: "length recovery = nr * B" and n: "1 \<le> numThreads"
    and fair: "fair_threads (nat numThreads) 1 (w_schedule world)"
  shows "\<exists>recovery' st'. fenger_from world alloc inp B numThreads recovery g (Some ctx) st = Some (recovery', st') \<and> poly_ready alloc st' \<and>
    recovers inp (cauchy_matrix ni nr fi fr) ni nr B False old recovery'"
proof -
  let ?xs = "fenger_x_points fi NI ni sb" and ?ys = "fenger_y_points fr NR"
  let ?v = "row_word ?xs ?ys ctx inp B"
  have rows: "recovers inp (cauchy_matrix ni nr fi fr) ni nr B False old out'"
    if "length out' = nr * B" "\<And>j w. j < nr \<Longrightarrow> w < B \<Longrightarrow> out' ! (j * B + w) = ?v j w" for out'
    using that row_word_recovered [OF ctx(1,3,5,6,7) out] by (simp add: recovers_def)
  show ?thesis
  proof (cases "numThreads = 1")
    case True
    let ?out = "written ?v B (num_recovery_real ctx) 0 B recovery"
    obtain st' where "gf64_fenger_execute (w_getenv world) alloc 0 g (Some ctx) inp B recovery 0 B st = Some (?out, st')" "poly_ready alloc st'"
      using returnsD [OF returns_execute [OF ctx(1,2) size order.refl, where g = g and inp = inp and out = recovery and w_start = 0] st] by metis
    moreover have "?out ! (j * B + w) = ?v j w" if "j < nr" "w < B" for j w
      using written_rows [OF that, of recovery 0 B ?v] len that ctx(4) by simp
    ultimately show ?thesis using rows [of ?out] True len by (simp add: fenger_from_def)
  next
    case False
    define chunk where "chunk = (B + nat numThreads - 1) div nat numThreads"
    define slices where "slices = fenger_slices B chunk (nat numThreads) 0"
    have "length [(Suc t, slices ! t)] \<le> count_list (w_schedule world) t" if "t < length slices" for t
      using fair that length_slices [of B chunk "nat numThreads" 0] by (simp add: fair_threads_def slices_def)
    then obtain seq where seq: "interleave_threads (w_schedule world) (map (\<lambda>t. [(Suc t, slices ! t)]) [0..<length slices]) = Some seq"
      using interleave_ends [of "map (\<lambda>t. [(Suc t, slices ! t)]) [0..<length slices]" "w_schedule world"] by auto
    let ?out = "fold (\<lambda>(t, lo, hi). written ?v B (num_recovery_real ctx) lo hi) seq recovery"
    have inside: "hi \<le> B" if "(lo, hi) \<in> set slices" for lo hi using slices_inside that by (simp add: slices_def)
    obtain st' where st': "fenger_threads world alloc g (Some ctx) inp B slices recovery st = Some (?out, st')" "poly_ready alloc st'"
      using fenger_threads_result [OF ctx(1,2) size _ st seq, of B] inside by blast
    have set_seq: "set seq = (\<lambda>t. (Suc t, slices ! t)) ` {0..<length slices}" using interleave_set [OF seq] by auto
    have "?out ! (j * B + w) = ?v j w" if jw: "j < nr" "w < B" for j w
    proof -
      have "w < 0 + nat numThreads * chunk" using chunks_enough [of "nat numThreads" B] n jw(2) by (simp add: chunk_def)
      then obtain lo hi where sl: "(lo, hi) \<in> set slices" "lo \<le> w" "w < hi"
        using slices_cover [of 0 w B "nat numThreads" chunk] jw(2) unfolding slices_def by blast
      then obtain t where "t < length slices" "slices ! t = (lo, hi)" by (auto simp: in_set_conv_nth)
      then have "(Suc t, lo, hi) \<in> set seq" unfolding set_seq by force
      then have "\<exists>(t, lo, hi)\<in>set seq. lo \<le> (j * B + w) mod B \<and> (j * B + w) mod B < hi" using sl jw(2) by force
      moreover have "j * B + w < length recovery" using flat_less [OF jw] len by simp
      ultimately show ?thesis using fold_written(2) [of "j * B + w" recovery ?v B "num_recovery_real ctx" seq] jw ctx(4) by simp
    qed
    then show ?thesis using rows [of ?out] st' False len fold_written(1) [of ?v B "num_recovery_real ctx" seq recovery]
      by (simp add: fenger_from_def slices_def chunk_def)
  qed
qed

lemma length_fold_zero: "length (fold (\<lambda>i (xs :: gf64_t list). xs[i := 0]) is xs) = length xs"
  by (induction "is" arbitrary: xs) simp_all

text \<open>The points of a call that does not fall back.\<close>

lemma engine_points:
  assumes X: "fenger_sizes base_x ni LX NI" and Y: "fenger_sizes base_y nr LY NR"
    and no: "\<not> ranges_collide fi ni fr NR" "pd \<longrightarrow> \<not> synthetic_overflow fi ni NI fr NR" "\<not> pd \<longrightarrow> NI = ni \<and> NR = nr \<and> sb = 0"
    and sb: "pd \<longrightarrow> sb = of_nat (if points_end fi ni > points_end fr NR then points_end fi ni else points_end fr NR)"
    and pts: "(\<forall>c<ni. \<forall>r<nr. fi + of_nat c \<noteq> fr + of_nat r) \<or> unat fi + ni \<le> UINT64_MAX \<and> unat fr + nr \<le> UINT64_MAX"
  shows "distinct (fenger_x_points fi NI ni sb)" "j < nr \<Longrightarrow> fr + of_nat j \<notin> set (fenger_x_points fi NI ni sb)"
proof -
  from X Y have sz: "ni \<le> NI" "nr \<le> NR" by (simp_all add: fenger_sizes_def)
  have big: "NI \<le> UINT64_MAX" "NR \<le> UINT64_MAX" using X Y by (simp_all add: fenger_sizes_def SIZE_MAX_def UINT64_MAX_def)
  have "distinct (fenger_x_points fi NI ni sb) \<and> (\<forall>j<nr. fr + of_nat j \<notin> set (fenger_x_points fi NI ni sb))"
  proof (cases pd)
    case True
    have over: "\<not> synthetic_overflow fi ni NI fr NR" using no(2) True by simp
    then have "\<not> unat fi > UINT64_MAX - ni" "\<not> unat fr > UINT64_MAX - NR" by (simp_all add: synthetic_overflow_def Let_def)
    then have wrap: "unat fi + ni \<le> UINT64_MAX" "unat fr + NR \<le> UINT64_MAX" using points_end_exact sz(1) big by (meson order_trans)+
    have apart: "fi + of_nat c \<noteq> fr + of_nat r" if "c < ni" "r < NR" for c r
      using apart_ranges [OF no(1) wrap that] .
    show ?thesis using padded_points [OF over sz(1) big apart, folded sb [rule_format, OF True]] sz(2) by simp
  next
    case False
    then have eq: "NI = ni" "NR = nr" "sb = 0" using no(3) by simp_all
    have apart: "fi + of_nat c \<noteq> fr + of_nat r" if "c < ni" "r < nr" for c r
      using pts apart_ranges [of fi ni fr NR c r] no(1) that eq by auto
    have "distinct (fenger_x_points fi ni ni 0)" using x_points_distinct [of base_x ni LX ni fi 0] X eq by simp
    moreover have "fr + of_nat j \<notin> set (fenger_x_points fi ni ni 0)" if "j < nr" for j
      using apart that by (auto simp: fenger_x_points_def) metis
    ultimately show ?thesis by (simp add: eq)
  qed
  then show "distinct (fenger_x_points fi NI ni sb)" "j < nr \<Longrightarrow> fr + of_nat j \<notin> set (fenger_x_points fi NI ni sb)" by blast+
qed

text \<open>The fallback, on the zeroed recovery blocks.\<close>

lemma legacy_result:
  assumes g: "engine_ok g" "dispatch_ok g" "cache_ok g"
    and malloc: "\<And>n m. w_malloc world n = Some m \<Longrightarrow> length m = n" "w_malloc world (nr * ni) \<noteq> None"
    and len: "length inputs = ni * B" "length zero = nr * B" and pos: "0 < ni" "0 < nr"
    and fair: "fair_schedule nr 8 (w_build_schedule world)"
      "fair_threads (nat (max (fenger_threads_override (w_getenv world) numThreads) 128)) ((nr + 1) * (ni + 1)) (w_schedule world)"
  shows "\<exists>recovery' g'. ComputeRecoveryBlocks world inputs ni zero nr B fi fr 0 False g = Some (recovery', g') \<and> weights_state_ok g' \<and>
    recovers inputs (cauchy_matrix ni nr fi fr) ni nr B False old recovery'"
proof -
  have "fenger_threads_override (w_getenv world) 0 \<le> max (fenger_threads_override (w_getenv world) numThreads) 128"
    by (auto simp: fenger_threads_override_def Let_def split: option.split)
  then have f: "fair_threads (nat (max (fenger_threads_override (w_getenv world) 0) 128)) ((nr + 1) * (ni + 1)) (w_schedule world)"
    using fair(2) by (auto simp: fair_threads_def)
  obtain recovery' g' where run: "ComputeRecoveryBlocks world inputs ni zero nr B fi fr 0 False g = Some (recovery', g')"
    using recovery_blocks_end [OF g malloc(1) fair(1) f, of inputs zero B fi fr False] by force
  from recovery_blocks_result [OF g malloc(1) len run]
  have "recovers inputs (cauchy_matrix ni nr fi fr) ni nr B False zero recovery'" "engine_ok g'" using pos malloc(2) by auto
  then show ?thesis using run by (simp add: recovers_def recovered_def engine_ok_def)
qed

text \<open>
  The whole call: the matrix product, by the pipeline or by the fallback. The points of an unpadded call
  must not wrap round 64 bits unless they differ anyway; for a padded call the code checks it.
\<close>

lemma fenger_engine_result:
  fixes st :: "'a mpe_globals_scheme"
  assumes g: "engine_ok g" "dispatch_ok g" "cache_ok g" and st: "poly_ready alloc st"
    and malloc: "\<And>n m. w_malloc world n = Some m \<Longrightarrow> length m = n" "w_malloc world (nr * ni) \<noteq> None"
    and len: "length inputs = ni * B" "length recovery = nr * B" and pos: "0 < ni" "0 < nr" "0 < B"
    and pad: "padded_count ni 0 = Some NI" "padded_count nr 0 = Some NR"
    and X: "fenger_sizes base_x ni LX NI" and Y: "fenger_sizes base_y nr LY NR"
    and pts: "(\<forall>c<ni. \<forall>r<nr. fi + of_nat c \<noteq> fr + of_nat r) \<or> unat fi + ni \<le> UINT64_MAX \<and> unat fr + nr \<le> UINT64_MAX"
    and fair: "fair_schedule nr 8 (w_build_schedule world)"
      "fair_threads (nat (max (fenger_threads_override (w_getenv world) numThreads) 128)) ((nr + 1) * (ni + 1)) (w_schedule world)"
  shows "\<exists>recovery' g' st'. ComputeRecoveryBlocksFenger world alloc base_x base_y inputs ni recovery nr B fi fr numThreads g st =
      Some ((recovery', g'), st') \<and> weights_state_ok g' \<and> poly_ready alloc st' \<and>
    recovers inputs (cauchy_matrix ni nr fi fr) ni nr B False recovery recovery'"
proof -
  let ?g = "ResetLastDecompositionPath g"
  have rg: "engine_ok ?g" "dispatch_ok ?g" "same_engine g ?g"
    using g by (simp_all add: ResetLastDecompositionPath_def engine_ok_frame dispatch_ok_engine_frame same_engine_def)
  obtain nt g1 where 1: "fenger_thread_count (w_getenv world) (w_platform world) B (fenger_threads_override (w_getenv world) numThreads) ?g = (nt, g1)"
    "engine_ok g1" "dispatch_ok g1" "same_engine ?g g1" "1 \<le> nt" "nt \<le> max (fenger_threads_override (w_getenv world) numThreads) 128"
    using fenger_thread_count_ok [OF rg(1,2)] by blast
  have c1: "cache_ok g1" using cache_ok_same [OF same_engine_trans [OF rg(3) 1(4)]] g(3) by simp
  define zero where "zero = fold (\<lambda>i (recovery :: gf64_t list). recovery[i := 0]) [0..<nr * B] recovery"
  have lz: "length zero = nr * B" using len(2) by (simp add: zero_def length_fold_zero)
  define legacy where "legacy = map_option (\<lambda>r. (r, st)) (ComputeRecoveryBlocks world inputs ni zero nr B fi fr 0 False g1)"
  have legacy: "\<exists>recovery' g' st'. legacy = Some ((recovery', g'), st') \<and> weights_state_ok g' \<and> poly_ready alloc st' \<and>
    recovers inputs (cauchy_matrix ni nr fi fr) ni nr B False recovery recovery'"
    using legacy_result [OF 1(2,3) c1 malloc len(1) lz pos(1,2) fair, of fi fr recovery] st by (force simp: legacy_def)
  define pd where "pd \<longleftrightarrow> NI \<noteq> ni \<or> NR \<noteq> nr"
  define sb where "sb = (of_nat (if points_end fi ni > points_end fr NR then points_end fi ni else points_end fr NR) :: 64 word)"
  have run: "ComputeRecoveryBlocksFenger world alloc base_x base_y inputs ni recovery nr B fi fr numThreads g st =
    (if ranges_collide fi ni fr NR then legacy
     else if pd \<and> synthetic_overflow fi ni NI fr NR then legacy
     else do {
       ((ctx, g), st) \<leftarrow> (if pd
         then gf64_fenger_prepare_padded (w_getenv world) (w_hosts world 3) alloc 0 base_x base_y fi fr ni nr NI NR sb g1 st
         else gf64_fenger_prepare (w_getenv world) (w_hosts world 3) alloc 0 base_x base_y fi fr ni nr g1 st);
       (recovery, st) \<leftarrow> fenger_from world alloc inputs B nt zero g ctx st;
       Some ((recovery, g), st)
     })"
    using pos 1(1) pad unfolding ComputeRecoveryBlocksFenger_def fenger_from_def Let_def pd_def
    by (simp flip: zero_def legacy_def sb_def cong: if_cong)
  show ?thesis
  proof (cases "ranges_collide fi ni fr NR \<or> pd \<and> synthetic_overflow fi ni NI fr NR")
    case True
    then show ?thesis using run legacy by auto
  next
    case False
    from X Y have sz: "NI = 2 ^ LX" "64 * 2 ^ LX \<le> SIZE_MAX" "64 * 2 ^ LY \<le> SIZE_MAX" "ni \<le> NI" "nr \<le> NR" by (simp_all add: fenger_sizes_def)
    define sb' where "sb' = (if pd then sb else 0)"
    have "\<not> ranges_collide fi ni fr NR" "pd \<longrightarrow> \<not> synthetic_overflow fi ni NI fr NR" "\<not> pd \<longrightarrow> NI = ni \<and> NR = nr \<and> sb' = 0"
      "pd \<longrightarrow> sb' = of_nat (if points_end fi ni > points_end fr NR then points_end fi ni else points_end fr NR)"
      using False unfolding sb'_def by (simp, simp, simp add: pd_def, cases pd, simp_all only: sb_def if_True simp_thms)
    note points = engine_points [OF X Y this pts]
    have apart: "fr + of_nat j \<notin> set (fenger_x_points fi NI ni sb')" if "j < nr" for j by (rule points(2) [OF that])
    have w1: "weights_state_ok g1" using 1(2) by (simp add: engine_ok_def)
    obtain ctx g2 st1 where prep:
      "gf64_fenger_prepare_padded (w_getenv world) (w_hosts world 3) alloc 0 base_x base_y fi fr ni nr NI NR sb' g1 st = Some ((Some ctx, g2), st1)"
      "context_ok (fenger_x_points fi NI ni sb') LX (fenger_y_points fr NR) LY ctx"
      "num_inputs_real ctx = ni" "num_recovery_real ctx = nr" "weights_state_ok g2" "poly_ready alloc st1"
      by (rule prepare_padded_run [OF X Y w1 st])
    have both: "(if pd
         then gf64_fenger_prepare_padded (w_getenv world) (w_hosts world 3) alloc 0 base_x base_y fi fr ni nr NI NR sb g1 st
         else gf64_fenger_prepare (w_getenv world) (w_hosts world 3) alloc 0 base_x base_y fi fr ni nr g1 st) = Some ((Some ctx, g2), st1)"
      using prep(1) prepare_unpadded [OF pos(1,2), where g = g1 and st = st] by (cases pd) (simp_all add: sb'_def pd_def)
    have "fair_threads (nat nt) 1 (w_schedule world)"
      unfolding fair_threads_def
    proof (intro allI impI)
      fix t assume "t < nat nt"
      then have "(nr + 1) * (ni + 1) \<le> count_list (w_schedule world) t" using fair(2) 1(6) by (simp add: fair_threads_def)
      then show "1 \<le> count_list (w_schedule world) t" by simp
    qed
    then obtain recovery' st' where "fenger_from world alloc inputs B nt zero g2 (Some ctx) st1 = Some (recovery', st')" "poly_ready alloc st'"
      "recovers inputs (cauchy_matrix ni nr fi fr) ni nr B False recovery recovery'"
      using fenger_from_result [OF prep(2) points(1) prep(3,4) sz(4,5,1,3,2) apart prep(6) lz 1(5)] by blast
    then show ?thesis using run False both prep(5) by auto
  qed
qed

end
