(* ===== verification/Engine_Correctness.thy ===== *)
theory Engine_Correctness
  imports Engine_Barycentric Engine_Fenger
begin

text \<open>
  What the PAR3 engine promises: the recovery blocks are the Cauchy product of the input blocks whatever
  the number of threads, the decomposition, the schedule, the dispatched kernels and the state of the
  cache of matrices; the threads never meet; every fair schedule ends; a lost block is reconstructed.
\<close>

section \<open>The state between two calls\<close>

definition engine_ready :: "'a engine_globals_scheme \<Rightarrow> bool" where
  "engine_ready g \<longleftrightarrow> engine_ok g \<and> \<not> inverse_batch_null g \<and> cache_ok g"

lemma engine_readyD: "engine_ready g \<Longrightarrow> engine_ok g" "engine_ready g \<Longrightarrow> dispatch_ok g" "engine_ready g \<Longrightarrow> cache_ok g"
  by (simp_all add: engine_ready_def engine_ok_def weights_state_ok_def)

definition sound_malloc :: "world \<Rightarrow> bool" where
  "sound_malloc world \<longleftrightarrow> (\<forall>n m. w_malloc world n = Some m \<longrightarrow> length m = n)"

lemma sound_mallocD: "sound_malloc world \<Longrightarrow> w_malloc world n = Some m \<Longrightarrow> length m = n"
  by (simp add: sound_malloc_def)

text \<open>Every thread that a call may start gets its turns.\<close>

definition fair_world :: "world \<Rightarrow> int \<Rightarrow> nat \<Rightarrow> nat \<Rightarrow> bool" where
  "fair_world world numThreads ni nr \<longleftrightarrow> fair_schedule nr 8 (w_build_schedule world) \<and>
    fair_threads (nat (max (fenger_threads_override (w_getenv world) numThreads) 128)) ((nr + 1) * (ni + 1)) (w_schedule world)"

text \<open>The coefficient of an input in a recovery row and the product of a row.\<close>

definition cauchy_factor :: "64 word \<Rightarrow> 64 word \<Rightarrow> nat \<Rightarrow> nat \<Rightarrow> gf" where
  "cauchy_factor fi fr r c = (if fi + of_nat c = fr + of_nat r then 1 else inverse (Gf (fr + of_nat r) + Gf (fi + of_nat c)))"

definition cauchy_product :: "64 word \<Rightarrow> 64 word \<Rightarrow> gf64_t list \<Rightarrow> nat \<Rightarrow> nat \<Rightarrow> nat \<Rightarrow> nat \<Rightarrow> gf" where
  "cauchy_product fi fr inputs ni B r w = (\<Sum>c<ni. Gf (inputs ! (c * B + w)) * cauchy_factor fi fr r c)"

lemma Gf_cauchy_matrix: "r < nr \<Longrightarrow> c < ni \<Longrightarrow> Gf (cauchy_matrix ni nr fi fr ! (r * ni + c)) = cauchy_factor fi fr r c"
  by (simp add: nth_cauchy_matrix Gf_cauchy_coeff cauchy_factor_def)

lemma recovers_cauchy:
  "recovers inputs (cauchy_matrix ni nr fi fr) ni nr B acc old new \<longleftrightarrow> length new = nr * B \<and>
    (\<forall>r<nr. \<forall>w<B. Gf (new ! (r * B + w)) =
      (if acc then Gf (old ! (r * B + w)) else 0) + cauchy_product fi fr inputs ni B r w)"
  by (auto simp: recovers_def recovered_def cauchy_product_def Gf_cauchy_matrix)

subsection \<open>An example\<close>

definition engine_start :: engine_globals where
  "engine_start = gf64_globals.extend start_globals
    \<lparr>dispatch_bound = 0, inverse_batch_null = True, s_dispatch_initialized = False, s_cauchyWorkerCount = 0,
     s_effectiveCpuCountCached = 0, coeff_map = [], coeff_lru = [], fast_create_cached = -1, bench_native_cached = -1,
     autotune_cached = -1, s_autotune_once = None, s_last_decomposition_path = 0\<rparr>"

lemma engine_start_ok: "engine_ok engine_start" "cache_ok engine_start"
proof -
  have "capability_ok engine_start"
    using startup_ok [OF startup_start_globals]
    by (simp add: engine_start_def gf64_globals.extend_def start_globals_def capability_ok_def probe_ok_def)
  moreover have "inverse_batch_null engine_start" "dispatch_bound engine_start = 0" "\<not> s_dispatch_initialized engine_start"
    "s_cauchyWorkerCount engine_start = 0" "s_effectiveCpuCountCached engine_start = 0"
    "coeff_map engine_start = []" "coeff_lru engine_start = []"
    by (simp_all add: engine_start_def gf64_globals.extend_def start_globals_def)
  ultimately show "engine_ok engine_start" "cache_ok engine_start"
    by (simp_all add: engine_ok_def weights_state_ok_def cache_ok_def)
qed

lemma engine_started:
  obtains g where "EnsureDispatch getenv hosts engine_start = Some g" "engine_ready g" "coeff_lru g = []"
proof -
  obtain g where g: "EnsureDispatch getenv hosts engine_start = Some g" "engine_ok g" "same_engine engine_start g" "\<not> inverse_batch_null g"
    using EnsureDispatch_ok [OF engine_start_ok(1)] by blast
  have "coeff_lru engine_start = []" by (simp add: engine_start_def gf64_globals.extend_def start_globals_def)
  then show ?thesis
    using that [OF g(1)] g cache_ok_same [OF g(3)] engine_start_ok(2) by (simp add: engine_ready_def same_engine_def)
qed

definition round_robin :: "nat \<Rightarrow> nat \<Rightarrow> nat list" where
  "round_robin n m = concat (replicate m [0..<n])"

lemma count_round_robin: "t < n \<Longrightarrow> count_list (round_robin n m) t = m"
proof -
  assume t: "t < n"
  have "count_list [0..<k] t = (if t < k then 1 else 0)" for k by (induction k) auto
  then show ?thesis using t by (induction m) (simp_all add: round_robin_def)
qed

definition example_world :: "(nat \<Rightarrow> nat \<Rightarrow> host) \<Rightarrow> world" where
  "example_world hosts =
    \<lparr>w_getenv = (\<lambda>_. None), w_hosts = hosts,
     w_platform = \<lparr>sched_affinity = Some 4, hardware_concurrency = 4,
       cpu_topology = \<lparr>physicalCores = 2, logicalCores = 4, l3PerCluster = 2097152, numClusters = 1, totalL3 = 2097152\<rparr>\<rparr>,
     w_malloc = (\<lambda>n. Some (replicate n 0)), w_temp_ok = (\<lambda>_. True), w_sample_ok = True, w_speed = (\<lambda>_. 1), w_tls = [],
     w_build_schedule = round_robin 8 120, w_schedule = round_robin 128 120\<rparr>"

lemma example_world_ok:
  "sound_malloc (example_world hosts)" "w_malloc (example_world hosts) n \<noteq> None" "w_getenv (example_world hosts) = (\<lambda>_. None)"
  "0 \<le> numThreads \<Longrightarrow> numThreads \<le> 128 \<Longrightarrow> 2 * nr + 1 \<le> 120 \<Longrightarrow> (nr + 1) * (ni + 1) \<le> 120 \<Longrightarrow> fair_world (example_world hosts) numThreads ni nr"
  by (simp_all add: example_world_def sound_malloc_def fair_world_def fair_schedule_def fair_threads_def count_round_robin
      fenger_threads_override_def)

lemma example_factors:
  "cauchy_factor 2 7 0 0 = inverse (Gf 7 + Gf 2)" "cauchy_factor 2 7 0 1 = inverse (Gf 7 + Gf 3)"
proof -
  have "(2 :: 64 word) \<noteq> 7" "(3 :: 64 word) \<noteq> 7" by simp_all
  moreover have "(2 :: 64 word) + of_nat 0 = 2" "(2 :: 64 word) + of_nat 1 = 3" "(7 :: 64 word) + of_nat 0 = 7" by simp_all
  ultimately show "cauchy_factor 2 7 0 0 = inverse (Gf 7 + Gf 2)" "cauchy_factor 2 7 0 1 = inverse (Gf 7 + Gf 3)"
    by (simp_all only: cauchy_factor_def if_False)
qed

lemma example_product:
  "cauchy_product 2 7 [5, 6] 2 1 0 0 = Gf 5 * inverse (Gf 7 + Gf 2) + Gf 6 * inverse (Gf 7 + Gf 3)"
  unfolding example_factors [symmetric] by (simp add: cauchy_product_def numeral_2_eq_2)

lemma example_fair: "fair_world (example_world hosts) 3 2 1"
  by (rule example_world_ok(4)) simp_all

section \<open>Recovery blocks\<close>

text \<open>
  C1. The recovery blocks are the Cauchy product. In every state between two calls, under every fair
  schedule, with any number of threads, any environment and any processor, a call with room for its matrix
  returns; word \<open>w\<close> of recovery block \<open>r\<close> is then the sum of the input words times the inverses of the
  distances of the points (and 1 for a pair of equal points), added to the old word when accumulating.
\<close>

theorem recovery_blocks_correct:
  assumes "engine_ready g" "sound_malloc world" "fair_world world numThreads ni nr" "w_malloc world (nr * ni) \<noteq> None"
    "length inputs = ni * B" "length recovery = nr * B" "0 < ni"
  shows "\<exists>recovery' g'. ComputeRecoveryBlocks world inputs ni recovery nr B fi fr numThreads accumulate g = Some (recovery', g') \<and>
    engine_ready g' \<and> length recovery' = nr * B \<and>
    (\<forall>r<nr. \<forall>w<B. Gf (recovery' ! (r * B + w)) =
      (if accumulate then Gf (recovery ! (r * B + w)) else 0) + cauchy_product fi fr inputs ni B r w)"
proof -
  note g = engine_readyD [OF assms(1)] and malloc = sound_mallocD [OF assms(2)]
  obtain recovery' g' where run: "ComputeRecoveryBlocks world inputs ni recovery nr B fi fr numThreads accumulate g = Some (recovery', g')"
    using recovery_blocks_end [OF g malloc, where nr = nr and numThreads = numThreads and ni = ni] assms(3) by (force simp: fair_world_def)
  from recovery_blocks_result [OF g malloc assms(5,6) run] show ?thesis
    using run assms by (auto simp: engine_ready_def recovers_cauchy split: if_splits)
qed

theorem recovery_blocks_correct_witness:
  "\<forall>hosts h. \<exists>g recovery' g'. EnsureDispatch (\<lambda>_. None) h engine_start = Some g \<and>
    ComputeRecoveryBlocks (example_world hosts) [5, 6] 2 [9] 1 1 2 7 3 False g = Some (recovery', g') \<and>
    Gf (recovery' ! 0) = Gf 5 * inverse (Gf 7 + Gf 2) + Gf 6 * inverse (Gf 7 + Gf 3)"
proof (intro allI)
  fix hosts h
  obtain g where g: "EnsureDispatch (\<lambda>_. None) h engine_start = Some g" "engine_ready g" by (rule engine_started)
  show "\<exists>g recovery' g'. EnsureDispatch (\<lambda>_. None) h engine_start = Some g \<and>
    ComputeRecoveryBlocks (example_world hosts) [5, 6] 2 [9] 1 1 2 7 3 False g = Some (recovery', g') \<and>
    Gf (recovery' ! 0) = Gf 5 * inverse (Gf 7 + Gf 2) + Gf 6 * inverse (Gf 7 + Gf 3)"
    using recovery_blocks_correct [OF g(2) example_world_ok(1) example_fair example_world_ok(2),
        of "[5, 6]" 1 "[9]" hosts 2 7 False] g(1) example_product by auto
qed

text \<open>
  C6. The threaded call agrees with the single-threaded reference: for any two environments, schedules,
  thread counts and cache states, what \<open>ComputeRecoveryBlocks\<close> returns is what \<open>MultiplyAccumulate\<close> returns
  for the matrix that \<open>BuildCauchyMatrix\<close> fills, serially or with stealing workers, word for word.
\<close>

theorem threads_equal_reference:
  assumes "engine_ready g" "sound_malloc world" "w_malloc world (nr * ni) \<noteq> None"
    "length inputs = ni * B" "length recovery = nr * B" "length out = nr * B" "0 < ni" "0 < nr"
    and run: "ComputeRecoveryBlocks world inputs ni recovery nr B fi fr numThreads False g = Some (recovery', g')"
    and build: "engine_ready h" "length M = nr * ni" "BuildCauchyMatrix getenv p tls schedule M ni nr fi fr h = Some (M', h')"
    and ref: "engine_ok k" "MultiplyAccumulate getenv' hosts' out nr inputs ni M' B k = Some (out', k')"
  shows "recovery' = out'"
proof -
  have M': "M' = cauchy_matrix ni nr fi fr"
    using build_cauchy_result(1) [OF engine_readyD(1,2) [OF build(1)] build(2,3)] build(1) by simp
  have "recovers inputs (cauchy_matrix ni nr fi fr) ni nr B False recovery recovery'"
    using recovery_blocks_result [OF engine_readyD [OF assms(1)] sound_mallocD [OF assms(2)] assms(4,5) run] assms(1,3,7,8)
    by (auto split: if_splits)
  moreover have "recovers inputs (cauchy_matrix ni nr fi fr) ni nr B False out out'"
    using multiply_accumulate_result [OF ref(1) assms(4) _ assms(6), of M' getenv' hosts'] ref(2) M' by auto
  then have "recovers inputs (cauchy_matrix ni nr fi fr) ni nr B False recovery out'" by (simp add: recovers_def recovered_def)
  ultimately show ?thesis using recovers_unique by metis
qed

theorem threads_equal_reference_witness:
  "\<forall>hosts h. \<exists>g recovery' g' M' h' out' k'. EnsureDispatch (\<lambda>_. None) h engine_start = Some g \<and>
    ComputeRecoveryBlocks (example_world hosts) [5, 6] 2 [9] 1 1 2 7 3 False g = Some (recovery', g') \<and>
    BuildCauchyMatrix (\<lambda>_. None) (w_platform (example_world hosts)) [] (round_robin 8 3) [0, 0] 2 1 2 7 g = Some (M', h') \<and>
    MultiplyAccumulate (\<lambda>_. None) h [0] 1 [5, 6] 2 M' 1 g = Some (out', k') \<and> recovery' = out'"
proof (intro allI)
  fix hosts h
  let ?p = "w_platform (example_world hosts)"
  obtain g where g: "EnsureDispatch (\<lambda>_. None) h engine_start = Some g" "engine_ready g" by (rule engine_started)
  obtain recovery' g' where run: "ComputeRecoveryBlocks (example_world hosts) [5, 6] 2 [9] 1 1 2 7 3 False g = Some (recovery', g')"
    using recovery_blocks_correct [OF g(2) example_world_ok(1) example_fair example_world_ok(2),
        of "[5, 6]" 1 "[9]" hosts 2 7 False] by auto
  have fair: "fair_schedule 1 8 (round_robin 8 3)" by (simp add: fair_schedule_def count_round_robin)
  obtain M' h' where build: "BuildCauchyMatrix (\<lambda>_. None) ?p [] (round_robin 8 3) [0, 0] 2 1 2 7 g = Some (M', h')"
    using build_cauchy_ends [OF fair engine_readyD(1,2) [OF g(2)]] g(2) by blast
  have lM: "length M' = 1 * 2"
    using build_cauchy_result(1) [OF engine_readyD(1,2) [OF g(2)] _ build] g(2) by simp
  obtain out' k' where ref: "MultiplyAccumulate (\<lambda>_. None) h [0] 1 [5, 6] 2 M' 1 g = Some (out', k')"
    using multiply_accumulate_result [OF engine_readyD(1) [OF g(2)] _ lM, of "[5, 6]" 1 "[0]" "\<lambda>_. None" h] by auto
  have "recovery' = out'"
    by (rule threads_equal_reference [OF g(2) example_world_ok(1,2) _ _ _ _ _ run g(2) _ build engine_readyD(1) [OF g(2)] ref]) simp_all
  then show "\<exists>g recovery' g' M' h' out' k'. EnsureDispatch (\<lambda>_. None) h engine_start = Some g \<and>
    ComputeRecoveryBlocks (example_world hosts) [5, 6] 2 [9] 1 1 2 7 3 False g = Some (recovery', g') \<and>
    BuildCauchyMatrix (\<lambda>_. None) ?p [] (round_robin 8 3) [0, 0] 2 1 2 7 g = Some (M', h') \<and>
    MultiplyAccumulate (\<lambda>_. None) h [0] 1 [5, 6] 2 M' 1 g = Some (out', k') \<and> recovery' = out'"
    using g(1) run build ref by blast
qed

section \<open>Repair\<close>

text \<open>
  C11. \<open>SolveAndReconstruct\<close> solves the system of blocks: it answers 0 exactly with the only blocks that
  satisfy every equation, the system being regular, and -1 only for a singular system or when a temporary
  block could not be had. The dispatch need not be bound before.
\<close>

theorem solve_and_reconstruct_correct:
  assumes "engine_ok g" "length A = n * n" "length rhs = n * B"
  shows "\<exists>rc A' rhs' g'. SolveAndReconstruct getenv hosts tmp_ok A rhs n B g = Some ((rc, A', rhs'), g') \<and> engine_ok g' \<and>
    (rc = 0 \<and> \<not> singular A n \<and> length rhs' = n * B \<and> solves_blocks A rhs n B rhs' \<and>
        (\<forall>xs. length xs = n * B \<longrightarrow> solves_blocks A rhs n B xs \<longrightarrow> xs = rhs') \<or>
     rc = -1 \<and> (singular A n \<or> (\<exists>col<n. \<not> tmp_ok col)))"
proof (cases "n = 0")
  case True
  then show ?thesis using assms by (simp add: SolveAndReconstruct_def singular_def solves_blocks_def)
next
  case False
  obtain g1 where g1: "EnsureDispatch getenv hosts g = Some g1" "engine_ok g1" "dispatch_ok g1"
    using EnsureDispatch_ok [OF assms(1)] by blast
  let ?r = "repair_columns g1 tmp_ok n B n (A, rhs)"
  have run: "SolveAndReconstruct getenv hosts tmp_ok A rhs n B g =
      Some (case ?r of Inl (A, rhs) \<Rightarrow> (-1, A, rhs) | Inr (A, rhs) \<Rightarrow> (0, A, rhs), g1)"
    using False g1(1) by (simp add: SolveAndReconstruct_def)
  show ?thesis
  proof (cases ?r)
    case (Inl AR)
    then have "singular A n \<or> (\<exists>col<n. \<not> tmp_ok col)" using repair_result [OF g1(3) assms(2,3), of tmp_ok] by auto
    then show ?thesis using run Inl g1(2) by (cases AR) simp
  next
    case (Inr AR)
    obtain A' rhs' where AR: "AR = (A', rhs')" by fastforce
    have "length rhs' = n * B \<and> \<not> singular A n \<and> solves_blocks A rhs n B rhs' \<and>
        (\<forall>xs. length xs = n * B \<longrightarrow> solves_blocks A rhs n B xs \<longrightarrow> xs = rhs')"
      using repair_result [OF g1(3) assms(2,3), of tmp_ok] unfolding Inr AR by blast
    then show ?thesis using run g1(2) unfolding Inr AR by simp
  qed
qed

theorem solve_and_reconstruct_correct_witness:
  "\<forall>hosts. \<exists>rc A' rhs' g'. SolveAndReconstruct (\<lambda>_. None) hosts (\<lambda>_. True) [0, 1, 1, 1] [5, 6] 2 1 engine_start = Some ((rc, A', rhs'), g') \<and>
    (rc = 0 \<or> rc = -1) \<and> (rc = 0 \<longrightarrow> solves_blocks [0, 1, 1, 1] [5, 6] 2 1 rhs')"
proof
  fix hosts
  obtain rc A' rhs' g' where "SolveAndReconstruct (\<lambda>_. None) hosts (\<lambda>_. True) [0, 1, 1, 1] [5, 6] 2 1 engine_start = Some ((rc, A', rhs'), g')"
    "rc = 0 \<and> solves_blocks [0, 1, 1, 1] [5, 6] 2 1 rhs' \<or> rc = -1"
    using solve_and_reconstruct_correct [OF engine_start_ok(1), of "[0, 1, 1, 1]" 2 "[5, 6]" 1 "\<lambda>_. None" hosts "\<lambda>_. True"] by auto
  then show "\<exists>rc A' rhs' g'. SolveAndReconstruct (\<lambda>_. None) hosts (\<lambda>_. True) [0, 1, 1, 1] [5, 6] 2 1 engine_start = Some ((rc, A', rhs'), g') \<and>
    (rc = 0 \<or> rc = -1) \<and> (rc = 0 \<longrightarrow> solves_blocks [0, 1, 1, 1] [5, 6] 2 1 rhs')" by auto
qed

text \<open>
  Two runs over the same recovery rows, the second adding the surviving inputs: what is left of a row is
  the product of the lost inputs.
\<close>

lemma lost_sum:
  assumes "distinct lost" "set lost \<subseteq> {0..<ni}"
    and zero: "\<And>c w. c \<in> set lost \<Longrightarrow> w < B \<Longrightarrow> survivors ! (c * B + w) = 0"
    and same: "\<And>c w. c < ni \<Longrightarrow> c \<notin> set lost \<Longrightarrow> w < B \<Longrightarrow> survivors ! (c * B + w) = inputs ! (c * B + w)" and w: "w < B"
  shows "cauchy_product fi fr inputs ni B r w + cauchy_product fi fr survivors ni B r w =
    (\<Sum>j<length lost. cauchy_factor fi fr r (lost ! j) * Gf (inputs ! (lost ! j * B + w)))"
proof -
  let ?f = "\<lambda>c. cauchy_factor fi fr r c * Gf (inputs ! (c * B + w))"
  have "cauchy_product fi fr inputs ni B r w + cauchy_product fi fr survivors ni B r w =
      (\<Sum>c<ni. if c \<in> set lost then ?f c else 0)"
    unfolding cauchy_product_def sum.distrib [symmetric]
    by (rule sum.cong) (use zero same w in \<open>auto simp: mult.commute zero_gf_def [symmetric]\<close>)
  also have "\<dots> = (\<Sum>c\<in>set lost. ?f c)"
    using assms(2) by (subst sum.inter_restrict [symmetric]) (auto simp: Int_absorb1 lessThan_atLeast0)
  also have "\<dots> = (\<Sum>j<length lost. ?f (lost ! j))"
    using sum.reindex_bij_betw [OF bij_betw_nth [OF assms(1) refl refl], of ?f] by simp
  finally show ?thesis .
qed

lemma distinct_points:
  assumes "distinct ks" "set ks \<subseteq> {0..<n}" "n \<le> SIZE_MAX"
  shows "distinct (map (\<lambda>k. first + of_nat k :: 64 word) ks)"
proof -
  have "inj_on (\<lambda>k. first + of_nat k :: 64 word) (set ks)"
  proof (rule inj_onI)
    fix a b assume *: "a \<in> set ks" "b \<in> set ks" "first + of_nat a = (first + of_nat b :: 64 word)"
    have "unat (of_nat k :: 64 word) = k" if "k \<in> set ks" for k
      using that assms(2,3) by (auto simp: unat_of_nat SIZE_MAX_def)
    then show "a = b" using * by (metis add_left_cancel)
  qed
  then show ?thesis using assms(1) by (simp add: distinct_map)
qed

text \<open>
  C2. Encoding and repair are inverse to each other. Take the recovery blocks of some inputs, lose any
  \<open>n\<close> of the inputs, add the product of the survivors to the recovery blocks (a call that accumulates, with
  zeros in the place of the lost blocks), choose any \<open>n\<close> recovery rows and solve the system of their
  coefficients: the answer is 0 and the solution is the lost blocks, word for word. Input and recovery
  points must differ; the environments, schedules, thread counts and caches of the calls need not agree.
\<close>

theorem repair_recovers_lost_blocks:
  assumes ready: "engine_ready g" "sound_malloc world" "sound_malloc world2" "w_malloc world (nr * ni) \<noteq> None" "w_malloc world2 (nr * ni) \<noteq> None"
    and sizes: "length inputs = ni * B" "length survivors = ni * B" "length recovery = nr * B" "ni \<le> SIZE_MAX" "nr \<le> SIZE_MAX" "0 < ni" "0 < nr"
    and points: "\<forall>c<ni. \<forall>r<nr. fi + of_nat c \<noteq> fr + of_nat r"
    and encode: "ComputeRecoveryBlocks world inputs ni recovery nr B fi fr numThreads False g = Some (recovery1, g1)"
    and lost: "distinct lost" "length lost = n" "set lost \<subseteq> {0..<ni}"
      "\<forall>c\<in>set lost. \<forall>w<B. survivors ! (c * B + w) = 0"
      "\<forall>c<ni. c \<notin> set lost \<longrightarrow> (\<forall>w<B. survivors ! (c * B + w) = inputs ! (c * B + w))"
    and reduce: "ComputeRecoveryBlocks world2 survivors ni recovery1 nr B fi fr numThreads2 True g1 = Some (recovery2, g2)"
    and rows: "distinct rows" "length rows = n" "set rows \<subseteq> {0..<nr}"
    and system: "length A = n * n" "\<forall>i<n. \<forall>j<n. Gf (A ! (i * n + j)) = cauchy_factor fi fr (rows ! i) (lost ! j)"
      "length rhs = n * B" "\<forall>i<n. \<forall>w<B. rhs ! (i * B + w) = recovery2 ! (rows ! i * B + w)"
  shows "\<exists>A' rhs' g3. SolveAndReconstruct getenv hosts (\<lambda>_. True) A rhs n B g2 = Some ((0, A', rhs'), g3) \<and>
    length rhs' = n * B \<and> (\<forall>j<n. \<forall>w<B. rhs' ! (j * B + w) = inputs ! (lost ! j * B + w))"
proof -
  note r1 = recovery_blocks_result [OF engine_readyD [OF ready(1)] sound_mallocD [OF ready(2)] sizes(1,3) encode]
  have g1: "engine_ready g1" using r1 ready(1) by (simp add: engine_ready_def)
  have rec1: "length recovery1 = nr * B"
    "\<And>r w. r < nr \<Longrightarrow> w < B \<Longrightarrow> Gf (recovery1 ! (r * B + w)) = cauchy_product fi fr inputs ni B r w"
    using r1 ready(4) sizes(6,7) by (auto simp: recovers_cauchy split: if_splits)
  note r2 = recovery_blocks_result [OF engine_readyD [OF g1] sound_mallocD [OF ready(3)] sizes(2) rec1(1) reduce]
  have g2: "engine_ok g2" using r2 by simp
  have rec2: "Gf (recovery2 ! (r * B + w)) = (\<Sum>j<n. cauchy_factor fi fr r (lost ! j) * Gf (inputs ! (lost ! j * B + w)))" if "r < nr" "w < B" for r w
  proof -
    have "Gf (recovery2 ! (r * B + w)) = Gf (recovery1 ! (r * B + w)) + cauchy_product fi fr survivors ni B r w"
      using r2 ready(5) sizes(6,7) that by (simp add: recovers_cauchy)
    also have "\<dots> = (\<Sum>j<length lost. cauchy_factor fi fr r (lost ! j) * Gf (inputs ! (lost ! j * B + w)))"
      unfolding rec1(2) [OF that] by (rule lost_sum [OF lost(1,3) _ _ that(2)]) (use lost(4,5) in blast)+
    finally show ?thesis by (simp add: lost(2))
  qed
  define xs where "xs = map (\<lambda>c. fi + of_nat c) lost"
  define ys where "ys = map (\<lambda>r. fr + of_nat r) rows"
  have lost_lt: "lost ! j < ni" and rows_lt: "rows ! j < nr" if "j < n" for j
    using lost(2,3) rows(2,3) nth_mem [of j lost] nth_mem [of j rows] that by force+
  have "\<not> singular A n"
  proof (rule cauchy_regular [of xs ys])
    show "distinct xs" "distinct ys" unfolding xs_def ys_def using distinct_points lost(1,3) rows(1,3) sizes(4,5) by blast+
    show "length xs = n" "length ys = n" using lost(2) rows(2) by (simp_all add: xs_def ys_def)
    show "set xs \<inter> set ys = {}" unfolding xs_def ys_def set_map disjoint_iff
    proof (intro allI impI notI)
      fix x assume "x \<in> (\<lambda>c. fi + of_nat c) ` set lost" "x \<in> (\<lambda>r. fr + of_nat r) ` set rows"
      then obtain c r where "c \<in> set lost" "r \<in> set rows" "fi + of_nat c = fr + of_nat r" by auto
      then show False using points lost(3) rows(3) by (metis atLeastLessThan_iff subsetD)
    qed
    show "Gf (A ! (i * n + j)) = inverse (Gf (ys ! i) + Gf (xs ! j))" if "i < n" "j < n" for i j
      using system(2) that points lost_lt rows_lt lost(2) rows(2) by (simp add: cauchy_factor_def xs_def ys_def)
  qed
  then obtain A' rhs' g3 where s: "SolveAndReconstruct getenv hosts (\<lambda>_. True) A rhs n B g2 = Some ((0, A', rhs'), g3)" "length rhs' = n * B"
    "\<forall>xs. length xs = n * B \<longrightarrow> solves_blocks A rhs n B xs \<longrightarrow> xs = rhs'"
    using solve_and_reconstruct_correct [OF g2 system(1,3), of getenv hosts "\<lambda>_. True"] by auto
  define blocks where "blocks = map (\<lambda>p. inputs ! (lost ! (p div B) * B + p mod B)) [0..<n * B]"
  have blocks: "blocks ! (j * B + w) = inputs ! (lost ! j * B + w)" if "j < n" "w < B" for j w
    using flat_less [OF that] that by (simp add: blocks_def)
  have "solves_blocks A rhs n B blocks"
    unfolding solves_blocks_def using system(2,4) rec2 rows_lt by (simp add: blocks)
  then have "blocks = rhs'" using s(3) by (simp add: blocks_def)
  then show ?thesis using s(1,2) blocks by auto
qed

lemma example_points: "\<forall>c<2. \<forall>r<1. (2 :: 64 word) + of_nat c \<noteq> 7 + of_nat r"
proof (intro allI impI)
  fix c r :: nat assume "c < 2" "r < 1"
  then have "c = 0 \<or> c = 1" "r = 0" by auto
  moreover have "(2 :: 64 word) + of_nat 0 = 2" "(2 :: 64 word) + of_nat 1 = 3" "(7 :: 64 word) + of_nat 0 = 7" by simp_all
  moreover have "(2 :: 64 word) \<noteq> 7" "(3 :: 64 word) \<noteq> 7" by simp_all
  ultimately show "(2 :: 64 word) + of_nat c \<noteq> 7 + of_nat r" by metis
qed

theorem repair_recovers_lost_blocks_witness:
  "\<forall>hosts h. \<exists>g recovery1 g1 recovery2 g2 A' rhs' g3. EnsureDispatch (\<lambda>_. None) h engine_start = Some g \<and>
    ComputeRecoveryBlocks (example_world hosts) [5, 6] 2 [9] 1 1 2 7 3 False g = Some (recovery1, g1) \<and>
    ComputeRecoveryBlocks (example_world hosts) [5, 0] 2 recovery1 1 1 2 7 3 True g1 = Some (recovery2, g2) \<and>
    SolveAndReconstruct (\<lambda>_. None) h (\<lambda>_. True) [gf_rep (cauchy_factor 2 7 0 1)] [recovery2 ! 0] 1 1 g2 = Some ((0, A', rhs'), g3) \<and>
    rhs' ! 0 = 6"
proof (intro allI)
  fix hosts h
  note ok = example_world_ok(1,2)
  obtain g where g: "EnsureDispatch (\<lambda>_. None) h engine_start = Some g" "engine_ready g" by (rule engine_started)
  obtain recovery1 g1 where 1: "ComputeRecoveryBlocks (example_world hosts) [5, 6] 2 [9] 1 1 2 7 3 False g = Some (recovery1, g1)"
    "engine_ready g1" "length recovery1 = 1 * 1"
    using recovery_blocks_correct [OF g(2) ok(1) example_fair ok(2), of "[5, 6]" 1 "[9]" hosts 2 7 False] by auto
  obtain recovery2 g2 where 2: "ComputeRecoveryBlocks (example_world hosts) [5, 0] 2 recovery1 1 1 2 7 3 True g1 = Some (recovery2, g2)"
    using recovery_blocks_correct [OF 1(2) ok(1) example_fair ok(2) _ 1(3), of "[5, 0]" hosts 2 7 True] by auto
  have "\<exists>A' rhs' g3. SolveAndReconstruct (\<lambda>_. None) h (\<lambda>_. True) [gf_rep (cauchy_factor 2 7 0 1)] [recovery2 ! 0] 1 1 g2 =
      Some ((0, A', rhs'), g3) \<and> length rhs' = 1 * 1 \<and> (\<forall>j<1. \<forall>w<1. rhs' ! (j * 1 + w) = [5, 6] ! ([1] ! j * 1 + w))"
    by (rule repair_recovers_lost_blocks [OF g(2) ok(1) ok(1) ok(2) ok(2) _ _ _ _ _ _ _ example_points 1(1) _ _ _ _ _ 2,
          where rows = "[0]"])
      (auto simp: SIZE_MAX_def less_2_cases_iff)
  then show "\<exists>g recovery1 g1 recovery2 g2 A' rhs' g3. EnsureDispatch (\<lambda>_. None) h engine_start = Some g \<and>
    ComputeRecoveryBlocks (example_world hosts) [5, 6] 2 [9] 1 1 2 7 3 False g = Some (recovery1, g1) \<and>
    ComputeRecoveryBlocks (example_world hosts) [5, 0] 2 recovery1 1 1 2 7 3 True g1 = Some (recovery2, g2) \<and>
    SolveAndReconstruct (\<lambda>_. None) h (\<lambda>_. True) [gf_rep (cauchy_factor 2 7 0 1)] [recovery2 ! 0] 1 1 g2 = Some ((0, A', rhs'), g3) \<and>
    rhs' ! 0 = 6"
    using g(1) 1(1) 2 by force
qed

section \<open>The cache of matrices\<close>

text \<open>
  C8. The cache of coefficient matrices refines a list of keys in the order of their last use, of which
  eight are kept. A lookup answers the Cauchy matrix of its key, whether it was cached, built serially or
  built by stealing workers under any fair schedule, and moves the key to the front, dropping the oldest
  key beyond the eighth; it answers null, and changes nothing, exactly when the key is not cached and the
  allocation fails. Between two calls every cached matrix is the matrix of its key.
\<close>

theorem matrix_cache_refines_lru:
  assumes "engine_ready g" "\<forall>n m. malloc n = Some m \<longrightarrow> length m = n" "fair_schedule nr 8 schedule"
    and key_def: "key = \<lparr>key_numInputs = ni, key_numRecovery = nr, key_firstInput = fi, key_firstRecovery = fr\<rparr>"
  shows "\<exists>r g'. GetOrBuildCoeffMatrix getenv p malloc tls schedule ni nr fi fr g = Some (r, g') \<and> engine_ready g' \<and>
    (if malloc (nr * ni) = None \<and> key \<notin> set (coeff_lru g) then r = None \<and> g' = g
     else r = Some (cauchy_matrix ni nr fi fr) \<and> coeff_lru g' = lru_touch key (coeff_lru g)) \<and>
    (\<forall>k m. map_of (coeff_map g') k = Some m \<longrightarrow> k \<in> set (coeff_lru g') \<and> m = matrix_of_key k)"
proof -
  note g = engine_readyD [OF assms(1)]
  have malloc: "length m = n" if "malloc n = Some m" for n m using assms(2) that by blast
  obtain r g' where look: "GetOrBuildCoeffMatrix getenv p malloc tls schedule ni nr fi fr g = Some (r, g')"
    using get_or_build_ends [OF g(1,2) assms(3)] by blast
  note res = get_or_build_result [OF g malloc look, folded key_def]
  have ready: "engine_ready g'" using res assms(1) by (simp add: engine_ready_def)
  then have cached: "\<forall>k m. map_of (coeff_map g') k = Some m \<longrightarrow> k \<in> set (coeff_lru g') \<and> m = matrix_of_key k"
    by (auto simp: engine_ready_def cache_ok_def dest: map_of_SomeD intro: rev_image_eqI)
  have "malloc (nr * ni) = None \<and> key \<notin> set (coeff_lru g)" if "r = None" using res that by simp
  moreover have "r = None" if "malloc (nr * ni) = None \<and> key \<notin> set (coeff_lru g)"
  proof -
    have "map_of (coeff_map g) key = None" using that g(3) by (simp add: cache_ok_def map_of_eq_None_iff)
    then show ?thesis using look that by (simp add: GetOrBuildCoeffMatrix_def Let_def key_def)
  qed
  ultimately have none: "r = None \<longleftrightarrow> malloc (nr * ni) = None \<and> key \<notin> set (coeff_lru g)" by blast
  show ?thesis
  proof (cases "r = None")
    case True
    then show ?thesis using look res ready cached none by simp
  next
    case False
    then show ?thesis using look res ready cached none [THEN arg_cong [where f = Not], THEN iffD1, OF False] by (cases r) simp_all
  qed
qed

theorem matrix_cache_refines_lru_witness:
  "\<forall>hosts h. \<exists>g r g'. EnsureDispatch (\<lambda>_. None) h engine_start = Some g \<and>
    GetOrBuildCoeffMatrix (\<lambda>_. None) (w_platform (example_world hosts)) (\<lambda>n. Some (replicate n 0)) [] (round_robin 8 3) 2 1 2 7 g = Some (r, g') \<and>
    r = Some (cauchy_matrix 2 1 2 7) \<and>
    coeff_lru g' = [\<lparr>key_numInputs = 2, key_numRecovery = 1, key_firstInput = 2, key_firstRecovery = 7\<rparr>]"
proof (intro allI)
  fix hosts h
  obtain g where g: "EnsureDispatch (\<lambda>_. None) h engine_start = Some g" "engine_ready g" "coeff_lru g = []" by (rule engine_started)
  have fair: "fair_schedule 1 8 (round_robin 8 3)" by (simp add: fair_schedule_def count_round_robin)
  have "\<forall>n m. Some (replicate n (0 :: gf64_t)) = Some m \<longrightarrow> length m = n" by auto
  from matrix_cache_refines_lru [OF g(2) this fair refl, of "\<lambda>_. None" "w_platform (example_world hosts)" "[]" 2 2 7]
  show "\<exists>g r g'. EnsureDispatch (\<lambda>_. None) h engine_start = Some g \<and>
    GetOrBuildCoeffMatrix (\<lambda>_. None) (w_platform (example_world hosts)) (\<lambda>n. Some (replicate n 0)) [] (round_robin 8 3) 2 1 2 7 g = Some (r, g') \<and>
    r = Some (cauchy_matrix 2 1 2 7) \<and>
    coeff_lru g' = [\<lparr>key_numInputs = 2, key_numRecovery = 1, key_firstInput = 2, key_firstRecovery = 7\<rparr>]"
    using g by (auto simp: lru_touch_def COEFF_CACHE_MAX_def)
qed

section \<open>The threads\<close>

text \<open>
  C7. The threads of a call stay inside the arrays and never meet. Whatever the decomposition, shares of
  the inputs with one buffer each or rows and slices of the one buffer, and whatever the group sizes, every
  kernel call of every thread reads and writes inside its arrays, and no two threads write the same word.
\<close>

theorem threads_never_meet:
  assumes "engine_ok g" "length coeff = nr * ni" "0 < B"
    "ranges = input_ranges ni nr B tile accumulate n \<and> sizes = replicate n (nr * B) \<and> 0 < n \<and> n \<le> ni \<or>
     ranges = output_ranges ni nr B tile accumulate SR SB \<and> sizes = [nr * B] \<and> 0 < SB"
  shows "\<exists>progs g'. start_workers getenv hosts coeff ranges g = Some (progs, g') \<and> length progs = length ranges \<and>
    (\<forall>prog\<in>set progs. \<forall>oper\<in>set prog. op_in_bounds sizes (ni * B) (nr * ni) oper) \<and>
    (\<forall>t<length progs. \<forall>t'<length progs. \<forall>oper\<in>set (progs ! t). \<forall>oper'\<in>set (progs ! t'). \<forall>b p.
      op_touches oper b p \<longrightarrow> op_touches oper' b p \<longrightarrow> t = t')"
proof -
  let ?inp = "replicate (ni * B) (0 :: gf64_t)"
  have ok: "range_ok sizes (ni * B) (nr * ni) r" if r: "r \<in> set ranges" for r
    using assms(4)
  proof (elim disjE conjE)
    assume d: "ranges = input_ranges ni nr B tile accumulate n" "sizes = replicate n (nr * B)" "0 < n" "n \<le> ni"
    then obtain t where "t < n" "r = input_range ni nr B tile accumulate n t" using r by (auto simp: input_ranges_map)
    then show ?thesis using input_range_ok [of ?inp ni B coeff nr n t tile accumulate] assms(2) d(2,3) by simp
  next
    assume d: "ranges = output_ranges ni nr B tile accumulate SR SB" "sizes = [nr * B]"
    then obtain wr wb where "wr < SR" "wb < SB" "r = output_range ni nr B tile accumulate SR SB wr wb"
      using r by (auto simp: output_ranges_map)
    then show ?thesis using output_range_ok [of ?inp ni B coeff nr wr SR wb SB tile accumulate] assms(2,3) d(2) by simp
  qed
  have own: "t = t'" if t: "t < length ranges" "t' < length ranges" "range_owns (ranges ! t) b p" "range_owns (ranges ! t') b p" for t t' b p
    using assms(4)
  proof (elim disjE conjE)
    assume "ranges = input_ranges ni nr B tile accumulate n" "0 < n" "n \<le> ni"
    then show ?thesis using t by (simp add: input_ranges_map range_owns_def input_range_def)
  next
    assume d: "ranges = output_ranges ni nr B tile accumulate SR SB" "0 < SB"
    show ?thesis by (rule output_ranges_apart [OF assms(3) d(2) t [unfolded d(1)]])
  qed
  obtain K G g' where w: "start_workers getenv hosts coeff ranges g = Some (map (worker_ops K G coeff) ranges, g')"
  proof (cases "ranges = []")
    case True
    then show ?thesis using that [of 1 1 g] by simp
  next
    case False
    then show ?thesis using that start_workers_ok [OF assms(1) False, of getenv hosts coeff] by blast
  qed
  have "\<forall>oper\<in>set (worker_ops K G coeff r). op_in_bounds sizes (ni * B) (nr * ni) oper" if "r \<in> set ranges" for r
    by (rule worker_bounds [OF ok [OF that]])
  moreover have "t = t'" if "t < length ranges" "t' < length ranges" "oper \<in> set (worker_ops K G coeff (ranges ! t))"
      "oper' \<in> set (worker_ops K G coeff (ranges ! t'))" "op_touches oper b p" "op_touches oper' b p" for t t' oper oper' b p
    using own [OF that(1,2)] worker_touches that(3-6) by blast
  ultimately show ?thesis using w by auto
qed

theorem threads_never_meet_witness:
  "\<forall>hosts. \<exists>progs g'. start_workers (\<lambda>_. None) hosts [1, 2, 3, 4, 5, 6] (output_ranges 2 3 8 4 False 2 1) engine_start = Some (progs, g') \<and>
    length progs = length (output_ranges 2 3 8 4 False 2 1)"
proof
  fix hosts
  show "\<exists>progs g'. start_workers (\<lambda>_. None) hosts [1, 2, 3, 4, 5, 6] (output_ranges 2 3 8 4 False 2 1) engine_start = Some (progs, g') \<and>
    length progs = length (output_ranges 2 3 8 4 False 2 1)"
    using threads_never_meet [OF engine_start_ok(1), of "[1, 2, 3, 4, 5, 6]" 3 2 8 "output_ranges 2 3 8 4 False 2 1" 4 False 1 "[3 * 8]" 2 1
        "\<lambda>_. None" hosts] by auto
qed

section \<open>The other engines\<close>

text \<open>
  C10. The row-by-row engine gives the same recovery blocks: for any number of recovery rows, serially or
  with stealing workers under any fair schedule, with the inversion that the processor offers, the result
  is the Cauchy product, added to the old words when accumulating, and the engine stays ready.
\<close>

theorem barycentric_engine_correct:
  assumes "engine_ready g" "sound_malloc world" "fair_world world numThreads ni nr" "w_malloc world (nr * ni) \<noteq> None"
    "fair_schedule nr (nat (max numThreads 128)) (w_schedule world)"
    "length inputs = ni * B" "length recovery = nr * B" "0 < ni" "0 < B"
  shows "\<exists>recovery' g'. ComputeRecoveryBlocksBarycentric world denoms_tls coeffs_tls inputs ni recovery nr B fi fr numThreads accumulate g =
      Some (recovery', g') \<and> engine_ready g' \<and> length recovery' = nr * B \<and>
    (\<forall>r<nr. \<forall>w<B. Gf (recovery' ! (r * B + w)) =
      (if accumulate then Gf (recovery ! (r * B + w)) else 0) + cauchy_product fi fr inputs ni B r w)"
proof -
  let ?g = "ResetLastDecompositionPath g"
  have ready: "engine_ready ?g"
    using assms(1) cache_ok_same [of g ?g] by (simp add: engine_ready_def ResetLastDecompositionPath_def engine_ok_frame same_engine_def)
  consider "nr = 0" | "0 < nr" "nr \<le> 32" | "32 < nr" by linarith
  then show ?thesis
  proof cases
    case 1
    then show ?thesis using ready assms(7) by (simp add: ComputeRecoveryBlocksBarycentric_def Let_def)
  next
    case 2
    then have "ComputeRecoveryBlocksBarycentric world denoms_tls coeffs_tls inputs ni recovery nr B fi fr numThreads accumulate g =
        ComputeRecoveryBlocks world inputs ni recovery nr B fi fr numThreads accumulate ?g"
      using assms(8,9) by (simp add: ComputeRecoveryBlocksBarycentric_def Let_def)
    then show ?thesis using recovery_blocks_correct [OF ready assms(2,3,4,6,7,8), of fi fr accumulate] by simp
  next
    case 3
    obtain n g1 where s: "engine_ok g1" "dispatch_ok g1" "cache_ok g1" "\<not> inverse_batch_null g1" "1 \<le> n" "n \<le> nat (max numThreads 128)"
      and eq: "ComputeRecoveryBlocksBarycentric world denoms_tls coeffs_tls inputs ni recovery nr B fi fr numThreads accumulate g =
        barycentric_from world denoms_tls coeffs_tls inputs ni recovery nr B fi fr accumulate n g1"
      using barycentric_setup [OF engine_readyD(1,3) [OF assms(1)] _ 3 assms(9), of ni numThreads world denoms_tls coeffs_tls inputs recovery fi fr accumulate]
        assms(1,8) by blast
    have "fair_schedule nr n (w_schedule world)" using assms(5) s(6) by (simp add: fair_schedule_def)
    then obtain recovery' g' where run: "barycentric_from world denoms_tls coeffs_tls inputs ni recovery nr B fi fr accumulate n g1 = Some (recovery', g')"
      using barycentric_rows_end by (metis surj_pair)
    from barycentric_rows_result [OF s(2) assms(6,7) s(5) run] show ?thesis
      using eq run s by (simp add: recovers_cauchy engine_ready_def)
  qed
qed

theorem barycentric_engine_correct_witness:
  "\<forall>hosts h. \<exists>g recovery' g'. EnsureDispatch (\<lambda>_. None) h engine_start = Some g \<and>
    ComputeRecoveryBlocksBarycentric (example_world hosts) [] [] [5, 6] 2 (replicate 33 0) 33 1 2 7 4 True g = Some (recovery', g') \<and>
    Gf (recovery' ! 0) = Gf 5 * inverse (Gf 7 + Gf 2) + Gf 6 * inverse (Gf 7 + Gf 3)"
proof (intro allI)
  fix hosts h
  obtain g where g: "EnsureDispatch (\<lambda>_. None) h engine_start = Some g" "engine_ready g" by (rule engine_started)
  have fair: "fair_world (example_world hosts) 4 2 33" "fair_schedule 33 (nat (max 4 128)) (w_schedule (example_world hosts))"
    by (simp_all add: fair_world_def fair_schedule_def fair_threads_def example_world_def count_round_robin fenger_threads_override_def)
  have zero: "replicate 33 (0 :: gf64_t) ! 0 = 0" by (rule nth_replicate) simp
  obtain recovery' g' where run: "ComputeRecoveryBlocksBarycentric (example_world hosts) [] [] [5, 6] 2 (replicate 33 0) 33 1 2 7 4 True g = Some (recovery', g')"
    and rows: "\<forall>r<33. \<forall>w<1. Gf (recovery' ! (r * 1 + w)) = (if True then Gf (replicate 33 0 ! (r * 1 + w)) else 0) + cauchy_product 2 7 [5, 6] 2 1 r w"
    using barycentric_engine_correct [OF g(2) example_world_ok(1) fair(1) example_world_ok(2) fair(2), of "[5, 6]" 1 "replicate 33 0" "[]" "[]" 2 7 True]
    by auto
  have "Gf (recovery' ! 0) = Gf 5 * inverse (Gf 7 + Gf 2) + Gf 6 * inverse (Gf 7 + Gf 3)"
    using rows [rule_format, of 0 0] zero example_product by (simp add: zero_gf_def [symmetric])
  then show "\<exists>g recovery' g'. EnsureDispatch (\<lambda>_. None) h engine_start = Some g \<and>
    ComputeRecoveryBlocksBarycentric (example_world hosts) [] [] [5, 6] 2 (replicate 33 0) 33 1 2 7 4 True g = Some (recovery', g') \<and>
    Gf (recovery' ! 0) = Gf 5 * inverse (Gf 7 + Gf 2) + Gf 6 * inverse (Gf 7 + Gf 3)"
    using g(1) run by blast
qed

text \<open>
  C9. The Fenger engine gives the same recovery blocks. The counts are padded, the words shared among
  threads that run in any order, and a call whose ranges collide or cannot be padded falls back: the
  result is in every case the Cauchy product. The points must not wrap round 64 bits, or must differ.
\<close>

theorem fenger_engine_correct:
  fixes st :: "'a mpe_globals_scheme"
  assumes "engine_ready g" "poly_ready alloc st" "sound_malloc world" "fair_world world numThreads ni nr" "w_malloc world (nr * ni) \<noteq> None"
    "length inputs = ni * B" "length recovery = nr * B" "0 < ni" "0 < nr" "0 < B"
    "padded_count ni 0 = Some NI" "padded_count nr 0 = Some NR" "fenger_sizes base_x ni LX NI" "fenger_sizes base_y nr LY NR"
    "(\<forall>c<ni. \<forall>r<nr. fi + of_nat c \<noteq> fr + of_nat r) \<or> unat fi + ni \<le> UINT64_MAX \<and> unat fr + nr \<le> UINT64_MAX"
  shows "\<exists>recovery' g' st'. ComputeRecoveryBlocksFenger world alloc base_x base_y inputs ni recovery nr B fi fr numThreads g st =
      Some ((recovery', g'), st') \<and> weights_state_ok g' \<and> poly_ready alloc st' \<and> length recovery' = nr * B \<and>
    (\<forall>r<nr. \<forall>w<B. Gf (recovery' ! (r * B + w)) = cauchy_product fi fr inputs ni B r w)"
proof -
  have "fair_schedule nr 8 (w_build_schedule world)"
    "fair_threads (nat (max (fenger_threads_override (w_getenv world) numThreads) 128)) ((nr + 1) * (ni + 1)) (w_schedule world)"
    using assms(4) by (simp_all add: fair_world_def)
  from fenger_engine_result [OF engine_readyD [OF assms(1)] assms(2) sound_mallocD [OF assms(3)] assms(5-15) this]
  show ?thesis by (simp add: recovers_cauchy)
qed

theorem fenger_engine_correct_witness:
  "\<forall>hosts h. \<exists>g recovery' g' st'. EnsureDispatch (\<lambda>_. None) h engine_start = Some g \<and>
    ComputeRecoveryBlocksFenger (example_world hosts) fresh_allocator 800 4000 [5, 6] 2 [9] 1 1 2 7 3 g mpe_start = Some ((recovery', g'), st') \<and>
    Gf (recovery' ! 0) = Gf 5 * inverse (Gf 7 + Gf 2) + Gf 6 * inverse (Gf 7 + Gf 3)"
proof (intro allI)
  fix hosts h
  obtain g where g: "EnsureDispatch (\<lambda>_. None) h engine_start = Some g" "engine_ready g" by (rule engine_started)
  have pads: "padded_count 2 0 = Some 2" "padded_count 1 0 = Some 1" by (simp_all add: padded_count.simps SIZE_MAX_def)
  show "\<exists>g recovery' g' st'. EnsureDispatch (\<lambda>_. None) h engine_start = Some g \<and>
    ComputeRecoveryBlocksFenger (example_world hosts) fresh_allocator 800 4000 [5, 6] 2 [9] 1 1 2 7 3 g mpe_start = Some ((recovery', g'), st') \<and>
    Gf (recovery' ! 0) = Gf 5 * inverse (Gf 7 + Gf 2) + Gf 6 * inverse (Gf 7 + Gf 3)"
    using fenger_engine_correct [OF g(2) mpe_start_ready example_world_ok(1) example_fair example_world_ok(2) _ _ _ _ _ pads example_sizes(1,2)
        disjI1 [OF example_points], of "[5, 6]" 1 "[9]" hosts] g(1) example_product by auto
qed

text \<open>
  The guard against colliding ranges saturates the ends at the largest word and so overlooks a collision
  there: these four input points and this recovery point share a point.
\<close>

lemma collision_overlooked:
  "\<not> ranges_collide 18446744073709551612 4 18446744073709551615 1"
  "(18446744073709551612 :: 64 word) + of_nat 3 = 18446744073709551615 + of_nat 0"
  by (simp_all add: ranges_collide_def points_end_def UINT64_MAX_def)

section \<open>The entry on a file\<close>

text \<open>The words of a source file that the entry accepts: readable, not empty, a whole number of blocks, mapped.\<close>

definition source_words ::
  "environment \<Rightarrow> (string \<Rightarrow> int) \<Rightarrow> (int \<Rightarrow> nat option) \<Rightarrow> (int \<Rightarrow> nat \<Rightarrow> gf64_t list option) \<Rightarrow> string option \<Rightarrow> nat \<Rightarrow>
    gf64_t list option" where
  "source_words getenv os_open os_fstat os_mmap path B =
    (if (\<exists>e. getenv ''PAR3_GF64_USE_MMAP'' = Some e \<and> e \<noteq> [] \<and> atoi e = 1) \<and> B \<noteq> 0
     then do {
       path \<leftarrow> path;
       size \<leftarrow> (if os_open path < 0 then None else os_fstat (os_open path));
       if B * 8 \<le> size \<and> size mod (B * 8) = 0 then os_mmap (os_open path) size else None
     }
     else None)"

text \<open>
  C12. The entry on a file never leaves a part of its work behind, and its answer does not tell everything.
  When the switch is off or the file cannot be opened, measured, mapped or is not a positive whole number
  of blocks, it answers -1 and the recovery array and the state are as before. Otherwise it answers 0, and
  the recovery array holds the Cauchy product of the file's blocks, unless the coefficient matrix is neither
  in the cache nor can be allocated: then the answer is 0 as well and the recovery array is as before.
\<close>

theorem file_entry_all_or_nothing:
  assumes "engine_ready g" "sound_malloc world" "length recovery = nr * B"
    "\<forall>fd n ws. os_mmap fd n = Some ws \<longrightarrow> length ws = n div 8"
    and words_def: "words = source_words (w_getenv world) os_open os_fstat os_mmap path B"
  shows "(words = None \<longrightarrow> ComputeRecoveryBlocksFromFile world os_open os_fstat os_mmap path (Some recovery) nr B fi fr numThreads g =
      Some ((-1, Some recovery), g)) \<and>
    (\<forall>inputs. words = Some inputs \<longrightarrow> fair_world world numThreads (length inputs div B) nr \<longrightarrow>
      (\<exists>recovery' g'. ComputeRecoveryBlocksFromFile world os_open os_fstat os_mmap path (Some recovery) nr B fi fr numThreads g =
        Some ((0, Some recovery'), g') \<and> engine_ready g' \<and>
        (if w_malloc world (nr * (length inputs div B)) = None \<and>
            \<lparr>key_numInputs = length inputs div B, key_numRecovery = nr, key_firstInput = fi, key_firstRecovery = fr\<rparr> \<notin> set (coeff_lru g)
         then recovery' = recovery
         else length recovery' = nr * B \<and>
           (\<forall>r<nr. \<forall>w<B. Gf (recovery' ! (r * B + w)) = cauchy_product fi fr inputs (length inputs div B) B r w))))"
proof (intro conjI impI allI)
  assume "words = None"
  then show "ComputeRecoveryBlocksFromFile world os_open os_fstat os_mmap path (Some recovery) nr B fi fr numThreads g = Some ((-1, Some recovery), g)"
    by (auto simp: words_def source_words_def ComputeRecoveryBlocksFromFile_def Let_def split: option.splits if_splits bind_splits)
next
  fix inputs assume some: "words = Some inputs" and fair: "fair_world world numThreads (length inputs div B) nr"
  then obtain e p size where f: "w_getenv world ''PAR3_GF64_USE_MMAP'' = Some e" "e \<noteq> []" "atoi e = 1" "B \<noteq> 0" "path = Some p"
    "\<not> os_open p < 0" "os_fstat (os_open p) = Some size" "B * 8 \<le> size" "size mod (B * 8) = 0" "os_mmap (os_open p) size = Some inputs"
    by (auto simp: words_def source_words_def bind_eq_Some_conv split: if_splits)
  obtain n where n: "size = n * (B * 8)" using f(9) by (metis dvd_def mod_eq_0_iff_dvd mult.commute)
  have li: "length inputs = n * B" using assms(4) f(10) n by simp
  then have ni: "length inputs div B = n" "size div (B * 8) = n" "0 < n" using f(4,8) n by (auto intro: gr0I)
  note g = engine_readyD [OF assms(1)] and malloc = sound_mallocD [OF assms(2)]
  obtain recovery' g' where run: "ComputeRecoveryBlocks world inputs n recovery nr B fi fr numThreads False g = Some (recovery', g')"
    using recovery_blocks_end [OF g malloc, where nr = nr and numThreads = numThreads and ni = n] fair ni(1)
    by (force simp: fair_world_def)
  have "ComputeRecoveryBlocksFromFile world os_open os_fstat os_mmap path (Some recovery) nr B fi fr numThreads g =
      Some ((0, Some recovery'), g')"
    using f ni(2) run by (simp add: ComputeRecoveryBlocksFromFile_def ComputeRecoveryBlocksFull_def Let_def)
  moreover note result = recovery_blocks_result [OF g malloc li assms(3) run]
  ultimately show "\<exists>recovery' g'. ComputeRecoveryBlocksFromFile world os_open os_fstat os_mmap path (Some recovery) nr B fi fr numThreads g =
        Some ((0, Some recovery'), g') \<and> engine_ready g' \<and>
        (if w_malloc world (nr * (length inputs div B)) = None \<and>
            \<lparr>key_numInputs = length inputs div B, key_numRecovery = nr, key_firstInput = fi, key_firstRecovery = fr\<rparr> \<notin> set (coeff_lru g)
         then recovery' = recovery
         else length recovery' = nr * B \<and>
           (\<forall>r<nr. \<forall>w<B. Gf (recovery' ! (r * B + w)) = cauchy_product fi fr inputs (length inputs div B) B r w))"
    using assms(1,3) ni by (auto simp: engine_ready_def recovers_cauchy split: if_splits)
qed

text \<open>A file of two blocks of one word, read with the switch on, with and without memory for the matrix.\<close>

definition file_world :: "(nat \<Rightarrow> nat \<Rightarrow> host) \<Rightarrow> bool \<Rightarrow> world" where
  "file_world hosts memory = (example_world hosts)
    \<lparr>w_getenv := (\<lambda>v. if v = ''PAR3_GF64_USE_MMAP'' then Some ''1'' else None),
     w_malloc := (\<lambda>n. if memory then Some (replicate n 0) else None)\<rparr>"

definition read_file :: "(nat \<Rightarrow> nat \<Rightarrow> host) \<Rightarrow> bool \<Rightarrow> engine_globals \<Rightarrow> ((int \<times> gf64_t list option) \<times> engine_globals) option" where
  "read_file hosts memory g = ComputeRecoveryBlocksFromFile (file_world hosts memory)
    (\<lambda>_. 3) (\<lambda>_. Some 16) (\<lambda>fd n. if n = 16 then Some [5, 6] else None) (Some ''source'') (Some [9]) 1 1 2 7 3 g"

theorem file_entry_all_or_nothing_witness:
  "\<forall>hosts h. \<exists>g recovery' g1 g2. EnsureDispatch (\<lambda>_. None) h engine_start = Some g \<and>
    read_file hosts True g = Some ((0, Some recovery'), g1) \<and>
    Gf (recovery' ! 0) = Gf 5 * inverse (Gf 7 + Gf 2) + Gf 6 * inverse (Gf 7 + Gf 3) \<and>
    read_file hosts False g = Some ((0, Some [9]), g2)"
proof (intro allI)
  fix hosts h
  let ?mmap = "\<lambda>(fd :: int) n. if n = 16 then Some [5, 6 :: gf64_t] else None"
  obtain g where g: "EnsureDispatch (\<lambda>_. None) h engine_start = Some g" "engine_ready g" "coeff_lru g = []" by (rule engine_started)
  have one: "atoi ''1'' = 1" by code_simp
  have words: "source_words (w_getenv (file_world hosts memory)) (\<lambda>_. 3) (\<lambda>_. Some 16) ?mmap (Some ''source'') 1 = Some [5, 6]" for memory
    by (simp add: source_words_def one file_world_def)
  have len: "length [5, 6 :: gf64_t] div 1 = 2" by simp
  have fair: "fair_world (file_world hosts memory) 3 2 1" for memory
    using example_fair [of hosts] by (simp add: file_world_def fair_world_def fenger_threads_override_def example_world_def numeral_2_eq_2)
  have sound: "sound_malloc (file_world hosts memory)" for memory
    by (cases memory) (simp_all add: file_world_def sound_malloc_def)
  have malloc: "w_malloc (file_world hosts True) n \<noteq> None" "w_malloc (file_world hosts False) n = None" for n
    by (simp_all add: file_world_def)
  have mapped: "\<forall>fd n ws. ?mmap fd n = Some ws \<longrightarrow> length ws = n div 8" by (auto split: if_splits)
  have size: "length [9 :: gf64_t] = 1 * 1" by simp
  note entry = file_entry_all_or_nothing [OF g(2) sound size mapped words [symmetric],
      where fi = 2 and fr = 7 and numThreads = 3, THEN conjunct2, rule_format, OF refl, unfolded len, OF fair, folded read_file_def]
  obtain recovery' g1 where 1: "read_file hosts True g = Some ((0, Some recovery'), g1)"
    "\<forall>r<1. \<forall>w<1. Gf (recovery' ! (r * 1 + w)) = cauchy_product 2 7 [5, 6] 2 1 r w"
    using entry [of True] malloc(1) by (auto split: if_splits)
  obtain g2 where "read_file hosts False g = Some ((0, Some [9]), g2)"
    using entry [of False] malloc(2) g(3) by auto
  then show "\<exists>g recovery' g1 g2. EnsureDispatch (\<lambda>_. None) h engine_start = Some g \<and>
    read_file hosts True g = Some ((0, Some recovery'), g1) \<and>
    Gf (recovery' ! 0) = Gf 5 * inverse (Gf 7 + Gf 2) + Gf 6 * inverse (Gf 7 + Gf 3) \<and>
    read_file hosts False g = Some ((0, Some [9]), g2)"
    using g(1) 1 example_product by auto
qed

end
