(* ===== verification/Spec2Isabelle.thy ===== *)
theory Spec2Isabelle
  imports Arithmetic_Correctness Region_Correctness Dispatch_Correctness Solve_Correctness
    Polynomial_Correctness Interpolation_Correctness Fenger_Correctness Engine_Correctness
begin

text \<open>
  A verification library for the native core of ParParPar: the GF(2^64) library of PAR3 recovery, in C, and
  the engine that applies it to blocks with many threads, in C++.

  The program. PAR3 recovery data are linear combinations, over the field
  GF(2)[x] / (x^64 + x^4 + x^3 + x + 1), of blocks of 64-bit words. src/gf64 holds the field
  arithmetic, the region kernels that apply a coefficient to a block in four instruction-set
  variants, the detection and dispatch that choose a variant, the linear solver for repair, and the
  polynomial code (products, division, multi-point evaluation, interpolation, FFTs). src/par3_engine*.cc
  hold the entry points that the addon calls: recovery blocks through a cached Cauchy matrix and a
  decomposition of the work among threads, row by row, or through the Fenger pipeline; and the
  reconstruction of lost blocks. The engines call the region kernels and inversions through the
  dispatched pointers, the Fenger engine calls gf64_fenger.c, and both fall back to the first.

  The theories, in the order of their imports:
  \<^item> Prelude: types, \<open>named_theorems\<close>, and the lemmas on loops (folds over index ranges), arrays
    (lists with update) and words that the components share.
  \<^item> GF64_Ring, GF64_Irreducible, GF64_Field: the abstract field \<open>gf\<close> (XOR and multiplication modulo
    the polynomial), with a certificate of irreducibility evaluated by the kernel.
  \<^item> GF64_Simd: the vector intrinsics the source uses; a register is its list of 64-bit lanes.
  \<^item> GF64_Mul, GF64_Square, GF64_Invert: gf64_single.c, gf64_inline.h, gf64_mul_avx512.c,
    gf64_square*.c, gf64_invert*.c, with the interfaces \<open>gf64_multiplier\<close> and \<open>gf64_inverter\<close>.
  \<^item> GF64_Accumulate, Region_Scalar, Region_SSSE3, Region_AVX2, Region_AVX512, Region_Kernels: the
    region kernels of gf64_region_*.c and the contract \<open>region_kernels\<close> that all four variants meet.
  \<^item> CPU_Detect, Probe_Threads: cpu_detect.c, sequentially and as a race of threads.
  \<^item> Dispatch: gf64_dispatch.c and gf64_elem_mul.c. A function pointer is the routine it is bound to;
    Dispatch_Correctness names the seven routines of every method.
  \<^item> Solve: gf64_solve.c.
  \<^item> Series, Poly_Mul: polynomials as power series of finite support over \<open>gf\<close>; Karatsuba
    multiplication (gf64_poly_mul_karatsuba.c) and the interface \<open>poly_multiplier\<close> that every product
    routine of the program meets.
  \<^item> Additive_FFT, Poly_Product: gf64_additive_fft.c, the monomial-basis transform and the product that
    the rest of the program calls, with its three tiers.
  \<^item> HQC_Cantor, HQC_Vindex, HQC_Tables, HQC_Butterfly, HQC_Cvt, HQC_Transform:
    gf64_additive_fft_hqc2026.c and gf64_cantor_basis.h, the matrix-free path: the Cantor points and the
    vanishing polynomials of their spans, the index hash, its registry and the per-thread table
    caches, the butterflies, the change of basis, and the transforms and products built on them.
  \<^item> HQC_Batch: the interleaved batch of the same file, eight transforms in the lanes of vectors. A batch
    is related to its lanes; every step is shown to act on each lane as the scalar code does.
  \<^item> Series_Division, Series_Roots: truncation, reversal and division of polynomials, their roots and
    derivatives, on the level of series.
  \<^item> Poly_Division, Subproduct, Multi_Point, Interpolation: gf64_mpe.c and gf64_subproduct.c: division by
    Newton iteration with its arena, the tree of products, the evaluation walk and the interpolation.
    \<open>returns\<close> says that a routine on the globals ends in a consistent state with a result of which a
    property holds; the routines are composed by its rules.
  \<^item> Barycentric: gf64_barycentric.c, with the one-time binding of the dispatch.
  \<^item> Fenger, Fenger_Interp, Fenger_Eval, Fenger_Run: gf64_fenger.c, the pipeline of recovery. Fenger
    holds the definitions; Fenger_Interp and Fenger_Eval show that the two batched walks compute for
    each of the \<open>K\<close> words what the single walks compute, with the shared products and reciprocals or
    word by word; Fenger_Run shows what a prepared context contains and what one word, a group of words
    and a range of words become.
  \<^item> Engine_State, Engine_Repair, Engine_Cauchy, Engine_Workers, Engine_Recovery: par3_engine.cc. Its
    globals extend those of the dispatch (\<open>engine_globals\<close>); \<open>engine_ok\<close> is their invariant. Engine_Repair is
    \<open>SolveAndReconstruct\<close>; Engine_Cauchy the matrices and their cache, an association list with the list of
    recent use; Engine_Workers the program of one thread as the list of its kernel calls (\<open>region_op\<close>) and
    what any interleaving of such programs does to the buffers; Engine_Recovery the decompositions and
    the entry points.
  \<^item> Row_Stealing: the atomic row counter of the asynchronous workers and the interface \<open>row_stealing\<close>:
    what a client proves of processing one row holds of all rows after any schedule that ends.
  \<^item> Engine_Barycentric, Engine_Fenger: par3_engine_barycentric.cc and par3_engine_fenger.cc.
  \<^item> Arithmetic_Correctness, Region_Correctness, Dispatch_Correctness, Solve_Correctness,
    Polynomial_Correctness, Interpolation_Correctness, Fenger_Correctness, Engine_Correctness: the
    properties.

  Conventions. A C array is a list, an index loop a fold over the index range, a pointer advance a
  \<open>drop\<close>; an operation returns the array it writes. Arguments that the source declares restrict are
  separate lists; where the source allows aliasing, a read of an element precedes its write in the
  model as in the code. \<open>size_t\<close> indices are natural numbers (an array that exists in memory has
  fewer than 2^64 bytes), except in Dispatch, where the wrap-around of the size computation is the
  point and words are used. An assertion or an abort is the None of an option, and so is a copy past the
  end of a scratch area whose size the routine is given (HQC_Transform).

  Bounds. The Euclidean loop of \<open>gf64_inverse\<close> is \<open>while_option\<close> and is proved to end; the batch
  versions run at most 128 iterations and are proved to need no more.

  Caches that threads share or keep (the point tables and their hashes) are an explicit state; a step
  is one call of a thread or its exit, and the memory allocator is a parameter that promises only
  not to hand out a block that is in use.

  Threads. A schedule is the sequence of the thread numbers in the order in which the threads act. One
  action is a kernel call on its blocks (the threads of a decomposition), an atomic increment or a row
  (the row-stealing workers), the run of a thread on its words (the Fenger engine). A schedule that
  leaves a thread unfinished has no result (None), so a theorem that a call returns asks for a fair one,
  in which every thread has as many turns as its program has steps: 2 n + 1 for the rows of a matrix of n
  rows, (R + 1) (N + 1) for the kernel calls of a thread, with at most 128 threads unless the caller asks
  for more. That the actions of different threads touch different words is proved, not assumed.

  The world. What the engine takes from outside is the record \<open>world\<close>: the environment, the answers of
  CPUID by the number of the query, the processor (affinity mask, topology, count), the allocator of
  matrices, which temporary blocks could be had, the measured speeds and the schedules. The calls on the
  source file (open, fstat, mmap) are arguments of the entry that makes them.

  The trees, the arena and the pipeline need sizes that are powers of two; 64 times the size must have
  a byte count (\<open>SIZE_MAX\<close>), which covers every scratch area. The areas the code passes down (8 K N words
  for the interpolation, (6 K + 4) R for the evaluation, an arena of 8 max(N, R)) are parameters of the
  walks, and the walks are proved to stay inside them.

  Not modelled: the N-API addon and its file streaming, the JavaScript front end, the GF(2^16) kernels of
  the PAR2 path, the hashers and the OpenCL backend, which are not part of the GF(2^64) core; of the
  engine, the detection of the topology, the Windows branch of \<open>GetEffectiveCpuCount\<close> and concurrent
  calls from several threads (the cache and the dispatch flag are not synchronised); the matrix-form
  entries of gf64_additive_fft_hqc2026.c and \<open>gf64_poly_invmod_mod\<close> of gf64_mpe.c, which have no caller in
  the program; null pointers and failing allocations, on which the code aborts, except where a failure
  is what a function reports (\<open>gf64_solve\<close>, the arena, the store of a tree) or passes over in silence
  (the coefficient matrix, without which the recovery blocks stay as they were). Prefetch instructions have
  no effect on results.
\<close>

end
